(* ===== verification/Prelude.thy ===== *)
theory Prelude imports Main "HOL-Library.Word" begin

text \<open>
  Shared vocabulary of the InitechOS verification library: the machine integer types of the C
  sources, the C casts between them, the outcome type of routines that can fail loud, and the
  generic lemmas on words, lists and maps that the component theories use.

  \<^item> \<open>u8\<close>, \<open>u16\<close>, \<open>u32\<close> are the fixed-width unsigned integers of \<open>stdint.h\<close>.
  \<^item> A routine that can reach one of the \<open>*_FAIL_LOUD()\<close> macros (\<open>abort\<close> hosted,
    \<open>__builtin_trap\<close> in the kernel) returns an \<open>option\<close>: \<open>None\<close> is the trap.
  \<^item> A loop the C text does not bound by a visible counter is a \<open>partial_function (option)\<close>,
    where \<open>None\<close> is "does not return"; its totality is a theorem of the component.
\<close>

unbundle bit_operations_syntax

type_synonym u8 = "8 word"
type_synonym u16 = "16 word"
type_synonym u32 = "32 word"

named_theorems cast_simps \<open>facts that remove C integer casts whose argument is in range\<close>
named_theorems frame_simps \<open>what an update of one cell leaves alone\<close>

section \<open>Casts\<close>

lemma unat_of_nat_u8 [cast_simps]: "n < 256 \<Longrightarrow> unat (of_nat n :: u8) = n"
  by (simp add: unat_of_nat take_bit_eq_mod)

lemma unat_of_nat_u16 [cast_simps]: "n < 65536 \<Longrightarrow> unat (of_nat n :: u16) = n"
  by (simp add: unat_of_nat take_bit_eq_mod)

lemma unat_of_nat_u32 [cast_simps]: "n < 4294967296 \<Longrightarrow> unat (of_nat n :: u32) = n"
  by (simp add: unat_of_nat take_bit_eq_mod)

lemma unat_u8_less [simp]: "unat (w :: u8) < 256"
  using unsigned_less [of w] by simp

lemma unat_u16_less [simp]: "unat (w :: u16) < 65536"
  using unsigned_less [of w] by simp

lemma unat_u32_less [simp]: "unat (w :: u32) < 4294967296"
  using unsigned_less [of w] by simp

text \<open>A sum or product of 32-bit numbers read as naturals.\<close>

definition wrap32 :: "nat \<Rightarrow> nat" where
  "wrap32 n = n mod 0x100000000"

lemma wrap32_id [simp]: "n < 0x100000000 \<Longrightarrow> wrap32 n = n"
  by (simp add: wrap32_def)

section \<open>Lists as arrays\<close>

text \<open>A C loop that copies \<open>n\<close> bytes into an array is a splice.\<close>

definition splice :: "'a list \<Rightarrow> nat \<Rightarrow> 'a list \<Rightarrow> 'a list" where
  "splice xs i ys = take i xs @ ys @ drop (i + length ys) xs"

lemma length_splice [simp]:
  "i + length ys \<le> length xs \<Longrightarrow> length (splice xs i ys) = length xs"
  by (simp add: splice_def)

lemma take_splice [simp]: "i \<le> length xs \<Longrightarrow> j \<le> i \<Longrightarrow> take j (splice xs i ys) = take j xs"
  by (simp add: splice_def min_def)

lemma nth_splice:
  "i + length ys \<le> length xs \<Longrightarrow> k < length xs \<Longrightarrow>
   splice xs i ys ! k = (if i \<le> k \<and> k < i + length ys then ys ! (k - i) else xs ! k)"
  by (auto simp: splice_def nth_append min_def)

lemma splice_Nil [simp]: "splice xs i [] = xs"
  by (simp add: splice_def)

text \<open>The window \<open>[off, off + n)\<close> of a buffer.\<close>

definition window :: "'a list \<Rightarrow> nat \<Rightarrow> nat \<Rightarrow> 'a list" where
  "window xs off n = take n (drop off xs)"

lemma length_window [simp]: "off + n \<le> length xs \<Longrightarrow> length (window xs off n) = n"
  by (simp add: window_def)

lemma window_0 [simp]: "window xs off 0 = []"
  by (simp add: window_def)

lemma take_window: "k \<le> n \<Longrightarrow> take k (window xs off n) = window xs off k"
  by (simp add: window_def min_def)

lemma drop_window: "drop k (window xs off n) = window xs (off + k) (n - k)"
  by (simp add: window_def drop_take add.commute)

lemma window_append: "window xs off m @ window xs (off + m) n = window xs off (m + n)"
  by (simp add: window_def take_add add.commute)

lemma window_splice_same: "off + length ys \<le> length xs \<Longrightarrow> window (splice xs off ys) off (length ys) = ys"
  by (simp add: window_def splice_def)

lemma window_nth: "i < n \<Longrightarrow> off + n \<le> length xs \<Longrightarrow> window xs off n ! i = xs ! (off + i)"
  by (simp add: window_def)

lemma window_cong:
  assumes "length xs = length ys" "off + n \<le> length xs"
    and "\<And>k. off \<le> k \<Longrightarrow> k < off + n \<Longrightarrow> xs ! k = ys ! k"
  shows "window xs off n = window ys off n"
  using assms by (intro nth_equalityI) (auto simp: window_def)

lemma splice_splice_next: "p + length a + length c \<le> length D \<Longrightarrow> splice (splice D p a) (p + length a) c = splice D p (a @ c)"
  by (simp add: splice_def add_ac)

lemma window_splice_apart:
  "p + length a \<le> length D \<Longrightarrow> q + n \<le> p \<or> p + length a \<le> q \<Longrightarrow> window (splice D p a) q n = window D q n"
proof (rule nth_equalityI)
  assume h: "p + length a \<le> length D" "q + n \<le> p \<or> p + length a \<le> q"
  then show l: "length (window (splice D p a) q n) = length (window D q n)" by (simp add: window_def)
  fix i assume "i < length (window (splice D p a) q n)"
  then have "i < n" "q + i < length D" using h by (auto simp: window_def)
  then show "window (splice D p a) q n ! i = window D q n ! i" using h by (auto simp: window_def nth_splice)
qed

end
