(* ===== verification/Mcb.thy ===== *)
theory Mcb imports Prelude begin

text \<open>
  The DOS memory arena of \<open>os/milton/mcb.c\<close>: the chain of 16-byte memory control blocks behind
  INT 21h AH=48h, 49h, 4Ah and 31h.

  The arena is addressed in paragraphs. A paragraph is 16 bytes and so is \<open>mcb_t\<close>, and the C code
  only looks at memory through \<open>mcb_hdr(a, para)\<close>, so the memory at \<open>a->base\<close> is modelled as the
  paragraphs read as \<open>mcb_t\<close> values: \<open>base a p\<close> is \<open>*mcb_hdr(a, p)\<close>, for every \<open>p\<close>, inside the
  arena or not. Owners, sizes and signatures keep their width; paragraph numbers are \<open>nat\<close>: a
  sum of a paragraph number below \<open>total_paras\<close> and a block's span stays below \<open>2 ^ 32\<close> for every
  arena that fits a 32-bit address space.

  Walks that the C text does not bound are \<open>partial_function (option)\<close>.
\<close>

section \<open>Data\<close>

abbreviation (input) MCB_SIG_NONTERMINAL :: u8 where "MCB_SIG_NONTERMINAL \<equiv> 0x4D"
abbreviation (input) MCB_SIG_TERMINAL :: u8 where "MCB_SIG_TERMINAL \<equiv> 0x5A"

abbreviation (input) MCB_OK :: nat where "MCB_OK \<equiv> 0"
abbreviation (input) MCB_ERR_DESTROYED :: nat where "MCB_ERR_DESTROYED \<equiv> 7"
abbreviation (input) MCB_ERR_INSUFFICIENT :: nat where "MCB_ERR_INSUFFICIENT \<equiv> 8"
abbreviation (input) MCB_ERR_BAD_BLOCK :: nat where "MCB_ERR_BAD_BLOCK \<equiv> 9"

abbreviation (input) MCB_OWNER_FREE :: u16 where "MCB_OWNER_FREE \<equiv> 0"
abbreviation (input) MCB_OWNER_ANY :: u16 where "MCB_OWNER_ANY \<equiv> 0xFFFF"
abbreviation (input) MCB_OWNER_SYSTEM :: u16 where "MCB_OWNER_SYSTEM \<equiv> 8"

record mcb_t =
  signature :: u8
  owner :: u16
  size_paras :: u16
  reserved :: "u8 list"

type_synonym paras = "nat \<Rightarrow> mcb_t"

record mcb_arena =
  base :: paras
  total_paras :: nat

definition sig_ok :: "u8 \<Rightarrow> bool" where
  "sig_ok s \<longleftrightarrow> s = MCB_SIG_NONTERMINAL \<or> s = MCB_SIG_TERMINAL"

definition mcb_zero_reserved :: "mcb_t \<Rightarrow> mcb_t" where
  "mcb_zero_reserved h = h\<lparr>reserved := replicate 11 0\<rparr>"

text \<open>\<open>mcb_hdr(a, p)\<close> as an lvalue: read it with \<open>base a p\<close>, write it with \<open>put_hdr\<close>.\<close>

definition put_hdr :: "mcb_arena \<Rightarrow> nat \<Rightarrow> mcb_t \<Rightarrow> mcb_arena" where
  "put_hdr a p h = a\<lparr>base := (base a)(p := h)\<rparr>"

text \<open>The paragraph of the header after the one at \<open>p\<close>.\<close>

definition next_para :: "mcb_arena \<Rightarrow> nat \<Rightarrow> nat" where
  "next_para a p = p + 1 + unat (size_paras (base a p))"

section \<open>Operations\<close>

definition mcb_init :: "paras \<Rightarrow> nat \<Rightarrow> mcb_arena" where
  "mcb_init mem n =
     put_hdr \<lparr>base = mem, total_paras = n\<rparr> 0
       (mcb_zero_reserved ((mem 0)\<lparr>signature := MCB_SIG_TERMINAL, owner := MCB_OWNER_FREE,
          size_paras := of_nat (n - 1)\<rparr>))"

definition mcb_set_arena_owner :: "mcb_arena \<Rightarrow> u16 \<Rightarrow> mcb_arena \<times> bool" where
  "mcb_set_arena_owner a own =
     (if total_paras a = 0 then (a, False)
      else let h = base a 0 in
        if signature h \<noteq> MCB_SIG_TERMINAL then (a, False)
        else if 1 + unat (size_paras h) \<noteq> total_paras a then (a, False)
        else (put_hdr a 0 (h\<lparr>owner := own\<rparr>), True))"

function mcb_chain_intact_from :: "mcb_arena \<Rightarrow> nat \<Rightarrow> bool" where
  "mcb_chain_intact_from a para =
     (if para \<ge> total_paras a then False
      else let h = base a para in
        if \<not> sig_ok (signature h) then False
        else let span = 1 + unat (size_paras h) in
          if para + span > total_paras a then False
          else if signature h = MCB_SIG_TERMINAL then para + span = total_paras a
          else mcb_chain_intact_from a (para + span))"
  by pat_completeness auto
termination
  by (relation "measure (\<lambda>(a, p). total_paras a - p)") auto

definition mcb_chain_intact :: "mcb_arena \<Rightarrow> bool" where
  "mcb_chain_intact a = (if total_paras a = 0 then False else mcb_chain_intact_from a 0)"

partial_function (option) mcb_coalesce_from :: "mcb_arena \<Rightarrow> nat \<Rightarrow> mcb_arena option" where
  "mcb_coalesce_from a para =
     (let h = base a para in
      if signature h = MCB_SIG_TERMINAL then Some a
      else let npara = next_para a para; n = base a npara in
        if owner h = MCB_OWNER_FREE \<and> owner n = MCB_OWNER_FREE
        then mcb_coalesce_from
               (put_hdr a para
                  (h\<lparr>size_paras := of_nat (unat (size_paras h) + 1 + unat (size_paras n)),
                     signature := signature n\<rparr>)) para
        else mcb_coalesce_from a npara)"

definition mcb_coalesce :: "mcb_arena \<Rightarrow> mcb_arena option" where
  "mcb_coalesce a = mcb_coalesce_from a 0"

partial_function (option) mcb_free_owner_from ::
    "mcb_arena \<Rightarrow> u16 \<Rightarrow> nat \<Rightarrow> nat \<Rightarrow> (mcb_arena \<times> nat) option" where
  "mcb_free_owner_from a own para freed =
     (let h = base a para;
          term = (signature h = MCB_SIG_TERMINAL);
          a' = (if owner h = own then put_hdr a para (h\<lparr>owner := MCB_OWNER_FREE\<rparr>) else a);
          freed' = (if owner h = own then freed + 1 else freed)
      in if term then Some (a', freed')
         else mcb_free_owner_from a' own (next_para a' para) freed')"

definition mcb_free_owner :: "mcb_arena \<Rightarrow> u16 \<Rightarrow> (mcb_arena \<times> nat) option" where
  "mcb_free_owner a own =
     (if own = MCB_OWNER_FREE then Some (a, 0)
      else if \<not> mcb_chain_intact a then Some (a, 0)
      else case mcb_free_owner_from a own 0 0 of
        None \<Rightarrow> None
      | Some (a', freed) \<Rightarrow>
          if freed \<noteq> 0 then
            (case mcb_coalesce a' of None \<Rightarrow> None | Some a'' \<Rightarrow> Some (a'', freed))
          else Some (a', freed))"

text \<open>The return value of \<open>mcb_stats\<close> with the two words it writes.\<close>

partial_function (option) mcb_stats_from ::
    "mcb_arena \<Rightarrow> nat \<Rightarrow> nat \<Rightarrow> nat \<Rightarrow> (nat \<times> nat) option" where
  "mcb_stats_from a para fr big =
     (let h = base a para; sz = unat (size_paras h);
          fr' = (if owner h = MCB_OWNER_FREE then fr + sz else fr);
          big' = (if owner h = MCB_OWNER_FREE \<and> sz > big then sz else big)
      in if signature h = MCB_SIG_TERMINAL then Some (fr', big')
         else mcb_stats_from a (next_para a para) fr' big')"

definition mcb_stats :: "mcb_arena \<Rightarrow> (bool \<times> nat \<times> nat) option" where
  "mcb_stats a =
     (if \<not> mcb_chain_intact a then Some (False, 0, 0)
      else case mcb_stats_from a 0 0 0 of
        None \<Rightarrow> None | Some (fr, big) \<Rightarrow> Some (True, fr, big))"

function mcb_find_header_from :: "mcb_arena \<Rightarrow> nat \<Rightarrow> nat \<Rightarrow> bool" where
  "mcb_find_header_from a header_para para =
     (let h = base a para in
      if para = header_para then True
      else if signature h = MCB_SIG_TERMINAL then False
      else let np = next_para a para in
        if np \<le> para \<or> np \<ge> total_paras a then False
        else mcb_find_header_from a header_para np)"
  by pat_completeness auto
termination
  by (relation "measure (\<lambda>(a, h, p). total_paras a - p)") auto

definition mcb_find_header :: "mcb_arena \<Rightarrow> nat \<Rightarrow> bool" where
  "mcb_find_header a header_para = mcb_find_header_from a header_para 0"

definition mcb_split :: "mcb_arena \<Rightarrow> nat \<Rightarrow> nat \<Rightarrow> nat \<Rightarrow> mcb_arena" where
  "mcb_split a hpara avail want =
     (let rpara = hpara + 1 + want;
          h = base a hpara;
          r = mcb_zero_reserved ((base a rpara)\<lparr>signature := signature h, owner := MCB_OWNER_FREE,
                size_paras := of_nat (avail - want - 1)\<rparr>);
          a' = put_hdr a rpara r
      in put_hdr a' hpara ((base a' hpara)\<lparr>signature := MCB_SIG_NONTERMINAL,
           size_paras := of_nat want\<rparr>))"

text \<open>
  Results of the INT 21h operations: the arena, the returned code, and the words written through
  the out pointers (\<open>None\<close> where the code leaves them alone).
\<close>

record mcb_reply =
  code :: nat
  out_data_para :: "nat option"
  out_largest :: "nat option"

definition reply :: "nat \<Rightarrow> mcb_reply" where
  "reply c = \<lparr>code = c, out_data_para = None, out_largest = None\<rparr>"

partial_function (option) mcb_alloc_from ::
    "mcb_arena \<Rightarrow> u16 \<Rightarrow> nat \<Rightarrow> nat \<Rightarrow> nat \<Rightarrow> (mcb_arena \<times> mcb_reply) option" where
  "mcb_alloc_from a own want para largest =
     (let h = base a para;
          term = (signature h = MCB_SIG_TERMINAL);
          sz = unat (size_paras h);
          largest' = (if owner h = MCB_OWNER_FREE \<and> sz > largest then sz else largest)
      in if owner h = MCB_OWNER_FREE \<and> sz \<ge> want then
           let a' = (if sz > want then mcb_split a para sz want else a);
               a'' = put_hdr a' para ((base a' para)\<lparr>owner := own\<rparr>)
           in Some (a'', (reply MCB_OK)\<lparr>out_data_para := Some (para + 1)\<rparr>)
         else if term then Some (a, (reply MCB_ERR_INSUFFICIENT)\<lparr>out_largest := Some largest'\<rparr>)
         else mcb_alloc_from a own want (next_para a para) largest')"

definition mcb_alloc :: "mcb_arena \<Rightarrow> u16 \<Rightarrow> nat \<Rightarrow> (mcb_arena \<times> mcb_reply) option" where
  "mcb_alloc a own want =
     (if \<not> mcb_chain_intact a then Some (a, reply MCB_ERR_DESTROYED)
      else case mcb_coalesce a of
        None \<Rightarrow> None
      | Some a' \<Rightarrow> mcb_alloc_from a' own want 0 0)"

definition mcb_free :: "mcb_arena \<Rightarrow> nat \<Rightarrow> u16 \<Rightarrow> (mcb_arena \<times> mcb_reply) option" where
  "mcb_free a data_para own =
     (if \<not> mcb_chain_intact a then Some (a, reply MCB_ERR_DESTROYED)
      else if data_para = 0 then Some (a, reply MCB_ERR_BAD_BLOCK)
      else let hpara = data_para - 1 in
        if \<not> mcb_find_header a hpara then Some (a, reply MCB_ERR_BAD_BLOCK)
        else let h = base a hpara in
          if owner h = MCB_OWNER_FREE then Some (a, reply MCB_ERR_BAD_BLOCK)
          else if own \<noteq> MCB_OWNER_ANY \<and> owner h \<noteq> own then Some (a, reply MCB_ERR_BAD_BLOCK)
          else case mcb_coalesce (put_hdr a hpara (h\<lparr>owner := MCB_OWNER_FREE\<rparr>)) of
            None \<Rightarrow> None
          | Some a' \<Rightarrow> Some (a', reply MCB_OK))"

definition mcb_setblock :: "mcb_arena \<Rightarrow> nat \<Rightarrow> nat \<Rightarrow> u16 \<Rightarrow> (mcb_arena \<times> mcb_reply) option" where
  "mcb_setblock a data_para want own =
     (if \<not> mcb_chain_intact a then Some (a, reply MCB_ERR_DESTROYED)
      else if data_para = 0 then Some (a, reply MCB_ERR_BAD_BLOCK)
      else let hpara = data_para - 1 in
        if \<not> mcb_find_header a hpara then Some (a, reply MCB_ERR_BAD_BLOCK)
        else let h = base a hpara in
          if owner h = MCB_OWNER_FREE then Some (a, reply MCB_ERR_BAD_BLOCK)
          else if own \<noteq> MCB_OWNER_ANY \<and> owner h \<noteq> own then Some (a, reply MCB_ERR_BAD_BLOCK)
          else let cur = unat (size_paras h);
                   stuck = Some (a, (reply MCB_ERR_INSUFFICIENT)\<lparr>out_largest := Some cur\<rparr>) in
            if want = cur then Some (a, reply MCB_OK)
            else if want < cur then
              (case mcb_coalesce (mcb_split a hpara cur want) of
                 None \<Rightarrow> None | Some a' \<Rightarrow> Some (a', reply MCB_OK))
            else if signature h \<noteq> MCB_SIG_TERMINAL then
              (let npara = hpara + 1 + cur; n = base a npara in
               if owner n = MCB_OWNER_FREE then
                 (let combined = cur + 1 + unat (size_paras n) in
                  if combined \<ge> want then
                    (let a1 = put_hdr a hpara (h\<lparr>size_paras := of_nat combined,
                                signature := signature n\<rparr>);
                         a2 = (if combined > want then mcb_split a1 hpara combined want else a1)
                     in case mcb_coalesce a2 of
                          None \<Rightarrow> None | Some a' \<Rightarrow> Some (a', reply MCB_OK))
                  else Some (a, (reply MCB_ERR_INSUFFICIENT)\<lparr>out_largest := Some combined\<rparr>))
               else stuck)
            else stuck)"

text \<open>The walk of \<open>mcb_keep_resident\<close> to the first block of a process: \<open>Some (Some p)\<close> at its
  header, \<open>Some None\<close> when the chain ends first.\<close>

partial_function (option) mcb_first_owned_from :: "mcb_arena \<Rightarrow> u16 \<Rightarrow> nat \<Rightarrow> nat option option" where
  "mcb_first_owned_from a own para =
     (let cand = base a para in
      if owner cand = own then Some (Some para)
      else if signature cand = MCB_SIG_TERMINAL then Some None
      else mcb_first_owned_from a own (next_para a para))"

definition mcb_keep_resident :: "mcb_arena \<Rightarrow> u16 \<Rightarrow> nat \<Rightarrow> (mcb_arena \<times> mcb_reply) option" where
  "mcb_keep_resident a psp_owner keep_data_paras =
     (if psp_owner = MCB_OWNER_FREE \<or> psp_owner = MCB_OWNER_SYSTEM
      then Some (a, reply MCB_ERR_BAD_BLOCK)
      else if \<not> mcb_chain_intact a then Some (a, reply MCB_ERR_DESTROYED)
      else case mcb_first_owned_from a psp_owner 0 of
        None \<Rightarrow> None
      | Some None \<Rightarrow> Some (a, reply MCB_ERR_BAD_BLOCK)
      | Some (Some para) \<Rightarrow>
          (let cur = unat (size_paras (base a para));
               keep = (if keep_data_paras > cur then cur else keep_data_paras);
               a1 = (if keep < cur then mcb_split a para cur keep else a);
               a2 = put_hdr a1 para ((base a1 para)\<lparr>owner := MCB_OWNER_SYSTEM\<rparr>)
           in case mcb_coalesce a2 of None \<Rightarrow> None | Some a' \<Rightarrow> Some (a', reply MCB_OK)))"

partial_function (option) mcb_keep_all_from ::
    "mcb_arena \<Rightarrow> u16 \<Rightarrow> nat \<Rightarrow> nat \<Rightarrow> (mcb_arena \<times> nat) option" where
  "mcb_keep_all_from a own para end_para =
     (let h = base a para;
          h' = (if own \<noteq> MCB_OWNER_FREE \<and> owner h = own then h\<lparr>owner := MCB_OWNER_SYSTEM\<rparr> else h);
          a' = put_hdr a para h';
          end' = (if owner h' = MCB_OWNER_SYSTEM then next_para a para else end_para)
      in if signature h' = MCB_SIG_TERMINAL then Some (a', end')
         else mcb_keep_all_from a' own (next_para a' para) end')"

definition mcb_keep_all :: "mcb_arena \<Rightarrow> u16 \<Rightarrow> (mcb_arena \<times> nat) option" where
  "mcb_keep_all a own =
     (if \<not> mcb_chain_intact a then Some (a, 0) else mcb_keep_all_from a own 0 0)"

partial_function (option) mcb_owned_block_from ::
    "mcb_arena \<Rightarrow> u16 \<Rightarrow> nat \<Rightarrow> nat \<Rightarrow> nat option option" where
  "mcb_owned_block_from a own off para =
     (let h = base a para;
          lo = (para + 1) * 16;
          hi = lo + unat (size_paras h) * 16
      in if owner h = own \<and> off \<ge> lo \<and> off < hi then Some (Some hi)
         else if signature h = MCB_SIG_TERMINAL then Some None
         else mcb_owned_block_from a own off (next_para a para))"

definition mcb_owned_block :: "mcb_arena \<Rightarrow> u16 \<Rightarrow> nat \<Rightarrow> nat option option" where
  "mcb_owned_block a own off =
     (if own = MCB_OWNER_FREE \<or> \<not> mcb_chain_intact a then Some None
      else mcb_owned_block_from a own off 0)"

end
