(* ===== verification/McbChain.thy ===== *)
theory McbChain imports Mcb begin

text \<open>
  The chain of an arena as a list of blocks \<open>(owner, size)\<close>, and what each loop of \<open>mcb.c\<close> computes
  on it. \<open>chain m t p bs\<close> holds when the headers from paragraph \<open>p\<close> on are those of \<open>bs\<close> and tile the
  arena up to paragraph \<open>t\<close>; \<open>live p bs\<close> are the blocks in use, each as its data paragraph, size and
  owner. The walks that \<open>Mcb\<close> leaves as \<open>partial_function\<close>s are shown to return on every chain, with
  the result of a function on the list (\<open>coalesce_blks\<close>, \<open>alloc_blks\<close>, \<open>carve\<close>, \<open>reown\<close>); the abstraction
  \<open>mcb_blocks\<close> reads the list back and \<open>mcb_moves\<close> says that an operation wrote headers only.
\<close>

type_synonym blk = "u16 \<times> nat"

definition holds_blk :: "mcb_t \<Rightarrow> blk \<Rightarrow> bool" where
  "holds_blk h b \<longleftrightarrow> owner h = fst b \<and> unat (size_paras h) = snd b"

fun chain :: "paras \<Rightarrow> nat \<Rightarrow> nat \<Rightarrow> blk list \<Rightarrow> bool" where
  "chain m t p [] = False"
| "chain m t p [b] = (holds_blk (m p) b \<and> signature (m p) = MCB_SIG_TERMINAL \<and> p + 1 + snd b = t)"
| "chain m t p (b # c # bs) =
     (holds_blk (m p) b \<and> signature (m p) = MCB_SIG_NONTERMINAL \<and> chain m t (p + 1 + snd b) (c # bs))"

fun heads :: "nat \<Rightarrow> blk list \<Rightarrow> nat set" where
  "heads p [] = {}"
| "heads p (b # bs) = insert p (heads (p + 1 + snd b) bs)"

fun live :: "nat \<Rightarrow> blk list \<Rightarrow> (nat \<times> nat \<times> u16) set" where
  "live p [] = {}"
| "live p (b # bs) =
     (if fst b \<noteq> MCB_OWNER_FREE then {(p + 1, snd b, fst b)} else {}) \<union> live (p + 1 + snd b) bs"

fun span :: "blk list \<Rightarrow> nat" where
  "span [] = 0"
| "span (b # bs) = 1 + snd b + span bs"

lemma span_append [simp]: "span (xs @ ys) = span xs + span ys"
  by (induction xs) auto

lemma heads_append [simp]: "heads p (xs @ ys) = heads p xs \<union> heads (p + span xs) ys"
  by (induction xs arbitrary: p) (auto simp: add.assoc)

lemma live_append [simp]: "live p (xs @ ys) = live p xs \<union> live (p + span xs) ys"
  by (induction xs arbitrary: p) (auto simp: add.assoc)

lemma heads_bounds: "q \<in> heads p bs \<Longrightarrow> p \<le> q \<and> q < p + span bs"
  by (induction bs arbitrary: p) fastforce+

lemma chain_span: "chain m t p bs \<Longrightarrow> p + span bs = t"
  by (induction m t p bs rule: chain.induct) auto

lemma chain_less: "chain m t p bs \<Longrightarrow> p < t"
  by (cases bs) (auto dest: chain_span)

lemma chain_size: "chain m t p bs \<Longrightarrow> b \<in> set bs \<Longrightarrow> p + 1 + snd b \<le> t"
  by (induction m t p bs rule: chain.induct) (auto dest: chain_less)

lemma chain_frame:
  "chain m t p bs \<Longrightarrow> (\<And>q. q \<in> heads p bs \<Longrightarrow> m' q = m q) \<Longrightarrow> chain m' t p bs"
  by (induction m t p bs rule: chain.induct) auto

lemma chain_unique: "chain m t p bs \<Longrightarrow> chain m t p cs \<Longrightarrow> bs = cs"
proof (induction m t p bs arbitrary: cs rule: chain.induct)
  case (2 m t p b)
  then show ?case by (cases cs; cases "tl cs") (auto simp: holds_blk_def prod_eq_iff)
next
  case (3 m t p b c bs)
  then show ?case by (cases cs; cases "tl cs") (auto simp: holds_blk_def prod_eq_iff)
qed simp

lemma chain_Cons:
  "bs \<noteq> [] \<Longrightarrow> chain m t p (b # bs) =
     (holds_blk (m p) b \<and> signature (m p) = MCB_SIG_NONTERMINAL \<and> chain m t (p + 1 + snd b) bs)"
  by (cases bs) auto

fun seg :: "paras \<Rightarrow> nat \<Rightarrow> blk list \<Rightarrow> bool" where
  "seg m p [] = True"
| "seg m p (b # bs) =
     (holds_blk (m p) b \<and> signature (m p) = MCB_SIG_NONTERMINAL \<and> seg m (p + 1 + snd b) bs)"

lemma chain_append:
  "ys \<noteq> [] \<Longrightarrow> chain m t p (xs @ ys) \<longleftrightarrow> seg m p xs \<and> chain m t (p + span xs) ys"
  by (induction xs arbitrary: p) (auto simp: chain_Cons add.assoc)

lemma seg_frame: "seg m p bs \<Longrightarrow> (\<And>q. q \<in> heads p bs \<Longrightarrow> m' q = m q) \<Longrightarrow> seg m' p bs"
  by (induction bs arbitrary: p) auto

lemma heads_not_ge: "p + span bs \<le> q \<Longrightarrow> q \<notin> heads p bs"
  using heads_bounds by fastforce

lemma heads_not_less: "q < p \<Longrightarrow> q \<notin> heads p bs"
  using heads_bounds by fastforce

declare mcb_chain_intact_from.simps [simp del] mcb_find_header_from.simps [simp del]

lemma intact_from_chain:
  "p < total_paras a \<Longrightarrow>
   mcb_chain_intact_from a p \<longleftrightarrow> (\<exists>bs. chain (base a) (total_paras a) p bs)"
proof (induction a p rule: mcb_chain_intact_from.induct)
  case (1 a p)
  let ?h = "base a p" and ?t = "total_paras a"
  let ?q = "p + (1 + unat (size_paras ?h))"
  have last: "(\<exists>bs. chain (base a) ?t p bs) \<longleftrightarrow> ?q = ?t" if "signature ?h = MCB_SIG_TERMINAL"
  proof
    assume "\<exists>bs. chain (base a) ?t p bs"
    then obtain bs where "chain (base a) ?t p bs" ..
    with that show "?q = ?t" by (cases bs; cases "tl bs") (auto simp: holds_blk_def)
  next
    assume "?q = ?t"
    with that have "chain (base a) ?t p [(owner ?h, unat (size_paras ?h))]"
      by (simp add: holds_blk_def)
    then show "\<exists>bs. chain (base a) ?t p bs" ..
  qed
  have more: "(\<exists>bs. chain (base a) ?t p bs) \<longleftrightarrow> (\<exists>bs. chain (base a) ?t ?q bs)"
    if "signature ?h = MCB_SIG_NONTERMINAL"
  proof
    assume "\<exists>bs. chain (base a) ?t p bs"
    then obtain bs where "chain (base a) ?t p bs" ..
    with that show "\<exists>bs. chain (base a) ?t ?q bs"
      by (cases bs; cases "tl bs") (auto simp: holds_blk_def)
  next
    assume "\<exists>bs. chain (base a) ?t ?q bs"
    then obtain bs where bs: "chain (base a) ?t ?q bs" ..
    then have "bs \<noteq> []" by auto
    with that bs have "chain (base a) ?t p ((owner ?h, unat (size_paras ?h)) # bs)"
      by (simp add: chain_Cons holds_blk_def)
    then show "\<exists>bs. chain (base a) ?t p bs" ..
  qed
  have bad: "\<not> chain (base a) ?t p bs" if "\<not> sig_ok (signature ?h)" for bs
    using that by (cases bs; cases "tl bs") (auto simp: sig_ok_def)
  have out: "\<not> chain (base a) ?t ?q bs" if "?q \<ge> ?t" for bs
    using that by (auto dest: chain_less)
  show ?case
  proof (cases "sig_ok (signature ?h)")
    case False
    with bad show ?thesis by (subst mcb_chain_intact_from.simps) (auto simp: Let_def)
  next
    case ok: True
    show ?thesis
    proof (cases "signature ?h = MCB_SIG_TERMINAL")
      case True
      with ok last "1.prems" show ?thesis by (subst mcb_chain_intact_from.simps) (auto simp: Let_def)
    next
      case False
      with ok have M: "signature ?h = MCB_SIG_NONTERMINAL" by (simp add: sig_ok_def)
      show ?thesis
      proof (cases "?q < ?t")
        case True
        then have "mcb_chain_intact_from a ?q \<longleftrightarrow> (\<exists>bs. chain (base a) ?t ?q bs)"
          using "1.IH" "1.prems" ok False by auto
        with True ok False more [OF M] "1.prems" show ?thesis
          by (subst mcb_chain_intact_from.simps) (simp add: Let_def)
      next
        case nl: False
        then have "\<not> mcb_chain_intact_from a ?q"
          by (subst mcb_chain_intact_from.simps) simp
        with nl ok False more [OF M] out "1.prems" show ?thesis
          by (subst mcb_chain_intact_from.simps) (auto simp: Let_def)
      qed
    qed
  qed
qed

lemma chain_hdr: "chain m t p (b # bs) \<Longrightarrow> holds_blk (m p) b"
  by (cases bs) auto

lemma chain_next: "chain (base a) t p (b # bs) \<Longrightarrow> next_para a p = p + 1 + snd b"
  by (auto simp: next_para_def holds_blk_def dest: chain_hdr)

lemma chain_term: "chain m t p (b # bs) \<Longrightarrow> signature (m p) = MCB_SIG_TERMINAL \<longleftrightarrow> bs = []"
  by (cases bs) auto

lemma chain_tl: "chain m t p (b # bs) \<Longrightarrow> bs \<noteq> [] \<Longrightarrow> chain m t (p + 1 + snd b) bs"
  by (cases bs) auto

lemmas chain_walk = chain_hdr chain_next chain_term chain_tl

text \<open>A block absorbs its successor: it takes the successor's span and its terminal-ness.\<close>

lemma absorb_chain:
  assumes ch: "chain m t p (b # c # bs)" and t: "t \<le> 65536"
    and sz: "sz = snd b + 1 + snd c"
  shows "chain (m(p := (m p)\<lparr>size_paras := of_nat sz,
            signature := signature (m (p + 1 + snd b))\<rparr>)) t p ((fst b, sz) # bs)"
    (is "chain ?m t p _")
proof -
  have ch2: "chain m t (p + 1 + snd b) (c # bs)" and hb: "holds_blk (m p) b"
    using ch by simp_all
  have "p + 1 + snd b + 1 + snd c \<le> t" using chain_size [OF ch2] by simp
  then have "holds_blk (?m p) (fst b, sz)"
    using hb t sz by (simp add: holds_blk_def cast_simps del: of_nat_add of_nat_Suc)
  moreover have "chain ?m t (p + 1 + sz) bs" if "bs \<noteq> []"
  proof -
    have "chain m t (p + 1 + sz) bs" using chain_tl [OF ch2 that] sz by (simp add: add.assoc)
    then show ?thesis by (rule chain_frame) (auto dest: heads_bounds)
  qed
  ultimately show ?thesis
    using ch2 sz by (cases "bs = []") (auto simp: chain_Cons)
qed

fun coalesce_blks :: "blk list \<Rightarrow> blk list" where
  "coalesce_blks [] = []"
| "coalesce_blks [b] = [b]"
| "coalesce_blks (b # c # bs) =
     (if fst b = MCB_OWNER_FREE \<and> fst c = MCB_OWNER_FREE
      then coalesce_blks ((MCB_OWNER_FREE, snd b + 1 + snd c) # bs)
      else b # coalesce_blks (c # bs))"

lemma coalesce_blks_Nil [simp]: "coalesce_blks bs = [] \<longleftrightarrow> bs = []"
  by (induction bs rule: coalesce_blks.induct) auto

lemma heads_first: "bs \<noteq> [] \<Longrightarrow> p \<in> heads p bs"
  by (cases bs) auto

lemma coalesce_heads_first: "bs \<noteq> [] \<Longrightarrow> p \<in> heads p (coalesce_blks bs)"
  by (simp add: heads_first)

lemma put_hdr_sel [simp]:
  "base (put_hdr a p h) = (base a)(p := h)" "total_paras (put_hdr a p h) = total_paras a"
  by (simp_all add: put_hdr_def)

lemma arena_eqI: "base a = base b \<Longrightarrow> total_paras a = total_paras b \<Longrightarrow> (a :: mcb_arena) = b"
  by simp

lemma coalesce_from_chain:
  assumes "chain (base a) (total_paras a) p bs" "total_paras a \<le> 65536"
  shows "\<exists>a'. mcb_coalesce_from a p = Some a' \<and> total_paras a' = total_paras a \<and>
           chain (base a') (total_paras a) p (coalesce_blks bs) \<and>
           (\<forall>q. q \<notin> heads p (coalesce_blks bs) \<longrightarrow> base a' q = base a q)"
  using assms
proof (induction bs arbitrary: a p rule: coalesce_blks.induct)
  case 1
  then show ?case by simp
next
  case (2 b)
  then have "mcb_coalesce_from a p = Some a"
    by (subst mcb_coalesce_from.simps) (simp add: Let_def)
  with 2 show ?case by simp
next
  case (3 b c bs)
  let ?h = "base a p" and ?t = "total_paras a"
  let ?q = "p + 1 + snd b"
  have hb: "holds_blk ?h b" and hM: "signature ?h = MCB_SIG_NONTERMINAL"
    and ch: "chain (base a) ?t ?q (c # bs)"
    using "3.prems"(1) by simp_all
  have nq: "next_para a p = ?q" using hb by (simp add: next_para_def holds_blk_def)
  have hc: "holds_blk (base a ?q) c" using ch by (cases bs) auto
  show ?case
  proof (cases "fst b = MCB_OWNER_FREE \<and> fst c = MCB_OWNER_FREE")
    case True
    let ?h' = "?h\<lparr>size_paras := of_nat (unat (size_paras ?h) + 1 + unat (size_paras (base a ?q))),
                signature := signature (base a ?q)\<rparr>"
    define a1 where "a1 = put_hdr a p ?h'"
    have t1 [simp]: "total_paras a1 = ?t" and b1: "base a1 = (base a)(p := ?h')"
      by (simp_all add: a1_def)
    let ?d = "(MCB_OWNER_FREE, snd b + 1 + snd c)"
    have step: "mcb_coalesce_from a p = mcb_coalesce_from a1 p"
      using True hb hc hM
      by (subst mcb_coalesce_from.simps) (simp add: Let_def nq holds_blk_def a1_def)
    have ch1: "chain (base a1) ?t p (?d # bs)"
      using absorb_chain [OF "3.prems", of "snd b + 1 + snd c"] True hb hc
      by (simp add: b1 holds_blk_def)
    have "\<exists>a'. mcb_coalesce_from a1 p = Some a' \<and> total_paras a' = total_paras a1 \<and>
            chain (base a') (total_paras a1) p (coalesce_blks (?d # bs)) \<and>
            (\<forall>q. q \<notin> heads p (coalesce_blks (?d # bs)) \<longrightarrow> base a' q = base a1 q)"
      by (rule "3.IH"(1) [OF True]) (use ch1 "3.prems"(2) in simp_all)
    then obtain a' where a': "mcb_coalesce_from a1 p = Some a'" "total_paras a' = ?t"
      "chain (base a') ?t p (coalesce_blks (?d # bs))"
      "\<forall>q. q \<notin> heads p (coalesce_blks (?d # bs)) \<longrightarrow> base a' q = base a1 q"
      by auto
    have "p \<in> heads p (coalesce_blks (?d # bs))" by (rule coalesce_heads_first) simp
    then have "base a' q = base a q" if "q \<notin> heads p (coalesce_blks (?d # bs))" for q
      using that a'(4) by (auto simp: b1)
    with a' step True show ?thesis by simp
  next
    case False
    have step: "mcb_coalesce_from a p = mcb_coalesce_from a ?q"
      using False hb hc hM by (subst mcb_coalesce_from.simps) (auto simp: Let_def nq holds_blk_def)
    from "3.IH"(2) [OF False ch "3.prems"(2)]
    obtain a' where a': "mcb_coalesce_from a ?q = Some a'" "total_paras a' = ?t"
      "chain (base a') ?t ?q (coalesce_blks (c # bs))"
      "\<forall>q. q \<notin> heads ?q (coalesce_blks (c # bs)) \<longrightarrow> base a' q = base a q"
      by auto
    have "p \<notin> heads ?q (coalesce_blks (c # bs))" by (rule heads_not_less) simp
    then have "base a' p = ?h" using a'(4) by blast
    then have "chain (base a') ?t p (b # coalesce_blks (c # bs))"
      using a'(3) hb hM by (simp add: chain_Cons)
    then show ?thesis using a' step False by auto
  qed
qed


section \<open>Facts about block lists\<close>

fun no_adj_free :: "blk list \<Rightarrow> bool" where
  "no_adj_free [] = True"
| "no_adj_free [b] = True"
| "no_adj_free (b # c # bs) =
     (\<not> (fst b = MCB_OWNER_FREE \<and> fst c = MCB_OWNER_FREE) \<and> no_adj_free (c # bs))"

lemma coalesce_span [simp]: "span (coalesce_blks bs) = span bs"
  by (induction bs rule: coalesce_blks.induct) auto

lemma coalesce_live [simp]: "live p (coalesce_blks bs) = live p bs"
  by (induction bs arbitrary: p rule: coalesce_blks.induct) (auto simp: add.assoc)

lemma coalesce_heads: "heads p (coalesce_blks bs) \<subseteq> heads p bs"
proof (induction bs arbitrary: p rule: coalesce_blks.induct)
  case (3 b c bs)
  show ?case
  proof (cases "fst b = MCB_OWNER_FREE \<and> fst c = MCB_OWNER_FREE")
    case True
    with "3.IH"(1) [OF True, of p] show ?thesis by (auto simp: add.assoc)
  next
    case False
    with "3.IH"(2) [OF False, of "p + 1 + snd b"] show ?thesis by auto
  qed
qed auto

lemma coalesce_hd: "bs \<noteq> [] \<Longrightarrow> fst (hd (coalesce_blks bs)) = fst (hd bs)"
  by (induction bs rule: coalesce_blks.induct) auto

lemma no_adj_free_Cons:
  "no_adj_free (b # bs) \<longleftrightarrow>
     no_adj_free bs \<and> (bs \<noteq> [] \<longrightarrow> fst b = MCB_OWNER_FREE \<longrightarrow> fst (hd bs) \<noteq> MCB_OWNER_FREE)"
  by (cases bs) auto

lemma no_adj_free_nonfree:
  "fst b \<noteq> MCB_OWNER_FREE \<Longrightarrow> no_adj_free (xs @ b # ys) \<longleftrightarrow> no_adj_free xs \<and> no_adj_free ys"
  by (induction xs rule: no_adj_free.induct) (auto simp: no_adj_free_Cons)

lemma coalesce_no_adj_free [simp]: "no_adj_free (coalesce_blks bs)"
proof (induction bs rule: coalesce_blks.induct)
  case (3 b c bs)
  then show ?case using coalesce_hd [of "c # bs"] by (auto simp: no_adj_free_Cons)
qed auto

lemma coalesce_id: "no_adj_free bs \<Longrightarrow> coalesce_blks bs = bs"
  by (induction bs rule: coalesce_blks.induct) auto

lemma coalesce_nonfree:
  "fst b \<noteq> MCB_OWNER_FREE \<Longrightarrow>
     coalesce_blks (xs @ b # ys) = coalesce_blks xs @ b # coalesce_blks ys"
proof (induction xs rule: coalesce_blks.induct)
  case 1
  then show ?case by (cases ys) auto
next
  case (2 c)
  then show ?case by (cases ys) auto
qed auto

lemma live_iff:
  "(d, s, own) \<in> live p bs \<longleftrightarrow>
     own \<noteq> MCB_OWNER_FREE \<and> (\<exists>xs ys. bs = xs @ (own, s) # ys \<and> d = p + span xs + 1)"
proof (induction bs arbitrary: p)
  case Nil
  then show ?case by simp
next
  case (Cons b bs)
  show ?case
  proof
    assume "(d, s, own) \<in> live p (b # bs)"
    then consider "b = (own, s)" "d = p + 1" "own \<noteq> MCB_OWNER_FREE"
      | "(d, s, own) \<in> live (p + 1 + snd b) bs"
      by (auto simp: prod_eq_iff split: if_splits)
    then show "own \<noteq> MCB_OWNER_FREE \<and> (\<exists>xs ys. b # bs = xs @ (own, s) # ys \<and> d = p + span xs + 1)"
    proof cases
      case 1
      then show ?thesis by (intro conjI exI [of _ "[]"] exI [of _ bs]) auto
    next
      case 2
      with Cons.IH obtain xs ys where "own \<noteq> MCB_OWNER_FREE" "bs = xs @ (own, s) # ys"
        "d = p + 1 + snd b + span xs + 1" by blast
      then show ?thesis by (intro conjI exI [of _ "b # xs"] exI [of _ ys]) auto
    qed
  next
    assume "own \<noteq> MCB_OWNER_FREE \<and> (\<exists>xs ys. b # bs = xs @ (own, s) # ys \<and> d = p + span xs + 1)"
    then show "(d, s, own) \<in> live p (b # bs)"
      by (elim conjE exE) (case_tac xs; auto simp: Cons.IH)
  qed
qed

lemma heads_iff: "q \<in> heads p bs \<longleftrightarrow> (\<exists>xs b ys. bs = xs @ b # ys \<and> q = p + span xs)"
proof (induction bs arbitrary: p)
  case Nil
  then show ?case by simp
next
  case (Cons b bs)
  show ?case
  proof
    assume "q \<in> heads p (b # bs)"
    then consider "q = p" | "q \<in> heads (p + 1 + snd b) bs" by auto
    then show "\<exists>xs c ys. b # bs = xs @ c # ys \<and> q = p + span xs"
    proof cases
      case 1
      then show ?thesis by (intro exI [of _ "[]"]) auto
    next
      case 2
      with Cons.IH obtain xs c ys where "bs = xs @ c # ys" "q = p + 1 + snd b + span xs" by blast
      then show ?thesis by (intro exI [of _ "b # xs"]) auto
    qed
  next
    assume "\<exists>xs c ys. b # bs = xs @ c # ys \<and> q = p + span xs"
    then show "q \<in> heads p (b # bs)"
      by (elim exE conjE) (case_tac xs; auto simp: Cons.IH)
  qed
qed

lemma live_bounds:
  "(d, s, own) \<in> live p bs \<Longrightarrow> p < d \<and> d + s \<le> p + span bs \<and> d - 1 \<in> heads p bs"
  by (induction bs arbitrary: p) (fastforce split: if_splits)+

text \<open>Two live blocks are the same or lie apart; no header lies in a live block's data.\<close>

lemma live_apart:
  "(d, s, own) \<in> live p bs \<Longrightarrow> (d', s', own') \<in> live p bs \<Longrightarrow>
     (d, s, own) = (d', s', own') \<or> d + s < d' \<or> d' + s' < d"
proof (induction bs arbitrary: p)
  case (Cons b bs)
  then show ?case
    using live_bounds [of d s own "p + 1 + snd b" bs] live_bounds [of d' s' own' "p + 1 + snd b" bs]
    by (auto split: if_splits)
qed simp

lemma head_not_in_live: "q \<in> heads p bs \<Longrightarrow> (d, s, own) \<in> live p bs \<Longrightarrow> q < d \<or> d + s \<le> q"
proof (induction bs arbitrary: p)
  case (Cons b bs)
  then show ?case
    using heads_bounds [of q "p + 1 + snd b" bs] live_bounds [of d s own "p + 1 + snd b" bs]
    by (auto split: if_splits)
qed simp

section \<open>Abstract operations on block lists\<close>

definition carve :: "u16 \<Rightarrow> nat \<Rightarrow> nat \<Rightarrow> blk list" where
  "carve own want sz =
     (if sz > want then [(own, want), (MCB_OWNER_FREE, sz - want - 1)] else [(own, sz)])"

lemma carve_simps [simp]:
  "carve own want sz \<noteq> []" "want \<le> sz \<Longrightarrow> span (carve own want sz) = 1 + sz"
  "want \<le> sz \<Longrightarrow> own \<noteq> MCB_OWNER_FREE \<Longrightarrow> live p (carve own want sz) = {(p + 1, want, own)}"
  by (auto simp: carve_def)

fun alloc_blks :: "u16 \<Rightarrow> nat \<Rightarrow> nat \<Rightarrow> nat \<Rightarrow> blk list \<Rightarrow> blk list \<times> mcb_reply" where
  "alloc_blks own want p largest [] =
     ([], (reply MCB_ERR_INSUFFICIENT)\<lparr>out_largest := Some largest\<rparr>)"
| "alloc_blks own want p largest (b # bs) =
     (if fst b = MCB_OWNER_FREE \<and> want \<le> snd b
      then (carve own want (snd b) @ bs, (reply MCB_OK)\<lparr>out_data_para := Some (p + 1)\<rparr>)
      else let (bs', r) = alloc_blks own want (p + 1 + snd b)
                 (if fst b = MCB_OWNER_FREE then max largest (snd b) else largest) bs
           in (b # bs', r))"

lemma split_hdr_chain:
  assumes ch: "chain (base a) (total_paras a) p (b # bs)" and t: "total_paras a \<le> 65536"
    and want: "want < snd b"
  shows "chain (base (mcb_split a p (snd b) want)) (total_paras a) p
           ((fst b, want) # (MCB_OWNER_FREE, snd b - want - 1) # bs)"
    and "q \<noteq> p \<Longrightarrow> q \<noteq> p + 1 + want \<Longrightarrow> base (mcb_split a p (snd b) want) q = base a q"
proof -
  let ?a' = "mcb_split a p (snd b) want" and ?t = "total_paras a"
  have sz: "snd b < 65536" using chain_size [OF ch] t by fastforce
  have hb: "holds_blk (base a p) b" using ch by (cases bs) auto
  show fr: "q \<noteq> p \<Longrightarrow> q \<noteq> p + 1 + want \<Longrightarrow> base ?a' q = base a q" for q
    by (simp add: mcb_split_def Let_def)
  have p': "holds_blk (base ?a' p) (fst b, want)" "signature (base ?a' p) = MCB_SIG_NONTERMINAL"
    using hb sz want by (simp_all add: mcb_split_def Let_def holds_blk_def cast_simps)
  have r': "holds_blk (base ?a' (p + 1 + want)) (MCB_OWNER_FREE, snd b - want - 1)"
    "signature (base ?a' (p + 1 + want)) = signature (base a p)"
    using sz want
    by (simp_all add: mcb_split_def Let_def holds_blk_def cast_simps mcb_zero_reserved_def
          del: of_nat_diff)
  have e: "p + 1 + want + 1 + (snd b - want - 1) = p + 1 + snd b" using want by simp
  show "chain (base ?a') ?t p ((fst b, want) # (MCB_OWNER_FREE, snd b - want - 1) # bs)"
  proof (cases bs)
    case Nil
    with ch p' r' e show ?thesis by simp
  next
    case (Cons c cs)
    have "chain (base a) ?t (p + 1 + snd b) bs" using ch Cons by simp
    then have "chain (base ?a') ?t (p + 1 + snd b) bs"
      by (rule chain_frame) (use want in \<open>auto dest!: heads_bounds intro!: fr\<close>)
    with ch p' r' e Cons show ?thesis by (simp add: chain_Cons)
  qed
qed

lemma put_owner_chain:
  assumes "chain m t p (b # bs)"
  shows "chain (m(p := (m p)\<lparr>owner := own\<rparr>)) t p ((own, snd b) # bs)"
proof (cases bs)
  case Nil
  with assms show ?thesis by (simp add: holds_blk_def)
next
  case (Cons c cs)
  have "chain m t (p + 1 + snd b) bs" using assms Cons by simp
  then have "chain (m(p := (m p)\<lparr>owner := own\<rparr>)) t (p + 1 + snd b) bs"
    by (rule chain_frame) (auto dest: heads_bounds)
  with assms Cons show ?thesis by (simp add: chain_Cons holds_blk_def)
qed


section \<open>Every walk refines its function on block lists\<close>

lemma chain_cons_frame:
  assumes "chain m t p (b # bs)" "bs \<noteq> []" "chain m' t (p + 1 + snd b) bs'" "m' p = m p"
  shows "chain m' t p (b # bs')"
proof -
  have "bs' \<noteq> []" using assms(3) by auto
  then show ?thesis using assms by (auto simp: chain_Cons)
qed


lemma mcb_split_total [simp]: "total_paras (mcb_split a p avail want) = total_paras a"
  by (simp add: mcb_split_def Let_def)

text \<open>Shrinking a block in place (or not, when the size is already right).\<close>

definition shrink :: "mcb_arena \<Rightarrow> nat \<Rightarrow> nat \<Rightarrow> nat \<Rightarrow> mcb_arena" where
  "shrink a p sz want = (if sz > want then mcb_split a p sz want else a)"

lemma shrink_chain:
  assumes ch: "chain (base a) (total_paras a) p (b # bs)" and t: "total_paras a \<le> 65536"
    and want: "want \<le> snd b"
  shows "chain (base (shrink a p (snd b) want)) (total_paras a) p (carve (fst b) want (snd b) @ bs)"
    and "total_paras (shrink a p (snd b) want) = total_paras a"
    and "q \<notin> heads p (carve own want (snd b)) \<Longrightarrow> base (shrink a p (snd b) want) q = base a q"
proof -
  show "total_paras (shrink a p (snd b) want) = total_paras a" by (simp add: shrink_def)
  show "chain (base (shrink a p (snd b) want)) (total_paras a) p (carve (fst b) want (snd b) @ bs)"
  proof (cases "want < snd b")
    case True
    with split_hdr_chain(1) [OF ch t True] show ?thesis by (simp add: shrink_def carve_def)
  next
    case False
    with ch want show ?thesis by (simp add: shrink_def carve_def)
  qed
  show "q \<notin> heads p (carve own want (snd b)) \<Longrightarrow> base (shrink a p (snd b) want) q = base a q"
    using split_hdr_chain(2) [OF ch t, of want q] by (auto simp: shrink_def carve_def)
qed

lemma carve_owner_chain:
  "chain m t p (carve o1 want sz @ bs) \<Longrightarrow>
     chain (m(p := (m p)\<lparr>owner := own\<rparr>)) t p (carve own want sz @ bs)"
  by (auto simp: carve_def simp del: chain.simps dest: put_owner_chain split: if_splits)

lemma alloc_from_chain:
  assumes "chain (base a) (total_paras a) p bs" "total_paras a \<le> 65536"
    and "alloc_blks own want p largest bs = (cs, r)"
  shows "\<exists>a'. mcb_alloc_from a own want p largest = Some (a', r) \<and> total_paras a' = total_paras a \<and>
           chain (base a') (total_paras a) p cs \<and>
           (\<forall>q. q \<notin> heads p bs \<union> heads p cs \<longrightarrow> base a' q = base a q)"
  using assms
proof (induction bs arbitrary: p largest cs)
  case Nil
  then show ?case by simp
next
  case (Cons b bs)
  let ?h = "base a p" and ?t = "total_paras a"
  note w = chain_walk [OF Cons.prems(1)]
  have hb: "owner ?h = fst b" "unat (size_paras ?h) = snd b" using w(1) by (simp_all add: holds_blk_def)
  show ?case
  proof (cases "fst b = MCB_OWNER_FREE \<and> want \<le> snd b")
    case True
    define a1 where "a1 = shrink a p (snd b) want"
    note a1 = shrink_chain [OF Cons.prems(1,2), of want, folded a1_def]
    have cs: "cs = carve own want (snd b) @ bs" "r = (reply MCB_OK)\<lparr>out_data_para := Some (p + 1)\<rparr>"
      using Cons.prems(3) True by auto
    have "chain ((base a1)(p := (base a1 p)\<lparr>owner := own\<rparr>)) ?t p cs"
      using carve_owner_chain [OF a1(1)] cs(1) True by simp
    moreover have "p \<in> heads p cs" by (simp add: cs carve_def)
    moreover have "mcb_alloc_from a own want p largest =
        Some (put_hdr a1 p ((base a1 p)\<lparr>owner := own\<rparr>), r)"
      using True hb cs by (subst mcb_alloc_from.simps) (simp add: Let_def a1_def shrink_def)
    ultimately show ?thesis using a1(2) a1(3) [where own = own] cs True by auto
  next
    case False
    let ?l = "if fst b = MCB_OWNER_FREE then max largest (snd b) else largest"
    obtain cs' where cs': "alloc_blks own want (p + 1 + snd b) ?l bs = (cs', r)" "cs = b # cs'"
      using Cons.prems(3) False by (auto split: prod.splits)
    show ?thesis
    proof (cases "bs = []")
      case True
      have "mcb_alloc_from a own want p largest = Some (a, r)"
        using False True hb w(3) cs' by (subst mcb_alloc_from.simps) (auto simp: Let_def max_def)
      with True cs' Cons.prems(1) show ?thesis by auto
    next
      case ne: False
      from Cons.IH [OF w(4) [OF ne] Cons.prems(2) cs'(1)]
      obtain a' where a': "mcb_alloc_from a own want (p + 1 + snd b) ?l = Some (a', r)"
        "total_paras a' = ?t" "chain (base a') ?t (p + 1 + snd b) cs'"
        "\<forall>q. q \<notin> heads (p + 1 + snd b) bs \<union> heads (p + 1 + snd b) cs' \<longrightarrow> base a' q = base a q"
        by auto
      have lt: "(if fst b = MCB_OWNER_FREE \<and> largest < snd b then snd b else largest) = ?l"
        by (auto simp: max_def)
      have "mcb_alloc_from a own want p largest = Some (a', r)"
        using False ne hb w(2,3) a'(1)
        by (subst mcb_alloc_from.simps) (auto simp only: Let_def hb lt add.assoc if_False simp_thms)
      moreover have "base a' p = ?h" using a'(4) by (simp add: heads_not_less)
      then have "chain (base a') ?t p cs"
        using chain_cons_frame [OF Cons.prems(1) ne a'(3)] cs'(2) by simp
      ultimately show ?thesis using a'(2,4) cs'(2) by auto
    qed
  qed
qed


definition reown :: "u16 \<Rightarrow> u16 \<Rightarrow> blk \<Rightarrow> blk" where
  "reown o1 o2 b = (if fst b = o1 then (o2, snd b) else b)"

lemma snd_reown [simp]: "snd (reown o1 o2 b) = snd b"
  by (simp add: reown_def)

lemma span_reown [simp]: "span (map (reown o1 o2) bs) = span bs"
  by (induction bs) auto

lemma heads_reown [simp]: "heads p (map (reown o1 o2) bs) = heads p bs"
  by (induction bs arbitrary: p) auto

lemma reown_put_chain:
  assumes "chain (base a) t p (b # bs)"
  shows "chain (base (if fst b = o1 then put_hdr a p ((base a p)\<lparr>owner := o2\<rparr>) else a)) t p
           (reown o1 o2 b # bs)"
  using assms put_owner_chain [OF assms, of o2] by (simp add: reown_def)

lemma free_owner_from_chain:
  assumes "chain (base a) (total_paras a) p bs"
  shows "\<exists>a'. mcb_free_owner_from a own p n =
             Some (a', n + length (filter (\<lambda>b. fst b = own) bs)) \<and>
           total_paras a' = total_paras a \<and>
           chain (base a') (total_paras a) p (map (reown own MCB_OWNER_FREE) bs) \<and>
           (\<forall>q. q \<notin> heads p bs \<longrightarrow> base a' q = base a q)"
  using assms
proof (induction bs arbitrary: a p n)
  case (Cons b bs)
  let ?h = "base a p" and ?t = "total_paras a"
  have ow: "owner ?h = fst b" using chain_hdr [OF Cons.prems] by (simp add: holds_blk_def)
  define a1 where "a1 = (if fst b = own then put_hdr a p (?h\<lparr>owner := MCB_OWNER_FREE\<rparr>) else a)"
  let ?n = "if fst b = own then n + 1 else n"
  have ch1: "chain (base a1) ?t p (reown own MCB_OWNER_FREE b # bs)"
    using reown_put_chain [OF Cons.prems] by (simp add: a1_def)
  have t1: "total_paras a1 = ?t" and fr1: "\<And>q. q \<noteq> p \<Longrightarrow> base a1 q = base a q"
    and sg: "signature (base a1 p) = signature ?h"
    by (simp_all add: a1_def)
  have step: "mcb_free_owner_from a own p n =
      (if bs = [] then Some (a1, ?n) else mcb_free_owner_from a1 own (p + 1 + snd b) ?n)"
    using ow chain_term [OF Cons.prems] chain_next [OF ch1]
    by (subst mcb_free_owner_from.simps) (simp add: Let_def a1_def)
  show ?case
  proof (cases "bs = []")
    case True
    with step ch1 t1 fr1 show ?thesis by auto
  next
    case False
    have "chain (base a1) (total_paras a1) (p + 1 + snd b) bs"
      using chain_tl [OF ch1 False] t1 by simp
    from Cons.IH [OF this, of ?n] obtain a' where
      a': "mcb_free_owner_from a1 own (p + 1 + snd b) ?n =
             Some (a', ?n + length (filter (\<lambda>b. fst b = own) bs))"
        "total_paras a' = ?t"
        "chain (base a') ?t (p + 1 + snd b) (map (reown own MCB_OWNER_FREE) bs)"
        "\<forall>q. q \<notin> heads (p + 1 + snd b) bs \<longrightarrow> base a' q = base a1 q"
      using t1 by auto
    have "base a' p = base a1 p" using a'(4) by (simp add: heads_not_less)
    with chain_cons_frame [OF ch1 False] a'(3)
    have "chain (base a') ?t p (map (reown own MCB_OWNER_FREE) (b # bs))" by simp
    then show ?thesis using a' step False fr1 by simp
  qed
qed simp

fun keep_end :: "nat \<Rightarrow> nat \<Rightarrow> blk list \<Rightarrow> nat" where
  "keep_end p e [] = e"
| "keep_end p e (b # bs) =
     keep_end (p + 1 + snd b) (if fst b = MCB_OWNER_SYSTEM then p + 1 + snd b else e) bs"

lemma keep_all_from_chain:
  assumes "chain (base a) (total_paras a) p bs" and own: "own \<noteq> MCB_OWNER_FREE"
  shows "\<exists>a'. mcb_keep_all_from a own p e =
             Some (a', keep_end p e (map (reown own MCB_OWNER_SYSTEM) bs)) \<and>
           total_paras a' = total_paras a \<and>
           chain (base a') (total_paras a) p (map (reown own MCB_OWNER_SYSTEM) bs) \<and>
           (\<forall>q. q \<notin> heads p bs \<longrightarrow> base a' q = base a q)"
  using assms(1)
proof (induction bs arbitrary: a p e)
  case (Cons b bs)
  let ?h = "base a p" and ?t = "total_paras a" and ?b = "reown own MCB_OWNER_SYSTEM b"
  have ow: "owner ?h = fst b" using chain_hdr [OF Cons.prems] by (simp add: holds_blk_def)
  define h1 where "h1 = (if own \<noteq> MCB_OWNER_FREE \<and> owner ?h = own
                         then ?h\<lparr>owner := MCB_OWNER_SYSTEM\<rparr> else ?h)"
  define a1 where "a1 = put_hdr a p h1"
  have "base a1 = base (if fst b = own then put_hdr a p (?h\<lparr>owner := MCB_OWNER_SYSTEM\<rparr>) else a)"
    using ow own by (simp add: a1_def h1_def)
  then have ch1: "chain (base a1) ?t p (?b # bs)"
    using reown_put_chain [OF Cons.prems, of own MCB_OWNER_SYSTEM] by simp
  have t1: "total_paras a1 = ?t" and fr1: "\<And>q. q \<noteq> p \<Longrightarrow> base a1 q = base a q"
    by (simp_all add: a1_def)
  have h1: "owner h1 = fst ?b" "signature h1 = signature ?h"
    using ow own by (simp_all add: h1_def reown_def)
  let ?e = "if fst ?b = MCB_OWNER_SYSTEM then p + 1 + snd b else e"
  have step: "mcb_keep_all_from a own p e =
      (if bs = [] then Some (a1, ?e) else mcb_keep_all_from a1 own (p + 1 + snd b) ?e)"
    using chain_term [OF Cons.prems] chain_next [OF ch1] chain_next [OF Cons.prems] h1
    by (subst mcb_keep_all_from.simps) (simp add: Let_def a1_def [symmetric] h1_def [symmetric])
  show ?case
  proof (cases "bs = []")
    case True
    with step ch1 t1 fr1 show ?thesis by auto
  next
    case False
    have "chain (base a1) (total_paras a1) (p + 1 + snd b) bs"
      using chain_tl [OF ch1 False] t1 by simp
    from Cons.IH [OF this, of ?e] obtain a' where
      a': "mcb_keep_all_from a1 own (p + 1 + snd b) ?e =
             Some (a', keep_end (p + 1 + snd b) ?e (map (reown own MCB_OWNER_SYSTEM) bs))"
        "total_paras a' = ?t"
        "chain (base a') ?t (p + 1 + snd b) (map (reown own MCB_OWNER_SYSTEM) bs)"
        "\<forall>q. q \<notin> heads (p + 1 + snd b) bs \<longrightarrow> base a' q = base a1 q"
      using t1 by auto
    have "base a' p = base a1 p" using a'(4) by (simp add: heads_not_less)
    with chain_cons_frame [OF ch1 False] a'(3)
    have "chain (base a') ?t p (map (reown own MCB_OWNER_SYSTEM) (b # bs))" by simp
    then show ?thesis using a' step False fr1 by simp
  qed
qed simp

definition free_sizes :: "blk list \<Rightarrow> nat list" where
  "free_sizes bs = map snd (filter (\<lambda>b. fst b = MCB_OWNER_FREE) bs)"

lemma stats_from_chain:
  "chain (base a) t p bs \<Longrightarrow>
     mcb_stats_from a p fr big = Some (fr + sum_list (free_sizes bs), foldl max big (free_sizes bs))"
proof (induction bs arbitrary: p fr big)
  case (Cons b bs)
  note w = chain_walk [OF Cons.prems]
  have mx: "(if big < snd b then snd b else big) = max big (snd b)" by (auto simp: max_def)
  show ?case
    using w(1-3) Cons.IH [OF w(4)]
    by (subst mcb_stats_from.simps)
      (cases "bs = []"; auto simp: Let_def holds_blk_def free_sizes_def mx)
qed simp

fun first_owned :: "u16 \<Rightarrow> nat \<Rightarrow> blk list \<Rightarrow> nat option" where
  "first_owned own p [] = None"
| "first_owned own p (b # bs) =
     (if fst b = own then Some p else first_owned own (p + 1 + snd b) bs)"

lemma first_owned_from_chain:
  "chain (base a) t p bs \<Longrightarrow> mcb_first_owned_from a own p = Some (first_owned own p bs)"
proof (induction bs arbitrary: p)
  case (Cons b bs)
  note w = chain_walk [OF Cons.prems]
  show ?case
    using w(1-3) Cons.IH [OF w(4)]
    by (subst mcb_first_owned_from.simps) (cases "bs = []"; auto simp: Let_def holds_blk_def)
qed simp

fun owned_block :: "u16 \<Rightarrow> nat \<Rightarrow> nat \<Rightarrow> blk list \<Rightarrow> nat option" where
  "owned_block own off p [] = None"
| "owned_block own off p (b # bs) =
     (if fst b = own \<and> (p + 1) * 16 \<le> off \<and> off < (p + 1) * 16 + snd b * 16
      then Some ((p + 1) * 16 + snd b * 16) else owned_block own off (p + 1 + snd b) bs)"

lemma owned_block_from_chain:
  "chain (base a) t p bs \<Longrightarrow> mcb_owned_block_from a own off p = Some (owned_block own off p bs)"
proof (induction bs arbitrary: p)
  case (Cons b bs)
  note w = chain_walk [OF Cons.prems]
  show ?case
    using w(1-3) Cons.IH [OF w(4)]
    by (subst mcb_owned_block_from.simps)
      (cases "bs = []"; auto simp: Let_def holds_blk_def algebra_simps)
qed simp

lemma find_header_from_chain:
  "chain (base a) (total_paras a) p bs \<Longrightarrow> mcb_find_header_from a h p \<longleftrightarrow> h \<in> heads p bs"
proof (induction bs arbitrary: p)
  case (Cons b bs)
  note w = chain_walk [OF Cons.prems]
  have "p + 1 + snd b < total_paras a" if "bs \<noteq> []"
    using chain_less [OF w(4) [OF that]] .
  with w(1-3) Cons.IH [OF w(4)] show ?case
    by (subst mcb_find_header_from.simps) (cases "bs = []"; auto simp: Let_def)
qed simp


section \<open>The block list of an arena\<close>

function mcb_blocks_from :: "mcb_arena \<Rightarrow> nat \<Rightarrow> blk list" where
  "mcb_blocks_from a p =
     (if p \<ge> total_paras a then []
      else (owner (base a p), unat (size_paras (base a p))) #
        (if signature (base a p) = MCB_SIG_TERMINAL then [] else mcb_blocks_from a (next_para a p)))"
  by pat_completeness auto
termination
  by (relation "measure (\<lambda>(a, p). total_paras a - p)") (auto simp: next_para_def)

declare mcb_blocks_from.simps [simp del]

definition mcb_blocks :: "mcb_arena \<Rightarrow> blk list" where
  "mcb_blocks a = mcb_blocks_from a 0"

definition mcb_live :: "mcb_arena \<Rightarrow> (nat \<times> nat \<times> u16) set" where
  "mcb_live a = live 0 (mcb_blocks a)"

definition mcb_wf :: "mcb_arena \<Rightarrow> bool" where
  "mcb_wf a \<longleftrightarrow> mcb_chain_intact a \<and> total_paras a \<le> 65536"

lemma chain_blocks: "chain (base a) (total_paras a) p bs \<Longrightarrow> mcb_blocks_from a p = bs"
proof (induction bs arbitrary: p)
  case (Cons b bs)
  note w = chain_walk [OF Cons.prems] and lt = chain_less [OF Cons.prems]
  show ?case
    using w(1-3) lt Cons.IH [OF w(4)]
    by (subst mcb_blocks_from.simps) (auto simp: holds_blk_def prod_eq_iff)
qed simp

lemma wf_chain: "mcb_wf a \<longleftrightarrow> total_paras a \<le> 65536 \<and> chain (base a) (total_paras a) 0 (mcb_blocks a)"
proof
  assume "mcb_wf a"
  then have "total_paras a \<noteq> 0" "mcb_chain_intact_from a 0" "total_paras a \<le> 65536"
    by (auto simp: mcb_wf_def mcb_chain_intact_def split: if_splits)
  moreover from this obtain bs where "chain (base a) (total_paras a) 0 bs"
    by (auto simp: intact_from_chain)
  ultimately show "total_paras a \<le> 65536 \<and> chain (base a) (total_paras a) 0 (mcb_blocks a)"
    using chain_blocks by (auto simp: mcb_blocks_def)
next
  assume *: "total_paras a \<le> 65536 \<and> chain (base a) (total_paras a) 0 (mcb_blocks a)"
  then have "0 < total_paras a" by (auto dest: chain_less)
  with * show "mcb_wf a"
    by (auto simp: mcb_wf_def mcb_chain_intact_def intact_from_chain)
qed

lemma wf_intact: "mcb_wf a \<Longrightarrow> mcb_chain_intact a"
  by (simp add: mcb_wf_def)

text \<open>What every operation does: the arena stays intact, its blocks are \<open>cs\<close>, and only
  paragraphs that are headers before or after are written.\<close>

definition mcb_moves :: "mcb_arena \<Rightarrow> mcb_arena \<Rightarrow> blk list \<Rightarrow> bool" where
  "mcb_moves a a' cs \<longleftrightarrow>
     total_paras a' = total_paras a \<and> mcb_wf a' \<and> mcb_blocks a' = cs \<and>
     (\<forall>q. q \<notin> heads 0 (mcb_blocks a) \<union> heads 0 cs \<longrightarrow> base a' q = base a q)"

lemma movesI:
  "total_paras a \<le> 65536 \<Longrightarrow> total_paras a' = total_paras a \<Longrightarrow>
   chain (base a') (total_paras a) 0 cs \<Longrightarrow>
   (\<And>q. q \<notin> heads 0 (mcb_blocks a) \<union> heads 0 cs \<Longrightarrow> base a' q = base a q) \<Longrightarrow> mcb_moves a a' cs"
  by (auto simp: mcb_moves_def wf_chain mcb_blocks_def chain_blocks)

lemma moves_refl: "mcb_wf a \<Longrightarrow> mcb_moves a a (mcb_blocks a)"
  by (simp add: mcb_moves_def)

lemma coalesce_moves:
  assumes "total_paras b \<le> 65536" "total_paras b = total_paras a" "chain (base b) (total_paras a) 0 bs"
    and "\<And>q. q \<notin> heads 0 (mcb_blocks a) \<union> heads 0 (coalesce_blks bs) \<Longrightarrow> base b q = base a q"
  shows "\<exists>a'. mcb_coalesce b = Some a' \<and> mcb_moves a a' (coalesce_blks bs)"
proof -
  have "\<exists>a'. mcb_coalesce_from b 0 = Some a' \<and> total_paras a' = total_paras b \<and>
          chain (base a') (total_paras b) 0 (coalesce_blks bs) \<and>
          (\<forall>q. q \<notin> heads 0 (coalesce_blks bs) \<longrightarrow> base a' q = base b q)"
    using assms by (intro coalesce_from_chain) simp_all
  then obtain a' where a': "mcb_coalesce_from b 0 = Some a'" "total_paras a' = total_paras b"
    "chain (base a') (total_paras b) 0 (coalesce_blks bs)"
    "\<forall>q. q \<notin> heads 0 (coalesce_blks bs) \<longrightarrow> base a' q = base b q"
    by blast
  have "mcb_moves a a' (coalesce_blks bs)"
    using a' assms by (intro movesI) auto
  with a'(1) show ?thesis by (simp add: mcb_coalesce_def)
qed

lemma block_at:
  assumes "mcb_wf a" "mcb_blocks a = xs @ b # ys"
  shows "seg (base a) 0 xs" "chain (base a) (total_paras a) (span xs) (b # ys)"
    "total_paras a \<le> 65536" "holds_blk (base a (span xs)) b"
    "mcb_find_header a (span xs)" "span xs + 1 + snd b + span ys = total_paras a"
proof -
  from assms have c: "chain (base a) (total_paras a) 0 (xs @ b # ys)"
    and t: "total_paras a \<le> 65536" by (simp_all add: wf_chain)
  then show "seg (base a) 0 xs" "chain (base a) (total_paras a) (span xs) (b # ys)"
    "total_paras a \<le> 65536" by (simp_all add: chain_append)
  then show "holds_blk (base a (span xs)) b" by (blast dest: chain_hdr)
  show "mcb_find_header a (span xs)"
    using find_header_from_chain [OF c, of "span xs"] by (simp add: mcb_find_header_def)
  show "span xs + 1 + snd b + span ys = total_paras a" using chain_span [OF c] by simp
qed

lemma find_header_wf: "mcb_wf a \<Longrightarrow> mcb_find_header a h \<longleftrightarrow> h \<in> heads 0 (mcb_blocks a)"
  using find_header_from_chain by (simp add: wf_chain mcb_find_header_def)

text \<open>Rebuild the whole chain after its tail at \<open>span xs\<close> was changed.\<close>

lemma chain_rebuild:
  assumes "seg m 0 xs" "chain m' t (span xs) zs" "\<And>q. q < span xs \<Longrightarrow> m' q = m q"
  shows "chain m' t 0 (xs @ zs)"
proof -
  have "zs \<noteq> []" using assms(2) by auto
  moreover have "seg m' 0 xs"
    using assms(1) by (rule seg_frame) (auto dest!: heads_bounds intro: assms(3))
  ultimately show ?thesis using assms(2) by (simp add: chain_append)
qed

end
