(* ===== verification/McbRefine.thy ===== *)
theory McbRefine imports McbChain begin

text \<open>
  The refinement lemmas: on an intact arena every operation of \<open>mcb.c\<close> returns, and the chain it
  leaves is the list operation's result on the chain it found.
\<close>

lemma coalesce_wf:
  assumes "mcb_wf a"
  shows "\<exists>a'. mcb_coalesce a = Some a' \<and> mcb_moves a a' (coalesce_blks (mcb_blocks a))"
  using assms by (intro coalesce_moves) (simp_all add: wf_chain)

lemma alloc_refines:
  assumes wf: "mcb_wf a"
    and spec: "alloc_blks own want 0 0 (coalesce_blks (mcb_blocks a)) = (cs, r)"
  shows "\<exists>a'. mcb_alloc a own want = Some (a', r) \<and> mcb_moves a a' cs"
proof -
  obtain b where b: "mcb_coalesce a = Some b" "mcb_moves a b (coalesce_blks (mcb_blocks a))"
    using coalesce_wf [OF wf] by blast
  then have bc: "chain (base b) (total_paras b) 0 (coalesce_blks (mcb_blocks a))"
    "total_paras b \<le> 65536" "total_paras b = total_paras a"
    by (auto simp: mcb_moves_def wf_chain)
  from alloc_from_chain [OF bc(1,2) spec]
  obtain a' where a': "mcb_alloc_from b own want 0 0 = Some (a', r)" "total_paras a' = total_paras b"
    "chain (base a') (total_paras b) 0 cs"
    "\<forall>q. q \<notin> heads 0 (coalesce_blks (mcb_blocks a)) \<union> heads 0 cs \<longrightarrow> base a' q = base b q"
    by blast
  have "q \<notin> heads 0 (mcb_blocks a) \<Longrightarrow> q \<notin> heads 0 (coalesce_blks (mcb_blocks a))" for q
    using coalesce_heads by blast
  then have "mcb_moves a a' cs"
    using a' b(2) bc by (intro movesI) (simp_all add: mcb_moves_def)
  with a'(1) b(1) wf show ?thesis by (simp add: mcb_alloc_def wf_intact)
qed

lemma alloc_blks_cases:
  assumes "alloc_blks own want p lg bs = (cs, r)"
  obtains (found) xs sz ys where "bs = xs @ (MCB_OWNER_FREE, sz) # ys" "want \<le> sz"
      "cs = xs @ carve own want sz @ ys"
      "r = (reply MCB_OK)\<lparr>out_data_para := Some (p + span xs + 1)\<rparr>"
      "\<forall>s. (MCB_OWNER_FREE, s) \<in> set xs \<longrightarrow> s < want"
  | (full) "cs = bs" "r = (reply MCB_ERR_INSUFFICIENT)\<lparr>out_largest := Some (foldl max lg (free_sizes bs))\<rparr>"
      "\<forall>s. (MCB_OWNER_FREE, s) \<in> set bs \<longrightarrow> s < want"
  using assms
proof (induction bs arbitrary: p lg cs thesis)
  case Nil
  then show ?case by (simp add: free_sizes_def)
next
  case (Cons b bs)
  show ?case
  proof (cases "fst b = MCB_OWNER_FREE \<and> want \<le> snd b")
    case True
    with Cons.prems(3) show ?thesis
      by (intro Cons.prems(1) [of "[]" "snd b" bs]) (auto simp: prod_eq_iff)
  next
    case False
    let ?l = "if fst b = MCB_OWNER_FREE then max lg (snd b) else lg"
    obtain cs' where cs': "alloc_blks own want (p + 1 + snd b) ?l bs = (cs', r)" "cs = b # cs'"
      using Cons.prems(3) False by (auto split: prod.splits)
    show ?thesis
    proof (rule Cons.IH [OF _ _ cs'(1)])
      fix xs sz ys
      assume "bs = xs @ (MCB_OWNER_FREE, sz) # ys" "want \<le> sz" "cs' = xs @ carve own want sz @ ys"
        "r = reply MCB_OK\<lparr>out_data_para := Some (p + 1 + snd b + span xs + 1)\<rparr>"
        "\<forall>s. (MCB_OWNER_FREE, s) \<in> set xs \<longrightarrow> s < want"
      with False cs'(2) show thesis
        by (intro Cons.prems(1) [of "b # xs" sz ys]) auto
    next
      assume "cs' = bs" "\<forall>s. (MCB_OWNER_FREE, s) \<in> set bs \<longrightarrow> s < want"
        "r = reply MCB_ERR_INSUFFICIENT\<lparr>out_largest := Some (foldl max ?l (free_sizes bs))\<rparr>"
      with False cs'(2) show thesis
        by (intro Cons.prems(2)) (auto simp: free_sizes_def)
    qed
  qed
qed

lemma free_refines:
  assumes wf: "mcb_wf a" and bl: "mcb_blocks a = xs @ (o1, sz) # ys"
    and o1: "o1 \<noteq> MCB_OWNER_FREE" "own = MCB_OWNER_ANY \<or> own = o1"
  shows "\<exists>a'. mcb_free a (span xs + 1) own = Some (a', reply MCB_OK) \<and>
           mcb_moves a a' (coalesce_blks (xs @ (MCB_OWNER_FREE, sz) # ys))"
proof -
  note b = block_at [OF wf bl]
  let ?h = "base a (span xs)"
  define a1 where "a1 = put_hdr a (span xs) (?h\<lparr>owner := MCB_OWNER_FREE\<rparr>)"
  have "chain (base a1) (total_paras a) 0 (xs @ (MCB_OWNER_FREE, sz) # ys)"
    using put_owner_chain [OF b(2)] by (intro chain_rebuild [OF b(1)]) (simp_all add: a1_def)
  then obtain a' where "mcb_coalesce a1 = Some a'"
      "mcb_moves a a' (coalesce_blks (xs @ (MCB_OWNER_FREE, sz) # ys))"
    using coalesce_moves [of a1 a] b(3) by (auto simp: a1_def bl)
  then show ?thesis
    using b(4,5) o1 wf
    by (auto simp: mcb_free_def wf_intact Let_def a1_def holds_blk_def)
qed

lemma reject_block:
  assumes wf: "mcb_wf a" and no: "\<And>s o1. (d, s, o1) \<in> mcb_live a \<Longrightarrow> own \<noteq> MCB_OWNER_ANY \<and> own \<noteq> o1"
    and d: "d \<noteq> 0" and fh: "mcb_find_header a (d - 1)" and fr: "owner (base a (d - 1)) \<noteq> MCB_OWNER_FREE"
  shows "own \<noteq> MCB_OWNER_ANY \<and> owner (base a (d - 1)) \<noteq> own"
proof -
  from fh wf obtain xs b ys where xs: "mcb_blocks a = xs @ b # ys" "d - 1 = span xs"
    by (auto simp: find_header_wf heads_iff)
  then have "owner (base a (d - 1)) = fst b"
    using block_at(4) [OF wf xs(1)] by (simp add: holds_blk_def)
  moreover have "(d, snd b, fst b) \<in> mcb_live a"
    using xs d fr calculation by (auto simp: mcb_live_def live_iff intro!: exI [of _ xs] exI [of _ ys])
  ultimately show ?thesis using no by auto
qed

lemma free_rejects:
  assumes "mcb_wf a" "\<not> (\<exists>s o1. (d, s, o1) \<in> mcb_live a \<and> (own = MCB_OWNER_ANY \<or> own = o1))"
  shows "mcb_free a d own = Some (a, reply MCB_ERR_BAD_BLOCK)"
  using reject_block [OF assms(1), of d own] assms
  by (auto simp: mcb_free_def wf_intact Let_def)

lemma setblock_rejects:
  assumes "mcb_wf a" "\<not> (\<exists>s o1. (d, s, o1) \<in> mcb_live a \<and> (own = MCB_OWNER_ANY \<or> own = o1))"
  shows "mcb_setblock a d want own = Some (a, reply MCB_ERR_BAD_BLOCK)"
  using reject_block [OF assms(1), of d own] assms
  by (auto simp: mcb_setblock_def wf_intact Let_def)

text \<open>The block list after the block at \<open>xs\<close> takes its room from \<open>sz\<close> paragraphs.\<close>

lemma shrink_moves:
  assumes wf: "mcb_wf a" and bl: "mcb_blocks a = xs @ zs"
    and m: "total_paras b = total_paras a" "chain (base b) (total_paras a) 0 (xs @ (o1, sz) # ys)"
      "\<And>q. q \<noteq> span xs \<Longrightarrow> base b q = base a q"
    and o1: "o1 \<noteq> MCB_OWNER_FREE" "o2 \<noteq> MCB_OWNER_FREE" and want: "want \<le> sz" and "zs \<noteq> []"
  defines "b1 \<equiv> shrink b (span xs) sz want"
  shows "\<exists>a'. mcb_coalesce (put_hdr b1 (span xs) ((base b1 (span xs))\<lparr>owner := o2\<rparr>)) = Some a' \<and>
           mcb_moves a a' (coalesce_blks (xs @ carve o2 want sz @ ys))"
proof -
  have t: "total_paras b \<le> 65536" using wf m(1) by (simp add: mcb_wf_def)
  have c: "seg (base b) 0 xs" "chain (base b) (total_paras b) (span xs) ((o1, sz) # ys)"
    using m(1,2) by (simp_all add: chain_append)
  note s = shrink_chain [OF c(2) t, simplified, OF want, folded b1_def]
  let ?b2 = "put_hdr b1 (span xs) ((base b1 (span xs))\<lparr>owner := o2\<rparr>)"
  let ?cs = "xs @ carve o2 want sz @ ys"
  have "chain (base ?b2) (total_paras a) 0 ?cs"
  proof (rule chain_rebuild [OF c(1)])
    show "chain (base ?b2) (total_paras a) (span xs) (carve o2 want sz @ ys)"
      using carve_owner_chain [OF s(1)] m(1) by simp
    show "base ?b2 q = base b q" if "q < span xs" for q
      using s(3) [of q o2] that heads_not_less [of q "span xs"] by simp
  qed
  moreover have h: "span xs \<in> heads 0 (mcb_blocks a)"
    using bl \<open>zs \<noteq> []\<close> by (auto simp: heads_first)
  moreover have "heads (span xs) (carve o2 want sz) \<subseteq> heads 0 (mcb_blocks a) \<union> heads 0 (coalesce_blks ?cs)"
  proof (cases "want < sz")
    case True
    then have "coalesce_blks ?cs =
        coalesce_blks xs @ (o2, want) # coalesce_blks ((MCB_OWNER_FREE, sz - want - 1) # ys)"
      using coalesce_nonfree [of "(o2, want)" xs] o1 by (simp add: carve_def)
    with True h show ?thesis by (simp add: carve_def heads_first)
  next
    case False
    with h show ?thesis by (simp add: carve_def)
  qed
  then have "base ?b2 q = base a q"
    if "q \<notin> heads 0 (mcb_blocks a) \<union> heads 0 (coalesce_blks ?cs)" for q
  proof -
    from that h have "q \<noteq> span xs" by auto
    moreover have "q \<notin> heads (span xs) (carve o2 want sz)"
      using that \<open>heads (span xs) (carve o2 want sz) \<subseteq> _\<close> by blast
    ultimately show ?thesis using s(3) [of q o2] m(3) [of q] by simp
  qed
  ultimately show ?thesis
    using s(2) t m(1) by (intro coalesce_moves) simp_all
qed


lemma put_same: "owner (base b p) = own \<Longrightarrow> put_hdr b p ((base b p)\<lparr>owner := own\<rparr>) = b"
  by (auto simp: put_hdr_def)

lemma shrink_owner:
  assumes "chain (base b) (total_paras b) p ((o1, sz) # ys)" "total_paras b \<le> 65536" "want \<le> sz"
  shows "owner (base (shrink b p sz want) p) = o1"
  using shrink_chain(1) [OF assms(1,2), simplified, OF assms(3)]
  by (auto simp: carve_def holds_blk_def dest!: chain_hdr split: if_splits)

text \<open>The same for a caller that keeps the owner.\<close>

lemma shrink_same_moves:
  assumes "mcb_wf a" "mcb_blocks a = xs @ zs" "zs \<noteq> []"
    and "total_paras b = total_paras a" "chain (base b) (total_paras a) 0 (xs @ (o1, sz) # ys)"
      "\<And>q. q \<noteq> span xs \<Longrightarrow> base b q = base a q"
    and "o1 \<noteq> MCB_OWNER_FREE" "want \<le> sz"
  shows "\<exists>a'. mcb_coalesce (shrink b (span xs) sz want) = Some a' \<and>
           mcb_moves a a' (coalesce_blks (xs @ carve o1 want sz @ ys))"
proof -
  have "total_paras b \<le> 65536" "chain (base b) (total_paras b) (span xs) ((o1, sz) # ys)"
    using assms(1,4,5) by (simp_all add: mcb_wf_def chain_append)
  from shrink_owner [OF this(2,1) assms(8)] shrink_moves [OF assms(1,2,4,5,6,7,7,8,3)]
  show ?thesis by (simp add: put_same)
qed

fun grow_room :: "nat \<Rightarrow> blk list \<Rightarrow> nat" where
  "grow_room cur [] = cur"
| "grow_room cur (n # ys) = (if fst n = MCB_OWNER_FREE then cur + 1 + snd n else cur)"

lemma setblock_refines:
  assumes wf: "mcb_wf a" and bl: "mcb_blocks a = xs @ (o1, cur) # ys"
    and o1: "o1 \<noteq> MCB_OWNER_FREE" "own = MCB_OWNER_ANY \<or> own = o1"
  shows "want = cur \<Longrightarrow> mcb_setblock a (span xs + 1) want own = Some (a, reply MCB_OK)" (is "_ \<Longrightarrow> ?same")
    and "want < cur \<Longrightarrow> \<exists>a'. mcb_setblock a (span xs + 1) want own = Some (a', reply MCB_OK) \<and>
           mcb_moves a a' (coalesce_blks (xs @ carve o1 want cur @ ys))" (is "_ \<Longrightarrow> ?less")
    and "cur < want \<Longrightarrow> want \<le> grow_room cur ys \<Longrightarrow>
         \<exists>a'. mcb_setblock a (span xs + 1) want own = Some (a', reply MCB_OK) \<and>
           mcb_moves a a' (coalesce_blks (xs @ carve o1 want (grow_room cur ys) @ tl ys))"
      (is "_ \<Longrightarrow> _ \<Longrightarrow> ?grow")
    and "cur < want \<Longrightarrow> grow_room cur ys < want \<Longrightarrow> mcb_setblock a (span xs + 1) want own =
           Some (a, (reply MCB_ERR_INSUFFICIENT)\<lparr>out_largest := Some (grow_room cur ys)\<rparr>)"
      (is "_ \<Longrightarrow> _ \<Longrightarrow> ?full")
proof -
  note b = block_at [OF wf bl, simplified]
  let ?p = "span xs" and ?t = "total_paras a"
  have h: "owner (base a ?p) = o1" "unat (size_paras (base a ?p)) = cur"
    using b(4) by (simp_all add: holds_blk_def)
  have c: "chain (base a) ?t 0 (xs @ (o1, cur) # ys)" using wf bl by (simp add: wf_chain)
  have trm: "signature (base a ?p) = MCB_SIG_TERMINAL \<longleftrightarrow> ys = []"
    using chain_term [OF b(2)] by simp
  have nxt: "holds_blk (base a (?p + 1 + cur)) n" if "ys = n # zs" for n zs
    using chain_tl [OF b(2)] that by (auto dest: chain_hdr)
  note ev = mcb_setblock_def wf_intact [OF wf] Let_def b(5) h o1(1)
  show "want = cur \<Longrightarrow> ?same" using o1(2) by (auto simp: ev)
  show "want < cur \<Longrightarrow> ?less"
    using shrink_same_moves [OF wf bl _ refl c, of want] o1
    by (auto simp: ev shrink_def)
  show "cur < want \<Longrightarrow> grow_room cur ys < want \<Longrightarrow> ?full"
    using o1(2) trm nxt by (cases ys) (auto simp: ev holds_blk_def)
  show "cur < want \<Longrightarrow> want \<le> grow_room cur ys \<Longrightarrow> ?grow"
  proof -
    assume w: "cur < want" "want \<le> grow_room cur ys"
    then obtain n zs where ys: "ys = n # zs" "fst n = MCB_OWNER_FREE" "want \<le> cur + 1 + snd n"
      by (cases ys) (auto split: if_splits)
    let ?c = "cur + 1 + snd n"
    let ?h = "(base a ?p)\<lparr>size_paras := of_nat ?c, signature := signature (base a (?p + 1 + cur))\<rparr>"
    define a1 where "a1 = put_hdr a ?p ?h"
    have "chain (base a1) ?t ?p ((o1, ?c) # zs)"
      using absorb_chain [of "base a" ?t ?p "(o1, cur)" n zs ?c] b(2,3) ys by (simp add: a1_def)
    then have "chain (base a1) ?t 0 (xs @ (o1, ?c) # zs)"
      by (rule chain_rebuild [OF b(1)]) (simp add: a1_def)
    then obtain a' where a': "mcb_coalesce (shrink a1 ?p ?c want) = Some a'"
        "mcb_moves a a' (coalesce_blks (xs @ carve o1 want ?c @ zs))"
      using shrink_same_moves [OF wf bl _ _ _ _ o1(1) ys(3), of a1 zs] by (auto simp: a1_def)
    have "mcb_setblock a (?p + 1) want own = Some (a', reply MCB_OK)"
      using a'(1) w o1(2) trm nxt [OF ys(1)] ys
      by (auto simp: ev holds_blk_def shrink_def a1_def)
    with a'(2) ys show ?grow by auto
  qed
qed

lemma free_owner_refines:
  assumes wf: "mcb_wf a" and own: "own \<noteq> MCB_OWNER_FREE"
  defines "n \<equiv> length (filter (\<lambda>b. fst b = own) (mcb_blocks a))"
  shows "\<exists>a'. mcb_free_owner a own = Some (a', n) \<and>
           mcb_moves a a' (if n = 0 then mcb_blocks a
             else coalesce_blks (map (reown own MCB_OWNER_FREE) (mcb_blocks a)))"
proof -
  have c: "chain (base a) (total_paras a) 0 (mcb_blocks a)" "total_paras a \<le> 65536"
    using wf by (simp_all add: wf_chain)
  from free_owner_from_chain [OF c(1), of own 0] obtain b where
    b: "mcb_free_owner_from a own 0 0 = Some (b, n)" "total_paras b = total_paras a"
      "chain (base b) (total_paras a) 0 (map (reown own MCB_OWNER_FREE) (mcb_blocks a))"
      "\<forall>q. q \<notin> heads 0 (mcb_blocks a) \<longrightarrow> base b q = base a q"
    by (auto simp: n_def)
  show ?thesis
  proof (cases "n = 0")
    case True
    then have "map (reown own MCB_OWNER_FREE) (mcb_blocks a) = mcb_blocks a"
      by (intro map_idI) (auto simp: n_def reown_def filter_empty_conv)
    with True b c show ?thesis
      by (auto simp: mcb_free_owner_def own wf_intact [OF wf] intro!: movesI)
  next
    case False
    obtain a' where "mcb_coalesce b = Some a'"
        "mcb_moves a a' (coalesce_blks (map (reown own MCB_OWNER_FREE) (mcb_blocks a)))"
      using coalesce_moves [of b a] b c(2) by auto
    with False b(1) show ?thesis
      by (auto simp: mcb_free_owner_def own wf_intact [OF wf])
  qed
qed

lemma first_owned_Some:
  "first_owned own p bs = Some q \<Longrightarrow>
     \<exists>xs sz ys. bs = xs @ (own, sz) # ys \<and> q = p + span xs \<and> own \<notin> fst ` set xs"
proof (induction bs arbitrary: p)
  case (Cons b bs)
  show ?case
  proof (cases "fst b = own")
    case True
    with Cons.prems show ?thesis
      by (intro exI [of _ "[]"] exI [of _ "snd b"] exI [of _ bs]) auto
  next
    case False
    with Cons.IH [of "p + 1 + snd b"] Cons.prems obtain xs sz ys where
      "bs = xs @ (own, sz) # ys" "q = p + 1 + snd b + span xs" "own \<notin> fst ` set xs" by auto
    with False show ?thesis
      by (intro exI [of _ "b # xs"] exI [of _ sz] exI [of _ ys]) auto
  qed
qed simp

lemma first_owned_None: "first_owned own p bs = None \<longleftrightarrow> own \<notin> fst ` set bs"
  by (induction bs arbitrary: p) auto

lemma first_owned_at:
  "own \<notin> fst ` set xs \<Longrightarrow> first_owned own p (xs @ (own, sz) # ys) = Some (p + span xs)"
  by (induction xs arbitrary: p) auto

lemma keep_resident_refines:
  assumes wf: "mcb_wf a" and bl: "mcb_blocks a = xs @ (own, cur) # ys" "own \<notin> fst ` set xs"
    and own: "own \<noteq> MCB_OWNER_FREE" "own \<noteq> MCB_OWNER_SYSTEM"
  shows "\<exists>a'. mcb_keep_resident a own keep = Some (a', reply MCB_OK) \<and>
           mcb_moves a a' (coalesce_blks (xs @ carve MCB_OWNER_SYSTEM (min keep cur) cur @ ys))"
proof -
  note b = block_at [OF wf bl(1), simplified]
  let ?p = "span xs" and ?k = "min keep cur"
  have c: "chain (base a) (total_paras a) 0 (xs @ (own, cur) # ys)"
    using wf bl by (simp add: wf_chain)
  have f: "mcb_first_owned_from a own 0 = Some (Some ?p)"
    using first_owned_from_chain [OF c] first_owned_at [OF bl(2), of 0] by simp
  have sz: "unat (size_paras (base a ?p)) = cur" using b(4) by (simp add: holds_blk_def)
  have k: "(if keep > cur then cur else keep) = ?k" by simp
  from shrink_moves [OF wf bl(1) refl c refl own(1), of MCB_OWNER_SYSTEM ?k] show ?thesis
    using own by (cases "keep < cur")
      (auto simp: mcb_keep_resident_def wf_intact [OF wf] f sz Let_def shrink_def min_def)
qed

lemma keep_resident_rejects:
  assumes wf: "mcb_wf a" and no: "own = MCB_OWNER_FREE \<or> own = MCB_OWNER_SYSTEM \<or> own \<notin> fst ` set (mcb_blocks a)"
  shows "mcb_keep_resident a own keep = Some (a, reply MCB_ERR_BAD_BLOCK)"
proof -
  have "chain (base a) (total_paras a) 0 (mcb_blocks a)" using wf by (simp add: wf_chain)
  from first_owned_from_chain [OF this] no show ?thesis
    by (auto simp: mcb_keep_resident_def wf_intact [OF wf] first_owned_None [THEN iffD2])
qed

lemma keep_all_refines:
  assumes wf: "mcb_wf a" and own: "own \<noteq> MCB_OWNER_FREE"
  defines "bs \<equiv> map (reown own MCB_OWNER_SYSTEM) (mcb_blocks a)"
  shows "\<exists>a'. mcb_keep_all a own = Some (a', keep_end 0 0 bs) \<and> mcb_moves a a' bs"
proof -
  have c: "chain (base a) (total_paras a) 0 (mcb_blocks a)" "total_paras a \<le> 65536"
    using wf by (simp_all add: wf_chain)
  from keep_all_from_chain [OF c(1) own, of 0] c(2) show ?thesis
    by (auto simp: mcb_keep_all_def wf_intact [OF wf] bs_def intro!: movesI)
qed

lemma init_moves:
  assumes "1 \<le> n" "n \<le> 65536"
  shows "mcb_wf (mcb_init m n)" "mcb_blocks (mcb_init m n) = [(MCB_OWNER_FREE, n - 1)]"
proof -
  have c: "chain (base (mcb_init m n)) (total_paras (mcb_init m n)) 0 [(MCB_OWNER_FREE, n - 1)]"
    using assms
    by (simp add: mcb_init_def holds_blk_def mcb_zero_reserved_def cast_simps del: of_nat_diff)
  then show "mcb_blocks (mcb_init m n) = [(MCB_OWNER_FREE, n - 1)]"
    by (simp add: mcb_blocks_def chain_blocks)
  with c show "mcb_wf (mcb_init m n)" using assms by (simp add: wf_chain mcb_init_def)
qed

section \<open>Live blocks under the operations\<close>

lemma live_moves: "mcb_moves a a' cs \<Longrightarrow> mcb_live a' = live 0 cs"
  by (simp add: mcb_moves_def mcb_live_def)

lemma moves_wf: "mcb_moves a a' cs \<Longrightarrow> mcb_wf a' \<and> total_paras a' = total_paras a"
  by (simp add: mcb_moves_def)

text \<open>The contents of a block that is live before and after an operation are untouched.\<close>

lemma moves_data:
  assumes m: "mcb_moves a a' cs" and before: "(d, s, own) \<in> mcb_live a"
    and after: "(d, s', own') \<in> live 0 cs" and q: "d \<le> q" "q < d + min s s'"
  shows "base a' q = base a q"
proof -
  have "q \<notin> heads 0 (mcb_blocks a)"
    using head_not_in_live [of q 0 "mcb_blocks a" d s own] before q by (auto simp: mcb_live_def)
  moreover have "q \<notin> heads 0 cs" using head_not_in_live [OF _ after, of q] q by auto
  ultimately show ?thesis using m by (auto simp: mcb_moves_def)
qed

lemma live_elem_split:
  "(d, s, own) \<in> mcb_live a \<Longrightarrow>
     \<exists>xs ys. mcb_blocks a = xs @ (own, s) # ys \<and> d = span xs + 1 \<and> own \<noteq> MCB_OWNER_FREE"
  by (auto simp: mcb_live_def live_iff)

lemma live_drop_middle:
  assumes "own \<noteq> MCB_OWNER_FREE"
  shows "live p (xs @ (own, s) # ys) - {(p + span xs + 1, s, own)} =
     live p xs \<union> live (p + span xs + 1 + s) ys"
proof -
  have "(p + span xs + 1, s, own) \<notin> live p xs"
    using live_bounds [of "p + span xs + 1" s own p xs] by auto
  moreover have "(p + span xs + 1, s, own) \<notin> live (p + span xs + 1 + s) ys"
    using live_bounds [of "p + span xs + 1" s own "p + span xs + 1 + s" ys] by auto
  ultimately show ?thesis using assms by auto
qed

lemma live_reown_free:
  "live p (map (reown own MCB_OWNER_FREE) bs) = {(d, s, o1) \<in> live p bs. o1 \<noteq> own}"
  by (induction bs arbitrary: p) (auto simp: reown_def)

lemma live_reown:
  "o2 \<noteq> MCB_OWNER_FREE \<Longrightarrow> own \<noteq> MCB_OWNER_FREE \<Longrightarrow> live p (map (reown own o2) bs) =
     (\<lambda>(d, s, o1). (d, s, if o1 = own then o2 else o1)) ` live p bs"
  by (induction bs arbitrary: p) (auto simp: reown_def image_Un)

end
