(* ===== verification/McbSpec.thy ===== *)
theory McbSpec imports McbRefine begin

text \<open>
  The contracts of AH=48h, 49h and 4Ah over the set of blocks in use: the largest free run, what a
  successful call adds, removes or resizes, and what a refused call reports.
\<close>

lemma foldl_max_start: "(lg::nat) \<le> foldl max lg xs"
proof (induction xs arbitrary: lg)
  case (Cons y ys)
  from Cons.IH [of "max lg y"] show ?case by simp
qed simp

lemma foldl_max_ge: "x \<in> set xs \<Longrightarrow> x \<le> foldl max (lg::nat) xs"
proof (induction xs arbitrary: lg)
  case (Cons y ys)
  show ?case
  proof (cases "x = y")
    case True
    then show ?thesis using foldl_max_start [of "max lg y" ys] by simp
  next
    case False
    with Cons show ?thesis by simp
  qed
qed simp

lemma foldl_max_in: "foldl max (lg::nat) xs \<in> insert lg (set xs)"
proof (induction xs arbitrary: lg)
  case (Cons y ys)
  then show ?case using Cons.IH [of "max lg y"] by (auto simp: max_def split: if_splits)
qed simp

text \<open>The size of the largest run of free paragraphs, 0 when nothing is free.\<close>

definition largest_free :: "mcb_arena \<Rightarrow> nat" where
  "largest_free a = foldl max 0 (free_sizes (coalesce_blks (mcb_blocks a)))"

definition has_free :: "mcb_arena \<Rightarrow> bool" where
  "has_free a \<longleftrightarrow> free_sizes (mcb_blocks a) \<noteq> []"

lemma free_sizes_iff: "s \<in> set (free_sizes bs) \<longleftrightarrow> (MCB_OWNER_FREE, s) \<in> set bs"
  by (force simp: free_sizes_def)

lemma free_sizes_coalesce: "free_sizes (coalesce_blks bs) = [] \<longleftrightarrow> free_sizes bs = []"
  by (induction bs rule: coalesce_blks.induct) (auto simp: free_sizes_def)

lemma largest_free_none: "\<not> has_free a \<Longrightarrow> largest_free a = 0"
  using free_sizes_coalesce [of "mcb_blocks a"] by (auto simp: largest_free_def has_free_def)

lemma alloc_spec:
  assumes wf: "mcb_wf a" and own: "own \<noteq> MCB_OWNER_FREE"
  shows "has_free a \<Longrightarrow> want \<le> largest_free a \<Longrightarrow>
     \<exists>a' d. mcb_alloc a own want = Some (a', (reply MCB_OK)\<lparr>out_data_para := Some d\<rparr>) \<and>
       mcb_moves a a' (mcb_blocks a') \<and> no_adj_free (mcb_blocks a') \<and>
       mcb_live a' = insert (d, want, own) (mcb_live a) \<and>
       (\<forall>(e, s, o2) \<in> mcb_live a. d + want < e \<or> e + s < d) \<and> d + want \<le> total_paras a" (is "_ \<Longrightarrow> _ \<Longrightarrow> ?ok")
    and "\<not> has_free a \<or> largest_free a < want \<Longrightarrow>
     \<exists>a'. mcb_alloc a own want = Some (a', (reply MCB_ERR_INSUFFICIENT)\<lparr>out_largest := Some (largest_free a)\<rparr>) \<and>
       mcb_moves a a' (mcb_blocks a') \<and> no_adj_free (mcb_blocks a') \<and> mcb_live a' = mcb_live a" (is "_ \<Longrightarrow> ?full")
proof -
  let ?bs = "coalesce_blks (mcb_blocks a)"
  obtain cs r where spec: "alloc_blks own want 0 0 ?bs = (cs, r)" by fastforce
  obtain a' where a': "mcb_alloc a own want = Some (a', r)" "mcb_moves a a' cs"
    using alloc_refines [OF wf spec] by blast
  have lv: "live 0 ?bs = mcb_live a" by (simp add: mcb_live_def)
  have cs: "mcb_blocks a' = cs" "mcb_live a' = live 0 cs"
    using a'(2) by (simp_all add: mcb_moves_def mcb_live_def)
  have some: "want \<le> largest_free a \<and> has_free a \<longleftrightarrow> (\<exists>s. (MCB_OWNER_FREE, s) \<in> set ?bs \<and> want \<le> s)"
  proof
    assume *: "want \<le> largest_free a \<and> has_free a"
    then obtain s where s: "s \<in> set (free_sizes ?bs)"
      by (metis free_sizes_coalesce has_free_def last_in_set)
    then show "\<exists>s. (MCB_OWNER_FREE, s) \<in> set ?bs \<and> want \<le> s"
      using foldl_max_in [of 0 "free_sizes ?bs"] * by (auto simp: largest_free_def free_sizes_iff)
  next
    assume "\<exists>s. (MCB_OWNER_FREE, s) \<in> set ?bs \<and> want \<le> s"
    then obtain s where s: "s \<in> set (free_sizes ?bs)" "want \<le> s" by (auto simp: free_sizes_iff)
    then have "want \<le> foldl max 0 (free_sizes ?bs)" "free_sizes ?bs \<noteq> []"
      using foldl_max_ge [of s "free_sizes ?bs" 0] by auto
    then show "want \<le> largest_free a \<and> has_free a"
      by (simp add: largest_free_def has_free_def free_sizes_coalesce)
  qed
  from spec show "has_free a \<Longrightarrow> want \<le> largest_free a \<Longrightarrow> ?ok"
  proof (cases rule: alloc_blks_cases)
    case (found xs sz ys)
    let ?d = "span xs + 1"
    have nf: "no_adj_free (xs @ (MCB_OWNER_FREE, sz) # ys)"
      using found(1) coalesce_no_adj_free [of "mcb_blocks a"] by simp
    have "no_adj_free cs"
      using nf own unfolding found(3)
      by (induction xs rule: no_adj_free.induct) (auto simp: carve_def no_adj_free_Cons)
    moreover have "mcb_live a' = insert (?d, want, own) (mcb_live a)"
      using found(2) own by (simp add: cs(2) lv [symmetric] found(1,3) insert_commute)
    moreover have "mcb_wf a'" "total_paras a' = total_paras a" using moves_wf [OF a'(2)] by auto
    moreover have "\<forall>(e, s, o2) \<in> mcb_live a. ?d + want < e \<or> e + s < ?d"
    proof (clarify)
      fix e s o2 assume e: "(e, s, o2) \<in> mcb_live a" "\<not> e + s < ?d"
      then have "(e, s, o2) \<in> live 0 xs \<union> live (span xs + 1 + sz) ys"
        by (auto simp: lv [symmetric] found(1))
      then show "?d + want < e" using live_bounds [of e s o2] e(2) found(2) by fastforce
    qed
    moreover have "?d + want \<le> total_paras a"
      using wf found(1,2) chain_span [of "base a" "total_paras a" 0 "mcb_blocks a"]
        coalesce_span [of "mcb_blocks a"] by (simp add: wf_chain)
    ultimately show ?thesis
      using a' cs(1) found(4) by (intro exI [of _ a'] exI [of _ ?d]) simp
  next
    case full
    with some show ?thesis if "has_free a" "want \<le> largest_free a"
      using that by fastforce
  qed
  from spec show "\<not> has_free a \<or> largest_free a < want \<Longrightarrow> ?full"
  proof (cases rule: alloc_blks_cases)
    case (found xs sz ys)
    then have "(MCB_OWNER_FREE, sz) \<in> set ?bs" by simp
    with some found(2) show ?thesis if "\<not> has_free a \<or> largest_free a < want"
      using that by fastforce
  next
    case full
    then show ?thesis using a' cs lv by (auto simp: largest_free_def)
  qed
qed


lemma live_split_remove:
  assumes "mcb_blocks a = xs @ (o1, s) # ys" "o1 \<noteq> MCB_OWNER_FREE"
  shows "mcb_live a - {(span xs + 1, s, o1)} = live 0 xs \<union> live (span xs + 1 + s) ys"
  using live_drop_middle [OF assms(2), of 0 xs s ys] assms(1) by (simp add: mcb_live_def)

lemma free_spec:
  assumes wf: "mcb_wf a" and blk: "(d, s, o1) \<in> mcb_live a" and own: "own = MCB_OWNER_ANY \<or> own = o1"
  shows "\<exists>a'. mcb_free a d own = Some (a', reply MCB_OK) \<and> mcb_moves a a' (mcb_blocks a') \<and>
     no_adj_free (mcb_blocks a') \<and> mcb_live a' = mcb_live a - {(d, s, o1)}"
proof -
  obtain xs ys where bl: "mcb_blocks a = xs @ (o1, s) # ys" "d = span xs + 1" "o1 \<noteq> MCB_OWNER_FREE"
    using live_elem_split [OF blk] by blast
  let ?cs = "coalesce_blks (xs @ (MCB_OWNER_FREE, s) # ys)"
  obtain a' where a': "mcb_free a d own = Some (a', reply MCB_OK)" "mcb_moves a a' ?cs"
    using free_refines [OF wf bl(1,3) own] bl(2) by auto
  then have "mcb_blocks a' = ?cs" "mcb_live a' = live 0 ?cs"
    by (simp_all add: mcb_moves_def mcb_live_def)
  then show ?thesis using a' live_split_remove [OF bl(1,3)] bl(2) by auto
qed

text \<open>A block with data at \<open>d\<close> can have \<open>w\<close> paragraphs: they end inside the arena and before the
  header of every later block that is in use.\<close>

definition fits :: "mcb_arena \<Rightarrow> nat \<Rightarrow> nat \<Rightarrow> bool" where
  "fits a d w \<longleftrightarrow> d + w \<le> total_paras a \<and> (\<forall>(e, s, o2) \<in> mcb_live a. d < e \<longrightarrow> d + w < e)"

lemma fits_grow_room:
  assumes wf: "mcb_wf a" and nf: "no_adj_free (mcb_blocks a)"
    and bl: "mcb_blocks a = xs @ (o1, cur) # ys" "o1 \<noteq> MCB_OWNER_FREE" and w: "cur \<le> w"
  shows "fits a (span xs + 1) w \<longleftrightarrow> w \<le> grow_room cur ys"
proof -
  let ?d = "span xs + 1"
  have t: "?d + cur + span ys = total_paras a" using block_at(6) [OF wf bl(1)] by simp
  have later: "(e, s, o2) \<in> mcb_live a \<and> ?d < e \<longleftrightarrow> (e, s, o2) \<in> live (?d + cur) ys" for e s o2
    using bl live_bounds [of e s o2 0 xs] live_bounds [of e s o2 "?d + cur" ys]
    by (auto simp: mcb_live_def)
  have nfy: "no_adj_free ys"
    using nf unfolding bl(1) by (induction xs rule: no_adj_free.induct) (auto simp: no_adj_free_Cons)
  have iff: "fits a ?d w \<longleftrightarrow> ?d + w \<le> total_paras a \<and> (\<forall>(e, s, o2) \<in> live (?d + cur) ys. ?d + w < e)"
    using later unfolding fits_def by (simp add: Ball_def) blast
  show ?thesis
  proof (cases ys)
    case Nil
    with iff t [symmetric] w show ?thesis by auto
  next
    case (Cons n zs)
    show ?thesis
    proof (cases "fst n = MCB_OWNER_FREE")
      case False
      with iff t [symmetric] w Cons show ?thesis
        by (auto dest: live_bounds)
    next
      case True
      have lb: "(e, s, o2) \<in> live (?d + cur + 1 + snd n) zs \<Longrightarrow> ?d + cur + 1 + snd n < e" for e s o2
        using live_bounds by blast
      show ?thesis
      proof (cases zs)
        case Nil
        with iff t [symmetric] w Cons True show ?thesis by auto
      next
        case (Cons m ms)
        then have "fst m \<noteq> MCB_OWNER_FREE" using nfy \<open>ys = n # zs\<close> True by simp
        then have "(?d + cur + 1 + snd n + 1, snd m, fst m) \<in> live (?d + cur) ys"
          using \<open>ys = n # zs\<close> True Cons by simp
        with iff t lb Cons \<open>ys = n # zs\<close> True show ?thesis by fastforce
      qed
    qed
  qed
qed

lemma setblock_spec:
  assumes wf: "mcb_wf a" and nf: "no_adj_free (mcb_blocks a)"
    and blk: "(d, cur, o1) \<in> mcb_live a" and own: "own = MCB_OWNER_ANY \<or> own = o1"
  shows "want \<le> cur \<or> fits a d want \<Longrightarrow>
      \<exists>a'. mcb_setblock a d want own = Some (a', reply MCB_OK) \<and> mcb_moves a a' (mcb_blocks a') \<and>
        no_adj_free (mcb_blocks a') \<and> mcb_live a' = insert (d, want, o1) (mcb_live a - {(d, cur, o1)})"
      (is "_ \<Longrightarrow> ?ok")
    and "\<not> (want \<le> cur \<or> fits a d want) \<Longrightarrow>
      \<exists>room. mcb_setblock a d want own =
          Some (a, (reply MCB_ERR_INSUFFICIENT)\<lparr>out_largest := Some room\<rparr>) \<and>
        cur \<le> room \<and> fits a d room \<and> \<not> fits a d (room + 1)" (is "_ \<Longrightarrow> ?full")
proof -
  obtain xs ys where bl: "mcb_blocks a = xs @ (o1, cur) # ys" "d = span xs + 1" "o1 \<noteq> MCB_OWNER_FREE"
    using live_elem_split [OF blk] by blast
  note R = setblock_refines [OF wf bl(1,3) own, folded bl(2)]
  note rest = live_split_remove [OF bl(1,3), folded bl(2)]
  note fit = fits_grow_room [OF wf nf bl(1,3), folded bl(2)]
  have ge: "cur \<le> grow_room cur ys" by (cases ys) auto
  have lv: "live 0 (coalesce_blks (xs @ carve o1 want sz @ zs)) =
      insert (d, want, o1) (live 0 xs \<union> live (d + sz) zs)" if "want \<le> sz" for sz zs
    using that bl(2,3) by (simp add: insert_commute)
  show "want \<le> cur \<or> fits a d want \<Longrightarrow> ?ok"
  proof -
    assume pre: "want \<le> cur \<or> fits a d want"
    consider "want = cur" | "want < cur" | "cur < want" "want \<le> grow_room cur ys"
      using pre fit [of want] by fastforce
    then show ?ok
    proof cases
      case 1
      then show ?thesis using R(1) wf nf blk by (auto simp: moves_refl)
    next
      case 2
      then obtain a' where a': "mcb_setblock a d want own = Some (a', reply MCB_OK)"
        "mcb_moves a a' (coalesce_blks (xs @ carve o1 want cur @ ys))" using R(2) by blast
      moreover have "mcb_blocks a' = coalesce_blks (xs @ carve o1 want cur @ ys)"
        using a'(2) by (simp add: mcb_moves_def)
      ultimately show ?thesis using lv [of cur ys] rest 2 by (auto simp: live_moves)
    next
      case 3
      then obtain a' where a': "mcb_setblock a d want own = Some (a', reply MCB_OK)"
        "mcb_moves a a' (coalesce_blks (xs @ carve o1 want (grow_room cur ys) @ tl ys))" using R(3) by blast
      moreover have "mcb_blocks a' = coalesce_blks (xs @ carve o1 want (grow_room cur ys) @ tl ys)"
        using a'(2) by (simp add: mcb_moves_def)
      moreover have "live (d + grow_room cur ys) (tl ys) = live (d + cur) ys"
        using 3 by (cases ys) (auto simp: add.assoc split: if_splits)
      ultimately show ?thesis using lv [OF 3(2), of "tl ys"] rest by (auto simp: live_moves)
    qed
  qed
  show "\<not> (want \<le> cur \<or> fits a d want) \<Longrightarrow> ?full"
    using R(4) fit ge by (intro exI [of _ "grow_room cur ys"]) (auto simp: not_le)
qed

end
