(* ===== verification/McbSteps.thy ===== *)
theory McbSteps imports McbSpec begin

text \<open>
  The arena as a state machine: one step per operation, the arenas reachable from \<open>mcb_init\<close>, and the
  invariant \<open>mcb_good\<close> (the chain is intact and no two free blocks are adjacent) by rule induction.
\<close>

section \<open>Steps and reachable arenas\<close>

inductive mcb_step :: "mcb_arena \<Rightarrow> mcb_arena \<Rightarrow> bool" where
  step_own: "mcb_set_arena_owner a own = (a', ok) \<Longrightarrow> mcb_step a a'"
| step_alloc: "own \<noteq> MCB_OWNER_FREE \<Longrightarrow> mcb_alloc a own want = Some (a', r) \<Longrightarrow> mcb_step a a'"
| step_free: "mcb_free a d own = Some (a', r) \<Longrightarrow> mcb_step a a'"
| step_setblock: "mcb_setblock a d want own = Some (a', r) \<Longrightarrow> mcb_step a a'"
| step_free_owner: "mcb_free_owner a own = Some (a', n) \<Longrightarrow> mcb_step a a'"
| step_keep: "mcb_keep_resident a own keep = Some (a', r) \<Longrightarrow> mcb_step a a'"
| step_keep_all: "own \<noteq> MCB_OWNER_FREE \<Longrightarrow> mcb_keep_all a own = Some (a', e) \<Longrightarrow> mcb_step a a'"

inductive mcb_reachable :: "mcb_arena \<Rightarrow> bool" where
  reach_init: "1 \<le> n \<Longrightarrow> n \<le> 65536 \<Longrightarrow> mcb_reachable (mcb_init m n)"
| reach_step: "mcb_reachable a \<Longrightarrow> mcb_step a a' \<Longrightarrow> mcb_reachable a'"

definition mcb_good :: "mcb_arena \<Rightarrow> bool" where
  "mcb_good a \<longleftrightarrow> mcb_wf a \<and> no_adj_free (mcb_blocks a)"

text \<open>An operation that keeps the arena good and only writes headers.\<close>

definition good_move :: "mcb_arena \<Rightarrow> mcb_arena \<Rightarrow> bool" where
  "good_move a a' \<longleftrightarrow> mcb_moves a a' (mcb_blocks a') \<and> no_adj_free (mcb_blocks a')"

lemma good_moveI: "mcb_moves a a' cs \<Longrightarrow> no_adj_free cs \<Longrightarrow> good_move a a'"
  by (auto simp: good_move_def mcb_moves_def)

lemma good_move_refl: "mcb_good a \<Longrightarrow> good_move a a"
  by (simp add: good_move_def mcb_good_def moves_refl)

lemma good_move_good: "good_move a a' \<Longrightarrow> mcb_good a'"
  by (auto simp: good_move_def mcb_good_def mcb_moves_def)

lemma free_cases:
  assumes "mcb_wf a"
  obtains (ok) s o1 a' where "(d, s, o1) \<in> mcb_live a" "own = MCB_OWNER_ANY \<or> own = o1"
      "mcb_free a d own = Some (a', reply MCB_OK)" "good_move a a'"
      "mcb_live a' = mcb_live a - {(d, s, o1)}"
  | (refused) "mcb_free a d own = Some (a, reply MCB_ERR_BAD_BLOCK)"
      "\<not> (\<exists>s o1. (d, s, o1) \<in> mcb_live a \<and> (own = MCB_OWNER_ANY \<or> own = o1))"
proof (cases "\<exists>s o1. (d, s, o1) \<in> mcb_live a \<and> (own = MCB_OWNER_ANY \<or> own = o1)")
  case True
  then obtain s o1 where b: "(d, s, o1) \<in> mcb_live a" "own = MCB_OWNER_ANY \<or> own = o1" by blast
  with free_spec [OF assms b] show thesis
    by (elim exE conjE) (rule ok, auto simp: good_move_def)
next
  case False
  with free_rejects [OF assms] refused show thesis by simp
qed

lemma setblock_cases:
  assumes "mcb_good a"
  obtains (ok) cur o1 a' where "(d, cur, o1) \<in> mcb_live a" "own = MCB_OWNER_ANY \<or> own = o1"
      "mcb_setblock a d want own = Some (a', reply MCB_OK)" "good_move a a'"
      "mcb_live a' = insert (d, want, o1) (mcb_live a - {(d, cur, o1)})"
  | (refused) r where "mcb_setblock a d want own = Some (a, r)" "code r \<noteq> MCB_OK"
proof (cases "\<exists>s o1. (d, s, o1) \<in> mcb_live a \<and> (own = MCB_OWNER_ANY \<or> own = o1)")
  case False
  with setblock_rejects assms that(2) show thesis by (auto simp: mcb_good_def reply_def)
next
  case True
  then obtain cur o1 where b: "(d, cur, o1) \<in> mcb_live a" "own = MCB_OWNER_ANY \<or> own = o1" by blast
  from assms have g: "mcb_wf a" "no_adj_free (mcb_blocks a)" by (simp_all add: mcb_good_def)
  show thesis
  proof (cases "want \<le> cur \<or> fits a d want")
    case True
    from setblock_spec(1) [OF g b this] b show thesis
      by (elim exE conjE) (rule ok, auto simp: good_move_def)
  next
    case False
    from setblock_spec(2) [OF g b this] refused show thesis by (auto simp: reply_def)
  qed
qed

lemma alloc_cases:
  assumes "mcb_wf a" "own \<noteq> MCB_OWNER_FREE"
  obtains (ok) a' d where "mcb_alloc a own want = Some (a', (reply MCB_OK)\<lparr>out_data_para := Some d\<rparr>)"
      "good_move a a'" "mcb_live a' = insert (d, want, own) (mcb_live a)" "(d, want, own) \<notin> mcb_live a"
  | (full) a' r where "mcb_alloc a own want = Some (a', r)" "code r \<noteq> MCB_OK"
      "out_data_para r = None" "good_move a a'"
      "mcb_live a' = mcb_live a"
proof (cases "has_free a \<and> want \<le> largest_free a")
  case True
  then obtain a' d where "mcb_alloc a own want = Some (a', (reply MCB_OK)\<lparr>out_data_para := Some d\<rparr>)"
    "good_move a a'" "mcb_live a' = insert (d, want, own) (mcb_live a)"
    "\<forall>(e, s, o2) \<in> mcb_live a. d + want < e \<or> e + s < d"
    using alloc_spec(1) [OF assms, of want] unfolding good_move_def by blast
  then show thesis by (intro ok [of a' d]) auto
next
  case False
  with alloc_spec(2) [OF assms, of want] obtain a' where
    "mcb_alloc a own want = Some (a', reply MCB_ERR_INSUFFICIENT\<lparr>out_largest := Some (largest_free a)\<rparr>)"
    "good_move a a'" "mcb_live a' = mcb_live a" by (auto simp: good_move_def not_le)
  from full [OF this(1) _ _ this(2,3)] show thesis by (simp add: reply_def)
qed

lemma alloc_ok:
  assumes "mcb_wf a" "own \<noteq> MCB_OWNER_FREE" "mcb_alloc a own want = Some (b, r)" "code r = MCB_OK"
  obtains d where "out_data_para r = Some d" "good_move a b" "(d, want, own) \<notin> mcb_live a"
    "mcb_live b = insert (d, want, own) (mcb_live a)"
  by (rule alloc_cases [OF assms(1,2), of want]) (use assms(3,4) that in auto)

lemma no_adj_free_reown:
  "o2 \<noteq> MCB_OWNER_FREE \<Longrightarrow> no_adj_free bs \<Longrightarrow> no_adj_free (map (reown o1 o2) bs)"
  by (induction bs rule: no_adj_free.induct) (auto simp: reown_def)

lemma set_owner_good:
  assumes "mcb_good a" "mcb_set_arena_owner a own = (a', ok)"
  shows "good_move a a'"
proof (cases "ok")
  case False
  with assms show ?thesis
    by (auto simp: mcb_set_arena_owner_def Let_def good_move_refl split: if_splits)
next
  case True
  let ?h = "base a 0"
  have h: "signature ?h = MCB_SIG_TERMINAL" "1 + unat (size_paras ?h) = total_paras a"
    "a' = put_hdr a 0 (?h\<lparr>owner := own\<rparr>)"
    using assms(2) True by (auto simp: mcb_set_arena_owner_def Let_def split: if_splits)
  have "chain (base a') (total_paras a) 0 [(own, unat (size_paras ?h))]"
    using h by (simp add: holds_blk_def)
  then have "mcb_moves a a' [(own, unat (size_paras ?h))]"
    using assms(1) h(3) by (intro movesI) (auto simp: mcb_good_def mcb_wf_def)
  then show ?thesis by (rule good_moveI) simp
qed

lemma free_owner_good:
  assumes "mcb_good a" "mcb_free_owner a own = Some (a', n)"
  shows "good_move a a'"
proof (cases "own = MCB_OWNER_FREE")
  case True
  with assms show ?thesis by (simp add: mcb_free_owner_def good_move_refl)
next
  case False
  from assms(1) have "mcb_wf a" "no_adj_free (mcb_blocks a)" by (simp_all add: mcb_good_def)
  with free_owner_refines [OF _ False, of a] assms(2) show ?thesis
    by (auto intro: good_moveI split: if_splits)
qed

lemma keep_resident_good:
  assumes "mcb_good a" "mcb_keep_resident a own keep = Some (a', r)"
  shows "good_move a a'"
proof -
  from assms(1) have wf: "mcb_wf a" by (simp add: mcb_good_def)
  show ?thesis
  proof (cases "own = MCB_OWNER_FREE \<or> own = MCB_OWNER_SYSTEM \<or> own \<notin> fst ` set (mcb_blocks a)")
    case True
    with keep_resident_rejects [OF wf True] assms show ?thesis by (simp add: good_move_refl)
  next
    case False
    then obtain q where "first_owned own 0 (mcb_blocks a) = Some q"
      using first_owned_None [of own 0 "mcb_blocks a"] by auto
    then obtain xs cur ys where "mcb_blocks a = xs @ (own, cur) # ys" "own \<notin> fst ` set xs"
      using first_owned_Some by blast
    from keep_resident_refines [OF wf this, of keep] False assms(2) show ?thesis
      by (auto intro: good_moveI)
  qed
qed

lemma step_good:
  assumes "mcb_step a a'" "mcb_good a"
  shows "good_move a a'"
  using assms
proof (induction rule: mcb_step.induct)
  case (step_own a own a' ok)
  then show ?case by (blast intro: set_owner_good)
next
  case (step_alloc own a want a' r)
  then have "mcb_wf a" by (simp add: mcb_good_def)
  then show ?case using step_alloc(1)
    by (rule alloc_cases [of a own want]) (use step_alloc(2) in auto)
next
  case (step_free a d own a' r)
  then have "mcb_wf a" by (simp add: mcb_good_def)
  then show ?case
    by (rule free_cases [of a d own]) (use step_free in \<open>auto simp: good_move_refl\<close>)
next
  case (step_setblock a d want own a' r)
  from step_setblock(2) show ?case
    by (rule setblock_cases [of a d own want]) (use step_setblock in \<open>auto simp: good_move_refl\<close>)
next
  case (step_free_owner a own a' n)
  then show ?case by (blast intro: free_owner_good)
next
  case (step_keep a own keep a' r)
  then show ?case by (blast intro: keep_resident_good)
next
  case (step_keep_all own a a' e)
  then have "mcb_wf a" "no_adj_free (mcb_blocks a)" by (simp_all add: mcb_good_def)
  with keep_all_refines [OF _ step_keep_all(1), of a] step_keep_all(2) show ?case
    by (auto intro!: good_moveI no_adj_free_reown)
qed

lemma reachable_good: "mcb_reachable a \<Longrightarrow> mcb_good a"
proof (induction rule: mcb_reachable.induct)
  case (reach_init n m)
  then show ?case by (simp add: mcb_good_def init_moves)
next
  case (reach_step a a')
  then show ?case by (blast intro: step_good good_move_good)
qed

end
