(* ===== verification/McbHeap.thy ===== *)
theory McbHeap imports McbSteps begin

text \<open>
  The arena as the heap of several processes. The locales \<open>tiled_heap\<close> and \<open>process_heap\<close> state what
  a program relies on: blocks never overlap, a request returns, and another owner's block keeps its
  place and contents. \<open>arena_heap\<close> interprets them on the model of \<open>mcb.c\<close>. The theory ends with the
  properties of the arena.
\<close>

section \<open>A process heap as an interface\<close>

datatype heap_req = ReqAlloc nat | ReqFree nat | ReqSetblock nat nat

text \<open>A process's requests in order; \<open>None\<close> when one does not return.\<close>

fun heap_run :: "('h \<Rightarrow> u16 \<Rightarrow> heap_req \<Rightarrow> ('h \<times> mcb_reply) option) \<Rightarrow> 'h \<Rightarrow> u16 \<Rightarrow> heap_req list \<Rightarrow> 'h option" where
  "heap_run req h own [] = Some h"
| "heap_run req h own (q # qs) =
     (case req h own q of None \<Rightarrow> None | Some (h', r) \<Rightarrow> heap_run req h' own qs)"

locale tiled_heap =
  fixes good :: "'h \<Rightarrow> bool"
    and blocks :: "'h \<Rightarrow> (nat \<times> nat \<times> u16) set"
    and cell :: "'h \<Rightarrow> nat \<Rightarrow> 'c"
  assumes apart: "good h \<Longrightarrow> (d, s, own) \<in> blocks h \<Longrightarrow> (e, t, own') \<in> blocks h \<Longrightarrow>
      (d, s, own) = (e, t, own') \<or> d + s < e \<or> e + t < d"
begin

lemma block_at_unique: "good h \<Longrightarrow> (d, s, own) \<in> blocks h \<Longrightarrow> (d, t, own') \<in> blocks h \<Longrightarrow> s = t \<and> own = own'"
  using apart [of h d s own d t own'] by auto

text \<open>\<open>h'\<close> has every block of \<open>h\<close> that is not \<open>own\<close>'s, with its contents.\<close>

definition spares :: "u16 \<Rightarrow> 'h \<Rightarrow> 'h \<Rightarrow> bool" where
  "spares own h h' \<longleftrightarrow> (\<forall>d s o1. (d, s, o1) \<in> blocks h \<longrightarrow> o1 \<noteq> own \<longrightarrow>
     (d, s, o1) \<in> blocks h' \<and> (\<forall>x. d \<le> x \<and> x < d + s \<longrightarrow> cell h' x = cell h x))"

lemma spares_refl: "spares own h h"
  by (simp add: spares_def)

lemma spares_trans: "spares own h h' \<Longrightarrow> spares own h' h'' \<Longrightarrow> spares own h h''"
  unfolding spares_def by metis

end

locale process_heap = tiled_heap good blocks cell
  for good :: "'h \<Rightarrow> bool" and blocks :: "'h \<Rightarrow> (nat \<times> nat \<times> u16) set"
    and cell :: "'h \<Rightarrow> nat \<Rightarrow> 'c" +
  fixes request :: "'h \<Rightarrow> u16 \<Rightarrow> heap_req \<Rightarrow> ('h \<times> mcb_reply) option"
  assumes request_returns: "good h \<Longrightarrow> own \<noteq> MCB_OWNER_FREE \<Longrightarrow> own \<noteq> MCB_OWNER_ANY \<Longrightarrow>
      \<exists>h' r. request h own q = Some (h', r) \<and> good h'"
    and request_keeps: "good h \<Longrightarrow> own \<noteq> MCB_OWNER_FREE \<Longrightarrow> own \<noteq> MCB_OWNER_ANY \<Longrightarrow>
      request h own q = Some (h', r) \<Longrightarrow> (d, s, o1) \<in> blocks h \<Longrightarrow> o1 \<noteq> own \<Longrightarrow> (d, s, o1) \<in> blocks h'"
    and request_data: "good h \<Longrightarrow> own \<noteq> MCB_OWNER_FREE \<Longrightarrow> own \<noteq> MCB_OWNER_ANY \<Longrightarrow>
      request h own q = Some (h', r) \<Longrightarrow> (d, s, o1) \<in> blocks h \<Longrightarrow> (d, s, o1) \<in> blocks h' \<Longrightarrow>
      d \<le> x \<Longrightarrow> x < d + s \<Longrightarrow> cell h' x = cell h x"
begin

lemma request_spares:
  "good h \<Longrightarrow> own \<noteq> MCB_OWNER_FREE \<Longrightarrow> own \<noteq> MCB_OWNER_ANY \<Longrightarrow>
     request h own q = Some (h', r) \<Longrightarrow> spares own h h'"
  unfolding spares_def by (blast intro: request_keeps request_data)

lemma run_spares:
  assumes "good h" "own \<noteq> MCB_OWNER_FREE" "own \<noteq> MCB_OWNER_ANY"
  shows "\<exists>h'. heap_run request h own qs = Some h' \<and> good h' \<and> spares own h h'"
  using assms
proof (induction qs arbitrary: h)
  case Nil
  then show ?case by (simp add: spares_refl)
next
  case (Cons q qs)
  obtain h1 r where q: "request h own q = Some (h1, r)" "good h1"
    using request_returns [OF Cons.prems] by blast
  obtain h2 where h2: "heap_run request h1 own qs = Some h2" "good h2" "spares own h1 h2"
    using Cons.IH [OF q(2) Cons.prems(2,3)] by blast
  with spares_trans [OF request_spares [OF Cons.prems q(1)] h2(3)] q show ?case by simp
qed

end

text \<open>INT 21h AH=48h, 49h and 4Ah as a process issues them: the caller's owner id is its own.\<close>

definition mcb_request :: "mcb_arena \<Rightarrow> u16 \<Rightarrow> heap_req \<Rightarrow> (mcb_arena \<times> mcb_reply) option" where
  "mcb_request a own q = (case q of
     ReqAlloc want \<Rightarrow> mcb_alloc a own want
   | ReqFree d \<Rightarrow> mcb_free a d own
   | ReqSetblock d want \<Rightarrow> mcb_setblock a d want own)"

lemma mcb_apart:
  "(d, s, own) \<in> mcb_live a \<Longrightarrow> (e, t, own') \<in> mcb_live a \<Longrightarrow>
     (d, s, own) = (e, t, own') \<or> d + s < e \<or> e + t < d"
  unfolding mcb_live_def by (rule live_apart)

lemma mcb_request_cases:
  assumes g: "mcb_good a" and own: "own \<noteq> MCB_OWNER_FREE" "own \<noteq> MCB_OWNER_ANY"
  shows "\<exists>a' r. mcb_request a own q = Some (a', r) \<and> good_move a a' \<and>
     (\<forall>d s o1. (d, s, o1) \<in> mcb_live a \<longrightarrow> o1 \<noteq> own \<longrightarrow> (d, s, o1) \<in> mcb_live a')"
proof -
  have wf: "mcb_wf a" using g by (simp add: mcb_good_def)
  show ?thesis
  proof (cases q)
    case (ReqAlloc want)
    show ?thesis
      by (rule alloc_cases [OF wf own(1), of want]) (auto simp: mcb_request_def ReqAlloc)
  next
    case (ReqFree d)
    show ?thesis
      by (rule free_cases [OF wf, of d own])
        (use own g good_move_refl in \<open>auto simp: mcb_request_def ReqFree\<close>)
  next
    case (ReqSetblock d want)
    show ?thesis
      by (rule setblock_cases [OF g, of d own want])
        (use own g good_move_refl in \<open>auto simp: mcb_request_def ReqSetblock\<close>)
  qed
qed

lemma good_move_data:
  assumes "good_move a a'" "(d, s, o1) \<in> mcb_live a" "(d, s', o2) \<in> mcb_live a'" "d \<le> x" "x < d + min s s'"
  shows "base a' x = base a x"
  using moves_data [of a a' "mcb_blocks a'" d s o1 s' o2 x] assms
  by (simp add: good_move_def mcb_live_def)

interpretation arena_heap: process_heap mcb_good mcb_live base mcb_request
proof unfold_locales
  fix h own q h' r d s o1 x
  assume h: "mcb_good h" "own \<noteq> MCB_OWNER_FREE" "own \<noteq> MCB_OWNER_ANY"
  obtain a r' where a: "mcb_request h own q = Some (a, r')" "good_move h a"
    "\<forall>d s o1. (d, s, o1) \<in> mcb_live h \<longrightarrow> o1 \<noteq> own \<longrightarrow> (d, s, o1) \<in> mcb_live a"
    using mcb_request_cases [OF h] by blast
  then show "\<exists>h' r. mcb_request h own q = Some (h', r) \<and> mcb_good h'"
    by (blast intro: good_move_good)
  assume q: "mcb_request h own q = Some (h', r)" and b: "(d, s, o1) \<in> mcb_live h"
  with a show "o1 \<noteq> own \<Longrightarrow> (d, s, o1) \<in> mcb_live h'" by auto
  assume "(d, s, o1) \<in> mcb_live h'" "d \<le> x" "x < d + s"
  with a q b show "base h' x = base h x" by (auto intro: good_move_data)
next
  fix h d s own e t own'
  assume "(d, s, own) \<in> mcb_live h" "(e, t, own') \<in> mcb_live h"
  then show "(d, s, own) = (e, t, own') \<or> d + s < e \<or> e + t < d" by (rule mcb_apart)
qed

section \<open>The block list of a coalesced arena is determined by its live blocks\<close>

lemma blocks_canonical:
  assumes "no_adj_free bs" "no_adj_free cs" "live p bs = live p cs" "span bs = span cs"
  shows "bs = cs"
  using assms
proof (induction bs arbitrary: p cs)
  case Nil
  then show ?case by (cases cs) auto
next
  case (Cons b bs)
  obtain c ds where cs: "cs = c # ds" using Cons.prems(4) by (cases cs) auto
  have nf: "no_adj_free bs" "no_adj_free ds" using Cons.prems(1,2) cs by (simp_all add: no_adj_free_Cons)
  have hi: "(d, s, o1) \<in> live (p + 1 + k) es \<Longrightarrow> p + 1 + k < d" for d s o1 k es
    using live_bounds by blast
  have size: "snd b = snd c" if "fst b = MCB_OWNER_FREE" "fst c = MCB_OWNER_FREE"
  proof (rule ccontr)
    assume "snd b \<noteq> snd c"
    have *: False if "no_adj_free (x # xs)" "fst x = MCB_OWNER_FREE" "snd x < k"
        "live p (x # xs) = live (p + 1 + k) es" "1 + snd x + span xs = 1 + k + span es"
      for x :: blk and xs k es
    proof -
      from that(3,5) have "xs \<noteq> []" by auto
      then obtain y ys where "xs = y # ys" by (cases xs) auto
      with that(1,2,4) have "(p + 1 + snd x + 1, snd y, fst y) \<in> live (p + 1 + k) es" by auto
      from hi [OF this] that(3) show False by simp
    qed
    from \<open>snd b \<noteq> snd c\<close> consider "snd b < snd c" | "snd c < snd b" by linarith
    then show False
      using *[of b bs "snd c" ds] *[of c ds "snd b" bs] Cons.prems cs that by cases auto
  qed
  have eq: "b = c"
  proof (cases "fst b = MCB_OWNER_FREE")
    case True
    have "fst c = MCB_OWNER_FREE"
    proof (rule ccontr)
      assume "fst c \<noteq> MCB_OWNER_FREE"
      then have "(p + 1, snd c, fst c) \<in> live p (b # bs)" using Cons.prems(3) cs by simp
      with True hi [of "p + 1" "snd c" "fst c" "snd b" bs] show False by simp
    qed
    with True size show ?thesis by (simp add: prod_eq_iff)
  next
    case False
    then have "(p + 1, snd b, fst b) \<in> live p (b # bs)" by simp
    then have "(p + 1, snd b, fst b) \<in> live p (c # ds)" by (simp only: Cons.prems(3) cs)
    with hi [of "p + 1" "snd b" "fst b" "snd c" ds] show ?thesis
      by (auto simp: prod_eq_iff split: if_splits)
  qed
  have "live (p + 1 + snd b) bs = live (p + 1 + snd b) ds"
  proof (cases "fst b = MCB_OWNER_FREE")
    case True
    with Cons.prems(3) cs eq show ?thesis by simp
  next
    case False
    let ?x = "(p + 1, snd b, fst b)"
    have n: "?x \<notin> live (p + 1 + snd b) es" for es using hi [of "p + 1" "snd b" "fst b" "snd b" es] by auto
    have "insert ?x (live (p + 1 + snd b) bs) = insert ?x (live (p + 1 + snd b) ds)"
      using Cons.prems(3) cs eq False by simp
    with insert_ident [OF n n] show ?thesis by simp
  qed
  with Cons.IH [OF nf this] Cons.prems(4) cs eq show ?case by simp
qed

lemma good_blocks_span: "mcb_wf a \<Longrightarrow> span (mcb_blocks a) = total_paras a"
  using chain_span [of "base a" "total_paras a" 0 "mcb_blocks a"] by (simp add: wf_chain)


section \<open>Properties\<close>

definition blank_hdr :: mcb_t where
  "blank_hdr = \<lparr>signature = 0, owner = 0, size_paras = 0, reserved = []\<rparr>"

text \<open>The chain walk accepts an arena exactly when its headers tile it: from paragraph 0, each
  \<open>M\<close> block ends where the next header starts and the single \<open>Z\<close> block ends at the end of the arena.\<close>

theorem mcb_intact_iff_tiled:
  "mcb_chain_intact a \<longleftrightarrow> (\<exists>bs. chain (base a) (total_paras a) 0 bs)"
  using intact_from_chain [of 0 a]
  by (auto simp: mcb_chain_intact_def dest: chain_less)

text \<open>C15: AH=48h. On an intact arena the call returns; it succeeds exactly when some run of free
  blocks is large enough; the block it hands out has the size asked for, lies apart from every
  block in use, is the only change to the set of blocks in use, and the arena stays intact; a
  refused call reports the largest run and changes no block in use.\<close>

theorem mcb_alloc_exact:
  assumes "mcb_wf a" "own \<noteq> MCB_OWNER_FREE"
  shows "if has_free a \<and> want \<le> largest_free a
     then \<exists>a' d. mcb_alloc a own want = Some (a', (reply MCB_OK)\<lparr>out_data_para := Some d\<rparr>) \<and>
            mcb_good a' \<and> mcb_live a' = insert (d, want, own) (mcb_live a) \<and>
            (\<forall>(e, s, o2) \<in> mcb_live a. d + want < e \<or> e + s < d) \<and> d + want \<le> total_paras a
     else \<exists>a'. mcb_alloc a own want =
              Some (a', (reply MCB_ERR_INSUFFICIENT)\<lparr>out_largest := Some (largest_free a)\<rparr>) \<and>
            mcb_good a' \<and> mcb_live a' = mcb_live a"
proof (cases "has_free a \<and> want \<le> largest_free a")
  case True
  then obtain a' d where "mcb_alloc a own want = Some (a', (reply MCB_OK)\<lparr>out_data_para := Some d\<rparr>)"
    "mcb_moves a a' (mcb_blocks a')" "no_adj_free (mcb_blocks a')"
    "mcb_live a' = insert (d, want, own) (mcb_live a)"
    "\<forall>(e, s, o2) \<in> mcb_live a. d + want < e \<or> e + s < d" "d + want \<le> total_paras a"
    using alloc_spec(1) [OF assms, of want] by blast
  with True show ?thesis
    by (simp add: mcb_good_def mcb_moves_def) (intro exI [of _ d], simp)
next
  case False
  with alloc_spec(2) [OF assms, of want] show ?thesis
    by (auto simp: mcb_good_def mcb_moves_def not_le)
qed

theorem mcb_alloc_exact_witness:
  "\<exists>a' d. mcb_alloc (mcb_init (\<lambda>_. blank_hdr) 16) 5 4 =
       Some (a', (reply MCB_OK)\<lparr>out_data_para := Some d\<rparr>) \<and> mcb_live a' = {(d, 4, 5)}"
proof -
  let ?a = "mcb_init (\<lambda>_. blank_hdr) 16"
  have i: "mcb_wf ?a" "mcb_blocks ?a = [(0, 15)]" using init_moves [of 16] by simp_all
  show ?thesis
    using mcb_alloc_exact [OF i(1), of 5 4]
    by (auto simp: has_free_def largest_free_def free_sizes_def i(2) mcb_live_def)
qed

text \<open>C22: AH=49h. Freeing succeeds exactly on the data paragraph of a block in use whose owner is the
  caller (or with the owner check waived); it removes that block from the blocks in use and
  nothing else; every other request is refused with the arena unchanged.\<close>

theorem mcb_free_exact:
  assumes "mcb_wf a"
  shows "(\<exists>s o1. (d, s, o1) \<in> mcb_live a \<and> (own = MCB_OWNER_ANY \<or> own = o1) \<and>
            (\<exists>a'. mcb_free a d own = Some (a', reply MCB_OK) \<and> mcb_good a' \<and>
               mcb_live a' = mcb_live a - {(d, s, o1)})) \<or>
         (\<not> (\<exists>s o1. (d, s, o1) \<in> mcb_live a \<and> (own = MCB_OWNER_ANY \<or> own = o1)) \<and>
            mcb_free a d own = Some (a, reply MCB_ERR_BAD_BLOCK))"
  by (rule free_cases [OF assms, of d own]) (blast intro: good_move_good)+

theorem mcb_free_exact_witness:
  "mcb_free (mcb_init (\<lambda>_. blank_hdr) 16) 1 5 =
     Some (mcb_init (\<lambda>_. blank_hdr) 16, reply MCB_ERR_BAD_BLOCK)"
proof -
  let ?a = "mcb_init (\<lambda>_. blank_hdr) 16"
  have i: "mcb_wf ?a" "mcb_blocks ?a = [(0, 15)]" using init_moves [of 16] by simp_all
  show ?thesis using mcb_free_exact [OF i(1), of 1 5] by (simp add: mcb_live_def i(2))
qed

text \<open>C21: AH=4Ah. A block in use can be resized to any size that ends inside the arena and before
  the next block in use, and always downwards; the resize changes that block's size and nothing
  else; a refused resize leaves the arena unchanged and reports the largest size that fits.\<close>

theorem mcb_setblock_exact:
  assumes "mcb_good a" "(d, cur, o1) \<in> mcb_live a" "own = MCB_OWNER_ANY \<or> own = o1"
  shows "if want \<le> cur \<or> fits a d want
     then \<exists>a'. mcb_setblock a d want own = Some (a', reply MCB_OK) \<and> mcb_good a' \<and>
            mcb_live a' = insert (d, want, o1) (mcb_live a - {(d, cur, o1)})
     else \<exists>room. mcb_setblock a d want own =
              Some (a, (reply MCB_ERR_INSUFFICIENT)\<lparr>out_largest := Some room\<rparr>) \<and>
            cur \<le> room \<and> fits a d room \<and> \<not> fits a d (room + 1)"
  using setblock_spec [OF _ _ assms(2,3), of want] assms(1)
  by (auto simp: mcb_good_def mcb_moves_def)

lemma set_owner_init:
  assumes "1 \<le> n" "n \<le> 65536"
  shows "mcb_blocks (fst (mcb_set_arena_owner (mcb_init m n) own)) = [(own, n - 1)]"
    and "mcb_good (fst (mcb_set_arena_owner (mcb_init m n) own))"
proof -
  let ?a = "mcb_init m n" and ?b = "fst (mcb_set_arena_owner (mcb_init m n) own)"
  have g: "mcb_good ?a" "mcb_blocks ?a = [(0, n - 1)]" using init_moves [OF assms] by (simp_all add: mcb_good_def)
  then have c: "chain (base ?a) (total_paras ?a) 0 [(0, n - 1)]" by (simp add: mcb_good_def wf_chain)
  have b: "?b = put_hdr ?a 0 ((base ?a 0)\<lparr>owner := own\<rparr>)"
    using c assms by (simp add: mcb_set_arena_owner_def Let_def holds_blk_def)
  have "chain (base ?b) (total_paras ?b) 0 [(own, n - 1)]"
    using put_owner_chain [OF c, of own] by (simp add: b)
  then show "mcb_blocks ?b = [(own, n - 1)]" by (simp add: mcb_blocks_def chain_blocks)
  show "mcb_good ?b"
    by (rule good_move_good, rule set_owner_good [OF g(1)]) (simp add: prod_eq_iff)
qed

theorem mcb_setblock_exact_witness:
  "\<exists>a'. mcb_setblock (fst (mcb_set_arena_owner (mcb_init (\<lambda>_. blank_hdr) 16) 5)) 1 6 5 =
       Some (a', reply MCB_OK) \<and> mcb_live a' = {(1, 6, 5)}"
proof -
  let ?a = "fst (mcb_set_arena_owner (mcb_init (\<lambda>_. blank_hdr) 16) 5)"
  have i: "mcb_good ?a" "mcb_blocks ?a = [(5, 15)]" using set_owner_init [of 16] by simp_all
  then have "(1, 15, 5) \<in> mcb_live ?a" by (simp add: mcb_live_def)
  from mcb_setblock_exact [OF i(1) this, of 5 6] show ?thesis by (auto simp: mcb_live_def i(2))
qed

text \<open>C14: in every arena reachable from \<open>mcb_init\<close> by the arena's operations the chain is intact, no two free
  blocks are adjacent, and each of the six operations that walk the chain to change it returns: allocation and
  the keeping of all blocks for every owner but the free mark 0, which no caller passes, the others for every
  argument. (\<open>mcb_set_arena_owner\<close> has no loop.)\<close>

theorem mcb_reachable_intact:
  assumes "mcb_reachable a"
  shows "mcb_chain_intact a \<and> no_adj_free (mcb_blocks a) \<and>
    (\<forall>own want. own \<noteq> MCB_OWNER_FREE \<longrightarrow> mcb_alloc a own want \<noteq> None) \<and>
    (\<forall>d own. mcb_free a d own \<noteq> None) \<and> (\<forall>d want own. mcb_setblock a d want own \<noteq> None) \<and>
    (\<forall>own. mcb_free_owner a own \<noteq> None) \<and> (\<forall>own keep. mcb_keep_resident a own keep \<noteq> None) \<and>
    (\<forall>own. own \<noteq> MCB_OWNER_FREE \<longrightarrow> mcb_keep_all a own \<noteq> None)"
proof -
  have g: "mcb_good a" "mcb_wf a" using reachable_good [OF assms] by (simp_all add: mcb_good_def)
  moreover have "mcb_alloc a own want \<noteq> None" if "own \<noteq> MCB_OWNER_FREE" for own want
    by (rule alloc_cases [OF g(2) that, of want]) auto
  moreover have "mcb_free a d own \<noteq> None" for d own
    by (rule free_cases [OF g(2), of d own]) auto
  moreover have "mcb_setblock a d want own \<noteq> None" for d want own
    by (rule setblock_cases [OF g(1), of d own want]) auto
  moreover have "mcb_free_owner a own \<noteq> None" for own
    using free_owner_refines [OF g(2), of own] by (cases "own = MCB_OWNER_FREE") (auto simp: mcb_free_owner_def)
  moreover have "mcb_keep_resident a own keep \<noteq> None" for own keep
  proof (cases "own = MCB_OWNER_FREE \<or> own = MCB_OWNER_SYSTEM \<or> own \<notin> fst ` set (mcb_blocks a)")
    case True
    then show ?thesis using keep_resident_rejects [OF g(2)] by simp
  next
    case False
    then obtain q where "first_owned own 0 (mcb_blocks a) = Some q" using first_owned_None [of own 0] by (metis not_None_eq)
    from first_owned_Some [OF this] obtain xs sz ys where "mcb_blocks a = xs @ (own, sz) # ys" "own \<notin> fst ` set xs" by blast
    from keep_resident_refines [OF g(2) this, of keep] False show ?thesis by auto
  qed
  moreover have "mcb_keep_all a own \<noteq> None" if "own \<noteq> MCB_OWNER_FREE" for own
    using keep_all_refines [OF g(2) that] by auto
  ultimately show ?thesis by (simp add: mcb_good_def wf_intact)
qed

theorem mcb_reachable_intact_witness:
  "mcb_chain_intact (fst (mcb_set_arena_owner (mcb_init (\<lambda>_. blank_hdr) 16) 5))"
proof -
  have "mcb_reachable (mcb_init (\<lambda>_. blank_hdr) 16)" by (rule reach_init) simp_all
  then have "mcb_reachable (fst (mcb_set_arena_owner (mcb_init (\<lambda>_. blank_hdr) 16) 5))"
    by (rule reach_step) (rule step_own, rule prod.collapse [symmetric])
  from mcb_reachable_intact [OF this] show ?thesis by simp
qed

text \<open>The contents of a block survive every operation of the arena: when a block is in use before
  and after a step, no paragraph of its common part is written.\<close>

theorem mcb_step_preserves_contents:
  assumes "mcb_good a" "mcb_step a a'"
    and "(d, s, o1) \<in> mcb_live a" "(d, s', o2) \<in> mcb_live a'" "d \<le> x" "x < d + min s s'"
  shows "base a' x = base a x"
  using good_move_data [OF step_good [OF assms(2,1)] assms(3-)] .

theorem mcb_step_preserves_contents_witness:
  "\<exists>a'. mcb_step (fst (mcb_set_arena_owner (mcb_init (\<lambda>_. blank_hdr) 16) 5)) a' \<and>
     base a' 3 = base (fst (mcb_set_arena_owner (mcb_init (\<lambda>_. blank_hdr) 16) 5)) 3"
proof -
  let ?a = "fst (mcb_set_arena_owner (mcb_init (\<lambda>_. blank_hdr) 16) 5)"
  have i: "mcb_good ?a" "mcb_blocks ?a = [(5, 15)]" using set_owner_init [of 16] by simp_all
  then have b: "(1, 15, 5) \<in> mcb_live ?a" by (simp add: mcb_live_def)
  obtain a' where a': "mcb_setblock ?a 1 6 5 = Some (a', reply MCB_OK)" "(1, 6, 5) \<in> mcb_live a'"
    by (rule setblock_cases [OF i(1), of 1 5 6])
      (use setblock_spec(1) [OF _ _ b, of 5 6] i in \<open>auto simp: mcb_good_def mcb_live_def\<close>)
  have st: "mcb_step ?a a'" using a'(1) by (rule step_setblock)
  from mcb_step_preserves_contents [OF i(1) st b a'(2), of 3] st show ?thesis by auto
qed


text \<open>Allocation and release are inverse: freeing the block just handed out restores the arena's
  chain of blocks, so a process that returns what it took leaves no trace in the chain.\<close>

theorem mcb_alloc_free_roundtrip:
  assumes "mcb_good a" "own \<noteq> MCB_OWNER_FREE"
    and "mcb_alloc a own want = Some (b, r)" "out_data_para r = Some d"
  shows "\<exists>c. mcb_free b d own = Some (c, reply MCB_OK) \<and> mcb_blocks c = mcb_blocks a"
proof -
  from assms(1) have g: "mcb_wf a" "no_adj_free (mcb_blocks a)" by (simp_all add: mcb_good_def)
  from g(1) assms(2) have "good_move a b \<and> mcb_live b = insert (d, want, own) (mcb_live a) \<and>
      (d, want, own) \<notin> mcb_live a"
    by (rule alloc_cases [of a own want]) (use assms(3,4) in \<open>auto simp: reply_def\<close>)
  then have b: "mcb_good b" "mcb_live b = insert (d, want, own) (mcb_live a)" "total_paras b = total_paras a"
    and fresh: "(d, want, own) \<notin> mcb_live a"
    using good_move_good [of a b] by (auto simp: good_move_def mcb_moves_def)
  have wb: "mcb_wf b" using b(1) by (simp add: mcb_good_def)
  have "(d, want, own) \<in> mcb_live b" using b(2) by simp
  from free_spec [OF wb this, of own] obtain c where
    c: "mcb_free b d own = Some (c, reply MCB_OK)" "mcb_moves b c (mcb_blocks c)"
      "no_adj_free (mcb_blocks c)" "mcb_live c = mcb_live b - {(d, want, own)}" by blast
  have "span (mcb_blocks c) = span (mcb_blocks a)"
    using c(2) b(3) g(1) by (simp add: good_blocks_span mcb_moves_def)
  with c(3,4) g(2) b(2) fresh have "mcb_blocks c = mcb_blocks a"
    by (intro blocks_canonical [of _ _ 0]) (simp_all add: mcb_live_def)
  with c(1) show ?thesis by blast
qed

theorem mcb_alloc_free_roundtrip_witness:
  "\<exists>b r d c. mcb_alloc (mcb_init (\<lambda>_. blank_hdr) 16) 5 4 = Some (b, r) \<and>
     mcb_free b d 5 = Some (c, reply MCB_OK) \<and> mcb_blocks c = [(0, 15)]"
proof -
  let ?a = "mcb_init (\<lambda>_. blank_hdr) 16"
  have i: "mcb_good ?a" "mcb_blocks ?a = [(0, 15)]" "mcb_wf ?a"
    using init_moves [of 16] by (simp_all add: mcb_good_def)
  then obtain b d where "mcb_alloc ?a 5 4 = Some (b, reply MCB_OK\<lparr>out_data_para := Some d\<rparr>)"
    using alloc_spec(1) [OF i(3), of 5 4] by (auto simp: has_free_def largest_free_def free_sizes_def)
  from mcb_alloc_free_roundtrip [OF i(1) _ this] this i(2) show ?thesis by auto
qed

lemma free_owner_live:
  assumes "mcb_wf b" "own \<noteq> MCB_OWNER_FREE" "mcb_free_owner b own = Some (c, n)"
  shows "mcb_live c = {(e, s, o1) \<in> mcb_live b. o1 \<noteq> own}"
proof (cases "n = 0")
  case True
  with free_owner_refines [OF assms(1,2)] assms(3)
  have "mcb_live c = mcb_live b" "own \<notin> fst ` set (mcb_blocks b)"
    by (auto simp: mcb_live_def mcb_moves_def filter_empty_conv split: if_splits)
  moreover from this(2) have "(e, s, own) \<notin> mcb_live b" for e s
    by (force simp: mcb_live_def live_iff)
  ultimately show ?thesis by auto
next
  case False
  with free_owner_refines [OF assms(1,2)] assms(3)
  have "mcb_live c = live 0 (map (reown own MCB_OWNER_FREE) (mcb_blocks b))"
    by (auto simp: live_moves split: if_splits)
  then show ?thesis by (simp add: live_reown_free mcb_live_def)
qed

lemma first_owned_block:
  assumes "(d, cur, own) \<in> mcb_live a" "\<forall>(e, s, o1) \<in> mcb_live a. o1 = own \<longrightarrow> d \<le> e"
  shows "\<exists>xs ys. mcb_blocks a = xs @ (own, cur) # ys \<and> d = span xs + 1 \<and> own \<notin> fst ` set xs"
proof -
  obtain xs ys where bl: "mcb_blocks a = xs @ (own, cur) # ys" "d = span xs + 1" "own \<noteq> MCB_OWNER_FREE"
    using live_elem_split [OF assms(1)] by blast
  have "own \<notin> fst ` set xs"
  proof
    assume "own \<in> fst ` set xs"
    then obtain s as cs where "xs = as @ (own, s) # cs" by (auto simp: in_set_conv_decomp)
    then have "(span as + 1, s, own) \<in> mcb_live a" "span as + 1 < d"
      using bl by (auto simp: mcb_live_def)
    with assms(2) show False by fastforce
  qed
  with bl show ?thesis by blast
qed

text \<open>C23: AH=31h keeps a resident's memory: after \<open>mcb_keep_resident\<close> the process's first block, cut
  to the requested size, belongs to the system, and the termination that frees every block of
  the process leaves it in use with its contents.\<close>

theorem mcb_keep_resident_survives:
  assumes "mcb_good a" "psp \<noteq> MCB_OWNER_FREE" "psp \<noteq> MCB_OWNER_SYSTEM"
    and "(d, cur, psp) \<in> mcb_live a" "\<forall>(e, s, o1) \<in> mcb_live a. o1 = psp \<longrightarrow> d \<le> e"
    and "mcb_keep_resident a psp keep = Some (b, r)" "mcb_free_owner b psp = Some (c, n)"
  shows "r = reply MCB_OK \<and> mcb_good c \<and>
    mcb_live c = insert (d, min keep cur, MCB_OWNER_SYSTEM) {(e, s, o1) \<in> mcb_live a. o1 \<noteq> psp} \<and>
    (\<forall>x. d \<le> x \<and> x < d + min keep cur \<longrightarrow> base c x = base a x)"
proof -
  from assms(1) have wf: "mcb_wf a" by (simp add: mcb_good_def)
  obtain xs ys where bl: "mcb_blocks a = xs @ (psp, cur) # ys" "d = span xs + 1" "psp \<notin> fst ` set xs"
    using first_owned_block [OF assms(4,5)] by blast
  let ?k = "min keep cur" and ?sys = "MCB_OWNER_SYSTEM"
  have r: "r = reply MCB_OK"
    and mv: "mcb_moves a b (coalesce_blks (xs @ carve ?sys ?k cur @ ys))"
    using keep_resident_refines [OF wf bl(1,3) assms(2,3), of keep] assms(6) by auto
  have gb: "good_move a b" using mv by (rule good_moveI) simp
  then have wb: "mcb_good b" "mcb_wf b" using good_move_good [OF gb] by (simp_all add: mcb_good_def)
  have lb: "mcb_live b = insert (d, ?k, ?sys) (mcb_live a - {(d, cur, psp)})"
    using live_split_remove [OF bl(1) assms(2)] bl(2) mv
    by (simp add: live_moves insert_commute)
  have gc: "good_move b c" by (rule free_owner_good [OF wb(1) assms(7)])
  have lc: "mcb_live c = insert (d, ?k, ?sys) {(e, s, o1) \<in> mcb_live a. o1 \<noteq> psp}"
    using free_owner_live [OF wb(2) assms(2,7)] lb assms(3) by auto
  have "base c x = base a x" if "d \<le> x" "x < d + ?k" for x
    using good_move_data [OF gb assms(4), of ?k ?sys x] good_move_data [OF gc, of d ?k ?sys ?k ?sys x]
      lb lc that by auto
  with r lc good_move_good [OF gc] show ?thesis by blast
qed

theorem mcb_keep_resident_survives_witness:
  "\<exists>b r c n. mcb_keep_resident (fst (mcb_set_arena_owner (mcb_init (\<lambda>_. blank_hdr) 16) 5)) 5 6 = Some (b, r) \<and>
     mcb_free_owner b 5 = Some (c, n) \<and> mcb_live c = {(1, 6, 8)}"
proof -
  let ?a = "fst (mcb_set_arena_owner (mcb_init (\<lambda>_. blank_hdr) 16) 5)"
  have i: "mcb_good ?a" "mcb_blocks ?a = [(5, 15)]" "mcb_wf ?a"
    using set_owner_init [of 16] by (simp_all add: mcb_good_def)
  then have l: "(1, 15, 5) \<in> mcb_live ?a" "\<forall>(e, s, o1) \<in> mcb_live ?a. o1 = 5 \<longrightarrow> 1 \<le> e"
    by (simp_all add: mcb_live_def)
  obtain b where b: "mcb_keep_resident ?a 5 6 = Some (b, reply MCB_OK)"
    using keep_resident_refines [OF i(3), of "[]" 5 15 "[]" 6] i(2) by auto
  then have "mcb_wf b"
    using good_move_good [OF keep_resident_good [OF i(1) b]] by (simp add: mcb_good_def)
  then obtain c n where c: "mcb_free_owner b 5 = Some (c, n)" using free_owner_refines [of b 5] by auto
  from mcb_keep_resident_survives [OF i(1) _ _ l b c] b c i(2) show ?thesis
    by (auto simp: mcb_live_def)
qed

text \<open>C1: isolation of processes: whatever sequence of AH=48h, 49h and 4Ah requests a process issues,
  every request returns, and every block of every other owner stays in use with its contents.\<close>

theorem mcb_processes_isolated:
  assumes "mcb_good a" "own \<noteq> MCB_OWNER_FREE" "own \<noteq> MCB_OWNER_ANY"
  shows "\<exists>a'. heap_run mcb_request a own qs = Some a' \<and> mcb_good a' \<and>
    (\<forall>d s o1. (d, s, o1) \<in> mcb_live a \<longrightarrow> o1 \<noteq> own \<longrightarrow>
       (d, s, o1) \<in> mcb_live a' \<and> (\<forall>x. d \<le> x \<and> x < d + s \<longrightarrow> base a' x = base a x))"
  using arena_heap.run_spares [OF assms, of qs] by (simp add: arena_heap.spares_def)

theorem mcb_processes_isolated_witness:
  "\<exists>a'. heap_run mcb_request (fst (mcb_set_arena_owner (mcb_init (\<lambda>_. blank_hdr) 16) 5)) 6
      [ReqAlloc 3, ReqFree 1, ReqSetblock 1 2] = Some a' \<and> (1, 15, 5) \<in> mcb_live a'"
proof -
  let ?a = "fst (mcb_set_arena_owner (mcb_init (\<lambda>_. blank_hdr) 16) 5)"
  have i: "mcb_good ?a" "mcb_blocks ?a = [(5, 15)]" using set_owner_init [of 16] by simp_all
  have "(1, 15, 5) \<in> mcb_live ?a" by (simp add: mcb_live_def i(2))
  moreover obtain a' where a': "heap_run mcb_request ?a 6 [ReqAlloc 3, ReqFree 1, ReqSetblock 1 2] = Some a'"
    "\<forall>d s o1. (d, s, o1) \<in> mcb_live ?a \<longrightarrow> o1 \<noteq> 6 \<longrightarrow> (d, s, o1) \<in> mcb_live a'"
    using mcb_processes_isolated [OF i(1), of 6 "[ReqAlloc 3, ReqFree 1, ReqSetblock 1 2]"] by auto
  ultimately have "(1, 15, 5) \<in> mcb_live a'" by simp
  with a'(1) show ?thesis by blast
qed

end
