(* ===== verification/Int21Mem.thy ===== *)
theory Int21Mem imports McbHeap begin

text \<open>
  The memory services of \<open>os/milton/int21.c\<close>: the binding of the arena, the EXEC seam of the program
  loader (\<open>int21_mcb_*\<close>) and the INT 21h handlers AH=48h, 49h, 4Ah. They are clients of the arena
  of theory \<open>Mcb\<close>; a DOS segment is the paragraph number of a linear address.

  \<open>g_cur_psp\<close> is the linear address of the current PSP (0 for the null pointer). \<open>ram p\<close> is linear
  paragraph \<open>p\<close> read as \<open>mcb_t\<close>. While a high-memory context is bound (\<open>g_high\<close>) each handler hands
  the call to the 32-bit block service of \<open>native.c\<close>, a component of its own: here it is the parameter
  \<open>native\<close>, the frame that service replies with.
\<close>

record int21_mem =
  g_arena :: mcb_arena
  g_arena_base_linear :: nat
  g_arena_bound :: bool
  g_arena_psp_window :: bool
  g_cur_psp :: nat
  g_high :: bool

text \<open>The low halves of the registers the handlers use, and the carry flag.\<close>

record int_frame =
  ax :: u16
  bx :: u16
  cx :: u16
  cf :: bool

definition cur_psp_owner :: "int21_mem \<Rightarrow> u16" where
  "cur_psp_owner s = (if g_cur_psp s = 0 then 0 else of_nat (g_cur_psp s div 16))"

definition int21_mcb_usage :: "int21_mem \<Rightarrow> (bool \<times> nat \<times> nat \<times> nat) option" where
  "int21_mcb_usage s =
     (if \<not> g_arena_bound s then Some (False, 0, 0, 0)
      else case mcb_stats (g_arena s) of
        None \<Rightarrow> None
      | Some (ok, fr, big) \<Rightarrow>
          if \<not> ok then Some (False, 0, fr, big) else Some (True, total_paras (g_arena s), fr, big))"

definition int21_mcb_stats :: "int21_mem \<Rightarrow> (bool \<times> nat \<times> nat) option" where
  "int21_mcb_stats s =
     (if \<not> g_arena_bound s then Some (False, 0, 0)
      else case mcb_stats (g_arena s) of
        None \<Rightarrow> None
      | Some (ok, fr, big) \<Rightarrow>
          if \<not> ok then Some (False, 0, big) else Some (True, total_paras (g_arena s), big))"

text \<open>\<open>mem\<close> is \<open>None\<close> for a null base pointer.\<close>

definition int21_set_mcb_arena :: "int21_mem \<Rightarrow> paras option \<Rightarrow> nat \<Rightarrow> nat \<Rightarrow> int21_mem" where
  "int21_set_mcb_arena s mem n base_linear =
     (case mem of
        Some m \<Rightarrow>
          if n < 2 then s\<lparr>g_arena := (g_arena s)\<lparr>total_paras := 0\<rparr>, g_arena_base_linear := 0,
                          g_arena_bound := False\<rparr>
          else s\<lparr>g_arena := mcb_init m n, g_arena_base_linear := base_linear,
                 g_arena_bound := True, g_arena_psp_window := False\<rparr>
      | None \<Rightarrow> s\<lparr>g_arena := (g_arena s)\<lparr>total_paras := 0\<rparr>, g_arena_base_linear := 0,
                  g_arena_bound := False\<rparr>)"

text \<open>The code returned, the new state, and the PSP and end address written on success. The room
  test is the 32-bit sum of the C text.\<close>

definition int21_mcb_exec_alloc ::
    "int21_mem \<Rightarrow> nat \<Rightarrow> (int21_mem \<times> nat \<times> (nat \<times> nat) option) option" where
  "int21_mcb_exec_alloc s image_len =
     (if \<not> g_arena_bound s then Some (s, MCB_ERR_INSUFFICIENT, None)
      else case mcb_stats (g_arena s) of
        None \<Rightarrow> None
      | Some (ok, free_paras, largest) \<Rightarrow>
          if \<not> ok then Some (s, MCB_ERR_DESTROYED, None)
          else if largest * 16 mod 2 ^ 32 < (image_len + 0x100 + 4096) mod 2 ^ 32
          then Some (s, MCB_ERR_INSUFFICIENT, None)
          else case mcb_alloc (g_arena s) MCB_OWNER_SYSTEM largest of
            None \<Rightarrow> None
          | Some (a, r) \<Rightarrow>
              (case out_data_para r of
                 None \<Rightarrow> Some (s\<lparr>g_arena := a\<rparr>, code r, None)
               | Some d \<Rightarrow>
                   let psp = (g_arena_base_linear s + d * 16) mod 2 ^ 32;
                       end_lin = (psp + largest * 16) mod 2 ^ 32;
                       a' = put_hdr a (d - 1) ((base a (d - 1))\<lparr>owner := of_nat (psp div 16)\<rparr>)
                   in Some (s\<lparr>g_arena := a'\<rparr>, MCB_OK, Some (psp, end_lin))))"

definition int21_mcb_exec_free :: "int21_mem \<Rightarrow> nat \<Rightarrow> int21_mem option" where
  "int21_mcb_exec_free s psp =
     (if g_arena_bound s then
        (case mcb_free_owner (g_arena s) (of_nat (psp div 16)) of
           None \<Rightarrow> None | Some (a, n) \<Rightarrow> Some (s\<lparr>g_arena := a\<rparr>))
      else Some s)"

definition int21_mcb_exec_trim :: "int21_mem \<Rightarrow> nat \<Rightarrow> nat \<Rightarrow> (int21_mem \<times> nat) option" where
  "int21_mcb_exec_trim s psp end_lin =
     (if \<not> g_arena_bound s \<or> psp \<le> g_arena_base_linear s \<or> end_lin \<le> psp \<or>
         ((psp OR end_lin) AND 15) \<noteq> 0 then Some (s, MCB_ERR_BAD_BLOCK)
      else case mcb_setblock (g_arena s) ((psp - g_arena_base_linear s) div 16)
             ((end_lin - psp) div 16) (of_nat (psp div 16)) of
        None \<Rightarrow> None | Some (a, r) \<Rightarrow> Some (s\<lparr>g_arena := a\<rparr>, code r))"

definition int21_mcb_reset :: "int21_mem \<Rightarrow> int21_mem \<times> bool" where
  "int21_mcb_reset s =
     (if \<not> g_arena_bound s then (s, False)
      else let s1 = s\<lparr>g_arena := mcb_init (base (g_arena s)) (total_paras (g_arena s))\<rparr>;
               own = cur_psp_owner s1
           in if own \<noteq> MCB_OWNER_FREE
              then (s1\<lparr>g_arena := fst (mcb_set_arena_owner (g_arena s1) own),
                       g_arena_psp_window := True\<rparr>, True)
              else (s1, True))"

definition int21_mcb_bind_program :: "int21_mem \<Rightarrow> paras \<Rightarrow> nat \<Rightarrow> nat \<Rightarrow> int21_mem \<times> bool" where
  "int21_mcb_bind_program s ram arena_base_linear arena_ceil_linear =
     (if arena_ceil_linear \<le> arena_base_linear \<or> (arena_base_linear AND 0xF) \<noteq> 0
      then (int21_set_mcb_arena s None 0 0, False)
      else let n = (arena_ceil_linear - arena_base_linear) div 16 in
        if n < 2 then (int21_set_mcb_arena s None 0 0, False)
        else let s' = int21_set_mcb_arena s (Some (\<lambda>p. ram (arena_base_linear div 16 + p))) n
                        arena_base_linear
             in (s', g_arena_bound s'))"

definition arena_seg_base :: "int21_mem \<Rightarrow> nat" where
  "arena_seg_base s = (g_arena_base_linear s div 16) AND 0xFFFF"

definition do_alloc :: "(nat \<Rightarrow> int_frame \<Rightarrow> int_frame) \<Rightarrow> int21_mem \<Rightarrow> int_frame \<Rightarrow>
    (int21_mem \<times> int_frame) option" where
  "do_alloc native s f =
     (if g_high s then Some (s, native 0x48 f)
      else if \<not> g_arena_bound s \<or> g_cur_psp s = 0 then Some (s, f\<lparr>ax := 8, bx := 0, cf := True\<rparr>)
      else case mcb_alloc (g_arena s) (cur_psp_owner s) (unat (bx f)) of
        None \<Rightarrow> None
      | Some (a, r) \<Rightarrow>
          let data_para = (case out_data_para r of Some d \<Rightarrow> d | None \<Rightarrow> 0);
              largest = (case out_largest r of Some l \<Rightarrow> l | None \<Rightarrow> 0)
          in if code r \<noteq> MCB_OK
             then Some (s\<lparr>g_arena := a\<rparr>, f\<lparr>ax := of_nat (code r), bx := of_nat largest, cf := True\<rparr>)
             else Some (s\<lparr>g_arena := a\<rparr>, f\<lparr>ax := of_nat (arena_seg_base s + data_para), cf := False\<rparr>))"

definition do_free :: "(nat \<Rightarrow> int_frame \<Rightarrow> int_frame) \<Rightarrow> int21_mem \<Rightarrow> int_frame \<Rightarrow>
    (int21_mem \<times> int_frame) option" where
  "do_free native s f =
     (if g_high s then Some (s, native 0x49 f)
      else if \<not> g_arena_bound s \<or> g_cur_psp s = 0 then Some (s, f\<lparr>ax := 9, cf := True\<rparr>)
      else let seg = unat (bx f); base_seg = arena_seg_base s in
        if seg < base_seg then Some (s, f\<lparr>ax := 9, cf := True\<rparr>)
        else case mcb_free (g_arena s) (seg - base_seg) (cur_psp_owner s) of
          None \<Rightarrow> None
        | Some (a, r) \<Rightarrow>
            if code r \<noteq> MCB_OK
            then Some (s\<lparr>g_arena := a\<rparr>, f\<lparr>ax := of_nat (code r), cf := True\<rparr>)
            else Some (s\<lparr>g_arena := a\<rparr>, f\<lparr>cf := False\<rparr>))"

definition do_setblock :: "(nat \<Rightarrow> int_frame \<Rightarrow> int_frame) \<Rightarrow> int21_mem \<Rightarrow> int_frame \<Rightarrow>
    (int21_mem \<times> int_frame) option" where
  "do_setblock native s f =
     (if g_high s then Some (s, native 0x4A f)
      else if \<not> g_arena_bound s \<or> g_cur_psp s = 0 then Some (s, f\<lparr>ax := 8, bx := 0, cf := True\<rparr>)
      else let seg = unat (bx f); want = unat (cx f); base_seg = arena_seg_base s in
        if seg < base_seg then Some (s, f\<lparr>ax := 9, cf := True\<rparr>)
        else case mcb_setblock (g_arena s) (seg - base_seg) want (cur_psp_owner s) of
          None \<Rightarrow> None
        | Some (a, r) \<Rightarrow>
            let largest = (case out_largest r of Some l \<Rightarrow> l | None \<Rightarrow> 0) in
            if code r \<noteq> MCB_OK
            then Some (s\<lparr>g_arena := a\<rparr>,
                   (if code r = MCB_ERR_INSUFFICIENT then f\<lparr>ax := of_nat (code r), bx := of_nat largest, cf := True\<rparr>
                    else f\<lparr>ax := of_nat (code r), cf := True\<rparr>))
            else Some (s\<lparr>g_arena := a\<rparr>, f\<lparr>cf := False\<rparr>))"

lemma mask_0xffff: "(0xFFFF :: nat) = mask 16"
  by (simp add: mask_eq_exp_minus_1)

lemma reply_sel [simp]: "code (reply c) = c" "out_data_para (reply c) = None" "out_largest (reply c) = None"
  by (simp_all add: reply_def)

lemma stats_good:
  assumes "mcb_good a"
  shows "\<exists>fr. mcb_stats a = Some (True, fr, largest_free a)"
proof -
  have c: "chain (base a) (total_paras a) 0 (mcb_blocks a)" "mcb_chain_intact a"
    "coalesce_blks (mcb_blocks a) = mcb_blocks a"
    using assms by (simp_all add: mcb_good_def wf_chain wf_intact coalesce_id)
  from stats_from_chain [OF c(1), of 0 0] c show ?thesis
    by (auto simp: mcb_stats_def largest_free_def)
qed

lemma put_owner_good:
  assumes g: "mcb_good a" and b: "(d, s, o1) \<in> mcb_live a" and o2: "o2 \<noteq> MCB_OWNER_FREE"
  shows "mcb_good (put_hdr a (d - 1) ((base a (d - 1))\<lparr>owner := o2\<rparr>))" (is "mcb_good ?a")
    and "mcb_live (put_hdr a (d - 1) ((base a (d - 1))\<lparr>owner := o2\<rparr>)) =
           insert (d, s, o2) (mcb_live a - {(d, s, o1)})"
proof -
  have wf: "mcb_wf a" using g by (simp add: mcb_good_def)
  obtain xs ys where bl: "mcb_blocks a = xs @ (o1, s) # ys" "d = span xs + 1" "o1 \<noteq> MCB_OWNER_FREE"
    using live_elem_split [OF b] by blast
  note at = block_at [OF wf bl(1)]
  have "chain (base ?a) (total_paras a) 0 (xs @ (o2, s) # ys)"
    using put_owner_chain [OF at(2), of o2] bl(2) by (intro chain_rebuild [OF at(1)]) simp_all
  then have mv: "mcb_moves a ?a (xs @ (o2, s) # ys)"
    using at(3) bl(1,2) by (intro movesI) auto
  have "no_adj_free (xs @ (o2, s) # ys)"
    using g bl(1,3) o2 by (simp add: mcb_good_def no_adj_free_nonfree)
  from good_move_good [OF good_moveI [OF mv this]] show "mcb_good ?a" .
  show "mcb_live ?a = insert (d, s, o2) (mcb_live a - {(d, s, o1)})"
    using live_moves [OF mv] live_split_remove [OF bl(1,3)] bl(2) o2 by (simp add: insert_commute)
qed

text \<open>EXEC gives a program the largest free run, owned by the program's own PSP segment; the PSP
  and the end address are that block's bounds; and releasing the program (\<open>int21_mcb_exec_free\<close>)
  restores the arena's chain of blocks.\<close>

theorem exec_alloc_then_free:
  assumes "mcb_good (g_arena s)" "g_arena_bound s"
    and "int21_mcb_exec_alloc s image_len = Some (s1, MCB_OK, Some (psp, end_lin))"
    and "(of_nat (psp div 16) :: u16) \<noteq> MCB_OWNER_FREE"
    and "\<forall>(e, t, o1) \<in> mcb_live (g_arena s). o1 \<noteq> of_nat (psp div 16)"
    and "g_arena_base_linear s + total_paras (g_arena s) * 16 < 2 ^ 32"
  shows "(\<exists>d. (d, largest_free (g_arena s), of_nat (psp div 16)) \<in> mcb_live (g_arena s1) \<and>
             psp = g_arena_base_linear s + d * 16 \<and> end_lin = psp + largest_free (g_arena s) * 16) \<and>
         (\<exists>s2. int21_mcb_exec_free s1 psp = Some s2 \<and>
             mcb_blocks (g_arena s2) = mcb_blocks (g_arena s))"
proof -
  let ?a = "g_arena s" and ?n = "largest_free (g_arena s)" and ?own = "of_nat (psp div 16) :: u16"
  have wf: "mcb_wf ?a" using assms(1) by (simp add: mcb_good_def)
  obtain fr where st: "mcb_stats ?a = Some (True, fr, ?n)" using stats_good [OF assms(1)] by blast
  obtain a1 r where al: "mcb_alloc ?a MCB_OWNER_SYSTEM ?n = Some (a1, r)"
    by (rule alloc_cases [OF wf, of MCB_OWNER_SYSTEM ?n]) auto
  obtain d where d: "out_data_para r = Some d"
    "psp = (g_arena_base_linear s + d * 16) mod 2 ^ 32" "end_lin = (psp + ?n * 16) mod 2 ^ 32"
    "s1 = s\<lparr>g_arena := put_hdr a1 (d - 1) ((base a1 (d - 1))\<lparr>owner := ?own\<rparr>)\<rparr>"
    using assms(2,3) st al
    by (auto simp: int21_mcb_exec_alloc_def Let_def split: if_splits option.splits)
  have ok: "good_move ?a a1 \<and> mcb_live a1 = insert (d, ?n, MCB_OWNER_SYSTEM) (mcb_live ?a) \<and>
      (d, ?n, MCB_OWNER_SYSTEM) \<notin> mcb_live ?a"
    by (rule alloc_cases [OF wf, of MCB_OWNER_SYSTEM ?n]) (use al d(1) in simp_all)
  then have g1: "mcb_good a1" "total_paras a1 = total_paras ?a"
    using good_move_good [of ?a a1] by (auto simp: good_move_def mcb_moves_def)
  have in1: "(d, ?n, MCB_OWNER_SYSTEM) \<in> mcb_live a1" using ok by simp
  have "d + ?n \<le> total_paras ?a"
    using live_bounds [of d ?n MCB_OWNER_SYSTEM 0 "mcb_blocks a1"] in1 g1
      good_blocks_span [of a1] by (simp add: mcb_live_def mcb_good_def)
  then have pe: "psp = g_arena_base_linear s + d * 16" "end_lin = psp + ?n * 16"
    using d(2,3) assms(6) by simp_all
  note s1 = put_owner_good [OF g1(1) in1 assms(4)]
  let ?a1' = "g_arena s1"
  have a1': "mcb_good ?a1'" "mcb_live ?a1' = insert (d, ?n, ?own) (mcb_live ?a)"
    "total_paras ?a1' = total_paras ?a"
    using s1 d(4) ok g1(2) by auto
  then have w1: "mcb_wf ?a1'" by (simp add: mcb_good_def)
  obtain a2 m where fo: "mcb_free_owner ?a1' ?own = Some (a2, m)"
    using free_owner_refines [OF w1 assms(4)] by blast
  have l2: "mcb_live a2 = mcb_live ?a"
    using free_owner_live [OF w1 assms(4) fo] a1'(2) assms(5) by auto
  have gm: "good_move ?a1' a2" by (rule free_owner_good [OF a1'(1) fo])
  then have "mcb_good a2" "total_paras a2 = total_paras ?a"
    using good_move_good [OF gm] a1'(3) by (auto simp: good_move_def mcb_moves_def)
  with l2 assms(1) wf have "mcb_blocks a2 = mcb_blocks ?a"
    by (intro blocks_canonical [of _ _ 0]) (auto simp: mcb_good_def mcb_live_def good_blocks_span)
  moreover have "int21_mcb_exec_free s1 psp = Some (s1\<lparr>g_arena := a2\<rparr>)"
    using fo assms(2) d(4) by (simp add: int21_mcb_exec_free_def)
  ultimately show ?thesis using pe a1'(2) by auto
qed


theorem exec_alloc_then_free_witness:
  "\<exists>s1 s2. int21_mcb_exec_alloc
       \<lparr>g_arena = mcb_init (\<lambda>_. blank_hdr) 1024, g_arena_base_linear = 0x40000, g_arena_bound = True,
        g_arena_psp_window = False, g_cur_psp = 0, g_high = False\<rparr> 64 = Some (s1, MCB_OK, Some (0x40010, 0x44000)) \<and>
     int21_mcb_exec_free s1 0x40010 = Some s2 \<and> mcb_blocks (g_arena s2) = [(0, 1023)]"
proof -
  let ?a = "mcb_init (\<lambda>_. blank_hdr) 1024"
  let ?s = "\<lparr>g_arena = ?a, g_arena_base_linear = 0x40000, g_arena_bound = True,
        g_arena_psp_window = False, g_cur_psp = 0, g_high = False\<rparr>"
  have i: "mcb_good ?a" "mcb_blocks ?a = [(0, 1023)]" "mcb_wf ?a" "largest_free ?a = 1023"
    "total_paras ?a = 1024"
    using init_moves [of 1024]
    by (simp_all add: mcb_good_def largest_free_def free_sizes_def) (simp add: mcb_init_def)
  obtain fr where st: "mcb_stats ?a = Some (True, fr, 1023)" using stats_good [OF i(1)] i(4) by auto
  obtain a1 d where al: "mcb_alloc ?a MCB_OWNER_SYSTEM 1023 = Some (a1, reply MCB_OK\<lparr>out_data_para := Some d\<rparr>)"
    "d + 1023 \<le> 1024" "mcb_live a1 = {(d, 1023, MCB_OWNER_SYSTEM)}"
    using alloc_spec(1) [OF i(3), of MCB_OWNER_SYSTEM 1023] i
    by (auto simp: has_free_def free_sizes_def mcb_live_def)
  from al(3) have "0 < d" using live_bounds [of d 1023 MCB_OWNER_SYSTEM 0 "mcb_blocks a1"]
    by (simp add: mcb_live_def)
  with al(2) have d: "d = 1" by simp
  obtain s1 where s1: "int21_mcb_exec_alloc ?s 64 = Some (s1, MCB_OK, Some (0x40010, 0x44000))"
    using st al(1) d by (simp add: int21_mcb_exec_alloc_def)
  have "\<exists>s2. int21_mcb_exec_free s1 0x40010 = Some s2 \<and> mcb_blocks (g_arena s2) = mcb_blocks ?a"
    using exec_alloc_then_free [OF _ _ s1] i by (simp add: mcb_live_def)
  with s1 i(2) show ?thesis by auto
qed

text \<open>the segment numbers of AH=48h and AH=49h agree: for an arena below 1 MB, the segment a
  process gets from a successful AH=48h is one that AH=49h accepts from the same process, and the
  arena's chain of blocks is what it was.\<close>

theorem int21_alloc_free_segments:
  assumes "mcb_good (g_arena s)" "g_arena_bound s" "\<not> g_high s" "g_cur_psp s \<noteq> 0" "cur_psp_owner s \<noteq> MCB_OWNER_FREE"
    and "g_arena_base_linear s div 16 + total_paras (g_arena s) < 65536"
    and "do_alloc native s f = Some (s1, f1)" "\<not> cf f1"
  shows "\<exists>s2 f2. do_free native s1 (f1\<lparr>bx := ax f1\<rparr>) = Some (s2, f2) \<and> \<not> cf f2 \<and>
    mcb_blocks (g_arena s2) = mcb_blocks (g_arena s)"
proof -
  let ?a = "g_arena s" and ?own = "cur_psp_owner s" and ?want = "unat (bx f)"
  have wf: "mcb_wf ?a" using assms(1) by (simp add: mcb_good_def)
  obtain a1 r where al: "mcb_alloc ?a ?own ?want = Some (a1, r)"
    by (rule alloc_cases [OF wf assms(5), of ?want]) auto
  then have "code r = MCB_OK"
    using assms(2-4,7,8) by (auto simp: do_alloc_def Let_def split: if_splits)
  then obtain d where d: "out_data_para r = Some d" "good_move ?a a1" "(d, ?want, ?own) \<notin> mcb_live ?a"
    "mcb_live a1 = insert (d, ?want, ?own) (mcb_live ?a)"
    using alloc_ok [OF wf assms(5) al] by blast
  have g1: "mcb_good a1" "mcb_wf a1" "total_paras a1 = total_paras ?a"
    using good_move_good [OF d(2)] d(2) by (auto simp: mcb_good_def good_move_def mcb_moves_def)
  have in1: "(d, ?want, ?own) \<in> mcb_live a1" using d(4) by simp
  have b: "0 < d" "d + ?want \<le> total_paras ?a"
    using live_bounds [of d ?want ?own 0 "mcb_blocks a1"] in1 g1 good_blocks_span [OF g1(2)]
    by (simp_all add: mcb_live_def)
  let ?seg = "g_arena_base_linear s div 16"
  have seg: "arena_seg_base s = ?seg"
    using assms(6) b take_bit_nat_eq_self [of ?seg 16]
    by (simp add: arena_seg_base_def take_bit_eq_mask [symmetric] mask_0xffff)
  have s1: "s1 = s\<lparr>g_arena := a1\<rparr>" "ax f1 = of_nat (?seg + d)"
    using assms(2-4,7) al d(1) \<open>code r = MCB_OK\<close> seg
    by (auto simp: do_alloc_def Let_def)
  have ax: "unat (ax f1) = ?seg + d"
    unfolding s1(2) using assms(6) b
    by (simp add: cast_simps del: of_nat_add)
  obtain c where c: "mcb_free a1 d ?own = Some (c, reply MCB_OK)" "mcb_moves a1 c (mcb_blocks c)"
      "no_adj_free (mcb_blocks c)" "mcb_live c = mcb_live a1 - {(d, ?want, ?own)}"
    using free_spec [OF g1(2) in1, of ?own] by blast
  have "mcb_blocks c = mcb_blocks ?a"
    using c(2-4) g1(3) wf assms(1) d(3,4)
    by (intro blocks_canonical [of _ _ 0])
      (auto simp: mcb_live_def mcb_good_def good_blocks_span mcb_moves_def)
  moreover have "do_free native s1 (f1\<lparr>bx := ax f1\<rparr>) = Some (s1\<lparr>g_arena := c\<rparr>, f1\<lparr>bx := ax f1, cf := False\<rparr>)"
    using assms(2-4) c(1) seg s1(1) ax by (simp add: do_free_def arena_seg_base_def cur_psp_owner_def Let_def)
  ultimately show ?thesis by simp
qed

theorem int21_alloc_free_segments_witness:
  "\<exists>s1 f1 s2 f2. do_alloc (\<lambda>_ f. f)
       \<lparr>g_arena = mcb_init (\<lambda>_. blank_hdr) 1024, g_arena_base_linear = 0x40000, g_arena_bound = True,
        g_arena_psp_window = False, g_cur_psp = 0x50000, g_high = False\<rparr>
       \<lparr>ax = 0x4800, bx = 4, cx = 0, cf = True\<rparr> = Some (s1, f1) \<and>
     do_free (\<lambda>_ f. f) s1 (f1\<lparr>bx := ax f1\<rparr>) = Some (s2, f2) \<and> \<not> cf f2 \<and>
     mcb_blocks (g_arena s2) = [(0, 1023)]"
proof -
  let ?a = "mcb_init (\<lambda>_. blank_hdr) 1024"
  let ?s = "\<lparr>g_arena = ?a, g_arena_base_linear = 0x40000, g_arena_bound = True,
        g_arena_psp_window = False, g_cur_psp = 0x50000, g_high = False\<rparr>"
  let ?f = "\<lparr>ax = 0x4800, bx = 4, cx = 0, cf = True\<rparr>"
  have i: "mcb_good ?a" "mcb_blocks ?a = [(0, 1023)]" "mcb_wf ?a"
    using init_moves [of 1024] by (simp_all add: mcb_good_def)
  have n: "total_paras ?a = 1024" by (simp add: mcb_init_def)
  have o: "cur_psp_owner ?s = 0x5000" by (simp add: cur_psp_owner_def)
  obtain a1 d where al: "mcb_alloc ?a 0x5000 4 = Some (a1, reply MCB_OK\<lparr>out_data_para := Some d\<rparr>)"
    using alloc_spec(1) [OF i(3), of "0x5000" 4] i
    by (auto simp: has_free_def largest_free_def free_sizes_def)
  then obtain s1 f1 where f1: "do_alloc (\<lambda>_ f. f) ?s ?f = Some (s1, f1)" "\<not> cf f1"
    by (simp add: do_alloc_def o Let_def)
  obtain s2 f2 where "do_free (\<lambda>_ f. f) s1 (f1\<lparr>bx := ax f1\<rparr>) = Some (s2, f2)" "\<not> cf f2"
    "mcb_blocks (g_arena s2) = mcb_blocks ?a"
    using int21_alloc_free_segments [OF _ _ _ _ _ _ f1] i n o by auto
  with f1(1) i(2) show ?thesis by (metis (full_types))
qed

end
