(* ===== verification/Region.thy ===== *)
theory Region imports Prelude "HOL-Library.Monad_Syntax" begin

text \<open>
  The ATKINSON region engine of \<open>os/flair/atkinson/region.c\<close>, with the constants and truth tables of
  \<open>spec/region_algebra.h\<close>: regions of pixels as rows of inversion lists, their normal form, the
  scanline merge, the union of rectangles, the queries and the QuickDraw and GDI facades.

  Coordinates are \<open>int\<close>; the C type is \<open>int16_t\<close>, and no operation here does arithmetic on a
  coordinate, only comparisons and copies. The two sentinels of \<open>region_from_rects\<close> lie outside
  that type, and its property says so. A row owns its slice of the pool, so \<open>rgn_row\<close> holds the
  list itself; \<open>x_pool_used\<close> and the two capacities are kept, and every fail-loud test with them.
  The trap \<open>RGN_FAIL_LOUD\<close> is \<open>None\<close>.

  Whether an output region is also an input is a flag of the call. The working set of the engine
  is \<open>rgn_ws\<close>: whether both slots are bound and whether an engine call is in flight.
\<close>

section \<open>Data\<close>

datatype rgn_op = RGN_OP_UNION | RGN_OP_INTERSECT | RGN_OP_DIFF | RGN_OP_XOR

record rgn_rect =
  rtop :: int
  rleft :: int
  rbottom :: int
  rright :: int

record rgn_row =
  y_top :: int
  row_x :: "int list"

record region =
  bbox :: rgn_rect
  rows :: "rgn_row list"
  cap_rows :: nat
  x_pool_used :: nat
  x_pool_cap :: nat
  is_rect :: bool
  is_empty :: bool

record rgn_ws =
  ws_bound :: bool
  ws_in_use :: bool

abbreviation (input) RGN_ROWS_CAP :: nat where "RGN_ROWS_CAP \<equiv> 256"
abbreviation (input) RGN_X_POOL_CAP :: nat where "RGN_X_POOL_CAP \<equiv> 2048"
abbreviation (input) RGN_ROW_X_MAX :: nat where "RGN_ROW_X_MAX \<equiv> 640"

fun rgn_op_truth :: "rgn_op \<Rightarrow> nat" where
  "rgn_op_truth RGN_OP_UNION = 0xE"
| "rgn_op_truth RGN_OP_INTERSECT = 0x8"
| "rgn_op_truth RGN_OP_DIFF = 0x4"
| "rgn_op_truth RGN_OP_XOR = 0x6"

definition boolfn :: "rgn_op \<Rightarrow> bool \<Rightarrow> bool \<Rightarrow> bool" where
  "boolfn op inA inB =
     (drop_bit ((if inA then 2 else 0) + (if inB then 1 else 0)) (rgn_op_truth op) AND 1 = 1)"

section \<open>Construction and normal form\<close>

definition region_set_empty :: "region \<Rightarrow> region" where
  "region_set_empty r = r\<lparr>bbox := \<lparr>rtop = 0, rleft = 0, rbottom = 0, rright = 0\<rparr>, rows := [],
     x_pool_used := 0, is_rect := False, is_empty := True\<rparr>"

definition rect_is_empty :: "rgn_rect \<Rightarrow> bool" where
  "rect_is_empty rc \<longleftrightarrow> rright rc \<le> rleft rc \<or> rbottom rc \<le> rtop rc"

definition region_push_row :: "region \<Rightarrow> int \<Rightarrow> int list \<Rightarrow> region option" where
  "region_push_row r y xs =
     (if length (rows r) \<ge> cap_rows r then None
      else if x_pool_used r + length xs > x_pool_cap r then None
      else Some (r\<lparr>rows := rows r @ [\<lparr>y_top = y, row_x = xs\<rparr>], x_pool_used := x_pool_used r + length xs\<rparr>))"

definition region_set_rect :: "region \<Rightarrow> rgn_rect \<Rightarrow> region option" where
  "region_set_rect r rect =
     (if rect_is_empty rect then Some (region_set_empty r)
      else do {
        r1 \<leftarrow> region_push_row (r\<lparr>rows := [], x_pool_used := 0\<rparr>) (rtop rect) [rleft rect, rright rect];
        r2 \<leftarrow> region_push_row r1 (rbottom rect) [];
        Some (r2\<lparr>bbox := rect, is_rect := True, is_empty := False\<rparr>)
      })"

definition xlist_equal :: "int list \<Rightarrow> int list \<Rightarrow> bool" where
  "xlist_equal a b \<longleftrightarrow> length a = length b \<and> list_all2 (=) a b"

text \<open>The guard at the top of every operation; \<open>False\<close> is the trap.\<close>

definition region_assert_normal :: "region \<Rightarrow> bool" where
  "region_assert_normal r =
     (if is_empty r then rows r = []
      else length (rows r) \<ge> 2 \<and> row_x (hd (rows r)) \<noteq> [] \<and> row_x (last (rows r)) = [] \<and>
        list_all (\<lambda>row. even (length (row_x row)) \<and> successively (<) (row_x row)) (rows r) \<and>
        successively (<) (map y_top (rows r)) \<and>
        successively (\<lambda>a b. \<not> xlist_equal a b) (map row_x (rows r)))"

text \<open>The forward pass of \<open>region_normalize\<close>: the rows kept so far and the pool they use.\<close>

fun normalize_pass :: "nat \<Rightarrow> nat \<Rightarrow> rgn_row list \<Rightarrow> nat \<Rightarrow> rgn_row list \<Rightarrow> (rgn_row list \<times> nat) option" where
  "normalize_pass capr capx kept used [] = Some (kept, used)"
| "normalize_pass capr capx kept used (r # rs) =
     (if kept \<noteq> [] \<and> xlist_equal (row_x (last kept)) (row_x r) then normalize_pass capr capx kept used rs
      else if kept = [] \<and> row_x r = [] then normalize_pass capr capx kept used rs
      else if length (row_x r) > RGN_ROW_X_MAX then None
      else if used + length (row_x r) > capx then None
      else if length kept \<ge> capr then None
      else normalize_pass capr capx (kept @ [r]) (used + length (row_x r)) rs)"

function trim_closers :: "rgn_row list \<Rightarrow> rgn_row list" where
  "trim_closers rs =
     (if length rs \<ge> 2 \<and> row_x (last rs) = [] \<and> row_x (last (butlast rs)) = []
      then trim_closers (butlast rs) else rs)"
  by pat_completeness auto
termination
  by (relation "measure length") auto

text \<open>The least \<open>x[0]\<close> and the greatest last \<open>x\<close> over the live rows.\<close>

fun row_extent :: "(int \<times> int) option \<Rightarrow> rgn_row list \<Rightarrow> (int \<times> int) option" where
  "row_extent acc [] = acc"
| "row_extent acc (r # rs) =
     (if row_x r = [] then row_extent acc rs
      else let lx = hd (row_x r); rx = last (row_x r) in
        row_extent (case acc of None \<Rightarrow> Some (lx, rx)
          | Some (left, right) \<Rightarrow> Some (if lx < left then lx else left, if rx > right then rx else right)) rs)"

definition rows_bbox :: "rgn_row list \<Rightarrow> rgn_rect" where
  "rows_bbox rs = (let (left, right) = (case row_extent None rs of None \<Rightarrow> (0, 0) | Some e \<Rightarrow> e) in
     \<lparr>rtop = y_top (hd rs), rleft = left, rbottom = y_top (last rs), rright = right\<rparr>)"

definition rows_is_rect :: "rgn_row list \<Rightarrow> rgn_rect \<Rightarrow> bool" where
  "rows_is_rect rs bb \<longleftrightarrow> length rs = 2 \<and> length (row_x (rs ! 0)) = 2 \<and>
     row_x (rs ! 0) ! 0 = rleft bb \<and> row_x (rs ! 0) ! 1 = rright bb"

definition region_normalize :: "region \<Rightarrow> region option" where
  "region_normalize r = do {
     (kept, used) \<leftarrow> normalize_pass (cap_rows r) (x_pool_cap r) [] 0 (rows r);
     let out = trim_closers kept in
     if list_all (\<lambda>row. row_x row = []) out then Some (region_set_empty r)
     else if row_x (last out) \<noteq> [] then None
     else Some (r\<lparr>rows := out, x_pool_used := used, bbox := rows_bbox out, is_empty := False,
                  is_rect := rows_is_rect out (rows_bbox out)\<rparr>)
   }"

section \<open>The scanline merge\<close>

text \<open>The last row at or above a scanline: the loop shared by \<open>active_xlist\<close> and
  \<open>region_contains_point\<close>.\<close>

fun row_at :: "int \<Rightarrow> rgn_row list \<Rightarrow> rgn_row option \<Rightarrow> rgn_row option" where
  "row_at y [] found = found"
| "row_at y (r # rs) found = (if y_top r \<le> y then row_at y rs (Some r) else found)"

definition active_xlist :: "region \<Rightarrow> int \<Rightarrow> int list" where
  "active_xlist R y =
     (if is_empty R \<or> rows R = [] then []
      else case row_at y (rows R) None of None \<Rightarrow> [] | Some r \<Rightarrow> row_x r)"

definition xmerge_emit :: "nat \<Rightarrow> rgn_op \<Rightarrow> bool \<Rightarrow> bool \<Rightarrow> bool \<Rightarrow> int list \<Rightarrow> int \<Rightarrow> (bool \<times> int list) option" where
  "xmerge_emit cap op inA inB prev_out out xpos =
     (let now = boolfn op inA inB in
      if now \<noteq> prev_out then (if length out \<ge> cap then None else Some (now, out @ [xpos]))
      else Some (prev_out, out))"

fun xmerge_from :: "nat \<Rightarrow> rgn_op \<Rightarrow> bool \<Rightarrow> bool \<Rightarrow> bool \<Rightarrow> int list \<Rightarrow> int list \<Rightarrow> int list \<Rightarrow> int list option" where
  "xmerge_from cap op inA inB prev_out out [] [] = (if prev_out then None else Some out)"
| "xmerge_from cap op inA inB prev_out out (xa # as) [] = do {
     (p, out') \<leftarrow> xmerge_emit cap op (\<not> inA) inB prev_out out xa;
     xmerge_from cap op (\<not> inA) inB p out' as [] }"
| "xmerge_from cap op inA inB prev_out out [] (xb # bs) = do {
     (p, out') \<leftarrow> xmerge_emit cap op inA (\<not> inB) prev_out out xb;
     xmerge_from cap op inA (\<not> inB) p out' [] bs }"
| "xmerge_from cap op inA inB prev_out out (xa # as) (xb # bs) =
     (if xa < xb then do {
        (p, out') \<leftarrow> xmerge_emit cap op (\<not> inA) inB prev_out out xa;
        xmerge_from cap op (\<not> inA) inB p out' as (xb # bs) }
      else if xb < xa then do {
        (p, out') \<leftarrow> xmerge_emit cap op inA (\<not> inB) prev_out out xb;
        xmerge_from cap op inA (\<not> inB) p out' (xa # as) bs }
      else do {
        (p, out') \<leftarrow> xmerge_emit cap op (\<not> inA) (\<not> inB) prev_out out xa;
        xmerge_from cap op (\<not> inA) (\<not> inB) p out' as bs })"

definition xmerge :: "nat \<Rightarrow> rgn_op \<Rightarrow> int list \<Rightarrow> int list \<Rightarrow> int list option" where
  "xmerge cap op a b =
     (if boolfn op False False then None else xmerge_from cap op False False False [] a b)"

text \<open>The next band boundary of the sweep and the rows left after it.\<close>

fun next_y :: "rgn_row list \<Rightarrow> rgn_row list \<Rightarrow> int \<times> rgn_row list \<times> rgn_row list" where
  "next_y (ra # as) (rb # bs) =
     (if y_top ra < y_top rb then (y_top ra, as, rb # bs)
      else if y_top rb < y_top ra then (y_top rb, ra # as, bs)
      else (y_top ra, as, bs))"
| "next_y (ra # as) [] = (y_top ra, as, [])"
| "next_y [] (rb # bs) = (y_top rb, [], bs)"
| "next_y [] [] = (0, [], [])"

lemma next_y_less:
  "next_y as bs = (y, as', bs') \<Longrightarrow> as \<noteq> [] \<or> bs \<noteq> [] \<Longrightarrow> length as' + length bs' < length as + length bs"
  by (cases "(as, bs)" rule: next_y.cases) (auto split: if_splits)

definition merge_band :: "rgn_op \<Rightarrow> region \<Rightarrow> region \<Rightarrow> region \<Rightarrow> int \<Rightarrow> region option" where
  "merge_band op A B out y = do {
     xs \<leftarrow> xmerge RGN_ROW_X_MAX op (active_xlist A y) (active_xlist B y);
     region_push_row out y xs }"

function merge_bands :: "rgn_op \<Rightarrow> region \<Rightarrow> region \<Rightarrow> region \<Rightarrow> int option \<Rightarrow> rgn_row list \<Rightarrow> rgn_row list \<Rightarrow>
    (region \<times> int option) option" where
  "merge_bands op A B out prev_y as bs =
     (if as = [] \<and> bs = [] then Some (out, prev_y)
      else case next_y as bs of (y, as', bs') \<Rightarrow>
        if prev_y = Some y then merge_bands op A B out prev_y as' bs'
        else do {
          out' \<leftarrow> (case prev_y of None \<Rightarrow> Some out | Some p \<Rightarrow> merge_band op A B out p);
          merge_bands op A B out' (Some y) as' bs' })"
  by pat_completeness auto
termination
  by (relation "measure (\<lambda>(op, A, B, out, p, as, bs). length as + length bs)")
    (auto dest: next_y_less [OF sym])

definition region_merge :: "region \<Rightarrow> region \<Rightarrow> region \<Rightarrow> rgn_op \<Rightarrow> region option" where
  "region_merge out A B op =
     (if \<not> region_assert_normal A \<or> \<not> region_assert_normal B then None
      else if (is_empty A \<or> rows A = []) \<and> (is_empty B \<or> rows B = []) then Some (region_set_empty out)
      else do {
        (o1, prev_y) \<leftarrow> merge_bands op A B
           (out\<lparr>rows := [], x_pool_used := 0, is_rect := False, is_empty := True\<rparr>) None (rows A) (rows B);
        o2 \<leftarrow> (case prev_y of None \<Rightarrow> Some o1 | Some y \<Rightarrow> merge_band op A B o1 y);
        region_normalize o2 })"

section \<open>The working set\<close>

definition rgn_ws_acquire :: "rgn_ws \<Rightarrow> rgn_ws option" where
  "rgn_ws_acquire w =
     (if \<not> ws_bound w then None else if ws_in_use w then None else Some (w\<lparr>ws_in_use := True\<rparr>))"

definition rgn_ws_release :: "rgn_ws \<Rightarrow> rgn_ws" where
  "rgn_ws_release w = w\<lparr>ws_in_use := False\<rparr>"

definition rgn_ws_attach :: region where
  "rgn_ws_attach = region_set_empty
     \<lparr>bbox = \<lparr>rtop = 0, rleft = 0, rbottom = 0, rright = 0\<rparr>, rows = [], cap_rows = RGN_ROWS_CAP,
      x_pool_used = 0, x_pool_cap = RGN_X_POOL_CAP, is_rect = False, is_empty = False\<rparr>"

text \<open>The slots as numbers, 0 the null pointer.\<close>

definition region_engine_bind_ws :: "nat \<Rightarrow> nat \<Rightarrow> rgn_ws \<Rightarrow> rgn_ws option" where
  "region_engine_bind_ws slot_a slot_b w =
     (if slot_a = 0 \<or> slot_b = 0 \<or> slot_a = slot_b then None else Some (w\<lparr>ws_bound := True\<rparr>))"

definition region_engine_reset :: "rgn_ws \<Rightarrow> rgn_ws" where
  "region_engine_reset w = w\<lparr>ws_in_use := False\<rparr>"

fun push_rows :: "region \<Rightarrow> rgn_row list \<Rightarrow> region option" where
  "push_rows out [] = Some out"
| "push_rows out (r # rs) = do { out' \<leftarrow> region_push_row out (y_top r) (row_x r); push_rows out' rs }"

definition region_copy :: "region \<Rightarrow> region \<Rightarrow> region option" where
  "region_copy out src = do { r \<leftarrow> push_rows (region_set_empty out) (rows src); region_normalize r }"

text \<open>\<open>aliased\<close> says that \<open>out\<close> is \<open>A\<close> or \<open>B\<close>.\<close>

definition region_op :: "rgn_ws \<Rightarrow> bool \<Rightarrow> region \<Rightarrow> region \<Rightarrow> region \<Rightarrow> rgn_op \<Rightarrow> (rgn_ws \<times> region) option" where
  "region_op w aliased out A B op =
     (if aliased then do {
        w' \<leftarrow> rgn_ws_acquire w;
        tmp \<leftarrow> region_merge rgn_ws_attach A B op;
        r \<leftarrow> region_copy out tmp;
        Some (rgn_ws_release w', r) }
      else do { r \<leftarrow> region_merge out A B op; Some (w, r) })"

text \<open>The two-row header \<open>region_complement\<close> and the queries build for one rectangle.\<close>

definition rect_store :: region where
  "rect_store = \<lparr>bbox = \<lparr>rtop = 0, rleft = 0, rbottom = 0, rright = 0\<rparr>, rows = [], cap_rows = 2,
     x_pool_used = 0, x_pool_cap = 2, is_rect = False, is_empty = False\<rparr>"

definition region_complement :: "rgn_ws \<Rightarrow> bool \<Rightarrow> region \<Rightarrow> region \<Rightarrow> rgn_rect \<Rightarrow> (rgn_ws \<times> region) option" where
  "region_complement w aliased out A frame = do {
     fr \<leftarrow> region_set_rect rect_store frame;
     region_op w aliased out fr A RGN_OP_XOR }"

section \<open>The union of rectangles\<close>

definition next_edge :: "rgn_rect list \<Rightarrow> int \<Rightarrow> int" where
  "next_edge rects y = foldl (\<lambda>ny rc.
     if rect_is_empty rc then ny
     else let n1 = (if rtop rc > y \<and> rtop rc < ny then rtop rc else ny)
          in if rbottom rc > y \<and> rbottom rc < n1 then rbottom rc else n1) 32768 rects"

definition next_left :: "rgn_rect list \<Rightarrow> int \<Rightarrow> int \<Rightarrow> int" where
  "next_left rects y covered = foldl (\<lambda>left rc.
     if rtop rc \<le> y \<and> y < rbottom rc \<and> rright rc > rleft rc \<and> rleft rc > covered \<and> rleft rc < left
     then rleft rc else left) 32768 rects"

definition extend_pass :: "rgn_rect list \<Rightarrow> int \<Rightarrow> int \<Rightarrow> int" where
  "extend_pass rects y right = foldl (\<lambda>r rc.
     if rtop rc \<le> y \<and> y < rbottom rc \<and> rleft rc \<le> r \<and> rright rc > r then rright rc else r) right rects"

text \<open>A fold that keeps the least candidate: \<open>C rc\<close> are the candidates of one element.\<close>

lemma foldl_least:
  fixes n :: int
  assumes "\<And>n rc. f n rc = n \<or> f n rc \<in> C rc" "\<And>n rc. f n rc \<le> n" "\<And>n rc c. c \<in> C rc \<Longrightarrow> f n rc \<le> c"
  shows "foldl f n rcs = n \<or> (\<exists>rc \<in> set rcs. foldl f n rcs \<in> C rc)"
    and "foldl f n rcs \<le> n"
    and "rc \<in> set rcs \<Longrightarrow> c \<in> C rc \<Longrightarrow> foldl f n rcs \<le> c"
proof (induction rcs arbitrary: n)
  case (Cons a rcs)
  { case 1 show ?case using Cons(1) [of "f n a"] assms(1) [of n a] by auto }
  { case 2 show ?case using Cons(2) [of "f n a"] assms(2) [of n a] by simp }
  { case 3
    then show ?case using Cons(2,3) [of "f n a"] assms(3) [of c a n] by auto }
qed simp_all

definition edge_cands :: "int \<Rightarrow> rgn_rect \<Rightarrow> int set" where
  "edge_cands y rc = {e. \<not> rect_is_empty rc \<and> (e = rtop rc \<or> e = rbottom rc) \<and> y < e}"

definition left_cands :: "int \<Rightarrow> int \<Rightarrow> rgn_rect \<Rightarrow> int set" where
  "left_cands y covered rc = {e. rtop rc \<le> y \<and> y < rbottom rc \<and> rleft rc < rright rc \<and> covered < rleft rc \<and> e = rleft rc}"

lemma next_edge_least:
  "next_edge rects y = 32768 \<or> (\<exists>rc \<in> set rects. next_edge rects y \<in> edge_cands y rc)"
  "rc \<in> set rects \<Longrightarrow> e \<in> edge_cands y rc \<Longrightarrow> next_edge rects y \<le> e"
  unfolding next_edge_def
  by (rule foldl_least [where C = "edge_cands y"]; auto simp: edge_cands_def rect_is_empty_def Let_def)+

lemma next_left_least:
  "next_left rects y covered = 32768 \<or> (\<exists>rc \<in> set rects. next_left rects y covered \<in> left_cands y covered rc)"
  "rc \<in> set rects \<Longrightarrow> e \<in> left_cands y covered rc \<Longrightarrow> next_left rects y covered \<le> e"
  unfolding next_left_def
  by (rule foldl_least [where C = "left_cands y covered"]; auto simp: left_cands_def)+

lemma foldl_extend_cases:
  "foldl (\<lambda>r rc. if P rc \<and> rleft rc \<le> r \<and> rright rc > r then rright rc else r) r0 rcs = r1 \<Longrightarrow>
     r1 = r0 \<or> (r0 < r1 \<and> (\<exists>rc \<in> set rcs. rright rc = r1))"
proof (induction rcs arbitrary: r0)
  case (Cons a rcs)
  show ?case using Cons.IH [OF Cons.prems [unfolded foldl_Cons]] by (auto split: if_splits)
qed simp

lemma extend_pass_cases:
  "extend_pass rects y right = right \<or>
   (right < extend_pass rects y right \<and> (\<exists>rc \<in> set rects. rright rc = extend_pass rects y right))"
  using foldl_extend_cases [of "\<lambda>rc. rtop rc \<le> y \<and> y < rbottom rc" right rects, OF refl]
  by (simp add: extend_pass_def conj_assoc)

text \<open>A filter that loses an element of the list is shorter.\<close>

lemma filter_shrinks:
  "(\<And>a. Q a \<Longrightarrow> P a) \<Longrightarrow> x \<in> set xs \<Longrightarrow> P x \<Longrightarrow> \<not> Q x \<Longrightarrow> length (filter Q xs) < length (filter P xs)"
proof (induction xs)
  case (Cons a xs)
  have "length (filter Q xs) \<le> length (filter P xs)"
    using Cons.prems(1) by (induction xs) (auto simp: le_SucI)
  with Cons show ?case by auto
qed simp

text \<open>The \<open>do ... while (right != previous)\<close> loop.\<close>

function extend_right :: "rgn_rect list \<Rightarrow> int \<Rightarrow> int \<Rightarrow> int" where
  "extend_right rects y right =
     (let r = extend_pass rects y right in if r \<noteq> right then extend_right rects y r else r)"
  by pat_completeness auto
termination
proof (relation "measure (\<lambda>(rects, y, right). length (filter (\<lambda>rc. rright rc > right) rects))", goal_cases)
  case (2 rects y right r)
  with extend_pass_cases [of rects y right] obtain rc where
    "rc \<in> set rects" "rright rc = r" "right < r" by auto
  then show ?case by (auto intro!: filter_shrinks [of _ _ rc])
qed simp

lemma extend_right_ge: "right \<le> extend_right rects y right"
proof (induction rects y right rule: extend_right.induct)
  case (1 rects y right)
  with extend_pass_cases [of rects y right] show ?case
    by (subst extend_right.simps) (auto simp: Let_def simp del: extend_right.simps intro: order_trans [OF less_imp_le])
qed

function band_spans :: "rgn_rect list \<Rightarrow> int \<Rightarrow> int \<Rightarrow> int list \<Rightarrow> int list option" where
  "band_spans rects y covered xs =
     (let left = next_left rects y covered in
      if left = 32768 then Some xs
      else let right = extend_right rects y left in
        if length xs > RGN_ROW_X_MAX - 2 then None
        else band_spans rects y right (xs @ [left, right]))"
  by pat_completeness auto
termination
proof (relation "measure (\<lambda>(rects, y, covered, xs). length (filter (\<lambda>rc. rleft rc > covered) rects))", goal_cases)
  case (2 rects y covered xs left right)
  with next_left_least(1) [of rects y covered] obtain rc where
    "rc \<in> set rects" "rleft rc = left" "covered < left" by (auto simp: left_cands_def)
  moreover have "left \<le> right" using 2 extend_right_ge by simp
  ultimately show ?case by (auto intro!: filter_shrinks [of _ _ rc])
qed simp

function band_sweep :: "rgn_rect list \<Rightarrow> int \<Rightarrow> region \<Rightarrow> region option" where
  "band_sweep rects y r =
     (let ny = next_edge rects y in
      if ny = 32768 then Some r
      else do {
        xs \<leftarrow> band_spans rects ny (-32769) [];
        r' \<leftarrow> (if rows r = [] \<and> xs = [] then Some r
               else if rows r \<noteq> [] \<and> xlist_equal (row_x (last (rows r))) xs then Some r
               else region_push_row r ny xs);
        band_sweep rects ny r' })"
  by pat_completeness auto
termination
proof (relation "measure (\<lambda>(rects, y, r). length (filter (\<lambda>e. e > y) (map rtop rects @ map rbottom rects)))", goal_cases)
  case (2 rects y r ny)
  with next_edge_least(1) [of rects y] have "ny \<in> set (map rtop rects @ map rbottom rects)" "y < ny"
    by (auto simp: edge_cands_def)
  then show ?case by (auto simp del: filter_append map_append intro!: filter_shrinks [of _ _ ny])
qed simp

definition region_from_rects :: "rgn_ws \<Rightarrow> region \<Rightarrow> rgn_rect list \<Rightarrow> (rgn_ws \<times> region) option" where
  "region_from_rects w r rects =
     (if rects = [] then Some (w, region_set_empty r)
      else do {
        w' \<leftarrow> rgn_ws_acquire w;
        r1 \<leftarrow> band_sweep rects (-32769) (region_set_empty r);
        r2 \<leftarrow> region_normalize r1;
        Some (rgn_ws_release w', r2) })"

section \<open>Queries\<close>

definition region_get_bbox :: "region \<Rightarrow> rgn_rect" where
  "region_get_bbox r = bbox r"

definition region_is_empty :: "region \<Rightarrow> bool" where
  "region_is_empty r \<longleftrightarrow> is_empty r \<or> rows r = []"

fun parity_scan :: "int \<Rightarrow> int list \<Rightarrow> bool \<Rightarrow> bool" where
  "parity_scan h [] inside = inside"
| "parity_scan h (p # ps) inside = (if h < p then inside else parity_scan h ps (\<not> inside))"

definition region_contains_point :: "region \<Rightarrow> int \<Rightarrow> int \<Rightarrow> bool" where
  "region_contains_point r h v =
     (if is_empty r \<or> rows r = [] then False
      else if v < rtop (bbox r) \<or> v \<ge> rbottom (bbox r) then False
      else if h < rleft (bbox r) \<or> h \<ge> rright (bbox r) then False
      else case row_at v (rows r) None of
        None \<Rightarrow> False
      | Some found \<Rightarrow> if row_x found = [] then False else parity_scan h (row_x found) False)"

definition region_equal :: "region \<Rightarrow> region \<Rightarrow> bool" where
  "region_equal A B =
     (let ae = region_is_empty A; be = region_is_empty B in
      if ae \<or> be then ae \<and> be
      else if length (rows A) \<noteq> length (rows B) then False
      else if bbox A \<noteq> bbox B then False
      else list_all2 (\<lambda>a b. y_top a = y_top b \<and> xlist_equal (row_x a) (row_x b)) (rows A) (rows B))"

definition region_rect_fully_in :: "rgn_ws \<Rightarrow> region \<Rightarrow> rgn_rect \<Rightarrow> (rgn_ws \<times> bool) option" where
  "region_rect_fully_in w r rect =
     (if rect_is_empty rect then Some (w, True)
      else if rleft rect < rleft (bbox r) \<or> rright rect > rright (bbox r) \<or>
              rtop rect < rtop (bbox r) \<or> rbottom rect > rbottom (bbox r) then Some (w, False)
      else do {
        w1 \<leftarrow> rgn_ws_acquire w;
        rr \<leftarrow> region_set_rect rect_store rect;
        (w2, df) \<leftarrow> region_op w1 False rgn_ws_attach rr r RGN_OP_DIFF;
        Some (rgn_ws_release w2, region_is_empty df) })"

definition region_rect_overlaps :: "rgn_ws \<Rightarrow> region \<Rightarrow> rgn_rect \<Rightarrow> (rgn_ws \<times> bool) option" where
  "region_rect_overlaps w r rect =
     (if rect_is_empty rect then Some (w, False)
      else if region_is_empty r then Some (w, False)
      else if rright rect \<le> rleft (bbox r) \<or> rright (bbox r) \<le> rleft rect \<or>
              rbottom rect \<le> rtop (bbox r) \<or> rbottom (bbox r) \<le> rtop rect then Some (w, False)
      else do {
        w1 \<leftarrow> rgn_ws_acquire w;
        rr \<leftarrow> region_set_rect rect_store rect;
        (w2, inter) \<leftarrow> region_op w1 False rgn_ws_attach rr r RGN_OP_INTERSECT;
        Some (rgn_ws_release w2, \<not> region_is_empty inter) })"

definition region_intersects :: "rgn_ws \<Rightarrow> region \<Rightarrow> region \<Rightarrow> (rgn_ws \<times> bool) option" where
  "region_intersects w A B =
     (if region_is_empty A \<or> region_is_empty B then Some (w, False)
      else if rright (bbox A) \<le> rleft (bbox B) \<or> rright (bbox B) \<le> rleft (bbox A) \<or>
              rbottom (bbox A) \<le> rtop (bbox B) \<or> rbottom (bbox B) \<le> rtop (bbox A) then Some (w, False)
      else do {
        w1 \<leftarrow> rgn_ws_acquire w;
        (w2, df) \<leftarrow> region_op w1 False rgn_ws_attach A B RGN_OP_INTERSECT;
        Some (rgn_ws_release w2, \<not> region_is_empty df) })"

section \<open>The QuickDraw and GDI facades\<close>

definition UnionRgn :: "rgn_ws \<Rightarrow> bool \<Rightarrow> region \<Rightarrow> region \<Rightarrow> region \<Rightarrow> (rgn_ws \<times> region) option" where
  "UnionRgn w aliased srcA srcB dstRgn = region_op w aliased dstRgn srcA srcB RGN_OP_UNION"

definition SectRgn :: "rgn_ws \<Rightarrow> bool \<Rightarrow> region \<Rightarrow> region \<Rightarrow> region \<Rightarrow> (rgn_ws \<times> region) option" where
  "SectRgn w aliased srcA srcB dstRgn = region_op w aliased dstRgn srcA srcB RGN_OP_INTERSECT"

definition DiffRgn :: "rgn_ws \<Rightarrow> bool \<Rightarrow> region \<Rightarrow> region \<Rightarrow> region \<Rightarrow> (rgn_ws \<times> region) option" where
  "DiffRgn w aliased srcA srcB dstRgn = region_op w aliased dstRgn srcA srcB RGN_OP_DIFF"

definition XorRgn :: "rgn_ws \<Rightarrow> bool \<Rightarrow> region \<Rightarrow> region \<Rightarrow> region \<Rightarrow> (rgn_ws \<times> region) option" where
  "XorRgn w aliased srcA srcB dstRgn = region_op w aliased dstRgn srcA srcB RGN_OP_XOR"

definition SetRectRgn :: "region \<Rightarrow> int \<Rightarrow> int \<Rightarrow> int \<Rightarrow> int \<Rightarrow> region option" where
  "SetRectRgn rgn l t r b = region_set_rect rgn \<lparr>rtop = t, rleft = l, rbottom = b, rright = r\<rparr>"

abbreviation (input) RGN_AND :: nat where "RGN_AND \<equiv> 1"
abbreviation (input) RGN_OR :: nat where "RGN_OR \<equiv> 2"
abbreviation (input) RGN_XOR :: nat where "RGN_XOR \<equiv> 3"
abbreviation (input) RGN_DIFF :: nat where "RGN_DIFF \<equiv> 4"
abbreviation (input) RGN_COPY :: nat where "RGN_COPY \<equiv> 5"

datatype rgn_type = RGN_TYPE_ERROR | NULLREGION | SIMPLEREGION | COMPLEXREGION

definition rgn_op_from_combine_mode :: "nat \<Rightarrow> rgn_op" where
  "rgn_op_from_combine_mode m =
     (if m = RGN_AND then RGN_OP_INTERSECT else if m = RGN_OR then RGN_OP_UNION
      else if m = RGN_XOR then RGN_OP_XOR else if m = RGN_DIFF then RGN_OP_DIFF else RGN_OP_UNION)"

definition region_type_classify :: "region \<Rightarrow> rgn_type" where
  "region_type_classify r =
     (if region_is_empty r then NULLREGION else if is_rect r then SIMPLEREGION else COMPLEXREGION)"

text \<open>A null pointer is \<open>None\<close>; \<open>al1\<close> and \<open>al2\<close> say that \<open>dst\<close> is \<open>src1\<close>, or \<open>src2\<close>.\<close>

definition CombineRgn :: "rgn_ws \<Rightarrow> bool \<Rightarrow> bool \<Rightarrow> region option \<Rightarrow> region option \<Rightarrow> region option \<Rightarrow> nat \<Rightarrow>
    (rgn_ws \<times> region option \<times> rgn_type) option" where
  "CombineRgn w al1 al2 dst src1 src2 mode = (case (dst, src1) of
     (Some d, Some s1) \<Rightarrow>
       if mode = RGN_COPY then do {
         (w', d') \<leftarrow> region_op w al1 d s1 s1 RGN_OP_UNION;
         Some (w', Some d', region_type_classify d') }
       else if mode \<noteq> RGN_AND \<and> mode \<noteq> RGN_OR \<and> mode \<noteq> RGN_XOR \<and> mode \<noteq> RGN_DIFF
       then Some (w, dst, RGN_TYPE_ERROR)
       else (case src2 of None \<Rightarrow> Some (w, dst, RGN_TYPE_ERROR)
         | Some s2 \<Rightarrow> do {
             (w', d') \<leftarrow> region_op w (al1 \<or> al2) d s1 s2 (rgn_op_from_combine_mode mode);
             Some (w', Some d', region_type_classify d') })
   | _ \<Rightarrow> Some (w, dst, RGN_TYPE_ERROR))"

definition GetRgnBox :: "region option \<Rightarrow> rgn_rect option \<times> rgn_type" where
  "GetRgnBox rgn = (case rgn of None \<Rightarrow> (None, RGN_TYPE_ERROR)
     | Some r \<Rightarrow> (Some (region_get_bbox r), region_type_classify r))"

declare trim_closers.simps [simp del] merge_bands.simps [simp del] extend_right.simps [simp del]
  band_spans.simps [simp del] band_sweep.simps [simp del]

end
