(* ===== verification/RegionRows.thy ===== *)
theory RegionRows imports Region begin

text \<open>
  Inversion lists and rows of inversion lists as functions: \<open>parity xs h\<close> is the membership of column
  \<open>h\<close> on a scanline with list \<open>xs\<close>, \<open>xlist_at rows v\<close> the list of scanline \<open>v\<close>. The merge of two lists
  is the Boolean combination of their parities and is never longer than the number of distinct
  columns; both functions determine a normal form; the normalising pass preserves them.
\<close>

named_theorems region_simps \<open>the small definitions of the region engine\<close>

lemma xlist_equal_eq [simp]: "xlist_equal a b \<longleftrightarrow> a = b"
  by (auto simp: xlist_equal_def list.rel_eq)

lemma boolfn_simps [simp]:
  "boolfn RGN_OP_UNION a b \<longleftrightarrow> a \<or> b"
  "boolfn RGN_OP_INTERSECT a b \<longleftrightarrow> a \<and> b"
  "boolfn RGN_OP_DIFF a b \<longleftrightarrow> a \<and> \<not> b"
  "boolfn RGN_OP_XOR a b \<longleftrightarrow> a \<noteq> b"
  by (cases a; cases b; simp add: boolfn_def drop_bit_eq_div)+

lemma boolfn_outside [simp]: "\<not> boolfn op False False"
  by (cases op) simp_all

section \<open>Inversion lists\<close>

definition parity :: "int list \<Rightarrow> int \<Rightarrow> bool" where
  "parity xs h = odd (length (filter (\<lambda>p. p \<le> h) xs))"

lemma parity_Nil [simp]: "\<not> parity [] h"
  by (simp add: parity_def)

lemma parity_Cons [simp]: "parity (p # ps) h = (if p \<le> h then \<not> parity ps h else parity ps h)"
  by (simp add: parity_def)

lemma parity_below: "\<forall>p \<in> set ps. h < p \<Longrightarrow> \<not> parity ps h"
  by (induction ps) auto

lemma parity_scan_sorted:
  "sorted_wrt (<) ps \<Longrightarrow> parity_scan h ps b = (b \<noteq> parity ps h)"
proof (induction ps arbitrary: b)
  case (Cons p ps)
  have "h < p \<Longrightarrow> \<not> parity ps h" using Cons.prems by (intro parity_below) auto
  with Cons show ?case by auto
qed simp

lemma parity_inj:
  "sorted_wrt (<) xs \<Longrightarrow> sorted_wrt (<) ys \<Longrightarrow> (\<And>h. parity xs h = parity ys h) \<Longrightarrow> xs = ys"
proof (induction xs arbitrary: ys)
  case Nil
  show ?case
  proof (cases ys)
    case (Cons y zs)
    have "\<not> parity zs y" using Nil.prems(2) Cons by (intro parity_below) auto
    with Nil.prems(3) [of y] Cons show ?thesis by simp
  qed simp
next
  case (Cons p ps)
  have np: "\<not> parity ps p" using Cons.prems(1) by (intro parity_below) auto
  then obtain q qs where ys: "ys = q # qs" using Cons.prems(3) [of p] by (cases ys) auto
  have nq: "\<not> parity qs q" using Cons.prems(2) ys by (intro parity_below) auto
  have "q \<le> p" if "p < q \<Longrightarrow> \<not> parity qs p"
    using Cons.prems(3) [of p] np ys that by (auto split: if_splits)
  moreover have "p \<le> q" if "q < p \<Longrightarrow> \<not> parity ps q"
    using Cons.prems(3) [of q] nq ys that by (auto split: if_splits)
  moreover have "p < q \<Longrightarrow> \<not> parity qs p" using Cons.prems(2) ys by (intro parity_below) auto
  moreover have "q < p \<Longrightarrow> \<not> parity ps q" using Cons.prems(1) by (intro parity_below) auto
  ultimately have pq: "p = q" by force
  have "parity ps h = parity qs h" for h
    using Cons.prems(3) [of h] ys pq by (auto split: if_splits)
  with Cons.IH [of qs] Cons.prems(1,2) ys pq show ?case by simp
qed

section \<open>The merge of two inversion lists\<close>

lemma emit_cases:
  assumes "xmerge_emit cap op iA iB prev_out out xpos = Some (p, out')"
  shows "p = boolfn op iA iB" "out' = (if p \<noteq> prev_out then out @ [xpos] else out)"
  using assms by (auto simp: xmerge_emit_def Let_def split: if_splits)

text \<open>What one run of the merge adds to its output.\<close>

definition merged :: "rgn_op \<Rightarrow> bool \<Rightarrow> bool \<Rightarrow> int list \<Rightarrow> int list \<Rightarrow> int list \<Rightarrow> bool" where
  "merged op iA iB as bs zs \<longleftrightarrow> sorted_wrt (<) zs \<and> set zs \<subseteq> set as \<union> set bs \<and>
     (\<forall>h. parity zs h = (boolfn op (iA \<noteq> parity as h) (iB \<noteq> parity bs h) \<noteq> boolfn op iA iB))"

lemma merged_step:
  assumes "merged op iA' iB' as bs zs"
    and "\<forall>q \<in> set as \<union> set bs. x < q" "\<forall>q \<in> set as'. x \<le> q" "\<forall>q \<in> set bs'. x \<le> q"
    and "set as \<union> set bs \<union> {x} \<subseteq> set as' \<union> set bs'"
    and "\<And>h. x \<le> h \<Longrightarrow> (iA' \<noteq> parity as h) = (iA \<noteq> parity as' h)"
    and "\<And>h. x \<le> h \<Longrightarrow> (iB' \<noteq> parity bs h) = (iB \<noteq> parity bs' h)"
  shows "merged op iA iB as' bs' (if boolfn op iA' iB' \<noteq> boolfn op iA iB then x # zs else zs)"
proof -
  have z: "\<forall>q \<in> set zs. x < q" using assms(1,2) by (auto simp: merged_def)
  have "parity (if boolfn op iA' iB' \<noteq> boolfn op iA iB then x # zs else zs) h =
      (boolfn op (iA \<noteq> parity as' h) (iB \<noteq> parity bs' h) \<noteq> boolfn op iA iB)" for h
  proof (cases "x \<le> h")
    case True
    with assms(1) assms(6,7) [OF True] show ?thesis by (auto simp: merged_def)
  next
    case False
    then have "\<not> parity zs h" "\<not> parity as' h" "\<not> parity bs' h"
      using z assms(3,4) by (force intro!: parity_below)+
    with False show ?thesis by simp
  qed
  with assms(1,5) z show ?thesis by (auto simp: merged_def)
qed

lemma merged_emit:
  assumes "xmerge_emit cap op iA' iB' prev_out out x = Some (p, out')" "prev_out = boolfn op iA iB"
    and "\<exists>zs. ys = out' @ zs \<and> merged op iA' iB' as bs zs"
    and "\<forall>q \<in> set as \<union> set bs. x < q" "\<forall>q \<in> set as'. x \<le> q" "\<forall>q \<in> set bs'. x \<le> q"
    and "set as \<union> set bs \<union> {x} \<subseteq> set as' \<union> set bs'"
    and "\<And>h. x \<le> h \<Longrightarrow> (iA' \<noteq> parity as h) = (iA \<noteq> parity as' h)"
    and "\<And>h. x \<le> h \<Longrightarrow> (iB' \<noteq> parity bs h) = (iB \<noteq> parity bs' h)"
  shows "\<exists>zs. ys = out @ zs \<and> merged op iA iB as' bs' zs"
proof -
  obtain zs where "ys = out' @ zs" "merged op iA' iB' as bs zs" using assms(3) by blast
  with merged_step [OF this(2) assms(4-9)] emit_cases [OF assms(1)] assms(2) show ?thesis
    by (intro exI [of _ "if boolfn op iA' iB' \<noteq> boolfn op iA iB then x # zs else zs"]) auto
qed

lemma xmerge_from_merged:
  assumes "xmerge_from cap op iA iB prev_out out as bs = Some ys" "prev_out = boolfn op iA iB"
    and "sorted_wrt (<) as" "sorted_wrt (<) bs"
  shows "\<exists>zs. ys = out @ zs \<and> merged op iA iB as bs zs"
  using assms
proof (induction cap op iA iB prev_out out as bs rule: xmerge_from.induct)
  case (1 cap op inA inB prev_out out)
  then show ?case by (auto simp: merged_def split: if_splits)
next
  case (2 cap op iA iB prev_out out xa as)
  then obtain p o' where e: "xmerge_emit cap op (\<not> iA) iB prev_out out xa = Some (p, o')"
    and r: "xmerge_from cap op (\<not> iA) iB p o' as [] = Some ys" by (auto split: bind_splits)
  from "2.prems" "2.IH" [OF e refl r emit_cases(1) [OF e]] show ?case
    by (intro merged_emit [OF e]) auto
next
  case (3 cap op iA iB prev_out out xb bs)
  then obtain p o' where e: "xmerge_emit cap op iA (\<not> iB) prev_out out xb = Some (p, o')"
    and r: "xmerge_from cap op iA (\<not> iB) p o' [] bs = Some ys" by (auto split: bind_splits)
  from "3.prems" "3.IH" [OF e refl r emit_cases(1) [OF e]] show ?case
    by (intro merged_emit [OF e]) auto
next
  case (4 cap op iA iB prev_out out xa as xb bs)
  consider "xa < xb" | "xb < xa" | "xa = xb" by linarith
  then show ?case
  proof cases
    case 1
    with "4.prems" obtain p o' where e: "xmerge_emit cap op (\<not> iA) iB prev_out out xa = Some (p, o')"
      and r: "xmerge_from cap op (\<not> iA) iB p o' as (xb # bs) = Some ys" by (auto split: bind_splits)
    from "4.prems"(2-4) "4.IH"(1) [OF 1 e refl r emit_cases(1) [OF e]] 1 show ?thesis
      by (intro merged_emit [OF e]) (auto dest: bspec [of "set bs"])
  next
    case 2
    with "4.prems" obtain p o' where e: "xmerge_emit cap op iA (\<not> iB) prev_out out xb = Some (p, o')"
      and r: "xmerge_from cap op iA (\<not> iB) p o' (xa # as) bs = Some ys" by (auto split: bind_splits)
    have "\<not> xa < xb" using 2 by simp
    from "4.prems"(2-4) "4.IH"(2) [OF this 2 e refl r emit_cases(1) [OF e]] 2 show ?thesis
      by (intro merged_emit [OF e]) (auto dest: bspec [of "set as"])
  next
    case 3
    with "4.prems" obtain p o' where e: "xmerge_emit cap op (\<not> iA) (\<not> iB) prev_out out xa = Some (p, o')"
      and r: "xmerge_from cap op (\<not> iA) (\<not> iB) p o' as bs = Some ys" by (auto split: bind_splits)
    have "\<not> xa < xb" "\<not> xb < xa" using 3 by simp_all
    from "4.prems"(2-4) "4.IH"(3) [OF this e refl r emit_cases(1) [OF e]] 3 show ?thesis
      by (intro merged_emit [OF e]) auto
  qed
qed

lemma xmerge_combines:
  assumes "xmerge cap op a b = Some zs" "sorted_wrt (<) a" "sorted_wrt (<) b"
  shows "sorted_wrt (<) zs" "set zs \<subseteq> set a \<union> set b"
    "parity zs h = boolfn op (parity a h) (parity b h)"
  using xmerge_from_merged [of cap op False False False "[]" a b zs] assms
  by (auto simp: xmerge_def merged_def)

lemma parity_above: "\<forall>p \<in> set ps. p \<le> h \<Longrightarrow> parity ps h = odd (length ps)"
  by (induction ps) auto

lemma xmerge_even:
  assumes "xmerge cap op a b = Some zs" "sorted_wrt (<) a" "sorted_wrt (<) b" "even (length a)" "even (length b)"
  shows "even (length zs)"
proof -
  let ?h = "Max (insert 0 (set a \<union> set b \<union> set zs))"
  have "\<forall>p \<in> set a \<union> set b \<union> set zs. p \<le> ?h" by (auto intro!: Max_ge)
  then show ?thesis
    using xmerge_combines(3) [OF assms(1-3), of ?h] assms(4,5)
      parity_above [of a ?h] parity_above [of b ?h] parity_above [of zs ?h] by simp
qed

lemma emit_room:
  "length out < cap \<Longrightarrow> \<exists>out'. xmerge_emit cap op iA iB prev_out out xpos = Some (boolfn op iA iB, out') \<and>
     length out' \<le> Suc (length out)"
  by (auto simp: xmerge_emit_def Let_def)

text \<open>The merge cannot overrun a capacity that covers the distinct columns of its inputs.\<close>

lemma xmerge_from_room:
  assumes "length out + card (set as \<union> set bs) \<le> cap" "sorted_wrt (<) as" "sorted_wrt (<) bs"
    and "prev_out = boolfn op iA iB"
    and "\<not> boolfn op (iA \<noteq> odd (length as)) (iB \<noteq> odd (length bs))"
  shows "\<exists>ys. xmerge_from cap op iA iB prev_out out as bs = Some ys"
  using assms
proof (induction "length as + length bs" arbitrary: iA iB prev_out out as bs rule: less_induct)
  case less
  have *: "\<exists>ys. (do { (p, o') \<leftarrow> xmerge_emit cap op iA' iB' prev_out out x;
      xmerge_from cap op iA' iB' p o' as' bs' }) = Some ys"
    if n: "length as' + length bs' < length as + length bs"
      and d: "x \<notin> set as' \<union> set bs'" "insert x (set as' \<union> set bs') \<subseteq> set as \<union> set bs"
      and s: "sorted_wrt (<) as'" "sorted_wrt (<) bs'"
      and b: "(iA' \<noteq> odd (length as')) = (iA \<noteq> odd (length as))"
        "(iB' \<noteq> odd (length bs')) = (iB \<noteq> odd (length bs))"
    for iA' iB' x as' bs'
  proof -
    have "card (insert x (set as' \<union> set bs')) \<le> card (set as \<union> set bs)"
      using d(2) by (intro card_mono) auto
    then have c: "Suc (length out) + card (set as' \<union> set bs') \<le> cap"
      using d(1) less.prems(1) by simp
    then obtain o' where o: "xmerge_emit cap op iA' iB' prev_out out x = Some (boolfn op iA' iB', o')"
      "length o' \<le> Suc (length out)" using emit_room [of out cap op iA' iB' prev_out x] by auto
    with c have "length o' + card (set as' \<union> set bs') \<le> cap" by simp
    from less.hyps [OF n this s refl] less.prems(5) b o(1) show ?thesis by simp
  qed
  show ?case
  proof (cases as)
    case Nil
    then show ?thesis
    proof (cases bs)
      case (Cons b bs')
      from less.prems(2,3) Nil Cons show ?thesis by (auto intro!: *)
    qed (use less.prems Nil in simp)
  next
    case A: (Cons a as')
    show ?thesis
    proof (cases bs)
      case Nil
      from less.prems(2,3) Nil A show ?thesis by (auto intro!: *)
    next
      case B: (Cons b bs')
      show ?thesis
        unfolding A B xmerge_from.simps
        using less.prems(2,3) A B
        by (split if_split, intro conjI impI; (split if_split, intro conjI impI)?; intro *)
          (auto dest: bspec [of "set as'"] bspec [of "set bs'"])
    qed
  qed
qed

lemma xmerge_room:
  assumes "sorted_wrt (<) a" "sorted_wrt (<) b" "even (length a)" "even (length b)"
    and "card (set a \<union> set b) \<le> cap"
  shows "\<exists>zs. xmerge cap op a b = Some zs"
  using xmerge_from_room [of "[]" a b cap False op False False] assms by (simp add: xmerge_def)

lemma parity_bounds:
  assumes "sorted_wrt (<) xs" "even (length xs)" "parity xs h"
  shows "hd xs \<le> h" "h < last xs"
proof -
  have "xs \<noteq> []" using assms(3) by auto
  then have "\<forall>p \<in> set xs. hd xs \<le> p" "\<forall>p \<in> set xs. p \<le> last xs"
    using assms(1) by (cases xs; force simp: less_imp_le)
      (metis assms(1) \<open>xs \<noteq> []\<close> append_butlast_last_id in_set_conv_decomp order.refl
        less_imp_le sorted_wrt_append list.set_intros(1) Un_iff set_append empty_iff list.set(1) set_ConsD)
  moreover have "\<exists>p \<in> set xs. p \<le> h" using parity_below [of xs h] assms(3) by force
  moreover have "\<exists>p \<in> set xs. h < p" using parity_above [of xs h] assms(2,3) by force
  ultimately show "hd xs \<le> h" "h < last xs" by force+
qed

section \<open>Rows as a step function of the scanline\<close>

fun lookup :: "int list \<Rightarrow> rgn_row list \<Rightarrow> int \<Rightarrow> int list" where
  "lookup d [] v = d"
| "lookup d (r # rs) v = lookup (if y_top r \<le> v then row_x r else d) rs v"

abbreviation ys_sorted :: "rgn_row list \<Rightarrow> bool" where
  "ys_sorted rs \<equiv> sorted_wrt (<) (map y_top rs)"

lemma lookup_append: "lookup d (as @ bs) v = lookup (lookup d as v) bs v"
  by (induction as arbitrary: d) auto

lemma lookup_below: "\<forall>r \<in> set rs. v < y_top r \<Longrightarrow> lookup d rs v = d"
  by (induction rs) auto

lemma lookup_cong:
  "(\<And>r. r \<in> set rs \<Longrightarrow> (y_top r \<le> v) = (y_top r \<le> w)) \<Longrightarrow> lookup d rs v = lookup d rs w"
  by (induction rs arbitrary: d) auto

lemma row_at_sorted:
  "ys_sorted rs \<Longrightarrow> (case row_at v rs f of None \<Rightarrow> d | Some r \<Rightarrow> row_x r) =
     lookup (case f of None \<Rightarrow> d | Some r \<Rightarrow> row_x r) rs v"
proof (induction rs arbitrary: f)
  case (Cons r rs)
  show ?case
  proof (cases "y_top r \<le> v")
    case True
    with Cons.IH [of "Some r"] Cons.prems show ?thesis by simp
  next
    case False
    with Cons.prems lookup_below [of rs v] show ?thesis by force
  qed
qed simp

text \<open>A normal row list is determined by its step function.\<close>

lemma lookup_inj:
  "ys_sorted as \<Longrightarrow> ys_sorted bs \<Longrightarrow> distinct_adj (d # map row_x as) \<Longrightarrow> distinct_adj (d # map row_x bs) \<Longrightarrow>
     (\<And>v. lookup d as v = lookup d bs v) \<Longrightarrow> as = bs"
proof (induction as arbitrary: d bs)
  case Nil
  show ?case
  proof (cases bs)
    case (Cons b cs)
    have "lookup d bs (y_top b) = row_x b" using Nil.prems(2) Cons by (auto intro: lookup_below)
    with Nil.prems(4) Nil.prems(5) [of "y_top b"] Cons show ?thesis by simp
  qed simp
next
  case (Cons a as)
  have at: "lookup e (r # rs) (y_top r) = row_x r" "v < y_top r \<Longrightarrow> lookup e (r # rs) v = e"
    if "ys_sorted (r # rs)" for e r rs v
    using that by (force intro: lookup_below)+
  obtain b bs' where bs: "bs = b # bs'" using Cons.prems(3) Cons.prems(5) [of "y_top a"] at [OF Cons.prems(1)]
    by (cases bs) auto
  note aa = at [OF Cons.prems(1)] and bb = at [OF Cons.prems(2) [unfolded bs]]
  have ne: "row_x a \<noteq> d" "row_x b \<noteq> d" using Cons.prems(3,4) bs by auto
  have y: "y_top a = y_top b"
    using Cons.prems(5) [of "y_top a"] Cons.prems(5) [of "y_top b"] aa(1,2) bb(1,2) ne bs
    by (metis linorder_neqE)
  have x: "row_x a = row_x b" using Cons.prems(5) [of "y_top a"] aa(1) bb(1) bs y by simp
  have "lookup (row_x a) as v = lookup (row_x a) bs' v" for v
  proof (cases "y_top a \<le> v")
    case True
    with Cons.prems(5) [of v] bs x y show ?thesis by simp
  next
    case False
    then have "\<forall>r \<in> set as. v < y_top r" "\<forall>r \<in> set bs'. v < y_top r"
      using Cons.prems(1,2) bs y by force+
    then show ?thesis by (simp add: lookup_below)
  qed
  moreover have "distinct_adj (row_x a # map row_x as)" "distinct_adj (row_x a # map row_x bs')"
    using Cons.prems(3,4) bs x by auto
  ultimately have "as = bs'" using Cons.IH [of bs' "row_x a"] Cons.prems(1,2) bs by simp
  with x y bs show ?case by simp
qed

end
