(* ===== verification/RegionNormal.thy ===== *)
theory RegionNormal imports RegionRows begin

text \<open>
  The normal form: \<open>normal_rows\<close> are the invariants (1) to (5) of \<open>spec/region_algebra.h\<close> on a row list,
  \<open>region_ok\<close> the invariant of a whole region. The pass of \<open>region_normalize\<close> establishes them and
  keeps the step function; the membership test reads that function.
\<close>

definition pool_used :: "rgn_row list \<Rightarrow> nat" where
  "pool_used rs = sum_list (map (\<lambda>r. length (row_x r)) rs)"

lemma pool_used_simps [simp]:
  "pool_used [] = 0" "pool_used (r # rs) = length (row_x r) + pool_used rs"
  "pool_used (rs @ rs') = pool_used rs + pool_used rs'"
  by (simp_all add: pool_used_def)

definition rows_ok :: "rgn_row list \<Rightarrow> bool" where
  "rows_ok rs \<longleftrightarrow> ys_sorted rs \<and> (\<forall>r \<in> set rs. even (length (row_x r)) \<and> sorted_wrt (<) (row_x r))"

definition normal_rows :: "rgn_row list \<Rightarrow> bool" where
  "normal_rows rs \<longleftrightarrow> rows_ok rs \<and> distinct_adj ([] # map row_x rs) \<and> rs \<noteq> [] \<and> row_x (last rs) = []"

definition region_ok :: "region \<Rightarrow> bool" where
  "region_ok r \<longleftrightarrow>
     (if is_empty r then rows r = [] \<and> bbox r = \<lparr>rtop = 0, rleft = 0, rbottom = 0, rright = 0\<rparr> \<and> \<not> is_rect r
      else normal_rows (rows r) \<and> bbox r = rows_bbox (rows r) \<and> is_rect r = rows_is_rect (rows r) (bbox r)) \<and>
     x_pool_used r = pool_used (rows r) \<and> length (rows r) \<le> cap_rows r \<and> x_pool_used r \<le> x_pool_cap r"

text \<open>The pixel set of a region.\<close>

definition pixel :: "region \<Rightarrow> int \<Rightarrow> int \<Rightarrow> bool" where
  "pixel r h v = parity (lookup [] (rows r) v) h"

lemma lookup_all: "(\<And>r. r \<in> set rs \<Longrightarrow> P (row_x r)) \<Longrightarrow> P d \<Longrightarrow> P (lookup d rs v)"
  by (induction rs arbitrary: d) auto

lemma rows_ok_lookup:
  "rows_ok rs \<Longrightarrow> sorted_wrt (<) (lookup [] rs v) \<and> even (length (lookup [] rs v))"
  by (rule lookup_all) (auto simp: rows_ok_def)

lemma successively_sorted: "successively (<) (xs :: int list) = sorted_wrt (<) xs"
  by (simp add: successively_conv_sorted_wrt)

lemma assert_normal_iff:
  "region_assert_normal r \<longleftrightarrow> (if is_empty r then rows r = [] else normal_rows (rows r))"
proof -
  have d: "successively (\<lambda>a b. \<not> xlist_equal a b) xs = distinct_adj xs" for xs
    by (simp add: distinct_adj_def)
  have h: "distinct_adj ([] # map row_x rs) \<longleftrightarrow> row_x (hd rs) \<noteq> [] \<and> distinct_adj (map row_x rs)" if "rs \<noteq> []" for rs
    using that by (cases rs) auto
  have l: "length rs \<ge> 2" if "rs \<noteq> []" "row_x (hd rs) \<noteq> []" "row_x (last rs) = []" for rs :: "rgn_row list"
    using that by (cases rs; cases "tl rs") auto
  have ne: "rows r \<noteq> []" if "length (rows r) \<ge> 2" using that by auto
  show ?thesis
    unfolding region_assert_normal_def normal_rows_def rows_ok_def successively_sorted d
    using h [of "rows r"] l [of "rows r"] ne by (auto simp: list_all_iff)
qed

lemma ok_assert: "region_ok r \<Longrightarrow> region_assert_normal r"
  by (auto simp: region_ok_def assert_normal_iff)

lemma ok_rows: "region_ok r \<Longrightarrow> rows_ok (rows r)"
  by (auto simp: region_ok_def normal_rows_def rows_ok_def split: if_splits)

lemma ok_empty: "region_ok r \<Longrightarrow> is_empty r \<longleftrightarrow> rows r = []"
  by (auto simp: region_ok_def normal_rows_def split: if_splits)

section \<open>The normalising pass\<close>

lemma normalize_pass_keeps:
  assumes "normalize_pass capr capx kept used rs = Some (out, u)" "rows_ok (kept @ rs)"
    and "distinct_adj ([] # map row_x kept)" "used = pool_used kept" "length kept \<le> capr" "used \<le> capx"
  shows "lookup [] out v = lookup [] (kept @ rs) v \<and> rows_ok out \<and> distinct_adj ([] # map row_x out) \<and>
    u = pool_used out \<and> length out \<le> capr \<and> u \<le> capx \<and> set out \<subseteq> set (kept @ rs)"
  using assms
proof (induction capr capx kept used rs rule: normalize_pass.induct)
  case (2 capr capx kept used r rs)
  have drop: "rows_ok (kept @ rs)" using "2.prems"(2) by (auto simp: rows_ok_def sorted_wrt_append)
  consider (dup) "kept \<noteq> []" "row_x (last kept) = row_x r" | (lead) "kept = []" "row_x r = []"
    | (keep) "\<not> (kept \<noteq> [] \<and> row_x (last kept) = row_x r)" "\<not> (kept = [] \<and> row_x r = [])" by blast
  then show ?case
  proof cases
    case dup
    then obtain ks k where ks: "kept = ks @ [k]" by (metis append_butlast_last_id)
    with "2.prems"(2) have "y_top k < y_top r" by (simp add: rows_ok_def sorted_wrt_append)
    with dup ks have "lookup [] (kept @ r # rs) v = lookup [] (kept @ rs) v"
      by (simp add: lookup_append)
    with "2.IH"(1) dup "2.prems" drop show ?thesis by auto
  next
    case lead
    then show ?thesis using "2.IH"(2) "2.prems" drop by auto
  next
    case keep
    have "distinct_adj (map row_x kept @ [row_x r])" if "kept \<noteq> []"
      using keep(1) that "2.prems"(3) by (auto simp: distinct_adj_append_iff last_map dest: distinct_adj_ConsD)
    with keep "2.prems"(3) have "distinct_adj ([] # map row_x (kept @ [r]))"
      by (cases kept) auto
    with keep "2.prems" show ?thesis
      using "2.IH"(3) by (auto split: if_splits)
  qed
qed simp

lemma normalize_pass_short:
  "normalize_pass capr capx kept used rs = Some (out, u) \<Longrightarrow> \<forall>r \<in> set kept. length (row_x r) \<le> RGN_ROW_X_MAX \<Longrightarrow>
     \<forall>r \<in> set out. length (row_x r) \<le> RGN_ROW_X_MAX"
  by (induction capr capx kept used rs rule: normalize_pass.induct) (auto split: if_splits)

lemma normalize_pass_room:
  "length kept + length rs \<le> capr \<Longrightarrow> used + pool_used rs \<le> capx \<Longrightarrow>
     \<forall>r \<in> set rs. length (row_x r) \<le> RGN_ROW_X_MAX \<Longrightarrow>
     \<exists>out u. normalize_pass capr capx kept used rs = Some (out, u)"
  by (induction capr capx kept used rs rule: normalize_pass.induct) auto

lemma normalize_pass_id:
  "distinct_adj ([] # map row_x (kept @ rs)) \<Longrightarrow> length (kept @ rs) \<le> capr \<Longrightarrow> used + pool_used rs \<le> capx \<Longrightarrow>
     \<forall>r \<in> set rs. length (row_x r) \<le> RGN_ROW_X_MAX \<Longrightarrow>
     normalize_pass capr capx kept used rs = Some (kept @ rs, used + pool_used rs)"
proof (induction capr capx kept used rs rule: normalize_pass.induct)
  case (2 capr capx kept used r rs)
  have "\<not> (kept \<noteq> [] \<and> row_x (last kept) = row_x r)" "\<not> (kept = [] \<and> row_x r = [])"
    using "2.prems"(1) by (auto simp: distinct_adj_append_iff last_map dest: distinct_adj_ConsD)
  with "2.IH"(3) "2.prems" show ?case by auto
qed simp

lemma trim_closers_id:
  assumes "distinct_adj (map row_x rs)"
  shows "trim_closers rs = rs"
proof -
  have "\<not> (row_x (last rs) = [] \<and> row_x (last (butlast rs)) = [])" if two: "length rs \<ge> 2"
  proof -
    obtain qs q where r1: "rs = qs @ [q]" using two by (cases rs rule: rev_cases) auto
    obtain ps p where "qs = ps @ [p]" using two r1 by (cases qs rule: rev_cases) auto
    with assms r1 show ?thesis by (auto simp: distinct_adj_append_iff butlast_append)
  qed
  then show ?thesis by (subst trim_closers.simps) auto
qed

lemma trim_normal: "distinct_adj ([] # map row_x rs) \<Longrightarrow> trim_closers rs = rs"
  by (rule trim_closers_id) (auto dest: distinct_adj_ConsD)

lemma all_empty_normal:
  "distinct_adj ([] # map row_x rs) \<Longrightarrow> list_all (\<lambda>row. row_x row = []) rs \<longleftrightarrow> rs = []"
  by (cases rs) auto

text \<open>What an operation may change of the region it writes: everything but the storage.\<close>

definition same_store :: "region \<Rightarrow> region \<Rightarrow> bool" where
  "same_store r r' \<longleftrightarrow> cap_rows r' = cap_rows r \<and> x_pool_cap r' = x_pool_cap r"

lemma set_empty_ok [simp]: "region_ok (region_set_empty r)" "\<not> pixel (region_set_empty r) h v"
  "same_store r (region_set_empty r)" "rows (region_set_empty r) = []"
  "x_pool_used (region_set_empty r) = 0" "cap_rows (region_set_empty r) = cap_rows r"
  "x_pool_cap (region_set_empty r) = x_pool_cap r" "is_empty (region_set_empty r)"
  by (simp_all add: region_ok_def region_set_empty_def pixel_def same_store_def)

lemma normalize_spec:
  assumes "region_normalize r = Some r'" "rows_ok (rows r)"
  shows "region_ok r'" "pixel r' h v = pixel r h v" "same_store r r'"
proof -
  from assms(1) obtain out u where p: "normalize_pass (cap_rows r) (x_pool_cap r) [] 0 (rows r) = Some (out, u)"
    by (auto simp: region_normalize_def split: bind_splits)
  note k = normalize_pass_keeps [OF p, simplified, OF assms(2)]
  note k1 = conjunct1 [OF k] and k2 = conjunct2 [OF k [of 0]]
  have r': "r' = (if out = [] then region_set_empty r
      else r\<lparr>rows := out, x_pool_used := u, bbox := rows_bbox out, is_empty := False,
             is_rect := rows_is_rect out (rows_bbox out)\<rparr>)" "out \<noteq> [] \<Longrightarrow> row_x (last out) = []"
    using assms(1) k2 by (auto simp: region_normalize_def p trim_normal all_empty_normal split: if_splits)
  show "region_ok r'"
    using r' k2 set_empty_ok(1) [of r] by (cases "out = []") (auto simp: region_ok_def normal_rows_def)
  show "pixel r' h v = pixel r h v" using r'(1) k1 by (auto simp: pixel_def)
  show "same_store r r'" using r'(1) by (auto simp: same_store_def)
qed

lemma normalize_short:
  assumes "region_normalize r = Some r'" "rows_ok (rows r)"
  shows "\<forall>q \<in> set (rows r'). length (row_x q) \<le> RGN_ROW_X_MAX"
proof -
  from assms(1) obtain out u where p: "normalize_pass (cap_rows r) (x_pool_cap r) [] 0 (rows r) = Some (out, u)"
    by (auto simp: region_normalize_def split: bind_splits)
  have "distinct_adj ([] # map row_x out)" using normalize_pass_keeps [OF p] assms(2) by simp
  with assms(1) p have "rows r' = [] \<or> rows r' = out"
    by (auto simp: region_normalize_def trim_normal Let_def split: if_splits)
  with normalize_pass_short [OF p] show ?thesis by auto
qed

lemma lookup_last: "rs \<noteq> [] \<Longrightarrow> y_top (last rs) \<le> v \<Longrightarrow> lookup d rs v = row_x (last rs)"
  by (cases rs rule: rev_cases) (auto simp: lookup_append)

lemma ys_le_last: "ys_sorted rs \<Longrightarrow> r \<in> set rs \<Longrightarrow> y_top r \<le> y_top (last rs)"
  by (cases rs rule: rev_cases) (auto simp: sorted_wrt_append)

lemma normalize_room:
  assumes "rows_ok (rows r)" "rows r = [] \<or> row_x (last (rows r)) = []"
    and "length (rows r) \<le> cap_rows r" "pool_used (rows r) \<le> x_pool_cap r"
    and "\<forall>row \<in> set (rows r). length (row_x row) \<le> RGN_ROW_X_MAX"
  shows "\<exists>r'. region_normalize r = Some r'"
proof -
  obtain out u where p: "normalize_pass (cap_rows r) (x_pool_cap r) [] 0 (rows r) = Some (out, u)"
    using normalize_pass_room [of "[]" "rows r" "cap_rows r" 0 "x_pool_cap r"] assms(3-5) by auto
  note k = normalize_pass_keeps [OF p, simplified, OF assms(1)]
  note k1 = conjunct1 [OF k] and k2 = conjunct2 [OF k [of 0]]
  have "row_x (last out) = []" if "out \<noteq> []"
  proof -
    let ?v = "max (y_top (last out)) (y_top (last (rows r)))"
    have "rows r \<noteq> []" using p that by auto
    with lookup_last [of out ?v "[]"] lookup_last [of "rows r" ?v "[]"] that k1 [of ?v] assms(2)
    show ?thesis by simp
  qed
  with k2 show ?thesis by (auto simp: region_normalize_def p trim_normal all_empty_normal)
qed

lemma normalize_id:
  assumes "region_ok r" "\<forall>row \<in> set (rows r). length (row_x row) \<le> RGN_ROW_X_MAX"
  shows "region_normalize r = Some r"
proof (cases "is_empty r")
  case True
  with assms(1) have "region_set_empty r = r" "rows r = []"
    by (auto simp: region_ok_def region_set_empty_def)
  then show ?thesis by (simp add: region_normalize_def trim_closers_id Let_def)
next
  case False
  with assms(1) have n: "distinct_adj ([] # map row_x (rows r))" "rows r \<noteq> []" "row_x (last (rows r)) = []"
    "bbox r = rows_bbox (rows r)" "is_rect r = rows_is_rect (rows r) (bbox r)"
    "x_pool_used r = pool_used (rows r)" "length (rows r) \<le> cap_rows r" "x_pool_used r \<le> x_pool_cap r"
    by (simp_all add: region_ok_def normal_rows_def)
  then have "normalize_pass (cap_rows r) (x_pool_cap r) [] 0 (rows r) = Some (rows r, x_pool_used r)"
    using normalize_pass_id [of "[]" "rows r" "cap_rows r" 0 "x_pool_cap r"] assms(2) by simp
  moreover from n False have "r\<lparr>x_pool_used := pool_used (rows r), bbox := rows_bbox (rows r), is_empty := False,
      is_rect := rows_is_rect (rows r) (rows_bbox (rows r))\<rparr> = r" by (cases r) simp
  ultimately show ?thesis
    using n by (simp add: region_normalize_def trim_normal all_empty_normal Let_def)
qed

section \<open>The bounding box and the membership test\<close>

lemma row_extent_bounds:
  "\<forall>r \<in> set rs. sorted_wrt (<) (row_x r) \<Longrightarrow>
   (case acc of None \<Rightarrow> True | Some (l, r) \<Rightarrow> \<exists>l' r'. row_extent acc rs = Some (l', r') \<and> l' \<le> l \<and> r \<le> r') \<and>
   (\<forall>row \<in> set rs. row_x row \<noteq> [] \<longrightarrow>
      (\<exists>l' r'. row_extent acc rs = Some (l', r') \<and> l' \<le> hd (row_x row) \<and> last (row_x row) \<le> r'))"
proof (induction acc rs rule: row_extent.induct)
  case (2 acc r rs)
  show ?case
  proof (cases "row_x r = []")
    case False
    let ?acc = "case acc of None \<Rightarrow> Some (hd (row_x r), last (row_x r))
      | Some (left, right) \<Rightarrow> Some (if hd (row_x r) < left then hd (row_x r) else left,
          if last (row_x r) > right then last (row_x r) else right)"
    from "2.IH"(2) [OF False refl refl] "2.prems" False show ?thesis
      by (cases acc) (force simp: Let_def split: prod.splits if_splits)+
  next
    case True
    with "2.IH"(1) "2.prems" show ?thesis by (cases acc) auto
  qed
qed (auto split: option.splits)

lemma pixel_in_bbox:
  assumes "region_ok r" "pixel r h v"
  shows "\<not> is_empty r" "rtop (bbox r) \<le> v" "v < rbottom (bbox r)" "rleft (bbox r) \<le> h" "h < rright (bbox r)"
proof -
  show e: "\<not> is_empty r" using assms by (auto simp: region_ok_def pixel_def)
  with assms(1) have n: "normal_rows (rows r)" and b: "bbox r = rows_bbox (rows r)" by (simp_all add: region_ok_def)
  let ?xs = "lookup [] (rows r) v"
  have ne: "rows r \<noteq> []" "row_x (last (rows r)) = []" "ys_sorted (rows r)"
    and so: "\<forall>q \<in> set (rows r). sorted_wrt (<) (row_x q)"
    using n by (auto simp: normal_rows_def rows_ok_def)
  have xs: "?xs \<noteq> []" using assms(2) by (auto simp: pixel_def)
  have "\<not> v < y_top (hd (rows r))"
  proof
    assume "v < y_top (hd (rows r))"
    then have "\<forall>q \<in> set (rows r). v < y_top q" using ne(1,3) by (cases "rows r") auto
    with xs show False by (simp add: lookup_below)
  qed
  moreover have "v < y_top (last (rows r))"
    using lookup_last [OF ne(1), of v "[]"] ne(2) xs by force
  ultimately show "rtop (bbox r) \<le> v" "v < rbottom (bbox r)"
    by (simp_all add: b rows_bbox_def split: option.splits prod.splits)
  have "?xs = [] \<or> (\<exists>q \<in> set (rows r). row_x q = ?xs)"
    by (rule lookup_all) auto
  then obtain q where q: "q \<in> set (rows r)" "row_x q = ?xs" using xs by auto
  obtain l' r' where e: "row_extent None (rows r) = Some (l', r')" "l' \<le> hd ?xs" "last ?xs \<le> r'"
    using row_extent_bounds [OF so, of None] q xs by auto
  have "hd ?xs \<le> h" "h < last ?xs"
    using parity_bounds [of ?xs h] rows_ok_lookup [OF ok_rows [OF assms(1)], of v] assms(2)
    by (auto simp: pixel_def)
  with e show "rleft (bbox r) \<le> h" "h < rright (bbox r)" by (simp_all add: b rows_bbox_def)
qed

lemma contains_point_pixel:
  assumes "region_ok r"
  shows "region_contains_point r h v = pixel r h v"
proof (cases "is_empty r")
  case True
  with pixel_in_bbox(1) [OF assms] show ?thesis by (auto simp: region_contains_point_def)
next
  case False
  let ?xs = "lookup [] (rows r) v"
  have "parity_scan h ?xs False = parity ?xs h"
    using parity_scan_sorted [of ?xs h False] rows_ok_lookup [OF ok_rows [OF assms], of v] by simp
  moreover have "(case row_at v (rows r) None of None \<Rightarrow> [] | Some q \<Rightarrow> row_x q) = ?xs"
    using row_at_sorted [of "rows r" "[]" v None] ok_rows [OF assms] by (simp add: rows_ok_def)
  ultimately have "(case row_at v (rows r) None of None \<Rightarrow> False
      | Some found \<Rightarrow> if row_x found = [] then False else parity_scan h (row_x found) False) = parity ?xs h"
    by (auto split: option.splits)
  with pixel_in_bbox [OF assms, of h v] False ok_empty [OF assms] show ?thesis
    by (auto simp: region_contains_point_def pixel_def)
qed

end
