(* ===== verification/RegionMerge.thy ===== *)
theory RegionMerge imports RegionNormal begin

text \<open>
  The scanline merge: the sweep visits the band boundaries of both inputs in order and pushes one
  merged row at each, so the step function of its output is the merge of the step functions of its
  inputs. From this \<open>region_merge\<close> and \<open>region_op\<close> are Boolean operations on pixel sets, and a
  sufficient storage keeps them from failing loud.
\<close>

lemma lookup_greatest:
  "ys_sorted rs \<Longrightarrow> (\<forall>r \<in> set rs. v < y_top r) \<and> lookup d rs v = d \<or>
     (\<exists>r \<in> set rs. y_top r \<le> v \<and> lookup d rs v = row_x r \<and>
        (\<forall>q \<in> set rs. y_top q \<le> v \<longrightarrow> y_top q \<le> y_top r))"
proof (induction rs arbitrary: d)
  case (Cons r rs)
  show ?case
  proof (cases "y_top r \<le> v")
    case True
    with Cons.IH [of "row_x r"] Cons.prems show ?thesis by (auto intro: less_imp_le)
  next
    case False
    with Cons.prems show ?thesis by (force intro!: disjI1 lookup_below)
  qed
qed simp

lemma active_lookup: "region_assert_normal R \<Longrightarrow> active_xlist R v = lookup [] (rows R) v"
  using row_at_sorted [of "rows R" "[]" v None]
  by (auto simp: active_xlist_def assert_normal_iff normal_rows_def rows_ok_def split: if_splits)

lemma assert_rows_ok: "region_assert_normal R \<Longrightarrow> rows_ok (rows R)"
  by (auto simp: assert_normal_iff normal_rows_def rows_ok_def split: if_splits)

section \<open>The sweep\<close>

abbreviation tops :: "rgn_row list \<Rightarrow> int set" where
  "tops rs \<equiv> y_top ` set rs"

lemma next_y_facts:
  assumes "next_y as bs = (y, as', bs')" "as \<noteq> [] \<or> bs \<noteq> []" "ys_sorted as" "ys_sorted bs"
  shows "tops as \<union> tops bs = insert y (tops as' \<union> tops bs')" "\<forall>z \<in> tops as' \<union> tops bs'. y < z"
    "ys_sorted as'" "ys_sorted bs'"
  using assms
  by (cases "(as, bs)" rule: next_y.cases; force split: if_splits)+

text \<open>The sweep with its closing band.\<close>

definition merge_all :: "rgn_op \<Rightarrow> region \<Rightarrow> region \<Rightarrow> region \<Rightarrow> int option \<Rightarrow> rgn_row list \<Rightarrow> rgn_row list \<Rightarrow> region option" where
  "merge_all op A B out p as bs = do {
     (o1, q) \<leftarrow> merge_bands op A B out p as bs;
     case q of None \<Rightarrow> Some o1 | Some y \<Rightarrow> merge_band op A B o1 y }"

lemma merge_all_Nil: "merge_all op A B out p [] [] = (case p of None \<Rightarrow> Some out | Some y \<Rightarrow> merge_band op A B out y)"
  by (simp add: merge_all_def merge_bands.simps)

lemma merge_all_step:
  assumes "as \<noteq> [] \<or> bs \<noteq> []" "next_y as bs = (y, as', bs')"
  shows "merge_all op A B out p as bs =
    (if p = Some y then merge_all op A B out p as' bs'
     else do { out' \<leftarrow> (case p of None \<Rightarrow> Some out | Some q \<Rightarrow> merge_band op A B out q);
               merge_all op A B out' (Some y) as' bs' })"
  unfolding merge_all_def
  by (subst merge_bands.simps) (use assms in \<open>auto simp: bind_assoc\<close>)

definition fits :: "region \<Rightarrow> bool" where
  "fits r \<longleftrightarrow> length (rows r) \<le> cap_rows r \<and> x_pool_used r \<le> x_pool_cap r"

text \<open>\<open>added op A B out new out'\<close>: the rows \<open>new\<close>, each the merge of its scanline, were pushed.\<close>

definition added :: "rgn_op \<Rightarrow> region \<Rightarrow> region \<Rightarrow> region \<Rightarrow> rgn_row list \<Rightarrow> region \<Rightarrow> bool" where
  "added op A B out new out' \<longleftrightarrow> rows out' = rows out @ new \<and> same_store out out' \<and>
     x_pool_used out' = x_pool_used out + pool_used new \<and> (fits out \<longrightarrow> fits out') \<and>
     (\<forall>r \<in> set new. xmerge RGN_ROW_X_MAX op (active_xlist A (y_top r)) (active_xlist B (y_top r)) = Some (row_x r))"

lemma added_trans: "added op A B o0 xs o1 \<Longrightarrow> added op A B o1 ys o2 \<Longrightarrow> added op A B o0 (xs @ ys) o2"
  by (auto simp: added_def same_store_def)

lemma merge_band_added:
  "merge_band op A B out y = Some out' \<Longrightarrow> \<exists>xs. added op A B out [\<lparr>y_top = y, row_x = xs\<rparr>] out'"
  by (auto simp: merge_band_def region_push_row_def added_def same_store_def fits_def split: bind_splits if_splits)

lemma merge_all_added:
  assumes "merge_all op A B out p as bs = Some out'" "ys_sorted as" "ys_sorted bs"
    and "\<forall>z \<in> tops as \<union> tops bs. \<forall>q \<in> set_option p. q \<le> z"
  shows "\<exists>new. added op A B out new out' \<and> ys_sorted new \<and> tops new = set_option p \<union> tops as \<union> tops bs"
  using assms
proof (induction "length as + length bs" arbitrary: out p as bs rule: less_induct)
  case less
  show ?case
  proof (cases "as = [] \<and> bs = []")
    case True
    show ?thesis
    proof (cases p)
      case None
      with True less.prems(1) show ?thesis
        by (intro exI [of _ "[]"]) (auto simp: merge_all_Nil added_def same_store_def)
    next
      case (Some y)
      with True less.prems(1) merge_band_added [of op A B out y out'] obtain xs where
        "added op A B out [\<lparr>y_top = y, row_x = xs\<rparr>] out'" by (auto simp: merge_all_Nil)
      with True Some show ?thesis by (intro exI [of _ "[\<lparr>y_top = y, row_x = xs\<rparr>]"]) simp
    qed
  next
    case False
    then have ne: "as \<noteq> [] \<or> bs \<noteq> []" by simp
    obtain y as' bs' where n: "next_y as bs = (y, as', bs')" by (cases "next_y as bs") auto
    note nf = next_y_facts [OF n ne less.prems(2,3)]
    note st = merge_all_step [OF ne n, of op A B out p]
    note le = next_y_less [OF n ne]
    have b: "\<forall>z \<in> tops as' \<union> tops bs'. \<forall>q \<in> set_option (Some y). q \<le> z" using nf(2) by (auto intro: less_imp_le)
    show ?thesis
    proof (cases "p = Some y")
      case True
      then have "merge_all op A B out (Some y) as' bs' = Some out'" using st less.prems(1) by simp
      from less.hyps [OF le this nf(3,4) b] True nf(1) show ?thesis by (simp add: Un_assoc)
    next
      case f: False
      show ?thesis
      proof (cases p)
        case None
        then have "merge_all op A B out (Some y) as' bs' = Some out'" using st less.prems(1) by simp
        from less.hyps [OF le this nf(3,4) b] None nf(1) show ?thesis by (simp add: Un_assoc)
      next
        case (Some q)
        then obtain o1 where o1: "merge_band op A B out q = Some o1" "merge_all op A B o1 (Some y) as' bs' = Some out'"
          using less.prems(1) f unfolding st by (auto simp only: Some option.case if_False split: bind_splits)
        obtain xs where x: "added op A B out [\<lparr>y_top = q, row_x = xs\<rparr>] o1" using merge_band_added [OF o1(1)] by blast
        obtain new where new: "added op A B o1 new out'" "ys_sorted new" "tops new = insert y (tops as' \<union> tops bs')"
          using less.hyps [OF le o1(2) nf(3,4) b] by (auto simp: Un_assoc)
        have "y \<in> tops as \<union> tops bs" unfolding nf(1) by simp
        then have "q < y" using f Some less.prems(4) by (simp add: order_less_le)
        then have "\<forall>z \<in> tops new. q < z" unfolding new(3) using nf(2) by (auto intro: less_trans)
        then have s: "ys_sorted (\<lparr>y_top = q, row_x = xs\<rparr> # new)" using new(2) by simp
        have t: "tops (\<lparr>y_top = q, row_x = xs\<rparr> # new) = set_option p \<union> tops as \<union> tops bs"
          unfolding Un_assoc nf(1) by (simp add: Some new(3) insert_commute)
        show ?thesis using added_trans [OF x new(1)] s t by (metis append_Cons append_Nil)
      qed
    qed
  qed
qed

section \<open>The merge is a Boolean operation on pixel sets\<close>

definition merge_start :: "region \<Rightarrow> region" where
  "merge_start out = out\<lparr>rows := [], x_pool_used := 0, is_rect := False, is_empty := True\<rparr>"

lemma region_merge_cases:
  assumes "region_assert_normal A" "region_assert_normal B"
  shows "region_merge out A B op =
    (if rows A = [] \<and> rows B = [] then Some (region_set_empty out)
     else do { o2 \<leftarrow> merge_all op A B (merge_start out) None (rows A) (rows B); region_normalize o2 })"
  using assms
  by (auto simp: region_merge_def merge_all_def merge_start_def assert_normal_iff bind_assoc split: if_splits
      intro!: Option.bind_cong)

lemma region_merge_spec:
  assumes "region_merge out A B op = Some r"
  shows "region_ok r" "pixel r h v = boolfn op (pixel A h v) (pixel B h v)" "same_store out r"
proof -
  have n: "region_assert_normal A" "region_assert_normal B"
    using assms by (auto simp: region_merge_def split: if_splits)
  note nA = assert_rows_ok [OF n(1)] and nB = assert_rows_ok [OF n(2)]
  have all: "region_ok r \<and> (\<forall>h v. pixel r h v = boolfn op (pixel A h v) (pixel B h v)) \<and> same_store out r"
  proof (cases "rows A = [] \<and> rows B = []")
    case True
    with assms region_merge_cases [OF n] show ?thesis by (auto simp: pixel_def [of A] pixel_def [of B])
  next
    case False
    then obtain o2 where o2: "merge_all op A B (merge_start out) None (rows A) (rows B) = Some o2"
      and r: "region_normalize o2 = Some r"
      using assms region_merge_cases [OF n, of out op] by (auto split: bind_splits if_splits)
    obtain new where new: "added op A B (merge_start out) new o2" "ys_sorted new" "tops new = tops (rows A) \<union> tops (rows B)"
      using merge_all_added [OF o2] nA nB by (auto simp: rows_ok_def)
    have ro: "rows o2 = new" "same_store out o2"
      and x: "\<And>q. q \<in> set new \<Longrightarrow> xmerge RGN_ROW_X_MAX op (lookup [] (rows A) (y_top q)) (lookup [] (rows B) (y_top q)) = Some (row_x q)"
      using new(1) by (auto simp: added_def merge_start_def same_store_def active_lookup [OF n(1)] active_lookup [OF n(2)])
    note la = rows_ok_lookup [OF nA] and lb = rows_ok_lookup [OF nB]
    have ok: "rows_ok (rows o2)"
      using new(2) x xmerge_combines(1) xmerge_even la lb unfolding rows_ok_def ro by metis
    have "pixel o2 h v = boolfn op (pixel A h v) (pixel B h v)" for h v
      using lookup_greatest [OF new(2), of v "[]"]
    proof (elim disjE bexE conjE)
      assume v: "\<forall>q \<in> set new. v < y_top q" "lookup [] new v = []"
      then have "\<forall>q \<in> set (rows A) \<union> set (rows B). v < y_top q" using new(3) by (auto simp: set_eq_iff image_iff; metis)
      with v(2) show ?thesis by (simp add: pixel_def ro lookup_below)
    next
      fix q
      assume q: "q \<in> set new" "y_top q \<le> v" "lookup [] new v = row_x q"
        "\<forall>q' \<in> set new. y_top q' \<le> v \<longrightarrow> y_top q' \<le> y_top q"
      have "y_top s \<le> v \<longleftrightarrow> y_top s \<le> y_top q" if "s \<in> set (rows A) \<union> set (rows B)" for s
      proof -
        have "y_top s \<in> tops new" using that new(3) by auto
        with q(2,4) show ?thesis by auto
      qed
      then have "lookup [] (rows A) v = lookup [] (rows A) (y_top q)" "lookup [] (rows B) v = lookup [] (rows B) (y_top q)"
        by (auto intro: lookup_cong)
      with xmerge_combines(3) [OF x [OF q(1)]] la lb q(3) show ?thesis by (simp add: pixel_def ro)
    qed
    with normalize_spec [OF r ok] ro(2) show ?thesis by (auto simp: same_store_def)
  qed
  then show "region_ok r" "pixel r h v = boolfn op (pixel A h v) (pixel B h v)" "same_store out r" by auto
qed

end
