(* ===== verification/RegionOps.thy ===== *)
theory RegionOps imports RegionMerge begin

text \<open>
  When the merge succeeds: the per-band bound of \<open>spec/region_algebra.h\<close> (640 points suffice on the
  640-column screen) and a storage bound for whole operations; then \<open>region_op\<close>, aliased or not.
\<close>

section \<open>The per-band bound\<close>

lemma xmerge_from_grows: "xmerge_from cap op iA iB p out as bs = Some ys \<Longrightarrow> length out \<le> length ys"
  by (induction cap op iA iB p out as bs rule: xmerge_from.induct)
    (fastforce dest: emit_cases(2) split: bind_splits if_splits)+

lemma emit_recap:
  "xmerge_emit cap op iA iB p out xpos = Some (q, o') \<Longrightarrow> length o' \<le> cap' \<Longrightarrow>
     xmerge_emit cap' op iA iB p out xpos = Some (q, o')"
  by (auto simp: xmerge_emit_def Let_def split: if_splits)

lemma bind_recap:
  assumes "(do { (q, o') \<leftarrow> xmerge_emit cap op iA iB p out x; f q o' }) = Some ys"
    and "\<And>q o'. f q o' = Some ys \<Longrightarrow> length o' \<le> length ys" "length ys \<le> cap'"
    and "\<And>q o'. xmerge_emit cap op iA iB p out x = Some (q, o') \<Longrightarrow> f q o' = Some ys \<Longrightarrow> g q o' = Some ys"
  shows "(do { (q, o') \<leftarrow> xmerge_emit cap' op iA iB p out x; g q o' }) = Some ys"
proof -
  obtain q o' where e: "xmerge_emit cap op iA iB p out x = Some (q, o')" "f q o' = Some ys"
    using assms(1) by (auto split: bind_splits)
  with emit_recap [OF e(1), of cap'] assms(2-4) show ?thesis by (fastforce dest: order_trans)
qed

lemma xmerge_from_recap:
  "xmerge_from cap op iA iB p out as bs = Some ys \<Longrightarrow> length ys \<le> cap' \<Longrightarrow>
     xmerge_from cap' op iA iB p out as bs = Some ys"
proof (induction cap op iA iB p out as bs rule: xmerge_from.induct)
  case (2 cap op iA iB p out xa as)
  show ?case
    unfolding xmerge_from.simps
    by (rule bind_recap [OF "2.prems"(1) [unfolded xmerge_from.simps] _ "2.prems"(2)])
      (use 2 xmerge_from_grows in blast)+
next
  case (3 cap op iA iB p out xb bs)
  show ?case
    unfolding xmerge_from.simps
    by (rule bind_recap [OF "3.prems"(1) [unfolded xmerge_from.simps] _ "3.prems"(2)])
      (use 3 xmerge_from_grows in blast)+
next
  case (4 cap op iA iB p out xa as xb bs)
  note pr = "4.prems"(1) [unfolded xmerge_from.simps]
  consider "xa < xb" | "\<not> xa < xb" "xb < xa" | "\<not> xa < xb" "\<not> xb < xa" by blast
  then show ?case
  proof cases
    case 1
    show ?thesis
      unfolding xmerge_from.simps if_P [OF 1]
      by (rule bind_recap [OF pr [unfolded if_P [OF 1]] _ "4.prems"(2)])
        (use "4.IH"(1) [OF 1] "4.prems"(2) xmerge_from_grows in blast)+
  next
    case 2
    show ?thesis
      unfolding xmerge_from.simps if_not_P [OF 2(1)] if_P [OF 2(2)]
      by (rule bind_recap [OF pr [unfolded if_not_P [OF 2(1)] if_P [OF 2(2)]] _ "4.prems"(2)])
        (use "4.IH"(2) [OF 2] "4.prems"(2) xmerge_from_grows in blast)+
  next
    case 3
    show ?thesis
      unfolding xmerge_from.simps if_not_P [OF 3(1)] if_not_P [OF 3(2)]
      by (rule bind_recap [OF pr [unfolded if_not_P [OF 3(1)] if_not_P [OF 3(2)]] _ "4.prems"(2)])
        (use "4.IH"(3) [OF 3] "4.prems"(2) xmerge_from_grows in blast)+
  qed
qed (auto split: if_splits)

lemma card_sorted: "sorted_wrt (<) (xs :: int list) \<Longrightarrow> length xs = card (set xs)"
  by (metis distinct_card strict_sorted_iff)

lemma xmerge_recap: "xmerge cap op a b = Some zs \<Longrightarrow> length zs \<le> cap' \<Longrightarrow> xmerge cap' op a b = Some zs"
  by (auto simp: xmerge_def intro: xmerge_from_recap)

lemma emit_cap: "xmerge_emit cap op iA iB p out xpos = Some (q, o') \<Longrightarrow> length out \<le> cap \<Longrightarrow> length o' \<le> cap"
  by (auto simp: xmerge_emit_def Let_def split: if_splits)

lemma xmerge_from_cap:
  "xmerge_from cap op iA iB p out as bs = Some ys \<Longrightarrow> length out \<le> cap \<Longrightarrow> length ys \<le> cap"
  by (induction cap op iA iB p out as bs rule: xmerge_from.induct)
    (fastforce dest: emit_cap split: bind_splits if_splits)+

lemma xmerge_cap: "xmerge cap op a b = Some zs \<Longrightarrow> length zs \<le> cap"
  by (auto simp: xmerge_def dest: xmerge_from_cap split: if_splits)

definition row_list :: "int list \<Rightarrow> bool" where
  "row_list xs \<longleftrightarrow> sorted_wrt (<) xs \<and> even (length xs)"

lemma xmerge_length:
  assumes "xmerge cap op a b = Some zs" "row_list a" "row_list b"
  shows "row_list zs" "length zs \<le> card (set a \<union> set b)" "length zs \<le> length a + length b"
proof -
  note s = xmerge_combines(1,2) [OF assms(1)]
  from s assms have z: "sorted_wrt (<) zs" "set zs \<subseteq> set a \<union> set b" by (simp_all add: row_list_def)
  with xmerge_even [OF assms(1)] assms(2,3) show "row_list zs" by (simp add: row_list_def)
  show "length zs \<le> card (set a \<union> set b)"
    unfolding card_sorted [OF z(1)] using z(2) by (intro card_mono) auto
  also have "\<dots> \<le> length a + length b"
    using card_Un_le [of "set a" "set b"] card_length [of a] card_length [of b] by linarith
  finally show "length zs \<le> length a + length b" .
qed

text \<open>Columns \<open>0 .. 640\<close> give an even list of at most 640 points, so the scratch row suffices.\<close>

lemma xmerge_domain:
  assumes "row_list a" "row_list b" "set a \<union> set b \<subseteq> {0..640}"
  shows "\<exists>zs. xmerge RGN_ROW_X_MAX op a b = Some zs"
proof -
  have c: "card (set a \<union> set b) \<le> 641" using card_mono [OF _ assms(3)] by simp
  obtain zs where z: "xmerge 641 op a b = Some zs"
    using xmerge_room [of a b 641 op] assms(1,2) c by (auto simp: row_list_def)
  note l = xmerge_length [OF z assms(1,2)]
  have "length zs \<noteq> 641" using l(1) by (auto simp: row_list_def)
  then have "length zs \<le> RGN_ROW_X_MAX" using l(2) c by linarith
  with xmerge_recap [OF z] show ?thesis by blast
qed

section \<open>The storage bound\<close>

lemma merge_band_room:
  assumes "xmerge RGN_ROW_X_MAX op (active_xlist A y) (active_xlist B y) = Some xs"
    and "length (rows out) < cap_rows out" "x_pool_used out + length xs \<le> x_pool_cap out"
  shows "\<exists>out'. merge_band op A B out y = Some out'"
  using assms by (simp add: merge_band_def region_push_row_def)

lemma merge_all_room:
  assumes "\<And>y. \<exists>xs. xmerge RGN_ROW_X_MAX op (active_xlist A y) (active_xlist B y) = Some xs \<and> length xs \<le> k"
    and "n = (if p = None then 0 else 1) + length as + length bs"
    and "length (rows out) + n \<le> cap_rows out" "x_pool_used out + k * n \<le> x_pool_cap out"
  shows "\<exists>out'. merge_all op A B out p as bs = Some out'"
  using assms(2-)
proof (induction "length as + length bs" arbitrary: n out p as bs rule: less_induct)
  case less
  have band: "\<exists>out' xs. merge_band op A B out y = Some out' \<and> length (rows out') = length (rows out) + 1 \<and>
      x_pool_used out' \<le> x_pool_used out + k \<and> same_store out out'"
    if "length (rows out) < cap_rows out" "x_pool_used out + k \<le> x_pool_cap out" for y
  proof -
    obtain xs where xs: "xmerge RGN_ROW_X_MAX op (active_xlist A y) (active_xlist B y) = Some xs" "length xs \<le> k"
      using assms(1) by blast
    with that show ?thesis by (auto simp: merge_band_def region_push_row_def same_store_def)
  qed
  show ?case
  proof (cases "as = [] \<and> bs = []")
    case True
    show ?thesis
    proof (cases p)
      case (Some y)
      with True less.prems band [of y] show ?thesis by (auto simp: merge_all_Nil)
    qed (use True in \<open>simp add: merge_all_Nil\<close>)
  next
    case False
    then have ne: "as \<noteq> [] \<or> bs \<noteq> []" by simp
    obtain y as' bs' where n: "next_y as bs = (y, as', bs')" by (cases "next_y as bs") auto
    note st = merge_all_step [OF ne n, of op A B out p] and le = next_y_less [OF n ne]
    let ?m = "1 + length as' + length bs'"
    show ?thesis
    proof (cases "p = None \<or> p = Some y")
      case True
      have "?m \<le> n" using True less.prems(1) le by auto
      then have "length (rows out) + ?m \<le> cap_rows out" "x_pool_used out + k * ?m \<le> x_pool_cap out"
        using less.prems(2,3) mult_le_mono2 [of ?m n k] by linarith+
      from less.hyps [OF le _ this] True st show ?thesis by auto
    next
      case False
      then obtain q where q: "p = Some q" "q \<noteq> y" by auto
      have "?m + 1 \<le> n" using q less.prems(1) le by simp
      then have m: "length (rows out) + ?m + 1 \<le> cap_rows out" "x_pool_used out + k + k * ?m \<le> x_pool_cap out"
        using less.prems(2,3) mult_le_mono2 [of "?m + 1" n k] by (simp_all add: algebra_simps)
      then obtain out' where o: "merge_band op A B out q = Some out'" "length (rows out') = length (rows out) + 1"
          "x_pool_used out' \<le> x_pool_used out + k" "same_store out out'"
        using band [of q] by auto
      with m have "length (rows out') + ?m \<le> cap_rows out'" "x_pool_used out' + k * ?m \<le> x_pool_cap out'"
        by (simp_all add: same_store_def)
      from less.hyps [OF le _ this, of "Some y"] q o(1) st show ?thesis by auto
    qed
  qed
qed

lemma normal_last_empty: "region_assert_normal A \<Longrightarrow> rows A \<noteq> [] \<Longrightarrow> row_x (last (rows A)) = []"
  by (auto simp: assert_normal_iff normal_rows_def split: if_splits)

lemma lookup_at_end:
  "region_assert_normal A \<Longrightarrow> (\<And>r. r \<in> set (rows A) \<Longrightarrow> y_top r \<le> v) \<Longrightarrow> lookup [] (rows A) v = []"
  using lookup_last [of "rows A" v "[]"] normal_last_empty [of A] by (cases "rows A = []") auto

lemma region_merge_room:
  assumes nA: "region_assert_normal A" and nB: "region_assert_normal B"
    and k: "\<And>y. \<exists>xs. xmerge RGN_ROW_X_MAX op (active_xlist A y) (active_xlist B y) = Some xs \<and> length xs \<le> k"
    and room: "length (rows A) + length (rows B) \<le> cap_rows out"
      "k * (length (rows A) + length (rows B)) \<le> x_pool_cap out"
  shows "\<exists>r. region_merge out A B op = Some r"
proof (cases "rows A = [] \<and> rows B = []")
  case True
  with region_merge_cases [OF nA nB] show ?thesis by simp
next
  case False
  note okA = assert_rows_ok [OF nA] and okB = assert_rows_ok [OF nB]
  obtain o2 where o2: "merge_all op A B (merge_start out) None (rows A) (rows B) = Some o2"
    using merge_all_room [OF k refl, where p = None and as = "rows A" and bs = "rows B" and out = "merge_start out"] room by (auto simp: merge_start_def)
  obtain new where new: "added op A B (merge_start out) new o2" "ys_sorted new" "tops new = tops (rows A) \<union> tops (rows B)"
    using merge_all_added [OF o2] okA okB by (auto simp: rows_ok_def)
  have ro: "rows o2 = new" "x_pool_used o2 = pool_used new" "fits o2"
    and x: "\<And>q. q \<in> set new \<Longrightarrow> xmerge RGN_ROW_X_MAX op (lookup [] (rows A) (y_top q)) (lookup [] (rows B) (y_top q)) = Some (row_x q)"
    using new(1) by (auto simp: added_def merge_start_def fits_def active_lookup [OF nA] active_lookup [OF nB])
  have rl: "row_list (lookup [] (rows A) v)" "row_list (lookup [] (rows B) v)" for v
    using rows_ok_lookup [OF okA] rows_ok_lookup [OF okB] by (simp_all add: row_list_def)
  have ok: "rows_ok (rows o2)"
    using new(2) xmerge_length(1) [OF x rl] by (auto simp: rows_ok_def ro row_list_def)
  have ne: "new \<noteq> []" using False new(3) by auto
  have "row_x (last new) = []"
  proof -
    let ?v = "y_top (last new)"
    have "y_top r \<le> ?v" if "r \<in> set (rows A) \<union> set (rows B)" for r
    proof -
      have "y_top r \<in> tops new" using that new(3) by auto
      then show ?thesis using ys_le_last [OF new(2)] by auto
    qed
    then show ?thesis
      using x [of "last new"] lookup_at_end [OF nA, of ?v] lookup_at_end [OF nB, of ?v] ne
      by (simp add: xmerge_def)
  qed
  moreover have "length (row_x q) \<le> RGN_ROW_X_MAX" if "q \<in> set new" for q
    using xmerge_cap [OF x [OF that]] .
  ultimately have "\<exists>r. region_normalize o2 = Some r"
    using normalize_room [OF ok] ro by (auto simp: fits_def)
  then show ?thesis using region_merge_cases [OF nA nB, of out op] o2 False by auto
qed

end
