(* ===== verification/RegionUnion.thy ===== *)
theory RegionUnion imports RegionOps begin

text \<open>
  \<open>region_op\<close> with its alias path, the rectangle constructor, and the direct sweep of
  \<open>region_from_rects\<close>: on every scanline the spans emitted are the union of the rectangles there.
\<close>

section \<open>One operation\<close>

lemma push_rows_spec:
  "push_rows out rs = Some out' \<Longrightarrow> rows out' = rows out @ rs \<and> same_store out out' \<and> is_empty out' = is_empty out"
  by (induction out rs rule: push_rows.induct)
    (auto simp: region_push_row_def same_store_def split: bind_splits if_splits)

lemma region_op_spec:
  assumes "region_op w aliased out A B op = Some (w', r)"
  shows "region_ok r" "pixel r h v = boolfn op (pixel A h v) (pixel B h v)" "same_store out r" "w' = w"
proof -
  have "region_ok r \<and> (\<forall>h v. pixel r h v = boolfn op (pixel A h v) (pixel B h v)) \<and> same_store out r \<and> w' = w"
  proof (cases aliased)
    case False
    with assms region_merge_spec [of out A B op r] show ?thesis by (auto simp: region_op_def split: bind_splits)
  next
    case True
    then obtain w1 tmp r0 where t: "rgn_ws_acquire w = Some w1" "region_merge rgn_ws_attach A B op = Some tmp"
      "push_rows (region_set_empty out) (rows tmp) = Some r0" "region_normalize r0 = Some r" "w' = rgn_ws_release w1"
      using assms by (auto simp: region_op_def region_copy_def split: bind_splits)
    note m = region_merge_spec [OF t(2)]
    note p = push_rows_spec [OF t(3)]
    have "rows_ok (rows r0)" using p ok_rows [OF m(1)] by simp
    note n = normalize_spec [OF t(4) this]
    have "pixel r h v = boolfn op (pixel A h v) (pixel B h v)" for h v
      using n(2) [of h v] m(2) [of h v] p by (simp add: pixel_def)
    moreover have "same_store out r" using n(3) p by (simp add: same_store_def)
    moreover have "w' = w" using t(1,5) by (auto simp: rgn_ws_acquire_def rgn_ws_release_def split: if_splits)
    ultimately show ?thesis using n(1) by simp
  qed
  then show "region_ok r" "pixel r h v = boolfn op (pixel A h v) (pixel B h v)" "same_store out r" "w' = w" by auto
qed

section \<open>Rectangles\<close>

definition in_rect :: "rgn_rect \<Rightarrow> int \<Rightarrow> int \<Rightarrow> bool" where
  "in_rect rc h v \<longleftrightarrow> rtop rc \<le> v \<and> v < rbottom rc \<and> rleft rc \<le> h \<and> h < rright rc"

lemma in_rect_empty: "rect_is_empty rc \<longleftrightarrow> (\<forall>h v. \<not> in_rect rc h v)"
proof (cases "rect_is_empty rc")
  case False
  then have "in_rect rc (rleft rc) (rtop rc)" by (simp add: in_rect_def rect_is_empty_def)
  with False show ?thesis by blast
qed (auto simp: in_rect_def rect_is_empty_def)

lemma set_rect_rows:
  "region_set_rect r rect = Some r' \<Longrightarrow> \<not> rect_is_empty rect \<Longrightarrow>
     rows r' = [\<lparr>y_top = rtop rect, row_x = [rleft rect, rright rect]\<rparr>, \<lparr>y_top = rbottom rect, row_x = []\<rparr>] \<and>
     bbox r' = rect \<and> is_rect r' \<and> \<not> is_empty r' \<and> x_pool_used r' = 2 \<and> 2 \<le> cap_rows r' \<and> 2 \<le> x_pool_cap r' \<and>
     same_store r r'"
  by (auto simp: region_set_rect_def region_push_row_def same_store_def split: bind_splits if_splits)

lemma set_rect_spec:
  assumes "region_set_rect r rect = Some r'"
  shows "region_ok r'" "pixel r' h v = in_rect rect h v" "same_store r r'"
proof -
  have "region_ok r' \<and> (\<forall>h v. pixel r' h v = in_rect rect h v) \<and> same_store r r'"
  proof (cases "rect_is_empty rect")
    case True
    with assms in_rect_empty [of rect] show ?thesis by (auto simp: region_set_rect_def)
  next
    case False
    note s = set_rect_rows [OF assms False]
    from s False show ?thesis
      by (cases rect)
        (auto simp: region_ok_def normal_rows_def rows_ok_def rows_bbox_def rows_is_rect_def pixel_def in_rect_def
          rect_is_empty_def)
  qed
  then show "region_ok r'" "pixel r' h v = in_rect rect h v" "same_store r r'" by auto
qed

lemma set_rect_room: "2 \<le> cap_rows r \<Longrightarrow> 2 \<le> x_pool_cap r \<Longrightarrow> \<exists>r'. region_set_rect r rect = Some r'"
  by (simp add: region_set_rect_def region_push_row_def)

section \<open>The spans of one scanline\<close>

text \<open>The rectangles of a scanline, and the 16-bit range of a C rectangle.\<close>

definition at_line :: "rgn_rect list \<Rightarrow> int \<Rightarrow> rgn_rect set" where
  "at_line rects y = {rc \<in> set rects. rtop rc \<le> y \<and> y < rbottom rc \<and> rleft rc < rright rc}"

definition rect16 :: "rgn_rect \<Rightarrow> bool" where
  "rect16 rc \<longleftrightarrow> {rtop rc, rleft rc, rbottom rc, rright rc} \<subseteq> {-32768 .. 32767}"

lemma extend_pass_inv:
  assumes "\<And>r rc. rc \<in> set rects \<Longrightarrow> P r \<Longrightarrow> rtop rc \<le> y \<Longrightarrow> y < rbottom rc \<Longrightarrow> rleft rc \<le> r \<Longrightarrow> r < rright rc \<Longrightarrow> P (rright rc)"
    and "P right"
  shows "P (extend_pass rects y right)"
  using assms unfolding extend_pass_def by (induction rects arbitrary: right) auto

lemma extend_right_step:
  "extend_right rects y right =
     (if extend_pass rects y right = right then right else extend_right rects y (extend_pass rects y right))"
  by (subst extend_right.simps) (simp add: Let_def)

lemma extend_right_inv:
  assumes "\<And>r rc. rc \<in> set rects \<Longrightarrow> P r \<Longrightarrow> rtop rc \<le> y \<Longrightarrow> y < rbottom rc \<Longrightarrow> rleft rc \<le> r \<Longrightarrow> r < rright rc \<Longrightarrow> P (rright rc)"
    and "P right"
  shows "P (extend_right rects y right)"
  using assms
proof (induction rects y right rule: extend_right.induct)
  case (1 rects y right)
  have p: "P (extend_pass rects y right)"
    using "1.prems" by (rule extend_pass_inv) blast+
  show ?case
  proof (cases "extend_pass rects y right = right")
    case True
    with extend_right_step [of rects y right] "1.prems"(2) show ?thesis by simp
  next
    case False
    from "1.IH" [OF refl False "1.prems"(1) p] extend_right_step [of rects y right] False show ?thesis by simp
  qed
qed

lemma extend_pass_grows: "right \<le> extend_pass rects y right"
  using extend_pass_cases [of rects y right] by linarith

lemma extend_pass_fix:
  assumes "extend_pass rects y right = right" "rc \<in> set rects" "rtop rc \<le> y" "y < rbottom rc" "rleft rc \<le> right"
  shows "rright rc \<le> right"
  using assms
proof (induction rects arbitrary: right)
  case (Cons a rects)
  let ?r = "if rtop a \<le> y \<and> y < rbottom a \<and> rleft a \<le> right \<and> rright a > right then rright a else right"
  have e: "extend_pass (a # rects) y right = extend_pass rects y ?r" by (simp add: extend_pass_def)
  have "?r \<le> extend_pass rects y ?r" "right \<le> ?r" by (simp_all add: extend_pass_grows)
  with e Cons.prems(1) have r: "?r = right" "extend_pass rects y right = right" by (simp_all split: if_splits)
  show ?case
  proof (cases "rc = a")
    case True
    with r(1) Cons.prems(3-5) show ?thesis by (auto split: if_splits)
  next
    case False
    with Cons.IH [OF r(2)] Cons.prems show ?thesis by simp
  qed
qed simp

lemma extend_right_fix:
  "extend_pass rects y (extend_right rects y right) = extend_right rects y right"
proof (induction rects y right rule: extend_right.induct)
  case (1 rects y right)
  show ?case
  proof (cases "extend_pass rects y right = right")
    case True
    with extend_right_step [of rects y right] show ?thesis by simp
  next
    case False
    with "1.IH" [OF refl False] extend_right_step [of rects y right] show ?thesis by simp
  qed
qed

text \<open>One span: it starts at the next left edge, ends where no rectangle touching it ends later, and every
  column in it is covered.\<close>

lemma span_facts:
  assumes left: "next_left rects y covered = left" "left \<noteq> 32768"
    and closed: "\<forall>rc \<in> at_line rects y. rleft rc \<le> covered \<longrightarrow> rright rc \<le> covered"
  defines "right \<equiv> extend_right rects y left"
  shows "covered < left" "left < right" "left \<in> rleft ` at_line rects y" "right \<in> rright ` at_line rects y"
    and "\<forall>rc \<in> at_line rects y. covered < rleft rc \<longrightarrow> left \<le> rleft rc"
    and "\<forall>rc \<in> at_line rects y. rleft rc \<le> right \<longrightarrow> rright rc \<le> right"
    and "left \<le> h \<Longrightarrow> h < right \<Longrightarrow> \<exists>rc \<in> at_line rects y. covered < rleft rc \<and> rleft rc \<le> h \<and> h < rright rc"
proof -
  obtain r0 where r0: "r0 \<in> at_line rects y" "rleft r0 = left" "covered < left"
    using next_left_least(1) [of rects y covered] left by (auto simp: left_cands_def at_line_def)
  show "covered < left" "left \<in> rleft ` at_line rects y" using r0 by auto
  show least: "\<forall>rc \<in> at_line rects y. covered < rleft rc \<longrightarrow> left \<le> rleft rc"
    using next_left_least(2) [of _ rects _ y covered] left(1) by (auto simp: left_cands_def at_line_def)
  have clo: "rright rc \<le> right" if "rc \<in> at_line rects y" "rleft rc \<le> right" for rc
    using extend_pass_fix [of rects y right rc] extend_right_fix [of rects y left] that
    by (simp add: at_line_def right_def)
  then show "\<forall>rc \<in> at_line rects y. rleft rc \<le> right \<longrightarrow> rright rc \<le> right" by blast
  show lt: "left < right"
    using clo [OF r0(1)] r0 extend_right_ge [of left rects y] by (auto simp: at_line_def right_def)
  let ?P = "\<lambda>r. left \<le> r \<and> (r = left \<or> r \<in> rright ` at_line rects y) \<and> (\<forall>h. left \<le> h \<and> h < r \<longrightarrow>
      (\<exists>rc \<in> at_line rects y. covered < rleft rc \<and> rleft rc \<le> h \<and> h < rright rc))"
  have "?P right"
    unfolding right_def
  proof (rule extend_right_inv)
    fix r rc
    assume rc: "rc \<in> set rects" "rtop rc \<le> y" "y < rbottom rc" "rleft rc \<le> r" "r < rright rc" and P: "?P r"
    then have m: "rc \<in> at_line rects y" by (simp add: at_line_def)
    have "covered < rleft rc"
      using closed m rc(5) P r0(3) by force
    with m rc P show "?P (rright rc)" by (auto simp: not_less) (meson not_less order.trans)+
  qed auto
  with lt show "right \<in> rright ` at_line rects y"
    and "left \<le> h \<Longrightarrow> h < right \<Longrightarrow> \<exists>rc \<in> at_line rects y. covered < rleft rc \<and> rleft rc \<le> h \<and> h < rright rc"
    by auto
qed

lemma band_spans_step:
  "band_spans rects y covered xs =
     (if next_left rects y covered = 32768 then Some xs
      else if length xs > RGN_ROW_X_MAX - 2 then None
      else band_spans rects y (extend_right rects y (next_left rects y covered))
             (xs @ [next_left rects y covered, extend_right rects y (next_left rects y covered)]))"
  by (subst band_spans.simps) (simp only: Let_def)

lemma band_spans_spec:
  assumes "band_spans rects y covered xs = Some ys"
    and "\<forall>rc \<in> at_line rects y. rleft rc \<le> covered \<longrightarrow> rright rc \<le> covered"
    and "\<forall>rc \<in> set rects. rect16 rc" "length xs \<le> RGN_ROW_X_MAX"
  shows "\<exists>zs. ys = xs @ zs \<and> row_list zs \<and> (\<forall>z \<in> set zs. covered < z) \<and> length ys \<le> RGN_ROW_X_MAX \<and>
    (\<forall>h. parity zs h = (\<exists>rc \<in> at_line rects y. covered < rleft rc \<and> rleft rc \<le> h \<and> h < rright rc))"
  using assms
proof (induction rects y covered xs rule: band_spans.induct)
  case (1 rects y covered xs)
  let ?left = "next_left rects y covered" and ?right = "extend_right rects y (next_left rects y covered)"
  show ?case
  proof (cases "?left = 32768")
    case True
    have "\<not> covered < rleft rc" if "rc \<in> at_line rects y" for rc
    proof
      assume "covered < rleft rc"
      with that have "rleft rc \<in> left_cands y covered rc" "rc \<in> set rects" by (auto simp: at_line_def left_cands_def)
      from next_left_least(2) [OF this(2,1)] True "1.prems"(3) \<open>rc \<in> set rects\<close> show False
        by (force simp: rect16_def)
    qed
    with True "1.prems"(1,4) show ?thesis by (auto simp: band_spans_step [of rects y covered] row_list_def)
  next
    case False
    note s = span_facts [OF refl False "1.prems"(2)]
    have len: "\<not> RGN_ROW_X_MAX - 2 < length xs" and r: "band_spans rects y ?right (xs @ [?left, ?right]) = Some ys"
      using "1.prems"(1) False band_spans_step [of rects y covered xs] by (simp_all split: if_splits)
    have "length (xs @ [?left, ?right]) \<le> RGN_ROW_X_MAX" using len by simp
    from "1.IH" [OF refl False refl len r s(6) "1.prems"(3) this] obtain zs where
      zs: "ys = (xs @ [?left, ?right]) @ zs" "row_list zs" "\<forall>z \<in> set zs. ?right < z" "length ys \<le> RGN_ROW_X_MAX"
        "\<And>h. parity zs h = (\<exists>rc \<in> at_line rects y. ?right < rleft rc \<and> rleft rc \<le> h \<and> h < rright rc)"
      by auto
    have "parity (?left # ?right # zs) h = (\<exists>rc \<in> at_line rects y. covered < rleft rc \<and> rleft rc \<le> h \<and> h < rright rc)"
      (is "_ = ?R") for h
    proof -
      consider "h < ?left" | "?left \<le> h" "h < ?right" | "?right \<le> h" by linarith
      then show ?thesis
      proof cases
        case 1
        then have "\<not> ?R" using s(5) by force
        moreover have "\<not> parity zs h" using zs(3) 1 s(2) by (intro parity_below) force
        ultimately show ?thesis using 1 s(2) by simp
      next
        case 2
        then have "\<not> parity zs h" using zs(3) by (intro parity_below) force
        with 2 s(7) [of h] show ?thesis by simp
      next
        case 3
        have "?R \<longleftrightarrow> (\<exists>rc \<in> at_line rects y. ?right < rleft rc \<and> rleft rc \<le> h \<and> h < rright rc)"
          using s(1,2,6) 3 by (metis leD le_less_trans linorder_le_less_linear order.strict_trans)
        moreover have "parity (?left # ?right # zs) h = parity zs h" using 3 s(2) by simp
        ultimately show ?thesis unfolding zs(5) by blast
      qed
    qed
    moreover have "row_list (?left # ?right # zs)" using zs(2,3) s(2) by (force simp: row_list_def)
    ultimately show ?thesis
      using zs(1,3,4) s(1,2) by (intro exI [of _ "?left # ?right # zs"]) force
  qed
qed

section \<open>The sweep over the edges\<close>

definition covered_by :: "rgn_rect list \<Rightarrow> int \<Rightarrow> int \<Rightarrow> bool" where
  "covered_by rects h v \<longleftrightarrow> (\<exists>rc \<in> set rects. in_rect rc h v)"

lemma covered_at_line: "covered_by rects h v \<longleftrightarrow> (\<exists>rc \<in> at_line rects v. rleft rc \<le> h \<and> h < rright rc)"
  by (auto simp: covered_by_def in_rect_def at_line_def)

lemma covered_between:
  assumes "y \<le> v" "v < next_edge rects y"
  shows "covered_by rects h v = covered_by rects h y"
proof -
  have e: "e \<le> y \<or> v < e" if "rc \<in> set rects" "\<not> rect_is_empty rc" "e = rtop rc \<or> e = rbottom rc" for rc e
    using next_edge_least(2) [OF that(1), of e y] assms that(2,3) by (cases "e \<le> y") (auto simp: edge_cands_def)
  have "in_rect rc h v = in_rect rc h y" if "rc \<in> set rects" for rc
  proof (cases "rect_is_empty rc")
    case False
    from e [OF that False, of "rtop rc"] e [OF that False, of "rbottom rc"] assms(1) show ?thesis
      by (auto simp: in_rect_def)
  qed (auto simp: in_rect_empty)
  then show ?thesis by (simp add: covered_by_def)
qed

lemma next_edge_int16: "\<forall>rc \<in> set rects. rect16 rc \<Longrightarrow> next_edge rects y = 32768 \<or> next_edge rects y \<le> 32767"
  using next_edge_least(1) [of rects y] by (force simp: edge_cands_def rect16_def)

lemma no_edge_after:
  assumes "next_edge rects y = 32768" "\<forall>rc \<in> set rects. rect16 rc" "y \<le> v"
  shows "\<not> covered_by rects h v"
proof
  assume "covered_by rects h v"
  then obtain rc where rc: "rc \<in> set rects" "in_rect rc h v" by (auto simp: covered_by_def)
  then have "\<not> rect_is_empty rc" by (auto simp: in_rect_empty)
  with rc assms(3) have "rbottom rc \<in> edge_cands y rc" by (auto simp: edge_cands_def in_rect_def)
  from next_edge_least(2) [OF rc(1) this] assms(1,2) rc(1) show False by (force simp: rect16_def)
qed

lemma no_edge_before:
  assumes "v < next_edge rects (-32769)" "\<forall>rc \<in> set rects. rect16 rc"
  shows "\<not> covered_by rects h v"
proof
  assume "covered_by rects h v"
  then obtain rc where rc: "rc \<in> set rects" "in_rect rc h v" by (auto simp: covered_by_def)
  then have "\<not> rect_is_empty rc" by (auto simp: in_rect_empty)
  with rc(1) assms(2) have "rtop rc \<in> edge_cands (-32769) rc" by (force simp: edge_cands_def rect16_def)
  from next_edge_least(2) [OF rc(1) this] assms(1) rc(2) show False by (simp add: in_rect_def)
qed

lemma band_sweep_step:
  "band_sweep rects y r =
     (if next_edge rects y = 32768 then Some r
      else do {
        xs \<leftarrow> band_spans rects (next_edge rects y) (-32769) [];
        r' \<leftarrow> (if rows r = [] \<and> xs = [] then Some r
               else if rows r \<noteq> [] \<and> row_x (last (rows r)) = xs then Some r
               else region_push_row r (next_edge rects y) xs);
        band_sweep rects (next_edge rects y) r' })"
  by (subst band_sweep.simps) (simp add: Let_def cong: if_cong)

text \<open>The rows swept so far are right above the next edge and blank beyond the last.\<close>

definition swept :: "rgn_rect list \<Rightarrow> int \<Rightarrow> region \<Rightarrow> bool" where
  "swept rects y r \<longleftrightarrow> y < 32768 \<and> rows_ok (rows r) \<and> (\<forall>row \<in> set (rows r). y_top row \<le> y) \<and>
     (\<forall>v h. v < next_edge rects y \<longrightarrow> parity (lookup [] (rows r) v) h = covered_by rects h v)"

lemma swept_next:
  assumes s: "swept rects y r" and ne: "next_edge rects y = ny" "ny \<noteq> 32768"
    and r16: "\<forall>rc \<in> set rects. rect16 rc"
    and xs: "band_spans rects ny (-32769) [] = Some xs"
    and r': "(if rows r = [] \<and> xs = [] then Some r
              else if rows r \<noteq> [] \<and> row_x (last (rows r)) = xs then Some r
              else region_push_row r ny xs) = Some r'"
  shows "swept rects ny r'" "same_store r r'" "length xs \<le> RGN_ROW_X_MAX"
proof -
  have yn: "y < ny" using next_edge_least(1) [of rects y] ne by (auto simp: edge_cands_def)
  have "\<forall>rc \<in> at_line rects ny. -32769 < rleft rc" using r16 by (force simp: at_line_def rect16_def)
  with band_spans_spec [OF xs _ r16] have x: "row_list xs" "length xs \<le> RGN_ROW_X_MAX"
    "\<And>h. parity xs h = covered_by rects h ny"
    by (force simp: covered_at_line)+
  show "length xs \<le> RGN_ROW_X_MAX" by (rule x(2))
  from s have s': "rows_ok (rows r)" "\<forall>row \<in> set (rows r). y_top row \<le> y"
    "\<And>v h. v < ny \<Longrightarrow> parity (lookup [] (rows r) v) h = covered_by rects h v"
    using ne(1) by (auto simp: swept_def)
  have rows: "rows_ok (rows r') \<and> (\<forall>row \<in> set (rows r'). y_top row \<le> ny) \<and>
      (\<forall>v. lookup [] (rows r') v = (if ny \<le> v then xs else lookup [] (rows r) v)) \<and> same_store r r'"
  proof (cases "rows r = [] \<and> xs = [] \<or> rows r \<noteq> [] \<and> row_x (last (rows r)) = xs")
    case True
    then have eq: "r' = r" using r' by (auto split: if_splits)
    have "lookup [] (rows r) v = row_x (last (rows r))" if "rows r \<noteq> []" "ny \<le> v" for v
    proof -
      have "y_top (last (rows r)) \<le> y" using s'(2) that(1) by simp
      with lookup_last [of "rows r" v "[]"] that yn show ?thesis by simp
    qed
    with True have "\<forall>v. ny \<le> v \<longrightarrow> lookup [] (rows r) v = xs" by auto
    with eq s'(1,2) yn show ?thesis by (force simp: same_store_def)
  next
    case False
    then have p: "region_push_row r ny xs = Some r'" using r' by (auto split: if_splits)
    then have rr: "rows r' = rows r @ [\<lparr>y_top = ny, row_x = xs\<rparr>]" "same_store r r'"
      by (auto simp: region_push_row_def same_store_def split: if_splits)
    with s'(1,2) x(1) yn show ?thesis
      by (force simp: rows_ok_def sorted_wrt_append row_list_def lookup_append)
  qed
  have "parity (lookup [] (rows r') v) h = covered_by rects h v" if "v < next_edge rects ny" for v h
  proof (cases "ny \<le> v")
    case True
    with rows x(3) covered_between [OF True that] show ?thesis by simp
  next
    case False
    with rows s'(3) show ?thesis by simp
  qed
  with rows next_edge_int16 [OF r16, of y] ne show "swept rects ny r'" "same_store r r'" by (auto simp: swept_def)
qed

lemma band_sweep_spec:
  assumes "band_sweep rects y r = Some r'" "swept rects y r" "\<forall>rc \<in> set rects. rect16 rc"
  shows "rows_ok (rows r') \<and> same_store r r' \<and> (\<forall>v h. parity (lookup [] (rows r') v) h = covered_by rects h v)"
  using assms
proof (induction rects y r rule: band_sweep.induct)
  case (1 rects y r)
  let ?ny = "next_edge rects y"
  show ?case
  proof (cases "?ny = 32768")
    case True
    with "1.prems"(1) band_sweep_step [of rects y r] have r: "r' = r" by simp
    have "parity (lookup [] (rows r) v) h = covered_by rects h v" for v h
    proof (cases "v < ?ny")
      case False
      have y: "y < ?ny" using True "1.prems"(2) by (simp add: swept_def)
      have "lookup [] (rows r) v = lookup [] (rows r) y"
        using "1.prems"(2) False y by (intro lookup_cong) (force simp: swept_def)
      moreover have "parity (lookup [] (rows r) y) h = covered_by rects h y" using "1.prems"(2) y by (simp add: swept_def)
      ultimately show ?thesis
        using no_edge_after [OF True "1.prems"(3), of v h] no_edge_after [OF True "1.prems"(3), of y h] False y by simp
    qed (use "1.prems"(2) in \<open>simp add: swept_def\<close>)
    with r "1.prems"(2) show ?thesis by (simp add: swept_def same_store_def)
  next
    case False
    obtain xs r1 where x: "band_spans rects ?ny (-32769) [] = Some xs"
      "(if rows r = [] \<and> xs = [] then Some r
        else if rows r \<noteq> [] \<and> row_x (last (rows r)) = xs then Some r
        else region_push_row r ?ny xs) = Some r1" "band_sweep rects ?ny r1 = Some r'"
      using "1.prems"(1) False band_sweep_step [of rects y r] by (auto split: bind_splits)
    note n = swept_next [OF "1.prems"(2) refl False "1.prems"(3) x(1,2)]
    from "1.IH" [OF refl False x(1) _ x(3) n(1) "1.prems"(3), unfolded xlist_equal_eq, OF x(2)] n(2) show ?thesis
      by (auto simp: same_store_def)
  qed
qed

lemma sweep_start: "\<forall>rc \<in> set rects. rect16 rc \<Longrightarrow> swept rects (-32769) (region_set_empty r)"
  using no_edge_before [of _ rects] by (simp add: swept_def rows_ok_def)

lemma from_rects_spec:
  assumes "region_from_rects w r rects = Some (w', r')" "\<forall>rc \<in> set rects. rect16 rc"
  shows "region_ok r'" "pixel r' h v = covered_by rects h v" "same_store r r'" "w' = w"
proof -
  have "region_ok r' \<and> (\<forall>h v. pixel r' h v = covered_by rects h v) \<and> same_store r r' \<and> w' = w"
  proof (cases "rects = []")
    case True
    with assms(1) show ?thesis by (auto simp: region_from_rects_def covered_by_def)
  next
    case False
    then obtain w1 r1 where s: "rgn_ws_acquire w = Some w1" "band_sweep rects (-32769) (region_set_empty r) = Some r1"
      "region_normalize r1 = Some r'" "w' = rgn_ws_release w1"
      using assms(1) by (auto simp: region_from_rects_def split: bind_splits)
    from band_sweep_spec [OF s(2) sweep_start [OF assms(2)] assms(2)] have b:
      "rows_ok (rows r1)" "same_store r r1" "\<And>h v. pixel r1 h v = covered_by rects h v"
      by (auto simp: same_store_def pixel_def)
    from normalize_spec [OF s(3) b(1)] b(2,3) s(1,4) show ?thesis
      by (auto simp: same_store_def rgn_ws_acquire_def rgn_ws_release_def split: if_splits)
  qed
  then show "region_ok r'" "pixel r' h v = covered_by rects h v" "same_store r r'" "w' = w" by auto
qed

section \<open>When the sweep succeeds\<close>

lemma band_spans_room:
  assumes "length xs + 2 * length (filter (\<lambda>rc. covered < rleft rc) rects) \<le> RGN_ROW_X_MAX"
  shows "\<exists>ys. band_spans rects y covered xs = Some ys \<and>
    length ys \<le> length xs + 2 * length (filter (\<lambda>rc. covered < rleft rc) rects)"
  using assms
proof (induction rects y covered xs rule: band_spans.induct)
  case (1 rects y covered xs)
  let ?left = "next_left rects y covered" and ?right = "extend_right rects y (next_left rects y covered)"
  let ?n = "\<lambda>c. length (filter (\<lambda>rc. c < rleft rc) rects)"
  show ?case
  proof (cases "?left = 32768")
    case True
    then show ?thesis by (simp add: band_spans_step [of rects y covered xs])
  next
    case False
    obtain rc where rc: "rc \<in> set rects" "rleft rc = ?left" "covered < ?left"
      using next_left_least(1) [of rects y covered] False by (auto simp: left_cands_def)
    have "?n ?right < ?n covered"
      using rc extend_right_ge [of ?left rects y] by (intro filter_shrinks [of _ _ rc]) auto
    then have b: "\<not> RGN_ROW_X_MAX - 2 < length xs"
      "length (xs @ [?left, ?right]) + 2 * ?n ?right \<le> length xs + 2 * ?n covered"
      using "1.prems" by auto
    with "1.prems" have "length (xs @ [?left, ?right]) + 2 * ?n ?right \<le> RGN_ROW_X_MAX" by linarith
    from "1.IH" [OF refl False refl b(1) this] b(2) False b(1) band_spans_step [of rects y covered xs] show ?thesis by auto
  qed
qed

lemma band_sweep_room:
  assumes "2 * length rects \<le> RGN_ROW_X_MAX"
    and "e = length (filter (\<lambda>z. y < z) (map rtop rects @ map rbottom rects))"
    and "length (rows r) + e \<le> cap_rows r" "x_pool_used r + 2 * length rects * e \<le> x_pool_cap r"
    and "x_pool_used r = pool_used (rows r)"
  shows "\<exists>r'. band_sweep rects y r = Some r' \<and> x_pool_used r' = pool_used (rows r') \<and> fits r' \<and>
    ((\<forall>q \<in> set (rows r). length (row_x q) \<le> RGN_ROW_X_MAX) \<longrightarrow> (\<forall>q \<in> set (rows r'). length (row_x q) \<le> RGN_ROW_X_MAX))"
  using assms
proof (induction rects y r arbitrary: e rule: band_sweep.induct)
  case (1 rects y r)
  let ?ny = "next_edge rects y" and ?es = "map rtop rects @ map rbottom rects"
  show ?case
  proof (cases "?ny = 32768")
    case True
    with "1.prems" show ?thesis by (simp add: band_sweep_step [of rects y r] fits_def)
  next
    case False
    have "?ny \<in> set ?es" "y < ?ny" using next_edge_least(1) [of rects y] False by (auto simp: edge_cands_def)
    then have e: "length (filter (\<lambda>z. ?ny < z) ?es) < e"
      unfolding "1.prems"(2) by (intro filter_shrinks [of _ _ ?ny]) auto
    have l: "length (filter (\<lambda>rc. -32769 < rleft rc) rects) \<le> length rects" by simp
    with "1.prems"(1) have "length [] + 2 * length (filter (\<lambda>rc. -32769 < rleft rc) rects) \<le> RGN_ROW_X_MAX"
      by (simp only: list.size)
    from band_spans_room [OF this, of ?ny] obtain xs where xs1: "band_spans rects ?ny (-32769) [] = Some xs"
      "length xs \<le> 2 * length (filter (\<lambda>rc. -32769 < rleft rc) rects)" by auto
    have xs: "band_spans rects ?ny (-32769) [] = Some xs" "length xs \<le> 2 * length rects"
      using xs1(1) order.trans [OF xs1(2) mult_le_mono2 [OF l, of 2]] by blast+
    let ?push = "if rows r = [] \<and> xs = [] then Some r
      else if rows r \<noteq> [] \<and> row_x (last (rows r)) = xs then Some r else region_push_row r ?ny xs"
    let ?e' = "length (filter (\<lambda>z. ?ny < z) ?es)"
    have "?e' + 1 \<le> e" using e by simp
    from mult_le_mono2 [OF this, of "2 * length rects"]
    have m: "2 * length rects * ?e' + 2 * length rects \<le> 2 * length rects * e" by simp
    obtain r1 where r1: "?push = Some r1" "length (rows r1) + ?e' \<le> cap_rows r1"
      "x_pool_used r1 + 2 * length rects * ?e' \<le> x_pool_cap r1" "x_pool_used r1 = pool_used (rows r1)"
      "set (rows r1) \<subseteq> insert \<lparr>y_top = ?ny, row_x = xs\<rparr> (set (rows r))"
    proof (cases "rows r = [] \<and> xs = [] \<or> rows r \<noteq> [] \<and> row_x (last (rows r)) = xs")
      case True
      with "1.prems"(3-5) e m show thesis by (intro that [of r]) auto
    next
      case f: False
      have "length (rows r) < cap_rows r" "x_pool_used r + length xs \<le> x_pool_cap r"
        using "1.prems"(3,4) e xs(2) m by linarith+
      then have "region_push_row r ?ny xs =
          Some (r\<lparr>rows := rows r @ [\<lparr>y_top = ?ny, row_x = xs\<rparr>], x_pool_used := x_pool_used r + length xs\<rparr>)"
        by (simp add: region_push_row_def)
      with f "1.prems"(3-5) e m xs(2) show thesis
        by (intro that [of "r\<lparr>rows := rows r @ [\<lparr>y_top = ?ny, row_x = xs\<rparr>], x_pool_used := x_pool_used r + length xs\<rparr>"])
          auto
    qed
    from "1.IH" [OF refl False xs(1) _ "1.prems"(1) refl r1(2-4), unfolded xlist_equal_eq, OF r1(1)]
    show ?thesis using band_sweep_step [of rects y r] False xs r1(1,5) "1.prems"(1) by fastforce
  qed
qed

lemma sweep_last_empty:
  assumes "rows_ok (rows r)" "\<And>v h. parity (lookup [] (rows r) v) h = covered_by rects h v"
    and "\<forall>rc \<in> set rects. rect16 rc"
  shows "rows r = [] \<or> row_x (last (rows r)) = []"
proof (rule disjCI)
  assume ne: "row_x (last (rows r)) \<noteq> []"
  show "rows r = []"
  proof (rule ccontr)
    assume nr: "rows r \<noteq> []"
    let ?v = "max 32768 (y_top (last (rows r)))"
    have l: "lookup [] (rows r) ?v = row_x (last (rows r))" by (rule lookup_last [OF nr]) simp
    have "\<not> covered_by rects h ?v" for h
      using assms(3) by (force simp: covered_by_def in_rect_def rect16_def)
    with assms(2) l have "\<not> parity (row_x (last (rows r))) h" for h by metis
    then have "row_x (last (rows r)) = []"
      using assms(1) nr by (intro parity_inj) (auto simp: rows_ok_def)
    with ne show False by simp
  qed
qed

lemma from_rects_room:
  assumes "\<forall>rc \<in> set rects. rect16 rc" "ws_bound w" "\<not> ws_in_use w"
    and "2 * length rects \<le> RGN_ROW_X_MAX" "2 * length rects \<le> cap_rows r" "(2 * length rects) ^ 2 \<le> x_pool_cap r"
  shows "\<exists>r'. region_from_rects w r rects = Some (w, r')"
proof (cases "rects = []")
  case False
  let ?e = "length (filter (\<lambda>z. -32769 < z) (map rtop rects @ map rbottom rects))"
  have e: "?e \<le> 2 * length rects"
    by (rule order.trans [OF length_filter_le]) simp
  then have "2 * length rects * ?e \<le> 2 * length rects * (2 * length rects)" by (rule mult_le_mono2)
  with assms(6) have "2 * length rects * ?e \<le> x_pool_cap r" by (simp only: power2_eq_square)
  with band_sweep_room [OF assms(4) refl, where y = "-32769" and r = "region_set_empty r"] e assms(5)
  obtain r1 where r1: "band_sweep rects (-32769) (region_set_empty r) = Some r1" "x_pool_used r1 = pool_used (rows r1)"
    "fits r1" "\<forall>q \<in> set (rows r1). length (row_x q) \<le> RGN_ROW_X_MAX" by auto
  from band_sweep_spec [OF r1(1) sweep_start [OF assms(1)] assms(1)] have b:
    "rows_ok (rows r1)" "\<And>v h. parity (lookup [] (rows r1) v) h = covered_by rects h v" by auto
  from normalize_room [OF b(1) sweep_last_empty [OF b assms(1)]] r1(2-4) obtain r' where
    "region_normalize r1 = Some r'" by (auto simp: fits_def)
  with r1(1) False assms(2,3) show ?thesis
    by (simp add: region_from_rects_def rgn_ws_acquire_def rgn_ws_release_def)
qed (simp add: region_from_rects_def)

end
