(* ===== verification/RegionAlgebra.thy ===== *)
theory RegionAlgebra imports RegionUnion begin

text \<open>
  The region engine as a Boolean algebra of pixel sets. The locale \<open>region_algebra\<close> states what the
  two facades rely on (closure, the pixel law of each operation, structural equality is pixel
  equality) and derives the laws of the algebra; \<open>rgn\<close> interprets it on \<open>region_op\<close>. The theory
  ends with the properties of the engine.
\<close>

section \<open>The algebra as an interface\<close>

locale region_algebra =
  fixes good :: "'r \<Rightarrow> bool"
    and member :: "'r \<Rightarrow> int \<Rightarrow> int \<Rightarrow> bool"
    and same :: "'r \<Rightarrow> 'r \<Rightarrow> bool"
    and combine :: "rgn_op \<Rightarrow> 'r \<Rightarrow> 'r \<Rightarrow> 'r option"
  assumes combine_good: "good A \<Longrightarrow> good B \<Longrightarrow> combine op A B = Some r \<Longrightarrow> good r"
    and combine_member: "good A \<Longrightarrow> good B \<Longrightarrow> combine op A B = Some r \<Longrightarrow>
      member r h v = boolfn op (member A h v) (member B h v)"
    and same_iff: "good A \<Longrightarrow> good B \<Longrightarrow> same A B \<longleftrightarrow> (\<forall>h v. member A h v = member B h v)"
begin

lemma combine_commute:
  assumes "good A" "good B" "op \<noteq> RGN_OP_DIFF" "combine op A B = Some r" "combine op B A = Some s"
  shows "same r s"
proof -
  have "boolfn op a b = boolfn op b a" for a b using assms(3) by (cases op) auto
  with assms show ?thesis
    by (simp add: same_iff combine_good [OF assms(1,2,4)] combine_good [OF assms(2,1,5)]
        combine_member [OF assms(1,2,4)] combine_member [OF assms(2,1,5)])
qed

text \<open>GDI reaches XOR as the union of the two differences.\<close>

lemma xor_decompose:
  assumes "good A" "good B" "combine RGN_OP_DIFF A B = Some p" "combine RGN_OP_DIFF B A = Some q"
    and "combine RGN_OP_UNION p q = Some r" "combine RGN_OP_XOR A B = Some s"
  shows "same r s"
proof -
  note p = combine_good [OF assms(1,2,3)] combine_member [OF assms(1,2,3)]
  note q = combine_good [OF assms(2,1,4)] combine_member [OF assms(2,1,4)]
  note r = combine_good [OF p(1) q(1) assms(5)] combine_member [OF p(1) q(1) assms(5)]
  note s = combine_good [OF assms(1,2,6)] combine_member [OF assms(1,2,6)]
  show ?thesis unfolding same_iff [OF r(1) s(1)] by (simp add: r(2) s(2) p(2) q(2)) blast
qed

lemma union_absorbs:
  assumes "good A" "good B" "combine RGN_OP_INTERSECT A B = Some p" "combine RGN_OP_UNION A p = Some r"
  shows "same r A"
proof -
  note p = combine_good [OF assms(1,2,3)] combine_member [OF assms(1,2,3)]
  note r = combine_good [OF assms(1) p(1) assms(4)] combine_member [OF assms(1) p(1) assms(4)]
  show ?thesis unfolding same_iff [OF r(1) assms(1)] by (simp add: r(2) p(2)) blast
qed

lemma diff_intersect_empty:
  assumes "good A" "good B" "combine RGN_OP_DIFF A B = Some p" "combine RGN_OP_INTERSECT p B = Some r"
  shows "\<not> member r h v"
proof -
  note p = combine_good [OF assms(1,2,3)] combine_member [OF assms(1,2,3)]
  show ?thesis by (simp add: combine_member [OF p(1) assms(2,4)] p(2))
qed

end

section \<open>Equality and emptiness\<close>

lemma normal_nonempty_pixel:
  assumes "normal_rows rs"
  shows "parity (lookup [] rs (y_top (hd rs))) (hd (row_x (hd rs)))"
proof -
  from assms obtain q qs where rs: "rs = q # qs" "row_x q \<noteq> []" "ys_sorted rs" "sorted_wrt (<) (row_x q)"
    by (cases rs) (auto simp: normal_rows_def rows_ok_def)
  then have "lookup [] rs (y_top q) = row_x q" by (auto intro: lookup_below)
  moreover have "parity (row_x q) (hd (row_x q))"
    using rs(2,4) parity_below [of "tl (row_x q)"] by (cases "row_x q") auto
  ultimately show ?thesis using rs(1) by simp
qed

lemma is_empty_pixels:
  assumes "region_ok r"
  shows "region_is_empty r \<longleftrightarrow> (\<forall>h v. \<not> pixel r h v)"
proof (cases "is_empty r")
  case True
  with assms ok_empty [OF assms] show ?thesis by (simp add: region_is_empty_def pixel_def)
next
  case False
  with assms have "normal_rows (rows r)" by (simp add: region_ok_def)
  from normal_nonempty_pixel [OF this] False ok_empty [OF assms] show ?thesis
    by (auto simp: region_is_empty_def pixel_def)
qed

lemma pixels_determine_rows:
  assumes "region_ok A" "region_ok B" "\<And>h v. pixel A h v = pixel B h v"
  shows "rows A = rows B"
proof -
  have "lookup [] (rows A) v = lookup [] (rows B) v" for v
    using assms(3) rows_ok_lookup [OF ok_rows [OF assms(1)], of v] rows_ok_lookup [OF ok_rows [OF assms(2)], of v]
    by (intro parity_inj) (auto simp: pixel_def)
  moreover have "ys_sorted (rows R) \<and> distinct_adj ([] # map row_x (rows R))" if "region_ok R" for R
    using that by (auto simp: region_ok_def normal_rows_def rows_ok_def split: if_splits)
  ultimately show ?thesis using lookup_inj [of "rows A" "rows B" "[]"] assms(1,2) by blast
qed

lemma equal_rows: "region_ok A \<Longrightarrow> region_ok B \<Longrightarrow> region_equal A B \<longleftrightarrow> rows A = rows B"
proof -
  assume ok: "region_ok A" "region_ok B"
  have "(\<lambda>a b. y_top a = y_top b \<and> row_x a = row_x b) = ((=) :: rgn_row \<Rightarrow> _)"
    by (intro ext) auto
  then have l: "list_all2 (\<lambda>a b. y_top a = y_top b \<and> row_x a = row_x b) xs ys \<longleftrightarrow> xs = ys" for xs ys :: "rgn_row list"
    by (simp add: list.rel_eq)
  have e: "is_empty R \<longleftrightarrow> rows R = []" "rows R \<noteq> [] \<Longrightarrow> bbox R = rows_bbox (rows R)" if "region_ok R" for R
    using ok_empty [OF that] that by (simp_all add: region_ok_def)
  note a = e [OF ok(1)] and b = e [OF ok(2)]
  show "region_equal A B \<longleftrightarrow> rows A = rows B"
  proof (cases "rows A = [] \<or> rows B = []")
    case True
    then show ?thesis by (auto simp: region_equal_def region_is_empty_def Let_def a(1) b(1))
  next
    case False
    with a(2) b(2) show ?thesis by (auto simp: region_equal_def region_is_empty_def Let_def a(1) b(1) l)
  qed
qed

lemma equal_pixels:
  assumes "region_ok A" "region_ok B"
  shows "region_equal A B \<longleftrightarrow> (\<forall>h v. pixel A h v = pixel B h v)"
  using equal_rows [OF assms] pixels_determine_rows [OF assms] by (auto simp: pixel_def)

interpretation rgn: region_algebra region_ok region_contains_point region_equal
    "\<lambda>op A B. map_option snd (region_op w aliased out A B op)" for w aliased out
proof unfold_locales
  fix A B r op h v
  assume ok: "region_ok A" "region_ok B"
  { assume "map_option snd (region_op w aliased out A B op) = Some r"
    then obtain w' where "region_op w aliased out A B op = Some (w', r)" by auto
    note s = region_op_spec [OF this]
    show "region_ok r" by (rule s(1))
    show "region_contains_point r h v = boolfn op (region_contains_point A h v) (region_contains_point B h v)"
      by (simp add: contains_point_pixel s(1,2) ok) }
  show "region_equal A B = (\<forall>h v. region_contains_point A h v = region_contains_point B h v)"
    by (simp add: contains_point_pixel ok equal_pixels)
qed

section \<open>When operations and queries succeed\<close>

definition row_bound :: "nat \<Rightarrow> region \<Rightarrow> bool" where
  "row_bound k r \<longleftrightarrow> (\<forall>q \<in> set (rows r). length (row_x q) \<le> k)"

lemma row_bound_lookup: "row_bound k r \<Longrightarrow> length (lookup [] (rows r) v) \<le> k"
  by (rule lookup_all) (auto simp: row_bound_def)

lemma row_list_lookup: "region_ok r \<Longrightarrow> row_list (lookup [] (rows r) v)"
  using rows_ok_lookup [OF ok_rows] by (simp add: row_list_def)

lemma region_merge_fits:
  assumes "region_ok A" "region_ok B" "row_bound k A" "row_bound l B"
    and "k + l \<le> RGN_ROW_X_MAX \<or> (\<forall>q \<in> set (rows A) \<union> set (rows B). set (row_x q) \<subseteq> {0..640})"
    and "length (rows A) + length (rows B) \<le> cap_rows out"
    and "(k + l) * (length (rows A) + length (rows B)) \<le> x_pool_cap out"
  shows "\<exists>r. region_merge out A B op = Some r"
proof (rule region_merge_room [OF ok_assert [OF assms(1)] ok_assert [OF assms(2)] _ assms(6,7)])
  fix y
  let ?a = "lookup [] (rows A) y" and ?b = "lookup [] (rows B) y"
  have len: "length ?a \<le> k" "length ?b \<le> l" using assms(3,4) by (simp_all add: row_bound_lookup)
  have rl: "row_list ?a" "row_list ?b" using assms(1,2) by (simp_all add: row_list_lookup)
  have "\<exists>zs. xmerge RGN_ROW_X_MAX op ?a ?b = Some zs"
    using assms(5)
  proof
    assume "k + l \<le> RGN_ROW_X_MAX"
    then have "card (set ?a \<union> set ?b) \<le> RGN_ROW_X_MAX"
      using card_Un_le [of "set ?a" "set ?b"] card_length [of ?a] card_length [of ?b] len by linarith
    with xmerge_room [of ?a ?b] rl show ?thesis by (simp add: row_list_def)
  next
    assume d: "\<forall>q \<in> set (rows A) \<union> set (rows B). set (row_x q) \<subseteq> {0..640}"
    have "set ?a \<subseteq> {0..640}" "set ?b \<subseteq> {0..640}" by (rule lookup_all; use d in simp)+
    then show ?thesis by (intro xmerge_domain [OF rl]) simp
  qed
  with xmerge_length(3) [OF _ rl] len
  show "\<exists>xs. xmerge RGN_ROW_X_MAX op (active_xlist A y) (active_xlist B y) = Some xs \<and> length xs \<le> k + l"
    by (fastforce simp: active_lookup ok_assert assms(1,2))
qed

lemma ws_round: "ws_bound w \<Longrightarrow> \<not> ws_in_use w \<Longrightarrow> \<exists>w1. rgn_ws_acquire w = Some w1 \<and> rgn_ws_release w1 = w"
  by (simp add: rgn_ws_acquire_def rgn_ws_release_def)

text \<open>The rows of a merge fit a row, and a region that fits the output can be copied into it, so an operation
  through the working set succeeds where a direct one does.\<close>

lemma trim_closers_subset: "set (trim_closers rs) \<subseteq> set rs"
proof (induction rs rule: trim_closers.induct)
  case (1 rs)
  then show ?case by (subst trim_closers.simps) (auto dest: in_set_butlastD)
qed

lemma merge_short:
  assumes "region_merge out A B op = Some r"
  shows "\<forall>q \<in> set (rows r). length (row_x q) \<le> RGN_ROW_X_MAX"
proof -
  have n: "region_assert_normal A" "region_assert_normal B"
    using assms by (auto simp: region_merge_def split: if_splits)
  have norm: "\<forall>q \<in> set (rows r). length (row_x q) \<le> RGN_ROW_X_MAX" if "region_normalize o2 = Some r" for o2
  proof -
    from that obtain outs u where p: "normalize_pass (cap_rows o2) (x_pool_cap o2) [] 0 (rows o2) = Some (outs, u)"
      by (auto simp: region_normalize_def split: bind_splits)
    have "set (rows r) \<subseteq> set outs"
      using that p trim_closers_subset [of outs] by (auto simp: region_normalize_def Let_def split: if_splits)
    with normalize_pass_short [OF p] show ?thesis by auto
  qed
  show ?thesis using assms region_merge_cases [OF n, of out op] norm by (auto split: bind_splits if_splits)
qed

lemma push_rows_room:
  "length (rows out) + length rs \<le> cap_rows out \<Longrightarrow> x_pool_used out + pool_used rs \<le> x_pool_cap out \<Longrightarrow>
     \<forall>q \<in> set rs. length (row_x q) \<le> RGN_ROW_X_MAX \<Longrightarrow> \<exists>out'. push_rows out rs = Some out' \<and> x_pool_used out' = x_pool_used out + pool_used rs"
  by (induction out rs rule: push_rows.induct) (auto simp: region_push_row_def split: bind_splits)

lemma region_copy_room:
  assumes "region_ok t" "length (rows t) \<le> cap_rows out" "pool_used (rows t) \<le> x_pool_cap out"
    and short: "\<forall>q \<in> set (rows t). length (row_x q) \<le> RGN_ROW_X_MAX"
  shows "\<exists>r. region_copy out t = Some r"
proof -
  obtain r0 where r0: "push_rows (region_set_empty out) (rows t) = Some r0" "x_pool_used r0 = pool_used (rows t)"
    using push_rows_room [of "region_set_empty out" "rows t"] assms by auto
  note p = push_rows_spec [OF r0(1)]
  have "rows r0 = rows t" using p by simp
  moreover have "rows t = [] \<or> row_x (last (rows t)) = []" using normal_last_empty [OF ok_assert [OF assms(1)]] by blast
  ultimately have "\<exists>r. region_normalize r0 = Some r"
    using p ok_rows [OF assms(1)] assms(2,3) short by (intro normalize_room) (simp_all add: same_store_def)
  with r0 show ?thesis by (auto simp: region_copy_def)
qed

lemma region_op_fits:
  assumes "region_merge out A B op = Some r" "aliased \<Longrightarrow> ws_bound w \<and> \<not> ws_in_use w \<and> (\<exists>t. region_merge rgn_ws_attach A B op = Some t)"
  shows "\<exists>r. region_op w aliased out A B op = Some (w, r)"
proof (cases aliased)
  case True
  then obtain w1 where w1: "rgn_ws_acquire w = Some w1" "rgn_ws_release w1 = w" using ws_round [of w] assms(2) by blast
  obtain t where t: "region_merge rgn_ws_attach A B op = Some t" using assms(2) True by blast
  note s = region_merge_spec [OF assms(1)] and st = region_merge_spec [OF t]
  have "rows t = rows r" using pixels_determine_rows [OF st(1) s(1)] s(2) st(2) by simp
  moreover have "length (rows r) \<le> cap_rows r" "pool_used (rows r) \<le> x_pool_cap r" using s(1) by (auto simp: region_ok_def)
  ultimately have "\<exists>c. region_copy out t = Some c"
    using region_copy_room [OF st(1), of out] merge_short [OF t] s(3) by (simp add: same_store_def)
  with True w1 t show ?thesis by (auto simp: region_op_def)
qed (use assms(1) in \<open>simp add: region_op_def\<close>)

text \<open>A region that fits the working set together with one rectangle.\<close>

definition query_ready :: "rgn_ws \<Rightarrow> nat \<Rightarrow> region \<Rightarrow> bool" where
  "query_ready w k r \<longleftrightarrow> ws_bound w \<and> \<not> ws_in_use w \<and> region_ok r \<and> row_bound k r \<and>
     k + 2 \<le> RGN_ROW_X_MAX \<and> length (rows r) + 2 \<le> RGN_ROWS_CAP \<and> (k + 2) * (length (rows r) + 2) \<le> RGN_X_POOL_CAP"

lemma attach_store [simp]: "cap_rows rgn_ws_attach = RGN_ROWS_CAP" "x_pool_cap rgn_ws_attach = RGN_X_POOL_CAP"
  by (simp_all add: rgn_ws_attach_def)

lemma rect_query:
  assumes "query_ready w k r" "\<not> rect_is_empty rect"
  shows "\<exists>w1 rr df. rgn_ws_acquire w = Some w1 \<and> rgn_ws_release w1 = w \<and> region_set_rect rect_store rect = Some rr \<and>
    region_op w1 False rgn_ws_attach rr r op = Some (w1, df) \<and>
    (region_is_empty df \<longleftrightarrow> (\<forall>h v. \<not> boolfn op (in_rect rect h v) (pixel r h v)))"
proof -
  from assms(1) have q: "ws_bound w" "\<not> ws_in_use w" "region_ok r" "row_bound k r"
    "k + 2 \<le> RGN_ROW_X_MAX" "length (rows r) + 2 \<le> RGN_ROWS_CAP" "(k + 2) * (length (rows r) + 2) \<le> RGN_X_POOL_CAP"
    by (simp_all add: query_ready_def)
  obtain w1 where w1: "rgn_ws_acquire w = Some w1" "rgn_ws_release w1 = w" using ws_round [OF q(1,2)] by blast
  obtain rr where rr: "region_set_rect rect_store rect = Some rr"
    using set_rect_room [of rect_store rect] by (auto simp: rect_store_def)
  note s = set_rect_spec [OF rr] and f = set_rect_rows [OF rr assms(2)]
  obtain df where df: "region_merge rgn_ws_attach rr r op = Some df"
    using region_merge_fits [OF s(1) q(3), of 2 k rgn_ws_attach op] f q(4-7)
    by (auto simp: row_bound_def add.commute)
  note m = region_merge_spec [OF df]
  have "region_is_empty df \<longleftrightarrow> (\<forall>h v. \<not> boolfn op (in_rect rect h v) (pixel r h v))"
    by (simp add: is_empty_pixels m(1,2) s(2))
  with w1 rr df show ?thesis by (auto simp: region_op_def)
qed

lemma outside_bbox:
  assumes "region_ok r" "\<not> rect_is_empty rect"
    and "rleft rect < rleft (bbox r) \<or> rright rect > rright (bbox r) \<or> rtop rect < rtop (bbox r) \<or> rbottom rect > rbottom (bbox r)"
  shows "\<exists>h v. in_rect rect h v \<and> \<not> pixel r h v"
proof -
  have c: "in_rect rect (rleft rect) (rtop rect)" "in_rect rect (rright rect - 1) (rbottom rect - 1)"
    using assms(2) by (simp_all add: in_rect_def rect_is_empty_def)
  have "\<not> (pixel r (rleft rect) (rtop rect) \<and> pixel r (rright rect - 1) (rbottom rect - 1))"
    using pixel_in_bbox(2,4) [OF assms(1), of "rleft rect" "rtop rect"]
      pixel_in_bbox(3,5) [OF assms(1), of "rright rect - 1" "rbottom rect - 1"] assms(3) by linarith
  with c show ?thesis by blast
qed

lemma apart_bbox:
  assumes "region_ok r" "pixel r h v" "in_rect rect h v"
  shows "\<not> (rright rect \<le> rleft (bbox r) \<or> rright (bbox r) \<le> rleft rect \<or>
    rbottom rect \<le> rtop (bbox r) \<or> rbottom (bbox r) \<le> rtop rect)"
  using pixel_in_bbox [OF assms(1,2)] assms(3) by (auto simp: in_rect_def)

lemma fully_in_spec:
  assumes "query_ready w k r"
  shows "region_rect_fully_in w r rect = Some (w, \<forall>h v. in_rect rect h v \<longrightarrow> pixel r h v)"
proof (cases "rect_is_empty rect")
  case True
  then show ?thesis by (simp add: region_rect_fully_in_def in_rect_empty)
next
  case False
  have ok: "region_ok r" using assms by (simp add: query_ready_def)
  from rect_query [OF assms False, of RGN_OP_DIFF] outside_bbox [OF ok False] False show ?thesis
    by (auto simp: region_rect_fully_in_def)
qed

lemma overlaps_spec:
  assumes "query_ready w k r"
  shows "region_rect_overlaps w r rect = Some (w, \<exists>h v. in_rect rect h v \<and> pixel r h v)"
proof (cases "rect_is_empty rect \<or> region_is_empty r")
  case True
  moreover have "region_ok r" using assms by (simp add: query_ready_def)
  ultimately show ?thesis by (auto simp: region_rect_overlaps_def in_rect_empty is_empty_pixels)
next
  case False
  have ok: "region_ok r" using assms by (simp add: query_ready_def)
  show ?thesis
  proof (cases "rright rect \<le> rleft (bbox r) \<or> rright (bbox r) \<le> rleft rect \<or>
      rbottom rect \<le> rtop (bbox r) \<or> rbottom (bbox r) \<le> rtop rect")
    case True
    then have "\<not> (\<exists>h v. in_rect rect h v \<and> pixel r h v)" using apart_bbox [OF ok, of _ _ rect] by blast
    with True False show ?thesis by (simp add: region_rect_overlaps_def)
  next
    case f: False
    with False rect_query [OF assms, of rect RGN_OP_INTERSECT] show ?thesis
      by (auto simp: region_rect_overlaps_def)
  qed
qed

section \<open>Region types\<close>

lemma is_rect_pixels:
  assumes "region_ok r" "\<not> region_is_empty r"
  shows "is_rect r \<longleftrightarrow> (\<exists>rc. \<forall>h v. pixel r h v = in_rect rc h v)"
proof
  have n: "normal_rows (rows r)" "bbox r = rows_bbox (rows r)" "is_rect r = rows_is_rect (rows r) (bbox r)"
    using assms by (auto simp: region_ok_def region_is_empty_def split: if_splits)
  { assume "is_rect r"
    then obtain a b where ab: "rows r = [a, b]" "length (row_x a) = 2"
      using n(3) by (auto simp: rows_is_rect_def numeral_2_eq_2 length_Suc_conv)
    then obtain l rr where a: "row_x a = [l, rr]" by (auto simp: numeral_2_eq_2 length_Suc_conv)
    have "row_x b = []" "y_top a < y_top b" "l < rr"
      using n(1) ab(1) a by (simp_all add: normal_rows_def rows_ok_def)
    with ab(1) a have "pixel r h v = in_rect \<lparr>rtop = y_top a, rleft = l, rbottom = y_top b, rright = rr\<rparr> h v" for h v
      by (auto simp: pixel_def in_rect_def)
    then show "\<exists>rc. \<forall>h v. pixel r h v = in_rect rc h v" by blast }
  assume "\<exists>rc. \<forall>h v. pixel r h v = in_rect rc h v"
  then obtain rc where rc: "\<And>h v. pixel r h v = in_rect rc h v" by blast
  obtain q where q: "region_set_rect rect_store rc = Some q"
    using set_rect_room [of rect_store rc] by (auto simp: rect_store_def)
  note s = set_rect_spec [OF q]
  have ne: "\<not> rect_is_empty rc" using assms rc by (auto simp: in_rect_empty is_empty_pixels)
  have "rows r = rows q" using pixels_determine_rows [OF assms(1) s(1)] rc s(2) by simp
  moreover have "is_rect q = rows_is_rect (rows q) (rows_bbox (rows q))"
    using s(1) set_rect_rows [OF q ne] by (simp add: region_ok_def)
  ultimately show "is_rect r" using set_rect_rows [OF q ne] n(2,3) by simp
qed

end
