(* ===== verification/RegionProps.thy ===== *)
theory RegionProps imports RegionAlgebra begin

text \<open>The properties of the region engine, each with a concrete instance.\<close>

text \<open>Two rectangles in full-size storage, and a free working set, for the instances.\<close>

abbreviation (input) ws0 :: rgn_ws where "ws0 \<equiv> \<lparr>ws_bound = True, ws_in_use = False\<rparr>"
abbreviation (input) box :: "int \<Rightarrow> int \<Rightarrow> int \<Rightarrow> int \<Rightarrow> rgn_rect" where
  "box t l b r \<equiv> \<lparr>rtop = t, rleft = l, rbottom = b, rright = r\<rparr>"

lemma box_region:
  obtains A where "region_set_rect rgn_ws_attach (box t l b r) = Some A" "region_ok A"
    "\<And>h v. pixel A h v = in_rect (box t l b r) h v" "same_store rgn_ws_attach A"
    "length (rows A) \<le> 2" "row_bound 2 A" "0 \<le> l \<Longrightarrow> r \<le> 640 \<Longrightarrow> \<forall>q \<in> set (rows A). set (row_x q) \<subseteq> {0..640}"
proof -
  obtain A where A: "region_set_rect rgn_ws_attach (box t l b r) = Some A"
    using set_rect_room [of rgn_ws_attach] by auto
  have "length (rows A) \<le> 2 \<and> row_bound 2 A \<and> (0 \<le> l \<longrightarrow> r \<le> 640 \<longrightarrow> (\<forall>q \<in> set (rows A). set (row_x q) \<subseteq> {0..640}))"
  proof (cases "rect_is_empty (box t l b r)")
    case True
    with A show ?thesis by (auto simp: region_set_rect_def row_bound_def)
  next
    case False
    with set_rect_rows [OF A False] show ?thesis by (auto simp: row_bound_def rect_is_empty_def)
  qed
  with A set_rect_spec [OF A] that show thesis by blast
qed

lemma fits_example:
  assumes "length (rows A) \<le> 2" "length (rows B) \<le> 2" "same_store rgn_ws_attach C"
  shows "length (rows A) + length (rows B) \<le> cap_rows C \<and> (2 + 2) * (length (rows A) + length (rows B)) \<le> x_pool_cap C"
  using assms by (simp add: same_store_def)

text \<open>C4: every operation of the engine is the Boolean operation on pixel sets: a point is in the result
  exactly when the truth table of the operation says so of its membership in the two inputs; the
  result is in normal form with a tight box, whether or not the output is also an input, and the
  working set is left free.\<close>

theorem region_op_homomorphism:
  assumes "region_ok A" "region_ok B" "region_op w aliased out A B op = Some (w', r)"
  shows "region_ok r \<and> w' = w \<and> (\<forall>h v. region_contains_point r h v =
    boolfn op (region_contains_point A h v) (region_contains_point B h v))"
  using region_op_spec [OF assms(3)] assms(1,2) by (simp add: contains_point_pixel)

theorem region_op_homomorphism_witness:
  "\<exists>A B r. region_set_rect rgn_ws_attach (box 0 0 10 10) = Some A \<and>
     region_set_rect rgn_ws_attach (box 5 5 15 15) = Some B \<and>
     region_op ws0 False A A B RGN_OP_XOR = Some (ws0, r) \<and>
     region_contains_point r 2 2 \<and> \<not> region_contains_point r 7 7"
proof -
  obtain A where A: "region_set_rect rgn_ws_attach (box 0 0 10 10) = Some A" "region_ok A"
    "\<And>h v. pixel A h v = in_rect (box 0 0 10 10) h v" "same_store rgn_ws_attach A" "length (rows A) \<le> 2" "row_bound 2 A"
    by (rule box_region [of 0 0 10 10]) blast
  obtain B where B: "region_set_rect rgn_ws_attach (box 5 5 15 15) = Some B" "region_ok B"
    "\<And>h v. pixel B h v = in_rect (box 5 5 15 15) h v" "same_store rgn_ws_attach B" "length (rows B) \<le> 2" "row_bound 2 B"
    by (rule box_region [of 5 5 15 15]) blast
  obtain r where "region_merge A A B RGN_OP_XOR = Some r"
    using region_merge_fits [OF A(2) B(2) A(6) B(6), of A RGN_OP_XOR] fits_example [OF A(5) B(5) A(4)] by auto
  then have r: "region_op ws0 False A A B RGN_OP_XOR = Some (ws0, r)" by (simp add: region_op_def)
  from region_op_homomorphism [OF A(2) B(2) r] A B r show ?thesis
    by (auto simp: contains_point_pixel in_rect_def intro!: exI [of _ A] exI [of _ B] exI [of _ r])
qed

text \<open>C26: no operation on regions of the 640-column screen fails loud when the output has a row for
  each input row and a pool for the widest band times that many rows, and, where the output is one of
  the inputs, the working set is bound, free and as large: the scratch row of 640 points suffices for
  every band, and the copy back from the working set fits.\<close>

theorem region_op_succeeds:
  assumes "region_ok A" "region_ok B" "row_bound k A" "row_bound l B"
    and "\<forall>q \<in> set (rows A) \<union> set (rows B). set (row_x q) \<subseteq> {0..640}"
    and "length (rows A) + length (rows B) \<le> cap_rows out"
    and "(k + l) * (length (rows A) + length (rows B)) \<le> x_pool_cap out"
    and "aliased \<Longrightarrow> ws_bound w \<and> \<not> ws_in_use w \<and> length (rows A) + length (rows B) \<le> RGN_ROWS_CAP \<and>
      (k + l) * (length (rows A) + length (rows B)) \<le> RGN_X_POOL_CAP"
  shows "\<exists>r. region_op w aliased out A B op = Some (w, r)"
proof -
  note m = region_merge_fits [OF assms(1-4) disjI2 [OF assms(5)], of _ op]
  obtain r where "region_merge out A B op = Some r" using m [OF assms(6,7)] by blast
  then show ?thesis by (rule region_op_fits) (use m [of rgn_ws_attach] assms(8) in auto)
qed

theorem region_op_succeeds_witness:
  "\<exists>A B r q. region_set_rect rgn_ws_attach (box 0 0 10 10) = Some A \<and>
     region_set_rect rgn_ws_attach (box 5 600 15 640) = Some B \<and>
     region_op ws0 False A A B RGN_OP_UNION = Some (ws0, r) \<and> region_op ws0 True A A B RGN_OP_UNION = Some (ws0, q)"
proof -
  obtain A where A: "region_set_rect rgn_ws_attach (box 0 0 10 10) = Some A" "region_ok A"
    "same_store rgn_ws_attach A" "length (rows A) \<le> 2" "row_bound 2 A" "\<forall>q \<in> set (rows A). set (row_x q) \<subseteq> {0..640}"
    by (rule box_region [of 0 0 10 10]) auto
  obtain B where B: "region_set_rect rgn_ws_attach (box 5 600 15 640) = Some B" "region_ok B"
    "length (rows B) \<le> 2" "row_bound 2 B" "\<forall>q \<in> set (rows B). set (row_x q) \<subseteq> {0..640}"
    by (rule box_region [of 5 600 15 640]) auto
  have "\<exists>r. region_op ws0 al A A B RGN_OP_UNION = Some (ws0, r)" for al
    using A B fits_example [OF A(4) B(3) A(3)] fits_example [OF A(4) B(3), of rgn_ws_attach]
    by (intro region_op_succeeds [OF A(2) B(2) A(5) B(4)]) (auto simp: same_store_def)
  with A(1) B(1) show ?thesis by blast
qed

text \<open>C24: the normal form is canonical: the structural comparison of two regions decides whether they
  have the same pixels.\<close>

theorem region_equal_iff_pixels:
  assumes "region_ok A" "region_ok B"
  shows "region_equal A B \<longleftrightarrow> (\<forall>h v. region_contains_point A h v = region_contains_point B h v)"
  using equal_pixels [OF assms] assms by (simp add: contains_point_pixel)

theorem region_equal_iff_pixels_witness:
  "\<exists>A B. region_set_rect rgn_ws_attach (box 0 0 10 10) = Some A \<and>
     region_set_rect rgn_ws_attach (box 0 0 10 11) = Some B \<and> \<not> region_equal A B"
proof -
  obtain A where A: "region_set_rect rgn_ws_attach (box 0 0 10 10) = Some A" "region_ok A"
    "\<And>h v. pixel A h v = in_rect (box 0 0 10 10) h v" by (rule box_region [of 0 0 10 10]) blast
  obtain B where B: "region_set_rect rgn_ws_attach (box 0 0 10 11) = Some B" "region_ok B"
    "\<And>h v. pixel B h v = in_rect (box 0 0 10 11) h v" by (rule box_region [of 0 0 10 11]) blast
  have "region_contains_point A 10 0 \<noteq> region_contains_point B 10 0"
    using A B by (simp add: contains_point_pixel in_rect_def)
  with region_equal_iff_pixels [OF A(2) B(2)] A(1) B(1) show ?thesis by auto
qed

text \<open>C16: \<open>region_normalize\<close> on rows of even increasing lists with increasing tops establishes the normal
  form, keeps every pixel, and a second pass changes nothing.\<close>

theorem region_normalize_canonical:
  assumes "rows_ok (rows r)" "region_normalize r = Some r'"
  shows "region_ok r' \<and> (\<forall>h v. region_contains_point r' h v = parity (lookup [] (rows r) v) h) \<and>
    region_normalize r' = Some r'"
proof -
  note s = normalize_spec [OF assms(2,1)]
  from normalize_id [OF s(1) normalize_short [OF assms(2,1)]] s(1,2) show ?thesis
    by (simp add: contains_point_pixel pixel_def)
qed

theorem region_normalize_canonical_witness:
  "\<exists>r'. region_normalize (rgn_ws_attach\<lparr>rows := [\<lparr>y_top = 0, row_x = []\<rparr>, \<lparr>y_top = 2, row_x = [1, 4]\<rparr>,
      \<lparr>y_top = 5, row_x = [1, 4]\<rparr>, \<lparr>y_top = 6, row_x = []\<rparr>, \<lparr>y_top = 9, row_x = []\<rparr>]\<rparr>) = Some r' \<and>
    region_normalize r' = Some r' \<and> region_contains_point r' 3 5"
proof -
  let ?rs = "[\<lparr>y_top = 0, row_x = []\<rparr>, \<lparr>y_top = 2, row_x = [1, 4]\<rparr>,
      \<lparr>y_top = 5, row_x = [1, 4]\<rparr>, \<lparr>y_top = 6, row_x = []\<rparr>, \<lparr>y_top = 9, row_x = []\<rparr>]"
  let ?r = "rgn_ws_attach\<lparr>rows := ?rs\<rparr>"
  have ok: "rows_ok (rows ?r)" by (simp add: rows_ok_def)
  obtain r' where r': "region_normalize ?r = Some r'" using normalize_room [OF ok] by auto
  from region_normalize_canonical [OF ok r'] r' show ?thesis by auto
qed

text \<open>C25: \<open>region_from_rects\<close> builds the union: with storage for two rows per rectangle the call returns,
  and a point is in the result exactly when it is in one of the rectangles, however they overlap,
  touch or repeat; empty rectangles add nothing and the working set is left free.\<close>

theorem region_from_rects_union:
  assumes "\<forall>rc \<in> set rects. rect16 rc" "ws_bound w" "\<not> ws_in_use w"
    and "2 * length rects \<le> RGN_ROW_X_MAX" "2 * length rects \<le> cap_rows r" "(2 * length rects) ^ 2 \<le> x_pool_cap r"
  shows "\<exists>r'. region_from_rects w r rects = Some (w, r') \<and> region_ok r' \<and>
    (\<forall>h v. region_contains_point r' h v \<longleftrightarrow>
       (\<exists>rc \<in> set rects. rtop rc \<le> v \<and> v < rbottom rc \<and> rleft rc \<le> h \<and> h < rright rc))"
proof -
  obtain r' where r': "region_from_rects w r rects = Some (w, r')" using from_rects_room [OF assms] by blast
  from from_rects_spec [OF r' assms(1)] r' show ?thesis
    by (simp add: contains_point_pixel covered_by_def in_rect_def)
qed

theorem region_from_rects_union_witness:
  "\<exists>r. region_from_rects ws0 rgn_ws_attach [box 0 0 4 4, box 2 2 6 9, box 3 3 3 8, box 0 4 4 5] = Some (ws0, r) \<and>
     region_contains_point r 4 1 \<and> \<not> region_contains_point r 5 1 \<and> region_contains_point r 8 5"
  using region_from_rects_union [of "[box 0 0 4 4, box 2 2 6 9, box 3 3 3 8, box 0 4 4 5]" ws0 rgn_ws_attach]
  by (force simp: rect16_def)

text \<open>the containment and overlap queries decide what they name: for a region that fits the working
  set, \<open>region_rect_fully_in\<close> says whether every pixel of the rectangle is in the region and
  \<open>RectInRgn\<close>'s \<open>region_rect_overlaps\<close> whether some pixel is, empty rectangles included, and both leave
  the working set free.\<close>

theorem region_rect_queries_exact:
  assumes "query_ready w k r"
  shows "region_rect_fully_in w r rect = Some (w, \<forall>h v. in_rect rect h v \<longrightarrow> region_contains_point r h v) \<and>
    region_rect_overlaps w r rect = Some (w, \<exists>h v. in_rect rect h v \<and> region_contains_point r h v)"
  using fully_in_spec [OF assms] overlaps_spec [OF assms] assms
  by (simp_all add: query_ready_def contains_point_pixel)

theorem region_rect_queries_exact_witness:
  "\<exists>A. region_set_rect rgn_ws_attach (box 0 0 10 10) = Some A \<and>
     region_rect_fully_in ws0 A (box 5 5 15 15) = Some (ws0, False) \<and>
     region_rect_overlaps ws0 A (box 5 5 15 15) = Some (ws0, True)"
proof -
  obtain A where A: "region_set_rect rgn_ws_attach (box 0 0 10 10) = Some A" "region_ok A"
    "\<And>h v. pixel A h v = in_rect (box 0 0 10 10) h v" "length (rows A) \<le> 2" "row_bound 2 A"
    by (rule box_region [of 0 0 10 10]) blast
  have q: "query_ready ws0 2 A" using A by (simp add: query_ready_def)
  have "in_rect (box 5 5 15 15) 12 12 \<and> \<not> region_contains_point A 12 12"
    by (simp add: contains_point_pixel A(2,3) in_rect_def)
  moreover have "in_rect (box 5 5 15 15) 5 5 \<and> region_contains_point A 5 5"
    by (simp add: contains_point_pixel A(2,3) in_rect_def)
  ultimately show ?thesis using region_rect_queries_exact [OF q, of "box 5 5 15 15"] A(1) by auto
qed

lemma CombineRgn_calls:
  assumes "CombineRgn w al1 al2 (Some d) (Some s1) (Some s2) mode = Some (w', Some d', ty)"
    and "mode \<in> {RGN_AND, RGN_OR, RGN_XOR, RGN_DIFF, RGN_COPY}"
  shows "ty = region_type_classify d' \<and>
    (if mode = RGN_COPY then region_op w al1 d s1 s1 RGN_OP_UNION = Some (w', d')
     else region_op w (al1 \<or> al2) d s1 s2 (rgn_op_from_combine_mode mode) = Some (w', d'))"
proof (cases "mode = RGN_COPY")
  case True
  then show ?thesis using assms(1) by (simp add: CombineRgn_def split: bind_splits prod.splits)
next
  case False
  then have m: "(mode \<noteq> RGN_AND \<and> mode \<noteq> RGN_OR \<and> mode \<noteq> RGN_XOR \<and> mode \<noteq> RGN_DIFF) = False"
    using assms(2) by blast
  show ?thesis
    using assms(1) False unfolding CombineRgn_def prod.case option.case m
    by (simp split: bind_splits prod.splits)
qed

text \<open>\<open>CombineRgn\<close> returns the type of the region it wrote: \<open>NULLREGION\<close> exactly when the combination
  has no pixel, \<open>SIMPLEREGION\<close> exactly when its pixels are one rectangle, \<open>COMPLEXREGION\<close> otherwise;
  \<open>RGN_COPY\<close> copies the first source.\<close>

theorem CombineRgn_type:
  assumes "region_ok s1" "region_ok s2" "mode \<in> {RGN_AND, RGN_OR, RGN_XOR, RGN_DIFF, RGN_COPY}"
    and "CombineRgn w al1 al2 (Some d) (Some s1) (Some s2) mode = Some (w', Some d', ty)"
  defines "member \<equiv> \<lambda>h v. if mode = RGN_COPY then region_contains_point s1 h v
      else boolfn (rgn_op_from_combine_mode mode) (region_contains_point s1 h v) (region_contains_point s2 h v)"
  shows "(\<forall>h v. region_contains_point d' h v = member h v) \<and>
    (ty = NULLREGION \<longleftrightarrow> (\<forall>h v. \<not> member h v)) \<and>
    (ty = SIMPLEREGION \<longleftrightarrow> (\<exists>h v. member h v) \<and> (\<exists>rc. \<forall>h v. member h v = in_rect rc h v)) \<and>
    ty \<noteq> RGN_TYPE_ERROR"
proof -
  note c = CombineRgn_calls [OF assms(4,3)]
  obtain op B al where op: "region_op w al d s1 B op = Some (w', d')" "region_ok B"
    "\<And>h v. boolfn op (region_contains_point s1 h v) (region_contains_point B h v) = member h v"
  proof (cases "mode = RGN_COPY")
    case True
    with assms(1) c show thesis by (intro that [of al1 s1 RGN_OP_UNION]) (simp_all add: member_def)
  next
    case False
    with assms(2) c show thesis
      by (intro that [of "al1 \<or> al2" s2 "rgn_op_from_combine_mode mode"]) (simp_all add: member_def)
  qed
  note s = region_op_spec [OF op(1)]
  have m: "pixel d' h v = member h v" for h v
    using s(2) op(3) [of h v] by (simp add: contains_point_pixel assms(1) op(2))
  have t: "region_is_empty d' \<longleftrightarrow> (\<forall>h v. \<not> member h v)" using is_empty_pixels [OF s(1)] m by simp
  have r: "is_rect d' \<longleftrightarrow> (\<exists>rc. \<forall>h v. member h v = in_rect rc h v)" if "\<not> region_is_empty d'"
    using is_rect_pixels [OF s(1) that] m by simp
  have ty: "ty = (if region_is_empty d' then NULLREGION else if is_rect d' then SIMPLEREGION else COMPLEXREGION)"
    using c by (simp add: region_type_classify_def)
  show ?thesis
    unfolding contains_point_pixel [OF s(1)] m ty using r t by simp
qed

theorem CombineRgn_type_witness:
  "\<exists>A r. region_set_rect rgn_ws_attach (box 0 0 10 10) = Some A \<and>
     CombineRgn ws0 False False (Some rgn_ws_attach) (Some A) (Some A) RGN_OR = Some (ws0, Some r, SIMPLEREGION)"
proof -
  obtain A where A: "region_set_rect rgn_ws_attach (box 0 0 10 10) = Some A" "region_ok A"
    "\<And>h v. pixel A h v = in_rect (box 0 0 10 10) h v" "same_store rgn_ws_attach A" "length (rows A) \<le> 2" "row_bound 2 A"
    by (rule box_region [of 0 0 10 10]) blast
  obtain r where "region_merge rgn_ws_attach A A RGN_OP_UNION = Some r"
    using region_merge_fits [OF A(2) A(2) A(6) A(6), of rgn_ws_attach RGN_OP_UNION] A(5) by auto
  then obtain ty where c: "CombineRgn ws0 False False (Some rgn_ws_attach) (Some A) (Some A) RGN_OR = Some (ws0, Some r, ty)"
    by (simp add: CombineRgn_def region_op_def rgn_op_from_combine_mode_def)
  have "in_rect (box 0 0 10 10) 0 0" by (simp add: in_rect_def)
  with CombineRgn_type [OF A(2) A(2) _ c] A(3)
  have "ty = SIMPLEREGION" by (simp add: contains_point_pixel A(2) rgn_op_from_combine_mode_def) blast
  with A(1) c show ?thesis by blast
qed

text \<open>The two heritages agree on XOR: the union of the two differences, as GDI documents it, is
  structurally the region the XOR operation builds.\<close>

theorem xor_is_union_of_diffs:
  assumes "region_ok A" "region_ok B"
    and "DiffRgn w False A B out = Some (w1, p)" "DiffRgn w False B A out = Some (w2, q)"
    and "UnionRgn w False p q out = Some (w3, r)" "XorRgn w False A B out = Some (w4, s)"
  shows "region_equal r s"
  using rgn.xor_decompose [of A B w False out p q r s] assms
  by (simp add: DiffRgn_def UnionRgn_def XorRgn_def)

theorem xor_is_union_of_diffs_witness:
  "\<exists>A p r s. region_set_rect rgn_ws_attach (box 0 0 10 10) = Some A \<and>
     DiffRgn ws0 False A A rgn_ws_attach = Some (ws0, p) \<and> UnionRgn ws0 False p p rgn_ws_attach = Some (ws0, r) \<and>
     XorRgn ws0 False A A rgn_ws_attach = Some (ws0, s) \<and> region_equal r s"
proof -
  obtain A where A: "region_set_rect rgn_ws_attach (box 0 0 10 10) = Some A" "region_ok A"
    "length (rows A) \<le> 2" "row_bound 2 A" by (rule box_region [of 0 0 10 10]) blast
  have ex: "\<exists>r. region_merge rgn_ws_attach A A op = Some r" for op
    using region_merge_fits [OF A(2) A(2) A(4) A(4), of rgn_ws_attach op] A(3) by auto
  obtain p where p: "region_merge rgn_ws_attach A A RGN_OP_DIFF = Some p" using ex by blast
  obtain s where s: "region_merge rgn_ws_attach A A RGN_OP_XOR = Some s" using ex by blast
  note sp = region_merge_spec [OF p]
  have "rows p = []" using is_empty_pixels [OF sp(1)] sp(2) ok_empty [OF sp(1)] by (auto simp: region_is_empty_def)
  then obtain r where r: "region_merge rgn_ws_attach p p RGN_OP_UNION = Some r"
    using region_merge_cases [OF ok_assert [OF sp(1)] ok_assert [OF sp(1)]] by simp
  have calls: "DiffRgn ws0 False A A rgn_ws_attach = Some (ws0, p)" "UnionRgn ws0 False p p rgn_ws_attach = Some (ws0, r)"
    "XorRgn ws0 False A A rgn_ws_attach = Some (ws0, s)"
    using p r s by (simp_all add: DiffRgn_def UnionRgn_def XorRgn_def region_op_def)
  from xor_is_union_of_diffs [OF A(2) A(2) calls(1,1,2,3)] A(1) calls show ?thesis by blast
qed

text \<open>\<open>region_complement\<close> is the exclusive or with the frame, so it is the part of the frame outside
  the region exactly when the region lies inside the frame.\<close>

theorem region_complement_frame:
  assumes "region_ok A" "region_complement w aliased out A frame = Some (w', r)"
  shows "(\<forall>h v. region_contains_point r h v = (in_rect frame h v \<and> \<not> region_contains_point A h v)) \<longleftrightarrow>
    (\<forall>h v. region_contains_point A h v \<longrightarrow> in_rect frame h v)"
proof -
  obtain fr where fr: "region_set_rect rect_store frame = Some fr" "region_op w aliased out fr A RGN_OP_XOR = Some (w', r)"
    using assms(2) by (auto simp: region_complement_def split: bind_splits)
  note f = set_rect_spec [OF fr(1)] and s = region_op_spec [OF fr(2)]
  have "region_contains_point r h v = (in_rect frame h v \<noteq> region_contains_point A h v)" for h v
    by (simp add: contains_point_pixel assms(1) s(1,2) f(2))
  then show ?thesis by auto
qed

theorem region_complement_frame_witness:
  "\<exists>A r. region_set_rect rgn_ws_attach (box 0 0 10 10) = Some A \<and>
     region_complement ws0 False rgn_ws_attach A (box 0 0 5 10) = Some (ws0, r) \<and>
     \<not> (\<forall>h v. region_contains_point r h v = (in_rect (box 0 0 5 10) h v \<and> \<not> region_contains_point A h v))"
proof -
  obtain A where A: "region_set_rect rgn_ws_attach (box 0 0 10 10) = Some A" "region_ok A"
    "\<And>h v. pixel A h v = in_rect (box 0 0 10 10) h v" "length (rows A) \<le> 2" "row_bound 2 A"
    by (rule box_region [of 0 0 10 10]) blast
  have q: "query_ready ws0 2 A" using A by (simp add: query_ready_def)
  obtain fr where fr: "region_set_rect rect_store (box 0 0 5 10) = Some fr"
    using set_rect_room [of rect_store] by (auto simp: rect_store_def)
  have ne: "\<not> rect_is_empty (box 0 0 5 10)" by (simp add: rect_is_empty_def)
  from set_rect_rows [OF fr ne] set_rect_spec(1) [OF fr] obtain r where "region_merge rgn_ws_attach fr A RGN_OP_XOR = Some r"
    using region_merge_fits [OF _ A(2) _ A(5), of fr 2 rgn_ws_attach RGN_OP_XOR] A(4) by (auto simp: row_bound_def)
  with fr have r: "region_complement ws0 False rgn_ws_attach A (box 0 0 5 10) = Some (ws0, r)"
    by (simp add: region_complement_def region_op_def)
  have "region_contains_point A 0 7 \<and> \<not> in_rect (box 0 0 5 10) 0 7"
    by (simp add: contains_point_pixel A(2,3) in_rect_def)
  with region_complement_frame [OF A(2) r] A(1) r show ?thesis by blast
qed

text \<open>One band never needs more points than its inputs have distinct columns, and never more than
  the 640 of the scratch row when the inputs stay on the 640-column screen.\<close>

theorem xmerge_band_bound:
  assumes "row_list a" "row_list b" "xmerge cap op a b = Some zs"
  shows "row_list zs \<and> length zs \<le> card (set a \<union> set b) \<and>
    (set a \<union> set b \<subseteq> {0..640} \<longrightarrow> xmerge RGN_ROW_X_MAX op a b = Some zs)"
proof (intro conjI impI)
  show "row_list zs" "length zs \<le> card (set a \<union> set b)" using xmerge_length [OF assms(3,1,2)] by simp_all
  assume "set a \<union> set b \<subseteq> {0..640}"
  from xmerge_domain [OF assms(1,2) this, of op] obtain ys where ys: "xmerge RGN_ROW_X_MAX op a b = Some ys" by blast
  let ?m = "max (length ys) (length zs)"
  from xmerge_recap [OF ys, of ?m] xmerge_recap [OF assms(3), of ?m] ys show "xmerge RGN_ROW_X_MAX op a b = Some zs"
    by simp
qed

theorem xmerge_band_bound_witness:
  "xmerge RGN_ROW_X_MAX RGN_OP_XOR [0, 10] [10, 640] = Some [0, 640] \<and>
     length [0::int, 640] \<le> card (set [0::int, 10] \<union> set [10, 640])"
proof -
  have "row_list [0, 10]" "row_list [10, 640]" "xmerge 2 RGN_OP_XOR [0, 10] [10, 640] = Some [0, 640]"
    by (simp_all add: row_list_def xmerge_def xmerge_emit_def)
  from xmerge_band_bound [OF this] show ?thesis by auto
qed

end
