(* ===== verification/Piece.thy ===== *)
theory Piece imports Prelude begin

text \<open>
  InitechWord's piece table, \<open>os/iword/core/piece.c\<close>: the document is the concatenation of pieces,
  each a span of the original buffer or of the append-only add buffer.

  \<open>uint32_t\<close> values are \<open>nat\<close> with \<open>wrap32\<close> on the sums that the C text does not guard. Bit 31 of
  \<open>off\<close> marks a piece of the add buffer. \<open>d->pc[0 .. npc)\<close> is the list \<open>pcs\<close>, so \<open>pmove\<close>, which
  opens or closes a gap in the array, is \<open>take\<close>, \<open>drop\<close> and append. A C pointer to the bytes of a
  piece is the buffer with an index. \<open>pcs d ! i\<close> is only reached with \<open>i\<close> inside the list when the
  piece lengths sum to \<open>doc_len\<close>, the invariant the properties are stated under.
\<close>

section \<open>Data\<close>

datatype iw_rc = IW_OK | IW_E_FULL | IW_E_RANGE

abbreviation (input) IW_PIECE_ADD :: nat where "IW_PIECE_ADD \<equiv> 0x80000000"

record iw_piece =
  p_off :: nat
  p_len :: nat

record iw_doc =
  orig :: "u8 list"
  orig_len :: nat
  add_buf :: "u8 list"
  add_len :: nat
  add_cap :: nat
  pcs :: "iw_piece list"
  pc_cap :: nat
  doc_len :: nat
  max_len :: nat

text \<open>\<open>p->off & IW_PIECE_ADD\<close> and \<open>p->off & ~IW_PIECE_ADD\<close> of a 32-bit value.\<close>

definition in_add :: "iw_piece \<Rightarrow> bool" where
  "in_add p \<longleftrightarrow> p_off p AND IW_PIECE_ADD \<noteq> 0"

definition add_off :: "iw_piece \<Rightarrow> nat" where
  "add_off p = p_off p mod IW_PIECE_ADD"

definition pbytes :: "iw_doc \<Rightarrow> iw_piece \<Rightarrow> u8 list \<times> nat" where
  "pbytes d p = (if in_add p then (add_buf d, add_off p) else (orig d, p_off p))"

section \<open>Operations\<close>

definition iw_doc_init :: "u8 list \<Rightarrow> nat \<Rightarrow> nat \<Rightarrow> nat \<Rightarrow> iw_doc" where
  "iw_doc_init add cap pcap mx = \<lparr>orig = add, orig_len = 0, add_buf = add, add_len = 0, add_cap = cap,
     pcs = [], pc_cap = pcap, doc_len = 0, max_len = mx\<rparr>"

definition iw_doc_load :: "iw_doc \<Rightarrow> u8 list \<Rightarrow> nat \<Rightarrow> iw_doc" where
  "iw_doc_load d bytes n =
     (let d' = d\<lparr>orig := bytes, orig_len := n, add_len := 0, pcs := [], doc_len := n\<rparr>
      in if n \<noteq> 0 \<and> pc_cap d \<noteq> 0 then d'\<lparr>pcs := [\<lparr>p_off = 0, p_len = n\<rparr>]\<rparr> else d')"

fun locate :: "iw_piece list \<Rightarrow> nat \<Rightarrow> nat \<times> nat" where
  "locate [] pos = (0, pos)"
| "locate (p # ps) pos =
     (if pos \<ge> p_len p then (case locate ps (pos - p_len p) of (i, off) \<Rightarrow> (Suc i, off)) else (0, pos))"

definition iw_doc_insert :: "iw_doc \<Rightarrow> nat \<Rightarrow> u8 list \<Rightarrow> iw_doc \<times> iw_rc" where
  "iw_doc_insert d pos s =
     (let n = length s in
      if pos > doc_len d then (d, IW_E_RANGE)
      else if n = 0 then (d, IW_OK)
      else if wrap32 (doc_len d + n) > max_len d \<or> wrap32 (add_len d + n) > add_cap d then (d, IW_E_FULL)
      else let a = add_len d;
               d' = d\<lparr>add_buf := splice (add_buf d) a s, add_len := a + n, doc_len := doc_len d + n\<rparr>;
               new = \<lparr>p_off = IW_PIECE_ADD OR a, p_len = n\<rparr>
           in case locate (pcs d) pos of (pi, po) \<Rightarrow>
        let p = pcs d ! (pi - 1) in
        if po = 0 \<and> pi > 0 \<and> in_add p \<and> wrap32 (add_off p + p_len p) = a
        then (d'\<lparr>pcs := (pcs d)[pi - 1 := p\<lparr>p_len := p_len p + n\<rparr>]\<rparr>, IW_OK)
        else if po = 0 then
          if length (pcs d) + 1 > pc_cap d then (d, IW_E_FULL)
          else (d'\<lparr>pcs := take pi (pcs d) @ [new] @ drop pi (pcs d)\<rparr>, IW_OK)
        else let left = pcs d ! pi in
          if length (pcs d) + 2 > pc_cap d then (d, IW_E_FULL)
          else (d'\<lparr>pcs := take pi (pcs d) @
                   [left\<lparr>p_len := po\<rparr>, new, \<lparr>p_off = wrap32 (p_off left + po), p_len = p_len left - po\<rparr>] @
                   drop (pi + 1) (pcs d)\<rparr>, IW_OK))"

text \<open>The loop over whole pieces: how many it passes and the bytes left to delete.\<close>

fun whole_pieces :: "iw_piece list \<Rightarrow> nat \<Rightarrow> nat \<times> nat" where
  "whole_pieces [] n = (0, n)"
| "whole_pieces (p # ps) n =
     (if n > 0 \<and> p_len p \<le> n then (case whole_pieces ps (n - p_len p) of (k, m) \<Rightarrow> (Suc k, m)) else (0, n))"

text \<open>The rest of a deletion, from piece \<open>first\<close> on: whole pieces, then the head of the next one.\<close>

definition delete_rest :: "iw_doc \<Rightarrow> nat \<Rightarrow> nat \<Rightarrow> iw_doc" where
  "delete_rest d first n = (case whole_pieces (drop first (pcs d)) n of (k, m) \<Rightarrow>
     let q = pcs d ! (first + k);
         pcs2 = (if m > 0 then (pcs d)[first + k := \<lparr>p_off = wrap32 (p_off q + m), p_len = p_len q - m\<rparr>]
                 else pcs d)
     in d\<lparr>pcs := take first pcs2 @ drop (first + k) pcs2, doc_len := doc_len d - (n - m) - m\<rparr>)"

definition iw_doc_delete :: "iw_doc \<Rightarrow> nat \<Rightarrow> nat \<Rightarrow> iw_doc \<times> iw_rc" where
  "iw_doc_delete d pos n =
     (if pos > doc_len d \<or> n > doc_len d - pos then (d, IW_E_RANGE)
      else if n = 0 then (d, IW_OK)
      else case locate (pcs d) pos of (pi, po) \<Rightarrow>
        let p = pcs d ! pi in
        if po > 0 \<and> po + n < p_len p then
          if length (pcs d) + 1 > pc_cap d then (d, IW_E_FULL)
          else (d\<lparr>pcs := take pi (pcs d) @
                    [p\<lparr>p_len := po\<rparr>, \<lparr>p_off = wrap32 (p_off p + po + n), p_len = p_len p - po - n\<rparr>] @
                    drop (pi + 1) (pcs d), doc_len := doc_len d - n\<rparr>, IW_OK)
        else if po > 0 then
          (delete_rest (d\<lparr>pcs := (pcs d)[pi := p\<lparr>p_len := po\<rparr>], doc_len := doc_len d - (p_len p - po)\<rparr>)
             (pi + 1) (n - (p_len p - po)), IW_OK)
        else (delete_rest d pi n, IW_OK))"

definition piece_byte :: "iw_doc \<Rightarrow> iw_piece \<Rightarrow> nat \<Rightarrow> u8" where
  "piece_byte d p i = (case pbytes d p of (buf, start) \<Rightarrow> buf ! (start + i))"

definition iw_doc_set :: "iw_doc \<Rightarrow> nat \<Rightarrow> u8 \<Rightarrow> iw_doc \<times> iw_rc" where
  "iw_doc_set d pos b =
     (if pos \<ge> doc_len d then (d, IW_E_RANGE)
      else case locate (pcs d) pos of (pi, po) \<Rightarrow>
        let p = pcs d ! pi in
        if piece_byte d p po = b then (d, IW_OK)
        else if in_add p then (d\<lparr>add_buf := (add_buf d)[add_off p + po := b]\<rparr>, IW_OK)
        else if pc_cap d < length (pcs d) + 3 \<or> add_len d + 1 > add_cap d then (d, IW_E_FULL)
        else case iw_doc_delete d pos 1 of (d', rc) \<Rightarrow>
          if rc = IW_OK then iw_doc_insert d' pos [b] else (d', rc))"

text \<open>\<open>None\<close> is the \<open>-1\<close> past the end.\<close>

definition iw_doc_byte :: "iw_doc \<Rightarrow> nat \<Rightarrow> u8 option" where
  "iw_doc_byte d pos =
     (if pos \<ge> doc_len d then None
      else case locate (pcs d) pos of (pi, po) \<Rightarrow> Some (piece_byte d (pcs d ! pi) po))"

fun read_loop :: "iw_doc \<Rightarrow> iw_piece list \<Rightarrow> nat \<Rightarrow> nat \<Rightarrow> u8 list" where
  "read_loop d [] po n = []"
| "read_loop d (p # ps) po n =
     (if n = 0 then []
      else let k = min (p_len p - po) n in
        (case pbytes d p of (buf, start) \<Rightarrow> window buf (start + po) k) @ read_loop d ps 0 (n - k))"

definition iw_doc_read :: "iw_doc \<Rightarrow> nat \<Rightarrow> nat \<Rightarrow> u8 list" where
  "iw_doc_read d pos n =
     (if pos \<ge> doc_len d then []
      else let n' = (if n > doc_len d - pos then doc_len d - pos else n)
           in case locate (pcs d) pos of (pi, po) \<Rightarrow> read_loop d (drop pi (pcs d)) po n')"

section \<open>The sequential reader\<close>

record iw_iter =
  it_pi :: nat
  it_po :: nat
  it_pos :: nat

definition iw_iter_at :: "iw_doc \<Rightarrow> nat \<Rightarrow> iw_iter" where
  "iw_iter_at d pos =
     (let pos' = (if pos > doc_len d then doc_len d else pos)
      in case locate (pcs d) pos' of (pi, po) \<Rightarrow> \<lparr>it_pi = pi, it_po = po, it_pos = pos'\<rparr>)"

function skip_spent :: "iw_piece list \<Rightarrow> nat \<Rightarrow> nat \<Rightarrow> nat \<times> nat" where
  "skip_spent ps pi po =
     (if pi < length ps \<and> po \<ge> p_len (ps ! pi) then skip_spent ps (pi + 1) 0 else (pi, po))"
  by pat_completeness auto
termination
  by (relation "measure (\<lambda>(ps, pi, po). length ps - pi)") auto

definition iw_iter_next :: "iw_doc \<Rightarrow> iw_iter \<Rightarrow> iw_iter \<times> u8 option" where
  "iw_iter_next d it =
     (case skip_spent (pcs d) (it_pi it) (it_po it) of (pi, po) \<Rightarrow>
        if pi \<ge> length (pcs d) then (it\<lparr>it_pi := pi, it_po := po\<rparr>, None)
        else (it\<lparr>it_pi := pi, it_po := po + 1, it_pos := it_pos it + 1\<rparr>,
              Some (piece_byte d (pcs d ! pi) po)))"

section \<open>Units\<close>

definition is_single :: "u8 \<Rightarrow> bool" where
  "is_single b \<longleftrightarrow> b = 0x0A \<or> b = 0x0D \<or> b = 0x0C \<or> b = 0xA0 \<or> b = 0x83 \<or> b = 0x90"

definition FIXED_LEN :: "nat list" where
  "FIXED_LEN = [4, 9, 11, 3, 3, 0, 6, 0, 0, 0, 0, 0, 0, 0, 0, 0]"

definition fixed_len :: "u8 \<Rightarrow> nat" where
  "fixed_len c = FIXED_LEN ! (unat c - 0xC0)"

definition le16 :: "u8 \<Rightarrow> u8 \<Rightarrow> nat" where
  "le16 lo hi = unat lo OR push_bit 8 (unat hi)"

definition iw_unit_len :: "u8 list \<Rightarrow> nat \<Rightarrow> nat \<Rightarrow> nat" where
  "iw_unit_len b n pos =
     (if pos \<ge> n then 0
      else let c = b ! pos in
        if 0x20 \<le> c \<and> c \<le> 0x7F then 1
        else if c < 0xC0 then (if is_single c then 1 else 0)
        else if c \<le> 0xCF then
          let L = fixed_len c in
          if L = 0 \<or> n - pos < L \<or> b ! (pos + L - 1) \<noteq> c then 0 else L
        else if n - pos < 4 + 4 then 0
        else let size = le16 (b ! (pos + 2)) (b ! (pos + 3)) in
          if size < 4 then 0
          else let total = 4 + size in
            if n - pos < total then 0
            else if b ! (pos + total - 1) \<noteq> c \<or> b ! (pos + total - 2) \<noteq> b ! (pos + 1) \<or>
                    b ! (pos + total - 4) \<noteq> b ! (pos + 2) \<or> b ! (pos + total - 3) \<noteq> b ! (pos + 3) then 0
            else total)"

text \<open>A length read from a document whose group runs past its end takes \<open>-1\<close>, all bits set, for the
  missing bytes.\<close>

definition byte_bits :: "u8 option \<Rightarrow> u32" where
  "byte_bits b = (case b of None \<Rightarrow> -1 | Some v \<Rightarrow> ucast v)"

definition group_total :: "u8 option \<Rightarrow> u8 option \<Rightarrow> nat" where
  "group_total lo hi = unat (4 + (byte_bits lo OR push_bit 8 (byte_bits hi)))"

definition unit_len_doc :: "iw_doc \<Rightarrow> nat \<Rightarrow> nat" where
  "unit_len_doc d pos = (case iw_doc_byte d pos of
     None \<Rightarrow> 0
   | Some c \<Rightarrow>
       if 0xC0 \<le> c \<and> c \<le> 0xCF then fixed_len c
       else if 0xD0 \<le> c then group_total (iw_doc_byte d (pos + 2)) (iw_doc_byte d (pos + 3))
       else 1)"

datatype iw_kind = IW_U_TEXT | IW_U_HRT | IW_U_SRT | IW_U_HPG | IW_U_HSPACE | IW_U_CODE | IW_U_TAB
  | IW_U_INDENT | IW_U_HIDDEN | IW_U_DSRT | IW_U_LEAD

definition iw_unit_kind :: "iw_doc \<Rightarrow> nat \<Rightarrow> iw_kind" where
  "iw_unit_kind d pos = (case iw_doc_byte d pos of
     None \<Rightarrow> IW_U_CODE
   | Some c \<Rightarrow>
       if 0x20 \<le> c \<and> c \<le> 0x7F then IW_U_TEXT
       else if c = 0x0A then IW_U_HRT
       else if c = 0x0D then IW_U_SRT
       else if c = 0x0C then IW_U_HPG
       else if c = 0xA0 then IW_U_HSPACE
       else if c = 0xC1 \<and> iw_doc_byte d (pos + 1) = Some 0x02 then IW_U_TAB
       else if c = 0xC2 then IW_U_INDENT
       else if c = 0xC6 then IW_U_HIDDEN
       else if c = 0xD4 \<and> iw_doc_byte d (pos + 1) = Some 0x00 then IW_U_HIDDEN
       else if c = 0x90 then IW_U_DSRT
       else if c = 0xD4 \<and> iw_doc_byte d (pos + 1) = Some 0x05 then IW_U_LEAD
       else IW_U_CODE)"

definition iw_unit_next :: "iw_doc \<Rightarrow> nat \<Rightarrow> nat" where
  "iw_unit_next d pos =
     (if pos \<ge> doc_len d then doc_len d
      else let n = unit_len_doc d pos in
        if n = 0 \<or> n > doc_len d - pos then doc_len d else pos + n)"

text \<open>The byte \<open>k\<close> before \<open>pos\<close>; a position below zero wraps past the end.\<close>

definition byte_back :: "iw_doc \<Rightarrow> nat \<Rightarrow> nat \<Rightarrow> u8 option" where
  "byte_back d pos k = (if pos < k then None else iw_doc_byte d (pos - k))"

definition iw_unit_prev :: "iw_doc \<Rightarrow> nat \<Rightarrow> nat" where
  "iw_unit_prev d pos0 =
     (if pos0 = 0 then 0
      else let pos = (if pos0 > doc_len d then doc_len d else pos0) in
        case iw_doc_byte d (pos - 1) of
          None \<Rightarrow> pos - 1
        | Some c \<Rightarrow>
            if 0xC0 \<le> c \<and> c \<le> 0xCF then
              (let L = fixed_len c in if L \<noteq> 0 \<and> L \<le> pos then pos - L else 0)
            else if 0xD0 \<le> c then
              (let total = group_total (byte_back d pos 4) (byte_back d pos 3)
               in if total \<le> pos then pos - total else 0)
            else pos - 1)"

lemma iw_unit_next_after: "pos < doc_len d \<Longrightarrow> pos < iw_unit_next d pos \<and> iw_unit_next d pos \<le> doc_len d"
  by (auto simp: iw_unit_next_def Let_def)

function boundary_walk :: "iw_doc \<Rightarrow> nat \<Rightarrow> nat \<Rightarrow> bool" where
  "boundary_walk d pos p = (if p < pos \<and> pos \<le> doc_len d then boundary_walk d pos (iw_unit_next d p) else p = pos)"
  by pat_completeness auto
termination
proof (relation "measure (\<lambda>(d, pos, p). pos - p)", goal_cases)
  case (2 d pos p)
  then have "p < iw_unit_next d p" using iw_unit_next_after [of p d] by simp
  with 2 show ?case by (simp add: diff_less_mono2)
qed simp

definition iw_is_boundary :: "iw_doc \<Rightarrow> nat \<Rightarrow> bool" where
  "iw_is_boundary d pos = (if pos > doc_len d then False else boundary_walk d pos 0)"

declare skip_spent.simps [simp del] boundary_walk.simps [simp del]

end
