(* ===== verification/PieceSpec.thy ===== *)
theory PieceSpec imports Piece begin

text \<open>
  The piece table as a byte list: \<open>doc_text\<close> concatenates the pieces, \<open>doc_ok\<close> is the invariant (spans
  inside their buffer, lengths that add up, no byte of the add buffer shared by two pieces), and
  each operation is the list operation on \<open>doc_text\<close>.
\<close>

section \<open>Invariant and abstraction\<close>

definition span_ok :: "iw_doc \<Rightarrow> iw_piece \<Rightarrow> bool" where
  "span_ok d p \<longleftrightarrow> 0 < p_len p \<and> p_off p < 0x100000000 \<and>
     (if in_add p then add_off p + p_len p \<le> add_len d else p_off p + p_len p \<le> orig_len d)"

definition apart :: "iw_piece \<Rightarrow> iw_piece \<Rightarrow> bool" where
  "apart p q \<longleftrightarrow> in_add p \<longrightarrow> in_add q \<longrightarrow> add_off p + p_len p \<le> add_off q \<or> add_off q + p_len q \<le> add_off p"

definition total :: "iw_piece list \<Rightarrow> nat" where
  "total ps = sum_list (map p_len ps)"

definition doc_ok :: "iw_doc \<Rightarrow> bool" where
  "doc_ok d \<longleftrightarrow> orig_len d \<le> length (orig d) \<and> orig_len d < IW_PIECE_ADD \<and>
     add_len d \<le> add_cap d \<and> add_cap d \<le> length (add_buf d) \<and> add_cap d < IW_PIECE_ADD \<and>
     (\<forall>p \<in> set (pcs d). span_ok d p) \<and> sorted_wrt apart (pcs d) \<and> doc_len d = total (pcs d) \<and>
     length (pcs d) \<le> pc_cap d"

definition piece_bytes :: "iw_doc \<Rightarrow> iw_piece \<Rightarrow> u8 list" where
  "piece_bytes d p = (case pbytes d p of (buf, start) \<Rightarrow> window buf start (p_len p))"

definition doc_text :: "iw_doc \<Rightarrow> u8 list" where
  "doc_text d = concat (map (piece_bytes d) (pcs d))"

lemma total_simps [simp]:
  "total [] = 0" "total (p # ps) = p_len p + total ps" "total (ps @ qs) = total ps + total qs"
  by (simp_all add: total_def)

lemma and_add_bit: "(n AND IW_PIECE_ADD \<noteq> 0) = odd (n div IW_PIECE_ADD)"
proof -
  have "(n AND push_bit 31 1 \<noteq> 0) = bit n 31" by (simp only: bit_iff_and_push_bit_not_eq_0)
  then show ?thesis by (simp add: bit_iff_odd)
qed

lemma in_add_iff: "p_off p < 0x100000000 \<Longrightarrow> in_add p \<longleftrightarrow> IW_PIECE_ADD \<le> p_off p"
proof -
  assume "p_off p < 0x100000000"
  then have "p_off p div IW_PIECE_ADD = (if IW_PIECE_ADD \<le> p_off p then 1 else 0)"
    by (auto intro!: div_nat_eqI)
  then show ?thesis unfolding in_add_def and_add_bit by simp
qed

lemma add_flag:
  assumes "a < IW_PIECE_ADD"
  shows "IW_PIECE_ADD OR a = IW_PIECE_ADD + a"
proof -
  have "a AND IW_PIECE_ADD = 0" using and_add_bit [of a] assms by simp
  then show ?thesis using disjunctive_add_eq_or [of IW_PIECE_ADD a] by (simp add: and.commute)
qed

lemma new_piece:
  assumes "a < IW_PIECE_ADD"
  shows "in_add \<lparr>p_off = IW_PIECE_ADD OR a, p_len = n\<rparr>" "add_off \<lparr>p_off = IW_PIECE_ADD OR a, p_len = n\<rparr> = a"
    "p_off \<lparr>p_off = IW_PIECE_ADD OR a, p_len = n\<rparr> < 0x100000000"
  using assms by (simp_all add: add_flag add_off_def in_add_iff)

text \<open>The right part of a piece cut at \<open>k\<close>.\<close>

definition tail_piece :: "iw_piece \<Rightarrow> nat \<Rightarrow> nat \<Rightarrow> iw_piece" where
  "tail_piece p k l = \<lparr>p_off = wrap32 (p_off p + k), p_len = l\<rparr>"

lemma tail_piece_off:
  assumes "span_ok d p" "doc_ok d" "k < p_len p"
  shows "in_add (tail_piece p k l) = in_add p" "in_add p \<Longrightarrow> add_off (tail_piece p k l) = add_off p + k"
    "\<not> in_add p \<Longrightarrow> p_off (tail_piece p k l) = p_off p + k" "p_off (tail_piece p k l) < 0x100000000"
proof -
  have off: "p_off p < 0x100000000" using assms(1) by (simp add: span_ok_def)
  have i: "in_add p \<longleftrightarrow> IW_PIECE_ADD \<le> p_off p" using in_add_iff [OF off] .
  have "p_off p + k < 0x100000000 \<and> (in_add p \<longleftrightarrow> IW_PIECE_ADD \<le> p_off p + k) \<and>
      (in_add p \<longrightarrow> (p_off p + k) mod IW_PIECE_ADD = p_off p mod IW_PIECE_ADD + k)"
  proof (cases "in_add p")
    case True
    then obtain m where m: "p_off p = IW_PIECE_ADD + m" using i le_Suc_ex by blast
    with off have "m < IW_PIECE_ADD" by simp
    with m True assms have "m + k < IW_PIECE_ADD"
      by (simp add: span_ok_def doc_ok_def add_off_def)
    with m True \<open>m < IW_PIECE_ADD\<close> show ?thesis by (simp add: add.assoc)
  next
    case False
    with assms have "p_off p + k < IW_PIECE_ADD" by (simp add: span_ok_def doc_ok_def)
    with False show ?thesis by simp
  qed
  then show "in_add (tail_piece p k l) = in_add p" "in_add p \<Longrightarrow> add_off (tail_piece p k l) = add_off p + k"
    "\<not> in_add p \<Longrightarrow> p_off (tail_piece p k l) = p_off p + k" "p_off (tail_piece p k l) < 0x100000000"
    by (simp_all add: in_add_iff tail_piece_def add_off_def)
qed

lemma in_add_len [simp]: "in_add (p\<lparr>p_len := n\<rparr>) = in_add p" "add_off (p\<lparr>p_len := n\<rparr>) = add_off p"
  by (simp_all add: in_add_def add_off_def)

lemma piece_bytes_length: "span_ok d p \<Longrightarrow> doc_ok d \<Longrightarrow> length (piece_bytes d p) = p_len p"
  by (auto simp: piece_bytes_def pbytes_def span_ok_def doc_ok_def)

text \<open>Cutting a piece in two cuts its bytes.\<close>

lemma cut_piece:
  assumes "span_ok d p" "doc_ok d" "0 < k" "k < p_len p"
  shows "span_ok d (p\<lparr>p_len := k\<rparr>)" "span_ok d (tail_piece p k (p_len p - k))"
    "piece_bytes d (p\<lparr>p_len := k\<rparr>) = take k (piece_bytes d p)"
    "piece_bytes d (tail_piece p k (p_len p - k)) = drop k (piece_bytes d p)"
proof -
  note t = tail_piece_off [OF assms(1,2,4), where l = "p_len p - k"]
  have pl: "p_len (tail_piece p k (p_len p - k)) = p_len p - k" by (simp add: tail_piece_def)
  show "span_ok d (p\<lparr>p_len := k\<rparr>)" using assms by (auto simp: span_ok_def)
  show "span_ok d (tail_piece p k (p_len p - k))"
    using assms t pl by (cases "in_add p") (auto simp: span_ok_def)
  show "piece_bytes d (p\<lparr>p_len := k\<rparr>) = take k (piece_bytes d p)"
    using assms(4) by (cases "in_add p") (simp_all add: piece_bytes_def pbytes_def take_window)
  show "piece_bytes d (tail_piece p k (p_len p - k)) = drop k (piece_bytes d p)"
    using t pl by (cases "in_add p") (simp_all add: piece_bytes_def pbytes_def drop_window)
qed

lemma length_doc_text:
  assumes "doc_ok d"
  shows "length (doc_text d) = doc_len d"
proof -
  have "(\<And>p. p \<in> set ps \<Longrightarrow> span_ok d p) \<Longrightarrow> length (concat (map (piece_bytes d) ps)) = total ps" for ps
    using assms by (induction ps) (auto simp: piece_bytes_length)
  with assms show ?thesis by (simp add: doc_text_def doc_ok_def)
qed

section \<open>Finding a position\<close>

lemma locate_split:
  assumes "locate ps pos = (pi, po)" "pos \<le> total ps"
  shows "pi \<le> length ps" "pos = total (take pi ps) + po"
    "pi < length ps \<Longrightarrow> po < p_len (ps ! pi)" "pi = length ps \<Longrightarrow> po = 0"
proof -
  have "pi \<le> length ps \<and> pos = total (take pi ps) + po \<and> (pi < length ps \<longrightarrow> po < p_len (ps ! pi)) \<and>
      (pi = length ps \<longrightarrow> po = 0)"
    using assms
  proof (induction ps pos arbitrary: pi po rule: locate.induct)
    case (2 p ps pos)
    show ?case
    proof (cases "p_len p \<le> pos")
      case True
      then obtain i where i: "locate ps (pos - p_len p) = (i, po)" "pi = Suc i"
        using "2.prems"(1) by (auto split: prod.splits)
      have "pos - p_len p \<le> total ps" using "2.prems"(2) by simp
      from "2.IH" [OF True i(1) this] True i(2) show ?thesis by auto
    qed (use "2.prems" in auto)
  qed auto
  then show "pi \<le> length ps" "pos = total (take pi ps) + po"
    "pi < length ps \<Longrightarrow> po < p_len (ps ! pi)" "pi = length ps \<Longrightarrow> po = 0" by blast+
qed

text \<open>The document around a position: the pieces before it, and the piece it falls in.\<close>

lemma locate_cases:
  assumes "doc_ok d" "pos \<le> doc_len d" "locate (pcs d) pos = (pi, po)"
  obtains (between) ps qs where "pcs d = ps @ qs" "pi = length ps" "po = 0"
      "take pos (doc_text d) = concat (map (piece_bytes d) ps)"
      "drop pos (doc_text d) = concat (map (piece_bytes d) qs)"
  | (inside) ps p qs where "pcs d = ps @ p # qs" "pi = length ps" "0 < po" "po < p_len p"
      "take pos (doc_text d) = concat (map (piece_bytes d) ps) @ take po (piece_bytes d p)"
      "drop pos (doc_text d) = drop po (piece_bytes d p) @ concat (map (piece_bytes d) qs)"
proof -
  have so: "\<forall>p \<in> set (pcs d). span_ok d p" using assms(1) by (simp add: doc_ok_def)
  have len: "length (concat (map (piece_bytes d) ps)) = total ps" if "set ps \<subseteq> set (pcs d)" for ps
    using that so assms(1) by (induction ps) (auto simp: piece_bytes_length)
  have "pos \<le> total (pcs d)" using assms(1,2) by (simp add: doc_ok_def)
  note l = locate_split [OF assms(3) this]
  let ?ps = "take pi (pcs d)"
  have pi: "length ?ps = pi" using l(1) by simp
  have lp: "length (concat (map (piece_bytes d) ?ps)) = total ?ps" by (intro len set_take_subset)
  show thesis
  proof (cases "po = 0")
    case True
    have "doc_text d = concat (map (piece_bytes d) ?ps) @ concat (map (piece_bytes d) (drop pi (pcs d)))"
      by (simp add: doc_text_def flip: concat_append map_append)
    with True l(2) lp between [of ?ps "drop pi (pcs d)"] pi show thesis by simp
  next
    case False
    with l(1,4) have lt: "pi < length (pcs d)" by (cases "pi = length (pcs d)") auto
    let ?p = "pcs d ! pi" and ?qs = "drop (Suc pi) (pcs d)"
    have e: "pcs d = ?ps @ ?p # ?qs" using lt by (simp add: id_take_nth_drop)
    have "doc_text d = concat (map (piece_bytes d) ?ps) @ piece_bytes d ?p @ concat (map (piece_bytes d) ?qs)"
      by (subst e [THEN arg_cong [of _ _ "\<lambda>ps. concat (map (piece_bytes d) ps)"], folded doc_text_def]) simp
    moreover have "length (piece_bytes d ?p) = p_len ?p" using so lt assms(1) by (simp add: piece_bytes_length)
    ultimately show thesis
      using inside [OF e, of] pi l(2) l(3) [OF lt] False lp by simp
  qed
qed

section \<open>Insertion\<close>

text \<open>The add buffer after the bytes of an insertion were appended.\<close>

definition appended :: "iw_doc \<Rightarrow> u8 list \<Rightarrow> iw_doc" where
  "appended d s = d\<lparr>add_buf := splice (add_buf d) (add_len d) s, add_len := add_len d + length s,
     doc_len := doc_len d + length s\<rparr>"

lemma appended_simps [simp]:
  "orig (appended d s) = orig d" "orig_len (appended d s) = orig_len d" "pcs (appended d s) = pcs d"
  "add_len (appended d s) = add_len d + length s" "add_cap (appended d s) = add_cap d"
  "pc_cap (appended d s) = pc_cap d" "doc_len (appended d s) = doc_len d + length s" "max_len (appended d s) = max_len d"
  by (simp_all add: appended_def)

lemma span_ok_pcs [simp]: "span_ok (d\<lparr>pcs := ps\<rparr>) p = span_ok d p" "piece_bytes (d\<lparr>pcs := ps\<rparr>) = piece_bytes d"
  by (simp_all add: span_ok_def piece_bytes_def pbytes_def fun_eq_iff)

lemma appended_frame:
  assumes "doc_ok d" "span_ok d p" "add_len d + length s \<le> add_cap d"
  shows "span_ok (appended d s) p" "piece_bytes (appended d s) p = piece_bytes d p"
proof -
  show "span_ok (appended d s) p" using assms(2) by (auto simp: span_ok_def)
  have "window (add_buf (appended d s)) (add_off p) (p_len p) = window (add_buf d) (add_off p) (p_len p)" if "in_add p"
    using assms that by (intro window_cong) (auto simp: appended_def doc_ok_def span_ok_def nth_splice)
  then show "piece_bytes (appended d s) p = piece_bytes d p" by (simp add: piece_bytes_def pbytes_def)
qed

lemma concat_frame:
  "doc_ok d \<Longrightarrow> add_len d + length s \<le> add_cap d \<Longrightarrow> (\<And>p. p \<in> set ps \<Longrightarrow> span_ok d p) \<Longrightarrow>
     concat (map (piece_bytes (appended d s)) ps) = concat (map (piece_bytes d) ps)"
  by (induction ps) (auto simp: appended_frame)

lemma appended_new:
  assumes "doc_ok d" "add_len d + length s \<le> add_cap d" "s \<noteq> []"
  defines "new \<equiv> \<lparr>p_off = IW_PIECE_ADD OR add_len d, p_len = length s\<rparr>"
  shows "span_ok (appended d s) new" "piece_bytes (appended d s) new = s" "span_ok d q \<Longrightarrow> apart q new \<and> apart new q"
proof -
  have a: "add_len d < IW_PIECE_ADD" using assms(1) by (simp add: doc_ok_def)
  note n = new_piece [OF a, of "length s", folded new_def]
  show "span_ok (appended d s) new" using n assms(3) by (simp add: span_ok_def new_def)
  show "piece_bytes (appended d s) new = s"
    using n assms(1,2) by (simp add: piece_bytes_def pbytes_def appended_def window_splice_same doc_ok_def new_def)
  show "span_ok d q \<Longrightarrow> apart q new \<and> apart new q" using n(2) by (auto simp: apart_def span_ok_def)
qed

lemma apart_sub:
  assumes "apart p q" "in_add p' \<Longrightarrow> in_add p" "in_add p' \<Longrightarrow> add_off p \<le> add_off p'"
    "in_add p' \<Longrightarrow> add_off p' + p_len p' \<le> add_off p + p_len p"
  shows "apart p' q" "apart q p'"
  using assms by (fastforce simp: apart_def)+

lemma apart_sym: "apart p q \<Longrightarrow> apart q p"
  by (auto simp: apart_def)

lemma cut_apart:
  assumes "span_ok d p" "doc_ok d" "0 < k" "k < p_len p" "apart p q"
  shows "apart (p\<lparr>p_len := k\<rparr>) q" "apart q (p\<lparr>p_len := k\<rparr>)"
    "apart (tail_piece p k (p_len p - k)) q" "apart q (tail_piece p k (p_len p - k))"
proof -
  note t = tail_piece_off [OF assms(1,2,4), where l = "p_len p - k"]
  have pl: "p_len (tail_piece p k (p_len p - k)) = p_len p - k" by (simp add: tail_piece_def)
  show "apart (p\<lparr>p_len := k\<rparr>) q" "apart q (p\<lparr>p_len := k\<rparr>)"
    using assms(4) by (auto intro: apart_sub [OF assms(5)])
  show "apart (tail_piece p k (p_len p - k)) q" "apart q (tail_piece p k (p_len p - k))"
    using assms(3,4) t pl by (auto intro: apart_sub [OF assms(5)])
qed

lemma cut_apart_parts:
  "span_ok d p \<Longrightarrow> doc_ok d \<Longrightarrow> k \<le> j \<Longrightarrow> j < p_len p \<Longrightarrow> apart (p\<lparr>p_len := k\<rparr>) (tail_piece p j l)"
  using tail_piece_off [of d p j l] by (auto simp: apart_def)

lemma doc_ok_parts:
  assumes "doc_ok d" "pcs d = ps @ qs"
  shows "\<forall>p \<in> set ps \<union> set qs. span_ok d p" "sorted_wrt apart ps" "sorted_wrt apart qs"
    "\<forall>p \<in> set ps. \<forall>q \<in> set qs. apart p q" "doc_len d = total ps + total qs"
  using assms by (auto simp: doc_ok_def sorted_wrt_append)

lemma doc_ok_appended:
  assumes "doc_ok d" "add_len d + length s \<le> add_cap d"
    and "\<And>p. p \<in> set ps \<Longrightarrow> span_ok (appended d s) p" "sorted_wrt apart ps"
    "total ps = doc_len d + length s" "length ps \<le> pc_cap d"
  shows "doc_ok ((appended d s)\<lparr>pcs := ps\<rparr>)"
  using assms by (simp add: doc_ok_def) (simp add: appended_def)

text \<open>An insertion between two pieces, and its merge with the piece before.\<close>

lemma insert_between:
  assumes d: "doc_ok d" "pcs d = ps @ qs" and s: "add_len d + length s \<le> add_cap d" "s \<noteq> []"
    and room: "length (pcs d) + 1 \<le> pc_cap d"
  defines "new \<equiv> \<lparr>p_off = IW_PIECE_ADD OR add_len d, p_len = length s\<rparr>"
  shows "doc_ok ((appended d s)\<lparr>pcs := ps @ [new] @ qs\<rparr>)"
    "doc_text ((appended d s)\<lparr>pcs := ps @ [new] @ qs\<rparr>) =
       concat (map (piece_bytes d) ps) @ s @ concat (map (piece_bytes d) qs)"
proof -
  note n = appended_new [OF d(1) s, folded new_def] and o = doc_ok_parts [OF d]
  show "doc_ok ((appended d s)\<lparr>pcs := ps @ [new] @ qs\<rparr>)"
    using o n d room
    by (intro doc_ok_appended [OF d(1) s(1)]) (auto simp: appended_frame [OF d(1) _ s(1)] sorted_wrt_append new_def)
  show "doc_text ((appended d s)\<lparr>pcs := ps @ [new] @ qs\<rparr>) =
       concat (map (piece_bytes d) ps) @ s @ concat (map (piece_bytes d) qs)"
    using o(1) n(2) by (simp add: doc_text_def concat_frame [OF d(1) s(1)])
qed

lemma insert_grow:
  assumes d: "doc_ok d" "pcs d = ps @ p # qs" and s: "add_len d + length s \<le> add_cap d"
    and p: "in_add p" "add_off p + p_len p = add_len d"
  shows "doc_ok ((appended d s)\<lparr>pcs := ps @ p\<lparr>p_len := p_len p + length s\<rparr> # qs\<rparr>)"
    "doc_text ((appended d s)\<lparr>pcs := ps @ p\<lparr>p_len := p_len p + length s\<rparr> # qs\<rparr>) =
       concat (map (piece_bytes d) (ps @ [p])) @ s @ concat (map (piece_bytes d) qs)"
proof -
  let ?p = "p\<lparr>p_len := p_len p + length s\<rparr>"
  note o = doc_ok_parts [OF d]
  have sp: "span_ok d p" using o(1) by simp
  have ap: "apart ?p q \<and> apart q ?p" if "apart p q" "span_ok d q" for q
    using that p sp by (auto simp: apart_def span_ok_def)
  have sorted: "sorted_wrt apart (ps @ ?p # qs)"
    using o ap apart_sym by (auto simp: sorted_wrt_append)
  have "span_ok (appended d s) ?p" using sp p by (simp add: span_ok_def)
  with o(1,5) sorted d show "doc_ok ((appended d s)\<lparr>pcs := ps @ ?p # qs\<rparr>)"
    by (intro doc_ok_appended [OF d(1) s]) (auto simp: appended_frame [OF d(1) _ s] doc_ok_def)
  have "piece_bytes (appended d s) ?p = window (add_buf (appended d s)) (add_off p) (p_len p) @
      window (add_buf (appended d s)) (add_off p + p_len p) (length s)"
    using p(1) by (simp add: piece_bytes_def pbytes_def window_append)
  also have "window (add_buf (appended d s)) (add_off p + p_len p) (length s) = s"
    using d(1) s p(2) by (simp add: appended_def window_splice_same doc_ok_def)
  also have "window (add_buf (appended d s)) (add_off p) (p_len p) = piece_bytes d p"
    using appended_frame(2) [OF d(1) sp s] p(1) by (simp add: piece_bytes_def pbytes_def)
  finally show "doc_text ((appended d s)\<lparr>pcs := ps @ ?p # qs\<rparr>) =
       concat (map (piece_bytes d) (ps @ [p])) @ s @ concat (map (piece_bytes d) qs)"
    using o(1) by (simp add: doc_text_def concat_frame [OF d(1) s])
qed

lemma insert_inside:
  assumes d: "doc_ok d" "pcs d = ps @ p # qs" and s: "add_len d + length s \<le> add_cap d" "s \<noteq> []"
    and k: "0 < k" "k < p_len p" and room: "length (pcs d) + 2 \<le> pc_cap d"
  defines "new \<equiv> \<lparr>p_off = IW_PIECE_ADD OR add_len d, p_len = length s\<rparr>"
  defines "mid \<equiv> [p\<lparr>p_len := k\<rparr>, new, tail_piece p k (p_len p - k)]"
  shows "doc_ok ((appended d s)\<lparr>pcs := ps @ mid @ qs\<rparr>)"
    "doc_text ((appended d s)\<lparr>pcs := ps @ mid @ qs\<rparr>) =
       (concat (map (piece_bytes d) ps) @ take k (piece_bytes d p)) @ s @
       drop k (piece_bytes d p) @ concat (map (piece_bytes d) qs)"
proof -
  note n = appended_new [OF d(1) s, folded new_def] and o = doc_ok_parts [OF d]
  have sp: "span_ok d p" using o(1) by simp
  note c = cut_piece [OF sp d(1) k] and a = cut_apart [OF sp d(1) k]
  have pl: "p_len (tail_piece p k (p_len p - k)) = p_len p - k" by (simp add: tail_piece_def)
  have pq: "apart p q" if "q \<in> set ps \<union> set qs" for q
    using o(3,4) that apart_sym by auto
  have m: "\<forall>x \<in> set mid. \<forall>q \<in> set ps \<union> set qs. apart x q \<and> apart q x"
    using a(1-4) [OF pq] n(3) o(1) by (simp add: mid_def)
  have "sorted_wrt apart mid"
    using cut_apart_parts [OF sp d(1) order.refl k(2)] n(3) [OF c(1)] n(3) [OF c(2)] by (simp add: mid_def)
  then have "sorted_wrt apart (ps @ mid @ qs)"
    using o(2-4) m by (auto simp: sorted_wrt_append)
  with o(1,5) n(1) c d room pl k show "doc_ok ((appended d s)\<lparr>pcs := ps @ mid @ qs\<rparr>)"
    by (intro doc_ok_appended [OF d(1) s(1)]) (auto simp: appended_frame [OF d(1) _ s(1)] mid_def new_def)
  show "doc_text ((appended d s)\<lparr>pcs := ps @ mid @ qs\<rparr>) =
       (concat (map (piece_bytes d) ps) @ take k (piece_bytes d p)) @ s @
       drop k (piece_bytes d p) @ concat (map (piece_bytes d) qs)"
    using o(1) n(2) c appended_frame(2) [OF d(1) c(1) s(1)] appended_frame(2) [OF d(1) c(2) s(1)]
    by (simp add: doc_text_def mid_def concat_frame [OF d(1) s(1)])
qed

section \<open>The operations\<close>

lemma insert_appended:
  "d\<lparr>add_buf := splice (add_buf d) (add_len d) s, add_len := add_len d + length s, doc_len := doc_len d + length s\<rparr> =
     appended d s"
  by (simp add: appended_def)

lemma insert_spec:
  assumes d: "doc_ok d" and pos: "pos \<le> doc_len d" and s: "s \<noteq> []"
    and room: "doc_len d + length s < 0x100000000" "doc_len d + length s \<le> max_len d" "add_len d + length s \<le> add_cap d"
  shows "(\<exists>d'. iw_doc_insert d pos s = (d', IW_OK) \<and> doc_ok d' \<and> max_len d' = max_len d \<and> pc_cap d' = pc_cap d \<and>
            doc_text d' = take pos (doc_text d) @ s @ drop pos (doc_text d)) \<or>
         (pc_cap d < length (pcs d) + 2 \<and> iw_doc_insert d pos s = (d, IW_E_FULL))"
proof -
  obtain pi po where l: "locate (pcs d) pos = (pi, po)" by fastforce
  have w: "\<not> (wrap32 (doc_len d + length s) > max_len d \<or> wrap32 (add_len d + length s) > add_cap d)"
    using room d by (simp add: doc_ok_def)
  have go: "\<not> pos > doc_len d" "length s \<noteq> 0" using pos s by auto
  note step = iw_doc_insert_def [of d pos s, unfolded Let_def, unfolded if_not_P [OF go(1)] if_not_P [OF go(2)] if_not_P [OF w]
      insert_appended, unfolded l prod.case]
  show ?thesis
    using d pos l
  proof (cases rule: locate_cases)
    case (between ps qs)
    let ?p = "pcs d ! (pi - 1)"
    show ?thesis
    proof (cases "po = 0 \<and> pi > 0 \<and> in_add ?p \<and> wrap32 (add_off ?p + p_len ?p) = add_len d")
      case True
      then obtain rs where rs: "ps = rs @ [?p]" using between(1,2) by (cases ps rule: rev_cases) auto
      have e: "pcs d = rs @ ?p # qs" using rs between(1) by simp
      have "span_ok d ?p" using doc_ok_parts(1) [OF d e] by simp
      then have g: "in_add ?p" "add_off ?p + p_len ?p = add_len d"
        using True d by (auto simp: span_ok_def doc_ok_def)
      have u: "(pcs d)[pi - 1 := ?p\<lparr>p_len := p_len ?p + length s\<rparr>] = rs @ ?p\<lparr>p_len := p_len ?p + length s\<rparr> # qs"
        using e between(2) rs by (metis add_diff_cancel_right' length_append_singleton list_update_length One_nat_def Suc_eq_plus1)
      note i = insert_grow [OF d e room(3) g]
      have "iw_doc_insert d pos s = ((appended d s)\<lparr>pcs := rs @ ?p\<lparr>p_len := p_len ?p + length s\<rparr> # qs\<rparr>, IW_OK)"
        unfolding step if_P [OF True] u ..
      with i between(4,5) rs show ?thesis by (intro disjI1) simp
    next
      case False
      show ?thesis
      proof (cases "length (pcs d) + 1 > pc_cap d")
        case True
        have "iw_doc_insert d pos s = (d, IW_E_FULL)"
          unfolding step if_not_P [OF False] if_P [OF between(3)] if_P [OF True] ..
        with True show ?thesis by simp
      next
        case f: False
        let ?new = "\<lparr>p_off = IW_PIECE_ADD OR add_len d, p_len = length s\<rparr>"
        have "iw_doc_insert d pos s = ((appended d s)\<lparr>pcs := ps @ [?new] @ qs\<rparr>, IW_OK)"
          unfolding step if_not_P [OF False] if_P [OF between(3)] if_not_P [OF f] using between(1,2) by simp
        with insert_between [OF d between(1) room(3) s] f between(4,5) show ?thesis by simp
      qed
    qed
  next
    case (inside ps p qs)
    have n0: "\<not> (po = 0 \<and> X)" "\<not> po = 0" for X using inside(3) by auto
    show ?thesis
    proof (cases "length (pcs d) + 2 > pc_cap d")
      case True
      have "iw_doc_insert d pos s = (d, IW_E_FULL)"
        unfolding step if_not_P [OF n0(1)] if_not_P [OF n0(2)] if_P [OF True] ..
      with True show ?thesis by simp
    next
      case False
      let ?mid = "[p\<lparr>p_len := po\<rparr>, \<lparr>p_off = IW_PIECE_ADD OR add_len d, p_len = length s\<rparr>, tail_piece p po (p_len p - po)]"
      have "iw_doc_insert d pos s = ((appended d s)\<lparr>pcs := ps @ ?mid @ qs\<rparr>, IW_OK)"
        unfolding step if_not_P [OF n0(1)] if_not_P [OF n0(2)] if_not_P [OF False]
        using inside(1,2) by (simp add: tail_piece_def nth_append)
      with insert_inside [OF d inside(1) room(3) s inside(3,4)] False inside(5,6) show ?thesis by simp
    qed
  qed
qed

section \<open>Deletion\<close>

lemma whole_pieces_spec:
  "whole_pieces qs n = (k, m) \<Longrightarrow> n \<le> total qs \<Longrightarrow>
     k \<le> length qs \<and> total (take k qs) + m = n \<and> (m > 0 \<longrightarrow> k < length qs \<and> m < p_len (qs ! k))"
proof (induction qs n arbitrary: k m rule: whole_pieces.induct)
  case (2 p ps n)
  show ?case
  proof (cases "n > 0 \<and> p_len p \<le> n")
    case True
    then obtain j where j: "whole_pieces ps (n - p_len p) = (j, m)" "k = Suc j"
      using "2.prems"(1) by (auto split: prod.splits)
    have "n - p_len p \<le> total ps" using "2.prems"(2) by simp
    from "2.IH" [OF True j(1) this] True j(2) show ?thesis by auto
  next
    case False
    with "2.prems" show ?thesis by (auto split: if_splits)
  qed
qed auto

text \<open>What is left of a piece list after its first \<open>n\<close> bytes went.\<close>

definition cut_front :: "iw_piece list \<Rightarrow> nat \<Rightarrow> iw_piece list" where
  "cut_front qs n = (case whole_pieces qs n of (k, m) \<Rightarrow>
     if m > 0 then tail_piece (qs ! k) m (p_len (qs ! k) - m) # drop (k + 1) qs else drop k qs)"

lemma concat_take_drop:
  assumes "doc_ok d" "\<And>p. p \<in> set ps \<Longrightarrow> span_ok d p"
  shows "length (concat (map (piece_bytes d) ps)) = total ps"
  using assms(2) by (induction ps) (auto simp: piece_bytes_length assms(1))

lemma cut_front_spec:
  assumes d: "doc_ok d" and qs: "\<And>p. p \<in> set qs \<Longrightarrow> span_ok d p" "sorted_wrt apart qs" and n: "n \<le> total qs"
  shows "concat (map (piece_bytes d) (cut_front qs n)) = drop n (concat (map (piece_bytes d) qs))"
    "\<forall>p \<in> set (cut_front qs n). span_ok d p" "sorted_wrt apart (cut_front qs n)"
    "total (cut_front qs n) = total qs - n" "length (cut_front qs n) \<le> length qs"
    "(\<And>q. q \<in> set qs \<Longrightarrow> apart p q) \<Longrightarrow> \<forall>q \<in> set (cut_front qs n). apart p q"
proof -
  obtain k m where w: "whole_pieces qs n = (k, m)" by fastforce
  note s = whole_pieces_spec [OF w n]
  let ?text = "\<lambda>ps. concat (map (piece_bytes d) ps)"
  let ?r = "cut_front qs n"
  have lk: "length (?text (take k qs)) = total (take k qs)"
    using qs(1) by (intro concat_take_drop [OF d]) (auto dest: in_set_takeD)
  have tk: "total qs = total (take k qs) + total (drop k qs)" by (metis append_take_drop_id total_simps(3))
  have tx: "?text qs = ?text (take k qs) @ ?text (drop k qs)" by (simp flip: concat_append map_append)
  have all: "?text ?r = drop n (?text qs) \<and> (\<forall>p \<in> set ?r. span_ok d p) \<and> sorted_wrt apart ?r \<and>
      total ?r = total qs - n \<and> length ?r \<le> length qs \<and>
      (\<forall>p. (\<forall>q \<in> set qs. apart p q) \<longrightarrow> (\<forall>q \<in> set ?r. apart p q))"
  proof (cases "m > 0")
    case False
    then have r: "?r = drop k qs" "n = total (take k qs)" using s by (simp_all add: cut_front_def w)
    then show ?thesis
      using qs lk tk tx by (auto simp: sorted_wrt_drop dest: in_set_dropD)
  next
    case True
    with s have k: "k < length qs" "m < p_len (qs ! k)" by auto
    let ?q = "qs ! k" and ?t = "drop (Suc k) qs"
    have e: "drop k qs = ?q # ?t" using k(1) by (simp add: Cons_nth_drop_Suc)
    have sq: "span_ok d ?q" using qs(1) k(1) by simp
    note c = cut_piece [OF sq d True k(2)] and a = cut_apart [OF sq d True k(2)]
    have so: "sorted_wrt apart (?q # ?t)" using sorted_wrt_drop [OF qs(2), of k] e by simp
    have r: "?r = tail_piece ?q m (p_len ?q - m) # ?t" using True by (simp add: cut_front_def w)
    have "?text ?r = drop n (?text qs)"
    proof -
      have "n - total (take k qs) = m" "total (take k qs) \<le> n" using s by auto
      with lk c(4) piece_bytes_length [OF sq d] k(2) show ?thesis by (simp add: tx e r)
    qed
    moreover have "sorted_wrt apart ?r" using so a(3) by (simp add: r)
    moreover have "\<forall>p. (\<forall>q \<in> set qs. apart p q) \<longrightarrow> (\<forall>q \<in> set ?r. apart p q)"
      using a(4) k(1) apart_sym by (auto simp: r dest: in_set_dropD)
    moreover have "total ?r = total qs - n"
    proof -
      have "total ?r = p_len ?q - m + total ?t" "total (drop k qs) = p_len ?q + total ?t" "n = total (take k qs) + m"
        using s by (simp_all add: r tail_piece_def e)
      with tk k(2) show ?thesis by linarith
    qed
    ultimately show ?thesis using c(2) qs(1) k(1) by (auto simp: r dest: in_set_dropD)
  qed
  then show "?text ?r = drop n (?text qs)" "\<forall>p \<in> set ?r. span_ok d p" "sorted_wrt apart ?r"
    "total ?r = total qs - n" "length ?r \<le> length qs" by blast+
  show "(\<And>q. q \<in> set qs \<Longrightarrow> apart p q) \<Longrightarrow> \<forall>q \<in> set ?r. apart p q" using all by blast
qed

lemma span_ok_len [simp]: "span_ok (d\<lparr>doc_len := n\<rparr>) p = span_ok d p" "piece_bytes (d\<lparr>doc_len := n\<rparr>) = piece_bytes d"
  by (simp_all add: span_ok_def piece_bytes_def pbytes_def fun_eq_iff)

lemma doc_ok_replace:
  assumes "doc_ok d" "\<forall>p \<in> set ps. span_ok d p" "sorted_wrt apart ps" "length ps \<le> pc_cap d" "n = total ps"
  shows "doc_ok (d\<lparr>pcs := ps, doc_len := n\<rparr>)"
  using assms by (simp add: doc_ok_def)

text \<open>The tail of the deletion: the code's array operations are \<open>cut_front\<close> on the pieces after \<open>first\<close>.\<close>

lemma delete_tail:
  assumes "pcs d1 = ps @ qs" "n1 \<le> total qs"
  shows "delete_rest d1 (length ps) n1 = d1\<lparr>pcs := ps @ cut_front qs n1, doc_len := doc_len d1 - n1\<rparr>"
proof -
  obtain k m where w: "whole_pieces qs n1 = (k, m)" by fastforce
  note s = whole_pieces_spec [OF w assms(2)]
  then have "doc_len d1 - (n1 - m) - m = doc_len d1 - n1" by simp
  moreover have "drop k (qs[k := z]) = z # drop (Suc k) qs" if "k < length qs" for z
    using that by (simp add: drop_update_swap Cons_nth_drop_Suc [symmetric])
  ultimately show ?thesis
    using s assms(1) by (auto simp: delete_rest_def cut_front_def w Let_def list_update_append tail_piece_def nth_append)
qed

text \<open>The three shapes of a deletion: from a piece boundary, across the end of a piece, inside one.\<close>

abbreviation text_of :: "iw_doc \<Rightarrow> iw_piece list \<Rightarrow> u8 list" where
  "text_of d ps \<equiv> concat (map (piece_bytes d) ps)"

lemma delete_between:
  assumes d: "doc_ok d" "pcs d = ps @ qs" and n: "n \<le> total qs"
  shows "doc_ok (delete_rest d (length ps) n)"
    "doc_text (delete_rest d (length ps) n) = text_of d ps @ drop n (text_of d qs)"
proof -
  note o = doc_ok_parts [OF d]
  note c = cut_front_spec [OF d(1) _ o(3) n]
  have s: "\<And>p. p \<in> set qs \<Longrightarrow> span_ok d p" using o(1) by simp
  have "sorted_wrt apart (ps @ cut_front qs n)"
    unfolding sorted_wrt_append using o(2,4) c(3) [OF s] c(6) [OF s] by blast
  then show "doc_ok (delete_rest d (length ps) n)"
    unfolding delete_tail [OF d(2) n] using o c(2,4,5) [OF s] d n
    by (intro doc_ok_replace) (auto simp: doc_ok_def)
  show "doc_text (delete_rest d (length ps) n) = text_of d ps @ drop n (text_of d qs)"
    unfolding delete_tail [OF d(2) n] using c(1) [OF s] by (simp add: doc_text_def)
qed

lemma delete_within:
  assumes d: "doc_ok d" "pcs d = ps @ p # qs" and k: "0 < k" "k \<le> j" "j < p_len p"
    and room: "length (pcs d) + 1 \<le> pc_cap d"
  defines "d' \<equiv> d\<lparr>pcs := ps @ [p\<lparr>p_len := k\<rparr>, tail_piece p j (p_len p - j)] @ qs, doc_len := doc_len d - (j - k)\<rparr>"
  shows "doc_ok d'" "doc_text d' = text_of d ps @ take k (piece_bytes d p) @ drop j (piece_bytes d p) @ text_of d qs"
proof -
  note o = doc_ok_parts [OF d]
  have sp: "span_ok d p" using o(1) by simp
  have k': "k < p_len p" "0 < j" using k by auto
  note cl = cut_piece [OF sp d(1) k(1) k'(1)] and ct = cut_piece [OF sp d(1) k'(2) k(3)]
  have pq: "apart p q" if "q \<in> set ps \<union> set qs" for q using o(3,4) that apart_sym by auto
  note al = cut_apart [OF sp d(1) k(1) k'(1) pq] and at = cut_apart [OF sp d(1) k'(2) k(3) pq]
  have "sorted_wrt apart (ps @ [p\<lparr>p_len := k\<rparr>, tail_piece p j (p_len p - j)] @ qs)"
    using o(2-4) al(1,2) at(3,4) cut_apart_parts [OF sp d(1) k(2,3)] by (simp add: sorted_wrt_append)
  then show "doc_ok d'"
    unfolding d'_def using o(1,5) cl(1) ct(2) room k d(2)
    by (intro doc_ok_replace [OF d(1)]) (auto simp: tail_piece_def)
  show "doc_text d' = text_of d ps @ take k (piece_bytes d p) @ drop j (piece_bytes d p) @ text_of d qs"
    unfolding d'_def using cl(3) ct(4) by (simp add: doc_text_def)
qed

text \<open>Trimming the end of a piece.\<close>

lemma trim_tail:
  assumes d: "doc_ok d" "pcs d = ps @ p # qs" and k: "0 < k" "k < p_len p"
  defines "d' \<equiv> d\<lparr>pcs := (ps @ [p\<lparr>p_len := k\<rparr>]) @ qs, doc_len := doc_len d - (p_len p - k)\<rparr>"
  shows "doc_ok d'" "text_of d' (ps @ [p\<lparr>p_len := k\<rparr>]) = text_of d ps @ take k (piece_bytes d p)"
    "text_of d' qs = text_of d qs"
proof -
  note o = doc_ok_parts [OF d]
  have sp: "span_ok d p" using o(1) by simp
  have pq: "apart p q" if "q \<in> set ps \<union> set qs" for q using o(3,4) that apart_sym by auto
  note cl = cut_piece [OF sp d(1) k] and al = cut_apart [OF sp d(1) k pq]
  show "doc_ok d'"
    unfolding d'_def using o al(1,2) cl(1) d k by (intro doc_ok_replace) (auto simp: sorted_wrt_append doc_ok_def)
  show "text_of d' (ps @ [p\<lparr>p_len := k\<rparr>]) = text_of d ps @ take k (piece_bytes d p)" "text_of d' qs = text_of d qs"
    unfolding d'_def using cl(3) by simp_all
qed

lemma delete_rest_simps [simp]:
  "max_len (delete_rest d f n) = max_len d" "pc_cap (delete_rest d f n) = pc_cap d"
  "add_len (delete_rest d f n) = add_len d" "add_cap (delete_rest d f n) = add_cap d"
  by (simp_all add: delete_rest_def Let_def split: prod.splits)

lemma delete_rest_pieces: "length (pcs (delete_rest d f n)) \<le> length (pcs d)"
  by (auto simp: delete_rest_def Let_def split: prod.splits)

definition deleted :: "iw_doc \<Rightarrow> nat \<Rightarrow> nat \<Rightarrow> iw_doc \<Rightarrow> bool" where
  "deleted d pos n d' \<longleftrightarrow> doc_ok d' \<and> max_len d' = max_len d \<and> pc_cap d' = pc_cap d \<and>
     add_len d' = add_len d \<and> add_cap d' = add_cap d \<and> length (pcs d') \<le> length (pcs d) + 1 \<and>
     doc_text d' = take pos (doc_text d) @ drop (pos + n) (doc_text d)"

lemma delete_spec:
  assumes d: "doc_ok d" and n: "pos + n \<le> doc_len d" "0 < n"
  shows "(\<exists>d'. iw_doc_delete d pos n = (d', IW_OK) \<and> deleted d pos n d') \<or>
         (pc_cap d < length (pcs d) + 1 \<and> iw_doc_delete d pos n = (d, IW_E_FULL))"
proof -
  obtain pi po where l: "locate (pcs d) pos = (pi, po)" by fastforce
  have go: "\<not> (pos > doc_len d \<or> n > doc_len d - pos)" "n \<noteq> 0" using n by auto
  have dd: "drop (pos + n) (doc_text d) = drop n (drop pos (doc_text d))" by (simp add: add.commute)
  have pos: "pos \<le> doc_len d" using n by simp
  note step = iw_doc_delete_def [of d pos n, unfolded if_not_P [OF go(1)] if_not_P [OF go(2)], unfolded l prod.case Let_def]
  have tot: "total (pcs d) = doc_len d" using d by (simp add: doc_ok_def)
  note len = locate_split(2) [OF l, unfolded tot, OF pos]
  show ?thesis
    using d pos l
  proof (cases rule: locate_cases)
    case (between ps qs)
    have c: "\<not> (po > 0 \<and> po + n < p_len (pcs d ! pi))" "\<not> po > 0" using between(3) by auto
    have nq: "n \<le> total qs" using n(1) len between(1-3) tot by simp
    have "iw_doc_delete d pos n = (delete_rest d (length ps) n, IW_OK)"
      unfolding step if_not_P [OF c(1)] if_not_P [OF c(2)] unfolding between(2) ..
    with delete_between [OF d between(1) nq] delete_rest_pieces [of d "length ps" n] show ?thesis
      by (simp add: deleted_def between(4) dd between(5))
  next
    case (inside ps p qs)
    have pi: "pcs d ! pi = p" "(pcs d)[pi := z] = ps @ z # qs" for z using inside(1,2) by simp_all
    show ?thesis
    proof (cases "po + n < p_len p")
      case True
      then have c: "po > 0 \<and> po + n < p_len (pcs d ! pi)" using inside(3) pi by simp
      have lt: "length (pcs d) + 1 > pc_cap d \<or> length (pcs d) + 1 \<le> pc_cap d" by linarith
      have "po \<le> po + n" by simp
      note w = delete_within [OF d inside(1,3) this True]
      let ?d' = "d\<lparr>pcs := ps @ [p\<lparr>p_len := po\<rparr>, tail_piece p (po + n) (p_len p - (po + n))] @ qs, doc_len := doc_len d - n\<rparr>"
      have "iw_doc_delete d pos n = (if length (pcs d) + 1 > pc_cap d then (d, IW_E_FULL) else (?d', IW_OK))"
        unfolding step if_P [OF c] unfolding pi using inside(1,2) by (simp add: tail_piece_def add.assoc)
      moreover have "doc_ok ?d' \<and> doc_text ?d' = take pos (doc_text d) @ drop (pos + n) (doc_text d)"
        if "length (pcs d) + 1 \<le> pc_cap d"
        using w [OF that] inside(5,6) dd True d inside(1) doc_ok_parts(1) [OF d inside(1)]
        by (simp add: piece_bytes_length add.commute)
      ultimately show ?thesis using lt inside(1) by (auto simp: deleted_def)
    next
      case False
      then have c: "\<not> (po > 0 \<and> po + n < p_len (pcs d ! pi))" using pi by simp
      let ?d1 = "d\<lparr>pcs := (ps @ [p\<lparr>p_len := po\<rparr>]) @ qs, doc_len := doc_len d - (p_len p - po)\<rparr>"
      let ?n1 = "n - (p_len p - po)" and ?f = "length (ps @ [p\<lparr>p_len := po\<rparr>])"
      note tt = trim_tail [OF d inside(1,3,4)]
      have nq: "?n1 \<le> total qs" using n(1) len tot inside(1,2,4) by simp
      have e: "pcs ?d1 = (ps @ [p\<lparr>p_len := po\<rparr>]) @ qs" by simp
      note b = delete_between [OF tt(1) e nq]
      have "iw_doc_delete d pos n = (delete_rest ?d1 ?f ?n1, IW_OK)"
        unfolding step if_not_P [OF c] if_P [OF inside(3)] unfolding pi using inside(2) by simp
      moreover have "drop n (drop pos (doc_text d)) = drop ?n1 (text_of d qs)"
        using inside(6) doc_ok_parts(1) [OF d inside(1)] piece_bytes_length [OF _ d, of p] False inside(4) by simp
      moreover have "length (pcs ?d1) = length (pcs d)" using inside(1) by simp
      ultimately show ?thesis
        using b delete_rest_pieces [of ?d1 ?f ?n1] unfolding deleted_def dd inside(5) tt(2,3) by simp
    qed
  qed
qed

end
