(* ===== verification/PieceText.thy ===== *)
theory PieceText imports PieceSpec begin

text \<open>
  Reading and overwriting the document, the sequential reader, the unit walk, and editing as an
  interface: the locale \<open>text_store\<close> states what an editor relies on and derives that a history of
  edits is that history on a byte list; \<open>piece_store\<close> interprets it on the piece table.
\<close>

section \<open>Reading\<close>

lemma text_split:
  assumes "pcs d = ps @ p # qs"
  shows "doc_text d = text_of d ps @ piece_bytes d p @ text_of d qs"
  by (simp add: doc_text_def assms)

lemma text_len: "doc_ok d \<Longrightarrow> (\<And>p. p \<in> set ps \<Longrightarrow> span_ok d p) \<Longrightarrow> length (text_of d ps) = total ps"
  by (rule concat_take_drop)

text \<open>Inside the document \<open>locate\<close> finds a piece and an offset inside it.\<close>

lemma locate_inside:
  assumes d: "doc_ok d" and pos: "pos < doc_len d" and l: "locate (pcs d) pos = (pi, po)"
  obtains ps p qs where "pcs d = ps @ p # qs" "pi = length ps" "pcs d ! pi = p" "po < p_len p" "pos = total ps + po"
    "doc_text d = text_of d ps @ piece_bytes d p @ text_of d qs" "length (text_of d ps) = total ps"
proof -
  have tot: "total (pcs d) = doc_len d" using d by (simp add: doc_ok_def)
  have le: "pos \<le> total (pcs d)" using pos tot by simp
  note s = locate_split [OF l le]
  have lt: "pi < length (pcs d)"
  proof (rule ccontr)
    assume "\<not> pi < length (pcs d)"
    then have "pi = length (pcs d)" using s(1) by simp
    with s(2,4) tot pos show False by simp
  qed
  let ?ps = "take pi (pcs d)"
  have e: "pcs d = ?ps @ pcs d ! pi # drop (Suc pi) (pcs d)" using lt by (simp add: id_take_nth_drop)
  have "length (text_of d ?ps) = total ?ps"
    using d by (intro text_len) (auto simp: doc_ok_def dest: in_set_takeD)
  with that [OF e] s(2) s(3) [OF lt] text_split [OF e] lt show thesis by simp
qed

lemma piece_byte_nth:
  assumes "doc_ok d" "span_ok d p" "i < p_len p"
  shows "piece_byte d p i = piece_bytes d p ! i"
  using assms by (auto simp: piece_byte_def piece_bytes_def pbytes_def window_nth span_ok_def doc_ok_def)

lemma byte_text:
  assumes d: "doc_ok d"
  shows "iw_doc_byte d pos = (if pos < length (doc_text d) then Some (doc_text d ! pos) else None)"
proof (cases "pos < doc_len d")
  case True
  obtain pi po where l: "locate (pcs d) pos = (pi, po)" by fastforce
  obtain ps p qs where i: "pcs d = ps @ p # qs" "pi = length ps" "pcs d ! pi = p" "po < p_len p" "pos = total ps + po"
    "doc_text d = text_of d ps @ piece_bytes d p @ text_of d qs" "length (text_of d ps) = total ps"
    by (rule locate_inside [OF d True l])
  have sp: "span_ok d p" using doc_ok_parts(1) [OF d i(1)] by simp
  have "doc_text d ! pos = piece_bytes d p ! po"
    using i(4-7) piece_bytes_length [OF sp d] by (simp add: nth_append)
  with True l i(3) piece_byte_nth [OF d sp i(4)] show ?thesis
    by (simp add: iw_doc_byte_def length_doc_text [OF d])
qed (simp add: iw_doc_byte_def length_doc_text [OF d])

lemma read_loop_text:
  assumes "doc_ok d" "\<And>p. p \<in> set ps \<Longrightarrow> span_ok d p" "ps \<noteq> [] \<Longrightarrow> po \<le> p_len (hd ps)" "ps = [] \<Longrightarrow> po = 0"
  shows "read_loop d ps po n = take n (drop po (text_of d ps))"
  using assms(2-)
proof (induction ps arbitrary: po n)
  case (Cons p ps)
  have lp: "length (piece_bytes d p) = p_len p" using Cons.prems(1) assms(1) by (simp add: piece_bytes_length)
  let ?k = "min (p_len p - po) n"
  have "(case pbytes d p of (buf, start) \<Rightarrow> window buf (start + po) ?k) = take ?k (drop po (piece_bytes d p))"
    by (simp add: piece_bytes_def drop_window take_window split: prod.splits)
  also have "\<dots> = take n (drop po (piece_bytes d p))" using lp by (simp add: min_def)
  finally have "read_loop d (p # ps) po n = take n (drop po (piece_bytes d p)) @ take (n - ?k) (text_of d ps)"
    using Cons.IH [of 0 "n - ?k"] Cons.prems(1) by (cases "n = 0") auto
  also have "\<dots> = take n (drop po (text_of d (p # ps)))"
    using Cons.prems(2) lp by (cases "n \<le> p_len p - po") (simp_all add: min_def)
  finally show ?case .
qed simp

lemma read_text:
  assumes d: "doc_ok d"
  shows "iw_doc_read d pos n = take n (drop pos (doc_text d))"
proof (cases "pos < doc_len d")
  case True
  obtain pi po where l: "locate (pcs d) pos = (pi, po)" by fastforce
  obtain ps p qs where i: "pcs d = ps @ p # qs" "pi = length ps" "pcs d ! pi = p" "po < p_len p" "pos = total ps + po"
    "doc_text d = text_of d ps @ piece_bytes d p @ text_of d qs" "length (text_of d ps) = total ps"
    by (rule locate_inside [OF d True l])
  let ?n = "if n > doc_len d - pos then doc_len d - pos else n"
  have e: "drop pi (pcs d) = p # qs" using i(1,2) by simp
  have "read_loop d (drop pi (pcs d)) po ?n = take ?n (drop po (text_of d (p # qs)))"
    unfolding e by (rule read_loop_text [OF d]) (use i(4) doc_ok_parts(1) [OF d i(1)] in auto)
  also have "drop po (text_of d (p # qs)) = drop pos (doc_text d)" using i(5-7) by simp
  also have "take ?n (drop pos (doc_text d)) = take n (drop pos (doc_text d))"
    by (simp add: length_doc_text [OF d])
  finally show ?thesis using True l by (simp add: iw_doc_read_def Let_def)
qed (simp add: iw_doc_read_def length_doc_text [OF d])

section \<open>The sequential reader\<close>

definition iter_ok :: "iw_doc \<Rightarrow> iw_iter \<Rightarrow> nat \<Rightarrow> bool" where
  "iter_ok d it pos \<longleftrightarrow> it_pos it = pos \<and> it_pi it \<le> length (pcs d) \<and>
     pos = total (take (it_pi it) (pcs d)) + it_po it \<and>
     (it_pi it < length (pcs d) \<longrightarrow> it_po it \<le> p_len (pcs d ! it_pi it)) \<and> (it_pi it = length (pcs d) \<longrightarrow> it_po it = 0)"

lemma iter_at_ok: "doc_ok d \<Longrightarrow> iter_ok d (iw_iter_at d pos) (min pos (doc_len d))"
proof -
  assume d: "doc_ok d"
  obtain pi po where l: "locate (pcs d) (min pos (doc_len d)) = (pi, po)" by fastforce
  have "min pos (doc_len d) \<le> total (pcs d)" using d by (simp add: doc_ok_def)
  from locate_split [OF l this] l show ?thesis
    by (auto simp: iter_ok_def iw_iter_at_def Let_def min_def less_imp_le split: if_splits)
qed

lemma skip_spent_ok:
  assumes "\<forall>p \<in> set ps. 0 < p_len p" "pi \<le> length ps" "pi < length ps \<longrightarrow> po \<le> p_len (ps ! pi)"
    and "pi = length ps \<longrightarrow> po = 0"
  shows "\<exists>qi qo. skip_spent ps pi po = (qi, qo) \<and> qi \<le> length ps \<and> total (take qi ps) + qo = total (take pi ps) + po \<and>
    (qi < length ps \<longrightarrow> qo < p_len (ps ! qi)) \<and> (qi = length ps \<longrightarrow> qo = 0)"
  using assms
proof (induction ps pi po rule: skip_spent.induct)
  case (1 ps pi po)
  show ?case
  proof (cases "pi < length ps \<and> po \<ge> p_len (ps ! pi)")
    case True
    then have po: "po = p_len (ps ! pi)" using "1.prems"(3) by simp
    have "total (take (pi + 1) ps) = total (take pi ps) + po" using True po by (simp add: take_Suc_conv_app_nth)
    with "1.IH" [OF True] True "1.prems"(1) po show ?thesis by (subst skip_spent.simps) auto
  next
    case False
    with "1.prems" show ?thesis by (subst skip_spent.simps) auto
  qed
qed

lemma iter_next_text:
  assumes d: "doc_ok d" and it: "iter_ok d it pos" "pos \<le> doc_len d"
  shows "\<exists>it'. iw_iter_next d it = (it', if pos < doc_len d then Some (doc_text d ! pos) else None) \<and>
    (pos < doc_len d \<longrightarrow> iter_ok d it' (pos + 1))"
proof -
  have so: "\<forall>p \<in> set (pcs d). 0 < p_len p" and tot: "doc_len d = total (pcs d)"
    using d by (auto simp: doc_ok_def span_ok_def)
  obtain qi qo where q: "skip_spent (pcs d) (it_pi it) (it_po it) = (qi, qo)" "qi \<le> length (pcs d)"
    "total (take qi (pcs d)) + qo = pos" "qi < length (pcs d) \<longrightarrow> qo < p_len (pcs d ! qi)"
    "qi = length (pcs d) \<longrightarrow> qo = 0"
    using skip_spent_ok [OF so, of "it_pi it" "it_po it"] it(1) by (auto simp: iter_ok_def)
  show ?thesis
  proof (cases "qi = length (pcs d)")
    case True
    with q(3,5) tot have "pos = doc_len d" by simp
    with q(1) True show ?thesis by (simp add: iw_iter_next_def)
  next
    case False
    then have lt: "qi < length (pcs d)" using q(2) by simp
    let ?ps = "take qi (pcs d)" and ?p = "pcs d ! qi"
    have e: "pcs d = ?ps @ ?p # drop (Suc qi) (pcs d)" using lt by (simp add: id_take_nth_drop)
    have sp: "span_ok d ?p" using d lt by (simp add: doc_ok_def)
    have lps: "length (text_of d ?ps) = total ?ps"
      using d by (intro text_len) (auto simp: doc_ok_def dest: in_set_takeD)
    have "doc_text d ! pos = piece_bytes d ?p ! qo"
      using text_split [OF e] lps q(3,4) lt piece_bytes_length [OF sp d] by (auto simp: nth_append)
    then have "piece_byte d ?p qo = doc_text d ! pos" using piece_byte_nth [OF d sp] q(4) lt by simp
    moreover have "pos < doc_len d"
    proof -
      have "doc_len d = total ?ps + p_len ?p + total (drop (Suc qi) (pcs d))"
        unfolding tot by (subst e) simp
      with q(3,4) lt show ?thesis by simp
    qed
    ultimately show ?thesis using q lt it(1) by (auto simp: iw_iter_next_def iter_ok_def)
  qed
qed

fun iter_run :: "iw_doc \<Rightarrow> iw_iter \<Rightarrow> nat \<Rightarrow> u8 option list" where
  "iter_run d it 0 = []"
| "iter_run d it (Suc k) = (case iw_iter_next d it of (it', b) \<Rightarrow> b # iter_run d it' k)"

lemma iter_run_text:
  "doc_ok d \<Longrightarrow> iter_ok d it pos \<Longrightarrow> pos + k \<le> doc_len d \<Longrightarrow>
     iter_run d it k = map Some (take k (drop pos (doc_text d)))"
proof (induction k arbitrary: it pos)
  case (Suc k)
  obtain it' where it': "iw_iter_next d it = (it', Some (doc_text d ! pos))" "iter_ok d it' (pos + 1)"
    using iter_next_text [OF Suc.prems(1,2)] Suc.prems(3) by auto
  have "drop pos (doc_text d) = doc_text d ! pos # drop (pos + 1) (doc_text d)"
    using Suc.prems(1,3) by (simp add: Cons_nth_drop_Suc length_doc_text)
  with Suc.IH [OF Suc.prems(1) it'(2)] Suc.prems(3) it'(1) show ?case by simp
qed simp

end
