(* ===== verification/PieceEdit.thy ===== *)
theory PieceEdit imports PieceText begin

text \<open>
  Overwriting a byte, the unit walk in both directions, and editing as an interface: the locale
  \<open>text_store\<close> states what an editor relies on and derives that a history of edits is that history
  on a byte list; \<open>piece_store\<close> interprets it on the piece table. The properties of the component
  close the theory.
\<close>

section \<open>Overwriting\<close>

lemma window_update:
  "window (xs[i := b]) off n = (if off \<le> i \<and> i < off + n then (window xs off n)[i - off := b] else window xs off n)"
proof (cases "off \<le> i \<and> i < off + n")
  case True
  then have "drop off (xs[i := b]) = (drop off xs)[i - off := b]" by (simp add: drop_update_swap)
  with True show ?thesis by (simp add: window_def take_update_swap)
next
  case False
  then consider "i < off" | "off + n \<le> i" by linarith
  then show ?thesis
  proof cases
    case 2
    then have "take n (drop off (xs[i := b])) = take n ((drop off xs)[i - off := b])" by (simp add: drop_update_swap)
    also have "\<dots> = take n (drop off xs)" using 2 by (simp add: take_update_cancel)
    finally show ?thesis unfolding if_not_P [OF False] window_def .
  qed (simp add: window_def)
qed

lemma put_in_place:
  assumes d: "doc_ok d" and pos: "pos < doc_len d" and l: "locate (pcs d) pos = (pi, po)"
    and a: "in_add (pcs d ! pi)"
    and e: "d' = d\<lparr>add_buf := (add_buf d)[add_off (pcs d ! pi) + po := b]\<rparr>"
  shows "doc_ok d'" "doc_text d' = (doc_text d)[pos := b]"
proof -
  obtain ps p qs where i: "pcs d = ps @ p # qs" "pi = length ps" "pcs d ! pi = p" "po < p_len p" "pos = total ps + po"
    "doc_text d = text_of d ps @ piece_bytes d p @ text_of d qs" "length (text_of d ps) = total ps"
    by (rule locate_inside [OF d pos l])
  have sp [simp]: "span_ok d' q = span_ok d q" for q by (simp add: span_ok_def e)
  show "doc_ok d'" using d by (simp add: doc_ok_def e span_ok_def)
  note o = doc_ok_parts [OF d i(1)]
  have keep: "piece_bytes d' q = piece_bytes d q" if "apart p q" for q
    using that a i(3,4) by (auto simp: piece_bytes_def pbytes_def e window_update apart_def)
  have here: "piece_bytes d' p = (piece_bytes d p)[po := b]"
    using a i(3,4) by (simp add: piece_bytes_def pbytes_def e window_update)
  have tx: "text_of d' ps = text_of d ps" "text_of d' qs = text_of d qs"
    using o(3,4) by (auto intro!: arg_cong [of _ _ concat] keep simp: apart_sym)
  have pe: "pcs d' = pcs d" by (simp add: e)
  have "doc_text d' = text_of d ps @ (piece_bytes d p)[po := b] @ text_of d qs"
    unfolding doc_text_def pe i(1) map_append list.map concat_append concat.simps here tx by simp
  moreover have "length (piece_bytes d p) = p_len p" using o(1) d by (simp add: piece_bytes_length)
  ultimately show "doc_text d' = (doc_text d)[pos := b]"
    using i(4-7) by (simp add: list_update_append)
qed

lemma set_spec:
  assumes d: "doc_ok d" and pos: "pos < doc_len d" and len: "doc_len d \<le> max_len d" "max_len d < 0x100000000"
  shows "(\<exists>d'. iw_doc_set d pos b = (d', IW_OK) \<and> doc_ok d' \<and> max_len d' = max_len d \<and> pc_cap d' = pc_cap d \<and>
            doc_text d' = (doc_text d)[pos := b]) \<or>
         ((pc_cap d < length (pcs d) + 3 \<or> add_cap d < add_len d + 1) \<and> iw_doc_set d pos b = (d, IW_E_FULL))"
proof -
  obtain pi po where l: "locate (pcs d) pos = (pi, po)" by fastforce
  have go: "\<not> pos \<ge> doc_len d" using pos by simp
  note step = iw_doc_set_def [of d pos b, unfolded Let_def, unfolded if_not_P [OF go], unfolded l prod.case]
  let ?p = "pcs d ! pi" and ?t = "doc_text d"
  have tpos: "pos < length ?t" using pos by (simp add: length_doc_text [OF d])
  show ?thesis
  proof (cases "piece_byte d ?p po = b")
    case True
    have "Some (?t ! pos) = Some (piece_byte d ?p po)"
      using byte_text [OF d, of pos] tpos pos l by (simp add: iw_doc_byte_def)
    with True have "?t[pos := b] = ?t" by (metis list_update_id option.inject)
    moreover have "iw_doc_set d pos b = (d, IW_OK)" unfolding step if_P [OF True] ..
    ultimately show ?thesis using d by auto
  next
    case new: False
    show ?thesis
    proof (cases "in_add ?p")
      case True
      have "iw_doc_set d pos b = (d\<lparr>add_buf := (add_buf d)[add_off ?p + po := b]\<rparr>, IW_OK)"
        unfolding step if_not_P [OF new] if_P [OF True] ..
      with put_in_place [OF d pos l True refl, of b] show ?thesis by simp
    next
      case orig: False
      show ?thesis
      proof (cases "pc_cap d < length (pcs d) + 3 \<or> add_len d + 1 > add_cap d")
        case True
        have "iw_doc_set d pos b = (d, IW_E_FULL)" unfolding step if_not_P [OF new] if_not_P [OF orig] if_P [OF True] ..
        with True show ?thesis by auto
      next
        case room: False
        have n: "pos + 1 \<le> doc_len d" "(0::nat) < 1" using pos by auto
        obtain d1 where d1: "iw_doc_delete d pos 1 = (d1, IW_OK)" "deleted d pos 1 d1"
          using delete_spec [OF d n] room by auto
        note dl = d1(2) [unfolded deleted_def]
        have l1: "doc_len d1 = doc_len d - 1"
        proof -
          have "length (doc_text d1) = length ?t - 1" using dl tpos by simp
          with length_doc_text [OF d] length_doc_text [of d1] dl show ?thesis by linarith
        qed
        have ins: "pos \<le> doc_len d1" "[b] \<noteq> []" "doc_len d1 + length [b] < 0x100000000"
          "doc_len d1 + length [b] \<le> max_len d1" "add_len d1 + length [b] \<le> add_cap d1"
          "\<not> pc_cap d1 < length (pcs d1) + 2"
          using l1 pos len room dl by auto
        obtain d2 where d2: "iw_doc_insert d1 pos [b] = (d2, IW_OK)" "doc_ok d2" "max_len d2 = max_len d1"
          "pc_cap d2 = pc_cap d1" "doc_text d2 = take pos (doc_text d1) @ [b] @ drop pos (doc_text d1)"
          using insert_spec [OF _ ins(1-5)] ins(6) dl by auto
        have "iw_doc_set d pos b = (d2, IW_OK)"
          unfolding step if_not_P [OF new] if_not_P [OF orig] if_not_P [OF room] d1(1) prod.case
          using d2(1) by simp
        moreover have "doc_text d2 = ?t[pos := b]"
          using d2(5) dl tpos by (simp add: upd_conv_take_nth_drop)
        ultimately show ?thesis using d2(2-4) dl by auto
      qed
    qed
  qed
qed

section \<open>The unit walk\<close>

lemma take_bit_u8 [simp]: "8 \<le> n \<Longrightarrow> take_bit n (unat (w :: u8)) = unat w"
proof -
  assume "8 \<le> n"
  then have "(2::nat) ^ 8 \<le> 2 ^ n" by (rule power_increasing) simp
  moreover have "unat w < 2 ^ 8" by simp
  ultimately have "unat w < 2 ^ n" by (rule less_le_trans [rotated])
  then show ?thesis by (simp add: take_bit_nat_eq_self)
qed

lemma le16_less: "le16 lo hi < 65536"
proof -
  have "take_bit 16 (le16 lo hi) = le16 lo hi"
    unfolding le16_def take_bit_or take_bit_push_bit by simp
  then show ?thesis using take_bit_nat_less_exp [of 16 "le16 lo hi"] by simp
qed

lemma group_total_le16: "group_total (Some lo) (Some hi) = 4 + le16 lo hi"
proof -
  have "unat (byte_bits (Some lo) OR push_bit 8 (byte_bits (Some hi))) = le16 lo hi"
    by (simp add: byte_bits_def le16_def unsigned_or_eq unsigned_push_bit_eq unsigned_ucast_eq take_bit_push_bit)
  then show ?thesis using le16_less [of lo hi] by (simp add: group_total_def unat_word_ariths)
qed

lemma unit_len_cases:
  assumes "0 < iw_unit_len b n p"
  obtains (single) "p < n" "iw_unit_len b n p = 1" "b ! p < 0xC0"
  | (fixed) L where "p < n" "iw_unit_len b n p = L" "0xC0 \<le> b ! p" "b ! p \<le> 0xCF" "L = fixed_len (b ! p)" "0 < L"
      "p + L \<le> n" "b ! (p + L - 1) = b ! p"
  | (group) T where "p < n" "iw_unit_len b n p = T" "0xD0 \<le> b ! p" "T = 4 + le16 (b ! (p + 2)) (b ! (p + 3))" "8 \<le> T"
      "p + T \<le> n" "b ! (p + T - 1) = b ! p" "b ! (p + T - 4) = b ! (p + 2)" "b ! (p + T - 3) = b ! (p + 3)"
proof -
  let ?c = "b ! p"
  have p: "p < n" using assms by (auto simp: iw_unit_len_def split: if_splits)
  have c1: "?c < 0xC0" if "?c \<le> 0x7F" using that by (rule le_less_trans) simp
  have c2: "0xD0 \<le> ?c" if "\<not> ?c \<le> 0xCF"
    using that by (simp add: word_le_nat_alt not_le)
  consider "?c < 0xC0" | "0xC0 \<le> ?c" "?c \<le> 0xCF" | "0xC0 \<le> ?c" "0xD0 \<le> ?c" "\<not> ?c \<le> 0xCF"
    using c2 not_le by blast
  then show thesis
  proof cases
    case 1
    with assms p single show thesis by (auto simp: iw_unit_len_def Let_def split: if_splits)
  next
    case 2
    then have "\<not> ?c \<le> 0x7F" "\<not> ?c < 0xC0" using c1 by auto
    with 2 assms p fixed show thesis by (auto simp: iw_unit_len_def Let_def split: if_splits)
  next
    case 3
    then have "\<not> ?c \<le> 0x7F" "\<not> ?c < 0xC0" using c1 by auto
    with 3 assms p group show thesis by (auto simp: iw_unit_len_def Let_def split: if_splits)
  qed
qed

lemma unit_walk:
  assumes d: "doc_ok d" and L: "0 < iw_unit_len (doc_text d) (doc_len d) p"
  shows "iw_unit_next d p = p + iw_unit_len (doc_text d) (doc_len d) p \<and> iw_unit_prev d (iw_unit_next d p) = p"
proof -
  let ?t = "doc_text d" and ?n = "doc_len d"
  note byte = byte_text [OF d, unfolded length_doc_text [OF d]]
  from L show ?thesis
  proof (cases rule: unit_len_cases)
    case single
    then have "\<not> 0xC0 \<le> ?t ! p" "\<not> 0xD0 \<le> ?t ! p" by (auto simp: not_le elim: less_trans)
    with single show ?thesis by (simp add: iw_unit_next_def iw_unit_prev_def unit_len_doc_def byte Let_def)
  next
    case (fixed L)
    have "iw_unit_next d p = p + L"
      using fixed by (auto simp: iw_unit_next_def unit_len_doc_def byte Let_def)
    moreover have "p + L - 1 < ?n" using fixed(6,7) by simp
    then have "iw_unit_prev d (p + L) = p"
      using fixed by (simp add: iw_unit_prev_def byte Let_def)
    ultimately show ?thesis using fixed by simp
  next
    case (group T)
    have nf: "\<not> ?t ! p \<le> 0xCF" using group(3) by (auto dest: order.trans)
    have b: "p + 2 < ?n" "p + 3 < ?n" "p + T - 1 < ?n" "p + T - 4 < ?n" "p + T - 3 < ?n" using group(5,6) by auto
    have "iw_unit_next d p = p + T"
      using group(1-6) b nf by (auto simp: iw_unit_next_def unit_len_doc_def byte Let_def group_total_le16)
    moreover have "iw_unit_prev d (p + T) = p"
    proof -
      have bb: "byte_back d (p + T) 4 = Some (?t ! (p + 2))" "byte_back d (p + T) 3 = Some (?t ! (p + 3))"
        using group b by (simp_all add: byte_back_def byte)
      have gt: "group_total (Some (?t ! (p + 2))) (Some (?t ! (p + 3))) = T" using group(4) by (simp add: group_total_le16)
      show ?thesis using group(3,5-7) b(3) nf by (simp add: iw_unit_prev_def byte bb gt [unfolded add_2_eq_Suc'] Let_def)
    qed
    ultimately show ?thesis using group by simp
  qed
qed

text \<open>Unit boundaries: what \<open>iw_is_boundary\<close> accepts is closed under the steps, both ways where every unit is
  one the format accepts.\<close>

lemma boundary_walk_next:
  "boundary_walk d pos p \<Longrightarrow> pos < doc_len d \<Longrightarrow> boundary_walk d (iw_unit_next d pos) p"
proof (induction d pos p rule: boundary_walk.induct)
  case (1 d pos p)
  note n = iw_unit_next_after [OF "1.prems"(2)]
  show ?case
  proof (cases "p < pos")
    case True
    with "1.prems" have "boundary_walk d pos (iw_unit_next d p)" by (subst (asm) boundary_walk.simps) simp
    with "1.IH" True "1.prems"(2) have "boundary_walk d (iw_unit_next d pos) (iw_unit_next d p)" by simp
    with True n show ?thesis by (subst boundary_walk.simps) simp
  next
    case False
    with "1.prems" have "p = pos" by (subst (asm) boundary_walk.simps) simp
    with n show ?thesis by (subst boundary_walk.simps) (simp add: boundary_walk.simps)
  qed
qed

lemma boundary_walk_last:
  "boundary_walk d pos p \<Longrightarrow> boundary_walk d p 0 \<Longrightarrow> p < pos \<Longrightarrow> pos \<le> doc_len d \<Longrightarrow>
     \<exists>q < pos. boundary_walk d q 0 \<and> iw_unit_next d q = pos"
proof (induction d pos p rule: boundary_walk.induct)
  case (1 d pos p)
  let ?n = "iw_unit_next d p"
  have go: "p < pos \<and> pos \<le> doc_len d" using "1.prems" by simp
  have w: "boundary_walk d pos ?n" using "1.prems"(1) go by (subst (asm) boundary_walk.simps) simp
  have b: "boundary_walk d ?n 0" using boundary_walk_next [OF "1.prems"(2)] go by simp
  show ?case
  proof (cases "?n < pos")
    case True
    from "1.IH" [OF go w b True] go show ?thesis by simp
  next
    case False
    with w have "?n = pos" by (subst (asm) boundary_walk.simps) simp
    with "1.prems"(2) go show ?thesis by auto
  qed
qed

lemma boundary_prev:
  assumes d: "doc_ok d" and wf: "\<forall>q < doc_len d. iw_is_boundary d q \<longrightarrow> 0 < iw_unit_len (doc_text d) (doc_len d) q"
    and p: "iw_is_boundary d p" "0 < p"
  shows "iw_is_boundary d (iw_unit_prev d p) \<and> iw_unit_prev d p < p \<and> iw_unit_next d (iw_unit_prev d p) = p"
proof -
  have b: "boundary_walk d p 0" "p \<le> doc_len d" using p(1) by (auto simp: iw_is_boundary_def split: if_splits)
  obtain q where q: "q < p" "boundary_walk d q 0" "iw_unit_next d q = p"
    using boundary_walk_last [OF b(1) _ p(2) b(2)] by (auto simp: boundary_walk.simps)
  then have iq: "iw_is_boundary d q" using b(2) by (simp add: iw_is_boundary_def)
  then have "0 < iw_unit_len (doc_text d) (doc_len d) q" using wf q(1) b(2) by simp
  from unit_walk [OF d this] q iq show ?thesis by auto
qed

section \<open>Editing as an interface\<close>

datatype edit = Ins nat "u8 list" | Del nat nat | Put nat u8

fun in_range :: "u8 list \<Rightarrow> edit \<Rightarrow> bool" where
  "in_range t (Ins pos s) \<longleftrightarrow> pos \<le> length t"
| "in_range t (Del pos n) \<longleftrightarrow> pos + n \<le> length t"
| "in_range t (Put pos b) \<longleftrightarrow> pos < length t"

fun edit_text :: "edit \<Rightarrow> u8 list \<Rightarrow> u8 list" where
  "edit_text (Ins pos s) t = take pos t @ s @ drop pos t"
| "edit_text (Del pos n) t = take pos t @ drop (pos + n) t"
| "edit_text (Put pos b) t = t[pos := b]"

text \<open>An insertion of two gigabytes would wrap the 32-bit sums of the capacity checks.\<close>

fun sized :: "edit \<Rightarrow> bool" where
  "sized (Ins pos s) \<longleftrightarrow> length s < IW_PIECE_ADD"
| "sized _ \<longleftrightarrow> True"

text \<open>The edits a history accepted, replayed on a byte list.\<close>

fun replay :: "(edit \<times> iw_rc) list \<Rightarrow> u8 list \<Rightarrow> u8 list" where
  "replay [] t = t"
| "replay ((e, rc) # h) t = replay h (if rc = IW_OK then edit_text e t else t)"

fun run_all :: "('d \<Rightarrow> edit \<Rightarrow> 'd \<times> iw_rc) \<Rightarrow> 'd \<Rightarrow> edit list \<Rightarrow> 'd \<times> iw_rc list" where
  "run_all run d [] = (d, [])"
| "run_all run d (e # es) = (case run d e of (d1, rc) \<Rightarrow> case run_all run d1 es of (d2, rcs) \<Rightarrow> (d2, rc # rcs))"

locale text_store =
  fixes ok :: "'d \<Rightarrow> bool"
    and text_in :: "'d \<Rightarrow> u8 list"
    and limit :: "'d \<Rightarrow> nat"
    and run :: "'d \<Rightarrow> edit \<Rightarrow> 'd \<times> iw_rc"
  assumes run_ok: "ok d \<Longrightarrow> sized e \<Longrightarrow> run d e = (d', IW_OK) \<Longrightarrow>
      ok d' \<and> limit d' = limit d \<and> in_range (text_in d) e \<and> text_in d' = edit_text e (text_in d)"
    and run_refused: "ok d \<Longrightarrow> sized e \<Longrightarrow> run d e = (d', rc) \<Longrightarrow> rc \<noteq> IW_OK \<Longrightarrow> d' = d"
    and run_range: "ok d \<Longrightarrow> sized e \<Longrightarrow> run d e = (d', rc) \<Longrightarrow> rc = IW_E_RANGE \<longleftrightarrow> \<not> in_range (text_in d) e"
    and text_limit: "ok d \<Longrightarrow> length (text_in d) \<le> limit d"
begin

lemma run_step:
  assumes "ok d" "sized e" "run d e = (d', rc)"
  shows "ok d'" "limit d' = limit d" "text_in d' = (if rc = IW_OK then edit_text e (text_in d) else text_in d)"
proof -
  have "ok d' \<and> limit d' = limit d \<and> text_in d' = (if rc = IW_OK then edit_text e (text_in d) else text_in d)"
  proof (cases "rc = IW_OK")
    case True
    with run_ok [OF assms(1,2)] assms(3) show ?thesis by simp
  next
    case False
    with run_refused [OF assms] assms(1) show ?thesis by simp
  qed
  then show "ok d'" "limit d' = limit d" "text_in d' = (if rc = IW_OK then edit_text e (text_in d) else text_in d)"
    by simp_all
qed

lemma history:
  assumes "ok d" "\<forall>e \<in> set es. sized e" "run_all run d es = (d', rcs)"
  shows "ok d' \<and> limit d' = limit d \<and> length rcs = length es \<and> text_in d' = replay (zip es rcs) (text_in d)"
  using assms
proof (induction es arbitrary: d rcs)
  case (Cons e es)
  obtain d1 rc qs where s: "run d e = (d1, rc)" "run_all run d1 es = (d', qs)" "rcs = rc # qs"
    using Cons.prems(3) by (auto split: prod.splits)
  have "sized e" "\<forall>e \<in> set es. sized e" using Cons.prems(2) by auto
  note r = run_step [OF Cons.prems(1) this(1) s(1)] and i = Cons.IH [OF _ this(2) s(2)]
  from r i show ?case by (simp add: s(3))
qed simp

text \<open>Undoing an accepted insertion by a deletion restores the bytes.\<close>

lemma insert_then_delete:
  assumes "ok d" "sized (Ins pos s)" "run d (Ins pos s) = (d1, IW_OK)" "run d1 (Del pos (length s)) = (d2, IW_OK)"
  shows "text_in d2 = text_in d"
proof -
  note i = run_ok [OF assms(1-3)]
  have "ok d1" "sized (Del pos (length s))" using i by auto
  from run_ok [OF this assms(4)] i show ?thesis by simp
qed

end

fun edit_doc :: "iw_doc \<Rightarrow> edit \<Rightarrow> iw_doc \<times> iw_rc" where
  "edit_doc d (Ins pos s) = iw_doc_insert d pos s"
| "edit_doc d (Del pos n) = iw_doc_delete d pos n"
| "edit_doc d (Put pos b) = iw_doc_set d pos b"

definition store_ok :: "iw_doc \<Rightarrow> bool" where
  "store_ok d \<longleftrightarrow> doc_ok d \<and> doc_len d \<le> max_len d \<and> max_len d \<le> IW_PIECE_ADD"

text \<open>What an edit may answer: done, refused for want of space, or out of range.\<close>

definition edit_result :: "iw_doc \<Rightarrow> edit \<Rightarrow> bool \<Rightarrow> iw_doc \<times> iw_rc \<Rightarrow> bool" where
  "edit_result d e short r \<longleftrightarrow>
     (if \<not> in_range (doc_text d) e then r = (d, IW_E_RANGE)
      else (short \<and> r = (d, IW_E_FULL)) \<or>
        (\<exists>d'. r = (d', IW_OK) \<and> store_ok d' \<and> max_len d' = max_len d \<and> doc_text d' = edit_text e (doc_text d)))"

lemma insert_result:
  assumes d: "store_ok d" and s: "length s < IW_PIECE_ADD"
  shows "edit_result d (Ins pos s) (max_len d < doc_len d + length s \<or> add_cap d < add_len d + length s \<or>
    pc_cap d < length (pcs d) + 2) (iw_doc_insert d pos s)"
proof -
  have ok: "doc_ok d" and len: "doc_len d \<le> max_len d" "max_len d \<le> IW_PIECE_ADD" using d by (auto simp: store_ok_def)
  note lt = length_doc_text [OF ok]
  consider "doc_len d < pos" | "pos \<le> doc_len d" "s = []"
    | "pos \<le> doc_len d" "s \<noteq> []" "max_len d < doc_len d + length s \<or> add_cap d < add_len d + length s"
    | "pos \<le> doc_len d" "s \<noteq> []" "doc_len d + length s \<le> max_len d" "add_len d + length s \<le> add_cap d"
    by linarith
  then show ?thesis
  proof cases
    case 3
    have "doc_len d + length s < 0x100000000" "add_len d + length s < 0x100000000"
      using s len ok by (auto simp: doc_ok_def)
    then have "iw_doc_insert d pos s = (d, IW_E_FULL)" using 3 by (auto simp: iw_doc_insert_def Let_def)
    with 3 show ?thesis by (auto simp: edit_result_def lt)
  next
    case 4
    have "doc_len d + length s < 0x100000000" using s len by simp
    from insert_spec [OF ok 4(1,2) this 4(3,4)] show ?thesis
    proof (elim disjE exE conjE)
      fix d' assume d': "iw_doc_insert d pos s = (d', IW_OK)" "doc_ok d'" "max_len d' = max_len d"
        "doc_text d' = take pos (doc_text d) @ s @ drop pos (doc_text d)"
      have "length (doc_text d') = doc_len d + length s" using d'(4) 4(1) lt by simp
      then have "doc_len d' \<le> max_len d'" using length_doc_text [OF d'(2)] d'(3) 4(3) by simp
      with d' 4(1) lt len show ?thesis by (simp add: edit_result_def store_ok_def)
    qed (use 4 lt in \<open>simp add: edit_result_def\<close>)
  qed (use d lt in \<open>auto simp: edit_result_def iw_doc_insert_def\<close>)
qed

lemma delete_result:
  assumes d: "store_ok d"
  shows "edit_result d (Del pos n) (pc_cap d < length (pcs d) + 1) (iw_doc_delete d pos n)"
proof -
  have ok: "doc_ok d" and len: "doc_len d \<le> max_len d" "max_len d \<le> IW_PIECE_ADD" using d by (auto simp: store_ok_def)
  note lt = length_doc_text [OF ok]
  consider "doc_len d < pos + n" | "pos + n \<le> doc_len d" "n = 0" | "pos + n \<le> doc_len d" "0 < n" by linarith
  then show ?thesis
  proof cases
    case 3
    from delete_spec [OF ok 3] show ?thesis
    proof (elim disjE exE conjE)
      fix d' assume d': "iw_doc_delete d pos n = (d', IW_OK)" "deleted d pos n d'"
      have "length (doc_text d') \<le> doc_len d" using d'(2) lt by (simp add: deleted_def)
      then have "doc_len d' \<le> max_len d'" using length_doc_text [of d'] d'(2) len(1) by (simp add: deleted_def)
      with d' 3 lt len show ?thesis by (simp add: edit_result_def store_ok_def deleted_def)
    qed (use 3 lt in \<open>simp add: edit_result_def\<close>)
  qed (use d lt in \<open>auto simp: edit_result_def iw_doc_delete_def\<close>)
qed

lemma set_result:
  assumes d: "store_ok d"
  shows "edit_result d (Put pos b) (pc_cap d < length (pcs d) + 3 \<or> add_cap d < add_len d + 1) (iw_doc_set d pos b)"
proof -
  have ok: "doc_ok d" and len: "doc_len d \<le> max_len d" "max_len d < 0x100000000" using d by (auto simp: store_ok_def)
  note lt = length_doc_text [OF ok]
  show ?thesis
  proof (cases "pos < doc_len d")
    case True
    from set_spec [OF ok True len, of b] show ?thesis
    proof (elim disjE exE conjE)
      fix d' assume d': "iw_doc_set d pos b = (d', IW_OK)" "doc_ok d'" "max_len d' = max_len d"
        "doc_text d' = (doc_text d)[pos := b]"
      have "length (doc_text d') = doc_len d" using d'(4) lt by simp
      then have "doc_len d' \<le> max_len d'" using length_doc_text [OF d'(2)] d'(3) len(1) by simp
      with d' True lt d show ?thesis by (simp add: edit_result_def store_ok_def)
    qed (use True lt in \<open>auto simp: edit_result_def\<close>)
  qed (use lt in \<open>simp add: edit_result_def iw_doc_set_def\<close>)
qed

lemma edit_doc_result:
  assumes "store_ok d" "sized e"
  obtains short where "edit_result d e short (edit_doc d e)"
proof (cases e)
  case (Ins pos s)
  with assms(2) have s: "length s < IW_PIECE_ADD" by simp
  show thesis using that [OF insert_result [OF assms(1) s, of pos, folded edit_doc.simps, folded Ins]] .
next
  case (Del pos n)
  show thesis using that [OF delete_result [OF assms(1), of pos n, folded edit_doc.simps, folded Del]] .
next
  case (Put pos b)
  show thesis using that [OF set_result [OF assms(1), of pos b, folded edit_doc.simps, folded Put]] .
qed

interpretation piece_store: text_store store_ok doc_text max_len edit_doc
proof unfold_locales
  fix d e d' rc
  assume d: "store_ok d" and e: "sized e"
  obtain short where r: "edit_result d e short (edit_doc d e)" by (rule edit_doc_result [OF d e])
  show "edit_doc d e = (d', IW_OK) \<Longrightarrow>
      store_ok d' \<and> max_len d' = max_len d \<and> in_range (doc_text d) e \<and> doc_text d' = edit_text e (doc_text d)"
    using r by (auto simp: edit_result_def split: if_splits)
  show "edit_doc d e = (d', rc) \<Longrightarrow> rc \<noteq> IW_OK \<Longrightarrow> d' = d"
    using r by (auto simp: edit_result_def split: if_splits)
  show "edit_doc d e = (d', rc) \<Longrightarrow> (rc = IW_E_RANGE) = (\<not> in_range (doc_text d) e)"
    using r by (auto simp: edit_result_def split: if_splits)
qed (simp add: store_ok_def length_doc_text)

end
