(* ===== verification/PieceProps.thy ===== *)
theory PieceProps imports PieceEdit begin

text \<open>The properties of the piece table.\<close>

section \<open>A loaded document\<close>

lemma load_ok:
  assumes "n \<le> length bytes" "n < IW_PIECE_ADD" "0 < pc_cap d" "add_cap d \<le> length (add_buf d)" "add_cap d < IW_PIECE_ADD"
    and "n \<le> max_len d" "max_len d \<le> IW_PIECE_ADD"
  shows "store_ok (iw_doc_load d bytes n) \<and> doc_text (iw_doc_load d bytes n) = take n bytes"
proof -
  have "\<not> in_add \<lparr>p_off = 0, p_len = n\<rparr>" by (simp add: in_add_def)
  with assms show ?thesis
    by (simp add: iw_doc_load_def Let_def store_ok_def doc_ok_def span_ok_def doc_text_def piece_bytes_def pbytes_def window_def)
qed

definition sample_doc :: iw_doc where
  "sample_doc = iw_doc_load (iw_doc_init (replicate 16 0) 16 8 64) [0x41, 0xC2, 1, 2, 3, 4, 5, 6, 7, 8, 9, 0xC2, 0x42] 13"

lemma sample_doc_ok: "store_ok sample_doc" "doc_ok sample_doc" "doc_text sample_doc = [0x41, 0xC2, 1, 2, 3, 4, 5, 6, 7, 8, 9, 0xC2, 0x42]"
  "doc_len sample_doc = 13" "pc_cap sample_doc = 8" "length (pcs sample_doc) = 1" "max_len sample_doc = 64"
  "add_cap sample_doc = 16" "add_len sample_doc = 0"
proof -
  have "store_ok sample_doc \<and> doc_text sample_doc = take 13 [0x41, 0xC2, 1, 2, 3, 4, 5, 6, 7, 8, 9, 0xC2, 0x42]"
    unfolding sample_doc_def by (rule load_ok) (simp_all add: iw_doc_init_def)
  then show "store_ok sample_doc" "doc_ok sample_doc" "doc_text sample_doc = [0x41, 0xC2, 1, 2, 3, 4, 5, 6, 7, 8, 9, 0xC2, 0x42]"
    by (simp_all add: store_ok_def)
  show "doc_len sample_doc = 13" "pc_cap sample_doc = 8" "length (pcs sample_doc) = 1" "max_len sample_doc = 64"
    "add_cap sample_doc = 16" "add_len sample_doc = 0"
    by (simp_all add: sample_doc_def iw_doc_load_def iw_doc_init_def Let_def)
qed

definition text_doc :: iw_doc where
  "text_doc = iw_doc_load (iw_doc_init (replicate 16 0) 16 8 64) [0x41, 0x42, 0x0A] 3"

lemma text_doc_ok: "doc_ok text_doc" "doc_text text_doc = [0x41, 0x42, 0x0A]" "doc_len text_doc = 3"
proof -
  have "store_ok text_doc \<and> doc_text text_doc = take 3 [0x41, 0x42, 0x0A]"
    unfolding text_doc_def by (rule load_ok) (simp_all add: iw_doc_init_def)
  then show "doc_ok text_doc" "doc_text text_doc = [0x41, 0x42, 0x0A]" by (simp_all add: store_ok_def)
  show "doc_len text_doc = 3" by (simp add: text_doc_def iw_doc_load_def iw_doc_init_def Let_def)
qed

text \<open>Pieces that are adjacent in the same buffer are not merged when a deletion makes them neighbours: an
  insertion inside a piece and its deletion leave the piece cut in two.\<close>

lemma contiguous_pieces_stay:
  "map (\<lambda>p. (p_off p, p_len p)) (pcs (fst (iw_doc_delete (fst (iw_doc_insert sample_doc 1 [7])) 1 1))) = [(0, 1), (1, 12)]"
  by (simp add: sample_doc_def iw_doc_load_def iw_doc_init_def iw_doc_insert_def iw_doc_delete_def
      delete_rest_def in_add_def add_off_def wrap32_def Let_def)

section \<open>Properties\<close>

text \<open>C27: an edit changes the byte list exactly there. Inserting puts the bytes at the position; a position past the end is
  refused, and the only other refusal is for want of length, add buffer or two piece slots. Deleting removes exactly the span,
  whatever pieces it crosses; a span past the end is refused, and the only other refusal is for want of one piece slot. A
  refusal leaves the document unchanged.\<close>

theorem piece_edits_exact:
  assumes "store_ok d" "length s < IW_PIECE_ADD"
  shows "(case iw_doc_insert d pos s of (d', rc) \<Rightarrow>
     (rc = IW_E_RANGE \<longleftrightarrow> length (doc_text d) < pos) \<and>
     (rc = IW_E_FULL \<longrightarrow> max_len d < doc_len d + length s \<or> add_cap d < add_len d + length s \<or> pc_cap d < length (pcs d) + 2) \<and>
     (if rc = IW_OK then store_ok d' \<and> doc_text d' = take pos (doc_text d) @ s @ drop pos (doc_text d) else d' = d)) \<and>
   (case iw_doc_delete d pos n of (d', rc) \<Rightarrow>
     (rc = IW_E_RANGE \<longleftrightarrow> length (doc_text d) < pos + n) \<and> (rc = IW_E_FULL \<longrightarrow> pc_cap d < length (pcs d) + 1) \<and>
     (if rc = IW_OK then store_ok d' \<and> doc_text d' = take pos (doc_text d) @ drop (pos + n) (doc_text d) else d' = d))"
  using insert_result [OF assms, of pos] delete_result [OF assms(1), of pos n] by (auto simp: edit_result_def split: if_splits)

theorem piece_edits_exact_witness:
  "doc_text (fst (iw_doc_insert sample_doc 1 [0x61, 0x62])) = [0x41, 0x61, 0x62, 0xC2, 1, 2, 3, 4, 5, 6, 7, 8, 9, 0xC2, 0x42] \<and>
   doc_text (fst (iw_doc_delete sample_doc 1 11)) = [0x41, 0x42]"
proof -
  obtain d1 r1 d2 r2 where r: "iw_doc_insert sample_doc 1 [0x61, 0x62] = (d1, r1)" "iw_doc_delete sample_doc 1 11 = (d2, r2)" by fastforce
  show ?thesis
    using piece_edits_exact [OF sample_doc_ok(1), of "[0x61, 0x62]" 1 11] sample_doc_ok r by (cases r1; cases r2) auto
qed

text \<open>Overwriting a byte changes that byte of the document and no other, also where the byte lies in the
  add buffer and is written in place; it is refused past the end, or unchanged for want of three
  piece slots or one byte of the add buffer.\<close>

theorem piece_set_exact:
  assumes "store_ok d"
  shows "case iw_doc_set d pos b of (d', rc) \<Rightarrow>
     (rc = IW_E_RANGE \<longleftrightarrow> length (doc_text d) \<le> pos) \<and>
     (rc = IW_E_FULL \<longrightarrow> pc_cap d < length (pcs d) + 3 \<or> add_cap d < add_len d + 1) \<and>
     (if rc = IW_OK then store_ok d' \<and> doc_text d' = (doc_text d)[pos := b] else d' = d)"
  using set_result [OF assms, of pos b] by (auto simp: edit_result_def not_less split: if_splits)

theorem piece_set_exact_witness:
  "doc_text (fst (iw_doc_set sample_doc 0 0x5A)) = [0x5A, 0xC2, 1, 2, 3, 4, 5, 6, 7, 8, 9, 0xC2, 0x42]"
proof -
  obtain d' rc where r: "iw_doc_set sample_doc 0 0x5A = (d', rc)" by fastforce
  show ?thesis
    using piece_set_exact [OF sample_doc_ok(1), of 0 "0x5A"] sample_doc_ok r by (cases rc) auto
qed

text \<open>C28: the three readers agree with the byte list: one byte, a block read, and the sequential reader from
  any position.\<close>

theorem piece_readers_agree:
  assumes "doc_ok d"
  shows "(iw_doc_byte d pos = (if pos < length (doc_text d) then Some (doc_text d ! pos) else None)) \<and>
    iw_doc_read d pos n = take n (drop pos (doc_text d)) \<and>
    iter_run d (iw_iter_at d pos) (min n (doc_len d - pos)) = map Some (take n (drop pos (doc_text d)))"
proof -
  let ?k = "min n (doc_len d - pos)"
  have "iter_run d (iw_iter_at d pos) ?k = map Some (take ?k (drop (min pos (doc_len d)) (doc_text d)))"
    by (intro iter_run_text [OF assms iter_at_ok [OF assms]]) simp
  also have "take ?k (drop (min pos (doc_len d)) (doc_text d)) = take n (drop pos (doc_text d))"
    by (cases "pos \<le> doc_len d") (auto simp: length_doc_text [OF assms] min_def)
  finally show ?thesis using byte_text [OF assms] read_text [OF assms] by simp
qed

theorem piece_readers_agree_witness: "iw_doc_read sample_doc 10 9 = [9, 0xC2, 0x42]"
  using piece_readers_agree [OF sample_doc_ok(2), of 10 9] sample_doc_ok by simp

text \<open>on a unit the format accepts, the forward step lands after the unit and the backward step from
  there returns to its first byte.\<close>

theorem unit_walk_inverse:
  assumes "doc_ok d" "0 < iw_unit_len (doc_text d) (doc_len d) p"
  shows "iw_unit_next d p = p + iw_unit_len (doc_text d) (doc_len d) p \<and> iw_unit_prev d (iw_unit_next d p) = p"
  by (rule unit_walk [OF assms])

theorem unit_walk_inverse_witness: "iw_unit_next sample_doc 1 = 12 \<and> iw_unit_prev sample_doc 12 = 1"
proof -
  have "iw_unit_len (doc_text sample_doc) (doc_len sample_doc) 1 = 11"
    unfolding sample_doc_ok by (simp add: iw_unit_len_def fixed_len_def FIXED_LEN_def Let_def)
  with unit_walk_inverse [OF sample_doc_ok(2), of 1] show ?thesis by auto
qed

text \<open>in a document made of accepted units the forward and the backward step move between exactly the
  positions \<open>iw_is_boundary\<close> accepts, and undo each other there.\<close>

theorem unit_boundaries_walk:
  assumes "doc_ok d" "\<forall>q < doc_len d. iw_is_boundary d q \<longrightarrow> 0 < iw_unit_len (doc_text d) (doc_len d) q"
    and "iw_is_boundary d p"
  shows "(p < doc_len d \<longrightarrow> iw_is_boundary d (iw_unit_next d p) \<and> iw_unit_prev d (iw_unit_next d p) = p) \<and>
    (0 < p \<longrightarrow> iw_is_boundary d (iw_unit_prev d p) \<and> iw_unit_next d (iw_unit_prev d p) = p)"
proof -
  have "iw_is_boundary d (iw_unit_next d p) \<and> iw_unit_prev d (iw_unit_next d p) = p" if "p < doc_len d"
  proof
    show "iw_is_boundary d (iw_unit_next d p)"
      using assms(3) iw_unit_next_after [OF that] boundary_walk_next [OF _ that] that
      unfolding iw_is_boundary_def by simp
    have "0 < iw_unit_len (doc_text d) (doc_len d) p" using assms(2,3) that by blast
    then show "iw_unit_prev d (iw_unit_next d p) = p" using unit_walk [OF assms(1)] by blast
  qed
  with boundary_prev [OF assms] show ?thesis by blast
qed

theorem unit_boundaries_walk_witness: "iw_is_boundary text_doc 1 \<and> iw_unit_prev text_doc (iw_unit_next text_doc 1) = 1"
proof -
  have u: "iw_unit_len [0x41, 0x42, 0x0A] 3 0 = 1" "iw_unit_len [0x41, 0x42, 0x0A] 3 1 = 1"
    "iw_unit_len [0x41, 0x42, 0x0A] 3 2 = 1"
    by (simp_all add: iw_unit_len_def is_single_def)
  have n: "iw_unit_next text_doc 0 = 1"
    using unit_walk [OF text_doc_ok(1), of 0] u(1) by (simp add: text_doc_ok)
  have "boundary_walk text_doc 1 1" by (subst boundary_walk.simps) simp
  with n have b: "iw_is_boundary text_doc 1"
    unfolding iw_is_boundary_def by (subst boundary_walk.simps) (simp add: text_doc_ok)
  have "0 < iw_unit_len [0x41, 0x42, 0x0A] 3 q" if "q < 3" for q
  proof -
    have "q = 0 \<or> q = 1 \<or> q = 2" using that by linarith
    then show ?thesis by (elim disjE) (simp_all add: u [unfolded One_nat_def])
  qed
  then have "\<forall>q < doc_len text_doc. iw_is_boundary text_doc q \<longrightarrow> 0 < iw_unit_len (doc_text text_doc) (doc_len text_doc) q"
    by (simp add: text_doc_ok)
  from unit_boundaries_walk [OF text_doc_ok(1) this b] b show ?thesis by (simp add: text_doc_ok)
qed

text \<open>C12: after any history of insertions, deletions and overwrites the document is the byte list after the
  accepted ones, and within its length limit.\<close>

theorem edit_history_text:
  assumes "store_ok d" "\<forall>e \<in> set es. sized e" "run_all edit_doc d es = (d', rcs)"
  shows "length rcs = length es \<and> store_ok d' \<and> doc_len d' \<le> max_len d \<and> doc_text d' = replay (zip es rcs) (doc_text d)"
  using piece_store.history [OF assms] by (auto simp: store_ok_def)

theorem edit_history_text_witness:
  "doc_text (fst (run_all edit_doc sample_doc [Ins 1 [7], Put 0 9, Del 3 11, Ins 99 [1]])) = [9, 7, 0xC2]"
proof -
  let ?es = "[Ins 1 [7], Put 0 9, Del 3 11, Ins 99 [1]]"
  obtain d' rcs where r: "run_all edit_doc sample_doc ?es = (d', rcs)" by fastforce
  have "snd (run_all edit_doc sample_doc ?es) = [IW_OK, IW_OK, IW_OK, IW_E_RANGE]"
    by (simp add: sample_doc_def iw_doc_load_def iw_doc_init_def iw_doc_insert_def iw_doc_set_def iw_doc_delete_def
        delete_rest_def piece_byte_def pbytes_def in_add_def add_off_def wrap32_def splice_def Let_def)
  then have rcs: "rcs = [IW_OK, IW_OK, IW_OK, IW_E_RANGE]" using r by simp
  have "\<forall>e \<in> set ?es. sized e" by simp
  from edit_history_text [OF sample_doc_ok(1) this r] show ?thesis
    unfolding r rcs sample_doc_ok by simp
qed

end
