(* ===== verification/Sft.thy ===== *)
theory Sft imports Prelude begin

text \<open>
  The handle tables of InitechDOS, \<open>os/milton/sft.c\<close>: a process's Job File Table \<open>jft\<close> (20 entries,
  \<open>0xFF\<close> closed) indexes the system-wide file table \<open>g_sft\<close> (20 slots, 0 to 3 the resident devices).

  \<open>uint8_t\<close> and \<open>uint16_t\<close> values are \<open>nat\<close>; the reference count wraps at 16 bits where the code
  increments it. A PSP is its \<open>jft\<close>, \<open>None\<close> the null pointer. A result \<open>None\<close> is \<open>SFT_FAIL_LOUD\<close>.
  \<open>device\<close> names a header of the device chain.
\<close>

section \<open>Data\<close>

abbreviation (input) SFT_MAX_ENTRIES :: nat where "SFT_MAX_ENTRIES \<equiv> 20"
abbreviation (input) JFT_MAX_ENTRIES :: nat where "JFT_MAX_ENTRIES \<equiv> 20"
abbreviation (input) JFT_CLOSED :: nat where "JFT_CLOSED \<equiv> 255"
abbreviation (input) SFT_SLOT_CON_IN :: nat where "SFT_SLOT_CON_IN \<equiv> 0"
abbreviation (input) SFT_SLOT_CON_OUT :: nat where "SFT_SLOT_CON_OUT \<equiv> 1"
abbreviation (input) SFT_SLOT_AUX :: nat where "SFT_SLOT_AUX \<equiv> 2"
abbreviation (input) SFT_SLOT_PRN :: nat where "SFT_SLOT_PRN \<equiv> 3"
abbreviation (input) SFT_FIRST_FILE :: nat where "SFT_FIRST_FILE \<equiv> 4"
abbreviation (input) SFT_OK :: nat where "SFT_OK \<equiv> 0"
abbreviation (input) SFT_ERR_INVALID_HANDLE :: nat where "SFT_ERR_INVALID_HANDLE \<equiv> 6"
abbreviation (input) SFT_ERR_TOO_MANY_OPEN :: nat where "SFT_ERR_TOO_MANY_OPEN \<equiv> 4"
abbreviation (input) SFT_DEV_CON :: nat where "SFT_DEV_CON \<equiv> 0"
abbreviation (input) SFT_DEV_AUX :: nat where "SFT_DEV_AUX \<equiv> 1"
abbreviation (input) SFT_DEV_PRN :: nat where "SFT_DEV_PRN \<equiv> 2"
abbreviation (input) SFT_MODE_READ :: nat where "SFT_MODE_READ \<equiv> 0"
abbreviation (input) SFT_MODE_WRITE :: nat where "SFT_MODE_WRITE \<equiv> 1"
abbreviation (input) SFT_MODE_RDWR :: nat where "SFT_MODE_RDWR \<equiv> 2"

datatype sft_kind = SFT_KIND_FREE | SFT_KIND_DEVICE | SFT_KIND_FILE

record dir_entry =
  filename :: "u8 list"
  extension :: "u8 list"
  attribute :: u8
  de_reserved :: "u8 list"
  mtime :: u16
  mdate :: u16
  start_cluster :: u16
  file_size :: u32

record sft_entry =
  kind :: sft_kind
  open_mode :: nat
  dev_id :: nat
  drive :: nat
  con_eof :: nat
  write_fault :: nat
  ref_count :: nat
  device :: "nat option"
  entry_dir :: dir_entry
  file_offset :: u32
  root_slot :: u32
  dir_start :: u16

record sft_state =
  g_sft :: "sft_entry list"
  g_files_limit :: nat

type_synonym psp = "nat list option"

text \<open>A slot with every byte zero.\<close>

definition sft_zero :: sft_entry where
  "sft_zero = \<lparr>kind = SFT_KIND_FREE, open_mode = 0, dev_id = 0, drive = 0, con_eof = 0, write_fault = 0,
     ref_count = 0, device = None,
     entry_dir = \<lparr>filename = replicate 8 0, extension = replicate 3 0, attribute = 0, de_reserved = replicate 10 0,
       mtime = 0, mdate = 0, start_cluster = 0, file_size = 0\<rparr>,
     file_offset = 0, root_slot = 0, dir_start = 0\<rparr>"

definition inc16 :: "nat \<Rightarrow> nat" where
  "inc16 n = (n + 1) mod 0x10000"

section \<open>Operations\<close>

definition sft_init :: "sft_state \<Rightarrow> sft_state" where
  "sft_init s =
     (let t0 = replicate SFT_MAX_ENTRIES sft_zero;
          t1 = t0[SFT_SLOT_CON_IN := sft_zero\<lparr>kind := SFT_KIND_DEVICE, dev_id := SFT_DEV_CON,
                 open_mode := SFT_MODE_READ, ref_count := 1\<rparr>];
          t2 = t1[SFT_SLOT_CON_OUT := sft_zero\<lparr>kind := SFT_KIND_DEVICE, dev_id := SFT_DEV_CON,
                 open_mode := SFT_MODE_WRITE, ref_count := 2\<rparr>];
          t3 = t2[SFT_SLOT_AUX := sft_zero\<lparr>kind := SFT_KIND_DEVICE, dev_id := SFT_DEV_AUX,
                 open_mode := SFT_MODE_RDWR, ref_count := 1\<rparr>];
          t4 = t3[SFT_SLOT_PRN := sft_zero\<lparr>kind := SFT_KIND_DEVICE, dev_id := SFT_DEV_PRN,
                 open_mode := SFT_MODE_WRITE, ref_count := 1\<rparr>]
      in s\<lparr>g_sft := t4\<rparr>)"

text \<open>\<open>Some None\<close> is the null pointer, \<open>Some (Some i)\<close> the address of slot \<open>i\<close>.\<close>

definition sft_from_handle :: "sft_state \<Rightarrow> psp \<Rightarrow> nat \<Rightarrow> nat option option" where
  "sft_from_handle s psp handle = (case psp of
     None \<Rightarrow> Some None
   | Some jft \<Rightarrow>
       if handle \<ge> JFT_MAX_ENTRIES then Some None
       else let idx = jft ! handle in
         if idx = JFT_CLOSED then Some None
         else if idx \<ge> SFT_MAX_ENTRIES then None
         else if kind (g_sft s ! idx) = SFT_KIND_FREE then None
         else Some (Some idx))"

fun first_closed :: "nat list \<Rightarrow> nat \<Rightarrow> nat" where
  "first_closed [] i = JFT_CLOSED"
| "first_closed (x # xs) i = (if x = JFT_CLOSED then i else first_closed xs (i + 1))"

definition jft_alloc :: "psp \<Rightarrow> nat" where
  "jft_alloc psp = (case psp of None \<Rightarrow> JFT_CLOSED | Some jft \<Rightarrow> first_closed (take JFT_MAX_ENTRIES jft) 0)"

function first_free :: "sft_entry list \<Rightarrow> nat \<Rightarrow> nat \<Rightarrow> nat" where
  "first_free t cap i =
     (if i < cap then if kind (t ! i) = SFT_KIND_FREE then i else first_free t cap (i + 1) else SFT_MAX_ENTRIES)"
  by pat_completeness auto
termination
  by (relation "measure (\<lambda>(t, cap, i). cap - i)") auto

definition sft_alloc :: "sft_state \<Rightarrow> nat" where
  "sft_alloc s = (let cap = (if g_files_limit s > SFT_MAX_ENTRIES then SFT_MAX_ENTRIES else g_files_limit s)
                  in first_free (g_sft s) cap SFT_FIRST_FILE)"

definition sft_set_files_limit :: "sft_state \<Rightarrow> nat \<Rightarrow> sft_state \<times> nat" where
  "sft_set_files_limit s files =
     (let f1 = (if files > SFT_MAX_ENTRIES then SFT_MAX_ENTRIES else files);
          f2 = (if f1 < SFT_FIRST_FILE then SFT_FIRST_FILE else f1)
      in (s\<lparr>g_files_limit := f2\<rparr>, f2))"

definition sft_release :: "sft_state \<Rightarrow> nat \<Rightarrow> sft_state option" where
  "sft_release s idx =
     (if idx \<ge> SFT_MAX_ENTRIES \<or> kind (g_sft s ! idx) = SFT_KIND_FREE then None
      else let e = g_sft s ! idx;
               e' = (if ref_count e > 0 then e\<lparr>ref_count := ref_count e - 1\<rparr> else e)
           in Some (s\<lparr>g_sft := (g_sft s)[idx := if ref_count e' = 0 then sft_zero else e']\<rparr>))"

definition ref_inc :: "sft_state \<Rightarrow> nat \<Rightarrow> sft_state" where
  "ref_inc s idx = s\<lparr>g_sft := (g_sft s)[idx := (g_sft s ! idx)\<lparr>ref_count := inc16 (ref_count (g_sft s ! idx))\<rparr>]\<rparr>"

text \<open>The tables, the error code, and the handle stored through \<open>out_handle\<close> on success.\<close>

definition sft_dup :: "sft_state \<Rightarrow> psp \<Rightarrow> nat \<Rightarrow> (sft_state \<times> psp \<times> nat \<times> nat option) option" where
  "sft_dup s psp src = (case sft_from_handle s psp src of
     None \<Rightarrow> None
   | Some None \<Rightarrow> Some (s, psp, SFT_ERR_INVALID_HANDLE, None)
   | Some (Some e) \<Rightarrow>
       let j = jft_alloc psp in
         if j = JFT_CLOSED then Some (s, psp, SFT_ERR_TOO_MANY_OPEN, None)
         else let jft = the psp; sft_idx = jft ! src
              in Some (ref_inc s sft_idx, Some (jft[j := sft_idx]), SFT_OK, Some j))"

definition sft_dup2 :: "sft_state \<Rightarrow> psp \<Rightarrow> nat \<Rightarrow> nat \<Rightarrow> (sft_state \<times> psp \<times> nat) option" where
  "sft_dup2 s psp src dst = (case sft_from_handle s psp src of
     None \<Rightarrow> None
   | Some None \<Rightarrow> Some (s, psp, SFT_ERR_INVALID_HANDLE)
   | Some (Some e) \<Rightarrow>
       if dst \<ge> JFT_MAX_ENTRIES then Some (s, psp, SFT_ERR_INVALID_HANDLE)
       else if src = dst then Some (s, psp, SFT_OK)
       else let jft = the psp in
         case (if jft ! dst \<noteq> JFT_CLOSED then sft_release s (jft ! dst) else Some s) of
           None \<Rightarrow> None
         | Some s1 \<Rightarrow> let sft_idx = jft ! src
                      in Some (ref_inc s1 sft_idx, Some (jft[dst := sft_idx]), SFT_OK))"

text \<open>The loops over the 20 handles; each pass reads and writes its own \<open>jft[h]\<close> only.\<close>

fun close_handles :: "sft_state \<Rightarrow> nat list \<Rightarrow> (sft_state \<times> nat list) option" where
  "close_handles s [] = Some (s, [])"
| "close_handles s (idx # js) =
     (if idx = JFT_CLOSED then map_option (map_prod id (Cons idx)) (close_handles s js)
      else if idx \<ge> SFT_MAX_ENTRIES \<or> kind (g_sft s ! idx) = SFT_KIND_FREE then None
      else if idx < SFT_FIRST_FILE then map_option (map_prod id (Cons idx)) (close_handles s js)
      else if kind (g_sft s ! idx) \<noteq> SFT_KIND_FILE \<and> kind (g_sft s ! idx) \<noteq> SFT_KIND_DEVICE
      then map_option (map_prod id (Cons idx)) (close_handles s js)
      else case sft_release s idx of
             None \<Rightarrow> None
           | Some s1 \<Rightarrow> map_option (map_prod id (Cons JFT_CLOSED)) (close_handles s1 js))"

definition sft_close_process :: "sft_state \<Rightarrow> psp \<Rightarrow> (sft_state \<times> psp) option" where
  "sft_close_process s psp = (case psp of
     None \<Rightarrow> Some (s, None)
   | Some jft \<Rightarrow> map_option (map_prod id Some) (close_handles s jft))"

fun inherit_handles :: "sft_state \<Rightarrow> nat list \<Rightarrow> sft_state option" where
  "inherit_handles s [] = Some s"
| "inherit_handles s (idx # js) =
     (if idx = JFT_CLOSED then inherit_handles s js
      else if idx \<ge> SFT_MAX_ENTRIES \<or> kind (g_sft s ! idx) = SFT_KIND_FREE then None
      else if idx < SFT_FIRST_FILE then inherit_handles s js
      else inherit_handles (ref_inc s idx) js)"

definition sft_inherit :: "sft_state \<Rightarrow> psp \<Rightarrow> sft_state option" where
  "sft_inherit s psp = (case psp of None \<Rightarrow> Some s | Some jft \<Rightarrow> inherit_handles s jft)"

text \<open>The \<open>jft\<close> that \<open>psp_build\<close> lays (\<open>os/milton/psp.c\<close>): the parent's, or the five standard handles.\<close>

definition psp_jft :: "nat list option \<Rightarrow> nat list" where
  "psp_jft parent_jft = (case parent_jft of
     Some jft \<Rightarrow> take 20 jft
   | None \<Rightarrow> [0, 1, 1, 2, 3] @ replicate 15 JFT_CLOSED)"

declare first_free.simps [simp del]

end
