(* ===== verification/Int21File.thy ===== *)
theory Int21File imports Sft begin

text \<open>
  The handle services of \<open>os/milton/int21.c\<close> that move the tables of theory \<open>Sft\<close>: OPEN, CREAT, CLOSE, DUP
  and DUP2. What a path names (the device chain, the directory walk, the volume backend) is a parameter:
  \<open>lookup\<close> answers for \<open>dev_open_lookup\<close>, \<open>resolve\<close> for \<open>resolve_dir_path\<close>, and \<open>backend\<close> for the volume's
  \<open>open\<close> and \<open>create\<close> functions, \<open>None\<close> where none is bound.
\<close>

record reg_frame =
  eax :: u32
  ebx :: u32
  ecx :: u32
  carry :: bool

text \<open>\<open>set_ax\<close>, and the low byte of \<open>eax\<close>.\<close>

definition set_ax :: "reg_frame \<Rightarrow> nat \<Rightarrow> reg_frame" where
  "set_ax f v = f\<lparr>eax := (eax f AND 0xFFFF0000) OR of_nat v\<rparr>"

definition fail_with :: "reg_frame \<Rightarrow> nat \<Rightarrow> reg_frame" where
  "fail_with f v = (set_ax f v)\<lparr>carry := True\<rparr>"

definition frame_al :: "reg_frame \<Rightarrow> nat" where
  "frame_al f = unat (eax f AND 0xFF)"

abbreviation (input) INT21_ERR_FILE_NOT_FOUND :: nat where "INT21_ERR_FILE_NOT_FOUND \<equiv> 2"
abbreviation (input) INT21_ERR_TOO_MANY_OPEN :: nat where "INT21_ERR_TOO_MANY_OPEN \<equiv> 4"
abbreviation (input) INT21_ERR_ACCESS_DENIED :: nat where "INT21_ERR_ACCESS_DENIED \<equiv> 5"
abbreviation (input) INT21_ERR_INVALID_HANDLE :: nat where "INT21_ERR_INVALID_HANDLE \<equiv> 6"
abbreviation (input) INT21_ERR_FILE_EXISTS :: nat where "INT21_ERR_FILE_EXISTS \<equiv> 0x50"

text \<open>The tables, the current process's \<open>jft\<close> and the code AH=59h reports.\<close>

record int21_files =
  sft :: sft_state
  cur_psp :: psp
  g_last_error :: nat

type_synonym path = "u8 list"

record volume =
  vol_open :: "(path \<Rightarrow> u16 \<Rightarrow> nat \<times> dir_entry \<times> u32) option"
  vol_create :: "(path \<Rightarrow> u16 \<Rightarrow> nat \<times> dir_entry \<times> u32) option"
  vol_drive :: nat

definition int21_note_error :: "int21_files \<Rightarrow> nat \<Rightarrow> int21_files" where
  "int21_note_error w c = w\<lparr>g_last_error := c\<rparr>"

text \<open>The slot pair a new handle takes, both secured before anything is written.\<close>

definition new_slots :: "int21_files \<Rightarrow> (nat \<times> nat) option" where
  "new_slots w =
     (let sft_idx = sft_alloc (sft w); handle = jft_alloc (cur_psp w)
      in if sft_idx \<ge> SFT_MAX_ENTRIES then None else if handle = JFT_CLOSED then None else Some (sft_idx, handle))"

definition commit_handle :: "int21_files \<Rightarrow> nat \<Rightarrow> nat \<Rightarrow> sft_entry \<Rightarrow> int21_files" where
  "commit_handle w sft_idx handle e =
     w\<lparr>sft := (sft w)\<lparr>g_sft := (g_sft (sft w))[sft_idx := e]\<rparr>,
       cur_psp := map_option (\<lambda>jft. jft[handle := sft_idx]) (cur_psp w)\<rparr>"

definition open_ok :: "reg_frame \<Rightarrow> nat \<Rightarrow> reg_frame" where
  "open_ok f handle = (set_ax f handle)\<lparr>carry := False\<rparr>"

text \<open>\<open>path\<close> is \<open>None\<close> for a null pointer.\<close>

definition do_open ::
    "(path \<Rightarrow> nat option) \<Rightarrow> (path \<Rightarrow> nat \<times> path \<times> u16) \<Rightarrow> volume option \<Rightarrow>
     int21_files \<Rightarrow> reg_frame \<Rightarrow> path option \<Rightarrow> int21_files \<times> reg_frame" where
  "do_open lookup resolve vol w f path = (case path of
     None \<Rightarrow> (w, fail_with f INT21_ERR_FILE_NOT_FOUND)
   | Some p \<Rightarrow>
     if p = [] then (w, fail_with f INT21_ERR_FILE_NOT_FOUND)
     else let mode = frame_al f in case lookup p of
       Some dev \<Rightarrow>
         (case new_slots w of
            None \<Rightarrow> (w, fail_with f INT21_ERR_TOO_MANY_OPEN)
          | Some (sft_idx, handle) \<Rightarrow>
              let e = (g_sft (sft w) ! sft_idx)\<lparr>kind := SFT_KIND_DEVICE, open_mode := mode, dev_id := SFT_DEV_AUX,
                    con_eof := 0, ref_count := 1, device := Some dev, file_offset := 0, root_slot := 0, dir_start := 0\<rparr>
              in (commit_handle w sft_idx handle e, open_ok f handle))
     | None \<Rightarrow>
         (case resolve p of (perr, leaf, dir_start') \<Rightarrow>
            if perr \<noteq> 0 then (int21_note_error w perr, fail_with f perr)
            else case vol of
              None \<Rightarrow> (w, fail_with f INT21_ERR_FILE_NOT_FOUND)
            | Some g_file \<Rightarrow> (case vol_open g_file of
                None \<Rightarrow> (w, fail_with f INT21_ERR_FILE_NOT_FOUND)
              | Some file_open \<Rightarrow> (case new_slots w of
                  None \<Rightarrow> (w, fail_with f INT21_ERR_TOO_MANY_OPEN)
                | Some (sft_idx, handle) \<Rightarrow> (case file_open leaf dir_start' of (err, de, slot) \<Rightarrow>
                    if err \<noteq> 0 then (int21_note_error w err, fail_with f err)
                    else if mode AND 3 \<noteq> 0 \<and> attribute de AND 1 \<noteq> 0
                    then (int21_note_error w INT21_ERR_ACCESS_DENIED, fail_with f INT21_ERR_ACCESS_DENIED)
                    else let e = (g_sft (sft w) ! sft_idx)\<lparr>kind := SFT_KIND_FILE, open_mode := mode, dev_id := 0,
                               ref_count := 1, entry_dir := de, file_offset := 0, root_slot := slot,
                               drive := vol_drive g_file, dir_start := dir_start'\<rparr>
                         in (commit_handle w sft_idx handle e, open_ok f handle))))))"

text \<open>The common tail of CREAT and CREATNEW.\<close>

definition create_handle ::
    "(path \<Rightarrow> u16 \<Rightarrow> nat \<times> dir_entry \<times> u32) \<Rightarrow> nat \<Rightarrow> int21_files \<Rightarrow> reg_frame \<Rightarrow> path \<Rightarrow> u16 \<Rightarrow> int21_files \<times> reg_frame" where
  "create_handle create g_io_drive w f leaf dir_start' = (case new_slots w of
     None \<Rightarrow> (w, fail_with f INT21_ERR_TOO_MANY_OPEN)
   | Some (sft_idx, handle) \<Rightarrow> (case create leaf dir_start' of (err, de, slot) \<Rightarrow>
       if err \<noteq> 0 then (w, fail_with f err)
       else let e = (g_sft (sft w) ! sft_idx)\<lparr>kind := SFT_KIND_FILE, open_mode := SFT_MODE_WRITE, dev_id := 0,
                  ref_count := 1, entry_dir := de, file_offset := 0, root_slot := slot, drive := g_io_drive,
                  dir_start := dir_start'\<rparr>
            in (commit_handle w sft_idx handle e, open_ok f handle)))"

definition do_creat ::
    "(path \<Rightarrow> nat option) \<Rightarrow> (path \<Rightarrow> nat \<times> path \<times> u16) \<Rightarrow> volume option \<Rightarrow>
     int21_files \<Rightarrow> reg_frame \<Rightarrow> path option \<Rightarrow> int21_files \<times> reg_frame" where
  "do_creat lookup resolve vol w f path = (case path of
     None \<Rightarrow> (w, fail_with f INT21_ERR_FILE_NOT_FOUND)
   | Some p \<Rightarrow>
     if p = [] then (w, fail_with f INT21_ERR_FILE_NOT_FOUND)
     else if lookup p \<noteq> None
     then do_open lookup resolve vol w (f\<lparr>eax := (eax f AND NOT 255) OR 2\<rparr>) path
     else case resolve p of (perr, leaf, dir_start') \<Rightarrow>
       if perr \<noteq> 0 then (int21_note_error w perr, fail_with f perr)
       else case vol of
         None \<Rightarrow> (w, fail_with f INT21_ERR_ACCESS_DENIED)
       | Some g_file \<Rightarrow> (case vol_create g_file of
           None \<Rightarrow> (w, fail_with f INT21_ERR_ACCESS_DENIED)
         | Some create \<Rightarrow> create_handle create (vol_drive g_file) w f leaf dir_start'))"

definition do_creatnew ::
    "(path \<Rightarrow> nat option) \<Rightarrow> (path \<Rightarrow> nat \<times> path \<times> u16) \<Rightarrow> volume option \<Rightarrow>
     int21_files \<Rightarrow> reg_frame \<Rightarrow> path option \<Rightarrow> int21_files \<times> reg_frame" where
  "do_creatnew lookup resolve vol w f path = (case path of
     None \<Rightarrow> (w, fail_with f INT21_ERR_FILE_NOT_FOUND)
   | Some p \<Rightarrow>
     if lookup p \<noteq> None then (w, fail_with f INT21_ERR_ACCESS_DENIED)
     else if p = [] then (w, fail_with f INT21_ERR_FILE_NOT_FOUND)
     else case resolve p of (perr, leaf, dir_start') \<Rightarrow>
       if perr \<noteq> 0 then (int21_note_error w perr, fail_with f perr)
       else case vol of
         None \<Rightarrow> (w, fail_with f INT21_ERR_ACCESS_DENIED)
       | Some g_file \<Rightarrow> (case vol_create g_file of
           None \<Rightarrow> (w, fail_with f INT21_ERR_ACCESS_DENIED)
         | Some create \<Rightarrow> (case vol_open g_file of
             None \<Rightarrow> (w, fail_with f INT21_ERR_ACCESS_DENIED)
           | Some file_open \<Rightarrow>
               if fst (file_open leaf dir_start') = 0 then (w, fail_with f INT21_ERR_FILE_EXISTS)
               else create_handle create (vol_drive g_file) w f leaf dir_start')))"

text \<open>Dropping one reference in CLOSE; the backend's \<open>close\<close> hook moves no table.\<close>

definition drop_ref :: "sft_state \<Rightarrow> nat \<Rightarrow> sft_state" where
  "drop_ref s idx =
     (let e = g_sft s ! idx;
          e' = (if ref_count e > 0 then e\<lparr>ref_count := ref_count e - 1\<rparr> else e)
      in s\<lparr>g_sft := (g_sft s)[idx := if ref_count e' = 0 then sft_zero else e']\<rparr>)"

definition do_close :: "int21_files \<Rightarrow> reg_frame \<Rightarrow> (int21_files \<times> reg_frame) option" where
  "do_close w f =
     (let handle = unat (ebx f) in
      if handle > 0xFF then Some (w, fail_with f INT21_ERR_INVALID_HANDLE)
      else if handle \<le> 4 then Some (w, f\<lparr>carry := False\<rparr>)
      else case sft_from_handle (sft w) (cur_psp w) handle of
        None \<Rightarrow> None
      | Some None \<Rightarrow> Some (w, fail_with f INT21_ERR_INVALID_HANDLE)
      | Some (Some e) \<Rightarrow>
          let sft_idx = the (cur_psp w) ! handle
          in Some (w\<lparr>sft := drop_ref (sft w) sft_idx,
                     cur_psp := map_option (\<lambda>jft. jft[handle := JFT_CLOSED]) (cur_psp w)\<rparr>, f\<lparr>carry := False\<rparr>))"

definition do_dup :: "int21_files \<Rightarrow> reg_frame \<Rightarrow> (int21_files \<times> reg_frame) option" where
  "do_dup w f = (case sft_dup (sft w) (cur_psp w) (unat (ebx f AND 0xFF)) of
     None \<Rightarrow> None
   | Some (s, psp, rc, newh) \<Rightarrow>
       if rc \<noteq> SFT_OK then Some (w\<lparr>sft := s, cur_psp := psp\<rparr>, fail_with f rc)
       else Some (w\<lparr>sft := s, cur_psp := psp\<rparr>,
                  f\<lparr>eax := (eax f AND 0xFFFFFF00) OR of_nat (case newh of None \<Rightarrow> 0 | Some h \<Rightarrow> h), carry := False\<rparr>))"

definition do_dup2 :: "int21_files \<Rightarrow> reg_frame \<Rightarrow> (int21_files \<times> reg_frame) option" where
  "do_dup2 w f = (case sft_dup2 (sft w) (cur_psp w) (unat (ebx f AND 0xFF)) (unat (ecx f AND 0xFF)) of
     None \<Rightarrow> None
   | Some (s, psp, rc) \<Rightarrow>
       if rc \<noteq> SFT_OK then Some (w\<lparr>sft := s, cur_psp := psp\<rparr>, fail_with f rc)
       else Some (w\<lparr>sft := s, cur_psp := psp\<rparr>, f\<lparr>carry := False\<rparr>))"

end
