(* ===== verification/SftProps.thy ===== *)
theory SftProps imports Int21File begin

text \<open>
  The handle tables over a chain of processes: a slot from 4 on counts exactly the handles of the
  suspended and running processes that refer to it, and is free when there are none; a resident device
  slot, 0 to 3, is not counted by EXEC and exit. The theory also shows what goes wrong when a process
  redirects a resident handle and ends without restoring it.
\<close>

lemma replicate_numeral: "replicate (numeral k) x = x # replicate (pred_numeral k) x"
  by (simp add: numeral_eq_Suc)

section \<open>Single slots\<close>

lemma ref_inc_length [simp]: "length (g_sft (ref_inc s i)) = length (g_sft s)" "g_files_limit (ref_inc s i) = g_files_limit s"
  by (simp_all add: ref_inc_def)

definition live :: "sft_state \<Rightarrow> nat \<Rightarrow> bool" where
  "live s i \<longleftrightarrow> i < length (g_sft s) \<and> kind (g_sft s ! i) \<noteq> SFT_KIND_FREE"

definition refs :: "sft_state \<Rightarrow> nat \<Rightarrow> nat" where
  "refs s i = ref_count (g_sft s ! i)"

lemma ref_inc_entry:
  "j < length (g_sft s) \<Longrightarrow> g_sft (ref_inc s i) ! j =
     (if j = i then (g_sft s ! i)\<lparr>ref_count := inc16 (refs s i)\<rparr> else g_sft s ! j)"
  by (auto simp: ref_inc_def refs_def nth_list_update)

lemma ref_inc_slot:
  assumes "j < length (g_sft s)"
  shows "refs (ref_inc s i) j = (if i = j then inc16 (refs s j) else refs s j)" "live (ref_inc s i) j = live s j"
  unfolding refs_def live_def using ref_inc_entry [OF assms, of i] assms by (simp_all add: refs_def)

lemma kind_zero [simp]: "kind sft_zero = SFT_KIND_FREE" "ref_count sft_zero = 0"
  by (simp_all add: sft_zero_def)

lemma sft_release_slot:
  assumes "length (g_sft s) = 20" "live s i" "0 < refs s i"
  obtains s' where "sft_release s i = Some s'" "length (g_sft s') = 20" "g_files_limit s' = g_files_limit s"
    "\<And>j. j < 20 \<Longrightarrow> g_sft s' ! j = (if j = i then if refs s i = 1 then sft_zero
        else (g_sft s ! i)\<lparr>ref_count := refs s i - 1\<rparr> else g_sft s ! j)"
proof -
  have i: "i < 20" "\<not> (i \<ge> 20 \<or> kind (g_sft s ! i) = SFT_KIND_FREE)" using assms(1,2) by (auto simp: live_def)
  let ?e = "(g_sft s ! i)\<lparr>ref_count := refs s i - 1\<rparr>"
  let ?s = "s\<lparr>g_sft := (g_sft s)[i := if refs s i - 1 = 0 then sft_zero else ?e]\<rparr>"
  have "sft_release s i = Some ?s"
    unfolding sft_release_def if_not_P [OF i(2)] using assms(3) by (simp add: refs_def Let_def)
  then show thesis by (rule that) (use assms i in auto)
qed

section \<open>Counting handles\<close>

text \<open>The number of handles of a table that refer to slot \<open>i\<close>.\<close>

abbreviation uses :: "nat list \<Rightarrow> nat \<Rightarrow> nat" where
  "uses jft i \<equiv> count_list jft i"

definition total_uses :: "nat list list \<Rightarrow> nat \<Rightarrow> nat" where
  "total_uses js i = sum_list (map (\<lambda>j. uses j i) js)"

lemma total_uses_simps [simp]: "total_uses [] i = 0" "total_uses (j # js) i = uses j i + total_uses js i"
  by (simp_all add: total_uses_def)

lemma uses_update:
  "h < length jft \<Longrightarrow> uses (jft[h := x]) i + (if jft ! h = i then 1 else 0) = uses jft i + (if x = i then 1 else 0)"
proof (induction jft arbitrary: h)
  case (Cons a jft)
  show ?case
  proof (cases h)
    case (Suc k)
    with Cons.prems Cons.IH [of k] show ?thesis by (auto split: if_splits)
  qed simp
qed simp

lemma uses_pos: "h < length jft \<Longrightarrow> 0 < uses jft (jft ! h)"
  using count_list_0_iff [of jft "jft ! h"] by (metis gr0I nth_mem)

lemma uses_le: "uses jft i \<le> length jft"
  by (induction jft) auto

text \<open>Every handle is closed or refers to a live slot.\<close>

definition jft_ok :: "sft_state \<Rightarrow> nat list \<Rightarrow> bool" where
  "jft_ok s jft \<longleftrightarrow> length jft = 20 \<and> (\<forall>x \<in> set jft. x = JFT_CLOSED \<or> x < 20 \<and> live s x)"

text \<open>\<open>close_handles\<close> takes from every counted slot the handles of the table, and nothing else.\<close>

lemma close_handles_spec:
  assumes "length (g_sft s) = 20" "\<forall>x \<in> set js. x = JFT_CLOSED \<or> x < 20 \<and> live s x"
    and "\<forall>i. 4 \<le> i \<longrightarrow> i < 20 \<longrightarrow> uses js i \<le> refs s i"
    and "\<forall>i. 4 \<le> i \<longrightarrow> i < 20 \<longrightarrow> (kind (g_sft s ! i) = SFT_KIND_FREE \<longleftrightarrow> refs s i = 0)"
  shows "\<exists>s'. close_handles s js = Some (s', map (\<lambda>x. if x < 4 then x else JFT_CLOSED) js) \<and>
    length (g_sft s') = 20 \<and> g_files_limit s' = g_files_limit s \<and> (\<forall>i < 20. g_sft s' ! i = (if i < 4 \<or> uses js i = 0 then g_sft s ! i
       else if uses js i = refs s i then sft_zero else (g_sft s ! i)\<lparr>ref_count := refs s i - uses js i\<rparr>))"
  using assms
proof (induction js arbitrary: s)
  case (Cons x js)
  have rest: "\<forall>y \<in> set js. y = JFT_CLOSED \<or> y < 20 \<and> live s y" using Cons.prems(2) by simp
  consider "x = JFT_CLOSED" | "x \<noteq> JFT_CLOSED" "x < 4" | "x \<noteq> JFT_CLOSED" "4 \<le> x" by linarith
  then show ?case
  proof cases
    case 1
    have "\<forall>i. 4 \<le> i \<longrightarrow> i < 20 \<longrightarrow> uses js i \<le> refs s i" using Cons.prems(3) 1 by force
    from Cons.IH [OF Cons.prems(1) rest this Cons.prems(4)] 1 show ?thesis by auto
  next
    case 2
    have "\<forall>i. 4 \<le> i \<longrightarrow> i < 20 \<longrightarrow> uses js i \<le> refs s i" using Cons.prems(3) 2 by force
    moreover have "live s x" using Cons.prems(2) 2 by simp
    ultimately show ?thesis using Cons.IH [OF Cons.prems(1) rest _ Cons.prems(4)] 2 by (auto simp: live_def)
  next
    case 3
    then have x: "x < 20" "live s x" using Cons.prems(2) by auto
    have pos: "uses js x + 1 \<le> refs s x" using Cons.prems(3) 3 x by force
    then have "0 < refs s x" by simp
    obtain s1 where s1: "sft_release s x = Some s1" "length (g_sft s1) = 20" "g_files_limit s1 = g_files_limit s"
      "\<And>j. j < 20 \<Longrightarrow> g_sft s1 ! j = (if j = x then if refs s x = 1 then sft_zero
        else (g_sft s ! x)\<lparr>ref_count := refs s x - 1\<rparr> else g_sft s ! j)"
      by (rule sft_release_slot [OF Cons.prems(1) x(2) \<open>0 < refs s x\<close>]) blast
    have r1: "refs s1 i = (if i = x then refs s x - 1 else refs s i)" if "i < 20" for i
      using s1(4) [OF that] pos by (auto simp: refs_def)
    have k1: "kind (g_sft s1 ! i) = (if i = x \<and> refs s x = 1 then SFT_KIND_FREE else kind (g_sft s ! i))" if "i < 20" for i
      using s1(4) [OF that] by auto
    have u1: "\<forall>i. 4 \<le> i \<longrightarrow> i < 20 \<longrightarrow> uses js i \<le> refs s1 i"
    proof (intro allI impI)
      fix i :: nat assume i: "4 \<le> i" "i < 20"
      show "uses js i \<le> refs s1 i"
        using Cons.prems(3) [rule_format, OF i] r1 [OF i(2)] pos by (auto split: if_splits)
    qed
    have l1: "\<forall>y \<in> set js. y = JFT_CLOSED \<or> y < 20 \<and> live s1 y"
    proof
      fix y assume y: "y \<in> set js"
      with rest consider "y = JFT_CLOSED" | "y < 20" "live s y" by blast
      then show "y = JFT_CLOSED \<or> y < 20 \<and> live s1 y"
      proof cases
        case 2
        have "refs s x \<noteq> 1" if "y = x" using pos y that count_list_0_iff [of js y] by auto
        with 2 k1 [OF 2(1)] s1(2) show ?thesis by (auto simp: live_def)
      qed simp
    qed
    have f1: "\<forall>i. 4 \<le> i \<longrightarrow> i < 20 \<longrightarrow> (kind (g_sft s1 ! i) = SFT_KIND_FREE \<longleftrightarrow> refs s1 i = 0)"
      using k1 r1 Cons.prems(4) pos x(2) by (auto simp: live_def)
    from Cons.IH [OF s1(2) l1 u1 f1] obtain s' where s': "close_handles s1 js = Some (s', map (\<lambda>x. if x < 4 then x else JFT_CLOSED) js)"
      "length (g_sft s') = 20" "g_files_limit s' = g_files_limit s1" "\<forall>i < 20. g_sft s' ! i = (if i < 4 \<or> uses js i = 0 then g_sft s1 ! i
       else if uses js i = refs s1 i then sft_zero else (g_sft s1 ! i)\<lparr>ref_count := refs s1 i - uses js i\<rparr>)" by blast
    have "\<not> (x \<ge> 20 \<or> kind (g_sft s ! x) = SFT_KIND_FREE)" "\<not> x < 4" using x 3 by (auto simp: live_def)
    moreover have "\<not> (kind (g_sft s ! x) \<noteq> SFT_KIND_FILE \<and> kind (g_sft s ! x) \<noteq> SFT_KIND_DEVICE)"
      using x by (cases "kind (g_sft s ! x)") (auto simp: live_def)
    ultimately have "close_handles s (x # js) = Some (s', map (\<lambda>x. if x < 4 then x else JFT_CLOSED) (x # js))"
      using 3 s1(1) s'(1) by simp
    moreover have "g_sft s' ! i = (if i < 4 \<or> uses (x # js) i = 0 then g_sft s ! i
       else if uses (x # js) i = refs s i then sft_zero else (g_sft s ! i)\<lparr>ref_count := refs s i - uses (x # js) i\<rparr>)"
      if "i < 20" for i
      using s'(4) that s1(4) [OF that] r1 [OF that] pos 3 by (cases "i = x") auto
    ultimately show ?thesis using s'(2,3) s1(3) by auto
  qed
qed simp

section \<open>Tables that count a family of handles\<close>

definition counted :: "sft_state \<Rightarrow> (nat \<Rightarrow> nat) \<Rightarrow> bool" where
  "counted s us \<longleftrightarrow> length (g_sft s) = 20 \<and>
     (\<forall>i. 4 \<le> i \<longrightarrow> i < 20 \<longrightarrow> refs s i = us i \<and> (kind (g_sft s ! i) = SFT_KIND_FREE \<longleftrightarrow> us i = 0))"

definition residents_ok :: "sft_state \<Rightarrow> bool" where
  "residents_ok s \<longleftrightarrow> (\<forall>i < 4. live s i \<and> 0 < refs s i)"

definition jft_wf :: "nat list \<Rightarrow> bool" where
  "jft_wf jft \<longleftrightarrow> length jft = 20 \<and> (\<forall>x \<in> set jft. x = JFT_CLOSED \<or> x < 20)"

lemma countedD:
  "counted s us \<Longrightarrow> 4 \<le> i \<Longrightarrow> i < 20 \<Longrightarrow> refs s i = us i"
  "counted s us \<Longrightarrow> 4 \<le> i \<Longrightarrow> i < 20 \<Longrightarrow> (kind (g_sft s ! i) = SFT_KIND_FREE) = (us i = 0)"
  "counted s us \<Longrightarrow> length (g_sft s) = 20"
  by (simp_all add: counted_def)

lemma counted_cong: "counted s us \<Longrightarrow> (\<And>i. 4 \<le> i \<Longrightarrow> i < 20 \<Longrightarrow> vs i = us i) \<Longrightarrow> counted s vs"
  by (simp add: counted_def)

lemma counted_live:
  assumes "counted s us" "residents_ok s" "x < 20" "4 \<le> x \<Longrightarrow> 0 < us x"
  shows "live s x" "0 < refs s x"
  using assms by (cases "x < 4"; auto simp: counted_def residents_ok_def live_def)+

lemma jft_wf_update: "jft_wf jft \<Longrightarrow> x = JFT_CLOSED \<or> x < 20 \<Longrightarrow> jft_wf (jft[h := x])"
  by (auto simp: jft_wf_def dest: set_update_subset_insert [THEN subsetD])

text \<open>One more reference, one reference less, a slot taken.\<close>

lemma counted_inc:
  assumes "counted s us" "x < 20" "4 \<le> x \<Longrightarrow> live s x" "4 \<le> x \<Longrightarrow> us x + 1 < 0x10000"
  shows "counted (ref_inc s x) (\<lambda>i. us i + (if i = x then 1 else 0))"
  unfolding counted_def
proof (intro conjI allI impI)
  fix i :: nat assume i: "4 \<le> i" "i < 20"
  then have il: "i < length (g_sft s)" using assms(1) by (simp add: counted_def)
  note c = countedD(1,2) [OF assms(1) i]
  show "refs (ref_inc s x) i = us i + (if i = x then 1 else 0)"
    using ref_inc_slot(1) [OF il, of x] c assms(4) i by (auto simp: inc16_def)
  have "live (ref_inc s x) i = live s i" by (rule ref_inc_slot(2) [OF il])
  then show "(kind (g_sft (ref_inc s x) ! i) = SFT_KIND_FREE) = (us i + (if i = x then 1 else 0) = 0)"
    using c assms(3) il i(1) by (auto simp: live_def)
qed (use assms(1) in \<open>simp add: counted_def\<close>)

lemma release_drop: "live s x \<Longrightarrow> x < 20 \<Longrightarrow> sft_release s x = Some (drop_ref s x)"
  by (simp add: sft_release_def drop_ref_def live_def Let_def)

lemma drop_ref_entry:
  "j < length (g_sft s) \<Longrightarrow> g_sft (drop_ref s x) ! j =
     (if j = x then if refs s x \<le> 1 then sft_zero else (g_sft s ! x)\<lparr>ref_count := refs s x - 1\<rparr> else g_sft s ! j)"
  "length (g_sft (drop_ref s x)) = length (g_sft s)" "g_files_limit (drop_ref s x) = g_files_limit s"
  by (auto simp: drop_ref_def refs_def Let_def nth_list_update)

lemma counted_drop:
  assumes "counted s us" "x < 20" "4 \<le> x \<Longrightarrow> 0 < us x"
  shows "counted (drop_ref s x) (\<lambda>i. us i - (if i = x then 1 else 0))"
  unfolding counted_def
proof (intro conjI allI impI)
  fix i :: nat assume i: "4 \<le> i" "i < 20"
  then have il: "i < length (g_sft s)" using assms(1) by (simp add: counted_def)
  note c = countedD(1,2) [OF assms(1) i] and e = drop_ref_entry(1) [OF il, of x]
  show "refs (drop_ref s x) i = us i - (if i = x then 1 else 0)"
    using e c unfolding refs_def by (cases "i = x") (auto simp: refs_def)
  show "(kind (g_sft (drop_ref s x) ! i) = SFT_KIND_FREE) = (us i - (if i = x then 1 else 0) = 0)"
    unfolding e using c assms(3) i by (cases "i = x") (auto simp: refs_def)
qed (use assms(1) drop_ref_entry(2) in \<open>simp add: counted_def\<close>)

lemma counted_take:
  assumes "counted s us" "4 \<le> x" "x < 20" "us x = 0" "ref_count e = 1" "kind e \<noteq> SFT_KIND_FREE"
  shows "counted (s\<lparr>g_sft := (g_sft s)[x := e]\<rparr>) (\<lambda>i. us i + (if i = x then 1 else 0))"
  using assms by (auto simp: counted_def refs_def nth_list_update)

lemma inherit_handles_spec:
  assumes "counted s us" "\<forall>x \<in> set js. x = JFT_CLOSED \<or> x < 20 \<and> live s x"
    and "\<forall>i. us i + uses js i < 0x10000"
  shows "\<exists>s'. inherit_handles s js = Some s' \<and> counted s' (\<lambda>i. us i + uses js i) \<and> g_files_limit s' = g_files_limit s \<and>
    (\<forall>i < 20. g_sft s' ! i = (if i < 4 then g_sft s ! i else (g_sft s ! i)\<lparr>ref_count := refs s i + uses js i\<rparr>))"
  using assms
proof (induction js arbitrary: s us)
  case Nil
  then show ?case by (simp add: refs_def)
next
  case (Cons x js)
  have rest: "\<forall>y \<in> set js. y = JFT_CLOSED \<or> y < 20 \<and> live s y" using Cons.prems(2) by simp
  have len: "length (g_sft s) = 20" using Cons.prems(1) by (simp add: counted_def)
  have lt: "us i + uses js i < 0x10000" for i
    using Cons.prems(3) [rule_format, of i] by (auto split: if_splits)
  have same: "counted s' (\<lambda>i. us i + uses js i) \<Longrightarrow> x < 4 \<or> x = JFT_CLOSED \<Longrightarrow> counted s' (\<lambda>i. us i + uses (x # js) i)" for s'
    by (erule counted_cong) auto
  consider "x = JFT_CLOSED" | "x < 4" "live s x" | "4 \<le> x" "x < 20" "live s x" using Cons.prems(2) by fastforce
  then show ?case
  proof cases
    case 1
    from Cons.IH [OF Cons.prems(1) rest] lt obtain s' where "inherit_handles s js = Some s'" "counted s' (\<lambda>i. us i + uses js i)"
      "g_files_limit s' = g_files_limit s"
      "\<forall>i < 20. g_sft s' ! i = (if i < 4 then g_sft s ! i else (g_sft s ! i)\<lparr>ref_count := refs s i + uses js i\<rparr>)" by blast
    with 1 same show ?thesis by (intro exI [of _ s']) auto
  next
    case 2
    from Cons.IH [OF Cons.prems(1) rest] lt obtain s' where "inherit_handles s js = Some s'" "counted s' (\<lambda>i. us i + uses js i)"
      "g_files_limit s' = g_files_limit s"
      "\<forall>i < 20. g_sft s' ! i = (if i < 4 then g_sft s ! i else (g_sft s ! i)\<lparr>ref_count := refs s i + uses js i\<rparr>)" by blast
    with 2 same show ?thesis by (intro exI [of _ s']) (auto simp: live_def)
  next
    case 3
    let ?s = "ref_inc s x" and ?us = "\<lambda>i. us i + (if i = x then 1 else 0)"
    have "us x + 1 < 0x10000" using Cons.prems(3) [rule_format, of x] by simp
    then have c: "counted ?s ?us" using counted_inc [OF Cons.prems(1) 3(2,3)] by simp
    have l: "\<forall>y \<in> set js. y = JFT_CLOSED \<or> y < 20 \<and> live ?s y" using rest ref_inc_slot(2) [of _ s x] len by auto
    have b: "\<forall>i. ?us i + uses js i < 0x10000"
    proof
      fix i show "?us i + uses js i < 0x10000" using Cons.prems(3) [rule_format, of i] by (cases "i = x") auto
    qed
    from Cons.IH [OF c l b] obtain s' where s': "inherit_handles ?s js = Some s'" "counted s' (\<lambda>i. ?us i + uses js i)"
      "g_files_limit s' = g_files_limit ?s"
      "\<forall>i < 20. g_sft s' ! i = (if i < 4 then g_sft ?s ! i else (g_sft ?s ! i)\<lparr>ref_count := refs ?s i + uses js i\<rparr>)" by blast
    have "counted s' (\<lambda>i. us i + uses (x # js) i)" by (rule counted_cong [OF s'(2)]) auto
    moreover have "inherit_handles s (x # js) = Some s'" using 3 s'(1) by (auto simp: live_def)
    moreover have "g_sft s' ! i = (if i < 4 then g_sft s ! i else (g_sft s ! i)\<lparr>ref_count := refs s i + uses (x # js) i\<rparr>)"
      if "i < 20" for i
    proof -
      have "refs s x + 1 < 0x10000" using countedD(1) [OF Cons.prems(1) 3(1,2)] Cons.prems(3) [rule_format, of x] by simp
      then have "inc16 (refs s x) = refs s x + 1" by (simp add: inc16_def)
      with s'(4) [rule_format, OF that] ref_inc_entry [of i s x] ref_inc_slot(1) [of i s x] that len 3 show ?thesis
        by (cases "i = x") auto
    qed
    ultimately show ?thesis using s'(3) by (intro exI [of _ s']) simp
  qed
qed

section \<open>A chain of processes\<close>

text \<open>The running process is \<open>cur_psp\<close>; the handle tables of its suspended ancestors are kept beside it.
  A program started by EXEC gets a copy of the table; at its exit the parent resumes with its own.\<close>

type_synonym chain = "int21_files \<times> nat list list"

inductive chain_step :: "chain \<Rightarrow> chain \<Rightarrow> bool" where
  step_open: "do_open lookup resolve vol w f p = (w', f') \<Longrightarrow> chain_step (w, js) (w', js)"
| step_creat: "do_creat lookup resolve vol w f p = (w', f') \<Longrightarrow> chain_step (w, js) (w', js)"
| step_creatnew: "do_creatnew lookup resolve vol w f p = (w', f') \<Longrightarrow> chain_step (w, js) (w', js)"
| step_close: "do_close w f = Some (w', f') \<Longrightarrow> chain_step (w, js) (w', js)"
| step_dup: "do_dup w f = Some (w', f') \<Longrightarrow> chain_step (w, js) (w', js)"
| step_dup2: "do_dup2 w f = Some (w', f') \<Longrightarrow> chain_step (w, js) (w', js)"
| step_exec: "cur_psp w = Some jft \<Longrightarrow> length js < 3000 \<Longrightarrow> child = Some (psp_jft (cur_psp w)) \<Longrightarrow>
    sft_inherit (sft w) child = Some s' \<Longrightarrow> chain_step (w, js) (w\<lparr>sft := s', cur_psp := child\<rparr>, jft # js)"
| step_exit: "sft_close_process (sft w) (cur_psp w) = Some (s', psp') \<Longrightarrow>
    chain_step (w, parent # js) (w\<lparr>sft := s', cur_psp := Some parent\<rparr>, js)"

text \<open>What boot and any number of steps reach. A step whose handle service traps has no successor.\<close>

inductive chain_reach :: "chain \<Rightarrow> bool" where
  reach_boot: "chain_reach (\<lparr>sft = sft_init s, cur_psp = Some (psp_jft None), g_last_error = c\<rparr>, [])"
| reach_step: "chain_reach c \<Longrightarrow> chain_step c c' \<Longrightarrow> chain_reach c'"

lemma total_uses_le: "\<forall>j \<in> set js. jft_wf j \<Longrightarrow> total_uses js i \<le> 20 * length js"
proof (induction js)
  case (Cons j js)
  then show ?case using uses_le [of j i] by (simp add: jft_wf_def)
qed simp

lemma total_uses_small: "\<forall>j \<in> set js. jft_wf j \<Longrightarrow> length js \<le> 3001 \<Longrightarrow> total_uses js i + 20 < 0x10000"
  using total_uses_le [of js i] by linarith

text \<open>A handle on a slot from 4 on is on a live slot; only one on a resident slot can be dead.\<close>

definition dead_resident :: "sft_state \<Rightarrow> nat \<Rightarrow> bool" where
  "dead_resident s x \<longleftrightarrow> x < 4 \<and> \<not> live s x"

lemma chain_handles:
  assumes "counted s (total_uses (jft # js))" "jft_wf jft" "x \<in> set jft" "x \<noteq> JFT_CLOSED"
  shows "x < 20" "4 \<le> x \<Longrightarrow> live s x" "0 < total_uses (jft # js) x" "live s x \<longleftrightarrow> \<not> dead_resident s x"
proof -
  show x: "x < 20" using assms(2-4) by (auto simp: jft_wf_def)
  show p: "0 < total_uses (jft # js) x" using assms(3) count_list_0_iff [of jft x] by auto
  show l: "live s x" if "4 \<le> x" using countedD(2,3) [OF assms(1)] that x p by (auto simp: live_def)
  then show "live s x \<longleftrightarrow> \<not> dead_resident s x" by (auto simp: dead_resident_def)
qed

lemma from_handle_cases:
  assumes "counted s (total_uses (jft # js))" "jft_wf jft"
  shows "sft_from_handle s (Some jft) h =
    (if h < 20 \<and> jft ! h \<noteq> JFT_CLOSED then if dead_resident s (jft ! h) then None else Some (Some (jft ! h)) else Some None)"
proof (cases "h < 20 \<and> jft ! h \<noteq> JFT_CLOSED")
  case True
  then have "jft ! h \<in> set jft" using assms(2) by (simp add: jft_wf_def)
  from chain_handles [OF assms this] True countedD(3) [OF assms(1)] show ?thesis
    by (auto simp: sft_from_handle_def Let_def live_def)
qed (auto simp: sft_from_handle_def)

lemma from_handle_live:
  assumes "counted s (total_uses (jft # js))" "jft_wf jft" "sft_from_handle s (Some jft) h = Some (Some e)"
  shows "h < 20" "e = jft ! h" "jft ! h \<noteq> JFT_CLOSED" "jft ! h < 20" "live s (jft ! h)" "0 < total_uses (jft # js) (jft ! h)"
proof -
  have d: "\<not> dead_resident s (jft ! h)" using assms(3) from_handle_cases [OF assms(1,2), of h] by (auto split: if_splits)
  show h: "h < 20" "e = jft ! h" "jft ! h \<noteq> JFT_CLOSED"
    using assms(3) from_handle_cases [OF assms(1,2), of h] by (auto split: if_splits)
  have "jft ! h \<in> set jft" using h assms(2) by (simp add: jft_wf_def)
  from chain_handles [OF assms(1,2) this h(3)] d
  show "jft ! h < 20" "live s (jft ! h)" "0 < total_uses (jft # js) (jft ! h)" by auto
qed

lemma first_closed_cases:
  "first_closed xs i = JFT_CLOSED \<and> JFT_CLOSED \<notin> set xs \<or>
   (\<exists>h < length xs. first_closed xs i = i + h \<and> xs ! h = JFT_CLOSED \<and> (\<forall>k < h. xs ! k \<noteq> JFT_CLOSED))"
proof (induction xs arbitrary: i)
  case (Cons x xs)
  show ?case
  proof (cases "x = JFT_CLOSED")
    case True
    then show ?thesis by (intro disjI2 exI [of _ 0]) simp
  next
    case False
    from Cons.IH [of "i + 1"] show ?thesis
    proof (elim disjE exE conjE)
      fix h assume h: "h < length xs" "first_closed xs (i + 1) = i + 1 + h" "xs ! h = JFT_CLOSED" "\<forall>k < h. xs ! k \<noteq> JFT_CLOSED"
      have "\<forall>k < Suc h. (x # xs) ! k \<noteq> JFT_CLOSED" using False h(4) by (simp add: All_less_Suc2)
      with False h show ?thesis by (intro disjI2 exI [of _ "Suc h"]) simp
    qed (use False in simp)
  qed
qed simp

lemma jft_alloc_cases:
  assumes "jft_wf jft"
  obtains (full) "jft_alloc (Some jft) = JFT_CLOSED" "JFT_CLOSED \<notin> set jft"
  | (slot) h where "jft_alloc (Some jft) = h" "h < 20" "jft ! h = JFT_CLOSED" "\<forall>k < h. jft ! k \<noteq> JFT_CLOSED"
  using first_closed_cases [of jft 0] assms by (auto simp: jft_alloc_def jft_wf_def)

lemma first_free_cases:
  obtains (full) "first_free t cap i = SFT_MAX_ENTRIES" "\<forall>k. i \<le> k \<longrightarrow> k < cap \<longrightarrow> kind (t ! k) \<noteq> SFT_KIND_FREE"
  | (slot) x where "first_free t cap i = x" "i \<le> x" "x < cap" "kind (t ! x) = SFT_KIND_FREE"
      "\<forall>k. i \<le> k \<longrightarrow> k < x \<longrightarrow> kind (t ! k) \<noteq> SFT_KIND_FREE"
proof -
  have "(first_free t cap i = SFT_MAX_ENTRIES \<and> (\<forall>k. i \<le> k \<longrightarrow> k < cap \<longrightarrow> kind (t ! k) \<noteq> SFT_KIND_FREE)) \<or>
    (i \<le> first_free t cap i \<and> first_free t cap i < cap \<and> kind (t ! first_free t cap i) = SFT_KIND_FREE \<and>
      (\<forall>k. i \<le> k \<longrightarrow> k < first_free t cap i \<longrightarrow> kind (t ! k) \<noteq> SFT_KIND_FREE))"
  proof (induction t cap i rule: first_free.induct)
    case (1 t cap i)
    show ?case
    proof (cases "i < cap")
      case True
      show ?thesis
      proof (cases "kind (t ! i) = SFT_KIND_FREE")
        case free: True
        have "first_free t cap i = i" using True free by (subst first_free.simps) simp
        with True free show ?thesis by simp
      next
        case False
        have e: "first_free t cap i = first_free t cap (i + 1)" using True False by (subst first_free.simps) simp
        have s: "i \<le> k \<longleftrightarrow> k = i \<or> i + 1 \<le> k" for k by linarith
        from "1" [OF True False] show ?thesis unfolding e using False s by auto
      qed
    next
      case False
      then have "first_free t cap i = SFT_MAX_ENTRIES" by (subst first_free.simps) simp
      with False show ?thesis by simp
    qed
  qed
  then show thesis using full slot by blast
qed

section \<open>Every step keeps the counts\<close>

lemma set_ax_low: "v < 0x10000 \<Longrightarrow> eax (set_ax f v) AND 0xFFFF = of_nat v"
proof -
  assume v: "v < 0x10000"
  have "take_bit 16 (of_nat v :: u32) = of_nat v"
    using v by (simp add: take_bit_of_nat take_bit_nat_eq_self)
  moreover have "(0xFFFF :: u32) = mask 16" by (simp add: mask_eq_exp_minus_1)
  ultimately have "of_nat v AND (0xFFFF :: u32) = of_nat v" by (simp add: take_bit_eq_mask)
  then show ?thesis by (simp add: set_ax_def bit.conj_disj_distrib2 and.assoc)
qed

lemma new_slots_cases:
  assumes "counted (sft w) (total_uses (jft # js))" "jft_wf jft" "cur_psp w = Some jft" "new_slots w = Some (x, h)"
  shows "4 \<le> x" "x < 20" "x < g_files_limit (sft w)" "total_uses (jft # js) x = 0" "h < 20" "jft ! h = JFT_CLOSED"
    "\<forall>k < h. jft ! k \<noteq> JFT_CLOSED"
proof -
  have e: "sft_alloc (sft w) = x" "x < 20" "jft_alloc (Some jft) = h" "h \<noteq> JFT_CLOSED"
    using assms(3,4) by (auto simp: new_slots_def Let_def split: if_splits)
  show "h < 20" "jft ! h = JFT_CLOSED" "\<forall>k < h. jft ! k \<noteq> JFT_CLOSED"
    using e(3,4) by (cases rule: jft_alloc_cases [OF assms(2)]; simp)+
  have "4 \<le> x \<and> x < g_files_limit (sft w) \<and> kind (g_sft (sft w) ! x) = SFT_KIND_FREE"
    using e(1,2) by (cases rule: first_free_cases [of "g_sft (sft w)"
      "if g_files_limit (sft w) > 20 then 20 else g_files_limit (sft w)" 4]) (auto simp: sft_alloc_def Let_def split: if_splits)
  then show "4 \<le> x" "x < 20" "x < g_files_limit (sft w)" "total_uses (jft # js) x = 0"
    using countedD(2) [OF assms(1), of x] e(2) by auto
qed

text \<open>An OPEN or CREAT that is refused moves no table; one that succeeds commits one new slot and handle.\<close>

definition open_result :: "int21_files \<Rightarrow> int21_files \<times> reg_frame \<Rightarrow> bool" where
  "open_result w r \<longleftrightarrow> (case r of (w', f') \<Rightarrow>
     if carry f' then sft w' = sft w \<and> cur_psp w' = cur_psp w
     else \<exists>x h e. new_slots w = Some (x, h) \<and> w' = commit_handle w x h e \<and> kind e \<noteq> SFT_KIND_FREE \<and> ref_count e = 1 \<and>
       eax f' AND 0xFFFF = of_nat h)"

lemma fail_with_carry [simp]: "carry (fail_with f v)" "sft (int21_note_error w c) = sft w" "cur_psp (int21_note_error w c) = cur_psp w"
  by (simp_all add: fail_with_def int21_note_error_def)

lemma refused_result [intro!]: "sft w' = sft w \<Longrightarrow> cur_psp w' = cur_psp w \<Longrightarrow> open_result w (w', fail_with f v)"
  by (simp add: open_result_def)

lemma new_slots_small: "new_slots w = Some (x, h) \<Longrightarrow> h < 20"
  using first_closed_cases [of "take 20 (the (cur_psp w))" 0]
  by (cases "cur_psp w") (auto simp: new_slots_def Let_def jft_alloc_def split: if_splits)

lemma opened_result:
  assumes "new_slots w = Some (x, h)" "kind e \<noteq> SFT_KIND_FREE" "ref_count e = 1"
  shows "open_result w (commit_handle w x h e, open_ok f h)"
  using assms new_slots_small [OF assms(1)] set_ax_low [of h f] by (auto simp: open_result_def open_ok_def)

lemma do_open_result: "open_result w (do_open lookup resolve vol w f p)"
  unfolding do_open_def
  by (auto split: option.split prod.split intro!: opened_result simp: Let_def)

lemma create_handle_result: "open_result w (create_handle create d w f leaf ds)"
  unfolding create_handle_def
  by (auto split: option.split prod.split intro!: opened_result simp: Let_def)

lemma do_creat_result: "open_result w (do_creat lookup resolve vol w f p)"
  unfolding do_creat_def
  by (auto split: option.split prod.split intro: do_open_result create_handle_result simp: Let_def)

lemma do_creatnew_result: "open_result w (do_creatnew lookup resolve vol w f p)"
  unfolding do_creatnew_def
  by (auto split: option.split prod.split intro: create_handle_result simp: Let_def)

text \<open>The invariant. It says nothing of the resident slots, whose references are not counted by EXEC and exit.\<close>

definition handles_ok :: "int21_files \<Rightarrow> nat list list \<Rightarrow> bool" where
  "handles_ok w js \<longleftrightarrow> (\<exists>jft. cur_psp w = Some jft \<and> counted (sft w) (total_uses (jft # js)) \<and>
     (\<forall>j \<in> set (jft # js). jft_wf j) \<and> length js \<le> 3000)"

lemma handles_set:
  assumes w: "cur_psp w = Some jft" "\<forall>j \<in> set (jft # js). jft_wf j" "length js \<le> 3000"
    and h: "h < 20" "x = JFT_CLOSED \<or> x < 20" and w': "cur_psp w' = Some (jft[h := x])"
    and c: "counted (sft w') us" "\<And>i. 4 \<le> i \<Longrightarrow> i < 20 \<Longrightarrow>
      us i + (if jft ! h = i then 1 else 0) = total_uses (jft # js) i + (if x = i then 1 else 0)"
  shows "handles_ok w' js"
proof -
  have wf: "jft_wf jft" using w(2) by simp
  have "counted (sft w') (total_uses (jft[h := x] # js))"
  proof (rule counted_cong [OF c(1)])
    fix i :: nat assume i: "4 \<le> i" "i < 20"
    have "uses (jft[h := x]) i + (if jft ! h = i then 1 else 0) = uses jft i + (if x = i then 1 else 0)"
      using wf h(1) by (intro uses_update) (simp add: jft_wf_def)
    with c(2) [OF i] show "total_uses (jft[h := x] # js) i = us i" by (auto split: if_splits)
  qed
  then show ?thesis using w w' jft_wf_update [OF wf h(2)] by (simp add: handles_ok_def)
qed

lemma open_keeps:
  assumes w: "handles_ok w js" and r: "open_result w (w', f')"
  shows "handles_ok w' js"
proof (cases "carry f'")
  case True
  with w r show ?thesis by (simp add: open_result_def handles_ok_def)
next
  case False
  with r obtain x h e where e: "new_slots w = Some (x, h)" "w' = commit_handle w x h e" "kind e \<noteq> SFT_KIND_FREE" "ref_count e = 1"
    by (auto simp: open_result_def)
  obtain jft where j: "cur_psp w = Some jft" "counted (sft w) (total_uses (jft # js))" "\<forall>j \<in> set (jft # js). jft_wf j" "length js \<le> 3000"
    using w by (auto simp: handles_ok_def)
  have "jft_wf jft" using j(3) by simp
  note n = new_slots_cases [OF j(2) this j(1) e(1)]
  have "cur_psp w' = Some (jft[h := x])" using e(2) j(1) by (simp add: commit_handle_def)
  moreover have "counted (sft w') (\<lambda>i. total_uses (jft # js) i + (if i = x then 1 else 0))"
    using counted_take [OF j(2) n(1,2,4) e(4,3)] e(2) by (simp add: commit_handle_def)
  ultimately show ?thesis
    by (rule handles_set [OF j(1,3,4) n(5), where x = x, rotated 1]) (use n in auto)
qed

lemma handles_okE:
  assumes "handles_ok w js"
  obtains jft where "cur_psp w = Some jft" "counted (sft w) (total_uses (jft # js))" "\<forall>j \<in> set (jft # js). jft_wf j"
    "length js \<le> 3000" "jft_wf jft" "length jft = 20"
  using assms by (auto simp: handles_ok_def jft_wf_def)

lemma close_keeps:
  assumes w: "handles_ok w js" and c: "do_close w f = Some (w', f')"
  shows "handles_ok w' js"
proof -
  obtain jft where j: "cur_psp w = Some jft" "counted (sft w) (total_uses (jft # js))" "\<forall>j \<in> set (jft # js). jft_wf j" "length js \<le> 3000"
    "jft_wf jft" "length jft = 20" by (rule handles_okE [OF w])
  let ?h = "unat (ebx f)"
  show ?thesis
  proof (cases "?h > 0xFF \<or> ?h \<le> 4 \<or> sft_from_handle (sft w) (Some jft) ?h = Some None")
    case True
    then show ?thesis using w c j(1) by (auto simp: do_close_def Let_def split: if_splits option.splits)
  next
    case False
    then obtain e where e: "sft_from_handle (sft w) (Some jft) ?h = Some (Some e)"
      using c j(1) by (auto simp: do_close_def Let_def split: if_splits option.splits)
    note x = from_handle_live [OF j(2,5) e]
    let ?x = "jft ! ?h"
    have "w' = w\<lparr>sft := drop_ref (sft w) ?x, cur_psp := Some (jft[?h := JFT_CLOSED])\<rparr>"
      using c False e j(1) by (auto simp: do_close_def Let_def)
    moreover have "counted (drop_ref (sft w) ?x) (\<lambda>i. total_uses (jft # js) i - (if i = ?x then 1 else 0))"
      using counted_drop [OF j(2) x(4)] x(6) by simp
    ultimately show ?thesis
      by (intro handles_set [OF j(1,3,4) x(1), where x = JFT_CLOSED and us = "\<lambda>i. total_uses (jft # js) i - (if i = ?x then 1 else 0)"])
        (use x(3,6) in auto)
  qed
qed

lemma dup_core:
  assumes w: "handles_ok w js" and d: "sft_dup (sft w) (cur_psp w) src = Some (s', psp', rc, nh)"
  shows "handles_ok (w\<lparr>sft := s', cur_psp := psp'\<rparr>) js"
proof -
  obtain jft where j: "cur_psp w = Some jft" "counted (sft w) (total_uses (jft # js))" "\<forall>j \<in> set (jft # js). jft_wf j" "length js \<le> 3000"
    "jft_wf jft" "length jft = 20" by (rule handles_okE [OF w])
  show ?thesis
  proof (cases "s' = sft w \<and> psp' = Some jft")
    case True
    then show ?thesis using w j(1) by (simp add: handles_ok_def)
  next
    case False
    then obtain e where e: "sft_from_handle (sft w) (Some jft) src = Some (Some e)" "jft_alloc (Some jft) \<noteq> JFT_CLOSED"
      using d j(1) by (auto simp: sft_dup_def Let_def split: if_splits option.splits)
    note x = from_handle_live [OF j(2,5) e(1)]
    let ?x = "jft ! src"
    obtain h where h: "jft_alloc (Some jft) = h" "h < 20" "jft ! h = JFT_CLOSED"
      using e(2) by (cases rule: jft_alloc_cases [OF j(5)]) auto
    have r: "s' = ref_inc (sft w) ?x" "psp' = Some (jft[h := ?x])" using d e h j(1) by (auto simp: sft_dup_def Let_def)
    have "total_uses (jft # js) ?x + 1 < 0x10000" using total_uses_small [OF j(3), of ?x] j(4) by simp
    then have "counted (sft (w\<lparr>sft := s', cur_psp := psp'\<rparr>)) (\<lambda>i. total_uses (jft # js) i + (if i = ?x then 1 else 0))"
      using counted_inc [OF j(2) x(4,5)] r by simp
    then show ?thesis
      by (rule handles_set [OF j(1,3,4), where h = h and x = ?x, rotated 3]) (use r h x in auto)
  qed
qed

lemma dup2_core:
  assumes w: "handles_ok w js" and d: "sft_dup2 (sft w) (cur_psp w) src dst = Some (s', psp', rc)"
  shows "handles_ok (w\<lparr>sft := s', cur_psp := psp'\<rparr>) js"
proof -
  obtain jft where j: "cur_psp w = Some jft" "counted (sft w) (total_uses (jft # js))" "\<forall>j \<in> set (jft # js). jft_wf j" "length js \<le> 3000"
    "jft_wf jft" "length jft = 20" by (rule handles_okE [OF w])
  let ?us = "total_uses (jft # js)" and ?x = "jft ! src" and ?y = "jft ! dst"
  show ?thesis
  proof (cases "s' = sft w \<and> psp' = Some jft")
    case True
    then show ?thesis using w j(1) by (simp add: handles_ok_def)
  next
    case False
    then obtain e s1 where e: "sft_from_handle (sft w) (Some jft) src = Some (Some e)" "dst < 20" "src \<noteq> dst"
      "(if ?y \<noteq> JFT_CLOSED then sft_release (sft w) ?y else Some (sft w)) = Some s1"
      and r: "s' = ref_inc s1 ?x" "psp' = Some (jft[dst := ?x])"
      using d j(1) by (auto simp: sft_dup2_def Let_def not_le split: if_splits option.splits)
    note x = from_handle_live [OF j(2,5) e(1)]
    let ?us1 = "\<lambda>i. ?us i - (if ?y \<noteq> JFT_CLOSED \<and> i = ?y then 1 else 0)"
    have y: "?y < 20" "live (sft w) ?y" "0 < ?us ?y" if "?y \<noteq> JFT_CLOSED"
    proof -
      show y20: "?y < 20" using e(4) that by (auto simp: sft_release_def split: if_splits)
      show "live (sft w) ?y" using e(4) that y20 countedD(3) [OF j(2)] by (auto simp: sft_release_def live_def split: if_splits)
      show "0 < ?us ?y" using uses_pos [of dst jft] e(2) j(6) by simp
    qed
    have s1: "s1 = (if ?y \<noteq> JFT_CLOSED then drop_ref (sft w) ?y else sft w)"
      using e(4) release_drop [OF y(2,1)] by (auto split: if_splits)
    have two: "1 < ?us ?x" if "?y = ?x"
    proof -
      have "uses (jft[dst := JFT_CLOSED]) ?x + 1 = uses jft ?x"
        using uses_update [of dst jft JFT_CLOSED ?x] that e(2) x(3) j(6) by simp
      moreover have "0 < uses (jft[dst := JFT_CLOSED]) ?x"
        using uses_pos [of src "jft[dst := JFT_CLOSED]"] e(3) x(1) j(6) by simp
      ultimately show ?thesis by simp
    qed
    have c1: "counted s1 ?us1"
      using counted_drop [OF j(2) y(1)] y(3) j(2) by (cases "?y = JFT_CLOSED") (auto simp: s1 intro: counted_cong)
    have us1: "0 < ?us1 ?x" using x(6) two by auto
    have live1: "live s1 ?x" if "4 \<le> ?x" using countedD(2,3) [OF c1] that x(4) us1 by (auto simp: live_def)
    have "?us1 ?x + 1 < 0x10000" using total_uses_small [OF j(3), of ?x] j(4) by simp
    then have "counted (ref_inc s1 ?x) (\<lambda>i. ?us1 i + (if i = ?x then 1 else 0))"
      using counted_inc [OF c1 x(4) live1] by simp
    then have "counted (sft (w\<lparr>sft := s', cur_psp := psp'\<rparr>)) (\<lambda>i. ?us1 i + (if i = ?x then 1 else 0))" using r by simp
    then show ?thesis
      by (rule handles_set [OF j(1,3,4), where h = dst and x = ?x, rotated 3]) (use r e x y(3) in auto)
  qed
qed

text \<open>EXEC and exit return unless a handle is on a dead slot.\<close>

lemma inherit_handles_live: "inherit_handles s js = Some s' \<Longrightarrow> x \<in> set js \<Longrightarrow> x \<noteq> JFT_CLOSED \<Longrightarrow> length (g_sft s) = 20 \<Longrightarrow> live s x"
proof (induction s js rule: inherit_handles.induct)
  case (2 s idx js)
  show ?case
  proof (cases "idx = JFT_CLOSED \<or> idx < SFT_FIRST_FILE")
    case True
    with "2" show ?thesis by (auto simp: live_def split: if_splits)
  next
    case False
    then have i: "\<not> (idx \<ge> SFT_MAX_ENTRIES \<or> kind (g_sft s ! idx) = SFT_KIND_FREE)" "inherit_handles (ref_inc s idx) js = Some s'"
      using "2.prems"(1) by (auto split: if_splits)
    from "2.IH"(3) [of, OF _ i(1) _ i(2)] False "2.prems" i ref_inc_slot(2) [of x s idx] show ?thesis
      by (cases "x = idx") (auto simp: live_def)
  qed
qed simp

lemma close_handles_live: "close_handles s js = Some r \<Longrightarrow> x \<in> set js \<Longrightarrow> x \<noteq> JFT_CLOSED \<Longrightarrow> length (g_sft s) = 20 \<Longrightarrow> live s x"
proof (induction js arbitrary: s r)
  case (Cons idx js)
  have step: "live s x" if "close_handles s1 js = Some r1" "x \<in> set js" "length (g_sft s1) = 20"
    "\<And>i. live s1 i \<Longrightarrow> live s i" for s1 r1
    using Cons.IH [OF that(1,2) Cons.prems(3) that(3)] that(4) by blast
  have rel: "length (g_sft s1) = 20 \<and> (\<forall>i. live s1 i \<longrightarrow> live s i)" if "sft_release s idx = Some s1" for s1
    using that Cons.prems(4) by (auto simp: sft_release_def live_def Let_def nth_list_update split: if_splits)
  show ?case
  proof (cases "x \<in> set js")
    case True
    show ?thesis using Cons.prems(1,4) rel by (auto split: if_splits option.splits intro: step [OF _ True])
  next
    case False
    then show ?thesis using Cons.prems by (auto simp: live_def split: if_splits)
  qed
qed simp

lemma chain_jft_live:
  assumes "counted s (total_uses (jft # js))" "jft_wf jft" "\<forall>x \<in> set jft. \<not> dead_resident s x"
  shows "\<forall>x \<in> set jft. x = JFT_CLOSED \<or> x < 20 \<and> live s x"
  using chain_handles(1,4) [OF assms(1,2)] assms(3) by blast

lemma exec_core:
  assumes w: "handles_ok w js" and len: "length js < 3000" and live: "\<forall>x \<in> set (the (cur_psp w)). \<not> dead_resident (sft w) x"
  shows "\<exists>s'. sft_inherit (sft w) (Some (psp_jft (cur_psp w))) = Some s' \<and> psp_jft (cur_psp w) = the (cur_psp w) \<and>
    handles_ok (w\<lparr>sft := s', cur_psp := Some (psp_jft (cur_psp w))\<rparr>) (the (cur_psp w) # js) \<and>
    g_files_limit s' = g_files_limit (sft w) \<and> (\<forall>i < 20. g_sft s' ! i = (if i < 4 then g_sft (sft w) ! i
        else (g_sft (sft w) ! i)\<lparr>ref_count := refs (sft w) i + uses (the (cur_psp w)) i\<rparr>))"
proof -
  obtain jft where j: "cur_psp w = Some jft" "counted (sft w) (total_uses (jft # js))" "\<forall>j \<in> set (jft # js). jft_wf j" "length js \<le> 3000"
    "jft_wf jft" "length jft = 20" by (rule handles_okE [OF w])
  have p: "psp_jft (cur_psp w) = jft" using j(6) by (simp add: psp_jft_def j(1))
  have b: "\<forall>i. total_uses (jft # js) i + uses jft i < 0x10000"
  proof
    fix i show "total_uses (jft # js) i + uses jft i < 0x10000"
      using total_uses_small [OF j(3), of i] j(4,6) uses_le [of jft i] by simp
  qed
  obtain s' where s': "inherit_handles (sft w) jft = Some s'" "counted s' (\<lambda>i. total_uses (jft # js) i + uses jft i)"
    "g_files_limit s' = g_files_limit (sft w)"
    "\<forall>i < 20. g_sft s' ! i = (if i < 4 then g_sft (sft w) ! i else (g_sft (sft w) ! i)\<lparr>ref_count := refs (sft w) i + uses jft i\<rparr>)"
    using inherit_handles_spec [OF j(2) chain_jft_live [OF j(2,5)] b] live j(1) by auto
  have "counted s' (total_uses (jft # jft # js))" by (rule counted_cong [OF s'(2)]) simp
  then show ?thesis using s' j len p by (simp add: sft_inherit_def handles_ok_def)
qed

lemma exit_core:
  assumes w: "handles_ok w (parent # js)" and live: "\<forall>x \<in> set (the (cur_psp w)). \<not> dead_resident (sft w) x"
  shows "\<exists>s' psp'. sft_close_process (sft w) (cur_psp w) = Some (s', psp') \<and> handles_ok (w\<lparr>sft := s', cur_psp := Some parent\<rparr>) js \<and>
    g_files_limit s' = g_files_limit (sft w) \<and> (\<forall>i < 20. g_sft s' ! i =
      (if i < 4 \<or> uses (the (cur_psp w)) i = 0 then g_sft (sft w) ! i
       else if uses (the (cur_psp w)) i = refs (sft w) i then sft_zero
       else (g_sft (sft w) ! i)\<lparr>ref_count := refs (sft w) i - uses (the (cur_psp w)) i\<rparr>))"
proof -
  obtain jft where j: "cur_psp w = Some jft" "counted (sft w) (total_uses (jft # parent # js))"
    "\<forall>j \<in> set (jft # parent # js). jft_wf j" "length (parent # js) \<le> 3000" "jft_wf jft" "length jft = 20"
    by (rule handles_okE [OF w])
  have u: "\<forall>i. 4 \<le> i \<longrightarrow> i < 20 \<longrightarrow> uses jft i \<le> refs (sft w) i"
    using countedD(1) [OF j(2)] by simp
  have k: "\<forall>i. 4 \<le> i \<longrightarrow> i < 20 \<longrightarrow> (kind (g_sft (sft w) ! i) = SFT_KIND_FREE \<longleftrightarrow> refs (sft w) i = 0)"
    using countedD(1,2) [OF j(2)] by simp
  have lv: "\<forall>x \<in> set jft. \<not> dead_resident (sft w) x" using live j(1) by simp
  obtain s' where s': "close_handles (sft w) jft = Some (s', map (\<lambda>x. if x < 4 then x else JFT_CLOSED) jft)" "length (g_sft s') = 20"
    "g_files_limit s' = g_files_limit (sft w)" "\<forall>i < 20. g_sft s' ! i = (if i < 4 \<or> uses jft i = 0 then g_sft (sft w) ! i
       else if uses jft i = refs (sft w) i then sft_zero else (g_sft (sft w) ! i)\<lparr>ref_count := refs (sft w) i - uses jft i\<rparr>)"
    using close_handles_spec [OF countedD(3) [OF j(2)] chain_jft_live [OF j(2,5) lv] u k] by blast
  have "counted s' (total_uses (parent # js))"
    unfolding counted_def
  proof (intro conjI allI impI)
    fix i :: nat assume i: "4 \<le> i" "i < 20"
    note c = countedD(1,2) [OF j(2) i] and e = s'(4) [rule_format, OF i(2)]
    show "refs s' i = total_uses (parent # js) i" using c(1) i(1) e by (auto simp: refs_def)
    show "(kind (g_sft s' ! i) = SFT_KIND_FREE) = (total_uses (parent # js) i = 0)"
      unfolding e using c i(1) by auto
  qed (rule s'(2))
  then show ?thesis using s' j by (simp add: sft_close_process_def handles_ok_def)
qed

lemma inherit_dead:
  assumes w: "handles_ok w js" and r: "sft_inherit (sft w) (cur_psp w) = Some s'"
  shows "\<forall>x \<in> set (the (cur_psp w)). \<not> dead_resident (sft w) x"
proof -
  obtain jft where j: "cur_psp w = Some jft" "counted (sft w) (total_uses (jft # js))" by (rule handles_okE [OF w])
  show ?thesis using inherit_handles_live [of "sft w" jft s'] r j(1) countedD(3) [OF j(2)]
    by (fastforce simp: sft_inherit_def dead_resident_def)
qed

lemma close_process_dead:
  assumes w: "handles_ok w js" and r: "sft_close_process (sft w) (cur_psp w) = Some s'"
  shows "\<forall>x \<in> set (the (cur_psp w)). \<not> dead_resident (sft w) x"
proof -
  obtain jft where j: "cur_psp w = Some jft" "counted (sft w) (total_uses (jft # js))" by (rule handles_okE [OF w])
  show ?thesis using close_handles_live [of "sft w" jft] r j(1) countedD(3) [OF j(2)]
    by (fastforce simp: sft_close_process_def dead_resident_def)
qed

end
