(* ===== verification/SftChain.thy ===== *)
theory SftChain imports SftProps begin

text \<open>
  The handle tables as the loader and the shell rely on them. The locale \<open>handle_table\<close> states what DUP,
  DUP2 and CLOSE do to the map from handles to slots and derives that a redirection that is undone leaves
  every handle where it was; \<open>jft\<close> interprets it on the tables. The properties of the component follow.
\<close>

section \<open>The chain invariant\<close>

lemma handles_init: "handles_ok \<lparr>sft = sft_init s, cur_psp = Some (psp_jft None), g_last_error = c\<rparr> []"
proof -
  have "counted (sft_init s) (total_uses [psp_jft None])"
    unfolding counted_def
  proof (intro conjI allI impI)
    fix i :: nat assume i: "4 \<le> i" "i < 20"
    then have "g_sft (sft_init s) ! i = sft_zero" by (simp add: sft_init_def Let_def)
    moreover have "total_uses [psp_jft None] i = 0" using i by (simp add: psp_jft_def count_list_0_iff)
    ultimately show "refs (sft_init s) i = total_uses [psp_jft None] i"
      "(kind (g_sft (sft_init s) ! i) = SFT_KIND_FREE) = (total_uses [psp_jft None] i = 0)" by (simp_all add: refs_def)
  qed (simp add: sft_init_def Let_def)
  then show ?thesis by (simp add: handles_ok_def psp_jft_def jft_wf_def)
qed

lemma all4: "(\<forall>i < 4. P i) \<longleftrightarrow> P 0 \<and> P 1 \<and> P 2 \<and> P (3 :: nat)"
  using less_Suc_eq by (auto simp: numeral_eq_Suc)

lemma residents_init: "residents_ok (sft_init s)"
  unfolding residents_ok_def all4 by (simp add: live_def refs_def sft_init_def Let_def)

lemma residents_not_dead: "residents_ok s \<Longrightarrow> \<not> dead_resident s x"
  by (auto simp: residents_ok_def dead_resident_def)

lemma step_keeps:
  assumes "chain_step c c'" "handles_ok (fst c) (snd c)"
  shows "handles_ok (fst c') (snd c')"
  using assms
proof cases
  case (step_open lookup resolve vol w f p w' f' js)
  with assms(2) open_keeps [of w js w' f'] do_open_result [of w lookup resolve vol f p] show ?thesis by simp
next
  case (step_creat lookup resolve vol w f p w' f' js)
  with assms(2) open_keeps [of w js w' f'] do_creat_result [of w lookup resolve vol f p] show ?thesis by simp
next
  case (step_creatnew lookup resolve vol w f p w' f' js)
  with assms(2) open_keeps [of w js w' f'] do_creatnew_result [of w lookup resolve vol f p] show ?thesis by simp
next
  case (step_close w f w' f' js)
  with assms(2) close_keeps show ?thesis by simp
next
  case (step_dup w f w' f' js)
  with assms(2) dup_core [of w js] show ?thesis by (auto simp: do_dup_def split: if_splits option.splits)
next
  case (step_dup2 w f w' f' js)
  with assms(2) dup2_core [of w js] show ?thesis by (auto simp: do_dup2_def split: if_splits option.splits)
next
  case (step_exec w jft js child s')
  have ok: "handles_ok w js" using step_exec assms(2) by simp
  have "child = cur_psp w" using step_exec(3,5) ok by (auto simp: psp_jft_def handles_ok_def jft_wf_def)
  with step_exec inherit_dead [OF ok] have "\<forall>x \<in> set (the (cur_psp w)). \<not> dead_resident (sft w) x" by simp
  from exec_core [OF ok step_exec(4) this] step_exec show ?thesis by auto
next
  case (step_exit w s' psp' parent js)
  have ok: "handles_ok w (parent # js)" using step_exit assms(2) by simp
  from exit_core [OF ok close_process_dead [OF ok]] step_exit show ?thesis by auto
qed

lemma reach_ok: "chain_reach (w, js) \<Longrightarrow> handles_ok w js"
proof -
  have "handles_ok (fst c) (snd c)" if "chain_reach c" for c
    using that by (induction rule: chain_reach.induct) (simp_all add: handles_init step_keeps)
  then show "chain_reach (w, js) \<Longrightarrow> handles_ok w js" by force
qed

section \<open>Handles as an interface\<close>

locale handle_table =
  fixes ok :: "'w \<Rightarrow> bool"
    and slot :: "'w \<Rightarrow> nat \<Rightarrow> nat option"
    and dup :: "'w \<Rightarrow> nat \<Rightarrow> ('w \<times> nat) option"
    and dup2 :: "'w \<Rightarrow> nat \<Rightarrow> nat \<Rightarrow> 'w option"
    and close :: "'w \<Rightarrow> nat \<Rightarrow> 'w option"
  assumes dup_law: "ok w \<Longrightarrow> dup w a = Some (w', h) \<Longrightarrow>
      ok w' \<and> slot w a \<noteq> None \<and> slot w h = None \<and> slot w' = (slot w)(h := slot w a)"
    and dup2_law: "ok w \<Longrightarrow> dup2 w a b = Some w' \<Longrightarrow> ok w' \<and> slot w' = (slot w)(b := slot w a)"
    and close_law: "ok w \<Longrightarrow> close w h = Some w' \<Longrightarrow> ok w' \<and> slot w' = (slot w)(h := None)"
begin

text \<open>Saving a handle, pointing it elsewhere, restoring it and dropping the copy.\<close>

lemma redirect_restore:
  assumes "ok w" "dup w a = Some (w1, saved)" "dup2 w1 f a = Some w2" "dup2 w2 saved a = Some w3" "close w3 saved = Some w4"
  shows "slot w4 = slot w"
proof -
  note d = dup_law [OF assms(1,2)]
  then have ne: "saved \<noteq> a" by auto
  note e = dup2_law [OF _ assms(3)] and g = dup2_law [OF _ assms(4)] and c = close_law [OF _ assms(5)]
  have w2: "ok w2" "slot w2 = (slot w1)(a := slot w1 f)" using d e by auto
  then have w3: "ok w3" "slot w3 = (slot w2)(a := slot w2 saved)" using g by auto
  then have "slot w4 = (slot w3)(saved := None)" using c by auto
  then show ?thesis using d ne unfolding w3(2) w2(2) by (auto simp: fun_eq_iff)
qed

text \<open>While it is in force the handle reaches the new slot and the copy the old one.\<close>

lemma redirect_in_force:
  assumes "ok w" "dup w a = Some (w1, saved)" "dup2 w1 f a = Some w2" "slot w f \<noteq> None"
  shows "slot w2 a = slot w f" "slot w2 saved = slot w a"
proof -
  note d = dup_law [OF assms(1,2)]
  then have ne: "saved \<noteq> a" "saved \<noteq> f" using assms(4) by auto
  have "slot w2 = (slot w1)(a := slot w1 f)" using d dup2_law [OF _ assms(3)] by auto
  with d ne show "slot w2 a = slot w f" "slot w2 saved = slot w a" by auto
qed

end

definition table_ok :: "int21_files \<Rightarrow> bool" where
  "table_ok w \<longleftrightarrow> (case cur_psp w of None \<Rightarrow> False | Some jft \<Rightarrow> jft_wf jft)"

definition handle_slot :: "int21_files \<Rightarrow> nat \<Rightarrow> nat option" where
  "handle_slot w h = (case cur_psp w of None \<Rightarrow> None | Some jft \<Rightarrow> if h < 20 \<and> jft ! h \<noteq> JFT_CLOSED then Some (jft ! h) else None)"

definition table_dup :: "int21_files \<Rightarrow> nat \<Rightarrow> (int21_files \<times> nat) option" where
  "table_dup w a = (case sft_dup (sft w) (cur_psp w) a of
     Some (s, psp, rc, Some h) \<Rightarrow> Some (w\<lparr>sft := s, cur_psp := psp\<rparr>, h) | _ \<Rightarrow> None)"

definition table_dup2 :: "int21_files \<Rightarrow> nat \<Rightarrow> nat \<Rightarrow> int21_files option" where
  "table_dup2 w a b = (case sft_dup2 (sft w) (cur_psp w) a b of
     Some (s, psp, rc) \<Rightarrow> if rc = SFT_OK then Some (w\<lparr>sft := s, cur_psp := psp\<rparr>) else None | None \<Rightarrow> None)"

definition table_close :: "int21_files \<Rightarrow> nat \<Rightarrow> int21_files option" where
  "table_close w h = (case do_close w \<lparr>eax = 0, ebx = of_nat h, ecx = 0, carry = False\<rparr> of
     Some (w', f') \<Rightarrow> if carry f' \<or> h \<le> 4 \<or> h \<ge> 256 then None else Some w' | None \<Rightarrow> None)"

lemma from_handle_slot:
  "sft_from_handle (sft w) (cur_psp w) a = Some (Some i) \<Longrightarrow> handle_slot w a = Some i \<and> a < 20 \<and> (\<exists>jft. cur_psp w = Some jft \<and> i = jft ! a) \<and> i < 20"
  by (auto simp: sft_from_handle_def handle_slot_def Let_def split: option.splits if_splits)

lemma slot_update:
  "cur_psp w = Some jft \<Longrightarrow> jft_wf jft \<Longrightarrow> h < 20 \<Longrightarrow> x < 20 \<or> x = JFT_CLOSED \<Longrightarrow> cur_psp w' = Some (jft[h := x]) \<Longrightarrow>
     table_ok w' \<and> handle_slot w' = (handle_slot w)(h := if x = JFT_CLOSED then None else Some x)"
  using jft_wf_update [of jft x h] by (auto simp: table_ok_def handle_slot_def fun_eq_iff jft_wf_def nth_list_update)

interpretation jft: handle_table table_ok handle_slot table_dup table_dup2 table_close
proof unfold_locales
  fix w w' :: int21_files and a b h :: nat
  assume ok: "table_ok w"
  then obtain jft where j: "cur_psp w = Some jft" "jft_wf jft" by (auto simp: table_ok_def split: option.splits)
  show "table_ok w' \<and> handle_slot w a \<noteq> None \<and> handle_slot w h = None \<and> handle_slot w' = (handle_slot w)(h := handle_slot w a)"
    if d: "table_dup w a = Some (w', h)"
  proof -
    obtain i where i: "sft_from_handle (sft w) (cur_psp w) a = Some (Some i)"
      using d by (auto simp: table_dup_def sft_dup_def split: option.splits)
    note s = from_handle_slot [OF i]
    have h: "jft_alloc (Some jft) = h" "h \<noteq> JFT_CLOSED" "cur_psp w' = Some (jft[h := jft ! a])"
      using d i j(1) by (auto simp: table_dup_def sft_dup_def Let_def split: if_splits)
    have h2: "h < 20" "jft ! h = JFT_CLOSED" using h(1,2) by (cases rule: jft_alloc_cases [OF j(2)]; simp)+
    have x: "jft ! a < 20" using s j(1) by auto
    from slot_update [OF j h2(1) _ h(3)] x s j(1) h2 show ?thesis by (auto simp: handle_slot_def)
  qed
  show "table_ok w' \<and> handle_slot w' = (handle_slot w)(b := handle_slot w a)" if d: "table_dup2 w a b = Some w'"
  proof -
    obtain i where i: "sft_from_handle (sft w) (cur_psp w) a = Some (Some i)"
      using d by (auto simp: table_dup2_def sft_dup2_def split: option.splits)
    note s = from_handle_slot [OF i]
    have x: "jft ! a < 20" using s j(1) by auto
    have b: "b < 20" using d i by (auto simp: table_dup2_def sft_dup2_def split: if_splits)
    show ?thesis
    proof (cases "a = b")
      case True
      with d i b ok show ?thesis by (auto simp: table_dup2_def sft_dup2_def)
    next
      case False
      then have "cur_psp w' = Some (jft[b := jft ! a])"
        using d i j(1) b by (auto simp: table_dup2_def sft_dup2_def Let_def split: if_splits option.splits)
      from slot_update [OF j b _ this] x s j(1) show ?thesis by auto
    qed
  qed
  show "table_ok w' \<and> handle_slot w' = (handle_slot w)(h := None)" if d: "table_close w h = Some w'"
  proof -
    have h: "5 \<le> h" "h < 256" using d by (auto simp: table_close_def split: option.splits if_splits)
    have u: "unat (of_nat h :: u32) = h" using h by (simp add: cast_simps)
    obtain i where i: "sft_from_handle (sft w) (cur_psp w) h = Some (Some i)" "cur_psp w' = Some (jft[h := JFT_CLOSED])"
      using d h u j(1) by (auto simp: table_close_def do_close_def Let_def fail_with_def split: option.splits if_splits)
    have "h < 20" using from_handle_slot [OF i(1)] by simp
    from slot_update [OF j this _ i(2)] show ?thesis by simp
  qed
qed

section \<open>A system after boot\<close>

definition boot_files :: int21_files where
  "boot_files = \<lparr>sft = sft_init \<lparr>g_sft = [], g_files_limit = 20\<rparr>, cur_psp = Some (psp_jft None), g_last_error = 0\<rparr>"

definition sample_volume :: volume where
  "sample_volume = \<lparr>vol_open = Some (\<lambda>leaf dir. (0, entry_dir sft_zero, 7)), vol_create = None, vol_drive = 2\<rparr>"

definition zero_frame :: reg_frame where
  "zero_frame = \<lparr>eax = 0, ebx = 0, ecx = 0, carry = False\<rparr>"

abbreviation (input) open_sample :: "int21_files \<times> reg_frame" where
  "open_sample \<equiv> do_open (\<lambda>p. None) (\<lambda>p. (0, p, 0)) (Some sample_volume) boot_files zero_frame (Some [0x41])"

lemma boot_reach: "chain_reach (boot_files, [])"
  unfolding boot_files_def by (rule reach_boot)

lemma child_reach: "chain_reach (boot_files, [psp_jft None])"
proof (rule reach_step [OF boot_reach])
  have i: "sft_inherit (sft boot_files) (Some (psp_jft None)) = Some (sft boot_files)"
    by (simp add: boot_files_def sft_inherit_def psp_jft_def sft_init_def Let_def replicate_numeral)
  have p: "cur_psp boot_files = Some (psp_jft None)" "psp_jft (Some (psp_jft None)) = psp_jft None"
    by (simp_all add: boot_files_def psp_jft_def)
  have "chain_step (boot_files, []) (boot_files\<lparr>sft := sft boot_files, cur_psp := Some (psp_jft None)\<rparr>, [psp_jft None])"
    by (rule step_exec [OF p(1)]) (simp_all add: p i)
  then show "chain_step (boot_files, []) (boot_files, [psp_jft None])" by (simp add: boot_files_def)
qed

lemma open_sample_run: "open_sample = (commit_handle boot_files 4 5 (sft_zero\<lparr>kind := SFT_KIND_FILE, ref_count := 1, root_slot := 7, drive := 2\<rparr>),
    zero_frame\<lparr>eax := 5\<rparr>)"
proof -
  have "sft_alloc (sft boot_files) = 4"
    by (simp add: sft_alloc_def boot_files_def sft_init_def Let_def first_free.simps)
  moreover have "jft_alloc (cur_psp boot_files) = 5"
    by (simp add: jft_alloc_def boot_files_def psp_jft_def replicate_numeral)
  moreover have "g_sft (sft boot_files) ! 4 = sft_zero" by (simp add: boot_files_def sft_init_def Let_def)
  ultimately show ?thesis
    by (simp add: do_open_def new_slots_def Let_def sample_volume_def open_ok_def set_ax_def zero_frame_def frame_al_def sft_zero_def)
qed

lemma open_sample_reach: "chain_reach (fst open_sample, [psp_jft None])"
  by (rule reach_step [OF child_reach], rule step_open) (rule prod.collapse [symmetric])

lemma open_sample_residents: "residents_ok (sft (fst open_sample))"
  unfolding open_sample_run residents_ok_def all4
  by (simp add: commit_handle_def boot_files_def live_def refs_def sft_init_def Let_def)

section \<open>Properties\<close>

text \<open>C2: in every chain of processes that boot and any sequence of OPEN, CREAT, CREATNEW, CLOSE, DUP, DUP2, EXEC
  and exit reach, with at most 3000 programs suspended, each slot from 4 on counts exactly the handles of
  the running and the suspended processes that refer to it, and is free exactly when there are none; every
  handle is closed or refers to a slot of the table, and is dead only if that slot is one of the four
  resident devices.\<close>

theorem handle_counts_exact:
  assumes "chain_reach (w, js)"
  shows "\<exists>jft. cur_psp w = Some jft \<and>
    (\<forall>j \<in> set (jft # js). length j = 20 \<and> (\<forall>x \<in> set j. x = JFT_CLOSED \<or> x < 4 \<or> x < 20 \<and> live (sft w) x)) \<and>
    (\<forall>i. 4 \<le> i \<and> i < 20 \<longrightarrow> refs (sft w) i = total_uses (jft # js) i \<and> (live (sft w) i \<longleftrightarrow> (\<exists>j \<in> set (jft # js). i \<in> set j)))"
proof -
  obtain jft where j: "cur_psp w = Some jft" "counted (sft w) (total_uses (jft # js))" "\<forall>j \<in> set (jft # js). jft_wf j"
    by (rule handles_okE [OF reach_ok [OF assms]])
  have pos: "0 < total_uses js i \<longleftrightarrow> (\<exists>j \<in> set js. i \<in> set j)" for js i
    by (induction js) (auto simp: count_list_0_iff gr0_conv_Suc [symmetric] simp flip: neq0_conv)
  have lv: "live (sft w) i \<longleftrightarrow> (\<exists>j \<in> set (jft # js). i \<in> set j)" if "4 \<le> i" "i < 20" for i
    using countedD(2,3) [OF j(2)] that pos [of "jft # js" i] by (auto simp: live_def)
  have "x = JFT_CLOSED \<or> x < 4 \<or> x < 20 \<and> live (sft w) x" if "j' \<in> set (jft # js)" "x \<in> set j'" for j' x
  proof -
    have "x = JFT_CLOSED \<or> x < 20" using j(3) that by (auto simp: jft_wf_def)
    with lv [of x] that show ?thesis by (cases "x < 4") auto
  qed
  then show ?thesis using j lv countedD(1) [OF j(2)] by (intro exI [of _ jft]) (auto simp: jft_wf_def)
qed

text \<open>A program opens a file: slot 4 goes from no reference to one, and is live.\<close>

theorem handle_counts_exact_witness: "refs (sft boot_files) 4 = 0 \<and> refs (sft (fst open_sample)) 4 = 1 \<and> live (sft (fst open_sample)) 4"
proof -
  from handle_counts_exact [OF boot_reach] obtain jft where "cur_psp boot_files = Some jft" "refs (sft boot_files) 4 = total_uses [jft] 4"
    by auto
  then have "refs (sft boot_files) 4 = 0" by (auto simp: boot_files_def psp_jft_def replicate_numeral)
  moreover from handle_counts_exact [OF open_sample_reach] obtain jft' where
    "cur_psp (fst open_sample) = Some jft'" "refs (sft (fst open_sample)) 4 = total_uses [jft', psp_jft None] 4"
    "live (sft (fst open_sample)) 4 \<longleftrightarrow> (\<exists>j \<in> set [jft', psp_jft None]. 4 \<in> set j)" by auto
  then have "refs (sft (fst open_sample)) 4 = 1 \<and> live (sft (fst open_sample)) 4"
    unfolding open_sample_run by (auto simp: commit_handle_def boot_files_def psp_jft_def replicate_numeral)
  ultimately show ?thesis by simp
qed

text \<open>C29: in every such chain a handle service fails loud exactly when it meets a handle of the running process
  on a resident device slot that has been freed: resolving a handle and DUP when their handle is one, CLOSE
  when the handle is one and is not a standard one, DUP2 when its source is one or its target is one and has
  to be released first, the inheritance of EXEC and the teardown of exit when any handle is one. While the
  four resident slots are live, none of them does.\<close>

theorem handle_services_trap_exactly:
  assumes "chain_reach (w, js)"
  shows "\<exists>jft. cur_psp w = Some jft \<and>
    (sft_from_handle (sft w) (cur_psp w) h = None \<longleftrightarrow> h < 20 \<and> dead_resident (sft w) (jft ! h)) \<and>
    (sft_inherit (sft w) (cur_psp w) = None \<longleftrightarrow> (\<exists>x \<in> set jft. dead_resident (sft w) x)) \<and>
    (sft_close_process (sft w) (cur_psp w) = None \<longleftrightarrow> (\<exists>x \<in> set jft. dead_resident (sft w) x)) \<and>
    (do_close w f = None \<longleftrightarrow> (let a = unat (ebx f) in 4 < a \<and> a < 20 \<and> dead_resident (sft w) (jft ! a))) \<and>
    (do_dup w f = None \<longleftrightarrow> (let a = unat (ebx f AND 0xFF) in a < 20 \<and> dead_resident (sft w) (jft ! a))) \<and>
    (do_dup2 w f = None \<longleftrightarrow> (let a = unat (ebx f AND 0xFF); b = unat (ecx f AND 0xFF) in a < 20 \<and> jft ! a \<noteq> JFT_CLOSED \<and>
      (dead_resident (sft w) (jft ! a) \<or> b < 20 \<and> dead_resident (sft w) (jft ! b)))) \<and>
    (residents_ok (sft w) \<longrightarrow> (\<forall>x. \<not> dead_resident (sft w) x))"
proof -
  note ok = reach_ok [OF assms]
  obtain jft where j: "cur_psp w = Some jft" "counted (sft w) (total_uses (jft # js))" "\<forall>j \<in> set (jft # js). jft_wf j" "length js \<le> 3000"
    "jft_wf jft" "length jft = 20" by (rule handles_okE [OF ok])
  have closed: "\<not> dead_resident (sft w) JFT_CLOSED" by (simp add: dead_resident_def)
  note fh = from_handle_cases [OF j(2,5)]
  have frm: "sft_from_handle (sft w) (Some jft) h = None \<longleftrightarrow> h < 20 \<and> dead_resident (sft w) (jft ! h)" for h
    using fh [of h] closed by auto
  have l: "\<forall>x \<in> set jft. x = JFT_CLOSED \<or> x < 20 \<and> live (sft w) x" if "\<not> (\<exists>x \<in> set jft. dead_resident (sft w) x)"
    using chain_jft_live [OF j(2,5)] that by blast
  have b: "\<forall>i. total_uses (jft # js) i + uses jft i < 0x10000"
  proof
    fix i show "total_uses (jft # js) i + uses jft i < 0x10000"
      using total_uses_small [OF j(3), of i] j(4,6) uses_le [of jft i] by simp
  qed
  have u: "\<forall>i. 4 \<le> i \<longrightarrow> i < 20 \<longrightarrow> uses jft i \<le> refs (sft w) i" using countedD(1) [OF j(2)] by simp
  have k: "\<forall>i. 4 \<le> i \<longrightarrow> i < 20 \<longrightarrow> (kind (g_sft (sft w) ! i) = SFT_KIND_FREE \<longleftrightarrow> refs (sft w) i = 0)"
    using countedD(1,2) [OF j(2)] by simp
  have inh: "sft_inherit (sft w) (cur_psp w) = None \<longleftrightarrow> (\<exists>x \<in> set jft. dead_resident (sft w) x)"
  proof (cases "\<exists>x \<in> set jft. dead_resident (sft w) x")
    case True
    then show ?thesis using inherit_dead [OF ok] j(1) by fastforce
  next
    case False
    then show ?thesis using inherit_handles_spec [OF j(2) l b] j(1) by (auto simp: sft_inherit_def)
  qed
  have cls: "sft_close_process (sft w) (cur_psp w) = None \<longleftrightarrow> (\<exists>x \<in> set jft. dead_resident (sft w) x)"
  proof (cases "\<exists>x \<in> set jft. dead_resident (sft w) x")
    case True
    then show ?thesis using close_process_dead [OF ok] j(1) by (metis not_None_eq option.sel)
  next
    case False
    then show ?thesis using close_handles_spec [OF countedD(3) [OF j(2)] l u k] j(1) by (auto simp: sft_close_process_def)
  qed
  have rel: "(if jft ! d \<noteq> JFT_CLOSED then sft_release (sft w) (jft ! d) else Some (sft w)) = None \<longleftrightarrow> dead_resident (sft w) (jft ! d)"
    if "d < 20" for d
  proof (cases "jft ! d = JFT_CLOSED")
    case False
    have "jft ! d \<in> set jft" using that j(6) by simp
    from chain_handles [OF j(2,5) this False] False countedD(3) [OF j(2)] show ?thesis
      by (auto simp: sft_release_def live_def Let_def)
  qed (simp add: closed)
  have dup2: "sft_dup2 (sft w) (Some jft) a d = None \<longleftrightarrow> a < 20 \<and> jft ! a \<noteq> JFT_CLOSED \<and>
      (dead_resident (sft w) (jft ! a) \<or> d < 20 \<and> dead_resident (sft w) (jft ! d))" for a d
    using fh [of a] rel [of d] closed by (auto simp: sft_dup2_def Let_def split: option.splits)
  have dup: "sft_dup (sft w) (Some jft) a = None \<longleftrightarrow> a < 20 \<and> dead_resident (sft w) (jft ! a)" for a
    using fh [of a] closed by (auto simp: sft_dup_def Let_def)
  have "do_close w f = None \<longleftrightarrow> (let a = unat (ebx f) in 4 < a \<and> a < 20 \<and> dead_resident (sft w) (jft ! a))"
    using frm [of "unat (ebx f)"] j(1) by (auto simp: do_close_def Let_def split: option.splits)
  moreover have "do_dup w f = None \<longleftrightarrow> sft_dup (sft w) (Some jft) (unat (ebx f AND 0xFF)) = None"
    using j(1) by (auto simp: do_dup_def split: option.splits)
  moreover have "do_dup2 w f = None \<longleftrightarrow> sft_dup2 (sft w) (Some jft) (unat (ebx f AND 0xFF)) (unat (ecx f AND 0xFF)) = None"
    using j(1) by (auto simp: do_dup2_def split: option.splits)
  ultimately show ?thesis using frm [of h] inh cls dup dup2 j(1) residents_not_dead by (intro exI [of _ jft]) (simp add: Let_def)
qed

theorem handle_services_trap_exactly_witness: "do_dup2 (fst open_sample) (zero_frame\<lparr>ebx := 5, ecx := 1\<rparr>) \<noteq> None"
proof -
  from handle_services_trap_exactly [OF open_sample_reach, where f = "zero_frame\<lparr>ebx := 5, ecx := 1\<rparr>"]
  obtain jft where "do_dup2 (fst open_sample) (zero_frame\<lparr>ebx := 5, ecx := 1\<rparr>) = None \<longleftrightarrow>
      (let a = unat (ebx (zero_frame\<lparr>ebx := 5, ecx := 1\<rparr>) AND 0xFF); b = unat (ecx (zero_frame\<lparr>ebx := 5, ecx := 1\<rparr>) AND 0xFF) in
        a < 20 \<and> jft ! a \<noteq> JFT_CLOSED \<and>
        (dead_resident (sft (fst open_sample)) (jft ! a) \<or> b < 20 \<and> dead_resident (sft (fst open_sample)) (jft ! b)))"
    "residents_ok (sft (fst open_sample)) \<longrightarrow> (\<forall>x. \<not> dead_resident (sft (fst open_sample)) x)" by blast
  with open_sample_residents show ?thesis by (simp add: Let_def)
qed

text \<open>EXEC followed by the exit of a child that touched no handle restores the file table exactly.\<close>

theorem exec_exit_restores_table:
  assumes "chain_reach (w, js)" "length js < 3000" "residents_ok (sft w)"
  shows "\<exists>s1 s2 psp'. sft_inherit (sft w) (Some (psp_jft (cur_psp w))) = Some s1 \<and>
    sft_close_process s1 (Some (psp_jft (cur_psp w))) = Some (s2, psp') \<and> g_sft s2 = g_sft (sft w) \<and> g_files_limit s2 = g_files_limit (sft w)"
proof -
  have ok: "handles_ok w js" by (rule reach_ok [OF assms(1)])
  then obtain jft where j: "cur_psp w = Some jft" "counted (sft w) (total_uses (jft # js))" by (auto simp: handles_ok_def)
  note e = exec_core [OF ok assms(2)]
  then obtain s1 where s1: "sft_inherit (sft w) (Some (psp_jft (cur_psp w))) = Some s1" "psp_jft (cur_psp w) = jft"
    "handles_ok (w\<lparr>sft := s1, cur_psp := Some jft\<rparr>) (jft # js)" "g_files_limit s1 = g_files_limit (sft w)"
    "\<forall>i < 20. g_sft s1 ! i = (if i < 4 then g_sft (sft w) ! i else (g_sft (sft w) ! i)\<lparr>ref_count := refs (sft w) i + uses jft i\<rparr>)"
    using j(1) residents_not_dead [OF assms(3)] by auto
  have l1: "length (g_sft s1) = 20" using s1(3) countedD(3) by (auto simp: handles_ok_def)
  have nd: "\<not> dead_resident s1 x" for x
    using residents_not_dead [OF assms(3), of x] s1(5) l1 countedD(3) [OF j(2)] by (auto simp: dead_resident_def live_def)
  obtain s2 psp' where s2: "sft_close_process s1 (Some jft) = Some (s2, psp')" "g_files_limit s2 = g_files_limit s1"
    "handles_ok (w\<lparr>sft := s2, cur_psp := Some jft\<rparr>) js"
    "\<forall>i < 20. g_sft s2 ! i = (if i < 4 \<or> uses jft i = 0 then g_sft s1 ! i
       else if uses jft i = refs s1 i then sft_zero else (g_sft s1 ! i)\<lparr>ref_count := refs s1 i - uses jft i\<rparr>)"
    using exit_core [OF s1(3)] nd by auto
  have "g_sft s2 = g_sft (sft w)"
  proof (rule nth_equalityI)
    show "length (g_sft s2) = length (g_sft (sft w))"
      using s2(3) countedD(3) j(2) by (auto simp: handles_ok_def)
    fix i assume "i < length (g_sft s2)"
    then have i: "i < 20" using s2(3) countedD(3) by (auto simp: handles_ok_def)
    show "g_sft s2 ! i = g_sft (sft w) ! i"
    proof (cases "i < 4 \<or> uses jft i = 0")
      case True
      then show ?thesis using s1(5) s2(4) i by (auto simp: refs_def)
    next
      case False
      then have "0 < refs (sft w) i" using countedD(1) [OF j(2), of i] i by simp
      then show ?thesis using s1(5) s2(4) i False by (simp add: refs_def)
    qed
  qed
  with s1 s2 show ?thesis by auto
qed

theorem exec_exit_restores_table_witness:
  "\<exists>s1 s2 psp'. sft_inherit (sft boot_files) (Some (psp_jft (cur_psp boot_files))) = Some s1 \<and>
    sft_close_process s1 (Some (psp_jft (cur_psp boot_files))) = Some (s2, psp') \<and> g_sft s2 = g_sft (sft boot_files)"
  using exec_exit_restores_table [OF boot_reach] residents_init [of "\<lparr>g_sft = [], g_files_limit = 20\<rparr>"] by (auto simp: boot_files_def)

text \<open>C20: when the exit of a process returns, it has given back exactly its references to the slots from 4 on:
  such a slot now counts the handles of the suspended processes alone, is live if and only if there is one,
  and otherwise keeps its contents. The four resident device slots are not touched, whatever references to
  them the process took or dropped with DUP2; it does not return only if one of its handles is on a resident
  slot that was freed.\<close>

theorem exit_reclaims_handles:
  assumes "chain_reach (w, parent # js)"
  shows "case sft_close_process (sft w) (cur_psp w) of
      None \<Rightarrow> \<exists>x \<in> set (the (cur_psp w)). dead_resident (sft w) x
    | Some (s', psp') \<Rightarrow> length (g_sft s') = 20 \<and> (\<forall>i < 20.
        if i < 4 then g_sft s' ! i = g_sft (sft w) ! i
        else refs s' i = total_uses (parent # js) i \<and> (live s' i \<longleftrightarrow> 0 < total_uses (parent # js) i) \<and>
          (0 < total_uses (parent # js) i \<longrightarrow> g_sft s' ! i = (g_sft (sft w) ! i)\<lparr>ref_count := total_uses (parent # js) i\<rparr>))"
proof (cases "\<exists>x \<in> set (the (cur_psp w)). dead_resident (sft w) x")
  case True
  then show ?thesis using close_process_dead [OF reach_ok [OF assms]] by (auto split: option.split)
next
  case False
  have ok: "handles_ok w (parent # js)" by (rule reach_ok [OF assms])
  obtain jft where j: "cur_psp w = Some jft" "counted (sft w) (total_uses (jft # parent # js))" by (rule handles_okE [OF ok])
  from exit_core [OF ok] False obtain s' psp' where s': "sft_close_process (sft w) (cur_psp w) = Some (s', psp')"
    "handles_ok (w\<lparr>sft := s', cur_psp := Some parent\<rparr>) js"
    "\<forall>i < 20. g_sft s' ! i = (if i < 4 \<or> uses jft i = 0 then g_sft (sft w) ! i
       else if uses jft i = refs (sft w) i then sft_zero
       else (g_sft (sft w) ! i)\<lparr>ref_count := refs (sft w) i - uses jft i\<rparr>)" using j(1) by auto
  have c: "counted s' (total_uses (parent # js))" using s'(2) by (simp add: handles_ok_def)
  have "if i < 4 then g_sft s' ! i = g_sft (sft w) ! i
      else refs s' i = total_uses (parent # js) i \<and> (live s' i \<longleftrightarrow> 0 < total_uses (parent # js) i) \<and>
        (0 < total_uses (parent # js) i \<longrightarrow> g_sft s' ! i = (g_sft (sft w) ! i)\<lparr>ref_count := total_uses (parent # js) i\<rparr>)"
    if "i < 20" for i
  proof (cases "i < 4")
    case False
    note d = countedD(1) [OF j(2), of i] countedD(1,2) [OF c, of i]
    have "g_sft s' ! i = (g_sft (sft w) ! i)\<lparr>ref_count := total_uses (parent # js) i\<rparr>" if "0 < total_uses (parent # js) i"
      using s'(3) d that False \<open>i < 20\<close> by (auto simp: refs_def)
    then show ?thesis using d that False countedD(3) [OF c] by (auto simp: live_def)
  qed (use s'(3) that in simp)
  with s'(1) countedD(3) [OF c] show ?thesis by simp
qed

text \<open>The program that opened the file exits: its reference is returned and the slot is free again.\<close>

theorem exit_reclaims_handles_witness:
  "refs (sft (fst open_sample)) 4 = 1 \<and> (case sft_close_process (sft (fst open_sample)) (cur_psp (fst open_sample)) of
     None \<Rightarrow> False | Some (s', psp') \<Rightarrow> refs s' 4 = 0 \<and> \<not> live s' 4 \<and> g_sft s' ! 1 = g_sft (sft boot_files) ! 1)"
proof -
  have r: "refs (sft (fst open_sample)) 4 = 1" "g_sft (sft (fst open_sample)) ! 1 = g_sft (sft boot_files) ! 1"
    unfolding open_sample_run by (simp_all add: commit_handle_def refs_def boot_files_def sft_init_def Let_def)
  have "\<not> dead_resident (sft (fst open_sample)) x" for x by (rule residents_not_dead [OF open_sample_residents])
  moreover have "total_uses [psp_jft None] 4 = 0" by (simp add: psp_jft_def replicate_numeral)
  ultimately show ?thesis using exit_reclaims_handles [OF open_sample_reach] r by (auto split: option.splits)
qed

text \<open>C30: OPEN, CREAT and CREATNEW either set the carry flag and move no table, whatever the reason of the
  refusal, or return in AX the lowest closed handle, now on a slot that was free, lies between the device
  slots and the FILES= limit, and no other process refers to.\<close>

theorem open_commits_or_refuses:
  assumes "chain_reach (w, js)"
    and "(w', f') \<in> {do_open lookup resolve vol w f p, do_creat lookup resolve vol w f p, do_creatnew lookup resolve vol w f p}"
  shows "if carry f' then sft w' = sft w \<and> cur_psp w' = cur_psp w
    else \<exists>h x. eax f' AND 0xFFFF = of_nat h \<and> h < 20 \<and> handle_slot w h = None \<and> (\<forall>k < h. handle_slot w k \<noteq> None) \<and>
      4 \<le> x \<and> x < g_files_limit (sft w) \<and> \<not> live (sft w) x \<and> handle_slot w' = (handle_slot w)(h := Some x) \<and> refs (sft w') x = 1"
proof -
  have ok: "handles_ok w js" by (rule reach_ok [OF assms(1)])
  have r: "open_result w (w', f')" using assms(2) do_open_result do_creat_result do_creatnew_result by auto
  show ?thesis
  proof (cases "carry f'")
    case False
    with r obtain x h e where e: "new_slots w = Some (x, h)" "w' = commit_handle w x h e" "ref_count e = 1" "eax f' AND 0xFFFF = of_nat h"
      by (auto simp: open_result_def)
    obtain jft where j: "cur_psp w = Some jft" "counted (sft w) (total_uses (jft # js))" "jft_wf jft" using ok by (auto simp: handles_ok_def)
    note n = new_slots_cases [OF j(2,3,1) e(1)]
    have "cur_psp w' = Some (jft[h := x])" using e(2) j(1) by (simp add: commit_handle_def)
    from slot_update [OF j(1,3) n(5) _ this] n have s: "handle_slot w' = (handle_slot w)(h := Some x)" by simp
    have "\<not> live (sft w) x" using countedD(2) [OF j(2) n(1,2)] n(4) by (simp add: live_def)
    moreover have "refs (sft w') x = 1" using e(2,3) countedD(3) [OF j(2)] n(2) by (simp add: refs_def commit_handle_def)
    ultimately show ?thesis using False s e(4) n j(1) by (auto simp: handle_slot_def)
  qed (use r in \<open>simp add: open_result_def\<close>)
qed

theorem open_commits_or_refuses_witness: "handle_slot (fst open_sample) = (handle_slot boot_files)(5 := Some 4)"
proof -
  have m: "(fst open_sample, snd open_sample) \<in> {open_sample,
     do_creat (\<lambda>p. None) (\<lambda>p. (0, p, 0)) (Some sample_volume) boot_files zero_frame (Some [0x41]),
     do_creatnew (\<lambda>p. None) (\<lambda>p. (0, p, 0)) (Some sample_volume) boot_files zero_frame (Some [0x41])}" by simp
  have nc: "\<not> carry (snd open_sample)" unfolding open_sample_run by (simp add: zero_frame_def)
  from open_commits_or_refuses [OF boot_reach m] nc obtain h x where
    hx: "eax (snd open_sample) AND 0xFFFF = of_nat h" "h < 20" "handle_slot (fst open_sample) = (handle_slot boot_files)(h := Some x)" by auto
  have "(of_nat h :: u32) = 5" using hx(1) unfolding open_sample_run by (simp add: zero_frame_def)
  then have "unat (of_nat h :: u32) = 5" by simp
  then have "h = 5" using hx(2) by (simp add: cast_simps)
  moreover have "handle_slot (fst open_sample) 5 = Some 4"
    unfolding open_sample_run by (simp add: commit_handle_def handle_slot_def boot_files_def psp_jft_def replicate_numeral)
  ultimately show ?thesis using hx(3) by (auto simp: fun_upd_same)
qed

text \<open>saving a handle with DUP, redirecting it with DUP2, restoring it with DUP2 and closing the copy leaves
  every handle of the process on the slot it had.\<close>

theorem redirect_restore_handles:
  assumes "table_ok w" "table_dup w a = Some (w1, saved)" "table_dup2 w1 f a = Some w2" "table_dup2 w2 saved a = Some w3"
    and "table_close w3 saved = Some w4"
  shows "handle_slot w4 = handle_slot w \<and> (handle_slot w f \<noteq> None \<longrightarrow> handle_slot w2 a = handle_slot w f)"
  using jft.redirect_restore [OF assms] jft.redirect_in_force [OF assms(1-3)] by blast

theorem redirect_restore_handles_witness:
  "case table_dup boot_files 1 of Some (w1, saved) \<Rightarrow> (case table_dup2 w1 0 1 of Some w2 \<Rightarrow> (case table_dup2 w2 saved 1 of
     Some w3 \<Rightarrow> (case table_close w3 saved of Some w4 \<Rightarrow> handle_slot w4 = handle_slot boot_files)))"
proof -
  have ok: "table_ok boot_files" by (simp add: table_ok_def boot_files_def psp_jft_def jft_wf_def)
  have kinds: "kind (g_sft (sft boot_files) ! 0) = SFT_KIND_DEVICE" "kind (g_sft (sft boot_files) ! 1) = SFT_KIND_DEVICE"
    by (simp_all add: boot_files_def sft_init_def Let_def)
  obtain w1 saved where 1: "table_dup boot_files 1 = Some (w1, saved)"
    by (simp add: table_dup_def sft_dup_def sft_from_handle_def boot_files_def psp_jft_def sft_init_def jft_alloc_def
        replicate_numeral Let_def)
  obtain w2 where 2: "table_dup2 w1 0 1 = Some w2"
    using 1 by (auto simp: table_dup_def table_dup2_def sft_dup_def sft_dup2_def sft_release_def sft_from_handle_def boot_files_def psp_jft_def sft_init_def
        jft_alloc_def ref_inc_def inc16_def replicate_numeral Let_def)
  obtain w3 where 3: "table_dup2 w2 saved 1 = Some w3"
    using 1 2 by (auto simp: table_dup_def table_dup2_def sft_dup_def sft_dup2_def sft_release_def sft_from_handle_def boot_files_def psp_jft_def sft_init_def
        jft_alloc_def ref_inc_def inc16_def replicate_numeral Let_def)
  obtain w4 where 4: "table_close w3 saved = Some w4"
    using 1 2 3 by (auto simp: table_dup_def table_dup2_def table_close_def do_close_def sft_dup_def sft_dup2_def sft_release_def sft_from_handle_def
        boot_files_def psp_jft_def sft_init_def jft_alloc_def ref_inc_def inc16_def drop_ref_def replicate_numeral Let_def)
  from redirect_restore_handles [OF ok 1 2 3 4] 1 2 3 4 show ?thesis by simp
qed

lemma dup2_chain:
  assumes "chain_reach (w, js)" "table_dup2 w a b = Some w'" "a < 256" "b < 256"
  shows "chain_reach (w', js)"
proof (rule reach_step [OF assms(1)])
  let ?f = "zero_frame\<lparr>ebx := of_nat a, ecx := of_nat b\<rparr>"
  have "unat (of_nat x AND (0xFF :: u32)) = x" if "x < 256" for x
  proof -
    have "of_nat x AND (0xFF :: u32) = take_bit 8 (of_nat x)" by (simp add: take_bit_eq_mask mask_eq_exp_minus_1)
    then show ?thesis using that by (simp add: take_bit_of_nat take_bit_nat_eq_self cast_simps)
  qed
  with assms(2-4) have "do_dup2 w ?f = Some (w', ?f\<lparr>carry := False\<rparr>)"
    by (auto simp: table_dup2_def do_dup2_def split: option.splits if_splits)
  then show "chain_step (w, js) (w', js)" by (rule step_dup2)
qed

text \<open>C31: a program that redirects both standard output and standard error and exits without restoring them
  frees the resident CON slot under its parent: the parent's next use of its own handle 1, and its own exit,
  fail loud. The program is opened by a process started from the boot process, with every resident slot live;
  its exit itself succeeds, so the state in which the parent traps is one that boot reaches.\<close>

theorem redirecting_child_breaks_parent:
  "\<exists>w2 w3 s4 p4. chain_reach (boot_files, [psp_jft None]) \<and> residents_ok (sft boot_files) \<and>
     table_dup2 (fst open_sample) 5 1 = Some w2 \<and>
     table_dup2 w2 5 2 = Some w3 \<and> sft_close_process (sft w3) (cur_psp w3) = Some (s4, p4) \<and>
     sft_from_handle s4 (Some (psp_jft None)) 1 = None \<and> sft_close_process s4 (Some (psp_jft None)) = None \<and>
     chain_reach (w3\<lparr>sft := s4, cur_psp := Some (psp_jft None)\<rparr>, [])"
proof -
  note defs = commit_handle_def boot_files_def psp_jft_def sft_init_def sft_zero_def replicate_numeral Let_def
  have e2: "\<exists>w2. table_dup2 (fst open_sample) 5 1 = Some w2 \<and> cur_psp w2 = Some ([0, 4, 1, 2, 3, 4] @ replicate 14 JFT_CLOSED) \<and>
      g_sft (sft w2) = (g_sft (sft (fst open_sample)))[1 := sft_zero\<lparr>kind := SFT_KIND_DEVICE, open_mode := 1, ref_count := 1\<rparr>,
        4 := sft_zero\<lparr>kind := SFT_KIND_FILE, ref_count := 2, root_slot := 7, drive := 2\<rparr>]"
    unfolding open_sample_run
    by (simp add: table_dup2_def sft_dup2_def sft_from_handle_def sft_release_def ref_inc_def inc16_def defs)
  then obtain w2 where w2: "table_dup2 (fst open_sample) 5 1 = Some w2" "cur_psp w2 = Some ([0, 4, 1, 2, 3, 4] @ replicate 14 JFT_CLOSED)"
      "g_sft (sft w2) = (g_sft (sft (fst open_sample)))[1 := sft_zero\<lparr>kind := SFT_KIND_DEVICE, open_mode := 1, ref_count := 1\<rparr>,
        4 := sft_zero\<lparr>kind := SFT_KIND_FILE, ref_count := 2, root_slot := 7, drive := 2\<rparr>]" by blast
  have e3: "\<exists>w3. table_dup2 w2 5 2 = Some w3 \<and> cur_psp w3 = Some ([0, 4, 4, 2, 3, 4] @ replicate 14 JFT_CLOSED) \<and>
      g_sft (sft w3) = (g_sft (sft w2))[1 := sft_zero, 4 := sft_zero\<lparr>kind := SFT_KIND_FILE, ref_count := 3, root_slot := 7, drive := 2\<rparr>]"
    using w2(2,3) unfolding open_sample_run
    by (simp add: table_dup2_def sft_dup2_def sft_from_handle_def sft_release_def ref_inc_def inc16_def defs)
  then obtain w3 where w3: "table_dup2 w2 5 2 = Some w3" "cur_psp w3 = Some ([0, 4, 4, 2, 3, 4] @ replicate 14 JFT_CLOSED)"
      "g_sft (sft w3) = (g_sft (sft w2))[1 := sft_zero, 4 := sft_zero\<lparr>kind := SFT_KIND_FILE, ref_count := 3, root_slot := 7, drive := 2\<rparr>]" by blast
  have g3: "g_sft (sft w3) = (g_sft (sft boot_files))[4 := sft_zero\<lparr>kind := SFT_KIND_FILE, ref_count := 3, root_slot := 7, drive := 2\<rparr>, 1 := sft_zero]"
    using w3(3) w2(3) unfolding open_sample_run by (simp add: commit_handle_def list_update_swap)
  have "\<exists>s4 p4. sft_close_process (sft w3) (cur_psp w3) = Some (s4, p4) \<and> g_sft s4 ! 0 = g_sft (sft boot_files) ! 0 \<and> g_sft s4 ! 1 = sft_zero"
    using w3(2) g3 by (simp add: sft_close_process_def sft_release_def defs)
  then obtain s4 p4 where s4: "sft_close_process (sft w3) (cur_psp w3) = Some (s4, p4)" "g_sft s4 ! 0 = g_sft (sft boot_files) ! 0" "g_sft s4 ! 1 = sft_zero"
    by blast
  have "kind (g_sft s4 ! 0) = SFT_KIND_DEVICE" using s4(2) by (simp add: boot_files_def sft_init_def Let_def)
  then have "sft_from_handle s4 (Some (psp_jft None)) 1 = None \<and> sft_close_process s4 (Some (psp_jft None)) = None"
    using s4(3) by (simp add: sft_from_handle_def sft_close_process_def psp_jft_def)
  moreover have "chain_reach (w3, [psp_jft None])"
    by (rule dup2_chain [OF dup2_chain [OF open_sample_reach w2(1)] w3(1)]) simp_all
  then have "chain_reach (w3\<lparr>sft := s4, cur_psp := Some (psp_jft None)\<rparr>, [])"
    by (rule reach_step) (rule step_exit [OF s4(1)])
  moreover have "residents_ok (sft boot_files)" by (simp add: boot_files_def residents_init)
  ultimately show ?thesis using child_reach w2(1) w3(1) s4(1) by blast
qed

text \<open>Whatever FILES= asks for, the limit set is between 4 and 20, and the slot allocator then answers the
  lowest free slot of that range or, when there is none, 20; never a device slot.\<close>

theorem sft_alloc_within_limit:
  shows "case sft_set_files_limit s files of (s', limit) \<Rightarrow> limit = max 4 (min files 20) \<and> g_files_limit s' = limit \<and>
    (let x = sft_alloc s' in if x = SFT_MAX_ENTRIES then \<forall>k \<in> {4..<limit}. kind (g_sft s ! k) \<noteq> SFT_KIND_FREE
     else 4 \<le> x \<and> x < limit \<and> kind (g_sft s ! x) = SFT_KIND_FREE \<and> (\<forall>k \<in> {4..<x}. kind (g_sft s ! k) \<noteq> SFT_KIND_FREE))"
proof -
  let ?l = "max 4 (min files 20)"
  have e: "sft_set_files_limit s files = (s\<lparr>g_files_limit := ?l\<rparr>, ?l)" by (auto simp: sft_set_files_limit_def Let_def)
  have a: "sft_alloc (s\<lparr>g_files_limit := ?l\<rparr>) = first_free (g_sft s) ?l 4" by (auto simp: sft_alloc_def Let_def)
  show ?thesis unfolding e prod.case a Let_def
    by (cases rule: first_free_cases [of "g_sft s" ?l 4]) auto
qed

theorem sft_alloc_within_limit_witness:
  "case sft_set_files_limit (sft boot_files) 3 of (s', limit) \<Rightarrow> limit = 4 \<and> sft_alloc s' = 20"
  using sft_alloc_within_limit [where s = "sft boot_files" and files = 3] by (auto simp: sft_set_files_limit_def Let_def split: if_splits)

end
