(* ===== verification/Fat12.thy ===== *)
theory Fat12 imports Sft begin

text \<open>
  The FAT12/FAT16 reader and FAT editor of \<open>os/milton/fat12.c\<close>: mounting, sector I/O, the decoding of FAT
  entries from the whole FAT or through a sector window, chain classification and walks, file reads, the
  root directory, 8.3 names, and the in-memory FAT edits.

  \<^item> \<open>uint16_t\<close> and \<open>uint32_t\<close> values are \<open>nat\<close>, with \<open>wrap32\<close> where the code can wrap; FAT entries are
    decoded on \<open>u16\<close> words as the code does and then read as numbers.
  \<^item> A routine returns \<open>Inl rc\<close> for a negative code and \<open>Inr\<close> of what it stores for \<open>FAT12_OK\<close>. Bytes
    copied to a caller's buffer are the result; scratch buffers are not kept.
  \<^item> The block device is its two function pointers over a medium of type \<open>'m\<close>; \<open>None\<close> is the null pointer.
    The volume's \<open>fat_window\<close> is threaded as a state, since decoding fills it.
\<close>

section \<open>Data\<close>

abbreviation (input) FAT12_ERR_READ :: int where "FAT12_ERR_READ \<equiv> -1"
abbreviation (input) FAT12_ERR_SIGNATURE :: int where "FAT12_ERR_SIGNATURE \<equiv> -2"
abbreviation (input) FAT12_ERR_SECTOR_SIZE :: int where "FAT12_ERR_SECTOR_SIZE \<equiv> -3"
abbreviation (input) FAT12_ERR_GEOMETRY :: int where "FAT12_ERR_GEOMETRY \<equiv> -4"
abbreviation (input) FAT12_ERR_NULL :: int where "FAT12_ERR_NULL \<equiv> -5"
abbreviation (input) FAT12_ERR_BUFFER :: int where "FAT12_ERR_BUFFER \<equiv> -6"
abbreviation (input) FAT12_ERR_CLUSTER :: int where "FAT12_ERR_CLUSTER \<equiv> -7"
abbreviation (input) FAT12_ERR_CHAIN :: int where "FAT12_ERR_CHAIN \<equiv> -8"
abbreviation (input) FAT12_ERR_NOT_FOUND :: int where "FAT12_ERR_NOT_FOUND \<equiv> -9"
abbreviation (input) FAT12_ERR_WRITE :: int where "FAT12_ERR_WRITE \<equiv> -10"
abbreviation (input) FAT12_ERR_PARTITION :: int where "FAT12_ERR_PARTITION \<equiv> -20"
abbreviation (input) FAT12_ERR_CLUSTER_SIZE :: int where "FAT12_ERR_CLUSTER_SIZE \<equiv> -21"

abbreviation (input) BLOCKDEV_SECTOR_SIZE :: nat where "BLOCKDEV_SECTOR_SIZE \<equiv> 512"
abbreviation (input) FAT12_FIRST_DATA_CLUSTER :: nat where "FAT12_FIRST_DATA_CLUSTER \<equiv> 2"
abbreviation (input) FAT12_MAX_SPC :: nat where "FAT12_MAX_SPC \<equiv> 64"
abbreviation (input) FAT12_MAX_CLUSTERS :: nat where "FAT12_MAX_CLUSTERS \<equiv> 4085"
abbreviation (input) FAT16_MAX_CLUSTERS :: nat where "FAT16_MAX_CLUSTERS \<equiv> 65525"
abbreviation (input) FAT12_FREE :: nat where "FAT12_FREE \<equiv> 0"
abbreviation (input) FAT12_BAD :: nat where "FAT12_BAD \<equiv> 0xFF7"
abbreviation (input) FAT12_EOC_MIN :: nat where "FAT12_EOC_MIN \<equiv> 0xFF8"
abbreviation (input) FAT12_ENTRY_MASK :: u16 where "FAT12_ENTRY_MASK \<equiv> 0x0FFF"
abbreviation (input) FAT16_FREE :: nat where "FAT16_FREE \<equiv> 0"
abbreviation (input) FAT16_BAD :: nat where "FAT16_BAD \<equiv> 0xFFF7"
abbreviation (input) FAT16_EOC_MIN :: nat where "FAT16_EOC_MIN \<equiv> 0xFFF8"
abbreviation (input) FAT12_BOOTSIG_OFFSET :: nat where "FAT12_BOOTSIG_OFFSET \<equiv> 510"
abbreviation (input) FAT12_BOOTSIG_VALUE :: nat where "FAT12_BOOTSIG_VALUE \<equiv> 0xAA55"
abbreviation (input) FAT12_ATTR_LFN :: u8 where "FAT12_ATTR_LFN \<equiv> 0x0F"
abbreviation (input) FAT12_NAME_E5_ALIAS :: u8 where "FAT12_NAME_E5_ALIAS \<equiv> 0x05"
abbreviation (input) DIR_NAME_FREE :: u8 where "DIR_NAME_FREE \<equiv> 0x00"
abbreviation (input) DIR_NAME_DELETED :: u8 where "DIR_NAME_DELETED \<equiv> 0xE5"
abbreviation (input) UINT32_MAX :: nat where "UINT32_MAX \<equiv> 0xFFFFFFFF"

datatype fat_type = FAT_TYPE_FAT12 | FAT_TYPE_FAT16

record 'm blockdev =
  read_sectors :: "('m \<Rightarrow> nat \<Rightarrow> nat \<Rightarrow> u8 list option) option"
  write_sectors :: "('m \<Rightarrow> nat \<Rightarrow> nat \<Rightarrow> u8 list \<Rightarrow> 'm \<times> bool) option"

text \<open>The fields of the BPB that the code reads.\<close>

record bpb =
  bytes_per_sector :: nat
  sectors_per_cluster :: nat
  reserved_sectors :: nat
  num_fats :: nat
  root_entry_count :: nat
  total_sectors_16 :: nat
  sectors_per_fat :: nat
  hidden_sectors :: nat
  total_sectors_32 :: nat

record fat12_fat_window =
  win_buf :: "u8 list option"
  win_buf_len :: nat
  cached_first_sector :: nat
  cached_count :: nat
  win_valid :: bool

record 'm fat12_volume =
  dev :: "'m blockdev"
  base_lba :: nat
  total_sectors :: nat
  vol_bpb :: bpb
  first_fat_sector :: nat
  root_dir_sector :: nat
  root_dir_sectors :: nat
  first_data_sector :: nat
  total_clusters :: nat
  vol_fat_type :: fat_type

section \<open>Little-endian fields and geometry\<close>

definition rd_le16 :: "u8 list \<Rightarrow> nat \<Rightarrow> nat" where
  "rd_le16 p i = unat (ucast (p ! i) OR push_bit 8 (ucast (p ! (i + 1))) :: u16)"

definition rd_le32 :: "u8 list \<Rightarrow> nat \<Rightarrow> nat" where
  "rd_le32 p i = unat (of_nat (rd_le16 p i) OR push_bit 16 (of_nat (rd_le16 p (i + 2))) :: u32)"

definition boot_bpb :: "u8 list \<Rightarrow> bool" where
  "boot_bpb p \<longleftrightarrow> (p ! 0 = 0xE9 \<or> p ! 0 = 0xEB \<and> p ! 2 = 0x90) \<and> (p ! 21 = 0xF0 \<or> 0xF8 \<le> p ! 21)"

definition parse_bpb :: "u8 list \<Rightarrow> bpb" where
  "parse_bpb p = \<lparr>bytes_per_sector = rd_le16 p 0x0B, sectors_per_cluster = unat (p ! 0x0D),
     reserved_sectors = rd_le16 p 0x0E, num_fats = unat (p ! 0x10), root_entry_count = rd_le16 p 0x11,
     total_sectors_16 = rd_le16 p 0x13, sectors_per_fat = rd_le16 p 0x16, hidden_sectors = rd_le32 p 0x1C,
     total_sectors_32 = rd_le32 p 0x20\<rparr>"

definition BPB_FAT1_SECTOR :: "bpb \<Rightarrow> nat" where
  "BPB_FAT1_SECTOR b = reserved_sectors b"

definition BPB_ROOT_DIR_SECTOR :: "bpb \<Rightarrow> nat" where
  "BPB_ROOT_DIR_SECTOR b = reserved_sectors b + num_fats b * sectors_per_fat b"

definition BPB_ROOT_DIR_SECTORS :: "bpb \<Rightarrow> nat" where
  "BPB_ROOT_DIR_SECTORS b = (root_entry_count b * 32 + bytes_per_sector b - 1) div bytes_per_sector b"

definition BPB_FIRST_DATA_SECTOR :: "bpb \<Rightarrow> nat" where
  "BPB_FIRST_DATA_SECTOR b = BPB_ROOT_DIR_SECTOR b + BPB_ROOT_DIR_SECTORS b"

text \<open>\<open>(n - 2u)\<close> is an unsigned difference.\<close>

definition BPB_CLUSTER_LBA :: "bpb \<Rightarrow> nat \<Rightarrow> nat" where
  "BPB_CLUSTER_LBA b n = wrap32 (BPB_FIRST_DATA_SECTOR b + wrap32 (n + 0x100000000 - 2) * sectors_per_cluster b)"

definition cluster_lba :: "'m fat12_volume \<Rightarrow> nat \<Rightarrow> nat" where
  "cluster_lba v cluster = BPB_CLUSTER_LBA (vol_bpb v) cluster"

section \<open>Sector I/O\<close>

definition sector_range :: "'m fat12_volume \<Rightarrow> nat \<Rightarrow> nat \<Rightarrow> bool" where
  "sector_range v s n \<longleftrightarrow> s < total_sectors v \<and> n \<le> total_sectors v - s \<and>
     base_lba v \<le> UINT32_MAX - s \<and> n \<le> UINT32_MAX - (base_lba v + s)"

definition fat12_read_sectors :: "'m fat12_volume \<Rightarrow> 'm \<Rightarrow> nat \<Rightarrow> nat \<Rightarrow> int + u8 list" where
  "fat12_read_sectors v m s n = (case read_sectors (dev v) of
     None \<Rightarrow> Inl FAT12_ERR_NULL
   | Some rd \<Rightarrow>
       if \<not> sector_range v s n then Inl FAT12_ERR_PARTITION
       else case rd m (base_lba v + s) n of None \<Rightarrow> Inl FAT12_ERR_READ | Some bytes \<Rightarrow> Inr bytes)"

text \<open>The medium after the call, and whether the call returned 0.\<close>

definition fat12_write_sectors :: "'m fat12_volume \<Rightarrow> 'm \<Rightarrow> nat \<Rightarrow> nat \<Rightarrow> u8 list \<Rightarrow> 'm \<times> bool" where
  "fat12_write_sectors v m s n p = (case write_sectors (dev v) of
     None \<Rightarrow> (m, False)
   | Some wr \<Rightarrow> if \<not> sector_range v s n then (m, False) else wr m (base_lba v + s) n p)"

function cluster_read :: "'m fat12_volume \<Rightarrow> 'm \<Rightarrow> nat \<Rightarrow> nat \<Rightarrow> nat \<Rightarrow> int + u8 list" where
  "cluster_read v m lba off len =
     (if len = 0 then Inr []
      else let pos = off mod BLOCKDEV_SECTOR_SIZE;
               n0 = BLOCKDEV_SECTOR_SIZE - pos;
               n = (if n0 > len then len else n0)
           in case fat12_read_sectors v m (wrap32 (lba + off div BLOCKDEV_SECTOR_SIZE)) 1 of
                Inl rc \<Rightarrow> Inl FAT12_ERR_READ
              | Inr buf \<Rightarrow> (case cluster_read v m lba (off + n) (len - n) of
                  Inl rc \<Rightarrow> Inl rc
                | Inr bytes \<Rightarrow> Inr (window buf pos n @ bytes)))"
  by pat_completeness auto
termination
proof (relation "measure (\<lambda>(v, m, lba, off, len). len)", goal_cases)
  case (2 v m lba off len pos n0 n buf)
  have "off mod 512 < 512" by simp
  with 2 show ?case by (simp add: Let_def)
qed simp

text \<open>The sector at a time read-modify-write of a byte range; \<open>None\<close> writes zeros.\<close>

function cluster_splice :: "'m fat12_volume \<Rightarrow> 'm \<Rightarrow> nat \<Rightarrow> nat \<Rightarrow> u8 list option \<Rightarrow> nat \<Rightarrow> 'm \<times> (int + unit)" where
  "cluster_splice v m lba off src len =
     (if len = 0 then (m, Inr ())
      else let pos = off mod BLOCKDEV_SECTOR_SIZE;
               n0 = BLOCKDEV_SECTOR_SIZE - pos;
               sector = wrap32 (lba + off div BLOCKDEV_SECTOR_SIZE);
               n = (if n0 > len then len else n0);
               old = (if pos \<noteq> 0 \<or> n \<noteq> BLOCKDEV_SECTOR_SIZE then fat12_read_sectors v m sector 1
                      else Inr (replicate BLOCKDEV_SECTOR_SIZE 0))
           in case old of
                Inl rc \<Rightarrow> (m, Inl FAT12_ERR_READ)
              | Inr buf \<Rightarrow>
                  let buf' = splice buf pos (case src of None \<Rightarrow> replicate n 0 | Some bytes \<Rightarrow> take n bytes)
                  in case fat12_write_sectors v m sector 1 buf' of
                       (m', ok) \<Rightarrow> if \<not> ok then (m', Inl FAT12_ERR_WRITE)
                                   else cluster_splice v m' lba (off + n) (map_option (drop n) src) (len - n))"
  by pat_completeness auto
termination
proof (relation "measure (\<lambda>(v, m, lba, off, src, len). len)", goal_cases)
  case (2 v m lba off src len pos n0 sector n)
  have "off mod 512 < 512" by simp
  with 2 show ?case by (simp add: Let_def)
qed simp

fun cluster_fill_from :: "'m fat12_volume \<Rightarrow> 'm \<Rightarrow> nat \<Rightarrow> u8 list option \<Rightarrow> nat \<Rightarrow> nat \<Rightarrow> 'm \<times> (int + unit)" where
  "cluster_fill_from v m lba src len 0 = (m, Inr ())"
| "cluster_fill_from v m lba src len (Suc left) =
     (let n = (if len < BLOCKDEV_SECTOR_SIZE then len else BLOCKDEV_SECTOR_SIZE);
          buf = (case src of None \<Rightarrow> replicate BLOCKDEV_SECTOR_SIZE 0
                 | Some bytes \<Rightarrow> take n bytes @ replicate (BLOCKDEV_SECTOR_SIZE - n) 0)
      in case fat12_write_sectors v m lba 1 buf of
           (m', ok) \<Rightarrow> if \<not> ok then (m', Inl FAT12_ERR_WRITE)
                       else cluster_fill_from v m' (lba + 1) (map_option (drop n) src) (len - n) left)"

definition cluster_fill :: "'m fat12_volume \<Rightarrow> 'm \<Rightarrow> nat \<Rightarrow> u8 list option \<Rightarrow> nat \<Rightarrow> 'm \<times> (int + unit)" where
  "cluster_fill v m lba src len = cluster_fill_from v m lba src len (sectors_per_cluster (vol_bpb v))"

declare cluster_read.simps [simp del] cluster_splice.simps [simp del]

end
