(* ===== verification/FatChain.thy ===== *)
theory FatChain imports Fat12 begin

text \<open>
  FAT entries and cluster chains of \<open>os/milton/fat12.c\<close>: decoding through the whole FAT or the sector window,
  classification, the chain walk and its validation, file reads, and the in-memory edits
  (set an entry, find a free cluster, free a chain).
\<close>

section \<open>The FAT sector window\<close>

definition fat12_fat_window_init :: "u8 list option \<Rightarrow> nat \<Rightarrow> fat12_fat_window" where
  "fat12_fat_window_init buf len = \<lparr>win_buf = buf, win_buf_len = len, cached_first_sector = 0, cached_count = 0,
     win_valid = False\<rparr>"

text \<open>The window after the call and the offset of the entry in it. A device read fills the front of the buffer.\<close>

definition fat12_read_fat_sector ::
    "'m fat12_volume \<Rightarrow> 'm \<Rightarrow> fat12_fat_window \<Rightarrow> nat \<Rightarrow> fat12_fat_window \<times> (int + nat)" where
  "fat12_read_fat_sector vol m win cluster = (case read_sectors (dev vol) of
     None \<Rightarrow> (win, Inl FAT12_ERR_NULL)
   | Some rd \<Rightarrow> (case win_buf win of
     None \<Rightarrow> (win, Inl FAT12_ERR_NULL)
   | Some buf \<Rightarrow>
     if cluster < FAT12_FIRST_DATA_CLUSTER then (win, Inl FAT12_ERR_CLUSTER)
     else let sec_bytes = bytes_per_sector (vol_bpb vol);
              abs_off = (if vol_fat_type vol = FAT_TYPE_FAT16 then cluster * 2 else cluster * 3 div 2);
              fat_bytes = sectors_per_fat (vol_bpb vol) * sec_bytes
          in if abs_off + 1 \<ge> fat_bytes then (win, Inl FAT12_ERR_CLUSTER)
          else let first_sec = abs_off div sec_bytes;
                   straddle = (abs_off mod sec_bytes = sec_bytes - 1);
                   need_count = (if straddle then 2 else 1)
               in if win_buf_len win < need_count * sec_bytes then (win, Inl FAT12_ERR_BUFFER)
               else if \<not> (win_valid win \<and> first_sec \<ge> cached_first_sector win \<and>
                          first_sec + need_count \<le> cached_first_sector win + cached_count win)
               then (case fat12_read_sectors vol m (first_fat_sector vol + first_sec) need_count of
                       Inl rc \<Rightarrow> (win\<lparr>win_valid := False\<rparr>, Inl FAT12_ERR_READ)
                     | Inr bytes \<Rightarrow>
                         (win\<lparr>win_buf := Some (splice buf 0 bytes), cached_first_sector := first_sec,
                              cached_count := need_count, win_valid := True\<rparr>,
                          Inr (abs_off - first_sec * sec_bytes)))
               else (win, Inr (abs_off - cached_first_sector win * sec_bytes))))"

section \<open>Entry decoding\<close>

definition entry_word :: "u8 list \<Rightarrow> nat \<Rightarrow> u16" where
  "entry_word b off = ucast (b ! off) OR push_bit 8 (ucast (b ! (off + 1)))"

definition decode12 :: "nat \<Rightarrow> u16 \<Rightarrow> nat" where
  "decode12 cluster v = unat (if even cluster then v AND FAT12_ENTRY_MASK else drop_bit 4 v AND FAT12_ENTRY_MASK)"

definition fat16_next_cluster ::
    "'m fat12_volume \<Rightarrow> 'm \<Rightarrow> fat12_fat_window option \<Rightarrow> u8 list option \<Rightarrow> nat \<Rightarrow> nat \<Rightarrow>
     fat12_fat_window option \<times> (int + nat)" where
  "fat16_next_cluster vol m win fat fat_len cluster = (case win of
     Some w \<Rightarrow>
       (case fat12_read_fat_sector vol m w cluster of
          (w', Inl rc) \<Rightarrow> (Some w', Inl rc)
        | (w', Inr off) \<Rightarrow> (Some w', Inr (unat (entry_word (the (win_buf w')) off))))
   | None \<Rightarrow> (case fat of
       None \<Rightarrow> (win, Inl FAT12_ERR_NULL)
     | Some b \<Rightarrow>
         if cluster < FAT12_FIRST_DATA_CLUSTER then (win, Inl FAT12_ERR_CLUSTER)
         else let off = cluster * 2
              in if off + 1 \<ge> fat_len then (win, Inl FAT12_ERR_CLUSTER)
                 else (win, Inr (unat (entry_word b off)))))"

definition fat12_next_cluster ::
    "'m fat12_volume \<Rightarrow> 'm \<Rightarrow> fat12_fat_window option \<Rightarrow> u8 list option \<Rightarrow> nat \<Rightarrow> nat \<Rightarrow>
     fat12_fat_window option \<times> (int + nat)" where
  "fat12_next_cluster vol m win fat fat_len cluster =
     (if vol_fat_type vol = FAT_TYPE_FAT16 then fat16_next_cluster vol m win fat fat_len cluster
      else case win of
        Some w \<Rightarrow>
          (case fat12_read_fat_sector vol m w cluster of
             (w', Inl rc) \<Rightarrow> (Some w', Inl rc)
           | (w', Inr off) \<Rightarrow> (Some w', Inr (decode12 cluster (entry_word (the (win_buf w')) off))))
      | None \<Rightarrow> (case fat of
          None \<Rightarrow> (win, Inl FAT12_ERR_NULL)
        | Some b \<Rightarrow>
            if cluster < FAT12_FIRST_DATA_CLUSTER then (win, Inl FAT12_ERR_CLUSTER)
            else let off = cluster * 3 div 2
                 in if off + 1 \<ge> fat_len then (win, Inl FAT12_ERR_CLUSTER)
                    else (win, Inr (decode12 cluster (entry_word b off)))))"

section \<open>Classification\<close>

definition fat12_is_free :: "nat \<Rightarrow> bool" where "fat12_is_free v \<longleftrightarrow> v = FAT12_FREE"
definition fat12_is_bad :: "nat \<Rightarrow> bool" where "fat12_is_bad v \<longleftrightarrow> v = FAT12_BAD"
definition fat12_is_eoc :: "nat \<Rightarrow> bool" where "fat12_is_eoc v \<longleftrightarrow> v \<ge> FAT12_EOC_MIN"
definition fat16_is_free :: "nat \<Rightarrow> bool" where "fat16_is_free v \<longleftrightarrow> v = FAT16_FREE"
definition fat16_is_bad :: "nat \<Rightarrow> bool" where "fat16_is_bad v \<longleftrightarrow> v = FAT16_BAD"
definition fat16_is_eoc :: "nat \<Rightarrow> bool" where "fat16_is_eoc v \<longleftrightarrow> v \<ge> FAT16_EOC_MIN"

definition chain_is_eoc :: "'m fat12_volume \<Rightarrow> nat \<Rightarrow> bool" where
  "chain_is_eoc vol v = (if vol_fat_type vol = FAT_TYPE_FAT16 then fat16_is_eoc v else fat12_is_eoc v)"

definition chain_is_free :: "'m fat12_volume \<Rightarrow> nat \<Rightarrow> bool" where
  "chain_is_free vol v = (if vol_fat_type vol = FAT_TYPE_FAT16 then fat16_is_free v else fat12_is_free v)"

definition chain_is_bad :: "'m fat12_volume \<Rightarrow> nat \<Rightarrow> bool" where
  "chain_is_bad vol v = (if vol_fat_type vol = FAT_TYPE_FAT16 then fat16_is_bad v else fat12_is_bad v)"

definition fat12_last_cluster :: "'m fat12_volume \<Rightarrow> nat" where
  "fat12_last_cluster vol = (FAT12_FIRST_DATA_CLUSTER + total_clusters vol - 1) mod 0x10000"

definition fat12_cluster_in_range :: "'m fat12_volume \<Rightarrow> nat \<Rightarrow> bool" where
  "fat12_cluster_in_range vol c \<longleftrightarrow> c \<ge> FAT12_FIRST_DATA_CLUSTER \<and> c \<le> fat12_last_cluster vol"

definition chain_link_unusable :: "'m fat12_volume \<Rightarrow> nat \<Rightarrow> bool" where
  "chain_link_unusable vol cur \<longleftrightarrow> \<not> fat12_cluster_in_range vol cur \<or> chain_is_free vol cur \<or> chain_is_bad vol cur"

section \<open>Chain walks\<close>

text \<open>The loop of \<open>fat12_validate_file_chain\<close> with \<open>left\<close> passes to go of \<open>total_clusters\<close>.\<close>

fun validate_from ::
    "'m fat12_volume \<Rightarrow> 'm \<Rightarrow> fat12_fat_window option \<Rightarrow> u8 list option \<Rightarrow> nat \<Rightarrow> nat \<Rightarrow> nat \<Rightarrow> nat \<Rightarrow> nat \<Rightarrow> nat \<Rightarrow>
     fat12_fat_window option \<times> (int + unit)" where
  "validate_from vol m win fat fat_len reserved need cur n 0 = (win, Inl FAT12_ERR_CHAIN)"
| "validate_from vol m win fat fat_len reserved need cur n (Suc left) =
     (if cur \<ge> reserved \<or> chain_link_unusable vol cur then (win, Inl FAT12_ERR_CHAIN)
      else case fat12_next_cluster vol m win fat fat_len cur of
        (win', Inl rc) \<Rightarrow> (win', Inl rc)
      | (win', Inr next) \<Rightarrow>
          if chain_is_eoc vol next then (win', if n + 1 \<ge> need then Inr () else Inl FAT12_ERR_CHAIN)
          else validate_from vol m win' fat fat_len reserved need next (n + 1) left)"

definition fat12_validate_file_chain ::
    "'m fat12_volume \<Rightarrow> 'm \<Rightarrow> fat12_fat_window option \<Rightarrow> u8 list option \<Rightarrow> nat \<Rightarrow> dir_entry \<Rightarrow>
     fat12_fat_window option \<times> (int + unit)" where
  "fat12_validate_file_chain vol m win fat fat_len entry =
     (let size = unat (file_size entry) in
      if size = 0 then (win, Inr ())
      else let bytes = bytes_per_sector (vol_bpb vol) * sectors_per_cluster (vol_bpb vol) in
        if bytes = 0 then (win, Inl FAT12_ERR_GEOMETRY)
        else let need = size div bytes + (if size mod bytes \<noteq> 0 then 1 else 0) in
          if need > total_clusters vol then (win, Inl FAT12_ERR_CHAIN)
          else validate_from vol m win fat fat_len (if vol_fat_type vol = FAT_TYPE_FAT16 then 0xFFF0 else 0x0FF0)
                 need (unat (start_cluster entry)) 0 (total_clusters vol))"

text \<open>The walk into an array of \<open>max_clusters\<close> cells; \<open>left\<close> is the room that remains.\<close>

fun walk_from ::
    "'m fat12_volume \<Rightarrow> 'm \<Rightarrow> fat12_fat_window option \<Rightarrow> u8 list option \<Rightarrow> nat \<Rightarrow> nat \<Rightarrow> nat \<Rightarrow>
     fat12_fat_window option \<times> (int + nat list)" where
  "walk_from vol m win fat fat_len cur left =
     (if chain_is_free vol cur then (win, Inl FAT12_ERR_CHAIN)
      else if chain_is_bad vol cur then (win, Inl FAT12_ERR_CHAIN)
      else if \<not> fat12_cluster_in_range vol cur then (win, Inl FAT12_ERR_CLUSTER)
      else case left of 0 \<Rightarrow> (win, Inl FAT12_ERR_CHAIN)
      | Suc left' \<Rightarrow> (case fat12_next_cluster vol m win fat fat_len cur of
          (win', Inl rc) \<Rightarrow> (win', Inl rc)
        | (win', Inr next) \<Rightarrow>
            if chain_is_eoc vol next then (win', Inr [cur])
            else case walk_from vol m win' fat fat_len next left' of
              (win'', Inl rc) \<Rightarrow> (win'', Inl rc)
            | (win'', Inr cs) \<Rightarrow> (win'', Inr (cur # cs))))"

definition fat12_walk_chain ::
    "'m fat12_volume \<Rightarrow> 'm \<Rightarrow> fat12_fat_window option \<Rightarrow> u8 list option \<Rightarrow> nat \<Rightarrow> nat \<Rightarrow> nat \<Rightarrow>
     fat12_fat_window option \<times> (int + nat list)" where
  "fat12_walk_chain vol m win fat fat_len start max_clusters =
     (if fat = None then (win, Inl FAT12_ERR_NULL)
      else if start < FAT12_FIRST_DATA_CLUSTER then (win, Inl FAT12_ERR_CLUSTER)
      else walk_from vol m win fat fat_len start max_clusters)"

section \<open>Reading a file\<close>

text \<open>The common end of both read loops: the link after \<open>cur\<close>, refused at end of chain and after \<open>max_steps\<close>
  steps. \<open>left\<close> is \<open>max_steps - steps\<close>.\<close>

definition step_link ::
    "'m fat12_volume \<Rightarrow> 'm \<Rightarrow> fat12_fat_window option \<Rightarrow> u8 list option \<Rightarrow> nat \<Rightarrow> nat \<Rightarrow> nat \<Rightarrow>
     fat12_fat_window option \<times> (int + nat)" where
  "step_link vol m win fat fat_len cur left = (case fat12_next_cluster vol m win fat fat_len cur of
     (win', Inl rc) \<Rightarrow> (win', Inl rc)
   | (win', Inr next) \<Rightarrow>
       if chain_is_eoc vol next then (win', Inl FAT12_ERR_CHAIN)
       else if left = 0 then (win', Inl FAT12_ERR_CHAIN)
       else (win', Inr next))"

text \<open>Copying \<open>remaining\<close> bytes from \<open>in_off\<close> of cluster \<open>cur\<close> on: the bytes, the last cluster and the steps left.\<close>

function copy_clusters ::
    "'m fat12_volume \<Rightarrow> 'm \<Rightarrow> fat12_fat_window option \<Rightarrow> u8 list option \<Rightarrow> nat \<Rightarrow> nat \<Rightarrow> nat \<Rightarrow> nat \<Rightarrow> nat \<Rightarrow> nat \<Rightarrow>
     fat12_fat_window option \<times> (int + u8 list \<times> nat \<times> nat)" where
  "copy_clusters vol m win fat fat_len bytes_per_cluster cur in_off remaining left =
     (if remaining = 0 then (win, Inr ([], cur, left))
      else if chain_link_unusable vol cur then (win, Inl FAT12_ERR_CHAIN)
      else let room = bytes_per_cluster - in_off;
               take' = (if room > remaining then remaining else room)
           in case cluster_read vol m (cluster_lba vol cur) in_off take' of
                Inl rc \<Rightarrow> (win, Inl rc)
              | Inr bytes \<Rightarrow>
                  if take' = remaining then (win, Inr (bytes, cur, left))
                  else (case step_link vol m win fat fat_len cur left of
                    (win', Inl rc) \<Rightarrow> (win', Inl rc)
                  | (win', Inr next) \<Rightarrow>
                      (case copy_clusters vol m win' fat fat_len bytes_per_cluster next 0 (remaining - take') (left - 1) of
                         (win'', Inl rc) \<Rightarrow> (win'', Inl rc)
                       | (win'', Inr (rest, final, left')) \<Rightarrow> (win'', Inr (bytes @ rest, final, left')))))"
  by pat_completeness auto
termination
proof (relation "measure (\<lambda>(vol, m, win, fat, fat_len, bpc, cur, in_off, remaining, left). left)", goal_cases)
  case (2 vol m win fat fat_len bytes_per_cluster cur in_off remaining left)
  then show ?case by (auto simp: step_link_def split: prod.splits sum.splits if_splits)
qed simp

text \<open>After the data the chain must still end: the closing loop of \<open>fat12_read_file\<close>.\<close>

fun chain_ends ::
    "'m fat12_volume \<Rightarrow> 'm \<Rightarrow> fat12_fat_window option \<Rightarrow> u8 list option \<Rightarrow> nat \<Rightarrow> nat \<Rightarrow> nat \<Rightarrow>
     fat12_fat_window option \<times> (int + unit)" where
  "chain_ends vol m win fat fat_len cur left =
     (if chain_link_unusable vol cur then (win, Inl FAT12_ERR_CHAIN)
      else case fat12_next_cluster vol m win fat fat_len cur of
        (win', Inl rc) \<Rightarrow> (win', Inl rc)
      | (win', Inr next) \<Rightarrow>
          if chain_is_eoc vol next then (win', Inr ())
          else case left of 0 \<Rightarrow> (win', Inl FAT12_ERR_CHAIN)
          | Suc left' \<Rightarrow> chain_ends vol m win' fat fat_len next left')"

definition fat12_read_file ::
    "'m fat12_volume \<Rightarrow> 'm \<Rightarrow> fat12_fat_window option \<Rightarrow> u8 list option \<Rightarrow> nat \<Rightarrow> dir_entry \<Rightarrow> nat \<Rightarrow>
     fat12_fat_window option \<times> (int + u8 list)" where
  "fat12_read_file vol m win fat fat_len e out_buf_len =
     (let size = unat (file_size e) in
      if out_buf_len < size then (win, Inl FAT12_ERR_BUFFER)
      else if size = 0 then (win, Inr [])
      else if fat = None \<and> win = None then (win, Inl FAT12_ERR_NULL)
      else let bytes_per_cluster = sectors_per_cluster (vol_bpb vol) * bytes_per_sector (vol_bpb vol);
               max_steps = wrap32 (total_clusters vol + 2)
           in case copy_clusters vol m win fat fat_len bytes_per_cluster (unat (start_cluster e)) 0 size max_steps of
                (win', Inl rc) \<Rightarrow> (win', Inl rc)
              | (win', Inr (bytes, cur, left)) \<Rightarrow> (case chain_ends vol m win' fat fat_len cur left of
                  (win'', Inl rc) \<Rightarrow> (win'', Inl rc)
                | (win'', Inr _) \<Rightarrow> (win'', Inr bytes)))"

text \<open>The skip loop of \<open>fat12_read_partial\<close>: the cluster reached and the steps left.\<close>

fun skip_clusters ::
    "'m fat12_volume \<Rightarrow> 'm \<Rightarrow> fat12_fat_window option \<Rightarrow> u8 list option \<Rightarrow> nat \<Rightarrow> nat \<Rightarrow> nat \<Rightarrow> nat \<Rightarrow>
     fat12_fat_window option \<times> (int + nat \<times> nat)" where
  "skip_clusters vol m win fat fat_len 0 cur left = (win, Inr (cur, left))"
| "skip_clusters vol m win fat fat_len (Suc k) cur left =
     (if chain_link_unusable vol cur then (win, Inl FAT12_ERR_CHAIN)
      else case step_link vol m win fat fat_len cur left of
        (win', Inl rc) \<Rightarrow> (win', Inl rc)
      | (win', Inr next) \<Rightarrow> skip_clusters vol m win' fat fat_len k next (left - 1))"

definition fat12_read_partial ::
    "'m fat12_volume \<Rightarrow> 'm \<Rightarrow> fat12_fat_window option \<Rightarrow> u8 list option \<Rightarrow> nat \<Rightarrow> dir_entry \<Rightarrow> nat \<Rightarrow> nat \<Rightarrow>
     fat12_fat_window option \<times> (int + u8 list)" where
  "fat12_read_partial vol m win fat fat_len e offset len =
     (let size = unat (file_size e) in
      if offset \<ge> size then (win, Inr [])
      else let avail = size - offset;
               to_read = (if len < avail then len else avail)
           in if to_read = 0 then (win, Inr [])
           else if fat = None \<and> win = None then (win, Inl FAT12_ERR_NULL)
           else let bytes_per_cluster = sectors_per_cluster (vol_bpb vol) * bytes_per_sector (vol_bpb vol);
                    max_steps = wrap32 (total_clusters vol + 2)
                in case skip_clusters vol m win fat fat_len (offset div bytes_per_cluster) (unat (start_cluster e)) max_steps of
                     (win', Inl rc) \<Rightarrow> (win', Inl rc)
                   | (win', Inr (cur, left)) \<Rightarrow>
                       (case copy_clusters vol m win' fat fat_len bytes_per_cluster cur (offset mod bytes_per_cluster)
                               to_read left of
                          (win'', Inl rc) \<Rightarrow> (win'', Inl rc)
                        | (win'', Inr (bytes, final, left')) \<Rightarrow> (win'', Inr bytes)))"

section \<open>Editing the FAT in memory\<close>

definition fat12_set_entry :: "u8 list option \<Rightarrow> nat \<Rightarrow> nat \<Rightarrow> nat \<Rightarrow> u8 list option \<times> (int + unit)" where
  "fat12_set_entry fat fat_len cluster value = (case fat of
     None \<Rightarrow> (fat, Inl FAT12_ERR_NULL)
   | Some b \<Rightarrow>
       if cluster < FAT12_FIRST_DATA_CLUSTER then (fat, Inl FAT12_ERR_CLUSTER)
       else let off = cluster * 3 div 2
            in if off + 1 \<ge> fat_len then (fat, Inl FAT12_ERR_CLUSTER)
               else let v = (of_nat value :: u16) AND FAT12_ENTRY_MASK;
                        b' = (if even cluster
                              then b[off := ucast (v AND 0xFF),
                                     off + 1 := (b ! (off + 1) AND 0xF0) OR ucast (drop_bit 8 v AND 0x0F)]
                              else b[off := (b ! off AND 0x0F) OR ucast (push_bit 4 v AND 0xF0),
                                     off + 1 := ucast (drop_bit 4 v AND 0xFF)])
                    in (Some b', Inr ()))"

function find_free_from :: "'m fat12_volume \<Rightarrow> 'm \<Rightarrow> fat12_fat_window option \<Rightarrow> u8 list option \<Rightarrow> nat \<Rightarrow> nat \<Rightarrow> nat \<Rightarrow>
    fat12_fat_window option \<times> nat" where
  "find_free_from vol m win fat fat_len last_c c =
     (if c \<le> last_c then
        (case fat12_next_cluster vol m win fat fat_len c of
           (win', Inl rc) \<Rightarrow> (win', 0)
         | (win', Inr v) \<Rightarrow> if fat12_is_free v then (win', c) else find_free_from vol m win' fat fat_len last_c (c + 1))
      else (win, 0))"
  by pat_completeness auto
termination
  by (relation "measure (\<lambda>(vol, m, win, fat, fat_len, last_c, c). last_c + 1 - c)") auto

definition fat12_find_free :: "'m fat12_volume \<Rightarrow> 'm \<Rightarrow> fat12_fat_window option \<Rightarrow> u8 list option \<Rightarrow> nat \<Rightarrow> nat \<Rightarrow>
    fat12_fat_window option \<times> nat" where
  "fat12_find_free vol m win fat fat_len from' =
     find_free_from vol m win fat fat_len (fat12_last_cluster vol)
       (if from' < FAT12_FIRST_DATA_CLUSTER then FAT12_FIRST_DATA_CLUSTER else from')"

text \<open>\<open>left\<close> is the anti-hang bound minus the steps taken.\<close>

fun free_chain_from :: "'m fat12_volume \<Rightarrow> 'm \<Rightarrow> fat12_fat_window option \<Rightarrow> u8 list option \<Rightarrow> nat \<Rightarrow> nat \<Rightarrow> nat \<Rightarrow>
    fat12_fat_window option \<times> u8 list option \<times> (int + unit)" where
  "free_chain_from vol m win fat fat_len cur left = (case fat12_next_cluster vol m win fat fat_len cur of
     (win', Inl rc) \<Rightarrow> (win', fat, Inl rc)
   | (win', Inr next) \<Rightarrow> (case fat12_set_entry fat fat_len cur FAT12_FREE of
       (fat', Inl rc) \<Rightarrow> (win', fat', Inl rc)
     | (fat', Inr _) \<Rightarrow>
         if chain_is_eoc vol next \<or> chain_is_free vol next \<or> chain_is_bad vol next then (win', fat', Inr ())
         else case left of 0 \<Rightarrow> (win', fat', Inl FAT12_ERR_CHAIN)
         | Suc left' \<Rightarrow> free_chain_from vol m win' fat' fat_len next left'))"

definition fat12_free_chain :: "'m fat12_volume \<Rightarrow> 'm \<Rightarrow> fat12_fat_window option \<Rightarrow> u8 list option \<Rightarrow> nat \<Rightarrow> nat \<Rightarrow>
    fat12_fat_window option \<times> u8 list option \<times> (int + unit)" where
  "fat12_free_chain vol m win fat fat_len start =
     (if start < FAT12_FIRST_DATA_CLUSTER then (win, fat, Inr ())
      else free_chain_from vol m win fat fat_len start (wrap32 (total_clusters vol + 2)))"

declare walk_from.simps [simp del] chain_ends.simps [simp del] copy_clusters.simps [simp del]
  find_free_from.simps [simp del] free_chain_from.simps [simp del]

end
