(* ===== verification/FatVolume.thy ===== *)
theory FatVolume imports FatChain begin

text \<open>
  Mounting a volume, reading and flushing the FAT, 8.3 names and the root directory, of
  \<open>os/milton/fat12.c\<close>. A C string is the list of its bytes before the terminating zero; a directory visitor
  is a function that returns its code and its updated context.
\<close>

section \<open>Mounting\<close>

text \<open>The scan of the four partition entries: the offset of the chosen one, 0 for none.\<close>

fun scan_parts :: "u8 list \<Rightarrow> nat \<Rightarrow> nat list \<Rightarrow> nat \<Rightarrow> nat \<Rightarrow> int + nat" where
  "scan_parts sec primary [] chosen active = Inr chosen"
| "scan_parts sec primary (i # is) chosen active =
     (let e = 446 + i * 16; e0 = sec ! e; type = sec ! (e + 4);
          active' = (if e0 = 0x80 then active + 1 else active)
      in if e0 \<noteq> 0 \<and> e0 \<noteq> 0x80 then Inl FAT12_ERR_PARTITION
         else if e0 = 0x80 \<and> active' > 1 then Inl FAT12_ERR_PARTITION
         else let chosen' = (if type = 1 \<or> type = 4 \<or> type = 6
                             then if (if primary \<noteq> 0 then i + 1 = primary else chosen = 0 \<or> e0 = 0x80) then e else chosen
                             else chosen)
              in scan_parts sec primary is chosen' active')"

text \<open>The boot sector, its origin and the partition length (0 for a raw volume).\<close>

definition find_boot :: "(nat \<Rightarrow> nat \<Rightarrow> u8 list option) \<Rightarrow> u8 list \<Rightarrow> nat \<Rightarrow> int + u8 list \<times> nat \<times> nat" where
  "find_boot rd sec primary =
     (if primary \<noteq> 0 \<or> \<not> boot_bpb sec then
        (case scan_parts sec primary [0, 1, 2, 3] 0 0 of
           Inl rc \<Rightarrow> Inl rc
         | Inr chosen \<Rightarrow>
             if chosen = 0 then Inl FAT12_ERR_PARTITION
             else let base = rd_le32 sec (chosen + 8); partition_sectors = rd_le32 sec (chosen + 12)
                  in if base = 0 \<or> partition_sectors = 0 \<or> partition_sectors > UINT32_MAX - base then Inl FAT12_ERR_PARTITION
                     else case rd base 1 of
                       None \<Rightarrow> Inl FAT12_ERR_READ
                     | Some vbr \<Rightarrow>
                         if rd_le16 vbr FAT12_BOOTSIG_OFFSET \<noteq> FAT12_BOOTSIG_VALUE then Inl FAT12_ERR_SIGNATURE
                         else if \<not> boot_bpb vbr then Inl FAT12_ERR_PARTITION
                         else Inr (vbr, base, partition_sectors))
      else Inr (sec, 0, 0))"

text \<open>The checks and the derived geometry from the BPB on.\<close>

definition mount_bpb :: "'m blockdev \<Rightarrow> bpb \<Rightarrow> nat \<Rightarrow> nat \<Rightarrow> int + 'm fat12_volume" where
  "mount_bpb d b base partition_sectors =
     (if hidden_sectors b \<noteq> base then Inl FAT12_ERR_PARTITION
      else if bytes_per_sector b \<noteq> BLOCKDEV_SECTOR_SIZE then Inl FAT12_ERR_SECTOR_SIZE
      else if sectors_per_cluster b = 0 \<or> num_fats b = 0 \<or> sectors_per_fat b = 0 \<or> root_entry_count b = 0
      then Inl FAT12_ERR_GEOMETRY
      else let total = (if total_sectors_16 b \<noteq> 0 then total_sectors_16 b else total_sectors_32 b) in
        if total = 0 then Inl FAT12_ERR_GEOMETRY
        else if partition_sectors \<noteq> 0 \<and> total > partition_sectors then Inl FAT12_ERR_PARTITION
        else if BPB_FIRST_DATA_SECTOR b \<ge> total \<or> BPB_FIRST_DATA_SECTOR b \<le> BPB_ROOT_DIR_SECTOR b
        then Inl FAT12_ERR_GEOMETRY
        else if sectors_per_cluster b = 0 \<or> sectors_per_cluster b > FAT12_MAX_SPC \<or>
                sectors_per_cluster b AND (sectors_per_cluster b - 1) \<noteq> 0
        then Inl FAT12_ERR_CLUSTER_SIZE
        else let clusters = (total - BPB_FIRST_DATA_SECTOR b) div sectors_per_cluster b;
                 vol = (\<lambda>ft. \<lparr>dev = d, base_lba = base, total_sectors = total, vol_bpb = b,
                    first_fat_sector = BPB_FAT1_SECTOR b, root_dir_sector = BPB_ROOT_DIR_SECTOR b,
                    root_dir_sectors = BPB_ROOT_DIR_SECTORS b, first_data_sector = BPB_FIRST_DATA_SECTOR b,
                    total_clusters = clusters, vol_fat_type = ft\<rparr>)
             in if clusters < FAT12_MAX_CLUSTERS then Inr (vol FAT_TYPE_FAT12)
                else if clusters < FAT16_MAX_CLUSTERS then Inr (vol FAT_TYPE_FAT16)
                else Inl FAT12_ERR_GEOMETRY)"

definition mount_primary :: "'m blockdev option \<Rightarrow> 'm \<Rightarrow> nat \<Rightarrow> int + 'm fat12_volume" where
  "mount_primary dv m primary = (case dv of
     None \<Rightarrow> Inl FAT12_ERR_NULL
   | Some d \<Rightarrow> (case read_sectors d of
       None \<Rightarrow> Inl FAT12_ERR_NULL
     | Some rd \<Rightarrow> (case rd m 0 1 of
         None \<Rightarrow> Inl FAT12_ERR_READ
       | Some sec \<Rightarrow>
           if rd_le16 sec FAT12_BOOTSIG_OFFSET \<noteq> FAT12_BOOTSIG_VALUE then Inl FAT12_ERR_SIGNATURE
           else case find_boot (rd m) sec primary of
             Inl rc \<Rightarrow> Inl rc
           | Inr (vbr, base, partition_sectors) \<Rightarrow> mount_bpb d (parse_bpb vbr) base partition_sectors)))"

definition fat12_mount_primary :: "'m blockdev option \<Rightarrow> 'm \<Rightarrow> nat \<Rightarrow> int + 'm fat12_volume" where
  "fat12_mount_primary dv m primary =
     (if primary = 0 \<or> primary > 4 then Inl FAT12_ERR_PARTITION else mount_primary dv m primary)"

definition fat12_mount :: "'m blockdev option \<Rightarrow> 'm \<Rightarrow> int + 'm fat12_volume" where
  "fat12_mount dv m = mount_primary dv m 0"

section \<open>The whole FAT\<close>

definition fat12_read_fat :: "'m fat12_volume \<Rightarrow> 'm \<Rightarrow> nat \<Rightarrow> int + u8 list" where
  "fat12_read_fat vol m fat_buf_len = (case read_sectors (dev vol) of
     None \<Rightarrow> Inl FAT12_ERR_NULL
   | Some rd \<Rightarrow>
       if fat_buf_len < sectors_per_fat (vol_bpb vol) * bytes_per_sector (vol_bpb vol) then Inl FAT12_ERR_BUFFER
       else case fat12_read_sectors vol m (first_fat_sector vol) (sectors_per_fat (vol_bpb vol)) of
         Inl rc \<Rightarrow> Inl FAT12_ERR_READ
       | Inr bytes \<Rightarrow> Inr bytes)"

fun flush_from :: "'m fat12_volume \<Rightarrow> 'm \<Rightarrow> u8 list \<Rightarrow> nat list \<Rightarrow> 'm \<times> (int + unit)" where
  "flush_from vol m fat [] = (m, Inr ())"
| "flush_from vol m fat (i # is) =
     (case fat12_write_sectors vol m (first_fat_sector vol + i * sectors_per_fat (vol_bpb vol))
             (sectors_per_fat (vol_bpb vol)) fat of
        (m', ok) \<Rightarrow> if \<not> ok then (m', Inl FAT12_ERR_WRITE) else flush_from vol m' fat is)"

definition fat12_flush_fats :: "'m fat12_volume \<Rightarrow> 'm \<Rightarrow> u8 list option \<Rightarrow> nat \<Rightarrow> 'm \<times> (int + unit)" where
  "fat12_flush_fats vol m fat fat_len = (case fat of
     None \<Rightarrow> (m, Inl FAT12_ERR_WRITE)
   | Some bytes \<Rightarrow> (case write_sectors (dev vol) of
       None \<Rightarrow> (m, Inl FAT12_ERR_WRITE)
     | Some wr \<Rightarrow>
         let fat_bytes = sectors_per_fat (vol_bpb vol) * bytes_per_sector (vol_bpb vol)
         in if fat_len < fat_bytes then (m, Inl FAT12_ERR_BUFFER)
            else flush_from vol m (take fat_bytes bytes) [0..<num_fats (vol_bpb vol)]))"

section \<open>8.3 names\<close>

definition up_ascii :: "u8 \<Rightarrow> u8" where
  "up_ascii c = (if 0x61 \<le> c \<and> c \<le> 0x7A then c - 0x20 else c)"

fun name_chars :: "u8 list \<Rightarrow> bool \<Rightarrow> u8 list" where
  "name_chars [] at_start = []"
| "name_chars (ch # cs) at_start =
     (if ch = 0x20 then []
      else (if at_start \<and> ch = FAT12_NAME_E5_ALIAS then DIR_NAME_DELETED else ch) # name_chars cs False)"

fun ext_len_from :: "u8 list \<Rightarrow> nat \<Rightarrow> nat \<Rightarrow> nat" where
  "ext_len_from [] i len = len"
| "ext_len_from (c # cs) i len = ext_len_from cs (i + 1) (if c \<noteq> 0x20 then i + 1 else len)"

definition fat12_format_83 :: "dir_entry \<Rightarrow> u8 list" where
  "fat12_format_83 e =
     (let ext_len = ext_len_from (extension e) 0 0
      in name_chars (filename e) True @ (if ext_len > 0 then 0x2E # take ext_len (extension e) else []))"

definition bad_char :: "u8 \<Rightarrow> bool" where
  "bad_char c \<longleftrightarrow> c < 0x21 \<or> c = 0x22 \<or> c = 0x2A \<or> c = 0x2B \<or> c = 0x2C \<or> c = 0x2F \<or> c = 0x3B \<or> c = 0x3C \<or> c = 0x3D \<or>
     c = 0x3E \<or> c = 0x3F \<or> c = 0x5B \<or> c = 0x5D \<or> c = 0x7C"

fun parse_chars :: "u8 list \<Rightarrow> nat \<Rightarrow> nat \<Rightarrow> u8 list \<Rightarrow> int + u8 list" where
  "parse_chars [] field pos out11 = Inr out11"
| "parse_chars (c # cs) field pos out11 =
     (if bad_char c then Inl FAT12_ERR_NOT_FOUND
      else if c = 0x5C \<or> c = 0x3A then Inl FAT12_ERR_NOT_FOUND
      else if c = 0x2E then if field = 1 then Inl FAT12_ERR_NOT_FOUND else parse_chars cs 1 0 out11
      else let base = (if field = 0 then 0 else 8); cap = (if field = 0 then 8 else 3)
           in if pos \<ge> cap then Inl FAT12_ERR_NOT_FOUND
              else parse_chars cs field (pos + 1)
                     (out11[base + pos := if 0x61 \<le> c \<and> c \<le> 0x7A then c - 0x20 else c]))"

definition parse_name83 :: "u8 list \<Rightarrow> int + u8 list" where
  "parse_name83 name83 = (case parse_chars name83 0 0 (replicate 11 0x20) of
     Inl rc \<Rightarrow> Inl rc
   | Inr out11 \<Rightarrow> if out11 ! 0 = 0x20 then Inl FAT12_ERR_NOT_FOUND else Inr out11)"

function name83_ieq :: "u8 list \<Rightarrow> u8 list \<Rightarrow> bool" where
  "name83_ieq a b =
     (let ca = up_ascii (case a of [] \<Rightarrow> 0 | x # _ \<Rightarrow> x); cb = up_ascii (case b of [] \<Rightarrow> 0 | x # _ \<Rightarrow> x)
      in if ca \<noteq> cb then False else if ca = 0 then True else name83_ieq (tl a) (tl b))"
  by pat_completeness auto
termination
proof (relation "measure (\<lambda>(a, b). length a)", goal_cases)
  case (2 a b ca cb)
  then have "a \<noteq> []" by (auto simp: up_ascii_def)
  then show ?case by simp
qed simp

section \<open>The root directory\<close>

definition parse_dirent :: "u8 list \<Rightarrow> nat \<Rightarrow> dir_entry" where
  "parse_dirent p i = \<lparr>filename = window p i 8, extension = window p (i + 8) 3, attribute = p ! (i + 11),
     de_reserved = window p (i + 12) 10, mtime = of_nat (rd_le16 p (i + 22)), mdate = of_nat (rd_le16 p (i + 24)),
     start_cluster = of_nat (rd_le16 p (i + 26)), file_size = of_nat (rd_le32 p (i + 28))\<rparr>"

text \<open>One sector of entries: \<open>Inl\<close> of the number seen to go on, \<open>Inr\<close> of the code to return.\<close>

fun visit_sector :: "nat \<Rightarrow> u8 list \<Rightarrow> (dir_entry \<Rightarrow> 'u \<Rightarrow> int \<times> 'u) \<Rightarrow> nat list \<Rightarrow> nat \<Rightarrow> 'u \<Rightarrow> (nat + int) \<times> 'u" where
  "visit_sector count sec cb [] seen u = (Inl seen, u)"
| "visit_sector count sec cb (i # is) seen u =
     (if seen \<ge> count then (Inr 0, u)
      else let e = parse_dirent sec (i * 32) in
        if filename e ! 0 = DIR_NAME_FREE then (Inr 0, u)
        else if filename e ! 0 = DIR_NAME_DELETED then visit_sector count sec cb is (seen + 1) u
        else if attribute e = FAT12_ATTR_LFN then visit_sector count sec cb is (seen + 1) u
        else case cb e u of (rc, u') \<Rightarrow> if rc \<noteq> 0 then (Inr rc, u') else visit_sector count sec cb is (seen + 1) u')"

fun read_root_from :: "'m fat12_volume \<Rightarrow> 'm \<Rightarrow> (dir_entry \<Rightarrow> 'u \<Rightarrow> int \<times> 'u) \<Rightarrow> nat list \<Rightarrow> nat \<Rightarrow> 'u \<Rightarrow> int \<times> 'u" where
  "read_root_from vol m cb [] seen u = (0, u)"
| "read_root_from vol m cb (s # ss) seen u =
     (case fat12_read_sectors vol m (root_dir_sector vol + s) 1 of
        Inl rc \<Rightarrow> (FAT12_ERR_READ, u)
      | Inr sec \<Rightarrow> (case visit_sector (root_entry_count (vol_bpb vol)) sec cb [0..<16] seen u of
          (Inl seen', u') \<Rightarrow> read_root_from vol m cb ss seen' u'
        | (Inr rc, u') \<Rightarrow> (rc, u')))"

definition fat12_read_root_dir :: "'m fat12_volume \<Rightarrow> 'm \<Rightarrow> (dir_entry \<Rightarrow> 'u \<Rightarrow> int \<times> 'u) \<Rightarrow> 'u \<Rightarrow> int \<times> 'u" where
  "fat12_read_root_dir vol m cb u = (case read_sectors (dev vol) of
     None \<Rightarrow> (FAT12_ERR_NULL, u)
   | Some rd \<Rightarrow> read_root_from vol m cb [0..<root_dir_sectors vol] 0 u)"

text \<open>The context of the search is the entry copied out, \<open>None\<close> until one was found.\<close>

definition fat12_find_cb :: "u8 list \<Rightarrow> dir_entry \<Rightarrow> dir_entry option \<Rightarrow> int \<times> dir_entry option" where
  "fat12_find_cb want e ctx = (if name83_ieq (fat12_format_83 e) want then (1, Some e) else (0, ctx))"

definition fat12_find :: "'m fat12_volume \<Rightarrow> 'm \<Rightarrow> u8 list \<Rightarrow> int + dir_entry" where
  "fat12_find vol m name83 = (case fat12_read_root_dir vol m (fat12_find_cb name83) None of
     (rc, ctx) \<Rightarrow>
       if rc < 0 then Inl rc
       else case ctx of None \<Rightarrow> Inl FAT12_ERR_NOT_FOUND | Some e \<Rightarrow> Inr e)"

declare name83_ieq.simps [simp del]

end
