(* ===== verification/FatView.thy ===== *)
theory FatView imports FatEntry begin

text \<open>
  What the chain walks rely on, as an interface: a view of a FAT answers every link question with one
  function of the cluster, whatever the state of the sector window. The whole FAT in memory is such a view,
  and so is the window over a volume whose sectors hold that FAT; the walks are proved over the interface.
\<close>

section \<open>Chains as lists\<close>

definition fat_link :: "fat_type \<Rightarrow> u8 list \<Rightarrow> nat \<Rightarrow> nat \<Rightarrow> int + nat" where
  "fat_link ft b len c = (if c < 2 \<or> len \<le> entry_off ft c + 1 then Inl FAT12_ERR_CLUSTER else Inr (fat_entry ft b c))"

text \<open>\<open>cs\<close> is a complete chain: usable clusters, each linked to the next, the last one to an end mark.\<close>

fun links :: "'m fat12_volume \<Rightarrow> (nat \<Rightarrow> int + nat) \<Rightarrow> nat list \<Rightarrow> bool" where
  "links vol link [] = False"
| "links vol link [c] = (\<not> chain_link_unusable vol c \<and> (case link c of Inl rc \<Rightarrow> False | Inr nx \<Rightarrow> chain_is_eoc vol nx))"
| "links vol link (c # d # cs) = (\<not> chain_link_unusable vol c \<and> link c = Inr d \<and> \<not> chain_is_eoc vol d \<and> links vol link (d # cs))"

lemma links_hd: "links vol link (c # cs) \<Longrightarrow> \<not> chain_link_unusable vol c"
  by (cases cs) auto

lemma links_drop: "links vol link cs \<Longrightarrow> k < length cs \<Longrightarrow> links vol link (drop k cs)"
proof (induction k arbitrary: cs)
  case (Suc k)
  then obtain c d ds where "cs = c # d # ds" by (metis length_Cons less_nat_zero_code list.exhaust list.size(3) not_less_eq)
  with Suc show ?case by simp
qed simp

lemma links_fun:
  "links vol link cs \<Longrightarrow> links vol link ds \<Longrightarrow> hd cs = hd ds \<Longrightarrow> cs = ds"
proof (induction vol link cs arbitrary: ds rule: links.induct)
  case (2 vol link c)
  then show ?case by (cases ds rule: list.exhaust [case_names Nil Cons]; cases "tl ds") (auto split: sum.splits)
next
  case (3 vol link c d cs)
  then obtain es where es: "ds = c # es" by (cases ds) auto
  with 3 obtain fs where fs: "es = d # fs" "links vol link (d # fs)" by (cases es) (auto split: sum.splits)
  with 3 es show ?case using "3.IH" [of es] by auto
qed simp

lemma links_distinct:
  assumes "links vol link cs"
  shows "distinct cs"
proof (rule ccontr)
  assume "\<not> distinct cs"
  then obtain i j where ij: "i < j" "j < length cs" "cs ! i = cs ! j"
    unfolding distinct_conv_nth by (metis linorder_neqE_nat)
  then have "drop i cs = drop j cs"
    by (intro links_fun [OF links_drop [OF assms] links_drop [OF assms]]) (auto simp: hd_drop_conv_nth)
  then have "length (drop i cs) = length (drop j cs)" by simp
  with ij show False by simp
qed

lemma links_in_range: "links vol link cs \<Longrightarrow> c \<in> set cs \<Longrightarrow> fat12_cluster_in_range vol c"
  by (induction vol link cs rule: links.induct) (auto simp: chain_link_unusable_def)

lemma links_bound:
  assumes "links vol link cs"
  shows "length cs \<le> total_clusters vol"
proof -
  have "set cs \<subseteq> {2..total_clusters vol + 1}"
  proof
    fix c assume "c \<in> set cs"
    then have "2 \<le> c" "c \<le> (total_clusters vol + 1) mod 0x10000"
      using links_in_range [OF assms] by (auto simp: fat12_cluster_in_range_def fat12_last_cluster_def)
    moreover have "(total_clusters vol + 1) mod 0x10000 \<le> total_clusters vol + 1" by (rule mod_less_eq_dividend)
    ultimately show "c \<in> {2..total_clusters vol + 1}" by (auto intro: order_trans)
  qed
  then have "card (set cs) \<le> card {2..total_clusters vol + 1}" by (intro card_mono) simp
  then show ?thesis by (simp add: distinct_card links_distinct [OF assms])
qed

lemma links_mono:
  "links vol link cs \<Longrightarrow> (\<And>c. c \<in> set cs \<Longrightarrow> link' c = link c) \<Longrightarrow> links vol link' cs"
  by (induction vol link cs rule: links.induct) (auto split: sum.splits)

section \<open>The interface\<close>

locale fat_view =
  fixes vol :: "'m fat12_volume" and m :: 'm and fat :: "u8 list option" and fat_len :: nat
    and inv :: "fat12_fat_window option \<Rightarrow> bool" and link :: "nat \<Rightarrow> int + nat"
  assumes next_link: "inv win \<Longrightarrow> \<exists>win'. inv win' \<and> fat12_next_cluster vol m win fat fat_len c = (win', link c)"
begin

text \<open>The walk returns a list exactly when it is a chain that fits the array.\<close>

lemma walk_chain:
  "inv win \<Longrightarrow> links vol link (c # cs) \<Longrightarrow> length cs < n \<Longrightarrow>
   \<exists>win'. inv win' \<and> walk_from vol m win fat fat_len c n = (win', Inr (c # cs))"
proof (induction n arbitrary: win c cs)
  case (Suc n)
  obtain win' where w: "inv win'" "fat12_next_cluster vol m win fat fat_len c = (win', link c)"
    using next_link [OF Suc.prems(1)] by blast
  have u: "\<not> chain_is_free vol c" "\<not> chain_is_bad vol c" "fat12_cluster_in_range vol c"
    using links_hd [OF Suc.prems(2)] by (auto simp: chain_link_unusable_def)
  show ?case
  proof (cases cs)
    case Nil
    with Suc.prems(2) w u show ?thesis by (auto simp: walk_from.simps split: sum.splits)
  next
    case (Cons d ds)
    with Suc.prems Suc.IH [OF w(1), of d ds] obtain win'' where
      "inv win''" "walk_from vol m win' fat fat_len d n = (win'', Inr (d # ds))" by auto
    with Cons Suc.prems(2) w u show ?thesis by (auto simp: walk_from.simps [of vol m win])
  qed
qed simp

lemma chain_walked:
  "inv win \<Longrightarrow> walk_from vol m win fat fat_len c n = (win', Inr xs) \<Longrightarrow>
   inv win' \<and> links vol link xs \<and> hd xs = c \<and> length xs \<le> n"
proof (induction n arbitrary: win c xs win')
  case (Suc n)
  obtain w1 where w: "inv w1" "fat12_next_cluster vol m win fat fat_len c = (w1, link c)"
    using next_link [OF Suc.prems(1)] by blast
  from Suc.prems(2) have u: "\<not> chain_link_unusable vol c"
    by (subst (asm) walk_from.simps) (auto simp: chain_link_unusable_def split: if_splits)
  from Suc.prems(2) w u obtain nx where nx: "link c = Inr nx"
    by (subst (asm) walk_from.simps) (auto simp: chain_link_unusable_def split: sum.splits)
  show ?case
  proof (cases "chain_is_eoc vol nx")
    case True
    with Suc.prems(2) w u nx show ?thesis by (subst (asm) walk_from.simps) (auto simp: chain_link_unusable_def)
  next
    case False
    with Suc.prems(2) w u nx obtain ds where d: "walk_from vol m w1 fat fat_len nx n = (win', Inr ds)" "xs = c # ds"
      by (subst (asm) walk_from.simps) (auto simp: chain_link_unusable_def split: prod.splits sum.splits)
    from Suc.IH [OF w(1) d(1)] have "inv win'" "links vol link ds" "hd ds = nx" "length ds \<le> n" by auto
    with d False u nx show ?thesis by (cases ds) auto
  qed
qed (subst (asm) walk_from.simps, simp split: if_splits)

lemma step_to:
  assumes "inv win" "links vol link (c # d # cs)" "0 < left"
  shows "\<exists>win'. inv win' \<and> step_link vol m win fat fat_len c left = (win', Inr d)"
  using next_link [OF assms(1), of c] assms(2,3) by (auto simp: step_link_def)

lemma skip_to:
  "inv win \<Longrightarrow> links vol link cs \<Longrightarrow> k < length cs \<Longrightarrow> length cs \<le> left + 1 \<Longrightarrow>
   \<exists>win'. inv win' \<and> skip_clusters vol m win fat fat_len k (hd cs) left = (win', Inr (cs ! k, left - k))"
proof (induction k arbitrary: win cs left)
  case 0
  then show ?case by (auto simp: hd_conv_nth)
next
  case (Suc k)
  then obtain c d ds where cs: "cs = c # d # ds" by (metis length_Cons less_nat_zero_code list.exhaust list.size(3) not_less_eq)
  with Suc.prems obtain w1 where w: "inv w1" "step_link vol m win fat fat_len c left = (w1, Inr d)"
    using step_to [of win c d ds left] by auto
  from Suc.IH [OF w(1), of "d # ds" "left - 1"] Suc.prems cs obtain w2 where
    "inv w2" "skip_clusters vol m w1 fat fat_len k d (left - 1) = (w2, Inr ((d # ds) ! k, left - 1 - k))" by auto
  with w cs links_hd [of vol link c "d # ds"] Suc.prems(2) show ?case by auto
qed

lemma chain_end_reached:
  "inv win \<Longrightarrow> links vol link (c # cs) \<Longrightarrow> length cs \<le> left \<Longrightarrow>
   \<exists>win'. inv win' \<and> chain_ends vol m win fat fat_len c left = (win', Inr ())"
proof (induction left arbitrary: win c cs)
  case 0
  then show ?case using next_link [OF 0(1), of c]
    by (auto simp: chain_ends.simps [of vol m win] split: sum.splits)
next
  case (Suc left)
  obtain w1 where w: "inv w1" "fat12_next_cluster vol m win fat fat_len c = (w1, link c)"
    using next_link [OF Suc.prems(1)] by blast
  show ?case
  proof (cases cs)
    case Nil
    with Suc.prems(2) w show ?thesis by (auto simp: chain_ends.simps [of vol m win] split: sum.splits)
  next
    case (Cons d ds)
    with Suc.prems Suc.IH [OF w(1), of d ds] show ?thesis using w by (auto simp: chain_ends.simps [of vol m win])
  qed
qed

end

section \<open>The whole FAT in memory\<close>

interpretation whole: fat_view vol m "Some b" len "\<lambda>win. win = None" "fat_link (vol_fat_type vol) b len"
  for vol :: "'m fat12_volume" and m b len
  by unfold_locales (simp add: next_whole fat_link_def)

section \<open>The FAT through the sector window\<close>

text \<open>The FAT \<open>b\<close> is what the volume's FAT sectors hold, and a loaded window holds a part of it.\<close>

definition fat_on_disk :: "'m fat12_volume \<Rightarrow> 'm \<Rightarrow> u8 list \<Rightarrow> bool" where
  "fat_on_disk vol m b \<longleftrightarrow> bytes_per_sector (vol_bpb vol) = BLOCKDEV_SECTOR_SIZE \<and> read_sectors (dev vol) \<noteq> None \<and>
     length b = sectors_per_fat (vol_bpb vol) * BLOCKDEV_SECTOR_SIZE \<and>
     (\<forall>s n. s + n \<le> sectors_per_fat (vol_bpb vol) \<longrightarrow> 0 < n \<longrightarrow>
        fat12_read_sectors vol m (first_fat_sector vol + s) n = Inr (window b (s * 512) (n * 512)))"

definition window_holds :: "fat12_fat_window \<Rightarrow> u8 list \<Rightarrow> bool" where
  "window_holds w b \<longleftrightarrow> 1024 \<le> win_buf_len w \<and> (case win_buf w of None \<Rightarrow> False | Some buf \<Rightarrow>
     1024 \<le> length buf \<and> (win_valid w \<longrightarrow> (cached_first_sector w + cached_count w) * 512 \<le> length b \<and>
       cached_count w * 512 \<le> length buf \<and>
       window buf 0 (cached_count w * 512) = window b (cached_first_sector w * 512) (cached_count w * 512)))"

lemma window_holds_init: "1024 \<le> length buf \<Longrightarrow> 1024 \<le> len \<Longrightarrow> window_holds (fat12_fat_window_init (Some buf) len) b"
  by (simp add: window_holds_def fat12_fat_window_init_def)

lemma entry_word_window:
  assumes "window buf 0 n = window b p n" "off + 1 < n" "n \<le> length buf" "p + n \<le> length b"
  shows "entry_word buf off = entry_word b (p + off)"
proof -
  have "buf ! k = b ! (p + k)" if "k < n" for k
    using that assms window_nth [of k n 0 buf] window_nth [of k n p b] by simp
  with assms(2) show ?thesis by (simp add: entry_word_def)
qed

text \<open>The first sector an entry needs and how many, and the window read spelled out.\<close>

definition need_count :: "nat \<Rightarrow> nat" where
  "need_count a = (if a mod 512 = 511 then 2 else 1)"

lemma need_in_fat:
  assumes "a + 1 < spf * 512"
  shows "a div 512 + need_count a \<le> spf" "a div 512 * 512 \<le> a" "a + 1 < (a div 512 + need_count a) * 512"
proof -
  define q r where qr: "q = a div 512" "r = a mod 512"
  then have a: "a = q * 512 + r" "r < 512" by simp_all
  moreover have "need_count a = (if r = 511 then 2 else 1)" by (simp add: need_count_def qr)
  ultimately show "a div 512 + need_count a \<le> spf" "a div 512 * 512 \<le> a" "a + 1 < (a div 512 + need_count a) * 512"
    using assms unfolding qr(1) [symmetric] by (auto split: if_splits)
qed

lemma read_fat_sector_eq:
  assumes "fat_on_disk vol m b" "window_holds w b" and a: "a = entry_off (vol_fat_type vol) c"
  shows "fat12_read_fat_sector vol m w c =
    (if c < 2 \<or> length b \<le> a + 1 then (w, Inl FAT12_ERR_CLUSTER)
     else if win_valid w \<and> cached_first_sector w \<le> a div 512 \<and>
             a div 512 + need_count a \<le> cached_first_sector w + cached_count w
     then (w, Inr (a - cached_first_sector w * 512))
     else (w\<lparr>win_buf := Some (splice (the (win_buf w)) 0 (window b (a div 512 * 512) (need_count a * 512))),
             cached_first_sector := a div 512, cached_count := need_count a, win_valid := True\<rparr>,
           Inr (a - a div 512 * 512)))"
proof -
  obtain rd buf where rd: "read_sectors (dev vol) = Some rd" and buf: "win_buf w = Some buf" "1024 \<le> win_buf_len w"
    using assms by (auto simp: fat_on_disk_def window_holds_def split: option.splits)
  have bps: "bytes_per_sector (vol_bpb vol) = 512" "sectors_per_fat (vol_bpb vol) * 512 = length b"
    using assms(1) by (auto simp: fat_on_disk_def)
  have rdn: "fat12_read_sectors vol m (first_fat_sector vol + a div 512) (need_count a) =
      Inr (window b (a div 512 * 512) (need_count a * 512))" if "a + 1 < length b"
    using assms(1) need_in_fat [of a "sectors_per_fat (vol_bpb vol)"] that bps
    by (auto simp: fat_on_disk_def need_count_def)
  have nb: "need_count a * 512 \<le> win_buf_len w" using buf by (simp add: need_count_def)
  have fold_a: "(if vol_fat_type vol = FAT_TYPE_FAT16 then c * 2 else c * 3 div 2) = a" by (simp add: a entry_off_def)
  have fold_n: "(if a mod 512 = 512 - 1 then 2 else 1) = need_count a" by (simp add: need_count_def)
  show ?thesis
    unfolding fat12_read_fat_sector_def rd buf(1) option.case Let_def bps fold_a fold_n
    using rdn nb by (auto simp: not_le)
qed

lemma refilled_holds:
  assumes "window_holds w b" "a + 1 < length b" "length b = spf * 512"
  shows "window_holds (w\<lparr>win_buf := Some (splice (the (win_buf w)) 0 (window b (a div 512 * 512) (need_count a * 512))),
     cached_first_sector := a div 512, cached_count := need_count a, win_valid := True\<rparr>) b"
proof -
  obtain buf where buf: "win_buf w = Some buf" "1024 \<le> length buf" "1024 \<le> win_buf_len w"
    using assms(1) by (auto simp: window_holds_def split: option.splits)
  have n: "(a div 512 + need_count a) * 512 \<le> length b" "need_count a * 512 \<le> 1024"
    using need_in_fat(1) [of a spf] assms(2,3) by (auto simp: need_count_def)
  then have l: "length (window b (a div 512 * 512) (need_count a * 512)) = need_count a * 512"
    by (intro length_window) (simp add: algebra_simps)
  show ?thesis
    using buf n l window_splice_same [of 0 "window b (a div 512 * 512) (need_count a * 512)" buf]
    by (simp add: window_holds_def)
qed

text \<open>The entry found through the window is the entry of the FAT.\<close>

lemma windowed_word:
  assumes "window_holds w b" "win_valid w" "cached_first_sector w \<le> a div 512"
    and "a div 512 + need_count a \<le> cached_first_sector w + cached_count w"
  shows "entry_word (the (win_buf w)) (a - cached_first_sector w * 512) = entry_word b a"
proof -
  obtain buf where buf: "win_buf w = Some buf" "cached_count w * 512 \<le> length buf"
      "(cached_first_sector w + cached_count w) * 512 \<le> length b"
      "window buf 0 (cached_count w * 512) = window b (cached_first_sector w * 512) (cached_count w * 512)"
    using assms(1,2) by (auto simp: window_holds_def split: option.splits)
  have a: "cached_first_sector w * 512 \<le> a" "a + 1 < (cached_first_sector w + cached_count w) * 512"
    using assms(3,4) need_in_fat(2,3) [of a "a + 2"] by (auto intro: order_trans less_le_trans)
  have "entry_word buf (a - cached_first_sector w * 512) = entry_word b (cached_first_sector w * 512 + (a - cached_first_sector w * 512))"
    using a buf by (intro entry_word_window [where n = "cached_count w * 512"]) (auto simp: algebra_simps)
  with buf a show ?thesis by simp
qed

interpretation windowed: fat_view vol m fat len
  "\<lambda>win. fat_on_disk vol m b \<and> (\<exists>w. win = Some w \<and> window_holds w b)" "fat_link (vol_fat_type vol) b (length b)"
  for vol :: "'m fat12_volume" and m fat len b
proof
  fix win c assume inv: "fat_on_disk vol m b \<and> (\<exists>w. win = Some w \<and> window_holds w b)"
  then obtain w where w: "win = Some w" "window_holds w b" "fat_on_disk vol m b" by blast
  obtain w' r where s: "fat12_read_fat_sector vol m w c = (w', r)" by fastforce
  have l: "length b = sectors_per_fat (vol_bpb vol) * 512" using w(3) by (simp add: fat_on_disk_def)
  let ?a = "entry_off (vol_fat_type vol) c"
  have "window_holds w' b \<and> (case r of Inl rc \<Rightarrow> fat_link (vol_fat_type vol) b (length b) c = Inl rc
      | Inr off \<Rightarrow> fat_link (vol_fat_type vol) b (length b) c = Inr (fat_entry (vol_fat_type vol) b c) \<and>
          entry_word (the (win_buf w')) off = entry_word b ?a)"
  proof (cases "c < 2 \<or> length b \<le> ?a + 1")
    case False
    then show ?thesis
      using s w(2) refilled_holds [OF w(2) _ l, of ?a] windowed_word [of w' b ?a] windowed_word [of w b ?a]
      by (auto simp: read_fat_sector_eq [OF w(3,2) refl] fat_link_def split: if_splits)
  qed (use s w(2) in \<open>auto simp: read_fat_sector_eq [OF w(3,2) refl] fat_link_def\<close>)
  then show "\<exists>win'. (fat_on_disk vol m b \<and> (\<exists>w. win' = Some w \<and> window_holds w b)) \<and>
      fat12_next_cluster vol m win fat len c = (win', fat_link (vol_fat_type vol) b (length b) c)"
    using w s by (auto simp: fat12_next_cluster_def fat16_next_cluster_def fat_entry_def Let_def split: sum.splits)
qed

end
