(* ===== verification/FatGeom.thy ===== *)
theory FatGeom imports FatView begin

text \<open>
  What a successful mount establishes: the geometry is consistent, so that every FAT sector, root sector and
  cluster sector passes the range check of the sector I/O and lies inside the partition.
\<close>

section \<open>Mounted volumes\<close>

definition volume_ok :: "'m fat12_volume \<Rightarrow> bool" where
  "volume_ok v \<longleftrightarrow> read_sectors (dev v) \<noteq> None \<and> bytes_per_sector (vol_bpb v) = 512 \<and>
     0 < sectors_per_cluster (vol_bpb v) \<and> sectors_per_cluster (vol_bpb v) \<le> FAT12_MAX_SPC \<and>
     first_data_sector v = BPB_FIRST_DATA_SECTOR (vol_bpb v) \<and>
     first_fat_sector v + num_fats (vol_bpb v) * sectors_per_fat (vol_bpb v) = root_dir_sector v \<and> 0 < num_fats (vol_bpb v) \<and>
     root_dir_sector v + root_dir_sectors v = first_data_sector v \<and> 0 < root_dir_sectors v \<and> first_data_sector v < total_sectors v \<and>
     total_clusters v = (total_sectors v - first_data_sector v) div sectors_per_cluster (vol_bpb v) \<and>
     total_clusters v < FAT16_MAX_CLUSTERS \<and> base_lba v + total_sectors v \<le> UINT32_MAX \<and>
     (vol_fat_type v = FAT_TYPE_FAT12 \<longleftrightarrow> total_clusters v < FAT12_MAX_CLUSTERS)"

lemma volume_ok_facts:
  assumes "volume_ok v"
  shows "bytes_per_sector (vol_bpb v) = 512" "0 < sectors_per_cluster (vol_bpb v)" "total_clusters v < FAT16_MAX_CLUSTERS"
    "wrap32 (total_clusters v + 2) = total_clusters v + 2"
proof -
  show c: "total_clusters v < FAT16_MAX_CLUSTERS" using assms unfolding volume_ok_def by blast
  then show "wrap32 (total_clusters v + 2) = total_clusters v + 2" by simp
qed (use assms in \<open>auto simp: volume_ok_def\<close>)

lemma rd_le16_less [simp]: "rd_le16 p i < 0x10000"
  unfolding rd_le16_def by (rule unat_u16_less)

lemma rd_le32_less [simp]: "rd_le32 p i < 0x100000000"
  unfolding rd_le32_def by (rule unat_u32_less)

lemma find_boot_range:
  assumes "find_boot rd sec primary = Inr (vbr, base, sectors)"
  shows "base = 0 \<and> sectors = 0 \<or> 0 < sectors \<and> base + sectors \<le> UINT32_MAX"
  using assms by (auto simp: find_boot_def Let_def simp del: scan_parts.simps split: if_splits sum.splits option.splits)

lemma mount_bpb_ok:
  assumes "mount_bpb d b base sectors = Inr v" "read_sectors d \<noteq> None"
    and "base = 0 \<and> sectors = 0 \<or> 0 < sectors \<and> base + sectors \<le> UINT32_MAX"
    and "total_sectors_16 b < 0x10000" "total_sectors_32 b < 0x100000000"
  shows "volume_ok v \<and> base_lba v = base \<and> vol_bpb v = b \<and> (sectors \<noteq> 0 \<longrightarrow> total_sectors v \<le> sectors)"
proof -
  define total where "total = (if total_sectors_16 b \<noteq> 0 then total_sectors_16 b else total_sectors_32 b)"
  have t: "total \<le> UINT32_MAX" using assms(4,5) by (auto simp: total_def)
  show ?thesis
    using assms(1,2,3) t unfolding mount_bpb_def total_def [symmetric]
    by (auto simp: Let_def volume_ok_def BPB_FAT1_SECTOR_def BPB_ROOT_DIR_SECTOR_def BPB_FIRST_DATA_SECTOR_def
        split: if_splits)
qed

lemma mounted_ok:
  assumes "mount_primary dv m primary = Inr v"
  shows "volume_ok v \<and> (\<exists>sectors. base_lba v = 0 \<or> total_sectors v \<le> sectors \<and> base_lba v + sectors \<le> UINT32_MAX)"
proof -
  from assms obtain d rd sec vbr base sectors where
    d: "read_sectors d = Some rd" "find_boot (rd m) sec primary = Inr (vbr, base, sectors)"
       "mount_bpb d (parse_bpb vbr) base sectors = Inr v"
    by (auto simp: mount_primary_def split: option.splits if_splits sum.splits)
  show ?thesis
    using mount_bpb_ok [OF d(3) _ find_boot_range [OF d(2)]] find_boot_range [OF d(2)] d(1)
    by (auto simp: parse_bpb_def)
qed

section \<open>Sectors of clusters\<close>

lemma ok_sector_range: "volume_ok v \<Longrightarrow> s < total_sectors v \<Longrightarrow> s + n \<le> total_sectors v \<Longrightarrow> sector_range v s n"
  by (auto simp: volume_ok_def sector_range_def)

lemma in_range_iff: "volume_ok v \<Longrightarrow> fat12_cluster_in_range v c \<longleftrightarrow> 2 \<le> c \<and> c < total_clusters v + 2"
  by (auto simp: fat12_cluster_in_range_def fat12_last_cluster_def volume_ok_def)

lemma cluster_lba_eq:
  assumes "volume_ok v" "fat12_cluster_in_range v c"
  shows "cluster_lba v c = first_data_sector v + (c - 2) * sectors_per_cluster (vol_bpb v)"
    and "cluster_lba v c + sectors_per_cluster (vol_bpb v) \<le> total_sectors v"
proof -
  let ?spc = "sectors_per_cluster (vol_bpb v)"
  have ok: "total_clusters v < FAT16_MAX_CLUSTERS" "total_clusters v = (total_sectors v - first_data_sector v) div ?spc"
      "first_data_sector v < total_sectors v" "base_lba v + total_sectors v \<le> UINT32_MAX"
      "first_data_sector v = BPB_FIRST_DATA_SECTOR (vol_bpb v)"
    using assms(1) unfolding volume_ok_def by blast+
  have c: "2 \<le> c" "c - 2 + 1 \<le> total_clusters v" "c < 0x10000"
    using assms(2) ok(1) by (auto simp: in_range_iff [OF assms(1)])
  have "(c - 2 + 1) * ?spc \<le> total_clusters v * ?spc" using c(2) by (rule mult_le_mono1)
  also have "\<dots> \<le> total_sectors v - first_data_sector v" unfolding ok(2) by (rule div_times_less_eq_dividend)
  finally have le: "first_data_sector v + ((c - 2) * ?spc + ?spc) \<le> total_sectors v" using ok(3) by simp
  have w: "wrap32 (c + 0x100000000 - 2) = c - 2"
  proof -
    have "c + 0x100000000 - 2 = (c - 2) + 0x100000000" using c(1) by simp
    then show ?thesis using c(3) by (simp only: wrap32_def mod_add_self2) simp
  qed
  have "first_data_sector v + (c - 2) * ?spc < 0x100000000" using le ok(4) by simp
  then show "cluster_lba v c = first_data_sector v + (c - 2) * ?spc"
    unfolding cluster_lba_def BPB_CLUSTER_LBA_def w ok(5) by (rule wrap32_id)
  with le show "cluster_lba v c + ?spc \<le> total_sectors v" by simp
qed

lemma clusters_apart:
  assumes "volume_ok v" "fat12_cluster_in_range v c" "fat12_cluster_in_range v d" "c < d"
  shows "cluster_lba v c + sectors_per_cluster (vol_bpb v) \<le> cluster_lba v d"
proof -
  have "2 \<le> c" using assms(2) by (simp add: fat12_cluster_in_range_def)
  then have "(c - 2 + 1) * sectors_per_cluster (vol_bpb v) \<le> (d - 2) * sectors_per_cluster (vol_bpb v)"
    using assms(4) by (intro mult_le_mono1) simp
  then show ?thesis by (simp add: cluster_lba_eq(1) [OF assms(1)] assms(2,3))
qed

section \<open>A device that holds a volume\<close>

text \<open>\<open>D\<close> is the content of the partition: the device returns its bytes for every sector run in it.\<close>

definition backs :: "'m fat12_volume \<Rightarrow> 'm \<Rightarrow> u8 list \<Rightarrow> bool" where
  "backs v m D \<longleftrightarrow> length D = total_sectors v * 512 \<and>
     (\<forall>s n. sector_range v s n \<longrightarrow> fat12_read_sectors v m s n = Inr (window D (s * 512) (n * 512)))"

lemma cluster_read_window:
  "backs v m D \<Longrightarrow> volume_ok v \<Longrightarrow> lba * 512 + off + len \<le> length D \<Longrightarrow>
   cluster_read v m lba off len = Inr (window D (lba * 512 + off) len)"
proof (induction v m lba off len rule: cluster_read.induct)
  case (1 v m lba off len)
  show ?case
  proof (cases "len = 0")
    case False
    define q p where "q = off div 512" and "p = off mod 512"
    then have off: "off = q * 512 + p" "p < 512" by simp_all
    define n where "n = (if 512 - p > len then len else 512 - p)"
    have n: "n \<le> len" "p + n \<le> 512" "0 < n" using off(2) False by (auto simp: n_def)
    have "(lba + q) * 512 < total_sectors v * 512" using 1 off False by (simp add: backs_def)
    then have s: "lba + q < total_sectors v" by simp
    then have w: "wrap32 (lba + q) = lba + q" using 1(3) by (intro wrap32_id) (simp add: volume_ok_def)
    from s have rd: "fat12_read_sectors v m (lba + q) 1 = Inr (window D ((lba + q) * 512) 512)"
      using 1 ok_sector_range [of v "lba + q" 1] by (simp add: backs_def)
    have ih: "cluster_read v m lba (off + n) (len - n) = Inr (window D (lba * 512 + (off + n)) (len - n))"
      using "1.IH" [OF False] rd w 1 n by (simp add: p_def q_def n_def Let_def)
    have "window (window D ((lba + q) * 512) 512) p n = window D (lba * 512 + off) n"
      using n by (simp add: window_def drop_take min_def off algebra_simps)
    then show ?thesis
      using False rd w ih n window_append [of D "lba * 512 + off" n "len - n"]
      by (subst cluster_read.simps) (simp add: Let_def add.assoc flip: p_def q_def n_def)
  qed (subst cluster_read.simps, simp)
qed

end
