(* ===== verification/FatRead.thy ===== *)
theory FatRead imports FatGeom begin

text \<open>
  File reads over a complete chain: the bytes are the concatenated clusters of the chain, cut to the request.
  The loops are followed once, over the link interface; both views of a FAT inherit the result.
\<close>

section \<open>The bytes of a chain\<close>

definition cluster_data :: "'m fat12_volume \<Rightarrow> u8 list \<Rightarrow> nat \<Rightarrow> u8 list" where
  "cluster_data v D c = window D (cluster_lba v c * 512) (sectors_per_cluster (vol_bpb v) * 512)"

definition file_data :: "'m fat12_volume \<Rightarrow> u8 list \<Rightarrow> nat list \<Rightarrow> u8 list" where
  "file_data v D cs = concat (map (cluster_data v D) cs)"

lemma window_within: "off + n \<le> len \<Longrightarrow> window (window xs p len) off n = window xs (p + off) n"
  by (simp add: window_def drop_take min_def add.commute)

lemma window_append_left: "off + n \<le> length xs \<Longrightarrow> window (xs @ ys) off n = window xs off n"
  by (simp add: window_def)

lemma window_append_over: "off + n = length xs \<Longrightarrow> window (xs @ ys) off (n + k) = window xs off n @ window ys 0 k"
proof -
  assume len: "off + n = length xs"
  then have "n + k - (length xs - off) = k" by arith
  with len show ?thesis by (simp add: window_def)
qed

lemma length_cluster_data:
  assumes "volume_ok v" "backs v m D" "fat12_cluster_in_range v c"
  shows "length (cluster_data v D c) = sectors_per_cluster (vol_bpb v) * 512"
    and "cluster_lba v c * 512 + sectors_per_cluster (vol_bpb v) * 512 \<le> length D"
proof -
  have "(cluster_lba v c + sectors_per_cluster (vol_bpb v)) * 512 \<le> total_sectors v * 512"
    using cluster_lba_eq(2) [OF assms(1,3)] by (rule mult_le_mono1)
  then show "cluster_lba v c * 512 + sectors_per_cluster (vol_bpb v) * 512 \<le> length D"
    using assms(2) by (simp add: backs_def algebra_simps)
  then show "length (cluster_data v D c) = sectors_per_cluster (vol_bpb v) * 512"
    unfolding cluster_data_def by (rule length_window)
qed

lemma read_in_cluster:
  assumes "volume_ok v" "backs v m D" "fat12_cluster_in_range v c" "off + n \<le> sectors_per_cluster (vol_bpb v) * 512"
  shows "cluster_read v m (cluster_lba v c) off n = Inr (window (cluster_data v D c) off n)"
  using length_cluster_data(2) [OF assms(1-3)] assms
  by (simp add: cluster_read_window cluster_data_def window_within)

lemma length_file_data:
  assumes "volume_ok v" "backs v m D" "links v link cs"
  shows "length (file_data v D cs) = length cs * (sectors_per_cluster (vol_bpb v) * 512)"
proof -
  have "\<forall>c\<in>set cs. length (cluster_data v D c) = sectors_per_cluster (vol_bpb v) * 512"
    using links_in_range [OF assms(3)] length_cluster_data(1) [OF assms(1,2)] by blast
  then show ?thesis by (induction cs) (auto simp: file_data_def)
qed

lemma copy_one:
  assumes "volume_ok vol" "backs vol m D" "\<not> chain_link_unusable vol c" "off + n \<le> sectors_per_cluster (vol_bpb vol) * 512"
  shows "copy_clusters vol m win fat fat_len (sectors_per_cluster (vol_bpb vol) * 512) c off n left =
    (win, Inr (window (cluster_data vol D c) off n, c, left))"
proof -
  have "(if sectors_per_cluster (vol_bpb vol) * 512 - off > n then n else sectors_per_cluster (vol_bpb vol) * 512 - off) = n"
    using assms(4) by auto
  moreover have "fat12_cluster_in_range vol c" using assms(3) by (simp add: chain_link_unusable_def)
  ultimately show ?thesis
    using read_in_cluster [OF assms(1,2) _ assms(4)] assms(3) by (subst copy_clusters.simps) (simp add: Let_def)
qed

context fat_view begin

lemma copy_chain:
  assumes ok: "volume_ok vol" "backs vol m D"
  shows "inv win \<Longrightarrow> links vol link (c # cs) \<Longrightarrow> off < sectors_per_cluster (vol_bpb vol) * 512 \<Longrightarrow>
     off + n \<le> length (c # cs) * (sectors_per_cluster (vol_bpb vol) * 512) \<Longrightarrow> length cs \<le> left \<Longrightarrow>
     \<exists>win' d ds left'. inv win' \<and> links vol link (d # ds) \<and> length ds \<le> left' \<and>
       copy_clusters vol m win fat fat_len (sectors_per_cluster (vol_bpb vol) * 512) c off n left =
         (win', Inr (window (file_data vol D (c # cs)) off n, d, left'))"
proof (induction cs arbitrary: c off n left win)
  case Nil
  let ?bpc = "sectors_per_cluster (vol_bpb vol) * 512"
  have r: "fat12_cluster_in_range vol c" "\<not> chain_link_unusable vol c"
    using links_hd [OF Nil(2)] by (auto simp: chain_link_unusable_def)
  have "copy_clusters vol m win fat fat_len ?bpc c off n left = (win, Inr (window (file_data vol D [c]) off n, c, left))"
    using copy_one [OF ok r(2), of off n win fat fat_len left] Nil by (simp add: file_data_def)
  with Nil show ?case by blast
next
  case (Cons d ds)
  let ?bpc = "sectors_per_cluster (vol_bpb vol) * 512"
  have r: "fat12_cluster_in_range vol c" "\<not> chain_link_unusable vol c"
    using links_hd [OF Cons.prems(2)] by (auto simp: chain_link_unusable_def)
  have len: "length (cluster_data vol D c) = ?bpc" using length_cluster_data [OF ok r(1)] by simp
  have split: "file_data vol D (c # d # ds) = cluster_data vol D c @ file_data vol D (d # ds)" by (simp add: file_data_def)
  show ?case
  proof (cases "off + n \<le> ?bpc")
    case True
    then have "copy_clusters vol m win fat fat_len ?bpc c off n left =
        (win, Inr (window (file_data vol D (c # d # ds)) off n, c, left))"
      using copy_one [OF ok r(2) True] len True by (simp add: split window_append_left)
    with Cons.prems(1,2,5) show ?thesis by (intro exI conjI) (assumption+)
  next
    case False
    define room where "room = ?bpc - off"
    have room: "off + room = ?bpc" "room < n" using Cons.prems(3) False by (auto simp: room_def)
    obtain w1 where w1: "inv w1" "step_link vol m win fat fat_len c left = (w1, Inr d)"
      using step_to [of win c d ds left] Cons.prems by auto
    obtain w2 e es left' where w2: "inv w2" "links vol link (e # es)" "length es \<le> left'"
      "copy_clusters vol m w1 fat fat_len ?bpc d 0 (n - room) (left - 1) =
         (w2, Inr (window (file_data vol D (d # ds)) 0 (n - room), e, left'))"
    proof -
      have "links vol link (d # ds)" "0 < ?bpc" "length ds \<le> left - 1" "0 + (n - room) \<le> length (d # ds) * ?bpc"
        using Cons.prems room by auto
      from Cons.IH [OF w1(1) this(1,2,4,3)] that show thesis by blast
    qed
    have "window (file_data vol D (c # d # ds)) off n =
        window (cluster_data vol D c) off room @ window (file_data vol D (d # ds)) 0 (n - room)"
      using window_append_over [of off room "cluster_data vol D c" _ "n - room"] room len split by simp
    then have "copy_clusters vol m win fat fat_len ?bpc c off n left =
        (w2, Inr (window (file_data vol D (c # d # ds)) off n, e, left'))"
      using r read_in_cluster [OF ok r(1), of off room] room w1 w2(4)
      by (subst copy_clusters.simps) (simp add: Let_def flip: room_def)
    with w2 show ?thesis by blast
  qed
qed

lemma max_steps: "volume_ok vol \<Longrightarrow> links vol link cs \<Longrightarrow> length cs \<le> wrap32 (total_clusters vol + 2)"
  using links_bound [of vol link cs] volume_ok_facts(4) [of vol] by simp

lemma read_chain:
  assumes ok: "volume_ok vol" "backs vol m D" and "inv win" "fat \<noteq> None \<or> win \<noteq> None"
    and e: "file_size e \<noteq> 0 \<Longrightarrow> links vol link cs \<and> hd cs = unat (start_cluster e)"
    "unat (file_size e) \<le> length cs * (sectors_per_cluster (vol_bpb vol) * 512)" and room: "unat (file_size e) \<le> out"
  shows "\<exists>win'. inv win' \<and> fat12_read_file vol m win fat fat_len e out = (win', Inr (take (unat (file_size e)) (file_data vol D cs)))"
proof (cases "file_size e = 0")
  case True
  with assms(3) show ?thesis by (simp add: fat12_read_file_def)
next
  case False
  with e obtain ds where cs: "cs = unat (start_cluster e) # ds" "links vol link cs" by (cases cs) auto
  let ?s = "unat (file_size e)" and ?bpc = "sectors_per_cluster (vol_bpb vol) * 512" and ?l = "wrap32 (total_clusters vol + 2)"
  have "length ds \<le> ?l" using max_steps [OF ok(1) cs(2)] cs(1) by simp
  moreover have "0 < ?bpc" "bytes_per_sector (vol_bpb vol) = 512" using volume_ok_facts [OF ok(1)] by simp_all
  ultimately obtain w1 d es left' where w1: "inv w1" "links vol link (d # es)" "length es \<le> left'"
    "copy_clusters vol m win fat fat_len ?bpc (unat (start_cluster e)) 0 ?s ?l = (w1, Inr (window (file_data vol D cs) 0 ?s, d, left'))"
    using copy_chain [OF ok assms(3), of "unat (start_cluster e)" ds 0 ?s ?l] cs e(2) by auto
  obtain w2 where "inv w2" "chain_ends vol m w1 fat fat_len d left' = (w2, Inr ())"
    using chain_end_reached [OF w1(1-3)] by blast
  with False room assms(4) w1(4) \<open>bytes_per_sector (vol_bpb vol) = 512\<close> show ?thesis
    by (auto simp: fat12_read_file_def Let_def window_def unat_eq_0)
qed

lemma read_part:
  assumes ok: "volume_ok vol" "backs vol m D" and "inv win" "fat \<noteq> None \<or> win \<noteq> None"
    and e: "file_size e \<noteq> 0 \<Longrightarrow> links vol link cs \<and> hd cs = unat (start_cluster e)"
    "unat (file_size e) \<le> length cs * (sectors_per_cluster (vol_bpb vol) * 512)"
  shows "\<exists>win'. inv win' \<and> fat12_read_partial vol m win fat fat_len e off n =
    (win', Inr (take n (drop off (take (unat (file_size e)) (file_data vol D cs)))))"
proof -
  let ?s = "unat (file_size e)" and ?bpc = "sectors_per_cluster (vol_bpb vol) * 512" and ?l = "wrap32 (total_clusters vol + 2)"
  have len: "cs = [] \<and> ?s = 0 \<or> length (take ?s (file_data vol D cs)) = ?s"
    using e length_file_data [OF ok, of link cs] by (cases "file_size e = 0") auto
  define r where "r = (if n < ?s - off then n else ?s - off)"
  show ?thesis
  proof (cases "?s \<le> off \<or> r = 0")
    case True
    with len assms(3) show ?thesis by (auto simp: fat12_read_partial_def r_def Let_def split: if_splits)
  next
    case False
    then have "file_size e \<noteq> 0" by auto
    with e obtain ds where cs: "cs = unat (start_cluster e) # ds" "links vol link cs" by (cases cs) auto
    have b: "0 < ?bpc" "bytes_per_sector (vol_bpb vol) = 512" using volume_ok_facts [OF ok(1)] by simp_all
    define k p where kp: "k = off div ?bpc" "p = off mod ?bpc"
    have off: "off = k * ?bpc + p" "p < ?bpc" unfolding kp by (rule div_mult_mod_eq [symmetric], rule mod_less_divisor [OF b(1)])
    have "k * ?bpc < length cs * ?bpc" using False e(2) off(1) by linarith
    then have k: "k < length cs" by (meson mult_less_cancel2)
    have steps: "length cs \<le> ?l" by (rule max_steps [OF ok(1) cs(2)])
    obtain w1 where w1: "inv w1" "skip_clusters vol m win fat fat_len k (unat (start_cluster e)) ?l = (w1, Inr (cs ! k, ?l - k))"
      using skip_to [OF assms(3) cs(2) k, of ?l] steps cs(1) by auto
    have tail: "links vol link (drop k cs)" "drop k cs = cs ! k # drop (Suc k) cs"
      using links_drop [OF cs(2) k] Cons_nth_drop_Suc [OF k] by simp_all
    have "(length cs - k) * ?bpc = length cs * ?bpc - k * ?bpc" by (simp add: diff_mult_distrib)
    then have fits: "p + r \<le> (length cs - k) * ?bpc" using e(2) off(1) False by (auto simp: r_def)
    obtain w2 d es left' where w2: "inv w2" "copy_clusters vol m w1 fat fat_len ?bpc (cs ! k) p r (?l - k) =
        (w2, Inr (window (file_data vol D (drop k cs)) p r, d, left'))"
    proof -
      have "length (drop (Suc k) cs) \<le> ?l - k" "p + r \<le> length (cs ! k # drop (Suc k) cs) * ?bpc"
        using steps k fits by (auto simp: Suc_diff_Suc)
      from copy_chain [OF ok w1(1) tail(1) [unfolded tail(2)] off(2) this(2,1)] that show thesis by (metis tail(2))
    qed
    have "file_data vol D cs = file_data vol D (take k cs) @ file_data vol D (drop k cs)"
      by (simp add: file_data_def flip: concat_append map_append)
    moreover have "length (file_data vol D (take k cs)) = k * ?bpc"
    proof -
      have "length (file_data vol D (take k cs)) + (length cs - k) * ?bpc = length cs * ?bpc"
        using arg_cong [OF calculation, of length] length_file_data [OF ok cs(2)] length_file_data [OF ok tail(1)] by simp
      moreover have "k * ?bpc + (length cs - k) * ?bpc = length cs * ?bpc" using k by (simp flip: add_mult_distrib)
      ultimately show ?thesis by linarith
    qed
    ultimately have "window (file_data vol D (drop k cs)) p r = take n (drop off (take ?s (file_data vol D cs)))"
      using off(1) False by (simp add: window_def r_def drop_take min_def)
    with False w1 w2 assms(4) b show ?thesis
      by (auto simp: fat12_read_partial_def Let_def kp r_def)
  qed
qed

end

end
