(* ===== verification/FatEdit.thy ===== *)
theory FatEdit imports FatRead begin

text \<open>
  Chain validation over the link interface and the FAT edits in memory: freeing a chain, finding a free
  cluster.
\<close>

section \<open>Validation\<close>

context fat_view begin

lemma validated_chain:
  "inv win \<Longrightarrow> validate_from vol m win fat fat_len reserved need c n left = (win', Inr ()) \<Longrightarrow>
   inv win' \<and> (\<exists>cs. links vol link (c # cs) \<and> need \<le> n + length (c # cs))"
proof (induction left arbitrary: win c n)
  case (Suc left)
  obtain w1 where w: "inv w1" "fat12_next_cluster vol m win fat fat_len c = (w1, link c)"
    using next_link [OF Suc.prems(1)] by blast
  from Suc.prems(2) w obtain nx where c: "\<not> chain_link_unusable vol c" "link c = Inr nx"
    by (auto split: if_splits sum.splits)
  show ?case
  proof (cases "chain_is_eoc vol nx")
    case True
    with Suc.prems(2) w c show ?thesis by (auto split: if_splits intro!: exI [of _ "[]"])
  next
    case False
    with Suc.prems(2) w c have "validate_from vol m w1 fat fat_len reserved need nx (n + 1) left = (win', Inr ())"
      by (auto split: if_splits)
    with Suc.IH [OF w(1)] obtain cs where "inv win'" "links vol link (nx # cs)" "need \<le> n + 1 + length (nx # cs)" by blast
    with c False show ?thesis by (intro conjI exI [of _ "nx # cs"]) auto
  qed
qed simp

lemma chain_validates:
  "inv win \<Longrightarrow> links vol link (c # cs) \<Longrightarrow> \<forall>x\<in>set (c # cs). x < reserved \<Longrightarrow> need \<le> n + length (c # cs) \<Longrightarrow> length cs < left \<Longrightarrow>
   \<exists>win'. inv win' \<and> validate_from vol m win fat fat_len reserved need c n left = (win', Inr ())"
proof (induction left arbitrary: win c cs n)
  case (Suc left)
  obtain w1 where w: "inv w1" "fat12_next_cluster vol m win fat fat_len c = (w1, link c)"
    using next_link [OF Suc.prems(1)] by blast
  show ?case
  proof (cases cs)
    case Nil
    with Suc.prems w show ?thesis by (auto split: sum.splits)
  next
    case (Cons d ds)
    with Suc.prems Suc.IH [OF w(1), of d ds "n + 1"] w show ?thesis by auto
  qed
qed simp

lemma validated_file:
  assumes "inv win" "volume_ok vol" "fat12_validate_file_chain vol m win fat fat_len e = (win', Inr ())"
  shows "inv win' \<and> (\<exists>cs. (file_size e \<noteq> 0 \<longrightarrow> links vol link cs \<and> hd cs = unat (start_cluster e)) \<and>
    unat (file_size e) \<le> length cs * (sectors_per_cluster (vol_bpb vol) * 512))"
proof (cases "file_size e = 0")
  case True
  with assms show ?thesis by (auto simp: fat12_validate_file_chain_def)
next
  case False
  let ?s = "unat (file_size e)" and ?bpc = "sectors_per_cluster (vol_bpb vol) * 512"
  define need where "need = ?s div ?bpc + (if ?s mod ?bpc \<noteq> 0 then 1 else 0)"
  have b: "bytes_per_sector (vol_bpb vol) = 512" "0 < ?bpc" using volume_ok_facts [OF assms(2)] by simp_all
  have "?s \<noteq> 0" using False by (simp add: unat_eq_0)
  with assms(3) b obtain r where "validate_from vol m win fat fat_len r need (unat (start_cluster e)) 0 (total_clusters vol) = (win', Inr ())"
    by (auto simp: fat12_validate_file_chain_def Let_def need_def mult.commute split: if_splits)
  from validated_chain [OF assms(1) this] obtain cs where
    cs: "inv win'" "links vol link (unat (start_cluster e) # cs)" "need \<le> length (unat (start_cluster e) # cs)" by auto
  have "?s = ?s div ?bpc * ?bpc + ?s mod ?bpc" by (rule div_mult_mod_eq [symmetric])
  also have "\<dots> \<le> need * ?bpc"
    using mod_less_divisor [OF b(2), of ?s] by (simp add: need_def del: mod_mult_self1 mod_mult_self2)
  also have "\<dots> \<le> length (unat (start_cluster e) # cs) * ?bpc" using cs(3) by (rule mult_le_mono1)
  finally show ?thesis using cs by (intro conjI exI [of _ "unat (start_cluster e) # cs"]) auto
qed

end

section \<open>Freeing a chain\<close>

lemma fat_link_Inr: "fat_link ft b len c = Inr v \<longleftrightarrow> 2 \<le> c \<and> entry_off ft c + 1 < len \<and> v = fat_entry ft b c"
  by (auto simp: fat_link_def)

lemma free_step:
  assumes "fat_link (vol_fat_type vol) b len c = Inr v" "vol_fat_type vol = FAT_TYPE_FAT12" "len \<le> length b"
  shows "\<exists>b'. length b' = length b \<and>
    (\<forall>d. fat_entry FAT_TYPE_FAT12 b' d = (if d = c then 0 else fat_entry FAT_TYPE_FAT12 b d)) \<and>
    free_chain_from vol m None (Some b) len c left =
      (if chain_is_eoc vol v \<or> chain_is_free vol v \<or> chain_is_bad vol v then (None, Some b', Inr ())
       else case left of 0 \<Rightarrow> (None, Some b', Inl FAT12_ERR_CHAIN)
       | Suc left' \<Rightarrow> free_chain_from vol m None (Some b') len v left')"
proof -
  have c: "2 \<le> c" "entry_off FAT_TYPE_FAT12 c + 1 < len" "v = fat_entry FAT_TYPE_FAT12 b c"
    using assms(1) unfolding assms(2) by (simp_all add: fat_link_Inr)
  obtain b' where b': "fat12_set_entry (Some b) len c FAT12_FREE = (Some b', Inr ())" using set_entry_ok [OF c(1,2)] by blast
  have n: "fat12_next_cluster vol m None (Some b) len c = (None, Inr v)" using c assms(2) by (simp add: next_whole)
  show ?thesis
    using set_entry_table(1-3) [OF b' assms(3)] by (intro exI [of _ b'] conjI) (auto simp: free_chain_from.simps [of vol m None "Some b"] n b')
qed

lemma free_chain_frees:
  assumes ft: "vol_fat_type vol = FAT_TYPE_FAT12"
  shows "links vol (fat_link FAT_TYPE_FAT12 b len) (c # cs) \<Longrightarrow> len \<le> length b \<Longrightarrow> length cs \<le> left \<Longrightarrow>
   \<exists>b'. free_chain_from vol m None (Some b) len c left = (None, Some b', Inr ()) \<and> length b' = length b \<and>
     (\<forall>d. fat_entry FAT_TYPE_FAT12 b' d = (if d \<in> set (c # cs) then 0 else fat_entry FAT_TYPE_FAT12 b d))"
proof (induction cs arbitrary: b c left)
  case (Nil b c left)
  then obtain v where v: "fat_link FAT_TYPE_FAT12 b len c = Inr v" "chain_is_eoc vol v" by (auto split: sum.splits)
  from free_step [of vol b len c v m left, unfolded ft, OF v(1) refl Nil(2)] v(2) show ?case by auto
next
  case (Cons d ds b c left)
  then have d: "fat_link FAT_TYPE_FAT12 b len c = Inr d" "\<not> chain_is_eoc vol d" "links vol (fat_link FAT_TYPE_FAT12 b len) (d # ds)" by auto
  have d': "\<not> chain_is_free vol d" "\<not> chain_is_bad vol d" using links_hd [OF d(3)] by (simp_all add: chain_link_unusable_def)
  obtain l where l: "left = Suc l" "length ds \<le> l" using Cons.prems(3) by (cases left) auto
  obtain b' where b': "length b' = length b" "\<forall>x. fat_entry FAT_TYPE_FAT12 b' x = (if x = c then 0 else fat_entry FAT_TYPE_FAT12 b x)"
    "free_chain_from vol m None (Some b) len c left = free_chain_from vol m None (Some b') len d l"
    using free_step [of vol b len c d m left, unfolded ft, OF d(1) refl Cons.prems(2)] d(2) d' l(1) by auto
  have n: "c \<notin> set (d # ds)" using links_distinct [OF Cons.prems(1)] by simp
  have "fat_link FAT_TYPE_FAT12 b' len x = fat_link FAT_TYPE_FAT12 b len x" if "x \<in> set (d # ds)" for x
  proof -
    have "x \<noteq> c" using that n by blast
    then show ?thesis by (simp add: fat_link_def b'(2))
  qed
  then have "links vol (fat_link FAT_TYPE_FAT12 b' len) (d # ds)" by (rule links_mono [OF d(3)])
  from Cons.IH [OF this _ l(2)] Cons.prems(2) b'(1) obtain b'' where
    "free_chain_from vol m None (Some b') len d l = (None, Some b'', Inr ())" "length b'' = length b"
    "\<forall>x. fat_entry FAT_TYPE_FAT12 b'' x = (if x \<in> set (d # ds) then 0 else fat_entry FAT_TYPE_FAT12 b' x)" by auto
  with b' show ?case by auto
qed

section \<open>Finding a free cluster\<close>

lemma find_free_least:
  assumes "\<forall>c. 2 \<le> c \<and> c \<le> last_c \<longrightarrow> entry_off (vol_fat_type vol) c + 1 < len" "2 \<le> from'"
  shows "\<exists>r. find_free_from vol m None (Some b) len last_c from' = (None, r) \<and>
    (\<forall>c. from' \<le> c \<and> c \<le> last_c \<and> (r = 0 \<or> c < r) \<longrightarrow> fat_entry (vol_fat_type vol) b c \<noteq> 0) \<and>
    (r \<noteq> 0 \<longrightarrow> from' \<le> r \<and> r \<le> last_c \<and> fat_entry (vol_fat_type vol) b r = 0)"
  using assms(2)
proof (induction "last_c + 1 - from'" arbitrary: from')
  case 0
  then show ?case by (subst find_free_from.simps) auto
next
  case (Suc k)
  then have le: "from' \<le> last_c" "2 \<le> from'" by auto
  then have nx: "fat12_next_cluster vol m None (Some b) len from' = (None, Inr (fat_entry (vol_fat_type vol) b from'))"
    using assms(1) by (auto simp: next_whole)
  show ?case
  proof (cases "fat_entry (vol_fat_type vol) b from' = 0")
    case True
    with le nx show ?thesis by (subst find_free_from.simps) (auto simp: fat12_is_free_def)
  next
    case False
    have k: "k = last_c + 1 - (from' + 1)" "2 \<le> from' + 1" using Suc(2) le by arith+
    obtain r where
      r: "find_free_from vol m None (Some b) len last_c (from' + 1) = (None, r)"
        "\<forall>c. from' + 1 \<le> c \<and> c \<le> last_c \<and> (r = 0 \<or> c < r) \<longrightarrow> fat_entry (vol_fat_type vol) b c \<noteq> 0"
        "r \<noteq> 0 \<longrightarrow> from' + 1 \<le> r \<and> r \<le> last_c \<and> fat_entry (vol_fat_type vol) b r = 0"
      using Suc(1) [OF k] by blast
    have "find_free_from vol m None (Some b) len last_c from' = (None, r)"
      using le nx False r(1) by (subst find_free_from.simps) (simp add: fat12_is_free_def)
    with r(2,3) False show ?thesis by (metis Suc_eq_plus1 Suc_leD Suc_leI le_neq_implies_less)
  qed
qed

end
