(* ===== verification/FatDir.thy ===== *)
theory FatDir imports FatVolume begin

text \<open>
  Directory entries on disk (\<open>os/milton/fat12.c\<close>): slot addressing in the root and in sub-directory chains, reading and
  writing one entry, the scan for a name, and the operations that patch an entry.

  \<^item> \<open>fs\<close> is what these operations change: the FAT window of the volume, the caller's FAT buffer, and the medium.
    Functions that only read thread it, since decoding a link may load the window.
  \<^item> \<open>parent_dir_start\<close> 0 is the root directory.
\<close>

section \<open>State\<close>

record 'm fs =
  fs_win :: "fat12_fat_window option"
  fs_fat :: "u8 list option"
  fs_med :: 'm

definition fs_next :: "'m fat12_volume \<Rightarrow> nat \<Rightarrow> nat \<Rightarrow> 'm fs \<Rightarrow> 'm fs \<times> (int + nat)" where
  "fs_next vol len c s = (case fat12_next_cluster vol (fs_med s) (fs_win s) (fs_fat s) len c of (w, r) \<Rightarrow> (s\<lparr>fs_win := w\<rparr>, r))"

definition fs_set :: "nat \<Rightarrow> nat \<Rightarrow> nat \<Rightarrow> 'm fs \<Rightarrow> 'm fs \<times> (int + unit)" where
  "fs_set len c v s = (case fat12_set_entry (fs_fat s) len c v of (f, r) \<Rightarrow> (s\<lparr>fs_fat := f\<rparr>, r))"

definition fs_find_free :: "'m fat12_volume \<Rightarrow> nat \<Rightarrow> nat \<Rightarrow> 'm fs \<Rightarrow> 'm fs \<times> nat" where
  "fs_find_free vol len c s = (case fat12_find_free vol (fs_med s) (fs_win s) (fs_fat s) len c of (w, r) \<Rightarrow> (s\<lparr>fs_win := w\<rparr>, r))"

definition fs_free_chain :: "'m fat12_volume \<Rightarrow> nat \<Rightarrow> nat \<Rightarrow> 'm fs \<Rightarrow> 'm fs \<times> (int + unit)" where
  "fs_free_chain vol len c s = (case fat12_free_chain vol (fs_med s) (fs_win s) (fs_fat s) len c of
     (w, f, r) \<Rightarrow> (s\<lparr>fs_win := w, fs_fat := f\<rparr>, r))"

definition fs_flush :: "'m fat12_volume \<Rightarrow> nat \<Rightarrow> 'm fs \<Rightarrow> 'm fs \<times> (int + unit)" where
  "fs_flush vol len s = (case fat12_flush_fats vol (fs_med s) (fs_fat s) len of (m, r) \<Rightarrow> (s\<lparr>fs_med := m\<rparr>, r))"

definition fs_fill :: "'m fat12_volume \<Rightarrow> nat \<Rightarrow> u8 list option \<Rightarrow> nat \<Rightarrow> 'm fs \<Rightarrow> 'm fs \<times> (int + unit)" where
  "fs_fill vol lba src n s = (case cluster_fill vol (fs_med s) lba src n of (m, r) \<Rightarrow> (s\<lparr>fs_med := m\<rparr>, r))"

abbreviation (input) FAT12_ERR_NO_SPACE :: int where "FAT12_ERR_NO_SPACE \<equiv> -11"
abbreviation (input) FAT12_ERR_DIR_FULL :: int where "FAT12_ERR_DIR_FULL \<equiv> -12"
abbreviation (input) FAT12_ERR_EXISTS :: int where "FAT12_ERR_EXISTS \<equiv> -13"
abbreviation (input) FAT12_ERR_UNSUPPORTED :: int where "FAT12_ERR_UNSUPPORTED \<equiv> -14"
abbreviation (input) FAT12_ERR_ACCESS :: int where "FAT12_ERR_ACCESS \<equiv> -15"
abbreviation (input) FAT12_ERR_STALE_DIR :: int where "FAT12_ERR_STALE_DIR \<equiv> -19"
abbreviation (input) DIR_ATTR_READONLY :: u8 where "DIR_ATTR_READONLY \<equiv> 0x01"
abbreviation (input) DIR_ATTR_HIDDEN :: u8 where "DIR_ATTR_HIDDEN \<equiv> 0x02"
abbreviation (input) DIR_ATTR_VOLLABEL :: u8 where "DIR_ATTR_VOLLABEL \<equiv> 0x08"
abbreviation (input) DIR_ATTR_DIRECTORY :: u8 where "DIR_ATTR_DIRECTORY \<equiv> 0x10"
abbreviation (input) FAT12_EOC_VALUE :: nat where "FAT12_EOC_VALUE \<equiv> 0xFFF"
abbreviation (input) per_sector :: nat where "per_sector \<equiv> 16"

text \<open>The 32 bytes of an entry, as \<open>dir_entry_t\<close> lays them out.\<close>

definition le16_bytes :: "u16 \<Rightarrow> u8 list" where
  "le16_bytes w = [ucast w, ucast (drop_bit 8 w)]"

definition le32_bytes :: "u32 \<Rightarrow> u8 list" where
  "le32_bytes w = [ucast w, ucast (drop_bit 8 w), ucast (drop_bit 16 w), ucast (drop_bit 24 w)]"

definition dirent_bytes :: "dir_entry \<Rightarrow> u8 list" where
  "dirent_bytes e = filename e @ extension e @ [attribute e] @ de_reserved e @ le16_bytes (mtime e) @ le16_bytes (mdate e) @
     le16_bytes (start_cluster e) @ le32_bytes (file_size e)"

section \<open>Slots\<close>

text \<open>The walk down a sub-directory's chain by \<open>want_cluster\<close> links; \<open>left\<close> is the anti-hang bound minus the steps taken.\<close>

fun slot_cluster :: "'m fat12_volume \<Rightarrow> nat \<Rightarrow> nat \<Rightarrow> nat \<Rightarrow> nat \<Rightarrow> 'm fs \<Rightarrow> 'm fs \<times> (int + nat)" where
  "slot_cluster vol len 0 cur left s = (s, Inr cur)"
| "slot_cluster vol len (Suc k) cur left s =
     (if chain_link_unusable vol cur then (s, Inl FAT12_ERR_CHAIN)
      else case fs_next vol len cur s of
        (s', Inl rc) \<Rightarrow> (s', Inl rc)
      | (s', Inr next) \<Rightarrow>
          if chain_is_eoc vol next then (s', Inl FAT12_ERR_DIR_FULL)
          else if left = 0 then (s', Inl FAT12_ERR_CHAIN)
          else slot_cluster vol len k next (left - 1) s')"

definition fat12_subdir_slot_lba :: "'m fat12_volume \<Rightarrow> nat \<Rightarrow> nat \<Rightarrow> nat \<Rightarrow> 'm fs \<Rightarrow> 'm fs \<times> (int + nat \<times> nat)" where
  "fat12_subdir_slot_lba vol len start slot s =
     (let ents_per_cluster = per_sector * sectors_per_cluster (vol_bpb vol);
          in_cluster = slot mod ents_per_cluster
      in case slot_cluster vol len (slot div ents_per_cluster) start (wrap32 (total_clusters vol + 2)) s of
           (s', Inl rc) \<Rightarrow> (s', Inl rc)
         | (s', Inr cur) \<Rightarrow>
             if \<not> fat12_cluster_in_range vol cur then (s', Inl FAT12_ERR_CHAIN)
             else (s', Inr (cluster_lba vol cur + in_cluster div per_sector, in_cluster mod per_sector * 32)))"

text \<open>The sector and offset of a slot: the common opening of the entry read and the entry write.\<close>

definition slot_place :: "'m fat12_volume \<Rightarrow> nat \<Rightarrow> bool \<Rightarrow> nat \<Rightarrow> nat \<Rightarrow> 'm fs \<Rightarrow> 'm fs \<times> (int + nat \<times> nat)" where
  "slot_place vol len is_root start slot s =
     (if is_root then
        if slot div per_sector \<ge> root_dir_sectors vol then (s, Inl FAT12_ERR_DIR_FULL)
        else (s, Inr (root_dir_sector vol + slot div per_sector, slot mod per_sector * 32))
      else fat12_subdir_slot_lba vol len start slot s)"

definition fat12_read_dirent_in_dir :: "'m fat12_volume \<Rightarrow> nat \<Rightarrow> bool \<Rightarrow> nat \<Rightarrow> nat \<Rightarrow> 'm fs \<Rightarrow> 'm fs \<times> (int + dir_entry)" where
  "fat12_read_dirent_in_dir vol len is_root start slot s = (case slot_place vol len is_root start slot s of
     (s', Inl rc) \<Rightarrow> (s', Inl rc)
   | (s', Inr (lba, in_sec)) \<Rightarrow> (case fat12_read_sectors vol (fs_med s') lba 1 of
       Inl rc \<Rightarrow> (s', Inl FAT12_ERR_READ)
     | Inr sb \<Rightarrow> (s', Inr (parse_dirent sb in_sec))))"

text \<open>The FAT is not consulted for a root slot.\<close>

definition fat12_read_dirent_local :: "'m fat12_volume \<Rightarrow> nat \<Rightarrow> 'm fs \<Rightarrow> 'm fs \<times> (int + dir_entry)" where
  "fat12_read_dirent_local vol slot s = fat12_read_dirent_in_dir vol 0 True 0 slot s"

definition fat12_write_dirent_in_dir :: "'m fat12_volume \<Rightarrow> nat \<Rightarrow> bool \<Rightarrow> nat \<Rightarrow> nat \<Rightarrow> dir_entry \<Rightarrow> 'm fs \<Rightarrow> 'm fs \<times> (int + unit)" where
  "fat12_write_dirent_in_dir vol len is_root start slot e s =
     (if write_sectors (dev vol) = None then (s, Inl FAT12_ERR_WRITE)
      else case slot_place vol len is_root start slot s of
        (s', Inl rc) \<Rightarrow> (s', Inl rc)
      | (s', Inr (lba, in_sec)) \<Rightarrow> (case fat12_read_sectors vol (fs_med s') lba 1 of
          Inl rc \<Rightarrow> (s', Inl FAT12_ERR_READ)
        | Inr sb \<Rightarrow> (case fat12_write_sectors vol (fs_med s') lba 1 (splice sb in_sec (dirent_bytes e)) of
            (m, ok) \<Rightarrow> (s'\<lparr>fs_med := m\<rparr>, if ok then Inr () else Inl FAT12_ERR_WRITE))))"

definition fat12_write_dirent :: "'m fat12_volume \<Rightarrow> nat \<Rightarrow> dir_entry \<Rightarrow> 'm fs \<Rightarrow> 'm fs \<times> (int + unit)" where
  "fat12_write_dirent vol slot e s = fat12_write_dirent_in_dir vol 0 True 0 slot e s"

section \<open>Scanning for a name\<close>

record scan =
  free_slot :: nat
  have_free :: bool
  match_entry :: "(nat \<times> dir_entry) option"

definition note_free :: "nat \<Rightarrow> scan \<Rightarrow> scan" where
  "note_free slot sc = (if have_free sc then sc else sc\<lparr>free_slot := slot, have_free := True\<rparr>)"

text \<open>The entries \<open>is\<close> of one sector; 1 after a match, 2 at the end-of-directory mark, 0 to go on.\<close>

fun scan_entries :: "u8 list \<Rightarrow> nat \<Rightarrow> u8 list \<Rightarrow> nat list \<Rightarrow> scan \<Rightarrow> nat \<times> scan" where
  "scan_entries sb base_slot want11 [] sc = (0, sc)"
| "scan_entries sb base_slot want11 (i # is) sc =
     (let e = i * 32 in
      if sb ! e = DIR_NAME_FREE then (2, note_free (base_slot + i) sc)
      else if sb ! e = DIR_NAME_DELETED then scan_entries sb base_slot want11 is (note_free (base_slot + i) sc)
      else if sb ! (e + 11) = FAT12_ATTR_LFN then scan_entries sb base_slot want11 is sc
      else if window sb e 11 = want11 then (1, sc\<lparr>match_entry := Some (base_slot + i, parse_dirent sb e)\<rparr>)
      else scan_entries sb base_slot want11 is sc)"

definition fat12_scan_sector :: "u8 list \<Rightarrow> nat \<Rightarrow> u8 list \<Rightarrow> scan \<Rightarrow> nat \<times> scan" where
  "fat12_scan_sector sb base_slot want11 sc = scan_entries sb base_slot want11 [0..<per_sector] sc"

text \<open>A run of sectors, of the root or of one cluster: whether the scan stopped, and the slots passed.\<close>

fun scan_sectors :: "'m fat12_volume \<Rightarrow> 'm \<Rightarrow> nat list \<Rightarrow> nat \<Rightarrow> u8 list \<Rightarrow> scan \<Rightarrow> int + bool \<times> scan" where
  "scan_sectors vol m [] slot want11 sc = Inr (False, sc)"
| "scan_sectors vol m (lba # lbas) slot want11 sc = (case fat12_read_sectors vol m lba 1 of
     Inl rc \<Rightarrow> Inl FAT12_ERR_READ
   | Inr sb \<Rightarrow> (case fat12_scan_sector sb slot want11 sc of
       (r, sc') \<Rightarrow> if r \<noteq> 0 then Inr (True, sc') else scan_sectors vol m lbas (slot + per_sector) want11 sc'))"

fun scan_chain :: "'m fat12_volume \<Rightarrow> nat \<Rightarrow> nat \<Rightarrow> nat \<Rightarrow> u8 list \<Rightarrow> scan \<Rightarrow> nat \<Rightarrow> 'm fs \<Rightarrow> 'm fs \<times> (int + scan)" where
  "scan_chain vol len cur slot want11 sc left s =
     (if chain_link_unusable vol cur then (s, Inl FAT12_ERR_CHAIN)
      else let spc = sectors_per_cluster (vol_bpb vol); lba = cluster_lba vol cur in
        case scan_sectors vol (fs_med s) [lba..<lba + spc] slot want11 sc of
          Inl rc \<Rightarrow> (s, Inl rc)
        | Inr (True, sc') \<Rightarrow> (s, Inr sc')
        | Inr (False, sc') \<Rightarrow> (case fs_next vol len cur s of
            (s', Inl rc) \<Rightarrow> (s', Inl rc)
          | (s', Inr next) \<Rightarrow>
              let slot' = slot + per_sector * spc in
              if chain_is_eoc vol next then (s', Inr (if have_free sc' then sc' else sc'\<lparr>free_slot := slot'\<rparr>))
              else case left of 0 \<Rightarrow> (s', Inl FAT12_ERR_CHAIN)
              | Suc left' \<Rightarrow> scan_chain vol len next slot' want11 sc' left' s'))"

definition fat12_scan_dir :: "'m fat12_volume \<Rightarrow> nat \<Rightarrow> bool \<Rightarrow> nat \<Rightarrow> u8 list \<Rightarrow> 'm fs \<Rightarrow> 'm fs \<times> (int + scan)" where
  "fat12_scan_dir vol len is_root start want11 s =
     (let sc = \<lparr>free_slot = 0, have_free = False, match_entry = None\<rparr> in
      if is_root then
        (s, map_sum id snd (scan_sectors vol (fs_med s) [root_dir_sector vol..<root_dir_sector vol + root_dir_sectors vol] 0 want11 sc))
      else if fs_fat s = None then (s, Inl FAT12_ERR_NULL)
      else scan_chain vol len start 0 want11 sc (wrap32 (total_clusters vol + 2)) s)"

definition fat12_scan_root :: "'m fat12_volume \<Rightarrow> u8 list \<Rightarrow> 'm fs \<Rightarrow> 'm fs \<times> (int + scan)" where
  "fat12_scan_root vol want11 s = fat12_scan_dir vol 0 True 0 want11 s"

section \<open>Finding a slot\<close>

definition slot_found :: "'m fs \<times> (int + scan) \<Rightarrow> 'm fs \<times> (int + dir_entry \<times> nat)" where
  "slot_found r = (case r of
     (s, Inl rc) \<Rightarrow> (s, Inl rc)
   | (s, Inr sc) \<Rightarrow> (case match_entry sc of None \<Rightarrow> (s, Inl FAT12_ERR_NOT_FOUND) | Some (slot, e) \<Rightarrow> (s, Inr (e, slot))))"

definition fat12_find_slot :: "'m fat12_volume \<Rightarrow> u8 list \<Rightarrow> 'm fs \<Rightarrow> 'm fs \<times> (int + dir_entry \<times> nat)" where
  "fat12_find_slot vol name83 s = (case parse_name83 name83 of
     Inl rc \<Rightarrow> (s, Inl rc)
   | Inr want11 \<Rightarrow> slot_found (fat12_scan_root vol want11 s))"

definition fat12_find_slot_in :: "'m fat12_volume \<Rightarrow> nat \<Rightarrow> nat \<Rightarrow> u8 list \<Rightarrow> 'm fs \<Rightarrow> 'm fs \<times> (int + dir_entry \<times> nat)" where
  "fat12_find_slot_in vol len parent_dir_start name83 s = (case parse_name83 name83 of
     Inl rc \<Rightarrow> (s, Inl rc)
   | Inr want11 \<Rightarrow> slot_found (fat12_scan_dir vol len (parent_dir_start = 0) parent_dir_start want11 s))"

section \<open>Live directories\<close>

text \<open>The answer is the cluster the \<open>..\<close> entry names.\<close>

definition fat12_dir_live :: "'m fat12_volume \<Rightarrow> nat \<Rightarrow> nat \<Rightarrow> 'm fs \<Rightarrow> 'm fs \<times> (int + nat)" where
  "fat12_dir_live vol len dir s =
     (if \<not> fat12_cluster_in_range vol dir then (s, Inl FAT12_ERR_STALE_DIR)
      else case fs_next vol len dir s of
        (s', Inl rc) \<Rightarrow> (s', Inl rc)
      | (s', Inr v) \<Rightarrow>
          if chain_is_free vol v \<or> chain_is_bad vol v \<or> v = 1 then (s', Inl FAT12_ERR_STALE_DIR)
          else case fat12_read_sectors vol (fs_med s') (cluster_lba vol dir) 1 of
            Inl rc \<Rightarrow> (s', Inl FAT12_ERR_READ)
          | Inr sb \<Rightarrow>
              let d0 = parse_dirent sb 0; d1 = parse_dirent sb 32 in
              if filename d0 ! 0 \<noteq> 0x2E \<or> filename d0 ! 1 \<noteq> 0x20 \<or> unat (start_cluster d0) \<noteq> dir \<or>
                 attribute d0 AND DIR_ATTR_DIRECTORY = 0 \<or>
                 filename d1 ! 0 \<noteq> 0x2E \<or> filename d1 ! 1 \<noteq> 0x2E \<or> filename d1 ! 2 \<noteq> 0x20 \<or>
                 attribute d1 AND DIR_ATTR_DIRECTORY = 0
              then (s', Inl FAT12_ERR_STALE_DIR)
              else (s', Inr (unat (start_cluster d1))))"

definition fat12_dir_guard :: "'m fat12_volume \<Rightarrow> nat \<Rightarrow> nat \<Rightarrow> 'm fs \<Rightarrow> 'm fs \<times> (int + unit)" where
  "fat12_dir_guard vol len dir s =
     (if dir = 0 then (s, Inr ()) else case fat12_dir_live vol len dir s of (s', r) \<Rightarrow> (s', map_sum id (\<lambda>_. ()) r))"

definition fat12_dir_identity :: "'m fat12_volume \<Rightarrow> nat \<Rightarrow> nat \<Rightarrow> nat \<Rightarrow> u8 list \<Rightarrow> 'm fs \<Rightarrow> 'm fs \<times> (int + unit)" where
  "fat12_dir_identity vol len dir parent name83 s =
     (if dir = 0 then (s, Inr ())
      else case fat12_dir_live vol len dir s of
        (s1, Inl rc) \<Rightarrow> (s1, Inl rc)
      | (s1, Inr dd) \<Rightarrow>
          if dd \<noteq> parent then (s1, Inl FAT12_ERR_STALE_DIR)
          else case fat12_dir_guard vol len parent s1 of
            (s2, Inl rc) \<Rightarrow> (s2, Inl rc)
          | (s2, Inr _) \<Rightarrow> (case fat12_find_slot_in vol len parent name83 s2 of
              (s3, Inl rc) \<Rightarrow> (s3, Inl (if rc = FAT12_ERR_NOT_FOUND then FAT12_ERR_STALE_DIR else rc))
            | (s3, Inr (e, slot)) \<Rightarrow>
                if attribute e AND DIR_ATTR_DIRECTORY = 0 \<or> unat (start_cluster e) \<noteq> dir
                then (s3, Inl FAT12_ERR_STALE_DIR) else (s3, Inr ())))"

end
