(* ===== verification/FatWrite.thy ===== *)
theory FatWrite imports FatDir begin

text \<open>
  The writing operations of \<open>os/milton/fat12.c\<close>: growing a directory, creating, writing, resizing, renaming and
  removing files, and patching the attribute and time fields of an entry. Each returns the file system after the
  call with its code, also when it fails, since a failing call may have changed the FAT or the medium.
\<close>

section \<open>Growing and shrinking a directory\<close>

text \<open>The walk to the last cluster of a chain.\<close>

fun chain_tail :: "'m fat12_volume \<Rightarrow> nat \<Rightarrow> nat \<Rightarrow> nat \<Rightarrow> 'm fs \<Rightarrow> 'm fs \<times> (int + nat)" where
  "chain_tail vol len cur left s =
     (if chain_link_unusable vol cur then (s, Inl FAT12_ERR_CHAIN)
      else case fs_next vol len cur s of
        (s', Inl rc) \<Rightarrow> (s', Inl rc)
      | (s', Inr next) \<Rightarrow>
          if chain_is_eoc vol next then (s', Inr cur)
          else case left of 0 \<Rightarrow> (s', Inl FAT12_ERR_CHAIN)
          | Suc left' \<Rightarrow> chain_tail vol len next left' s')"

definition fat12_grow_dir :: "'m fat12_volume \<Rightarrow> nat \<Rightarrow> nat \<Rightarrow> 'm fs \<Rightarrow> 'm fs \<times> (int + nat)" where
  "fat12_grow_dir vol len start s =
     (if fs_fat s = None then (s, Inl FAT12_ERR_NULL)
      else if write_sectors (dev vol) = None then (s, Inl FAT12_ERR_WRITE)
      else case chain_tail vol len start (wrap32 (total_clusters vol + 2)) s of
        (s1, Inl rc) \<Rightarrow> (s1, Inl rc)
      | (s1, Inr cur) \<Rightarrow> (case fs_find_free vol len ((cur + 1) mod 0x10000) s1 of (s2, n0) \<Rightarrow>
          (case (if n0 = 0 then fs_find_free vol len FAT12_FIRST_DATA_CLUSTER s2 else (s2, n0)) of (s3, newc) \<Rightarrow>
            if newc = 0 then (s3, Inl FAT12_ERR_NO_SPACE)
            else case fs_set len newc FAT12_EOC_VALUE s3 of
              (s4, Inl rc) \<Rightarrow> (s4, Inl rc)
            | (s4, Inr _) \<Rightarrow> (case fs_fill vol (cluster_lba vol newc) None 0 s4 of
                (s5, Inl rc) \<Rightarrow> (fst (fs_flush vol len (fst (fs_set len newc FAT12_FREE s5))), Inl FAT12_ERR_WRITE)
              | (s5, Inr _) \<Rightarrow> (case fs_set len cur newc s5 of
                  (s6, Inl rc) \<Rightarrow> (fst (fs_flush vol len (fst (fs_set len newc FAT12_FREE s6))), Inl rc)
                | (s6, Inr _) \<Rightarrow> (case fs_flush vol len s6 of
                    (s7, Inl rc) \<Rightarrow> (s7, Inl rc)
                  | (s7, Inr _) \<Rightarrow> (s7, Inr newc)))))))"

text \<open>The walk to the cluster that links to \<open>appended\<close>; \<open>None\<close> gives the rollback up.\<close>

fun link_to :: "'m fat12_volume \<Rightarrow> nat \<Rightarrow> nat \<Rightarrow> nat \<Rightarrow> nat \<Rightarrow> 'm fs \<Rightarrow> 'm fs \<times> nat option" where
  "link_to vol len appended cur left s =
     (if chain_link_unusable vol cur then (s, None)
      else case fs_next vol len cur s of
        (s', Inl rc) \<Rightarrow> (s', None)
      | (s', Inr next) \<Rightarrow>
          if next = appended then (s', Some cur)
          else if chain_is_eoc vol next then (s', None)
          else case left of 0 \<Rightarrow> (s', None) | Suc left' \<Rightarrow> link_to vol len appended next left' s')"

definition fat12_shrink_dir_tail :: "'m fat12_volume \<Rightarrow> nat \<Rightarrow> nat \<Rightarrow> nat \<Rightarrow> 'm fs \<Rightarrow> 'm fs" where
  "fat12_shrink_dir_tail vol len start appended s =
     (if fs_fat s = None \<or> appended = 0 then s
      else case link_to vol len appended start (wrap32 (total_clusters vol + 2)) s of
        (s1, None) \<Rightarrow> s1
      | (s1, Some cur) \<Rightarrow>
          fst (fs_flush vol len (fst (fs_set len appended FAT12_FREE (fst (fs_set len cur FAT12_EOC_VALUE s1))))))"

section \<open>Patching an entry\<close>

definition no_device :: "'m fat12_volume \<Rightarrow> bool" where
  "no_device vol \<longleftrightarrow> write_sectors (dev vol) = None \<or> read_sectors (dev vol) = None"

definition fat12_set_dirent_time :: "'m fat12_volume \<Rightarrow> nat \<Rightarrow> nat \<Rightarrow> nat \<Rightarrow> u16 \<Rightarrow> u16 \<Rightarrow> 'm fs \<Rightarrow> 'm fs \<times> (int + unit)" where
  "fat12_set_dirent_time vol len parent slot mt md s =
     (if no_device vol then (s, Inl FAT12_ERR_WRITE)
      else case fat12_read_dirent_in_dir vol len (parent = 0) parent slot s of
        (s1, Inl rc) \<Rightarrow> (s1, Inl rc)
      | (s1, Inr de) \<Rightarrow> fat12_write_dirent_in_dir vol len (parent = 0) parent slot (de\<lparr>mtime := mt, mdate := md\<rparr>) s1)"

text \<open>The opening the named operations share: parse, scan, and the entry and its slot.\<close>

definition find_named :: "'m fat12_volume \<Rightarrow> nat \<Rightarrow> nat \<Rightarrow> u8 list \<Rightarrow> 'm fs \<Rightarrow> 'm fs \<times> (int + dir_entry \<times> nat)" where
  "find_named vol len parent name83 s = (case parse_name83 name83 of
     Inl rc \<Rightarrow> (s, Inl FAT12_ERR_NOT_FOUND)
   | Inr want11 \<Rightarrow> slot_found (fat12_scan_dir vol len (parent = 0) parent want11 s))"

definition fat12_get_attr :: "'m fat12_volume \<Rightarrow> nat \<Rightarrow> u8 list \<Rightarrow> nat \<Rightarrow> 'm fs \<Rightarrow> 'm fs \<times> (int + u8)" where
  "fat12_get_attr vol len name83 parent s =
     (if read_sectors (dev vol) = None then (s, Inl FAT12_ERR_READ)
      else case find_named vol len parent name83 s of (s1, r) \<Rightarrow> (s1, map_sum id (\<lambda>(e, slot). attribute e) r))"

definition not_regular :: "u8 \<Rightarrow> bool" where
  "not_regular attr \<longleftrightarrow> attr AND (DIR_ATTR_DIRECTORY OR DIR_ATTR_VOLLABEL) \<noteq> 0"

definition fat12_set_attr :: "'m fat12_volume \<Rightarrow> nat \<Rightarrow> u8 list \<Rightarrow> nat \<Rightarrow> u8 \<Rightarrow> 'm fs \<Rightarrow> 'm fs \<times> (int + unit)" where
  "fat12_set_attr vol len name83 parent attr s =
     (if no_device vol then (s, Inl FAT12_ERR_WRITE)
      else if not_regular attr then (s, Inl FAT12_ERR_ACCESS)
      else case find_named vol len parent name83 s of
        (s1, Inl rc) \<Rightarrow> (s1, Inl rc)
      | (s1, Inr (e, slot)) \<Rightarrow>
          if not_regular (attribute e) then (s1, Inl FAT12_ERR_ACCESS)
          else fat12_write_dirent_in_dir vol len (parent = 0) parent slot (e\<lparr>attribute := attr\<rparr>) s1)"

definition fat12_hide_dir :: "'m fat12_volume \<Rightarrow> nat \<Rightarrow> u8 list \<Rightarrow> nat \<Rightarrow> 'm fs \<Rightarrow> 'm fs \<times> (int + unit)" where
  "fat12_hide_dir vol len name83 parent s =
     (if fs_fat s = None then (s, Inl FAT12_ERR_NULL)
      else if write_sectors (dev vol) = None then (s, Inl FAT12_ERR_WRITE)
      else case fat12_dir_guard vol len parent s of
        (s1, Inl rc) \<Rightarrow> (s1, Inl rc)
      | (s1, Inr _) \<Rightarrow> (case fat12_find_slot_in vol len parent name83 s1 of
          (s2, Inl rc) \<Rightarrow> (s2, Inl rc)
        | (s2, Inr (e, slot)) \<Rightarrow>
            if attribute e AND DIR_ATTR_DIRECTORY = 0 \<or> attribute e AND DIR_ATTR_VOLLABEL \<noteq> 0 then (s2, Inl FAT12_ERR_ACCESS)
            else if attribute e AND DIR_ATTR_HIDDEN \<noteq> 0 then (s2, Inr ())
            else fat12_write_dirent_in_dir vol len (parent = 0) parent slot (e\<lparr>attribute := attribute e OR DIR_ATTR_HIDDEN\<rparr>) s2))"

section \<open>Creating and removing a file\<close>

text \<open>Free a chain and flush, when there is one.\<close>

definition release_chain :: "'m fat12_volume \<Rightarrow> nat \<Rightarrow> nat \<Rightarrow> 'm fs \<Rightarrow> 'm fs \<times> (int + unit)" where
  "release_chain vol len start s =
     (if fs_fat s \<noteq> None \<and> start \<ge> FAT12_FIRST_DATA_CLUSTER then
        (case fs_free_chain vol len start s of
           (s1, Inl rc) \<Rightarrow> (s1, Inl rc)
         | (s1, Inr _) \<Rightarrow> fs_flush vol len s1)
      else (s, Inr ()))"

definition create_place :: "'m fat12_volume \<Rightarrow> nat \<Rightarrow> nat \<Rightarrow> u8 list \<Rightarrow> scan \<Rightarrow> 'm fs \<Rightarrow> 'm fs \<times> (int + dir_entry \<times> nat)" where
  "create_place vol len parent want11 sc s = (case match_entry sc of
     Some (slot, e) \<Rightarrow>
       if attribute e AND DIR_ATTR_READONLY \<noteq> 0 \<or> not_regular (attribute e) then (s, Inl FAT12_ERR_ACCESS)
       else (case release_chain vol len (unat (start_cluster e)) s of
         (s1, Inl rc) \<Rightarrow> (s1, Inl rc)
       | (s1, Inr _) \<Rightarrow> (s1, Inr (e, slot)))
   | None \<Rightarrow>
       let de = \<lparr>filename = take 8 want11, extension = drop 8 want11, attribute = 0, de_reserved = replicate 10 0,
                 mtime = 0, mdate = 0, start_cluster = 0, file_size = 0\<rparr> in
       if have_free sc then (s, Inr (de, free_slot sc))
       else if parent = 0 then (s, Inl FAT12_ERR_DIR_FULL)
       else if fs_fat s = None then (s, Inl FAT12_ERR_NULL)
       else (case fat12_grow_dir vol len parent s of
         (s1, Inl rc) \<Rightarrow> (s1, Inl rc)
       | (s1, Inr _) \<Rightarrow> (s1, Inr (de, free_slot sc))))"

definition fat12_create :: "'m fat12_volume \<Rightarrow> nat \<Rightarrow> u8 list \<Rightarrow> u8 \<Rightarrow> nat \<Rightarrow> 'm fs \<Rightarrow> 'm fs \<times> (int + dir_entry \<times> nat)" where
  "fat12_create vol len name83 attr parent s =
     (if no_device vol then (s, Inl FAT12_ERR_WRITE)
      else case fat12_dir_guard vol len parent s of
        (s1, Inl rc) \<Rightarrow> (s1, Inl rc)
      | (s1, Inr _) \<Rightarrow> (case parse_name83 name83 of
          Inl rc \<Rightarrow> (s1, Inl rc)
        | Inr want11 \<Rightarrow> (case fat12_scan_dir vol len (parent = 0) parent want11 s1 of
            (s2, Inl rc) \<Rightarrow> (s2, Inl rc)
          | (s2, Inr sc) \<Rightarrow> (case create_place vol len parent want11 sc s2 of
              (s3, Inl rc) \<Rightarrow> (s3, Inl rc)
            | (s3, Inr (e, slot)) \<Rightarrow>
                let de = e\<lparr>attribute := attr, mtime := 0, mdate := 0, start_cluster := 0, file_size := 0\<rparr> in
                (case fat12_write_dirent_in_dir vol len (parent = 0) parent slot de s3 of
                   (s4, Inl rc) \<Rightarrow> (s4, Inl rc)
                 | (s4, Inr _) \<Rightarrow> (s4, Inr (de, slot)))))))"

definition fat12_unlink :: "'m fat12_volume \<Rightarrow> nat \<Rightarrow> u8 list \<Rightarrow> nat \<Rightarrow> 'm fs \<Rightarrow> 'm fs \<times> (int + unit)" where
  "fat12_unlink vol len name83 parent s =
     (if no_device vol then (s, Inl FAT12_ERR_WRITE)
      else case fat12_dir_guard vol len parent s of
        (s1, Inl rc) \<Rightarrow> (s1, Inl rc)
      | (s1, Inr _) \<Rightarrow> (case find_named vol len parent name83 s1 of
          (s2, Inl rc) \<Rightarrow> (s2, Inl rc)
        | (s2, Inr (e, slot)) \<Rightarrow>
            if attribute e AND DIR_ATTR_READONLY \<noteq> 0 then (s2, Inl FAT12_ERR_ACCESS)
            else if not_regular (attribute e) then (s2, Inl FAT12_ERR_ACCESS)
            else (case release_chain vol len (unat (start_cluster e)) s2 of
              (s3, Inl rc) \<Rightarrow> (s3, Inl rc)
            | (s3, Inr _) \<Rightarrow>
                fat12_write_dirent_in_dir vol len (parent = 0) parent slot (e\<lparr>filename := (filename e)[0 := DIR_NAME_DELETED]\<rparr>) s3)))"

definition fat12_rename :: "'m fat12_volume \<Rightarrow> nat \<Rightarrow> u8 list \<Rightarrow> u8 list \<Rightarrow> nat \<Rightarrow> 'm fs \<Rightarrow> 'm fs \<times> (int + unit)" where
  "fat12_rename vol len old83 new83 parent s =
     (if no_device vol then (s, Inl FAT12_ERR_WRITE)
      else case (parse_name83 old83, parse_name83 new83) of
        (Inr old11, Inr new11) \<Rightarrow>
          (case slot_found (fat12_scan_dir vol len (parent = 0) parent old11 s) of
             (s1, Inl rc) \<Rightarrow> (s1, Inl rc)
           | (s1, Inr (e, slot)) \<Rightarrow>
               if attribute e AND DIR_ATTR_VOLLABEL \<noteq> 0 then (s1, Inl FAT12_ERR_ACCESS)
               else (case fat12_scan_dir vol len (parent = 0) parent new11 s1 of
                 (s2, Inl rc) \<Rightarrow> (s2, Inl rc)
               | (s2, Inr sc) \<Rightarrow>
                   if match_entry sc \<noteq> None then (s2, Inl FAT12_ERR_EXISTS)
                   else fat12_write_dirent_in_dir vol len (parent = 0) parent slot
                          (e\<lparr>filename := take 8 new11, extension := drop 8 new11\<rparr>) s2))
      | _ \<Rightarrow> (s, Inl FAT12_ERR_NOT_FOUND))"

end
