(* ===== verification/FatFile.thy ===== *)
theory FatFile imports FatWrite begin

text \<open>
  Writing file contents (\<open>os/milton/fat12.c\<close>): \<open>fat12_write_file\<close> lays a whole file into free clusters,
  \<open>fat12_write_partial\<close> writes at a position and extends the chain, \<open>fat12_set_size\<close> cuts or extends a file.
  File data is shorter than 4 GB, so a length is a \<open>uint32_t\<close>.
\<close>

section \<open>Whole files\<close>

text \<open>Undo a partial allocation: the codes of both calls are ignored.\<close>

definition drop_chain :: "'m fat12_volume \<Rightarrow> nat \<Rightarrow> nat \<Rightarrow> 'm fs \<Rightarrow> 'm fs" where
  "drop_chain vol len first s =
     (if first \<noteq> 0 then fst (fs_flush vol len (fst (fs_free_chain vol len first s))) else s)"

text \<open>The hint for the next cluster, \<open>(uint16_t)(prev ? prev + 1 : 2)\<close>.\<close>

definition next_hint :: "nat \<Rightarrow> nat" where
  "next_hint prev = (if prev \<noteq> 0 then (prev + 1) mod 0x10000 else FAT12_FIRST_DATA_CLUSTER)"

text \<open>Claim \<open>cl\<close>: mark it end of chain and link \<open>prev\<close> to it.\<close>

definition claim_cluster :: "nat \<Rightarrow> nat \<Rightarrow> nat \<Rightarrow> 'm fs \<Rightarrow> 'm fs \<times> (int + unit)" where
  "claim_cluster len prev cl s = (case fs_set len cl FAT12_EOC_VALUE s of
     (s1, Inl rc) \<Rightarrow> (s1, Inl rc)
   | (s1, Inr _) \<Rightarrow> if prev \<noteq> 0 then fs_set len prev cl s1 else (s1, Inr ()))"

text \<open>The allocation loop of \<open>fat12_write_file\<close>, \<open>left\<close> clusters to go, \<open>rest\<close> the data still to lay down: the
  first cluster and the bytes written.\<close>

fun write_clusters :: "'m fat12_volume \<Rightarrow> nat \<Rightarrow> nat \<Rightarrow> u8 list \<Rightarrow> nat \<Rightarrow> nat \<Rightarrow> nat \<Rightarrow> 'm fs \<Rightarrow> 'm fs \<times> (int + nat \<times> nat)" where
  "write_clusters vol len bpc rest first prev 0 s = (s, Inr (first, 0))"
| "write_clusters vol len bpc rest first prev (Suc left) s =
     (case fs_find_free vol len (next_hint prev) s of (s1, cl) \<Rightarrow>
        if cl = 0 then (drop_chain vol len first s1, Inl FAT12_ERR_NO_SPACE)
        else case claim_cluster len prev cl s1 of
          (s2, Inl rc) \<Rightarrow> (s2, Inl rc)
        | (s2, Inr _) \<Rightarrow>
            let first' = (if prev \<noteq> 0 then first else cl);
                take' = (if length rest < bpc then length rest else bpc)
            in case fs_fill vol (cluster_lba vol cl) (Some rest) take' s2 of
                 (s3, Inl rc) \<Rightarrow> (drop_chain vol len first' s3, Inl FAT12_ERR_WRITE)
               | (s3, Inr _) \<Rightarrow> (case write_clusters vol len bpc (drop bpc rest) first' cl left s3 of
                   (s4, Inl rc) \<Rightarrow> (s4, Inl rc)
                 | (s4, Inr (f, written)) \<Rightarrow> (s4, Inr (f, take' + written))))"

text \<open>The last step of a write: the start cluster and the size of the entry.\<close>

definition patch_entry :: "'m fat12_volume \<Rightarrow> nat \<Rightarrow> nat \<Rightarrow> nat \<Rightarrow> nat \<Rightarrow> nat \<Rightarrow> 'm fs \<Rightarrow> 'm fs \<times> (int + unit)" where
  "patch_entry vol len parent slot start sz s = (case fat12_read_dirent_in_dir vol len (parent = 0) parent slot s of
     (s1, Inl rc) \<Rightarrow> (s1, Inl rc)
   | (s1, Inr de) \<Rightarrow> fat12_write_dirent_in_dir vol len (parent = 0) parent slot
       (de\<lparr>start_cluster := of_nat start, file_size := of_nat sz\<rparr>) s1)"

definition fat12_write_file :: "'m fat12_volume \<Rightarrow> nat \<Rightarrow> nat \<Rightarrow> u8 list \<Rightarrow> 'm fs \<Rightarrow> 'm fs \<times> (int + unit)" where
  "fat12_write_file vol len slot data s =
     (if no_device vol then (s, Inl FAT12_ERR_WRITE)
      else case fat12_read_dirent_local vol slot s of
        (s1, Inl rc) \<Rightarrow> (s1, Inl rc)
      | (s1, Inr de) \<Rightarrow>
          if attribute de AND DIR_ATTR_READONLY \<noteq> 0 then (s1, Inl FAT12_ERR_ACCESS)
          else let bpc = sectors_per_cluster (vol_bpb vol) * bytes_per_sector (vol_bpb vol) in
            if data = [] then patch_entry vol 0 0 slot 0 0 s1
            else if fs_fat s1 = None then (s1, Inl FAT12_ERR_NULL)
            else (case write_clusters vol len bpc data 0 0 (wrap32 (length data + bpc - 1) div bpc) s1 of
              (s2, Inl rc) \<Rightarrow> (s2, Inl rc)
            | (s2, Inr (first, written)) \<Rightarrow> (case fs_flush vol len s2 of
                (s3, Inl rc) \<Rightarrow> (s3, Inl rc)
              | (s3, Inr _) \<Rightarrow> patch_entry vol 0 0 slot first written s3)))"

section \<open>Positioned writes\<close>

text \<open>\<open>k\<close> links down a chain that must be long enough: the cluster reached and the steps left.\<close>

fun follow_links :: "'m fat12_volume \<Rightarrow> nat \<Rightarrow> nat \<Rightarrow> nat \<Rightarrow> nat \<Rightarrow> 'm fs \<Rightarrow> 'm fs \<times> (int + nat \<times> nat)" where
  "follow_links vol len 0 cur left s = (s, Inr (cur, left))"
| "follow_links vol len (Suc k) cur left s =
     (if chain_link_unusable vol cur then (s, Inl FAT12_ERR_CHAIN)
      else case fs_next vol len cur s of
        (s', Inl rc) \<Rightarrow> (s', Inl rc)
      | (s', Inr next) \<Rightarrow>
          if chain_is_eoc vol next then (s', Inl FAT12_ERR_CHAIN)
          else if left = 0 then (s', Inl FAT12_ERR_CHAIN)
          else follow_links vol len k next (left - 1) s')"

text \<open>Giving back the clusters of a failed extension and ending the old chain again.\<close>

definition undo_extend :: "'m fat12_volume \<Rightarrow> nat \<Rightarrow> nat \<Rightarrow> nat \<Rightarrow> 'm fs \<Rightarrow> 'm fs" where
  "undo_extend vol len tail ext_first s =
     (let s1 = (if ext_first \<noteq> 0 then fst (fs_free_chain vol len ext_first s) else s);
          s2 = (if tail \<noteq> 0 then fst (fs_set len tail FAT12_EOC_VALUE s1) else s1)
      in fst (fs_flush vol len s2))"

text \<open>The extension loop: \<open>left\<close> zeroed clusters chained behind \<open>prev\<close>; the start of the chain.\<close>

fun extend_chain :: "'m fat12_volume \<Rightarrow> nat \<Rightarrow> nat \<Rightarrow> nat \<Rightarrow> nat \<Rightarrow> nat \<Rightarrow> nat \<Rightarrow> 'm fs \<Rightarrow> 'm fs \<times> (int + nat)" where
  "extend_chain vol len tail new_start ext_first prev 0 s = (s, Inr new_start)"
| "extend_chain vol len tail new_start ext_first prev (Suc left) s =
     (case fs_find_free vol len (next_hint prev) s of (s1, cl) \<Rightarrow>
        if cl = 0 then (undo_extend vol len tail ext_first s1, Inl FAT12_ERR_NO_SPACE)
        else case claim_cluster len prev cl s1 of
          (s2, Inl rc) \<Rightarrow> (s2, Inl rc)
        | (s2, Inr _) \<Rightarrow>
            let new_start' = (if prev \<noteq> 0 then new_start else cl);
                ext_first' = (if ext_first = 0 then cl else ext_first)
            in case fs_fill vol (cluster_lba vol cl) None 0 s2 of
                 (s3, Inl rc) \<Rightarrow> (undo_extend vol len tail ext_first' s3, Inl FAT12_ERR_WRITE)
               | (s3, Inr _) \<Rightarrow> extend_chain vol len tail new_start' ext_first' cl left s3)"

text \<open>The copy loop: \<open>rest\<close> over the chain from \<open>in_off\<close> of cluster \<open>cur\<close> on.\<close>

function splice_clusters :: "'m fat12_volume \<Rightarrow> nat \<Rightarrow> nat \<Rightarrow> nat \<Rightarrow> nat \<Rightarrow> u8 list \<Rightarrow> nat \<Rightarrow> 'm fs \<Rightarrow> 'm fs \<times> (int + unit)" where
  "splice_clusters vol len bpc cur in_off rest left s =
     (if rest = [] then (s, Inr ())
      else if chain_link_unusable vol cur then (s, Inl FAT12_ERR_CHAIN)
      else let room = bpc - in_off; take' = (if room > length rest then length rest else room)
           in case cluster_splice vol (fs_med s) (cluster_lba vol cur) in_off (Some rest) take' of
                (m, Inl rc) \<Rightarrow> (s\<lparr>fs_med := m\<rparr>, Inl rc)
              | (m, Inr _) \<Rightarrow>
                  if take' = length rest then (s\<lparr>fs_med := m\<rparr>, Inr ())
                  else (case fs_next vol len cur (s\<lparr>fs_med := m\<rparr>) of
                    (s', Inl rc) \<Rightarrow> (s', Inl rc)
                  | (s', Inr next) \<Rightarrow>
                      if chain_is_eoc vol next then (s', Inl FAT12_ERR_CHAIN)
                      else if left = 0 then (s', Inl FAT12_ERR_CHAIN)
                      else splice_clusters vol len bpc next 0 (drop take' rest) (left - 1) s'))"
  by pat_completeness auto
termination
  by (relation "measure (\<lambda>(vol, len, bpc, cur, in_off, rest, left, s). left)") auto

text \<open>The data part of a positioned write, from the gap to the entry patch.\<close>

definition write_data :: "'m fat12_volume \<Rightarrow> nat \<Rightarrow> nat \<Rightarrow> nat \<Rightarrow> nat \<Rightarrow> nat \<Rightarrow> nat \<Rightarrow> nat \<Rightarrow> nat \<Rightarrow> nat \<Rightarrow> u8 list \<Rightarrow> 'm fs \<Rightarrow> 'm fs \<times> (int + unit)" where
  "write_data vol len bpc parent slot tail new_start old_size new_size offset data s =
     (let first = old_size mod bpc;
          count = (if bpc - first > offset - old_size then offset - old_size else bpc - first) in
      case (if offset > old_size \<and> first \<noteq> 0 then cluster_splice vol (fs_med s) (cluster_lba vol tail) first None count
            else (fs_med s, Inr ())) of
        (m, Inl rc) \<Rightarrow> (s\<lparr>fs_med := m\<rparr>, Inl rc)
      | (m, Inr _) \<Rightarrow>
          (case follow_links vol len (offset div bpc mod 0x10000) new_start (wrap32 (total_clusters vol + 2)) (s\<lparr>fs_med := m\<rparr>) of
             (s1, Inl rc) \<Rightarrow> (s1, Inl rc)
           | (s1, Inr (cur, left)) \<Rightarrow> (case splice_clusters vol len bpc cur (offset mod bpc) data left s1 of
               (s2, Inl rc) \<Rightarrow> (s2, Inl rc)
             | (s2, Inr _) \<Rightarrow> patch_entry vol len parent slot new_start new_size s2)))"

text \<open>A write of at least one byte.\<close>

definition write_bytes :: "'m fat12_volume \<Rightarrow> nat \<Rightarrow> nat \<Rightarrow> nat \<Rightarrow> nat \<Rightarrow> u8 list \<Rightarrow> 'm fs \<Rightarrow> 'm fs \<times> (int + nat)" where
  "write_bytes vol len parent slot offset data s =
     (if fs_fat s = None then (s, Inl FAT12_ERR_NULL)
      else let end' = wrap32 (offset + length data) in
        if end' < offset then (s, Inl FAT12_ERR_BUFFER)
        else let bpc = sectors_per_cluster (vol_bpb vol) * bytes_per_sector (vol_bpb vol) in
          case fat12_read_dirent_in_dir vol len (parent = 0) parent slot s of
            (s1, Inl rc) \<Rightarrow> (s1, Inl rc)
          | (s1, Inr de) \<Rightarrow>
              if attribute de AND DIR_ATTR_READONLY \<noteq> 0 then (s1, Inl FAT12_ERR_ACCESS)
              else let old_size = unat (file_size de); orig_start = unat (start_cluster de);
                       new_size = (if end' > old_size then end' else old_size);
                       have_clusters = wrap32 (old_size + bpc - 1) div bpc;
                       need_clusters = wrap32 (new_size + bpc - 1) div bpc
                   in case (if orig_start \<ge> FAT12_FIRST_DATA_CLUSTER \<and> have_clusters > 0
                            then follow_links vol len (have_clusters - 1) orig_start (wrap32 (total_clusters vol + 2)) s1
                            else (s1, Inr (0, 0))) of
                        (s2, Inl rc) \<Rightarrow> (s2, Inl rc)
                      | (s2, Inr (tail, _)) \<Rightarrow>
                          (case (if need_clusters > have_clusters
                                 then (case extend_chain vol len tail orig_start 0 tail (need_clusters - have_clusters) s2 of
                                         (s3, Inl rc) \<Rightarrow> (s3, Inl rc)
                                       | (s3, Inr new_start) \<Rightarrow> (case fs_flush vol len s3 of
                                           (s4, Inl rc) \<Rightarrow> (s4, Inl rc) | (s4, Inr _) \<Rightarrow> (s4, Inr new_start)))
                                 else (s2, Inr orig_start)) of
                             (s5, Inl rc) \<Rightarrow> (s5, Inl rc)
                           | (s5, Inr new_start) \<Rightarrow>
                               (case write_data vol len bpc parent slot tail new_start old_size new_size offset data s5 of
                                  (s6, Inl rc) \<Rightarrow> (s6, Inl rc)
                                | (s6, Inr _) \<Rightarrow> (s6, Inr (length data)))))"

section \<open>The size of a file\<close>

text \<open>The check that chain and size agree: \<open>i\<close> of \<open>count\<close> clusters passed.\<close>

fun size_agrees :: "'m fat12_volume \<Rightarrow> nat \<Rightarrow> nat \<Rightarrow> nat \<Rightarrow> 'm fs \<Rightarrow> 'm fs \<times> (int + unit)" where
  "size_agrees vol len 0 cur s = (s, Inr ())"
| "size_agrees vol len (Suc left) cur s =
     (if \<not> fat12_cluster_in_range vol cur then (s, Inl FAT12_ERR_CHAIN)
      else case fs_next vol len cur s of
        (s', Inl rc) \<Rightarrow> (s', Inl rc)
      | (s', Inr next) \<Rightarrow>
          if left = 0 then if \<not> chain_is_eoc vol next then (s', Inl FAT12_ERR_CHAIN) else size_agrees vol len left next s'
          else if \<not> fat12_cluster_in_range vol next \<or> chain_is_eoc vol next then (s', Inl FAT12_ERR_CHAIN)
          else size_agrees vol len left next s')"

text \<open>The cut: \<open>i\<close> counts the clusters passed, links are read in the copy \<open>before\<close> and their codes ignored.\<close>

fun cut_chain :: "'m fat12_volume \<Rightarrow> nat \<Rightarrow> u8 list \<Rightarrow> nat \<Rightarrow> nat \<Rightarrow> nat list \<Rightarrow> nat \<Rightarrow> 'm fs \<Rightarrow> 'm fs" where
  "cut_chain vol len before bytes keep [] cur s = s"
| "cut_chain vol len before bytes keep (i # is) cur s =
     (case fat12_next_cluster vol (fs_med s) (fs_win s) (Some before) bytes cur of (w, r) \<Rightarrow>
        let s1 = s\<lparr>fs_win := w\<rparr>;
            next = (case r of Inl _ \<Rightarrow> 0 | Inr v \<Rightarrow> v);
            s2 = (if i \<ge> keep then fst (fs_set len cur FAT12_FREE s1)
                  else if i + 1 = keep then fst (fs_set len cur FAT12_EOC_VALUE s1) else s1)
        in cut_chain vol len before bytes keep is next s2)"

definition set_size_guard :: "'m fat12_volume \<Rightarrow> nat \<Rightarrow> nat \<Rightarrow> nat \<Rightarrow> 'm fs \<Rightarrow> 'm fs \<times> (int + dir_entry)" where
  "set_size_guard vol len parent slot s =
     (if fs_fat s = None then (s, Inl FAT12_ERR_NULL)
      else if no_device vol then (s, Inl FAT12_ERR_WRITE)
      else if vol_fat_type vol \<noteq> FAT_TYPE_FAT12 then (s, Inl FAT12_ERR_UNSUPPORTED)
      else let bytes = sectors_per_fat (vol_bpb vol) * bytes_per_sector (vol_bpb vol) in
        if bytes > 6144 \<or> len < bytes then (s, Inl FAT12_ERR_BUFFER)
        else case fat12_dir_guard vol len parent s of
          (s1, Inl rc) \<Rightarrow> (s1, Inl rc)
        | (s1, Inr _) \<Rightarrow> (case fat12_read_dirent_in_dir vol len (parent = 0) parent slot s1 of
            (s2, Inl rc) \<Rightarrow> (s2, Inl rc)
          | (s2, Inr old) \<Rightarrow>
              if filename old ! 0 = 0 \<or> filename old ! 0 = 0xE5 \<or>
                 attribute old AND (DIR_ATTR_READONLY OR DIR_ATTR_DIRECTORY OR DIR_ATTR_VOLLABEL) \<noteq> 0
              then (s2, Inl FAT12_ERR_ACCESS) else (s2, Inr old)))"

text \<open>A shrink with its rollback.\<close>

definition shrink_file :: "'m fat12_volume \<Rightarrow> nat \<Rightarrow> nat \<Rightarrow> nat \<Rightarrow> dir_entry \<Rightarrow> nat \<Rightarrow> nat \<Rightarrow> nat \<Rightarrow> 'm fs \<Rightarrow> 'm fs \<times> (int + unit)" where
  "shrink_file vol len parent slot old count keep sz s =
     (let bytes = sectors_per_fat (vol_bpb vol) * bytes_per_sector (vol_bpb vol);
          fat = the (fs_fat s); before = take bytes fat;
          s1 = cut_chain vol len before bytes keep [0..<count] (unat (start_cluster old)) s;
          de = old\<lparr>file_size := of_nat sz, start_cluster := (if keep = 0 then 0 else start_cluster old)\<rparr>;
          (s2, rc) = (case fs_flush vol len s1 of
             (t, Inl rc) \<Rightarrow> (t, Inl rc)
           | (t, Inr _) \<Rightarrow> fat12_write_dirent_in_dir vol len (parent = 0) parent slot de t)
      in case rc of
           Inr _ \<Rightarrow> (s2, Inr ())
         | Inl code \<Rightarrow>
             (case fs_flush vol len (s2\<lparr>fs_fat := map_option (\<lambda>b. splice b 0 before) (fs_fat s2)\<rparr>) of (s3, restore_fat) \<Rightarrow>
                case fat12_write_dirent_in_dir vol len (parent = 0) parent slot old s3 of (s4, restore_dir) \<Rightarrow>
                  if restore_fat \<noteq> Inr () \<or> restore_dir \<noteq> Inr () then (s4, Inl FAT12_ERR_WRITE) else (s4, Inl code)))"

text \<open>A larger size is a one-byte write at its end; it writes a byte, so it does not come back here.\<close>

definition fat12_set_size :: "'m fat12_volume \<Rightarrow> nat \<Rightarrow> nat \<Rightarrow> nat \<Rightarrow> nat \<Rightarrow> 'm fs \<Rightarrow> 'm fs \<times> (int + unit)" where
  "fat12_set_size vol len parent slot sz s = (case set_size_guard vol len parent slot s of
     (s1, Inl rc) \<Rightarrow> (s1, Inl rc)
   | (s1, Inr old) \<Rightarrow>
       let bpc = sectors_per_cluster (vol_bpb vol) * bytes_per_sector (vol_bpb vol);
           old_size = unat (file_size old);
           count = old_size div bpc + (if old_size mod bpc \<noteq> 0 then 1 else 0);
           keep = sz div bpc + (if sz mod bpc \<noteq> 0 then 1 else 0)
       in if count > total_clusters vol \<or> count = 0 \<and> start_cluster old \<noteq> 0 then (s1, Inl FAT12_ERR_CHAIN)
          else case size_agrees vol len count (unat (start_cluster old)) s1 of
            (s2, Inl rc) \<Rightarrow> (s2, Inl rc)
          | (s2, Inr _) \<Rightarrow>
              if sz > old_size then (case write_bytes vol len parent slot (sz - 1) [0] s2 of (s3, r) \<Rightarrow> (s3, map_sum id (\<lambda>_. ()) r))
              else if sz = old_size then (s2, Inr ())
              else shrink_file vol len parent slot old count keep sz s2)"

definition fat12_write_partial :: "'m fat12_volume \<Rightarrow> nat \<Rightarrow> nat \<Rightarrow> nat \<Rightarrow> nat \<Rightarrow> u8 list \<Rightarrow> 'm fs \<Rightarrow> 'm fs \<times> (int + nat)" where
  "fat12_write_partial vol len parent slot offset data s =
     (if no_device vol then (s, Inl FAT12_ERR_WRITE)
      else if data = [] then (case fat12_set_size vol len parent slot offset s of (s1, r) \<Rightarrow> (s1, map_sum id (\<lambda>_. 0) r))
      else write_bytes vol len parent slot offset data s)"

declare splice_clusters.simps [simp del]

end
