(* ===== verification/FatStore.thy ===== *)
theory FatStore imports FatEdit FatFile begin

text \<open>
  The medium as one list of bytes: what each writing primitive does to it. Every write is a splice, and a window that
  a splice does not touch keeps its bytes.
\<close>

section \<open>Splices\<close>

lemma window_splice_within:
  "p \<le> q \<Longrightarrow> q + length a \<le> p + n \<Longrightarrow> p + n \<le> length D \<Longrightarrow> window (splice D q a) p n = splice (window D p n) (q - p) a"
proof (rule nth_equalityI)
  assume h: "p \<le> q" "q + length a \<le> p + n" "p + n \<le> length D"
  then have l: "length (window D p n) = n" "length (splice D q a) = length D" by simp_all
  then show "length (window (splice D q a) p n) = length (splice (window D p n) (q - p) a)" using h by simp
  fix i assume "i < length (window (splice D q a) p n)"
  then have "i < n" using h l by simp
  then show "window (splice D q a) p n ! i = splice (window D p n) (q - p) a ! i"
    using h l by (auto simp: nth_splice window_nth intro!: arg_cong [of _ _ "(!) a"])
qed

text \<open>Writing a patched copy of a stretch back is patching in place.\<close>

lemma splice_of_window:
  assumes "k + length a \<le> n" "p + n \<le> length D"
  shows "splice D p (splice (window D p n) k a) = splice D (p + k) a"
proof (rule nth_equalityI)
  have l: "length (window D p n) = n" "length (splice (window D p n) k a) = n" using assms by simp_all
  then show "length (splice D p (splice (window D p n) k a)) = length (splice D (p + k) a)" using assms by simp
  fix i assume "i < length (splice D p (splice (window D p n) k a))"
  then have "i < length D" using l assms by simp
  then show "splice D p (splice (window D p n) k a) ! i = splice D (p + k) a ! i"
    using assms l by (auto simp: nth_splice window_nth)
qed

lemma splice_append_over:
  "off + length x = length A \<Longrightarrow> length y \<le> length B \<Longrightarrow> splice (A @ B) off (x @ y) = splice A off x @ splice B 0 y"
proof -
  assume h: "off + length x = length A" "length y \<le> length B"
  then have "off + (length x + length y) - length A = length y" by arith
  with h show ?thesis by (simp add: splice_def)
qed

lemma splice_append_left: "off + length x \<le> length A \<Longrightarrow> splice (A @ B) off x = splice A off x @ B"
  by (simp add: splice_def)

section \<open>A medium that stores what is written\<close>

definition writes_ok :: "'m fat12_volume \<Rightarrow> bool" where
  "writes_ok v \<longleftrightarrow> write_sectors (dev v) \<noteq> None \<and>
     (\<forall>m D s n p. backs v m D \<and> sector_range v s n \<and> length p = n * 512 \<longrightarrow>
        (\<exists>m'. fat12_write_sectors v m s n p = (m', True) \<and> backs v m' (splice D (s * 512) p)))"

lemma write_run:
  assumes "writes_ok v" "volume_ok v" "backs v m D" "s < total_sectors v" "s + n \<le> total_sectors v" "length p = n * 512"
  shows "\<exists>m'. fat12_write_sectors v m s n p = (m', True) \<and> backs v m' (splice D (s * 512) p)"
  using assms ok_sector_range [OF assms(2,4,5)] by (simp add: writes_ok_def)

lemma sector_in: "backs v m D \<Longrightarrow> s + n \<le> total_sectors v \<Longrightarrow> s * 512 + n * 512 \<le> length D"
  unfolding backs_def using mult_le_mono1 [of "s + n" "total_sectors v" 512] by (simp add: algebra_simps)

lemma read_sector:
  "backs v m D \<Longrightarrow> volume_ok v \<Longrightarrow> s < total_sectors v \<Longrightarrow> fat12_read_sectors v m s 1 = Inr (window D (s * 512) 512)"
  using ok_sector_range [of v s 1] by (simp add: backs_def)

section \<open>Filling a cluster\<close>

definition fill_bytes :: "u8 list option \<Rightarrow> nat \<Rightarrow> nat \<Rightarrow> u8 list" where
  "fill_bytes src len sectors = (case src of None \<Rightarrow> replicate (sectors * 512) 0
     | Some bytes \<Rightarrow> take len bytes @ replicate (sectors * 512 - len) 0)"

lemma fill_stored:
  assumes "writes_ok v" "volume_ok v"
  shows "backs v m D \<Longrightarrow> lba + left \<le> total_sectors v \<Longrightarrow> (\<And>bytes. src = Some bytes \<Longrightarrow> len \<le> length bytes \<and> len \<le> left * 512) \<Longrightarrow>
    \<exists>m'. cluster_fill_from v m lba src len left = (m', Inr ()) \<and> backs v m' (splice D (lba * 512) (fill_bytes src len left))"
proof (induction left arbitrary: m D lba src len)
  case 0
  then show ?case by (cases src) (auto simp: fill_bytes_def)
next
  case (Suc left)
  define n where "n = (if len < 512 then len else 512)"
  define buf where "buf = (case src of None \<Rightarrow> replicate 512 0 | Some bytes \<Rightarrow> take n bytes @ replicate (512 - n) 0)"
  define src' where "src' = map_option (drop n) src"
  have buf: "length buf = 512" using Suc.prems(3) by (cases src) (auto simp: buf_def n_def)
  obtain m1 where m1: "fat12_write_sectors v m lba 1 buf = (m1, True)" "backs v m1 (splice D (lba * 512) buf)"
    using write_run [OF assms Suc.prems(1), of lba 1 buf] Suc.prems(2) buf by auto
  have "len - n \<le> length bytes \<and> len - n \<le> left * 512" if b: "src' = Some bytes" for bytes
    using b Suc.prems(3) by (cases src) (auto simp: src'_def n_def)
  then obtain m2 where m2: "cluster_fill_from v m1 (lba + 1) src' (len - n) left = (m2, Inr ())"
      "backs v m2 (splice (splice D (lba * 512) buf) ((lba + 1) * 512) (fill_bytes src' (len - n) left))"
    using Suc.IH [OF m1(2), of "lba + 1" src' "len - n"] Suc.prems(2) by auto
  have "buf @ fill_bytes src' (len - n) left = fill_bytes src len (Suc left)"
  proof (cases src)
    case (Some bytes)
    then have "len \<le> length bytes" "len \<le> Suc left * 512" using Suc.prems(3) by auto
    then show ?thesis
    proof (cases "len < 512")
      case True
      with Some show ?thesis
        by (simp add: buf_def src'_def fill_bytes_def n_def flip: replicate_add)
    next
      case False
      then have "take 512 bytes @ take (len - 512) (drop 512 bytes) = take len bytes"
        by (metis le_add_diff_inverse not_less take_add)
      then have "take 512 bytes @ take (len - 512) (drop 512 bytes) @ r = take len bytes @ r" for r by (simp flip: append_assoc)
      with False Some show ?thesis by (simp add: buf_def src'_def fill_bytes_def n_def add.commute)
    qed
  qed (simp add: buf_def src'_def fill_bytes_def flip: replicate_add)
  moreover have "length (fill_bytes src' (len - n) left) = left * 512"
    using Suc.prems(3) by (cases src) (auto simp: fill_bytes_def src'_def n_def min_def)
  moreover have "lba * 512 + 512 + left * 512 \<le> length D" using sector_in [OF Suc.prems(1,2)] by simp
  ultimately have "splice (splice D (lba * 512) buf) ((lba + 1) * 512) (fill_bytes src' (len - n) left) =
      splice D (lba * 512) (fill_bytes src len (Suc left))"
    using splice_splice_next [of "lba * 512" buf "fill_bytes src' (len - n) left" D] buf by (simp add: algebra_simps)
  moreover have "cluster_fill_from v m lba src len (Suc left) = (m2, Inr ())"
    using m1 m2(1) by (simp add: Let_def flip: n_def buf_def src'_def)
  ultimately show ?case using m2(2) by auto
qed

section \<open>Patching a cluster\<close>

definition patch_bytes :: "u8 list option \<Rightarrow> nat \<Rightarrow> u8 list" where
  "patch_bytes src n = (case src of None \<Rightarrow> replicate n 0 | Some bytes \<Rightarrow> take n bytes)"

lemma length_patch_bytes [simp]: "(\<And>bytes. src = Some bytes \<Longrightarrow> n \<le> length bytes) \<Longrightarrow> length (patch_bytes src n) = n"
  by (auto simp: patch_bytes_def split: option.splits)

lemma splice_stored:
  assumes "writes_ok v" "volume_ok v"
  shows "backs v m D \<Longrightarrow> lba * 512 + off + len \<le> length D \<Longrightarrow> (\<And>bytes. src = Some bytes \<Longrightarrow> len \<le> length bytes) \<Longrightarrow>
    \<exists>m'. cluster_splice v m lba off src len = (m', Inr ()) \<and> backs v m' (splice D (lba * 512 + off) (patch_bytes src len))"
proof (induction len arbitrary: m D off src rule: less_induct)
  case (less len m D off src)
  show ?case
  proof (cases "len = 0")
    case True
    then have "patch_bytes src len = []" by (simp add: patch_bytes_def split: option.splits)
    then show ?thesis using True less.prems(1) by (subst cluster_splice.simps) simp
  next
    case False
    define q p where "q = off div 512" and "p = off mod 512"
    then have off: "off = q * 512 + p" "p < 512" by simp_all
    define n where "n = (if 512 - p > len then len else 512 - p)"
    have n: "n \<le> len" "p + n \<le> 512" "0 < n" using off(2) False by (auto simp: n_def)
    define chunk where "chunk = patch_bytes src n"
    have chunk: "length chunk = n" using less.prems(3) n(1) by (auto simp: chunk_def patch_bytes_def split: option.splits)
    have "(lba + q) * 512 < total_sectors v * 512" using less.prems(1,2) off False by (simp add: backs_def)
    then have s: "lba + q < total_sectors v" by simp
    then have w: "wrap32 (lba + q) = lba + q" using assms(2) by (intro wrap32_id) (simp add: volume_ok_def)
    from s have D: "(lba + q) * 512 + 512 \<le> length D" using sector_in [OF less.prems(1), of "lba + q" 1] by simp
    define old where "old = (if p \<noteq> 0 \<or> n \<noteq> 512 then fat12_read_sectors v m (lba + q) 1 else Inr (replicate 512 0))"
    obtain buf where buf: "old = Inr buf" "length buf = 512" "splice buf p chunk = splice (window D ((lba + q) * 512) 512) p chunk"
    proof (cases "p \<noteq> 0 \<or> n \<noteq> 512")
      case True
      with read_sector [OF less.prems(1) assms(2) s] D that show ?thesis by (auto simp: old_def)
    next
      case False
      with chunk D that [of "replicate 512 0"] show ?thesis by (auto simp: old_def splice_def)
    qed
    have "length (splice buf p chunk) = 512" using buf(2) n chunk by simp
    then obtain m1 where m1: "fat12_write_sectors v m (lba + q) 1 (splice buf p chunk) = (m1, True)"
        "backs v m1 (splice D ((lba + q) * 512) (splice buf p chunk))"
      using write_run [OF assms less.prems(1) s, of 1 "splice buf p chunk"] s by auto
    have D1: "splice D ((lba + q) * 512) (splice buf p chunk) = splice D (lba * 512 + off) chunk"
      unfolding buf(3) using splice_of_window [of p chunk 512 "(lba + q) * 512" D] n chunk D by (simp add: off algebra_simps)
    have "length (splice D (lba * 512 + off) chunk) = length D" using less.prems(2) n chunk by simp
    moreover have "len - n \<le> length bytes" if "map_option (drop n) src = Some bytes" for bytes
      using that less.prems(3) by (cases src) auto
    ultimately have "\<exists>m2. cluster_splice v m1 lba (off + n) (map_option (drop n) src) (len - n) = (m2, Inr ()) \<and>
        backs v m2 (splice (splice D (lba * 512 + off) chunk) (lba * 512 + (off + n)) (patch_bytes (map_option (drop n) src) (len - n)))"
      using less.prems(2) n False m1(2) D1
      by (intro less.IH) auto
    then obtain m2 where m2: "cluster_splice v m1 lba (off + n) (map_option (drop n) src) (len - n) = (m2, Inr ())"
        "backs v m2 (splice (splice D (lba * 512 + off) chunk) (lba * 512 + (off + n)) (patch_bytes (map_option (drop n) src) (len - n)))"
      by blast
    have "chunk @ patch_bytes (map_option (drop n) src) (len - n) = patch_bytes src len"
      using n(1) by (cases src) (auto simp: chunk_def patch_bytes_def simp flip: replicate_add take_add)
    moreover have "length (patch_bytes (map_option (drop n) src) (len - n)) = len - n"
      using less.prems(3) by (cases src) (auto simp: patch_bytes_def)
    ultimately have "splice (splice D (lba * 512 + off) chunk) (lba * 512 + (off + n)) (patch_bytes (map_option (drop n) src) (len - n)) =
        splice D (lba * 512 + off) (patch_bytes src len)"
      using splice_splice_next [of "lba * 512 + off" chunk _ D] chunk less.prems(2) n(1) by (simp add: add.assoc)
    moreover have "cluster_splice v m lba off src len = (m2, Inr ())"
      unfolding cluster_splice.simps [of v m lba off src len] Let_def p_def [symmetric] q_def [symmetric] n_def [symmetric]
        w old_def [symmetric] using False buf(1) m1(1) m2(1) by (simp add: chunk_def patch_bytes_def)
    ultimately show ?thesis using m2(2) by auto
  qed
qed

end
