(* ===== verification/FatExtend.thy ===== *)
theory FatExtend imports FatStore begin

text \<open>
  Allocation: a file system in which the FAT buffer covers the volume, what each step of a write does to its entries
  and its bytes, and the extension of a chain by zeroed clusters.
\<close>

section \<open>The file system as entries and bytes\<close>

abbreviation (input) entry :: "u8 list \<Rightarrow> nat \<Rightarrow> nat" where
  "entry \<equiv> fat_entry FAT_TYPE_FAT12"

abbreviation (input) bpc_of :: "'m fat12_volume \<Rightarrow> nat" where
  "bpc_of v \<equiv> sectors_per_cluster (vol_bpb v) * 512"

definition fs_holds :: "'m fat12_volume \<Rightarrow> nat \<Rightarrow> 'm fs \<Rightarrow> u8 list \<Rightarrow> u8 list \<Rightarrow> bool" where
  "fs_holds v len s b D \<longleftrightarrow> volume_ok v \<and> writes_ok v \<and> vol_fat_type v = FAT_TYPE_FAT12 \<and>
     fs_win s = None \<and> fs_fat s = Some b \<and> backs v (fs_med s) D \<and>
     sectors_per_fat (vol_bpb v) * 512 \<le> len \<and> len \<le> length b \<and>
     (\<forall>c. fat12_cluster_in_range v c \<longrightarrow> entry_off FAT_TYPE_FAT12 c + 1 < sectors_per_fat (vol_bpb v) * 512)"

lemma holds_next:
  assumes "fs_holds v len s b D" "fat12_cluster_in_range v c"
  shows "fs_next v len c s = (s, Inr (entry b c))" "fat_link FAT_TYPE_FAT12 b len c = Inr (entry b c)"
proof -
  have c: "2 \<le> c" "entry_off FAT_TYPE_FAT12 c + 1 < len" "vol_fat_type v = FAT_TYPE_FAT12" "fs_win s = None" "fs_fat s = Some b"
    using assms by (auto simp: fs_holds_def fat12_cluster_in_range_def)
  then have "fs_next v len c s = (s\<lparr>fs_win := None\<rparr>, Inr (entry b c))" by (simp add: fs_next_def next_whole)
  then show "fs_next v len c s = (s, Inr (entry b c))" using c(4) by (cases s) simp
  show "fat_link FAT_TYPE_FAT12 b len c = Inr (entry b c)" using c by (simp add: fat_link_def)
qed

lemma holds_set:
  assumes "fs_holds v len s b D" "fat12_cluster_in_range v c"
  obtains b' where "fs_set len c x s = (s\<lparr>fs_fat := Some b'\<rparr>, Inr ())" "fs_holds v len (s\<lparr>fs_fat := Some b'\<rparr>) b' D"
    "length b' = length b" "\<And>d. entry b' d = (if d = c then x mod 0x1000 else entry b d)"
proof -
  have c: "2 \<le> c" "entry_off FAT_TYPE_FAT12 c + 1 < len" "len \<le> length b" "fs_fat s = Some b"
    using assms by (auto simp: fs_holds_def fat12_cluster_in_range_def)
  obtain b' where b': "fat12_set_entry (Some b) len c x = (Some b', Inr ())" using set_entry_ok [OF c(1,2)] by blast
  note t = set_entry_table(1-3) [OF b' c(3)]
  show thesis
  proof (rule that)
    show "fs_set len c x s = (s\<lparr>fs_fat := Some b'\<rparr>, Inr ())" using c(4) b' by (simp add: fs_set_def)
    show "fs_holds v len (s\<lparr>fs_fat := Some b'\<rparr>) b' D" using assms(1) t(3) by (simp add: fs_holds_def)
    show "length b' = length b" by (fact t(3))
    show "entry b' d = (if d = c then x mod 0x1000 else entry b d)" for d using t(1,2) by simp
  qed
qed

lemma holds_find:
  assumes "fs_holds v len s b D" "2 \<le> hint"
  obtains r where "fs_find_free v len hint s = (s, r)"
    "\<And>c. hint \<le> c \<Longrightarrow> fat12_cluster_in_range v c \<Longrightarrow> r = 0 \<or> c < r \<Longrightarrow> entry b c \<noteq> 0"
    "r \<noteq> 0 \<Longrightarrow> hint \<le> r \<and> fat12_cluster_in_range v r \<and> entry b r = 0"
proof -
  have f: "vol_fat_type v = FAT_TYPE_FAT12" "fs_win s = None" "fs_fat s = Some b" using assms(1) by (simp_all add: fs_holds_def)
  have cov: "\<forall>c. 2 \<le> c \<and> c \<le> fat12_last_cluster v \<longrightarrow> entry_off (vol_fat_type v) c + 1 < len"
    using assms(1) unfolding fs_holds_def fat12_cluster_in_range_def by fastforce
  obtain r where r: "find_free_from v (fs_med s) None (Some b) len (fat12_last_cluster v) hint = (None, r)"
    "\<forall>c. hint \<le> c \<and> c \<le> fat12_last_cluster v \<and> (r = 0 \<or> c < r) \<longrightarrow> entry b c \<noteq> 0"
    "r \<noteq> 0 \<longrightarrow> hint \<le> r \<and> r \<le> fat12_last_cluster v \<and> entry b r = 0"
    using find_free_least [OF cov assms(2), of "fs_med s" b] unfolding f(1) by blast
  show thesis
  proof (rule that [of r])
    have "fs_find_free v len hint s = (s\<lparr>fs_win := None\<rparr>, r)"
      using r(1) f assms(2) by (simp add: fs_find_free_def fat12_find_free_def)
    then show "fs_find_free v len hint s = (s, r)" using f(2) by (cases s) simp
  qed (use r(2,3) assms(2) in \<open>auto simp: fat12_cluster_in_range_def\<close>)
qed

section \<open>Which bytes change\<close>

abbreviation (input) cluster_at :: "'m fat12_volume \<Rightarrow> nat \<Rightarrow> nat" where
  "cluster_at v c \<equiv> cluster_lba v c * 512"

definition same_outside :: "'m fat12_volume \<Rightarrow> nat set \<Rightarrow> u8 list \<Rightarrow> u8 list \<Rightarrow> bool" where
  "same_outside v C D D' \<longleftrightarrow> length D' = length D \<and>
     (\<forall>p n. (\<forall>c\<in>C. p + n \<le> cluster_at v c \<or> cluster_at v c + bpc_of v \<le> p) \<longrightarrow> window D' p n = window D p n)"

lemma same_outside_refl [simp]: "same_outside v C D D"
  by (simp add: same_outside_def)

lemma same_outside_trans: "same_outside v A D D' \<Longrightarrow> same_outside v B D' D'' \<Longrightarrow> same_outside v (A \<union> B) D D''"
  by (simp add: same_outside_def)

lemma same_outside_mono: "same_outside v A D D' \<Longrightarrow> A \<subseteq> B \<Longrightarrow> same_outside v B D D'"
  unfolding same_outside_def by blast

lemma same_splice:
  assumes "volume_ok v" "backs v m D" "fat12_cluster_in_range v c" "off + length x \<le> bpc_of v"
  shows "same_outside v {c} D (splice D (cluster_at v c + off) x)"
    and "cluster_data v (splice D (cluster_at v c + off) x) c = splice (cluster_data v D c) off x"
proof -
  note l = length_cluster_data [OF assms(1-3)]
  then have fit: "cluster_at v c + off + length x \<le> length D" using assms(4) by simp
  show "same_outside v {c} D (splice D (cluster_at v c + off) x)"
    unfolding same_outside_def using fit assms(4) by (auto intro!: window_splice_apart)
  show "cluster_data v (splice D (cluster_at v c + off) x) c = splice (cluster_data v D c) off x"
    unfolding cluster_data_def using l(2) assms(4) by (subst window_splice_within) auto
qed

lemma cluster_data_same:
  assumes "volume_ok v" "same_outside v C D D'" "fat12_cluster_in_range v c" "\<forall>d\<in>C. fat12_cluster_in_range v d" "c \<notin> C"
  shows "cluster_data v D' c = cluster_data v D c"
proof -
  have "cluster_at v c + bpc_of v \<le> cluster_at v d \<or> cluster_at v d + bpc_of v \<le> cluster_at v c" if d: "d \<in> C" for d
  proof (cases "c < d")
    case True
    then have "(cluster_lba v c + sectors_per_cluster (vol_bpb v)) * 512 \<le> cluster_lba v d * 512"
      using clusters_apart [OF assms(1,3), of d] d assms(4) by (intro mult_le_mono1) blast
    then show ?thesis by (simp add: algebra_simps)
  next
    case False
    then have "d < c" using d assms(5) by (metis linorder_neqE_nat)
    then have "(cluster_lba v d + sectors_per_cluster (vol_bpb v)) * 512 \<le> cluster_lba v c * 512"
      using clusters_apart [OF assms(1) _ assms(3), of d] d assms(4) by (intro mult_le_mono1) blast
    then show ?thesis by (simp add: algebra_simps)
  qed
  then show ?thesis using assms(2) unfolding same_outside_def cluster_data_def by blast
qed

lemma file_data_same:
  assumes "volume_ok v" "same_outside v C D D'" "\<forall>c\<in>set cs. fat12_cluster_in_range v c" "\<forall>d\<in>C. fat12_cluster_in_range v d" "set cs \<inter> C = {}"
  shows "file_data v D' cs = file_data v D cs"
proof -
  have "cluster_data v D' c = cluster_data v D c" if "c \<in> set cs" for c
    using that assms by (intro cluster_data_same [OF assms(1,2)]) auto
  then show ?thesis by (simp add: file_data_def cong: map_cong)
qed

lemma holds_fill:
  assumes "fs_holds v len s b D" "fat12_cluster_in_range v c"
    and "\<And>bytes. src = Some bytes \<Longrightarrow> n \<le> length bytes \<and> n \<le> bpc_of v"
  obtains m D' where "fs_fill v (cluster_lba v c) src n s = (s\<lparr>fs_med := m\<rparr>, Inr ())"
    "fs_holds v len (s\<lparr>fs_med := m\<rparr>) b D'" "same_outside v {c} D D'"
    "cluster_data v D' c = fill_bytes src n (sectors_per_cluster (vol_bpb v))"
proof -
  have ok: "volume_ok v" "writes_ok v" "backs v (fs_med s) D" using assms(1) by (simp_all add: fs_holds_def)
  let ?f = "fill_bytes src n (sectors_per_cluster (vol_bpb v))"
  have lf: "length ?f = bpc_of v" using assms(3) by (cases src) (auto simp: fill_bytes_def)
  obtain m where m: "cluster_fill_from v (fs_med s) (cluster_lba v c) src n (sectors_per_cluster (vol_bpb v)) = (m, Inr ())"
    "backs v m (splice D (cluster_at v c) ?f)"
    using fill_stored [OF ok(2,1,3) cluster_lba_eq(2) [OF ok(1) assms(2)], of src n] assms(3) by blast
  note sp = same_splice [OF ok(1,3) assms(2), of 0 ?f]
  have "splice (cluster_data v D c) 0 ?f = ?f"
    using length_cluster_data(1) [OF ok(1,3) assms(2)] lf by (simp add: splice_def)
  then show thesis
    using that [of m "splice D (cluster_at v c) ?f"] m sp lf assms(1) by (simp add: fs_fill_def cluster_fill_def fs_holds_def)
qed

lemma in_range_small: "fs_holds v len s b D \<Longrightarrow> fat12_cluster_in_range v c \<Longrightarrow> 2 \<le> c \<and> c < 0xFF7"
  using in_range_iff [of v c] by (auto simp: fs_holds_def volume_ok_def)

lemma usable_iff:
  assumes "fs_holds v len s b D"
  shows "chain_link_unusable v c \<longleftrightarrow> \<not> fat12_cluster_in_range v c" "fat12_cluster_in_range v c \<Longrightarrow> \<not> chain_is_eoc v c"
    "chain_is_eoc v 0xFFF"
  using in_range_small [OF assms, of c] assms
  by (auto simp: chain_link_unusable_def chain_is_free_def chain_is_bad_def chain_is_eoc_def fs_holds_def fat12_is_free_def
      fat12_is_bad_def fat12_is_eoc_def fat12_cluster_in_range_def)

text \<open>Claiming a free cluster behind \<open>prev\<close>.\<close>

lemma holds_claim:
  assumes "fs_holds v len s b D" "fat12_cluster_in_range v cl" "prev = 0 \<or> fat12_cluster_in_range v prev" "prev \<noteq> cl"
  obtains b' where "claim_cluster len prev cl s = (s\<lparr>fs_fat := Some b'\<rparr>, Inr ())" "fs_holds v len (s\<lparr>fs_fat := Some b'\<rparr>) b' D"
    "length b' = length b"
    "\<And>d. entry b' d = (if d = cl then 0xFFF else if d = prev \<and> prev \<noteq> 0 then cl else entry b d)"
proof -
  obtain b1 where b1: "fs_set len cl FAT12_EOC_VALUE s = (s\<lparr>fs_fat := Some b1\<rparr>, Inr ())"
    "fs_holds v len (s\<lparr>fs_fat := Some b1\<rparr>) b1 D" "length b1 = length b"
    "\<And>d. entry b1 d = (if d = cl then FAT12_EOC_VALUE mod 0x1000 else entry b d)"
    using holds_set [OF assms(1,2), of FAT12_EOC_VALUE] by blast
  show thesis
  proof (cases "prev = 0")
    case True
    with b1 that show ?thesis by (simp add: claim_cluster_def)
  next
    case False
    then have p: "fat12_cluster_in_range v prev" using assms(3) by simp
    obtain b2 where b2: "fs_set len prev cl (s\<lparr>fs_fat := Some b1\<rparr>) = (s\<lparr>fs_fat := Some b1, fs_fat := Some b2\<rparr>, Inr ())"
      "fs_holds v len (s\<lparr>fs_fat := Some b1, fs_fat := Some b2\<rparr>) b2 D" "length b2 = length b1"
      "\<And>d. entry b2 d = (if d = prev then cl mod 0x1000 else entry b1 d)"
      using holds_set [OF b1(2) p, of cl] by blast
    have "cl mod 0x1000 = cl" using in_range_small [OF assms(1,2)] by simp
    with False b1 b2 assms(4) show ?thesis by (intro that [of b2]) (simp_all add: claim_cluster_def)
  qed
qed

section \<open>Extending a chain\<close>

definition free_above :: "'m fat12_volume \<Rightarrow> u8 list \<Rightarrow> nat \<Rightarrow> nat set" where
  "free_above v b p = {c. fat12_cluster_in_range v c \<and> p < c \<and> entry b c = 0}"

lemma finite_free_above [simp]: "finite (free_above v b p)"
  by (rule finite_subset [of _ "{..fat12_last_cluster v}"]) (auto simp: free_above_def fat12_cluster_in_range_def)

text \<open>The search from \<open>prev\<close> on finds the least free cluster above it.\<close>

lemma holds_find_above:
  assumes "fs_holds v len s b D" "prev = 0 \<or> fat12_cluster_in_range v prev" "free_above v b prev \<noteq> {}"
  obtains r where "fs_find_free v len (next_hint prev) s = (s, r)" "r \<noteq> 0" "r \<in> free_above v b prev"
    "\<And>c. c \<in> free_above v b prev \<Longrightarrow> c \<noteq> r \<Longrightarrow> r < c"
proof -
  have h: "2 \<le> next_hint prev" "\<And>c. fat12_cluster_in_range v c \<Longrightarrow> next_hint prev \<le> c \<longleftrightarrow> prev < c"
    using assms(2) in_range_small [OF assms(1), of prev]
    by (auto simp: next_hint_def fat12_cluster_in_range_def)
  obtain r where r: "fs_find_free v len (next_hint prev) s = (s, r)"
    "\<And>c. next_hint prev \<le> c \<Longrightarrow> fat12_cluster_in_range v c \<Longrightarrow> r = 0 \<or> c < r \<Longrightarrow> entry b c \<noteq> 0"
    "r \<noteq> 0 \<Longrightarrow> next_hint prev \<le> r \<and> fat12_cluster_in_range v r \<and> entry b r = 0"
    using holds_find [OF assms(1) h(1)] by blast
  obtain x where x: "x \<in> free_above v b prev" using assms(3) by blast
  have "r \<noteq> 0" using r(2) [of x] x h(2) [of x] by (cases "r = 0") (auto simp: free_above_def)
  moreover have "r \<in> free_above v b prev" using r(3) [OF calculation] h(2) [of r] by (simp add: free_above_def)
  moreover have "r < c" if "c \<in> free_above v b prev" "c \<noteq> r" for c
    using r(2) [of c] that h(2) [of c] by (force simp: free_above_def)
  ultimately show thesis using that r(1) by blast
qed

lemma links_Cons:
  assumes "fs_holds v len s b D" "fat12_cluster_in_range v c" "cs = [] \<and> entry b c = 0xFFF \<or> cs \<noteq> [] \<and> entry b c = hd cs \<and> links v (fat_link FAT_TYPE_FAT12 b len) cs"
  shows "links v (fat_link FAT_TYPE_FAT12 b len) (c # cs)"
proof (cases cs)
  case Nil
  with assms(3) holds_next(2) [OF assms(1,2)] usable_iff [OF assms(1)] assms(2) show ?thesis by simp
next
  case (Cons d ds)
  with assms(3) have "links v (fat_link FAT_TYPE_FAT12 b len) (d # ds)" "entry b c = d" by auto
  moreover have "fat12_cluster_in_range v d" using links_in_range [OF calculation(1)] by simp
  ultimately show ?thesis
    using holds_next(2) [OF assms(1,2)] usable_iff [OF assms(1)] assms(2) Cons by simp
qed

lemma extend_ok:
  "fs_holds v len s b D \<Longrightarrow> prev = 0 \<or> fat12_cluster_in_range v prev \<Longrightarrow> left \<le> card (free_above v b prev) \<Longrightarrow>
   \<exists>s' b' D' cs. extend_chain v len tail ns ef prev left s = (s', Inr (if prev = 0 \<and> cs \<noteq> [] then hd cs else ns)) \<and>
     fs_holds v len s' b' D' \<and> length b' = length b \<and> length cs = left \<and> set cs \<subseteq> free_above v b prev \<and>
     (cs \<noteq> [] \<longrightarrow> links v (fat_link FAT_TYPE_FAT12 b' len) cs \<and> (prev \<noteq> 0 \<longrightarrow> entry b' prev = hd cs)) \<and>
     (\<forall>c. c \<notin> set cs \<and> (c \<noteq> prev \<or> cs = []) \<longrightarrow> entry b' c = entry b c) \<and>
     (\<forall>c\<in>set cs. cluster_data v D' c = replicate (bpc_of v) 0) \<and> same_outside v (set cs) D D'"
proof (induction left arbitrary: prev s b D ns ef)
  case 0
  then show ?case by (intro exI [of _ s] exI [of _ b] exI [of _ D] exI [of _ "[]"]) simp
next
  case (Suc left)
  then have "free_above v b prev \<noteq> {}" by force
  then obtain r where r: "fs_find_free v len (next_hint prev) s = (s, r)" "r \<noteq> 0" "r \<in> free_above v b prev"
    "\<And>c. c \<in> free_above v b prev \<Longrightarrow> c \<noteq> r \<Longrightarrow> r < c"
    using holds_find_above [OF Suc.prems(1,2)] by blast
  then have rr: "fat12_cluster_in_range v r" "prev < r" by (simp_all add: free_above_def)
  obtain b1 where b1: "claim_cluster len prev r s = (s\<lparr>fs_fat := Some b1\<rparr>, Inr ())" "fs_holds v len (s\<lparr>fs_fat := Some b1\<rparr>) b1 D"
    "length b1 = length b" "\<And>d. entry b1 d = (if d = r then 0xFFF else if d = prev \<and> prev \<noteq> 0 then r else entry b d)"
    using holds_claim [OF Suc.prems(1) rr(1) Suc.prems(2)] rr(2) by blast
  obtain m D1 where f: "fs_fill v (cluster_lba v r) None 0 (s\<lparr>fs_fat := Some b1\<rparr>) = (s\<lparr>fs_fat := Some b1, fs_med := m\<rparr>, Inr ())"
    "fs_holds v len (s\<lparr>fs_fat := Some b1, fs_med := m\<rparr>) b1 D1" "same_outside v {r} D D1"
    "cluster_data v D1 r = fill_bytes None 0 (sectors_per_cluster (vol_bpb v))"
    using holds_fill [OF b1(2) rr(1), of None 0] by blast
  have "free_above v b1 r = free_above v b prev - {r}"
    using r(2-4) b1(4) rr by (auto simp: free_above_def split: if_splits)
  then have "left \<le> card (free_above v b1 r)" using Suc.prems(3) r(3) by simp
  with Suc.IH [OF f(2), of r "if prev \<noteq> 0 then ns else r" "if ef = 0 then r else ef"] rr(1) r(2) obtain s' b' D' cs where ih:
    "extend_chain v len tail (if prev \<noteq> 0 then ns else r) (if ef = 0 then r else ef) r left (s\<lparr>fs_fat := Some b1, fs_med := m\<rparr>) =
       (s', Inr (if prev \<noteq> 0 then ns else r))"
    "fs_holds v len s' b' D'" "length b' = length b1" "length cs = left" "set cs \<subseteq> free_above v b1 r"
    "cs \<noteq> [] \<longrightarrow> links v (fat_link FAT_TYPE_FAT12 b' len) cs \<and> entry b' r = hd cs"
    "\<forall>c. c \<notin> set cs \<and> (c \<noteq> r \<or> cs = []) \<longrightarrow> entry b' c = entry b1 c"
    "\<forall>c\<in>set cs. cluster_data v D' c = replicate (bpc_of v) 0" "same_outside v (set cs) D1 D'"
    by auto
  have above: "fat12_cluster_in_range v c" "r < c" if "c \<in> set cs" for c using that ih(5) by (auto simp: free_above_def)
  then have notin: "r \<notin> set cs" "prev \<notin> set cs" using rr(2) by (auto dest: order.strict_trans)
  have lk: "links v (fat_link FAT_TYPE_FAT12 b' len) (r # cs)"
    using ih(6,7) notin(1) b1(4) by (intro links_Cons [OF ih(2) rr(1)]) auto
  have "cluster_data v D' r = replicate (bpc_of v) 0"
    using cluster_data_same [OF _ ih(9) rr(1)] above notin(1) f(4) ih(2) by (auto simp: fs_holds_def fill_bytes_def)
  moreover have "same_outside v (set (r # cs)) D D'" using same_outside_trans [OF f(3) ih(9)] by simp
  moreover have "set (r # cs) \<subseteq> free_above v b prev"
    using ih(5) r(3) \<open>free_above v b1 r = free_above v b prev - {r}\<close> by auto
  moreover have "entry b' c = entry b c" if "c \<notin> set (r # cs)" "c \<noteq> prev" for c using ih(7) b1(4) that by auto
  moreover have "entry b' prev = r" if "prev \<noteq> 0" using ih(7) b1(4) [of prev] notin(2) rr(2) that by auto
  moreover have "extend_chain v len tail ns ef prev (Suc left) s = (s', Inr (if prev = 0 \<and> r # cs \<noteq> [] then hd (r # cs) else ns))"
    using r(1,2) b1(1) f(1) ih(1) by (simp add: Let_def)
  ultimately show ?case
    using ih(2-4,8) b1(3) lk by (intro exI [of _ s'] exI [of _ b'] exI [of _ D'] exI [of _ "r # cs"]) auto
qed

end
