(* ===== verification/FatPosition.thy ===== *)
theory FatPosition imports FatExtend begin

text \<open>
  The other steps of a positioned write: walking and patching the chain, flushing the FAT copies, and reading
  and writing a root directory entry.
\<close>

section \<open>Walking and patching a chain\<close>

lemma follow_to:
  assumes "fs_holds v len s b D"
  shows "links v (fat_link FAT_TYPE_FAT12 b len) cs \<Longrightarrow> k < length cs \<Longrightarrow> k \<le> left \<Longrightarrow>
    follow_links v len k (hd cs) left s = (s, Inr (cs ! k, left - k))"
proof (induction k arbitrary: cs left)
  case 0
  then show ?case by (auto simp: hd_conv_nth)
next
  case (Suc k)
  then obtain c d ds where cs: "cs = c # d # ds" by (metis length_Cons less_nat_zero_code list.exhaust list.size(3) not_less_eq)
  have c: "\<not> chain_link_unusable v c" using links_hd Suc.prems(1) cs by blast
  then have r: "fat12_cluster_in_range v c" using usable_iff(1) [OF assms] by blast
  have "entry b c = d" "\<not> chain_is_eoc v d" "links v (fat_link FAT_TYPE_FAT12 b len) (d # ds)"
    using Suc.prems(1) cs holds_next(2) [OF assms r] by auto
  with Suc.IH [of "d # ds" "left - 1"] Suc.prems cs c holds_next(1) [OF assms r] show ?case by simp
qed

lemma holds_patch:
  assumes "fs_holds v len s b D" "fat12_cluster_in_range v c" "off + n \<le> bpc_of v" "\<And>bytes. src = Some bytes \<Longrightarrow> n \<le> length bytes"
  obtains m where "cluster_splice v (fs_med s) (cluster_lba v c) off src n = (m, Inr ())"
    "fs_holds v len (s\<lparr>fs_med := m\<rparr>) b (splice D (cluster_at v c + off) (patch_bytes src n))"
    "same_outside v {c} D (splice D (cluster_at v c + off) (patch_bytes src n))"
    "cluster_data v (splice D (cluster_at v c + off) (patch_bytes src n)) c = splice (cluster_data v D c) off (patch_bytes src n)"
proof -
  have ok: "volume_ok v" "writes_ok v" "backs v (fs_med s) D" using assms(1) by (simp_all add: fs_holds_def)
  have "cluster_at v c + off + n \<le> length D" using length_cluster_data(2) [OF ok(1,3) assms(2)] assms(3) by simp
  from splice_stored [OF ok(2,1,3) this assms(4)] obtain m where
    "cluster_splice v (fs_med s) (cluster_lba v c) off src n = (m, Inr ())"
    "backs v m (splice D (cluster_at v c + off) (patch_bytes src n))" by blast
  then show thesis
    using that same_splice [OF ok(1,3) assms(2), of off "patch_bytes src n"] assms(1,3,4) by (simp add: fs_holds_def)
qed

lemma splice_clusters_one:
  assumes "fs_holds v len s b D" "fat12_cluster_in_range v c" "off + length rest \<le> bpc_of v"
  obtains m where "splice_clusters v len (bpc_of v) c off rest left s = (s\<lparr>fs_med := m\<rparr>, Inr ())"
    "fs_holds v len (s\<lparr>fs_med := m\<rparr>) b (splice D (cluster_at v c + off) rest)"
    "same_outside v {c} D (splice D (cluster_at v c + off) rest)"
    "cluster_data v (splice D (cluster_at v c + off) rest) c = splice (cluster_data v D c) off rest"
proof (cases "rest = []")
  case True
  with assms(1) that [of "fs_med s"] show ?thesis by (simp add: splice_clusters.simps)
next
  case False
  have t: "(if bpc_of v - off > length rest then length rest else bpc_of v - off) = length rest" using assms(3) by auto
  obtain m where m: "cluster_splice v (fs_med s) (cluster_lba v c) off (Some rest) (length rest) = (m, Inr ())"
    "fs_holds v len (s\<lparr>fs_med := m\<rparr>) b (splice D (cluster_at v c + off) (patch_bytes (Some rest) (length rest)))"
    "same_outside v {c} D (splice D (cluster_at v c + off) (patch_bytes (Some rest) (length rest)))"
    "cluster_data v (splice D (cluster_at v c + off) (patch_bytes (Some rest) (length rest))) c =
       splice (cluster_data v D c) off (patch_bytes (Some rest) (length rest))"
    using holds_patch [OF assms(1-3), of "Some rest"] by blast
  have "splice_clusters v len (bpc_of v) c off rest left s = (s\<lparr>fs_med := m\<rparr>, Inr ())"
    unfolding splice_clusters.simps [of v len "bpc_of v" c off rest left s] Let_def t
    using False m(1) usable_iff(1) [OF assms(1)] assms(2) by simp
  with m that show ?thesis by (simp add: patch_bytes_def)
qed

lemma splice_chain:
  "fs_holds v len s b D \<Longrightarrow> links v (fat_link FAT_TYPE_FAT12 b len) (c # cs) \<Longrightarrow> off < bpc_of v \<Longrightarrow>
   off + length rest \<le> length (c # cs) * bpc_of v \<Longrightarrow> length cs \<le> left \<Longrightarrow>
   \<exists>m D'. splice_clusters v len (bpc_of v) c off rest left s = (s\<lparr>fs_med := m\<rparr>, Inr ()) \<and>
     fs_holds v len (s\<lparr>fs_med := m\<rparr>) b D' \<and> same_outside v (set (c # cs)) D D' \<and>
     file_data v D' (c # cs) = splice (file_data v D (c # cs)) off rest"
proof (induction cs arbitrary: s D c off rest left)
  case (Nil s D c off rest left)
  then have "fat12_cluster_in_range v c" using links_in_range [OF Nil(2), of c] by simp
  from splice_clusters_one [OF Nil(1) this, of off rest left] Nil(4) show ?case by (fastforce simp: file_data_def)
next
  case (Cons d ds s D c off rest left)
  note L = Cons.prems(2)
  have c: "fat12_cluster_in_range v c" "\<not> chain_link_unusable v c" using links_in_range [OF L, of c] links_hd [OF L] by simp_all
  have ok: "volume_ok v" "backs v (fs_med s) D" using Cons.prems(1) by (simp_all add: fs_holds_def)
  have len: "length (cluster_data v D c) = bpc_of v" using length_cluster_data(1) [OF ok c(1)] .
  have dist: "distinct (c # d # ds)" using links_distinct [OF L] .
  have rng: "\<forall>x\<in>set (d # ds). fat12_cluster_in_range v x" using links_in_range [OF L] by auto
  have fd: "file_data v X (c # d # ds) = cluster_data v X c @ file_data v X (d # ds)" for X by (simp add: file_data_def)
  show ?case
  proof (cases "off + length rest \<le> bpc_of v")
    case True
    obtain m where m: "splice_clusters v len (bpc_of v) c off rest left s = (s\<lparr>fs_med := m\<rparr>, Inr ())"
      "fs_holds v len (s\<lparr>fs_med := m\<rparr>) b (splice D (cluster_at v c + off) rest)"
      "same_outside v {c} D (splice D (cluster_at v c + off) rest)"
      "cluster_data v (splice D (cluster_at v c + off) rest) c = splice (cluster_data v D c) off rest"
      using splice_clusters_one [OF Cons.prems(1) c(1) True] by blast
    have "file_data v (splice D (cluster_at v c + off) rest) (d # ds) = file_data v D (d # ds)"
      using file_data_same [OF ok(1) m(3) rng] c(1) dist by auto
    with m(4) True len have "file_data v (splice D (cluster_at v c + off) rest) (c # d # ds) = splice (file_data v D (c # d # ds)) off rest"
      by (simp add: fd splice_append_left)
    with m(1,2) same_outside_mono [OF m(3), of "set (c # d # ds)"] show ?thesis by auto
  next
    case False
    define room where "room = bpc_of v - off"
    have room: "off + room = bpc_of v" "room < length rest" using Cons.prems(3) False by (auto simp: room_def)
    obtain m1 where m1: "cluster_splice v (fs_med s) (cluster_lba v c) off (Some rest) room = (m1, Inr ())"
      "fs_holds v len (s\<lparr>fs_med := m1\<rparr>) b (splice D (cluster_at v c + off) (patch_bytes (Some rest) room))"
      "same_outside v {c} D (splice D (cluster_at v c + off) (patch_bytes (Some rest) room))"
      "cluster_data v (splice D (cluster_at v c + off) (patch_bytes (Some rest) room)) c =
         splice (cluster_data v D c) off (patch_bytes (Some rest) room)"
      using holds_patch [OF Cons.prems(1) c(1), of off room "Some rest"] room by auto
    define D1 where "D1 = splice D (cluster_at v c + off) (take room rest)"
    have pb: "patch_bytes (Some rest) room = take room rest" by (simp add: patch_bytes_def)
    have Ld: "entry b c = d" "\<not> chain_is_eoc v d" "links v (fat_link FAT_TYPE_FAT12 b len) (d # ds)"
      using L holds_next(2) [OF Cons.prems(1) c(1)] by auto
    have "0 < bpc_of v" "length ds \<le> left - 1" "0 + length (drop room rest) \<le> length (d # ds) * bpc_of v"
      using Cons.prems room by auto
    with Cons.IH [OF m1(2) Ld(3), of 0 "drop room rest" "left - 1"] obtain m2 D2 where
      m2: "splice_clusters v len (bpc_of v) d 0 (drop room rest) (left - 1) (s\<lparr>fs_med := m1\<rparr>) = (s\<lparr>fs_med := m2\<rparr>, Inr ())"
      "fs_holds v len (s\<lparr>fs_med := m2\<rparr>) b D2" "same_outside v (set (d # ds)) D1 D2"
      "file_data v D2 (d # ds) = splice (file_data v D1 (d # ds)) 0 (drop room rest)"
      by (auto simp: pb D1_def)
    have "cluster_data v D2 c = splice (cluster_data v D c) off (take room rest)"
      using cluster_data_same [OF ok(1) m2(3) c(1) rng] dist m1(4) by (auto simp: pb D1_def)
    moreover have "file_data v D1 (d # ds) = file_data v D (d # ds)"
      using file_data_same [OF ok(1) m1(3) rng] c(1) dist by (auto simp: pb D1_def)
    moreover have "length (file_data v D (d # ds)) = length (d # ds) * bpc_of v" using length_file_data [OF ok Ld(3)] .
    ultimately have "file_data v D2 (c # d # ds) = splice (file_data v D (c # d # ds)) off (take room rest @ drop room rest)"
      unfolding fd m2(4) using len room \<open>0 + length (drop room rest) \<le> _\<close>
      by (subst splice_append_over) simp_all
    moreover have "same_outside v (set (c # d # ds)) D D2"
      using same_outside_trans [OF m1(3) m2(3) [unfolded D1_def pb [symmetric]]] by (simp add: insert_commute)
    moreover have "splice_clusters v len (bpc_of v) c off rest left s = (s\<lparr>fs_med := m2\<rparr>, Inr ())"
    proof -
      have t: "(if bpc_of v - off > length rest then length rest else bpc_of v - off) = room" "rest \<noteq> []" using room by (auto simp: room_def)
      show ?thesis
        unfolding splice_clusters.simps [of v len "bpc_of v" c off rest left s] Let_def t(1)
        using t(2) m1(1) m2(1) c(2) room(2) Ld(1,2) holds_next(1) [OF m1(2) c(1)] Cons.prems(5) by simp
    qed
    ultimately show ?thesis using m2(2) by auto
  qed
qed

section \<open>Flushing the FAT\<close>

definition fat_copy_at :: "'m fat12_volume \<Rightarrow> nat \<Rightarrow> nat" where
  "fat_copy_at v i = (first_fat_sector v + i * sectors_per_fat (vol_bpb v)) * 512"

lemma flush_copies:
  assumes "writes_ok v" "volume_ok v" "length f = sectors_per_fat (vol_bpb v) * 512" "0 < sectors_per_fat (vol_bpb v)"
  shows "backs v m D \<Longrightarrow> distinct is \<Longrightarrow> \<forall>i\<in>set is. i < num_fats (vol_bpb v) \<Longrightarrow>
    \<exists>m' D'. flush_from v m f is = (m', Inr ()) \<and> backs v m' D' \<and>
      (\<forall>i\<in>set is. window D' (fat_copy_at v i) (length f) = f) \<and>
      (\<forall>p n. (\<forall>i\<in>set is. p + n \<le> fat_copy_at v i \<or> fat_copy_at v i + length f \<le> p) \<longrightarrow> window D' p n = window D p n)"
proof (induction "is" arbitrary: m D)
  case (Cons i "is")
  let ?spf = "sectors_per_fat (vol_bpb v)"
  have "(i + 1) * ?spf \<le> num_fats (vol_bpb v) * ?spf" using Cons.prems(3) by (intro mult_le_mono1) simp
  moreover have "first_fat_sector v + num_fats (vol_bpb v) * ?spf < total_sectors v"
    using assms(2) unfolding volume_ok_def by linarith
  ultimately have s: "first_fat_sector v + i * ?spf < total_sectors v" "first_fat_sector v + i * ?spf + ?spf \<le> total_sectors v" by simp_all
  obtain m1 where m1: "fat12_write_sectors v m (first_fat_sector v + i * ?spf) ?spf f = (m1, True)"
    "backs v m1 (splice D (fat_copy_at v i) f)"
    using write_run [OF assms(1,2) Cons.prems(1) s assms(3)] by (auto simp: fat_copy_at_def)
  have fit: "fat_copy_at v i + length f \<le> length D" using sector_in [OF Cons.prems(1) s(2)] assms(3) by (simp add: fat_copy_at_def)
  obtain m2 D2 where m2: "flush_from v m1 f is = (m2, Inr ())" "backs v m2 D2" "\<forall>i\<in>set is. window D2 (fat_copy_at v i) (length f) = f"
    "\<forall>p n. (\<forall>i\<in>set is. p + n \<le> fat_copy_at v i \<or> fat_copy_at v i + length f \<le> p) \<longrightarrow>
       window D2 p n = window (splice D (fat_copy_at v i) f) p n"
    using Cons.IH [OF m1(2)] Cons.prems(2,3) by auto
  have apart: "fat_copy_at v i + length f \<le> fat_copy_at v j \<or> fat_copy_at v j + length f \<le> fat_copy_at v i" if "j \<noteq> i" for j
  proof (cases "i < j")
    case True
    then have "(i + 1) * ?spf \<le> j * ?spf" by (intro mult_le_mono1) simp
    then show ?thesis by (simp add: fat_copy_at_def assms(3))
  next
    case False
    with that have "(j + 1) * ?spf \<le> i * ?spf" by (intro mult_le_mono1) simp
    then show ?thesis by (simp add: fat_copy_at_def assms(3))
  qed
  have "window D2 (fat_copy_at v i) (length f) = f"
    using m2(4) apart Cons.prems(2) window_splice_same [OF fit] by (metis distinct.simps(2))
  moreover have "window D2 p n = window D p n"
    if "\<forall>j\<in>set (i # is). p + n \<le> fat_copy_at v j \<or> fat_copy_at v j + length f \<le> p" for p n
    using m2(4) that window_splice_apart [OF fit, of p n] by auto
  ultimately show ?case using m1(1) m2(1-3) by (intro exI [of _ m2] exI [of _ D2]) auto
qed auto

lemma holds_flush:
  assumes "fs_holds v len s b D" "0 < sectors_per_fat (vol_bpb v)"
  obtains m D' where "fs_flush v len s = (s\<lparr>fs_med := m\<rparr>, Inr ())" "fs_holds v len (s\<lparr>fs_med := m\<rparr>) b D'"
    "\<And>i. i < num_fats (vol_bpb v) \<Longrightarrow> window D' (fat_copy_at v i) (sectors_per_fat (vol_bpb v) * 512) = take (sectors_per_fat (vol_bpb v) * 512) b"
    "\<And>p n. root_dir_sector v * 512 \<le> p \<Longrightarrow> window D' p n = window D p n"
proof -
  let ?n = "sectors_per_fat (vol_bpb v) * 512"
  have h: "volume_ok v" "writes_ok v" "fs_fat s = Some b" "backs v (fs_med s) D" "?n \<le> len" "len \<le> length b" "bytes_per_sector (vol_bpb v) = 512"
    using assms(1) volume_ok_facts(1) [of v] by (simp_all add: fs_holds_def)
  have f: "length (take ?n b) = ?n" using h(5,6) by simp
  obtain m D' where m: "flush_from v (fs_med s) (take ?n b) [0..<num_fats (vol_bpb v)] = (m, Inr ())" "backs v m D'"
    "\<forall>i\<in>set [0..<num_fats (vol_bpb v)]. window D' (fat_copy_at v i) ?n = take ?n b"
    "\<forall>p n. (\<forall>i\<in>set [0..<num_fats (vol_bpb v)]. p + n \<le> fat_copy_at v i \<or> fat_copy_at v i + ?n \<le> p) \<longrightarrow> window D' p n = window D p n"
    using flush_copies [OF h(2,1) f assms(2) h(4), of "[0..<num_fats (vol_bpb v)]"] unfolding f by auto
  have below: "fat_copy_at v i + ?n \<le> root_dir_sector v * 512" if "i < num_fats (vol_bpb v)" for i
  proof -
    have "(i + 1) * sectors_per_fat (vol_bpb v) \<le> num_fats (vol_bpb v) * sectors_per_fat (vol_bpb v)" using that by (intro mult_le_mono1) simp
    moreover have "first_fat_sector v + num_fats (vol_bpb v) * sectors_per_fat (vol_bpb v) = root_dir_sector v"
      using h(1) unfolding volume_ok_def by blast
    ultimately show ?thesis by (simp add: fat_copy_at_def)
  qed
  obtain wr where "write_sectors (dev v) = Some wr" using h(2) by (auto simp: writes_ok_def)
  then have "fs_flush v len s = (s\<lparr>fs_med := m\<rparr>, Inr ())"
    using m(1) h by (simp add: fs_flush_def fat12_flush_fats_def Let_def)
  moreover have "fs_holds v len (s\<lparr>fs_med := m\<rparr>) b D'" using assms(1) m(2) by (simp add: fs_holds_def)
  moreover have "window D' p n = window D p n" if "root_dir_sector v * 512 \<le> p" for p n
  proof -
    have "\<forall>i\<in>set [0..<num_fats (vol_bpb v)]. p + n \<le> fat_copy_at v i \<or> fat_copy_at v i + ?n \<le> p"
    proof
      fix i assume "i \<in> set [0..<num_fats (vol_bpb v)]"
      then show "p + n \<le> fat_copy_at v i \<or> fat_copy_at v i + ?n \<le> p" using below [of i] that by simp
    qed
    then show ?thesis using m(4) by blast
  qed
  ultimately show thesis using that m(3) by auto
qed

section \<open>Root directory entries\<close>

definition entry_at :: "'m fat12_volume \<Rightarrow> nat \<Rightarrow> nat" where
  "entry_at v slot = root_dir_sector v * 512 + slot * 32"

definition dirent_ok :: "dir_entry \<Rightarrow> bool" where
  "dirent_ok e \<longleftrightarrow> length (filename e) = 8 \<and> length (extension e) = 3 \<and> length (de_reserved e) = 10"

lemma length_dirent_bytes: "dirent_ok e \<Longrightarrow> length (dirent_bytes e) = 32"
  by (simp add: dirent_ok_def dirent_bytes_def le16_bytes_def le32_bytes_def)

lemma le16_back: "of_nat (unat (ucast (ucast w :: u8) OR push_bit 8 (ucast (ucast (drop_bit 8 w) :: u8)) :: u16)) = w" for w :: u16
proof -
  have "ucast (ucast w :: u8) OR push_bit 8 (ucast (ucast (drop_bit 8 w) :: u8)) = w"
    by (rule bit_word_eqI) (auto simp: bit_simps)
  then show ?thesis by simp
qed

lemma le32_back:
  "of_nat (unat (of_nat (unat (ucast (ucast w :: u8) OR push_bit 8 (ucast (ucast (drop_bit 8 w) :: u8)) :: u16)) OR
     push_bit 16 (of_nat (unat (ucast (ucast (drop_bit 16 w) :: u8) OR push_bit 8 (ucast (ucast (drop_bit 24 w) :: u8)) :: u16))) :: u32)) = w"
  for w :: u32
proof -
  have c: "of_nat (unat (x :: u16)) = (ucast x :: u32)" for x by (simp add: unsigned_def flip: of_nat_unat)
  have "ucast (ucast (ucast w :: u8) OR push_bit 8 (ucast (ucast (drop_bit 8 w) :: u8)) :: u16) OR
     push_bit 16 (ucast (ucast (ucast (drop_bit 16 w) :: u8) OR push_bit 8 (ucast (ucast (drop_bit 24 w) :: u8)) :: u16)) = w"
  proof (rule bit_word_eqI)
    fix n assume "n < LENGTH(32)"
    then show "bit (ucast (ucast (ucast w :: u8) OR push_bit 8 (ucast (ucast (drop_bit 8 w) :: u8)) :: u16) OR
       push_bit 16 (ucast (ucast (ucast (drop_bit 16 w) :: u8) OR push_bit 8 (ucast (ucast (drop_bit 24 w) :: u8)) :: u16)) :: u32) n = bit w n"
      by (cases "n < 16") (auto simp: bit_simps)
  qed
  then show ?thesis by (simp add: c)
qed

lemma parse_dirent_bytes: "dirent_ok e \<Longrightarrow> parse_dirent (dirent_bytes e) 0 = e"
proof -
  assume ok: "dirent_ok e"
  let ?b = "dirent_bytes e"
  have n: "?b = filename e @ extension e @ [attribute e] @ de_reserved e @
      [ucast (mtime e), ucast (drop_bit 8 (mtime e)), ucast (mdate e), ucast (drop_bit 8 (mdate e)),
       ucast (start_cluster e), ucast (drop_bit 8 (start_cluster e)),
       ucast (file_size e), ucast (drop_bit 8 (file_size e)), ucast (drop_bit 16 (file_size e)), ucast (drop_bit 24 (file_size e))]"
    by (simp add: dirent_bytes_def le16_bytes_def le32_bytes_def)
  have i: "?b ! 11 = attribute e" "?b ! 22 = ucast (mtime e)" "?b ! 23 = ucast (drop_bit 8 (mtime e))"
    "?b ! 24 = ucast (mdate e)" "?b ! 25 = ucast (drop_bit 8 (mdate e))" "?b ! 26 = ucast (start_cluster e)"
    "?b ! 27 = ucast (drop_bit 8 (start_cluster e))" "?b ! 28 = ucast (file_size e)" "?b ! 29 = ucast (drop_bit 8 (file_size e))"
    "?b ! 30 = ucast (drop_bit 16 (file_size e))" "?b ! 31 = ucast (drop_bit 24 (file_size e))"
    using ok unfolding n by (simp_all add: dirent_ok_def nth_append)
  have w: "window ?b 0 8 = filename e" "window ?b 8 3 = extension e" "window ?b 12 10 = de_reserved e"
    using ok unfolding n by (simp_all add: dirent_ok_def window_def)
  have r: "rd_le16 ?b k = unat (ucast (?b ! k) OR push_bit 8 (ucast (?b ! (k + 1))) :: u16)" for k by (simp add: rd_le16_def)
  have k: "22 + 1 = (23::nat)" "24 + 1 = (25::nat)" "26 + 1 = (27::nat)" "28 + 1 = (29::nat)" "28 + 2 = (30::nat)" "30 + 1 = (31::nat)"
    by simp_all
  have "of_nat (rd_le16 ?b 22) = mtime e" "of_nat (rd_le16 ?b 24) = mdate e" "of_nat (rd_le16 ?b 26) = start_cluster e"
    unfolding r by (simp_all only: k i le16_back)
  moreover have "of_nat (rd_le32 ?b 28) = file_size e"
    unfolding rd_le32_def r by (simp only: k i le32_back)
  ultimately show ?thesis by (simp add: parse_dirent_def w i)
qed

lemma parse_dirent_window: "off + 32 \<le> n \<Longrightarrow> p + n \<le> length D \<Longrightarrow> parse_dirent (window D p n) off = parse_dirent D (p + off)"
  by (simp add: parse_dirent_def rd_le16_def rd_le32_def window_nth window_within add_ac)

end
