(* ===== verification/FatPut.thy ===== *)
theory FatPut imports FatPosition begin

text \<open>
  A positioned write as a whole: the stages of \<open>fat12_write_partial\<close> on a healthy volume and what they do to the
  bytes of the file, to its chain and entry, and to everything else.
\<close>

section \<open>Root entries of a stored volume\<close>

lemma entry_place:
  assumes "volume_ok v" "slot div 16 < root_dir_sectors v"
  shows "entry_at v slot = (root_dir_sector v + slot div 16) * 512 + slot mod 16 * 32" "slot mod 16 * 32 + 32 \<le> 512"
    "entry_at v slot + 32 \<le> first_data_sector v * 512" "root_dir_sector v + slot div 16 < total_sectors v"
proof -
  show a: "entry_at v slot = (root_dir_sector v + slot div 16) * 512 + slot mod 16 * 32"
  proof -
    have "slot * 32 = (slot div 16 * 16 + slot mod 16) * 32" by simp
    then show ?thesis unfolding entry_at_def by (simp only: add_mult_distrib)
  qed
  have "slot mod 16 < 16" by simp
  then show b: "slot mod 16 * 32 + 32 \<le> 512" by linarith
  have ok: "root_dir_sector v + root_dir_sectors v = first_data_sector v" "first_data_sector v < total_sectors v"
    using assms(1) unfolding volume_ok_def by blast+
  then show "root_dir_sector v + slot div 16 < total_sectors v" using assms(2) by linarith
  have "(root_dir_sector v + slot div 16 + 1) * 512 \<le> first_data_sector v * 512" using ok assms(2) by (intro mult_le_mono1) linarith
  then show "entry_at v slot + 32 \<le> first_data_sector v * 512" using a b by simp
qed

lemma length_disk: "fs_holds v len s b D \<Longrightarrow> first_data_sector v * 512 \<le> length D"
  by (auto simp: fs_holds_def backs_def volume_ok_def)

lemma root_read:
  assumes "fs_holds v len s b D" "slot div 16 < root_dir_sectors v"
  shows "fat12_read_dirent_in_dir v k True st slot s = (s, Inr (parse_dirent D (entry_at v slot)))"
    "dirent_ok (parse_dirent D (entry_at v slot))"
proof -
  have ok: "volume_ok v" "backs v (fs_med s) D" using assms(1) by (simp_all add: fs_holds_def)
  note p = entry_place [OF ok(1) assms(2)]
  have "(root_dir_sector v + slot div 16) * 512 + 512 \<le> length D" using sector_in [OF ok(2), of "root_dir_sector v + slot div 16" 1] p(4) by simp
  then show "fat12_read_dirent_in_dir v k True st slot s = (s, Inr (parse_dirent D (entry_at v slot)))"
    using assms(2) read_sector [OF ok(2,1) p(4)] parse_dirent_window [OF p(2)] p(1)
    by (simp add: fat12_read_dirent_in_dir_def slot_place_def)
  show "dirent_ok (parse_dirent D (entry_at v slot))"
    using p(3) length_disk [OF assms(1)] by (simp add: dirent_ok_def parse_dirent_def)
qed

lemma root_write:
  assumes "fs_holds v len s b D" "slot div 16 < root_dir_sectors v" "dirent_ok e"
  obtains m where "fat12_write_dirent_in_dir v k True st slot e s = (s\<lparr>fs_med := m\<rparr>, Inr ())"
    "fs_holds v len (s\<lparr>fs_med := m\<rparr>) b (splice D (entry_at v slot) (dirent_bytes e))"
proof -
  have ok: "volume_ok v" "writes_ok v" "backs v (fs_med s) D" "write_sectors (dev v) \<noteq> None"
    using assms(1) by (simp_all add: fs_holds_def writes_ok_def)
  note p = entry_place [OF ok(1) assms(2)]
  let ?l = "root_dir_sector v + slot div 16"
  let ?sb = "splice (window D (?l * 512) 512) (slot mod 16 * 32) (dirent_bytes e)"
  have D: "?l * 512 + 512 \<le> length D" using sector_in [OF ok(3), of ?l 1] p(4) by simp
  have l: "length (dirent_bytes e) = 32" using length_dirent_bytes [OF assms(3)] .
  have "length ?sb = 1 * 512" using D l p(2) by simp
  then obtain m where m: "fat12_write_sectors v (fs_med s) ?l 1 ?sb = (m, True)" "backs v m (splice D (?l * 512) ?sb)"
    using write_run [OF ok(2,1,3) p(4), of 1 ?sb] p(4) by auto
  have "splice D (?l * 512) ?sb = splice D (entry_at v slot) (dirent_bytes e)"
    using splice_of_window [of "slot mod 16 * 32" "dirent_bytes e" 512 "?l * 512" D] D l p(1,2) by simp
  with m assms(1,2) ok read_sector [OF ok(3,1) p(4)] that [of m] show thesis
    by (simp add: fat12_write_dirent_in_dir_def slot_place_def fs_holds_def)
qed

text \<open>The entry area does not meet the clusters, nor one entry another.\<close>

lemma entry_outside_clusters:
  assumes "volume_ok v" "fat12_cluster_in_range v c" "p + n \<le> first_data_sector v * 512"
  shows "p + n \<le> cluster_at v c"
proof -
  have "first_data_sector v * 512 \<le> cluster_at v c" by (simp add: cluster_lba_eq(1) [OF assms(1,2)])
  with assms(3) show ?thesis by linarith
qed

lemma write_entry_frame:
  assumes "fs_holds v len s b D" "slot div 16 < root_dir_sectors v" "dirent_ok e"
  defines "D' \<equiv> splice D (entry_at v slot) (dirent_bytes e)"
  shows "parse_dirent D' (entry_at v slot) = e"
    "\<And>c. fat12_cluster_in_range v c \<Longrightarrow> cluster_data v D' c = cluster_data v D c"
    "\<And>p n. p + n \<le> entry_at v slot \<or> entry_at v slot + 32 \<le> p \<Longrightarrow> window D' p n = window D p n"
proof -
  have ok: "volume_ok v" using assms(1) by (simp add: fs_holds_def)
  note p = entry_place [OF ok assms(2)]
  have l: "length (dirent_bytes e) = 32" using length_dirent_bytes [OF assms(3)] .
  have fit: "entry_at v slot + length (dirent_bytes e) \<le> length D" using p(3) length_disk [OF assms(1)] l by simp
  show w: "window D' p n = window D p n" if "p + n \<le> entry_at v slot \<or> entry_at v slot + 32 \<le> p" for p n
    unfolding D'_def using window_splice_apart [OF fit, of p n] that l by simp
  have "parse_dirent (window D' (entry_at v slot) 32) 0 = parse_dirent D' (entry_at v slot)"
    using parse_dirent_window [of 0 32 "entry_at v slot" D'] fit l by (simp add: D'_def)
  moreover have "window D' (entry_at v slot) 32 = dirent_bytes e" using window_splice_same [OF fit] l by (simp add: D'_def)
  ultimately show "parse_dirent D' (entry_at v slot) = e" using parse_dirent_bytes [OF assms(3)] by simp
  show "cluster_data v D' c = cluster_data v D c" if "fat12_cluster_in_range v c" for c
  proof -
    have "first_data_sector v * 512 \<le> cluster_at v c" by (simp add: cluster_lba_eq(1) [OF ok that])
    then show ?thesis unfolding cluster_data_def using p(3) by (intro w) simp
  qed
qed

section \<open>Chains that grow\<close>

lemma links_append:
  assumes "fs_holds v len s b' D" "links v (fat_link FAT_TYPE_FAT12 b len) cs"
    and "\<And>c. c \<in> set (butlast cs) \<Longrightarrow> entry b' c = entry b c" "entry b' (last cs) = hd ds" "links v (fat_link FAT_TYPE_FAT12 b' len) ds"
  shows "links v (fat_link FAT_TYPE_FAT12 b' len) (cs @ ds)"
  using assms(2-4)
proof (induction cs)
  case (Cons c cs)
  have ds: "ds \<noteq> []" using assms(5) by auto
  have c: "fat12_cluster_in_range v c" using links_in_range [OF Cons.prems(1), of c] by simp
  show ?case
  proof (cases cs)
    case Nil
    with Cons.prems(3) ds assms(5) links_Cons [OF assms(1) c, of ds] show ?thesis by simp
  next
    case (Cons d es)
    have l: "links v (fat_link FAT_TYPE_FAT12 b len) cs" "fat_link FAT_TYPE_FAT12 b len c = Inr d"
      using \<open>links v _ (c # cs)\<close> Cons by simp_all
    have "entry b c = d" using l(2) by (simp add: fat_link_Inr)
    then have "entry b' c = hd (cs @ ds)" using Cons.prems(2) [of c] Cons by simp
    moreover have "links v (fat_link FAT_TYPE_FAT12 b' len) (cs @ ds)" using Cons.IH [OF l(1)] Cons.prems(2,3) Cons by simp
    ultimately show ?thesis using links_Cons [OF assms(1) c, of "cs @ ds"] Cons by simp
  qed
qed simp

lemma links_entry_nonzero:
  assumes "fs_holds v len s b D" "links v (fat_link FAT_TYPE_FAT12 b len) cs" "c \<in> set cs"
  shows "entry b c \<noteq> 0"
  using assms(2,3)
proof (induction cs)
  case (Cons x xs)
  show ?case
  proof (cases xs)
    case Nil
    then obtain y where "fat_link FAT_TYPE_FAT12 b len x = Inr y" "chain_is_eoc v y" using Cons.prems(1) by (auto split: sum.splits)
    with Nil Cons.prems(2) assms(1) show ?thesis
      by (auto simp: fat_link_Inr chain_is_eoc_def fs_holds_def fat12_is_eoc_def)
  next
    case (Cons y ys)
    then have "entry b x = y" "links v (fat_link FAT_TYPE_FAT12 b len) (y # ys)" using Cons.prems(1) by (auto simp: fat_link_Inr)
    moreover have "2 \<le> y" using links_in_range [OF calculation(2), of y] by (simp add: fat12_cluster_in_range_def)
    ultimately show ?thesis using Cons.IH Cons.prems(2) Cons by auto
  qed
qed simp

lemma links_keep:
  assumes "links v (fat_link FAT_TYPE_FAT12 b len) ds" "\<And>c. c \<in> set ds \<Longrightarrow> entry b' c = entry b c"
  shows "links v (fat_link FAT_TYPE_FAT12 b' len) ds"
  using assms by (intro links_mono [OF assms(1)]) (simp add: fat_link_def)

section \<open>The stages\<close>

text \<open>A stored file: its entry, its chain of just enough clusters.\<close>

definition clusters_for :: "'m fat12_volume \<Rightarrow> nat \<Rightarrow> nat" where
  "clusters_for v n = (n + bpc_of v - 1) div bpc_of v"

definition file_chain :: "'m fat12_volume \<Rightarrow> nat \<Rightarrow> u8 list \<Rightarrow> dir_entry \<Rightarrow> nat list \<Rightarrow> bool" where
  "file_chain v len b e cs \<longleftrightarrow> length cs = clusters_for v (unat (file_size e)) \<and>
     (if cs = [] then start_cluster e = 0 else links v (fat_link FAT_TYPE_FAT12 b len) cs \<and> hd cs = unat (start_cluster e))"

lemma clusters_for_bounds:
  assumes "volume_ok v"
  shows "n \<le> clusters_for v n * bpc_of v" "clusters_for v n * bpc_of v \<le> n + bpc_of v - 1" "clusters_for v n = 0 \<longleftrightarrow> n = 0"
    "m \<le> n \<Longrightarrow> clusters_for v m \<le> clusters_for v n" "n \<noteq> 0 \<Longrightarrow> (clusters_for v n - 1) * bpc_of v < n"
proof -
  have b: "0 < bpc_of v" using volume_ok_facts(2) [OF assms] by simp
  show 2: "clusters_for v n * bpc_of v \<le> n + bpc_of v - 1" unfolding clusters_for_def by (rule div_times_less_eq_dividend)
  have "n + bpc_of v - 1 < (n + bpc_of v - 1) div bpc_of v * bpc_of v + bpc_of v" using dividend_less_div_times [OF b] by (simp add: add.commute)
  then show 1: "n \<le> clusters_for v n * bpc_of v" unfolding clusters_for_def using b by linarith
  show 3: "clusters_for v n = 0 \<longleftrightarrow> n = 0" using b by (auto simp: clusters_for_def div_eq_0_iff)
  show "m \<le> n \<Longrightarrow> clusters_for v m \<le> clusters_for v n" unfolding clusters_for_def by (intro div_le_mono) simp
  show "n \<noteq> 0 \<Longrightarrow> (clusters_for v n - 1) * bpc_of v < n"
    using 2 3 b by (cases "clusters_for v n") (auto simp: algebra_simps)
qed

lemma file_data_zero:
  "(\<And>c. c \<in> set cs \<Longrightarrow> cluster_data v D c = replicate n 0) \<Longrightarrow> file_data v D cs = replicate (length cs * n) 0"
  by (induction cs) (simp_all add: file_data_def replicate_add)

lemma file_data_append: "file_data v D (xs @ ys) = file_data v D xs @ file_data v D ys"
  by (simp add: file_data_def)

lemma extend_stage:
  assumes H: "fs_holds v len s b D" and spf: "0 < sectors_per_fat (vol_bpb v)"
    and chain: "cs = [] \<or> links v (fat_link FAT_TYPE_FAT12 b len) cs"
    and tail: "tail = (if cs = [] then 0 else last cs)" and start: "start = (if cs = [] then 0 else hd cs)"
    and room: "left \<le> card (free_above v b tail)" "0 < left"
  obtains s' b' D' new where
    "(case extend_chain v len tail start 0 tail left s of
        (s3, Inl rc) \<Rightarrow> (s3, Inl rc)
      | (s3, Inr new_start) \<Rightarrow> (case fs_flush v len s3 of (s4, Inl rc) \<Rightarrow> (s4, Inl rc) | (s4, Inr _) \<Rightarrow> (s4, Inr new_start))) =
       (s', Inr (hd (cs @ new)))"
    "fs_holds v len s' b' D'" "length new = left" "links v (fat_link FAT_TYPE_FAT12 b' len) (cs @ new)"
    "set new \<subseteq> free_above v b tail" "\<And>c. c \<notin> set new \<Longrightarrow> c \<noteq> tail \<Longrightarrow> entry b' c = entry b c"
    "file_data v D' (cs @ new) = file_data v D cs @ replicate (left * bpc_of v) 0"
    "\<And>ds. \<forall>c\<in>set ds. fat12_cluster_in_range v c \<Longrightarrow> set ds \<inter> set new = {} \<Longrightarrow> file_data v D' ds = file_data v D ds"
    "\<And>p n. root_dir_sector v * 512 \<le> p \<Longrightarrow> p + n \<le> first_data_sector v * 512 \<Longrightarrow> window D' p n = window D p n"
    "\<And>i. i < num_fats (vol_bpb v) \<Longrightarrow> window D' (fat_copy_at v i) (sectors_per_fat (vol_bpb v) * 512) = take (sectors_per_fat (vol_bpb v) * 512) b'"
proof -
  have ok: "volume_ok v" using H by (simp add: fs_holds_def)
  have rng: "\<forall>c\<in>set cs. fat12_cluster_in_range v c" using chain links_in_range [of v _ cs] by auto
  have t: "tail = 0 \<or> fat12_cluster_in_range v tail" using tail rng by auto
  obtain s1 b1 D1 new where e:
    "extend_chain v len tail start 0 tail left s = (s1, Inr (if tail = 0 \<and> new \<noteq> [] then hd new else start))"
    "fs_holds v len s1 b1 D1" "length new = left" "set new \<subseteq> free_above v b tail"
    "new \<noteq> [] \<longrightarrow> links v (fat_link FAT_TYPE_FAT12 b1 len) new \<and> (tail \<noteq> 0 \<longrightarrow> entry b1 tail = hd new)"
    "\<forall>c. c \<notin> set new \<and> (c \<noteq> tail \<or> new = []) \<longrightarrow> entry b1 c = entry b c"
    "\<forall>c\<in>set new. cluster_data v D1 c = replicate (bpc_of v) 0" "same_outside v (set new) D D1"
    using extend_ok [OF H t room(1), of tail start 0] by blast
  have new: "new \<noteq> []" "\<forall>c\<in>set new. fat12_cluster_in_range v c" using e(3,4) room(2) by (auto simp: free_above_def)
  obtain m D2 where f: "fs_flush v len s1 = (s1\<lparr>fs_med := m\<rparr>, Inr ())" "fs_holds v len (s1\<lparr>fs_med := m\<rparr>) b1 D2"
    "\<And>i. i < num_fats (vol_bpb v) \<Longrightarrow> window D2 (fat_copy_at v i) (sectors_per_fat (vol_bpb v) * 512) = take (sectors_per_fat (vol_bpb v) * 512) b1"
    "\<And>p n. root_dir_sector v * 512 \<le> p \<Longrightarrow> window D2 p n = window D1 p n"
    using holds_flush [OF e(2) spf] by blast
  have low: "root_dir_sector v * 512 \<le> cluster_at v c" if "fat12_cluster_in_range v c" for c
    using cluster_lba_eq(1) [OF ok that] ok unfolding volume_ok_def by auto
  have D2: "file_data v D2 ds = file_data v D1 ds" if "\<forall>c\<in>set ds. fat12_cluster_in_range v c" for ds
  proof -
    have "cluster_data v D2 c = cluster_data v D1 c" if "c \<in> set ds" for c
      unfolding cluster_data_def using low f(4) that \<open>\<forall>c\<in>set ds. _\<close> by simp
    then show ?thesis by (simp add: file_data_def cong: map_cong)
  qed
  have cs_new: "set cs \<inter> set new = {}"
  proof (cases "cs = []")
    case False
    then have "entry b c \<noteq> 0" if "c \<in> set cs" for c using links_entry_nonzero [OF H _ that] chain by blast
    moreover have "entry b c = 0" if "c \<in> set new" for c using that e(4) by (auto simp: free_above_def)
    ultimately show ?thesis by blast
  qed simp
  have frame: "file_data v D2 ds = file_data v D ds" if "\<forall>c\<in>set ds. fat12_cluster_in_range v c" "set ds \<inter> set new = {}" for ds
    using D2 [OF that(1)] file_data_same [OF ok e(8) that(1) new(2) that(2)] by simp
  have linked: "links v (fat_link FAT_TYPE_FAT12 b1 len) (cs @ new)"
  proof (cases "cs = []")
    case False
    have "distinct cs" using chain False links_distinct by blast
    then have "distinct (butlast cs @ [last cs])" using False by simp
    then have bl: "last cs \<notin> set (butlast cs)" by simp
    have keep: "entry b1 c = entry b c" if "c \<in> set (butlast cs)" for c
    proof -
      have "c \<in> set cs" "c \<noteq> tail" using that bl tail False by (auto dest: in_set_butlastD)
      then show ?thesis using e(6) cs_new by blast
    qed
    have "2 \<le> last cs" using rng False by (auto simp: fat12_cluster_in_range_def)
    then have "entry b1 (last cs) = hd new" using e(5) new(1) tail False by simp
    with chain False keep e(5) new(1) show ?thesis by (intro links_append [OF e(2), of b]) auto
  qed (use e(5) new(1) in simp)
  have zero: "file_data v D2 new = replicate (left * bpc_of v) 0"
    using D2 [OF new(2)] file_data_zero [of new v D1 "bpc_of v"] e(7,3) by simp
  show thesis
  proof (rule that [of "s1\<lparr>fs_med := m\<rparr>" new b1 D2])
    show "(case extend_chain v len tail start 0 tail left s of
        (s3, Inl rc) \<Rightarrow> (s3, Inl rc)
      | (s3, Inr new_start) \<Rightarrow> (case fs_flush v len s3 of (s4, Inl rc) \<Rightarrow> (s4, Inl rc) | (s4, Inr _) \<Rightarrow> (s4, Inr new_start))) =
       (s1\<lparr>fs_med := m\<rparr>, Inr (hd (cs @ new)))"
    proof (cases "cs = []")
      case True
      then show ?thesis using e(1) f(1) new(1) tail by simp
    next
      case False
      then have "2 \<le> tail" using rng tail by (auto simp: fat12_cluster_in_range_def)
      then show ?thesis using e(1) f(1) start False by simp
    qed
    show "file_data v D2 (cs @ new) = file_data v D cs @ replicate (left * bpc_of v) 0"
      using frame [OF rng cs_new] zero by (simp add: file_data_append)
    show "window D2 p n = window D p n" if p: "root_dir_sector v * 512 \<le> p" "p + n \<le> first_data_sector v * 512" for p n
    proof -
      have "p + n \<le> cluster_at v c" if "c \<in> set new" for c using entry_outside_clusters [OF ok _ p(2)] new(2) that by blast
      then have "window D1 p n = window D p n" using e(8) by (simp add: same_outside_def)
      then show ?thesis using f(4) [OF p(1)] by simp
    qed
    show "entry b1 c = entry b c" if "c \<notin> set new" "c \<noteq> tail" for c using e(6) that by blast
  qed (fact e(3,4) f(2,3) linked frame)+
qed

end
