(* ===== verification/FatWritten.thy ===== *)
theory FatWritten imports FatPut begin

text \<open>
  The result of a positioned write: \<open>overwrite\<close> is the content a file should have, and the lemmas follow the stages of the write towards
  it; \<open>FatWriteProps\<close> puts them together.
\<close>

section \<open>The content after a write\<close>

text \<open>Zeros fill the gap when the position lies behind the end.\<close>

definition overwrite :: "u8 list \<Rightarrow> nat \<Rightarrow> u8 list \<Rightarrow> u8 list" where
  "overwrite old off data = (let base = old @ replicate (off - length old) 0 in take off base @ data @ drop (off + length data) base)"

lemma length_overwrite: "length (overwrite old off data) = max (length old) (off + length data)"
  by (simp add: overwrite_def Let_def)

lemma nth_overwrite:
  "i < max (length old) (off + length data) \<Longrightarrow>
   overwrite old off data ! i = (if off \<le> i \<and> i < off + length data then data ! (i - off) else if i < length old then old ! i else 0)"
  by (auto simp: overwrite_def Let_def nth_append min_def not_less)

lemma written_bytes:
  assumes "off + length data \<le> length F" "old \<le> length F" "length F0 = length F"
    and "\<And>i. i < old \<Longrightarrow> F ! i = F0 ! i" "\<And>i. old \<le> i \<Longrightarrow> i < off \<Longrightarrow> F ! i = 0"
  shows "take (max old (off + length data)) (splice F off data) = overwrite (take old F0) off data"
proof (rule nth_equalityI)
  show l: "length (take (max old (off + length data)) (splice F off data)) = length (overwrite (take old F0) off data)"
    using assms(1-3) by (simp add: length_overwrite)
  fix i assume "i < length (take (max old (off + length data)) (splice F off data))"
  then have i: "i < max old (off + length data)" "i < length F" using assms(1,2) by simp_all
  have m: "length (take old F0) = old" using assms(2,3) by simp
  show "take (max old (off + length data)) (splice F off data) ! i = overwrite (take old F0) off data ! i"
    using i nth_overwrite [of i "take old F0" off data, unfolded m, OF i(1)] nth_splice [OF assms(1) i(2)] assms(4,5) by auto
qed

section \<open>The data stage\<close>

lemma length_file_data_range:
  assumes "fs_holds v len s b D" "\<forall>c\<in>set cs. fat12_cluster_in_range v c"
  shows "length (file_data v D cs) = length cs * bpc_of v"
proof -
  have "\<forall>c\<in>set cs. length (cluster_data v D c) = bpc_of v"
    using assms length_cluster_data(1) [of v "fs_med s" D] by (auto simp: fs_holds_def)
  then show ?thesis by (induction cs) (auto simp: file_data_def)
qed

lemma splice_middle:
  "off + length x \<le> length B \<Longrightarrow> splice (A @ B @ C) (length A + off) x = A @ splice B off x @ C"
  by (simp add: splice_def)

lemma patch_nth:
  assumes H: "fs_holds v len s b D" and L: "links v (fat_link FAT_TYPE_FAT12 b len) cs" "k < length cs" and n: "off + n \<le> bpc_of v"
  obtains m D' where "cluster_splice v (fs_med s) (cluster_lba v (cs ! k)) off None n = (m, Inr ())"
    "fs_holds v len (s\<lparr>fs_med := m\<rparr>) b D'" "same_outside v (set cs) D D'"
    "file_data v D' cs = splice (file_data v D cs) (k * bpc_of v + off) (replicate n 0)"
proof -
  have ok: "volume_ok v" "backs v (fs_med s) D" using H by (simp_all add: fs_holds_def)
  have rng: "\<forall>c\<in>set cs. fat12_cluster_in_range v c" using links_in_range [OF L(1)] by blast
  then have c: "fat12_cluster_in_range v (cs ! k)" using L(2) by simp
  obtain m where m: "cluster_splice v (fs_med s) (cluster_lba v (cs ! k)) off None n = (m, Inr ())"
    "fs_holds v len (s\<lparr>fs_med := m\<rparr>) b (splice D (cluster_at v (cs ! k) + off) (patch_bytes None n))"
    "same_outside v {cs ! k} D (splice D (cluster_at v (cs ! k) + off) (patch_bytes None n))"
    "cluster_data v (splice D (cluster_at v (cs ! k) + off) (patch_bytes None n)) (cs ! k) =
       splice (cluster_data v D (cs ! k)) off (patch_bytes None n)"
    using holds_patch [OF H c n, of None] by blast
  define D1 where "D1 = splice D (cluster_at v (cs ! k) + off) (patch_bytes None n)"
  have cs: "cs = take k cs @ cs ! k # drop (Suc k) cs" using id_take_nth_drop [OF L(2)] .
  have dist: "distinct (take k cs @ cs ! k # drop (Suc k) cs)" using links_distinct [OF L(1)] cs by simp
  have sub: "set (take k cs) \<subseteq> set cs" "set (drop (Suc k) cs) \<subseteq> set cs" by (auto dest: in_set_takeD in_set_dropD)
  have same: "file_data v D1 ds = file_data v D ds" if "set ds \<subseteq> set cs" "cs ! k \<notin> set ds" for ds
    using file_data_same [OF ok(1) m(3) _ _ , of ds] rng c that by (auto simp: D1_def)
  have F: "file_data v X cs = file_data v X (take k cs) @ cluster_data v X (cs ! k) @ file_data v X (drop (Suc k) cs)" for X
    by (subst cs) (simp add: file_data_def)
  have la: "length (file_data v D (take k cs)) = k * bpc_of v"
    using length_file_data_range [OF H, of "take k cs"] rng sub L(2) by auto
  have "file_data v D1 cs = file_data v D (take k cs) @ splice (cluster_data v D (cs ! k)) off (replicate n 0) @ file_data v D (drop (Suc k) cs)"
    unfolding F [of D1] using same [OF sub(1)] same [OF sub(2)] dist m(4) by (simp add: D1_def patch_bytes_def)
  also have "\<dots> = splice (file_data v D cs) (k * bpc_of v + off) (replicate n 0)"
    unfolding F [of D] la [symmetric] using length_cluster_data(1) [OF ok c] n by (subst splice_middle) simp_all
  finally show thesis
    using that m(1,2) same_outside_mono [OF m(3), of "set cs"] L(2) by (auto simp: D1_def)
qed

text \<open>The bytes before the data goes in: the gap inside the last cluster zeroed.\<close>

definition gap_closed :: "nat \<Rightarrow> u8 list \<Rightarrow> nat \<Rightarrow> nat \<Rightarrow> u8 list" where
  "gap_closed bpc F old off = (if off > old \<and> old mod bpc \<noteq> 0
     then splice F old (replicate (if bpc - old mod bpc > off - old then off - old else bpc - old mod bpc) 0) else F)"

lemma data_stage:
  assumes H: "fs_holds v len s b D" and L: "links v (fat_link FAT_TYPE_FAT12 b len) cs" and bpc: "bpc = bpc_of v"
    and fit: "off + length data \<le> length cs * bpc" "old \<le> length cs * bpc" "data \<noteq> []"
    and tail: "old mod bpc \<noteq> 0 \<Longrightarrow> tail = cs ! (old div bpc)" and slot: "slot div 16 < root_dir_sectors v"
  obtains m D' where "write_data v len bpc 0 slot tail (hd cs) old new_size off data s = (s\<lparr>fs_med := m\<rparr>, Inr ())"
    "fs_holds v len (s\<lparr>fs_med := m\<rparr>) b D'"
    "parse_dirent D' (entry_at v slot) = (parse_dirent D (entry_at v slot))\<lparr>start_cluster := of_nat (hd cs), file_size := of_nat new_size\<rparr>"
    "file_data v D' cs = splice (gap_closed bpc (file_data v D cs) old off) off data"
    "\<And>ds. \<forall>c\<in>set ds. fat12_cluster_in_range v c \<Longrightarrow> set ds \<inter> set cs = {} \<Longrightarrow> file_data v D' ds = file_data v D ds"
    "\<And>p n. p + n \<le> first_data_sector v * 512 \<Longrightarrow> p + n \<le> entry_at v slot \<or> entry_at v slot + 32 \<le> p \<Longrightarrow> window D' p n = window D p n"
proof -
  have ok: "volume_ok v" using H by (simp add: fs_holds_def)
  have b0: "0 < bpc" using volume_ok_facts(2) [OF ok] bpc by simp
  have rng: "\<forall>c\<in>set cs. fat12_cluster_in_range v c" using links_in_range [OF L] by blast
  define count where "count = (if bpc - old mod bpc > off - old then off - old else bpc - old mod bpc)"
  obtain m1 D1 where g: "(if off > old \<and> old mod bpc \<noteq> 0 then cluster_splice v (fs_med s) (cluster_lba v tail) (old mod bpc) None count
      else (fs_med s, Inr ())) = (m1, Inr ())" "fs_holds v len (s\<lparr>fs_med := m1\<rparr>) b D1" "same_outside v (set cs) D D1"
    "file_data v D1 cs = gap_closed bpc (file_data v D cs) old off"
  proof (cases "off > old \<and> old mod bpc \<noteq> 0")
    case True
    have "old div bpc * bpc + old mod bpc = old" by (rule div_mult_mod_eq)
    moreover from this True fit(2) have "old div bpc * bpc < length cs * bpc" by linarith
    then have k: "old div bpc < length cs" by (meson mult_less_cancel2)
    have "old mod bpc < bpc" using b0 by simp
    then have n: "old mod bpc + count \<le> bpc_of v" by (auto simp: count_def bpc)
    obtain m D' where "cluster_splice v (fs_med s) (cluster_lba v (cs ! (old div bpc))) (old mod bpc) None count = (m, Inr ())"
      "fs_holds v len (s\<lparr>fs_med := m\<rparr>) b D'" "same_outside v (set cs) D D'"
      "file_data v D' cs = splice (file_data v D cs) (old div bpc * bpc_of v + old mod bpc) (replicate count 0)"
      using patch_nth [OF H L k n] by blast
    ultimately show ?thesis using True tail that [of m D'] by (simp add: gap_closed_def count_def flip: bpc)
  next
    case False
    with H that [of "fs_med s" D] show ?thesis by (auto simp: gap_closed_def)
  qed
  define k p where "k = off div bpc" and "p = off mod bpc"
  have off: "off = k * bpc + p" "p < bpc" using b0 by (simp_all add: k_def p_def)
  have "0 < length data" using fit(3) by simp
  then have "k * bpc < length cs * bpc" using fit(1) off(1) by linarith
  then have k: "k < length cs" by (meson mult_less_cancel2)
  have steps: "length cs \<le> wrap32 (total_clusters v + 2)" "total_clusters v < FAT16_MAX_CLUSTERS"
    using links_bound [OF L] volume_ok_facts(3,4) [OF ok] by simp_all
  have k16: "off div bpc mod 0x10000 = k" using k steps links_bound [OF L] by (simp add: k_def)
  have fol: "follow_links v len k (hd cs) (wrap32 (total_clusters v + 2)) (s\<lparr>fs_med := m1\<rparr>) = (s\<lparr>fs_med := m1\<rparr>, Inr (cs ! k, wrap32 (total_clusters v + 2) - k))"
    using follow_to [OF g(2) L k] k steps(1) by simp
  have dk: "drop k cs = cs ! k # drop (Suc k) cs" using Cons_nth_drop_Suc [OF k] by simp
  have Lk: "links v (fat_link FAT_TYPE_FAT12 b len) (cs ! k # drop (Suc k) cs)" using links_drop [OF L k] dk by simp
  have "(length cs - k) * bpc = length cs * bpc - k * bpc" by (simp add: diff_mult_distrib)
  then have room: "p + length data \<le> length (cs ! k # drop (Suc k) cs) * bpc_of v" using fit(1) off(1) k by (simp add: Suc_diff_Suc flip: bpc)
  have left: "length (drop (Suc k) cs) \<le> wrap32 (total_clusters v + 2) - k" using steps(1) k by simp
  from splice_chain [OF g(2) Lk off(2) [unfolded bpc] room left] obtain m2 D2 where
    w: "splice_clusters v len (bpc_of v) (cs ! k) p data (wrap32 (total_clusters v + 2) - k) (s\<lparr>fs_med := m1\<rparr>) = (s\<lparr>fs_med := m2\<rparr>, Inr ())"
    "fs_holds v len (s\<lparr>fs_med := m2\<rparr>) b D2" "same_outside v (set (drop k cs)) D1 D2"
    "file_data v D2 (drop k cs) = splice (file_data v D1 (drop k cs)) p data" by (auto simp: dk)
  have rk: "\<forall>c\<in>set (drop k cs). fat12_cluster_in_range v c" "\<forall>c\<in>set (take k cs). fat12_cluster_in_range v c"
    using rng by (auto dest: in_set_takeD in_set_dropD)
  have "set (take k cs) \<inter> set (drop k cs) = {}" using links_distinct [OF L] by (rule set_take_disj_set_drop_if_distinct) simp
  then have "file_data v D2 (take k cs) = file_data v D1 (take k cs)" by (rule file_data_same [OF ok w(3) rk(2,1)])
  moreover have F: "file_data v X cs = file_data v X (take k cs) @ file_data v X (drop k cs)" for X by (simp flip: file_data_append)
  moreover have "length (file_data v D1 (take k cs)) = k * bpc" using length_file_data_range [OF g(2) rk(2)] k by (simp add: bpc)
  moreover have "p + length data \<le> length (file_data v D1 (drop k cs))" using length_file_data_range [OF g(2) rk(1)] room by (simp add: dk)
  ultimately have F2: "file_data v D2 cs = splice (file_data v D1 cs) off data"
    using splice_middle [of p data "file_data v D1 (drop k cs)" "file_data v D1 (take k cs)" "[]"] w(4) off(1) by simp
  define e where "e = (parse_dirent D2 (entry_at v slot))\<lparr>start_cluster := of_nat (hd cs), file_size := of_nat new_size\<rparr>"
  have e: "dirent_ok e" using root_read(2) [OF w(2) slot] by (simp add: e_def dirent_ok_def)
  obtain m3 where x: "fat12_write_dirent_in_dir v len True 0 slot e (s\<lparr>fs_med := m2\<rparr>) = (s\<lparr>fs_med := m2, fs_med := m3\<rparr>, Inr ())"
    "fs_holds v len (s\<lparr>fs_med := m2, fs_med := m3\<rparr>) b (splice D2 (entry_at v slot) (dirent_bytes e))"
    using root_write [OF w(2) slot e] by blast
  note fr = write_entry_frame [OF w(2) slot e]
  have out: "same_outside v (set cs) D D2"
    using same_outside_mono [OF same_outside_trans [OF g(3) w(3)], of "set cs"] by (auto dest: in_set_dropD)
  have area: "window D2 q n = window D q n" if "q + n \<le> first_data_sector v * 512" for q n
  proof -
    have "q + n \<le> cluster_at v c" if "c \<in> set cs" for c
      using entry_outside_clusters [OF ok _ \<open>q + n \<le> _\<close>] rng that by blast
    then show ?thesis using out by (simp add: same_outside_def)
  qed
  have "parse_dirent D2 (entry_at v slot) = parse_dirent D (entry_at v slot)"
  proof -
    have l: "entry_at v slot + 32 \<le> length D" "length D2 = length D"
      using entry_place(3) [OF ok slot] length_disk [OF H] out by (simp_all add: same_outside_def)
    have "parse_dirent (window D2 (entry_at v slot) 32) 0 = parse_dirent (window D (entry_at v slot) 32) 0"
      using area [OF entry_place(3) [OF ok slot]] by simp
    then show ?thesis using parse_dirent_window [of 0 32 "entry_at v slot"] l by simp
  qed
  moreover have data: "file_data v (splice D2 (entry_at v slot) (dirent_bytes e)) ds = file_data v D2 ds"
    if "\<forall>c\<in>set ds. fat12_cluster_in_range v c" for ds
    using fr(2) that by (simp add: file_data_def cong: map_cong)
  moreover have "write_data v len bpc 0 slot tail (hd cs) old new_size off data s = (s\<lparr>fs_med := m3\<rparr>, Inr ())"
    unfolding write_data_def Let_def count_def [symmetric] k16
    using g(1) fol w(1) x(1) root_read(1) [OF w(2) slot] by (simp add: patch_entry_def e_def p_def bpc)
  ultimately show thesis
    using that [of m3 "splice D2 (entry_at v slot) (dirent_bytes e)"] x(2) fr(1,3) data rng F2 g(4) area out
      file_data_same [OF ok out _ rng] by (simp add: e_def)
qed

end
