(* ===== verification/FatNames.thy ===== *)
theory FatNames imports FatVolume begin

text \<open>
  8.3 names: what \<open>parse_name83\<close> stores for a typed name, what \<open>fat12_format_83\<close> reads back, and what the
  search of a directory sector makes of the stored entry.
\<close>

section \<open>Names\<close>

text \<open>A character that may stand in a created name.\<close>

definition name_char :: "u8 \<Rightarrow> bool" where
  "name_char c \<longleftrightarrow> \<not> bad_char c \<and> c \<noteq> 0x5C \<and> c \<noteq> 0x3A \<and> c \<noteq> 0x2E"

definition pad :: "nat \<Rightarrow> u8 list \<Rightarrow> u8 list" where
  "pad n xs = xs @ replicate (n - length xs) 0x20"

lemma name_char_not_space: "name_char c \<Longrightarrow> up_ascii c \<noteq> 0x20 \<and> up_ascii c \<noteq> 0x05 \<and> c \<noteq> 0 \<and> up_ascii c \<noteq> 0"
proof -
  assume c: "name_char c"
  then have "\<not> c < 0x21" by (simp add: name_char_def bad_char_def)
  then have n: "0x21 \<le> unat c" by (simp add: word_less_nat_alt)
  have "unat (up_ascii c) = (if 0x61 \<le> unat c \<and> unat c \<le> 0x7A then unat c - 0x20 else unat c)"
    by (simp add: up_ascii_def word_le_nat_alt unat_sub)
  then have "0x21 \<le> unat (up_ascii c)" using n by auto
  with n show ?thesis by auto
qed

lemma parse_field:
  "(\<And>c. c \<in> set cs \<Longrightarrow> name_char c) \<Longrightarrow> pos + length cs \<le> (if field = 0 then 8 else 3) \<Longrightarrow> length out = 11 \<Longrightarrow>
   parse_chars (cs @ rest) field pos out =
     parse_chars rest field (pos + length cs) (splice out ((if field = 0 then 0 else 8) + pos) (map up_ascii cs))"
proof (induction cs arbitrary: pos out)
  case (Cons c cs)
  have c: "\<not> bad_char c" "c \<noteq> 0x5C" "c \<noteq> 0x3A" "c \<noteq> 0x2E" using Cons.prems(1) [of c] by (simp_all add: name_char_def)
  let ?b = "(if field = 0 then 0 else 8) + pos"
  have "parse_chars ((c # cs) @ rest) field pos out = parse_chars (cs @ rest) field (pos + 1) (out[?b := up_ascii c])"
    using c Cons.prems(2) by (simp add: up_ascii_def Let_def)
  also have "\<dots> = parse_chars rest field (pos + 1 + length cs) (splice (out[?b := up_ascii c]) ((if field = 0 then 0 else 8) + (pos + 1)) (map up_ascii cs))"
    using Cons.prems by (intro Cons.IH) auto
  also have "splice (out[?b := up_ascii c]) ((if field = 0 then 0 else 8) + (pos + 1)) (map up_ascii cs) = splice out ?b (map up_ascii (c # cs))"
    using Cons.prems(2,3) by (intro nth_equalityI) (auto simp: nth_splice nth_list_update nth_Cons' split: if_splits)
  finally show ?case by simp
qed simp

lemma parse_name:
  assumes "base \<noteq> []" "length base \<le> 8" "length ext \<le> 3" "\<forall>c\<in>set base \<union> set ext. name_char c"
  shows "parse_name83 (base @ (if ext = [] then [] else 0x2E # ext)) = Inr (pad 8 (map up_ascii base) @ pad 3 (map up_ascii ext))"
proof -
  let ?sp = "replicate 11 0x20 :: u8 list"
  let ?one = "splice ?sp 0 (map up_ascii base)"
  have one: "parse_chars (base @ rest) 0 0 ?sp = parse_chars rest 0 (length base) ?one" for rest
    using parse_field [of base 0 0 ?sp rest] assms by auto
  have l: "length ?one = 11" using assms by (intro trans [OF length_splice]) auto
  have "parse_chars (0x2E # ext) 0 (length base) ?one = Inr (splice ?one 8 (map up_ascii ext))"
    using parse_field [of ext 0 1 ?one "[]"] assms l by (auto simp: bad_char_def)
  moreover have two: "splice ?one 8 (map up_ascii ext) = pad 8 (map up_ascii base) @ pad 3 (map up_ascii ext)"
    using assms l
    by (intro nth_equalityI) (auto simp: nth_splice nth_append pad_def nth_Cons' not_less)
  moreover have "?one = splice ?one 8 []" by simp
  ultimately have p: "parse_chars (base @ (if ext = [] then [] else 0x2E # ext)) 0 0 ?sp =
      Inr (pad 8 (map up_ascii base) @ pad 3 (map up_ascii ext))"
    using one [of "[]"] one [of "0x2E # ext"] by (cases "ext = []") (simp_all only: if_True if_False append_Nil2 parse_chars.simps(1) list.map, simp)
  have "(pad 8 (map up_ascii base) @ pad 3 (map up_ascii ext)) ! 0 = up_ascii (hd base)"
    using assms(1) by (cases base) (auto simp: pad_def)
  then show ?thesis using p name_char_not_space [of "hd base"] assms(1,4) by (simp add: parse_name83_def)
qed

lemma name_chars_pad:
  "\<forall>c\<in>set xs. c \<noteq> 0x20 \<Longrightarrow> (at_start \<and> xs \<noteq> [] \<Longrightarrow> hd xs \<noteq> 0x05) \<Longrightarrow> name_chars (xs @ replicate k 0x20) at_start = xs"
  by (induction xs arbitrary: at_start) (auto simp: gr0_conv_Suc intro: nat.exhaust [of k])

lemma ext_len_pad:
  "\<forall>c\<in>set xs. c \<noteq> 0x20 \<Longrightarrow> ext_len_from (xs @ replicate k 0x20) i len = (if xs = [] then len else i + length xs)"
proof (induction xs arbitrary: i len)
  case Nil
  have "ext_len_from (replicate k 0x20) i len = len" for i by (induction k arbitrary: i) auto
  then show ?case by simp
qed auto

lemma format_name:
  assumes "filename e = pad 8 (map up_ascii base)" "extension e = pad 3 (map up_ascii ext)"
    and "base \<noteq> []" "\<forall>c\<in>set base \<union> set ext. name_char c"
  shows "fat12_format_83 e = map up_ascii (base @ (if ext = [] then [] else 0x2E # ext))"
proof -
  have b: "\<forall>c\<in>set (map up_ascii base). c \<noteq> 0x20" "\<forall>c\<in>set (map up_ascii ext). c \<noteq> 0x20" "hd (map up_ascii base) \<noteq> 0x05"
    using name_char_not_space assms(3,4) by (auto simp: hd_map)
  have "name_chars (filename e) True = map up_ascii base"
    unfolding assms(1) pad_def using b by (intro name_chars_pad) auto
  moreover have "ext_len_from (extension e) 0 0 = length ext"
    unfolding assms(2) pad_def using ext_len_pad [OF b(2), of _ 0 0] by simp
  ultimately show ?thesis by (simp add: fat12_format_83_def assms(2) pad_def up_ascii_def [of "0x2E"])
qed

lemma up_ascii_idem [simp]: "up_ascii (up_ascii c) = up_ascii c"
proof -
  have u: "unat (up_ascii c) = (if 0x61 \<le> unat c \<and> unat c \<le> 0x7A then unat c - 0x20 else unat c)" for c
    by (simp add: up_ascii_def word_le_nat_alt unat_sub)
  show ?thesis unfolding word_unat_eq_iff u by presburger
qed

lemma name83_ieq_up: "\<forall>c\<in>set n. up_ascii c \<noteq> 0 \<Longrightarrow> name83_ieq (map up_ascii n) n"
proof (induction n)
  case Nil
  show ?case by (subst name83_ieq.simps) (simp add: up_ascii_def)
next
  case (Cons c n)
  then show ?case by (subst name83_ieq.simps) simp
qed

end
