(* ===== verification/FatProps.thy ===== *)
theory FatProps imports FatEdit FatNames begin

text \<open>
  The properties of the FAT reader and editor, each with a concrete instance.
\<close>

section \<open>A small volume\<close>

text \<open>Six sectors: boot, one FAT, one root sector, clusters 2 to 4; clusters 2 and 3 are a chain.\<close>

definition demo_volume :: "u8 list fat12_volume" where
  "demo_volume = \<lparr>dev = \<lparr>read_sectors = Some (\<lambda>m s n. Some (window m (s * 512) (n * 512))), write_sectors = None\<rparr>,
     base_lba = 0, total_sectors = 6, vol_bpb = \<lparr>bytes_per_sector = 512, sectors_per_cluster = 1, reserved_sectors = 1,
       num_fats = 1, root_entry_count = 16, total_sectors_16 = 6, sectors_per_fat = 1, hidden_sectors = 0, total_sectors_32 = 0\<rparr>,
     first_fat_sector = 1, root_dir_sector = 2, root_dir_sectors = 1, first_data_sector = 3, total_clusters = 3,
     vol_fat_type = FAT_TYPE_FAT12\<rparr>"

definition demo_boot :: "u8 list" where
  "demo_boot = [0xEB, 0x3C, 0x90] @ replicate 8 0 @ [0, 2, 1, 1, 0, 1, 16, 0, 6, 0, 0xF8, 1, 0] @ replicate 12 0 @ replicate 474 0 @ [0x55, 0xAA]"

definition demo_fat :: "u8 list" where
  "demo_fat = [0xF0, 0xFF, 0xFF, 0x03, 0xF0, 0xFF, 0x00] @ replicate 505 0"

definition demo_disk :: "u8 list" where
  "demo_disk = demo_boot @ demo_fat @ replicate 512 0 @ replicate 512 0x41 @ replicate 512 0x42 @ replicate 512 0"

definition demo_window :: fat12_fat_window where
  "demo_window = fat12_fat_window_init (Some (replicate 1024 0)) 1024"

definition demo_entry :: dir_entry where
  "demo_entry = \<lparr>filename = pad 8 [0x41], extension = pad 3 [], attribute = 0x20, de_reserved = replicate 10 0, mtime = 0, mdate = 0,
     start_cluster = 2, file_size = 600\<rparr>"

lemma demo_lengths: "length demo_boot = 512" "length demo_fat = 512" "length demo_disk = 3072"
  by (simp_all add: demo_boot_def demo_fat_def demo_disk_def)

lemma demo_ok: "volume_ok demo_volume"
  by (simp add: volume_ok_def demo_volume_def BPB_FIRST_DATA_SECTOR_def BPB_ROOT_DIR_SECTOR_def BPB_ROOT_DIR_SECTORS_def)

lemma demo_backs: "backs demo_volume demo_disk demo_disk"
  by (simp add: backs_def demo_lengths) (simp add: demo_volume_def fat12_read_sectors_def)

lemma demo_on_disk: "fat_on_disk demo_volume demo_disk demo_fat"
proof -
  have "window demo_disk 512 512 = demo_fat"
    by (simp add: window_def demo_disk_def demo_lengths)
  then have "fat12_read_sectors demo_volume demo_disk (1 + s) n = Inr (window demo_fat (s * 512) (n * 512))" if "s + n \<le> 1" "0 < n" for s n
  proof -
    have "s = 0" "n = 1" using that by auto
    then show ?thesis using \<open>window demo_disk 512 512 = demo_fat\<close>
      by (simp add: demo_volume_def fat12_read_sectors_def sector_range_def) (simp add: window_def demo_lengths)
  qed
  then show ?thesis by (simp add: fat_on_disk_def demo_lengths) (simp add: demo_volume_def)
qed

lemma demo_window_holds: "window_holds demo_window b"
  unfolding demo_window_def by (rule window_holds_init) simp_all

lemma demo_links: "links demo_volume (fat_link FAT_TYPE_FAT12 demo_fat 512) [2, 3]"
  by (simp add: demo_fat_def demo_volume_def fat_link_def fat_entry_def entry_off_def decode12_def entry_word_def chain_link_unusable_def
      fat12_cluster_in_range_def fat12_last_cluster_def chain_is_free_def chain_is_bad_def chain_is_eoc_def fat12_is_free_def
      fat12_is_bad_def fat12_is_eoc_def)

lemma demo_validates: "\<exists>win. fat12_validate_file_chain demo_volume demo_disk (Some demo_window) None 0 demo_entry = (win, Inr ())"
proof -
  have inv: "fat_on_disk demo_volume demo_disk demo_fat \<and> (\<exists>w. Some demo_window = Some w \<and> window_holds w demo_fat)"
    using demo_on_disk demo_window_holds by blast
  have l: "links demo_volume (fat_link (vol_fat_type demo_volume) demo_fat (length demo_fat)) (2 # [3])"
    using demo_links by (simp add: demo_volume_def demo_lengths)
  show ?thesis
    using windowed.chain_validates [OF inv l, of "0x0FF0" "Suc (Suc 0)" 0 3 None 0]
    by (auto simp: fat12_validate_file_chain_def demo_entry_def demo_volume_def Let_def)
qed

lemma demo_mounts: "mount_primary (Some (dev demo_volume)) demo_disk 0 = Inr demo_volume"
proof -
  have "window demo_disk 0 512 = demo_boot" by (simp add: window_def demo_disk_def demo_lengths)
  moreover have "rd_le16 demo_boot 510 = 0xAA55" "boot_bpb demo_boot"
    by (simp_all add: demo_boot_def rd_le16_def boot_bpb_def nth_append)
  moreover have "parse_bpb demo_boot = vol_bpb demo_volume"
    by (simp add: demo_boot_def demo_volume_def parse_bpb_def rd_le16_def rd_le32_def nth_append)
  moreover have "mount_bpb (dev demo_volume) (vol_bpb demo_volume) 0 0 = Inr demo_volume"
    by (simp add: mount_bpb_def demo_volume_def Let_def BPB_FAT1_SECTOR_def BPB_FIRST_DATA_SECTOR_def BPB_ROOT_DIR_SECTOR_def BPB_ROOT_DIR_SECTORS_def)
  moreover have "read_sectors (dev demo_volume) = Some (\<lambda>m s n. Some (window m (s * 512) (n * 512)))" by (simp add: demo_volume_def)
  ultimately show ?thesis by (simp add: mount_primary_def find_boot_def)
qed

section \<open>Entries and chains\<close>

text \<open>C19: FAT-entry round trip. \<open>fat12_set_entry\<close> succeeds exactly for a cluster whose entry lies in the FAT;
  then \<open>fat12_next_cluster\<close> reads the low twelve bits of the value back at that cluster and what it read
  before at every other cluster, although two neighbouring entries share a byte.\<close>

theorem fat_entry_round_trip:
  assumes "vol_fat_type vol = FAT_TYPE_FAT12" "len \<le> length b"
  shows "case fat12_set_entry (Some b) len c x of
      (fat', Inl rc) \<Rightarrow> rc = FAT12_ERR_CLUSTER \<and> fat' = Some b \<and> (c < 2 \<or> len \<le> c * 3 div 2 + 1)
    | (fat', Inr _) \<Rightarrow> 2 \<le> c \<and> c * 3 div 2 + 1 < len \<and>
        fat12_next_cluster vol m None fat' len c = (None, Inr (x mod 0x1000)) \<and>
        (\<forall>d. d \<noteq> c \<longrightarrow> fat12_next_cluster vol m None fat' len d = fat12_next_cluster vol m None (Some b) len d)"
proof (cases "c < 2 \<or> len \<le> entry_off FAT_TYPE_FAT12 c + 1")
  case True
  then show ?thesis by (auto simp: fat12_set_entry_def entry_off_def Let_def)
next
  case False
  then obtain b' where b': "fat12_set_entry (Some b) len c x = (Some b', Inr ())"
    using set_entry_ok [of c len b x] by auto
  show ?thesis
    using False set_entry_table(1,2) [OF b' assms(2)] assms(1) by (auto simp: b' next_whole entry_off_def)
qed

theorem fat_entry_round_trip_witness:
  "\<exists>b. fat12_set_entry (Some (replicate 9 0xFF)) 9 3 0x1234 = (Some b, Inr ()) \<and>
    fat12_next_cluster demo_volume [] None (Some b) 9 3 = (None, Inr 0x234) \<and>
    fat12_next_cluster demo_volume [] None (Some b) 9 2 = fat12_next_cluster demo_volume [] None (Some (replicate 9 0xFF)) 9 2"
proof -
  obtain b where "fat12_set_entry (Some (replicate 9 0xFF)) 9 3 0x1234 = (Some b, Inr ())"
    using set_entry_ok [of 3 9 "replicate 9 0xFF" "0x1234"] by (auto simp: entry_off_def)
  then show ?thesis
    using fat_entry_round_trip [where vol = demo_volume and len = 9 and b = "replicate 9 0xFF" and c = 3 and x = "0x1234" and m = "[]"]
    by (auto simp: demo_volume_def)
qed

text \<open>C17: the sector window reads the FAT. For a volume whose FAT sectors hold \<open>b\<close> and a window that is unloaded
  or holds some of its sectors, decoding an entry through the window gives the code and the value that
  decoding it in the whole FAT gives, also where the entry straddles two sectors, and the window still holds
  what the FAT holds.\<close>

theorem window_reads_fat:
  assumes "fat_on_disk vol m b" "window_holds w b"
  shows "\<exists>w'. window_holds w' b \<and>
    fat12_next_cluster vol m (Some w) fat len c = (Some w', snd (fat12_next_cluster vol m None (Some b) (length b) c))"
proof -
  obtain w' where w': "window_holds w' b"
    "fat12_next_cluster vol m (Some w) fat len c = (Some w', fat_link (vol_fat_type vol) b (length b) c)"
    using windowed.next_link [of vol m b "Some w" fat len c] assms by blast
  obtain r where "fat12_next_cluster vol m None (Some b) (length b) c = (r, fat_link (vol_fat_type vol) b (length b) c)"
    using whole.next_link [of None vol m b "length b" c] by blast
  with w' show ?thesis by auto
qed

theorem window_reads_fat_witness:
  "\<exists>w'. window_holds w' demo_fat \<and> fat12_next_cluster demo_volume demo_disk (Some demo_window) None 0 2 =
    (Some w', snd (fat12_next_cluster demo_volume demo_disk None (Some demo_fat) (length demo_fat) 2))"
  by (rule window_reads_fat [OF demo_on_disk demo_window_holds])

text \<open>C18: \<open>fat12_walk_chain\<close> is exact. It returns a list of clusters exactly when that list is the complete chain
  from the start: every cluster in range, neither free nor bad, each linked to the next and the last to an
  end mark, and no longer than the array. Such a chain never repeats a cluster, so on a cyclic or
  over-long chain the walk ends with an error.\<close>

theorem walk_chain_exact:
  "fat12_walk_chain vol m None (Some b) len start max_clusters = (None, Inr cs) \<longleftrightarrow>
     links vol (fat_link (vol_fat_type vol) b len) cs \<and> hd cs = start \<and> length cs \<le> max_clusters \<and> distinct cs \<and>
     length cs \<le> total_clusters vol"
proof
  assume "fat12_walk_chain vol m None (Some b) len start max_clusters = (None, Inr cs)"
  then have "walk_from vol m None (Some b) len start max_clusters = (None, Inr cs)"
    by (simp add: fat12_walk_chain_def split: if_splits)
  from whole.chain_walked [OF refl this] show
    "links vol (fat_link (vol_fat_type vol) b len) cs \<and> hd cs = start \<and> length cs \<le> max_clusters \<and> distinct cs \<and>
     length cs \<le> total_clusters vol"
    using links_distinct links_bound by blast
next
  assume a: "links vol (fat_link (vol_fat_type vol) b len) cs \<and> hd cs = start \<and> length cs \<le> max_clusters \<and> distinct cs \<and>
     length cs \<le> total_clusters vol"
  then obtain ds where cs: "cs = start # ds" by (cases cs) auto
  have "2 \<le> start" using a links_in_range [of vol "fat_link (vol_fat_type vol) b len" cs start] cs
    by (simp add: fat12_cluster_in_range_def)
  then show "fat12_walk_chain vol m None (Some b) len start max_clusters = (None, Inr cs)"
    using whole.walk_chain [of None vol b len start ds max_clusters m] a cs by (simp add: fat12_walk_chain_def)
qed

section \<open>Volumes and files\<close>

text \<open>C32: what a mount establishes. After a successful mount every cluster the range check admits occupies sectors
  behind the root directory and inside the partition, pairwise disjoint, and every access to them passes
  the range check of the sector I/O; the FAT type follows the cluster count.\<close>

theorem mount_geometry:
  assumes "mount_primary dv m primary = Inr v"
  shows "vol_fat_type v = (if total_clusters v < FAT12_MAX_CLUSTERS then FAT_TYPE_FAT12 else FAT_TYPE_FAT16) \<and>
    (\<forall>c. fat12_cluster_in_range v c \<longleftrightarrow> 2 \<le> c \<and> c < total_clusters v + 2) \<and>
    (\<forall>c k. fat12_cluster_in_range v c \<and> k < sectors_per_cluster (vol_bpb v) \<longrightarrow>
       first_data_sector v \<le> cluster_lba v c + k \<and> sector_range v (cluster_lba v c + k) 1) \<and>
    (\<forall>c d. fat12_cluster_in_range v c \<and> fat12_cluster_in_range v d \<and> c < d \<longrightarrow>
       cluster_lba v c + sectors_per_cluster (vol_bpb v) \<le> cluster_lba v d)"
proof -
  have ok: "volume_ok v" using mounted_ok [OF assms] by blast
  have "sector_range v (cluster_lba v c + k) 1" if "fat12_cluster_in_range v c" "k < sectors_per_cluster (vol_bpb v)" for c k
    using cluster_lba_eq(2) [OF ok that(1)] that(2) by (intro ok_sector_range [OF ok]) auto
  moreover have "vol_fat_type v = (if total_clusters v < FAT12_MAX_CLUSTERS then FAT_TYPE_FAT12 else FAT_TYPE_FAT16)"
    using ok by (cases "vol_fat_type v") (auto simp: volume_ok_def)
  ultimately show ?thesis
    using in_range_iff [OF ok] cluster_lba_eq(1) [OF ok] clusters_apart [OF ok] by simp
qed

theorem mount_geometry_witness:
  "cluster_lba demo_volume 2 + sectors_per_cluster (vol_bpb demo_volume) \<le> cluster_lba demo_volume 3 \<and>
    sector_range demo_volume (cluster_lba demo_volume 4 + 0) 1"
proof -
  have r: "fat12_cluster_in_range demo_volume 2" "fat12_cluster_in_range demo_volume 3" "fat12_cluster_in_range demo_volume 4"
    by (simp_all add: in_range_iff [OF demo_ok]) (simp_all add: demo_volume_def)
  have "0 < sectors_per_cluster (vol_bpb demo_volume)" by (simp add: demo_volume_def)
  moreover have "2 < (3::nat)" by simp
  ultimately show ?thesis using mount_geometry [OF demo_mounts] r by blast
qed

text \<open>C6: a validated file reads completely. When \<open>fat12_validate_file_chain\<close> accepts an entry, through the window, there
  is a chain from its start cluster of clusters that hold the file: \<open>fat12_read_file\<close> returns exactly the
  first \<open>file_size\<close> bytes of those clusters, and \<open>fat12_read_partial\<close> any slice of them, cut at the end of file.\<close>

theorem validated_file_reads:
  assumes "volume_ok v" "backs v m D" "fat_on_disk v m b" "window_holds w b"
    and "fat12_validate_file_chain v m (Some w) fat len e = (win1, Inr ())" "unat (file_size e) \<le> out"
  shows "\<exists>cs. (file_size e \<noteq> 0 \<longrightarrow> links v (fat_link (vol_fat_type v) b (length b)) cs \<and> hd cs = unat (start_cluster e)) \<and>
    unat (file_size e) \<le> length (file_data v D cs) \<and>
    snd (fat12_read_file v m win1 fat len e out) = Inr (take (unat (file_size e)) (file_data v D cs)) \<and>
    (\<forall>off n. snd (fat12_read_partial v m win1 fat len e off n) =
       Inr (take n (drop off (take (unat (file_size e)) (file_data v D cs)))))"
proof -
  let ?bpc = "sectors_per_cluster (vol_bpb v) * 512"
  have inv: "fat_on_disk v m b \<and> (\<exists>w'. Some w = Some w' \<and> window_holds w' b)" using assms(3,4) by blast
  from windowed.validated_file [OF inv assms(1,5)] obtain cs where
    inv1: "fat_on_disk v m b \<and> (\<exists>w. win1 = Some w \<and> window_holds w b)" and
    cs: "file_size e \<noteq> 0 \<longrightarrow> links v (fat_link (vol_fat_type v) b (length b)) cs \<and> hd cs = unat (start_cluster e)"
      "unat (file_size e) \<le> length cs * ?bpc" by blast
  have some: "fat \<noteq> None \<or> win1 \<noteq> None" using inv1 by blast
  have h: "file_size e \<noteq> 0 \<Longrightarrow> links v (fat_link (vol_fat_type v) b (length b)) cs \<and> hd cs = unat (start_cluster e)"
    using cs(1) by blast
  have "unat (file_size e) \<le> length (file_data v D cs)"
    using cs length_file_data [OF assms(1,2)] by (cases "file_size e = 0") auto
  moreover have "snd (fat12_read_file v m win1 fat len e out) = Inr (take (unat (file_size e)) (file_data v D cs))"
    using windowed.read_chain [OF assms(1,2) inv1 some h cs(2) assms(6), of len] by auto
  moreover have "snd (fat12_read_partial v m win1 fat len e off n) =
      Inr (take n (drop off (take (unat (file_size e)) (file_data v D cs))))" for off n
    using windowed.read_part [OF assms(1,2) inv1 some h cs(2), of len off n] by auto
  ultimately show ?thesis using cs(1) by blast
qed

theorem validated_file_reads_witness:
  "\<exists>win1 cs. fat12_validate_file_chain demo_volume demo_disk (Some demo_window) None 0 demo_entry = (win1, Inr ()) \<and>
    snd (fat12_read_file demo_volume demo_disk win1 None 0 demo_entry 600) = Inr (take 600 (file_data demo_volume demo_disk cs))"
proof -
  obtain win1 where v: "fat12_validate_file_chain demo_volume demo_disk (Some demo_window) None 0 demo_entry = (win1, Inr ())"
    using demo_validates by blast
  have "unat (file_size demo_entry) = 600" by (simp add: demo_entry_def)
  with validated_file_reads [OF demo_ok demo_backs demo_on_disk demo_window_holds v, of 600] v show ?thesis by auto
qed

text \<open>\<open>fat12_free_chain\<close> frees the chain and nothing else. On a complete chain it succeeds, and in the FAT after it
  the entries of the chain are 0 and every other entry is what it was.\<close>

theorem free_chain_exact:
  assumes "volume_ok vol" "vol_fat_type vol = FAT_TYPE_FAT12" "len \<le> length b"
    and "links vol (fat_link FAT_TYPE_FAT12 b len) (start # cs)"
  shows "\<exists>b'. fat12_free_chain vol m None (Some b) len start = (None, Some b', Inr ()) \<and>
    (\<forall>d. 2 \<le> d \<and> d * 3 div 2 + 1 < len \<longrightarrow> fat12_next_cluster vol m None (Some b') len d =
       (if d \<in> set (start # cs) then (None, Inr FAT12_FREE) else fat12_next_cluster vol m None (Some b) len d))"
proof -
  have "length cs \<le> wrap32 (total_clusters vol + 2)" "2 \<le> start"
    using links_bound [OF assms(4)] volume_ok_facts(4) [OF assms(1)] links_in_range [OF assms(4), of start]
    by (simp_all add: fat12_cluster_in_range_def)
  moreover from free_chain_frees [OF assms(2,4,3) this(1), of m] obtain b' where
    "free_chain_from vol m None (Some b) len start (wrap32 (total_clusters vol + 2)) = (None, Some b', Inr ())"
    "\<forall>d. fat_entry FAT_TYPE_FAT12 b' d = (if d \<in> set (start # cs) then 0 else fat_entry FAT_TYPE_FAT12 b d)"
    by blast
  ultimately have "fat12_free_chain vol m None (Some b) len start = (None, Some b', Inr ())"
    by (simp add: fat12_free_chain_def)
  then show ?thesis using assms(2) \<open>\<forall>d. _ = _\<close> by (intro exI [of _ b'] conjI) (auto simp: next_whole entry_off_def)
qed

theorem free_chain_exact_witness:
  "\<exists>b. fat12_free_chain demo_volume demo_disk None (Some demo_fat) 512 2 = (None, Some b, Inr ()) \<and>
    fat12_next_cluster demo_volume demo_disk None (Some b) 512 3 = (None, Inr 0) \<and>
    fat12_next_cluster demo_volume demo_disk None (Some b) 512 4 = fat12_next_cluster demo_volume demo_disk None (Some demo_fat) 512 4"
proof -
  have a: "vol_fat_type demo_volume = FAT_TYPE_FAT12" "512 \<le> length demo_fat" by (simp_all add: demo_volume_def demo_lengths)
  obtain b where b: "fat12_free_chain demo_volume demo_disk None (Some demo_fat) 512 2 = (None, Some b, Inr ())"
    "\<forall>d. 2 \<le> d \<and> d * 3 div 2 + 1 < 512 \<longrightarrow> fat12_next_cluster demo_volume demo_disk None (Some b) 512 d =
       (if d \<in> set [2, 3] then (None, Inr 0) else fat12_next_cluster demo_volume demo_disk None (Some demo_fat) 512 d)"
    using free_chain_exact [OF demo_ok a demo_links] by blast
  then show ?thesis by auto
qed

text \<open>\<open>fat12_find_free\<close> answers the lowest free cluster from the hint on, and 0 exactly when there is none.\<close>

theorem find_free_lowest:
  assumes "\<forall>c. fat12_cluster_in_range vol c \<longrightarrow> entry_off (vol_fat_type vol) c + 1 < len"
  shows "\<exists>r. fat12_find_free vol m None (Some b) len hint = (None, r) \<and>
    (\<forall>c. fat12_cluster_in_range vol c \<and> hint \<le> c \<and> (r = 0 \<or> c < r) \<longrightarrow>
       fat12_next_cluster vol m None (Some b) len c \<noteq> (None, Inr FAT12_FREE)) \<and>
    (r \<noteq> 0 \<longrightarrow> fat12_cluster_in_range vol r \<and> hint \<le> r \<and> fat12_next_cluster vol m None (Some b) len r = (None, Inr FAT12_FREE))"
proof -
  let ?from = "if hint < 2 then 2 else hint"
  have "\<forall>c. 2 \<le> c \<and> c \<le> fat12_last_cluster vol \<longrightarrow> entry_off (vol_fat_type vol) c + 1 < len"
    using assms by (simp add: fat12_cluster_in_range_def)
  moreover have "2 \<le> ?from" by simp
  ultimately obtain r where r:
    "fat12_find_free vol m None (Some b) len hint = (None, r)"
    "\<forall>c. ?from \<le> c \<and> c \<le> fat12_last_cluster vol \<and> (r = 0 \<or> c < r) \<longrightarrow> fat_entry (vol_fat_type vol) b c \<noteq> 0"
    "r \<noteq> 0 \<longrightarrow> ?from \<le> r \<and> r \<le> fat12_last_cluster vol \<and> fat_entry (vol_fat_type vol) b r = 0"
    unfolding fat12_find_free_def using find_free_least [of "fat12_last_cluster vol" vol len ?from m b] by blast
  have rng: "fat12_cluster_in_range vol c \<and> hint \<le> c \<longleftrightarrow> ?from \<le> c \<and> c \<le> fat12_last_cluster vol" for c
    by (auto simp: fat12_cluster_in_range_def)
  have nx: "fat12_next_cluster vol m None (Some b) len c = (None, Inr (fat_entry (vol_fat_type vol) b c))"
    if "fat12_cluster_in_range vol c" for c
    using assms that by (auto simp: next_whole fat12_cluster_in_range_def)
  have at: "fat12_cluster_in_range vol r \<and> hint \<le> r \<and> fat_entry (vol_fat_type vol) b r = 0" if "r \<noteq> 0"
    using r(3) rng [of r] that by blast
  have below: "fat_entry (vol_fat_type vol) b c \<noteq> 0"
    if "fat12_cluster_in_range vol c" "hint \<le> c" "r = 0 \<or> c < r" for c
    using r(2) rng [of c] that by blast
  show ?thesis
  proof (intro exI [of _ r] conjI allI impI r(1))
    fix c assume "fat12_cluster_in_range vol c \<and> hint \<le> c \<and> (r = 0 \<or> c < r)"
    then show "fat12_next_cluster vol m None (Some b) len c \<noteq> (None, Inr FAT12_FREE)" using nx [of c] below [of c] by simp
  next
    assume "r \<noteq> 0"
    with at nx [of r] show "fat12_cluster_in_range vol r" "hint \<le> r"
      "fat12_next_cluster vol m None (Some b) len r = (None, Inr FAT12_FREE)" by simp_all
  qed
qed

theorem find_free_lowest_witness:
  "\<exists>r. fat12_find_free demo_volume demo_disk None (Some demo_fat) 512 0 = (None, r) \<and> r \<noteq> 0 \<and>
    fat12_next_cluster demo_volume demo_disk None (Some demo_fat) 512 r = (None, Inr 0)"
proof -
  have rng: "fat12_cluster_in_range demo_volume c \<longleftrightarrow> 2 \<le> c \<and> c < 5" for c
    by (simp add: in_range_iff [OF demo_ok]) (simp add: demo_volume_def)
  then have "c * 3 div 2 \<le> 12 div 2 \<and> c \<le> 4" if "fat12_cluster_in_range demo_volume c" for c
    using that by (intro conjI div_le_mono) simp_all
  then have a: "\<forall>c. fat12_cluster_in_range demo_volume c \<longrightarrow> entry_off (vol_fat_type demo_volume) c + 1 < 512"
    by (fastforce simp: entry_off_def)
  have "fat_entry FAT_TYPE_FAT12 demo_fat 4 = 0"
    by (simp add: fat_entry_def entry_off_def decode12_def entry_word_def demo_fat_def)
  moreover have "vol_fat_type demo_volume = FAT_TYPE_FAT12" by (simp add: demo_volume_def)
  ultimately have four: "fat12_next_cluster demo_volume demo_disk None (Some demo_fat) 512 4 = (None, Inr 0)" "fat12_cluster_in_range demo_volume 4"
    unfolding next_whole by (simp_all add: entry_off_def rng)
  obtain r where r: "fat12_find_free demo_volume demo_disk None (Some demo_fat) 512 0 = (None, r)"
    "\<forall>c. fat12_cluster_in_range demo_volume c \<and> 0 \<le> c \<and> (r = 0 \<or> c < r) \<longrightarrow>
       fat12_next_cluster demo_volume demo_disk None (Some demo_fat) 512 c \<noteq> (None, Inr 0)"
    "r \<noteq> 0 \<longrightarrow> fat12_cluster_in_range demo_volume r \<and> 0 \<le> r \<and> fat12_next_cluster demo_volume demo_disk None (Some demo_fat) 512 r = (None, Inr 0)"
    using find_free_lowest [OF a, of demo_disk demo_fat 0] by (elim exE conjE) (rule that)
  have "r \<noteq> 0" using r(2) [rule_format, of 4] four by (cases "r = 0") simp_all
  then show ?thesis using r(1) r(3) by (intro exI [of _ r]) simp
qed

section \<open>Names\<close>

text \<open>a name round trip. A name of one to eight characters with an extension of none to three is stored padded and in
  upper case; \<open>fat12_format_83\<close> of an entry with those fields is the name in upper case, and the search compares
  it equal to the name as typed.\<close>

theorem name83_round_trip:
  assumes "base \<noteq> []" "length base \<le> 8" "length ext \<le> 3" "\<forall>c\<in>set base \<union> set ext. name_char c"
    and "name = base @ (if ext = [] then [] else 0x2E # ext)"
  shows "\<exists>out11. parse_name83 name = Inr out11 \<and> length out11 = 11 \<and>
    (\<forall>e. filename e = take 8 out11 \<and> extension e = drop 8 out11 \<longrightarrow>
       fat12_format_83 e = map up_ascii name \<and> name83_ieq (fat12_format_83 e) name)"
proof -
  have "up_ascii c \<noteq> 0" if "c \<in> set name" for c
    using that assms(4,5) name_char_not_space by (auto simp: up_ascii_def split: if_splits)
  then have "name83_ieq (map up_ascii name) name" by (intro name83_ieq_up) blast
  moreover have "fat12_format_83 e = map up_ascii name"
    if "filename e = pad 8 (map up_ascii base)" "extension e = pad 3 (map up_ascii ext)" for e
    using format_name [OF that assms(1,4)] assms(5) by simp
  ultimately show ?thesis
    using parse_name [OF assms(1-4)] assms(2,3,5) by (auto simp: pad_def)
qed

theorem name83_round_trip_witness:
  "\<exists>out11. parse_name83 [0x61, 0x31, 0x2E, 0x63] = Inr out11 \<and>
    fat12_format_83 (demo_entry\<lparr>filename := take 8 out11, extension := drop 8 out11\<rparr>) = [0x41, 0x31, 0x2E, 0x43]"
proof -
  have "\<exists>out11. parse_name83 [0x61, 0x31, 0x2E, 0x63] = Inr out11 \<and> length out11 = 11 \<and>
    (\<forall>e. filename e = take 8 out11 \<and> extension e = drop 8 out11 \<longrightarrow>
       fat12_format_83 e = map up_ascii [0x61, 0x31, 0x2E, 0x63] \<and> name83_ieq (fat12_format_83 e) [0x61, 0x31, 0x2E, 0x63])"
    by (rule name83_round_trip [of "[0x61, 0x31]" "[0x63]"]) (simp_all add: name_char_def bad_char_def)
  then obtain out11 where o: "parse_name83 [0x61, 0x31, 0x2E, 0x63] = Inr out11"
    "\<forall>e. filename e = take 8 out11 \<and> extension e = drop 8 out11 \<longrightarrow> fat12_format_83 e = map up_ascii [0x61, 0x31, 0x2E, 0x63]" by blast
  moreover have "map up_ascii [0x61, 0x31, 0x2E, 0x63] = [0x41, 0x31, 0x2E, 0x43]" by (simp add: up_ascii_def)
  ultimately show ?thesis by (intro exI [of _ out11] conjI) simp_all
qed

text \<open>C33: what the search makes of a created entry. At an entry with the stored fields of a name the search stops and
  answers that entry; but when the name begins with the byte E5 the search passes over it as deleted, since
  \<open>parse_name83\<close> stores that byte unaliased while \<open>fat12_format_83\<close> expects it stored as 05.\<close>

theorem created_name_search:
  assumes "base \<noteq> []" "length base \<le> 8" "length ext \<le> 3" "\<forall>c\<in>set base \<union> set ext. name_char c"
    and "name = base @ (if ext = [] then [] else 0x2E # ext)" "parse_name83 name = Inr out11"
    and "e = parse_dirent sec (i * 32)" "filename e = take 8 out11" "extension e = drop 8 out11" "attribute e \<noteq> FAT12_ATTR_LFN" "seen < count"
  shows "visit_sector count sec (fat12_find_cb name) (i # is) seen ctx =
    (if hd base = DIR_NAME_DELETED then visit_sector count sec (fat12_find_cb name) is (seen + 1) ctx else (Inr 1, Some e))"
proof -
  have out: "out11 = pad 8 (map up_ascii base) @ pad 3 (map up_ascii ext)"
    using parse_name [OF assms(1-4)] assms(5,6) by simp
  then have f: "filename e = pad 8 (map up_ascii base)" "extension e = pad 3 (map up_ascii ext)"
    using assms(2,3,8,9) by (auto simp: pad_def)
  have f0: "filename e ! 0 = up_ascii (hd base)" using assms(1) by (cases base) (auto simp: f pad_def)
  have n0: "up_ascii (hd base) \<noteq> 0" using name_char_not_space [of "hd base"] assms(1,4) by simp
  have e5: "up_ascii (hd base) = 0xE5 \<longleftrightarrow> hd base = 0xE5"
  proof -
    have "unat (up_ascii (hd base)) = (if 0x61 \<le> unat (hd base) \<and> unat (hd base) \<le> 0x7A then unat (hd base) - 0x20 else unat (hd base))"
      by (simp add: up_ascii_def word_le_nat_alt unat_sub)
    then show ?thesis unfolding word_unat_eq_iff by auto
  qed
  have "up_ascii c \<noteq> 0" if "c \<in> set name" for c
    using that assms(4,5) name_char_not_space by (auto simp: up_ascii_def split: if_splits)
  then have "name83_ieq (fat12_format_83 e) name"
    using format_name [OF f assms(1,4)] assms(5) name83_ieq_up [of name] by simp
  with f0 n0 e5 assms(7,10,11) show ?thesis by (auto simp: fat12_find_cb_def Let_def)
qed

text \<open>The byte E5 followed by \<open>A\<close>, created and searched for.\<close>

theorem created_name_search_witness:
  "\<exists>out11 sec e. parse_name83 [0xE5, 0x41] = Inr out11 \<and> e = parse_dirent sec 0 \<and> filename e = take 8 out11 \<and> extension e = drop 8 out11 \<and>
    visit_sector 16 sec (fat12_find_cb [0xE5, 0x41]) [0] 0 None = (Inl 1, None)"
proof -
  define out11 sec where d: "out11 = (pad 8 [0xE5, 0x41] @ pad 3 [])" "sec = out11 @ replicate 501 0"
  define e where "e = parse_dirent sec (0 * 32)"
  have p: "parse_name83 [0xE5, 0x41] = Inr out11"
    using parse_name [of "[0xE5, 0x41]" "[]"] by (simp add: name_char_def bad_char_def up_ascii_def d)
  have f: "filename e = take 8 out11" "extension e = drop 8 out11" "attribute e \<noteq> FAT12_ATTR_LFN"
    by (simp_all add: e_def parse_dirent_def d window_def nth_append pad_def)
  have "visit_sector 16 sec (fat12_find_cb [0xE5, 0x41]) [0] 0 None = (Inl 1, None)"
    using created_name_search [of "[0xE5, 0x41]" "[]" "[0xE5, 0x41]", OF _ _ _ _ _ p e_def f, of 0 16 "[]" None]
    by (simp add: name_char_def bad_char_def)
  with p f show ?thesis by (intro exI [of _ out11] exI [of _ sec] exI [of _ e]) (simp add: e_def)
qed

end
