(* ===== verification/FatWriteDemo.thy ===== *)
theory FatWriteDemo imports FatWritten FatProps begin

text \<open>
  The small volume of \<open>FatProps\<close> with a device that stores what is written, for the instances of the write properties.
\<close>

definition rw_volume :: "u8 list fat12_volume" where
  "rw_volume = demo_volume\<lparr>dev := (dev demo_volume)\<lparr>write_sectors := Some (\<lambda>m s n p. (splice m (s * 512) p, True))\<rparr>\<rparr>"

definition rw_fs :: "u8 list \<Rightarrow> u8 list \<Rightarrow> u8 list fs" where
  "rw_fs b D = \<lparr>fs_win = None, fs_fat = Some b, fs_med = D\<rparr>"

text \<open>A disk whose first root entry is \<open>e\<close>.\<close>

definition rw_disk :: "dir_entry \<Rightarrow> u8 list" where
  "rw_disk e = replicate 1024 0 @ dirent_bytes e @ replicate 2016 0x41"

lemma rw_ok: "volume_ok rw_volume"
  by (simp add: volume_ok_def rw_volume_def demo_volume_def BPB_FIRST_DATA_SECTOR_def BPB_ROOT_DIR_SECTOR_def BPB_ROOT_DIR_SECTORS_def)

lemma rw_fields:
  "vol_bpb rw_volume = vol_bpb demo_volume" "total_sectors rw_volume = 6" "root_dir_sector rw_volume = 2" "root_dir_sectors rw_volume = 1"
  "total_clusters rw_volume = 3" "vol_fat_type rw_volume = FAT_TYPE_FAT12" "sectors_per_fat (vol_bpb demo_volume) = 1"
  "sectors_per_cluster (vol_bpb demo_volume) = 1" "num_fats (vol_bpb demo_volume) = 1"
  by (simp_all add: rw_volume_def demo_volume_def)

lemma rw_range: "fat12_cluster_in_range rw_volume c \<longleftrightarrow> 2 \<le> c \<and> c < 5"
  by (simp add: in_range_iff [OF rw_ok] rw_fields)

lemma rw_read: "sector_range rw_volume s n \<Longrightarrow> fat12_read_sectors rw_volume m s n = Inr (window m (s * 512) (n * 512))"
  by (simp add: fat12_read_sectors_def) (simp add: rw_volume_def demo_volume_def)

lemma rw_sector_range: "sector_range rw_volume s n \<longleftrightarrow> s < 6 \<and> n \<le> 6 - s"
  by (auto simp: sector_range_def rw_fields) (auto simp: rw_volume_def demo_volume_def)

lemma rw_backs: "backs rw_volume m D \<longleftrightarrow> 3072 \<le> length m \<and> D = take 3072 m"
proof
  assume b: "backs rw_volume m D"
  then have "fat12_read_sectors rw_volume m 0 6 = Inr (window D 0 3072)" "length D = 3072"
    unfolding backs_def by (auto simp: rw_sector_range rw_fields)
  then show "3072 \<le> length m \<and> D = take 3072 m" by (auto simp: rw_read rw_sector_range window_def)
next
  assume D: "3072 \<le> length m \<and> D = take 3072 m"
  have "window m (s * 512) (n * 512) = window (take 3072 m) (s * 512) (n * 512)" if "sector_range rw_volume s n" for s n
  proof -
    have "s * 512 + n * 512 \<le> 3072" using that unfolding rw_sector_range by linarith
    then show ?thesis by (simp add: window_def drop_take)
  qed
  with D show "backs rw_volume m D" by (simp add: backs_def rw_read rw_fields)
qed

lemma take_splice_within: "i + length ys \<le> k \<Longrightarrow> k \<le> length xs \<Longrightarrow> take k (splice xs i ys) = splice (take k xs) i ys"
  by (rule nth_equalityI) (simp_all add: nth_splice)

lemma rw_writes: "writes_ok rw_volume"
proof -
  have "fat12_write_sectors rw_volume m s n p = (splice m (s * 512) p, True) \<and> backs rw_volume (splice m (s * 512) p) (splice D (s * 512) p)"
    if h: "backs rw_volume m D" "sector_range rw_volume s n" "length p = n * 512" for m D s n p
  proof
    show "fat12_write_sectors rw_volume m s n p = (splice m (s * 512) p, True)"
      using h(2) by (simp add: fat12_write_sectors_def) (simp add: rw_volume_def demo_volume_def)
    have D: "3072 \<le> length m" "D = take 3072 m" using h(1) by (simp_all add: rw_backs)
    moreover have "s * 512 + length p \<le> 3072" using h(2,3) unfolding rw_sector_range by linarith
    ultimately show "backs rw_volume (splice m (s * 512) p) (splice D (s * 512) p)"
      using D by (simp add: rw_backs take_splice_within)
  qed
  then show ?thesis unfolding writes_ok_def by (auto simp: rw_volume_def)
qed

lemma rw_holds: "length b = 512 \<Longrightarrow> length D = 3072 \<Longrightarrow> fs_holds rw_volume 512 (rw_fs b D) b D"
  using div_le_mono [of _ 12 2] by (auto simp: fs_holds_def rw_ok rw_writes rw_backs rw_fields rw_range rw_fs_def entry_off_def)

lemma rw_entry: "dirent_ok e \<Longrightarrow> parse_dirent (rw_disk e) (entry_at rw_volume 0) = e" "dirent_ok e \<Longrightarrow> length (rw_disk e) = 3072"
proof -
  assume e: "dirent_ok e"
  have l: "length (dirent_bytes e) = 32" by (rule length_dirent_bytes [OF e])
  then show L: "length (rw_disk e) = 3072" by (simp add: rw_disk_def)
  have "window (rw_disk e) 1024 32 = dirent_bytes e" using l by (simp add: rw_disk_def window_def)
  then show "parse_dirent (rw_disk e) (entry_at rw_volume 0) = e"
    using parse_dirent_window [of 0 32 1024 "rw_disk e"] L parse_dirent_bytes [OF e] by (simp add: entry_at_def rw_fields)
qed

lemma rw_free_above: "free_above rw_volume b p = {c \<in> {2, 3, 4}. p < c \<and> fat_entry FAT_TYPE_FAT12 b c = 0}"
  by (auto simp: free_above_def rw_range)

lemma demo_entries:
  "fat_entry FAT_TYPE_FAT12 demo_fat 2 = 3" "fat_entry FAT_TYPE_FAT12 demo_fat 3 = 0xFFF" "fat_entry FAT_TYPE_FAT12 demo_fat 4 = 0"
  by (simp_all add: fat_entry_def entry_off_def decode12_def entry_word_def demo_fat_def)

lemma demo_entry_ok: "dirent_ok demo_entry"
  by (simp add: dirent_ok_def demo_entry_def pad_def)

lemma rw_links: "links rw_volume (fat_link FAT_TYPE_FAT12 demo_fat 512) [2, 3]"
proof -
  have H: "fs_holds rw_volume 512 (rw_fs demo_fat (replicate 3072 0)) demo_fat (replicate 3072 0)" by (rule rw_holds) (simp_all add: demo_lengths)
  have "links rw_volume (fat_link FAT_TYPE_FAT12 demo_fat 512) [3]" using links_Cons [OF H, of 3 "[]"] by (simp add: rw_range demo_entries)
  then show ?thesis using links_Cons [OF H, of 2 "[3]"] by (simp add: rw_range demo_entries)
qed

end
