(* ===== verification/FatWriteProps.thy ===== *)
theory FatWriteProps imports FatWriteDemo begin

text \<open>
  Properties of the FAT write path: what a positioned write stores, that nothing else changes, and the extension that
  is refused although the volume has room.
\<close>

section \<open>Sizes\<close>

lemma total_bytes:
  assumes "volume_ok v"
  shows "total_clusters v * bpc_of v + bpc_of v \<le> 0x80000000"
proof -
  have "sectors_per_cluster (vol_bpb v) \<le> 64" using assms unfolding volume_ok_def by blast
  then have "(total_clusters v + 1) * (sectors_per_cluster (vol_bpb v) * 512) \<le> 65536 * (64 * 512)"
    using volume_ok_facts(3) [OF assms] by (intro mult_le_mono) simp_all
  then show ?thesis by simp
qed

lemma chain_facts:
  assumes "fs_holds v len s b D" "cs = [] \<or> links v (fat_link FAT_TYPE_FAT12 b len) cs"
  shows "distinct cs" "c \<in> set cs \<Longrightarrow> fat12_cluster_in_range v c" "c \<in> set cs \<Longrightarrow> entry b c \<noteq> 0"
proof -
  show "distinct cs" using assms(2) links_distinct by (elim disjE) (simp, blast)
  show "fat12_cluster_in_range v c" if "c \<in> set cs" using assms(2) links_in_range that by (elim disjE) (simp, blast)
  show "entry b c \<noteq> 0" if "c \<in> set cs" using assms links_entry_nonzero that by (elim disjE) (simp, blast)
qed

lemma room_le_total:
  assumes "fs_holds v len s b D" "cs = [] \<or> links v (fat_link FAT_TYPE_FAT12 b len) cs"
  shows "length cs + card (free_above v b p) \<le> total_clusters v"
proof -
  have ok: "volume_ok v" using assms(1) by (simp add: fs_holds_def)
  note d = chain_facts [OF assms]
  have "set cs \<union> free_above v b p \<subseteq> {2..<total_clusters v + 2}"
  proof
    fix c assume "c \<in> set cs \<union> free_above v b p"
    then have "fat12_cluster_in_range v c" using d(2) [of c] unfolding free_above_def by blast
    then show "c \<in> {2..<total_clusters v + 2}" by (simp only: in_range_iff [OF ok] atLeastLessThan_iff)
  qed
  then have "card (set cs \<union> free_above v b p) \<le> card {2..<total_clusters v + 2}" by (rule card_mono [OF finite_atLeastLessThan])
  moreover have "set cs \<inter> free_above v b p = {}" using d(3) unfolding free_above_def by blast
  then have "card (set cs \<union> free_above v b p) = card (set cs) + card (free_above v b p)" by (intro card_Un_disjoint) simp_all
  moreover have "card (set cs) = length cs" using d(1) by (rule distinct_card)
  ultimately show ?thesis by (simp only: card_atLeastLessThan diff_add_inverse2)
qed

lemma ceil_wrap: "x + bpc_of v - 1 < 0x100000000 \<Longrightarrow> wrap32 (x + bpc_of v - 1) div bpc_of v = clusters_for v x"
  by (simp add: clusters_for_def)

lemma ceil_exact: "0 < (n::nat) \<Longrightarrow> (q * n + (n - 1)) div n = q"
  by (subst div_mult_self3) simp_all

lemma ceil_round:
  assumes "0 < (n::nat)" "x mod n \<noteq> 0"
  shows "(x + n - 1) div n = Suc (x div n)"
proof -
  have "x = x div n * n + x mod n" by (rule div_mult_mod_eq [symmetric])
  then have "x + n - 1 = Suc (x div n) * n + (x mod n - 1)" using assms(2) unfolding mult_Suc by linarith
  moreover have "x mod n - 1 < n" using mod_less_divisor [OF assms(1), of x] by linarith
  ultimately show ?thesis using assms(1) by (simp only: div_mult_self3 less_not_refl2 div_less add_0_right not_gr_zero not_False_eq_True)
qed

lemma clusters_for_round: "volume_ok v \<Longrightarrow> x mod bpc_of v \<noteq> 0 \<Longrightarrow> clusters_for v x = Suc (x div bpc_of v)"
  unfolding clusters_for_def by (rule ceil_round) (simp_all add: volume_ok_facts(2))

lemma parse_same:
  assumes "fs_holds v len s b D" "fs_holds v len s' b' D'" "slot div 16 < root_dir_sectors v"
    and "window D' (entry_at v slot) 32 = window D (entry_at v slot) 32"
  shows "parse_dirent D' (entry_at v slot) = parse_dirent D (entry_at v slot)"
proof -
  have ok: "volume_ok v" using assms(1) by (simp add: fs_holds_def)
  have l: "entry_at v slot + 32 \<le> length D" "entry_at v slot + 32 \<le> length D'"
    using entry_place(3) [OF ok assms(3)] length_disk [OF assms(1)] length_disk [OF assms(2)] by simp_all
  show ?thesis
    using parse_dirent_window [of 0 32 "entry_at v slot" D] parse_dirent_window [of 0 32 "entry_at v slot" D'] l assms(4) by simp
qed

text \<open>Copy \<open>i\<close> of the FAT on disk is the FAT in memory.\<close>

definition fat_copied :: "'m fat12_volume \<Rightarrow> u8 list \<Rightarrow> u8 list \<Rightarrow> nat \<Rightarrow> bool" where
  "fat_copied v D b i \<longleftrightarrow> window D (fat_copy_at v i) (sectors_per_fat (vol_bpb v) * 512) = take (sectors_per_fat (vol_bpb v) * 512) b"

lemma fat_copy_below:
  assumes "volume_ok v" "i < num_fats (vol_bpb v)"
  shows "fat_copy_at v i + sectors_per_fat (vol_bpb v) * 512 \<le> root_dir_sector v * 512"
proof -
  have "(i + 1) * sectors_per_fat (vol_bpb v) \<le> num_fats (vol_bpb v) * sectors_per_fat (vol_bpb v)" using assms(2) by (intro mult_le_mono1) simp
  moreover have "first_fat_sector v + num_fats (vol_bpb v) * sectors_per_fat (vol_bpb v) = root_dir_sector v"
    using assms(1) unfolding volume_ok_def by blast
  ultimately show ?thesis by (simp add: fat_copy_at_def)
qed

section \<open>A positioned write\<close>

text \<open>The extension of a write, when it needs one.\<close>

lemma grow_stage:
  assumes H: "fs_holds v len s b D" and spf: "0 < sectors_per_fat (vol_bpb v)"
    and chain: "cs = [] \<or> links v (fat_link FAT_TYPE_FAT12 b len) cs"
    and tail: "tail = (if cs = [] then 0 else last cs)" and start: "start = (if cs = [] then 0 else hd cs)"
    and need: "length cs \<le> need" "0 < need" "need \<le> length cs + card (free_above v b tail)"
  obtains s' b' D' new where
    "(if need > length cs then
       (case extend_chain v len tail start 0 tail (need - length cs) s of
          (s3, Inl rc) \<Rightarrow> (s3, Inl rc)
        | (s3, Inr new_start) \<Rightarrow> (case fs_flush v len s3 of (s4, Inl rc) \<Rightarrow> (s4, Inl rc) | (s4, Inr _) \<Rightarrow> (s4, Inr new_start)))
      else (s, Inr start)) = (s', Inr (hd (cs @ new)))"
    "fs_holds v len s' b' D'" "length (cs @ new) = need" "links v (fat_link FAT_TYPE_FAT12 b' len) (cs @ new)"
    "set new \<subseteq> free_above v b tail" "\<And>c. c \<notin> set new \<Longrightarrow> c \<noteq> tail \<Longrightarrow> entry b' c = entry b c"
    "file_data v D' (cs @ new) = file_data v D cs @ replicate (length new * bpc_of v) 0"
    "\<And>ds. \<forall>c\<in>set ds. fat12_cluster_in_range v c \<Longrightarrow> set ds \<inter> set new = {} \<Longrightarrow> file_data v D' ds = file_data v D ds"
    "\<And>p n. root_dir_sector v * 512 \<le> p \<Longrightarrow> p + n \<le> first_data_sector v * 512 \<Longrightarrow> window D' p n = window D p n"
    "b' = b \<and> D' = D \<or> (\<forall>i<num_fats (vol_bpb v). window D' (fat_copy_at v i) (sectors_per_fat (vol_bpb v) * 512) =
       take (sectors_per_fat (vol_bpb v) * 512) b')"
proof (cases "need > length cs")
  case True
  have r: "need - length cs \<le> card (free_above v b tail)" "0 < need - length cs" using need True by simp_all
  obtain s' b' D' new where n:
    "(case extend_chain v len tail start 0 tail (need - length cs) s of
        (s3, Inl rc) \<Rightarrow> (s3, Inl rc)
      | (s3, Inr new_start) \<Rightarrow> (case fs_flush v len s3 of (s4, Inl rc) \<Rightarrow> (s4, Inl rc) | (s4, Inr _) \<Rightarrow> (s4, Inr new_start))) =
       (s', Inr (hd (cs @ new)))"
    "fs_holds v len s' b' D'" "length new = need - length cs" "links v (fat_link FAT_TYPE_FAT12 b' len) (cs @ new)"
    "set new \<subseteq> free_above v b tail" "\<And>c. c \<notin> set new \<Longrightarrow> c \<noteq> tail \<Longrightarrow> entry b' c = entry b c"
    "file_data v D' (cs @ new) = file_data v D cs @ replicate ((need - length cs) * bpc_of v) 0"
    "\<And>ds. \<forall>c\<in>set ds. fat12_cluster_in_range v c \<Longrightarrow> set ds \<inter> set new = {} \<Longrightarrow> file_data v D' ds = file_data v D ds"
    "\<And>p n. root_dir_sector v * 512 \<le> p \<Longrightarrow> p + n \<le> first_data_sector v * 512 \<Longrightarrow> window D' p n = window D p n"
    "\<And>i. i < num_fats (vol_bpb v) \<Longrightarrow> window D' (fat_copy_at v i) (sectors_per_fat (vol_bpb v) * 512) = take (sectors_per_fat (vol_bpb v) * 512) b'"
    by (rule extend_stage [OF H spf chain tail start r]) (rule that; assumption)
  have "length (cs @ new) = need" using n(3) need(1) by simp
  show thesis
  proof (rule that [of s' new b' D'])
    show "(if need > length cs then
       (case extend_chain v len tail start 0 tail (need - length cs) s of
          (s3, Inl rc) \<Rightarrow> (s3, Inl rc)
        | (s3, Inr new_start) \<Rightarrow> (case fs_flush v len s3 of (s4, Inl rc) \<Rightarrow> (s4, Inl rc) | (s4, Inr _) \<Rightarrow> (s4, Inr new_start)))
      else (s, Inr start)) = (s', Inr (hd (cs @ new)))" using True n(1) by (simp only: if_True)
    show "file_data v D' (cs @ new) = file_data v D cs @ replicate (length new * bpc_of v) 0" using n(3,7) by simp
    show "b' = b \<and> D' = D \<or> (\<forall>i<num_fats (vol_bpb v). window D' (fat_copy_at v i) (sectors_per_fat (vol_bpb v) * 512) =
       take (sectors_per_fat (vol_bpb v) * 512) b')" using n(10) by blast
  qed (fact n(2,4-6,8,9) \<open>length (cs @ new) = need\<close>)+
next
  case False
  then have "cs \<noteq> []" using need by auto
  then have "links v (fat_link FAT_TYPE_FAT12 b len) cs" "start = hd cs" using chain start by simp_all
  with False need(1) H that [of s "[]" b D] show ?thesis by simp
qed

text \<open>The bytes in front of the position, once the gap is closed.\<close>

lemma gap_bytes:
  assumes "F = G @ replicate k 0" "length G = clusters_for v old * bpc_of v" "volume_ok v" "off \<le> length F"
  shows "length (gap_closed (bpc_of v) F old off) = length F"
    "i < old \<Longrightarrow> gap_closed (bpc_of v) F old off ! i = F ! i"
    "old \<le> i \<Longrightarrow> i < off \<Longrightarrow> gap_closed (bpc_of v) F old off ! i = 0"
proof -
  have b: "0 < bpc_of v" using volume_ok_facts(2) [OF assms(3)] by simp
  have old: "old \<le> length G" using clusters_for_bounds(1) [OF assms(3)] assms(2) by simp
  define n where "n = (if bpc_of v - old mod bpc_of v > off - old then off - old else bpc_of v - old mod bpc_of v)"
  have fit: "old + length (replicate n (0::u8)) \<le> length F" if "old < off" using that assms(4) by (auto simp: n_def)
  note nth = nth_splice [OF fit]
  show "length (gap_closed (bpc_of v) F old off) = length F" unfolding gap_closed_def using fit by (simp add: n_def)
  show "gap_closed (bpc_of v) F old off ! i = F ! i" if "i < old"
    unfolding gap_closed_def n_def [symmetric] using nth [of i] that assms(4) by auto
  show "gap_closed (bpc_of v) F old off ! i = 0" if i: "old \<le> i" "i < off"
  proof (cases "i < length G")
    case False
    then have "F ! i = 0" using i assms(1,4) by (simp add: nth_append)
    then show ?thesis unfolding gap_closed_def n_def [symmetric] using nth [of i] i assms(4) by auto
  next
    case True
    have "old div bpc_of v * bpc_of v + old mod bpc_of v = old" by (rule div_mult_mod_eq)
    moreover have r: "old mod bpc_of v \<noteq> 0"
    proof
      assume "old mod bpc_of v = 0"
      then obtain q where "old = q * bpc_of v" by (metis mult.commute mult_div_mod_eq add_0_right)
      then have "clusters_for v old = (q * bpc_of v + (bpc_of v - 1)) div bpc_of v" using b by (simp add: clusters_for_def)
      also have "\<dots> = q" by (rule ceil_exact [OF b])
      finally show False using True i \<open>old = _\<close> assms(2) by simp
    qed
    moreover have "length G = old div bpc_of v * bpc_of v + bpc_of v" unfolding assms(2) clusters_for_round [OF assms(3) r] by simp
    ultimately have "length G \<le> old + (bpc_of v - old mod bpc_of v)" "old mod bpc_of v \<noteq> 0" by linarith+
    then have "i < old + n" "old mod bpc_of v \<noteq> 0" using True i by (auto simp: n_def)
    then show ?thesis unfolding gap_closed_def n_def [symmetric] using nth [of i] i assms(4) by auto
  qed
qed

text \<open>What a write of at least one byte comes down to on a healthy volume: the extension when one is needed, then the data.\<close>

lemma write_opens:
  assumes H: "fs_holds v len s b D" and slot: "slot div 16 < root_dir_sectors v"
    and e: "e = parse_dirent D (entry_at v slot)" "attribute e AND DIR_ATTR_READONLY = 0" and chain: "file_chain v len b e cs"
    and new_size: "new_size = max (unat (file_size e)) (off + length data)" "new_size < 0x80000000"
    and d: "old = unat (file_size e)" "need = clusters_for v new_size"
      "tail = (if cs = [] then 0 else last cs)" "start = (if cs = [] then 0 else hd cs)"
  shows "write_bytes v len 0 slot off data s =
    (case (if need > length cs then
             (case extend_chain v len tail start 0 tail (need - length cs) s of
                (s3, Inl rc) \<Rightarrow> (s3, Inl rc)
              | (s3, Inr new_start) \<Rightarrow> (case fs_flush v len s3 of (s4, Inl rc) \<Rightarrow> (s4, Inl rc) | (s4, Inr _) \<Rightarrow> (s4, Inr new_start)))
           else (s, Inr start)) of
       (s5, Inl rc) \<Rightarrow> (s5, Inl rc)
     | (s5, Inr new_start) \<Rightarrow> (case write_data v len (bpc_of v) 0 slot tail new_start old new_size off data s5 of
         (s6, Inl rc) \<Rightarrow> (s6, Inl rc) | (s6, Inr _) \<Rightarrow> (s6, Inr (length data))))"
proof -
  have ok: "volume_ok v" and fat: "fs_fat s = Some b" using H by (simp_all add: fs_holds_def)
  have b0: "0 < bpc_of v" "bytes_per_sector (vol_bpb v) = 512" using volume_ok_facts [OF ok] by simp_all
  have links: "cs = [] \<or> links v (fat_link FAT_TYPE_FAT12 b len) cs" and n: "length cs = clusters_for v old"
    and st: "unat (start_cluster e) = start"
    using chain by (auto simp: file_chain_def d split: if_splits)
  have ns: "old \<le> new_size" "off + length data \<le> new_size" by (simp_all add: new_size d)
  have big: "new_size + bpc_of v < 0x100000000" using total_bytes [OF ok] new_size(2) by linarith
  have w: "wrap32 (off + length data) = off + length data" "wrap32 (old + bpc_of v - 1) div bpc_of v = length cs"
    "wrap32 (new_size + bpc_of v - 1) div bpc_of v = need"
    using big ns ceil_wrap [of old v] ceil_wrap [of new_size v] n by (simp_all add: d)
  have "\<exists>k. (if start \<ge> FAT12_FIRST_DATA_CLUSTER \<and> length cs > 0 then follow_links v len (length cs - 1) start (wrap32 (total_clusters v + 2)) s
      else (s, Inr (0, 0))) = (s, Inr (tail, k))"
  proof (cases "cs = []")
    case False
    then have L: "links v (fat_link FAT_TYPE_FAT12 b len) cs" using links by simp
    have "fat12_cluster_in_range v (hd cs)" using links_in_range [OF L] False by simp
    then have "2 \<le> start" using False by (simp add: d fat12_cluster_in_range_def)
    moreover have "length cs \<le> wrap32 (total_clusters v + 2)" using links_bound [OF L] volume_ok_facts(3,4) [OF ok] by simp
    ultimately show ?thesis using follow_to [OF H L, of "length cs - 1" "wrap32 (total_clusters v + 2)"] False
      by (simp add: d last_conv_nth)
  qed (simp add: d)
  then obtain k where k: "(if start \<ge> FAT12_FIRST_DATA_CLUSTER \<and> length cs > 0 then follow_links v len (length cs - 1) start (wrap32 (total_clusters v + 2)) s
      else (s, Inr (0, 0))) = (s, Inr (tail, k))" by blast
  have max: "(if off + length data > old then off + length data else old) = new_size" by (simp add: new_size d max_def)
  show ?thesis
    unfolding write_bytes_def
    by (simp only: Let_def fat option.distinct if_False w(1) not_less le_add1 if_True b0(2) refl root_read(1) [OF H slot] e(1) [symmetric]
        e(2) prod.case sum.case d(1) [symmetric] st max w(2,3) k not_less [THEN iffD2, OF le_add1]) simp
qed

lemma write_bytes_stored:
  assumes H: "fs_holds v len s b D" and spf: "0 < sectors_per_fat (vol_bpb v)" and slot: "slot div 16 < root_dir_sectors v"
    and e: "e = parse_dirent D (entry_at v slot)" "attribute e AND DIR_ATTR_READONLY = 0" and chain: "file_chain v len b e cs"
    and data: "data \<noteq> []" and new_size: "new_size = max (unat (file_size e)) (off + length data)"
    and room: "clusters_for v new_size \<le> length cs + card (free_above v b (if cs = [] then 0 else last cs))"
  obtains s' b' D' new where "write_bytes v len 0 slot off data s = (s', Inr (length data))" "fs_holds v len s' b' D'"
    "parse_dirent D' (entry_at v slot) = e\<lparr>start_cluster := of_nat (hd (cs @ new)), file_size := of_nat new_size\<rparr>"
    "new_size < 0x80000000" "length (cs @ new) = clusters_for v new_size" "links v (fat_link FAT_TYPE_FAT12 b' len) (cs @ new)"
    "set new \<subseteq> free_above v b (if cs = [] then 0 else last cs)"
    "\<And>c. c \<notin> set new \<Longrightarrow> c \<noteq> (if cs = [] then 0 else last cs) \<Longrightarrow> entry b' c = entry b c"
    "take new_size (file_data v D' (cs @ new)) = overwrite (take (unat (file_size e)) (file_data v D cs)) off data"
    "\<And>ds. \<forall>c\<in>set ds. fat12_cluster_in_range v c \<Longrightarrow> set ds \<inter> set (cs @ new) = {} \<Longrightarrow> file_data v D' ds = file_data v D ds"
    "\<And>p n. root_dir_sector v * 512 \<le> p \<Longrightarrow> p + n \<le> first_data_sector v * 512 \<Longrightarrow>
       p + n \<le> entry_at v slot \<or> entry_at v slot + 32 \<le> p \<Longrightarrow> window D' p n = window D p n"
    "\<And>i. i < num_fats (vol_bpb v) \<Longrightarrow> fat_copied v D b i \<Longrightarrow> fat_copied v D' b' i"
proof -
  define old need tail start where d: "old = unat (file_size e)" "need = clusters_for v new_size"
    "tail = (if cs = [] then 0 else last cs)" "start = (if cs = [] then 0 else hd cs)"
  have ok: "volume_ok v" using H by (simp add: fs_holds_def)
  have b0: "0 < bpc_of v" using volume_ok_facts [OF ok] by simp
  have links: "cs = [] \<or> links v (fat_link FAT_TYPE_FAT12 b len) cs" and n: "length cs = clusters_for v old"
    using chain by (auto simp: file_chain_def d split: if_splits)
  have ns: "old \<le> new_size" "off + length data \<le> new_size" "0 < new_size" using data by (simp_all add: new_size d less_max_iff_disj)
  have n0: "length cs \<le> need" "0 < need" "need \<le> length cs + card (free_above v b tail)"
    using n clusters_for_bounds(4) [OF ok ns(1)] clusters_for_bounds(3) [OF ok, of new_size] ns(3) room by (simp_all add: d)
  have "need * bpc_of v \<le> total_clusters v * bpc_of v"
    using n0(3) room_le_total [OF H links, of tail] by (intro mult_le_mono1) linarith
  then have big: "new_size + bpc_of v \<le> 0x80000000"
    using clusters_for_bounds(1) [OF ok, of new_size] total_bytes [OF ok] unfolding d by linarith
  obtain s1 b1 D1 new where g:
    "(if need > length cs then
       (case extend_chain v len tail start 0 tail (need - length cs) s of
          (s3, Inl rc) \<Rightarrow> (s3, Inl rc)
        | (s3, Inr new_start) \<Rightarrow> (case fs_flush v len s3 of (s4, Inl rc) \<Rightarrow> (s4, Inl rc) | (s4, Inr _) \<Rightarrow> (s4, Inr new_start)))
      else (s, Inr start)) = (s1, Inr (hd (cs @ new)))"
    "fs_holds v len s1 b1 D1" "length (cs @ new) = need" "links v (fat_link FAT_TYPE_FAT12 b1 len) (cs @ new)"
    "set new \<subseteq> free_above v b tail" "\<And>c. c \<notin> set new \<Longrightarrow> c \<noteq> tail \<Longrightarrow> entry b1 c = entry b c"
    "file_data v D1 (cs @ new) = file_data v D cs @ replicate (length new * bpc_of v) 0"
    "\<And>ds. \<forall>c\<in>set ds. fat12_cluster_in_range v c \<Longrightarrow> set ds \<inter> set new = {} \<Longrightarrow> file_data v D1 ds = file_data v D ds"
    "\<And>p n. root_dir_sector v * 512 \<le> p \<Longrightarrow> p + n \<le> first_data_sector v * 512 \<Longrightarrow> window D1 p n = window D p n"
    "b1 = b \<and> D1 = D \<or> (\<forall>i<num_fats (vol_bpb v). window D1 (fat_copy_at v i) (sectors_per_fat (vol_bpb v) * 512) =
       take (sectors_per_fat (vol_bpb v) * 512) b1)"
    by (rule grow_stage [OF H spf links d(3,4) n0]) (rule that; assumption)
  have fit: "off + length data \<le> length (cs @ new) * bpc_of v" "old \<le> length (cs @ new) * bpc_of v"
    using clusters_for_bounds(1) [OF ok, of new_size] ns g(3) by (simp_all add: d)
  have tail: "tail = (cs @ new) ! (old div bpc_of v)" if "old mod bpc_of v \<noteq> 0"
  proof -
    have "clusters_for v old = Suc (old div bpc_of v)" by (rule clusters_for_round [OF ok that])
    then have "length cs = Suc (old div bpc_of v)" using n by simp
    then show ?thesis by (cases "cs = []") (simp_all add: d nth_append last_conv_nth)
  qed
  obtain m D2 where x: "write_data v len (bpc_of v) 0 slot tail (hd (cs @ new)) old new_size off data s1 = (s1\<lparr>fs_med := m\<rparr>, Inr ())"
    "fs_holds v len (s1\<lparr>fs_med := m\<rparr>) b1 D2"
    "parse_dirent D2 (entry_at v slot) = (parse_dirent D1 (entry_at v slot))\<lparr>start_cluster := of_nat (hd (cs @ new)), file_size := of_nat new_size\<rparr>"
    "file_data v D2 (cs @ new) = splice (gap_closed (bpc_of v) (file_data v D1 (cs @ new)) old off) off data"
    "\<And>ds. \<forall>c\<in>set ds. fat12_cluster_in_range v c \<Longrightarrow> set ds \<inter> set (cs @ new) = {} \<Longrightarrow> file_data v D2 ds = file_data v D1 ds"
    "\<And>p n. p + n \<le> first_data_sector v * 512 \<Longrightarrow> p + n \<le> entry_at v slot \<or> entry_at v slot + 32 \<le> p \<Longrightarrow> window D2 p n = window D1 p n"
    by (rule data_stage [OF g(2,4) refl fit data tail slot]) (assumption | (rule that; assumption))+
  have p: "entry_at v slot + 32 \<le> first_data_sector v * 512" "root_dir_sector v * 512 \<le> entry_at v slot"
    using entry_place(3) [OF ok slot] by (simp_all add: entry_at_def)
  have e1: "parse_dirent D1 (entry_at v slot) = e" unfolding e(1) using g(9) [OF p(2,1)] by (rule parse_same [OF H g(2) slot])
  have cs: "\<forall>c\<in>set cs. fat12_cluster_in_range v c" "length (file_data v D cs) = clusters_for v old * bpc_of v"
    using chain_facts(2) [OF H links] length_file_data_range [OF H, of cs] n by simp_all
  have F: "length (file_data v D1 (cs @ new)) = length (cs @ new) * bpc_of v" using cs(2) n unfolding g(7) by (simp add: add_mult_distrib)
  note gap = gap_bytes [OF g(7) cs(2) ok]
  have off: "off \<le> length (file_data v D1 (cs @ new))" using fit(1) F by simp
  have old: "old \<le> length (file_data v D cs)" using clusters_for_bounds(1) [OF ok, of old] cs(2) by simp
  have "take (max old (off + length data)) (splice (gap_closed (bpc_of v) (file_data v D1 (cs @ new)) old off) off data) =
      overwrite (take old (file_data v D1 (cs @ new))) off data"
    using fit F gap(1) [OF off] by (intro written_bytes) (simp_all add: gap(2,3) [OF off])
  then have bytes: "take new_size (file_data v D2 (cs @ new)) = overwrite (take old (file_data v D cs)) off data"
    unfolding x(4) using old by (simp add: new_size d(1) [symmetric] g(7))
  have small: "new_size < 0x80000000" using big b0 by linarith
  have run: "write_bytes v len 0 slot off data s = (s1\<lparr>fs_med := m\<rparr>, Inr (length data))"
    unfolding write_opens [OF H slot e chain new_size small d] g(1) by (simp add: x(1))
  have others: "file_data v D2 ds = file_data v D ds"
    if "\<forall>c\<in>set ds. fat12_cluster_in_range v c" "set ds \<inter> set (cs @ new) = {}" for ds
  proof -
    have "set ds \<inter> set new = {}" using that(2) by (auto simp only: set_append)
    then show ?thesis using x(5) [OF that] g(8) [OF that(1)] by simp
  qed
  have copied: "fat_copied v D2 b1 i" if "i < num_fats (vol_bpb v)" "fat_copied v D b i" for i
  proof -
    have "fat_copied v D1 b1 i" using g(10) that by (auto simp: fat_copied_def)
    moreover note c = fat_copy_below [OF ok that(1)]
    have "fat_copy_at v i + sectors_per_fat (vol_bpb v) * 512 \<le> entry_at v slot" using c p(2) by linarith
    then have "window D2 (fat_copy_at v i) (sectors_per_fat (vol_bpb v) * 512) = window D1 (fat_copy_at v i) (sectors_per_fat (vol_bpb v) * 512)"
      using p(1) by (intro x(6)) linarith+
    ultimately show ?thesis by (simp add: fat_copied_def)
  qed
  show thesis
    by (rule that [of "s1\<lparr>fs_med := m\<rparr>" b1 D2 new])
      (use run x(2,3,6) e1 small g(3-6,9) bytes d others copied in auto)
qed

lemma partial_is_bytes:
  assumes "fs_holds v len s b D" "data \<noteq> []"
  shows "fat12_write_partial v len parent slot off data s = write_bytes v len parent slot off data s"
proof -
  have ok: "volume_ok v" "backs v (fs_med s) D" "writes_ok v" using assms(1) by (simp_all add: fs_holds_def)
  then have "0 < total_sectors v" unfolding volume_ok_def by linarith
  then have "read_sectors (dev v) \<noteq> None" using read_sector [OF ok(2,1), of 0] by (auto simp: fat12_read_sectors_def split: option.splits)
  then show ?thesis using assms(2) ok(3) by (auto simp: fat12_write_partial_def no_device_def writes_ok_def)
qed

lemma file_chain_new:
  assumes "fs_holds v len s b D" "links v (fat_link FAT_TYPE_FAT12 b len) cs" "length cs = clusters_for v n" "n < 0x80000000"
    and "start_cluster e = of_nat (hd cs)" "file_size e = of_nat n"
  shows "file_chain v len b e cs" "unat (file_size e) = n"
proof -
  have ok: "volume_ok v" using assms(1) by (simp add: fs_holds_def)
  have ne: "cs \<noteq> []" using assms(2) by (cases cs) simp_all
  then have "fat12_cluster_in_range v (hd cs)" using links_in_range [OF assms(2)] by simp
  then have "unat (of_nat (hd cs) :: u16) = hd cs"
    using volume_ok_facts(3) [OF ok] by (simp add: in_range_iff [OF ok] unat_of_nat)
  moreover show sz: "unat (file_size e) = n" using assms(4,6) by (simp add: unat_of_nat)
  ultimately show "file_chain v len b e cs" using ne assms(2,3,5) by (simp add: file_chain_def)
qed

text \<open>A chain that shares no cluster with the written one.\<close>

lemma apart_from_new:
  assumes "fs_holds v len s b D" "links v (fat_link FAT_TYPE_FAT12 b len) ds" "set ds \<inter> set cs = {}" "set new \<subseteq> free_above v b p"
  shows "\<forall>c\<in>set ds. fat12_cluster_in_range v c" "set ds \<inter> set (cs @ new) = {}"
    "c \<in> set ds \<Longrightarrow> c \<notin> set new" "c \<in> set ds \<Longrightarrow> c \<noteq> (if cs = [] then 0 else last cs)"
proof -
  show rng: "\<forall>c\<in>set ds. fat12_cluster_in_range v c" using links_in_range [OF assms(2)] by blast
  show n: "c \<notin> set new" if "c \<in> set ds" for c
    using links_entry_nonzero [OF assms(1,2) that] assms(4) by (auto simp: free_above_def)
  show "c \<noteq> (if cs = [] then 0 else last cs)" if "c \<in> set ds" for c
    using assms(3) rng that by (cases "cs = []") (auto simp: fat12_cluster_in_range_def)
  show "set ds \<inter> set (cs @ new) = {}" using n assms(3) by auto
qed

text \<open>A file of 600 bytes in clusters 2 and 3, written at 1100: cluster 4 is taken.\<close>

lemma rw_write:
  defines "s \<equiv> rw_fs demo_fat (rw_disk demo_entry)"
  shows "fs_holds rw_volume 512 s demo_fat (rw_disk demo_entry)" "file_chain rw_volume 512 demo_fat demo_entry [2, 3]"
    "clusters_for rw_volume 1101 \<le> length [2, 3] + card (free_above rw_volume demo_fat (if [2, 3] = [] then 0 else last [2, 3]))"
    "demo_entry = parse_dirent (rw_disk demo_entry) (entry_at rw_volume 0)" "attribute demo_entry AND DIR_ATTR_READONLY = 0"
    "1101 = max (unat (file_size demo_entry)) (1100 + length [7])"
proof -
  show "fs_holds rw_volume 512 s demo_fat (rw_disk demo_entry)" unfolding s_def
    by (rule rw_holds) (simp_all add: demo_lengths rw_entry demo_entry_ok)
  show "file_chain rw_volume 512 demo_fat demo_entry [2, 3]"
    using rw_links by (simp add: file_chain_def demo_entry_def clusters_for_def rw_fields)
  have "{c \<in> {2, 3, 4}. 3 < c \<and> fat_entry FAT_TYPE_FAT12 demo_fat c = 0} = {4}" by (auto simp: demo_entries)
  then show "clusters_for rw_volume 1101 \<le> length [2, 3] + card (free_above rw_volume demo_fat (if [2, 3] = [] then 0 else last [2, 3]))"
    by (simp add: rw_free_above clusters_for_def rw_fields)
qed (simp_all add: rw_entry demo_entry_ok, simp_all add: demo_entry_def)

text \<open>C5: a positioned write to a file of the root directory. On a healthy volume with the whole FAT in memory, when
  the file's chain fits its size, the file is not read-only and enough clusters are free behind its last one, the
  write succeeds: the entry keeps all its fields but the start cluster and the size, the chain again fits the size, and
  the content is the old one overwritten at the position, zeros in a gap behind the old end. The chain and content of
  every file that shares no cluster with it stay as they were, and so does every other root entry; a copy of the FAT
  on disk that was up to date is up to date afterwards.\<close>

theorem write_partial_stored:
  assumes "fs_holds v len s b D" "0 < sectors_per_fat (vol_bpb v)" "slot div 16 < root_dir_sectors v"
    and "e = parse_dirent D (entry_at v slot)" "attribute e AND DIR_ATTR_READONLY = 0" "file_chain v len b e cs" "data \<noteq> []"
    and "new_size = max (unat (file_size e)) (off + length data)"
    and "clusters_for v new_size \<le> length cs + card (free_above v b (if cs = [] then 0 else last cs))"
  shows "\<exists>s' b' D' e' cs'. fat12_write_partial v len 0 slot off data s = (s', Inr (length data)) \<and> fs_holds v len s' b' D' \<and>
    e' = parse_dirent D' (entry_at v slot) \<and> e' = e\<lparr>start_cluster := start_cluster e', file_size := file_size e'\<rparr> \<and>
    unat (file_size e') = new_size \<and> file_chain v len b' e' cs' \<and>
    take new_size (file_data v D' cs') = overwrite (take (unat (file_size e)) (file_data v D cs)) off data \<and>
    (\<forall>ds. links v (fat_link FAT_TYPE_FAT12 b len) ds \<and> set ds \<inter> set cs = {} \<longrightarrow>
       links v (fat_link FAT_TYPE_FAT12 b' len) ds \<and> file_data v D' ds = file_data v D ds) \<and>
    (\<forall>k. k div 16 < root_dir_sectors v \<and> k \<noteq> slot \<longrightarrow> parse_dirent D' (entry_at v k) = parse_dirent D (entry_at v k)) \<and>
    (\<forall>i<num_fats (vol_bpb v). fat_copied v D b i \<longrightarrow> fat_copied v D' b' i)"
proof -
  note H = assms(1)
  have ok: "volume_ok v" using H by (simp add: fs_holds_def)
  let ?tail = "if cs = [] then 0 else last cs"
  obtain s' b' D' new where r: "write_bytes v len 0 slot off data s = (s', Inr (length data))" "fs_holds v len s' b' D'"
    "parse_dirent D' (entry_at v slot) = e\<lparr>start_cluster := of_nat (hd (cs @ new)), file_size := of_nat new_size\<rparr>"
    "new_size < 0x80000000" "length (cs @ new) = clusters_for v new_size" "links v (fat_link FAT_TYPE_FAT12 b' len) (cs @ new)"
    "set new \<subseteq> free_above v b ?tail" "\<And>c. c \<notin> set new \<Longrightarrow> c \<noteq> ?tail \<Longrightarrow> entry b' c = entry b c"
    "take new_size (file_data v D' (cs @ new)) = overwrite (take (unat (file_size e)) (file_data v D cs)) off data"
    "\<And>ds. \<forall>c\<in>set ds. fat12_cluster_in_range v c \<Longrightarrow> set ds \<inter> set (cs @ new) = {} \<Longrightarrow> file_data v D' ds = file_data v D ds"
    "\<And>p n. root_dir_sector v * 512 \<le> p \<Longrightarrow> p + n \<le> first_data_sector v * 512 \<Longrightarrow>
       p + n \<le> entry_at v slot \<or> entry_at v slot + 32 \<le> p \<Longrightarrow> window D' p n = window D p n"
    "\<And>i. i < num_fats (vol_bpb v) \<Longrightarrow> fat_copied v D b i \<Longrightarrow> fat_copied v D' b' i"
    by (rule write_bytes_stored [OF assms(1-9)]) (rule that; assumption)
  define e' where "e' = parse_dirent D' (entry_at v slot)"
  have e': "start_cluster e' = of_nat (hd (cs @ new))" "file_size e' = of_nat new_size"
    "e' = e\<lparr>start_cluster := start_cluster e', file_size := file_size e'\<rparr>" by (simp_all add: e'_def r(3))
  note fc = file_chain_new [OF r(2,6,5,4) e'(1,2)]
  have others: "links v (fat_link FAT_TYPE_FAT12 b' len) ds \<and> file_data v D' ds = file_data v D ds"
    if ds: "links v (fat_link FAT_TYPE_FAT12 b len) ds" "set ds \<inter> set cs = {}" for ds
  proof
    note ap = apart_from_new [OF H ds r(7)]
    show "links v (fat_link FAT_TYPE_FAT12 b' len) ds" by (rule links_keep [OF ds(1)]) (rule r(8) [OF ap(3,4)])
    show "file_data v D' ds = file_data v D ds" by (rule r(10) [OF ap(1,2)])
  qed
  have roots: "parse_dirent D' (entry_at v k) = parse_dirent D (entry_at v k)" if k: "k div 16 < root_dir_sectors v" "k \<noteq> slot" for k
  proof (rule parse_same [OF H r(2) k(1)])
    have "entry_at v k + 32 \<le> first_data_sector v * 512" "root_dir_sector v * 512 \<le> entry_at v k"
      using entry_place(3) [OF ok k(1)] by (simp_all add: entry_at_def)
    moreover have "entry_at v k + 32 \<le> entry_at v slot \<or> entry_at v slot + 32 \<le> entry_at v k"
      using k(2) unfolding entry_at_def by linarith
    ultimately show "window D' (entry_at v k) 32 = window D (entry_at v k) 32" by (intro r(11))
  qed
  have "fat12_write_partial v len 0 slot off data s = (s', Inr (length data))" using r(1) partial_is_bytes [OF H assms(7)] by simp
  then show ?thesis
    using r(2,9,12) e'_def e'(3) fc others roots
    by - (rule exI [of _ s'], rule exI [of _ b'], rule exI [of _ D'], rule exI [of _ e'], rule exI [of _ "cs @ new"],
      intro conjI allI impI; (elim conjE)?; (assumption | blast))
qed

theorem write_partial_stored_witness:
  "\<exists>s' D' cs'. fat12_write_partial rw_volume 512 0 0 1100 [7] (rw_fs demo_fat (rw_disk demo_entry)) = (s', Inr 1) \<and>
    take 1101 (file_data rw_volume D' cs') = overwrite (take 600 (file_data rw_volume (rw_disk demo_entry) [2, 3])) 1100 [7]"
proof -
  have sz: "unat (file_size demo_entry) = 600" "length [7] = 1" by (simp_all add: demo_entry_def)
  show ?thesis
    using write_partial_stored [OF rw_write(1) _ _ rw_write(4,5,2) _ rw_write(6,3)] unfolding sz rw_fields by fastforce
qed

text \<open>C11: what a positioned write leaves is what a read returns. Under the conditions of a successful write, if the old
  content reads as \<open>old\<close>, then after the write the entry read back from the directory reads, at every position and length,
  as the slice of \<open>old\<close> overwritten at the position of the write.\<close>

theorem write_partial_reads_back:
  assumes "fs_holds v len s b D" "0 < sectors_per_fat (vol_bpb v)" "slot div 16 < root_dir_sectors v"
    and "fat12_read_dirent_in_dir v len True 0 slot s = (s, Inr e)" "attribute e AND DIR_ATTR_READONLY = 0" "file_chain v len b e cs"
    and "data \<noteq> []" "new_size = max (unat (file_size e)) (off + length data)"
    and "clusters_for v new_size \<le> length cs + card (free_above v b (if cs = [] then 0 else last cs))"
    and "fat12_read_partial v (fs_med s) None (Some b) len e 0 (unat (file_size e)) = (None, Inr old)"
  shows "\<exists>s' b' e'. fat12_write_partial v len 0 slot off data s = (s', Inr (length data)) \<and> fs_fat s' = Some b' \<and>
    fat12_read_dirent_in_dir v len True 0 slot s' = (s', Inr e') \<and> unat (file_size e') = new_size \<and>
    (\<forall>off' n. fat12_read_partial v (fs_med s') None (Some b') len e' off' n = (None, Inr (take n (drop off' (overwrite old off data)))))"
proof -
  note H = assms(1)
  have e: "e = parse_dirent D (entry_at v slot)" using root_read(1) [OF H assms(3), of len 0] assms(4) by simp
  have rd: "fat12_read_partial v (fs_med t) None (Some f) len d o' n = (None, Inr (take n (drop o' (take (unat (file_size d)) (file_data v E ds)))))"
    if h: "fs_holds v len t f E" "file_chain v len f d ds" for t f E d ds o' n
  proof -
    have ok: "volume_ok v" "backs v (fs_med t) E" "vol_fat_type v = FAT_TYPE_FAT12" using h(1) by (simp_all add: fs_holds_def)
    have l: "unat (file_size d) \<le> length ds * bpc_of v" "file_size d \<noteq> 0 \<Longrightarrow> ds \<noteq> []"
      using h(2) clusters_for_bounds(1,3) [OF ok(1), of "unat (file_size d)"] by (auto simp: file_chain_def unat_eq_0)
    then have "file_size d \<noteq> 0 \<Longrightarrow> links v (fat_link (vol_fat_type v) f len) ds \<and> hd ds = unat (start_cluster d)"
      using h(2) ok(3) by (simp add: file_chain_def)
    then show ?thesis
      using whole.read_part [where b = f and len = len, OF ok(1,2) refl _ _ l(1)] by simp
  qed
  from write_partial_stored [OF assms(1-3) e assms(5-9)] obtain s' b' D' e' cs' where
    w: "fat12_write_partial v len 0 slot off data s = (s', Inr (length data))" "fs_holds v len s' b' D'"
      "e' = parse_dirent D' (entry_at v slot)" "unat (file_size e') = new_size" "file_chain v len b' e' cs'"
      "take new_size (file_data v D' cs') = overwrite (take (unat (file_size e)) (file_data v D cs)) off data"
    by (elim exE conjE) (rule that; assumption)
  have old: "old = take (unat (file_size e)) (file_data v D cs)" using rd [OF H assms(6), of 0 "unat (file_size e)"] assms(10) by simp
  have "fs_fat s' = Some b'" using w(2) by (simp add: fs_holds_def)
  moreover have "fat12_read_dirent_in_dir v len True 0 slot s' = (s', Inr e')" using root_read(1) [OF w(2) assms(3)] w(3) by simp
  moreover have "fat12_read_partial v (fs_med s') None (Some b') len e' off' n = (None, Inr (take n (drop off' (overwrite old off data))))"
    for off' n using rd [OF w(2,5)] by (simp only: w(4,6) old)
  ultimately show ?thesis using w(1,4) by blast
qed

theorem write_partial_reads_back_witness:
  "\<exists>s' b' e' old. fat12_write_partial rw_volume 512 0 0 1100 [7] (rw_fs demo_fat (rw_disk demo_entry)) = (s', Inr 1) \<and>
    fat12_read_partial rw_volume (fs_med s') None (Some b') 512 e' 1099 2 = (None, Inr (take 2 (drop 1099 (overwrite old 1100 [7]))))"
proof -
  let ?s = "rw_fs demo_fat (rw_disk demo_entry)"
  have ok: "backs rw_volume (fs_med ?s) (rw_disk demo_entry)" using rw_write(1) by (simp add: fs_holds_def)
  obtain old where old: "fat12_read_partial rw_volume (fs_med ?s) None (Some demo_fat) 512 demo_entry 0 (unat (file_size demo_entry)) = (None, Inr old)"
    using whole.read_part [where b = demo_fat and len = 512 and cs = "[2, 3]" and e = demo_entry, OF rw_ok ok refl] rw_links
    by (auto simp: rw_fields demo_entry_def)
  have slot: "0 div 16 < root_dir_sectors rw_volume" by (simp add: rw_fields)
  have rd: "fat12_read_dirent_in_dir rw_volume 512 True 0 0 ?s = (?s, Inr demo_entry)"
    using root_read(1) [OF rw_write(1) slot] rw_write(4) by simp
  show ?thesis
    using write_partial_reads_back [OF rw_write(1) _ slot rd rw_write(5,2) _ rw_write(6,3) old] unfolding rw_fields by fastforce
qed

end
