(* ===== verification/FatRefuse.thy ===== *)
theory FatRefuse imports FatWriteProps begin

text \<open>
  An extension that is refused: the clusters it had taken are free again and the old chain ends where it did.
\<close>

section \<open>The rollback\<close>

lemma holds_free_chain:
  assumes H: "fs_holds v len s b D" and L: "links v (fat_link FAT_TYPE_FAT12 b len) cs"
  obtains b' where "fs_free_chain v len (hd cs) s = (s\<lparr>fs_fat := Some b'\<rparr>, Inr ())" "fs_holds v len (s\<lparr>fs_fat := Some b'\<rparr>) b' D"
    "\<And>d. entry b' d = (if d \<in> set cs then 0 else entry b d)"
proof -
  have f: "vol_fat_type v = FAT_TYPE_FAT12" "fs_win s = None" "fs_fat s = Some b" "len \<le> length b" "volume_ok v" using H by (simp_all add: fs_holds_def)
  obtain c ds where cs: "cs = c # ds" using L by (cases cs) auto
  have n: "length ds \<le> wrap32 (total_clusters v + 2)" using links_bound [OF L] volume_ok_facts(3,4) [OF f(5)] cs by simp
  have c: "2 \<le> c" using links_in_range [OF L, of c] cs by (simp add: fat12_cluster_in_range_def)
  obtain b' where b': "free_chain_from v (fs_med s) None (Some b) len c (wrap32 (total_clusters v + 2)) = (None, Some b', Inr ())" "length b' = length b"
    "\<forall>d. entry b' d = (if d \<in> set (c # ds) then 0 else entry b d)"
    using free_chain_frees [OF f(1) L [unfolded cs] f(4) n] by blast
  show thesis
  proof (rule that [of b'])
    show "fs_free_chain v len (hd cs) s = (s\<lparr>fs_fat := Some b'\<rparr>, Inr ())"
      using b'(1) c f by (cases s) (simp add: fs_free_chain_def fat12_free_chain_def cs)
    show "fs_holds v len (s\<lparr>fs_fat := Some b'\<rparr>) b' D" using H b'(2) by (simp add: fs_holds_def)
  qed (use b'(3) cs in simp)
qed

text \<open>Rolling back the chain \<open>got\<close> behind \<open>tail\<close>.\<close>

lemma undo_ok:
  assumes H: "fs_holds v len s b D" and spf: "0 < sectors_per_fat (vol_bpb v)"
    and got: "got = [] \<and> ef = 0 \<or> links v (fat_link FAT_TYPE_FAT12 b len) got \<and> hd got = ef" and tail: "tail = 0 \<or> fat12_cluster_in_range v tail"
  obtains s' b' D' where "undo_extend v len tail ef s = s'" "fs_holds v len s' b' D'"
    "\<And>c. entry b' c = (if c = tail \<and> tail \<noteq> 0 then 0xFFF else if c \<in> set got then 0 else entry b c)"
    "\<And>p n. root_dir_sector v * 512 \<le> p \<Longrightarrow> window D' p n = window D p n"
proof -
  obtain b1 where 1: "(if ef \<noteq> 0 then fst (fs_free_chain v len ef s) else s) = s\<lparr>fs_fat := Some b1\<rparr>" "fs_holds v len (s\<lparr>fs_fat := Some b1\<rparr>) b1 D"
    "\<And>c. entry b1 c = (if c \<in> set got then 0 else entry b c)"
  proof (cases "got = []")
    case True
    then have "ef = 0" using got by auto
    moreover have "s\<lparr>fs_fat := Some b\<rparr> = s" using H by (cases s) (simp add: fs_holds_def)
    ultimately show ?thesis using that [of b] H True by simp
  next
    case False
    then have L: "links v (fat_link FAT_TYPE_FAT12 b len) got" "hd got = ef" using got by auto
    have "ef \<noteq> 0" using L(2) links_in_range [OF L(1), of "hd got"] False by (auto simp: fat12_cluster_in_range_def)
    obtain b1 where f: "fs_free_chain v len (hd got) s = (s\<lparr>fs_fat := Some b1\<rparr>, Inr ())" "fs_holds v len (s\<lparr>fs_fat := Some b1\<rparr>) b1 D"
      "\<And>d. entry b1 d = (if d \<in> set got then 0 else entry b d)"
      by (rule holds_free_chain [OF H L(1)]) (rule that; assumption)
    show ?thesis by (rule that [OF _ f(2,3)]) (use f(1) \<open>ef \<noteq> 0\<close> L(2) in simp)
  qed
  obtain b2 where 2: "(if tail \<noteq> 0 then fst (fs_set len tail FAT12_EOC_VALUE (s\<lparr>fs_fat := Some b1\<rparr>)) else s\<lparr>fs_fat := Some b1\<rparr>) = s\<lparr>fs_fat := Some b2\<rparr>"
    "fs_holds v len (s\<lparr>fs_fat := Some b2\<rparr>) b2 D" "\<And>c. entry b2 c = (if c = tail \<and> tail \<noteq> 0 then 0xFFF else entry b1 c)"
  proof (cases "tail = 0")
    case False
    then have t: "fat12_cluster_in_range v tail" using tail by simp
    obtain b2 where "fs_set len tail FAT12_EOC_VALUE (s\<lparr>fs_fat := Some b1\<rparr>) = (s\<lparr>fs_fat := Some b1, fs_fat := Some b2\<rparr>, Inr ())"
      "fs_holds v len (s\<lparr>fs_fat := Some b1, fs_fat := Some b2\<rparr>) b2 D" "length b2 = length b1" "\<And>d. entry b2 d = (if d = tail then 0xFFF mod 0x1000 else entry b1 d)"
      by (rule holds_set [OF 1(2) t]) (rule that; assumption)
    with False that [of b2] show ?thesis by simp
  qed (use that [of b1] 1(2) in simp)
  obtain m D' where 3: "fs_flush v len (s\<lparr>fs_fat := Some b2\<rparr>) = (s\<lparr>fs_fat := Some b2, fs_med := m\<rparr>, Inr ())"
    "fs_holds v len (s\<lparr>fs_fat := Some b2, fs_med := m\<rparr>) b2 D'" "\<And>p n. root_dir_sector v * 512 \<le> p \<Longrightarrow> window D' p n = window D p n"
    by (rule holds_flush [OF 2(2) spf]) (rule that; assumption)
  show thesis
  proof (rule that [of _ b2 D'])
    show "undo_extend v len tail ef s = s\<lparr>fs_fat := Some b2, fs_med := m\<rparr>" unfolding undo_extend_def Let_def 1(1) 2(1) 3(1) by simp
  qed (use 1(3) 2(3) 3(2,3) in auto)
qed

section \<open>The extension that finds too few clusters\<close>

lemma find_none_above:
  assumes "fs_holds v len s b D" "prev = 0 \<or> fat12_cluster_in_range v prev" "free_above v b prev = {}"
  shows "fs_find_free v len (next_hint prev) s = (s, 0)"
proof -
  have h: "2 \<le> next_hint prev" "\<And>c. fat12_cluster_in_range v c \<Longrightarrow> next_hint prev \<le> c \<longleftrightarrow> prev < c"
    using assms(2) in_range_small [OF assms(1), of prev]
    by (auto simp: next_hint_def fat12_cluster_in_range_def)
  obtain r where r: "fs_find_free v len (next_hint prev) s = (s, r)"
    "r \<noteq> 0 \<Longrightarrow> next_hint prev \<le> r \<and> fat12_cluster_in_range v r \<and> entry b r = 0"
    by (rule holds_find [OF assms(1) h(1)]) (rule that; assumption)
  have "r = 0"
  proof (rule ccontr)
    assume "r \<noteq> 0"
    from r(2) [OF this] have "r \<in> free_above v b prev" using h(2) [of r] by (simp add: free_above_def)
    with assms(3) show False by simp
  qed
  with r(1) show ?thesis by simp
qed

lemma links_snoc:
  assumes "fs_holds v len s b D" "links v (fat_link FAT_TYPE_FAT12 b len) cs" "fs_holds v len s' b' D'" "fat12_cluster_in_range v r" "r \<notin> set cs"
    and "\<And>d. entry b' d = (if d = r then 0xFFF else if d = last cs then r else entry b d)"
  shows "links v (fat_link FAT_TYPE_FAT12 b' len) (cs @ [r])"
proof (rule links_append [OF assms(3,2)])
  have ne: "cs \<noteq> []" using assms(2) by auto
  have "distinct (butlast cs @ [last cs])" using links_distinct [OF assms(2)] ne by simp
  then show "entry b' c = entry b c" if "c \<in> set (butlast cs)" for c
    using that assms(5,6) in_set_butlastD [OF that] by auto
  show "entry b' (last cs) = hd [r]" using assms(5,6) ne by auto
  show "links v (fat_link FAT_TYPE_FAT12 b' len) [r]" using assms(6) by (intro links_Cons [OF assms(3,4)]) simp
qed

lemma extend_refused:
  "fs_holds v len s b D \<Longrightarrow> 0 < sectors_per_fat (vol_bpb v) \<Longrightarrow> card (free_above v b prev) < left \<Longrightarrow>
   got = [] \<and> ef = 0 \<and> prev = tail \<or> links v (fat_link FAT_TYPE_FAT12 b len) got \<and> hd got = ef \<and> last got = prev \<Longrightarrow>
   tail = 0 \<or> fat12_cluster_in_range v tail \<and> entry b tail \<noteq> 0 \<and> tail \<notin> set got \<Longrightarrow>
   \<exists>s' b' D'. extend_chain v len tail ns ef prev left s = (s', Inl FAT12_ERR_NO_SPACE) \<and> fs_holds v len s' b' D' \<and>
     (\<forall>c. entry b' c = (if c = tail \<and> tail \<noteq> 0 then 0xFFF else if c \<in> set got then 0 else entry b c)) \<and>
     (\<forall>p n. root_dir_sector v * 512 \<le> p \<and> (\<forall>c\<in>free_above v b prev. p + n \<le> cluster_at v c \<or> cluster_at v c + bpc_of v \<le> p) \<longrightarrow>
        window D' p n = window D p n)"
proof (induction left arbitrary: prev s b D ns ef got)
  case (Suc left)
  note H = Suc.prems(1)
  have got: "\<forall>c\<in>set got. fat12_cluster_in_range v c \<and> entry b c \<noteq> 0"
    using Suc.prems(4) links_in_range [of v _ got] links_entry_nonzero [OF H, of got] by auto
  have p: "prev = 0 \<or> fat12_cluster_in_range v prev"
    using Suc.prems(4,5) got by (metis last_in_set links.simps(1))
  show ?case
  proof (cases "free_above v b prev = {}")
    case True
    have g: "got = [] \<and> ef = 0 \<or> links v (fat_link FAT_TYPE_FAT12 b len) got \<and> hd got = ef" and t: "tail = 0 \<or> fat12_cluster_in_range v tail"
      using Suc.prems(4,5) by blast+
    obtain s' b' D' where u: "undo_extend v len tail ef s = s'" "fs_holds v len s' b' D'"
      "\<And>c. entry b' c = (if c = tail \<and> tail \<noteq> 0 then 0xFFF else if c \<in> set got then 0 else entry b c)"
      "\<And>p n. root_dir_sector v * 512 \<le> p \<Longrightarrow> window D' p n = window D p n"
      using undo_ok [OF H Suc.prems(2) g t] by blast
    show ?thesis
      using u find_none_above [OF H p True] by (intro exI [of _ s'] exI [of _ b'] exI [of _ D']) simp
  next
    case False
    obtain r where r: "fs_find_free v len (next_hint prev) s = (s, r)" "r \<noteq> 0" "r \<in> free_above v b prev"
      "\<And>c. c \<in> free_above v b prev \<Longrightarrow> c \<noteq> r \<Longrightarrow> r < c"
      using holds_find_above [OF H p False] by blast
    then have rr: "fat12_cluster_in_range v r" "prev < r" "entry b r = 0" by (simp_all add: free_above_def)
    obtain b1 where b1: "claim_cluster len prev r s = (s\<lparr>fs_fat := Some b1\<rparr>, Inr ())" "fs_holds v len (s\<lparr>fs_fat := Some b1\<rparr>) b1 D"
      "length b1 = length b" "\<And>d. entry b1 d = (if d = r then 0xFFF else if d = prev \<and> prev \<noteq> 0 then r else entry b d)"
      using holds_claim [OF H rr(1) p] rr(2) by blast
    obtain m D1 where f: "fs_fill v (cluster_lba v r) None 0 (s\<lparr>fs_fat := Some b1\<rparr>) = (s\<lparr>fs_fat := Some b1, fs_med := m\<rparr>, Inr ())"
      "fs_holds v len (s\<lparr>fs_fat := Some b1, fs_med := m\<rparr>) b1 D1" "same_outside v {r} D D1"
      using holds_fill [OF b1(2) rr(1), of None 0] by blast
    have above: "free_above v b1 r = free_above v b prev - {r}"
      using r(2-4) b1(4) rr by (auto simp: free_above_def split: if_splits)
    have c: "card (free_above v b1 r) < left" using Suc.prems(3) r(3) card_Suc_Diff1 [OF finite_free_above r(3)] by (simp add: above)
    have r_got: "r \<notin> set got" using got rr(3) by auto
    define ef' where "ef' = (if ef = 0 then r else ef)"
    have g': "links v (fat_link FAT_TYPE_FAT12 b1 len) (got @ [r]) \<and> hd (got @ [r]) = ef' \<and> last (got @ [r]) = r"
    proof (cases "got = []")
      case True
      then show ?thesis using Suc.prems(4) b1(4) links_Cons [OF b1(2) rr(1), of "[]"] by (auto simp: ef'_def)
    next
      case False
      then have L: "links v (fat_link FAT_TYPE_FAT12 b len) got" "hd got = ef" "last got = prev" using Suc.prems(4) by auto
      have "fat12_cluster_in_range v (hd got)" "fat12_cluster_in_range v (last got)" using got False by simp_all
      then have "ef \<noteq> 0" "prev \<noteq> 0" using L by (auto simp: fat12_cluster_in_range_def)
      then show ?thesis using links_snoc [OF H L(1) b1(2) rr(1) r_got] b1(4) L False by (auto simp: ef'_def)
    qed
    have t': "tail = 0 \<or> fat12_cluster_in_range v tail \<and> entry b1 tail \<noteq> 0 \<and> tail \<notin> set (got @ [r])"
      using Suc.prems(5) b1(4) [of tail] rr r(2) by auto
    from Suc.IH [OF f(2) Suc.prems(2) c disjI2 [OF g'] t', of "if prev \<noteq> 0 then ns else r"] obtain s' b' D' where ih:
      "extend_chain v len tail (if prev \<noteq> 0 then ns else r) ef' r left (s\<lparr>fs_fat := Some b1, fs_med := m\<rparr>) = (s', Inl FAT12_ERR_NO_SPACE)"
      "fs_holds v len s' b' D'" "\<forall>c. entry b' c = (if c = tail \<and> tail \<noteq> 0 then 0xFFF else if c \<in> set (got @ [r]) then 0 else entry b1 c)"
      "\<forall>p n. root_dir_sector v * 512 \<le> p \<and> (\<forall>c\<in>free_above v b1 r. p + n \<le> cluster_at v c \<or> cluster_at v c + bpc_of v \<le> p) \<longrightarrow>
        window D' p n = window D1 p n" by blast
    have run: "extend_chain v len tail ns ef prev (Suc left) s = (s', Inl FAT12_ERR_NO_SPACE)"
      using r(1,2) b1(1) f(1) ih(1) by (simp add: Let_def ef'_def)
    have "prev \<in> set got \<or> prev = tail" using Suc.prems(4) by (metis last_in_set links.simps(1))
    then have ent: "\<forall>c. entry b' c = (if c = tail \<and> tail \<noteq> 0 then 0xFFF else if c \<in> set got then 0 else entry b c)"
      using ih(3) b1(4) rr by auto
    have win: "window D' p n = window D p n"
      if "root_dir_sector v * 512 \<le> p" "\<forall>c\<in>free_above v b prev. p + n \<le> cluster_at v c \<or> cluster_at v c + bpc_of v \<le> p" for p n
    proof -
      have "window D' p n = window D1 p n" using ih(4) that by (simp add: above)
      moreover have "p + n \<le> cluster_at v r \<or> cluster_at v r + bpc_of v \<le> p" using that(2) r(3) by blast
      then have "window D1 p n = window D p n" using f(3) unfolding same_outside_def by blast
      ultimately show ?thesis by simp
    qed
    show ?thesis using run ih(2) ent win by (intro exI [of _ s'] exI [of _ b'] exI [of _ D']) simp
  qed
qed simp

section \<open>A refused write\<close>

lemma clusters_disjoint:
  assumes "volume_ok v" "fat12_cluster_in_range v c" "fat12_cluster_in_range v d" "c \<noteq> d"
  shows "cluster_at v c + bpc_of v \<le> cluster_at v d \<or> cluster_at v d + bpc_of v \<le> cluster_at v c"
proof -
  have "cluster_at v x + bpc_of v \<le> cluster_at v y" if "fat12_cluster_in_range v x" "fat12_cluster_in_range v y" "x < y" for x y
  proof -
    have "(cluster_lba v x + sectors_per_cluster (vol_bpb v)) * 512 \<le> cluster_lba v y * 512"
      using clusters_apart [OF assms(1) that] by (rule mult_le_mono1)
    then show ?thesis by (simp add: algebra_simps)
  qed
  then show ?thesis using assms(2-4) by (metis linorder_neqE_nat)
qed

lemma links_recoded:
  assumes H: "fs_holds v len s b D" and H': "fs_holds v len s' b' D'" and L: "links v (fat_link FAT_TYPE_FAT12 b len) cs"
    and "\<And>c. c \<in> set (butlast cs) \<Longrightarrow> entry b' c = entry b c" "entry b' (last cs) = 0xFFF"
  shows "links v (fat_link FAT_TYPE_FAT12 b' len) cs"
proof -
  have ne: "cs \<noteq> []" using L by auto
  then have r: "fat12_cluster_in_range v (last cs)" using links_in_range [OF L] by simp
  have end': "links v (fat_link FAT_TYPE_FAT12 b' len) [last cs]" using links_Cons [OF H' r, of "[]"] assms(5) by simp
  from L assms(4) end' show ?thesis
  proof (induction cs)
    case (Cons c ds)
    show ?case
    proof (cases ds)
      case Nil
      with Cons.prems(3) show ?thesis by simp
    next
      case (Cons d es)
      have l: "links v (fat_link FAT_TYPE_FAT12 b len) ds" "fat_link FAT_TYPE_FAT12 b len c = Inr d"
        using \<open>links v _ (c # ds)\<close> Cons by simp_all
      have "links v (fat_link FAT_TYPE_FAT12 b' len) ds" using Cons.IH [OF l(1)] Cons.prems(2,3) Cons by simp
      moreover have "entry b' c = d" using l(2) Cons.prems(2) [of c] Cons by (simp add: fat_link_Inr)
      moreover have "fat12_cluster_in_range v c" using links_in_range [OF Cons.prems(1), of c] by simp
      ultimately show ?thesis using links_Cons [OF H', of c ds] Cons by simp
    qed
  qed simp
qed

text \<open>C7: a write that is refused for lack of space. When fewer clusters than the write needs are free behind the file's
  last one, \<open>fat12_write_partial\<close> answers \<open>FAT12_ERR_NO_SPACE\<close>, however many are free in front of it: the search is never
  resumed from the first cluster. The refusal changes no chain, no file's bytes and no entry of the root directory.\<close>

theorem write_partial_refused:
  assumes "fs_holds v len s b D" "0 < sectors_per_fat (vol_bpb v)" "slot div 16 < root_dir_sectors v"
    and "e = parse_dirent D (entry_at v slot)" "attribute e AND DIR_ATTR_READONLY = 0" "file_chain v len b e cs"
    and "data \<noteq> []" "new_size = max (unat (file_size e)) (off + length data)" "new_size < 0x80000000"
    and "clusters_for v new_size > length cs + card (free_above v b (if cs = [] then 0 else last cs))"
  shows "\<exists>s' b' D'. fat12_write_partial v len 0 slot off data s = (s', Inl FAT12_ERR_NO_SPACE) \<and> fs_holds v len s' b' D' \<and>
    (\<forall>ds. links v (fat_link FAT_TYPE_FAT12 b len) ds \<and> (set ds \<inter> set cs = {} \<or> ds = cs) \<longrightarrow>
       links v (fat_link FAT_TYPE_FAT12 b' len) ds \<and> file_data v D' ds = file_data v D ds) \<and>
    (\<forall>c. fat12_cluster_in_range v c \<longrightarrow> (entry b' c = 0) = (entry b c = 0)) \<and>
    (\<forall>k. k div 16 < root_dir_sectors v \<longrightarrow> parse_dirent D' (entry_at v k) = parse_dirent D (entry_at v k))"
proof -
  note H = assms(1)
  have ok: "volume_ok v" using H by (simp add: fs_holds_def)
  define need tail start where d: "need = clusters_for v new_size" "tail = (if cs = [] then 0 else last cs)" "start = (if cs = [] then 0 else hd cs)"
  have links: "cs = [] \<or> links v (fat_link FAT_TYPE_FAT12 b len) cs" using assms(6) by (auto simp: file_chain_def split: if_splits)
  have few: "need > length cs" "card (free_above v b tail) < need - length cs" using assms(10) by (simp_all add: d)
  have t: "tail = 0 \<or> fat12_cluster_in_range v tail \<and> entry b tail \<noteq> 0 \<and> tail \<notin> set []"
    using chain_facts(2,3) [OF H links, of "last cs"] by (auto simp: d(2))
  obtain s' b' D' where x: "extend_chain v len tail start 0 tail (need - length cs) s = (s', Inl FAT12_ERR_NO_SPACE)" "fs_holds v len s' b' D'"
    "\<forall>c. entry b' c = (if c = tail \<and> tail \<noteq> 0 then 0xFFF else if c \<in> set [] then 0 else entry b c)"
    "\<forall>p n. root_dir_sector v * 512 \<le> p \<and> (\<forall>c\<in>free_above v b tail. p + n \<le> cluster_at v c \<or> cluster_at v c + bpc_of v \<le> p) \<longrightarrow>
       window D' p n = window D p n"
    using extend_refused [where got = "[]" and ef = 0 and ns = start, OF H assms(2) few(2) disjI1 t] by blast
  have "write_bytes v len 0 slot off data s = (s', Inl FAT12_ERR_NO_SPACE)"
    unfolding write_opens [OF H assms(3-6,8,9) refl d] using few(1) by (simp add: x(1))
  then have run: "fat12_write_partial v len 0 slot off data s = (s', Inl FAT12_ERR_NO_SPACE)" using partial_is_bytes [OF H assms(7)] by simp
  have ent: "entry b' c = (if c = tail \<and> tail \<noteq> 0 then 0xFFF else entry b c)" for c using x(3) by simp
  have data: "cluster_data v D' c = cluster_data v D c" if c: "fat12_cluster_in_range v c" "entry b c \<noteq> 0" for c
  proof -
    have "root_dir_sector v * 512 \<le> cluster_at v c"
      using cluster_lba_eq(1) [OF ok c(1)] ok unfolding volume_ok_def by auto
    moreover have "cluster_at v c + bpc_of v \<le> cluster_at v d \<or> cluster_at v d + bpc_of v \<le> cluster_at v c" if "d \<in> free_above v b tail" for d
    proof -
      have "fat12_cluster_in_range v d" "c \<noteq> d" using that c(2) by (auto simp: free_above_def)
      then show ?thesis by (rule clusters_disjoint [OF ok c(1)])
    qed
    ultimately show ?thesis using x(4) by (simp add: cluster_data_def)
  qed
  have files: "links v (fat_link FAT_TYPE_FAT12 b' len) ds \<and> file_data v D' ds = file_data v D ds"
    if ds: "links v (fat_link FAT_TYPE_FAT12 b len) ds" "set ds \<inter> set cs = {} \<or> ds = cs" for ds
  proof
    have "cluster_data v D' c = cluster_data v D c" if "c \<in> set ds" for c
      using data links_in_range [OF ds(1) that] links_entry_nonzero [OF H ds(1) that] by blast
    then show "file_data v D' ds = file_data v D ds" by (simp add: file_data_def cong: map_cong)
    show "links v (fat_link FAT_TYPE_FAT12 b' len) ds"
    proof (cases "ds = cs")
      case True
      then have ne: "cs \<noteq> []" using ds(1) by auto
      then have "tail = last cs" "tail \<noteq> 0" "distinct (butlast cs @ [last cs])"
        using t links_distinct [OF ds(1)] True chain_facts(2) [OF H links, of "last cs"] by (auto simp: d(2) fat12_cluster_in_range_def)
      then have "entry b' (last cs) = 0xFFF" "\<And>c. c \<in> set (butlast cs) \<Longrightarrow> entry b' c = entry b c" using ent by auto
      then show ?thesis using links_recoded [OF H x(2) ds(1)] True by simp
    next
      case False
      then have "tail \<notin> set ds" if "tail \<noteq> 0" using ds(2) that by (auto simp: d(2) split: if_splits)
      then show ?thesis using ent by (intro links_keep [OF ds(1)]) auto
    qed
  qed
  have free: "(entry b' c = 0) = (entry b c = 0)" if "fat12_cluster_in_range v c" for c using ent t by auto
  have roots: "parse_dirent D' (entry_at v k) = parse_dirent D (entry_at v k)" if k: "k div 16 < root_dir_sectors v" for k
  proof (rule parse_same [OF H x(2) k])
    have "entry_at v k + 32 \<le> first_data_sector v * 512" "root_dir_sector v * 512 \<le> entry_at v k"
      using entry_place(3) [OF ok k] by (simp_all add: entry_at_def)
    moreover from this(1) have "entry_at v k + 32 \<le> cluster_at v c" if "c \<in> free_above v b tail" for c
      using entry_outside_clusters [OF ok, of c] that by (auto simp: free_above_def)
    ultimately show "window D' (entry_at v k) 32 = window D (entry_at v k) 32" using x(4) by blast
  qed
  show ?thesis using run x(2) files free roots by (intro exI [of _ s'] exI [of _ b'] exI [of _ D'] conjI) blast+
qed

text \<open>The file is in the last cluster of the volume; clusters 2 and 3 are free, and the write of one more byte is refused.\<close>

definition late_fat :: "u8 list" where
  "late_fat = [0xF0, 0xFF, 0xFF, 0, 0, 0, 0xFF, 0x0F] @ replicate 504 0"

definition late_entry :: dir_entry where
  "late_entry = demo_entry\<lparr>start_cluster := 4, file_size := 512\<rparr>"

theorem write_partial_refused_witness:
  "\<exists>s' b'. fat12_write_partial rw_volume 512 0 0 512 [7] (rw_fs late_fat (rw_disk late_entry)) = (s', Inl FAT12_ERR_NO_SPACE) \<and>
    fs_fat s' = Some b' \<and> fat_entry FAT_TYPE_FAT12 b' 2 = 0 \<and> fat_entry FAT_TYPE_FAT12 b' 3 = 0"
proof -
  have e: "dirent_ok late_entry" by (simp add: late_entry_def dirent_ok_def demo_entry_def pad_def)
  have H: "fs_holds rw_volume 512 (rw_fs late_fat (rw_disk late_entry)) late_fat (rw_disk late_entry)"
    by (rule rw_holds) (simp_all add: rw_entry e late_fat_def)
  have ent: "fat_entry FAT_TYPE_FAT12 late_fat 2 = 0" "fat_entry FAT_TYPE_FAT12 late_fat 3 = 0" "fat_entry FAT_TYPE_FAT12 late_fat 4 = 0xFFF"
    by (simp_all add: fat_entry_def entry_off_def decode12_def entry_word_def late_fat_def)
  have "links rw_volume (fat_link FAT_TYPE_FAT12 late_fat 512) [4]" using links_Cons [OF H, of 4 "[]"] ent by (simp add: rw_range)
  then have c: "file_chain rw_volume 512 late_fat late_entry [4]" by (simp add: file_chain_def late_entry_def clusters_for_def rw_fields)
  have "{c \<in> {2, 3, 4}. 4 < c \<and> fat_entry FAT_TYPE_FAT12 late_fat c = 0} = {}" by auto
  then have few: "clusters_for rw_volume 513 > length [4] + card (free_above rw_volume late_fat (if [4] = [] then 0 else last [4]))"
    by (simp add: rw_free_above clusters_for_def rw_fields)
  have p: "0 < sectors_per_fat (vol_bpb rw_volume)" "0 div 16 < root_dir_sectors rw_volume" "attribute late_entry AND DIR_ATTR_READONLY = 0"
    "513 = max (unat (file_size late_entry)) (512 + length [7::u8])" "(513::nat) < 0x80000000" "[7::u8] \<noteq> []"
    by (simp_all add: rw_fields late_entry_def demo_entry_def)
  have r: "fat12_cluster_in_range rw_volume 2" "fat12_cluster_in_range rw_volume 3" by (simp_all add: rw_range)
  obtain s' b' D' where x: "fat12_write_partial rw_volume 512 0 0 512 [7] (rw_fs late_fat (rw_disk late_entry)) = (s', Inl FAT12_ERR_NO_SPACE)"
    "fs_holds rw_volume 512 s' b' D'" "\<forall>c. fat12_cluster_in_range rw_volume c \<longrightarrow> (fat_entry FAT_TYPE_FAT12 b' c = 0) = (fat_entry FAT_TYPE_FAT12 late_fat c = 0)"
    using write_partial_refused [OF H p(1,2) rw_entry(1) [OF e, symmetric] p(3) c p(6,4,5) few] by (elim exE conjE) (rule that; assumption)
  have "fs_fat s' = Some b'" using x(2) by (simp add: fs_holds_def)
  then show ?thesis using x(1,3) r ent by blast
qed

end
