(* ===== verification/Sheet.thy ===== *)
theory Sheet imports Prelude begin

text \<open>
  The worksheet store of Initech 123 (\<open>os/i123/core/sheet.c\<close>): populated cells in one array sorted by row and column,
  their variable bytes in a pool that is compacted when it fills.

  \<^item> Addresses, lengths and offsets are \<open>nat\<close>; \<open>wrap32\<close> and \<open>sub32\<close> stand where a \<open>uint32_t\<close> sum or difference is
    formed. \<open>pool_cap\<close> is the length of the pool. A byte pointer with its length is a list.
  \<^item> The cell array and the pool are values: \<open>ncells\<close> is the length of \<open>cells\<close>.
  \<^item> \<open>None\<close> is an operation that does not return: the compaction of a pool with overlapping blobs.
  \<^item> The carry area holds \<open>carry_len\<close> bytes and is that list. Carving the caller's memory (\<open>i123_sheet_init\<close>) is not
    modelled.
\<close>

section \<open>Data\<close>

datatype cell_kind = I123_K_BLANK | I123_K_INTEGER | I123_K_NUMBER | I123_K_LABEL | I123_K_FORMULA

record i123_cell =
  col :: nat
  row :: nat
  kind :: cell_kind
  fmt :: u8
  has_str :: bool
  str_fmt :: u8
  clen :: nat
  slen :: nat
  off :: nat
  cval :: "u8 list"

record i123_sheet =
  cells :: "i123_cell list"
  cap :: nat
  pool :: "u8 list"
  pool_used :: nat
  pool_live :: nat
  carry :: "u8 list"
  carry_cellpos :: nat
  bof_version :: nat
  calcmode :: u8
  calcorder :: u8
  calccount :: u8
  split :: u8
  sync :: u8
  protec :: u8
  labelfmt :: u8
  unformatted :: u8
  win1 :: "u8 list"
  colw :: "u8 list"
  range :: "int list"
  range_set :: bool
  hid :: "(nat \<times> nat) option list"
  err_off :: nat
  circ :: bool
  calc :: bool
  circ_at :: "nat \<times> nat"

abbreviation (input) I123_E_ARG :: int where "I123_E_ARG \<equiv> -1"
abbreviation (input) I123_E_FULL :: int where "I123_E_FULL \<equiv> -2"
abbreviation (input) I123_E_FORMAT :: int where "I123_E_FORMAT \<equiv> -3"
abbreviation (input) I123_MAX_COLS :: nat where "I123_MAX_COLS \<equiv> 256"
abbreviation (input) I123_MAX_ROWS :: nat where "I123_MAX_ROWS \<equiv> 8192"
abbreviation (input) I123_CARRY_CAP :: nat where "I123_CARRY_CAP \<equiv> 4096"
abbreviation (input) I123_LABEL_MAX :: nat where "I123_LABEL_MAX \<equiv> 240"
abbreviation (input) WK1_REC_HDR :: nat where "WK1_REC_HDR \<equiv> 4"
abbreviation (input) WK1_FMT_FRESH_CELL :: u8 where "WK1_FMT_FRESH_CELL \<equiv> 0xFF"
abbreviation (input) CARRY_PLACEHOLDER :: nat where "CARRY_PLACEHOLDER \<equiv> 0xFFFF"

text \<open>A \<open>uint32_t\<close> difference.\<close>

definition sub32 :: "nat \<Rightarrow> nat \<Rightarrow> nat" where
  "sub32 a b = wrap32 (a + 0x100000000 - b)"

unbundle bit_operations_syntax

definition key_of :: "nat \<Rightarrow> nat \<Rightarrow> nat" where
  "key_of c r = push_bit 8 r OR c"

abbreviation ckey :: "i123_cell \<Rightarrow> nat" where
  "ckey c \<equiv> key_of (col c) (row c)"

function lower_from :: "i123_cell list \<Rightarrow> nat \<Rightarrow> nat \<Rightarrow> nat \<Rightarrow> nat" where
  "lower_from cs key lo hi =
     (if lo < hi then
        let mid = lo + (hi - lo) div 2
        in if ckey (cs ! mid) < key then lower_from cs key (mid + 1) hi else lower_from cs key lo mid
      else lo)"
  by pat_completeness auto
termination
  by (relation "measure (\<lambda>(cs, key, lo, hi). hi - lo)") auto

definition lower_bound :: "i123_sheet \<Rightarrow> nat \<Rightarrow> nat" where
  "lower_bound sh key = lower_from (cells sh) key 0 (length (cells sh))"

section \<open>The template and the fresh sheet\<close>

definition rd16 :: "u8 list \<Rightarrow> nat \<Rightarrow> nat" where
  "rd16 p i = unat (p ! i) + 256 * unat (p ! (i + 1))"

definition wr16 :: "u8 list \<Rightarrow> nat \<Rightarrow> nat \<Rightarrow> u8 list" where
  "wr16 p i v = p[i := of_nat (v mod 256), i + 1 := of_nat (v div 256)]"

text \<open>Appending a record header; the body of a record that is not a placeholder is put behind it.\<close>

definition carry_put :: "i123_sheet \<Rightarrow> nat \<Rightarrow> nat \<Rightarrow> u8 list \<Rightarrow> i123_sheet \<times> (int + unit)" where
  "carry_put sh op len body =
     (let need = WK1_REC_HDR + (if len = CARRY_PLACEHOLDER then 0 else len) in
      if length (carry sh) + need > I123_CARRY_CAP then (sh, Inl I123_E_FULL)
      else (sh\<lparr>carry := carry sh @ [of_nat (op mod 256), of_nat (op div 256), of_nat (len mod 256), of_nat (len div 256)] @
                 (if len = CARRY_PLACEHOLDER then [] else body)\<rparr>, Inr ()))"

text \<open>The runs \<open>(count, byte)\<close> of one template record, up to the zero count: the record body and the rest of the template.\<close>

fun template_runs :: "u8 list \<Rightarrow> nat \<Rightarrow> u8 list \<Rightarrow> int + u8 list \<times> u8 list" where
  "template_runs t len got =
     (case t of
        [] \<Rightarrow> Inl I123_E_FORMAT
      | cnt # t1 \<Rightarrow>
          if cnt = 0 then if length got \<noteq> len then Inl I123_E_FORMAT else Inr (got, t1)
          else (case t1 of
            [] \<Rightarrow> Inl I123_E_FORMAT
          | byte # t2 \<Rightarrow>
              if length got + unat cnt > len then Inl I123_E_FORMAT
              else template_runs t2 len (got @ replicate (unat cnt) byte)))"

declare template_runs.simps [simp del]

lemma template_runs_shorter: "template_runs t len got = Inr (body, t') \<Longrightarrow> length t' < length t"
proof (induction t len got rule: template_runs.induct)
  case (1 t len got)
  show ?case
  proof (cases t)
    case Nil
    then show ?thesis using 1(2) by (simp add: template_runs.simps)
  next
    case (Cons cnt t1)
    show ?thesis
    proof (cases t1)
      case Nil
      then show ?thesis using 1(2) Cons by (simp add: template_runs.simps [of "[cnt]"] split: if_splits)
    next
      case (Cons byte t2)
      then show ?thesis
        using 1(1) [OF \<open>t = cnt # t1\<close> _ Cons] 1(2) \<open>t = cnt # t1\<close>
        by (auto simp: template_runs.simps [of "cnt # byte # t2"] split: if_splits)
    qed
  qed
qed

function install_from :: "u8 list \<Rightarrow> i123_sheet \<Rightarrow> i123_sheet \<times> (int + unit)" where
  "install_from t sh =
     (if t = [] then (sh\<lparr>carry_cellpos := length (carry sh)\<rparr>, Inr ())
      else if length t < 4 then (sh, Inl I123_E_FORMAT)
      else let op = rd16 t 0; len = rd16 t 2; t1 = drop 4 t in
        if len = 0 then
          (case carry_put sh op CARRY_PLACEHOLDER [] of
             (s1, Inl rc) \<Rightarrow> (s1, Inl I123_E_FULL) | (s1, Inr _) \<Rightarrow> install_from t1 s1)
        else if length (carry sh) + WK1_REC_HDR + len > I123_CARRY_CAP then (sh, Inl I123_E_FULL)
        else (case template_runs t1 len [] of
          Inl rc \<Rightarrow> (sh, Inl rc)
        | Inr (body, t2) \<Rightarrow> (case carry_put sh op len body of
            (s1, Inl rc) \<Rightarrow> (s1, Inl I123_E_FULL) | (s1, Inr _) \<Rightarrow> install_from t2 s1)))"
  by pat_completeness auto
termination
proof (relation "measure (\<lambda>(t, sh). length t)", goal_cases)
  case (3 t sh op len t1 body)
  then show ?case using template_runs_shorter by fastforce
qed auto

text \<open>The tables \<open>WK1_DEFAULT_TEMPLATE_INIT\<close> and \<open>WK1_W1_DEFAULT_INIT\<close> of \<open>spec/i123/wk1_format.h\<close>, a record per line.\<close>

definition g_template :: "u8 list" where
  "g_template =
   [6, 0, 0, 0] @
   [0x96, 0, 0, 0] @
   [0x2f, 0, 0, 0] @
   [2, 0, 0, 0] @
   [3, 0, 0, 0] @
   [4, 0, 0, 0] @
   [5, 0, 0, 0] @
   [7, 0, 0, 0] @
   [0x64, 0, 0x20, 0, 0x20, 0, 0] @
   [0x18, 0, 0x19, 0, 1, 0, 2, 0xff, 2, 0, 2, 0xff, 2, 0, 2, 0xff, 2, 0, 2, 0xff, 2, 0, 2, 0xff, 2, 0, 2, 0xff, 2, 0, 0] @
   [0x19, 0, 0x19, 0, 2, 0xff, 2, 0, 2, 0xff, 2, 0, 2, 0xff, 2, 0, 2, 0xff, 2, 0, 2, 0xff, 2, 0, 2, 0xff, 3, 0, 0] @
   [0x1a, 0, 8, 0, 2, 0xff, 2, 0, 2, 0xff, 2, 0, 0] @
   [0x30, 0, 0, 0] @
   [0x1c, 0, 8, 0, 2, 0xff, 2, 0, 2, 0xff, 2, 0, 0] @
   [0x1b, 0, 8, 0, 2, 0xff, 2, 0, 2, 0xff, 2, 0, 0] @
   [0x1d, 0, 9, 0, 2, 0xff, 2, 0, 2, 0xff, 3, 0, 0] @
   [0x23, 0, 9, 0, 2, 0xff, 2, 0, 2, 0xff, 3, 0, 0] @
   [0x67, 0, 0x19, 0, 2, 0xff, 2, 0, 2, 0xff, 2, 0, 2, 0xff, 2, 0, 2, 0xff, 2, 0, 2, 0xff, 2, 0, 2, 0xff, 3, 0, 0] @
   [0x69, 0, 0x28, 0, 2, 0xff, 2, 0, 2, 0xff, 2, 0, 2, 0xff, 2, 0, 2, 0xff, 2, 0, 2, 0xff, 2, 0, 2, 0xff, 2, 0, 2, 0xff, 2, 0, 2, 0xff, 2, 0, 2, 0xff, 2, 0, 2, 0xff, 2, 0, 0] @
   [0x20, 0, 0x10, 0, 2, 0xff, 2, 0, 2, 0xff, 2, 0, 2, 0xff, 2, 0, 2, 0xff, 2, 0, 0] @
   [0x66, 0, 0x10, 0, 2, 0xff, 2, 0, 2, 0xff, 2, 0, 2, 0xff, 2, 0, 2, 0xff, 2, 0, 0] @
   [0x24, 0, 0, 0] @
   [0x25, 0, 0xf2, 0, 0xf2, 0, 0] @
   [0x26, 0, 0xf2, 0, 0xf2, 0, 0] @
   [0x27, 0, 0x28, 0, 0x28, 0, 0] @
   [0x28, 0, 0x0a, 0, 1, 4, 1, 0, 1, 0x4c, 1, 0, 1, 0x42, 1, 0, 1, 2, 1, 0, 1, 2, 1, 0, 0] @
   [0x29, 0, 0, 0] @
   [0x2a, 0, 0x10, 0, 2, 0xff, 2, 0, 2, 0xff, 2, 0, 2, 0xff, 2, 0, 2, 0xff, 2, 0, 0] @
   [0x2d, 0, 0xb7, 1, 0x68, 0xff, 1, 4, 2, 0, 6, 3, 0xff, 0, 0x41, 0, 2, 0x71, 1, 1, 3, 0, 0]"

definition g_win1_default :: "u8 list" where
  "g_win1_default = [0, 0, 0, 0, 0x71, 0, 9, 0, 8, 0, 0x14, 0, 0, 0, 0, 0, 0, 0, 0, 0, 0, 0, 0, 0, 4, 0, 4, 0, 0x48, 0, 0, 0]"

definition sheet_reset :: "i123_sheet \<Rightarrow> i123_sheet \<times> (int + unit)" where
  "sheet_reset sh = install_from g_template
     (sh\<lparr>cells := [], pool_used := 0, pool_live := 0, bof_version := 0x0406, calcmode := 0xFF, calcorder := 0, calccount := 1,
         split := 0, sync := 0xFF, protec := 0, labelfmt := 0x27, unformatted := 0, win1 := g_win1_default, colw := replicate 256 0,
         range := [0, 0, 0, 0], range_set := False, hid := replicate 256 None, err_off := 0, circ := False, calc := False,
         circ_at := (0, 0), carry := []\<rparr>)"

definition i123_sheet_clear :: "i123_sheet \<Rightarrow> i123_sheet" where
  "i123_sheet_clear sh = fst (sheet_reset sh)"

section \<open>The pool\<close>

text \<open>A byte-by-byte copy upwards inside one buffer.\<close>

primrec copy_bytes :: "u8 list \<Rightarrow> nat \<Rightarrow> nat \<Rightarrow> nat \<Rightarrow> u8 list" where
  "copy_bytes p d s 0 = p"
| "copy_bytes p d s (Suc n) = (let p' = copy_bytes p d s n in p'[d + n := p' ! (s + n)])"

text \<open>The bytes a cell owns.\<close>

definition csize :: "i123_cell \<Rightarrow> nat" where
  "csize c = clen c + slen c"

text \<open>The first cell with the least offset from \<open>scan\<close> on among the cells that own bytes.\<close>

primrec best_blob :: "i123_cell list \<Rightarrow> nat \<Rightarrow> nat \<Rightarrow> nat option" where
  "best_blob cs scan 0 = None"
| "best_blob cs scan (Suc i) = (let best = best_blob cs scan i; c = cs ! i in
     if csize c = 0 \<or> off c < scan then best
     else (case best of None \<Rightarrow> Some i | Some b \<Rightarrow> if off c < off (cs ! b) then Some i else Some b))"

partial_function (option) compact_from :: "nat \<Rightarrow> nat \<Rightarrow> i123_sheet \<Rightarrow> i123_sheet option" where
  "compact_from dst scan sh = (case best_blob (cells sh) scan (length (cells sh)) of
     None \<Rightarrow> Some (sh\<lparr>pool_used := dst, pool_live := dst\<rparr>)
   | Some b \<Rightarrow>
       let c = cells sh ! b; sz = csize c in
       compact_from (wrap32 (dst + sz)) (wrap32 (off c + 1))
         (if off c \<noteq> dst then sh\<lparr>pool := copy_bytes (pool sh) dst (off c) sz, cells := (cells sh)[b := c\<lparr>off := dst\<rparr>]\<rparr> else sh))"

definition pool_compact :: "i123_sheet \<Rightarrow> i123_sheet option" where
  "pool_compact sh = compact_from 0 0 sh"

definition pool_take :: "i123_sheet \<Rightarrow> nat \<Rightarrow> i123_sheet \<times> (int + nat)" where
  "pool_take sh n = (sh\<lparr>pool_used := wrap32 (pool_used sh + n), pool_live := wrap32 (pool_live sh + n)\<rparr>, Inr (pool_used sh))"

definition pool_alloc :: "i123_sheet \<Rightarrow> nat \<Rightarrow> (i123_sheet \<times> (int + nat)) option" where
  "pool_alloc sh n =
     (if n = 0 then Some (sh, Inr 0)
      else if wrap32 (pool_used sh + n) > length (pool sh) then
        (case pool_compact sh of
           None \<Rightarrow> None
         | Some s1 \<Rightarrow> Some (if wrap32 (pool_used s1 + n) > length (pool s1) then (s1, Inl I123_E_FULL) else pool_take s1 n))
      else Some (pool_take sh n))"

section \<open>Cells\<close>

definition i123_find :: "i123_sheet \<Rightarrow> nat \<Rightarrow> nat \<Rightarrow> i123_cell option" where
  "i123_find sh c r =
     (let k = key_of c r; i = lower_bound sh k
      in if i < length (cells sh) \<and> ckey (cells sh ! i) = k then Some (cells sh ! i) else None)"

text \<open>The position of a cell in the store (\<open>index_of\<close> of \<open>recalc.c\<close>); \<open>None\<close> is -1.\<close>

definition index_of :: "i123_sheet \<Rightarrow> nat \<Rightarrow> nat \<Rightarrow> nat option" where
  "index_of sh c r =
     (let k = key_of c r; i = lower_bound sh k
      in if i < length (cells sh) \<and> ckey (cells sh ! i) = k then Some i else None)"

text \<open>Where the bytes of a replacement or a new cell go: the opening of \<open>i123_put_cell\<close>. The answer is the offset and what
  is still to be subtracted from \<open>pool_live\<close>.\<close>

definition place_blob :: "i123_sheet \<Rightarrow> nat \<Rightarrow> bool \<Rightarrow> nat \<Rightarrow> (i123_sheet \<times> (int + nat \<times> nat)) option" where
  "place_blob sh i exists n =
     (let old = (if exists then csize (cells sh ! i) else 0) in
      if exists \<and> n \<le> old then Some (sh\<lparr>pool_live := sub32 (pool_live sh) (old - n)\<rparr>, Inr (off (cells sh ! i), 0))
      else if wrap32 (sub32 (pool_live sh) old + n) > length (pool sh) then Some (sh, Inl I123_E_FULL)
      else let drop' = (old \<noteq> 0 \<and> wrap32 (pool_used sh + n) > length (pool sh));
               s1 = (if drop' then sh\<lparr>cells := (cells sh)[i := (cells sh ! i)\<lparr>clen := 0, slen := 0\<rparr>],
                                       pool_live := sub32 (pool_live sh) old\<rparr> else sh);
               left = (if drop' then 0 else old)
           in (case pool_alloc s1 n of
                 None \<Rightarrow> None
               | Some (s2, Inl rc) \<Rightarrow> Some (s2, Inl rc)
               | Some (s2, Inr o') \<Rightarrow> Some (s2, Inr (o', left))))"

definition i123_put_cell :: "i123_sheet \<Rightarrow> nat \<Rightarrow> nat \<Rightarrow> cell_kind \<Rightarrow> u8 \<Rightarrow> u8 list option \<Rightarrow> u8 list \<Rightarrow> bool \<Rightarrow> u8 \<Rightarrow> u8 list \<Rightarrow>
    (i123_sheet \<times> (int + unit)) option" where
  "i123_put_cell sh c r knd fm v b1 hs sf b2 =
     (let n1 = length b1; n2 = length b2 in
      if c \<ge> I123_MAX_COLS \<or> r \<ge> I123_MAX_ROWS then Some (sh, Inl I123_E_ARG)
      else if n1 > 0xFFFF \<or> n2 > 0xFFFF then Some (sh, Inl I123_E_ARG)
      else let k = key_of c r; i = lower_bound sh k;
               exists = (i < length (cells sh) \<and> ckey (cells sh ! i) = k)
      in if \<not> exists \<and> length (cells sh) \<ge> cap sh then Some (sh, Inl I123_E_FULL)
         else (case place_blob sh i exists (n1 + n2) of
           None \<Rightarrow> None
         | Some (s1, Inl rc) \<Rightarrow> Some (s1, Inl rc)
         | Some (s1, Inr (o', old)) \<Rightarrow>
             let p1 = splice (pool s1) o' b1; p2 = splice p1 (o' + n1) b2;
                 new = \<lparr>col = c, row = r, kind = knd, fmt = fm, has_str = hs, str_fmt = sf, clen = n1, slen = n2, off = o',
                        cval = (case v of None \<Rightarrow> replicate 8 0 | Some bytes \<Rightarrow> bytes)\<rparr>
             in Some (s1\<lparr>pool := p2, pool_live := sub32 (pool_live s1) old,
                         cells := (if exists then (cells s1)[i := new] else take i (cells s1) @ new # drop i (cells s1))\<rparr>, Inr ())))"

definition grow_extents :: "i123_sheet \<Rightarrow> nat \<Rightarrow> nat \<Rightarrow> cell_kind \<Rightarrow> i123_sheet" where
  "grow_extents sh c r knd =
     (let s1 = (if \<not> range_set sh then sh\<lparr>range := [0, 0, int c, int r], range_set := True\<rparr>
                else sh\<lparr>range := [range sh ! 0, range sh ! 1, if int c > range sh ! 2 then int c else range sh ! 2,
                                  if int r > range sh ! 3 then int r else range sh ! 3]\<rparr>)
      in if knd = I123_K_BLANK then s1
         else s1\<lparr>hid := (hid s1)[c := Some (case hid s1 ! c of
                None \<Rightarrow> (r, r)
              | Some (first, last') \<Rightarrow> (if r < first then r else first, if r > last' then r else last'))]\<rparr>)"

definition entry_fmt :: "i123_sheet \<Rightarrow> nat \<Rightarrow> nat \<Rightarrow> u8" where
  "entry_fmt sh c r = (case i123_find sh c r of None \<Rightarrow> WK1_FMT_FRESH_CELL | Some x \<Rightarrow> fmt x)"

text \<open>What follows a successful store.\<close>

definition then_extents :: "(i123_sheet \<times> (int + unit)) option \<Rightarrow> nat \<Rightarrow> nat \<Rightarrow> cell_kind \<Rightarrow> (i123_sheet \<times> (int + unit)) option" where
  "then_extents res c r knd = (case res of
     None \<Rightarrow> None
   | Some (sh, Inl rc) \<Rightarrow> Some (sh, Inl rc)
   | Some (sh, Inr _) \<Rightarrow> Some (grow_extents sh c r knd, Inr ()))"

definition i123_set_label :: "i123_sheet \<Rightarrow> nat \<Rightarrow> nat \<Rightarrow> u8 \<Rightarrow> u8 list \<Rightarrow> (i123_sheet \<times> (int + unit)) option" where
  "i123_set_label sh c r prefix text =
     (if c \<ge> I123_MAX_COLS \<or> r \<ge> I123_MAX_ROWS then Some (sh, Inl I123_E_ARG)
      else if length text > I123_LABEL_MAX then Some (sh, Inl I123_E_ARG)
      else if 0 \<in> set text then Some (sh, Inl I123_E_ARG)
      else then_extents (i123_put_cell sh c r I123_K_LABEL (entry_fmt sh c r) None (prefix # text) False 0 []) c r I123_K_LABEL)"

definition i123_set_formula_raw :: "i123_sheet \<Rightarrow> nat \<Rightarrow> nat \<Rightarrow> u8 \<Rightarrow> u8 list \<Rightarrow> u8 list \<Rightarrow> u8 list option \<Rightarrow>
    (i123_sheet \<times> (int + unit)) option" where
  "i123_set_formula_raw sh c r fm cache code str =
     then_extents (i123_put_cell sh c r I123_K_FORMULA fm (Some cache) code (str \<noteq> None) fm (case str of None \<Rightarrow> [] | Some s \<Rightarrow> s))
       c r I123_K_FORMULA"

definition i123_erase :: "i123_sheet \<Rightarrow> nat \<Rightarrow> nat \<Rightarrow> i123_sheet" where
  "i123_erase sh c r =
     (let k = key_of c r; i = lower_bound sh k in
      if i \<ge> length (cells sh) \<or> ckey (cells sh ! i) \<noteq> k then sh
      else sh\<lparr>pool_live := sub32 (pool_live sh) (csize (cells sh ! i)), cells := take i (cells sh) @ drop (i + 1) (cells sh)\<rparr>)"

definition i123_set_cell_format :: "i123_sheet \<Rightarrow> nat \<Rightarrow> nat \<Rightarrow> u8 \<Rightarrow> (i123_sheet \<times> (int + unit)) option" where
  "i123_set_cell_format sh c r fm =
     (let k = key_of c r; i = lower_bound sh k in
      if i < length (cells sh) \<and> ckey (cells sh ! i) = k
      then Some (sh\<lparr>cells := (cells sh)[i := (cells sh ! i)\<lparr>fmt := fm\<rparr>]\<rparr>, Inr ())
      else if fm = WK1_FMT_FRESH_CELL then Some (sh, Inr ())
      else then_extents (i123_put_cell sh c r I123_K_BLANK fm None [] False 0 []) c r I123_K_BLANK)"

section \<open>Columns, cursor and view\<close>

definition i123_set_colwidth :: "i123_sheet \<Rightarrow> nat \<Rightarrow> u8 \<Rightarrow> i123_sheet \<times> (int + unit)" where
  "i123_set_colwidth sh c width =
     (if c \<ge> I123_MAX_COLS \<or> width > 240 then (sh, Inl I123_E_ARG) else (sh\<lparr>colw := (colw sh)[c := width]\<rparr>, Inr ()))"

definition i123_colwidth :: "i123_sheet \<Rightarrow> nat \<Rightarrow> nat" where
  "i123_colwidth sh c =
     (if c \<ge> I123_MAX_COLS then 0 else if colw sh ! c \<noteq> 0 then unat (colw sh ! c) else rd16 (win1 sh) 6)"

definition i123_set_cursor :: "i123_sheet \<Rightarrow> nat \<Rightarrow> nat \<Rightarrow> i123_sheet" where
  "i123_set_cursor sh c r = sh\<lparr>win1 := wr16 (wr16 (win1 sh) 0 c) 2 r\<rparr>"

definition i123_cursor_col :: "i123_sheet \<Rightarrow> nat" where "i123_cursor_col sh = rd16 (win1 sh) 0"

definition i123_cursor_row :: "i123_sheet \<Rightarrow> nat" where "i123_cursor_row sh = rd16 (win1 sh) 2"

definition i123_set_view :: "i123_sheet \<Rightarrow> nat \<Rightarrow> nat \<Rightarrow> i123_sheet" where
  "i123_set_view sh left top_row = sh\<lparr>win1 := wr16 (wr16 (win1 sh) 12 left) 14 top_row\<rparr>"

definition i123_view_left :: "i123_sheet \<Rightarrow> nat" where "i123_view_left sh = rd16 (win1 sh) 12"

definition i123_view_top :: "i123_sheet \<Rightarrow> nat" where "i123_view_top sh = rd16 (win1 sh) 14"

fun fitting_from :: "i123_sheet \<Rightarrow> nat list \<Rightarrow> nat \<Rightarrow> nat \<Rightarrow> nat" where
  "fitting_from sh [] chars tot = 0"
| "fitting_from sh (c # cs) chars tot =
     (if tot + i123_colwidth sh c > chars then 0 else fitting_from sh cs chars (tot + i123_colwidth sh c) + 1)"

definition i123_cols_fitting :: "i123_sheet \<Rightarrow> nat \<Rightarrow> nat \<Rightarrow> nat" where
  "i123_cols_fitting sh left chars = fitting_from sh [left..<I123_MAX_COLS] chars 0"

section \<open>Formula results\<close>

definition set_values :: "i123_sheet \<Rightarrow> nat \<Rightarrow> i123_cell \<Rightarrow> i123_sheet" where
  "set_values sh idx c = sh\<lparr>cells := (cells sh)[idx := c]\<rparr>"

text \<open>\<open>has\<close> is \<open>has_str\<close>, and \<open>s\<close> the \<open>n\<close> bytes at \<open>s\<close>.\<close>

definition i123_cell_set_cache :: "i123_sheet \<Rightarrow> nat \<Rightarrow> u8 list \<Rightarrow> bool \<Rightarrow> u8 list \<Rightarrow> (i123_sheet \<times> (int + unit)) option" where
  "i123_cell_set_cache sh idx v has s =
     (if idx \<ge> length (cells sh) then Some (sh, Inl I123_E_ARG)
      else let c = cells sh ! idx in
        if kind c \<noteq> I123_K_FORMULA \<or> length s > 0xFFFF then Some (sh, Inl I123_E_ARG)
        else if \<not> has then
          Some (set_values (sh\<lparr>pool_live := sub32 (pool_live sh) (slen c)\<rparr>) idx (c\<lparr>slen := 0, has_str := False, cval := v\<rparr>), Inr ())
        else if has_str c \<and> length s \<le> slen c then
          Some (set_values (sh\<lparr>pool := splice (pool sh) (off c + clen c) s, pool_live := sub32 (pool_live sh) (slen c - length s)\<rparr>)
            idx (c\<lparr>slen := length s, cval := v\<rparr>), Inr ())
        else (case pool_alloc sh (clen c + length s) of
          None \<Rightarrow> None
        | Some (s1, Inl rc) \<Rightarrow> Some (s1, Inl rc)
        | Some (s1, Inr o') \<Rightarrow>
            let d = cells s1 ! idx;
                p1 = copy_bytes (pool s1) o' (off d) (clen d);
                p2 = splice p1 (o' + clen d) s
            in Some (set_values (s1\<lparr>pool := p2, pool_live := sub32 (pool_live s1) (csize c)\<rparr>) idx
                 (d\<lparr>str_fmt := (if \<not> has_str d then fmt d else str_fmt d), off := o', slen := length s, has_str := True, cval := v\<rparr>),
                 Inr ())))"

declare lower_from.simps [simp del] install_from.simps [simp del]

end
