(* ===== verification/Recalc.thy ===== *)
theory Recalc imports Sheet begin

text \<open>
  Recalculation of the worksheet (\<open>os/i123/core/recalc.c\<close>) with the token widths and the reference words of
  \<open>formula.c\<close>: the enumeration of a formula's precedents, the depth-first walk of the natural order with its circular
  references, the columnwise and rowwise sweeps, and the passes of a recalculation.

  \<^item> The evaluator \<open>i123_eval\<close> works in floating point and is a parameter \<open>ev\<close>: it takes its context and the sheet, and
    returns the context and a refusal or a value; a number is its eight bytes. The formula compiler is a parameter too.
  \<^item> The frames are a list whose head is the frame \<open>frames[sp - 1]\<close>; entries above \<open>sp\<close> are never read. \<open>state\<close> has one
    entry per cell.
  \<^item> \<open>None\<close> is a loop that does not end.
\<close>

section \<open>Tokens and references\<close>

datatype tok_class = Unassigned | Operand | Ctrl | Unary | Binary | Fixed | Counted

abbreviation (input) WKF_CONST :: nat where "WKF_CONST \<equiv> 0"
abbreviation (input) WKF_VAR :: nat where "WKF_VAR \<equiv> 1"
abbreviation (input) WKF_RANGE :: nat where "WKF_RANGE \<equiv> 2"
abbreviation (input) WKF_RETURN :: nat where "WKF_RETURN \<equiv> 3"
abbreviation (input) WKF_INT :: nat where "WKF_INT \<equiv> 5"
abbreviation (input) WKF_STRING :: nat where "WKF_STRING \<equiv> 6"
abbreviation (input) WKF_NTOKENS :: nat where "WKF_NTOKENS \<equiv> 122"
abbreviation (input) WKF_REF_SIGN :: nat where "WKF_REF_SIGN \<equiv> 0x2000"

text \<open>The class and the arity of every row of \<open>WKF_TOKENS_INIT\<close>.\<close>

definition i123_tokens :: "(tok_class \<times> nat) list" where
  "i123_tokens =
   [(Operand, 0), (Operand, 0), (Operand, 0), (Ctrl, 0), (Ctrl, 0), (Operand, 0), (Operand, 0), (Unassigned, 0),
    (Unary, 1), (Binary, 2), (Binary, 2), (Binary, 2), (Binary, 2), (Binary, 2), (Binary, 2), (Binary, 2),
    (Binary, 2), (Binary, 2), (Binary, 2), (Binary, 2), (Binary, 2), (Binary, 2), (Unary, 1), (Unary, 1),
    (Binary, 2), (Unassigned, 0), (Unassigned, 0), (Unassigned, 0), (Unassigned, 0), (Unassigned, 0), (Unassigned, 0), (Fixed, 0),
    (Fixed, 0), (Fixed, 1), (Fixed, 1), (Fixed, 1), (Fixed, 1), (Fixed, 1), (Fixed, 0), (Fixed, 1),
    (Fixed, 1), (Fixed, 1), (Fixed, 2), (Fixed, 1), (Fixed, 1), (Fixed, 1), (Fixed, 1), (Fixed, 2),
    (Counted, 2), (Fixed, 1), (Fixed, 1), (Fixed, 0), (Fixed, 0), (Fixed, 0), (Fixed, 3), (Fixed, 0),
    (Fixed, 3), (Fixed, 3), (Fixed, 3), (Fixed, 3), (Fixed, 1), (Fixed, 1), (Fixed, 1), (Fixed, 2),
    (Fixed, 3), (Fixed, 1), (Fixed, 1), (Fixed, 1), (Fixed, 1), (Fixed, 1), (Fixed, 1), (Fixed, 1),
    (Fixed, 2), (Fixed, 3), (Fixed, 1), (Fixed, 1), (Fixed, 3), (Fixed, 1), (Fixed, 1), (Fixed, 1),
    (Counted, 1), (Counted, 1), (Counted, 1), (Counted, 1), (Counted, 1), (Fixed, 3), (Fixed, 2), (Counted, 1),
    (Counted, 1), (Fixed, 2), (Fixed, 3), (Fixed, 3), (Fixed, 3), (Fixed, 3), (Fixed, 3), (Fixed, 3),
    (Fixed, 3), (Fixed, 3), (Fixed, 3), (Fixed, 1), (Fixed, 1), (Fixed, 2), (Fixed, 1), (Fixed, 1),
    (Fixed, 2), (Fixed, 2), (Fixed, 4), (Fixed, 1), (Fixed, 2), (Fixed, 1), (Fixed, 1), (Fixed, 1),
    (Fixed, 1), (Fixed, 2), (Unassigned, 0), (Fixed, 1), (Fixed, 3), (Fixed, 3), (Fixed, 3), (Fixed, 3),
    (Fixed, 4), (Fixed, 4)]"

function string_end :: "u8 list \<Rightarrow> nat \<Rightarrow> nat" where
  "string_end code k = (if k < length code \<and> code ! k \<noteq> 0 then string_end code (k + 1) else k)"
  by pat_completeness auto
termination
  by (relation "measure (\<lambda>(code, k). length code - k)") auto

definition i123_token_size :: "u8 list \<Rightarrow> nat \<Rightarrow> nat" where
  "i123_token_size code i =
     (if i \<ge> length code then 0
      else let t = unat (code ! i) in
        if t \<ge> WKF_NTOKENS \<or> fst (i123_tokens ! t) = Unassigned then 0
        else if t = WKF_CONST then if i + 9 \<le> length code then 9 else 0
        else if t = WKF_VAR then if i + 5 \<le> length code then 5 else 0
        else if t = WKF_RANGE then if i + 9 \<le> length code then 9 else 0
        else if t = WKF_INT then if i + 3 \<le> length code then 3 else 0
        else if t = WKF_STRING then let k = string_end code (i + 1) in if k < length code then k + 1 - i else 0
        else if fst (i123_tokens ! t) = Counted then if i + 2 \<le> length code then 2 else 0
        else 1)"

text \<open>A reference word against the home coordinate; -1 is the ERR reference.\<close>

definition i123_ref_resolve :: "nat \<Rightarrow> nat \<Rightarrow> bool \<Rightarrow> int" where
  "i123_ref_resolve word home is_col =
     (let v = int (word mod 0x4000) in
      if bit word 14 then -1
      else if bit word 15 then
        (let v1 = (if bit (word mod 0x4000) 13 then v - 0x4000 else v)
         in (v1 + int home) mod (if is_col then 256 else 8192))
      else if \<not> is_col \<and> v \<ge> int I123_MAX_ROWS then -1
      else v mod (if is_col then 256 else 8192))"

section \<open>Storing a value\<close>

datatype i123_val = V_NUM "u8 list" | V_STR "u8 list" | V_ERR | V_NA | V_BLANK | V_RANGE nat nat nat nat

definition ERR_BYTES :: "u8 list" where "ERR_BYTES = [0, 0, 0, 0, 0, 0, 0xF0, 0x7F]"
definition NA_BYTES :: "u8 list" where "NA_BYTES = [0, 0, 0, 0, 0, 0, 0xF0, 0xFF]"
definition STR_BYTES :: "u8 list" where "STR_BYTES = [1, 0, 0, 0, 0, 0, 0xF0, 0x7F]"
abbreviation (input) I123_STR_MAX :: nat where "I123_STR_MAX \<equiv> 240"

definition is_nan_bytes :: "u8 list \<Rightarrow> bool" where
  "is_nan_bytes v \<longleftrightarrow> push_bit 4 (unat (v ! 7 AND 0x7F)) OR unat (drop_bit 4 (v ! 6)) = 0x7FF \<and>
     \<not> ((v ! 6 AND 0x0F) = 0 \<and> v ! 5 = 0 \<and> v ! 4 = 0 \<and> v ! 3 = 0 \<and> v ! 2 = 0 \<and> v ! 1 = 0 \<and> v ! 0 = 0)"

definition i123_store_result :: "i123_sheet \<Rightarrow> nat \<Rightarrow> i123_val \<Rightarrow> (i123_sheet \<times> (int + unit)) option" where
  "i123_store_result sh idx v =
     (if idx \<ge> length (cells sh) then Some (sh, Inl I123_E_ARG)
      else let c = cells sh ! idx in
        if kind c \<noteq> I123_K_FORMULA then Some (sh, Inl I123_E_ARG)
        else (case v of
          V_NUM b \<Rightarrow> i123_cell_set_cache sh idx b False []
        | V_NA \<Rightarrow> i123_cell_set_cache sh idx NA_BYTES False []
        | V_STR s \<Rightarrow> if length s > I123_STR_MAX then i123_cell_set_cache sh idx ERR_BYTES False []
            else i123_cell_set_cache sh idx (if has_str c \<and> is_nan_bytes (cval c) then cval c else STR_BYTES) True s
        | _ \<Rightarrow> i123_cell_set_cache sh idx ERR_BYTES False []))"

type_synonym 'c evaluator = "'c \<Rightarrow> i123_sheet \<Rightarrow> nat \<Rightarrow> nat \<Rightarrow> u8 list \<Rightarrow> 'c \<times> (int + i123_val)"

definition cell_code :: "i123_sheet \<Rightarrow> nat \<Rightarrow> u8 list" where
  "cell_code sh i = window (pool sh) (off (cells sh ! i)) (clen (cells sh ! i))"

definition eval_store :: "'c evaluator \<Rightarrow> 'c \<Rightarrow> i123_sheet \<Rightarrow> nat \<Rightarrow> ('c \<times> i123_sheet \<times> (int + unit)) option" where
  "eval_store ev cx sh idx =
     (let c = cells sh ! idx; (cx1, out) = ev cx sh (col c) (row c) (cell_code sh idx) in
      case out of
        Inl rc \<Rightarrow> if rc = I123_E_FORMAT then map_option (\<lambda>(s, r). (cx1, s, r)) (i123_store_result sh idx V_ERR)
                  else Some (cx1, sh, Inl rc)
      | Inr v \<Rightarrow> map_option (\<lambda>(s, r). (cx1, s, r)) (i123_store_result sh idx v))"

section \<open>Precedents\<close>

record i123_frame =
  f_cell :: nat
  ri :: nat
  pc :: nat
  inrange :: bool

text \<open>The scan of the store for formula cells inside a rectangle; \<open>bad\<close> is a corner row that is ERR.\<close>

function range_next :: "i123_sheet \<Rightarrow> nat \<Rightarrow> int \<Rightarrow> int \<Rightarrow> int \<Rightarrow> int \<Rightarrow> bool \<Rightarrow> nat \<Rightarrow> bool \<Rightarrow> bool \<times> nat option" where
  "range_next sh cell lc hc lr hr bad k self =
     (if k \<ge> length (cells sh) then (self, None)
      else let q = cells sh ! k in
        if int (row q) < lr \<or> bad then range_next sh cell lc hc lr hr bad (k + 1) self
        else if int (row q) > hr then (self, None)
        else if int (col q) < lc \<or> int (col q) > hc \<or> kind q \<noteq> I123_K_FORMULA then range_next sh cell lc hc lr hr bad (k + 1) self
        else if k = cell then range_next sh cell lc hc lr hr bad (k + 1) True
        else (self, Some k))"
  by pat_completeness auto
termination
  by (relation "measure (\<lambda>(sh, cell, lc, hc, lr, hr, bad, k, self). length (cells sh) - k)") auto

text \<open>The first store index at or after a row.\<close>

function row_from :: "i123_cell list \<Rightarrow> int \<Rightarrow> nat \<Rightarrow> nat \<Rightarrow> nat" where
  "row_from cs lr lo hi =
     (if lo < hi then
        let mid = lo + (hi - lo) div 2
        in if int (row (cs ! mid)) < lr then row_from cs lr (mid + 1) hi else row_from cs lr lo mid
      else lo)"
  by pat_completeness auto
termination
  by (relation "measure (\<lambda>(cs, lr, lo, hi). hi - lo)") auto

abbreviation wrap16 :: "nat \<Rightarrow> nat" where
  "wrap16 n \<equiv> n mod 0x10000"

text \<open>The corners of the RANGE token at \<open>p\<close>: columns and rows of both.\<close>

definition range_corners :: "u8 list \<Rightarrow> nat \<Rightarrow> i123_cell \<Rightarrow> int \<times> int \<times> int \<times> int" where
  "range_corners code p c =
     (i123_ref_resolve (rd16 code (p + 1)) (col c) True, i123_ref_resolve (rd16 code (p + 3)) (row c) False,
      i123_ref_resolve (rd16 code (p + 5)) (col c) True, i123_ref_resolve (rd16 code (p + 7)) (row c) False)"

partial_function (option) next_precedent :: "i123_sheet \<Rightarrow> i123_frame \<Rightarrow> bool \<Rightarrow> (i123_frame \<times> bool \<times> nat option) option" where
  "next_precedent sh f self =
     (let c = cells sh ! f_cell f; code = cell_code sh (f_cell f) in
      if inrange f then
        (let (c0, r0, c1, r1) = range_corners code (pc f) c in
         case range_next sh (f_cell f) (min c0 c1) (max c0 c1) (min r0 r1) (max r0 r1) (r0 < 0 \<or> r1 < 0) (ri f) self of
           (self1, Some k) \<Rightarrow> Some (f\<lparr>ri := k + 1\<rparr>, self1, Some k)
         | (self1, None) \<Rightarrow> next_precedent sh (f\<lparr>inrange := False, pc := wrap16 (pc f + 9)\<rparr>) self1)
      else if pc f \<ge> length code then Some (f, self, None)
      else let t = unat (code ! pc f); n = i123_token_size code (pc f); fwd = f\<lparr>pc := wrap16 (pc f + n)\<rparr> in
        if t = WKF_RETURN \<or> n = 0 then Some (f\<lparr>pc := wrap16 (length code)\<rparr>, self, None)
        else if t = WKF_VAR then
          (let cc = i123_ref_resolve (rd16 code (pc f + 1)) (col c) True;
               rr = i123_ref_resolve (rd16 code (pc f + 3)) (row c) False
           in if rr < 0 then next_precedent sh fwd self
              else (case index_of sh (wrap16 (nat (cc mod 0x10000))) (nat rr) of
                None \<Rightarrow> next_precedent sh fwd self
              | Some k \<Rightarrow>
                  if kind (cells sh ! k) \<noteq> I123_K_FORMULA then next_precedent sh fwd self
                  else if k = f_cell f then next_precedent sh fwd True
                  else Some (fwd, self, Some k)))
        else if t = WKF_RANGE then
          (let (c0, r0, c1, r1) = range_corners code (pc f) c
           in if r0 < 0 \<or> r1 < 0 then next_precedent sh fwd self
              else next_precedent sh (f\<lparr>ri := row_from (cells sh) (min r0 r1) 0 (length (cells sh)), inrange := True\<rparr>) self)
        else next_precedent sh fwd self)"

section \<open>The natural order\<close>

abbreviation (input) ST_NEW :: nat where "ST_NEW \<equiv> 0"
abbreviation (input) ST_STACK :: nat where "ST_STACK \<equiv> 1"
abbreviation (input) ST_DONE :: nat where "ST_DONE \<equiv> 2"

record circ_t =
  ci_circ :: bool
  ci_col :: nat
  ci_row :: nat

definition note_circ :: "i123_sheet \<Rightarrow> circ_t \<Rightarrow> nat \<Rightarrow> circ_t" where
  "note_circ sh ci idx =
     (if \<not> ci_circ ci then \<lparr>ci_circ = True, ci_col = col (cells sh ! idx), ci_row = row (cells sh ! idx)\<rparr> else ci)"

datatype scan_out = ScanDone | ScanPush nat | ScanAbandon

text \<open>The precedents of one frame up to the first that decides: none left, a new one, or one already on the walk.\<close>

partial_function (option) scan_frame :: "i123_sheet \<Rightarrow> nat list \<Rightarrow> bool \<Rightarrow> i123_frame \<Rightarrow> circ_t \<Rightarrow> (i123_frame \<times> circ_t \<times> scan_out) option" where
  "scan_frame sh st within f ci = (case next_precedent sh f False of
     None \<Rightarrow> None
   | Some (f1, self, p) \<Rightarrow>
       let ci1 = (if self then note_circ sh ci (f_cell f1) else ci) in
       (case p of
          None \<Rightarrow> Some (f1, ci1, ScanDone)
        | Some k \<Rightarrow>
            if st ! k = ST_DONE then scan_frame sh st within f1 ci1
            else if st ! k = ST_STACK then
              (let ci2 = note_circ sh ci1 k in
               if within then Some (f1, ci2, ScanAbandon) else scan_frame sh st within f1 ci2)
            else Some (f1, ci1, ScanPush k)))"

definition new_frame :: "nat \<Rightarrow> i123_frame" where
  "new_frame x = \<lparr>f_cell = x, ri = 0, pc = 0, inrange = False\<rparr>"

text \<open>The walk \<open>while (sp > 0)\<close>: one round for the top frame, which ends in a refusal or in the next state, and the loop.\<close>

type_synonym 'c walk = "i123_frame list \<times> nat list \<times> nat \<times> circ_t \<times> 'c \<times> i123_sheet"

definition walk_step :: "'c evaluator \<Rightarrow> nat \<Rightarrow> bool \<Rightarrow> nat \<Rightarrow> 'c walk \<Rightarrow> ('c walk + 'c \<times> i123_sheet \<times> int) option" where
  "walk_step ev ccap evaluate budget w = (case w of (fs, st, work, ci, cx, sh) \<Rightarrow>
     (case scan_frame sh st (work < budget) (hd fs) ci of
       None \<Rightarrow> None
     | Some (f, ci1, ScanAbandon) \<Rightarrow> Some (Inl (tl fs, st[f_cell f := ST_NEW], work, ci1, cx, sh))
     | Some (f, ci1, ScanPush p) \<Rightarrow>
         if length fs \<ge> ccap then Some (Inr (cx, sh, I123_E_FULL))
         else Some (Inl (new_frame p # f # tl fs, st[p := ST_STACK], wrap32 (work + 1), ci1, cx, sh))
     | Some (f, ci1, ScanDone) \<Rightarrow>
         if evaluate then (case eval_store ev cx sh (f_cell f) of
             None \<Rightarrow> None
           | Some (cx1, s1, Inl rc) \<Rightarrow> Some (Inr (cx1, s1, rc))
           | Some (cx1, s1, Inr _) \<Rightarrow> Some (Inl (tl fs, st[f_cell f := ST_DONE], work, ci1, cx1, s1)))
         else Some (Inl (tl fs, st[f_cell f := ST_DONE], work, ci1, cx, sh))))"

partial_function (option) walk_stack :: "'c evaluator \<Rightarrow> nat \<Rightarrow> bool \<Rightarrow> nat \<Rightarrow> 'c walk \<Rightarrow>
    ('c \<times> i123_sheet \<times> (int + nat list \<times> nat \<times> circ_t)) option" where
  "walk_stack ev ccap evaluate budget w =
     (if fst w = [] then (case w of (fs, st, work, ci, cx, sh) \<Rightarrow> Some (cx, sh, Inr (st, work, ci)))
      else (case walk_step ev ccap evaluate budget w of
        None \<Rightarrow> None
      | Some (Inr (cx, sh, rc)) \<Rightarrow> Some (cx, sh, Inl rc)
      | Some (Inl w') \<Rightarrow> walk_stack ev ccap evaluate budget w'))"

primrec pass_from :: "'c evaluator \<Rightarrow> nat \<Rightarrow> bool \<Rightarrow> nat \<Rightarrow> nat list \<Rightarrow> nat list \<Rightarrow> nat \<Rightarrow> circ_t \<Rightarrow> 'c \<Rightarrow> i123_sheet \<Rightarrow>
    ('c \<times> i123_sheet \<times> (int + circ_t)) option" where
  "pass_from ev ccap evaluate budget [] st work ci cx sh = Some (cx, sh, Inr ci)"
| "pass_from ev ccap evaluate budget (x # xs) st work ci cx sh =
     (if kind (cells sh ! x) \<noteq> I123_K_FORMULA \<or> st ! x = ST_DONE then pass_from ev ccap evaluate budget xs st work ci cx sh
      else (case walk_stack ev ccap evaluate budget ([new_frame x], st[x := ST_STACK], work, ci, cx, sh) of
        None \<Rightarrow> None
      | Some (cx1, s1, Inl rc) \<Rightarrow> Some (cx1, s1, Inl rc)
      | Some (cx1, s1, Inr (st1, work1, ci1)) \<Rightarrow> pass_from ev ccap evaluate budget xs st1 work1 ci1 cx1 s1))"

definition natural_pass :: "'c evaluator \<Rightarrow> nat \<Rightarrow> bool \<Rightarrow> circ_t \<Rightarrow> 'c \<Rightarrow> i123_sheet \<Rightarrow> ('c \<times> i123_sheet \<times> (int + circ_t)) option" where
  "natural_pass ev ccap evaluate ci cx sh =
     pass_from ev ccap evaluate (wrap32 (64 * length (cells sh) + 1024)) [0..<length (cells sh)]
       (replicate (length (cells sh)) ST_NEW) 0 ci cx sh"

section \<open>Columnwise and rowwise order\<close>

primrec sweep_cells :: "'c evaluator \<Rightarrow> (i123_cell \<Rightarrow> bool) \<Rightarrow> nat list \<Rightarrow> 'c \<Rightarrow> i123_sheet \<Rightarrow> ('c \<times> i123_sheet \<times> (int + unit)) option" where
  "sweep_cells ev skip [] cx sh = Some (cx, sh, Inr ())"
| "sweep_cells ev skip (i # is) cx sh =
     (if skip (cells sh ! i) then sweep_cells ev skip is cx sh
      else (case eval_store ev cx sh i of
        None \<Rightarrow> None
      | Some (cx1, s1, Inl rc) \<Rightarrow> Some (cx1, s1, Inl rc)
      | Some (cx1, s1, Inr _) \<Rightarrow> sweep_cells ev skip is cx1 s1))"

primrec sweep_columns :: "'c evaluator \<Rightarrow> nat list \<Rightarrow> 'c \<Rightarrow> i123_sheet \<Rightarrow> ('c \<times> i123_sheet \<times> (int + unit)) option" where
  "sweep_columns ev [] cx sh = Some (cx, sh, Inr ())"
| "sweep_columns ev (x # xs) cx sh =
     (case sweep_cells ev (\<lambda>c. col c \<noteq> x \<or> kind c \<noteq> I123_K_FORMULA) [0..<length (cells sh)] cx sh of
        None \<Rightarrow> None
      | Some (cx1, s1, Inl rc) \<Rightarrow> Some (cx1, s1, Inl rc)
      | Some (cx1, s1, Inr _) \<Rightarrow> sweep_columns ev xs cx1 s1)"

definition sweep_pass :: "'c evaluator \<Rightarrow> bool \<Rightarrow> 'c \<Rightarrow> i123_sheet \<Rightarrow> ('c \<times> i123_sheet \<times> (int + unit)) option" where
  "sweep_pass ev columnwise cx sh =
     (if \<not> columnwise then sweep_cells ev (\<lambda>c. kind c \<noteq> I123_K_FORMULA) [0..<length (cells sh)] cx sh
      else sweep_columns ev [0..<I123_MAX_COLS] cx sh)"

section \<open>A recalculation\<close>

text \<open>At most \<open>n\<close> further natural passes while a circular reference exists, and \<open>n\<close> sweeps.\<close>

primrec natural_passes :: "'c evaluator \<Rightarrow> nat \<Rightarrow> nat \<Rightarrow> circ_t \<Rightarrow> 'c \<Rightarrow> i123_sheet \<Rightarrow> ('c \<times> i123_sheet \<times> (int + circ_t)) option" where
  "natural_passes ev ccap 0 ci cx sh = Some (cx, sh, Inr ci)"
| "natural_passes ev ccap (Suc n) ci cx sh =
     (if \<not> ci_circ ci then Some (cx, sh, Inr ci)
      else (case natural_pass ev ccap True ci cx sh of
        None \<Rightarrow> None
      | Some (cx1, s1, Inl rc) \<Rightarrow> Some (cx1, s1, Inl rc)
      | Some (cx1, s1, Inr ci1) \<Rightarrow> natural_passes ev ccap n ci1 cx1 s1))"

primrec sweep_passes :: "'c evaluator \<Rightarrow> bool \<Rightarrow> nat \<Rightarrow> 'c \<Rightarrow> i123_sheet \<Rightarrow> ('c \<times> i123_sheet \<times> (int + unit)) option" where
  "sweep_passes ev columnwise 0 cx sh = Some (cx, sh, Inr ())"
| "sweep_passes ev columnwise (Suc n) cx sh = (case sweep_pass ev columnwise cx sh of
     None \<Rightarrow> None
   | Some (cx1, s1, Inl rc) \<Rightarrow> Some (cx1, s1, Inl rc)
   | Some (cx1, s1, Inr _) \<Rightarrow> sweep_passes ev columnwise n cx1 s1)"

definition recalc_passes :: "i123_sheet \<Rightarrow> nat" where
  "recalc_passes sh = (let p = unat (calccount sh); p1 = (if p = 0 then 1 else p) in if p1 > 50 then 50 else p1)"

abbreviation (input) no_circ :: circ_t where
  "no_circ \<equiv> \<lparr>ci_circ = False, ci_col = 0, ci_row = 0\<rparr>"

definition i123_recalc :: "'c evaluator \<Rightarrow> nat \<Rightarrow> 'c \<Rightarrow> i123_sheet \<Rightarrow> ('c \<times> i123_sheet \<times> (int + unit)) option" where
  "i123_recalc ev ccap cx sh =
     (if length (cells sh) > ccap then Some (cx, sh, Inl I123_E_FULL)
      else let passes = recalc_passes sh;
               out = (if calcorder sh = 0
                 then (case natural_pass ev ccap True no_circ cx sh of
                     None \<Rightarrow> None
                   | Some (cx1, s1, Inl rc) \<Rightarrow> Some (cx1, s1, Inl rc)
                   | Some (cx1, s1, Inr ci) \<Rightarrow> natural_passes ev ccap (passes - 1) ci cx1 s1)
                 else map_option (\<lambda>(cx1, s1, r). (cx1, s1, map_sum id (\<lambda>_. no_circ) r))
                   (sweep_passes ev (calcorder sh = 1) passes cx sh))
      in (case out of
        None \<Rightarrow> None
      | Some (cx1, s1, Inl rc) \<Rightarrow> Some (cx1, s1, Inl rc)
      | Some (cx1, s1, Inr ci) \<Rightarrow>
          Some (cx1, s1\<lparr>circ := ci_circ ci, circ_at := (ci_col ci, ci_row ci), calc := False\<rparr>, Inr ())))"

definition i123_recalc_cell :: "'c evaluator \<Rightarrow> 'c \<Rightarrow> i123_sheet \<Rightarrow> nat \<Rightarrow> nat \<Rightarrow> ('c \<times> i123_sheet \<times> (int + unit)) option" where
  "i123_recalc_cell ev cx sh c r = (case index_of sh c r of
     None \<Rightarrow> Some (cx, sh, Inl I123_E_ARG)
   | Some k \<Rightarrow> if kind (cells sh ! k) \<noteq> I123_K_FORMULA then Some (cx, sh, Inl I123_E_ARG) else eval_store ev cx sh k)"

definition i123_after_entry :: "'c evaluator \<Rightarrow> nat \<Rightarrow> 'c \<Rightarrow> i123_sheet \<Rightarrow> ('c \<times> i123_sheet \<times> (int + unit)) option" where
  "i123_after_entry ev ccap cx sh =
     (if calcmode sh = 0 then Some (cx, sh\<lparr>calc := True\<rparr>, Inr ()) else i123_recalc ev ccap cx sh)"

text \<open>\<open>compile\<close> is \<open>i123_formula_compile_named\<close>.\<close>

definition i123_enter_formula :: "'c evaluator \<Rightarrow> (i123_sheet \<Rightarrow> u8 list \<Rightarrow> nat \<Rightarrow> nat \<Rightarrow> int + u8 list) \<Rightarrow> nat \<Rightarrow> 'c \<Rightarrow> i123_sheet \<Rightarrow>
    nat \<Rightarrow> nat \<Rightarrow> u8 list \<Rightarrow> ('c \<times> i123_sheet \<times> (int + unit)) option" where
  "i123_enter_formula ev compile ccap cx sh c r text =
     (let fm = (case i123_find sh c r of None \<Rightarrow> WK1_FMT_FRESH_CELL | Some old \<Rightarrow> fmt old) in
      case compile sh text c r of
        Inl rc \<Rightarrow> Some (cx, sh, Inl rc)
      | Inr code \<Rightarrow> (case i123_set_formula_raw sh c r fm (replicate 8 0) code None of
          None \<Rightarrow> None
        | Some (s1, Inl rc) \<Rightarrow> Some (cx, s1, Inl rc)
        | Some (s1, Inr _) \<Rightarrow>
            if calcmode s1 = 0
            then map_option (\<lambda>(cx1, s2, out). (cx1, s2\<lparr>calc := True\<rparr>, out)) (i123_recalc_cell ev cx s1 c r)
            else i123_recalc ev ccap cx s1))"

declare string_end.simps [simp del] range_next.simps [simp del] row_from.simps [simp del]

end
