(* ===== verification/SheetPool.thy ===== *)
theory SheetPool imports Sheet begin

text \<open>
  The string pool of the worksheet: the upward copy, the selection of the lowest blob, the compaction and the allocation.
  The compaction always ends, keeps the bytes of every cell, and leaves \<open>pool_used\<close> at exactly the live bytes; so an
  allocation fails only when the live bytes and the request exceed the pool.
\<close>

named_theorems sheet_simps \<open>what the worksheet operations leave alone\<close>

section \<open>Unsigned differences and keys\<close>

lemma sub32_le [simp]: "b \<le> a \<Longrightarrow> a < 0x100000000 \<Longrightarrow> sub32 a b = a - b"
  by (simp add: sub32_def wrap32_def mod_if)

section \<open>Copying\<close>

lemma length_copy_bytes [simp]: "length (copy_bytes p d s n) = length p"
  by (induction n) (simp_all add: Let_def)

lemma nth_copy_bytes:
  assumes "d + n \<le> length p" "s + n \<le> length p" "d \<le> s \<or> s + n \<le> d"
  shows "copy_bytes p d s n ! k = (if d \<le> k \<and> k < d + n then p ! (s + (k - d)) else p ! k)"
  using assms
proof (induction n arbitrary: k)
  case (Suc n)
  have IH: "\<And>k. copy_bytes p d s n ! k = (if d \<le> k \<and> k < d + n then p ! (s + (k - d)) else p ! k)"
    using Suc.IH Suc.prems by (metis add_Suc_right le_SucI Suc_leD)
  have "\<not> (d \<le> s + n \<and> s + n < d + n)" using Suc.prems(3) by auto
  then have last: "copy_bytes p d s n ! (s + n) = p ! (s + n)" unfolding IH by presburger
  show ?case
  proof (cases "k = d + n")
    case True
    then show ?thesis using Suc.prems(1) by (simp add: Let_def last)
  next
    case False
    then show ?thesis using IH [of k] by (simp add: Let_def)
  qed
qed auto

lemma window_copied:
  assumes "d + n \<le> length p" "s + n \<le> length p" "d \<le> s \<or> s + n \<le> d"
  shows "window (copy_bytes p d s n) d n = window p s n"
  using assms by (intro nth_equalityI) (simp_all add: window_nth nth_copy_bytes)

lemma window_copy_apart:
  assumes "d + n \<le> length p" "s + n \<le> length p" "d \<le> s \<or> s + n \<le> d" "a + m \<le> length p" "a + m \<le> d \<or> d + n \<le> a"
  shows "window (copy_bytes p d s n) a m = window p a m"
  using assms by (intro window_cong) (auto simp: nth_copy_bytes)

section \<open>Blobs\<close>

text \<open>The bytes of a cell, and a cell without its place in the pool.\<close>

definition blob :: "u8 list \<Rightarrow> i123_cell \<Rightarrow> u8 list" where
  "blob p c = window p (off c) (csize c)"

definition placeless :: "u8 list \<Rightarrow> i123_cell \<Rightarrow> i123_cell \<times> u8 list" where
  "placeless p c = (c\<lparr>off := 0\<rparr>, blob p c)"

text \<open>Two cells that own bytes own different ones.\<close>

definition apart :: "i123_cell \<Rightarrow> i123_cell \<Rightarrow> bool" where
  "apart c d \<longleftrightarrow> csize c = 0 \<or> csize d = 0 \<or> off c + csize c \<le> off d \<or> off d + csize d \<le> off c"

definition inside :: "nat \<Rightarrow> i123_cell \<Rightarrow> bool" where
  "inside lim c \<longleftrightarrow> csize c = 0 \<or> off c + csize c \<le> lim"

abbreviation live_bytes :: "i123_cell list \<Rightarrow> nat" where
  "live_bytes cs \<equiv> sum_list (map csize cs)"

lemma blobs_apart_sym: "apart c d \<Longrightarrow> apart d c"
  by (auto simp: apart_def)

lemma apart_empty [simp]: "csize c = 0 \<Longrightarrow> apart c d" "csize d = 0 \<Longrightarrow> apart c d"
  by (auto simp: apart_def)

lemma inside_empty [simp]: "csize c = 0 \<Longrightarrow> inside lim c"
  by (simp add: inside_def)

lemma inside_mono: "inside lim c \<Longrightarrow> lim \<le> lim' \<Longrightarrow> inside lim' c"
  by (auto simp: inside_def)

lemma blob_empty [simp]: "csize c = 0 \<Longrightarrow> blob p c = []"
  by (simp add: blob_def)

lemma blob_cong:
  assumes "length p' = length p" "inside (length p) c"
    and "\<And>k. off c \<le> k \<Longrightarrow> k < off c + csize c \<Longrightarrow> p' ! k = p ! k"
  shows "blob p' c = blob p c"
proof (cases "csize c = 0")
  case False
  then show ?thesis using assms unfolding blob_def inside_def by (intro window_cong) auto
qed simp

lemma sorted_wrt_mid:
  assumes "\<And>c d. R c d \<Longrightarrow> R d c"
  shows "sorted_wrt R (ls @ c # rs) \<longleftrightarrow> sorted_wrt R (ls @ rs) \<and> (\<forall>d \<in> set (ls @ rs). R c d)"
  using assms by (auto simp: sorted_wrt_append)

lemmas apart_mid = sorted_wrt_mid [of apart, OF blobs_apart_sym]

section \<open>The lowest blob\<close>

abbreviation waiting :: "nat \<Rightarrow> i123_cell \<Rightarrow> bool" where
  "waiting scan c \<equiv> 0 < csize c \<and> scan \<le> off c"

lemma best_blob_None: "best_blob cs scan n = None \<Longrightarrow> i < n \<Longrightarrow> \<not> waiting scan (cs ! i)"
  by (induction n) (auto simp: Let_def less_Suc_eq split: if_splits option.splits)

lemma best_blob_Some:
  "best_blob cs scan n = Some b \<Longrightarrow> b < n \<and> waiting scan (cs ! b) \<and> (\<forall>i < n. waiting scan (cs ! i) \<longrightarrow> off (cs ! b) \<le> off (cs ! i))"
proof (induction n arbitrary: b)
  case (Suc n)
  show ?case
  proof (cases "best_blob cs scan n")
    case None
    then have "b = n \<and> waiting scan (cs ! n)" using Suc.prems by (auto simp: Let_def split: if_splits)
    moreover have "\<not> waiting scan (cs ! i)" if "i < n" for i using best_blob_None [OF None that] .
    ultimately show ?thesis using less_antisym by blast
  next
    case (Some a)
    have low: "a < n" "waiting scan (cs ! a)" "\<And>i. i < n \<Longrightarrow> waiting scan (cs ! i) \<Longrightarrow> off (cs ! a) \<le> off (cs ! i)"
      using Suc.IH [OF Some] by blast+
    consider "b = n" "waiting scan (cs ! n)" "off (cs ! n) < off (cs ! a)"
      | "b = a" "\<not> waiting scan (cs ! n) \<or> off (cs ! a) \<le> off (cs ! n)"
      using Suc.prems Some by (auto simp: Let_def not_less split: if_splits)
    then show ?thesis
    proof cases
      case 1
      have "off (cs ! n) \<le> off (cs ! i)" if "i < Suc n" "waiting scan (cs ! i)" for i
        using low(3) [of i] that 1(3) by (cases "i = n") auto
      then show ?thesis using 1 by simp
    next
      case 2
      have "off (cs ! a) \<le> off (cs ! i)" if "i < Suc n" "waiting scan (cs ! i)" for i
        using low(3) [of i] that 2(2) by (cases "i = n") auto
      then show ?thesis using 2(1) low(1,2) by simp
    qed
  qed
qed simp

section \<open>Compaction\<close>

lemma csize_off [simp]: "csize (c\<lparr>off := x\<rparr>) = csize c"
  by (simp add: csize_def)

lemma placeless_off: "placeless p' (c\<lparr>off := x\<rparr>) = placeless p c \<longleftrightarrow> blob p' (c\<lparr>off := x\<rparr>) = blob p c"
  by (simp add: placeless_def)

lemma placeless_blob: "blob p' c = blob p c \<Longrightarrow> placeless p' c = placeless p c"
  by (simp add: placeless_def)

text \<open>What one move does: \<open>c\<close>, the lowest cell still waiting, comes to \<open>dst\<close>.\<close>

lemma compact_move:
  assumes low: "\<And>d. d \<in> set (ls @ rs) \<Longrightarrow> waiting scan d \<Longrightarrow> off c \<le> off d"
    and c: "waiting scan c" "off c + csize c \<le> length p" "dst \<le> off c"
    and ap: "sorted_wrt apart (ls @ c # rs)"
    and ins: "\<And>d. d \<in> set (ls @ rs) \<Longrightarrow> inside (length p) d"
    and past: "\<And>d. d \<in> set (ls @ rs) \<Longrightarrow> 0 < csize d \<Longrightarrow> (if scan \<le> off d then dst \<le> off d else off d + csize d \<le> dst)"
    and p': "p' = (if off c \<noteq> dst then copy_bytes p dst (off c) (csize c) else p)"
    and c': "c' = c\<lparr>off := dst\<rparr>"
  shows "length p' = length p" "map (placeless p') (ls @ c' # rs) = map (placeless p) (ls @ c # rs)"
    "sorted_wrt apart (ls @ c' # rs)" "\<And>d. d \<in> set (ls @ c' # rs) \<Longrightarrow> inside (length p) d"
    "\<And>d. d \<in> set (ls @ c' # rs) \<Longrightarrow> 0 < csize d \<Longrightarrow>
       (if off c + 1 \<le> off d then dst + csize c \<le> off d else off d + csize d \<le> dst + csize c)"
    "filter (waiting (off c + 1)) (ls @ c' # rs) = filter (waiting scan) (ls @ rs)"
proof -
  show len: "length p' = length p" by (simp add: p')
  have side: "off c + csize c \<le> off d \<and> waiting scan d \<or> off d + csize d \<le> dst \<and> \<not> waiting scan d"
    if d: "d \<in> set (ls @ rs)" "0 < csize d" for d
  proof (cases "scan \<le> off d")
    case True
    then have "off c \<le> off d" using low [OF d(1)] d(2) by simp
    moreover have "apart c d" using ap d(1) by (auto simp: apart_mid)
    ultimately show ?thesis using True d(2) c(1) by (auto simp: apart_def)
  next
    case False
    then show ?thesis using past [OF d] by simp
  qed
  have keep: "blob p' d = blob p d" if "d \<in> set (ls @ rs)" for d
  proof (cases "csize d = 0")
    case False
    then show ?thesis using side [OF that] ins [OF that] c unfolding blob_def p' inside_def
      by (auto intro!: window_copy_apart)
  qed simp
  have moved: "blob p' c' = blob p c"
    using c by (auto simp: blob_def p' c' window_copied)
  show "map (placeless p') (ls @ c' # rs) = map (placeless p) (ls @ c # rs)"
  proof -
    have "placeless p' c' = placeless p c" using moved unfolding c' placeless_off .
    moreover have "placeless p' d = placeless p d" if "d \<in> set (ls @ rs)" for d using placeless_blob [OF keep [OF that]] .
    ultimately show ?thesis by simp
  qed
  have "apart c' d" if "d \<in> set (ls @ rs)" for d
  proof (cases "csize d = 0")
    case False
    then show ?thesis using side [OF that] c(3) by (auto simp: apart_def c')
  qed simp
  then show "sorted_wrt apart (ls @ c' # rs)" using ap by (auto simp: apart_mid)
  show "inside (length p) d" if "d \<in> set (ls @ c' # rs)" for d
  proof (cases "d = c'")
    case True
    then show ?thesis using c by (simp add: c' inside_def)
  next
    case False
    then show ?thesis using ins [of d] that by auto
  qed
  show "if off c + 1 \<le> off d then dst + csize c \<le> off d else off d + csize d \<le> dst + csize c"
    if "d \<in> set (ls @ c' # rs)" "0 < csize d" for d
  proof (cases "d = c'")
    case True
    then show ?thesis using c by (simp add: c')
  next
    case False
    then have "d \<in> set (ls @ rs)" using that by auto
    from side [OF this that(2)] show ?thesis using c by auto
  qed
  have "waiting (off c + 1) d \<longleftrightarrow> waiting scan d" if "d \<in> set (ls @ rs)" for d
    using side [OF that] c by auto
  then have "filter (waiting (off c + 1)) (ls @ rs) = filter (waiting scan) (ls @ rs)"
    by (intro filter_cong) auto
  then show "filter (waiting (off c + 1)) (ls @ c' # rs) = filter (waiting scan) (ls @ rs)"
    using c(3) by (simp add: c')
qed

text \<open>Between two moves: the cells below \<open>scan\<close> lie packed under \<open>dst\<close>, the others have not moved.\<close>

definition packing :: "nat \<Rightarrow> nat \<Rightarrow> u8 list \<Rightarrow> i123_cell list \<Rightarrow> bool" where
  "packing dst scan p cs \<longleftrightarrow> length p < 0x80000000 \<and> dst \<le> length p \<and> sorted_wrt apart cs \<and>
     (\<forall>c \<in> set cs. inside (length p) c) \<and>
     (\<forall>c \<in> set cs. 0 < csize c \<longrightarrow> (if scan \<le> off c then dst \<le> off c else off c + csize c \<le> dst)) \<and>
     dst + live_bytes (filter (waiting scan) cs) = live_bytes cs"

lemma packing_end: "packing dst scan p cs \<Longrightarrow> filter (waiting scan) cs = [] \<Longrightarrow>
    dst = live_bytes cs \<and> (\<forall>c \<in> set cs. inside (live_bytes cs) c)"
  by (fastforce simp: packing_def inside_def filter_empty_conv)

lemma live_bytes_placeless: "map (placeless p) cs = map (placeless q) ds \<Longrightarrow> live_bytes cs = live_bytes ds"
proof -
  assume "map (placeless p) cs = map (placeless q) ds"
  then have "map (csize \<circ> fst \<circ> placeless p) cs = map (csize \<circ> fst \<circ> placeless q) ds"
    by (metis map_map)
  then show ?thesis by (simp add: placeless_def comp_def)
qed

lemma compact_from_ok:
  assumes "packing dst scan (pool s) (cells s)"
  shows "\<exists>p cs. compact_from dst scan s = Some (s\<lparr>pool := p, cells := cs, pool_used := live_bytes (cells s), pool_live := live_bytes (cells s)\<rparr>) \<and>
    length p = length (pool s) \<and> map (placeless p) cs = map (placeless (pool s)) (cells s) \<and> sorted_wrt apart cs \<and>
    (\<forall>c \<in> set cs. inside (live_bytes (cells s)) c)"
  using assms
proof (induction "length (filter (waiting scan) (cells s))" arbitrary: dst scan s rule: less_induct)
  case less
  note inv = less.prems [unfolded packing_def]
  show ?case
  proof (cases "best_blob (cells s) scan (length (cells s))")
    case None
    then have "filter (waiting scan) (cells s) = []"
      using None by (auto simp: filter_empty_conv in_set_conv_nth dest: best_blob_None)
    from packing_end [OF less.prems this] inv None show ?thesis
      by (subst compact_from.simps, intro exI [of _ "pool s"] exI [of _ "cells s"]) simp
  next
    case (Some b)
    define c where "c = cells s ! b"
    define ls where "ls = take b (cells s)"
    define rs where "rs = drop (Suc b) (cells s)"
    define c' where "c' = c\<lparr>off := dst\<rparr>"
    define p' where "p' = (if off c \<noteq> dst then copy_bytes (pool s) dst (off c) (csize c) else pool s)"
    define t where "t = s\<lparr>pool := p', cells := ls @ c' # rs\<rparr>"
    note best = best_blob_Some [OF Some]
    have split: "cells s = ls @ c # rs" and b: "b = length ls"
      using best by (simp_all add: ls_def rs_def c_def id_take_nth_drop)
    have c_in: "c \<in> set (cells s)" by (simp add: split)
    have wait: "waiting scan c" using best by (simp add: c_def)
    have low: "off c \<le> off d" if "d \<in> set (ls @ rs)" "waiting scan d" for d
    proof -
      have "d \<in> set (cells s)" using that(1) by (auto simp: split)
      then show ?thesis using best that(2) by (auto simp: in_set_conv_nth c_def)
    qed
    have fits: "off c + csize c \<le> length (pool s)" "dst \<le> off c"
      using inv c_in wait by (fastforce simp: inside_def)+
    have sorted: "sorted_wrt apart (ls @ c # rs)" using inv by (simp add: split)
    have ins: "inside (length (pool s)) d" if "d \<in> set (ls @ rs)" for d
      using inv that by (auto simp: split)
    have past: "if scan \<le> off d then dst \<le> off d else off d + csize d \<le> dst" if "d \<in> set (ls @ rs)" "0 < csize d" for d
      using inv that by (auto simp: split)
    note move = compact_move [OF low wait fits sorted ins past p'_def c'_def]
    have step: "compact_from dst scan s = compact_from (dst + csize c) (off c + 1) t"
    proof -
      have "(if off c \<noteq> dst then s\<lparr>pool := copy_bytes (pool s) dst (off c) (csize c), cells := (cells s)[b := c\<lparr>off := dst\<rparr>]\<rparr> else s) = t"
        using split by (auto simp: t_def p'_def c'_def b)
      then show ?thesis using Some fits inv by (subst compact_from.simps) (simp add: c_def [symmetric] Let_def)
    qed
    have same: "live_bytes (ls @ c' # rs) = live_bytes (ls @ c # rs)" by (simp add: c'_def)
    have packed: "packing (dst + csize c) (off c + 1) (pool t) (cells t)"
    proof -
      have "cells t = ls @ c' # rs" "pool t = p'" by (simp_all add: t_def)
      moreover have "dst + csize c + live_bytes (filter (waiting (off c + 1)) (ls @ c' # rs)) = live_bytes (ls @ c' # rs)"
      proof -
        have "live_bytes (filter (waiting (off c + 1)) (ls @ c' # rs)) = live_bytes (filter (waiting scan) (ls @ rs))"
          by (simp only: move(6))
        moreover have "live_bytes (filter (waiting scan) (cells s)) = csize c + live_bytes (filter (waiting scan) (ls @ rs))"
          using wait by (simp add: split)
        moreover have "live_bytes (ls @ c' # rs) = live_bytes (cells s)" by (simp add: same split c'_def)
        moreover have "dst + live_bytes (filter (waiting scan) (cells s)) = live_bytes (cells s)" using inv by blast
        ultimately show ?thesis by linarith
      qed
      ultimately show ?thesis using move(1,3,4,5) inv fits unfolding packing_def by auto
    qed
    have fewer: "length (filter (waiting (off c + 1)) (cells t)) < length (filter (waiting scan) (cells s))"
      using move(6) wait by (simp add: t_def split)
    from less.hyps [OF fewer packed] obtain p cs where fin:
      "compact_from (dst + csize c) (off c + 1) t =
         Some (t\<lparr>pool := p, cells := cs, pool_used := live_bytes (cells t), pool_live := live_bytes (cells t)\<rparr>)"
      "length p = length (pool t)" "map (placeless p) cs = map (placeless (pool t)) (cells t)" "sorted_wrt apart cs"
      "\<forall>c \<in> set cs. inside (live_bytes (cells t)) c"
      by blast
    have "cells t = ls @ c' # rs" "pool t = p'" by (simp_all add: t_def)
    with fin move(1,2) same split step show ?thesis
      by (intro exI [of _ p] exI [of _ cs]) (simp add: t_def)
  qed
qed

section \<open>The pool of a worksheet\<close>

definition pool_ok :: "i123_sheet \<Rightarrow> bool" where
  "pool_ok sh \<longleftrightarrow> length (pool sh) < 0x80000000 \<and> pool_used sh \<le> length (pool sh) \<and> sorted_wrt apart (cells sh) \<and>
     (\<forall>c \<in> set (cells sh). inside (pool_used sh) c) \<and> pool_live sh = live_bytes (cells sh) \<and> pool_live sh \<le> pool_used sh"

lemma pool_compact_ok:
  assumes "pool_ok sh"
  shows "\<exists>p cs. pool_compact sh = Some (sh\<lparr>pool := p, cells := cs, pool_used := pool_live sh\<rparr>) \<and>
    length p = length (pool sh) \<and> map (placeless p) cs = map (placeless (pool sh)) (cells sh) \<and>
    pool_ok (sh\<lparr>pool := p, cells := cs, pool_used := pool_live sh\<rparr>)"
proof -
  have "packing 0 0 (pool sh) (cells sh)"
    using assms by (auto simp: packing_def pool_ok_def intro: inside_mono)
      (metis (mono_tags, lifting) filter_cong gr0I map_cong sum_list_map_filter)
  from compact_from_ok [OF this] obtain p cs where c:
    "compact_from 0 0 sh = Some (sh\<lparr>pool := p, cells := cs, pool_used := live_bytes (cells sh), pool_live := live_bytes (cells sh)\<rparr>)"
    "length p = length (pool sh)" "map (placeless p) cs = map (placeless (pool sh)) (cells sh)" "sorted_wrt apart cs"
    "\<forall>c \<in> set cs. inside (live_bytes (cells sh)) c"
    by blast
  have live: "live_bytes (cells sh) = pool_live sh" "live_bytes cs = pool_live sh"
    using assms live_bytes_placeless [OF c(3)] by (simp_all add: pool_ok_def)
  then show ?thesis
    using c assms by (intro exI [of _ p] exI [of _ cs]) (auto simp: pool_compact_def pool_ok_def)
qed

text \<open>An allocation never moves the contents of a cell. It is refused exactly when the live bytes and the request exceed the
  pool and the request is not empty.\<close>

lemma pool_alloc_ok:
  assumes ok: "pool_ok sh" and n: "n < 0x20000"
  shows "\<exists>p cs u. length p = length (pool sh) \<and> map (placeless p) cs = map (placeless (pool sh)) (cells sh) \<and>
    pool_ok (sh\<lparr>pool := p, cells := cs, pool_used := u\<rparr>) \<and>
    (if n \<noteq> 0 \<and> pool_live sh + n > length (pool sh)
     then pool_alloc sh n = Some (sh\<lparr>pool := p, cells := cs, pool_used := u\<rparr>, Inl I123_E_FULL)
     else \<exists>o'. pool_alloc sh n = Some (sh\<lparr>pool := p, cells := cs, pool_used := u + n, pool_live := pool_live sh + n\<rparr>, Inr o') \<and>
            u + n \<le> length p \<and> (n \<noteq> 0 \<longrightarrow> o' = u))"
proof -
  note small = ok [unfolded pool_ok_def]
  consider "n = 0" | "0 < n" "pool_used sh + n \<le> length (pool sh)" | "0 < n" "pool_used sh + n > length (pool sh)" by linarith
  then show ?thesis
  proof cases
    case 1
    then show ?thesis using ok small
      by (intro exI [of _ "pool sh"] exI [of _ "cells sh"] exI [of _ "pool_used sh"]) (simp add: pool_alloc_def)
  next
    case 2
    then show ?thesis using ok small n
      by (intro exI [of _ "pool sh"] exI [of _ "cells sh"] exI [of _ "pool_used sh"]) (simp add: pool_alloc_def pool_take_def)
  next
    case 3
    from pool_compact_ok [OF ok] obtain p cs where
      "pool_compact sh = Some (sh\<lparr>pool := p, cells := cs, pool_used := pool_live sh\<rparr>)"
      "length p = length (pool sh)" "map (placeless p) cs = map (placeless (pool sh)) (cells sh)"
      "pool_ok (sh\<lparr>pool := p, cells := cs, pool_used := pool_live sh\<rparr>)"
      by blast
    then show ?thesis using 3 small n
      by (intro exI [of _ p] exI [of _ cs] exI [of _ "pool_live sh"]) (simp add: pool_alloc_def pool_take_def not_le)
  qed
qed

end
