(* ===== verification/SheetStore.thy ===== *)
theory SheetStore imports SheetPool begin

text \<open>
  The worksheet store as a finite map from addresses to cell contents: the invariant of the store, the abstraction, the
  binary search, and what a store of a cell does to both.
\<close>

section \<open>Keys\<close>

lemma key_of_eq: "c < 256 \<Longrightarrow> key_of c r = r * 256 + c"
proof -
  assume c: "c < 256"
  then have "take_bit 8 c = c" by (simp add: take_bit_nat_eq_self)
  then have "\<not> bit c n" if "8 \<le> n" for n by (metis bit_take_bit_iff not_le that)
  then have "push_bit 8 r + c = push_bit 8 r OR c"
    by (intro disjunctive_add) (auto simp: bit_push_bit_iff not_le)
  then show ?thesis by (simp add: key_of_def push_bit_eq_mult)
qed

lemma key_of_inj: "c < 256 \<Longrightarrow> c' < 256 \<Longrightarrow> key_of c r = key_of c' r' \<longleftrightarrow> c = c' \<and> r = r'"
proof
  assume "c < 256" "c' < 256" "key_of c r = key_of c' r'"
  then have k: "r * 256 + c = r' * 256 + c'" by (simp add: key_of_eq)
  have "(r * 256 + c) div 256 = r" "(r' * 256 + c') div 256 = r'" using \<open>c < 256\<close> \<open>c' < 256\<close> by simp_all
  with k show "c = c' \<and> r = r'" by auto
qed simp

section \<open>The abstraction\<close>

text \<open>What a cell holds, without where: kind, format, value bytes, label or code, and the string result.\<close>

datatype cell_data = CellData (d_kind: cell_kind) (d_fmt: u8) (d_val: "u8 list") (d_bytes: "u8 list") (d_has: bool)
  (d_sfmt: u8) (d_str: "u8 list")

definition data_of :: "u8 list \<Rightarrow> i123_cell \<Rightarrow> cell_data" where
  "data_of p c = CellData (kind c) (fmt c) (cval c) (window p (off c) (clen c)) (has_str c) (str_fmt c)
     (window p (off c + clen c) (slen c))"

definition entry :: "u8 list \<Rightarrow> i123_cell \<Rightarrow> (nat \<times> nat) \<times> cell_data" where
  "entry p c = ((col c, row c), data_of p c)"

definition sheet_map :: "i123_sheet \<Rightarrow> (nat \<times> nat) \<rightharpoonup> cell_data" where
  "sheet_map sh = map_of (map (entry (pool sh)) (cells sh))"

definition data_size :: "cell_data \<Rightarrow> nat" where
  "data_size d = length (d_bytes d) + length (d_str d)"

definition stored_bytes :: "(nat \<times> nat \<rightharpoonup> cell_data) \<Rightarrow> nat" where
  "stored_bytes m = (\<Sum>k \<in> dom m. data_size (the (m k)))"

text \<open>The invariant of the store.\<close>

definition cell_fits :: "i123_cell \<Rightarrow> bool" where
  "cell_fits c \<longleftrightarrow> col c < I123_MAX_COLS \<and> row c < I123_MAX_ROWS \<and> clen c < 0x10000 \<and> slen c < 0x10000"

abbreviation key_less :: "i123_cell \<Rightarrow> i123_cell \<Rightarrow> bool" where
  "key_less c d \<equiv> ckey c < ckey d"

definition sheet_ok :: "i123_sheet \<Rightarrow> bool" where
  "sheet_ok sh \<longleftrightarrow> pool_ok sh \<and> sorted_wrt key_less (cells sh) \<and> (\<forall>c \<in> set (cells sh). cell_fits c) \<and>
     length (cells sh) \<le> cap sh"

lemma entry_placeless: "placeless p c = placeless q d \<Longrightarrow> entry p c = entry q d"
proof -
  assume a: "placeless p c = placeless q d"
  then have "c\<lparr>off := 0\<rparr> = d\<lparr>off := 0\<rparr>" and b: "blob p c = blob q d" by (simp_all add: placeless_def)
  then have same: "col c = col d" "row c = row d" "kind c = kind d" "fmt c = fmt d" "cval c = cval d" "has_str c = has_str d"
    "str_fmt c = str_fmt d" "clen c = clen d" "slen c = slen d"
    by (metis (no_types, lifting) i123_cell.select_convs i123_cell.surjective i123_cell.update_convs)+
  have "window p (off c) (clen c) = take (clen c) (blob p c)" "window p (off c + clen c) (slen c) = drop (clen c) (blob p c)"
    "window q (off d) (clen d) = take (clen d) (blob q d)" "window q (off d + clen d) (slen d) = drop (clen d) (blob q d)"
    by (simp_all add: blob_def csize_def take_window drop_window)
  then show ?thesis using same b by (simp add: entry_def data_of_def)
qed

lemma placeless_facts:
  assumes "placeless p c = placeless q d"
  shows "ckey c = ckey d" "csize c = csize d" "cell_fits c = cell_fits d"
proof -
  have "c\<lparr>off := 0\<rparr> = d\<lparr>off := 0\<rparr>" using assms by (simp add: placeless_def)
  then have "col c = col d" "row c = row d" "clen c = clen d" "slen c = slen d"
    by (metis (no_types, lifting) i123_cell.select_convs i123_cell.surjective i123_cell.update_convs)+
  then show "ckey c = ckey d" "csize c = csize d" "cell_fits c = cell_fits d"
    by (simp_all add: csize_def cell_fits_def)
qed

lemma map_eq_via: "map f xs = map g ys \<Longrightarrow> (\<And>x y. f x = g y \<Longrightarrow> f' x = g' y) \<Longrightarrow> map f' xs = map g' ys"
  by (induction xs arbitrary: ys) (auto simp: map_eq_Cons_conv)

lemma entries_placeless: "map (placeless p) cs = map (placeless q) ds \<Longrightarrow> map (entry p) cs = map (entry q) ds"
  by (erule map_eq_via) (rule entry_placeless)

lemma keys_placeless: "map (placeless p) cs = map (placeless q) ds \<Longrightarrow> map ckey cs = map ckey ds"
  by (erule map_eq_via) (rule placeless_facts)

lemma sorted_wrt_key_less: "sorted_wrt key_less cs \<longleftrightarrow> sorted_wrt (<) (map ckey cs)"
  by (simp add: sorted_wrt_map)

text \<open>Moving the blobs, as a compaction does, changes neither the map nor the invariant.\<close>

lemma moved_ok:
  assumes ok: "sheet_ok sh" and same: "map (placeless p) cs = map (placeless (pool sh)) (cells sh)"
    and pool: "pool_ok (sh\<lparr>pool := p, cells := cs, pool_used := u\<rparr>)"
  shows "sheet_ok (sh\<lparr>pool := p, cells := cs, pool_used := u\<rparr>)" "map (entry p) cs = map (entry (pool sh)) (cells sh)"
    "map ckey cs = map ckey (cells sh)" "map csize cs = map csize (cells sh)" "length cs = length (cells sh)"
proof -
  show "map (entry p) cs = map (entry (pool sh)) (cells sh)" by (rule entries_placeless [OF same])
  show keys: "map ckey cs = map ckey (cells sh)" by (rule keys_placeless [OF same])
  show "map csize cs = map csize (cells sh)" by (rule map_eq_via [OF same]) (rule placeless_facts)
  show len: "length cs = length (cells sh)" using map_eq_imp_length_eq [OF same] .
  have "map cell_fits cs = map cell_fits (cells sh)" by (rule map_eq_via [OF same]) (rule placeless_facts)
  then have "set (map cell_fits cs) = set (map cell_fits (cells sh))" by simp
  then have "\<forall>c \<in> set cs. cell_fits c" using ok by (auto simp: sheet_ok_def)
  then show "sheet_ok (sh\<lparr>pool := p, cells := cs, pool_used := u\<rparr>)"
    using ok pool len keys by (simp add: sheet_ok_def sorted_wrt_key_less)
qed

section \<open>The binary search\<close>

lemma lower_from_ok:
  assumes "sorted_wrt key_less cs" "hi \<le> length cs" "lo \<le> hi"
    and "\<forall>i < lo. ckey (cs ! i) < key" "\<forall>i < length cs. hi \<le> i \<longrightarrow> key \<le> ckey (cs ! i)"
  shows "lower_from cs key lo hi \<le> length cs \<and> (\<forall>i < lower_from cs key lo hi. ckey (cs ! i) < key) \<and>
    (\<forall>i < length cs. lower_from cs key lo hi \<le> i \<longrightarrow> key \<le> ckey (cs ! i))"
  using assms
proof (induction cs key lo hi rule: lower_from.induct)
  case (1 cs key lo hi)
  show ?case
  proof (cases "lo < hi")
    case False
    then have "lo = hi" using 1(5) by simp
    then show ?thesis using 1(4,6,7) by (subst (1 2 3) lower_from.simps) simp
  next
    case True
    define mid where "mid = lo + (hi - lo) div 2"
    have mid: "lo \<le> mid" "mid < hi" using True by (simp_all add: mid_def)
    have mono: "ckey (cs ! i) < ckey (cs ! j)" if "i < j" "j < length cs" for i j
      using sorted_wrt_nth_less [OF 1(3) that] .
    show ?thesis
    proof (cases "ckey (cs ! mid) < key")
      case go: True
      have "ckey (cs ! i) < key" if "i < mid + 1" for i
        using mono [of i mid] go mid that 1(4) by (cases "i = mid") fastforce+
      then have "\<forall>i < mid + 1. ckey (cs ! i) < key" by blast
      from 1(1) [OF True mid_def go 1(3,4) _ this 1(7)] mid
      show ?thesis using True go by (subst (1 2 3) lower_from.simps) (simp add: mid_def [symmetric] Let_def)
    next
      case stop: False
      have "key \<le> ckey (cs ! i)" if "i < length cs" "mid \<le> i" for i
        using mono [of mid i] stop mid that by (cases "i = mid") fastforce+
      then have "\<forall>i < length cs. mid \<le> i \<longrightarrow> key \<le> ckey (cs ! i)" by blast
      from 1(2) [OF True mid_def stop 1(3) _ mid(1) 1(6) this] mid 1(4)
      show ?thesis using True stop by (subst (1 2 3) lower_from.simps) (simp add: mid_def [symmetric] Let_def)
    qed
  qed
qed

lemma lower_bound_split:
  assumes "sorted_wrt key_less (cells sh)"
  obtains ls rs where "cells sh = ls @ rs" "lower_bound sh key = length ls" "\<forall>x \<in> set ls. ckey x < key" "\<forall>x \<in> set rs. key \<le> ckey x"
proof
  define i where "i = lower_bound sh key"
  have i: "i \<le> length (cells sh)" "\<forall>j < i. ckey (cells sh ! j) < key" "\<forall>j < length (cells sh). i \<le> j \<longrightarrow> key \<le> ckey (cells sh ! j)"
    using lower_from_ok [OF assms, of "length (cells sh)" 0 key] by (simp_all add: i_def lower_bound_def)
  show "cells sh = take i (cells sh) @ drop i (cells sh)" by simp
  show "lower_bound sh key = length (take i (cells sh))" using i(1) by (simp add: i_def)
  show "\<forall>x \<in> set (take i (cells sh)). ckey x < key" using i by (auto simp: in_set_conv_nth)
  show "\<forall>x \<in> set (drop i (cells sh)). key \<le> ckey x" using i by (auto simp: in_set_conv_nth)
qed

text \<open>Either the search stands on the cell of the address, or between the cells below and above it.\<close>

lemma locate:
  assumes ok: "sheet_ok sh" and c: "c < 256"
  obtains (found) ls d rs where "cells sh = ls @ d # rs" "lower_bound sh (key_of c r) = length ls" "col d = c" "row d = r"
  | (absent) ls rs where "cells sh = ls @ rs" "lower_bound sh (key_of c r) = length ls"
      "\<forall>x \<in> set ls. ckey x < key_of c r" "\<forall>x \<in> set rs. key_of c r < ckey x"
proof -
  have sorted: "sorted_wrt key_less (cells sh)" using ok by (simp add: sheet_ok_def)
  obtain ls rs where s: "cells sh = ls @ rs" "lower_bound sh (key_of c r) = length ls"
    "\<forall>x \<in> set ls. ckey x < key_of c r" "\<forall>x \<in> set rs. key_of c r \<le> ckey x"
    using lower_bound_split [OF sorted] .
  show thesis
  proof (cases "rs \<noteq> [] \<and> ckey (hd rs) = key_of c r")
    case True
    then obtain d rs' where rs: "rs = d # rs'" and d: "ckey d = key_of c r" by (cases rs) auto
    have "col d < 256" using ok s(1) rs by (auto simp: sheet_ok_def cell_fits_def)
    then have "col d = c" "row d = r" using d c by (simp_all add: key_of_inj)
    then show thesis using found s rs by simp
  next
    case False
    have "\<forall>x \<in> set rs. key_of c r < ckey x"
    proof (cases rs)
      case (Cons d rs')
      then have "key_of c r < ckey d" using False s(4) by force
      moreover have "\<forall>x \<in> set rs'. ckey d < ckey x" using sorted s(1) Cons by (simp add: sorted_wrt_append)
      ultimately show ?thesis using Cons by fastforce
    qed simp
    then show thesis using absent s by blast
  qed
qed

section \<open>The map of a sheet\<close>

text \<open>A key outside a stretch of cells is not in its map.\<close>

lemma map_of_entries_None: "(\<And>x. x \<in> set cs \<Longrightarrow> (col x, row x) \<noteq> a) \<Longrightarrow> map_of (map (entry p) cs) a = None"
  by (induction cs) (auto simp: entry_def)

lemma address_neq: "ckey x \<noteq> key_of c r \<Longrightarrow> (col x, row x) \<noteq> (c, r)"
  by auto

text \<open>One entry among others whose keys differ.\<close>

lemma map_of_mid:
  assumes "map_of (map (entry p) ls) (fst (entry p e)) = None"
  shows "map_of (map (entry p) (ls @ e # rs)) = (map_of (map (entry p) (ls @ rs)))(fst (entry p e) \<mapsto> snd (entry p e))"
proof
  fix a
  show "map_of (map (entry p) (ls @ e # rs)) a = ((map_of (map (entry p) (ls @ rs)))(fst (entry p e) \<mapsto> snd (entry p e))) a"
    using assms by (cases "entry p e") (auto simp: map_add_def split: option.splits)
qed

text \<open>The cells of a sheet around an address.\<close>

definition around :: "i123_cell list \<Rightarrow> nat \<Rightarrow> i123_cell list \<Rightarrow> bool" where
  "around ls k rs \<longleftrightarrow> (\<forall>x \<in> set ls. ckey x < k) \<and> (\<forall>x \<in> set rs. k < ckey x)"

lemma around_sorted: "sorted_wrt key_less (ls @ d # rs) \<Longrightarrow> around ls (ckey d) rs"
  by (auto simp: around_def sorted_wrt_append)

lemma around_others: "around ls (key_of c r) rs \<Longrightarrow> map_of (map (entry p) (ls @ rs)) (c, r) = None"
  by (rule map_of_entries_None) (auto simp: around_def)

lemma around_left: "around ls (key_of c r) rs \<Longrightarrow> map_of (map (entry p) ls) (c, r) = None"
  by (rule map_of_entries_None) (auto simp: around_def)

lemma map_of_around:
  assumes "around ls (key_of c r) rs" "col e = c" "row e = r"
  shows "map_of (map (entry p) (ls @ e # rs)) = (map_of (map (entry p) (ls @ rs)))((c, r) \<mapsto> data_of p e)"
  using map_of_mid [of p ls e rs] around_left [OF assms(1)] assms(2,3) by (simp add: entry_def)

lemma sheet_map_found:
  assumes "sheet_ok sh" "cells sh = ls @ d # rs" "col d = c" "row d = r"
  shows "around ls (key_of c r) rs" "sheet_map sh (c, r) = Some (data_of (pool sh) d)"
    "(sheet_map sh)((c, r) := None) = map_of (map (entry (pool sh)) (ls @ rs))"
proof -
  show ar: "around ls (key_of c r) rs" using assms around_sorted [of ls d rs] by (simp add: sheet_ok_def)
  note m = map_of_around [OF ar assms(3,4), of "pool sh"]
  show "sheet_map sh (c, r) = Some (data_of (pool sh) d)" using m by (simp add: sheet_map_def assms(2))
  show "(sheet_map sh)((c, r) := None) = map_of (map (entry (pool sh)) (ls @ rs))"
    unfolding sheet_map_def assms(2) m fun_upd_upd by (rule fun_upd_idem) (rule around_others [OF ar])
qed

lemma sheet_map_absent:
  assumes "cells sh = ls @ rs" "\<forall>x \<in> set ls. ckey x < key_of c r" "\<forall>x \<in> set rs. key_of c r < ckey x"
  shows "around ls (key_of c r) rs" "sheet_map sh (c, r) = None"
    "(sheet_map sh)((c, r) := None) = map_of (map (entry (pool sh)) (ls @ rs))"
proof -
  show ar: "around ls (key_of c r) rs" using assms by (simp add: around_def)
  show "sheet_map sh (c, r) = None" using around_others [OF ar] by (simp add: sheet_map_def assms(1))
  then show "(sheet_map sh)((c, r) := None) = map_of (map (entry (pool sh)) (ls @ rs))"
    by (simp add: sheet_map_def assms(1) fun_upd_idem)
qed

section \<open>Sizes\<close>

lemma data_size_of:
  assumes "inside (length p) c"
  shows "data_size (data_of p c) = csize c"
proof (cases "csize c = 0")
  case True
  then show ?thesis by (simp add: data_size_def data_of_def csize_def)
next
  case False
  then have "off c + (clen c + slen c) \<le> length p" using assms by (auto simp: inside_def csize_def)
  then show ?thesis by (simp add: data_size_def data_of_def csize_def)
qed

lemma sum_map_of:
  assumes "distinct (map fst xs)"
  shows "(\<Sum>k \<in> dom (map_of xs). f (the (map_of xs k))) = (\<Sum>x \<leftarrow> xs. f (snd x))"
  using assms
proof (induction xs)
  case (Cons x xs)
  have "fst x \<notin> dom (map_of xs)" using Cons.prems by (simp add: dom_map_of_conv_image_fst)
  then have "(\<Sum>k \<in> dom (map_of xs). f (the (map_of (x # xs) k))) = (\<Sum>k \<in> dom (map_of xs). f (the (map_of xs k)))"
    by (intro sum.cong) auto
  moreover have "(\<Sum>k \<in> insert (fst x) (dom (map_of xs)). f (the (map_of (x # xs) k))) =
      f (the (map_of (x # xs) (fst x))) + (\<Sum>k \<in> dom (map_of xs). f (the (map_of (x # xs) k)))"
    using \<open>fst x \<notin> dom (map_of xs)\<close> by (intro sum.insert) (simp_all add: finite_dom_map_of)
  moreover have "dom (map_of (x # xs)) = insert (fst x) (dom (map_of xs))" by (cases x) auto
  moreover have "map_of (x # xs) (fst x) = Some (snd x)" by (cases x) simp
  ultimately show ?case using Cons by (simp del: map_of.simps)
qed simp

lemma distinct_entries: "sorted_wrt key_less cs \<Longrightarrow> distinct (map fst (map (entry p) cs))"
  by (induction cs) (force simp: entry_def)+

lemma map_of_entries_size:
  assumes "sorted_wrt key_less cs" "\<forall>c \<in> set cs. inside (length p) c"
  shows "stored_bytes (map_of (map (entry p) cs)) = live_bytes cs" "card (dom (map_of (map (entry p) cs))) = length cs"
proof -
  have "stored_bytes (map_of (map (entry p) cs)) = (\<Sum>x \<leftarrow> map (entry p) cs. data_size (snd x))"
    unfolding stored_bytes_def by (rule sum_map_of [OF distinct_entries [OF assms(1)]])
  also have "\<dots> = (\<Sum>c \<leftarrow> cs. data_size (data_of p c))" by (simp add: entry_def comp_def)
  also have "map (\<lambda>c. data_size (data_of p c)) cs = map csize cs" using assms(2) by (simp add: data_size_of)
  finally show "stored_bytes (map_of (map (entry p) cs)) = live_bytes cs" .
  show "card (dom (map_of (map (entry p) cs))) = length cs"
    using distinct_card [OF distinct_entries [OF assms(1), of p]] by (simp add: dom_map_of_conv_image_fst image_image)
qed

lemma sheet_map_size:
  assumes "sheet_ok sh"
  shows "stored_bytes (sheet_map sh) = pool_live sh" "card (dom (sheet_map sh)) = length (cells sh)"
proof -
  have "\<forall>c \<in> set (cells sh). inside (length (pool sh)) c" using assms
    by (auto simp: sheet_ok_def pool_ok_def intro: inside_mono)
  with assms map_of_entries_size [of "cells sh" "pool sh"] show "stored_bytes (sheet_map sh) = pool_live sh"
    "card (dom (sheet_map sh)) = length (cells sh)"
    by (simp_all add: sheet_map_def sheet_ok_def pool_ok_def)
qed

lemma i123_find_exact:
  assumes "sheet_ok sh" "c < 256"
  shows "map_option (data_of (pool sh)) (i123_find sh c r) = sheet_map sh (c, r)"
proof (cases rule: locate [OF assms, of r, case_names found absent])
  case (found ls d rs)
  then show ?thesis using sheet_map_found(2) [OF assms(1) found(1,3,4)] by (simp add: i123_find_def Let_def)
next
  case (absent ls rs)
  then have "rs = [] \<or> ckey (hd rs) \<noteq> key_of c r" by (cases rs) auto
  then show ?thesis using absent sheet_map_absent(2) [OF absent(1,3,4)]
    by (cases rs) (auto simp: i123_find_def Let_def nth_append)
qed

end
