(* ===== verification/RecalcRefs.thy ===== *)
theory RecalcRefs imports Recalc SheetStore begin

text \<open>
  The references of a formula as a list, in the order of its code: what the incremental enumeration of
  \<open>next_precedent\<close> yields, frame by frame.
\<close>

section \<open>Rectangles\<close>

definition in_rect :: "int \<Rightarrow> int \<Rightarrow> int \<Rightarrow> int \<Rightarrow> i123_cell \<Rightarrow> bool" where
  "in_rect lc hc lr hr q \<longleftrightarrow> lr \<le> int (row q) \<and> int (row q) \<le> hr \<and> lc \<le> int (col q) \<and> int (col q) \<le> hc \<and> kind q = I123_K_FORMULA"

definition rect_cells :: "i123_sheet \<Rightarrow> int \<Rightarrow> int \<Rightarrow> int \<Rightarrow> int \<Rightarrow> nat \<Rightarrow> nat list" where
  "rect_cells sh lc hc lr hr k = filter (\<lambda>j. in_rect lc hc lr hr (cells sh ! j)) [k..<length (cells sh)]"

lemma rect_cells_step: "k < length (cells sh) \<Longrightarrow> rect_cells sh lc hc lr hr k =
    (if in_rect lc hc lr hr (cells sh ! k) then [k] else []) @ rect_cells sh lc hc lr hr (k + 1)"
  by (simp add: rect_cells_def upt_conv_Cons)

lemma rect_cells_end: "length (cells sh) \<le> k \<Longrightarrow> rect_cells sh lc hc lr hr k = []"
  by (simp add: rect_cells_def)

text \<open>The rows of the store never fall.\<close>

lemma rows_sorted:
  assumes "sheet_ok sh" "i \<le> j" "j < length (cells sh)"
  shows "row (cells sh ! i) \<le> row (cells sh ! j)"
proof (cases "i = j")
  case False
  have sorted: "sorted_wrt key_less (cells sh)" and fits: "\<forall>c \<in> set (cells sh). cell_fits c" using assms(1) by (simp_all add: sheet_ok_def)
  have "key_less (cells sh ! i) (cells sh ! j)" using sorted_wrt_nth_less [OF sorted] assms False by simp
  moreover have "col (cells sh ! i) < 256" "col (cells sh ! j) < 256"
    using fits assms(2,3) nth_mem by (auto simp: cell_fits_def)
  ultimately have "row (cells sh ! i) * 256 + col (cells sh ! i) < row (cells sh ! j) * 256 + col (cells sh ! j)"
    by (simp add: key_of_eq)
  then show ?thesis using \<open>col (cells sh ! i) < 256\<close> \<open>col (cells sh ! j) < 256\<close> by linarith
qed simp

lemma rect_cells_below:
  assumes "sheet_ok sh" "k < length (cells sh)" "hr < int (row (cells sh ! k))"
  shows "rect_cells sh lc hc lr hr k = []"
proof -
  have "\<not> in_rect lc hc lr hr (cells sh ! j)" if "j \<in> set [k..<length (cells sh)]" for j
    using rows_sorted [OF assms(1), of k j] that assms(3) by (auto simp: in_rect_def)
  then show ?thesis unfolding rect_cells_def by (simp add: filter_empty_conv)
qed

text \<open>A scan passes over the formula itself, and stops at the first other formula cell.\<close>

definition past_self :: "nat \<Rightarrow> nat list \<Rightarrow> nat list" where
  "past_self i xs = dropWhile (\<lambda>j. j = i) xs"

definition meets_self :: "nat \<Rightarrow> nat list \<Rightarrow> bool" where
  "meets_self i xs \<longleftrightarrow> xs \<noteq> [] \<and> hd xs = i"

lemma past_self_simps [simp]: "past_self i [] = []" "past_self i (j # xs) = (if j = i then past_self i xs else j # xs)"
  by (simp_all add: past_self_def)

lemma meets_self_simps [simp]: "\<not> meets_self i []" "meets_self i (j # xs) \<longleftrightarrow> j = i"
  by (simp_all add: meets_self_def)

lemma range_next_ok:
  assumes "sheet_ok sh"
  shows "range_next sh i lc hc lr hr False k self =
    (self \<or> meets_self i (rect_cells sh lc hc lr hr k),
     case past_self i (rect_cells sh lc hc lr hr k) of [] \<Rightarrow> None | j # _ \<Rightarrow> Some j)"
proof (induction "length (cells sh) - k" arbitrary: k self)
  case 0
  then show ?case by (simp add: range_next.simps [of sh i lc hc lr hr False k] rect_cells_end)
next
  case (Suc n)
  then have k: "k < length (cells sh)" "n = length (cells sh) - (k + 1)" by simp_all
  note IH = Suc.hyps(1) [OF k(2)]
  let ?q = "cells sh ! k"
  consider "int (row ?q) < lr" | "lr \<le> int (row ?q)" "hr < int (row ?q)"
    | "lr \<le> int (row ?q)" "int (row ?q) \<le> hr" "\<not> in_rect lc hc lr hr ?q" | "in_rect lc hc lr hr ?q"
    by linarith
  then show ?case
  proof cases
    case 1
    then show ?thesis using k IH rect_cells_step [OF k(1), of lc hc lr hr]
      by (subst range_next.simps) (simp add: in_rect_def Let_def)
  next
    case 2
    then show ?thesis using k rect_cells_below [OF assms k(1) 2(2), of lc hc lr]
      by (subst range_next.simps) (simp add: Let_def)
  next
    case 3
    then show ?thesis using k IH rect_cells_step [OF k(1), of lc hc lr hr]
      by (subst range_next.simps) (auto simp: in_rect_def Let_def)
  next
    case 4
    then have r: "rect_cells sh lc hc lr hr k = k # rect_cells sh lc hc lr hr (k + 1)"
      using rect_cells_step [OF k(1), of lc hc lr hr] by simp
    have inside: "\<not> int (row ?q) < lr" "\<not> hr < int (row ?q)" "\<not> (int (col ?q) < lc \<or> hc < int (col ?q) \<or> kind ?q \<noteq> I123_K_FORMULA)"
      using 4 by (simp_all add: in_rect_def)
    show ?thesis
    proof (cases "k = i")
      case True
      then show ?thesis using k IH inside unfolding r by (subst range_next.simps) (simp add: Let_def)
    next
      case False
      then show ?thesis using k inside unfolding r by (subst range_next.simps) (simp add: Let_def)
    qed
  qed
qed

text \<open>The binary search for the first row of a range starts the scan without missing a cell.\<close>

lemma row_from_ok:
  assumes "sheet_ok sh" "hi \<le> length (cells sh)" "lo \<le> hi" "\<forall>j < lo. int (row (cells sh ! j)) < lr"
  shows "row_from (cells sh) lr lo hi \<le> length (cells sh) \<and> (\<forall>j < row_from (cells sh) lr lo hi. int (row (cells sh ! j)) < lr)"
  using assms(2-)
proof (induction "hi - lo" arbitrary: lo hi rule: less_induct)
  case less
  show ?case
  proof (cases "lo < hi")
    case False
    then show ?thesis using less.prems by (simp add: row_from.simps [of "cells sh" lr hi])
  next
    case True
    define mid where "mid = lo + (hi - lo) div 2"
    have mid: "lo \<le> mid" "mid < hi" using True by (simp_all add: mid_def)
    show ?thesis
    proof (cases "int (row (cells sh ! mid)) < lr")
      case go: True
      have "int (row (cells sh ! j)) < lr" if "j < mid + 1" for j
        using rows_sorted [OF assms(1), of j mid] mid less.prems(1) go that by fastforce
      then show ?thesis using less.hyps [of hi "mid + 1"] mid less.prems go True
        by (subst (1 2) row_from.simps) (simp add: mid_def [symmetric] Let_def)
    next
      case stop: False
      then show ?thesis using less.hyps [of mid lo] mid less.prems True
        by (subst (1 2) row_from.simps) (simp add: mid_def [symmetric] Let_def)
    qed
  qed
qed

lemma rect_cells_row_from:
  assumes "sheet_ok sh"
  shows "rect_cells sh lc hc lr hr (row_from (cells sh) lr 0 (length (cells sh))) = rect_cells sh lc hc lr hr 0"
proof -
  let ?k = "row_from (cells sh) lr 0 (length (cells sh))"
  have k: "?k \<le> length (cells sh)" "\<forall>j < ?k. int (row (cells sh ! j)) < lr"
    using row_from_ok [OF assms, of "length (cells sh)" 0 lr] by simp_all
  then have "[0..<length (cells sh)] = [0..<?k] @ [?k..<length (cells sh)]" by (metis le_add_same_cancel1 upt_add_eq_append le0 le_add_diff_inverse)
  moreover have "filter (\<lambda>j. in_rect lc hc lr hr (cells sh ! j)) [0..<?k] = []"
    using k(2) by (auto simp: filter_empty_conv in_rect_def)
  ultimately show ?thesis by (simp add: rect_cells_def)
qed

section \<open>The references of a formula\<close>

lemma string_end_ge: "k \<le> string_end code k"
proof (induction code k rule: string_end.induct)
  case (1 code k)
  then show ?case by (subst string_end.simps) auto
qed

lemma token_size_fits: "i123_token_size code p \<noteq> 0 \<Longrightarrow> p + i123_token_size code p \<le> length code"
  using string_end_ge [of "p + 1" code] by (auto simp: i123_token_size_def Let_def split: if_splits)

lemma token_size_range: "p < length code \<Longrightarrow> i123_token_size code p \<noteq> 0 \<Longrightarrow> unat (code ! p) = WKF_RANGE \<Longrightarrow> i123_token_size code p = 9"
  by (auto simp: i123_token_size_def Let_def split: if_splits)

text \<open>The formula cells one token refers to, in store order.\<close>

definition token_refs :: "i123_sheet \<Rightarrow> nat \<Rightarrow> nat \<Rightarrow> nat list" where
  "token_refs sh i p =
     (let c = cells sh ! i; code = cell_code sh i; t = unat (code ! p) in
      if t = WKF_VAR then
        (let cc = i123_ref_resolve (rd16 code (p + 1)) (col c) True; rr = i123_ref_resolve (rd16 code (p + 3)) (row c) False
         in if rr < 0 then []
            else (case index_of sh (wrap16 (nat (cc mod 0x10000))) (nat rr) of
              None \<Rightarrow> [] | Some k \<Rightarrow> if kind (cells sh ! k) = I123_K_FORMULA then [k] else []))
      else if t = WKF_RANGE then
        (let (c0, r0, c1, r1) = range_corners code p c
         in if r0 < 0 \<or> r1 < 0 then [] else rect_cells sh (min c0 c1) (max c0 c1) (min r0 r1) (max r0 r1) 0)
      else [])"

function refs_from :: "i123_sheet \<Rightarrow> nat \<Rightarrow> nat \<Rightarrow> nat list" where
  "refs_from sh i p =
     (let code = cell_code sh i; n = i123_token_size code p in
      if p \<ge> length code \<or> unat (code ! p) = WKF_RETURN \<or> n = 0 then []
      else token_refs sh i p @ refs_from sh i (p + n))"
  by pat_completeness auto
termination
  by (relation "measure (\<lambda>(sh, i, p). length (cell_code sh i) - p)") auto

declare refs_from.simps [simp del]

text \<open>What a frame has still to yield.\<close>

definition rest_refs :: "i123_sheet \<Rightarrow> i123_frame \<Rightarrow> nat list" where
  "rest_refs sh f =
     (if inrange f then
        (let (c0, r0, c1, r1) = range_corners (cell_code sh (f_cell f)) (pc f) (cells sh ! f_cell f)
         in rect_cells sh (min c0 c1) (max c0 c1) (min r0 r1) (max r0 r1) (ri f)) @ refs_from sh (f_cell f) (pc f + 9)
      else refs_from sh (f_cell f) (pc f))"

definition frame_ok :: "i123_sheet \<Rightarrow> i123_frame \<Rightarrow> bool" where
  "frame_ok sh f \<longleftrightarrow> f_cell f < length (cells sh) \<and> pc f \<le> length (cell_code sh (f_cell f)) \<and>
     (inrange f \<longrightarrow> pc f + 9 \<le> length (cell_code sh (f_cell f)) \<and>
        (let (c0, r0, c1, r1) = range_corners (cell_code sh (f_cell f)) (pc f) (cells sh ! f_cell f) in \<not> (r0 < 0 \<or> r1 < 0)))"

lemma past_self_append: "past_self i (xs @ ys) = (if past_self i xs = [] then past_self i ys else past_self i xs @ ys)"
  by (induction xs) auto

lemma past_self_Nil: "past_self i xs = [] \<Longrightarrow> xs \<noteq> [] \<Longrightarrow> meets_self i xs"
  by (cases xs) (auto split: if_splits)

lemma meets_self_append: "meets_self i (xs @ ys) \<longleftrightarrow> (if xs = [] then meets_self i ys else meets_self i xs)"
  by (simp add: meets_self_def)

text \<open>One call of the enumeration: past the references to the formula itself, which raise \<open>self\<close>, to the next one.\<close>

definition precedent_out :: "i123_sheet \<Rightarrow> i123_frame \<Rightarrow> bool \<Rightarrow> i123_frame \<Rightarrow> bool \<times> nat option \<Rightarrow> bool" where
  "precedent_out sh f self f1 out \<longleftrightarrow> frame_ok sh f1 \<and> f_cell f1 = f_cell f \<and>
     fst out = (self \<or> meets_self (f_cell f) (rest_refs sh f)) \<and>
     (case past_self (f_cell f) (rest_refs sh f) of
        [] \<Rightarrow> snd out = None | k # ks \<Rightarrow> snd out = Some k \<and> rest_refs sh f1 = ks)"

lemma code_small: "sheet_ok sh \<Longrightarrow> i < length (cells sh) \<Longrightarrow> length (cell_code sh i) < 0x10000"
proof -
  assume "sheet_ok sh" "i < length (cells sh)"
  then have "cell_fits (cells sh ! i)" by (simp add: sheet_ok_def)
  then show ?thesis by (simp add: cell_fits_def cell_code_def window_def min_less_iff_disj)
qed

lemma next_precedent_range:
  assumes ok: "sheet_ok sh" and f: "frame_ok sh f" "inrange f"
    and IH: "\<And>g self. frame_ok sh g \<Longrightarrow> f_cell g = f_cell f \<Longrightarrow> \<not> inrange g \<Longrightarrow> pc g = pc f + 9 \<Longrightarrow>
      \<exists>f1 s p. next_precedent sh g self = Some (f1, s, p) \<and> precedent_out sh g self f1 (s, p)"
  shows "\<exists>f1 s p. next_precedent sh f self = Some (f1, s, p) \<and> precedent_out sh f self f1 (s, p)"
proof -
  let ?i = "f_cell f" and ?code = "cell_code sh (f_cell f)"
  obtain c0 r0 c1 r1 where cor: "range_corners ?code (pc f) (cells sh ! ?i) = (c0, r0, c1, r1)" by (cases "range_corners ?code (pc f) (cells sh ! ?i)")
  have fits: "pc f + 9 \<le> length ?code" "\<not> (r0 < 0 \<or> r1 < 0)" "?i < length (cells sh)"
    using f cor by (auto simp: frame_ok_def)
  then have w: "wrap16 (pc f + 9) = pc f + 9" using code_small [OF ok fits(3)] by simp
  let ?xs = "rect_cells sh (min c0 c1) (max c0 c1) (min r0 r1) (max r0 r1) (ri f)"
  have rest: "rest_refs sh f = ?xs @ refs_from sh ?i (pc f + 9)" using f cor by (simp add: rest_refs_def)
  note scan = range_next_ok [OF ok, of ?i "min c0 c1" "max c0 c1" "min r0 r1" "max r0 r1" "ri f" self]
  show ?thesis
  proof (cases "past_self ?i ?xs")
    case Nil
    let ?g = "f\<lparr>inrange := False, pc := pc f + 9\<rparr>"
    let ?s = "self \<or> meets_self ?i ?xs"
    have step: "next_precedent sh f self = next_precedent sh ?g ?s"
      using f(2) cor fits(2) Nil w by (subst next_precedent.simps) (simp add: scan Let_def)
    have "frame_ok sh ?g" using f(1) fits(1) by (simp add: frame_ok_def)
    from IH [OF this, of ?s] obtain f1 s p where r: "next_precedent sh ?g ?s = Some (f1, s, p)" "precedent_out sh ?g ?s f1 (s, p)"
      by auto
    have "rest_refs sh ?g = refs_from sh ?i (pc f + 9)" by (simp add: rest_refs_def)
    then have "precedent_out sh f self f1 (s, p)"
      using r(2) Nil past_self_Nil [OF Nil] unfolding precedent_out_def rest
      by (auto simp: past_self_append meets_self_append split: list.splits)
    then show ?thesis using r(1) step by auto
  next
    case (Cons k ks)
    let ?f1 = "f\<lparr>ri := k + 1\<rparr>"
    have step: "next_precedent sh f self = Some (?f1, self \<or> meets_self ?i ?xs, Some k)"
      using f(2) cor fits(2) Cons by (subst next_precedent.simps) (simp add: scan Let_def)
    have after: "ks = rect_cells sh (min c0 c1) (max c0 c1) (min r0 r1) (max r0 r1) (k + 1)"
    proof -
      obtain ys where ys: "?xs = ys @ k # ks" using Cons by (metis dropWhile_eq_drop past_self_def append_take_drop_id)
      have "filter P [m..<n] = ys @ k # ks \<Longrightarrow> ks = filter P [k + 1..<n]" for P m n and ys :: "nat list"
      proof (induction "n - m" arbitrary: m ys)
        case 0
        then show ?case by simp
      next
        case (Suc d)
        then have m: "[m..<n] = m # [m + 1..<n]" "d = n - (m + 1)" by (simp_all add: upt_conv_Cons)
        show ?case
        proof (cases ys)
          case Nil
          then show ?thesis
          proof (cases "P m")
            case True
            then show ?thesis using Suc.prems Nil m(1) by auto
          next
            case False
            then show ?thesis using Suc.prems Suc.hyps(1) [OF m(2), of "[]"] Nil m(1) by simp
          qed
        next
          case (Cons y ys')
          then show ?thesis using Suc.prems Suc.hyps(1) [OF m(2), of ys'] Suc.hyps(1) [OF m(2), of ys] m(1) by (auto split: if_splits)
        qed
      qed
      then show ?thesis using ys unfolding rect_cells_def by blast
    qed
    have "rest_refs sh ?f1 = ks @ refs_from sh ?i (pc f + 9)" using f cor after by (simp add: rest_refs_def)
    moreover have "frame_ok sh ?f1" using f by (simp add: frame_ok_def)
    moreover have "?xs \<noteq> []" using Cons by auto
    ultimately have "precedent_out sh f self ?f1 (self \<or> meets_self ?i ?xs, Some k)"
      using Cons unfolding precedent_out_def rest by (simp add: past_self_append meets_self_append)
    then show ?thesis using step by blast
  qed
qed

lemma precedent_self:
  assumes "past_self (f_cell f) (rest_refs sh f) = past_self (f_cell g) (rest_refs sh g)" "f_cell f = f_cell g"
    and "(self \<or> meets_self (f_cell f) (rest_refs sh f)) = (self' \<or> meets_self (f_cell g) (rest_refs sh g))"
    and "precedent_out sh g self' f1 out"
  shows "precedent_out sh f self f1 out"
  using assms by (auto simp: precedent_out_def split: list.splits)

text \<open>Each call returns; the loop over the tokens ends because the position moves on inside the code.\<close>

lemma next_precedent_token:
  assumes ok: "sheet_ok sh"
  shows "frame_ok sh f \<Longrightarrow> \<not> inrange f \<Longrightarrow>
    \<exists>f1 s p. next_precedent sh f self = Some (f1, s, p) \<and> precedent_out sh f self f1 (s, p)"
proof (induction "length (cell_code sh (f_cell f)) - pc f" arbitrary: f self rule: less_induct)
  case less
  let ?i = "f_cell f" and ?code = "cell_code sh (f_cell f)" and ?c = "cells sh ! f_cell f"
  let ?n = "i123_token_size ?code (pc f)"
  have i: "?i < length (cells sh)" and pc: "pc f \<le> length ?code" using less.prems by (simp_all add: frame_ok_def)
  note small = code_small [OF ok i]
  show ?case
  proof (cases "pc f \<ge> length ?code \<or> unat (?code ! pc f) = WKF_RETURN \<or> ?n = 0")
    case True
    then have rest: "rest_refs sh f = []" using less.prems(2) by (simp add: rest_refs_def refs_from.simps [of sh ?i "pc f"])
    obtain f1 where "next_precedent sh f self = Some (f1, self, None)" "frame_ok sh f1" "f_cell f1 = f_cell f"
    proof (cases "pc f \<ge> length ?code")
      case True
      then have "next_precedent sh f self = Some (f, self, None)"
        using less.prems(2) by (subst next_precedent.simps) (simp add: Let_def)
      then show thesis using that less.prems(1) by blast
    next
      case False
      then have "next_precedent sh f self = Some (f\<lparr>pc := wrap16 (length ?code)\<rparr>, self, None)"
        using less.prems(2) True by (subst next_precedent.simps) (auto simp: Let_def)
      then show thesis using that less.prems small by (simp add: frame_ok_def)
    qed
    then show ?thesis by (auto simp: precedent_out_def rest)
  next
    case False
    then have at: "pc f < length ?code" "unat (?code ! pc f) \<noteq> WKF_RETURN" "?n \<noteq> 0" by auto
    have fits: "pc f + ?n \<le> length ?code" using token_size_fits [OF at(3)] .
    let ?g = "f\<lparr>pc := pc f + ?n\<rparr>"
    have w: "wrap16 (pc f + ?n) = pc f + ?n" using fits small by simp
    have rest: "rest_refs sh f = token_refs sh ?i (pc f) @ refs_from sh ?i (pc f + ?n)"
      using less.prems(2) at by (simp add: rest_refs_def refs_from.simps [of sh ?i "pc f"] Let_def)
    have rest_g: "rest_refs sh ?g = refs_from sh ?i (pc f + ?n)" using less.prems(2) by (simp add: rest_refs_def)
    have g_ok: "frame_ok sh ?g" using i fits less.prems(2) by (simp add: frame_ok_def)
    have g_less: "length (cell_code sh (f_cell ?g)) - pc ?g < length ?code - pc f" using at(1,3) by simp
    have go: "\<exists>f1 s p. next_precedent sh ?g t = Some (f1, s, p) \<and> precedent_out sh ?g t f1 (s, p)" for t
      using less.hyps [OF g_less g_ok] less.prems(2) by simp
    have onward: ?thesis if step: "next_precedent sh f self = next_precedent sh ?g t"
      and refs: "past_self ?i (token_refs sh ?i (pc f)) = []" "t = (self \<or> meets_self ?i (token_refs sh ?i (pc f)))"
      and cons: "token_refs sh ?i (pc f) = [] \<or> t" for t
    proof -
      obtain f1 s p where r: "next_precedent sh ?g t = Some (f1, s, p)" "precedent_out sh ?g t f1 (s, p)" using go by blast
      have "precedent_out sh f self f1 (s, p)"
        by (rule precedent_self [OF _ _ _ r(2)]) (use refs cons in \<open>auto simp: rest rest_g past_self_append meets_self_append\<close>)
      then show ?thesis using r(1) step by auto
    qed
    consider (var) "unat (?code ! pc f) = WKF_VAR" | (range) "unat (?code ! pc f) = WKF_RANGE"
      | (other) "unat (?code ! pc f) \<noteq> WKF_VAR" "unat (?code ! pc f) \<noteq> WKF_RANGE" by blast
    then show ?thesis
    proof cases
      case other
      then have "next_precedent sh f self = next_precedent sh ?g self"
        using less.prems(2) at w by (subst next_precedent.simps) (simp add: Let_def)
      moreover have "token_refs sh ?i (pc f) = []" using other by (simp add: token_refs_def Let_def)
      ultimately show ?thesis using onward [of self] by simp
    next
      case var
      let ?cc = "i123_ref_resolve (rd16 ?code (pc f + 1)) (col ?c) True"
      let ?rr = "i123_ref_resolve (rd16 ?code (pc f + 3)) (row ?c) False"
      let ?k = "index_of sh (wrap16 (nat (?cc mod 0x10000))) (nat ?rr)"
      have step: "next_precedent sh f self =
        (if ?rr < 0 then next_precedent sh ?g self
         else (case ?k of
           None \<Rightarrow> next_precedent sh ?g self
         | Some k \<Rightarrow> if kind (cells sh ! k) \<noteq> I123_K_FORMULA then next_precedent sh ?g self
             else if k = ?i then next_precedent sh ?g True else Some (?g, self, Some k)))"
        using less.prems(2) at var by (subst next_precedent.simps) (simp only: Let_def w, simp)
      have refs: "token_refs sh ?i (pc f) = (if ?rr < 0 then [] else (case ?k of
              None \<Rightarrow> [] | Some k \<Rightarrow> if kind (cells sh ! k) = I123_K_FORMULA then [k] else []))"
        using var by (simp add: token_refs_def Let_def)
      show ?thesis
      proof (cases "\<not> ?rr < 0 \<and> (\<exists>k. ?k = Some k \<and> kind (cells sh ! k) = I123_K_FORMULA)")
        case False
        then have "next_precedent sh f self = next_precedent sh ?g self" "token_refs sh ?i (pc f) = []"
          unfolding step refs by (auto split: option.split)
        then show ?thesis using onward [of self] by simp
      next
        case True
        then obtain k where k: "\<not> ?rr < 0" "?k = Some k" "kind (cells sh ! k) = I123_K_FORMULA" by blast
        then have refs1: "token_refs sh ?i (pc f) = [k]" by (simp add: refs)
        show ?thesis
        proof (cases "k = ?i")
          case True
          then have "next_precedent sh f self = next_precedent sh ?g True" unfolding step using k by simp
          then show ?thesis using onward [of True] True refs1 by simp
        next
          case False
          then have "next_precedent sh f self = Some (?g, self, Some k)" unfolding step using k by simp
          moreover have "precedent_out sh f self ?g (self, Some k)"
            using False g_ok by (simp add: precedent_out_def rest refs1 rest_g)
          ultimately show ?thesis by blast
        qed
      qed
    next
      case range
      obtain c0 r0 c1 r1 where cor: "range_corners ?code (pc f) ?c = (c0, r0, c1, r1)" by (cases "range_corners ?code (pc f) ?c")
      have n9: "?n = 9" using token_size_range [OF at(1,3) range] .
      show ?thesis
      proof (cases "r0 < 0 \<or> r1 < 0")
        case True
        then have "next_precedent sh f self = next_precedent sh ?g self"
          using less.prems(2) at w range cor by (subst next_precedent.simps) (simp add: Let_def)
        moreover have "token_refs sh ?i (pc f) = []" using True range cor by (simp add: token_refs_def Let_def)
        ultimately show ?thesis using onward [of self] by simp
      next
        case False
        let ?h = "f\<lparr>ri := row_from (cells sh) (min r0 r1) 0 (length (cells sh)), inrange := True\<rparr>"
        have step: "next_precedent sh f self = next_precedent sh ?h self"
          using less.prems(2) at range cor False by (subst next_precedent.simps) (simp add: Let_def)
        have h_ok: "frame_ok sh ?h" using i fits cor False unfolding n9 by (simp add: frame_ok_def)
        have "\<exists>f1 s p. next_precedent sh ?h self = Some (f1, s, p) \<and> precedent_out sh ?h self f1 (s, p)"
        proof (rule next_precedent_range [OF ok h_ok])
          fix g t
          assume g: "frame_ok sh g" "f_cell g = f_cell ?h" "\<not> inrange g" "pc g = pc ?h + 9"
          then have "length (cell_code sh (f_cell g)) - pc g < length ?code - pc f" using at(1) by simp
          from less.hyps [OF this g(1,3)]
          show "\<exists>f1 s p. next_precedent sh g t = Some (f1, s, p) \<and> precedent_out sh g t f1 (s, p)" .
        qed simp
        moreover have "rest_refs sh ?h = rest_refs sh f"
          unfolding rest using cor False range n9 rect_cells_row_from [OF ok]
          by (simp add: rest_refs_def token_refs_def Let_def)
        ultimately show ?thesis unfolding step precedent_out_def by simp
      qed
    qed
  qed
qed

lemma next_precedent_ok:
  assumes "sheet_ok sh" "frame_ok sh f"
  shows "\<exists>f1 s p. next_precedent sh f self = Some (f1, s, p) \<and> precedent_out sh f self f1 (s, p)"
proof (cases "inrange f")
  case True
  show ?thesis by (rule next_precedent_range [OF assms True]) (rule next_precedent_token [OF assms(1)])
next
  case False
  then show ?thesis using next_precedent_token [OF assms] by blast
qed

end
