(* ===== verification/SheetPut.thy ===== *)
theory SheetPut imports SheetStore begin

text \<open>
  Storing, replacing, erasing and reformatting a cell against their specification on the finite map: the call succeeds
  exactly when the address is valid, the cell array has a slot and the final data fits the pool, whatever the pool's
  fragmentation; it then changes the map at its address alone, and a refused call changes nothing.
\<close>

section \<open>One cell among others\<close>

definition others_ok :: "nat \<Rightarrow> i123_cell list \<Rightarrow> nat \<Rightarrow> i123_cell list \<Rightarrow> bool" where
  "others_ok u ls k rs \<longleftrightarrow> around ls k rs \<and> sorted_wrt apart (ls @ rs) \<and> sorted_wrt key_less (ls @ rs) \<and>
     (\<forall>x \<in> set (ls @ rs). inside u x \<and> cell_fits x)"

lemma others_found:
  assumes "sheet_ok sh" "cells sh = ls @ d # rs" "col d = c" "row d = r"
  shows "others_ok (pool_used sh) ls (key_of c r) rs"
  using assms sheet_map_found(1) [OF assms]
  by (auto simp: others_ok_def sheet_ok_def pool_ok_def sorted_wrt_append)

lemma others_absent:
  assumes "sheet_ok sh" "cells sh = ls @ rs" "around ls (key_of c r) rs"
  shows "others_ok (pool_used sh) ls (key_of c r) rs"
  using assms by (auto simp: others_ok_def sheet_ok_def pool_ok_def)

lemma keep_others:
  assumes "o' + length b \<le> length p" "inside (length p) x" "csize x = 0 \<or> off x + csize x \<le> o' \<or> o' + length b \<le> off x"
  shows "entry (splice p o' b) x = entry p x"
proof (rule entry_placeless, rule placeless_blob)
  show "blob (splice p o' b) x = blob p x"
  proof (cases "csize x = 0")
    case False
    then show ?thesis using assms unfolding blob_def inside_def by (intro window_splice_apart) auto
  qed simp
qed

text \<open>The bytes \<open>b1 @ b2\<close> written at a place that no other cell owns.\<close>

lemma put_ok:
  assumes others: "others_ok u ls (key_of c r) rs"
    and addr: "c < I123_MAX_COLS" "r < I123_MAX_ROWS" "length b1 < 0x10000" "length b2 < 0x10000"
    and e: "col e = c" "row e = r" "clen e = length b1" "slen e = length b2"
    and place: "b1 @ b2 = [] \<or> off e + length (b1 @ b2) \<le> u' \<and>
      (\<forall>x \<in> set (ls @ rs). csize x = 0 \<or> off x + csize x \<le> off e \<or> off e + length (b1 @ b2) \<le> off x)"
    and pools: "length (pool s) < 0x80000000" "u \<le> u'" "u' \<le> length (pool s)"
    and live: "live_bytes (ls @ e # rs) \<le> u'" and room: "length (ls @ rs) < cap s"
    and t: "pool t = splice (splice (pool s) (off e) b1) (off e + length b1) b2" "cells t = ls @ e # rs" "pool_used t = u'"
      "pool_live t = live_bytes (ls @ e # rs)" "cap t = cap s"
  shows "sheet_ok t" "sheet_map t = (map_of (map (entry (pool s)) (ls @ rs)))((c, r) \<mapsto>
      CellData (kind e) (fmt e) (cval e) b1 (has_str e) (str_fmt e) b2)"
    "length (pool t) = length (pool s)"
proof -
  let ?b = "b1 @ b2"
  have size: "csize e = length ?b" by (simp add: csize_def e)
  have p: "pool t = splice (pool s) (off e) ?b"
  proof (cases "?b = []")
    case True
    then show ?thesis by (simp add: t)
  next
    case False
    then show ?thesis using place pools by (auto simp: t intro: splice_splice_next)
  qed
  show len: "length (pool t) = length (pool s)" using place pools unfolding p by auto
  have key: "ckey e = key_of c r" by (simp add: e)
  have ap: "apart e x" if "x \<in> set (ls @ rs)" for x
  proof (cases "?b = []")
    case False
    then have "csize x = 0 \<or> off x + csize x \<le> off e \<or> off e + length ?b \<le> off x" using place that by blast
    then show ?thesis unfolding apart_def size by blast
  qed (simp add: size)
  have ine: "inside u' e" using place size by (auto simp: inside_def)
  have "\<forall>x \<in> set (ls @ e # rs). inside u' x" using others pools(2) ine by (auto simp: others_ok_def intro: inside_mono)
  moreover have "sorted_wrt apart (ls @ e # rs)" using others ap by (auto simp: apart_mid others_ok_def)
  ultimately have "pool_ok t" using pools live by (simp add: pool_ok_def t len [unfolded t(1)])
  moreover have "sorted_wrt key_less (ls @ e # rs)"
    using others key by (auto simp: others_ok_def around_def sorted_wrt_append)
  moreover have "cell_fits e" using addr e by (simp add: cell_fits_def)
  ultimately show "sheet_ok t" using others room by (auto simp: sheet_ok_def t others_ok_def)
  have "map (entry (pool t)) (ls @ rs) = map (entry (pool s)) (ls @ rs)"
  proof (cases "?b = []")
    case False
    have "entry (pool t) x = entry (pool s) x" if "x \<in> set (ls @ rs)" for x
      unfolding p
    proof (rule keep_others)
      show "off e + length ?b \<le> length (pool s)" using place pools False by auto
      show "inside (length (pool s)) x" using others that pools by (auto simp: others_ok_def intro: inside_mono)
      show "csize x = 0 \<or> off x + csize x \<le> off e \<or> off e + length ?b \<le> off x" using place False that by blast
    qed
    then show ?thesis by simp
  qed (simp add: p)
  moreover have "data_of (pool t) e = CellData (kind e) (fmt e) (cval e) b1 (has_str e) (str_fmt e) b2"
  proof (cases "?b = []")
    case False
    then have fits: "off e + length ?b \<le> length (pool s)" using place pools by auto
    have w: "window (pool t) (off e) (length ?b) = ?b" unfolding p by (rule window_splice_same [OF fits])
    have "window (pool t) (off e) (length b1) = take (length b1) (window (pool t) (off e) (length ?b))"
      by (simp add: take_window)
    moreover have "window (pool t) (off e + length b1) (length b2) = drop (length b1) (window (pool t) (off e) (length ?b))"
      by (simp add: drop_window)
    ultimately show ?thesis unfolding w by (simp add: data_of_def e)
  qed (simp add: data_of_def e)
  moreover have "around ls (key_of c r) rs" using others by (simp add: others_ok_def)
  ultimately show "sheet_map t = (map_of (map (entry (pool s)) (ls @ rs)))((c, r) \<mapsto>
      CellData (kind e) (fmt e) (cval e) b1 (has_str e) (str_fmt e) b2)"
    unfolding sheet_map_def t(2) using map_of_around [OF _ e(1,2), of ls rs "pool t"] by (simp only:)
qed

section \<open>The specification\<close>

text \<open>A map with at most \<open>cell_cap\<close> entries and at most \<open>pool_cap\<close> bytes in them.\<close>

definition put_spec :: "nat \<Rightarrow> nat \<Rightarrow> (nat \<times> nat \<rightharpoonup> cell_data) \<Rightarrow> nat \<Rightarrow> nat \<Rightarrow> cell_data \<Rightarrow>
    (nat \<times> nat \<rightharpoonup> cell_data) \<times> (int + unit)" where
  "put_spec cell_cap pool_cap m c r d =
     (if c \<ge> I123_MAX_COLS \<or> r \<ge> I123_MAX_ROWS \<or> length (d_bytes d) > 0xFFFF \<or> length (d_str d) > 0xFFFF then (m, Inl I123_E_ARG)
      else if m (c, r) = None \<and> card (dom m) \<ge> cell_cap then (m, Inl I123_E_FULL)
      else if stored_bytes (m((c, r) := None)) + data_size d > pool_cap then (m, Inl I123_E_FULL)
      else (m((c, r) \<mapsto> d), Inr ()))"

text \<open>What an operation keeps beside the map: the invariant and the two capacities.\<close>

definition kept :: "i123_sheet \<Rightarrow> i123_sheet \<Rightarrow> bool" where
  "kept sh sh' \<longleftrightarrow> sheet_ok sh' \<and> cap sh' = cap sh \<and> length (pool sh') = length (pool sh)"

lemma kept_refl: "sheet_ok sh \<Longrightarrow> kept sh sh"
  by (simp add: kept_def)

text \<open>The allocation for a new blob among the other cells: the shape of the sheet after it.\<close>

lemma alloc_among:
  assumes ok: "sheet_ok s" and n: "n < 0x20000" and fits: "n = 0 \<or> pool_live s + n \<le> length (pool s)"
    and cells: "cells s = ls @ ds @ rs"
  obtains p ls' ds' rs' u o' where
    "pool_alloc s n = Some (s\<lparr>pool := p, cells := ls' @ ds' @ rs', pool_used := u + n, pool_live := pool_live s + n\<rparr>, Inr o')"
    "sheet_ok (s\<lparr>pool := p, cells := ls' @ ds' @ rs', pool_used := u\<rparr>)" "length p = length (pool s)" "u + n \<le> length p"
    "n \<noteq> 0 \<longrightarrow> o' = u" "map (placeless p) ls' = map (placeless (pool s)) ls" "map (placeless p) ds' = map (placeless (pool s)) ds"
    "map (placeless p) rs' = map (placeless (pool s)) rs"
proof -
  have "pool_ok s" using ok by (simp add: sheet_ok_def)
  from pool_alloc_ok [OF this n] fits obtain p cs u o' where a: "length p = length (pool s)"
    "map (placeless p) cs = map (placeless (pool s)) (cells s)" "pool_ok (s\<lparr>pool := p, cells := cs, pool_used := u\<rparr>)"
    "pool_alloc s n = Some (s\<lparr>pool := p, cells := cs, pool_used := u + n, pool_live := pool_live s + n\<rparr>, Inr o')"
    "u + n \<le> length p" "n \<noteq> 0 \<longrightarrow> o' = u"
    by (auto split: if_splits)
  have "sheet_ok (s\<lparr>pool := p, cells := cs, pool_used := u\<rparr>)" by (rule moved_ok [OF ok a(2,3)])
  moreover from a(2) cells obtain ls' ds' rs' where "cs = ls' @ ds' @ rs'" "map (placeless p) ls' = map (placeless (pool s)) ls"
    "map (placeless p) ds' = map (placeless (pool s)) ds" "map (placeless p) rs' = map (placeless (pool s)) rs"
    by (auto simp: map_eq_append_conv append_eq_map_conv)
  ultimately show thesis using a that by blast
qed

section \<open>Storing a cell\<close>

abbreviation new_cell :: "nat \<Rightarrow> nat \<Rightarrow> cell_kind \<Rightarrow> u8 \<Rightarrow> u8 list option \<Rightarrow> u8 list \<Rightarrow> bool \<Rightarrow> u8 \<Rightarrow> u8 list \<Rightarrow> nat \<Rightarrow> i123_cell" where
  "new_cell c r knd fm v b1 hs sf b2 o' \<equiv>
     \<lparr>col = c, row = r, kind = knd, fmt = fm, has_str = hs, str_fmt = sf, clen = length b1, slen = length b2, off = o',
      cval = (case v of None \<Rightarrow> replicate 8 0 | Some bytes \<Rightarrow> bytes)\<rparr>"

definition put_data :: "cell_kind \<Rightarrow> u8 \<Rightarrow> u8 list option \<Rightarrow> u8 list \<Rightarrow> bool \<Rightarrow> u8 \<Rightarrow> u8 list \<Rightarrow> cell_data" where
  "put_data knd fm v b1 hs sf b2 = CellData knd fm (case v of None \<Rightarrow> replicate 8 0 | Some bytes \<Rightarrow> bytes) b1 hs sf b2"

lemma data_size_put [simp]: "data_size (put_data knd fm v b1 hs sf b2) = length b1 + length b2"
  by (simp add: data_size_def put_data_def)

text \<open>A blob just allocated at the end of the used bytes.\<close>

lemma put_fresh:
  assumes others: "others_ok u ls (key_of c r) rs"
    and addr: "c < I123_MAX_COLS" "r < I123_MAX_ROWS" "length b1 < 0x10000" "length b2 < 0x10000"
    and e: "e = new_cell c r knd fm v b1 hs sf b2 o'" and o': "length b1 + length b2 \<noteq> 0 \<longrightarrow> o' = u"
    and pools: "length (pool s) < 0x80000000" "u + (length b1 + length b2) \<le> length (pool s)"
    and live: "live_bytes (ls @ rs) \<le> u" and room: "length (ls @ rs) < cap s"
    and t: "t = s\<lparr>pool := splice (splice (pool s) o' b1) (o' + length b1) b2, cells := ls @ e # rs,
                pool_used := u + (length b1 + length b2), pool_live := live_bytes (ls @ rs) + (length b1 + length b2)\<rparr>"
  shows "sheet_ok t \<and> sheet_map t = (map_of (map (entry (pool s)) (ls @ rs)))((c, r) \<mapsto> put_data knd fm v b1 hs sf b2) \<and>
     length (pool t) = length (pool s)"
proof -
  have below: "csize x = 0 \<or> off x + csize x \<le> u" if "x \<in> set (ls @ rs)" for x
    using others that by (auto simp: others_ok_def inside_def)
  have place: "b1 @ b2 = [] \<or> off e + length (b1 @ b2) \<le> u + (length b1 + length b2) \<and>
      (\<forall>x \<in> set (ls @ rs). csize x = 0 \<or> off x + csize x \<le> off e \<or> off e + length (b1 @ b2) \<le> off x)"
  proof (cases "length b1 + length b2 = 0")
    case False
    then show ?thesis using o' below by (simp add: e) blast
  qed simp
  have size: "csize e = length b1 + length b2" by (simp add: e csize_def)
  have live_e: "live_bytes (ls @ e # rs) = live_bytes (ls @ rs) + (length b1 + length b2)" by (simp add: size)
  then have "live_bytes (ls @ e # rs) \<le> u + (length b1 + length b2)" using live by linarith
  moreover have "col e = c" "row e = r" "clen e = length b1" "slen e = length b2" by (simp_all add: e)
  moreover have "off e = o'" by (simp add: e)
  then have "pool t = splice (splice (pool s) (off e) b1) (off e + length b1) b2" "cells t = ls @ e # rs"
    "pool_used t = u + (length b1 + length b2)" "pool_live t = live_bytes (ls @ e # rs)" "cap t = cap s"
    unfolding live_e by (simp_all add: t)
  ultimately have "sheet_ok t" "length (pool t) = length (pool s)"
    "sheet_map t = (map_of (map (entry (pool s)) (ls @ rs)))((c, r) \<mapsto>
      CellData (kind e) (fmt e) (cval e) b1 (has_str e) (str_fmt e) b2)"
    using put_ok [OF others addr _ _ _ _ place pools(1) le_add1 pools(2) _ room, of t] by blast+
  moreover have "CellData (kind e) (fmt e) (cval e) b1 (has_str e) (str_fmt e) b2 = put_data knd fm v b1 hs sf b2"
    by (simp add: e put_data_def)
  ultimately show ?thesis by simp
qed

text \<open>The two halves of \<open>i123_put_cell\<close>.\<close>

lemma put_cell_stores:
  assumes "c < I123_MAX_COLS" "r < I123_MAX_ROWS" "length b1 < 0x10000" "length b2 < 0x10000"
    and "lower_bound sh (key_of c r) = i" "(i < length (cells sh) \<and> ckey (cells sh ! i) = key_of c r) = ex"
    and "ex \<or> length (cells sh) < cap sh" "place_blob sh i ex (length b1 + length b2) = Some (s1, Inr (o', old))"
  shows "i123_put_cell sh c r knd fm v b1 hs sf b2 = Some (s1\<lparr>pool := splice (splice (pool s1) o' b1) (o' + length b1) b2,
    pool_live := sub32 (pool_live s1) old,
    cells := (if ex then (cells s1)[i := new_cell c r knd fm v b1 hs sf b2 o']
              else take i (cells s1) @ new_cell c r knd fm v b1 hs sf b2 o' # drop i (cells s1))\<rparr>, Inr ())"
  unfolding i123_put_cell_def Let_def assms(5) assms(6) using assms(1-4,7,8) by auto

lemma put_cell_refuses:
  assumes "c < I123_MAX_COLS" "r < I123_MAX_ROWS" "length b1 < 0x10000" "length b2 < 0x10000"
    and "lower_bound sh (key_of c r) = i" "(i < length (cells sh) \<and> ckey (cells sh ! i) = key_of c r) = ex"
    and "\<not> ex \<and> cap sh \<le> length (cells sh) \<or> place_blob sh i ex (length b1 + length b2) = Some (sh, Inl I123_E_FULL)"
  shows "i123_put_cell sh c r knd fm v b1 hs sf b2 = Some (sh, Inl I123_E_FULL)"
  unfolding i123_put_cell_def Let_def assms(5) assms(6) using assms(1-4,7) by auto

lemma put_absent:
  assumes ok: "sheet_ok sh" and addr: "c < I123_MAX_COLS" "r < I123_MAX_ROWS" "length b1 < 0x10000" "length b2 < 0x10000"
    and cells: "cells sh = ls @ rs" "lower_bound sh (key_of c r) = length ls" "around ls (key_of c r) rs"
    and room: "length (cells sh) < cap sh" and fits: "pool_live sh + (length b1 + length b2) \<le> length (pool sh)"
  shows "\<exists>t. i123_put_cell sh c r knd fm v b1 hs sf b2 = Some (t, Inr ()) \<and> kept sh t \<and>
    sheet_map t = (sheet_map sh)((c, r) \<mapsto> put_data knd fm v b1 hs sf b2)"
proof -
  let ?n = "length b1 + length b2"
  have n: "?n < 0x20000" using addr by simp
  have small: "length (pool sh) < 0x80000000" "pool_live sh \<le> length (pool sh)" "pool_live sh = live_bytes (cells sh)"
    using ok by (auto simp: sheet_ok_def pool_ok_def)
  have c0: "cells sh = ls @ [] @ rs" using cells(1) by simp
  obtain p ls' ds' rs' u o' where a0:
    "pool_alloc sh ?n = Some (sh\<lparr>pool := p, cells := ls' @ ds' @ rs', pool_used := u + ?n, pool_live := pool_live sh + ?n\<rparr>, Inr o')"
    "sheet_ok (sh\<lparr>pool := p, cells := ls' @ ds' @ rs', pool_used := u\<rparr>)" "length p = length (pool sh)" "u + ?n \<le> length p"
    "?n \<noteq> 0 \<longrightarrow> o' = u" "map (placeless p) ls' = map (placeless (pool sh)) ls" "map (placeless p) ds' = map (placeless (pool sh)) []"
    "map (placeless p) rs' = map (placeless (pool sh)) rs"
    by (rule alloc_among [OF ok n disjI2 [OF fits] c0]) (rule that; assumption)
  have "ds' = []" using a0(7) by simp
  note a = a0(1-6,8) [unfolded this append_Nil]
  define s where "s = sh\<lparr>pool := p, cells := ls' @ rs', pool_used := u\<rparr>"
  have keys: "map ckey ls' = map ckey ls" "map ckey rs' = map ckey rs"
    using keys_placeless [OF a(6)] keys_placeless [OF a(7)] by simp_all
  have entries: "map (entry p) ls' = map (entry (pool sh)) ls" "map (entry p) rs' = map (entry (pool sh)) rs"
    using entries_placeless [OF a(6)] entries_placeless [OF a(7)] by simp_all
  have "set (map ckey ls') = set (map ckey ls)" "set (map ckey rs') = set (map ckey rs)" by (simp_all only: keys)
  then have ar: "around ls' (key_of c r) rs'" using cells(3) unfolding around_def by (simp add: set_eq_iff image_iff) metis
  have others: "others_ok u ls' (key_of c r) rs'"
    using others_absent [OF a(2) _ ar] by simp
  have len: "length ls' = length ls" "length rs' = length rs" using keys by (metis length_map)+
  have live: "live_bytes (ls' @ rs') = pool_live sh" "live_bytes (ls' @ rs') \<le> u"
    using a(2) by (auto simp: sheet_ok_def pool_ok_def)
  define e where "e = new_cell c r knd fm v b1 hs sf b2 o'"
  define t where "t = s\<lparr>pool := splice (splice (pool s) o' b1) (o' + length b1) b2, cells := ls' @ e # rs',
                pool_used := u + ?n, pool_live := live_bytes (ls' @ rs') + ?n\<rparr>"
  have ex: "(length ls < length (cells sh) \<and> ckey (cells sh ! length ls) = key_of c r) = False"
    using cells(1,3) by (cases rs) (auto simp: around_def)
  have "place_blob sh (length ls) False ?n =
      Some (sh\<lparr>pool := p, cells := ls' @ rs', pool_used := u + ?n, pool_live := pool_live sh + ?n\<rparr>, Inr (o', 0))"
    using small fits n a(1) by (simp add: place_blob_def)
  from put_cell_stores [OF addr cells(2) ex _ this, of knd fm v hs sf] room small n live(1)
  have run: "i123_put_cell sh c r knd fm v b1 hs sf b2 = Some (t, Inr ())"
    by (simp add: t_def s_def e_def len)
  have "length (pool s) < 0x80000000" "u + ?n \<le> length (pool s)" "length (ls' @ rs') < cap s"
    using small a(3,4) room len cells(1) by (simp_all add: s_def)
  from put_fresh [OF others addr e_def a(5) this(1,2) live(2) this(3) t_def]
  have t_ok: "sheet_ok t" "length (pool t) = length (pool s)"
    "sheet_map t = (map_of (map (entry (pool s)) (ls' @ rs')))((c, r) \<mapsto> put_data knd fm v b1 hs sf b2)"
    by simp_all
  have "map_of (map (entry (pool s)) (ls' @ rs')) = sheet_map sh"
    by (simp add: s_def sheet_map_def cells(1) entries)
  with t_ok run show ?thesis by (auto simp: kept_def t_def s_def a(3))
qed

text \<open>A replacement that fits the old blob: the cell \<open>e\<close> with the bytes \<open>b1 @ b2\<close> in the place of \<open>d\<close>.\<close>

lemma replace_in_place:
  assumes ok: "sheet_ok sh" and addr: "c < I123_MAX_COLS" "r < I123_MAX_ROWS" "length b1 < 0x10000" "length b2 < 0x10000"
    and cells: "cells sh = ls @ d # rs" "col d = c" "row d = r" and fits: "length b1 + length b2 \<le> csize d"
    and e: "col e = c" "row e = r" "clen e = length b1" "slen e = length b2" "off e = off d"
    and t: "t = sh\<lparr>pool := splice (splice (pool sh) (off d) b1) (off d + length b1) b2, cells := ls @ e # rs,
      pool_live := pool_live sh - (csize d - (length b1 + length b2))\<rparr>"
  shows "kept sh t" "sheet_map t = (sheet_map sh)((c, r) \<mapsto> CellData (kind e) (fmt e) (cval e) b1 (has_str e) (str_fmt e) b2)"
proof -
  let ?n = "length b1 + length b2"
  have small: "length (pool sh) < 0x80000000" "pool_used sh \<le> length (pool sh)" "pool_live sh \<le> pool_used sh"
    "pool_live sh = live_bytes (ls @ d # rs)" "inside (pool_used sh) d" "length (ls @ rs) < cap sh"
    using ok cells by (auto simp: sheet_ok_def pool_ok_def)
  have others: "others_ok (pool_used sh) ls (key_of c r) rs" by (rule others_found [OF ok cells])
  have size: "csize e = ?n" by (simp add: e csize_def)
  have place: "b1 @ b2 = [] \<or> off e + length (b1 @ b2) \<le> pool_used sh \<and>
      (\<forall>x \<in> set (ls @ rs). csize x = 0 \<or> off x + csize x \<le> off e \<or> off e + length (b1 @ b2) \<le> off x)"
  proof (cases "?n = 0")
    case False
    then have d: "csize d \<noteq> 0" using fits by linarith
    then have "off e + length (b1 @ b2) \<le> pool_used sh" using small(5) fits by (simp add: inside_def e)
    moreover have "csize x = 0 \<or> off x + csize x \<le> off e \<or> off e + length (b1 @ b2) \<le> off x" if "x \<in> set (ls @ rs)" for x
    proof -
      have "apart d x" using ok that cells(1) by (auto simp: sheet_ok_def pool_ok_def apart_mid)
      then show ?thesis using d fits by (auto simp: apart_def e)
    qed
    ultimately show ?thesis by blast
  qed simp
  have live: "live_bytes (ls @ e # rs) = pool_live sh - (csize d - ?n)" using small(4) fits by (simp add: size)
  have t': "pool t = splice (splice (pool sh) (off e) b1) (off e + length b1) b2" "cells t = ls @ e # rs"
    "pool_used t = pool_used sh" "pool_live t = live_bytes (ls @ e # rs)" "cap t = cap sh"
    unfolding live e by (simp_all add: t)
  have le: "live_bytes (ls @ e # rs) \<le> pool_used sh" using live small(3) by linarith
  note put = put_ok [OF others addr e(1-4) place small(1) order_refl small(2) le small(6) t']
  have "map_of (map (entry (pool sh)) (ls @ rs)) = (sheet_map sh)((c, r) := None)"
    using sheet_map_found(3) [OF ok cells] by simp
  then show "sheet_map t = (sheet_map sh)((c, r) \<mapsto> CellData (kind e) (fmt e) (cval e) b1 (has_str e) (str_fmt e) b2)"
    using put(2) by (simp del: map_append)
  show "kept sh t" using put(1,3) t'(5) by (simp add: kept_def)
qed

lemma put_over_old:
  assumes ok: "sheet_ok sh" and addr: "c < I123_MAX_COLS" "r < I123_MAX_ROWS" "length b1 < 0x10000" "length b2 < 0x10000"
    and cells: "cells sh = ls @ d # rs" "lower_bound sh (key_of c r) = length ls" "col d = c" "row d = r"
    and fits: "length b1 + length b2 \<le> csize d"
  shows "\<exists>t. i123_put_cell sh c r knd fm v b1 hs sf b2 = Some (t, Inr ()) \<and> kept sh t \<and>
    sheet_map t = (sheet_map sh)((c, r) \<mapsto> put_data knd fm v b1 hs sf b2)"
proof -
  let ?n = "length b1 + length b2"
  define e where "e = new_cell c r knd fm v b1 hs sf b2 (off d)"
  define t where "t = sh\<lparr>pool := splice (splice (pool sh) (off d) b1) (off d + length b1) b2, cells := ls @ e # rs,
    pool_live := pool_live sh - (csize d - ?n)\<rparr>"
  have small: "length (pool sh) < 0x80000000" "pool_live sh \<le> length (pool sh)" "pool_live sh = live_bytes (ls @ d # rs)"
    using ok cells by (auto simp: sheet_ok_def pool_ok_def)
  have ex: "(length ls < length (cells sh) \<and> ckey (cells sh ! length ls) = key_of c r) = True"
    by (simp add: cells)
  have "place_blob sh (length ls) True ?n = Some (sh\<lparr>pool_live := pool_live sh - (csize d - ?n)\<rparr>, Inr (off d, 0))"
    using fits small by (simp add: place_blob_def cells(1))
  from put_cell_stores [OF addr cells(2) ex _ this, of knd fm v hs sf] small
  have run: "i123_put_cell sh c r knd fm v b1 hs sf b2 = Some (t, Inr ())"
    by (simp add: t_def e_def cells(1))
  have e': "col e = c" "row e = r" "clen e = length b1" "slen e = length b2" "off e = off d" by (simp_all add: e_def)
  have "CellData (kind e) (fmt e) (cval e) b1 (has_str e) (str_fmt e) b2 = put_data knd fm v b1 hs sf b2"
    by (simp add: e_def put_data_def)
  then show ?thesis using run replace_in_place [OF ok addr cells(1,3,4) fits e' t_def] by auto
qed

text \<open>A replacement that needs a new blob, with the old one dropped first when the pool has to be compacted.\<close>

lemma put_moves:
  assumes ok: "sheet_ok sh" and addr: "c < I123_MAX_COLS" "r < I123_MAX_ROWS" "length b1 < 0x10000" "length b2 < 0x10000"
    and cells: "cells sh = ls @ d # rs" "lower_bound sh (key_of c r) = length ls" "col d = c" "row d = r"
    and more: "csize d < length b1 + length b2" and fits: "pool_live sh - csize d + (length b1 + length b2) \<le> length (pool sh)"
  shows "\<exists>t. i123_put_cell sh c r knd fm v b1 hs sf b2 = Some (t, Inr ()) \<and> kept sh t \<and>
    sheet_map t = (sheet_map sh)((c, r) \<mapsto> put_data knd fm v b1 hs sf b2)"
proof -
  let ?n = "length b1 + length b2"
  have n: "?n < 0x20000" using addr by simp
  have small: "length (pool sh) < 0x80000000" "pool_used sh \<le> length (pool sh)" "pool_live sh \<le> pool_used sh"
    "pool_live sh = live_bytes (ls @ d # rs)" "length (ls @ rs) < cap sh"
    using ok cells by (auto simp: sheet_ok_def pool_ok_def)
  then have le: "csize d \<le> pool_live sh" by simp
  define gone where "gone \<longleftrightarrow> csize d \<noteq> 0 \<and> pool_used sh + ?n > length (pool sh)"
  define d1 where "d1 = (if gone then d\<lparr>clen := 0, slen := 0\<rparr> else d)"
  define left where "left = (if gone then 0 else csize d)"
  define s1 where "s1 = sh\<lparr>cells := ls @ [d1] @ rs, pool_live := pool_live sh - csize d + left\<rparr>"
  have size: "csize d1 = left" by (simp add: d1_def left_def csize_def)
  have s1_ok: "sheet_ok s1"
  proof -
    have "apart d1 x" if "x \<in> set (ls @ rs)" for x
    proof (cases gone)
      case True
      then show ?thesis using size by (simp add: left_def)
    next
      case False
      then show ?thesis using ok that cells(1) by (auto simp: d1_def sheet_ok_def pool_ok_def apart_mid)
    qed
    then have "sorted_wrt apart (ls @ d1 # rs)"
      using ok cells(1) by (auto simp: sheet_ok_def pool_ok_def apart_mid)
    moreover have "inside (pool_used sh) d1"
      using ok cells(1) size by (auto simp: d1_def left_def sheet_ok_def pool_ok_def)
    moreover have "pool_live sh - csize d + left = live_bytes (ls @ d1 # rs)" using small(4) by (simp add: size)
    moreover have "left \<le> csize d" by (simp add: left_def)
    ultimately have "pool_ok s1" using ok cells(1) le
      by (auto simp: sheet_ok_def pool_ok_def s1_def)
    moreover have "ckey d1 = ckey d" "cell_fits d1" using ok cells(1)
      by (auto simp: d1_def sheet_ok_def cell_fits_def)
    then have "sorted_wrt key_less (ls @ d1 # rs)" using ok cells(1) by (auto simp: sheet_ok_def sorted_wrt_append)
    ultimately show ?thesis using ok cells(1) \<open>cell_fits d1\<close> by (auto simp: sheet_ok_def s1_def)
  qed
  have fits1: "?n = 0 \<or> pool_live s1 + ?n \<le> length (pool s1)"
    using fits small(2,3) le by (auto simp: s1_def left_def gone_def)
  have s1_cells: "cells s1 = ls @ [d1] @ rs" by (simp add: s1_def)
  obtain p ls' ds' rs' u o' where a:
    "pool_alloc s1 ?n = Some (s1\<lparr>pool := p, cells := ls' @ ds' @ rs', pool_used := u + ?n, pool_live := pool_live s1 + ?n\<rparr>, Inr o')"
    "sheet_ok (s1\<lparr>pool := p, cells := ls' @ ds' @ rs', pool_used := u\<rparr>)" "length p = length (pool s1)" "u + ?n \<le> length p"
    "?n \<noteq> 0 \<longrightarrow> o' = u" "map (placeless p) ls' = map (placeless (pool s1)) ls" "map (placeless p) ds' = map (placeless (pool s1)) [d1]"
    "map (placeless p) rs' = map (placeless (pool s1)) rs"
    by (rule alloc_among [OF s1_ok n fits1 s1_cells]) (rule that; assumption)
  obtain d' where ds': "ds' = [d']" and d': "placeless p d' = placeless (pool s1) d1"
    using a(7) by (auto simp: map_eq_Cons_conv)
  define s where "s = s1\<lparr>pool := p, cells := ls' @ d' # rs', pool_used := u\<rparr>"
  have s_ok: "sheet_ok s" using a(2) by (simp add: s_def ds')
  have entries: "map (entry p) ls' = map (entry (pool sh)) ls" "map (entry p) rs' = map (entry (pool sh)) rs"
    using entries_placeless [OF a(6)] entries_placeless [OF a(8)] by (simp_all add: s1_def)
  have len: "length ls' = length ls" "length rs' = length rs"
    using map_eq_imp_length_eq [OF a(6)] map_eq_imp_length_eq [OF a(8)] by simp_all
  have at: "col d' = c" "row d' = r"
    using entry_placeless [OF d'] cells(3,4) by (simp_all add: entry_def d1_def split: if_splits)
  have others: "others_ok u ls' (key_of c r) rs'"
    using others_found [OF s_ok _ at, of ls' rs'] by (simp add: s_def)
  have sizes: "csize d' = left" using placeless_facts(2) [OF d'] size by simp
  have live: "live_bytes (ls' @ rs') + left = pool_live s1" "live_bytes (ls' @ rs') \<le> u"
    using s_ok sizes by (auto simp: sheet_ok_def pool_ok_def s_def)
  define e where "e = new_cell c r knd fm v b1 hs sf b2 o'"
  define t where "t = s\<lparr>pool := splice (splice (pool s) o' b1) (o' + length b1) b2, cells := ls' @ e # rs',
                pool_used := u + ?n, pool_live := live_bytes (ls' @ rs') + ?n\<rparr>"
  have ex: "(length ls < length (cells sh) \<and> ckey (cells sh ! length ls) = key_of c r) = True"
    by (simp add: cells)
  have "place_blob sh (length ls) True ?n = (case pool_alloc s1 ?n of None \<Rightarrow> None
      | Some (s2, Inl rc) \<Rightarrow> Some (s2, Inl rc) | Some (s2, Inr q) \<Rightarrow> Some (s2, Inr (q, left)))"
  proof -
    have A: "s1 = (if gone then sh\<lparr>cells := (cells sh)[length ls := (cells sh ! length ls)\<lparr>clen := 0, slen := 0\<rparr>],
        pool_live := pool_live sh - csize d\<rparr> else sh)"
      using le cells(1) by (simp add: s1_def d1_def left_def)
    have B: "place_blob sh (length ls) True ?n = (case pool_alloc (if gone
          then sh\<lparr>cells := (cells sh)[length ls := (cells sh ! length ls)\<lparr>clen := 0, slen := 0\<rparr>], pool_live := pool_live sh - csize d\<rparr>
          else sh) ?n of None \<Rightarrow> None
        | Some (s2, Inl rc) \<Rightarrow> Some (s2, Inl rc) | Some (s2, Inr q) \<Rightarrow> Some (s2, Inr (q, if gone then 0 else csize d)))"
    proof -
      have d: "cells sh ! length ls = d" by (simp add: cells(1))
      have g: "(csize d \<noteq> 0 \<and> wrap32 (pool_used sh + ?n) > length (pool sh)) = gone" using small n by (simp add: gone_def)
      have w: "sub32 (pool_live sh) (csize d) = pool_live sh - csize d" using le small by simp
      have f: "wrap32 (pool_live sh - csize d + ?n) \<le> length (pool sh)" using fits small by simp
      show ?thesis unfolding place_blob_def Let_def d if_True w g using more f by (simp add: not_less)
    qed
    show ?thesis unfolding B A left_def by (rule refl)
  qed
  then have "place_blob sh (length ls) True ?n =
      Some (s1\<lparr>pool := p, cells := ls' @ d' # rs', pool_used := u + ?n, pool_live := pool_live s1 + ?n\<rparr>, Inr (o', left))"
    by (simp add: a(1) ds')
  moreover have "(ls' @ d' # rs')[length ls := x] = ls' @ x # rs'" for x by (simp flip: len)
  moreover have "left \<le> csize d" by (simp add: left_def)
  ultimately have run: "i123_put_cell sh c r knd fm v b1 hs sf b2 = Some (t, Inr ())"
    using put_cell_stores [OF addr cells(2) ex, of _ o' left knd fm v hs sf] live(1) small n le
    by (simp add: t_def s_def e_def s1_def)
  have "length (pool s) < 0x80000000" "u + ?n \<le> length (pool s)" "length (ls' @ rs') < cap s"
    using small a(3,4) len by (simp_all add: s_def s1_def)
  from put_fresh [OF others addr e_def a(5) this(1,2) live(2) this(3) t_def]
  have t_ok: "sheet_ok t" "length (pool t) = length (pool s)"
    "sheet_map t = (map_of (map (entry (pool s)) (ls' @ rs')))((c, r) \<mapsto> put_data knd fm v b1 hs sf b2)"
    by simp_all
  have "map_of (map (entry (pool s)) (ls' @ rs')) = (sheet_map sh)((c, r) := None)"
    using sheet_map_found(3) [OF ok cells(1,3,4)] by (simp add: s_def entries)
  then have "sheet_map t = (sheet_map sh)((c, r) \<mapsto> put_data knd fm v b1 hs sf b2)"
    using t_ok(3) by (simp del: map_append)
  with t_ok run show ?thesis by (auto simp: kept_def t_def s_def s1_def a(3))
qed

end
