(* ===== verification/SheetOps.thy ===== *)
theory SheetOps imports SheetPut begin

text \<open>
  What the worksheet store promises, operation by operation and for whole editing histories: every operation returns,
  keeps the invariant and the capacities, and acts on the finite map of cell contents exactly as its specification.
\<close>

section \<open>The single operations\<close>

lemma put_cell_refines:
  assumes ok: "sheet_ok sh"
  shows "\<exists>t res. i123_put_cell sh c r knd fm v b1 hs sf b2 = Some (t, res) \<and> kept sh t \<and>
    put_spec (cap sh) (length (pool sh)) (sheet_map sh) c r (put_data knd fm v b1 hs sf b2) = (sheet_map t, res)"
proof (cases "c \<ge> I123_MAX_COLS \<or> r \<ge> I123_MAX_ROWS \<or> length b1 > 0xFFFF \<or> length b2 > 0xFFFF")
  case True
  then have "i123_put_cell sh c r knd fm v b1 hs sf b2 = Some (sh, Inl I123_E_ARG)"
    unfolding i123_put_cell_def Let_def by auto
  moreover have "put_spec (cap sh) (length (pool sh)) (sheet_map sh) c r (put_data knd fm v b1 hs sf b2) =
      (sheet_map sh, Inl I123_E_ARG)"
    using True by (auto simp: put_spec_def put_data_def)
  ultimately show ?thesis using kept_refl [OF ok] by blast
next
  case False
  then have addr: "c < I123_MAX_COLS" "r < I123_MAX_ROWS" "length b1 < 0x10000" "length b2 < 0x10000" by auto
  have spec: "put_spec (cap sh) (length (pool sh)) (sheet_map sh) c r (put_data knd fm v b1 hs sf b2) =
      (if sheet_map sh (c, r) = None \<and> cap sh \<le> length (cells sh) then (sheet_map sh, Inl I123_E_FULL)
       else if stored_bytes ((sheet_map sh)((c, r) := None)) + (length b1 + length b2) > length (pool sh)
       then (sheet_map sh, Inl I123_E_FULL)
       else ((sheet_map sh)((c, r) \<mapsto> put_data knd fm v b1 hs sf b2), Inr ()))"
    using False by (simp add: put_spec_def sheet_map_size [OF ok]) (simp add: put_data_def)
  have small: "length (pool sh) < 0x80000000" "pool_live sh \<le> length (pool sh)" "pool_live sh = live_bytes (cells sh)"
    and all_in: "\<forall>x \<in> set (cells sh). inside (length (pool sh)) x" and sorted: "sorted_wrt key_less (cells sh)"
    using ok by (auto simp: sheet_ok_def pool_ok_def intro: inside_mono)
  show ?thesis
  proof (cases rule: locate [OF ok addr(1), of r, case_names found absent])
    case (found ls d rs)
    note m = sheet_map_found [OF ok found(1,3,4)]
    have rest: "stored_bytes ((sheet_map sh)((c, r) := None)) = pool_live sh - csize d"
      using map_of_entries_size(1) [of "ls @ rs" "pool sh"] all_in sorted small
      unfolding m(3) by (simp add: found(1) sorted_wrt_append)
    show ?thesis
    proof (cases "length b1 + length b2 \<le> csize d")
      case True
      have "pool_live sh - csize d + (length b1 + length b2) \<le> length (pool sh)" using True small found(1) by simp
      then show ?thesis using put_over_old [OF ok addr found True, of knd fm v hs sf] m(2) by (auto simp: spec rest)
    next
      case more: False
      show ?thesis
      proof (cases "pool_live sh - csize d + (length b1 + length b2) \<le> length (pool sh)")
        case True
        then show ?thesis using put_moves [OF ok addr found _ True, of knd fm v hs sf] m(2) more by (auto simp: spec rest)
      next
        case no: False
        have ex: "(length ls < length (cells sh) \<and> ckey (cells sh ! length ls) = key_of c r) = True"
          by (simp add: found)
        have "csize d \<le> pool_live sh" using small found(1) by simp
        then have "wrap32 (sub32 (pool_live sh) (csize d) + (length b1 + length b2)) = pool_live sh - csize d + (length b1 + length b2)"
          using small addr by simp
        then have "place_blob sh (length ls) True (length b1 + length b2) = Some (sh, Inl I123_E_FULL)"
          using more no unfolding place_blob_def Let_def by (simp add: found(1))
        from put_cell_refuses [OF addr found(2) ex disjI2 [OF this]] kept_refl [OF ok] m(2) no
        show ?thesis by (auto simp: spec rest)
      qed
    qed
  next
    case (absent ls rs)
    note m = sheet_map_absent [OF absent(1,3,4)]
    have rest: "stored_bytes ((sheet_map sh)((c, r) := None)) = pool_live sh"
      using sheet_map_size(1) [OF ok] m(2) by (simp add: fun_upd_idem)
    have ex: "(length ls < length (cells sh) \<and> ckey (cells sh ! length ls) = key_of c r) = False"
      using absent by (cases rs) auto
    show ?thesis
    proof (cases "cap sh \<le> length (cells sh)")
      case True
      then show ?thesis using put_cell_refuses [OF addr absent(2) ex, of knd fm v hs sf] kept_refl [OF ok] m(2)
        by (auto simp: spec)
    next
      case room: False
      show ?thesis
      proof (cases "pool_live sh + (length b1 + length b2) \<le> length (pool sh)")
        case True
        from put_absent [OF ok addr absent(1,2) m(1) _ True, of knd fm v hs sf] room m(2) show ?thesis
          using True by (auto simp: spec rest)
      next
        case no: False
        have "wrap32 (sub32 (pool_live sh) 0 + (length b1 + length b2)) = pool_live sh + (length b1 + length b2)"
          using small addr by simp
        then have "place_blob sh (length ls) False (length b1 + length b2) = Some (sh, Inl I123_E_FULL)"
          using no unfolding place_blob_def Let_def by simp
        from put_cell_refuses [OF addr absent(2) ex disjI2 [OF this], of knd fm v hs sf] kept_refl [OF ok] m(2) no room
        show ?thesis by (auto simp: spec rest)
      qed
    qed
  qed
qed

lemma erase_refines:
  assumes ok: "sheet_ok sh" and c: "c < I123_MAX_COLS"
  shows "kept sh (i123_erase sh c r) \<and> sheet_map (i123_erase sh c r) = (sheet_map sh)((c, r) := None)"
proof (cases rule: locate [OF ok c, of r, case_names found absent])
  case (found ls d rs)
  have size: "csize d \<le> pool_live sh" "pool_live sh < 0x100000000" "pool_live sh = live_bytes (ls @ d # rs)"
    using ok found(1) by (auto simp: sheet_ok_def pool_ok_def)
  have er: "i123_erase sh c r = sh\<lparr>pool_live := live_bytes (ls @ rs), cells := ls @ rs\<rparr>"
    using found size unfolding i123_erase_def Let_def by (simp add: sub32_le)
  have "sheet_ok (i123_erase sh c r)"
    unfolding er using ok found(1) by (auto simp: sheet_ok_def pool_ok_def sorted_wrt_append)
  then show ?thesis using sheet_map_found(3) [OF ok found(1,3,4)] by (simp add: kept_def er sheet_map_def)
next
  case (absent ls rs)
  have "i123_erase sh c r = sh"
    using absent by (cases rs) (auto simp: i123_erase_def Let_def)
  then show ?thesis using sheet_map_absent(2) [OF absent(1,3,4)] kept_refl [OF ok] by (simp add: fun_upd_idem)
qed

text \<open>The extents do not touch the store.\<close>

lemma grow_extents_simps [simp]: "cells (grow_extents sh c r k) = cells sh" "pool (grow_extents sh c r k) = pool sh"
  "cap (grow_extents sh c r k) = cap sh" "pool_used (grow_extents sh c r k) = pool_used sh"
  "pool_live (grow_extents sh c r k) = pool_live sh"
  by (simp_all add: grow_extents_def Let_def)

lemma grow_extents_kept [simp]: "kept sh (grow_extents t c r k) = kept sh t" "sheet_map (grow_extents t c r k) = sheet_map t"
  by (simp_all add: kept_def sheet_ok_def pool_ok_def sheet_map_def)

text \<open>The outcome of a call against the outcome of its specification.\<close>

definition refines :: "i123_sheet \<Rightarrow> (i123_sheet \<times> (int + unit)) option \<Rightarrow> (nat \<times> nat \<rightharpoonup> cell_data) \<times> (int + unit) \<Rightarrow> bool" where
  "refines sh out spec \<longleftrightarrow> (\<exists>t res. out = Some (t, res) \<and> kept sh t \<and> spec = (sheet_map t, res))"

lemma refinesI: "out = Some (t, res) \<Longrightarrow> kept sh t \<Longrightarrow> spec = (sheet_map t, res) \<Longrightarrow> refines sh out spec"
  by (auto simp: refines_def)

lemma refines_then_extents: "refines sh out spec \<Longrightarrow> refines sh (then_extents out c r k) spec"
proof -
  assume "refines sh out spec"
  then obtain t res where "out = Some (t, res)" "kept sh t" "spec = (sheet_map t, res)" by (auto simp: refines_def)
  then show ?thesis by (cases res) (simp_all add: then_extents_def refines_def)
qed

definition fmt_at :: "(nat \<times> nat \<rightharpoonup> cell_data) \<Rightarrow> nat \<times> nat \<Rightarrow> u8" where
  "fmt_at m a = (case m a of None \<Rightarrow> WK1_FMT_FRESH_CELL | Some d \<Rightarrow> d_fmt d)"

lemma entry_fmt_exact: "sheet_ok sh \<Longrightarrow> c < 256 \<Longrightarrow> entry_fmt sh c r = fmt_at (sheet_map sh) (c, r)"
  by (auto simp: entry_fmt_def fmt_at_def i123_find_exact [symmetric] data_of_def split: option.split)

definition label_spec :: "nat \<Rightarrow> nat \<Rightarrow> (nat \<times> nat \<rightharpoonup> cell_data) \<Rightarrow> nat \<Rightarrow> nat \<Rightarrow> u8 \<Rightarrow> u8 list \<Rightarrow>
    (nat \<times> nat \<rightharpoonup> cell_data) \<times> (int + unit)" where
  "label_spec cell_cap pool_cap m c r prefix text =
     (if c \<ge> I123_MAX_COLS \<or> r \<ge> I123_MAX_ROWS \<or> length text > I123_LABEL_MAX \<or> 0 \<in> set text then (m, Inl I123_E_ARG)
      else put_spec cell_cap pool_cap m c r
        (CellData I123_K_LABEL (fmt_at m (c, r)) (replicate 8 0) (prefix # text) False 0 []))"

lemma set_label_refines:
  assumes ok: "sheet_ok sh"
  shows "refines sh (i123_set_label sh c r prefix text) (label_spec (cap sh) (length (pool sh)) (sheet_map sh) c r prefix text)"
proof (cases "c \<ge> I123_MAX_COLS \<or> r \<ge> I123_MAX_ROWS \<or> length text > I123_LABEL_MAX \<or> 0 \<in> set text")
  case True
  then show ?thesis using kept_refl [OF ok] by (auto simp: i123_set_label_def label_spec_def intro: refinesI)
next
  case False
  let ?fm = "entry_fmt sh c r"
  have "refines sh (i123_put_cell sh c r I123_K_LABEL ?fm None (prefix # text) False 0 [])
      (put_spec (cap sh) (length (pool sh)) (sheet_map sh) c r (put_data I123_K_LABEL ?fm None (prefix # text) False 0 []))"
    using put_cell_refines [OF ok] unfolding refines_def by blast
  moreover have "i123_set_label sh c r prefix text =
      then_extents (i123_put_cell sh c r I123_K_LABEL ?fm None (prefix # text) False 0 []) c r I123_K_LABEL"
    using False by (auto simp: i123_set_label_def)
  moreover have "label_spec (cap sh) (length (pool sh)) (sheet_map sh) c r prefix text =
      put_spec (cap sh) (length (pool sh)) (sheet_map sh) c r (put_data I123_K_LABEL ?fm None (prefix # text) False 0 [])"
    using False entry_fmt_exact [OF ok] by (auto simp: label_spec_def put_data_def)
  ultimately show ?thesis by (simp add: refines_then_extents)
qed

lemma set_formula_refines:
  assumes ok: "sheet_ok sh"
  shows "refines sh (i123_set_formula_raw sh c r fm cache code str) (put_spec (cap sh) (length (pool sh)) (sheet_map sh) c r
    (CellData I123_K_FORMULA fm cache code (str \<noteq> None) fm (case str of None \<Rightarrow> [] | Some s \<Rightarrow> s)))"
proof -
  have "CellData I123_K_FORMULA fm cache code (str \<noteq> None) fm (case str of None \<Rightarrow> [] | Some s \<Rightarrow> s) =
      put_data I123_K_FORMULA fm (Some cache) code (str \<noteq> None) fm (case str of None \<Rightarrow> [] | Some s \<Rightarrow> s)"
    by (simp add: put_data_def)
  then show ?thesis using put_cell_refines [OF ok] unfolding i123_set_formula_raw_def
    by (intro refines_then_extents) (auto simp: refines_def)
qed

definition format_spec :: "nat \<Rightarrow> nat \<Rightarrow> (nat \<times> nat \<rightharpoonup> cell_data) \<Rightarrow> nat \<Rightarrow> nat \<Rightarrow> u8 \<Rightarrow>
    (nat \<times> nat \<rightharpoonup> cell_data) \<times> (int + unit)" where
  "format_spec cell_cap pool_cap m c r fm = (case m (c, r) of
     Some d \<Rightarrow> (m((c, r) \<mapsto> CellData (d_kind d) fm (d_val d) (d_bytes d) (d_has d) (d_sfmt d) (d_str d)), Inr ())
   | None \<Rightarrow> if fm = WK1_FMT_FRESH_CELL then (m, Inr ())
             else put_spec cell_cap pool_cap m c r (CellData I123_K_BLANK fm (replicate 8 0) [] False 0 []))"

lemma set_format_refines:
  assumes ok: "sheet_ok sh" and c: "c < I123_MAX_COLS"
  shows "refines sh (i123_set_cell_format sh c r fm) (format_spec (cap sh) (length (pool sh)) (sheet_map sh) c r fm)"
proof (cases rule: locate [OF ok c, of r, case_names found absent])
  case (found ls d rs)
  let ?d = "d\<lparr>fmt := fm\<rparr>"
  define t where "t = sh\<lparr>cells := ls @ ?d # rs\<rparr>"
  have "i123_set_cell_format sh c r fm = Some (t, Inr ())"
    using found by (simp add: i123_set_cell_format_def Let_def t_def)
  moreover have size: "csize ?d = csize d" by (simp add: csize_def)
  have "apart ?d x = apart d x" "apart x ?d = apart x d" for x using size by (simp_all add: apart_def)
  then have "sheet_ok t" using ok size
    by (simp add: t_def found(1) sheet_ok_def pool_ok_def apart_mid inside_def cell_fits_def sorted_wrt_append)
  then have "kept sh t" by (simp add: kept_def t_def)
  moreover have "sheet_map t = (map_of (map (entry (pool sh)) (ls @ rs)))((c, r) \<mapsto> data_of (pool sh) ?d)"
    using map_of_around [OF sheet_map_found(1) [OF ok found(1,3,4)], of ?d] found(3,4) by (simp add: sheet_map_def t_def)
  then have "sheet_map t = (sheet_map sh)((c, r) \<mapsto> data_of (pool sh) ?d)"
    unfolding sheet_map_found(3) [OF ok found(1,3,4), symmetric] by simp
  ultimately show ?thesis using sheet_map_found(2) [OF ok found(1,3,4)]
    by (auto simp: format_spec_def data_of_def intro: refinesI)
next
  case (absent ls rs)
  have "\<not> (length ls < length (cells sh) \<and> ckey (cells sh ! length ls) = key_of c r)"
    using absent by (cases rs) auto
  then have run: "i123_set_cell_format sh c r fm = (if fm = WK1_FMT_FRESH_CELL then Some (sh, Inr ())
      else then_extents (i123_put_cell sh c r I123_K_BLANK fm None [] False 0 []) c r I123_K_BLANK)"
    unfolding i123_set_cell_format_def Let_def absent(2) by (rule if_not_P)
  have "refines sh (i123_put_cell sh c r I123_K_BLANK fm None [] False 0 [])
      (put_spec (cap sh) (length (pool sh)) (sheet_map sh) c r (put_data I123_K_BLANK fm None [] False 0 []))"
    using put_cell_refines [OF ok] unfolding refines_def by blast
  then show ?thesis using kept_refl [OF ok] sheet_map_absent(2) [OF absent(1,3,4)]
    by (auto simp: run format_spec_def put_data_def intro: refinesI refines_then_extents)
qed

end
