(* ===== verification/SheetCache.thy ===== *)
theory SheetCache imports SheetOps begin

text \<open>
  Storing a formula's result in its cell (\<open>i123_cell_set_cache\<close>) against its specification on the finite map. A longer
  string is stored in a new blob while the old one is still owned, so here the call may be refused although the final
  data would fit.
\<close>

section \<open>Bytes\<close>

lemma splice_own_window: "off' + n \<le> length p \<Longrightarrow> splice p off' (window p off' n) = p"
  by (intro nth_equalityI) (auto simp: nth_splice window_nth)

lemma copy_bytes_splice:
  assumes "d + n \<le> length p" "s + n \<le> length p" "d \<le> s \<or> s + n \<le> d"
  shows "copy_bytes p d s n = splice p d (window p s n)"
  using assms by (intro nth_equalityI) (auto simp: nth_splice window_nth nth_copy_bytes)

text \<open>The code bytes of a cell, and the cell's size, from its window.\<close>

lemma code_window:
  assumes "inside (length p) c"
  shows "length (window p (off c) (clen c)) = clen c" "length (window p (off c + clen c) (slen c)) = slen c"
    "splice p (off c) (window p (off c) (clen c)) = p"
proof (atomize (full), cases "csize c = 0")
  case True
  then have "clen c = 0" "slen c = 0" by (simp_all add: csize_def)
  then show "length (window p (off c) (clen c)) = clen c \<and> length (window p (off c + clen c) (slen c)) = slen c \<and>
    splice p (off c) (window p (off c) (clen c)) = p" by simp
next
  case False
  then have "off c + (clen c + slen c) \<le> length p" using assms by (auto simp: inside_def csize_def)
  then show "length (window p (off c) (clen c)) = clen c \<and> length (window p (off c + clen c) (slen c)) = slen c \<and>
    splice p (off c) (window p (off c) (clen c)) = p" by (simp add: splice_own_window)
qed

section \<open>The specification\<close>

definition cache_spec :: "nat \<Rightarrow> (nat \<times> nat \<rightharpoonup> cell_data) \<Rightarrow> nat \<times> nat \<Rightarrow> u8 list \<Rightarrow> u8 list option \<Rightarrow>
    (nat \<times> nat \<rightharpoonup> cell_data) \<times> (int + unit)" where
  "cache_spec pool_cap m a v str = (case m a of
     None \<Rightarrow> (m, Inl I123_E_ARG)
   | Some d \<Rightarrow>
       if d_kind d \<noteq> I123_K_FORMULA \<or> (case str of None \<Rightarrow> False | Some s \<Rightarrow> length s > 0xFFFF) then (m, Inl I123_E_ARG)
       else (case str of
         None \<Rightarrow> (m(a \<mapsto> CellData (d_kind d) (d_fmt d) v (d_bytes d) False (d_sfmt d) []), Inr ())
       | Some s \<Rightarrow>
           if d_has d \<and> length s \<le> length (d_str d) \<or> stored_bytes m + length (d_bytes d) + length s \<le> pool_cap
           then (m(a \<mapsto> CellData (d_kind d) (d_fmt d) v (d_bytes d) True (if d_has d then d_sfmt d else d_fmt d) s), Inr ())
           else (m, Inl I123_E_FULL)))"

text \<open>A longer string: the code is copied in front of it into a new blob.\<close>

lemma cache_moves:
  assumes ok: "sheet_ok sh" and cells: "cells sh = ls @ d # rs" and s: "length s \<le> 0xFFFF"
    and fits: "pool_live sh + (clen d + length s) \<le> length (pool sh)"
    and code: "code = window (pool sh) (off d) (clen d)"
  shows "\<exists>s1 o' t. pool_alloc sh (clen d + length s) = Some (s1, Inr o') \<and>
    t = set_values (s1\<lparr>pool := splice (copy_bytes (pool s1) o' (off (cells s1 ! length ls)) (clen (cells s1 ! length ls)))
          (o' + clen (cells s1 ! length ls)) s, pool_live := sub32 (pool_live s1) (csize d)\<rparr>) (length ls)
        ((cells s1 ! length ls)\<lparr>str_fmt := (if \<not> has_str (cells s1 ! length ls) then fmt (cells s1 ! length ls) else str_fmt (cells s1 ! length ls)),
          off := o', slen := length s, has_str := True, cval := v\<rparr>) \<and>
    kept sh t \<and> sheet_map t = (sheet_map sh)((col d, row d) \<mapsto>
      CellData (kind d) (fmt d) v code True (if has_str d then str_fmt d else fmt d) s)"
proof -
  let ?n = "clen d + length s"
  let ?c = "col d" and ?r = "row d"
  have dfit: "cell_fits d" using ok cells by (simp add: sheet_ok_def)
  then have addr: "?c < I123_MAX_COLS" "?r < I123_MAX_ROWS" "clen d < 0x10000" by (simp_all add: cell_fits_def)
  have n: "?n < 0x20000" using addr s by simp
  have small: "length (pool sh) < 0x80000000" "pool_live sh \<le> length (pool sh)" "pool_live sh = live_bytes (ls @ d # rs)"
    "length (ls @ rs) < cap sh" and d_in: "inside (length (pool sh)) d"
    using ok cells by (auto simp: sheet_ok_def pool_ok_def intro: inside_mono)
  have c0: "cells sh = ls @ [d] @ rs" using cells by simp
  obtain p ls' ds' rs' u o' where a:
    "pool_alloc sh ?n = Some (sh\<lparr>pool := p, cells := ls' @ ds' @ rs', pool_used := u + ?n, pool_live := pool_live sh + ?n\<rparr>, Inr o')"
    "sheet_ok (sh\<lparr>pool := p, cells := ls' @ ds' @ rs', pool_used := u\<rparr>)" "length p = length (pool sh)" "u + ?n \<le> length p"
    "?n \<noteq> 0 \<longrightarrow> o' = u" "map (placeless p) ls' = map (placeless (pool sh)) ls" "map (placeless p) ds' = map (placeless (pool sh)) [d]"
    "map (placeless p) rs' = map (placeless (pool sh)) rs"
    by (rule alloc_among [OF ok n disjI2 [OF fits] c0]) (rule that; assumption)
  obtain d' where ds': "ds' = [d']" and d': "placeless p d' = placeless (pool sh) d"
    using a(7) by (auto simp: map_eq_Cons_conv)
  define s0 where "s0 = sh\<lparr>pool := p, cells := ls' @ d' # rs', pool_used := u\<rparr>"
  have s0_ok: "sheet_ok s0" using a(2) by (simp add: s0_def ds')
  have entries: "map (entry p) ls' = map (entry (pool sh)) ls" "map (entry p) rs' = map (entry (pool sh)) rs"
    using entries_placeless [OF a(6)] entries_placeless [OF a(8)] by simp_all
  have len: "length ls' = length ls" "length rs' = length rs"
    using map_eq_imp_length_eq [OF a(6)] map_eq_imp_length_eq [OF a(8)] by simp_all
  have d'_in: "inside u d'" using s0_ok by (simp add: s0_def sheet_ok_def pool_ok_def)
  then have d'_in': "inside (length p) d'" using a(4) by (auto intro: inside_mono)
  have same: "col d' = ?c" "row d' = ?r" "kind d' = kind d" "fmt d' = fmt d" "has_str d' = has_str d" "str_fmt d' = str_fmt d"
    "window p (off d') (clen d') = code"
    using entry_placeless [OF d'] by (simp_all add: entry_def data_of_def code)
  have clen: "clen d' = clen d" "length code = clen d"
    using code_window(1) [OF d'_in'] code_window(1) [OF d_in] same(7) code by simp_all
  have others: "others_ok u ls' (key_of ?c ?r) rs'"
    using others_found [OF s0_ok _ same(1,2), of ls' rs'] by (simp add: s0_def)
  have sizes: "csize d' = csize d" using placeless_facts(2) [OF d'] .
  have live: "live_bytes (ls' @ rs') + csize d = pool_live sh" "live_bytes (ls' @ rs') \<le> u"
    using s0_ok sizes by (auto simp: sheet_ok_def pool_ok_def s0_def)
  define e where "e = new_cell ?c ?r (kind d) (fmt d) (Some v) code True (if has_str d then str_fmt d else fmt d) s o'"
  define t where "t = s0\<lparr>pool := splice (splice (pool s0) o' code) (o' + length code) s, cells := ls' @ e # rs',
                pool_used := u + ?n, pool_live := live_bytes (ls' @ rs') + ?n\<rparr>"
  have e': "d'\<lparr>str_fmt := (if \<not> has_str d' then fmt d' else str_fmt d'), off := o', slen := length s, has_str := True, cval := v\<rparr> = e"
    using same clen by (cases d') (simp add: e_def)
  have copied: "copy_bytes p o' (off d') (clen d') = splice p o' code"
  proof (cases "clen d' = 0")
    case True
    then show ?thesis using clen by simp
  next
    case False
    then have "off d' + csize d' \<le> u" "csize d' \<ge> clen d'" using d'_in by (auto simp: inside_def csize_def)
    moreover have "o' = u" using a(5) False clen by simp
    ultimately show ?thesis using a(4) clen unfolding same(7) [symmetric] by (intro copy_bytes_splice) auto
  qed
  have upd: "(ls' @ d' # rs')[length ls := x] = ls' @ x # rs'" "(ls' @ d' # rs') ! length ls = d'" for x by (simp_all flip: len)
  have lv: "sub32 (pool_live sh + ?n) (csize d) = live_bytes (ls' @ rs') + ?n" using live(1) small n by simp
  define s1 where "s1 = sh\<lparr>pool := p, cells := ls' @ d' # rs', pool_used := u + ?n, pool_live := pool_live sh + ?n\<rparr>"
  have s1: "cells s1 ! length ls = d'" "pool s1 = p" "pool_live s1 = pool_live sh + ?n" by (simp_all add: s1_def upd)
  have t: "t = set_values (s1\<lparr>pool := splice (copy_bytes (pool s1) o' (off d') (clen d')) (o' + clen d') s,
        pool_live := sub32 (pool_live s1) (csize d)\<rparr>)
      (length ls) (d'\<lparr>str_fmt := (if \<not> has_str d' then fmt d' else str_fmt d'), off := o', slen := length s, has_str := True, cval := v\<rparr>)"
    unfolding s1(2,3) e' copied lv by (simp add: set_values_def t_def s0_def s1_def upd clen)
  have o': "length code + length s \<noteq> 0 \<longrightarrow> o' = u" using a(5) clen by simp
  have t': "t = s0\<lparr>pool := splice (splice (pool s0) o' code) (o' + length code) s, cells := ls' @ e # rs',
                pool_used := u + (length code + length s), pool_live := live_bytes (ls' @ rs') + (length code + length s)\<rparr>"
    by (simp add: t_def clen)
  have "length (pool s0) < 0x80000000" "u + (length code + length s) \<le> length (pool s0)" "length (ls' @ rs') < cap s0"
    "length code < 0x10000" "length s < 0x10000"
    using small a(3,4) len clen addr s by (simp_all add: s0_def)
  from put_fresh [OF others addr(1,2) this(4,5) e_def o' this(1,2) live(2) this(3) t']
  have t_ok: "sheet_ok t" "length (pool t) = length (pool s0)"
    "sheet_map t = (map_of (map (entry (pool s0)) (ls' @ rs')))((?c, ?r) \<mapsto>
       put_data (kind d) (fmt d) (Some v) code True (if has_str d then str_fmt d else fmt d) s)"
    by simp_all
  have "map_of (map (entry (pool s0)) (ls' @ rs')) = (sheet_map sh)((?c, ?r) := None)"
    using sheet_map_found(3) [OF ok cells] by (simp add: s0_def entries)
  then have map: "sheet_map t = (sheet_map sh)((?c, ?r) \<mapsto> CellData (kind d) (fmt d) v code True (if has_str d then str_fmt d else fmt d) s)"
    using t_ok(3) by (simp del: map_append add: put_data_def)
  have keep: "kept sh t" using t_ok(1,2) by (simp add: kept_def t_def s0_def a(3))
  show ?thesis
  proof (intro exI conjI)
    show "pool_alloc sh ?n = Some (s1, Inr o')" using a(1) by (simp add: s1_def ds')
  qed ((unfold s1(1))?, rule t keep map)+
qed

text \<open>The two forms of the call: a numeric result, and one with a string.\<close>

definition cache_call :: "i123_sheet \<Rightarrow> nat \<Rightarrow> u8 list \<Rightarrow> u8 list option \<Rightarrow> (i123_sheet \<times> (int + unit)) option" where
  "cache_call sh idx v str = i123_cell_set_cache sh idx v (str \<noteq> None) (case str of None \<Rightarrow> [] | Some s \<Rightarrow> s)"

lemma as_cache_call:
  "length s \<le> 0xFFFF \<Longrightarrow> i123_cell_set_cache sh idx v False s = cache_call sh idx v None"
  "i123_cell_set_cache sh idx v True s = cache_call sh idx v (Some s)"
  by (simp_all add: cache_call_def i123_cell_set_cache_def Let_def)

lemma cache_call_code: "cache_call sh idx v str =
     (if idx \<ge> length (cells sh) then Some (sh, Inl I123_E_ARG)
      else let c = cells sh ! idx in
        if kind c \<noteq> I123_K_FORMULA \<or> (case str of None \<Rightarrow> False | Some s \<Rightarrow> length s > 0xFFFF) then Some (sh, Inl I123_E_ARG)
        else (case str of
          None \<Rightarrow> Some (set_values (sh\<lparr>pool_live := sub32 (pool_live sh) (slen c)\<rparr>) idx (c\<lparr>slen := 0, has_str := False, cval := v\<rparr>), Inr ())
        | Some s \<Rightarrow>
            if has_str c \<and> length s \<le> slen c then
              Some (set_values (sh\<lparr>pool := splice (pool sh) (off c + clen c) s, pool_live := sub32 (pool_live sh) (slen c - length s)\<rparr>)
                      idx (c\<lparr>slen := length s, cval := v\<rparr>), Inr ())
            else (case pool_alloc sh (clen c + length s) of
              None \<Rightarrow> None
            | Some (s1, Inl rc) \<Rightarrow> Some (s1, Inl rc)
            | Some (s1, Inr o') \<Rightarrow>
                let d = cells s1 ! idx;
                    p1 = copy_bytes (pool s1) o' (off d) (clen d);
                    p2 = splice p1 (o' + clen d) s
                in Some (set_values (s1\<lparr>pool := p2, pool_live := sub32 (pool_live s1) (csize c)\<rparr>) idx
                     (d\<lparr>str_fmt := (if \<not> has_str d then fmt d else str_fmt d), off := o', slen := length s, has_str := True, cval := v\<rparr>),
                     Inr ()))))"
  by (cases str) (simp_all add: cache_call_def i123_cell_set_cache_def Let_def)

text \<open>Storing a result behaves as specified, at any index.\<close>

lemma set_cache_refines:
  assumes ok: "sheet_ok sh" and idx: "idx < length (cells sh)"
  shows "refines sh (cache_call sh idx v str)
    (cache_spec (length (pool sh)) (sheet_map sh) (col (cells sh ! idx), row (cells sh ! idx)) v str)"
proof -
  obtain ls d rs where cells: "cells sh = ls @ d # rs" "idx = length ls" using idx by (metis id_take_nth_drop length_take min.absorb4)
  let ?a = "(col d, row d)"
  have at: "cells sh ! idx = d" by (simp add: cells)
  have m: "sheet_map sh ?a = Some (data_of (pool sh) d)" by (rule sheet_map_found(2) [OF ok cells(1) refl refl])
  have d_in: "inside (length (pool sh)) d" and dfit: "cell_fits d"
    and small: "length (pool sh) < 0x80000000" "pool_live sh \<le> length (pool sh)" "csize d \<le> pool_live sh"
    using ok cells by (auto simp: sheet_ok_def pool_ok_def intro: inside_mono)
  define code where "code = window (pool sh) (off d) (clen d)"
  have code: "length code = clen d" "splice (pool sh) (off d) code = pool sh" and slen: "length (window (pool sh) (off d + clen d) (slen d)) = slen d"
    using code_window [OF d_in] by (simp_all add: code_def)
  have addr: "col d < I123_MAX_COLS" "row d < I123_MAX_ROWS" "length code < 0x10000" using dfit code by (simp_all add: cell_fits_def)
  have stored: "stored_bytes (sheet_map sh) = pool_live sh" by (rule sheet_map_size(1) [OF ok])
  show ?thesis
  proof (cases "kind d \<noteq> I123_K_FORMULA \<or> (case str of None \<Rightarrow> False | Some s \<Rightarrow> length s > 0xFFFF)")
    case True
    then show ?thesis using m idx kept_refl [OF ok] unfolding cache_spec_def cache_call_code
      by (auto simp: at Let_def data_of_def intro!: refinesI)
  next
    case False
    then have spec: "cache_spec (length (pool sh)) (sheet_map sh) ?a v str = (case str of
         None \<Rightarrow> ((sheet_map sh)(?a \<mapsto> CellData (kind d) (fmt d) v code False (str_fmt d) []), Inr ())
       | Some s \<Rightarrow>
           if has_str d \<and> length s \<le> slen d \<or> pool_live sh + clen d + length s \<le> length (pool sh)
           then ((sheet_map sh)(?a \<mapsto> CellData (kind d) (fmt d) v code True (if has_str d then str_fmt d else fmt d) s), Inr ())
           else (sheet_map sh, Inl I123_E_FULL))"
      using m slen code(1) unfolding cache_spec_def
      by (cases str) (simp_all add: data_of_def code_def [symmetric] stored)
    show ?thesis
    proof (cases str)
      case None
      define e where "e = d\<lparr>slen := 0, has_str := False, cval := v\<rparr>"
      define t where "t = sh\<lparr>pool := splice (splice (pool sh) (off d) code) (off d + length code) [], cells := ls @ e # rs,
        pool_live := pool_live sh - (csize d - (length code + length ([] :: u8 list)))\<rparr>"
      have e: "col e = col d" "row e = row d" "clen e = length code" "slen e = length ([] :: u8 list)" "off e = off d"
        by (simp_all add: e_def code)
      have fits: "length code + length ([] :: u8 list) \<le> csize d" by (simp add: code csize_def)
      note rep = replace_in_place [OF ok addr(1,2,3) _ cells(1) refl refl fits e t_def]
      have "csize d - clen d = slen d" by (simp add: csize_def)
      then have "cache_call sh idx v str = Some (t, Inr ())"
        using False idx small by (simp add: cache_call_code at Let_def None set_values_def t_def code e_def cells)
      then show ?thesis unfolding at spec using rep by (auto simp: None e_def intro!: refinesI)
    next
      case (Some s)
      have s: "length s \<le> 0xFFFF" using False Some by simp
      show ?thesis
      proof (cases "has_str d \<and> length s \<le> slen d")
        case True
        define e where "e = d\<lparr>slen := length s, cval := v\<rparr>"
        define t where "t = sh\<lparr>pool := splice (splice (pool sh) (off d) code) (off d + length code) s, cells := ls @ e # rs,
          pool_live := pool_live sh - (csize d - (length code + length s))\<rparr>"
        have e: "col e = col d" "row e = row d" "clen e = length code" "slen e = length s" "off e = off d"
          by (simp_all add: e_def code)
        have fits: "length code + length s \<le> csize d" using True by (simp add: code csize_def)
        have "length s < 0x10000" using s by simp
        note rep = replace_in_place [OF ok addr(1,2,3) this cells(1) refl refl fits e t_def]
        have "csize d - (clen d + length s) = slen d - length s" by (simp add: csize_def)
        then have "cache_call sh idx v str = Some (t, Inr ())"
          using False idx small True Some
          by (simp add: cache_call_code at Let_def set_values_def t_def code e_def cells csize_def)
        then show ?thesis unfolding at spec using rep True by (auto simp: Some e_def intro!: refinesI)
      next
        case more: False
        have run: "cache_call sh idx v str = (case pool_alloc sh (clen d + length s) of
              None \<Rightarrow> None
            | Some (s1, Inl rc) \<Rightarrow> Some (s1, Inl rc)
            | Some (s1, Inr o') \<Rightarrow> Some (set_values (s1\<lparr>pool := splice (copy_bytes (pool s1) o' (off (cells s1 ! length ls)) (clen (cells s1 ! length ls)))
          (o' + clen (cells s1 ! length ls)) s, pool_live := sub32 (pool_live s1) (csize d)\<rparr>) (length ls)
        ((cells s1 ! length ls)\<lparr>str_fmt := (if \<not> has_str (cells s1 ! length ls) then fmt (cells s1 ! length ls) else str_fmt (cells s1 ! length ls)),
          off := o', slen := length s, has_str := True, cval := v\<rparr>), Inr ()))"
        proof -
          have 1: "\<not> idx \<ge> length (cells sh)" using idx by simp
          have 2: "\<not> (kind d \<noteq> I123_K_FORMULA \<or> length s > 0xFFFF)" using False Some by simp
          show ?thesis
            unfolding cache_call_code Let_def at Some option.case if_not_P [OF 1] if_not_P [OF 2] if_not_P [OF more]
            by (simp only: cells(2))
        qed
        show ?thesis
        proof (cases "pool_live sh + (clen d + length s) \<le> length (pool sh)")
          case True
          from cache_moves [OF ok cells(1) s True code_def, of v] obtain s1 o' t where
            "pool_alloc sh (clen d + length s) = Some (s1, Inr o')" "cache_call sh idx v str = Some (t, Inr ())"
            "kept sh t" "sheet_map t = (sheet_map sh)(?a \<mapsto> CellData (kind d) (fmt d) v code True (if has_str d then str_fmt d else fmt d) s)"
            unfolding run by auto
          then show ?thesis unfolding at spec using True by (auto simp: Some intro!: refinesI)
        next
          case no: False
          have n: "clen d + length s < 0x20000" using dfit s by (simp add: cell_fits_def)
          have "pool_ok sh" using ok by (simp add: sheet_ok_def)
          from pool_alloc_ok [OF this n] no small obtain p cs u where p: "length p = length (pool sh)"
            "map (placeless p) cs = map (placeless (pool sh)) (cells sh)" "pool_ok (sh\<lparr>pool := p, cells := cs, pool_used := u\<rparr>)"
            "pool_alloc sh (clen d + length s) = Some (sh\<lparr>pool := p, cells := cs, pool_used := u\<rparr>, Inl I123_E_FULL)"
            by (auto split: if_splits)
          note mv = moved_ok [OF ok p(2,3)]
          have "cache_call sh idx v str = Some (sh\<lparr>pool := p, cells := cs, pool_used := u\<rparr>, Inl I123_E_FULL)"
            unfolding run p(4) by simp
          then show ?thesis unfolding at spec using mv(1,2) p(1) more no by (auto simp: Some kept_def sheet_map_def intro!: refinesI)
        qed
      qed
    qed
  qed
qed

end
