(* ===== verification/RecalcWalk.thy ===== *)
theory RecalcWalk imports RecalcRefs SheetCache begin

text \<open>
  The depth-first walk of the natural order over the reference lists: what a round does to the frames, and what no
  evaluation changes, the skeleton of the sheet.
\<close>

section \<open>The skeleton\<close>

text \<open>Addresses, kinds and codes, which decide the walk.\<close>

definition skeleton :: "i123_sheet \<Rightarrow> (nat \<times> nat \<times> cell_kind \<times> u8 list) list" where
  "skeleton sh = map (\<lambda>i. (col (cells sh ! i), row (cells sh ! i), kind (cells sh ! i), cell_code sh i)) [0..<length (cells sh)]"

lemma same_skeleton:
  assumes "skeleton sh = skeleton t"
  shows "length (cells sh) = length (cells t)"
    "i < length (cells sh) \<Longrightarrow> col (cells sh ! i) = col (cells t ! i)" "i < length (cells sh) \<Longrightarrow> row (cells sh ! i) = row (cells t ! i)"
    "i < length (cells sh) \<Longrightarrow> kind (cells sh ! i) = kind (cells t ! i)" "i < length (cells sh) \<Longrightarrow> cell_code sh i = cell_code t i"
proof -
  show len: "length (cells sh) = length (cells t)" using arg_cong [OF assms, of length] by (simp add: skeleton_def)
  assume i: "i < length (cells sh)"
  have "skeleton sh ! i = skeleton t ! i" using assms by simp
  then show "col (cells sh ! i) = col (cells t ! i)" "row (cells sh ! i) = row (cells t ! i)"
    "kind (cells sh ! i) = kind (cells t ! i)" "cell_code sh i = cell_code t i"
    using i len by (simp_all add: skeleton_def)
qed

lemma lower_from_cong:
  assumes "\<forall>j < hi. ckey (cs ! j) = ckey (ds ! j)"
  shows "lower_from cs key lo hi = lower_from ds key lo hi"
  using assms
proof (induction cs key lo hi rule: lower_from.induct)
  case (1 cs key lo hi)
  show ?case
  proof (cases "lo < hi")
    case False
    then show ?thesis by (simp add: lower_from.simps [of _ _ lo hi])
  next
    case True
    define mid where "mid = lo + (hi - lo) div 2"
    have mid: "mid < hi" using True by (simp add: mid_def)
    then have "ckey (cs ! mid) = ckey (ds ! mid)" using 1(3) by blast
    then show ?thesis using 1(1,2) [OF True mid_def] 1(3) mid True
      by (subst (1 2) lower_from.simps) (simp add: mid_def [symmetric] Let_def)
  qed
qed

lemma skeleton_index_of: "skeleton sh = skeleton t \<Longrightarrow> index_of sh c r = index_of t c r"
proof -
  assume s: "skeleton sh = skeleton t"
  note same = same_skeleton [OF s]
  have keys: "ckey (cells sh ! j) = ckey (cells t ! j)" if "j < length (cells sh)" for j using same(2,3) [OF that] by simp
  have "lower_bound sh k = lower_bound t k" for k
    unfolding lower_bound_def same(1) [symmetric] by (rule lower_from_cong) (use keys in blast)
  then show ?thesis using keys same(1) by (simp add: index_of_def Let_def cong: conj_cong)
qed

lemma index_of_less: "index_of sh c r = Some k \<Longrightarrow> k < length (cells sh)"
  by (auto simp: index_of_def Let_def split: if_splits)

lemma skeleton_rect_cells: "skeleton sh = skeleton t \<Longrightarrow> rect_cells sh lc hc lr hr k = rect_cells t lc hc lr hr k"
  using same_skeleton [of sh t] by (auto simp: rect_cells_def in_rect_def intro!: filter_cong)

lemma skeleton_corners: "skeleton sh = skeleton t \<Longrightarrow> i < length (cells sh) \<Longrightarrow>
    range_corners (cell_code sh i) p (cells sh ! i) = range_corners (cell_code t i) p (cells t ! i)"
  using same_skeleton(2-5) [of sh t i] by (simp add: range_corners_def)

lemma skeleton_token_refs:
  assumes "skeleton sh = skeleton t" "i < length (cells sh)"
  shows "token_refs sh i p = token_refs t i p"
proof -
  note same = same_skeleton [OF assms(1)]
  have "(case index_of t c r of None \<Rightarrow> [] | Some k \<Rightarrow> if kind (cells sh ! k) = I123_K_FORMULA then [k] else []) =
      (case index_of t c r of None \<Rightarrow> [] | Some k \<Rightarrow> if kind (cells t ! k) = I123_K_FORMULA then [k] else [])" for c r
    using same(1,4) by (auto dest: index_of_less split: option.split)
  then show ?thesis
    using same(2-5) [OF assms(2)] skeleton_corners [OF assms] skeleton_rect_cells [OF assms(1)] skeleton_index_of [OF assms(1)]
    unfolding token_refs_def Let_def by (simp split: prod.split)
qed

lemma skeleton_refs_from:
  assumes "skeleton sh = skeleton t" "i < length (cells sh)"
  shows "refs_from sh i p = refs_from t i p"
proof (induction "length (cell_code sh i) - p" arbitrary: p rule: less_induct)
  case less
  note same = same_skeleton(5) [OF assms]
  show ?case
  proof (cases "p \<ge> length (cell_code sh i) \<or> unat (cell_code sh i ! p) = WKF_RETURN \<or> i123_token_size (cell_code sh i) p = 0")
    case True
    then show ?thesis using same by (subst (1 2) refs_from.simps) (auto simp: Let_def)
  next
    case False
    then have "refs_from sh i (p + i123_token_size (cell_code sh i) p) = refs_from t i (p + i123_token_size (cell_code sh i) p)"
      using less by auto
    then show ?thesis using same skeleton_token_refs [OF assms] by (subst (1 2) refs_from.simps) (simp add: Let_def)
  qed
qed

lemma skeleton_rest_refs:
  assumes "skeleton sh = skeleton t" "f_cell f < length (cells sh)"
  shows "rest_refs sh f = rest_refs t f"
  unfolding rest_refs_def skeleton_corners [OF assms] skeleton_rect_cells [OF assms(1)] skeleton_refs_from [OF assms] ..

lemma skeleton_frame_ok:
  assumes "skeleton sh = skeleton t"
  shows "frame_ok sh f \<longleftrightarrow> frame_ok t f"
proof (cases "f_cell f < length (cells sh)")
  case True
  show ?thesis
    unfolding frame_ok_def same_skeleton(1) [OF assms, symmetric] same_skeleton(5) [OF assms True] range_corners_def
      same_skeleton(2,3) [OF assms True] ..
next
  case False
  then show ?thesis using same_skeleton(1) [OF assms] by (simp add: frame_ok_def)
qed

lemma skeleton_note_circ: "skeleton sh = skeleton t \<Longrightarrow> i < length (cells sh) \<Longrightarrow> note_circ sh ci i = note_circ t ci i"
  using same_skeleton(2-5) [of sh t i] by (simp add: note_circ_def)

section \<open>References are formula cells\<close>

definition formulas :: "i123_sheet \<Rightarrow> nat set" where
  "formulas sh = {i. i < length (cells sh) \<and> kind (cells sh ! i) = I123_K_FORMULA}"

lemma rect_cells_formulas: "set (rect_cells sh lc hc lr hr k) \<subseteq> formulas sh"
  by (auto simp: rect_cells_def in_rect_def formulas_def)

lemma token_refs_formulas: "set (token_refs sh i p) \<subseteq> formulas sh"
  using rect_cells_formulas
  by (auto simp: token_refs_def Let_def formulas_def index_of_less split: prod.splits option.splits if_splits) fastforce+

lemma refs_from_formulas: "set (refs_from sh i p) \<subseteq> formulas sh"
proof (induction sh i p rule: refs_from.induct)
  case (1 sh i p)
  show ?case
  proof (cases "p \<ge> length (cell_code sh i) \<or> unat (cell_code sh i ! p) = WKF_RETURN \<or> i123_token_size (cell_code sh i) p = 0")
    case True
    then show ?thesis by (subst refs_from.simps) (auto simp: Let_def)
  next
    case False
    from 1 [OF refl refl False] token_refs_formulas [of sh i p] show ?thesis
      by (subst refs_from.simps) (simp add: Let_def)
  qed
qed

lemma skeleton_formulas: "skeleton sh = skeleton t \<Longrightarrow> formulas sh = formulas t"
  using same_skeleton [of sh t] by (auto simp: formulas_def)

section \<open>A frame over its remaining references\<close>

datatype walk_out = ADone | APush nat "nat list" | AAbandon

fun ref_scan :: "i123_sheet \<Rightarrow> nat \<Rightarrow> nat list \<Rightarrow> bool \<Rightarrow> nat list \<Rightarrow> circ_t \<Rightarrow> circ_t \<times> walk_out" where
  "ref_scan sh i st within [] ci = (ci, ADone)"
| "ref_scan sh i st within (k # ks) ci =
     (if k = i then ref_scan sh i st within ks (note_circ sh ci i)
      else if st ! k = ST_DONE then ref_scan sh i st within ks ci
      else if st ! k = ST_STACK then
        (if within then (note_circ sh ci k, AAbandon) else ref_scan sh i st within ks (note_circ sh ci k))
      else (ci, APush k ks))"

lemma note_circ_idem [simp]: "note_circ sh (note_circ sh ci i) j = note_circ sh ci i"
  by (simp add: note_circ_def)

lemma note_circ_circ [simp]: "ci_circ (note_circ sh ci i)"
  by (simp add: note_circ_def)

lemma ref_scan_past_self:
  "ref_scan sh i st within xs ci = ref_scan sh i st within (past_self i xs) (if meets_self i xs then note_circ sh ci i else ci)"
proof (induction xs arbitrary: ci)
  case (Cons k ks)
  then show ?case by (cases "k = i") simp_all
qed simp

lemma scan_frame_ok:
  assumes ok: "sheet_ok sh"
  shows "frame_ok sh f \<Longrightarrow> ref_scan sh (f_cell f) st within (rest_refs sh f) ci = (ci1, out) \<Longrightarrow>
    \<exists>f1 out1. scan_frame sh st within f ci = Some (f1, ci1, out1) \<and> frame_ok sh f1 \<and> f_cell f1 = f_cell f \<and>
      (case out of ADone \<Rightarrow> out1 = ScanDone | AAbandon \<Rightarrow> out1 = ScanAbandon
       | APush k ks \<Rightarrow> out1 = ScanPush k \<and> rest_refs sh f1 = ks)"
proof (induction "length (rest_refs sh f)" arbitrary: f ci rule: less_induct)
  case less
  let ?i = "f_cell f" and ?xs = "rest_refs sh f"
  obtain f1 s p where n: "next_precedent sh f False = Some (f1, s, p)" "precedent_out sh f False f1 (s, p)"
    using next_precedent_ok [OF ok less.prems(1)] by blast
  define ci0 where "ci0 = (if s then note_circ sh ci ?i else ci)"
  have f1: "frame_ok sh f1" "f_cell f1 = ?i" "s = meets_self ?i ?xs" using n(2) by (auto simp: precedent_out_def)
  have scan: "ref_scan sh ?i st within (past_self ?i ?xs) ci0 = (ci1, out)"
    using less.prems(2) unfolding ci0_def f1(3) by (subst ref_scan_past_self [symmetric])
  show ?case
  proof (cases "past_self ?i ?xs")
    case Nil
    then have "p = None" using n(2) by (simp add: precedent_out_def)
    then have "scan_frame sh st within f ci = Some (f1, ci0, ScanDone)"
      using n(1) f1(2) by (subst scan_frame.simps) (simp add: ci0_def)
    then show ?thesis using scan Nil f1 by auto
  next
    case (Cons k ks)
    then have p: "p = Some k" "rest_refs sh f1 = ks" using n(2) by (simp_all add: precedent_out_def)
    have ki: "k \<noteq> ?i" using Cons by (metis (full_types) dropWhile_eq_Cons_conv past_self_def)
    have shorter: "length ks < length ?xs"
      using Cons length_dropWhile_le [of "\<lambda>j. j = ?i" ?xs] by (simp add: past_self_def)
    have step: "scan_frame sh st within f ci =
      (if st ! k = ST_DONE then scan_frame sh st within f1 ci0
       else if st ! k = ST_STACK then (if within then Some (f1, note_circ sh ci0 k, ScanAbandon) else scan_frame sh st within f1 (note_circ sh ci0 k))
       else Some (f1, ci0, ScanPush k))"
      using n(1) f1(2) p(1) by (subst scan_frame.simps) (simp add: ci0_def Let_def)
    have IH: "ref_scan sh ?i st within ks c = (ci1, out) \<Longrightarrow>
      \<exists>g out1. scan_frame sh st within f1 c = Some (g, ci1, out1) \<and> frame_ok sh g \<and> f_cell g = ?i \<and>
      (case out of ADone \<Rightarrow> out1 = ScanDone | AAbandon \<Rightarrow> out1 = ScanAbandon
       | APush k ks \<Rightarrow> out1 = ScanPush k \<and> rest_refs sh g = ks)" for c
      using less.hyps [of f1 c] shorter p(2) f1 by simp
    have scan1: "(if st ! k = ST_DONE then ref_scan sh ?i st within ks ci0
       else if st ! k = ST_STACK then (if within then (note_circ sh ci0 k, AAbandon) else ref_scan sh ?i st within ks (note_circ sh ci0 k))
       else (ci0, APush k ks)) = (ci1, out)"
      using scan ki unfolding Cons by simp
    consider "st ! k = ST_DONE" | "st ! k = ST_STACK" within | "st ! k = ST_STACK" "\<not> within" | "st ! k \<noteq> ST_DONE" "st ! k \<noteq> ST_STACK"
      by blast
    then show ?thesis
    proof cases
      case 1
      then show ?thesis using IH [of ci0] scan1 unfolding step by simp
    next
      case 2
      then show ?thesis using scan1 f1 unfolding step by auto
    next
      case 3
      then show ?thesis using IH [of "note_circ sh ci0 k"] scan1 unfolding step by simp
    next
      case 4
      then show ?thesis using scan1 f1 p(2) unfolding step by auto
    qed
  qed
qed

end
