(* ===== verification/RecalcKeep.thy ===== *)
theory RecalcKeep imports RecalcWalk begin

text \<open>
  What a stored result keeps: the invariant of the store and the skeleton of the sheet.
\<close>

lemma set_keys: "sheet_ok sh \<Longrightarrow> set (map ckey (cells sh)) = (\<lambda>(c, r). key_of c r) ` dom (sheet_map sh)"
  by (force simp: sheet_map_def dom_map_of_conv_image_fst entry_def)

lemma map_at_index:
  assumes "sheet_ok sh" "i < length (cells sh)"
  shows "sheet_map sh (col (cells sh ! i), row (cells sh ! i)) = Some (data_of (pool sh) (cells sh ! i))"
  by (rule sheet_map_found(2) [OF assms(1) id_take_nth_drop [OF assms(2)] refl refl])

text \<open>The finite map decides the skeleton.\<close>

lemma skeleton_by_map:
  assumes ok: "sheet_ok sh" "sheet_ok t" and dom: "dom (sheet_map sh) = dom (sheet_map t)"
    and data: "\<And>a d e. sheet_map sh a = Some d \<Longrightarrow> sheet_map t a = Some e \<Longrightarrow> d_kind d = d_kind e \<and> d_bytes d = d_bytes e"
  shows "skeleton sh = skeleton t"
proof -
  have "set (map ckey (cells sh)) = set (map ckey (cells t))" using set_keys ok dom by simp
  moreover have "sorted_wrt (<) (map ckey (cells sh))" "sorted_wrt (<) (map ckey (cells t))"
    using ok by (simp_all add: sheet_ok_def sorted_wrt_key_less [symmetric])
  ultimately have keys: "map ckey (cells sh) = map ckey (cells t)" by (intro strict_sorted_equal)
  then have len: "length (cells sh) = length (cells t)" using map_eq_imp_length_eq by blast
  have "(col (cells sh ! i), row (cells sh ! i), kind (cells sh ! i), cell_code sh i) =
      (col (cells t ! i), row (cells t ! i), kind (cells t ! i), cell_code t i)" if i: "i < length (cells sh)" for i
  proof -
    have "map ckey (cells sh) ! i = map ckey (cells t) ! i" using keys by simp
    then have "ckey (cells sh ! i) = ckey (cells t ! i)" using i len by simp
    moreover have "cell_fits (cells sh ! i)" "cell_fits (cells t ! i)" using ok i len by (auto simp: sheet_ok_def)
    ultimately have at: "col (cells sh ! i) = col (cells t ! i)" "row (cells sh ! i) = row (cells t ! i)"
      by (simp_all add: cell_fits_def key_of_inj)
    have "i < length (cells t)" using i len by simp
    from data [OF map_at_index [OF ok(1) i]] map_at_index [OF ok(2) this] at show ?thesis
      by (simp add: data_of_def cell_code_def)
  qed
  then show ?thesis unfolding skeleton_def len [symmetric] by (simp cong: map_cong)
qed

lemma cache_spec_keeps:
  assumes m: "m a = Some d" and out: "cache_spec bytes m a v str = (m', res)"
  shows "m' = m \<or> (\<exists>fm hs sf s. m' = m(a \<mapsto> CellData (d_kind d) fm v (d_bytes d) hs sf s))"
proof (cases "d_kind d \<noteq> I123_K_FORMULA \<or> (case str of None \<Rightarrow> False | Some s \<Rightarrow> length s > 0xFFFF)")
  case True
  then show ?thesis using out by (simp add: cache_spec_def m)
next
  case no: False
  show ?thesis
  proof (cases str)
    case None
    then have "m' = m(a \<mapsto> CellData (d_kind d) (d_fmt d) v (d_bytes d) False (d_sfmt d) [])"
      using out no by (simp add: cache_spec_def m)
    then show ?thesis by blast
  next
    case (Some s)
    then have "m' = m \<or> m' = m(a \<mapsto> CellData (d_kind d) (d_fmt d) v (d_bytes d) True (if d_has d then d_sfmt d else d_fmt d) s)"
      using out no by (simp add: cache_spec_def m split: if_splits)
    then show ?thesis by blast
  qed
qed

lemma set_cache_keeps:
  assumes ok: "sheet_ok sh" and idx: "idx < length (cells sh)"
  shows "\<exists>t res. cache_call sh idx v str = Some (t, res) \<and> sheet_ok t \<and> skeleton t = skeleton sh"
proof -
  let ?a = "(col (cells sh ! idx), row (cells sh ! idx))"
  obtain t res where t: "cache_call sh idx v str = Some (t, res)" "kept sh t"
    "cache_spec (length (pool sh)) (sheet_map sh) ?a v str = (sheet_map t, res)"
    using set_cache_refines [OF ok idx, of v str] by (auto simp: refines_def)
  have m: "sheet_map sh ?a = Some (data_of (pool sh) (cells sh ! idx))" by (rule map_at_index [OF ok idx])
  have "sheet_map t = sheet_map sh \<or> (\<exists>x. sheet_map t = (sheet_map sh)(?a \<mapsto> x) \<and>
      d_kind x = kind (cells sh ! idx) \<and> d_bytes x = d_bytes (data_of (pool sh) (cells sh ! idx)))"
    using cache_spec_keeps [OF m t(3)] by (auto simp: data_of_def)
  moreover have ok_t: "sheet_ok t" using t(2) by (simp add: kept_def)
  ultimately have "skeleton t = skeleton sh"
  proof (elim disjE exE conjE)
    assume "sheet_map t = sheet_map sh"
    then show ?thesis by (intro skeleton_by_map ok ok_t) auto
  next
    fix x
    assume x: "sheet_map t = (sheet_map sh)(?a \<mapsto> x)" "d_kind x = kind (cells sh ! idx)"
      "d_bytes x = d_bytes (data_of (pool sh) (cells sh ! idx))"
    show ?thesis
      by (rule skeleton_by_map [OF ok_t ok]) (use x m in \<open>auto simp: data_of_def split: if_splits\<close>)
  qed
  then show ?thesis using t(1) ok_t by blast
qed

lemma store_result_keeps:
  assumes "sheet_ok sh" "idx < length (cells sh)"
  shows "\<exists>t res. i123_store_result sh idx v = Some (t, res) \<and> sheet_ok t \<and> skeleton t = skeleton sh"
  using set_cache_keeps [OF assms] assms(1) by (auto simp: i123_store_result_def as_cache_call Let_def split: i123_val.split)

lemma eval_store_keeps:
  assumes "sheet_ok sh" "idx < length (cells sh)"
  obtains cx1 s1 res where "eval_store ev cx sh idx = Some (cx1, s1, res)" "sheet_ok s1" "skeleton s1 = skeleton sh"
proof -
  obtain cx1 out where e: "ev cx sh (col (cells sh ! idx)) (row (cells sh ! idx)) (cell_code sh idx) = (cx1, out)"
    by (cases "ev cx sh (col (cells sh ! idx)) (row (cells sh ! idx)) (cell_code sh idx)")
  have "\<exists>cx1 s1 res. eval_store ev cx sh idx = Some (cx1, s1, res) \<and> sheet_ok s1 \<and> skeleton s1 = skeleton sh"
  proof (cases out)
    case (Inl rc)
    then show ?thesis using e assms(1) store_result_keeps [OF assms, of V_ERR] by (auto simp: eval_store_def)
  next
    case (Inr v)
    then show ?thesis using e store_result_keeps [OF assms, of v] by (auto simp: eval_store_def)
  qed
  then show thesis using that by blast
qed

text \<open>Evaluating a list of cells in order, stopping at the first refusal.\<close>

abbreviation eval_all :: "'c evaluator \<Rightarrow> nat list \<Rightarrow> 'c \<Rightarrow> i123_sheet \<Rightarrow> ('c \<times> i123_sheet \<times> (int + unit)) option" where
  "eval_all ev \<equiv> sweep_cells ev (\<lambda>_. False)"

lemma eval_all_append: "eval_all ev (xs @ ys) cx sh = (case eval_all ev xs cx sh of
     None \<Rightarrow> None | Some (cx1, s1, Inl rc) \<Rightarrow> Some (cx1, s1, Inl rc) | Some (cx1, s1, Inr _) \<Rightarrow> eval_all ev ys cx1 s1)"
  by (induction xs arbitrary: cx sh) (auto split: option.split sum.split)

lemma eval_all_keeps:
  assumes "sheet_ok sh" "set xs \<subseteq> {..<length (cells sh)}"
  obtains cx1 s1 res where "eval_all ev xs cx sh = Some (cx1, s1, res)" "sheet_ok s1" "skeleton s1 = skeleton sh"
proof -
  have "\<exists>cx1 s1 res. eval_all ev xs cx sh = Some (cx1, s1, res) \<and> sheet_ok s1 \<and> skeleton s1 = skeleton sh"
    using assms
  proof (induction xs arbitrary: cx sh)
    case (Cons x xs)
    obtain cx1 s1 res where e: "eval_store ev cx sh x = Some (cx1, s1, res)" "sheet_ok s1" "skeleton s1 = skeleton sh"
      by (rule eval_store_keeps [of sh x ev cx]) (use Cons.prems in auto)
    have "set xs \<subseteq> {..<length (cells s1)}" using Cons.prems same_skeleton(1) [OF e(3)] by auto
    then show ?case using Cons.IH [OF e(2)] e by (cases res) auto
  qed simp
  then show thesis using that by blast
qed

end
