(* ===== verification/RecalcOrder.thy ===== *)
theory RecalcOrder imports RecalcKeep begin

text \<open>
  The natural order: which cells a pass evaluates, in which order, and when it reports a circular reference. The order
  depends on the skeleton of the sheet alone, not on the evaluator.
\<close>

section \<open>Dependencies\<close>

abbreviation refs :: "i123_sheet \<Rightarrow> nat \<Rightarrow> nat list" where
  "refs g i \<equiv> refs_from g i 0"

definition depends :: "i123_sheet \<Rightarrow> (nat \<times> nat) set" where
  "depends g = {(i, k). i \<in> formulas g \<and> k \<in> set (refs g i)}"

definition circular :: "i123_sheet \<Rightarrow> bool" where
  "circular g \<longleftrightarrow> (\<exists>i. (i, i) \<in> (depends g)\<^sup>+)"

text \<open>The address reported for a circular reference is that of a cell on a cycle.\<close>

definition circ_ok :: "i123_sheet \<Rightarrow> circ_t \<Rightarrow> bool" where
  "circ_ok g ci \<longleftrightarrow> (ci_circ ci \<longrightarrow> (\<exists>k. (k, k) \<in> (depends g)\<^sup>+ \<and> ci_col ci = col (cells g ! k) \<and> ci_row ci = row (cells g ! k)))"

lemma circ_ok_note: "circ_ok g ci \<Longrightarrow> (k, k) \<in> (depends g)\<^sup>+ \<Longrightarrow> circ_ok g (note_circ g ci k)"
  by (auto simp: circ_ok_def note_circ_def)

text \<open>Every cell comes after the cells it refers to, those of \<open>D\<close> being settled before.\<close>

primrec ordered :: "i123_sheet \<Rightarrow> nat set \<Rightarrow> nat list \<Rightarrow> bool" where
  "ordered g D [] \<longleftrightarrow> True"
| "ordered g D (x # xs) \<longleftrightarrow> set (refs g x) \<subseteq> D \<and> ordered g (insert x D) xs"

lemma ordered_append: "ordered g D (xs @ ys) \<longleftrightarrow> ordered g D xs \<and> ordered g (D \<union> set xs) ys"
  by (induction xs arbitrary: D) auto

text \<open>An order of all formulas excludes a cycle.\<close>

lemma ordered_closed: "ordered g D xs \<Longrightarrow> x \<in> set xs \<Longrightarrow> set (refs g x) \<subseteq> D \<union> set xs"
  by (induction xs arbitrary: D) fastforce+

lemma ordered_rank:
  assumes "ordered g {} xs" "distinct xs" "j < length xs" "k \<in> set (refs g (xs ! j))"
  shows "\<exists>m < j. xs ! m = k"
proof -
  have "xs = take j xs @ xs ! j # drop (Suc j) xs" by (rule id_take_nth_drop [OF assms(3)])
  then have "ordered g (set (take j xs)) (xs ! j # drop (Suc j) xs)"
    using assms(1) ordered_append [of g "{}" "take j xs" "xs ! j # drop (Suc j) xs"] by simp
  then have "k \<in> set (take j xs)" using assms(4) by auto
  then show ?thesis by (auto simp: in_set_conv_nth)
qed

lemma ordered_not_circular:
  assumes "ordered g {} xs" "distinct xs" "set xs = formulas g"
  shows "\<not> circular g"
proof
  assume "circular g"
  then obtain i where "(i, i) \<in> (depends g)\<^sup>+" by (auto simp: circular_def)
  have rank: "\<exists>j m. j < length xs \<and> m < j \<and> xs ! j = a \<and> xs ! m = b" if "(a, b) \<in> depends g" for a b
  proof -
    have "a \<in> set xs" "b \<in> set (refs g a)" using that assms(3) by (auto simp: depends_def)
    then obtain j where "j < length xs" "xs ! j = a" by (auto simp: in_set_conv_nth)
    then show ?thesis using ordered_rank [OF assms(1,2), of j b] \<open>b \<in> set (refs g a)\<close> by auto
  qed
  have "\<exists>j m. j < length xs \<and> m < j \<and> xs ! j = a \<and> xs ! m = b" if "(a, b) \<in> (depends g)\<^sup>+" for a b
    using that
  proof (induction rule: trancl_induct)
    case (base b)
    then show ?case by (rule rank)
  next
    case (step b c)
    obtain j m where 1: "j < length xs" "m < j" "xs ! j = a" "xs ! m = b" using step.IH by blast
    obtain j' m' where 2: "j' < length xs" "m' < j'" "xs ! j' = b" "xs ! m' = c" using rank [OF step.hyps(2)] by blast
    have "m = j'" using nth_eq_iff_index_eq [OF assms(2), of m j'] 1 2 by simp
    then show ?case using 1 2 less_trans by blast
  qed
  from this [OF \<open>(i, i) \<in> (depends g)\<^sup>+\<close>] obtain j m where "j < length xs" "m < j" "xs ! j = i" "xs ! m = i" by blast
  then show False using nth_eq_iff_index_eq [OF assms(2), of j m] by simp
qed

section \<open>One round\<close>

lemma ref_scan_keeps_circ: "ref_scan g i st within r ci = (ci1, out) \<Longrightarrow> ci_circ ci \<Longrightarrow> ci1 = ci"
proof (induction r arbitrary: ci)
  case (Cons k ks)
  have "note_circ g ci j = ci" for j using Cons.prems(2) by (simp add: note_circ_def)
  then show ?case using Cons by (auto split: if_splits)
qed simp

lemma ref_scan_why: "ref_scan g i st within r ci = (ci1, out) \<Longrightarrow>
    ci1 = ci \<or> (\<exists>k \<in> set r. (k = i \<or> st ! k = ST_STACK) \<and> ci1 = note_circ g ci k)"
proof (induction r arbitrary: ci)
  case (Cons k ks)
  have noted: "ci1 = note_circ g ci k" if "ref_scan g i st within ks (note_circ g ci k) = (ci1, out)"
    using ref_scan_keeps_circ [OF that] by simp
  show ?case using Cons noted by (fastforce split: if_splits)
qed simp

lemma ref_scan_done: "ref_scan g i st within r ci = (ci1, ADone) \<Longrightarrow> \<not> ci_circ ci1 \<Longrightarrow> k \<in> set r \<Longrightarrow> st ! k = ST_DONE \<and> k \<noteq> i"
proof (induction r arbitrary: ci)
  case (Cons j js)
  have "ci_circ ci1" if "ref_scan g i st within js (note_circ g ci m) = (ci1, ADone)" for m
    using ref_scan_keeps_circ [OF that] by simp
  then show ?case using Cons by (auto split: if_splits)
qed simp

lemma ref_scan_push: "ref_scan g i st within r ci = (ci1, APush k ks) \<Longrightarrow>
    k \<in> set r \<and> k \<noteq> i \<and> st ! k \<noteq> ST_DONE \<and> st ! k \<noteq> ST_STACK \<and> set ks \<subseteq> set r \<and>
    (\<not> ci_circ ci1 \<longrightarrow> (\<forall>j \<in> set r. j \<in> set ks \<or> j = k \<or> st ! j = ST_DONE))"
proof (induction r arbitrary: ci)
  case (Cons j js)
  have circ: "ci_circ ci1" if "ref_scan g i st within js (note_circ g ci m) = (ci1, APush k ks)" for m
    using ref_scan_keeps_circ [OF that] by simp
  show ?case
  proof (cases "j = i \<or> st ! j = ST_DONE \<or> st ! j = ST_STACK")
    case True
    then obtain c where "ref_scan g i st within js c = (ci1, APush k ks)" "c = ci \<and> st ! j = ST_DONE \<or> ci_circ ci1"
      using Cons.prems circ by (cases "j = i") (auto split: if_splits)
    then show ?thesis using Cons.IH by auto
  next
    case False
    then show ?thesis using Cons.prems by auto
  qed
qed simp

lemma ref_scan_abandon: "ref_scan g i st within r ci = (ci1, AAbandon) \<Longrightarrow>
    within \<and> ci_circ ci1 \<and> (\<exists>k \<in> set r. k \<noteq> i \<and> st ! k = ST_STACK)"
  by (induction r arbitrary: ci) (auto split: if_splits)

end
