(* ===== verification/RecalcPass.thy ===== *)
theory RecalcPass imports RecalcOrder begin

text \<open>
  A natural-order pass as a whole: the walk from one formula, by induction over its rounds, and the sweep of the walks.
\<close>

section \<open>The invariant of the walk\<close>

type_synonym aframe = "nat \<times> nat list"

definition done_set :: "nat list \<Rightarrow> nat set" where
  "done_set st = {i. i < length st \<and> st ! i = ST_DONE}"

definition new_count :: "nat list \<Rightarrow> nat" where
  "new_count st = card {i. i < length st \<and> st ! i = ST_NEW}"

text \<open>Every reference of a frame is still to come, done, or on the frame above (\<open>up\<close>).\<close>

primrec consumed :: "i123_sheet \<Rightarrow> nat list \<Rightarrow> nat set \<Rightarrow> aframe list \<Rightarrow> bool" where
  "consumed g st up [] \<longleftrightarrow> True"
| "consumed g st up (a # afs) \<longleftrightarrow> set (refs g (fst a)) \<subseteq> set (snd a) \<union> done_set st \<union> up \<and> consumed g st {fst a} afs"

definition walk_inv :: "i123_sheet \<Rightarrow> nat \<Rightarrow> aframe list \<Rightarrow> nat list \<Rightarrow> nat \<Rightarrow> circ_t \<Rightarrow> bool" where
  "walk_inv g budget afs st work ci \<longleftrightarrow>
     length st = length (cells g) \<and> (\<forall>i < length st. st ! i \<in> {ST_NEW, ST_STACK, ST_DONE}) \<and>
     distinct (map fst afs) \<and> set (map fst afs) \<subseteq> formulas g \<and>
     (\<forall>i < length st. st ! i = ST_STACK \<longleftrightarrow> i \<in> set (map fst afs)) \<and>
     (\<forall>a \<in> set afs. set (snd a) \<subseteq> set (refs g (fst a))) \<and>
     successively (\<lambda>a b. fst a \<in> set (refs g (fst b))) afs \<and>
     work + (if work < budget then 0 else new_count st) \<le> budget + length st \<and>
     (\<not> ci_circ ci \<longrightarrow> consumed g st {} afs)"

definition walk_size :: "nat \<Rightarrow> aframe list \<Rightarrow> nat list \<Rightarrow> nat \<Rightarrow> nat" where
  "walk_size budget afs st work =
     (if work < budget then 2 * (budget - work) + 2 * length st else 2 * new_count st) + length afs"

lemma new_count_le: "new_count st \<le> length st"
proof -
  have "card {i. i < length st \<and> st ! i = ST_NEW} \<le> card {..<length st}" by (rule card_mono) auto
  then show ?thesis by (simp add: new_count_def)
qed

lemma new_count_update: "i < length st \<Longrightarrow> st ! i \<noteq> ST_NEW \<Longrightarrow> x \<noteq> ST_NEW \<Longrightarrow> new_count (st[i := x]) = new_count st"
  unfolding new_count_def by (rule arg_cong [of _ _ card]) (auto simp: nth_list_update)

lemma new_count_take: "i < length st \<Longrightarrow> st ! i = ST_NEW \<Longrightarrow> x \<noteq> ST_NEW \<Longrightarrow> Suc (new_count (st[i := x])) = new_count st"
proof -
  assume a: "i < length st" "st ! i = ST_NEW" "x \<noteq> ST_NEW"
  then have "{j. j < length st \<and> st ! j = ST_NEW} = insert i {j. j < length (st[i := x]) \<and> st[i := x] ! j = ST_NEW}"
    by (auto simp: nth_list_update)
  moreover have "i \<notin> {j. j < length (st[i := x]) \<and> st[i := x] ! j = ST_NEW}" using a by simp
  ultimately show ?thesis by (simp add: new_count_def)
qed

lemma done_set_update: "i < length st \<Longrightarrow> st ! i \<noteq> ST_DONE \<Longrightarrow>
    done_set (st[i := x]) = (if x = ST_DONE then insert i (done_set st) else done_set st)"
  by (auto simp: done_set_def nth_list_update)

lemma consumed_mono: "consumed g st up afs \<Longrightarrow> done_set st \<union> up \<subseteq> done_set st' \<union> up' \<Longrightarrow> done_set st \<subseteq> done_set st' \<Longrightarrow>
    consumed g st' up' afs"
proof (induction afs arbitrary: up up')
  case (Cons a afs)
  from Cons.prems(1) have "consumed g st {fst a} afs" by simp
  then have "consumed g st' {fst a} afs" by (rule Cons.IH) (use Cons.prems(3) in auto)
  then show ?case using Cons.prems by auto
qed simp

text \<open>A node below on the walk reaches the one on top.\<close>

lemma walk_path:
  assumes "successively (\<lambda>a b. fst a \<in> set (refs g (fst b))) (a # afs)" "set (map fst (a # afs)) \<subseteq> formulas g" "b \<in> set (a # afs)"
  shows "(fst b, fst a) \<in> (depends g)\<^sup>*"
  using assms
proof (induction afs arbitrary: a)
  case (Cons c afs)
  show ?case
  proof (cases "b = a")
    case False
    then have "(fst b, fst c) \<in> (depends g)\<^sup>*" using Cons.IH [of c] Cons.prems by simp
    moreover have "(fst c, fst a) \<in> depends g" using Cons.prems by (simp add: depends_def)
    ultimately show ?thesis by (rule rtrancl_into_rtrancl)
  qed simp
qed simp

text \<open>What a walk leaves.\<close>

definition walked :: "i123_sheet \<Rightarrow> aframe list \<Rightarrow> nat list \<Rightarrow> circ_t \<Rightarrow> nat list \<Rightarrow> nat list \<Rightarrow> circ_t \<Rightarrow> bool" where
  "walked g afs st ci order st' ci' \<longleftrightarrow>
     distinct order \<and> set order \<subseteq> formulas g \<and> set order \<inter> done_set st = {} \<and>
     length st' = length st \<and> (\<forall>i < length st. st' ! i = (if i \<in> done_set st \<union> set order then ST_DONE else ST_NEW)) \<and>
     (afs \<noteq> [] \<longrightarrow> fst (last afs) \<in> set order) \<and>
     (ci_circ ci \<longrightarrow> ci' = ci) \<and> (circ_ok g ci \<longrightarrow> circ_ok g ci') \<and>
     (\<not> ci_circ ci' \<longrightarrow> ordered g (done_set st) order)"

lemma formulas_less: "i \<in> formulas g \<Longrightarrow> i < length (cells g)"
  by (simp add: formulas_def)

section \<open>The three rounds\<close>

lemma round_circ:
  assumes inv: "walk_inv g budget ((i, r) # afs) st work ci" and scan: "ref_scan g i st within r ci = (ci1, out)"
    and ok: "circ_ok g ci"
  shows "circ_ok g ci1"
proof -
  note w = inv [unfolded walk_inv_def]
  consider "ci1 = ci" | k where "k \<in> set r" "k = i \<or> st ! k = ST_STACK" "ci1 = note_circ g ci k" using ref_scan_why [OF scan] by blast
  then show ?thesis
  proof cases
    case 2
    then have ik: "(i, k) \<in> depends g" "k \<in> set (refs g i)" using w by (auto simp: depends_def)
    then have "k < length st" using w refs_from_formulas [of g i 0] formulas_less by auto
    then have "k \<in> set (map fst ((i, r) # afs))" using w 2(2) by auto
    then obtain b where b: "b \<in> set ((i, r) # afs)" "fst b = k" by (metis imageE set_map)
    have "(fst b, fst (i, r)) \<in> (depends g)\<^sup>*" by (rule walk_path [OF _ _ b(1)]) (use w in auto)
    then have "(k, k) \<in> (depends g)\<^sup>+" using ik(1) b(2) by (simp add: rtrancl_into_trancl1)
    then show ?thesis using circ_ok_note [OF ok] 2(3) by simp
  qed (use ok in simp)
qed

lemma round_done:
  assumes inv: "walk_inv g budget ((i, r) # afs) st work ci" and scan: "ref_scan g i st (work < budget) r ci = (ci1, ADone)"
  shows "walk_inv g budget afs (st[i := ST_DONE]) work ci1" "walk_size budget afs (st[i := ST_DONE]) work < walk_size budget ((i, r) # afs) st work"
    "walked g afs (st[i := ST_DONE]) ci1 order st' ci' \<Longrightarrow> walked g ((i, r) # afs) st ci (i # order) st' ci'"
proof -
  note w = inv [unfolded walk_inv_def]
  have i: "i < length st" "i \<in> formulas g" "st ! i = ST_STACK" "i \<notin> set (map fst afs)" using w by (auto simp: formulas_def)
  have D: "done_set (st[i := ST_DONE]) = insert i (done_set st)" using i by (simp add: done_set_update)
  have N: "new_count (st[i := ST_DONE]) = new_count st" using i by (simp add: new_count_update)
  have circ: "\<not> ci_circ ci1 \<Longrightarrow> \<not> ci_circ ci" using ref_scan_keeps_circ [OF scan] by auto
  have closed: "set (refs g i) \<subseteq> done_set st" if "\<not> ci_circ ci1"
  proof
    fix k assume "k \<in> set (refs g i)"
    moreover have "set (refs g i) \<subseteq> set r \<union> done_set st" using w circ [OF that] by simp
    ultimately consider "k \<in> set r" | "k \<in> done_set st" by blast
    then show "k \<in> done_set st"
    proof cases
      case 1
      then have "st ! k = ST_DONE" using ref_scan_done [OF scan that] by blast
      moreover have "k < length st" using w refs_from_formulas [of g i 0] \<open>k \<in> set (refs g i)\<close> formulas_less by auto
      ultimately show ?thesis by (simp add: done_set_def)
    qed
  qed
  have "consumed g (st[i := ST_DONE]) {} afs" if "\<not> ci_circ ci1"
    by (rule consumed_mono [of g st "{i}"]) (use w circ [OF that] D in auto)
  moreover have "st[i := ST_DONE] ! j = ST_STACK \<longleftrightarrow> j \<in> set (map fst afs)" if "j < length st" for j
  proof (cases "j = i")
    case True
    then show ?thesis using i by simp
  next
    case False
    then show ?thesis using w that by auto
  qed
  moreover have "st[i := ST_DONE] ! j \<in> {ST_NEW, ST_STACK, ST_DONE}" if "j < length st" for j
    using w that by (cases "j = i") auto
  moreover have "successively (\<lambda>a b. fst a \<in> set (refs g (fst b))) afs" using w by (cases afs) auto
  ultimately show "walk_inv g budget afs (st[i := ST_DONE]) work ci1"
    unfolding walk_inv_def N using w by simp
  show "walk_size budget afs (st[i := ST_DONE]) work < walk_size budget ((i, r) # afs) st work"
    by (simp add: walk_size_def N)
  assume p: "walked g afs (st[i := ST_DONE]) ci1 order st' ci'"
  show "walked g ((i, r) # afs) st ci (i # order) st' ci'"
    unfolding walked_def
  proof (intro conjI impI)
    show "distinct (i # order)" "set (i # order) \<subseteq> formulas g" "set (i # order) \<inter> done_set st = {}" "length st' = length st"
      using p D i by (auto simp: walked_def done_set_def)
    show "\<forall>j < length st. st' ! j = (if j \<in> done_set st \<union> set (i # order) then ST_DONE else ST_NEW)"
      using p D by (simp add: walked_def)
    show "fst (last ((i, r) # afs)) \<in> set (i # order)" using p by (auto simp: walked_def)
    show "ci' = ci" if "ci_circ ci" using p ref_scan_keeps_circ [OF scan that] that by (simp add: walked_def)
    show "circ_ok g ci'" if "circ_ok g ci" using p round_circ [OF inv scan that] by (simp add: walked_def)
    show "ordered g (done_set st) (i # order)" if "\<not> ci_circ ci'"
    proof -
      have "\<not> ci_circ ci1" using p that by (auto simp: walked_def)
      then show ?thesis using closed p that D by (simp add: walked_def)
    qed
  qed
qed

lemma round_push:
  assumes inv: "walk_inv g budget ((i, r) # afs) st work ci" and scan: "ref_scan g i st (work < budget) r ci = (ci1, APush k ks)"
  shows "walk_inv g budget ((k, refs g k) # (i, ks) # afs) (st[k := ST_STACK]) (work + 1) ci1"
    "walk_size budget ((k, refs g k) # (i, ks) # afs) (st[k := ST_STACK]) (work + 1) < walk_size budget ((i, r) # afs) st work"
    "walked g ((k, refs g k) # (i, ks) # afs) (st[k := ST_STACK]) ci1 order st' ci' \<Longrightarrow> walked g ((i, r) # afs) st ci order st' ci'"
    "length afs + 2 \<le> length (cells g)" "k \<in> formulas g"
proof -
  note w = inv [unfolded walk_inv_def]
  note push = ref_scan_push [OF scan]
  have ki: "k \<in> set (refs g i)" using push w by auto
  show kF: "k \<in> formulas g" using ki refs_from_formulas [of g i 0] by auto
  have len: "length st = length (cells g)" using w by blast
  then have k1: "k < length st" using formulas_less [OF kF] by simp
  moreover have "st ! k \<in> {ST_NEW, ST_STACK, ST_DONE}" using w k1 by blast
  moreover have "k \<notin> set (map fst ((i, r) # afs))" using w k1 push by blast
  ultimately have k: "k < length st" "st ! k = ST_NEW" "k \<notin> set (map fst ((i, r) # afs))" using push by auto
  have D: "done_set (st[k := ST_STACK]) = done_set st" using k by (simp add: done_set_update)
  have N: "Suc (new_count (st[k := ST_STACK])) = new_count st" using k by (simp add: new_count_take)
  have circ: "\<not> ci_circ ci1 \<Longrightarrow> \<not> ci_circ ci" using ref_scan_keeps_circ [OF scan] by auto
  have "consumed g (st[k := ST_STACK]) {} ((k, refs g k) # (i, ks) # afs)" if no: "\<not> ci_circ ci1"
  proof -
    have c: "set (refs g i) \<subseteq> set r \<union> done_set st" "consumed g st {i} afs" using w circ [OF no] by simp_all
    have "set r \<subseteq> set ks \<union> {k} \<union> done_set st"
    proof
      fix j assume "j \<in> set r"
      moreover have "j < length st" using \<open>j \<in> set r\<close> w refs_from_formulas [of g i 0] formulas_less by auto
      ultimately show "j \<in> set ks \<union> {k} \<union> done_set st" using push no by (auto simp: done_set_def)
    qed
    moreover have "consumed g (st[k := ST_STACK]) {i} afs" by (rule consumed_mono [OF c(2)]) (simp_all only: D subset_refl)
    ultimately show ?thesis using c(1) unfolding consumed.simps D by auto
  qed
  moreover have "st[k := ST_STACK] ! j = ST_STACK \<longleftrightarrow> j \<in> set (map fst ((k, refs g k) # (i, ks) # afs))" if "j < length st" for j
    using w that k(1) by (cases "j = k") auto
  moreover have "st[k := ST_STACK] ! j \<in> {ST_NEW, ST_STACK, ST_DONE}" if "j < length st" for j
    using w that by (cases "j = k") auto
  moreover have "distinct (map fst ((k, refs g k) # (i, ks) # afs))" using w k(3) by simp
  moreover have "successively (\<lambda>a b. fst a \<in> set (refs g (fst b))) ((k, refs g k) # (i, ks) # afs)"
    using w ki by (cases afs) auto
  moreover have "work + 1 + (if work + 1 < budget then 0 else new_count (st[k := ST_STACK])) \<le> budget + length st"
    using w N new_count_le [of "st[k := ST_STACK]"] by (auto split: if_splits)
  ultimately show "walk_inv g budget ((k, refs g k) # (i, ks) # afs) (st[k := ST_STACK]) (work + 1) ci1"
    unfolding walk_inv_def using w push kF by (intro conjI) (simp_all, blast)
  show "walk_size budget ((k, refs g k) # (i, ks) # afs) (st[k := ST_STACK]) (work + 1) < walk_size budget ((i, r) # afs) st work"
    using N new_count_le [of "st[k := ST_STACK]"] by (auto simp: walk_size_def)
  have "set (map fst ((k, refs g k) # (i, ks) # afs)) \<subseteq> {..<length (cells g)}"
    using w kF formulas_less by auto
  then have "card (set (map fst ((k, refs g k) # (i, ks) # afs))) \<le> length (cells g)"
    using card_mono [of "{..<length (cells g)}"] by fastforce
  moreover have "card (set (map fst ((k, refs g k) # (i, ks) # afs))) = length afs + 2"
    using w k(3) by (subst distinct_card) auto
  ultimately show "length afs + 2 \<le> length (cells g)" by simp
  assume p: "walked g ((k, refs g k) # (i, ks) # afs) (st[k := ST_STACK]) ci1 order st' ci'"
  show "walked g ((i, r) # afs) st ci order st' ci'"
    unfolding walked_def
  proof (intro conjI impI)
    show "distinct order" "set order \<subseteq> formulas g" "set order \<inter> done_set st = {}" "length st' = length st"
      "\<forall>j < length st. st' ! j = (if j \<in> done_set st \<union> set order then ST_DONE else ST_NEW)"
      using p unfolding walked_def D by auto
    show "fst (last ((i, r) # afs)) \<in> set order" using p by (cases afs) (auto simp: walked_def)
    show "ci' = ci" if "ci_circ ci" using p ref_scan_keeps_circ [OF scan that] that by (simp add: walked_def)
    show "circ_ok g ci'" if "circ_ok g ci" using p round_circ [OF inv scan that] by (simp add: walked_def)
    show "ordered g (done_set st) order" if "\<not> ci_circ ci'" using p that unfolding walked_def D by simp
  qed
qed

lemma round_abandon:
  assumes inv: "walk_inv g budget ((i, r) # afs) st work ci" and scan: "ref_scan g i st (work < budget) r ci = (ci1, AAbandon)"
  shows "walk_inv g budget afs (st[i := ST_NEW]) work ci1" "walk_size budget afs (st[i := ST_NEW]) work < walk_size budget ((i, r) # afs) st work"
    "walked g afs (st[i := ST_NEW]) ci1 order st' ci' \<Longrightarrow> walked g ((i, r) # afs) st ci order st' ci'"
proof -
  note w = inv [unfolded walk_inv_def]
  note ab = ref_scan_abandon [OF scan]
  have i: "i < length st" "i \<in> formulas g" "st ! i = ST_STACK" "i \<notin> set (map fst afs)" using w by (auto simp: formulas_def)
  have D: "done_set (st[i := ST_NEW]) = done_set st" using i by (simp add: done_set_update)
  obtain k where k: "k \<in> set r" "k \<noteq> i" "st ! k = ST_STACK" using ab by blast
  then have "k < length st" using w refs_from_formulas [of g i 0] formulas_less by auto
  then have below: "afs \<noteq> []" using w k by auto
  have "st[i := ST_NEW] ! j = ST_STACK \<longleftrightarrow> j \<in> set (map fst afs)" if "j < length st" for j
  proof (cases "j = i")
    case True
    then show ?thesis using i by simp
  next
    case False
    then show ?thesis using w that by auto
  qed
  moreover have "st[i := ST_NEW] ! j \<in> {ST_NEW, ST_STACK, ST_DONE}" if "j < length st" for j
    using w that by (cases "j = i") auto
  moreover have "successively (\<lambda>a b. fst a \<in> set (refs g (fst b))) afs" using w by (cases afs) auto
  ultimately show "walk_inv g budget afs (st[i := ST_NEW]) work ci1"
    unfolding walk_inv_def using w ab by simp
  show "walk_size budget afs (st[i := ST_NEW]) work < walk_size budget ((i, r) # afs) st work"
    using ab by (simp add: walk_size_def)
  assume p: "walked g afs (st[i := ST_NEW]) ci1 order st' ci'"
  show "walked g ((i, r) # afs) st ci order st' ci'"
    unfolding walked_def
  proof (intro conjI impI)
    show "distinct order" "set order \<subseteq> formulas g" "set order \<inter> done_set st = {}" "length st' = length st"
      "\<forall>j < length st. st' ! j = (if j \<in> done_set st \<union> set order then ST_DONE else ST_NEW)"
      using p unfolding walked_def D by auto
    show "fst (last ((i, r) # afs)) \<in> set order" using p below by (simp add: walked_def)
    show "ci' = ci" if "ci_circ ci" using p ref_scan_keeps_circ [OF scan that] that by (simp add: walked_def)
    show "circ_ok g ci'" if "circ_ok g ci" using p round_circ [OF inv scan that] by (simp add: walked_def)
    show "ordered g (done_set st) order" if "\<not> ci_circ ci'" using p that unfolding walked_def D by simp
  qed
qed

end
