(* ===== verification/RecalcNatural.thy ===== *)
theory RecalcNatural imports RecalcPass begin

text \<open>
  The natural-order pass equals the evaluation of a list of cells which the references alone decide: the walk from one
  formula, then the sweep over the store.
\<close>

section \<open>The walk\<close>

lemma cells_bound: "sheet_ok sh \<Longrightarrow> length (cells sh) \<le> 0x200000"
proof -
  assume ok: "sheet_ok sh"
  have less: "ckey c < 0x200000" if "c \<in> set (cells sh)" for c
    using that ok by (auto simp: sheet_ok_def cell_fits_def key_of_eq)
  have "sorted_wrt (<) (map ckey (cells sh))" using ok by (simp add: sheet_ok_def sorted_wrt_key_less [symmetric])
  then have "distinct (map ckey (cells sh))" by (simp add: strict_sorted_iff)
  moreover have "set (map ckey (cells sh)) \<subseteq> {..<0x200000}" using less by auto
  ultimately show ?thesis using card_mono [of "{..<0x200000::nat}" "set (map ckey (cells sh))"] distinct_card [of "map ckey (cells sh)"]
    by simp
qed

lemma skeleton_ref_scan:
  assumes "skeleton sh = skeleton g" "i < length (cells sh)"
  shows "set r \<subseteq> {..<length (cells sh)} \<Longrightarrow> ref_scan sh i st within r ci = ref_scan g i st within r ci"
  by (cases within; induction r arbitrary: ci) (simp_all add: skeleton_note_circ [OF assms(1)] assms(2))

text \<open>The frames of a concrete walk stand for the abstract ones.\<close>

definition frames_for :: "i123_sheet \<Rightarrow> i123_sheet \<Rightarrow> i123_frame list \<Rightarrow> aframe list \<Rightarrow> bool" where
  "frames_for g sh fs afs \<longleftrightarrow> sheet_ok sh \<and> skeleton sh = skeleton g \<and> (\<forall>f \<in> set fs. frame_ok sh f) \<and>
     map (\<lambda>f. (f_cell f, rest_refs sh f)) fs = afs"

lemma frames_for_Cons: "frames_for g sh (f # fs) (a # afs) \<longleftrightarrow>
    frame_ok sh f \<and> (f_cell f, rest_refs sh f) = a \<and> frames_for g sh fs afs"
  by (auto simp: frames_for_def)

lemma frames_for_skeleton: "frames_for g sh fs afs \<Longrightarrow> sheet_ok s1 \<Longrightarrow> skeleton s1 = skeleton sh \<Longrightarrow> frames_for g s1 fs afs"
proof -
  assume a: "frames_for g sh fs afs" "sheet_ok s1" "skeleton s1 = skeleton sh"
  have "rest_refs s1 f = rest_refs sh f" if "f \<in> set fs" for f
    by (rule skeleton_rest_refs [OF a(3)]) (use a(1) that same_skeleton(1) [OF a(3)] in \<open>auto simp: frames_for_def frame_ok_def\<close>)
  then have "map (\<lambda>f. (f_cell f, rest_refs s1 f)) fs = map (\<lambda>f. (f_cell f, rest_refs sh f)) fs" by simp
  then show ?thesis using a skeleton_frame_ok [OF a(3)] unfolding frames_for_def by metis
qed

definition walk_out_of :: "nat list \<times> nat \<times> circ_t \<Rightarrow> 'c \<times> i123_sheet \<times> (int + unit) \<Rightarrow> 'c \<times> i123_sheet \<times> (int + nat list \<times> nat \<times> circ_t)" where
  "walk_out_of w = (\<lambda>(cx, sh, r). (cx, sh, map_sum id (\<lambda>_. w) r))"

definition walks_as :: "i123_sheet \<Rightarrow> nat \<Rightarrow> nat \<Rightarrow> aframe list \<Rightarrow> nat list \<Rightarrow> nat \<Rightarrow> circ_t \<Rightarrow> nat list \<Rightarrow>
    nat list \<times> nat \<times> circ_t \<Rightarrow> 'c evaluator \<Rightarrow> bool" where
  "walks_as g ccap budget afs st work ci order w ev \<longleftrightarrow> (\<forall>cx sh fs. frames_for g sh fs afs \<longrightarrow>
     walk_stack ev ccap True budget (fs, st, work, ci, cx, sh) = map_option (walk_out_of w) (eval_all ev order cx sh))"

lemma frames_scan:
  assumes fs: "frames_for g sh (f # fs) ((i, r) # afs)" and inv: "walk_inv g budget ((i, r) # afs) st work ci"
    and scan: "ref_scan g i st within r ci = (ci1, out)"
  obtains f1 out1 where "scan_frame sh st within f ci = Some (f1, ci1, out1)" "frame_ok sh f1" "f_cell f1 = i"
    "case out of ADone \<Rightarrow> out1 = ScanDone | AAbandon \<Rightarrow> out1 = ScanAbandon | APush k ks \<Rightarrow> out1 = ScanPush k \<and> rest_refs sh f1 = ks"
proof -
  have f: "frame_ok sh f" "f_cell f = i" "rest_refs sh f = r" "sheet_ok sh" "skeleton sh = skeleton g"
    using fs by (auto simp: frames_for_def)
  have "i < length (cells sh)" using f(1,2) by (simp add: frame_ok_def)
  moreover have "set r \<subseteq> set (refs g i)" using inv by (simp add: walk_inv_def)
  then have "set r \<subseteq> {..<length (cells sh)}"
    using refs_from_formulas [of g i 0] formulas_less same_skeleton(1) [OF f(5)] by auto
  ultimately have "ref_scan sh (f_cell f) st within (rest_refs sh f) ci = (ci1, out)"
    using skeleton_ref_scan [OF f(5)] scan f by simp
  from scan_frame_ok [OF f(4,1) this] f(2) that show thesis by blast
qed

lemma new_frame_ok: "k < length (cells sh) \<Longrightarrow> frame_ok sh (new_frame k) \<and> rest_refs sh (new_frame k) = refs_from sh k 0 \<and> f_cell (new_frame k) = k"
  by (simp add: frame_ok_def new_frame_def rest_refs_def)

lemma walks_abandon:
  assumes inv: "walk_inv g budget ((i, r) # afs) st work ci" and scan: "ref_scan g i st (work < budget) r ci = (ci1, AAbandon)"
    and IH: "walks_as g ccap budget afs (st[i := ST_NEW]) work ci1 order w ev"
  shows "walks_as g ccap budget ((i, r) # afs) st work ci order w ev"
  unfolding walks_as_def
proof (intro allI impI)
  fix cx sh fs0
  assume fs0: "frames_for g sh fs0 ((i, r) # afs)"
  then obtain f fs where fs: "fs0 = f # fs" by (cases fs0) (auto simp: frames_for_def)
  note ff = fs0 [unfolded fs]
  obtain f1 out1 where s: "scan_frame sh st (work < budget) f ci = Some (f1, ci1, ScanAbandon)" "f_cell f1 = i"
    using frames_scan [OF ff inv scan] by (auto simp only: walk_out.case)
  have "frames_for g sh fs afs" using ff by (simp add: frames_for_Cons)
  then show "walk_stack ev ccap True budget (fs0, st, work, ci, cx, sh) = map_option (walk_out_of w) (eval_all ev order cx sh)"
    using IH s by (subst walk_stack.simps) (simp add: walks_as_def walk_step_def fs)
qed

lemma walks_push:
  assumes inv: "walk_inv g budget ((i, r) # afs) st work ci" and scan: "ref_scan g i st (work < budget) r ci = (ci1, APush k ks)"
    and room: "length (cells g) \<le> ccap" "work + 1 < 0x100000000"
    and IH: "walks_as g ccap budget ((k, refs g k) # (i, ks) # afs) (st[k := ST_STACK]) (work + 1) ci1 order w ev"
  shows "walks_as g ccap budget ((i, r) # afs) st work ci order w ev"
  unfolding walks_as_def
proof (intro allI impI)
  fix cx sh fs0
  assume fs0: "frames_for g sh fs0 ((i, r) # afs)"
  then obtain f fs where fs: "fs0 = f # fs" by (cases fs0) (auto simp: frames_for_def)
  note ff = fs0 [unfolded fs]
  obtain f1 where s: "scan_frame sh st (work < budget) f ci = Some (f1, ci1, ScanPush k)" "frame_ok sh f1" "f_cell f1 = i" "rest_refs sh f1 = ks"
    using frames_scan [OF ff inv scan] by (auto simp only: walk_out.case)
  have sk: "skeleton sh = skeleton g" "length fs = length afs" "frames_for g sh fs afs" using ff by (auto simp: frames_for_def)
  have "k < length (cells sh)" using round_push(5) [OF inv scan] formulas_less same_skeleton(1) [OF sk(1)] by simp
  then have "frames_for g sh (new_frame k # f1 # fs) ((k, refs g k) # (i, ks) # afs)"
    using new_frame_ok [of k sh] s sk skeleton_refs_from [OF sk(1)] by (simp add: frames_for_Cons)
  moreover have "\<not> ccap \<le> length (f # fs)" using round_push(4) [OF inv scan] room(1) sk(2) by simp
  ultimately show "walk_stack ev ccap True budget (fs0, st, work, ci, cx, sh) = map_option (walk_out_of w) (eval_all ev order cx sh)"
    using IH s room(2) by (subst walk_stack.simps) (simp add: walks_as_def walk_step_def fs)
qed

lemma walks_done:
  assumes inv: "walk_inv g budget ((i, r) # afs) st work ci" and scan: "ref_scan g i st (work < budget) r ci = (ci1, ADone)"
    and IH: "walks_as g ccap budget afs (st[i := ST_DONE]) work ci1 order w ev"
  shows "walks_as g ccap budget ((i, r) # afs) st work ci (i # order) w ev"
  unfolding walks_as_def
proof (intro allI impI)
  fix cx sh fs0
  assume fs0: "frames_for g sh fs0 ((i, r) # afs)"
  then obtain f fs where fs: "fs0 = f # fs" by (cases fs0) (auto simp: frames_for_def)
  note ff = fs0 [unfolded fs]
  obtain f1 where s: "scan_frame sh st (work < budget) f ci = Some (f1, ci1, ScanDone)" "frame_ok sh f1" "f_cell f1 = i"
    using frames_scan [OF ff inv scan] by (auto simp only: walk_out.case)
  have rest: "frames_for g sh fs afs" "sheet_ok sh" using ff by (auto simp: frames_for_def)
  have "i < length (cells sh)" using s by (simp add: frame_ok_def)
  then obtain cx1 s1 res where e: "eval_store ev cx sh i = Some (cx1, s1, res)" "sheet_ok s1" "skeleton s1 = skeleton sh"
    by (rule eval_store_keeps [OF rest(2), of i ev cx])
  have "frames_for g s1 fs afs" by (rule frames_for_skeleton [OF rest(1) e(2,3)])
  then show "walk_stack ev ccap True budget (fs0, st, work, ci, cx, sh) = map_option (walk_out_of w) (eval_all ev (i # order) cx sh)"
    using IH s e(1) by (subst walk_stack.simps, cases res) (simp_all add: walks_as_def walk_step_def fs walk_out_of_def)
qed

text \<open>What a scan decides does not depend on the circular references noted so far.\<close>

lemma ref_scan_out: "snd (ref_scan g i st within r ci) = snd (ref_scan g i st within r ci0)"
  by (induction r arbitrary: ci ci0) auto

text \<open>Every walk ends, and evaluates the cells of one list.\<close>

lemma walk_ends:
  fixes g :: i123_sheet
  assumes "\<exists>ci. walk_inv g budget afs st work ci" "length (cells g) \<le> ccap" "budget + length (cells g) + 1 < 0x100000000"
  shows "\<exists>order st' work'. \<forall>ci. walk_inv g budget afs st work ci \<longrightarrow>
    (\<exists>ci'. walked g afs st ci order st' ci' \<and> walk_inv g budget [] st' work' ci' \<and>
      (\<forall>ev :: 'c evaluator. walks_as g ccap budget afs st work ci order (st', work', ci') ev))"
  using assms(1)
proof (induction "walk_size budget afs st work" arbitrary: afs st work rule: less_induct)
  case less
  then obtain c0 where c0: "walk_inv g budget afs st work c0" by blast
  show ?case
  proof (cases afs)
    case Nil
    have "walked g [] st ci [] st ci" if "walk_inv g budget [] st work ci" for ci
      using that by (auto simp: walked_def walk_inv_def done_set_def)
    moreover have "walks_as g ccap budget [] st work ci [] (st, work, ci) ev" for ev :: "'c evaluator" and ci
      by (auto simp: walks_as_def frames_for_def walk_stack.simps walk_out_of_def)
    ultimately show ?thesis unfolding Nil by blast
  next
    case (Cons a afs')
    obtain i r where a: "a = (i, r)" by (cases a)
    note inv = c0 [unfolded Cons a]
    define out where "out = snd (ref_scan g i st (work < budget) r c0)"
    have scan0: "ref_scan g i st (work < budget) r c0 = (fst (ref_scan g i st (work < budget) r c0), out)"
      by (simp add: out_def)
    have scan: "\<exists>c1. ref_scan g i st (work < budget) r c = (c1, out)" for c
      using ref_scan_out [of g i st _ r c c0] by (metis out_def prod.collapse)
    show ?thesis
    proof (cases out)
      case ADone
      note s0 = scan0 [unfolded ADone]
      have ex: "\<exists>c. walk_inv g budget afs' (st[i := ST_DONE]) work c" using round_done(1) [OF inv s0] by blast
      from less.hyps [OF round_done(2) [OF inv s0, folded a, folded Cons] ex]
      show ?thesis using round_done(1,3) walks_done scan unfolding Cons a ADone by meson
    next
      case AAbandon
      note s0 = scan0 [unfolded AAbandon]
      have ex: "\<exists>c. walk_inv g budget afs' (st[i := ST_NEW]) work c" using round_abandon(1) [OF inv s0] by blast
      from less.hyps [OF round_abandon(2) [OF inv s0, folded a, folded Cons] ex]
      show ?thesis using round_abandon(1,3) walks_abandon scan unfolding Cons a AAbandon by meson
    next
      case (APush k ks)
      note s0 = scan0 [unfolded APush]
      have "work \<le> budget + length (cells g)" using c0 by (auto simp: walk_inv_def split: if_splits)
      then have small: "work + 1 < 0x100000000" using assms(3) by simp
      have ex: "\<exists>c. walk_inv g budget ((k, refs g k) # (i, ks) # afs') (st[k := ST_STACK]) (work + 1) c" using round_push(1) [OF inv s0] by blast
      from less.hyps [OF round_push(2) [OF inv s0, folded a, folded Cons] ex]
      show ?thesis using round_push(1,3) walks_push [OF _ _ assms(2) small] scan unfolding Cons a APush by meson
    qed
  qed
qed

section \<open>The pass\<close>

text \<open>The walk from a formula that is not done.\<close>

lemma walk_start:
  assumes "walk_inv g budget [] st work ci" "x \<in> formulas g" "st ! x \<noteq> ST_DONE"
  shows "walk_inv g budget [(x, refs g x)] (st[x := ST_STACK]) work ci" "done_set (st[x := ST_STACK]) = done_set st"
proof -
  note w = assms(1) [unfolded walk_inv_def]
  have x: "x < length st" using w assms(2) formulas_less by simp
  then have new: "st ! x = ST_NEW" using w assms(3) by auto
  then show "done_set (st[x := ST_STACK]) = done_set st" using x by (simp add: done_set_update)
  have "new_count (st[x := ST_STACK]) \<le> new_count st" using new_count_take [OF x new, of ST_STACK] by simp
  moreover have "st[x := ST_STACK] ! j = ST_STACK \<longleftrightarrow> j \<in> set (map fst [(x, refs g x)])" if "j < length st" for j
    using w that x by (cases "j = x") auto
  moreover have "st[x := ST_STACK] ! j \<in> {ST_NEW, ST_STACK, ST_DONE}" if "j < length st" for j
    using w that x by (cases "j = x") auto
  ultimately show "walk_inv g budget [(x, refs g x)] (st[x := ST_STACK]) work ci"
    unfolding walk_inv_def using w assms(2) by (intro conjI) (auto split: if_splits)
qed

definition passed :: "i123_sheet \<Rightarrow> nat list \<Rightarrow> nat set \<Rightarrow> circ_t \<Rightarrow> nat list \<Rightarrow> circ_t \<Rightarrow> bool" where
  "passed g xs D ci order ci' \<longleftrightarrow>
     distinct order \<and> set order \<subseteq> formulas g \<and> set order \<inter> D = {} \<and> set xs \<inter> formulas g \<subseteq> D \<union> set order \<and>
     (ci_circ ci \<longrightarrow> ci' = ci) \<and> (circ_ok g ci \<longrightarrow> circ_ok g ci') \<and> (\<not> ci_circ ci' \<longrightarrow> ordered g D order)"

definition pass_out_of :: "circ_t \<Rightarrow> 'c \<times> i123_sheet \<times> (int + unit) \<Rightarrow> 'c \<times> i123_sheet \<times> (int + circ_t)" where
  "pass_out_of ci = (\<lambda>(cx, sh, r). (cx, sh, map_sum id (\<lambda>_. ci) r))"

lemma passed_skip: "passed g xs D ci order ci' \<Longrightarrow> x \<notin> formulas g \<or> x \<in> D \<Longrightarrow> passed g (x # xs) D ci order ci'"
  by (auto simp: passed_def)

lemma passed_walk:
  assumes "walked g [(x, refs g x)] st ci o1 st1 ci1" "passed g xs (done_set st \<union> set o1) ci1 o2 ci2"
  shows "passed g (x # xs) (done_set st) ci (o1 @ o2) ci2"
  using assms unfolding passed_def walked_def
  by (auto simp: ordered_append)

lemma walked_done_set: "walked g afs st ci order st' ci' \<Longrightarrow> length st = length (cells g) \<Longrightarrow> done_set st' = done_set st \<union> set order"
proof -
  assume a: "walked g afs st ci order st' ci'" "length st = length (cells g)"
  then have "set order \<subseteq> {..<length st}" using formulas_less by (auto simp: walked_def)
  moreover have "done_set st \<subseteq> {..<length st}" by (auto simp: done_set_def)
  moreover have "length st' = length st" "\<forall>i < length st. st' ! i = (if i \<in> done_set st \<union> set order then ST_DONE else ST_NEW)"
    using a(1) by (simp_all add: walked_def)
  ultimately show ?thesis unfolding done_set_def [of st'] by (auto split: if_splits)
qed

end
