(* ===== verification/RecalcPasses.thy ===== *)
theory RecalcPasses imports RecalcNatural begin

text \<open>
  A natural-order pass over the whole store, the passes of one recalculation, and the sweeps by rows and columns.
\<close>

section \<open>One pass\<close>

lemma walk_from:
  assumes walks: "walks_as g ccap budget [(x, refs g x)] (st[x := ST_STACK]) work ci order w ev"
    and sh: "sheet_ok sh" "skeleton sh = skeleton g" and x: "x < length (cells sh)"
  shows "walk_stack ev ccap True budget ([new_frame x], st[x := ST_STACK], work, ci, cx, sh) =
    map_option (walk_out_of w) (eval_all ev order cx sh)"
proof -
  have "frames_for g sh [new_frame x] [(x, refs g x)]"
    using new_frame_ok [OF x] skeleton_refs_from [OF sh(2) x] sh by (simp add: frames_for_def)
  then show ?thesis using walks unfolding walks_as_def by blast
qed

lemma pass_step:
  assumes x: "x \<in> formulas g" "st ! x \<noteq> ST_DONE" and o1: "set o1 \<subseteq> formulas g"
    and walks: "walks_as g ccap budget [(x, refs g x)] (st[x := ST_STACK]) work ci o1 (st1, work1, ci1) ev"
    and IH: "\<And>cx sh. sheet_ok sh \<Longrightarrow> skeleton sh = skeleton g \<Longrightarrow>
      pass_from ev ccap True budget xs st1 work1 ci1 cx sh = map_option (pass_out_of ci2) (eval_all ev o2 cx sh)"
    and sh: "sheet_ok sh" "skeleton sh = skeleton g"
  shows "pass_from ev ccap True budget (x # xs) st work ci cx sh = map_option (pass_out_of ci2) (eval_all ev (o1 @ o2) cx sh)"
proof -
  note same = same_skeleton [OF sh(2)]
  have xl: "x < length (cells sh)" "kind (cells sh ! x) = I123_K_FORMULA" using x(1) same by (auto simp: formulas_def)
  have "set o1 \<subseteq> {..<length (cells sh)}" using o1 same(1) by (auto simp: formulas_def)
  then obtain cx1 s1 res where e: "eval_all ev o1 cx sh = Some (cx1, s1, res)" "sheet_ok s1" "skeleton s1 = skeleton sh"
    by (rule eval_all_keeps [OF sh(1), of o1 ev cx])
  show ?thesis
    using walk_from [OF walks sh xl(1), of cx] e x(2) xl(2) IH [OF e(2)] sh(2)
    by (cases res) (simp_all add: eval_all_append walk_out_of_def pass_out_of_def)
qed

lemma walk_inv_Nil: "walk_inv g budget [] st work ci \<longleftrightarrow> walk_inv g budget [] st work ci'"
  by (simp add: walk_inv_def)

lemma pass_ends:
  fixes g :: i123_sheet
  assumes "\<exists>ci. walk_inv g budget [] st work ci" "set xs \<subseteq> {..<length (cells g)}"
    and caps: "length (cells g) \<le> ccap" "budget + length (cells g) + 1 < 0x100000000"
  shows "\<exists>order. \<forall>ci. \<exists>ci'. passed g xs (done_set st) ci order ci' \<and>
    (\<forall>(ev :: 'c evaluator) cx sh. sheet_ok sh \<longrightarrow> skeleton sh = skeleton g \<longrightarrow>
      pass_from ev ccap True budget xs st work ci cx sh = map_option (pass_out_of ci') (eval_all ev order cx sh))"
  using assms(1,2)
proof (induction xs arbitrary: st work)
  case Nil
  show ?case by (intro exI [of _ "[]"] allI) (rule_tac x = ci in exI, simp add: passed_def pass_out_of_def)
next
  case (Cons x xs)
  have inv: "walk_inv g budget [] st work ci" for ci using Cons.prems(1) walk_inv_Nil by blast
  then have len: "length st = length (cells g)" by (simp add: walk_inv_def)
  show ?case
  proof (cases "x \<in> formulas g \<and> st ! x \<noteq> ST_DONE")
    case False
    have D: "x \<notin> formulas g \<or> x \<in> done_set st" using False Cons.prems(2) len by (auto simp: done_set_def)
    have skip: "pass_from ev ccap True budget (x # xs) st work ci cx sh = pass_from ev ccap True budget xs st work ci cx sh"
      if "skeleton sh = skeleton g" for ev :: "'c evaluator" and ci cx sh
      using False same_skeleton [OF that] Cons.prems(2) by (auto simp: formulas_def)
    from Cons.IH [OF Cons.prems(1)] Cons.prems(2) obtain order where "\<forall>ci. \<exists>ci'. passed g xs (done_set st) ci order ci' \<and>
      (\<forall>(ev :: 'c evaluator) cx sh. sheet_ok sh \<longrightarrow> skeleton sh = skeleton g \<longrightarrow>
      pass_from ev ccap True budget xs st work ci cx sh = map_option (pass_out_of ci') (eval_all ev order cx sh))" by auto
    then show ?thesis using passed_skip [OF _ D] skip by (intro exI [of _ order]) metis
  next
    case True
    then have x: "x \<in> formulas g" "st ! x \<noteq> ST_DONE" by blast+
    note start = walk_start [OF inv x]
    have ex: "\<exists>ci. walk_inv g budget [(x, refs g x)] (st[x := ST_STACK]) work ci" using start(1) by blast
    obtain o1 st1 work1 where w1: "\<And>ci. \<exists>ci1. walked g [(x, refs g x)] (st[x := ST_STACK]) ci o1 st1 ci1 \<and>
        walk_inv g budget [] st1 work1 ci1 \<and>
        (\<forall>ev :: 'c evaluator. walks_as g ccap budget [(x, refs g x)] (st[x := ST_STACK]) work ci o1 (st1, work1, ci1) ev)"
      using walk_ends [OF ex caps, where 'c = 'c] start(1) by meson
    then have inv1: "\<exists>ci. walk_inv g budget [] st1 work1 ci" by blast
    obtain ca cb where w0: "walked g [(x, refs g x)] (st[x := ST_STACK]) ca o1 st1 cb" using w1 by blast
    have D1: "done_set st1 = done_set st \<union> set o1" using walked_done_set [OF w0] len start(2) by simp
    have o1: "set o1 \<subseteq> formulas g" using w0 by (simp add: walked_def)
    from Cons.IH [OF inv1] Cons.prems(2) obtain o2 where w2: "\<And>ci. \<exists>ci'. passed g xs (done_set st1) ci o2 ci' \<and>
      (\<forall>(ev :: 'c evaluator) cx sh. sheet_ok sh \<longrightarrow> skeleton sh = skeleton g \<longrightarrow>
      pass_from ev ccap True budget xs st1 work1 ci cx sh = map_option (pass_out_of ci') (eval_all ev o2 cx sh))" by auto
    show ?thesis
    proof (intro exI [of _ "o1 @ o2"] allI)
      fix ci
      obtain ci1 where 1: "walked g [(x, refs g x)] (st[x := ST_STACK]) ci o1 st1 ci1"
        "walks_as g ccap budget [(x, refs g x)] (st[x := ST_STACK]) work ci o1 (st1, work1, ci1) ev" for ev :: "'c evaluator"
        using w1 [of ci] by blast
      obtain ci2 where 2: "passed g xs (done_set st1) ci1 o2 ci2"
        "sheet_ok sh \<Longrightarrow> skeleton sh = skeleton g \<Longrightarrow>
          pass_from ev ccap True budget xs st1 work1 ci1 cx sh = map_option (pass_out_of ci2) (eval_all ev o2 cx sh)" for ev :: "'c evaluator" and cx sh
        using w2 [of ci1] by blast
      have "passed g (x # xs) (done_set st) ci (o1 @ o2) ci2"
        using passed_walk [OF 1(1), of xs o2 ci2] 2(1) start(2) D1 by simp
      then show "\<exists>ci'. passed g (x # xs) (done_set st) ci (o1 @ o2) ci' \<and>
        (\<forall>(ev :: 'c evaluator) cx sh. sheet_ok sh \<longrightarrow> skeleton sh = skeleton g \<longrightarrow>
          pass_from ev ccap True budget (x # xs) st work ci cx sh = map_option (pass_out_of ci') (eval_all ev (o1 @ o2) cx sh))"
        using pass_step [OF x o1 1(2) 2(2)] by blast
    qed
  qed
qed

text \<open>
  A pass evaluates the formulas in an order which depends on the references alone: each formula once, and after its
  precedents unless they form a cycle, which is then reported.
\<close>

definition natural_order :: "i123_sheet \<Rightarrow> nat list \<Rightarrow> bool" where
  "natural_order g order \<longleftrightarrow> distinct order \<and> set order = formulas g \<and> (\<not> circular g \<longrightarrow> ordered g {} order)"

lemma natural_pass_ends:
  fixes g :: i123_sheet
  assumes ok: "sheet_ok g" and cap: "length (cells g) \<le> ccap"
  shows "\<exists>order. natural_order g order \<and> (\<forall>ci. circ_ok g ci \<longrightarrow> (\<exists>ci'. circ_ok g ci' \<and> (ci_circ ci' \<longleftrightarrow> circular g) \<and>
    (ci_circ ci \<longrightarrow> ci' = ci) \<and> (\<forall>(ev :: 'c evaluator) cx sh. sheet_ok sh \<longrightarrow> skeleton sh = skeleton g \<longrightarrow>
      natural_pass ev ccap True ci cx sh = map_option (pass_out_of ci') (eval_all ev order cx sh))))"
proof -
  let ?n = "length (cells g)" and ?st = "replicate (length (cells g)) ST_NEW"
  define budget where "budget = wrap32 (64 * ?n + 1024)"
  have n: "?n \<le> 0x200000" by (rule cells_bound [OF ok])
  then have budget: "budget = 64 * ?n + 1024" by (simp add: budget_def)
  have "walk_inv g budget [] ?st 0 ci" for ci by (auto simp: walk_inv_def budget)
  then have inv: "\<exists>ci. walk_inv g budget [] ?st 0 ci" by blast
  have D: "done_set ?st = {}" by (auto simp: done_set_def)
  have small: "budget + ?n + 1 < 0x100000000" using n budget by simp
  have sub: "set [0..<?n] \<subseteq> {..<?n}" by auto
  obtain order where
    o: "\<And>ci. \<exists>ci'. passed g [0..<?n] {} ci order ci' \<and> (\<forall>(ev :: 'c evaluator) cx sh. sheet_ok sh \<longrightarrow> skeleton sh = skeleton g \<longrightarrow>
      pass_from ev ccap True budget [0..<?n] ?st 0 ci cx sh = map_option (pass_out_of ci') (eval_all ev order cx sh))"
    using pass_ends [OF inv sub cap small, where 'c = 'c] unfolding D by blast
  have quiet: "circ_ok g no_circ" by (simp add: circ_ok_def)
  have cycle: "circular g" if "circ_ok g ci" "ci_circ ci" for ci using that by (auto simp: circ_ok_def circular_def)
  obtain c1 where c1: "passed g [0..<?n] {} no_circ order c1" using o by blast
  have "formulas g \<subseteq> set [0..<?n]" using formulas_less by auto
  then have all: "set order = formulas g" using c1 by (auto simp: passed_def)
  have acyclic: "\<not> circular g" if "ordered g {} order"
    by (rule ordered_not_circular [OF that _ all]) (use c1 in \<open>simp add: passed_def\<close>)
  have "natural_order g order"
    unfolding natural_order_def using c1 all cycle [of c1] quiet by (simp add: passed_def) blast
  moreover have "\<exists>ci'. circ_ok g ci' \<and> (ci_circ ci' \<longleftrightarrow> circular g) \<and> (ci_circ ci \<longrightarrow> ci' = ci) \<and>
      (\<forall>(ev :: 'c evaluator) cx sh. sheet_ok sh \<longrightarrow> skeleton sh = skeleton g \<longrightarrow>
        natural_pass ev ccap True ci cx sh = map_option (pass_out_of ci') (eval_all ev order cx sh))" if ci: "circ_ok g ci" for ci
  proof -
    obtain ci' where p: "passed g [0..<?n] {} ci order ci'" "\<And>(ev :: 'c evaluator) cx sh. sheet_ok sh \<Longrightarrow> skeleton sh = skeleton g \<Longrightarrow>
      pass_from ev ccap True budget [0..<?n] ?st 0 ci cx sh = map_option (pass_out_of ci') (eval_all ev order cx sh)"
      using o by blast
    have "natural_pass ev ccap True ci cx sh = map_option (pass_out_of ci') (eval_all ev order cx sh)"
      if "sheet_ok sh" "skeleton sh = skeleton g" for ev :: "'c evaluator" and cx sh
      using p(2) [OF that] same_skeleton(1) [OF that(2)] by (simp add: natural_pass_def budget_def)
    moreover have "circ_ok g ci'" using p(1) ci by (simp add: passed_def)
    ultimately show ?thesis using p(1) cycle acyclic by (intro exI [of _ ci']) (auto simp: passed_def)
  qed
  ultimately show ?thesis by blast
qed

end
