(* ===== verification/RecalcAll.thy ===== *)
theory RecalcAll imports RecalcPasses begin

text \<open>
  A whole recalculation as the evaluation of one list of cells, in each of the three orders, and the pass counts.
\<close>

section \<open>Sweeps\<close>

definition row_order :: "i123_sheet \<Rightarrow> nat list" where
  "row_order g = filter (\<lambda>i. kind (cells g ! i) = I123_K_FORMULA) [0..<length (cells g)]"

definition column_order :: "i123_sheet \<Rightarrow> nat list" where
  "column_order g = concat (map (\<lambda>x. filter (\<lambda>i. col (cells g ! i) = x \<and> kind (cells g ! i) = I123_K_FORMULA) [0..<length (cells g)])
     [0..<I123_MAX_COLS])"

lemma row_order_all: "distinct (row_order g)" "set (row_order g) = formulas g"
  by (auto simp: row_order_def formulas_def)

lemma column_order_all:
  assumes "sheet_ok g"
  shows "distinct (column_order g)" "set (column_order g) = formulas g"
proof -
  let ?f = "\<lambda>x. filter (\<lambda>i. col (cells g ! i) = x \<and> kind (cells g ! i) = I123_K_FORMULA) [0..<length (cells g)]"
  have "distinct (concat (map ?f [0..<n]))" for n
    by (induction n) auto
  then show "distinct (column_order g)" by (simp add: column_order_def)
  have "col (cells g ! i) < I123_MAX_COLS" if "i < length (cells g)" for i
    using assms that nth_mem [OF that] by (auto simp: sheet_ok_def cell_fits_def)
  then show "set (column_order g) = formulas g" by (auto simp: column_order_def formulas_def)
qed

lemma skeleton_at: "skeleton s = skeleton g \<Longrightarrow> i < length (cells g) \<Longrightarrow>
    col (cells s ! i) = col (cells g ! i) \<and> kind (cells s ! i) = kind (cells g ! i)"
  using same_skeleton(1,2,4) [of s g] by simp

text \<open>A sweep skips by the address and the kind, which no evaluation changes.\<close>

lemma sweep_cells_filter:
  assumes "sheet_ok sh" "skeleton sh = skeleton g" "set is \<subseteq> {..<length (cells g)}"
    and P: "\<And>s i. skeleton s = skeleton g \<Longrightarrow> i < length (cells g) \<Longrightarrow> skip (cells s ! i) \<longleftrightarrow> \<not> P i"
  shows "sweep_cells ev skip is cx sh = eval_all ev (filter P is) cx sh"
  using assms(1-3)
proof (induction "is" arbitrary: cx sh)
  case (Cons i "is")
  have i: "i < length (cells g)" "i < length (cells sh)" using Cons.prems(3) same_skeleton(1) [OF Cons.prems(2)] by simp_all
  obtain cx1 s1 res where e: "eval_store ev cx sh i = Some (cx1, s1, res)" "sheet_ok s1" "skeleton s1 = skeleton sh"
    by (rule eval_store_keeps [OF Cons.prems(1) i(2), of ev cx])
  show ?case
    using P [OF Cons.prems(2) i(1)] Cons.IH [OF Cons.prems(1,2)] Cons.IH [OF e(2)] e Cons.prems(2,3) by (cases res) simp_all
qed simp

lemma sweep_columns_concat:
  assumes "sheet_ok sh" "skeleton sh = skeleton g"
  shows "sweep_columns ev xs cx sh = eval_all ev (concat (map (\<lambda>x.
    filter (\<lambda>i. col (cells g ! i) = x \<and> kind (cells g ! i) = I123_K_FORMULA) [0..<length (cells g)]) xs)) cx sh"
  using assms
proof (induction xs arbitrary: cx sh)
  case (Cons x xs)
  let ?l = "filter (\<lambda>i. col (cells g ! i) = x \<and> kind (cells g ! i) = I123_K_FORMULA) [0..<length (cells g)]"
  note len = same_skeleton(1) [OF Cons.prems(2)]
  have one: "sweep_cells ev (\<lambda>c. col c \<noteq> x \<or> kind c \<noteq> I123_K_FORMULA) [0..<length (cells sh)] cx sh = eval_all ev ?l cx sh"
    unfolding len by (rule sweep_cells_filter [OF Cons.prems], auto, (drule (1) skeleton_at, simp)+)
  have sub: "set ?l \<subseteq> {..<length (cells sh)}" using len by auto
  obtain cx1 s1 res where e: "eval_all ev ?l cx sh = Some (cx1, s1, res)" "sheet_ok s1" "skeleton s1 = skeleton sh"
    by (rule eval_all_keeps [OF Cons.prems(1) sub, of ev cx])
  show ?case
    using one e Cons.IH [OF e(2)] Cons.prems(2) by (cases res) (simp_all add: eval_all_append)
qed simp

definition sweep_order :: "bool \<Rightarrow> i123_sheet \<Rightarrow> nat list" where
  "sweep_order columnwise g = (if columnwise then column_order g else row_order g)"

lemma sweep_order_all: "sheet_ok g \<Longrightarrow> distinct (sweep_order cw g) \<and> set (sweep_order cw g) = formulas g"
  by (simp add: sweep_order_def row_order_all column_order_all)

lemma sweep_pass_order:
  assumes "sheet_ok sh" "skeleton sh = skeleton g"
  shows "sweep_pass ev cw cx sh = eval_all ev (sweep_order cw g) cx sh"
proof (cases cw)
  case True
  then show ?thesis using sweep_columns_concat [OF assms] by (simp add: sweep_pass_def sweep_order_def column_order_def)
next
  case False
  have "sweep_cells ev (\<lambda>c. kind c \<noteq> I123_K_FORMULA) [0..<length (cells g)] cx sh = eval_all ev (row_order g) cx sh"
    unfolding row_order_def by (rule sweep_cells_filter [OF assms], auto, (drule (1) skeleton_at, simp)+)
  then show ?thesis using False same_skeleton(1) [OF assms(2)] by (simp add: sweep_pass_def sweep_order_def)
qed

lemma sweep_passes_order:
  assumes "sheet_ok g" "sheet_ok sh" "skeleton sh = skeleton g"
  shows "sweep_passes ev cw n cx sh = eval_all ev (concat (replicate n (sweep_order cw g))) cx sh"
  using assms(2,3)
proof (induction n arbitrary: cx sh)
  case (Suc n)
  have sub: "set (sweep_order cw g) \<subseteq> {..<length (cells sh)}"
    using sweep_order_all [OF assms(1)] same_skeleton(1) [OF Suc.prems(2)] by (auto simp: formulas_def)
  obtain cx1 s1 res where e: "eval_all ev (sweep_order cw g) cx sh = Some (cx1, s1, res)" "sheet_ok s1" "skeleton s1 = skeleton sh"
    by (rule eval_all_keeps [OF Suc.prems(1) sub, of ev cx])
  show ?case
    using sweep_pass_order [OF Suc.prems, of ev cw cx] e Suc.IH [OF e(2)] Suc.prems(2) by (cases res) (simp_all add: eval_all_append)
qed simp

section \<open>Natural passes\<close>

definition passes_as :: "i123_sheet \<Rightarrow> nat \<Rightarrow> circ_t \<Rightarrow> nat list \<Rightarrow> circ_t \<Rightarrow> 'c evaluator \<Rightarrow> bool" where
  "passes_as g ccap ci order ci' ev \<longleftrightarrow> (\<forall>cx sh. sheet_ok sh \<longrightarrow> skeleton sh = skeleton g \<longrightarrow>
     natural_pass ev ccap True ci cx sh = map_option (pass_out_of ci') (eval_all ev order cx sh))"

lemma natural_passes_order:
  assumes order: "set order = formulas g" and again: "ci_circ ci \<Longrightarrow> passes_as g ccap ci order ci ev"
    and sh: "sheet_ok sh" "skeleton sh = skeleton g"
  shows "natural_passes ev ccap n ci cx sh =
    map_option (pass_out_of ci) (eval_all ev (concat (replicate (if ci_circ ci then n else 0) order)) cx sh)"
  using sh
proof (induction n arbitrary: cx sh)
  case 0
  then show ?case by (simp add: pass_out_of_def)
next
  case (Suc n)
  show ?case
  proof (cases "ci_circ ci")
    case False
    then show ?thesis by (simp add: pass_out_of_def)
  next
    case True
    have sub: "set order \<subseteq> {..<length (cells sh)}"
      using order same_skeleton(1) [OF Suc.prems(2)] by (auto simp: formulas_def)
    obtain cx1 s1 res where e: "eval_all ev order cx sh = Some (cx1, s1, res)" "sheet_ok s1" "skeleton s1 = skeleton sh"
      by (rule eval_all_keeps [OF Suc.prems(1) sub, of ev cx])
    show ?thesis
      using again [OF True] Suc.prems e Suc.IH [OF e(2)] True
      by (cases res) (simp_all add: eval_all_append passes_as_def pass_out_of_def)
  qed
qed

section \<open>The recalculation\<close>

text \<open>The order of one pass, and how many passes are made.\<close>

definition pass_order :: "i123_sheet \<Rightarrow> nat list \<Rightarrow> bool" where
  "pass_order g order \<longleftrightarrow> (if calcorder g = 0 then natural_order g order else order = sweep_order (calcorder g = 1) g)"

definition passes_made :: "i123_sheet \<Rightarrow> nat" where
  "passes_made g = (if calcorder g = 0 \<and> \<not> circular g then 1 else recalc_passes g)"

definition recalc_done :: "bool \<Rightarrow> nat \<times> nat \<Rightarrow> 'c \<times> i123_sheet \<times> (int + unit) \<Rightarrow> 'c \<times> i123_sheet \<times> (int + unit)" where
  "recalc_done c at = (\<lambda>(cx, s, res). (cx, if isl res then s else s\<lparr>circ := c, circ_at := at, calc := False\<rparr>, res))"

definition on_cycle :: "i123_sheet \<Rightarrow> nat \<times> nat \<Rightarrow> bool" where
  "on_cycle g at \<longleftrightarrow> (\<exists>k. (k, k) \<in> (depends g)\<^sup>+ \<and> at = (col (cells g ! k), row (cells g ! k)))"

lemma recalc_finish: "(case map_option (pass_out_of ci) x of
     None \<Rightarrow> None
   | Some (cx1, s1, Inl rc) \<Rightarrow> Some (cx1, s1, Inl rc)
   | Some (cx1, s1, Inr ci) \<Rightarrow> Some (cx1, s1\<lparr>circ := ci_circ ci, circ_at := (ci_col ci, ci_row ci), calc := False\<rparr>, Inr ())) =
   map_option (recalc_done (ci_circ ci) (ci_col ci, ci_row ci)) x"
proof (cases x)
  case (Some r)
  obtain cx1 s1 res where "r = (cx1, s1, res)" by (cases r)
  then show ?thesis using Some by (cases res) (simp_all add: pass_out_of_def recalc_done_def)
qed simp

lemma recalc_passes_pos: "0 < recalc_passes g"
  by (auto simp: recalc_passes_def Let_def unat_gt_0)

lemma recalc_natural:
  fixes g :: i123_sheet
  assumes ok: "sheet_ok g" and cap: "length (cells g) \<le> ccap" and nat_order: "calcorder g = 0"
  shows "\<exists>order at. natural_order g order \<and> (circular g \<longrightarrow> on_cycle g at) \<and> (\<forall>(ev :: 'c evaluator) cx. i123_recalc ev ccap cx g =
    map_option (recalc_done (circular g) at) (eval_all ev (concat (replicate (passes_made g) order)) cx g))"
proof -
  obtain order where o: "natural_order g order" "\<And>ci. circ_ok g ci \<Longrightarrow> \<exists>ci'. circ_ok g ci' \<and> (ci_circ ci' \<longleftrightarrow> circular g) \<and>
    (ci_circ ci \<longrightarrow> ci' = ci) \<and> (\<forall>ev :: 'c evaluator. passes_as g ccap ci order ci' ev)"
    using natural_pass_ends [OF ok cap, where 'c = 'c] unfolding passes_as_def by blast
  have "circ_ok g no_circ" by (simp add: circ_ok_def)
  from o(2) [OF this] obtain ci where c: "circ_ok g ci" "ci_circ ci \<longleftrightarrow> circular g" "\<And>ev :: 'c evaluator. passes_as g ccap no_circ order ci ev"
    by blast
  have again: "passes_as g ccap ci order ci ev" if "ci_circ ci" for ev :: "'c evaluator" using o(2) [OF c(1)] that by auto
  have set_order: "set order = formulas g" using o(1) by (simp add: natural_order_def)
  let ?at = "(ci_col ci, ci_row ci)"
  have "i123_recalc ev ccap cx g = map_option (recalc_done (circular g) ?at) (eval_all ev (concat (replicate (passes_made g) order)) cx g)"
    for ev :: "'c evaluator" and cx
  proof -
    have sub: "set order \<subseteq> {..<length (cells g)}" using set_order by (auto simp: formulas_def)
    obtain cx1 s1 res where e: "eval_all ev order cx g = Some (cx1, s1, res)" "sheet_ok s1" "skeleton s1 = skeleton g"
      by (rule eval_all_keeps [OF ok sub, of ev cx])
    have first: "natural_pass ev ccap True no_circ cx g = Some (pass_out_of ci (cx1, s1, res))"
      using c(3) [of ev] ok e(1) by (simp add: passes_as_def)
    obtain m where m: "recalc_passes g = Suc m" using recalc_passes_pos [of g] gr0_conv_Suc by blast
    have made: "passes_made g = Suc (if ci_circ ci then m else 0)" using c(2) nat_order m by (simp add: passes_made_def)
    have more: "natural_passes ev ccap m ci cx1 s1 =
        map_option (pass_out_of ci) (eval_all ev (concat (replicate (if ci_circ ci then m else 0) order)) cx1 s1)"
      by (rule natural_passes_order [OF set_order _ e(2,3)]) (rule again)
    show ?thesis
    proof (cases res)
      case (Inl rc)
      then show ?thesis using first e(1) cap nat_order made
        by (simp add: i123_recalc_def pass_out_of_def eval_all_append recalc_done_def)
    next
      case (Inr u)
      then have all: "eval_all ev (concat (replicate (passes_made g) order)) cx g =
        eval_all ev (concat (replicate (if ci_circ ci then m else 0) order)) cx1 s1"
        using e(1) by (simp add: made eval_all_append)
      have rec: "i123_recalc ev ccap cx g = (case natural_passes ev ccap m ci cx1 s1 of
        None \<Rightarrow> None
      | Some (cx1, s1, Inl rc) \<Rightarrow> Some (cx1, s1, Inl rc)
      | Some (cx1, s1, Inr ci) \<Rightarrow> Some (cx1, s1\<lparr>circ := ci_circ ci, circ_at := (ci_col ci, ci_row ci), calc := False\<rparr>, Inr ()))"
        using Inr first cap nat_order m by (simp add: i123_recalc_def pass_out_of_def)
      show ?thesis unfolding rec more all c(2) [symmetric] by (rule recalc_finish)
    qed
  qed
  moreover have "circular g \<longrightarrow> on_cycle g ?at" using c(1,2) by (auto simp: circ_ok_def on_cycle_def)
  ultimately show ?thesis using o(1) by blast
qed

lemma recalc_natural_at:
  fixes ev :: "'c evaluator"
  assumes "sheet_ok g" "length (cells g) \<le> ccap" "calcorder g = 0"
  obtains order at where "natural_order g order" "circular g \<longrightarrow> on_cycle g at"
    "i123_recalc ev ccap cx g = map_option (recalc_done (circular g) at) (eval_all ev (concat (replicate (passes_made g) order)) cx g)"
proof -
  from recalc_natural [OF assms, where 'c = 'c] obtain order at where o: "natural_order g order" "circular g \<longrightarrow> on_cycle g at"
    and run: "\<forall>(ev :: 'c evaluator) cx. i123_recalc ev ccap cx g =
      map_option (recalc_done (circular g) at) (eval_all ev (concat (replicate (passes_made g) order)) cx g)"
    by (elim exE conjE)
  show thesis by (rule that [OF o]) (rule run [rule_format])
qed

lemma recalc_sweeps:
  assumes ok: "sheet_ok g" and cap: "length (cells g) \<le> ccap" and sweep: "calcorder g \<noteq> 0"
  shows "i123_recalc ev ccap cx g =
    map_option (recalc_done False (0, 0)) (eval_all ev (concat (replicate (passes_made g) (sweep_order (calcorder g = 1) g))) cx g)"
proof -
  note s = sweep_passes_order [OF ok ok refl, of ev "calcorder g = 1" "recalc_passes g" cx]
  show ?thesis
  proof (cases "eval_all ev (concat (replicate (recalc_passes g) (sweep_order (calcorder g = 1) g))) cx g")
    case None
    then show ?thesis using s cap sweep by (simp add: i123_recalc_def passes_made_def)
  next
    case (Some r)
    then obtain cx1 s1 res where "eval_all ev (concat (replicate (recalc_passes g) (sweep_order (calcorder g = 1) g))) cx g = Some (cx1, s1, res)"
      by (cases r) auto
    then show ?thesis using s cap sweep by (cases res) (simp_all add: i123_recalc_def passes_made_def recalc_done_def)
  qed
qed

text \<open>The indicators are not part of the store.\<close>

lemma sheet_ok_indicators: "sheet_ok (s\<lparr>circ := c, circ_at := at, calc := b\<rparr>) \<longleftrightarrow> sheet_ok s"
  by (simp add: sheet_ok_def pool_ok_def)

lemma skeleton_indicators: "skeleton (s\<lparr>circ := c, circ_at := at, calc := b\<rparr>) = skeleton s"
  by (simp add: skeleton_def cell_code_def)

text \<open>In every order a recalculation evaluates some list of cells.\<close>

lemma recalc_list:
  assumes "sheet_ok g" "length (cells g) \<le> ccap"
  shows "\<exists>evals c at. set evals \<subseteq> {..<length (cells g)} \<and>
    i123_recalc ev ccap cx g = map_option (recalc_done c at) (eval_all ev evals cx g)"
proof (cases "calcorder g = 0")
  case True
  obtain order at where o: "natural_order g order"
    "i123_recalc ev ccap cx g = map_option (recalc_done (circular g) at) (eval_all ev (concat (replicate (passes_made g) order)) cx g)"
    by (rule recalc_natural_at [OF assms True])
  from o(1) have "set (concat (replicate (passes_made g) order)) \<subseteq> {..<length (cells g)}"
    using formulas_less by (auto simp: natural_order_def)
  then show ?thesis using o(2) by (intro exI conjI)
next
  case False
  have sub: "set (concat (replicate (passes_made g) (sweep_order (calcorder g = 1) g))) \<subseteq> {..<length (cells g)}"
    using sweep_order_all [OF assms(1)] formulas_less by auto
  show ?thesis
    by (intro exI [of _ "concat (replicate (passes_made g) (sweep_order (calcorder g = 1) g))"] exI [of _ False] exI [of _ "(0, 0)"] conjI)
      (rule sub, rule recalc_sweeps [OF assms False])
qed

end
