(* ===== verification/RecalcFix.thy ===== *)
theory RecalcFix imports RecalcAll begin

text \<open>
  When a recalculation leaves a formula showing its value: an evaluation in dependency order, for a formula whose value
  depends only on what it refers to.
\<close>

section \<open>What a stored result shows\<close>

definition result_of :: "int + i123_val \<Rightarrow> i123_val option" where
  "result_of out = (case out of Inl rc \<Rightarrow> if rc = I123_E_FORMAT then Some V_ERR else None | Inr v \<Rightarrow> Some v)"

definition shows_value :: "i123_val \<Rightarrow> cell_data \<Rightarrow> bool" where
  "shows_value v d \<longleftrightarrow> (case v of
     V_NUM b \<Rightarrow> d_val d = b \<and> \<not> d_has d
   | V_NA \<Rightarrow> d_val d = NA_BYTES \<and> \<not> d_has d
   | V_STR s \<Rightarrow> if length s > I123_STR_MAX then d_val d = ERR_BYTES \<and> \<not> d_has d else d_has d \<and> d_str d = s
   | _ \<Rightarrow> d_val d = ERR_BYTES \<and> \<not> d_has d)"

lemma cache_spec_done: "cache_spec limit m a v str = (m', Inr u) \<Longrightarrow>
    \<exists>d. m' = m(a \<mapsto> d) \<and> d_val d = v \<and> d_has d = (str \<noteq> None) \<and> (\<forall>s. str = Some s \<longrightarrow> d_str d = s)"
  by (auto simp: cache_spec_def split: option.splits if_splits)

lemma store_result_shows:
  assumes ok: "sheet_ok sh" and i: "i < length (cells sh)" and out: "i123_store_result sh i v = Some (t, Inr u)"
  shows "\<exists>d. sheet_map t = (sheet_map sh)((col (cells sh ! i), row (cells sh ! i)) \<mapsto> d) \<and> shows_value v d"
proof -
  let ?a = "(col (cells sh ! i), row (cells sh ! i))"
  have set_cache: "\<exists>d. sheet_map t = (sheet_map sh)(?a \<mapsto> d) \<and> d_val d = w \<and> d_has d = (str \<noteq> None) \<and> (\<forall>s. str = Some s \<longrightarrow> d_str d = s)"
    if "cache_call sh i w str = Some (t, Inr u)" for w str
    using set_cache_refines [OF ok i, of w str] that cache_spec_done by (auto simp: refines_def)
  have k: "kind (cells sh ! i) = I123_K_FORMULA" using out i by (auto simp: i123_store_result_def as_cache_call Let_def split: if_splits)
  show ?thesis
  proof (cases v)
    case (V_STR s)
    then show ?thesis using out i k set_cache [of ERR_BYTES None] set_cache [of _ "Some s"]
      by (force simp: i123_store_result_def as_cache_call Let_def shows_value_def split: if_splits)
  qed (use out i k set_cache [of _ None] in \<open>force simp: i123_store_result_def as_cache_call Let_def shows_value_def\<close>)+
qed

section \<open>What an evaluation leaves alone\<close>

definition settings :: "i123_sheet \<Rightarrow> i123_sheet" where
  "settings sh = sh\<lparr>cells := [], pool := [], pool_used := 0, pool_live := 0, circ := False, circ_at := (0, 0), calc := False\<rparr>"

lemma settings_store [simp]:
  "settings (sh\<lparr>cells := cs\<rparr>) = settings sh" "settings (sh\<lparr>pool := p\<rparr>) = settings sh"
  "settings (sh\<lparr>pool_used := u\<rparr>) = settings sh" "settings (sh\<lparr>pool_live := l\<rparr>) = settings sh"
  "settings (sh\<lparr>circ := c\<rparr>) = settings sh" "settings (sh\<lparr>circ_at := at\<rparr>) = settings sh" "settings (sh\<lparr>calc := b\<rparr>) = settings sh"
  by (simp_all add: settings_def)

lemma pool_alloc_settings:
  assumes "sheet_ok sh" "pool_alloc sh n = Some (s1, res)"
  shows "settings s1 = settings sh"
proof -
  have "pool_ok sh" using assms(1) by (simp add: sheet_ok_def)
  from pool_compact_ok [OF this] obtain p cs where
    "pool_compact sh = Some (sh\<lparr>pool := p, cells := cs, pool_used := pool_live sh\<rparr>)" by blast
  then show ?thesis using assms(2) by (auto simp: pool_alloc_def pool_take_def split: if_splits)
qed

lemma set_cache_settings:
  assumes "sheet_ok sh" "cache_call sh i v str = Some (t, res)"
  shows "settings t = settings sh"
  using assms(2) pool_alloc_settings [OF assms(1)]
  by (auto simp: cache_call_code set_values_def Let_def split: if_splits option.splits sum.splits)

lemma eval_store_settings:
  assumes "sheet_ok sh" "eval_store ev cx sh i = Some (cx1, t, res)"
  shows "settings t = settings sh"
proof -
  have "settings s = settings sh" if "i123_store_result sh i v = Some (s, r)" for v s r
    using that set_cache_settings [OF assms(1)]
    by (auto simp: i123_store_result_def as_cache_call Let_def split: if_splits i123_val.splits)
  then show ?thesis using assms(2)
    by (auto simp: eval_store_def Let_def split: if_splits sum.splits prod.splits)
qed

section \<open>Formulas that depend on what they refer to\<close>

abbreviation data_at :: "i123_sheet \<Rightarrow> nat \<Rightarrow> cell_data" where
  "data_at sh i \<equiv> data_of (pool sh) (cells sh ! i)"

definition value_of :: "'c evaluator \<Rightarrow> 'c \<Rightarrow> i123_sheet \<Rightarrow> nat \<Rightarrow> int + i123_val" where
  "value_of ev cx sh i = snd (ev cx sh (col (cells sh ! i)) (row (cells sh ! i)) (cell_code sh i))"

definition same_inputs :: "i123_sheet \<Rightarrow> nat \<Rightarrow> i123_sheet \<Rightarrow> i123_sheet \<Rightarrow> bool" where
  "same_inputs g i s t \<longleftrightarrow> (\<forall>j < length (cells g). j \<notin> formulas g \<or> j \<in> set (refs g i) \<longrightarrow> data_at s j = data_at t j)"

definition cell_settled :: "'c evaluator \<Rightarrow> i123_sheet \<Rightarrow> nat \<Rightarrow> bool" where
  "cell_settled ev sh i \<longleftrightarrow> (\<forall>cx. \<exists>v. result_of (value_of ev cx sh i) = Some v \<and> shows_value v (data_at sh i))"

text \<open>The sheets met during a recalculation of \<open>g\<close>.\<close>

definition version_of :: "i123_sheet \<Rightarrow> i123_sheet \<Rightarrow> bool" where
  "version_of g s \<longleftrightarrow> sheet_ok s \<and> skeleton s = skeleton g \<and> settings s = settings g"

text \<open>A formula is local when its value, on the sheets met during a recalculation and whatever the evaluator's own state,
  depends only on the cells that are not formulas and on the formulas that its references name. A formula that addresses a
  cell through a string (@@), through the cell pointer, or draws a random number is not.\<close>

definition local_at :: "i123_sheet \<Rightarrow> 'c evaluator \<Rightarrow> nat \<Rightarrow> bool" where
  "local_at g ev i \<longleftrightarrow> (\<forall>cx cx' s t. version_of g s \<and> version_of g t \<and> same_inputs g i s t \<longrightarrow>
     value_of ev cx s i = value_of ev cx' t i)"

lemma local_atD: "local_at g ev i \<Longrightarrow> version_of g s \<Longrightarrow> version_of g t \<Longrightarrow> same_inputs g i s t \<Longrightarrow>
    value_of ev cx s i = value_of ev cx' t i"
  unfolding local_at_def by blast

lemma key_distinct:
  assumes "sheet_ok sh" "i < length (cells sh)" "j < length (cells sh)" "i \<noteq> j"
  shows "(col (cells sh ! i), row (cells sh ! i)) \<noteq> (col (cells sh ! j), row (cells sh ! j))"
proof -
  have "sorted_wrt key_less (cells sh)" using assms(1) by (simp add: sheet_ok_def)
  then have "key_less (cells sh ! i) (cells sh ! j) \<or> key_less (cells sh ! j) (cells sh ! i)"
    using sorted_wrt_nth_less [of key_less "cells sh" i j] sorted_wrt_nth_less [of key_less "cells sh" j i] assms(2-4)
    by (cases "i < j") simp_all
  then show ?thesis by auto
qed

lemma eval_store_version:
  assumes s: "version_of g s" and x: "x \<in> formulas g" and e: "eval_store ev cx s x = Some (cx1, t, Inr u)"
  shows "version_of g t" "\<exists>v. result_of (value_of ev cx s x) = Some v \<and> shows_value v (data_at t x)"
    "j < length (cells g) \<Longrightarrow> j \<noteq> x \<Longrightarrow> data_at t j = data_at s j"
proof -
  have ok: "sheet_ok s" and sk: "skeleton s = skeleton g" and st: "settings s = settings g" using s by (simp_all add: version_of_def)
  have xl: "x < length (cells s)" using x same_skeleton(1) [OF sk] formulas_less by simp
  obtain cx2 t2 r2 where k: "eval_store ev cx s x = Some (cx2, t2, r2)" "sheet_ok t2" "skeleton t2 = skeleton s"
    by (rule eval_store_keeps [OF ok xl, of ev cx])
  then have t: "sheet_ok t" "skeleton t = skeleton s" using e by simp_all
  then show "version_of g t" using eval_store_settings [OF ok e] sk st by (simp add: version_of_def)
  let ?a = "\<lambda>j. (col (cells s ! j), row (cells s ! j))"
  have same_at: "(col (cells t ! j), row (cells t ! j)) = ?a j" if "j < length (cells s)" for j
    using same_skeleton(1-3) [OF t(2)] that by simp
  obtain c1 out where run: "ev cx s (col (cells s ! x)) (row (cells s ! x)) (cell_code s x) = (c1, out)" by force
  have "\<exists>v. result_of (value_of ev cx s x) = Some v \<and> i123_store_result s x v = Some (t, Inr u)"
    using e by (cases out) (auto simp: eval_store_def value_of_def result_of_def run split: if_splits)
  then obtain v where v: "result_of (value_of ev cx s x) = Some v" "i123_store_result s x v = Some (t, Inr u)" by blast
  obtain d where d: "sheet_map t = (sheet_map s)(?a x \<mapsto> d)" "shows_value v d" using store_result_shows [OF ok xl v(2)] by blast
  have at: "sheet_map t (?a j) = Some (data_at t j)" if "j < length (cells s)" for j
    using map_at_index [OF t(1), of j] same_skeleton(1) [OF t(2)] same_at [OF that] that by simp
  show "\<exists>v. result_of (value_of ev cx s x) = Some v \<and> shows_value v (data_at t x)"
    using v(1) d at [OF xl] by simp
  assume j: "j < length (cells g)" "j \<noteq> x"
  then have jl: "j < length (cells s)" using same_skeleton(1) [OF sk] by simp
  have "sheet_map t (?a j) = sheet_map s (?a j)" unfolding d(1) by (rule fun_upd_other [OF key_distinct [OF ok jl xl j(2)]])
  then show "data_at t j = data_at s j" using at [OF jl] map_at_index [OF ok jl] by simp
qed

text \<open>Each evaluation settles its cell, if that is local, and keeps the local ones before it settled.\<close>

lemma settle_step:
  assumes s: "version_of g s" and e: "eval_store ev cx s x = Some (cx1, t, Inr u)"
    and x: "x \<in> formulas g" "x \<notin> D" "set (refs g x) \<subseteq> D"
    and D: "D \<subseteq> formulas g" "\<forall>i \<in> D. set (refs g i) \<subseteq> D" "\<forall>i \<in> D. local_at g ev i \<longrightarrow> cell_settled ev s i"
  shows "\<forall>i \<in> insert x D. local_at g ev i \<longrightarrow> cell_settled ev t i"
proof (intro ballI impI)
  note v = eval_store_version [OF s x(1) e]
  have inputs: "same_inputs g i s t" if "set (refs g i) \<subseteq> D" for i
    unfolding same_inputs_def
  proof (intro allI impI)
    fix j assume j: "j < length (cells g)" "j \<notin> formulas g \<or> j \<in> set (refs g i)"
    then have "j \<noteq> x" using x(1,2) that by blast
    then show "data_at s j = data_at t j" using v(3) [of j] j(1) by simp
  qed
  fix i assume "i \<in> insert x D" and loc: "local_at g ev i"
  then consider "i = x" | "i \<in> D" "i \<noteq> x" using x(2) by blast
  then show "cell_settled ev t i"
  proof cases
    case 1
    then show ?thesis
      using v(2) local_atD [OF _ s v(1) inputs [OF x(3)], of ev cx] loc by (auto simp: cell_settled_def)
  next
    case 2
    then have i: "i \<in> formulas g" "set (refs g i) \<subseteq> D" using D by auto
    have "value_of ev c t i = value_of ev c s i" for c
      using local_atD [OF loc s v(1) inputs [OF i(2)], of c c] by simp
    then show ?thesis using D(3) loc 2 v(3) [OF formulas_less [OF i(1)] 2(2)] by (simp add: cell_settled_def)
  qed
qed

lemma eval_all_settles:
  "version_of g s \<Longrightarrow> ordered g D xs \<Longrightarrow> distinct xs \<Longrightarrow> set xs \<subseteq> formulas g \<Longrightarrow> set xs \<inter> D = {} \<Longrightarrow>
    D \<subseteq> formulas g \<Longrightarrow> \<forall>i \<in> D. set (refs g i) \<subseteq> D \<Longrightarrow> \<forall>i \<in> D. local_at g ev i \<longrightarrow> cell_settled ev s i \<Longrightarrow>
    eval_all ev xs cx s = Some (cx1, t, Inr u) \<Longrightarrow>
    version_of g t \<and> (\<forall>i \<in> D \<union> set xs. local_at g ev i \<longrightarrow> cell_settled ev t i)"
proof (induction xs arbitrary: D cx s)
  case (Cons x xs)
  obtain cx2 s2 where e: "eval_store ev cx s x = Some (cx2, s2, Inr ())" "eval_all ev xs cx2 s2 = Some (cx1, t, Inr u)"
    using Cons.prems(9) by (auto split: option.splits sum.splits)
  have x: "x \<in> formulas g" "x \<notin> D" "set (refs g x) \<subseteq> D" using Cons.prems by auto
  have "version_of g t \<and> (\<forall>i \<in> insert x D \<union> set xs. local_at g ev i \<longrightarrow> cell_settled ev t i)"
  proof (rule Cons.IH [OF _ _ _ _ _ _ _ _ e(2)])
    show "version_of g s2" by (rule eval_store_version(1) [OF Cons.prems(1) x(1) e(1)])
    show "\<forall>i \<in> insert x D. local_at g ev i \<longrightarrow> cell_settled ev s2 i"
      by (rule settle_step [OF Cons.prems(1) e(1) x Cons.prems(6-8)])
    show "ordered g (insert x D) xs" using Cons.prems(2) by simp
    show "\<forall>i \<in> insert x D. set (refs g i) \<subseteq> insert x D" using Cons.prems(7) x(3) by auto
  qed (use Cons.prems in auto)
  then show ?case by simp
qed simp

end
