(* ===== verification/SheetFresh.thy ===== *)
theory SheetFresh imports SheetOps begin

text \<open>
  Clearing a worksheet: the run-length template of \<open>spec/i123/wk1_format.h\<close> decodes without a refusal and fits the carry
  area, and the cleared sheet is a well-formed empty store.
\<close>

section \<open>Decoding the template\<close>

lemma runs_length: "template_runs t len got = Inr (body, t') \<Longrightarrow> length body = len"
proof (induction t len got rule: template_runs.induct)
  case (1 t len got)
  show ?case
  proof (cases t)
    case Nil
    then show ?thesis using 1(2) by (simp add: template_runs.simps)
  next
    case (Cons cnt t1)
    show ?thesis
    proof (cases t1)
      case Nil
      then show ?thesis using 1(2) Cons by (auto simp: template_runs.simps [of "[cnt]"] split: if_splits)
    next
      case (Cons byte t2)
      then show ?thesis
        using 1(1) [OF \<open>t = cnt # t1\<close> _ Cons] 1(2) \<open>t = cnt # t1\<close>
        by (auto simp: template_runs.simps [of "cnt # byte # t2"] split: if_splits)
    qed
  qed
qed

text \<open>From \<open>got\<close> bytes on, the runs give a body of \<open>len\<close> bytes and leave \<open>t'\<close>.\<close>

definition runs_to :: "u8 list \<Rightarrow> nat \<Rightarrow> nat \<Rightarrow> u8 list \<Rightarrow> bool" where
  "runs_to t len n t' \<longleftrightarrow> (\<forall>got. length got = n \<longrightarrow> (\<exists>body. template_runs t len got = Inr (body, t')))"

lemma runs_to_end: "n = len \<Longrightarrow> runs_to (0 # t) len n t"
  by (simp add: runs_to_def template_runs.simps [of "0 # t"])

lemma runs_to_step: "cnt \<noteq> 0 \<Longrightarrow> n + unat cnt = n' \<Longrightarrow> n' \<le> len \<Longrightarrow> runs_to t len n' t' \<Longrightarrow> runs_to (cnt # byte # t) len n t'"
  by (auto simp: runs_to_def template_runs.simps [of "cnt # byte # t"])

text \<open>A template decodes from a carry of \<open>n\<close> bytes to one of \<open>m\<close>, touching nothing else.\<close>

definition installs :: "u8 list \<Rightarrow> nat \<Rightarrow> nat \<Rightarrow> bool" where
  "installs t n m \<longleftrightarrow> (\<forall>sh. length (carry sh) = n \<longrightarrow>
     (\<exists>cy. install_from t sh = (sh\<lparr>carry := cy, carry_cellpos := m\<rparr>, Inr ()) \<and> length cy = m))"

lemma installs_end: "installs [] n n"
  unfolding installs_def
proof (intro allI impI exI conjI)
  fix sh :: i123_sheet
  assume "length (carry sh) = n"
  then show "install_from [] sh = (sh\<lparr>carry := carry sh, carry_cellpos := n\<rparr>, Inr ())" "length (carry sh) = n"
    by (simp_all add: install_from.simps)
qed

lemma installs_empty:
  assumes k: "n + 4 = k" "k \<le> I123_CARRY_CAP" and rest: "installs t k m"
  shows "installs (a # b # 0 # 0 # t) n m"
  unfolding installs_def
proof (intro allI impI)
  fix sh :: i123_sheet
  assume n: "length (carry sh) = n"
  let ?cy = "carry sh @ [of_nat (rd16 (a # b # 0 # 0 # t) 0 mod 256), of_nat (rd16 (a # b # 0 # 0 # t) 0 div 256), 255, 255]"
  have step: "install_from (a # b # 0 # 0 # t) sh = install_from t (sh\<lparr>carry := ?cy\<rparr>)"
    using k n by (subst install_from.simps) (simp add: rd16_def carry_put_def Let_def)
  have "length (carry (sh\<lparr>carry := ?cy\<rparr>)) = k" using n k by simp
  with rest obtain cy where "install_from t (sh\<lparr>carry := ?cy\<rparr>) = (sh\<lparr>carry := ?cy, carry := cy, carry_cellpos := m\<rparr>, Inr ())"
    "length cy = m"
    unfolding installs_def by blast
  then show "\<exists>cy. install_from (a # b # 0 # 0 # t) sh = (sh\<lparr>carry := cy, carry_cellpos := m\<rparr>, Inr ()) \<and> length cy = m"
    by (intro exI [of _ cy]) (simp add: step)
qed

lemma installs_record:
  assumes len: "unat c + 256 * unat d = len" "len \<noteq> 0" "n + 4 + len = k" and k: "k \<le> I123_CARRY_CAP"
    and runs: "runs_to t len 0 t'" and rest: "installs t' k m"
  shows "installs (a # b # c # d # t) n m"
  unfolding installs_def
proof (intro allI impI)
  fix sh :: i123_sheet
  assume n: "length (carry sh) = n"
  obtain body where body: "template_runs t len [] = Inr (body, t')" using runs by (auto simp: runs_to_def)
  let ?cy = "carry sh @ [of_nat (rd16 (a # b # c # d # t) 0 mod 256), of_nat (rd16 (a # b # c # d # t) 0 div 256),
    of_nat (len mod 256), of_nat (len div 256)] @ body"
  have rd: "rd16 (a # b # c # d # t) 2 = len" using len(1) by (simp add: rd16_def)
  have put: "carry_put sh op' len body = (sh\<lparr>carry := carry sh @ [of_nat (op' mod 256), of_nat (op' div 256),
    of_nat (len mod 256), of_nat (len div 256)] @ body\<rparr>, Inr ())" for op'
    using len(3) k n by (simp add: carry_put_def Let_def)
  have step: "install_from (a # b # c # d # t) sh = install_from t' (sh\<lparr>carry := ?cy\<rparr>)"
  proof -
    have "\<not> length (carry sh) + 4 + len > 4096" using len(3) k n by simp
    then show ?thesis by (subst install_from.simps) (simp add: rd len(2) body put Let_def)
  qed
  have "length ?cy = k" using n len(3) runs_length [OF body] by simp
  then have "length (carry (sh\<lparr>carry := ?cy\<rparr>)) = k" by simp
  with rest obtain cy where "install_from t' (sh\<lparr>carry := ?cy\<rparr>) = (sh\<lparr>carry := ?cy, carry := cy, carry_cellpos := m\<rparr>, Inr ())"
    "length cy = m"
    unfolding installs_def by blast
  then show "\<exists>cy. install_from (a # b # c # d # t) sh = (sh\<lparr>carry := cy, carry_cellpos := m\<rparr>, Inr ()) \<and> length cy = m"
    by (intro exI [of _ cy]) (simp add: step)
qed

lemma template_installs: "installs g_template 0 1326"
  unfolding g_template_def append_Cons append_Nil
  by ((rule installs_empty, (simp; fail)+) | rule installs_end | (rule runs_to_end, simp; fail) |
      (rule runs_to_step, (simp; fail)+) | (rule installs_record, (simp; fail)+))+

section \<open>The cleared sheet\<close>

lemma sheet_reset_ok: "\<exists>t. sheet_reset sh = (t, Inr ()) \<and> cells t = [] \<and> pool_used t = 0 \<and> pool_live t = 0 \<and>
    pool t = pool sh \<and> cap t = cap sh \<and> length (carry t) = 1326 \<and> carry_cellpos t = 1326"
proof -
  obtain s where s: "sheet_reset sh = install_from g_template s" "carry s = []" "cells s = []" "pool_used s = 0" "pool_live s = 0"
    "pool s = pool sh" "cap s = cap sh"
    by (rule that [OF sheet_reset_def]) simp_all
  from template_installs s(2) obtain cy where
    "install_from g_template s = (s\<lparr>carry := cy, carry_cellpos := 1326\<rparr>, Inr ())" "length cy = 1326"
    by (auto simp: installs_def)
  then show ?thesis using s by simp
qed

lemma cleared_ok:
  assumes "length (pool sh) < 0x80000000"
  shows "kept sh (i123_sheet_clear sh)" "sheet_map (i123_sheet_clear sh) = Map.empty"
proof -
  obtain t where t: "sheet_reset sh = (t, Inr ())" "cells t = []" "pool_used t = 0" "pool_live t = 0" "pool t = pool sh" "cap t = cap sh"
    using sheet_reset_ok by blast
  have "sheet_ok t" using assms by (simp add: sheet_ok_def pool_ok_def t)
  then show "kept sh (i123_sheet_clear sh)" "sheet_map (i123_sheet_clear sh) = Map.empty"
    by (simp_all add: i123_sheet_clear_def kept_def sheet_map_def t)
qed

end
