(* ===== verification/SheetProps.thy ===== *)
theory SheetProps imports SheetCache SheetFresh begin

text \<open>
  The properties of the worksheet store: editing histories against the specification on a finite map, the well-formedness
  of every sheet they reach, the compaction of the pool, and when a store of a cell or of a result is refused.
\<close>

section \<open>Editing histories\<close>

datatype sheet_op =
    OpLabel nat nat u8 "u8 list"
  | OpFormula nat nat u8 "u8 list" "u8 list" "u8 list option"
  | OpErase nat nat
  | OpFormat nat nat u8
  | OpResult nat nat "u8 list" bool "u8 list"
  | OpClear

text \<open>One operation of the code; a result is stored where \<open>index_of\<close> finds the cell.\<close>

fun do_op :: "sheet_op \<Rightarrow> i123_sheet \<Rightarrow> (i123_sheet \<times> (int + unit)) option" where
  "do_op (OpLabel c r prefix text) sh = i123_set_label sh c r prefix text"
| "do_op (OpFormula c r fm cache code str) sh = i123_set_formula_raw sh c r fm cache code str"
| "do_op (OpErase c r) sh = Some (i123_erase sh c r, Inr ())"
| "do_op (OpFormat c r fm) sh = i123_set_cell_format sh c r fm"
| "do_op (OpResult c r v has s) sh = (case index_of sh c r of
     None \<Rightarrow> Some (sh, Inl I123_E_ARG) | Some k \<Rightarrow> i123_cell_set_cache sh k v has s)"
| "do_op OpClear sh = Some (i123_sheet_clear sh, Inr ())"

fun spec_op :: "nat \<Rightarrow> nat \<Rightarrow> sheet_op \<Rightarrow> (nat \<times> nat \<rightharpoonup> cell_data) \<Rightarrow> (nat \<times> nat \<rightharpoonup> cell_data) \<times> (int + unit)" where
  "spec_op cc pc (OpLabel c r prefix text) m = label_spec cc pc m c r prefix text"
| "spec_op cc pc (OpFormula c r fm cache code str) m = put_spec cc pc m c r
     (CellData I123_K_FORMULA fm cache code (str \<noteq> None) fm (case str of None \<Rightarrow> [] | Some s \<Rightarrow> s))"
| "spec_op cc pc (OpErase c r) m = (m((c, r) := None), Inr ())"
| "spec_op cc pc (OpFormat c r fm) m = format_spec cc pc m c r fm"
| "spec_op cc pc (OpResult c r v has s) m =
     (if length s > 0xFFFF then (m, Inl I123_E_ARG) else cache_spec pc m (c, r) v (if has then Some s else None))"
| "spec_op cc pc OpClear m = (Map.empty, Inr ())"

text \<open>The operations that take an address unchecked take a column of the sheet.\<close>

fun op_addressed :: "sheet_op \<Rightarrow> bool" where
  "op_addressed (OpErase c r) = (c < I123_MAX_COLS)"
| "op_addressed (OpFormat c r fm) = (c < I123_MAX_COLS)"
| "op_addressed (OpResult c r v has s) = (c < I123_MAX_COLS)"
| "op_addressed _ = True"

primrec do_ops :: "sheet_op list \<Rightarrow> i123_sheet \<Rightarrow> (i123_sheet \<times> (int + unit) list) option" where
  "do_ops [] sh = Some (sh, [])"
| "do_ops (x # xs) sh = (case do_op x sh of None \<Rightarrow> None | Some (t, res) \<Rightarrow>
     (case do_ops xs t of None \<Rightarrow> None | Some (u, out) \<Rightarrow> Some (u, res # out)))"

primrec spec_ops :: "nat \<Rightarrow> nat \<Rightarrow> sheet_op list \<Rightarrow> (nat \<times> nat \<rightharpoonup> cell_data) \<Rightarrow>
    (nat \<times> nat \<rightharpoonup> cell_data) \<times> (int + unit) list" where
  "spec_ops cc pc [] m = (m, [])"
| "spec_ops cc pc (x # xs) m = (let (n, res) = spec_op cc pc x m; (k, out) = spec_ops cc pc xs n in (k, res # out))"

lemma index_of_found: "sheet_ok sh \<Longrightarrow> c < I123_MAX_COLS \<Longrightarrow>
    (case index_of sh c r of None \<Rightarrow> sheet_map sh (c, r) = None
     | Some k \<Rightarrow> k < length (cells sh) \<and> col (cells sh ! k) = c \<and> row (cells sh ! k) = r)"
proof -
  assume ok: "sheet_ok sh" and c: "c < I123_MAX_COLS"
  show ?thesis
  proof (cases rule: locate [OF ok c, of r, case_names found absent])
    case (found ls d rs)
    then show ?thesis by (simp add: index_of_def Let_def)
  next
    case (absent ls rs)
    then have "\<not> (length ls < length (cells sh) \<and> ckey (cells sh ! length ls) = key_of c r)" by (cases rs) auto
    then have "index_of sh c r = None" unfolding index_of_def Let_def absent(2) by (rule if_not_P)
    then show ?thesis using sheet_map_absent(2) [OF absent(1,3,4)] by simp
  qed
qed

lemma do_op_refines:
  assumes ok: "sheet_ok sh" and a: "op_addressed x"
  shows "refines sh (do_op x sh) (spec_op (cap sh) (length (pool sh)) x (sheet_map sh))"
proof (cases x)
  case (OpLabel c r prefix lbl)
  then show ?thesis using set_label_refines [OF ok] by simp
next
  case (OpFormula c r fm cache code str)
  then show ?thesis using set_formula_refines [OF ok] by simp
next
  case (OpErase c r)
  then show ?thesis using erase_refines [OF ok] a by (auto simp: refines_def)
next
  case (OpFormat c r fm)
  then show ?thesis using set_format_refines [OF ok] a by simp
next
  case (OpResult c r v has s)
  then have c: "c < I123_MAX_COLS" using a by simp
  show ?thesis
  proof (cases "index_of sh c r")
    case None
    then show ?thesis using index_of_found [OF ok c, of r] kept_refl [OF ok] OpResult
      by (auto simp: cache_spec_def intro: refinesI)
  next
    case (Some k)
    show ?thesis
    proof (cases "length s > 0xFFFF")
      case True
      then show ?thesis using Some OpResult index_of_found [OF ok c, of r] kept_refl [OF ok]
        by (auto simp: i123_cell_set_cache_def Let_def intro: refinesI)
    next
      case False
      then have "i123_cell_set_cache sh k v has s = cache_call sh k v (if has then Some s else None)"
        by (cases has) (simp_all add: as_cache_call)
      then show ?thesis
        using False Some index_of_found [OF ok c, of r] set_cache_refines [OF ok, of k v "if has then Some s else None"] OpResult by simp
    qed
  qed
next
  case OpClear
  then show ?thesis using cleared_ok [of sh] ok by (auto simp: sheet_ok_def pool_ok_def intro: refinesI)
qed

lemma do_ops_refine:
  assumes "sheet_ok sh" "\<forall>x \<in> set xs. op_addressed x"
  shows "\<exists>t out. do_ops xs sh = Some (t, out) \<and> kept sh t \<and> spec_ops (cap sh) (length (pool sh)) xs (sheet_map sh) = (sheet_map t, out)"
  using assms
proof (induction xs arbitrary: sh)
  case Nil
  then show ?case by (simp add: kept_def)
next
  case (Cons x xs)
  obtain t res where t: "do_op x sh = Some (t, res)" "kept sh t"
    "spec_op (cap sh) (length (pool sh)) x (sheet_map sh) = (sheet_map t, res)"
    using do_op_refines [OF Cons.prems(1), of x] Cons.prems(2) by (auto simp: refines_def)
  then have caps: "sheet_ok t" "cap t = cap sh" "length (pool t) = length (pool sh)" by (simp_all add: kept_def)
  from Cons.IH [OF caps(1)] Cons.prems(2) obtain u out where
    "do_ops xs t = Some (u, out)" "kept t u" "spec_ops (cap sh) (length (pool sh)) xs (sheet_map t) = (sheet_map u, out)"
    by (auto simp: caps)
  then show ?case using t caps by (auto simp: kept_def)
qed

text \<open>A small sheet for the witnesses.\<close>

definition blank_sheet :: "nat \<Rightarrow> nat \<Rightarrow> i123_sheet" where
  "blank_sheet n bytes = \<lparr>cells = [], cap = n, pool = replicate bytes 0, pool_used = 0, pool_live = 0, carry = [], carry_cellpos = 0,
    bof_version = 0, calcmode = 0, calcorder = 0, calccount = 0, split = 0, sync = 0, protec = 0, labelfmt = 0, unformatted = 0,
    win1 = [], colw = [], range = [], range_set = False, hid = [], err_off = 0, circ = False, calc = False, circ_at = (0, 0)\<rparr>"

section \<open>The properties\<close>

text \<open>C9: From a cleared worksheet, any sequence of labels, formulas, results, erasures, reformattings and clearings returns
  and answers exactly as a finite map with a bound on its entries and on its bytes does; afterwards a lookup at any address
  finds exactly what the map holds there, whatever compactions have moved the bytes.\<close>

theorem sheet_history_exact:
  assumes "length (pool sh) < 0x80000000" "\<forall>x \<in> set xs. op_addressed x"
    and "spec_ops (cap sh) (length (pool sh)) xs Map.empty = (m, out)"
  shows "\<exists>t. do_ops xs (i123_sheet_clear sh) = Some (t, out) \<and> sheet_ok t \<and>
    (\<forall>c r. c < I123_MAX_COLS \<longrightarrow> map_option (data_of (pool t)) (i123_find t c r) = m (c, r))"
proof -
  have "sheet_ok (i123_sheet_clear sh)" using cleared_ok [OF assms(1)] by (simp add: kept_def)
  from do_ops_refine [OF this assms(2)] cleared_ok [OF assms(1)] assms(3) show ?thesis
    by (auto simp: kept_def i123_find_exact)
qed

lemma sheet_history_exact_witness:
  "\<exists>t. do_ops [OpLabel 0 0 0x27 [65, 66], OpLabel 1 0 0x27 [67], OpErase 0 0, OpLabel 1 0 0x27 [68, 69, 70]]
      (i123_sheet_clear (blank_sheet 2 6)) = Some (t, [Inr (), Inr (), Inr (), Inr ()]) \<and>
    map_option (data_of (pool t)) (i123_find t 1 0) =
      Some (CellData I123_K_LABEL 0xFF (replicate 8 0) [0x27, 68, 69, 70] False 0 [])"
proof -
  let ?xs = "[OpLabel 0 0 0x27 [65, 66], OpLabel 1 0 0x27 [67], OpErase 0 0, OpLabel 1 0 0x27 [68, 69, 70]]"
  have "spec_ops (cap (blank_sheet 2 6)) (length (pool (blank_sheet 2 6))) ?xs Map.empty =
    ([(1, 0) \<mapsto> CellData I123_K_LABEL 0xFF (replicate 8 0) [0x27, 68, 69, 70] False 0 []], [Inr (), Inr (), Inr (), Inr ()])"
    by (simp add: blank_sheet_def label_spec_def put_spec_def fmt_at_def stored_bytes_def data_size_def fun_upd_twist)
  moreover have "length (pool (blank_sheet 2 6)) < 0x80000000" by (simp add: blank_sheet_def)
  moreover have "\<forall>x \<in> set ?xs. op_addressed x" by simp
  ultimately obtain t where run: "do_ops ?xs (i123_sheet_clear (blank_sheet 2 6)) = Some (t, [Inr (), Inr (), Inr (), Inr ()])"
    and look: "\<forall>c r. c < I123_MAX_COLS \<longrightarrow> map_option (data_of (pool t)) (i123_find t c r) =
      [(1, 0) \<mapsto> CellData I123_K_LABEL 0xFF (replicate 8 0) [0x27, 68, 69, 70] False 0 []] (c, r)"
    using sheet_history_exact by blast
  from look [rule_format, of 1 0] have
    "map_option (data_of (pool t)) (i123_find t 1 0) = Some (CellData I123_K_LABEL 0xFF (replicate 8 0) [0x27, 68, 69, 70] False 0 [])"
    by simp
  with run show ?thesis by blast
qed

text \<open>C34: Every worksheet that a sequence of operations reaches is well-formed: its cells are in strict row-major order, at
  addresses on the sheet and no more than the array holds; the bytes of the cells that own any lie below \<open>pool_used\<close> inside
  the pool, no two cells sharing a byte; and \<open>pool_live\<close> is the number of bytes owned.\<close>

theorem sheet_well_formed:
  assumes "length (pool sh) < 0x80000000" "\<forall>x \<in> set xs. op_addressed x" "do_ops xs (i123_sheet_clear sh) = Some (t, out)"
  shows "sorted_wrt (\<lambda>c d. row c < row d \<or> row c = row d \<and> col c < col d) (cells t) \<and> length (cells t) \<le> cap t \<and>
    (\<forall>c \<in> set (cells t). col c < I123_MAX_COLS \<and> row c < I123_MAX_ROWS) \<and> pool_used t \<le> length (pool t) \<and>
    (\<forall>c \<in> set (cells t). csize c \<noteq> 0 \<longrightarrow> off c + csize c \<le> pool_used t) \<and>
    sorted_wrt (\<lambda>c d. csize c \<noteq> 0 \<longrightarrow> csize d \<noteq> 0 \<longrightarrow> off c + csize c \<le> off d \<or> off d + csize d \<le> off c) (cells t) \<and>
    pool_live t = sum_list (map csize (cells t))"
proof -
  have "sheet_ok (i123_sheet_clear sh)" using cleared_ok [OF assms(1)] by (simp add: kept_def)
  from do_ops_refine [OF this assms(2)] assms(3) have ok: "sheet_ok t" by (auto simp: kept_def)
  then have keys: "sorted_wrt key_less (cells t)" and aparts: "sorted_wrt apart (cells t)"
    by (simp_all add: sheet_ok_def pool_ok_def)
  have "row c < row d \<or> row c = row d \<and> col c < col d" if "c \<in> set (cells t)" "d \<in> set (cells t)" "key_less c d" for c d
  proof -
    have "col c < 256" "col d < 256" using ok that by (auto simp: sheet_ok_def cell_fits_def)
    then have "row c * 256 + col c < row d * 256 + col d" using that(3) by (simp add: key_of_eq)
    then show ?thesis using \<open>col c < 256\<close> \<open>col d < 256\<close> by (cases "row c = row d") auto
  qed
  note row_major = this
  have "sorted_wrt (\<lambda>c d. row c < row d \<or> row c = row d \<and> col c < col d) (cells t)"
    by (rule sorted_wrt_mono_rel [OF _ keys]) (rule row_major)
  moreover have "sorted_wrt (\<lambda>c d. csize c \<noteq> 0 \<longrightarrow> csize d \<noteq> 0 \<longrightarrow> off c + csize c \<le> off d \<or> off d + csize d \<le> off c) (cells t)"
    by (rule sorted_wrt_mono_rel [OF _ aparts]) (auto simp: apart_def)
  ultimately show ?thesis using ok by (auto simp: sheet_ok_def pool_ok_def inside_def cell_fits_def)
qed

lemma sheet_well_formed_witness:
  "\<exists>t out. do_ops [OpLabel 0 0 0x27 [65]] (i123_sheet_clear (blank_sheet 2 6)) = Some (t, out) \<and>
    pool_live t = sum_list (map csize (cells t)) \<and> pool_used t \<le> length (pool t)"
proof -
  have pre: "length (pool (blank_sheet 2 6)) < 0x80000000" by (simp add: blank_sheet_def)
  have addr: "\<forall>x \<in> set [OpLabel 0 0 0x27 [65]]. op_addressed x" by simp
  have "sheet_ok (i123_sheet_clear (blank_sheet 2 6))" using cleared_ok [OF pre] by (simp add: kept_def)
  from do_ops_refine [OF this addr] obtain t out where run: "do_ops [OpLabel 0 0 0x27 [65]] (i123_sheet_clear (blank_sheet 2 6)) = Some (t, out)"
    by blast
  from sheet_well_formed [OF pre addr run] run show ?thesis by blast
qed

text \<open>C35: A compaction of the pool of a well-formed worksheet always ends; it leaves every cell in its place with the same
  contents, and the bytes in use are then exactly the bytes owned by cells.\<close>

theorem pool_compact_exact:
  assumes "sheet_ok sh"
  shows "\<exists>t. pool_compact sh = Some t \<and> sheet_ok t \<and> pool_used t = sum_list (map csize (cells t)) \<and>
    map (\<lambda>c. (col c, row c, data_of (pool t) c)) (cells t) = map (\<lambda>c. (col c, row c, data_of (pool sh) c)) (cells sh)"
proof -
  have "pool_ok sh" using assms by (simp add: sheet_ok_def)
  from pool_compact_ok [OF this] obtain p cs where c: "pool_compact sh = Some (sh\<lparr>pool := p, cells := cs, pool_used := pool_live sh\<rparr>)"
    "map (placeless p) cs = map (placeless (pool sh)) (cells sh)" "pool_ok (sh\<lparr>pool := p, cells := cs, pool_used := pool_live sh\<rparr>)"
    by blast
  have "map (\<lambda>c. (col c, row c, data_of p c)) cs = map (\<lambda>c. (col c, row c, data_of (pool sh) c)) (cells sh)"
    by (rule map_eq_via [OF c(2)]) (drule entry_placeless, simp add: entry_def)
  then show ?thesis using c moved_ok(1) [OF assms c(2,3)] by (auto simp: pool_ok_def)
qed

text \<open>A sheet with a dead byte below a live one, for the witnesses: the cell at B1 owns the bytes 1 and 2.\<close>

abbreviation b1_label :: "nat \<Rightarrow> i123_cell" where
  "b1_label o' \<equiv> \<lparr>col = 1, row = 0, kind = I123_K_LABEL, fmt = 0xFF, has_str = False, str_fmt = 0, clen = 2, slen = 0, off = o',
    cval = replicate 8 0\<rparr>"

definition gap_sheet :: i123_sheet where
  "gap_sheet = (blank_sheet 2 4)\<lparr>cells := [b1_label 1], pool := [9, 0x27, 65, 9], pool_used := 3, pool_live := 2\<rparr>"

lemma gap_sheet_ok: "sheet_ok gap_sheet"
  by (simp add: gap_sheet_def blank_sheet_def sheet_ok_def pool_ok_def inside_def cell_fits_def csize_def)

lemma pool_compact_exact_witness:
  "\<exists>t. pool_compact gap_sheet = Some t \<and> pool_used t = sum_list (map csize (cells t)) \<and>
    map (\<lambda>c. (col c, row c, data_of (pool t) c)) (cells t) =
      [(1, 0, CellData I123_K_LABEL 0xFF (replicate 8 0) [0x27, 65] False 0 [])]"
proof -
  have gap: "map (\<lambda>c. (col c, row c, data_of (pool gap_sheet) c)) (cells gap_sheet) =
      [(1, 0, CellData I123_K_LABEL 0xFF (replicate 8 0) [0x27, 65] False 0 [])]"
    by (simp add: gap_sheet_def blank_sheet_def data_of_def window_def)
  show ?thesis by (rule exE [OF pool_compact_exact [OF gap_sheet_ok, unfolded gap]]) (rule exI, elim conjE, intro conjI; assumption)
qed

text \<open>C36: A call with a valid address and lengths stores the cell exactly when the array has a slot for it and the final
  data - everything else on the sheet and the new bytes - fits the pool: neither the dead bytes of earlier edits nor the old
  contents of the cell itself count against it. A refused call changes no cell.\<close>

theorem put_cell_accepts_exactly:
  assumes "sheet_ok sh" "c < I123_MAX_COLS" "r < I123_MAX_ROWS" "length b1 \<le> 0xFFFF" "length b2 \<le> 0xFFFF"
  shows "\<exists>t res. i123_put_cell sh c r knd fm v b1 hs sf b2 = Some (t, res) \<and> sheet_ok t \<and>
    (res = Inr () \<longleftrightarrow> (sheet_map sh (c, r) \<noteq> None \<or> card (dom (sheet_map sh)) < cap sh) \<and>
       stored_bytes ((sheet_map sh)((c, r) := None)) + length b1 + length b2 \<le> length (pool sh)) \<and>
    (res \<noteq> Inr () \<longrightarrow> res = Inl I123_E_FULL \<and> sheet_map t = sheet_map sh)"
proof -
  obtain t res where "i123_put_cell sh c r knd fm v b1 hs sf b2 = Some (t, res)" "sheet_ok t"
    "put_spec (cap sh) (length (pool sh)) (sheet_map sh) c r (put_data knd fm v b1 hs sf b2) = (sheet_map t, res)"
    using put_cell_refines [OF assms(1), of c r knd fm v b1 hs sf b2] by (auto simp: kept_def)
  then show ?thesis using assms(2-5)
    by (auto simp: put_spec_def not_le not_less add.assoc split: if_splits) (simp_all add: put_data_def)
qed

lemma put_cell_accepts_exactly_witness:
  "\<exists>t. i123_put_cell gap_sheet 1 0 I123_K_LABEL 0xFF None [0x27, 65, 66, 67] False 0 [] = Some (t, Inr ()) \<and> sheet_ok t"
proof -
  have "sheet_map gap_sheet (1, 0) \<noteq> None"
    by (simp add: gap_sheet_def blank_sheet_def sheet_map_def entry_def)
  moreover have "stored_bytes ((sheet_map gap_sheet)((1, 0) := None)) = 0"
    by (simp add: gap_sheet_def blank_sheet_def sheet_map_def entry_def stored_bytes_def)
  ultimately show ?thesis
    using put_cell_accepts_exactly [OF gap_sheet_ok, of 1 0 "[0x27, 65, 66, 67]" "[]" I123_K_LABEL "0xFF" None False 0]
    by (auto simp: gap_sheet_def blank_sheet_def)
qed

text \<open>C37: Storing a formula's result. It is refused, with nothing changed, for an index past the cells, a cell that is not a
  formula, or a length beyond 16 bits. A result without a string always succeeds: the cell keeps its code, gets the value, and
  its old string is dropped and its bytes no longer counted. A result with a string changes the value and the string of that
  cell alone, and is refused exactly when the string is longer than the old one (or there is none) and the pool cannot hold the
  formula's code and the new string beside everything already stored - the old string included, although it is about to be
  dropped.\<close>

theorem set_cache_exact:
  assumes "sheet_ok sh"
  shows "\<exists>t res. i123_cell_set_cache sh idx v has s = Some (t, res) \<and> sheet_ok t \<and>
    (if idx \<ge> length (cells sh) \<or> kind (cells sh ! idx) \<noteq> I123_K_FORMULA \<or> length s > 0xFFFF
     then res = Inl I123_E_ARG \<and> t = sh
     else let c = cells sh ! idx; a = (col c, row c); code = window (pool sh) (off c) (clen c) in
       if \<not> has
       then res = Inr () \<and> pool_live t + slen c = pool_live sh \<and>
         sheet_map t = (sheet_map sh)(a \<mapsto> CellData I123_K_FORMULA (fmt c) v code False (str_fmt c) [])
       else if has_str c \<and> length s \<le> slen c \<or> stored_bytes (sheet_map sh) + length code + length s \<le> length (pool sh)
       then res = Inr () \<and> sheet_map t = (sheet_map sh)(a \<mapsto>
         CellData I123_K_FORMULA (fmt c) v code True (if has_str c then str_fmt c else fmt c) s)
       else res = Inl I123_E_FULL \<and> sheet_map t = sheet_map sh)"
proof (cases "idx \<ge> length (cells sh) \<or> kind (cells sh ! idx) \<noteq> I123_K_FORMULA \<or> length s > 0xFFFF")
  case True
  then show ?thesis using assms by (auto simp: i123_cell_set_cache_def Let_def)
next
  case False
  let ?c = "cells sh ! idx" and ?str = "if has then Some s else None"
  have idx: "idx < length (cells sh)" and k: "kind ?c = I123_K_FORMULA" "length s \<le> 0xFFFF" using False by auto
  obtain ls rs where cs: "cells sh = ls @ ?c # rs" using idx by (metis id_take_nth_drop)
  have m: "sheet_map sh (col ?c, row ?c) = Some (data_of (pool sh) ?c)" by (rule sheet_map_found(2) [OF assms(1) cs refl refl])
  have "inside (length (pool sh)) ?c" using assms(1) idx by (auto simp: sheet_ok_def pool_ok_def intro: inside_mono)
  from code_window(2) [OF this] have slen: "length (window (pool sh) (off ?c + clen ?c) (slen ?c)) = slen ?c" .
  have call: "i123_cell_set_cache sh idx v has s = cache_call sh idx v ?str"
    using k(2) by (cases has) (simp_all add: as_cache_call)
  from set_cache_refines [OF assms(1) idx, of v ?str] obtain t res where t: "i123_cell_set_cache sh idx v has s = Some (t, res)"
    "kept sh t" "cache_spec (length (pool sh)) (sheet_map sh) (col ?c, row ?c) v ?str = (sheet_map t, res)"
    unfolding call by (auto simp: refines_def)
  have live: "pool_live t + slen ?c = pool_live sh" if "\<not> has"
  proof -
    have "live_bytes (cells sh) = live_bytes (ls @ ?c # rs)" by (rule arg_cong [OF cs])
    then have "csize ?c \<le> pool_live sh" using assms by (simp add: sheet_ok_def pool_ok_def)
    moreover have "pool_live sh \<le> length (pool sh)" "length (pool sh) < 0x80000000"
      using assms by (auto simp: sheet_ok_def pool_ok_def)
    ultimately show ?thesis using t(1) that idx k by (auto simp: i123_cell_set_cache_def set_values_def Let_def csize_def)
  qed
  show ?thesis unfolding if_not_P [OF False] using t k slen live unfolding cache_spec_def m
    by (intro exI [of _ t] exI [of _ res]) (auto simp: data_of_def kept_def Let_def split: if_splits)
qed

text \<open>A formula at A1 with a two-byte string result in a pool of eight bytes.\<close>

definition tight_sheet :: i123_sheet where
  "tight_sheet = (blank_sheet 1 8)\<lparr>cells := [\<lparr>col = 0, row = 0, kind = I123_K_FORMULA, fmt = 0, has_str = True, str_fmt = 0,
     clen = 3, slen = 2, off = 0, cval = replicate 8 0\<rparr>], pool_used := 5, pool_live := 5\<rparr>"

theorem set_cache_exact_witness:
  "(\<exists>t. i123_cell_set_cache tight_sheet 0 (replicate 8 1) True [65, 66, 67] = Some (t, Inl I123_E_FULL) \<and>
      sheet_map t = sheet_map tight_sheet) \<and>
   (\<exists>t. i123_cell_set_cache tight_sheet 0 (replicate 8 1) False [] = Some (t, Inr ()) \<and> pool_live t = 3)"
proof -
  have ok: "sheet_ok tight_sheet"
    by (simp add: tight_sheet_def blank_sheet_def sheet_ok_def pool_ok_def inside_def cell_fits_def csize_def)
  have size: "stored_bytes (sheet_map tight_sheet) = 5" using sheet_map_size(1) [OF ok] by (simp add: tight_sheet_def)
  have no: "\<not> (has_str (cells tight_sheet ! 0) \<and> length [65, 66, 67 :: u8] \<le> slen (cells tight_sheet ! 0) \<or>
      5 + length (window (pool tight_sheet) (off (cells tight_sheet ! 0)) (clen (cells tight_sheet ! 0))) + length [65, 66, 67 :: u8]
        \<le> length (pool tight_sheet))"
    by (simp add: tight_sheet_def blank_sheet_def window_def)
  have pre: "\<not> (0 \<ge> length (cells tight_sheet) \<or> kind (cells tight_sheet ! 0) \<noteq> I123_K_FORMULA \<or> length x > 0xFFFF)"
    if "length x \<le> 3" for x :: "u8 list" using that by (simp add: tight_sheet_def)
  have pres: "\<not> (0 \<ge> length (cells tight_sheet) \<or> kind (cells tight_sheet ! 0) \<noteq> I123_K_FORMULA \<or> length [65, 66, 67 :: u8] > 0xFFFF)"
    "\<not> (0 \<ge> length (cells tight_sheet) \<or> kind (cells tight_sheet ! 0) \<noteq> I123_K_FORMULA \<or> length ([] :: u8 list) > 0xFFFF)"
    by (rule pre; simp)+
  have f: "\<not> \<not> True" by simp
  have n: "\<not> False" by simp
  from set_cache_exact [OF ok, of 0 "replicate 8 1" True "[65, 66, 67]"]
  have "\<exists>t. i123_cell_set_cache tight_sheet 0 (replicate 8 1) True [65, 66, 67] = Some (t, Inl I123_E_FULL) \<and>
      sheet_map t = sheet_map tight_sheet"
    unfolding if_not_P [OF pres(1)] Let_def size if_not_P [OF no] if_not_P [OF f] by blast
  moreover from set_cache_exact [OF ok, of 0 "replicate 8 1" False "[]"]
  obtain t where "i123_cell_set_cache tight_sheet 0 (replicate 8 1) False [] = Some (t, Inr ())"
    "pool_live t + slen (cells tight_sheet ! 0) = pool_live tight_sheet"
    unfolding if_not_P [OF pres(2)] Let_def if_P [OF n] by blast
  then have "\<exists>t. i123_cell_set_cache tight_sheet 0 (replicate 8 1) False [] = Some (t, Inr ()) \<and> pool_live t = 3"
    by (intro exI [of _ t]) (simp add: tight_sheet_def)
  ultimately show ?thesis by blast
qed

end
