(* ===== verification/RecalcDemo.thy ===== *)
theory RecalcDemo imports RecalcFix SheetProps begin

text \<open>Two small sheets and a small evaluator, on which the properties of the recalculation are applied.\<close>

section \<open>Sheets\<close>

definition demo_formula :: "nat \<Rightarrow> nat \<Rightarrow> nat \<Rightarrow> i123_cell" where
  "demo_formula c len o' = \<lparr>col = c, row = 0, kind = I123_K_FORMULA, fmt = 0, has_str = False, str_fmt = 0, clen = len, slen = 0,
     off = o', cval = replicate 8 0\<rparr>"

text \<open>A1 refers to B1, and B1 is the integer 5.\<close>

definition chain_sheet :: i123_sheet where
  "chain_sheet = (blank_sheet 2 16)\<lparr>cells := [demo_formula 0 6 0, demo_formula 1 4 6],
     pool := [1, 1, 0, 0, 0, 3, 5, 5, 0, 3, 0, 0, 0, 0, 0, 0], pool_used := 10, pool_live := 10\<rparr>"

text \<open>A1 refers to itself; up to three passes.\<close>

definition loop_sheet :: i123_sheet where
  "loop_sheet = (blank_sheet 1 8)\<lparr>cells := [demo_formula 0 6 0], pool := [1, 0, 0, 0, 0, 3, 0, 0], pool_used := 6, pool_live := 6,
     calccount := 3\<rparr>"

text \<open>A reference has the value of its cell, an integer its own.\<close>

definition copy_ev :: "unit evaluator" where
  "copy_ev cx sh c r code =
     (cx, if code ! 0 = 1
      then (case index_of sh (nat (i123_ref_resolve (rd16 code 1) c True)) (nat (i123_ref_resolve (rd16 code 3) r False)) of
              None \<Rightarrow> Inr V_BLANK | Some k \<Rightarrow> Inr (V_NUM (cval (cells sh ! k))))
      else Inr (V_NUM [code ! 1, code ! 2, 0, 0, 0, 0, 0, 0]))"

lemma demo_sheets_ok: "sheet_ok chain_sheet" "sheet_ok loop_sheet"
  by (simp_all add: chain_sheet_def loop_sheet_def demo_formula_def blank_sheet_def sheet_ok_def pool_ok_def inside_def cell_fits_def csize_def
    apart_def key_of_def)

lemma demo_codes: "cell_code chain_sheet 0 = [1, 1, 0, 0, 0, 3]" "cell_code chain_sheet (Suc 0) = [5, 5, 0, 3]"
  "cell_code loop_sheet 0 = [1, 0, 0, 0, 0, 3]"
  by (simp_all add: cell_code_def chain_sheet_def loop_sheet_def demo_formula_def blank_sheet_def window_def)

lemma demo_cells: "length (cells chain_sheet) = 2" "length (cells loop_sheet) = 1"
  "cells chain_sheet ! 0 = demo_formula 0 6 0" "cells chain_sheet ! Suc 0 = demo_formula 1 4 6" "cells loop_sheet ! 0 = demo_formula 0 6 0"
  by (simp_all add: chain_sheet_def loop_sheet_def)

lemma demo_index: "index_of chain_sheet (Suc 0) 0 = Some (Suc 0)" "index_of loop_sheet 0 0 = Some 0"
  by (simp_all add: index_of_def lower_bound_def lower_from.simps Let_def chain_sheet_def loop_sheet_def demo_formula_def key_of_def)

lemma demo_sizes: "i123_token_size [1, x, y, z, w, 3] 0 = 5" "i123_token_size [5, x, y, 3] 0 = 3"
  by (simp_all add: i123_token_size_def i123_tokens_def)

lemma demo_refs: "refs chain_sheet 0 = [Suc 0]" "refs chain_sheet (Suc 0) = []" "refs loop_sheet 0 = [0]"
  by (simp_all add: refs_from.simps demo_codes demo_sizes token_refs_def demo_cells demo_index i123_ref_resolve_def rd16_def demo_formula_def)

lemma demo_formulas: "formulas chain_sheet = {0, Suc 0}" "formulas loop_sheet = {0}"
  by (auto simp: formulas_def demo_cells less_2_cases_iff demo_formula_def)

lemma demo_circular: "\<not> circular chain_sheet" "circular loop_sheet"
proof -
  show "\<not> circular chain_sheet"
    by (rule ordered_not_circular [of _ "[Suc 0, 0]"]) (auto simp: demo_refs demo_formulas)
  have "(0, 0) \<in> depends loop_sheet" by (simp add: depends_def demo_refs demo_formulas)
  then show "circular loop_sheet" by (auto simp: circular_def)
qed

section \<open>Both formulas are local\<close>

lemma version_at:
  assumes "version_of g s" "i < length (cells g)"
  shows "col (cells s ! i) = col (cells g ! i)" "row (cells s ! i) = row (cells g ! i)" "cell_code s i = cell_code g i"
    "index_of s c r = index_of g c r"
  using assms same_skeleton(1) [of s g] same_skeleton(2,3,5) [of s g i] skeleton_index_of [of s g c r] by (simp_all add: version_of_def)

lemma copy_ev_local: "i \<in> formulas chain_sheet \<Longrightarrow> local_at chain_sheet copy_ev i"
proof -
  assume i: "i \<in> formulas chain_sheet"
  have "value_of copy_ev cx s i = value_of copy_ev cx' t i"
    if v: "version_of chain_sheet s" "version_of chain_sheet t" and same: "same_inputs chain_sheet i s t"
    for cx cx' s t
  proof (cases "i = 0")
    case True
    have "data_at s (Suc 0) = data_at t (Suc 0)" using same True by (simp add: same_inputs_def demo_cells demo_refs)
    then have "cval (cells s ! Suc 0) = cval (cells t ! Suc 0)" by (simp add: data_of_def)
    then show ?thesis using True version_at [OF v(1), of 0] version_at [OF v(2), of 0]
      by (simp add: value_of_def copy_ev_def demo_cells demo_codes demo_index i123_ref_resolve_def rd16_def demo_formula_def)
  next
    case False
    then have "i = Suc 0" using i by (simp add: demo_formulas)
    then show ?thesis using version_at [OF v(1), of "Suc 0"] version_at [OF v(2), of "Suc 0"]
      by (simp add: value_of_def copy_ev_def demo_cells demo_codes)
  qed
  then show ?thesis unfolding local_at_def by blast
qed

section \<open>Evaluations\<close>

lemma singleton_list: "distinct xs \<Longrightarrow> set xs = {x} \<Longrightarrow> xs = [x]"
  by (cases xs; cases "tl xs") auto

lemma loop_again: "eval_store copy_ev () loop_sheet 0 = Some ((), loop_sheet, Inr ())"
  by (simp add: eval_store_def copy_ev_def demo_codes demo_cells demo_index i123_ref_resolve_def rd16_def)
    (simp add: i123_store_result_def i123_cell_set_cache_def set_values_def sub32_def wrap32_def loop_sheet_def demo_formula_def blank_sheet_def)

lemma loop_cycle: "on_cycle loop_sheet at \<Longrightarrow> at = (0, 0)"
proof -
  assume "on_cycle loop_sheet at"
  then obtain k where k: "(k, k) \<in> (depends loop_sheet)\<^sup>+" "at = (col (cells loop_sheet ! k), row (cells loop_sheet ! k))"
    by (auto simp: on_cycle_def)
  from k(1) have "k \<in> formulas loop_sheet" by (auto simp: depends_def dest: tranclD)
  then show ?thesis using k(2) by (simp add: demo_formulas demo_cells demo_formula_def)
qed

definition chain_with :: "u8 list \<Rightarrow> u8 list \<Rightarrow> i123_sheet" where
  "chain_with v w = chain_sheet\<lparr>cells := [(demo_formula 0 6 0)\<lparr>cval := v\<rparr>, (demo_formula 1 4 6)\<lparr>cval := w\<rparr>]\<rparr>"

lemma chain_with_version: "version_of chain_sheet (chain_with v w)"
  by (simp add: version_of_def chain_with_def skeleton_def cell_code_def chain_sheet_def)
    (simp add: blank_sheet_def sheet_ok_def pool_ok_def inside_def cell_fits_def csize_def apart_def key_of_def demo_formula_def)

lemma chain_live: "pool_live chain_sheet = 10" "chain_sheet\<lparr>pool_live := 10, cells := cs\<rparr> = chain_sheet\<lparr>cells := cs\<rparr>"
  by (simp_all add: chain_sheet_def)

lemma chain_evals:
  "eval_store copy_ev () (chain_with v w) 0 = Some ((), chain_with w w, Inr ())"
  "eval_store copy_ev () (chain_with v w) (Suc 0) = Some ((), chain_with v [5, 0, 0, 0, 0, 0, 0, 0], Inr ())"
  using version_at [OF chain_with_version, of 0] version_at [OF chain_with_version, of "Suc 0"]
  by (simp_all add: eval_store_def copy_ev_def demo_codes demo_cells demo_index i123_ref_resolve_def rd16_def demo_formula_def)
    (simp_all add: i123_store_result_def i123_cell_set_cache_def set_values_def sub32_def wrap32_def chain_with_def demo_formula_def chain_live)

lemma chain_recalc: "\<exists>t. i123_recalc copy_ev 2 () chain_sheet = Some ((), t, Inr ())"
proof -
  have start: "chain_sheet = chain_with (replicate 8 0) (replicate 8 0)"
    by (simp add: chain_with_def chain_sheet_def demo_formula_def)
  have all: "set xs \<subseteq> {0, Suc 0} \<Longrightarrow> \<exists>t. eval_all copy_ev xs () (chain_with v w) = Some ((), t, Inr ())" for xs v w
    by (induction xs arbitrary: v w) (auto simp: chain_evals)
  have cap: "length (cells chain_sheet) \<le> 2" and nat_order: "calcorder chain_sheet = 0"
    by (simp_all add: demo_cells) (simp add: chain_sheet_def blank_sheet_def)
  obtain order at where o: "natural_order chain_sheet order" "i123_recalc copy_ev 2 () chain_sheet =
      map_option (recalc_done (circular chain_sheet) at) (eval_all copy_ev (concat (replicate (passes_made chain_sheet) order)) () chain_sheet)"
    by (rule recalc_natural_at [OF demo_sheets_ok(1) cap nat_order])
  have "set (concat (replicate (passes_made chain_sheet) order)) \<subseteq> {0, Suc 0}"
    using o(1) by (auto simp: natural_order_def demo_formulas)
  from all [OF this, of "replicate 8 0" "replicate 8 0"] obtain t where "eval_all copy_ev (concat (replicate (passes_made chain_sheet) order)) () chain_sheet = Some ((), t, Inr ())"
    unfolding start [symmetric] by blast
  then show ?thesis using o(2) by (simp add: recalc_done_def)
qed

end
