(* ===== verification/RecalcProps.thy ===== *)
theory RecalcProps imports RecalcDemo begin

text \<open>
  The properties of the recalculation: the exact sequence of evaluations a recalculation makes, that it always returns, and
  that without a circular reference every formula that is local then shows its value.
\<close>

text \<open>C8: Whatever the evaluator does, a recalculation of a worksheet that fits its work arrays is the evaluation of one
  list of cells, in which every formula stands exactly once, repeated as often as there are passes, and stopped by the first
  refusal. In natural order every formula comes after the formulas it refers to, and one pass is made, unless references form
  a cycle: then the worksheet is marked circular, at a cell that lies on a cycle, and the passes asked for are made. In the
  other orders the list is the store by rows or by columns. A recalculation that is not refused clears the CALC indicator.\<close>

theorem recalc_exact:
  fixes g :: i123_sheet
  assumes "sheet_ok g" "length (cells g) \<le> ccap"
  shows "\<exists>order at. distinct order \<and> set order = formulas g \<and> pass_order g order \<and>
    (calcorder g = 0 \<and> circular g \<longrightarrow> on_cycle g at) \<and>
    (\<forall>(ev :: 'c evaluator) cx. i123_recalc ev ccap cx g =
       map_option (recalc_done (calcorder g = 0 \<and> circular g) at) (eval_all ev (concat (replicate (passes_made g) order)) cx g))"
proof (cases "calcorder g = 0")
  case True
  from recalc_natural [OF assms True, where 'c = 'c] show ?thesis
    by (elim exE conjE) (intro exI conjI; auto simp: True pass_order_def natural_order_def)
next
  case False
  have "i123_recalc ev ccap cx g =
      map_option (recalc_done False (0, 0)) (eval_all ev (concat (replicate (passes_made g) (sweep_order (calcorder g = 1) g))) cx g)"
    for ev :: "'c evaluator" and cx by (rule recalc_sweeps [OF assms False])
  then show ?thesis using False sweep_order_all [OF assms(1)]
    by (intro exI [of _ "sweep_order (calcorder g = 1) g"] exI [of _ "(0, 0)"]) (simp add: pass_order_def)
qed

lemma recalc_exact_witness:
  "\<exists>t. i123_recalc copy_ev 1 () loop_sheet = Some ((), t, Inr ()) \<and> circ t \<and> circ_at t = (0, 0) \<and> \<not> calc t"
proof -
  have cap: "length (cells loop_sheet) \<le> 1" by (simp add: demo_cells)
  obtain order at where o: "distinct order" "set order = formulas loop_sheet" "calcorder loop_sheet = 0 \<and> circular loop_sheet \<longrightarrow> on_cycle loop_sheet at"
    "\<forall>(ev :: unit evaluator) cx. i123_recalc ev 1 cx loop_sheet =
       map_option (recalc_done (calcorder loop_sheet = 0 \<and> circular loop_sheet) at)
         (eval_all ev (concat (replicate (passes_made loop_sheet) order)) cx loop_sheet)"
    using recalc_exact [OF demo_sheets_ok(2) cap, where 'c = unit] by blast
  have nat_order: "calcorder loop_sheet = 0" by (simp add: loop_sheet_def blank_sheet_def)
  have order: "order = [0]" using o(1,2) singleton_list [of order] by (simp add: demo_formulas)
  have on: "at = (0, 0)" using o(3) nat_order demo_circular(2) loop_cycle by blast
  have made: "passes_made loop_sheet = 3" using nat_order demo_circular(2)
    by (simp add: passes_made_def recalc_passes_def loop_sheet_def)
  have "eval_all copy_ev (concat (replicate 3 [0])) () loop_sheet = Some ((), loop_sheet, Inr ())"
    by (simp add: numeral_3_eq_3 loop_again)
  then show ?thesis using o(4) [rule_format, of copy_ev "()"] nat_order demo_circular(2)
    unfolding order on made by (simp add: recalc_done_def)
qed

text \<open>C38: A recalculation returns, for every worksheet, evaluator and size of the work arrays; whether it is refused or not,
  the worksheet stays well-formed and no cell moves or changes its kind or its code.\<close>

theorem recalc_returns:
  assumes "sheet_ok g"
  shows "\<exists>cx' t res. i123_recalc ev ccap cx g = Some (cx', t, res) \<and> sheet_ok t \<and> skeleton t = skeleton g"
proof (cases "length (cells g) \<le> ccap")
  case False
  then show ?thesis using assms by (simp add: i123_recalc_def)
next
  case True
  from recalc_list [OF assms True, of ev cx] obtain evals c at where run: "set evals \<subseteq> {..<length (cells g)}"
    "i123_recalc ev ccap cx g = map_option (recalc_done c at) (eval_all ev evals cx g)"
    by (elim exE conjE)
  obtain cx1 s1 res where "eval_all ev evals cx g = Some (cx1, s1, res)" "sheet_ok s1" "skeleton s1 = skeleton g"
    by (rule eval_all_keeps [OF assms run(1), of ev cx])
  then show ?thesis using run(2) by (simp add: recalc_done_def sheet_ok_indicators skeleton_indicators)
qed

lemma recalc_returns_witness:
  "\<exists>cx' t res. i123_recalc copy_ev 0 () loop_sheet = Some (cx', t, res) \<and> sheet_ok t \<and> skeleton t = skeleton loop_sheet"
  by (rule recalc_returns [OF demo_sheets_ok(2)])

text \<open>C10: After a recalculation in natural order that is not refused, on a worksheet without a circular reference, every
  local formula shows the value that the evaluator gives for it on the recalculated worksheet - a string too long to store and
  a format error showing as ERR. A formula is local when its value depends only on the cells that are not formulas and on the
  formulas its references name; the evaluator is an argument, and nothing is assumed of it on the other formulas. Nothing is
  claimed of those: a formula with @@ can be evaluated before the formula its string names, and is then stale. The CIRC and
  CALC indicators are off afterwards.\<close>

theorem recalc_consistent:
  assumes "sheet_ok g" "length (cells g) \<le> ccap" "calcorder g = 0" "\<not> circular g"
    and "i123_recalc ev ccap cx g = Some (cx', t, Inr ())"
  shows "\<not> circ t \<and> \<not> calc t \<and> formulas t = formulas g \<and> (\<forall>i \<in> formulas t. local_at g ev i \<longrightarrow> (\<exists>v.
    result_of (snd (ev cx' t (col (cells t ! i)) (row (cells t ! i)) (cell_code t i))) = Some v \<and>
    shows_value v (data_of (pool t) (cells t ! i))))"
proof -
  obtain order at where o: "natural_order g order"
    "i123_recalc ev ccap cx g = map_option (recalc_done (circular g) at) (eval_all ev (concat (replicate (passes_made g) order)) cx g)"
    by (rule recalc_natural_at [OF assms(1-3)])
  have "passes_made g = 1" using assms(3,4) by (simp add: passes_made_def)
  then have "map_option (recalc_done False at) (eval_all ev order cx g) = Some (cx', t, Inr ())"
    using o(2) assms(4,5) by simp
  then obtain s where s: "eval_all ev order cx g = Some (cx', s, Inr ())" "t = s\<lparr>circ := False, circ_at := at, calc := False\<rparr>"
    by (auto simp: recalc_done_def split: if_splits)
  have "version_of g s \<and> (\<forall>i \<in> {} \<union> set order. local_at g ev i \<longrightarrow> cell_settled ev s i)"
    by (rule eval_all_settles [OF _ _ _ _ _ _ _ _ s(1)])
      (use o(1) assms(1,4) in \<open>auto simp: natural_order_def version_of_def\<close>)
  then have v: "version_of g s" "\<forall>i \<in> formulas g. local_at g ev i \<longrightarrow> cell_settled ev s i" using o(1) by (simp_all add: natural_order_def)
  have vt: "version_of g t" using v(1) unfolding s(2) by (simp add: version_of_def sheet_ok_indicators skeleton_indicators)
  then have fs: "formulas t = formulas g" unfolding version_of_def by (elim conjE) (rule skeleton_formulas)
  have "\<exists>v. result_of (value_of ev cx' t i) = Some v \<and> shows_value v (data_at t i)" if i: "i \<in> formulas g" "local_at g ev i" for i
  proof -
    have "value_of ev cx' t i = value_of ev cx' s i"
      by (rule local_atD [OF i(2) vt v(1)]) (simp add: same_inputs_def s(2))
    then show ?thesis using v(2) i by (simp add: cell_settled_def s(2))
  qed
  then show ?thesis by (simp add: s(2) [symmetric] fs value_of_def [symmetric]) (simp add: s(2))
qed

lemma recalc_consistent_witness:
  "\<exists>t. i123_recalc copy_ev 2 () chain_sheet = Some ((), t, Inr ()) \<and> \<not> circ t \<and>
    (\<forall>i \<in> formulas t. \<exists>v. result_of (snd (copy_ev () t (col (cells t ! i)) (row (cells t ! i)) (cell_code t i))) = Some v \<and>
      shows_value v (data_of (pool t) (cells t ! i)))"
proof -
  have cap: "length (cells chain_sheet) \<le> 2" by (simp add: demo_cells)
  have nat_order: "calcorder chain_sheet = 0" by (simp add: chain_sheet_def blank_sheet_def)
  obtain t where "i123_recalc copy_ev 2 () chain_sheet = Some ((), t, Inr ())" using chain_recalc by blast
  from recalc_consistent [OF demo_sheets_ok(1) cap nat_order demo_circular(1) this] this copy_ev_local show ?thesis by blast
qed

end
