(* ===== verification/Window.thy ===== *)
theory Window imports Region begin

text \<open>
  The window manager of FLAIR (\<open>os/flair/window.c\<close>): the list of windows from front to back, their structure, content and
  update regions, the visible part of a window, the damage an operation leaves, and the active window.

  \<^item> Every region the manager touches has a slot, and the store \<open>rgn\<close> maps slots to regions of the region engine, so an
    operation whose output is one of its inputs is the engine's aliased call. The caller's region of \<open>ComputeVisible\<close> is
    the slot \<open>Caller\<close>.
  \<^item> A window is a number; \<open>front\<close> is the chain of \<open>nextWindow\<close> from the front. \<open>None\<close> is \<open>WIN_PANIC\<close> or a trap of the
    engine. Null and unattached pointers have no counterpart.
  \<^item> Coordinates are \<open>int\<close>, and \<open>i16\<close> is the conversion to \<open>int16_t\<close>.
\<close>

section \<open>Data\<close>

definition i16 :: "int \<Rightarrow> int" where
  "i16 x = (x + 0x8000) mod 0x10000 - 0x8000"

datatype slot = Struc nat | Cont nat | Update nat | Desk | Overlay | Caller | ScrA | ScrB | ScrC

record window_rec =
  windowKind :: int
  windowDefProcVariant :: int
  visible :: bool
  hilited :: bool
  goAwayFlag :: bool
  widgetFlags :: u8
  zoomed :: bool
  collapsed :: bool
  userStateValid :: bool
  userState :: rgn_rect
  collapseState :: rgn_rect
  titleHandle :: "u8 list"
  titleWidth :: int

record scroll_axis =
  content_len :: int
  axis_value :: int
  axis_max :: int
  axis_line :: int
  axis_page :: int
  axis_hilite :: int
  drag_pos :: int

record window_scroll =
  scroll_owner :: nat
  axis_v :: scroll_axis
  axis_h :: scroll_axis

record window_mgr =
  front :: "nat list"
  wins :: "nat \<Rightarrow> window_rec"
  rgn :: "slot \<Rightarrow> region"
  desktop_frame :: rgn_rect
  has_overlay :: bool
  scrolls :: "window_scroll list"
  engine :: rgn_ws

abbreviation (input) INT16_MAX :: int where "INT16_MAX \<equiv> 32767"
abbreviation (input) documentProc :: int where "documentProc \<equiv> 0"
abbreviation (input) noGrowDocProc :: int where "noGrowDocProc \<equiv> 4"
abbreviation (input) zoomDocProc :: int where "zoomDocProc \<equiv> 8"
abbreviation (input) zoomNoGrow :: int where "zoomNoGrow \<equiv> 12"
abbreviation (input) rDocProc :: int where "rDocProc \<equiv> 16"
abbreviation (input) WIDGET_CLOSE :: u8 where "WIDGET_CLOSE \<equiv> 1"
abbreviation (input) WIDGET_ZOOM :: u8 where "WIDGET_ZOOM \<equiv> 2"
abbreviation (input) WIDGET_COLLAPSE :: u8 where "WIDGET_COLLAPSE \<equiv> 4"
abbreviation (input) WIDGET_GROW :: u8 where "WIDGET_GROW \<equiv> 8"
abbreviation (input) TITLEBAR_H :: int where "TITLEBAR_H \<equiv> 22"
abbreviation (input) FRAME :: int where "FRAME \<equiv> 1"
abbreviation (input) BODY_BAR :: int where "BODY_BAR \<equiv> 4"
abbreviation (input) SHADOW_OFFSET :: int where "SHADOW_OFFSET \<equiv> 1"
abbreviation (input) SHADOW_NOTCH :: int where "SHADOW_NOTCH \<equiv> 2"
abbreviation (input) SCROLLBAR_W :: int where "SCROLLBAR_W \<equiv> 16"

abbreviation mk_rect :: "int \<Rightarrow> int \<Rightarrow> int \<Rightarrow> int \<Rightarrow> rgn_rect" where
  "mk_rect t l b r \<equiv> \<lparr>rtop = t, rleft = l, rbottom = b, rright = r\<rparr>"

section \<open>Regions in slots\<close>

definition rop :: "window_mgr \<Rightarrow> slot \<Rightarrow> slot \<Rightarrow> slot \<Rightarrow> rgn_op \<Rightarrow> window_mgr option" where
  "rop wm out a b op = do {
     (e, r) \<leftarrow> region_op (engine wm) (out = a \<or> out = b) (rgn wm out) (rgn wm a) (rgn wm b) op;
     Some (wm\<lparr>engine := e, rgn := (rgn wm)(out := r)\<rparr>) }"

definition set_rgn :: "window_mgr \<Rightarrow> slot \<Rightarrow> rgn_rect \<Rightarrow> window_mgr option" where
  "set_rgn wm s rect = do { r \<leftarrow> region_set_rect (rgn wm s) rect; Some (wm\<lparr>rgn := (rgn wm)(s := r)\<rparr>) }"

definition clear_rgn :: "window_mgr \<Rightarrow> slot \<Rightarrow> window_mgr" where
  "clear_rgn wm s = wm\<lparr>rgn := (rgn wm)(s := region_set_empty (rgn wm s))\<rparr>"

definition rgn_copy :: "window_mgr \<Rightarrow> slot \<Rightarrow> slot \<Rightarrow> window_mgr option" where
  "rgn_copy wm dst src = rop wm dst src src RGN_OP_UNION"

definition rgn_accumulate :: "window_mgr \<Rightarrow> slot \<Rightarrow> slot \<Rightarrow> rgn_op \<Rightarrow> slot \<Rightarrow> window_mgr option" where
  "rgn_accumulate wm dst oth op scratch = do { wm1 \<leftarrow> rop wm scratch dst oth op; rgn_copy wm1 dst scratch }"

definition set_win :: "window_mgr \<Rightarrow> nat \<Rightarrow> (window_rec \<Rightarrow> window_rec) \<Rightarrow> window_mgr" where
  "set_win wm w f = wm\<lparr>wins := (wins wm)(w := f (wins wm w))\<rparr>"

section \<open>Structure and content\<close>

definition document_variant :: "int \<Rightarrow> bool" where
  "document_variant variant \<longleftrightarrow> variant = documentProc \<or> variant = noGrowDocProc \<or> variant = zoomDocProc \<or> variant = zoomNoGrow"

definition widget_flags_for_variant :: "int \<Rightarrow> bool \<Rightarrow> u8" where
  "widget_flags_for_variant variant go_away =
     (if go_away \<and> (document_variant variant \<or> variant = rDocProc) then WIDGET_CLOSE else 0) OR
     (if variant = zoomDocProc \<or> variant = zoomNoGrow then WIDGET_ZOOM else 0) OR
     (if document_variant variant then WIDGET_COLLAPSE else 0) OR
     (if variant = documentProc \<or> variant = zoomDocProc then WIDGET_GROW else 0)"

text \<open>The two rectangles cut from a row of the rounded outline, for the five rows at the top and at the bottom.\<close>

definition corner_rects :: "rgn_rect \<Rightarrow> (rgn_rect \<times> rgn_rect) list" where
  "corner_rects fr = concat (map (\<lambda>(k, n). map (\<lambda>y.
       (mk_rect y (rleft fr) (i16 (y + 1)) (i16 (rleft fr + n)), mk_rect y (i16 (rright fr - n)) (i16 (y + 1)) (rright fr)))
     [i16 (rtop fr + k), i16 (rbottom fr - 1 - k)]) [(0, 5), (1, 3), (2, 2), (3, 1), (4, 1)])"

primrec cut_corners :: "(rgn_rect \<times> rgn_rect) list \<Rightarrow> window_mgr \<Rightarrow> window_mgr option" where
  "cut_corners [] wm = Some wm"
| "cut_corners (lr # rest) wm = do {
     wm1 \<leftarrow> set_rgn wm ScrB (fst lr);
     wm2 \<leftarrow> rop wm1 ScrC ScrA ScrB RGN_OP_DIFF;
     wm3 \<leftarrow> set_rgn wm2 ScrB (snd lr);
     wm4 \<leftarrow> rop wm3 ScrA ScrC ScrB RGN_OP_DIFF;
     cut_corners rest wm4 }"

text \<open>The structure of a window with frame \<open>fr\<close>, left in \<open>ScrA\<close>.\<close>

definition structure_scratch :: "window_mgr \<Rightarrow> rgn_rect \<Rightarrow> int \<Rightarrow> window_mgr option" where
  "structure_scratch wm fr variant = do {
     wm1 \<leftarrow> set_rgn wm ScrA fr;
     (if variant = rDocProc then cut_corners (corner_rects fr) wm1
      else if document_variant variant then
        (if rright fr = INT16_MAX \<or> rbottom fr = INT16_MAX then None
         else do {
           wm2 \<leftarrow> set_rgn wm1 ScrB (mk_rect (i16 (rtop fr + SHADOW_NOTCH)) (rright fr) (i16 (rbottom fr + SHADOW_OFFSET)) (i16 (rright fr + SHADOW_OFFSET)));
           wm3 \<leftarrow> rop wm2 ScrC ScrA ScrB RGN_OP_UNION;
           wm4 \<leftarrow> set_rgn wm3 ScrB (mk_rect (rbottom fr) (i16 (rleft fr + SHADOW_NOTCH)) (i16 (rbottom fr + SHADOW_OFFSET)) (i16 (rright fr + SHADOW_OFFSET)));
           rop wm4 ScrA ScrC ScrB RGN_OP_UNION })
      else Some wm1) }"

definition WindowFrameRect :: "window_mgr \<Rightarrow> nat \<Rightarrow> rgn_rect" where
  "WindowFrameRect wm w =
     (let fr = region_get_bbox (rgn wm (Struc w)) in
      if document_variant (windowDefProcVariant (wins wm w)) \<and> \<not> region_is_empty (rgn wm (Struc w))
      then fr\<lparr>rright := i16 (rright fr - SHADOW_OFFSET), rbottom := i16 (rbottom fr - SHADOW_OFFSET)\<rparr> else fr)"

definition CalcDocContentRect :: "rgn_rect \<Rightarrow> rgn_rect" where
  "CalcDocContentRect fr =
     (let t = i16 (rtop fr + TITLEBAR_H); l = i16 (rleft fr + FRAME + BODY_BAR + FRAME);
          b = i16 (rbottom fr - FRAME - BODY_BAR - SCROLLBAR_W)
      in mk_rect t l (if b < t then t else b) (i16 (rright fr - FRAME - BODY_BAR - SCROLLBAR_W)))"

definition CalcRDocContentRect :: "rgn_rect \<Rightarrow> rgn_rect" where
  "CalcRDocContentRect fr = mk_rect (i16 (rtop fr + 19)) (i16 (rleft fr + 1)) (i16 (rbottom fr - 3)) (i16 (rright fr - 3))"

text \<open>The notches of a rounded content: row and width for the left and for the right side.\<close>

definition notch_rects :: "rgn_rect \<Rightarrow> rgn_rect list" where
  "notch_rects c = concat (map (\<lambda>(k, nl, nr).
     let y = (if k < 2 then i16 (rtop c + k) else i16 (rbottom c - 5 + k)) in
     (if nl > 0 then [mk_rect y (rleft c) (i16 (y + 1)) (i16 (rleft c + nl))] else []) @
     (if nr > 0 then [mk_rect y (i16 (rright c - nr)) (i16 (y + 1)) (rright c)] else []))
     [(0, 2, 2), (1, 1, 1), (2, 1, 0), (3, 1, 1), (4, 2, 2)])"

primrec cut_notches :: "nat \<Rightarrow> rgn_rect list \<Rightarrow> window_mgr \<Rightarrow> window_mgr option" where
  "cut_notches w [] wm = Some wm"
| "cut_notches w (r # rs) wm = do {
     wm1 \<leftarrow> set_rgn wm ScrB r;
     wm2 \<leftarrow> rop wm1 ScrC (Cont w) ScrB RGN_OP_DIFF;
     wm3 \<leftarrow> rgn_copy wm2 (Cont w) ScrC;
     cut_notches w rs wm3 }"

definition set_content :: "window_mgr \<Rightarrow> nat \<Rightarrow> rgn_rect \<Rightarrow> window_mgr option" where
  "set_content wm w content = do {
     wm1 \<leftarrow> set_rgn wm (Cont w) content;
     (if windowDefProcVariant (wins wm1 w) \<noteq> rDocProc then Some wm1 else cut_notches w (notch_rects content) wm1) }"

section \<open>Visibility\<close>

primrec union_fronts :: "slot \<Rightarrow> slot \<Rightarrow> nat list \<Rightarrow> window_mgr \<Rightarrow> window_mgr option" where
  "union_fronts out sc [] wm = Some wm"
| "union_fronts out sc (f # fs) wm =
     (if \<not> visible (wins wm f) then union_fronts out sc fs wm
      else do { wm1 \<leftarrow> rgn_accumulate wm out (Struc f) RGN_OP_UNION sc; union_fronts out sc fs wm1 })"

definition fronts_union :: "window_mgr \<Rightarrow> nat \<Rightarrow> slot \<Rightarrow> window_mgr option" where
  "fronts_union wm w out =
     (let sc = (if out = ScrC then ScrB else ScrC) in do {
        wm1 \<leftarrow> union_fronts out sc (takeWhile (\<lambda>f. f \<noteq> w) (front wm)) (clear_rgn wm out);
        (if has_overlay wm1 \<and> \<not> region_is_empty (rgn wm1 Overlay) then rgn_accumulate wm1 out Overlay RGN_OP_UNION sc
         else Some wm1) })"

definition visible_into :: "window_mgr \<Rightarrow> nat \<Rightarrow> slot \<Rightarrow> bool \<Rightarrow> window_mgr option" where
  "visible_into wm w out clip_to_frame = do {
     wm1 \<leftarrow> fronts_union wm w ScrA;
     (if \<not> clip_to_frame then rop wm1 out (Struc w) ScrA RGN_OP_DIFF
      else do {
        wm2 \<leftarrow> rop wm1 ScrB (Struc w) ScrA RGN_OP_DIFF;
        wm3 \<leftarrow> set_rgn wm2 ScrC (desktop_frame wm2);
        rop wm3 out ScrB ScrC RGN_OP_INTERSECT }) }"

definition ComputeVisible :: "window_mgr \<Rightarrow> nat \<Rightarrow> window_mgr option" where
  "ComputeVisible wm w =
     (if \<not> visible (wins wm w) then Some (clear_rgn wm Caller) else visible_into wm w Caller False)"

definition list_contains :: "window_mgr \<Rightarrow> nat \<Rightarrow> bool" where
  "list_contains wm w \<longleftrightarrow> w \<in> set (front wm)"

definition WindowMgr_clip_update_to_visible :: "window_mgr \<Rightarrow> nat \<Rightarrow> window_mgr option" where
  "WindowMgr_clip_update_to_visible wm w =
     (if \<not> list_contains wm w then None
      else if \<not> visible (wins wm w) then Some (clear_rgn wm (Update w))
      else do {
        wm1 \<leftarrow> fronts_union wm w ScrA;
        wm2 \<leftarrow> rop wm1 ScrB (Struc w) ScrA RGN_OP_DIFF;
        wm3 \<leftarrow> rop wm2 ScrC (Update w) ScrB RGN_OP_INTERSECT;
        wm4 \<leftarrow> rgn_copy wm3 (Update w) ScrC;
        wm5 \<leftarrow> rop wm4 ScrA (Update w) ScrB RGN_OP_DIFF;
        (if \<not> region_is_empty (rgn wm5 ScrA) then None else Some wm5) })"

section \<open>The list\<close>

definition WindowMgr_window_index :: "window_mgr \<Rightarrow> nat \<Rightarrow> int" where
  "WindowMgr_window_index wm w =
     (let n = length (takeWhile (\<lambda>p. p \<noteq> w) (front wm)) in if n < length (front wm) then int n else -1)"

definition list_unlink :: "window_mgr \<Rightarrow> nat \<Rightarrow> window_mgr option" where
  "list_unlink wm w = (if w \<in> set (front wm) then Some (wm\<lparr>front := remove1 w (front wm)\<rparr>) else None)"

definition list_push_front :: "window_mgr \<Rightarrow> nat \<Rightarrow> window_mgr" where
  "list_push_front wm w = wm\<lparr>front := w # front wm\<rparr>"

definition WindowMgr_invalidate :: "window_mgr \<Rightarrow> nat \<Rightarrow> rgn_rect \<Rightarrow> window_mgr option" where
  "WindowMgr_invalidate wm w rect =
     (if \<not> list_contains wm w then None
      else if \<not> visible (wins wm w) then Some wm
      else do {
        wm1 \<leftarrow> visible_into wm w ScrB False;
        wm2 \<leftarrow> set_rgn wm1 ScrA rect;
        wm3 \<leftarrow> rop wm2 ScrC ScrA ScrB RGN_OP_INTERSECT;
        rgn_accumulate wm3 (Update w) ScrC RGN_OP_UNION ScrA })"

primrec reaffirm_from :: "nat list \<Rightarrow> bool \<Rightarrow> window_mgr \<Rightarrow> window_mgr option" where
  "reaffirm_from [] seen_front wm = Some wm"
| "reaffirm_from (p # ps) seen_front wm =
     (let was_hilited = hilited (wins wm p);
          now = (\<not> seen_front \<and> visible (wins wm p));
          wm1 = set_win wm p (\<lambda>r. r\<lparr>hilited := now\<rparr>)
      in do {
        wm2 \<leftarrow> (if was_hilited \<noteq> now then WindowMgr_invalidate wm1 p (region_get_bbox (rgn wm1 (Struc p))) else Some wm1);
        reaffirm_from ps (seen_front \<or> now) wm2 })"

definition reaffirm_active :: "window_mgr \<Rightarrow> window_mgr option" where
  "reaffirm_active wm = reaffirm_from (front wm) False wm"

section \<open>Damage\<close>

primrec distribute_from :: "nat option \<Rightarrow> slot \<Rightarrow> nat list \<Rightarrow> window_mgr \<Rightarrow> window_mgr option" where
  "distribute_from departing exposed [] wm = Some wm"
| "distribute_from departing exposed (p # ps) wm =
     (if departing = Some p \<or> \<not> visible (wins wm p) then distribute_from departing exposed ps wm
      else if region_is_empty (rgn wm exposed) then Some wm
      else do {
        wm1 \<leftarrow> rop wm ScrC exposed (Struc p) RGN_OP_INTERSECT;
        (if region_is_empty (rgn wm1 ScrC) then distribute_from departing exposed ps wm1
         else do {
           wm2 \<leftarrow> rgn_accumulate wm1 (Update p) ScrC RGN_OP_UNION ScrA;
           wm3 \<leftarrow> rop wm2 ScrA exposed (Struc p) RGN_OP_DIFF;
           wm4 \<leftarrow> rgn_copy wm3 exposed ScrA;
           distribute_from departing exposed ps wm4 }) })"

definition distribute_exposure :: "window_mgr \<Rightarrow> nat option \<Rightarrow> slot \<Rightarrow> window_mgr option" where
  "distribute_exposure wm departing exposed = do {
     wm1 \<leftarrow> distribute_from departing exposed (front wm) wm;
     (if \<not> region_is_empty (rgn wm1 exposed) then rgn_accumulate wm1 Desk exposed RGN_OP_UNION ScrA else Some wm1) }"

definition WindowMgr_invalidate_desktop :: "window_mgr \<Rightarrow> rgn_rect \<Rightarrow> window_mgr option" where
  "WindowMgr_invalidate_desktop wm rect = do {
     wm1 \<leftarrow> set_rgn wm ScrA rect;
     wm2 \<leftarrow> set_rgn wm1 ScrC (desktop_frame wm1);
     wm3 \<leftarrow> rop wm2 ScrB ScrA ScrC RGN_OP_INTERSECT;
     distribute_exposure wm3 None ScrB }"

definition WindowMgr_validate :: "window_mgr \<Rightarrow> nat \<Rightarrow> window_mgr" where
  "WindowMgr_validate wm w = clear_rgn wm (Update w)"

section \<open>Scroll records\<close>

definition WindowScrollOf :: "window_mgr \<Rightarrow> nat \<Rightarrow> window_scroll option" where
  "WindowScrollOf wm w = find (\<lambda>s. scroll_owner s = w) (scrolls wm)"

definition new_axis :: scroll_axis where
  "new_axis = \<lparr>content_len = 0, axis_value = 0, axis_max = 0, axis_line = 16, axis_page = 16, axis_hilite = 0, drag_pos = -1\<rparr>"

definition WindowScrollAttach :: "window_mgr \<Rightarrow> nat \<Rightarrow> window_mgr option" where
  "WindowScrollAttach wm w =
     (if WindowScrollOf wm w \<noteq> None then None
      else Some (wm\<lparr>scrolls := \<lparr>scroll_owner = w, axis_v = new_axis, axis_h = new_axis\<rparr> # scrolls wm\<rparr>))"

fun scroll_detach :: "nat \<Rightarrow> window_scroll list \<Rightarrow> window_scroll list" where
  "scroll_detach w [] = []"
| "scroll_detach w (s # ss) = (if scroll_owner s = w then ss else s # scroll_detach w ss)"

definition WindowScrollDetach :: "window_mgr \<Rightarrow> nat \<Rightarrow> window_mgr" where
  "WindowScrollDetach wm w = wm\<lparr>scrolls := scroll_detach w (scrolls wm)\<rparr>"

definition wscroll_set_value :: "scroll_axis \<Rightarrow> int \<Rightarrow> scroll_axis \<times> bool" where
  "wscroll_set_value a v =
     (let v1 = (if v > axis_max a then axis_max a else v); v2 = (if v1 < 0 then 0 else v1) in
      if v2 = axis_value a then (a, False) else (a\<lparr>axis_value := i16 v2\<rparr>, True))"

definition wscroll_set_extent :: "scroll_axis \<Rightarrow> int \<Rightarrow> int \<Rightarrow> scroll_axis \<times> bool" where
  "wscroll_set_extent a clen view_len =
     (let line = (if axis_line a \<le> 0 then 16 else axis_line a);
          m = clen - view_len; m1 = (if m < 0 then 0 else m); m2 = (if m1 > 32767 then 32767 else m1);
          pg = view_len - line; pg1 = (if pg < line then line else pg);
          a1 = a\<lparr>content_len := clen, axis_line := line, axis_max := i16 m2, axis_page := i16 pg1\<rparr>
      in wscroll_set_value a1 (axis_value a1))"

section \<open>Windows come and go\<close>

definition WindowMgr_init :: "window_mgr \<Rightarrow> rgn_rect \<Rightarrow> window_mgr" where
  "WindowMgr_init wm fr =
     clear_rgn (clear_rgn (clear_rgn (clear_rgn
       (wm\<lparr>front := [], desktop_frame := fr, has_overlay := False, scrolls := []\<rparr>) Desk) ScrA) ScrB) ScrC"

definition NewWindow :: "window_mgr \<Rightarrow> nat \<Rightarrow> rgn_rect \<Rightarrow> rgn_rect \<Rightarrow> int \<Rightarrow> int \<Rightarrow> bool \<Rightarrow> window_mgr option" where
  "NewWindow wm w bounds content wKind wVariant goAway = do {
     wm1 \<leftarrow> structure_scratch wm bounds wVariant;
     wm2 \<leftarrow> rgn_copy wm1 (Struc w) ScrA;
     wm3 \<leftarrow> set_content (set_win wm2 w (\<lambda>r. r\<lparr>windowDefProcVariant := wVariant\<rparr>)) w content;
     let wm4 = set_win (clear_rgn wm3 (Update w)) w (\<lambda>r. r\<lparr>windowKind := wKind, goAwayFlag := goAway, visible := True,
       widgetFlags := widget_flags_for_variant wVariant goAway, zoomed := False, collapsed := False, userStateValid := False,
       userState := bounds, collapseState := bounds, titleHandle := [], titleWidth := 0\<rparr>);
     reaffirm_active (list_push_front wm4 w) }"

definition NewDocumentWindow :: "window_mgr \<Rightarrow> nat \<Rightarrow> rgn_rect \<Rightarrow> int \<Rightarrow> bool \<Rightarrow> window_mgr option" where
  "NewDocumentWindow wm w fr wKind goAway = NewWindow wm w fr (CalcDocContentRect fr) wKind zoomDocProc goAway"

definition HideWindow :: "window_mgr \<Rightarrow> nat \<Rightarrow> window_mgr option" where
  "HideWindow wm w =
     (if \<not> list_contains wm w then None
      else if \<not> visible (wins wm w) then Some wm
      else do {
        wm1 \<leftarrow> visible_into wm w (Update w) True;
        wm2 \<leftarrow> distribute_exposure (set_win wm1 w (\<lambda>r. r\<lparr>visible := False\<rparr>)) (Some w) (Update w);
        reaffirm_active (clear_rgn wm2 (Update w)) })"

definition DisposeWindow :: "window_mgr \<Rightarrow> nat \<Rightarrow> window_mgr option" where
  "DisposeWindow wm w =
     (if \<not> list_contains wm w then None
      else do {
        let wm0 = WindowScrollDetach wm w;
        wm3 \<leftarrow> (if visible (wins wm0 w) then do {
            wm1 \<leftarrow> visible_into wm0 w (Update w) True;
            wm2 \<leftarrow> list_unlink wm1 w;
            distribute_exposure wm2 (Some w) (Update w) }
          else list_unlink wm0 w);
        reaffirm_active (clear_rgn wm3 (Update w)) })"

definition ShowWindow :: "window_mgr \<Rightarrow> nat \<Rightarrow> window_mgr option" where
  "ShowWindow wm w =
     (if \<not> list_contains wm w then None
      else if visible (wins wm w) then Some wm
      else reaffirm_active (set_win wm w (\<lambda>r. r\<lparr>visible := True\<rparr>)))"

definition SelectWindow :: "window_mgr \<Rightarrow> nat \<Rightarrow> window_mgr option" where
  "SelectWindow wm w =
     (if \<not> list_contains wm w then None
      else if hd (front wm) \<noteq> w then do { wm1 \<leftarrow> list_unlink wm w; reaffirm_active (list_push_front wm1 w) }
      else reaffirm_active wm)"

definition MoveWindow :: "window_mgr \<Rightarrow> nat \<Rightarrow> int \<Rightarrow> int \<Rightarrow> window_mgr option" where
  "MoveWindow wm w newLeft newTop =
     (if \<not> list_contains wm w then None
      else
        let s = WindowFrameRect wm w; c = region_get_bbox (rgn wm (Cont w));
            dh = i16 (newLeft - rleft s); dv = i16 (newTop - rtop s) in
        if dh = 0 \<and> dv = 0 then Some wm
        else
          let ns = mk_rect (i16 (rtop s + dv)) (i16 (rleft s + dh)) (i16 (rbottom s + dv)) (i16 (rright s + dh));
              nc = mk_rect (i16 (rtop c + dv)) (i16 (rleft c + dh)) (i16 (rbottom c + dv)) (i16 (rright c + dh));
              variant = windowDefProcVariant (wins wm w)
          in do {
            wm1 \<leftarrow> visible_into wm w (Update w) True;
            wm2 \<leftarrow> structure_scratch wm1 ns variant;
            wm3 \<leftarrow> rop wm2 ScrB (Update w) ScrA RGN_OP_DIFF;
            wm4 \<leftarrow> rgn_copy wm3 (Update w) ScrB;
            wm5 \<leftarrow> structure_scratch wm4 ns variant;
            wm6 \<leftarrow> rgn_copy wm5 (Struc w) ScrA;
            wm7 \<leftarrow> set_content wm6 w nc;
            wm8 \<leftarrow> distribute_exposure wm7 (Some w) (Update w);
            Some (clear_rgn wm8 (Update w)) })"

definition DragWindow :: "window_mgr \<Rightarrow> nat \<Rightarrow> int \<Rightarrow> int \<Rightarrow> window_mgr option" where
  "DragWindow wm w dh dv =
     (if \<not> list_contains wm w then None
      else let s = WindowFrameRect wm w in MoveWindow wm w (i16 (rleft s + dh)) (i16 (rtop s + dv)))"

section \<open>Size, zoom and collapse\<close>

definition settle_axis :: "scroll_axis \<Rightarrow> int \<Rightarrow> scroll_axis" where
  "settle_axis a view_len = (fst (wscroll_set_extent a (content_len a) view_len))\<lparr>axis_hilite := 0, drag_pos := -1\<rparr>"

fun settle_scrolls :: "nat \<Rightarrow> rgn_rect \<Rightarrow> window_scroll list \<Rightarrow> window_scroll list" where
  "settle_scrolls w c [] = []"
| "settle_scrolls w c (s # ss) =
     (if scroll_owner s = w
      then s\<lparr>axis_v := settle_axis (axis_v s) (rbottom c - rtop c), axis_h := settle_axis (axis_h s) (rright c - rleft c)\<rparr> # ss
      else s # settle_scrolls w c ss)"

definition set_document_frame :: "window_mgr \<Rightarrow> nat \<Rightarrow> rgn_rect \<Rightarrow> bool \<Rightarrow> window_mgr option" where
  "set_document_frame wm w next coll =
     (let variant = windowDefProcVariant (wins wm w) in
      if \<not> list_contains wm w then None
      else if \<not> document_variant variant then None
      else if rright next \<le> rleft next \<or> rbottom next \<le> rtop next then None
      else do {
        wm1 \<leftarrow> visible_into wm w (Update w) True;
        wm2 \<leftarrow> structure_scratch wm1 next variant;
        wm3 \<leftarrow> rop wm2 ScrB (Update w) ScrA RGN_OP_DIFF;
        wm4 \<leftarrow> rgn_copy wm3 (Update w) ScrB;
        wm5 \<leftarrow> structure_scratch wm4 next variant;
        wm6 \<leftarrow> rgn_copy wm5 (Struc w) ScrA;
        wm7 \<leftarrow> (if coll then Some (clear_rgn wm6 (Cont w))
          else do {
            wm7 \<leftarrow> set_rgn wm6 (Cont w) (CalcDocContentRect next);
            Some (wm7\<lparr>scrolls := settle_scrolls w (region_get_bbox (rgn wm7 (Cont w))) (scrolls wm7)\<rparr>) });
        wm8 \<leftarrow> distribute_exposure wm7 (Some w) (Update w);
        let wm9 = clear_rgn wm8 (Update w);
        WindowMgr_invalidate wm9 w (region_get_bbox (rgn wm9 (Struc w))) })"

definition clamp :: "int \<Rightarrow> int \<Rightarrow> int" where
  "clamp x m = (if x > m then m else x)"

definition ConstrainWindowSize :: "window_mgr \<Rightarrow> nat \<Rightarrow> int \<Rightarrow> int \<Rightarrow> (int \<times> int) option" where
  "ConstrainWindowSize wm w width height =
     (let fr = WindowFrameRect wm w; d = desktop_frame wm;
          max_w = clamp (clamp (rright d - rleft fr) (rright d - rleft d)) 640;
          max_h = clamp (clamp (rbottom d - rtop fr) (rbottom d - rtop d)) 480;
          min_w = (if 96 < 2 * 16 + 15 + FRAME + BODY_BAR + 1 + 19 then 2 * 16 + 15 + FRAME + BODY_BAR + 1 + 19 else 96);
          min_h = (if 64 < 2 * 16 + 15 + TITLEBAR_H + 19 then 2 * 16 + 15 + TITLEBAR_H + 19 else 64)
      in if max_w < 1 \<or> max_h < 1 then None
         else
           let max_w1 = (if max_w < min_w then min_w else max_w); max_h1 = (if max_h < min_h then min_h else max_h);
               want_w = (if width < min_w then min_w else width); want_h = (if height < min_h then min_h else height)
           in Some (i16 (clamp want_w max_w1), i16 (clamp want_h max_h1)))"

definition SizeWindow :: "window_mgr \<Rightarrow> nat \<Rightarrow> int \<Rightarrow> int \<Rightarrow> window_mgr option" where
  "SizeWindow wm w width height =
     (if collapsed (wins wm w) then None
      else do {
        (wd, ht) \<leftarrow> ConstrainWindowSize wm w width height;
        let fr = WindowFrameRect wm w;
        wm1 \<leftarrow> set_document_frame wm w (fr\<lparr>rright := i16 (rleft fr + wd), rbottom := i16 (rtop fr + ht)\<rparr>) False;
        Some (if zoomed (wins wm1 w) then set_win wm1 w (\<lambda>r. r\<lparr>zoomed := False, userStateValid := False\<rparr>) else wm1) })"

definition ZoomWindow :: "window_mgr \<Rightarrow> nat \<Rightarrow> (window_mgr \<times> bool) option" where
  "ZoomWindow wm w = do {
     wm1 \<leftarrow> (if collapsed (wins wm w)
       then set_document_frame (set_win wm w (\<lambda>r. r\<lparr>collapsed := False\<rparr>)) w (collapseState (wins wm w)) False else Some wm);
     let d = desktop_frame wm1;
     (wm2, target) \<leftarrow> (if \<not> zoomed (wins wm1 w)
       then Some (set_win wm1 w (\<lambda>r. r\<lparr>userState := WindowFrameRect wm1 w, userStateValid := True, zoomed := True\<rparr>),
         mk_rect (i16 (rtop d + 40)) (i16 (rleft d + 4)) (i16 (rbottom d - 4)) (i16 (rright d - 4)))
       else if \<not> userStateValid (wins wm1 w) then None
       else Some (set_win wm1 w (\<lambda>r. r\<lparr>zoomed := False\<rparr>), userState (wins wm1 w)));
     wm3 \<leftarrow> set_document_frame wm2 w target False;
     Some (wm3, zoomed (wins wm3 w)) }"

definition CollapseWindow :: "window_mgr \<Rightarrow> nat \<Rightarrow> (window_mgr \<times> bool) option" where
  "CollapseWindow wm w = do {
     let fr = WindowFrameRect wm w;
     wm1 \<leftarrow> (if \<not> collapsed (wins wm w)
       then set_document_frame (set_win wm w (\<lambda>r. r\<lparr>collapseState := fr, collapsed := True\<rparr>)) w
         (fr\<lparr>rbottom := i16 (rtop fr + TITLEBAR_H)\<rparr>) True
       else set_document_frame (set_win wm w (\<lambda>r. r\<lparr>collapsed := False\<rparr>)) w (collapseState (wins wm w)) False);
     Some (wm1, collapsed (wins wm1 w)) }"

end
