(* ===== verification/WindowGrid.thy ===== *)
theory WindowGrid imports Window RegionAlgebra begin

text \<open>
  The region engine on a grid. All coordinates of a desktop session come from finitely many columns \<open>X\<close> and rows \<open>Y\<close>
  (the edges of the windows); a region whose storage covers the grid never overflows, so every call of the engine
  succeeds and the calls can be read as operations on pixel sets.
\<close>

section \<open>Rows on a grid\<close>

definition cells :: "int set \<Rightarrow> int set \<Rightarrow> rgn_row list \<Rightarrow> bool" where
  "cells X Y rs \<longleftrightarrow> (\<forall>q \<in> set rs. y_top q \<in> Y \<and> set (row_x q) \<subseteq> X)"

lemma cells_simps [simp]:
  "cells X Y []" "cells X Y (q # rs) \<longleftrightarrow> y_top q \<in> Y \<and> set (row_x q) \<subseteq> X \<and> cells X Y rs"
  "cells X Y (as @ bs) \<longleftrightarrow> cells X Y as \<and> cells X Y bs"
  by (auto simp: cells_def)

lemma cells_lookup: "cells X Y rs \<Longrightarrow> set (lookup [] rs v) \<subseteq> X"
  by (rule lookup_all) (auto simp: cells_def)

lemma normalize_cells:
  assumes "region_normalize r = Some r'" "rows_ok (rows r)" "cells X Y (rows r)"
  shows "cells X Y (rows r')"
proof -
  from assms(1) obtain out u where p: "normalize_pass (cap_rows r) (x_pool_cap r) [] 0 (rows r) = Some (out, u)"
    by (auto simp: region_normalize_def split: bind_splits)
  have k: "distinct_adj ([] # map row_x out)" "set out \<subseteq> set (rows r)"
    using normalize_pass_keeps [OF p] assms(2) by simp_all
  with assms(1) p have "rows r' = [] \<or> rows r' = out"
    by (auto simp: region_normalize_def trim_normal Let_def split: if_splits)
  with k(2) assms(3) show ?thesis by (auto simp: cells_def)
qed

lemma merge_cells:
  assumes "region_merge out A B op = Some r" "region_ok A" "region_ok B" "cells X Y (rows A)" "cells X Y (rows B)"
  shows "cells X Y (rows r)"
proof (cases "rows A = [] \<and> rows B = []")
  case True
  with assms(1) region_merge_cases [OF ok_assert [OF assms(2)] ok_assert [OF assms(3)], of out op] show ?thesis by auto
next
  case False
  note n = ok_assert [OF assms(2)] ok_assert [OF assms(3)]
  from False obtain o2 where o2: "merge_all op A B (merge_start out) None (rows A) (rows B) = Some o2"
    and r: "region_normalize o2 = Some r"
    using assms(1) region_merge_cases [OF n, of out op] by (auto split: bind_splits if_splits)
  note nA = ok_rows [OF assms(2)] and nB = ok_rows [OF assms(3)]
  obtain new where new: "added op A B (merge_start out) new o2" "ys_sorted new" "tops new = tops (rows A) \<union> tops (rows B)"
    using merge_all_added [OF o2] nA nB by (auto simp: rows_ok_def)
  have ro: "rows o2 = new"
    and x: "\<And>q. q \<in> set new \<Longrightarrow> xmerge RGN_ROW_X_MAX op (lookup [] (rows A) (y_top q)) (lookup [] (rows B) (y_top q)) = Some (row_x q)"
    using new(1) by (auto simp: added_def merge_start_def active_lookup [OF n(1)] active_lookup [OF n(2)])
  have so: "sorted_wrt (<) (lookup [] (rows A) v)" "sorted_wrt (<) (lookup [] (rows B) v)"
    "even (length (lookup [] (rows A) v))" "even (length (lookup [] (rows B) v))" for v
    using rows_ok_lookup [OF nA] rows_ok_lookup [OF nB] by simp_all
  have c: "cells X Y new"
  proof (unfold cells_def, intro ballI conjI)
    fix q assume q: "q \<in> set new"
    have "y_top q \<in> tops (rows A) \<union> tops (rows B)" using q new(3) by auto
    with assms(4,5) show "y_top q \<in> Y" by (auto simp: cells_def)
    show "set (row_x q) \<subseteq> X"
      using xmerge_combines(2) [OF x [OF q] so(1,2)] cells_lookup [OF assms(4)] cells_lookup [OF assms(5)] by blast
  qed
  have "rows_ok (rows o2)"
    using new(2) x xmerge_combines(1) xmerge_even so unfolding rows_ok_def ro by metis
  from normalize_cells [OF r this] c ro show ?thesis by simp
qed

lemma pool_used_bound: "\<forall>q \<in> set rs. length (row_x q) \<le> k \<Longrightarrow> pool_used rs \<le> k * length rs"
  by (induction rs) auto

section \<open>Regions on a grid\<close>

definition grid_ok :: "int set \<Rightarrow> int set \<Rightarrow> bool" where
  "grid_ok X Y \<longleftrightarrow> finite X \<and> finite Y \<and> X \<noteq> {} \<and> Y \<noteq> {} \<and> 2 * card X \<le> RGN_ROW_X_MAX \<and>
     2 * card Y \<le> RGN_ROWS_CAP \<and> 4 * card X * card Y \<le> RGN_X_POOL_CAP"

definition roomy :: "int set \<Rightarrow> int set \<Rightarrow> region \<Rightarrow> bool" where
  "roomy X Y r \<longleftrightarrow> 2 * card Y \<le> cap_rows r \<and> 4 * card X * card Y \<le> x_pool_cap r"

definition gridded :: "int set \<Rightarrow> int set \<Rightarrow> region \<Rightarrow> bool" where
  "gridded X Y r \<longleftrightarrow> region_ok r \<and> cells X Y (rows r) \<and> roomy X Y r"

lemma gridded_simps: "gridded X Y r \<Longrightarrow> region_ok r" "gridded X Y r \<Longrightarrow> cells X Y (rows r)" "gridded X Y r \<Longrightarrow> roomy X Y r"
  by (simp_all add: gridded_def)

lemma same_store_roomy: "same_store r r' \<Longrightarrow> roomy X Y r' = roomy X Y r"
  by (simp add: same_store_def roomy_def)

lemma grid_bounds:
  assumes "grid_ok X Y" "region_ok r" "cells X Y (rows r)"
  shows "row_bound (card X) r" "length (rows r) \<le> card Y"
proof -
  note fin = assms(1) [unfolded grid_ok_def]
  have ok: "rows_ok (rows r)" by (rule ok_rows [OF assms(2)])
  show "row_bound (card X) r"
    unfolding row_bound_def
  proof
    fix q assume q: "q \<in> set (rows r)"
    then have "length (row_x q) = card (set (row_x q))" using ok by (auto simp: rows_ok_def card_sorted)
    with q assms(3) fin show "length (row_x q) \<le> card X" by (auto simp: cells_def intro: card_mono)
  qed
  have "sorted_wrt (<) (map y_top (rows r))" using ok by (simp add: rows_ok_def sorted_wrt_map)
  then have "length (rows r) = card (tops (rows r))" using card_sorted by fastforce
  moreover have "tops (rows r) \<subseteq> Y" using assms(3) by (auto simp: cells_def)
  ultimately show "length (rows r) \<le> card Y" using fin by (simp add: card_mono)
qed

lemma region_copy_grid:
  assumes "grid_ok X Y" "region_ok t" "cells X Y (rows t)" "roomy X Y out"
  shows "\<exists>r. region_copy out t = Some r"
proof -
  note b = grid_bounds [OF assms(1-3)]
  have "pool_used (rows t) \<le> card X * length (rows t)"
    using b(1) by (intro pool_used_bound) (simp add: row_bound_def)
  also have "\<dots> \<le> card X * card Y" using b(2) by simp
  also have "\<dots> \<le> x_pool_cap out" using assms(4) by (simp add: roomy_def)
  finally show ?thesis
    using b assms(1,4) by (intro region_copy_room [OF assms(2)]) (fastforce simp: row_bound_def grid_ok_def roomy_def)+
qed

section \<open>The engine on a grid\<close>

definition pixs :: "region \<Rightarrow> (int \<times> int) set" where
  "pixs r = {(h, v). pixel r h v}"

definition rect_pixs :: "rgn_rect \<Rightarrow> (int \<times> int) set" where
  "rect_pixs rc = {(h, v). in_rect rc h v}"

definition set_op :: "rgn_op \<Rightarrow> (int \<times> int) set \<Rightarrow> (int \<times> int) set \<Rightarrow> (int \<times> int) set" where
  "set_op op S T = {pt. boolfn op (pt \<in> S) (pt \<in> T)}"

lemma set_op_simps [simp]:
  "set_op RGN_OP_UNION S T = S \<union> T" "set_op RGN_OP_INTERSECT S T = S \<inter> T" "set_op RGN_OP_DIFF S T = S - T"
  by (auto simp: set_op_def)

lemma pixs_empty [simp]: "pixs (region_set_empty r) = {}"
  by (simp add: pixs_def)

lemma empty_iff_pixs: "region_ok r \<Longrightarrow> region_is_empty r \<longleftrightarrow> pixs r = {}"
  by (auto simp: is_empty_pixels pixs_def)

lemma merge_grid:
  assumes "grid_ok X Y" "region_ok A" "cells X Y (rows A)" "region_ok B" "cells X Y (rows B)" "roomy X Y out"
  shows "\<exists>r. region_merge out A B op = Some r"
proof (rule region_merge_fits [OF assms(2,4)])
  note a = grid_bounds [OF assms(1-3)] and b = grid_bounds [OF assms(1,4,5)]
  show "row_bound (card X) A" "row_bound (card X) B" by (fact a b)+
  show "card X + card X \<le> RGN_ROW_X_MAX \<or> (\<forall>q \<in> set (rows A) \<union> set (rows B). set (row_x q) \<subseteq> {0..640})"
    using assms(1) by (simp add: grid_ok_def)
  have l: "length (rows A) + length (rows B) \<le> 2 * card Y" using a(2) b(2) by simp
  with assms(6) show "length (rows A) + length (rows B) \<le> cap_rows out" by (simp add: roomy_def)
  have "(card X + card X) * (length (rows A) + length (rows B)) \<le> (card X + card X) * (2 * card Y)"
    using l by (rule mult_le_mono2)
  with assms(6) show "(card X + card X) * (length (rows A) + length (rows B)) \<le> x_pool_cap out"
    by (simp add: roomy_def algebra_simps)
qed

lemma attach_roomy: "grid_ok X Y \<Longrightarrow> roomy X Y rgn_ws_attach"
  by (simp add: grid_ok_def roomy_def)

lemma region_op_grid:
  assumes "grid_ok X Y" "ws_bound w" "\<not> ws_in_use w" "gridded X Y A" "gridded X Y B" "gridded X Y out"
  obtains r where "region_op w al out A B op = Some (w, r)" "gridded X Y r" "pixs r = set_op op (pixs A) (pixs B)"
proof -
  note A = gridded_simps [OF assms(4)] and B = gridded_simps [OF assms(5)] and out = gridded_simps [OF assms(6)]
  have ex: "\<exists>r. region_op w al out A B op = Some (w, r) \<and> cells X Y (rows r)"
  proof (cases al)
    case False
    obtain r where r: "region_merge out A B op = Some r" using merge_grid [OF assms(1) A(1,2) B(1,2) out(3)] by blast
    with merge_cells [OF r A(1) B(1) A(2) B(2)] False show ?thesis by (simp add: region_op_def)
  next
    case True
    obtain w1 where w1: "rgn_ws_acquire w = Some w1" "rgn_ws_release w1 = w" using ws_round assms(2,3) by blast
    obtain t where t: "region_merge rgn_ws_attach A B op = Some t"
      using merge_grid [OF assms(1) A(1,2) B(1,2) attach_roomy [OF assms(1)]] by blast
    note tc = merge_cells [OF t A(1) B(1) A(2) B(2)] and tok = region_merge_spec(1) [OF t]
    obtain r where r: "region_copy out t = Some r" using region_copy_grid [OF assms(1) tok tc out(3)] by blast
    then obtain r0 where r0: "push_rows (region_set_empty out) (rows t) = Some r0" "region_normalize r0 = Some r"
      by (auto simp: region_copy_def split: bind_splits)
    have "rows r0 = rows t" using push_rows_spec [OF r0(1)] by simp
    with normalize_cells [OF r0(2)] tc ok_rows [OF tok] have "cells X Y (rows r)" by simp
    with True w1 t r show ?thesis by (simp add: region_op_def)
  qed
  then obtain r where r: "region_op w al out A B op = Some (w, r)" "cells X Y (rows r)" by blast
  note s = region_op_spec [OF r(1)]
  have "gridded X Y r" using s(1,3) r(2) out(3) by (simp add: gridded_def same_store_roomy)
  moreover have "pixs r = set_op op (pixs A) (pixs B)" using s(2) by (auto simp: pixs_def set_op_def)
  ultimately show thesis using that r(1) by blast
qed

definition rect_on :: "int set \<Rightarrow> int set \<Rightarrow> rgn_rect \<Rightarrow> bool" where
  "rect_on X Y rc \<longleftrightarrow> rleft rc \<in> X \<and> rright rc \<in> X \<and> rtop rc \<in> Y \<and> rbottom rc \<in> Y"

lemma set_rect_grid:
  assumes "grid_ok X Y" "gridded X Y out" "rect_is_empty rc \<or> rect_on X Y rc"
  obtains r where "region_set_rect out rc = Some r" "gridded X Y r" "pixs r = rect_pixs rc"
proof -
  have "0 < card X" "0 < card Y" using assms(1) by (auto simp: grid_ok_def card_gt_0_iff)
  then have "2 \<le> cap_rows out" "2 \<le> x_pool_cap out"
    using gridded_simps(3) [OF assms(2)] by (auto simp: roomy_def elim!: order_trans [rotated] simp: Suc_le_eq)
  then obtain r where r: "region_set_rect out rc = Some r" using set_rect_room by blast
  note s = set_rect_spec [OF r]
  have "cells X Y (rows r)"
  proof (cases "rect_is_empty rc")
    case True
    with r show ?thesis by (auto simp: region_set_rect_def)
  next
    case False
    with set_rect_rows [OF r] assms(3) show ?thesis by (simp add: rect_on_def)
  qed
  with s gridded_simps(3) [OF assms(2)] have "gridded X Y r" by (simp add: gridded_def same_store_roomy)
  moreover have "pixs r = rect_pixs rc" using s(2) by (simp add: pixs_def rect_pixs_def)
  ultimately show thesis using that r by blast
qed

lemma gridded_empty: "gridded X Y r \<Longrightarrow> gridded X Y (region_set_empty r)"
  by (simp add: gridded_def roomy_def)

text \<open>The bounding box of a region on the grid.\<close>

lemma row_extent_on:
  "cells X Y rs \<Longrightarrow> (case acc of None \<Rightarrow> True | Some (l, r) \<Rightarrow> l \<in> X \<and> r \<in> X) \<Longrightarrow>
     (case row_extent acc rs of None \<Rightarrow> acc = None \<and> (\<forall>q \<in> set rs. row_x q = []) | Some (l, r) \<Rightarrow> l \<in> X \<and> r \<in> X)"
proof (induction acc rs rule: row_extent.induct)
  case (2 acc r rs)
  show ?case
  proof (cases "row_x r = []")
    case True
    with 2 show ?thesis by (auto split: option.splits)
  next
    case False
    then have x: "hd (row_x r) \<in> X" "last (row_x r) \<in> X" using "2.prems"(1) by (auto dest: hd_in_set last_in_set)
    let ?acc = "case acc of None \<Rightarrow> Some (hd (row_x r), last (row_x r))
      | Some (left, right) \<Rightarrow> Some (if hd (row_x r) < left then hd (row_x r) else left,
          if last (row_x r) > right then last (row_x r) else right)"
    obtain l0 r0 where e: "?acc = Some (l0, r0)" "l0 \<in> X" "r0 \<in> X"
      using x "2.prems"(2) by (cases acc) (auto split: if_splits)
    have "row_extent acc (r # rs) = row_extent (Some (l0, r0)) rs" using False e(1) by (simp add: Let_def)
    with "2.IH"(2) [OF False refl refl] "2.prems"(1) e show ?thesis
      by (simp add: Let_def split: option.splits prod.splits)
  qed
qed (auto split: option.splits)

lemma bbox_on:
  assumes "gridded X Y r"
  shows "rect_is_empty (region_get_bbox r) \<or> rect_on X Y (region_get_bbox r)"
proof (cases "is_empty r")
  case True
  with gridded_simps(1) [OF assms] show ?thesis by (simp add: region_ok_def region_get_bbox_def rect_is_empty_def)
next
  case False
  with gridded_simps(1) [OF assms] have n: "normal_rows (rows r)" "bbox r = rows_bbox (rows r)" by (simp_all add: region_ok_def)
  note c = gridded_simps(2) [OF assms]
  have ne: "rows r \<noteq> []" "row_x (hd (rows r)) \<noteq> []" using n(1) by (cases "rows r"; auto simp: normal_rows_def)+
  then have t: "y_top (hd (rows r)) \<in> Y" "y_top (last (rows r)) \<in> Y" using c by (auto simp: cells_def)
  show ?thesis using row_extent_on [OF c, of None] ne t
    by (cases "row_extent None (rows r)") (auto simp: rect_on_def region_get_bbox_def n(2) rows_bbox_def)
qed

lemma pixs_bbox: "region_ok r \<Longrightarrow> pixs r \<subseteq> rect_pixs (region_get_bbox r)"
  using pixel_in_bbox by (auto simp: pixs_def rect_pixs_def in_rect_def region_get_bbox_def)

end
