(* ===== verification/WindowCalc.thy ===== *)
theory WindowCalc imports WindowGrid begin

text \<open>
  The operations of the window manager, read on pixel sets. \<open>runs X Y m Q\<close> says that \<open>m\<close> returns, that its regions stay
  on the grid, and that the result satisfies \<open>Q\<close>. The theory gives each routine its effect on the pixel sets
  \<open>px wm\<close>: the visible part of a window, the distribution of an exposure, and the activation pass.
\<close>

section \<open>Running on a grid\<close>

definition grid :: "int set \<Rightarrow> int set \<Rightarrow> window_mgr \<Rightarrow> bool" where
  "grid X Y wm \<longleftrightarrow> grid_ok X Y \<and> ws_bound (engine wm) \<and> \<not> ws_in_use (engine wm) \<and> (\<forall>s. gridded X Y (rgn wm s))"

definition runs :: "int set \<Rightarrow> int set \<Rightarrow> window_mgr option \<Rightarrow> (window_mgr \<Rightarrow> bool) \<Rightarrow> bool" where
  "runs X Y m Q \<longleftrightarrow> (\<exists>wm'. m = Some wm' \<and> grid X Y wm' \<and> Q wm')"

definition px :: "window_mgr \<Rightarrow> slot \<Rightarrow> (int \<times> int) set" where
  "px wm s = pixs (rgn wm s)"

definition keeps :: "window_mgr \<Rightarrow> window_mgr \<Rightarrow> bool" where
  "keeps wm wm' \<longleftrightarrow> front wm' = front wm \<and> wins wm' = wins wm \<and> desktop_frame wm' = desktop_frame wm \<and>
     has_overlay wm' = has_overlay wm \<and> scrolls wm' = scrolls wm \<and> engine wm' = engine wm"

definition agree :: "slot set \<Rightarrow> (slot \<Rightarrow> (int \<times> int) set) \<Rightarrow> (slot \<Rightarrow> (int \<times> int) set) \<Rightarrow> bool" where
  "agree D f g \<longleftrightarrow> (\<forall>s. s \<notin> D \<longrightarrow> f s = g s)"

lemma agree_refl [simp]: "agree D f f" by (simp add: agree_def)

lemma keeps_refl [simp]: "keeps wm wm" by (simp add: keeps_def)

lemma keeps_trans: "keeps a b \<Longrightarrow> keeps b c \<Longrightarrow> keeps a c" by (simp add: keeps_def)

lemma runs_Some: "grid X Y wm \<Longrightarrow> Q wm \<Longrightarrow> runs X Y (Some wm) Q" by (simp add: runs_def)

lemma runs_bind: "runs X Y m Q \<Longrightarrow> (\<And>wm'. grid X Y wm' \<Longrightarrow> Q wm' \<Longrightarrow> runs X Y (k wm') R) \<Longrightarrow> runs X Y (m \<bind> k) R"
  by (auto simp: runs_def)

lemma runs_weaken: "runs X Y m Q \<Longrightarrow> (\<And>wm'. Q wm' \<Longrightarrow> R wm') \<Longrightarrow> runs X Y m R"
  by (auto simp: runs_def)

lemma rop_runs:
  assumes "grid X Y wm"
  shows "runs X Y (rop wm out a b op) (\<lambda>wm'. keeps wm wm' \<and> px wm' = (px wm)(out := set_op op (px wm a) (px wm b)))"
proof -
  from assms have g: "grid_ok X Y" "ws_bound (engine wm)" "\<not> ws_in_use (engine wm)" "\<And>s. gridded X Y (rgn wm s)"
    by (simp_all add: grid_def)
  obtain r where "region_op (engine wm) (out = a \<or> out = b) (rgn wm out) (rgn wm a) (rgn wm b) op = Some (engine wm, r)"
    "gridded X Y r" "pixs r = set_op op (pixs (rgn wm a)) (pixs (rgn wm b))"
    using region_op_grid [OF g(1-3) g(4) g(4) g(4)] by blast
  with assms show ?thesis by (auto simp: runs_def rop_def grid_def keeps_def px_def fun_eq_iff)
qed

lemma set_rgn_runs:
  assumes "grid X Y wm" "rect_is_empty rc \<or> rect_on X Y rc"
  shows "runs X Y (set_rgn wm s rc) (\<lambda>wm'. keeps wm wm' \<and> px wm' = (px wm)(s := rect_pixs rc))"
proof -
  obtain r where "region_set_rect (rgn wm s) rc = Some r" "gridded X Y r" "pixs r = rect_pixs rc"
    using set_rect_grid [of X Y "rgn wm s" rc] assms by (auto simp: grid_def)
  with assms(1) show ?thesis by (auto simp: runs_def set_rgn_def grid_def keeps_def px_def fun_eq_iff)
qed

lemma clear_grid: "grid X Y wm \<Longrightarrow> grid X Y (clear_rgn wm s)"
  by (simp add: grid_def clear_rgn_def gridded_empty)

lemma clear_px: "px (clear_rgn wm s) = (px wm)(s := {})"
  by (simp add: px_def clear_rgn_def fun_eq_iff)

lemma clear_keeps: "keeps wm (clear_rgn wm s)"
  by (simp add: keeps_def clear_rgn_def)

lemma empty_px: "grid X Y wm \<Longrightarrow> region_is_empty (rgn wm s) \<longleftrightarrow> px wm s = {}"
  unfolding grid_def px_def using empty_iff_pixs gridded_simps(1) by blast

lemma copy_runs:
  assumes "grid X Y wm"
  shows "runs X Y (rgn_copy wm dst s) (\<lambda>wm'. keeps wm wm' \<and> px wm' = (px wm)(dst := px wm s))"
  unfolding rgn_copy_def by (rule runs_weaken [OF rop_runs [OF assms]]) simp

lemma accumulate_runs:
  assumes "grid X Y wm"
  shows "runs X Y (rgn_accumulate wm dst oth op sc)
    (\<lambda>wm'. keeps wm wm' \<and> px wm' = (px wm)(sc := set_op op (px wm dst) (px wm oth), dst := set_op op (px wm dst) (px wm oth)))"
  unfolding rgn_accumulate_def
  apply (rule runs_bind [OF rop_runs [OF assms]])
  apply (rule runs_weaken [OF copy_runs], assumption)
  by (auto simp: keeps_def)

section \<open>Covering\<close>

definition cover :: "window_mgr \<Rightarrow> nat list \<Rightarrow> (int \<times> int) set" where
  "cover wm fs = (\<Union>f \<in> {f \<in> set fs. visible (wins wm f)}. px wm (Struc f))"

definition overlay :: "window_mgr \<Rightarrow> (int \<times> int) set" where
  "overlay wm = (if has_overlay wm then px wm Overlay else {})"

definition before :: "nat \<Rightarrow> nat list \<Rightarrow> nat list" where
  "before w ws = takeWhile (\<lambda>f. f \<noteq> w) ws"

text \<open>The pixels of \<open>w\<close> no window before it and no overlay covers.\<close>

definition vis :: "window_mgr \<Rightarrow> nat \<Rightarrow> (int \<times> int) set" where
  "vis wm w = px wm (Struc w) - (cover wm (before w (front wm)) \<union> overlay wm)"

abbreviation scr :: "slot set" where "scr \<equiv> {ScrA, ScrB, ScrC}"

lemma union_fronts_runs:
  assumes "grid X Y wm" "out \<notin> range Struc" "sc \<notin> range Struc" "out \<noteq> sc"
  shows "runs X Y (union_fronts out sc fs wm)
    (\<lambda>wm'. keeps wm wm' \<and> agree {sc} (px wm') ((px wm)(out := px wm out \<union> cover wm fs)))"
  using assms(1)
proof (induction fs arbitrary: wm)
  case Nil
  then show ?case by (auto simp: runs_def agree_def cover_def)
next
  case (Cons f fs)
  show ?case
  proof (cases "visible (wins wm f)")
    case False
    then have "cover wm (f # fs) = cover wm fs" by (auto simp: cover_def)
    with Cons False show ?thesis by simp
  next
    case True
    have "runs X Y (do { wm1 \<leftarrow> rgn_accumulate wm out (Struc f) RGN_OP_UNION sc; union_fronts out sc fs wm1 })
      (\<lambda>wm'. keeps wm wm' \<and> agree {sc} (px wm') ((px wm)(out := px wm out \<union> cover wm (f # fs))))"
      apply (rule runs_bind [OF accumulate_runs [OF Cons.prems]])
      apply (rule runs_weaken [OF Cons.IH], assumption)
      using assms(2-4) True by (auto simp: keeps_def agree_def cover_def)
    with True show ?thesis by (simp del: fun_upd_apply)
  qed
qed

lemma fronts_union_runs:
  assumes "grid X Y wm"
  shows "runs X Y (fronts_union wm w ScrA)
    (\<lambda>wm'. keeps wm wm' \<and> agree {ScrC} (px wm') ((px wm)(ScrA := cover wm (before w (front wm)) \<union> overlay wm)))"
proof -
  let ?c = "cover wm (before w (front wm))"
  let ?Q = "\<lambda>wm'. keeps wm wm' \<and> agree {ScrC} (px wm') ((px wm)(ScrA := ?c))"
  have u: "runs X Y (union_fronts ScrA ScrC (before w (front wm)) (clear_rgn wm ScrA)) ?Q"
    apply (rule runs_weaken [OF union_fronts_runs [OF clear_grid [OF assms]]])
    using clear_keeps [of wm ScrA] by (auto simp: keeps_def agree_def clear_px cover_def)
  show ?thesis
    unfolding fronts_union_def Let_def before_def [symmetric]
    apply simp
    apply (rule runs_bind [OF u])
    subgoal for wm1
      apply (cases "has_overlay wm1 \<and> \<not> region_is_empty (rgn wm1 Overlay)")
       apply simp
       apply (rule runs_weaken [OF accumulate_runs], assumption)
       apply (auto simp: keeps_def agree_def overlay_def)[1]
      by (auto simp: runs_def empty_px keeps_def agree_def overlay_def)
    done
qed

lemma visible_into_runs:
  assumes "grid X Y wm" "rect_is_empty (desktop_frame wm) \<or> rect_on X Y (desktop_frame wm)"
    and "out \<in> {Update u, Caller, ScrB}" "clip \<Longrightarrow> out \<noteq> ScrB"
  shows "runs X Y (visible_into wm w out clip) (\<lambda>wm'. keeps wm wm' \<and>
    agree (scr - {out}) (px wm') ((px wm)(out := vis wm w \<inter> (if clip then rect_pixs (desktop_frame wm) else UNIV))))"
proof (cases clip)
  case False
  show ?thesis
    unfolding visible_into_def using False
    apply simp
    apply (rule runs_bind [OF fronts_union_runs [OF assms(1)]])
    apply (rule runs_weaken [OF rop_runs], assumption)
    using assms(3) by (auto simp: keeps_def agree_def vis_def)
next
  case True
  show ?thesis
    unfolding visible_into_def using True
    apply simp
    apply (rule runs_bind [OF fronts_union_runs [OF assms(1)]])
    apply (rule runs_bind [OF rop_runs], assumption)
    apply (rule runs_bind [OF set_rgn_runs], assumption)
    using assms(2) apply (simp add: keeps_def)
    apply (rule runs_weaken [OF rop_runs], assumption)
    using assms(3,4) by (auto simp: keeps_def agree_def vis_def)
qed

section \<open>Owners\<close>

text \<open>The front-most visible window over a pixel, \<open>None\<close> for the desktop.\<close>

definition top_of :: "window_mgr \<Rightarrow> nat list \<Rightarrow> int \<times> int \<Rightarrow> nat option" where
  "top_of wm ps pt = find (\<lambda>p. visible (wins wm p) \<and> pt \<in> px wm (Struc p)) ps"

definition owner :: "window_mgr \<Rightarrow> int \<times> int \<Rightarrow> nat option" where
  "owner wm pt = top_of wm (front wm) pt"

lemma top_of_simps [simp]:
  "top_of wm [] pt = None"
  "top_of wm (p # ps) pt = (if visible (wins wm p) \<and> pt \<in> px wm (Struc p) then Some p else top_of wm ps pt)"
  by (auto simp: top_of_def)

lemma top_of_SomeD: "top_of wm ps pt = Some p \<Longrightarrow> p \<in> set ps \<and> visible (wins wm p) \<and> pt \<in> px wm (Struc p)"
  by (induction ps) (auto split: if_splits)

lemma top_of_cong:
  "(\<And>p. p \<in> set ps \<Longrightarrow> visible (wins wm p) \<and> pt \<in> px wm (Struc p) \<longleftrightarrow> visible (wins wm' p) \<and> pt \<in> px wm' (Struc p)) \<Longrightarrow>
     top_of wm ps pt = top_of wm' ps pt"
  by (induction ps) auto

lemma top_of_before: "w \<in> set ps \<Longrightarrow> visible (wins wm w) \<Longrightarrow>
    top_of wm ps pt = Some w \<longleftrightarrow> pt \<in> px wm (Struc w) - cover wm (before w ps)"
  by (induction ps) (auto simp: cover_def before_def dest: top_of_SomeD)

lemma vis_owner: "w \<in> set (front wm) \<Longrightarrow> visible (wins wm w) \<Longrightarrow> vis wm w = {pt. pt \<notin> overlay wm \<and> owner wm pt = Some w}"
  by (auto simp: vis_def owner_def top_of_before)

section \<open>Distribution of an exposure\<close>

definition stays :: "nat option \<Rightarrow> nat list \<Rightarrow> nat list" where
  "stays departing ps = filter (\<lambda>p. departing \<noteq> Some p) ps"

definition claims :: "window_mgr \<Rightarrow> nat list \<Rightarrow> (int \<times> int) set \<Rightarrow> nat option \<Rightarrow> (int \<times> int) set" where
  "claims wm ps ex q = {pt \<in> ex. top_of wm ps pt = q}"

definition dealt :: "window_mgr \<Rightarrow> nat list \<Rightarrow> (int \<times> int) set \<Rightarrow> slot \<Rightarrow> (int \<times> int) set" where
  "dealt wm ps ex s = px wm s \<union> (case s of Update p \<Rightarrow> claims wm ps ex (Some p) | _ \<Rightarrow> {})"

lemma dealt_other [simp]: "(\<And>p. s \<noteq> Update p) \<Longrightarrow> dealt wm ps ex s = px wm s"
  by (cases s) (auto simp: dealt_def)

lemma dealt_Update: "dealt wm ps ex (Update p) = px wm (Update p) \<union> claims wm ps ex (Some p)"
  by (simp add: dealt_def)

text \<open>One window takes its part of the exposure.\<close>

lemma dealt_step:
  assumes "visible (wins wm p)" "departing \<noteq> Some p" "wins wm' = wins wm" "exposed \<noteq> Update p"
    and "exposed \<notin> range Struc" "agree {ScrA, ScrC, exposed, Update p} (px wm') (px wm)"
    and "px wm' exposed = px wm exposed - px wm (Struc p)"
    and "px wm' (Update p) = px wm (Update p) \<union> px wm exposed \<inter> px wm (Struc p)"
  shows "claims wm' (stays departing ps) (px wm' exposed) None = claims wm (stays departing (p # ps)) (px wm exposed) None"
    and "s \<notin> {ScrA, ScrC, exposed} \<Longrightarrow>
      dealt wm' (stays departing ps) (px wm' exposed) s = dealt wm (stays departing (p # ps)) (px wm exposed) s"
proof -
  have t: "top_of wm' (stays departing ps) pt = top_of wm (stays departing ps) pt" for pt
    by (rule top_of_cong) (use assms(3,5,6) in \<open>auto simp: agree_def\<close>)
  have s: "stays departing (p # ps) = p # stays departing ps" using assms(2) by (simp add: stays_def)
  show c: "claims wm' (stays departing ps) (px wm' exposed) None = claims wm (stays departing (p # ps)) (px wm exposed) None"
    using assms(1,7) by (auto simp: claims_def t s)
  have d: "claims wm (stays departing (p # ps)) (px wm exposed) (Some r) =
      claims wm' (stays departing ps) (px wm' exposed) (Some r) \<union> (if r = p then px wm exposed \<inter> px wm (Struc p) else {})" for r
    using assms(1,7) by (auto simp: claims_def t s)
  show "dealt wm' (stays departing ps) (px wm' exposed) s = dealt wm (stays departing (p # ps)) (px wm exposed) s"
    if "s \<notin> {ScrA, ScrC, exposed}"
    using that assms(6,8) by (cases "s = Update p") (auto simp: dealt_def d agree_def split: slot.splits)
qed

lemma take_part:
  assumes "exposed \<notin> {ScrA, ScrC, Update p}" "exposed \<notin> range Struc" "grid X Y wm"
    and "\<And>wm'. grid X Y wm' \<Longrightarrow> keeps wm wm' \<Longrightarrow> agree {ScrA, ScrC, exposed, Update p} (px wm') (px wm) \<Longrightarrow>
      px wm' exposed = px wm exposed - px wm (Struc p) \<Longrightarrow> px wm' (Update p) = px wm (Update p) \<union> px wm ScrC \<Longrightarrow> runs X Y (k wm') R"
  shows "runs X Y (do {
      wm2 \<leftarrow> rgn_accumulate wm (Update p) ScrC RGN_OP_UNION ScrA;
      wm3 \<leftarrow> rop wm2 ScrA exposed (Struc p) RGN_OP_DIFF;
      wm4 \<leftarrow> rgn_copy wm3 exposed ScrA;
      k wm4 }) R"
  apply (rule runs_bind [OF accumulate_runs [OF assms(3)]])
  apply (rule runs_bind [OF rop_runs], assumption)
  apply (rule runs_bind [OF copy_runs], assumption)
  apply (rule assms(4), assumption)
  using assms(1,2) by (auto simp: keeps_def agree_def)

lemma distribute_from_runs:
  assumes "grid X Y wm" "exposed = ScrB \<or> (\<exists>d. exposed = Update d \<and> departing = Some d)"
  shows "runs X Y (distribute_from departing exposed ps wm) (\<lambda>wm'. keeps wm wm' \<and>
    agree {ScrA, ScrC} (px wm') ((dealt wm (stays departing ps) (px wm exposed))
      (exposed := claims wm (stays departing ps) (px wm exposed) None)))"
  using assms(1)
proof (induction ps arbitrary: wm)
  case Nil
  then show ?case by (auto simp: runs_def agree_def stays_def claims_def dealt_def split: slot.splits)
next
  case (Cons p ps)
  let ?Q = "\<lambda>wm'. keeps wm wm' \<and> agree {ScrA, ScrC} (px wm') ((dealt wm (stays departing (p # ps)) (px wm exposed))
      (exposed := claims wm (stays departing (p # ps)) (px wm exposed) None))"
  have skip: "runs X Y (distribute_from departing exposed ps wm1) ?Q"
    if "grid X Y wm1" "keeps wm wm1" "agree {ScrC} (px wm1) (px wm)"
      "departing = Some p \<or> \<not> visible (wins wm p) \<or> px wm exposed \<inter> px wm (Struc p) = {}" for wm1
  proof -
    have e: "px wm1 exposed = px wm exposed" using that(3) assms(2) by (auto simp: agree_def)
    have c: "claims wm1 (stays departing ps) (px wm exposed) q = claims wm (stays departing (p # ps)) (px wm exposed) q" for q
    proof -
      have "top_of wm1 (stays departing ps) pt = top_of wm (stays departing ps) pt" for pt
        by (rule top_of_cong) (use that(2,3) in \<open>auto simp: keeps_def agree_def\<close>)
      with that(4) show ?thesis by (auto simp: claims_def stays_def)
    qed
    show ?thesis
      apply (rule runs_weaken [OF Cons.IH [OF that(1)]])
      using that(2,3) by (auto simp: e c keeps_def agree_def dealt_def split: slot.splits)
  qed
  have took: "runs X Y (distribute_from departing exposed ps wm1) ?Q"
    if g: "grid X Y wm1" "keeps wm wm1" and p: "departing \<noteq> Some p" "visible (wins wm p)"
      and a: "agree {ScrA, ScrC, exposed, Update p} (px wm1) (px wm)"
      and e: "px wm1 exposed = px wm exposed - px wm (Struc p)"
      and u: "px wm1 (Update p) = px wm (Update p) \<union> px wm exposed \<inter> px wm (Struc p)" for wm1
  proof -
    have "exposed \<noteq> Update p" "exposed \<notin> range Struc" "exposed \<notin> {ScrA, ScrC}" "wins wm1 = wins wm"
      using assms(2) p g(2) by (auto simp: keeps_def)
    note d = dealt_step [OF p(2,1) this(4,1,2) a e u, where ps = ps]
    show ?thesis
      apply (rule runs_weaken [OF Cons.IH [OF g(1)]])
      using d keeps_trans [OF g(2)] by (simp add: agree_def)
  qed
  show ?case
  proof (cases "departing = Some p \<or> \<not> visible (wins wm p)")
    case True
    with skip [OF Cons.prems] show ?thesis by (auto simp del: fun_upd_apply)
  next
    case False
    show ?thesis
    proof (cases "px wm exposed = {}")
      case True
      with False Cons.prems show ?thesis
        by (auto simp: runs_def empty_px agree_def dealt_def claims_def split: slot.splits)
    next
      case ne: False
      have "runs X Y (do {
        wm1 \<leftarrow> rop wm ScrC exposed (Struc p) RGN_OP_INTERSECT;
        (if region_is_empty (rgn wm1 ScrC) then distribute_from departing exposed ps wm1
         else do {
           wm2 \<leftarrow> rgn_accumulate wm1 (Update p) ScrC RGN_OP_UNION ScrA;
           wm3 \<leftarrow> rop wm2 ScrA exposed (Struc p) RGN_OP_DIFF;
           wm4 \<leftarrow> rgn_copy wm3 exposed ScrA;
           distribute_from departing exposed ps wm4 }) }) ?Q"
        apply (rule runs_bind [OF rop_runs [OF Cons.prems]])
        subgoal for wm1
          apply (cases "px wm1 ScrC = {}")
           apply (simp add: empty_px del: fun_upd_apply)
           apply (rule skip)
              apply assumption
             apply simp
            apply (simp add: agree_def)
           apply simp
          apply (simp add: empty_px del: fun_upd_apply)
          apply (rule take_part)
          using assms(2) False apply auto[2]
           apply assumption
          apply (rule took)
          using False assms(2) by (auto simp: keeps_def agree_def)
        done
      with False ne Cons.prems show ?thesis by (simp add: empty_px del: fun_upd_apply)
    qed
  qed
qed

text \<open>What a routine that gives an exposure away does to all slots.\<close>

definition given :: "window_mgr \<Rightarrow> nat list \<Rightarrow> (int \<times> int) set \<Rightarrow> slot \<Rightarrow> (int \<times> int) set" where
  "given wm ps ex s = px wm s \<union> (case s of Update p \<Rightarrow> claims wm ps ex (Some p) | Desk \<Rightarrow> claims wm ps ex None | _ \<Rightarrow> {})"

lemma distribute_exposure_runs:
  assumes "grid X Y wm" "exposed = ScrB \<or> (\<exists>d. exposed = Update d \<and> departing = Some d)"
  shows "runs X Y (distribute_exposure wm departing exposed) (\<lambda>wm'. keeps wm wm' \<and>
    agree {ScrA, ScrC, exposed} (px wm') (given wm (stays departing (front wm)) (px wm exposed)))"
  unfolding distribute_exposure_def
  apply (rule runs_bind [OF distribute_from_runs [OF assms]])
  subgoal for wm1
    apply (cases "px wm1 exposed = {}")
    using assms(2)
     apply (auto simp: runs_def empty_px agree_def given_def dealt_def split: slot.splits)[1]
    apply (simp add: empty_px del: fun_upd_apply)
    apply (rule runs_weaken [OF accumulate_runs], assumption)
    using assms(2) by (auto simp: keeps_def agree_def given_def dealt_def split: slot.splits)
  done

lemma invalidate_runs:
  assumes "grid X Y wm" "rect_is_empty rc \<or> rect_on X Y rc" "w \<in> set (front wm)"
  shows "runs X Y (WindowMgr_invalidate wm w rc) (\<lambda>wm'. keeps wm wm' \<and>
    agree scr (px wm') ((px wm)(Update w := px wm (Update w) \<union> (if visible (wins wm w) then rect_pixs rc \<inter> vis wm w else {}))))"
proof (cases "visible (wins wm w)")
  case False
  with assms show ?thesis by (auto simp: runs_def WindowMgr_invalidate_def list_contains_def agree_def)
next
  case True
  have v: "runs X Y (visible_into wm w ScrB False) (\<lambda>wm'. keeps wm wm' \<and> agree {ScrA, ScrC} (px wm') ((px wm)(ScrB := vis wm w)))"
    unfolding visible_into_def
    apply simp
    apply (rule runs_bind [OF fronts_union_runs [OF assms(1)]])
    apply (rule runs_weaken [OF rop_runs], assumption)
    by (auto simp: keeps_def agree_def vis_def)
  have "runs X Y (do {
        wm1 \<leftarrow> visible_into wm w ScrB False;
        wm2 \<leftarrow> set_rgn wm1 ScrA rc;
        wm3 \<leftarrow> rop wm2 ScrC ScrA ScrB RGN_OP_INTERSECT;
        rgn_accumulate wm3 (Update w) ScrC RGN_OP_UNION ScrA }) (\<lambda>wm'. keeps wm wm' \<and>
    agree scr (px wm') ((px wm)(Update w := px wm (Update w) \<union> rect_pixs rc \<inter> vis wm w)))"
    apply (rule runs_bind [OF v])
    apply (rule runs_bind [OF set_rgn_runs [OF _ assms(2)]], assumption)
    apply (rule runs_bind [OF rop_runs], assumption)
    apply (rule runs_weaken [OF accumulate_runs], assumption)
    by (auto simp: keeps_def agree_def)
  with True assms(3) show ?thesis by (simp add: WindowMgr_invalidate_def list_contains_def del: fun_upd_apply)
qed

lemma invalidate_desktop_runs:
  assumes "grid X Y wm" "rect_is_empty rc \<or> rect_on X Y rc" "rect_is_empty (desktop_frame wm) \<or> rect_on X Y (desktop_frame wm)"
  shows "runs X Y (WindowMgr_invalidate_desktop wm rc) (\<lambda>wm'. keeps wm wm' \<and>
    agree scr (px wm') (given wm (front wm) (rect_pixs rc \<inter> rect_pixs (desktop_frame wm))))"
  unfolding WindowMgr_invalidate_desktop_def
  apply (rule runs_bind [OF set_rgn_runs [OF assms(1,2)]])
  apply (rule runs_bind [OF set_rgn_runs], assumption)
  using assms(3) apply (simp add: keeps_def)
  apply (rule runs_bind [OF rop_runs], assumption)
  apply (rule runs_weaken [OF distribute_exposure_runs], assumption)
   apply simp
  subgoal for wm1 wm2 wm3 wm'
    using top_of_cong [of "front wm" wm3 _ wm]
    by (auto simp: keeps_def agree_def given_def claims_def stays_def split: slot.splits)
  done

section \<open>Activation\<close>

text \<open>The window that shall be highlighted: the first visible one.\<close>

definition active :: "window_mgr \<Rightarrow> nat option" where
  "active wm = find (\<lambda>p. visible (wins wm p)) (front wm)"

definition with_hilite :: "nat option \<Rightarrow> nat set \<Rightarrow> (nat \<Rightarrow> window_rec) \<Rightarrow> nat \<Rightarrow> window_rec" where
  "with_hilite act S ws q = (if q \<in> S then (ws q)\<lparr>hilited := (act = Some q)\<rparr> else ws q)"

lemma with_hilite_visible [simp]: "visible (with_hilite act S ws q) = visible (ws q)"
  by (simp add: with_hilite_def)

text \<open>A window whose highlight changes owes a repaint of its visible part.\<close>

definition flipped :: "window_mgr \<Rightarrow> nat option \<Rightarrow> nat set \<Rightarrow> slot \<Rightarrow> (int \<times> int) set" where
  "flipped wm act S s = px wm s \<union> (case s of Update p \<Rightarrow>
     if p \<in> S \<and> visible (wins wm p) \<and> hilited (wins wm p) \<noteq> (act = Some p) then vis wm p else {} | _ \<Rightarrow> {})"

definition keeps_but_wins :: "window_mgr \<Rightarrow> window_mgr \<Rightarrow> bool" where
  "keeps_but_wins wm wm' \<longleftrightarrow> front wm' = front wm \<and> desktop_frame wm' = desktop_frame wm \<and>
     has_overlay wm' = has_overlay wm \<and> scrolls wm' = scrolls wm \<and> engine wm' = engine wm"

lemma vis_struc: "vis wm w \<subseteq> px wm (Struc w)"
  by (auto simp: vis_def)

lemma vis_cong:
  assumes "front wm' = front wm" "has_overlay wm' = has_overlay wm" "\<And>q. visible (wins wm' q) = visible (wins wm q)"
    and "\<And>q. px wm' (Struc q) = px wm (Struc q)" "px wm' Overlay = px wm Overlay"
  shows "vis wm' w = vis wm w"
  using assms by (simp add: vis_def cover_def overlay_def)

lemma set_win_simps [simp]:
  "front (set_win wm w f) = front wm" "rgn (set_win wm w f) = rgn wm" "desktop_frame (set_win wm w f) = desktop_frame wm"
  "has_overlay (set_win wm w f) = has_overlay wm" "scrolls (set_win wm w f) = scrolls wm" "engine (set_win wm w f) = engine wm"
  "px (set_win wm w f) = px wm" "wins (set_win wm w f) = (wins wm)(w := f (wins wm w))" "grid X Y (set_win wm w f) = grid X Y wm"
  by (simp_all add: set_win_def px_def grid_def fun_eq_iff)

lemma vis_set_win: "(\<And>r. visible (f r) = visible r) \<Longrightarrow> vis (set_win wm w f) q = vis wm q"
  by (rule vis_cong) auto

lemma struc_bbox: "grid X Y wm \<Longrightarrow> px wm (Struc w) \<subseteq> rect_pixs (region_get_bbox (rgn wm (Struc w)))"
  unfolding grid_def px_def using pixs_bbox gridded_simps(1) by blast

lemma struc_bbox_on: "grid X Y wm \<Longrightarrow>
    rect_is_empty (region_get_bbox (rgn wm (Struc w))) \<or> rect_on X Y (region_get_bbox (rgn wm (Struc w)))"
  by (simp add: grid_def bbox_on)

lemma reaffirm_from_runs:
  assumes "grid X Y wm" "set ps \<subseteq> set (front wm)" "distinct ps"
    and "act = (if seen then None else find (\<lambda>p. visible (wins wm p)) ps)"
  shows "runs X Y (reaffirm_from ps seen wm) (\<lambda>wm'. keeps_but_wins wm wm' \<and> wins wm' = with_hilite act (set ps) (wins wm) \<and>
    agree scr (px wm') (flipped wm act (set ps)))"
  using assms
proof (induction ps arbitrary: seen wm act)
  case Nil
  then show ?case by (auto simp: runs_def keeps_but_wins_def with_hilite_def agree_def flipped_def split: slot.splits)
next
  case (Cons p ps)
  define now where "now = (\<not> seen \<and> visible (wins wm p))"
  define act' where "act' = (if seen \<or> now then None else find (\<lambda>q. visible (wins wm q)) ps)"
  define wm1 where "wm1 = set_win wm p (\<lambda>r. r\<lparr>hilited := now\<rparr>)"
  have w1: "grid X Y wm1" "front wm1 = front wm" "\<And>s. rgn wm1 s = rgn wm s" "px wm1 = px wm"
    "\<And>q. visible (wins wm1 q) = visible (wins wm q)" "keeps_but_wins wm wm1" "\<And>q. vis wm1 q = vis wm q"
    "wins wm1 = (wins wm)(p := (wins wm p)\<lparr>hilited := now\<rparr>)"
    using Cons.prems(1) by (simp_all add: wm1_def keeps_but_wins_def vis_set_win)
  have act: "now \<longleftrightarrow> act = Some p" "q \<in> set ps \<Longrightarrow> act' = Some q \<longleftrightarrow> act = Some q" for q
    using Cons.prems(3,4) by (auto simp: now_def act'_def find_Some_iff split: if_splits)
  let ?g = "if visible (wins wm p) \<and> hilited (wins wm p) \<noteq> now then vis wm p else {}"
  have step: "runs X Y (if hilited (wins wm p) \<noteq> now then WindowMgr_invalidate wm1 p (region_get_bbox (rgn wm1 (Struc p))) else Some wm1)
    (\<lambda>wm2. keeps wm1 wm2 \<and> agree scr (px wm2) ((px wm)(Update p := px wm (Update p) \<union> ?g)))"
  proof (cases "hilited (wins wm p) \<noteq> now")
    case True
    have p: "p \<in> set (front wm1)" using Cons.prems(2) w1(2) by simp
    have b: "rect_pixs (region_get_bbox (rgn wm1 (Struc p))) \<inter> vis wm1 p = vis wm p"
      using struc_bbox [OF w1(1), of p] vis_struc [of wm1 p] w1(7) by auto
    show ?thesis
      unfolding if_P [OF True]
      by (rule runs_weaken [OF invalidate_runs [OF w1(1) struc_bbox_on [OF w1(1)] p]])
        (use True in \<open>auto simp: b w1(4,5)\<close>)
  next
    case False
    with w1(1,4) show ?thesis by (auto simp: runs_def agree_def)
  qed
  show ?case
    unfolding reaffirm_from.simps Let_def now_def [symmetric] wm1_def [symmetric]
    apply (rule runs_bind [OF step])
    subgoal premises pr for wm2
    proof -
      note k = conjunct1 [OF pr(2), unfolded keeps_def] and a = conjunct2 [OF pr(2)]
      have v0: "visible (wins wm2 r) = visible (wins wm r)" for r using k w1(5) by simp
      have v1: "vis wm2 q = vis wm q" for q
        by (rule vis_cong) (use k w1 a v0 in \<open>auto simp: agree_def keeps_but_wins_def\<close>)
      note v = v0 v1
      have i: "set ps \<subseteq> set (front wm2)" "distinct ps" "act' = (if seen \<or> now then None else find (\<lambda>q. visible (wins wm2 q)) ps)"
        using Cons.prems(2,3) conjunct1 [OF k] w1(2) by (auto simp: act'_def v)
      have w: "with_hilite act' (set ps) (wins wm2) = with_hilite act (set (p # ps)) (wins wm)"
        using act k w1(8) Cons.prems(3) by (auto simp: with_hilite_def fun_eq_iff)
      have f: "flipped wm2 act' (set ps) s = flipped wm act (set (p # ps)) s" if "s \<notin> scr" for s
      proof (cases s)
        case (Update q)
        then show ?thesis using act a k w1(8) Cons.prems(3) that by (auto simp: flipped_def v agree_def)
      qed (use a that in \<open>auto simp: flipped_def agree_def\<close>)
      show ?thesis
        apply (rule runs_weaken [OF Cons.IH [OF pr(1) i]])
        using w f k w1(6) by (auto simp: keeps_but_wins_def agree_def)
    qed
    done
qed

lemma reaffirm_runs:
  assumes "grid X Y wm" "distinct (front wm)"
  shows "runs X Y (reaffirm_active wm) (\<lambda>wm'. keeps_but_wins wm wm' \<and>
    wins wm' = with_hilite (active wm) (set (front wm)) (wins wm) \<and> agree scr (px wm') (flipped wm (active wm) (set (front wm))))"
  unfolding reaffirm_active_def active_def by (rule reaffirm_from_runs [OF assms(1) order_refl assms(2)]) simp

end
