(* ===== verification/WindowOps.thy ===== *)
theory WindowOps imports WindowCalc begin

text \<open>
  What each operation on a window does to the pixel sets of the manager: the structure and content it builds, the
  pixels other windows and the desktop gain, and the repaint an activation seeds.
\<close>

section \<open>Structure and content as pixel sets\<close>

definition ok_rect :: "int set \<Rightarrow> int set \<Rightarrow> rgn_rect \<Rightarrow> bool" where
  "ok_rect X Y rc \<longleftrightarrow> rect_is_empty rc \<or> rect_on X Y rc"

definition shadow_rects :: "rgn_rect \<Rightarrow> rgn_rect list" where
  "shadow_rects fr =
     [mk_rect (i16 (rtop fr + SHADOW_NOTCH)) (rright fr) (i16 (rbottom fr + SHADOW_OFFSET)) (i16 (rright fr + SHADOW_OFFSET)),
      mk_rect (rbottom fr) (i16 (rleft fr + SHADOW_NOTCH)) (i16 (rbottom fr + SHADOW_OFFSET)) (i16 (rright fr + SHADOW_OFFSET))]"

definition rects_px :: "rgn_rect list \<Rightarrow> (int \<times> int) set" where
  "rects_px rs = (\<Union>r \<in> set rs. rect_pixs r)"

definition frame_px :: "rgn_rect \<Rightarrow> int \<Rightarrow> (int \<times> int) set" where
  "frame_px fr variant =
     (if variant = rDocProc then rect_pixs fr - rects_px (concat (map (\<lambda>(a, b). [a, b]) (corner_rects fr)))
      else if document_variant variant then rect_pixs fr \<union> rects_px (shadow_rects fr) else rect_pixs fr)"

definition struct_on :: "int set \<Rightarrow> int set \<Rightarrow> rgn_rect \<Rightarrow> int \<Rightarrow> bool" where
  "struct_on X Y fr variant \<longleftrightarrow> ok_rect X Y fr \<and>
     (variant = rDocProc \<longrightarrow> (\<forall>(a, b) \<in> set (corner_rects fr). ok_rect X Y a \<and> ok_rect X Y b)) \<and>
     (document_variant variant \<longrightarrow> rright fr \<noteq> INT16_MAX \<and> rbottom fr \<noteq> INT16_MAX \<and> (\<forall>r \<in> set (shadow_rects fr). ok_rect X Y r))"

definition content_px :: "rgn_rect \<Rightarrow> int \<Rightarrow> (int \<times> int) set" where
  "content_px c variant = rect_pixs c - (if variant = rDocProc then rects_px (notch_rects c) else {})"

definition content_on :: "int set \<Rightarrow> int set \<Rightarrow> rgn_rect \<Rightarrow> int \<Rightarrow> bool" where
  "content_on X Y c variant \<longleftrightarrow> ok_rect X Y c \<and> (variant = rDocProc \<longrightarrow> (\<forall>r \<in> set (notch_rects c). ok_rect X Y r))"

lemma rects_px_simps [simp]: "rects_px [] = {}" "rects_px (r # rs) = rect_pixs r \<union> rects_px rs" "rects_px (as @ bs) = rects_px as \<union> rects_px bs"
  by (auto simp: rects_px_def)

lemma set_rgn_ok: "grid X Y wm \<Longrightarrow> ok_rect X Y rc \<Longrightarrow>
    runs X Y (set_rgn wm s rc) (\<lambda>wm'. keeps wm wm' \<and> px wm' = (px wm)(s := rect_pixs rc))"
  by (rule set_rgn_runs) (simp_all add: ok_rect_def)

lemma cut_corners_runs:
  assumes "grid X Y wm" "\<forall>(a, b) \<in> set lrs. ok_rect X Y a \<and> ok_rect X Y b"
  shows "runs X Y (cut_corners lrs wm) (\<lambda>wm'. keeps wm wm' \<and>
    agree {ScrB, ScrC} (px wm') ((px wm)(ScrA := px wm ScrA - rects_px (concat (map (\<lambda>(a, b). [a, b]) lrs)))))"
  using assms
proof (induction lrs arbitrary: wm)
  case Nil
  then show ?case by (auto simp: runs_def agree_def)
next
  case (Cons lr lrs)
  have ok: "ok_rect X Y (fst lr)" "ok_rect X Y (snd lr)" using Cons.prems(2) by auto
  show ?case
    unfolding cut_corners.simps
    apply (rule runs_bind [OF set_rgn_ok [OF Cons.prems(1) ok(1)]])
    apply (rule runs_bind [OF rop_runs], assumption)
    apply (rule runs_bind [OF set_rgn_ok [OF _ ok(2)]], assumption)
    apply (rule runs_bind [OF rop_runs], assumption)
    apply (rule runs_weaken [OF Cons.IH], assumption)
    using Cons.prems(2) by (auto simp: keeps_def agree_def split: prod.splits)
qed

lemma structure_runs:
  assumes "grid X Y wm" "struct_on X Y fr variant"
  shows "runs X Y (structure_scratch wm fr variant)
    (\<lambda>wm'. keeps wm wm' \<and> agree {ScrB, ScrC} (px wm') ((px wm)(ScrA := frame_px fr variant)))"
proof -
  have fr: "ok_rect X Y fr" using assms(2) by (simp add: struct_on_def)
  consider (r) "variant = rDocProc" | (d) "variant \<noteq> rDocProc" "document_variant variant" | (n) "variant \<noteq> rDocProc" "\<not> document_variant variant" by blast
  then show ?thesis
  proof cases
    case r
    have "runs X Y (do {wm1 \<leftarrow> set_rgn wm ScrA fr; cut_corners (corner_rects fr) wm1})
      (\<lambda>wm'. keeps wm wm' \<and> agree {ScrB, ScrC} (px wm') ((px wm)(ScrA := frame_px fr variant)))"
      apply (rule runs_bind [OF set_rgn_ok [OF assms(1) fr]])
      apply (rule runs_weaken [OF cut_corners_runs], assumption)
      using assms(2) r by (auto simp: keeps_def agree_def frame_px_def struct_on_def)
    with r show ?thesis by (simp add: structure_scratch_def del: fun_upd_apply)
  next
    case d
    let ?s1 = "shadow_rects fr ! 0" and ?s2 = "shadow_rects fr ! 1"
    have ok: "ok_rect X Y ?s1" "ok_rect X Y ?s2" "\<not> (rright fr = INT16_MAX \<or> rbottom fr = INT16_MAX)"
      using assms(2) d by (auto simp: struct_on_def shadow_rects_def)
    have "runs X Y (do {wm1 \<leftarrow> set_rgn wm ScrA fr; wm2 \<leftarrow> set_rgn wm1 ScrB ?s1; wm3 \<leftarrow> rop wm2 ScrC ScrA ScrB RGN_OP_UNION;
        wm4 \<leftarrow> set_rgn wm3 ScrB ?s2; rop wm4 ScrA ScrC ScrB RGN_OP_UNION})
      (\<lambda>wm'. keeps wm wm' \<and> agree {ScrB, ScrC} (px wm') ((px wm)(ScrA := frame_px fr variant)))"
      apply (rule runs_bind [OF set_rgn_ok [OF assms(1) fr]])
      apply (rule runs_bind [OF set_rgn_ok [OF _ ok(1)]], assumption)
      apply (rule runs_bind [OF rop_runs], assumption)
      apply (rule runs_bind [OF set_rgn_ok [OF _ ok(2)]], assumption)
      apply (rule runs_weaken [OF rop_runs], assumption)
      using d by (auto simp: keeps_def agree_def frame_px_def shadow_rects_def)
    with d ok(3) show ?thesis by (simp add: structure_scratch_def shadow_rects_def del: fun_upd_apply)
  next
    case n
    have "runs X Y (do {wm1 \<leftarrow> set_rgn wm ScrA fr; Some wm1})
      (\<lambda>wm'. keeps wm wm' \<and> agree {ScrB, ScrC} (px wm') ((px wm)(ScrA := frame_px fr variant)))"
      apply (rule runs_bind [OF set_rgn_ok [OF assms(1) fr]])
      using n by (auto simp: runs_def agree_def frame_px_def)
    with n show ?thesis by (simp add: structure_scratch_def del: fun_upd_apply)
  qed
qed

lemma cut_notches_runs:
  assumes "grid X Y wm" "\<forall>r \<in> set rs. ok_rect X Y r"
  shows "runs X Y (cut_notches w rs wm) (\<lambda>wm'. keeps wm wm' \<and>
    agree {ScrB, ScrC} (px wm') ((px wm)(Cont w := px wm (Cont w) - rects_px rs)))"
  using assms
proof (induction rs arbitrary: wm)
  case Nil
  then show ?case by (auto simp: runs_def agree_def)
next
  case (Cons r rs)
  have ok: "ok_rect X Y r" using Cons.prems(2) by auto
  show ?case
    unfolding cut_notches.simps
    apply (rule runs_bind [OF set_rgn_ok [OF Cons.prems(1) ok]])
    apply (rule runs_bind [OF rop_runs], assumption)
    apply (rule runs_bind [OF copy_runs], assumption)
    apply (rule runs_weaken [OF Cons.IH], assumption)
    using Cons.prems(2) by (auto simp: keeps_def agree_def)
qed

lemma content_runs:
  assumes "grid X Y wm" "content_on X Y c (windowDefProcVariant (wins wm w))"
  shows "runs X Y (set_content wm w c) (\<lambda>wm'. keeps wm wm' \<and>
    agree {ScrB, ScrC} (px wm') ((px wm)(Cont w := content_px c (windowDefProcVariant (wins wm w)))))"
proof -
  have c: "ok_rect X Y c" using assms(2) by (simp add: content_on_def)
  show ?thesis
    unfolding set_content_def
    apply (rule runs_bind [OF set_rgn_ok [OF assms(1) c]])
    subgoal for wm1
      apply (cases "windowDefProcVariant (wins wm1 w) \<noteq> rDocProc")
       apply (simp add: runs_def agree_def keeps_def content_px_def)
      apply (simp del: fun_upd_apply)
      apply (rule runs_weaken [OF cut_notches_runs], assumption)
      using assms(2) by (auto simp: keeps_def agree_def content_px_def content_on_def)
    done
qed

section \<open>Owners with one window changed\<close>

definition desk :: "window_mgr \<Rightarrow> (int \<times> int) set" where
  "desk wm = rect_pixs (desktop_frame wm) - overlay wm"

text \<open>The pixels of the desktop whose owner became \<open>o\<close>.\<close>

definition gained :: "window_mgr \<Rightarrow> window_mgr \<Rightarrow> nat option \<Rightarrow> (int \<times> int) set" where
  "gained wm wm' q = {pt \<in> desk wm. owner wm pt \<noteq> q \<and> owner wm' pt = q}"

abbreviation others :: "nat \<Rightarrow> window_mgr \<Rightarrow> nat list" where
  "others w wm \<equiv> stays (Some w) (front wm)"

lemma top_of_stays: "top_of wm ps pt \<noteq> Some w \<Longrightarrow> top_of wm ps pt = top_of wm (stays (Some w) ps) pt"
  by (induction ps) (auto simp: stays_def split: if_splits)

lemma top_of_without: "\<not> (w \<in> set ps \<and> visible (wins wm w) \<and> pt \<in> px wm (Struc w)) \<Longrightarrow> top_of wm ps pt = top_of wm (stays (Some w) ps) pt"
  by (rule top_of_stays) (auto dest: top_of_SomeD)

text \<open>Two states that differ, as far as covering goes, in window \<open>w\<close> only.\<close>

definition apart_from :: "nat \<Rightarrow> window_mgr \<Rightarrow> window_mgr \<Rightarrow> bool" where
  "apart_from w wm wm' \<longleftrightarrow> others w wm' = others w wm \<and> desktop_frame wm' = desktop_frame wm \<and>
     has_overlay wm' = has_overlay wm \<and> px wm' Overlay = px wm Overlay \<and>
     (\<forall>q. q \<noteq> w \<longrightarrow> px wm' (Struc q) = px wm (Struc q) \<and> px wm' (Cont q) = px wm (Cont q) \<and>
        (wins wm' q)\<lparr>hilited := hilited (wins wm q)\<rparr> = wins wm q)"

lemma hilite_only_visible: "r\<lparr>hilited := b\<rparr> = s \<Longrightarrow> visible r = visible s"
  by (metis window_rec.select_convs(3) window_rec.surjective window_rec.update_convs(4))

lemma apart_window:
  assumes "apart_from w wm wm'" "q \<noteq> w"
  shows "visible (wins wm' q) = visible (wins wm q)" "px wm' (Struc q) = px wm (Struc q)"
proof -
  from assms have h: "(wins wm' q)\<lparr>hilited := hilited (wins wm q)\<rparr> = wins wm q" by (simp add: apart_from_def)
  show "visible (wins wm' q) = visible (wins wm q)" by (rule hilite_only_visible [OF h])
  show "px wm' (Struc q) = px wm (Struc q)" using assms by (simp add: apart_from_def)
qed

lemma apart_others:
  assumes "apart_from w wm wm'"
  shows "top_of wm' (others w wm') pt = top_of wm (others w wm) pt"
proof -
  have "top_of wm' (others w wm') pt = top_of wm (others w wm') pt"
  proof (rule top_of_cong)
    fix p assume "p \<in> set (others w wm')"
    then have "p \<noteq> w" by (auto simp: stays_def)
    from apart_window [OF assms this] show "(visible (wins wm' p) \<and> pt \<in> px wm' (Struc p)) = (visible (wins wm p) \<and> pt \<in> px wm (Struc p))" by simp
  qed
  with assms show ?thesis by (simp add: apart_from_def)
qed

lemma owner_others: "owner wm pt \<noteq> Some w \<Longrightarrow> owner wm pt = top_of wm (others w wm) pt"
  unfolding owner_def by (rule top_of_stays)

lemma owner_without: "\<not> (w \<in> set (front wm) \<and> visible (wins wm w) \<and> pt \<in> px wm (Struc w)) \<Longrightarrow> owner wm pt = top_of wm (others w wm) pt"
  unfolding owner_def by (rule top_of_without)

text \<open>Only \<open>w\<close> gives pixels away.\<close>

lemma gained_from:
  assumes "apart_from w wm wm'" "q \<noteq> Some w"
  shows "gained wm wm' q = {pt \<in> desk wm. owner wm pt = Some w \<and> owner wm' pt = q}"
proof -
  have "owner wm pt = owner wm' pt" if "owner wm pt \<noteq> Some w" "owner wm' pt \<noteq> Some w" for pt
    using owner_others [OF that(1)] owner_others [OF that(2)] apart_others [OF assms(1)] by simp
  with assms(2) show ?thesis by (auto simp: gained_def)
qed

section \<open>Exposure is exactly the change of owners\<close>

lemma gained_kept:
  assumes "apart_from w wm wm'" "owner wm pt = Some w" "front wm' = front wm" "visible (wins wm' w)" "pt \<in> px wm' (Struc w)"
  shows "owner wm' pt = Some w"
proof -
  have w: "w \<in> set (front wm)" "visible (wins wm w)" using assms(2) top_of_SomeD by (auto simp: owner_def)
  have "p \<noteq> w" if "p \<in> set (before w (front wm))" for p using that by (auto simp: before_def dest: set_takeWhileD)
  then have "cover wm' (before w (front wm)) = cover wm (before w (front wm))"
    using apart_window [OF assms(1)] by (fastforce simp: cover_def)
  with assms w show ?thesis by (simp add: owner_def top_of_before)
qed

lemma claims_gained:
  assumes "apart_from w wm wm'" "w \<in> set (front wm)" "visible (wins wm w)" "q \<noteq> Some w"
    and "shown \<longleftrightarrow> w \<in> set (front wm') \<and> visible (wins wm' w)" "shown \<Longrightarrow> front wm' = front wm"
    and "\<And>pt. top_of wmx (others w wm) pt = top_of wm (others w wm) pt"
  shows "claims wmx (others w wm) (vis wm w \<inter> rect_pixs (desktop_frame wm) - (if shown then px wm' (Struc w) else {})) q = gained wm wm' q"
proof -
  have iff: "owner wm' pt = q \<longleftrightarrow> pt \<notin> (if shown then px wm' (Struc w) else {}) \<and> top_of wm (others w wm) pt = q" if o: "owner wm pt = Some w" for pt
  proof (cases "shown \<and> pt \<in> px wm' (Struc w)")
    case True
    with gained_kept [OF assms(1) o] assms(4-6) show ?thesis by auto
  next
    case False
    then have "owner wm' pt = top_of wm' (others w wm') pt" using assms(5) by (intro owner_without) auto
    with apart_others [OF assms(1)] False show ?thesis by auto
  qed
  show ?thesis
    unfolding gained_from [OF assms(1,4)] vis_owner [OF assms(2,3)] claims_def assms(7) desk_def
  proof (intro set_eqI)
    fix pt
    show "pt \<in> {pt \<in> {pt. pt \<notin> overlay wm \<and> owner wm pt = Some w} \<inter> rect_pixs (desktop_frame wm) -
        (if shown then px wm' (Struc w) else {}). top_of wm (others w wm) pt = q} \<longleftrightarrow>
      pt \<in> {pt \<in> rect_pixs (desktop_frame wm) - overlay wm. owner wm pt = Some w \<and> owner wm' pt = q}"
      using iff [of pt] by (cases "owner wm pt = Some w") auto
  qed
qed

text \<open>A change of highlight makes a window owe its visible part.\<close>

definition flip :: "window_mgr \<Rightarrow> window_mgr \<Rightarrow> nat \<Rightarrow> (int \<times> int) set" where
  "flip wm wm' q = (if q \<in> set (front wm') \<and> visible (wins wm' q) \<and> hilited (wins wm' q) \<noteq> hilited (wins wm q) then vis wm' q else {})"

text \<open>The law of damage for an operation on \<open>w\<close>.\<close>

definition damage_law :: "nat \<Rightarrow> window_mgr \<Rightarrow> window_mgr \<Rightarrow> bool" where
  "damage_law w wm wm' \<longleftrightarrow> apart_from w wm wm' \<and>
     (\<forall>q. q \<noteq> w \<longrightarrow> px wm' (Update q) = px wm (Update q) \<union> gained wm wm' (Some q) \<union> flip wm wm' q) \<and>
     px wm' Desk = px wm Desk \<union> gained wm wm' None"

definition calm :: "nat \<Rightarrow> window_mgr \<Rightarrow> window_mgr \<Rightarrow> bool" where
  "calm w wm wm' \<longleftrightarrow> (\<forall>q. q \<noteq> w \<longrightarrow> wins wm' q = wins wm q)"

definition desk_frame_ok :: "int set \<Rightarrow> int set \<Rightarrow> window_mgr \<Rightarrow> bool" where
  "desk_frame_ok X Y wm \<longleftrightarrow> grid X Y wm \<and> ok_rect X Y (desktop_frame wm)"

lemma desk_frame_okD: "desk_frame_ok X Y wm \<Longrightarrow> grid X Y wm" "desk_frame_ok X Y wm \<Longrightarrow> rect_is_empty (desktop_frame wm) \<or> rect_on X Y (desktop_frame wm)"
  by (simp_all add: desk_frame_ok_def ok_rect_def)

text \<open>The state \<open>wm1\<close> holds in the update region of \<open>w\<close> what \<open>w\<close> showed and no longer covers; giving it away obeys the law.\<close>

definition ready_to_give :: "nat \<Rightarrow> window_mgr \<Rightarrow> window_mgr \<Rightarrow> bool" where
  "ready_to_give w wm wm1 \<longleftrightarrow> apart_from w wm wm1 \<and> calm w wm wm1 \<and>
     (\<forall>q. q \<noteq> w \<longrightarrow> px wm1 (Update q) = px wm (Update q)) \<and> px wm1 Desk = px wm Desk \<and>
     px wm1 (Update w) = vis wm w \<inter> rect_pixs (desktop_frame wm) -
       (if w \<in> set (front wm1) \<and> visible (wins wm1 w) then px wm1 (Struc w) else {}) \<and>
     (w \<in> set (front wm1) \<and> visible (wins wm1 w) \<longrightarrow> front wm1 = front wm)"

lemma give_runs:
  assumes "grid X Y wm1" "ready_to_give w wm wm1" "w \<in> set (front wm)" "visible (wins wm w)"
  shows "runs X Y (do { wm2 \<leftarrow> distribute_exposure wm1 (Some w) (Update w); Some (clear_rgn wm2 (Update w)) })
    (\<lambda>wm'. damage_law w wm wm' \<and> calm w wm wm' \<and> keeps wm1 wm' \<and> px wm' (Update w) = {} \<and>
       px wm' (Struc w) = px wm1 (Struc w) \<and> px wm' (Cont w) = px wm1 (Cont w))"
proof -
  let ?ex = "px wm1 (Update w)"
  note r = assms(2) [unfolded ready_to_give_def]
  have ap: "apart_from w wm wm1" using r by simp
  have o: "others w wm1 = others w wm" using ap by (simp add: apart_from_def)
  have c: "claims wm1 (others w wm1) ?ex q = gained wm wm1 q" if "q \<noteq> Some w" for q
    using claims_gained [OF ap assms(3,4) that refl, of wm1] r apart_others [OF ap] by (simp add: o)
  show ?thesis
    apply (rule runs_bind [OF distribute_exposure_runs [OF assms(1)]])
     apply simp
    subgoal premises pr for wm2
    proof -
      let ?wm' = "clear_rgn wm2 (Update w)"
      have k: "keeps wm1 ?wm'" using pr(2) clear_keeps keeps_trans by blast
      have p: "px ?wm' s = given wm1 (others w wm1) ?ex s" if "s \<notin> scr" "s \<noteq> Update w" for s
        using pr(2) that by (auto simp: clear_px agree_def)
      have g: "gained wm ?wm' q = gained wm wm1 q" for q
      proof -
        have "owner ?wm' pt = owner wm1 pt" for pt
          unfolding owner_def using k by (auto simp: keeps_def p given_def intro!: top_of_cong)
        then show ?thesis by (simp add: gained_def)
      qed
      have "apart_from w wm ?wm'" using ap k by (simp add: apart_from_def keeps_def p given_def)
      moreover have "calm w wm ?wm'" using r k by (simp add: calm_def keeps_def)
      moreover have "flip wm ?wm' q = {}" if "q \<noteq> w" for q using \<open>calm w wm ?wm'\<close> that by (simp add: flip_def calm_def)
      ultimately have "damage_law w wm ?wm'"
        using conjunct1 [OF conjunct2 [OF conjunct2 [OF r]]] conjunct1 [OF conjunct2 [OF conjunct2 [OF conjunct2 [OF r]]]]
        by (simp add: damage_law_def g p given_def c)
      moreover have "px ?wm' (Struc w) = px wm1 (Struc w)" "px ?wm' (Cont w) = px wm1 (Cont w)" "px ?wm' (Update w) = {}"
        by (simp_all add: p given_def) (simp add: clear_px)
      ultimately show ?thesis
        using k \<open>calm w wm ?wm'\<close> clear_grid [OF pr(1)] by (intro runs_Some) simp_all
    qed
    done
qed

end
