(* ===== verification/WindowSteps.thy ===== *)
theory WindowSteps imports WindowOps begin

text \<open>
  The operations of the window manager obey the law of damage: a window other than the operand gains exactly the pixels
  whose owner it became, and its visible part when its highlight changed; the desktop gains the pixels no window owns
  any more.
\<close>

section \<open>The activation pass\<close>

definition hilites_ok :: "window_mgr \<Rightarrow> bool" where
  "hilites_ok wm \<longleftrightarrow> (\<forall>q \<in> set (front wm). hilited (wins wm q) \<longleftrightarrow> active wm = Some q)"

lemma active_mem: "active wm = Some w \<Longrightarrow> w \<in> set (front wm) \<and> visible (wins wm w)"
  by (auto simp: active_def find_Some_iff in_set_conv_nth)

text \<open>What a step guarantees of the window it works on: what it newly owns, it owes, and it forgets no debt.\<close>

definition repaints :: "nat \<Rightarrow> window_mgr \<Rightarrow> window_mgr \<Rightarrow> bool" where
  "repaints w wm wm' \<longleftrightarrow> (\<forall>pt \<in> desk wm. owner wm' pt = Some w \<longrightarrow>
     pt \<in> px wm' (Update w) \<or> (owner wm pt = Some w \<and> pt \<notin> px wm (Update w)))"

definition step_ok :: "nat \<Rightarrow> window_mgr \<Rightarrow> window_mgr \<Rightarrow> bool" where
  "step_ok w wm wm' \<longleftrightarrow> damage_law w wm wm' \<and> hilites_ok wm' \<and> distinct (front wm')"

lemma reaffirm_law:
  assumes "grid X Y wm1" "distinct (front wm1)" "damage_law w wm wm1" "calm w wm wm1"
  shows "runs X Y (reaffirm_active wm1) (\<lambda>wm'. step_ok w wm wm' \<and> keeps_but_wins wm1 wm' \<and>
    wins wm' = with_hilite (active wm1) (set (front wm1)) (wins wm1) \<and>
    px wm' (Struc w) = px wm1 (Struc w) \<and> px wm' (Cont w) = px wm1 (Cont w) \<and> owner wm' = owner wm1 \<and>
    px wm' (Update w) = px wm1 (Update w) \<union>
      (if w \<in> set (front wm1) \<and> visible (wins wm1 w) \<and> hilited (wins wm1 w) \<noteq> (active wm1 = Some w) then vis wm1 w else {}))"
proof (rule runs_weaken [OF reaffirm_runs [OF assms(1,2)]], elim conjE)
  fix wm'
  assume k: "keeps_but_wins wm1 wm'" and w: "wins wm' = with_hilite (active wm1) (set (front wm1)) (wins wm1)"
    and a: "agree scr (px wm') (flipped wm1 (active wm1) (set (front wm1)))"
  have p: "px wm' s = flipped wm1 (active wm1) (set (front wm1)) s" if "s \<notin> scr" for s using a that by (simp add: agree_def)
  have v: "visible (wins wm' q) = visible (wins wm1 q)" for q by (simp add: w)
  have vis: "vis wm' q = vis wm1 q" for q
    by (rule vis_cong) (use k in \<open>simp_all add: keeps_but_wins_def v p flipped_def\<close>)
  have ow: "owner wm' = owner wm1"
    using k by (auto simp: owner_def keeps_but_wins_def v p flipped_def fun_eq_iff intro!: top_of_cong)
  have act: "active wm' = active wm1" using k by (simp add: active_def v keeps_but_wins_def)
  have "hilites_ok wm'" using k by (auto simp: hilites_ok_def act w with_hilite_def keeps_but_wins_def)
  note law = assms(3) [unfolded damage_law_def]
  have h1: "(with_hilite act S ws q)\<lparr>hilited := b\<rparr> = (ws q)\<lparr>hilited := b\<rparr>" for act S ws q b
    by (simp add: with_hilite_def)
  have ap: "apart_from w wm wm'"
    using law k by (simp add: apart_from_def keeps_but_wins_def p flipped_def w h1)
  have "gained wm wm' q = gained wm wm1 q" for q by (simp add: gained_def ow)
  moreover have "flip wm wm1 q = {}" if "q \<noteq> w" for q using assms(4) that by (simp add: flip_def calm_def)
  moreover have "px wm' (Update q) = px wm1 (Update q) \<union> flip wm wm' q" if "q \<noteq> w" for q
    using assms(4) k that by (auto simp: p flipped_def flip_def w vis keeps_but_wins_def calm_def with_hilite_def)
  ultimately have "damage_law w wm wm'" using law ap by (auto simp: damage_law_def p flipped_def)
  then show "step_ok w wm wm' \<and> keeps_but_wins wm1 wm' \<and>
    wins wm' = with_hilite (active wm1) (set (front wm1)) (wins wm1) \<and>
    px wm' (Struc w) = px wm1 (Struc w) \<and> px wm' (Cont w) = px wm1 (Cont w) \<and> owner wm' = owner wm1 \<and>
    px wm' (Update w) = px wm1 (Update w) \<union>
      (if w \<in> set (front wm1) \<and> visible (wins wm1 w) \<and> hilited (wins wm1 w) \<noteq> (active wm1 = Some w) then vis wm1 w else {})"
    using k w ow \<open>hilites_ok wm'\<close> assms(2) by (simp add: step_ok_def p flipped_def keeps_but_wins_def)
qed

section \<open>Hiding and disposing\<close>

lemma apart_refl: "apart_from w wm wm" by (simp add: apart_from_def)

lemma hide_runs:
  assumes "desk_frame_ok X Y wm" "distinct (front wm)" "w \<in> set (front wm)" "visible (wins wm w)"
  shows "runs X Y (HideWindow wm w) (\<lambda>wm'. step_ok w wm wm' \<and> front wm' = front wm \<and> \<not> visible (wins wm' w) \<and>
    px wm' (Struc w) = px wm (Struc w) \<and> px wm' (Update w) = {})"
proof -
  note fr = desk_frame_okD [OF assms(1)]
  let ?off = "\<lambda>r. r\<lparr>visible := False\<rparr>"
  have "runs X Y (do {
        wm1 \<leftarrow> visible_into wm w (Update w) True;
        wm3 \<leftarrow> do { wm2 \<leftarrow> distribute_exposure (set_win wm1 w ?off) (Some w) (Update w); Some (clear_rgn wm2 (Update w)) };
        reaffirm_active wm3 }) (\<lambda>wm'. step_ok w wm wm' \<and> front wm' = front wm \<and> \<not> visible (wins wm' w) \<and>
    px wm' (Struc w) = px wm (Struc w) \<and> px wm' (Update w) = {})"
    apply (rule runs_bind [OF visible_into_runs [OF fr]])
      apply simp
     apply simp
    subgoal premises p1 for wm1
    proof -
      have r: "ready_to_give w wm (set_win wm1 w ?off)"
        using p1(2) by (auto simp: ready_to_give_def apart_from_def calm_def keeps_def agree_def)
      show ?thesis
        apply (rule runs_bind [OF give_runs [OF _ r assms(3,4)]])
        using p1(1) apply simp
        apply (rule runs_weaken [OF reaffirm_law [where w = w and wm = wm]], assumption)
        using assms(2) p1(2) by (auto simp: keeps_def agree_def keeps_but_wins_def)
    qed
    done
  with assms(3,4) show ?thesis by (simp add: HideWindow_def list_contains_def Let_def)
qed

lemma relink_simps [simp]:
  "px (wm\<lparr>front := fs\<rparr>) = px wm" "grid X Y (wm\<lparr>front := fs\<rparr>) = grid X Y wm"
  "px (wm\<lparr>scrolls := ss\<rparr>) = px wm" "grid X Y (wm\<lparr>scrolls := ss\<rparr>) = grid X Y wm"
  by (simp_all add: px_def grid_def fun_eq_iff)

lemma push_simps [simp]:
  "front (list_push_front wm w) = w # front wm" "wins (list_push_front wm w) = wins wm" "px (list_push_front wm w) = px wm"
  "desktop_frame (list_push_front wm w) = desktop_frame wm" "has_overlay (list_push_front wm w) = has_overlay wm"
  "grid X Y (list_push_front wm w) = grid X Y wm"
  by (simp_all add: list_push_front_def)

lemma clear_simps [simp]:
  "front (clear_rgn wm s) = front wm" "wins (clear_rgn wm s) = wins wm" "desktop_frame (clear_rgn wm s) = desktop_frame wm"
  "has_overlay (clear_rgn wm s) = has_overlay wm" "px (clear_rgn wm s) = (px wm)(s := {})"
  by (simp_all add: clear_px) (simp_all add: clear_rgn_def)

lemma stays_remove [simp]: "stays (Some w) (remove1 w ps) = stays (Some w) ps" "stays (Some w) (w # ps) = stays (Some w) ps"
  by (induction ps) (auto simp: stays_def)

text \<open>An operation that takes no pixel from \<open>w\<close> damages nothing else.\<close>

lemma no_gain_law:
  assumes "apart_from w wm wm1" "calm w wm wm1" "\<And>q. q \<noteq> w \<Longrightarrow> px wm1 (Update q) = px wm (Update q)" "px wm1 Desk = px wm Desk"
    and "\<And>pt. owner wm pt = Some w \<Longrightarrow> owner wm1 pt = Some w"
  shows "damage_law w wm wm1"
proof -
  have "gained wm wm1 q = {}" if "q \<noteq> Some w" for q using gained_from [OF assms(1) that] assms(5) that by auto
  with assms show ?thesis by (simp add: damage_law_def flip_def calm_def)
qed

lemma never_owner: "\<not> (w \<in> set (front wm) \<and> visible (wins wm w)) \<Longrightarrow> owner wm pt \<noteq> Some w"
  by (auto simp: owner_def dest: top_of_SomeD)

lemma dispose_runs:
  assumes "desk_frame_ok X Y wm" "distinct (front wm)" "w \<in> set (front wm)"
  shows "runs X Y (DisposeWindow wm w) (\<lambda>wm'. step_ok w wm wm' \<and> front wm' = remove1 w (front wm) \<and>
    px wm' (Struc w) = px wm (Struc w) \<and> px wm' (Update w) = {})"
proof -
  let ?Q = "\<lambda>wm'. step_ok w wm wm' \<and> front wm' = remove1 w (front wm) \<and> px wm' (Struc w) = px wm (Struc w) \<and> px wm' (Update w) = {}"
  let ?wm0 = "WindowScrollDetach wm w"
  have w0: "desk_frame_ok X Y ?wm0" "px ?wm0 = px wm" "front ?wm0 = front wm" "wins ?wm0 = wins wm" "desktop_frame ?wm0 = desktop_frame wm"
    "has_overlay ?wm0 = has_overlay wm" "vis ?wm0 w = vis wm w"
    using assms(1) by (simp_all add: desk_frame_ok_def WindowScrollDetach_def vis_def cover_def overlay_def)
  note fr = desk_frame_okD [OF w0(1)]
  have out: "w \<notin> set (remove1 w (front wm))" using assms(2) by simp
  show ?thesis
  proof (cases "visible (wins wm w)")
    case True
    have "runs X Y (do {
        wm1 \<leftarrow> visible_into ?wm0 w (Update w) True;
        wm2 \<leftarrow> list_unlink wm1 w;
        wm4 \<leftarrow> do { wm3 \<leftarrow> distribute_exposure wm2 (Some w) (Update w); Some (clear_rgn wm3 (Update w)) };
        reaffirm_active wm4 }) ?Q"
      apply (rule runs_bind [OF visible_into_runs [OF fr]])
        apply simp
       apply simp
      subgoal premises p1 for wm1
      proof -
        let ?wm2 = "wm1\<lparr>front := remove1 w (front wm)\<rparr>"
        have k: "list_unlink wm1 w = Some ?wm2" using p1(2) assms(3) w0 by (simp add: list_unlink_def keeps_def)
        have r: "ready_to_give w wm ?wm2"
          using p1(2) out by (auto simp: ready_to_give_def apart_from_def calm_def keeps_def agree_def w0)
        show ?thesis
          unfolding k bind.bind_lunit
          apply (rule runs_bind [OF give_runs [OF _ r assms(3) True]])
          using p1(1) apply simp
          apply (rule runs_weaken [OF reaffirm_law [where w = w and wm = wm]], assumption)
          using assms(2) p1(2) out by (auto simp: keeps_def agree_def keeps_but_wins_def w0)
      qed
      done
    with True assms(3) show ?thesis by (simp add: DisposeWindow_def list_contains_def Let_def w0 bind_assoc)
  next
    case False
    let ?wm1 = "clear_rgn (?wm0\<lparr>front := remove1 w (front wm)\<rparr>) (Update w)"
    have c: "apart_from w wm ?wm1" "calm w wm ?wm1" "grid X Y ?wm1" "front ?wm1 = remove1 w (front wm)" "px ?wm1 (Struc w) = px wm (Struc w)" "px ?wm1 (Update w) = {}"
      using fr(1) by (simp_all add: apart_from_def calm_def clear_px w0 clear_grid)
    have "damage_law w wm ?wm1"
      by (rule no_gain_law [OF c(1,2)]) (use never_owner [of w wm] False in \<open>auto simp: clear_px w0\<close>)
    then have "runs X Y (reaffirm_active ?wm1) ?Q"
      using assms(2) out c by (intro runs_weaken [OF reaffirm_law [where w = w and wm = wm]]) (auto simp: keeps_but_wins_def)
    with False assms(3) show ?thesis by (simp add: DisposeWindow_def list_contains_def Let_def w0 list_unlink_def)
  qed
qed

section \<open>Raising, showing and creating\<close>

lemma active_owner: "active wm = Some w \<Longrightarrow> pt \<in> px wm (Struc w) \<Longrightarrow> owner wm pt = Some w"
proof -
  have "find (\<lambda>p. visible (wins wm p)) ps = Some w \<Longrightarrow> pt \<in> px wm (Struc w) \<Longrightarrow> top_of wm ps pt = Some w" for ps
    by (induction ps) (auto split: if_splits)
  then show "active wm = Some w \<Longrightarrow> pt \<in> px wm (Struc w) \<Longrightarrow> owner wm pt = Some w" by (simp add: active_def owner_def)
qed

lemma front_owner: "front wm = w # ps \<Longrightarrow> visible (wins wm w) \<Longrightarrow> active wm = Some w"
  by (simp add: active_def)

lemma owner_vis: "owner wm pt = Some w \<Longrightarrow> pt \<notin> overlay wm \<Longrightarrow> pt \<in> vis wm w"
  using top_of_SomeD [of wm "front wm" pt w] by (auto simp: owner_def vis_owner)

lemma vis_owned: "w \<in> set (front wm) \<Longrightarrow> visible (wins wm w) \<Longrightarrow> pt \<in> vis wm w \<Longrightarrow> owner wm pt = Some w"
  by (simp add: vis_owner)

lemma select_runs:
  assumes "desk_frame_ok X Y wm" "distinct (front wm)" "w \<in> set (front wm)" "hilites_ok wm"
  shows "runs X Y (SelectWindow wm w) (\<lambda>wm'. step_ok w wm wm' \<and> repaints w wm wm' \<and> front wm' = w # remove1 w (front wm) \<and>
    visible (wins wm' w) = visible (wins wm w) \<and> px wm' (Struc w) = px wm (Struc w))"
proof -
  let ?wm1 = "wm\<lparr>front := w # remove1 w (front wm)\<rparr>"
  have g: "grid X Y ?wm1" "distinct (front ?wm1)" "apart_from w wm ?wm1" "calm w wm ?wm1"
    using assms by (simp_all add: desk_frame_ok_def apart_from_def calm_def)
  have ov: "overlay ?wm1 = overlay wm" by (simp add: overlay_def)
  have own: "owner ?wm1 pt = Some w" if "owner wm pt = Some w" for pt
    using top_of_SomeD [of wm "front wm" pt w] that by (simp add: owner_def)
  have law: "damage_law w wm ?wm1" by (rule no_gain_law [OF g(3,4)]) (use own in auto)
  have "SelectWindow wm w = reaffirm_active ?wm1"
  proof (cases "hd (front wm) = w")
    case True
    then have "front ?wm1 = front wm" using assms(3) by (cases "front wm") auto
    then have "?wm1 = wm" by simp
    with True assms(3) show ?thesis by (simp add: SelectWindow_def list_contains_def)
  next
    case False
    with assms(3) show ?thesis by (simp add: SelectWindow_def list_contains_def list_unlink_def list_push_front_def)
  qed
  moreover have "runs X Y (reaffirm_active ?wm1) (\<lambda>wm'. step_ok w wm wm' \<and> repaints w wm wm' \<and>
      front wm' = w # remove1 w (front wm) \<and> visible (wins wm' w) = visible (wins wm w) \<and> px wm' (Struc w) = px wm (Struc w))"
  proof (rule runs_weaken [OF reaffirm_law [OF g(1,2) law g(4)]], elim conjE)
    fix wm'
    assume s: "step_ok w wm wm'" "keeps_but_wins ?wm1 wm'" "wins wm' = with_hilite (active ?wm1) (set (front ?wm1)) (wins ?wm1)"
      "px wm' (Struc w) = px ?wm1 (Struc w)" "owner wm' = owner ?wm1"
      "px wm' (Update w) = px ?wm1 (Update w) \<union> (if w \<in> set (front ?wm1) \<and> visible (wins ?wm1 w) \<and>
         hilited (wins ?wm1 w) \<noteq> (active ?wm1 = Some w) then vis ?wm1 w else {})"
    have "pt \<in> px wm' (Update w) \<or> (owner wm pt = Some w \<and> pt \<notin> px wm (Update w))"
      if pt: "pt \<in> desk wm" "owner wm' pt = Some w" for pt
    proof -
      have o1: "owner ?wm1 pt = Some w" using pt(2) s(5) by simp
      then have v: "visible (wins wm w)" "pt \<in> px wm (Struc w)" using top_of_SomeD [of ?wm1 "front ?wm1" pt w] by (auto simp: owner_def)
      have a: "active ?wm1 = Some w" using v(1) by (simp add: active_def)
      show ?thesis
      proof (cases "hilited (wins wm w)")
        case False
        then show ?thesis using owner_vis [OF o1] pt(1) v(1) s(6) a by (simp add: desk_def ov)
      next
        case True
        then have "active wm = Some w" using assms(3,4) by (simp add: hilites_ok_def)
        with active_owner [OF this v(2)] s(6) show ?thesis by auto
      qed
    qed
    with s show "step_ok w wm wm' \<and> repaints w wm wm' \<and> front wm' = w # remove1 w (front wm) \<and>
        visible (wins wm' w) = visible (wins wm w) \<and> px wm' (Struc w) = px wm (Struc w)"
      by (auto simp: repaints_def keeps_but_wins_def)
  qed
  ultimately show ?thesis by simp
qed

lemma show_runs:
  assumes "desk_frame_ok X Y wm" "distinct (front wm)" "w \<in> set (front wm)" "hilites_ok wm" "\<not> visible (wins wm w)"
  shows "runs X Y (ShowWindow wm w) (\<lambda>wm'. step_ok w wm wm' \<and> front wm' = front wm \<and> visible (wins wm' w) \<and>
    px wm' (Struc w) = px wm (Struc w) \<and> (active wm' = Some w \<longrightarrow> px wm' (Update w) = px wm (Update w) \<union> vis wm' w))"
proof -
  let ?wm1 = "set_win wm w (\<lambda>r. r\<lparr>visible := True\<rparr>)"
  have g: "grid X Y ?wm1" "distinct (front ?wm1)" "apart_from w wm ?wm1" "calm w wm ?wm1"
    using assms by (simp_all add: desk_frame_ok_def apart_from_def calm_def)
  have law: "damage_law w wm ?wm1"
    by (rule no_gain_law [OF g(3,4)]) (use never_owner [of w wm] assms(5) in auto)
  have h: "\<not> hilited (wins wm w)" using assms(3,4,5) active_mem by (auto simp: hilites_ok_def)
  have "ShowWindow wm w = reaffirm_active ?wm1" using assms(3,5) by (simp add: ShowWindow_def list_contains_def)
  moreover have "runs X Y (reaffirm_active ?wm1) (\<lambda>wm'. step_ok w wm wm' \<and> front wm' = front wm \<and> visible (wins wm' w) \<and>
    px wm' (Struc w) = px wm (Struc w) \<and> (active wm' = Some w \<longrightarrow> px wm' (Update w) = px wm (Update w) \<union> vis wm' w))"
  proof (rule runs_weaken [OF reaffirm_law [OF g(1,2) law g(4)]], elim conjE)
    fix wm'
    assume s: "step_ok w wm wm'" "keeps_but_wins ?wm1 wm'" "wins wm' = with_hilite (active ?wm1) (set (front ?wm1)) (wins ?wm1)"
      "px wm' (Struc w) = px ?wm1 (Struc w)" "owner wm' = owner ?wm1"
      "px wm' (Update w) = px ?wm1 (Update w) \<union> (if w \<in> set (front ?wm1) \<and> visible (wins ?wm1 w) \<and>
         hilited (wins ?wm1 w) \<noteq> (active ?wm1 = Some w) then vis ?wm1 w else {})"
    have vs: "visible (wins wm' w)" "visible (wins ?wm1 w)" by (simp_all add: s(3))
    have f: "w \<in> set (front wm')" using s(2) assms(3) by (simp add: keeps_but_wins_def)
    have "overlay wm' = overlay ?wm1"
      using s(1) s(2) by (simp add: overlay_def step_ok_def damage_law_def apart_from_def)
    then have v: "vis wm' w = vis ?wm1 w" using vis_owner [OF f vs(1)] vis_owner [of w ?wm1] vs(2) assms(3) s(5) by simp
    have "active wm' = active ?wm1" using s(2) by (simp add: active_def s(3) keeps_but_wins_def)
    then show "step_ok w wm wm' \<and> front wm' = front wm \<and> visible (wins wm' w) \<and>
        px wm' (Struc w) = px wm (Struc w) \<and> (active wm' = Some w \<longrightarrow> px wm' (Update w) = px wm (Update w) \<union> vis wm' w)"
      using s(1,2,4,6) assms(3) h vs(1) by (auto simp: v keeps_but_wins_def)
  qed
  ultimately show ?thesis by simp
qed

lemma new_runs:
  assumes "desk_frame_ok X Y wm" "distinct (front wm)" "w \<notin> set (front wm)" "\<not> hilited (wins wm w)"
    and "struct_on X Y fr variant" "content_on X Y c variant"
  shows "runs X Y (NewWindow wm w fr c wKind variant goAway) (\<lambda>wm'. step_ok w wm wm' \<and> front wm' = w # front wm \<and>
    visible (wins wm' w) \<and> windowDefProcVariant (wins wm' w) = variant \<and> px wm' (Struc w) = frame_px fr variant \<and>
    px wm' (Cont w) = content_px c variant \<and> px wm' (Update w) = vis wm' w)"
proof -
  note fr = desk_frame_okD [OF assms(1)]
  let ?rec = "\<lambda>r. r\<lparr>windowKind := wKind, goAwayFlag := goAway, visible := True,
       widgetFlags := widget_flags_for_variant variant goAway, zoomed := False, collapsed := False, userStateValid := False,
       userState := fr, collapseState := fr, titleHandle := [], titleWidth := 0\<rparr>"
  show ?thesis
    unfolding NewWindow_def Let_def
    apply (rule runs_bind [OF structure_runs [OF fr(1) assms(5)]])
    apply (rule runs_bind [OF copy_runs], assumption)
    apply (rule runs_bind [OF content_runs])
      apply simp
     apply (simp add: assms(6))
    subgoal premises pr for wm1 wm2 wm3
    proof -
      let ?wm4 = "list_push_front (set_win (clear_rgn wm3 (Update w)) w ?rec) w"
      have a: "px wm3 s = px wm s" if "s \<notin> scr" "s \<noteq> Struc w" "s \<noteq> Cont w" "s \<noteq> Update w" for s
        using pr(2,4,6) that by (auto simp: agree_def)
      have b: "px ?wm4 (Struc w) = frame_px fr variant" "px ?wm4 (Cont w) = content_px c variant" "px ?wm4 (Update w) = {}"
        using pr(2,4,6) by (auto simp: agree_def)
      have m: "front wm3 = front wm" "wins wm3 = (wins wm)(w := (wins wm w)\<lparr>windowDefProcVariant := variant\<rparr>)"
        "desktop_frame wm3 = desktop_frame wm" "has_overlay wm3 = has_overlay wm"
        using pr(2,4,6) by (simp_all add: keeps_def)
      have g: "grid X Y ?wm4" "front ?wm4 = w # front wm" "apart_from w wm ?wm4" "calm w wm ?wm4"
        "visible (wins ?wm4 w)" "windowDefProcVariant (wins ?wm4 w) = variant" "\<not> hilited (wins ?wm4 w)" "distinct (front ?wm4)"
        using pr(5) assms(2-4) by (simp_all add: m clear_grid apart_from_def calm_def a)
      have law: "damage_law w wm ?wm4"
        by (rule no_gain_law [OF g(3,4)]) (use never_owner [of w wm] assms(3) in \<open>auto simp: a\<close>)
      have act: "active ?wm4 = Some w" by (rule front_owner [OF g(2,5)])
      show ?thesis
      proof (rule runs_weaken [OF reaffirm_law [OF g(1,8) law g(4)]], elim conjE)
        fix wm'
        assume s: "step_ok w wm wm'" "keeps_but_wins ?wm4 wm'" "wins wm' = with_hilite (active ?wm4) (set (front ?wm4)) (wins ?wm4)"
          "px wm' (Struc w) = px ?wm4 (Struc w)" "px wm' (Cont w) = px ?wm4 (Cont w)" "owner wm' = owner ?wm4"
          "px wm' (Update w) = px ?wm4 (Update w) \<union> (if w \<in> set (front ?wm4) \<and> visible (wins ?wm4 w) \<and>
             hilited (wins ?wm4 w) \<noteq> (active ?wm4 = Some w) then vis ?wm4 w else {})"
        have vs: "visible (wins wm' w)" "w \<in> set (front wm')" using s(2) g(2,5) by (simp_all add: s(3) keeps_but_wins_def)
        have "overlay wm' = overlay ?wm4"
          using s(1) s(2) g(3) by (simp add: overlay_def step_ok_def damage_law_def apart_from_def)
        then have v: "vis wm' w = vis ?wm4 w" using vis_owner [OF vs(2,1)] vis_owner [of w ?wm4] g(2,5) s(6) by simp
        have fw: "front wm' = w # front wm" using s(2) g(2) by (simp add: keeps_but_wins_def)
        have "windowDefProcVariant (wins wm' w) = variant" by (simp add: s(3) with_hilite_def m)
        moreover have "px wm' (Update w) = vis wm' w" unfolding s(7) v b(3) using g(2,5,7) act by (auto simp: m)
        ultimately show "step_ok w wm wm' \<and> front wm' = w # front wm \<and>
          visible (wins wm' w) \<and> windowDefProcVariant (wins wm' w) = variant \<and> px wm' (Struc w) = frame_px fr variant \<and>
          px wm' (Cont w) = content_px c variant \<and> px wm' (Update w) = vis wm' w"
          using s(1) vs(1) fw b(1,2) by (simp add: s(4,5))
      qed
    qed
    done
qed

section \<open>Invalidating\<close>

text \<open>A change of the update region of \<open>w\<close> alone leaves the law intact.\<close>

lemma law_touch:
  assumes "damage_law w wm wm1" "front wm2 = front wm1" "wins wm2 = wins wm1" "desktop_frame wm2 = desktop_frame wm1"
    and "has_overlay wm2 = has_overlay wm1" "agree (insert (Update w) scr) (px wm2) (px wm1)"
  shows "damage_law w wm wm2" "owner wm2 = owner wm1" "overlay wm2 = overlay wm1" "vis wm2 q = vis wm1 q"
proof -
  have p: "px wm2 s = px wm1 s" if "s \<noteq> Update w" "s \<notin> scr" for s using assms(6) that by (auto simp: agree_def)
  show o: "owner wm2 = owner wm1" using assms(2,3) p by (auto simp: owner_def fun_eq_iff intro!: top_of_cong)
  show "overlay wm2 = overlay wm1" using assms(5) p by (simp add: overlay_def)
  have v: "vis wm2 q = vis wm1 q" for q by (rule vis_cong) (use assms p in auto)
  show "vis wm2 q = vis wm1 q" by (rule v)
  have "gained wm wm2 q = gained wm wm1 q" for q by (simp add: gained_def o)
  moreover have "flip wm wm2 q = flip wm wm1 q" for q using assms by (simp add: flip_def v)
  moreover have "apart_from w wm wm2" using assms p by (simp add: damage_law_def apart_from_def)
  ultimately show "damage_law w wm wm2" using assms(1) p by (simp add: damage_law_def)
qed

lemma invalidate_all_runs:
  assumes "grid X Y wm" "w \<in> set (front wm)" "visible (wins wm w)"
  shows "runs X Y (WindowMgr_invalidate wm w (region_get_bbox (rgn wm (Struc w)))) (\<lambda>wm'. keeps wm wm' \<and>
    agree scr (px wm') ((px wm)(Update w := px wm (Update w) \<union> vis wm w)))"
proof -
  have "rect_pixs (region_get_bbox (rgn wm (Struc w))) \<inter> vis wm w = vis wm w"
    using struc_bbox [OF assms(1), of w] vis_struc [of wm w] by auto
  with invalidate_runs [OF assms(1) struc_bbox_on [OF assms(1), of w] assms(2)] assms(3) show ?thesis by simp
qed

end
