(* ===== verification/WindowShape.thy ===== *)
theory WindowShape imports WindowSteps begin

text \<open>
  The operations that change the frame of a window: moving, dragging, sizing, zooming and collapsing.
\<close>

lemma law_refl: "damage_law w wm wm"
  by (rule no_gain_law) (simp_all add: apart_refl calm_def)

lemma law_calm_hilites: "hilites_ok wm \<Longrightarrow> front wm' = front wm \<Longrightarrow> wins wm' = wins wm \<Longrightarrow> hilites_ok wm'"
  by (simp add: hilites_ok_def active_def)

text \<open>The old visible part less the new structure, kept in the update region, and the new structure.\<close>

lemma reshape_runs:
  assumes "desk_frame_ok X Y wm" "struct_on X Y ns v"
    and "\<And>wm6. grid X Y wm6 \<Longrightarrow> keeps wm wm6 \<Longrightarrow> agree scr (px wm6) ((px wm)
      (Update w := vis wm w \<inter> rect_pixs (desktop_frame wm) - frame_px ns v, Struc w := frame_px ns v)) \<Longrightarrow> runs X Y (k wm6) R"
  shows "runs X Y (do {
            wm1 \<leftarrow> visible_into wm w (Update w) True;
            wm2 \<leftarrow> structure_scratch wm1 ns v;
            wm3 \<leftarrow> rop wm2 ScrB (Update w) ScrA RGN_OP_DIFF;
            wm4 \<leftarrow> rgn_copy wm3 (Update w) ScrB;
            wm5 \<leftarrow> structure_scratch wm4 ns v;
            wm6 \<leftarrow> rgn_copy wm5 (Struc w) ScrA;
            k wm6 }) R"
  apply (rule runs_bind [OF visible_into_runs [OF desk_frame_okD [OF assms(1)]]])
    apply simp
   apply simp
  apply (rule runs_bind [OF structure_runs [OF _ assms(2)]], assumption)
  apply (rule runs_bind [OF rop_runs], assumption)
  apply (rule runs_bind [OF copy_runs], assumption)
  apply (rule runs_bind [OF structure_runs [OF _ assms(2)]], assumption)
  apply (rule runs_bind [OF copy_runs], assumption)
  apply (rule assms(3), assumption)
  by (auto simp: keeps_def agree_def)

lemma reshape_ready:
  assumes "front wm7 = front wm" "wins wm7 = wins wm" "desktop_frame wm7 = desktop_frame wm" "has_overlay wm7 = has_overlay wm"
    and "agree (insert (Cont w) scr) (px wm7) ((px wm)
      (Update w := vis wm w \<inter> rect_pixs (desktop_frame wm) - S, Struc w := S))"
    and "w \<in> set (front wm)" "visible (wins wm w)"
  shows "ready_to_give w wm wm7"
  using assms by (auto simp: ready_to_give_def apart_from_def calm_def agree_def)

section \<open>Moving\<close>

definition move_delta :: "window_mgr \<Rightarrow> nat \<Rightarrow> int \<Rightarrow> int \<Rightarrow> int \<times> int" where
  "move_delta wm w newLeft newTop = (i16 (newLeft - rleft (WindowFrameRect wm w)), i16 (newTop - rtop (WindowFrameRect wm w)))"

definition shifted :: "rgn_rect \<Rightarrow> int \<times> int \<Rightarrow> rgn_rect" where
  "shifted r d = mk_rect (i16 (rtop r + snd d)) (i16 (rleft r + fst d)) (i16 (rbottom r + snd d)) (i16 (rright r + fst d))"

definition move_on :: "int set \<Rightarrow> int set \<Rightarrow> window_mgr \<Rightarrow> nat \<Rightarrow> int \<times> int \<Rightarrow> bool" where
  "move_on X Y wm w d \<longleftrightarrow> struct_on X Y (shifted (WindowFrameRect wm w) d) (windowDefProcVariant (wins wm w)) \<and>
     content_on X Y (shifted (region_get_bbox (rgn wm (Cont w))) d) (windowDefProcVariant (wins wm w))"

lemma move_runs:
  fixes l t
  defines "d wm w \<equiv> move_delta wm w l t"
  assumes "desk_frame_ok X Y wm" "distinct (front wm)" "w \<in> set (front wm)" "hilites_ok wm" "visible (wins wm w)"
    and "d wm w \<noteq> (0, 0) \<Longrightarrow> move_on X Y wm w (d wm w)"
  shows "runs X Y (MoveWindow wm w l t) (\<lambda>wm'. step_ok w wm wm' \<and> front wm' = front wm \<and> wins wm' = wins wm \<and>
    (if d wm w = (0, 0) then wm' = wm
     else px wm' (Struc w) = frame_px (shifted (WindowFrameRect wm w) (d wm w)) (windowDefProcVariant (wins wm w)) \<and>
       px wm' (Cont w) = content_px (shifted (region_get_bbox (rgn wm (Cont w))) (d wm w)) (windowDefProcVariant (wins wm w)) \<and>
       px wm' (Update w) = {}))"
proof (cases "d wm w = (0, 0)")
  case True
  then have "MoveWindow wm w l t = Some wm" using assms(4) by (simp add: MoveWindow_def d_def move_delta_def list_contains_def Let_def)
  with True assms show ?thesis by (simp add: runs_def desk_frame_ok_def step_ok_def law_refl)
next
  case False
  let ?v = "windowDefProcVariant (wins wm w)"
  let ?ns = "shifted (WindowFrameRect wm w) (d wm w)" and ?nc = "shifted (region_get_bbox (rgn wm (Cont w))) (d wm w)"
  have on: "struct_on X Y ?ns ?v" "content_on X Y ?nc ?v" using assms(7) False by (simp_all add: move_on_def)
  have "MoveWindow wm w l t = do {
            wm1 \<leftarrow> visible_into wm w (Update w) True;
            wm2 \<leftarrow> structure_scratch wm1 ?ns ?v;
            wm3 \<leftarrow> rop wm2 ScrB (Update w) ScrA RGN_OP_DIFF;
            wm4 \<leftarrow> rgn_copy wm3 (Update w) ScrB;
            wm5 \<leftarrow> structure_scratch wm4 ?ns ?v;
            wm6 \<leftarrow> rgn_copy wm5 (Struc w) ScrA;
            wm7 \<leftarrow> set_content wm6 w ?nc;
            wm8 \<leftarrow> distribute_exposure wm7 (Some w) (Update w);
            Some (clear_rgn wm8 (Update w)) }"
    using False assms(4) by (auto simp: MoveWindow_def d_def move_delta_def shifted_def list_contains_def Let_def)
  moreover have "runs X Y \<dots> (\<lambda>wm'. step_ok w wm wm' \<and> front wm' = front wm \<and> wins wm' = wins wm \<and>
     px wm' (Struc w) = frame_px ?ns ?v \<and> px wm' (Cont w) = content_px ?nc ?v \<and> px wm' (Update w) = {})"
    apply (rule reshape_runs [OF assms(2) on(1)])
    apply (rule runs_bind [OF content_runs], assumption)
    using on(2) apply (simp add: keeps_def)
    subgoal premises pr for wm6 wm7
    proof -
      have f: "front wm7 = front wm" "wins wm7 = wins wm" "desktop_frame wm7 = desktop_frame wm" "has_overlay wm7 = has_overlay wm"
        using pr by (simp_all add: keeps_def)
      have wk: "windowDefProcVariant (wins wm6 w) = ?v" using pr(2) by (simp add: keeps_def)
      have p: "px wm7 (Cont w) = content_px ?nc ?v" "px wm7 (Struc w) = frame_px ?ns ?v"
        and a: "agree (insert (Cont w) scr) (px wm7) ((px wm)
          (Update w := vis wm w \<inter> rect_pixs (desktop_frame wm) - frame_px ?ns ?v, Struc w := frame_px ?ns ?v))"
        using pr(3,5) by (auto simp: agree_def wk)
      show ?thesis
        apply (rule runs_weaken [OF give_runs [OF pr(4) reshape_ready [OF f a assms(4,6)] assms(4,6)]])
        using p f assms(3) law_calm_hilites [OF assms(5)] by (auto simp: keeps_def step_ok_def)
    qed
    done
  ultimately show ?thesis using False by simp
qed

section \<open>Documents change their frame\<close>

definition next_ok :: "int set \<Rightarrow> int set \<Rightarrow> rgn_rect \<Rightarrow> int \<Rightarrow> bool \<Rightarrow> bool" where
  "next_ok X Y fr v coll \<longleftrightarrow> document_variant v \<and> \<not> rect_is_empty fr \<and> struct_on X Y fr v \<and> (coll \<or> ok_rect X Y (CalcDocContentRect fr))"

lemma document_frame_runs:
  assumes "desk_frame_ok X Y wm" "distinct (front wm)" "w \<in> set (front wm)" "hilites_ok wm" "visible (wins wm w)"
    and "next_ok X Y fr (windowDefProcVariant (wins wm w)) coll"
  shows "runs X Y (set_document_frame wm w fr coll) (\<lambda>wm'. step_ok w wm wm' \<and> front wm' = front wm \<and> wins wm' = wins wm \<and>
     px wm' (Struc w) = frame_px fr (windowDefProcVariant (wins wm w)) \<and>
     px wm' (Cont w) = (if coll then {} else rect_pixs (CalcDocContentRect fr)) \<and> px wm' (Update w) = vis wm' w)"
proof -
  let ?v = "windowDefProcVariant (wins wm w)"
  let ?Q = "\<lambda>wm'. step_ok w wm wm' \<and> front wm' = front wm \<and> wins wm' = wins wm \<and>
     px wm' (Struc w) = frame_px fr ?v \<and> px wm' (Cont w) = (if coll then {} else rect_pixs (CalcDocContentRect fr)) \<and>
     px wm' (Update w) = vis wm' w"
  have n: "document_variant ?v" "\<not> rect_is_empty fr" "struct_on X Y fr ?v" "\<not> coll \<Longrightarrow> ok_rect X Y (CalcDocContentRect fr)"
    using assms(6) by (auto simp: next_ok_def)
  define fill where "fill wm6 = (if coll then Some (clear_rgn wm6 (Cont w))
          else do {
            wm7 \<leftarrow> set_rgn wm6 (Cont w) (CalcDocContentRect fr);
            Some (wm7\<lparr>scrolls := settle_scrolls w (region_get_bbox (rgn wm7 (Cont w))) (scrolls wm7)\<rparr>) })" for wm6
  have fill_runs: "runs X Y (fill wm6) (\<lambda>wm7. front wm7 = front wm6 \<and> wins wm7 = wins wm6 \<and> desktop_frame wm7 = desktop_frame wm6 \<and>
      has_overlay wm7 = has_overlay wm6 \<and> px wm7 = (px wm6)(Cont w := if coll then {} else rect_pixs (CalcDocContentRect fr)))"
    if "grid X Y wm6" for wm6
  proof (cases coll)
    case True
    with that show ?thesis by (simp add: fill_def runs_def clear_grid)
  next
    case False
    then show ?thesis
      unfolding fill_def
      apply simp
      apply (rule runs_bind [OF set_rgn_ok [OF that n(4)]])
       apply simp
      by (simp add: runs_def keeps_def)
  qed
  have fe: "\<not> (rright fr \<le> rleft fr \<or> rbottom fr \<le> rtop fr)" using n(2) by (auto simp: rect_is_empty_def)
  have "set_document_frame wm w fr coll = do {
        wm1 \<leftarrow> visible_into wm w (Update w) True;
        wm2 \<leftarrow> structure_scratch wm1 fr ?v;
        wm3 \<leftarrow> rop wm2 ScrB (Update w) ScrA RGN_OP_DIFF;
        wm4 \<leftarrow> rgn_copy wm3 (Update w) ScrB;
        wm5 \<leftarrow> structure_scratch wm4 fr ?v;
        wm6 \<leftarrow> rgn_copy wm5 (Struc w) ScrA;
        wm7 \<leftarrow> fill wm6;
        wm9 \<leftarrow> do { wm8 \<leftarrow> distribute_exposure wm7 (Some w) (Update w); Some (clear_rgn wm8 (Update w)) };
        WindowMgr_invalidate wm9 w (region_get_bbox (rgn wm9 (Struc w))) }"
    using n(1) fe assms(3) by (simp add: set_document_frame_def list_contains_def Let_def fill_def bind_assoc)
  moreover have "runs X Y \<dots> ?Q"
    apply (rule reshape_runs [OF assms(1) n(3)])
    apply (rule runs_bind [OF fill_runs], assumption)
    subgoal premises pr for wm6 wm7
    proof -
      have f: "front wm7 = front wm" "wins wm7 = wins wm" "desktop_frame wm7 = desktop_frame wm" "has_overlay wm7 = has_overlay wm"
        using pr(2,5) by (simp_all add: keeps_def)
      have p: "px wm7 (Cont w) = (if coll then {} else rect_pixs (CalcDocContentRect fr))" "px wm7 (Struc w) = frame_px fr ?v"
        and a: "agree (insert (Cont w) scr) (px wm7) ((px wm)
          (Update w := vis wm w \<inter> rect_pixs (desktop_frame wm) - frame_px fr ?v, Struc w := frame_px fr ?v))"
        using pr(3,5) by (auto simp: agree_def)
      show ?thesis
        apply (rule runs_bind [OF give_runs [OF pr(4) reshape_ready [OF f a assms(3,5)] assms(3,5)]])
        subgoal premises g for wm9
        proof -
          have m: "w \<in> set (front wm9)" "visible (wins wm9 w)" "front wm9 = front wm" "wins wm9 = wins wm"
            using g(2) f assms(3,5) by (auto simp: keeps_def)
          show ?thesis
          proof (rule runs_weaken [OF invalidate_all_runs [OF g(1) m(1,2)]], elim conjE)
            fix wm'
            assume k: "keeps wm9 wm'" and a: "agree scr (px wm') ((px wm9)(Update w := px wm9 (Update w) \<union> vis wm9 w))"
            have e: "front wm' = front wm9" "wins wm' = wins wm9" "desktop_frame wm' = desktop_frame wm9" "has_overlay wm' = has_overlay wm9"
              using k by (simp_all add: keeps_def)
            have a': "agree (insert (Update w) scr) (px wm') (px wm9)" using a by (auto simp: agree_def)
            have dl: "damage_law w wm wm9" using g(2) by simp
            note lt = law_touch [OF dl e a']
            have u: "px wm' (Update w) = vis wm' w" "px wm' (Struc w) = px wm9 (Struc w)" "px wm' (Cont w) = px wm9 (Cont w)"
              using a g(2) by (auto simp: agree_def lt(4))
            have "hilites_ok wm'" by (rule law_calm_hilites [OF assms(4)]) (simp_all add: e m)
            with lt(1) u g(2) p assms(2) show "?Q wm'" by (simp add: step_ok_def e m)
          qed
        qed
        done
    qed
    done
  ultimately show ?thesis by simp
qed

end
