(* ===== verification/Desktop.thy ===== *)
theory Desktop imports Window begin

text \<open>
  The repaint cycle of the desktop: the compositor (\<open>os/flair/desktop.c\<close>), the content phase (\<open>flair_route_updates\<close> of
  \<open>os/flair/process.c\<close>) and the way the live desktop composes them (\<open>os/milton/kmain.c\<close>).

  \<^item> The frame buffer is a \<open>canvas\<close>: it tells for a pixel whose drawing it shows, \<open>None\<close> for the desktop's background
    (and the icons drawn under the same clip). What a window draws inside its clip is not modelled; that it draws only
    inside the clip is what the surface module enforces, pixel by pixel.
  \<^item> The scratch region of the compositor is the slot \<open>Caller\<close>.
  \<^item> \<open>receives\<close> says which windows have an application that takes update events; the handler draws and returns.
\<close>

section \<open>The compositor\<close>

type_synonym canvas = "int \<times> int \<Rightarrow> nat option"

definition desktop_fill :: "canvas \<Rightarrow> rgn_rect \<Rightarrow> region option \<Rightarrow> canvas" where
  "desktop_fill cv r clip = (\<lambda>(h, v).
     if rtop r \<le> v \<and> v < rbottom r \<and> rleft r \<le> h \<and> h < rright r \<and>
        (case clip of None \<Rightarrow> True | Some c \<Rightarrow> region_contains_point c h v)
     then None else cv (h, v))"

definition paint_window_chrome :: "canvas \<Rightarrow> nat \<Rightarrow> region \<Rightarrow> region \<Rightarrow> canvas" where
  "paint_window_chrome cv w visRgn clipRgn = (\<lambda>(h, v).
     if region_contains_point visRgn h v \<and> region_contains_point clipRgn h v then Some w else cv (h, v))"

primrec paint_back_to_front :: "nat list \<Rightarrow> window_mgr \<Rightarrow> canvas \<Rightarrow> (window_mgr \<times> canvas) option" where
  "paint_back_to_front [] wm cv = Some (wm, cv)"
| "paint_back_to_front (w # ws) wm cv = do {
     (wm1, cv1) \<leftarrow> paint_back_to_front ws wm cv;
     (if \<not> visible (wins wm1 w) then Some (wm1, cv1)
      else do {
        wm2 \<leftarrow> ComputeVisible wm1 w;
        Some (wm2, if region_is_empty (rgn wm2 Caller) then cv1
                   else paint_window_chrome cv1 w (rgn wm2 Caller) (rgn wm2 Caller)) }) }"

definition desktop_paint_all :: "window_mgr \<Rightarrow> canvas \<Rightarrow> (window_mgr \<times> canvas) option" where
  "desktop_paint_all wm cv = do {
     (wm1, cv1) \<leftarrow> paint_back_to_front (front wm) wm (desktop_fill cv (desktop_frame wm) None);
     Some (clear_rgn wm1 Desk, cv1) }"

primrec paint_damaged :: "nat list \<Rightarrow> window_mgr \<Rightarrow> canvas \<Rightarrow> (window_mgr \<times> canvas) option" where
  "paint_damaged [] wm cv = Some (wm, cv)"
| "paint_damaged (w # ws) wm cv =
     (if \<not> visible (wins wm w) then paint_damaged ws wm cv
      else if region_is_empty (rgn wm (Update w)) then paint_damaged ws wm cv
      else do {
        wm1 \<leftarrow> ComputeVisible wm w;
        paint_damaged ws wm1 (if region_is_empty (rgn wm1 Caller) then cv
          else paint_window_chrome cv w (rgn wm1 Caller) (rgn wm1 (Update w))) })"

definition desktop_paint_damage :: "window_mgr \<Rightarrow> canvas \<Rightarrow> (window_mgr \<times> canvas) option" where
  "desktop_paint_damage wm cv =
     (let cv1 = (if \<not> region_is_empty (rgn wm Desk) then desktop_fill cv (region_get_bbox (rgn wm Desk)) (Some (rgn wm Desk)) else cv)
      in do {
        (wm1, cv2) \<leftarrow> paint_damaged (front wm) wm cv1;
        Some (clear_rgn wm1 Desk, cv2) })"

primrec validate_windows :: "nat list \<Rightarrow> window_mgr \<Rightarrow> window_mgr" where
  "validate_windows [] wm = wm"
| "validate_windows (w # ws) wm = validate_windows ws (WindowMgr_validate wm w)"

definition desktop_validate_all :: "window_mgr \<Rightarrow> window_mgr" where
  "desktop_validate_all wm = clear_rgn (validate_windows (front wm) wm) Desk"

section \<open>The content phase\<close>

text \<open>The update events delivered, each with the region its handler may draw in.\<close>

primrec route_from :: "(nat \<Rightarrow> bool) \<Rightarrow> nat list \<Rightarrow> window_mgr \<Rightarrow> (window_mgr \<times> (nat \<times> region) list) option" where
  "route_from receives [] wm = Some (wm, [])"
| "route_from receives (w # ws) wm =
     (if \<not> visible (wins wm w) then route_from receives ws wm
      else if region_is_empty (rgn wm (Update w)) then route_from receives ws wm
      else do {
        wm1 \<leftarrow> WindowMgr_clip_update_to_visible wm w;
        (if region_is_empty (rgn wm1 (Update w)) then route_from receives ws wm1
         else do {
           (wm2, evs) \<leftarrow> route_from receives ws (WindowMgr_validate wm1 w);
           Some (wm2, (if receives w then [(w, rgn wm1 (Update w))] else []) @ evs) }) })"

definition flair_route_updates :: "(nat \<Rightarrow> bool) \<Rightarrow> window_mgr \<Rightarrow> (window_mgr \<times> (nat \<times> region) list) option" where
  "flair_route_updates receives wm = route_from receives (front wm) wm"

text \<open>With a process list, and without one.\<close>

definition flair_live_content_phase :: "(nat \<Rightarrow> bool) option \<Rightarrow> window_mgr \<Rightarrow> (window_mgr \<times> (nat \<times> region) list) option" where
  "flair_live_content_phase plist wm = (case plist of
     Some receives \<Rightarrow> flair_route_updates receives wm | None \<Rightarrow> Some (desktop_validate_all wm, []))"

definition flair_live_repaint :: "(nat \<Rightarrow> bool) option \<Rightarrow> window_mgr \<Rightarrow> canvas \<Rightarrow> (window_mgr \<times> canvas \<times> (nat \<times> region) list) option" where
  "flair_live_repaint plist wm cv = do {
     (wm1, cv1) \<leftarrow> desktop_paint_damage wm cv;
     (wm2, evs) \<leftarrow> flair_live_content_phase plist wm1;
     Some (wm2, cv1, evs) }"

text \<open>The commit of a drag: the moved window owes its whole visible part.\<close>

definition drag_commit :: "window_mgr \<Rightarrow> nat \<Rightarrow> int \<Rightarrow> int \<Rightarrow> window_mgr option" where
  "drag_commit wm w dh dv =
     (if dh \<noteq> 0 \<or> dv \<noteq> 0 then do {
        wm1 \<leftarrow> DragWindow wm w dh dv;
        WindowMgr_invalidate wm1 w (region_get_bbox (rgn wm1 (Struc w))) }
      else Some wm)"

end
