(* ===== verification/Repaint.thy ===== *)
theory Repaint imports WindowShape Desktop begin

text \<open>
  The repaint cycle on pixel sets: what the compositor draws, what the content phase delivers, and the invariant
  \<open>owed\<close> between them - every pixel of the desktop shows its owner or is owed by it.
\<close>

section \<open>Drawing on pixel sets\<close>

lemma contains_px: "grid X Y wm \<Longrightarrow> region_contains_point (rgn wm s) h v \<longleftrightarrow> (h, v) \<in> px wm s"
  unfolding grid_def px_def pixs_def using contains_point_pixel gridded_simps(1) by blast

lemma chrome_px:
  "grid X Y wm \<Longrightarrow> paint_window_chrome cv w (rgn wm a) (rgn wm b) = (\<lambda>pt. if pt \<in> px wm a \<inter> px wm b then Some w else cv pt)"
  by (auto simp: paint_window_chrome_def contains_px fun_eq_iff)

lemma fill_px: "grid X Y wm \<Longrightarrow> desktop_fill cv (region_get_bbox (rgn wm s)) (Some (rgn wm s)) = (\<lambda>pt. if pt \<in> px wm s then None else cv pt)"
proof -
  assume g: "grid X Y wm"
  have "px wm s \<subseteq> rect_pixs (region_get_bbox (rgn wm s))"
    using g pixs_bbox gridded_simps(1) unfolding grid_def px_def by blast
  then show ?thesis using contains_px [OF g]
    by (auto simp: desktop_fill_def fun_eq_iff rect_pixs_def in_rect_def)
qed

lemma fill_frame: "desktop_fill cv fr None = (\<lambda>pt. if pt \<in> rect_pixs fr then None else cv pt)"
  by (auto simp: desktop_fill_def fun_eq_iff rect_pixs_def in_rect_def)

lemma compute_visible_runs:
  assumes "grid X Y wm" "desk_frame_ok X Y wm"
  shows "runs X Y (ComputeVisible wm w) (\<lambda>wm'. keeps wm wm' \<and>
    agree scr (px wm') ((px wm)(Caller := if visible (wins wm w) then vis wm w else {})))"
proof (cases "visible (wins wm w)")
  case True
  then show ?thesis
    using runs_weaken [OF visible_into_runs [OF desk_frame_okD [OF assms(2)], of Caller _ False w]]
    by (simp add: ComputeVisible_def del: fun_upd_apply)
next
  case False
  then show ?thesis using assms(1) by (auto simp: runs_def ComputeVisible_def clear_grid clear_keeps agree_def)
qed

text \<open>What a pass over the windows \<open>ps\<close> paints: the part \<open>part q\<close> of each window that is visible.\<close>

definition painted_by :: "window_mgr \<Rightarrow> nat list \<Rightarrow> (nat \<Rightarrow> (int \<times> int) set) \<Rightarrow> canvas \<Rightarrow> canvas" where
  "painted_by wm ps part cv = (\<lambda>pt. case owner wm pt of
     Some q \<Rightarrow> if q \<in> set ps \<and> pt \<notin> overlay wm \<and> pt \<in> part q then Some q else cv pt | None \<Rightarrow> cv pt)"

definition same_scene :: "window_mgr \<Rightarrow> window_mgr \<Rightarrow> bool" where
  "same_scene wm wm' \<longleftrightarrow> keeps wm wm' \<and> agree (insert Caller scr) (px wm') (px wm)"

lemma same_sceneD:
  assumes "same_scene wm wm'"
  shows "front wm' = front wm" "wins wm' = wins wm" "owner wm' = owner wm" "overlay wm' = overlay wm" "desk wm' = desk wm"
    "vis wm' q = vis wm q" "px wm' (Struc q) = px wm (Struc q)" "px wm' (Update q) = px wm (Update q)" "px wm' Desk = px wm Desk"
proof -
  have k: "front wm' = front wm" "wins wm' = wins wm" "has_overlay wm' = has_overlay wm" "desktop_frame wm' = desktop_frame wm"
    using assms by (simp_all add: same_scene_def keeps_def)
  have p: "px wm' s = px wm s" if "s \<notin> insert Caller scr" for s using assms that by (simp add: same_scene_def agree_def)
  show "front wm' = front wm" "wins wm' = wins wm" by (fact k)+
  show "owner wm' = owner wm" by (auto simp: owner_def fun_eq_iff k p intro!: top_of_cong)
  show "overlay wm' = overlay wm" by (simp add: overlay_def k p)
  then show "desk wm' = desk wm" by (simp add: desk_def k)
  show "vis wm' q = vis wm q" by (rule vis_cong) (simp_all add: k p)
  show "px wm' (Struc q) = px wm (Struc q)" "px wm' (Update q) = px wm (Update q)" "px wm' Desk = px wm Desk" by (simp_all add: p)
qed

lemma same_scene_trans: "same_scene a b \<Longrightarrow> same_scene b c \<Longrightarrow> same_scene a c"
  by (auto simp: same_scene_def agree_def intro: keeps_trans)

lemma painted_by_cong: "same_scene wm wm' \<Longrightarrow> painted_by wm' ps part cv = painted_by wm ps part cv"
proof -
  assume s: "same_scene wm wm'"
  show ?thesis unfolding painted_by_def same_sceneD(3) [OF s] same_sceneD(4) [OF s] ..
qed

lemma chrome_step:
  assumes "w \<in> set (front wm)" "visible (wins wm w)"
  shows "painted_by wm [w] part cv = (\<lambda>pt. if pt \<in> vis wm w \<inter> part w then Some w else cv pt)"
  by (auto simp: painted_by_def vis_owner [OF assms] fun_eq_iff split: option.splits)

lemma painted_by_none: "\<not> visible (wins wm w) \<or> vis wm w \<inter> part w = {} \<Longrightarrow> w \<in> set (front wm) \<Longrightarrow> painted_by wm [w] part cv = cv"
  using vis_owner [of w wm] never_owner [of w wm] by (cases "visible (wins wm w)")
    (auto simp: painted_by_def fun_eq_iff split: option.splits)

lemma painted_by_Cons: "painted_by wm (w # ws) part cv = painted_by wm ws part (painted_by wm [w] part cv)"
  "painted_by wm (w # ws) part cv = painted_by wm [w] part (painted_by wm ws part cv)"
  by (auto simp: painted_by_def fun_eq_iff split: option.splits)

lemma frame_ok_scene: "same_scene wm wm' \<Longrightarrow> grid X Y wm' \<Longrightarrow> desk_frame_ok X Y wm \<Longrightarrow> desk_frame_ok X Y wm'"
  by (simp add: desk_frame_ok_def same_scene_def keeps_def)

lemma visible_scene:
  assumes "desk_frame_ok X Y wm" "visible (wins wm w)"
  obtains wm' where "ComputeVisible wm w = Some wm'" "grid X Y wm'" "same_scene wm wm'" "px wm' Caller = vis wm w"
proof -
  have g: "grid X Y wm" using assms(1) by (simp add: desk_frame_ok_def)
  obtain wm' where w': "ComputeVisible wm w = Some wm'" "grid X Y wm'" "keeps wm wm'" "agree scr (px wm') ((px wm)(Caller := vis wm w))"
    using compute_visible_runs [OF g assms(1), of w] assms(2) by (auto simp: runs_def simp del: fun_upd_apply)
  then have "same_scene wm wm'" "px wm' Caller = vis wm w" by (auto simp: same_scene_def agree_def)
  with w'(1,2) show thesis using that by blast
qed

lemma paint_damaged_spec:
  assumes "desk_frame_ok X Y wm" "set ps \<subseteq> set (front wm)"
  shows "\<exists>wm'. paint_damaged ps wm cv = Some (wm', painted_by wm ps (\<lambda>q. px wm (Update q)) cv) \<and> grid X Y wm' \<and> same_scene wm wm'"
  using assms
proof (induction ps arbitrary: wm cv)
  case Nil
  then show ?case by (auto simp: painted_by_def desk_frame_ok_def same_scene_def agree_def fun_eq_iff split: option.splits)
next
  case (Cons w ws)
  let ?u = "\<lambda>q. px wm (Update q)"
  have g: "grid X Y wm" and w: "w \<in> set (front wm)" and ws: "set ws \<subseteq> set (front wm)" using Cons.prems(1,2) by (auto simp: desk_frame_ok_def)
  show ?case
  proof (cases "\<not> visible (wins wm w) \<or> px wm (Update w) = {}")
    case True
    have n: "painted_by wm [w] ?u cv = cv" by (rule painted_by_none [OF _ w]) (use True in auto)
    have "paint_damaged (w # ws) wm cv = paint_damaged ws wm cv" using True empty_px [OF g] by auto
    then show ?thesis unfolding painted_by_Cons(1) [of wm w ws] n using Cons.IH [OF Cons.prems(1) ws] by simp
  next
    case False
    obtain wm1 where v: "ComputeVisible wm w = Some wm1" "grid X Y wm1" "same_scene wm wm1" "px wm1 Caller = vis wm w"
      using visible_scene [OF Cons.prems(1)] False by blast
    note sc = same_sceneD [OF v(3)]
    define cv1 where "cv1 = (if region_is_empty (rgn wm1 Caller) then cv
      else paint_window_chrome cv w (rgn wm1 Caller) (rgn wm1 (Update w)))"
    have vw: "visible (wins wm w)" using False by simp
    have c: "cv1 = painted_by wm [w] ?u cv"
      unfolding chrome_step [OF w vw] cv1_def empty_px [OF v(2)] chrome_px [OF v(2)] v(4) sc(8) by auto
    have "set ws \<subseteq> set (front wm1)" using ws sc(1) by simp
    then obtain wm' where i: "paint_damaged ws wm1 cv1 = Some (wm', painted_by wm1 ws (\<lambda>q. px wm1 (Update q)) cv1)" "grid X Y wm'" "same_scene wm1 wm'"
      using Cons.IH [OF frame_ok_scene [OF v(3,2) Cons.prems(1)]] by blast
    have "paint_damaged (w # ws) wm cv = paint_damaged ws wm1 cv1"
      using False by (simp add: empty_px [OF g] v(1) cv1_def)
    then show ?thesis
      using i same_scene_trans [OF v(3) i(3)] unfolding painted_by_Cons(1) [of wm w ws] painted_by_cong [OF v(3)] c sc(8)
      by (intro exI [of _ wm'] conjI) simp_all
  qed
qed

lemma paint_back_spec:
  assumes "desk_frame_ok X Y wm" "set ps \<subseteq> set (front wm)"
  shows "\<exists>wm'. paint_back_to_front ps wm cv = Some (wm', painted_by wm ps (\<lambda>q. UNIV) cv) \<and> grid X Y wm' \<and> same_scene wm wm'"
  using assms(2)
proof (induction ps)
  case Nil
  with assms(1) show ?case by (auto simp: painted_by_def desk_frame_ok_def same_scene_def agree_def fun_eq_iff split: option.splits)
next
  case (Cons w ws)
  have w: "w \<in> set (front wm)" and ws: "set ws \<subseteq> set (front wm)" using Cons.prems by auto
  let ?c = "\<lambda>ps. painted_by wm ps (\<lambda>q. UNIV) cv"
  obtain wm1 where p1: "paint_back_to_front ws wm cv = Some (wm1, ?c ws)" "grid X Y wm1" "same_scene wm wm1"
    using Cons.IH [OF ws] by blast
  note sc = same_sceneD [OF p1(3)]
  note f1 = frame_ok_scene [OF p1(3,2) assms(1)]
  show ?case
  proof (cases "visible (wins wm w)")
    case False
    have "painted_by wm [w] (\<lambda>q. UNIV) (?c ws) = ?c ws" by (rule painted_by_none [OF _ w]) (use False in simp)
    with p1 False show ?thesis by (simp add: sc painted_by_Cons(2) [of wm w ws])
  next
    case True
    obtain wm2 where v: "ComputeVisible wm1 w = Some wm2" "grid X Y wm2" "same_scene wm1 wm2" "px wm2 Caller = vis wm1 w"
      using visible_scene [OF f1] True sc(2) by metis
    have "(if region_is_empty (rgn wm2 Caller) then ?c ws else paint_window_chrome (?c ws) w (rgn wm2 Caller) (rgn wm2 Caller)) =
        painted_by wm [w] (\<lambda>q. UNIV) (?c ws)"
      unfolding chrome_step [OF w True] empty_px [OF v(2)] chrome_px [OF v(2)] v(4) sc(6) by auto
    with p1(1) v(1,2) True same_scene_trans [OF p1(3) v(3)] show ?thesis
      by (simp add: sc(2) painted_by_Cons(2) [of wm w ws])
  qed
qed

section \<open>The content phase\<close>

lemma clip_runs:
  assumes "grid X Y wm" "w \<in> set (front wm)" "visible (wins wm w)"
  shows "runs X Y (WindowMgr_clip_update_to_visible wm w) (\<lambda>wm'. keeps wm wm' \<and>
    agree scr (px wm') ((px wm)(Update w := px wm (Update w) \<inter> vis wm w)))"
proof -
  have "runs X Y (do {
        wm1 \<leftarrow> fronts_union wm w ScrA;
        wm2 \<leftarrow> rop wm1 ScrB (Struc w) ScrA RGN_OP_DIFF;
        wm3 \<leftarrow> rop wm2 ScrC (Update w) ScrB RGN_OP_INTERSECT;
        wm4 \<leftarrow> rgn_copy wm3 (Update w) ScrC;
        wm5 \<leftarrow> rop wm4 ScrA (Update w) ScrB RGN_OP_DIFF;
        (if \<not> region_is_empty (rgn wm5 ScrA) then None else Some wm5) }) (\<lambda>wm'. keeps wm wm' \<and>
    agree scr (px wm') ((px wm)(Update w := px wm (Update w) \<inter> vis wm w)))"
    apply (rule runs_bind [OF fronts_union_runs [OF assms(1)]])
    apply (rule runs_bind [OF rop_runs], assumption)
    apply (rule runs_bind [OF rop_runs], assumption)
    apply (rule runs_bind [OF copy_runs], assumption)
    apply (rule runs_bind [OF rop_runs], assumption)
    subgoal premises pr for wm1 wm2 wm3 wm4 wm5
    proof -
      have "px wm5 ScrA = {}" using pr(2,4,6,8,10) by (auto simp: agree_def)
      moreover have "keeps wm wm5" "agree scr (px wm5) ((px wm)(Update w := px wm (Update w) \<inter> vis wm w))"
        using pr(2,4,6,8,10) by (auto simp: keeps_def agree_def vis_def)
      ultimately show ?thesis using pr(9) by (simp add: runs_def empty_px del: fun_upd_apply)
    qed
    done
  with assms(2,3) show ?thesis by (simp add: WindowMgr_clip_update_to_visible_def list_contains_def)
qed

definition deliveries :: "(nat \<Rightarrow> bool) \<Rightarrow> window_mgr \<Rightarrow> nat list \<Rightarrow> (nat \<times> (int \<times> int) set) list" where
  "deliveries receives wm ps = map (\<lambda>w. (w, px wm (Update w) \<inter> vis wm w))
     (filter (\<lambda>w. visible (wins wm w) \<and> receives w \<and> px wm (Update w) \<inter> vis wm w \<noteq> {}) ps)"

lemma deliveries_cong:
  "(\<And>q. q \<in> set ps \<Longrightarrow> visible (wins wm' q) = visible (wins wm q) \<and> px wm' (Update q) = px wm (Update q) \<and> vis wm' q = vis wm q) \<Longrightarrow>
     deliveries receives wm' ps = deliveries receives wm ps"
  by (induction ps) (auto simp: deliveries_def)

definition serviced :: "window_mgr \<Rightarrow> nat set \<Rightarrow> slot \<Rightarrow> (int \<times> int) set" where
  "serviced wm S s = (case s of Update q \<Rightarrow> if q \<in> S \<and> visible (wins wm q) then {} else px wm s | _ \<Rightarrow> px wm s)"

lemma serviced_other [simp]: "(\<And>q. s \<noteq> Update q) \<Longrightarrow> serviced wm S s = px wm s"
  by (cases s) (auto simp: serviced_def)

lemma route_spec:
  assumes "grid X Y wm" "set ps \<subseteq> set (front wm)" "distinct ps"
  shows "\<exists>wm' evs. route_from receives ps wm = Some (wm', evs) \<and> grid X Y wm' \<and> keeps wm wm' \<and>
    agree scr (px wm') (serviced wm (set ps)) \<and> map (\<lambda>(w, r). (w, pixs r)) evs = deliveries receives wm ps"
  using assms
proof (induction ps arbitrary: wm)
  case Nil
  then show ?case by (auto simp: agree_def serviced_def deliveries_def split: slot.splits)
next
  case (Cons w ws)
  have g: "grid X Y wm" and w: "w \<in> set (front wm)" and ws: "set ws \<subseteq> set (front wm)" "distinct ws" "w \<notin> set ws" using Cons.prems by auto
  let ?R = "\<lambda>m. \<exists>wm' evs. m = Some (wm', evs) \<and> grid X Y wm' \<and> keeps wm wm' \<and>
    agree scr (px wm') (serviced wm (set (w # ws))) \<and> map (\<lambda>(w, r). (w, pixs r)) evs = deliveries receives wm (w # ws)"
  show ?case
  proof (cases "visible (wins wm w) \<and> px wm (Update w) \<noteq> {}")
    case False
    then have "route_from receives (w # ws) wm = route_from receives ws wm" "deliveries receives wm (w # ws) = deliveries receives wm ws"
      "serviced wm (set (w # ws)) = serviced wm (set ws)"
      by (auto simp: empty_px [OF g] deliveries_def serviced_def fun_eq_iff split: slot.splits)
    with Cons.IH [OF g ws(1,2)] show ?thesis by simp
  next
    case True
    obtain wm1 where c: "WindowMgr_clip_update_to_visible wm w = Some wm1" "grid X Y wm1" "keeps wm wm1"
      "agree scr (px wm1) ((px wm)(Update w := px wm (Update w) \<inter> vis wm w))"
      using clip_runs [OF g w] True by (auto simp: runs_def simp del: fun_upd_apply)
    have u: "px wm1 (Update w) = px wm (Update w) \<inter> vis wm w" using c(4) by (auto simp: agree_def)
    define wm2 where "wm2 = (if px wm1 (Update w) = {} then wm1 else WindowMgr_validate wm1 w)"
    have g2: "grid X Y wm2" using c(2) by (simp add: wm2_def WindowMgr_validate_def clear_grid)
    have k2: "keeps wm wm2" using c(3) clear_keeps keeps_trans by (auto simp: wm2_def WindowMgr_validate_def)
    have p2: "px wm2 s = (if s = Update w then {} else px wm s)" if "s \<notin> scr" for s
      using c(4) that u by (auto simp: wm2_def WindowMgr_validate_def agree_def)
    have v2: "vis wm2 q = vis wm q" for q
      by (rule vis_cong) (use k2 in \<open>simp_all add: keeps_def p2\<close>)
    have d2: "deliveries receives wm2 ws = deliveries receives wm ws"
      by (rule deliveries_cong) (use k2 ws(3) in \<open>auto simp: v2 p2 keeps_def\<close>)
    have s2: "serviced wm2 (set ws) s = serviced wm (set (w # ws)) s" if "s \<notin> scr" for s
      using k2 that True by (auto simp: serviced_def p2 keeps_def split: slot.splits)
    obtain wm' evs where i: "route_from receives ws wm2 = Some (wm', evs)" "grid X Y wm'" "keeps wm2 wm'"
      "agree scr (px wm') (serviced wm2 (set ws))" "map (\<lambda>(w, r). (w, pixs r)) evs = deliveries receives wm ws"
      using Cons.IH [OF g2 _ ws(2)] ws(1) k2 d2 by (auto simp: keeps_def)
    have ag: "agree scr (px wm') (serviced wm (set (w # ws)))" using i(4) s2 by (auto simp: agree_def)
    have "route_from receives (w # ws) wm = Some (wm', (if px wm1 (Update w) \<noteq> {} \<and> receives w then [(w, rgn wm1 (Update w))] else []) @ evs)"
      using True c(1) i(1) by (cases "px wm1 (Update w) = {}") (simp_all add: empty_px [OF g] empty_px [OF c(2)] wm2_def)
    moreover have "map (\<lambda>(w, r). (w, pixs r)) ((if px wm1 (Update w) \<noteq> {} \<and> receives w then [(w, rgn wm1 (Update w))] else []) @ evs) =
        deliveries receives wm (w # ws)"
      using True by (simp add: i(5) u deliveries_def px_def [symmetric])
    ultimately show ?thesis using i(2) keeps_trans [OF k2 i(3)] ag by blast
  qed
qed

lemma validate_spec: "grid X Y wm \<Longrightarrow> grid X Y (validate_windows ps wm) \<and> keeps wm (validate_windows ps wm) \<and>
    px (validate_windows ps wm) = (\<lambda>s. case s of Update q \<Rightarrow> if q \<in> set ps then {} else px wm s | _ \<Rightarrow> px wm s)"
proof (induction ps arbitrary: wm)
  case Nil
  then show ?case by (auto simp: fun_eq_iff split: slot.splits)
next
  case (Cons w ws)
  note i = Cons.IH [OF clear_grid [OF Cons.prems], of "Update w"]
  have "keeps wm (validate_windows ws (clear_rgn wm (Update w)))" using i clear_keeps keeps_trans by blast
  with i show ?case by (auto simp: WindowMgr_validate_def fun_eq_iff split: slot.splits)
qed

lemma content_phase_spec:
  assumes "grid X Y wm" "distinct (front wm)" "px wm Desk = {}"
  shows "\<exists>wm' evs. flair_live_content_phase plist wm = Some (wm', evs) \<and> grid X Y wm' \<and> keeps wm wm' \<and> px wm' Desk = {} \<and>
    (\<forall>q. px wm' (Struc q) = px wm (Struc q)) \<and> px wm' Overlay = px wm Overlay \<and>
    (\<forall>q \<in> set (front wm). visible (wins wm q) \<longrightarrow> px wm' (Update q) = {}) \<and>
    map (\<lambda>(w, r). (w, pixs r)) evs = (case plist of None \<Rightarrow> [] | Some receives \<Rightarrow> deliveries receives wm (front wm))"
proof (cases plist)
  case None
  then show ?thesis using validate_spec [OF assms(1), of "front wm"] clear_grid clear_keeps keeps_trans
    by (auto simp: flair_live_content_phase_def desktop_validate_all_def)
next
  case (Some receives)
  with route_spec [OF assms(1) order_refl assms(2), of receives] assms(3) show ?thesis
    by (fastforce simp: flair_live_content_phase_def flair_route_updates_def agree_def serviced_def)
qed

end
