(* ===== verification/Session.thy ===== *)
theory Session imports Repaint begin

text \<open>
  A session of the desktop: windows are created, moved, sized, hidden and disposed of, parts are invalidated, and
  now and then a repaint cycle runs. The invariant \<open>owed\<close> holds throughout: a pixel that does not show its owner is
  in the update region of its owner.
\<close>

section \<open>The invariant\<close>

definition dirty :: "window_mgr \<Rightarrow> nat option \<Rightarrow> (int \<times> int) set" where
  "dirty wm q = (case q of None \<Rightarrow> px wm Desk | Some w \<Rightarrow> px wm (Update w))"

text \<open>The second clause keeps a stale debt of the background from painting over a window: the window owes the pixel too.\<close>

definition owed :: "window_mgr \<Rightarrow> canvas \<Rightarrow> bool" where
  "owed wm cv \<longleftrightarrow> (\<forall>pt \<in> desk wm.
     (cv pt = owner wm pt \<or> pt \<in> dirty wm (owner wm pt)) \<and>
     (pt \<in> px wm Desk \<longrightarrow> pt \<in> dirty wm (owner wm pt)))"

definition scene_ok :: "int set \<Rightarrow> int set \<Rightarrow> window_mgr \<Rightarrow> bool" where
  "scene_ok X Y wm \<longleftrightarrow> desk_frame_ok X Y wm \<and> distinct (front wm) \<and> hilites_ok wm"

definition shows_stack :: "window_mgr \<Rightarrow> canvas \<Rightarrow> bool" where
  "shows_stack wm cv \<longleftrightarrow> (\<forall>pt \<in> desk wm. cv pt = owner wm pt)"

lemma apart_desk: "apart_from w wm wm' \<Longrightarrow> desk wm' = desk wm"
  by (simp add: apart_from_def desk_def overlay_def)

lemma owed_step:
  assumes "damage_law w wm wm'" "repaints w wm wm'" "owed wm cv"
  shows "owed wm' cv"
proof -
  note law = assms(1) [unfolded damage_law_def]
  have d: "desk wm' = desk wm" using law apart_desk by blast
  have "(cv pt = owner wm' pt \<or> pt \<in> dirty wm' (owner wm' pt)) \<and> (pt \<in> px wm' Desk \<longrightarrow> pt \<in> dirty wm' (owner wm' pt))"
    if pt: "pt \<in> desk wm" for pt
  proof -
    have o: "cv pt = owner wm pt \<or> pt \<in> dirty wm (owner wm pt)" "pt \<in> px wm Desk \<Longrightarrow> pt \<in> dirty wm (owner wm pt)"
      using assms(3) pt by (auto simp: owed_def)
    show ?thesis
    proof (cases "owner wm' pt = Some w")
      case True
      then have r: "pt \<in> px wm' (Update w) \<or> (owner wm pt = Some w \<and> pt \<notin> px wm (Update w))"
        using assms(2) pt by (auto simp: repaints_def)
      have "pt \<in> px wm' Desk \<longleftrightarrow> pt \<in> px wm Desk" using law True by (auto simp: gained_def)
      with r o True show ?thesis by (auto simp: dirty_def)
    next
      case False
      have dd: "dirty wm q \<union> gained wm wm' q \<subseteq> dirty wm' q" if "q \<noteq> Some w" for q
        using law that by (cases q) (auto simp: dirty_def)
      show ?thesis
      proof (cases "owner wm pt = owner wm' pt")
        case True
        have "pt \<in> px wm' Desk \<Longrightarrow> pt \<in> px wm Desk \<or> owner wm' pt = None" using law by (auto simp: gained_def)
        with True o dd [OF False] show ?thesis by (cases "owner wm' pt") (auto simp: dirty_def)
      next
        case f: False
        with pt have "pt \<in> gained wm wm' (owner wm' pt)" by (simp add: gained_def)
        with dd [OF False] show ?thesis by blast
      qed
    qed
  qed
  then show ?thesis by (simp add: owed_def d)
qed

text \<open>More debt, the same owners.\<close>

lemma owed_more:
  assumes "owed wm cv" "owner wm' = owner wm" "desk wm' = desk wm" "\<And>q. dirty wm q \<subseteq> dirty wm' q"
    and "\<And>pt. pt \<in> px wm' Desk \<Longrightarrow> pt \<in> px wm Desk \<or> owner wm pt = None"
  shows "owed wm' cv"
proof -
  have "(cv pt = owner wm' pt \<or> pt \<in> dirty wm' (owner wm' pt)) \<and> (pt \<in> px wm' Desk \<longrightarrow> pt \<in> dirty wm' (owner wm' pt))"
    if "pt \<in> desk wm" for pt
    using bspec [OF assms(1) [unfolded owed_def] that] assms(4) [of "owner wm pt"] assms(5) [of pt] unfolding assms(2)
    by (cases "owner wm pt") (auto simp: dirty_def)
  then show ?thesis by (simp add: owed_def assms(3))
qed

lemma clean_owed: "px wm Desk = {} \<Longrightarrow> shows_stack wm cv \<Longrightarrow> owed wm cv"
  by (simp add: owed_def shows_stack_def)

section \<open>The repaint cycle\<close>

lemma paint_damage_shows:
  assumes "scene_ok X Y wm" "owed wm cv"
  shows "\<exists>wm' cv'. desktop_paint_damage wm cv = Some (wm', cv') \<and> grid X Y wm' \<and> keeps wm wm' \<and>
    agree (insert Caller scr) (px wm') ((px wm)(Desk := {})) \<and> shows_stack wm cv'"
proof -
  have f: "desk_frame_ok X Y wm" and g: "grid X Y wm" using assms(1) by (simp_all add: scene_ok_def desk_frame_ok_def)
  define cv1 where "cv1 = (if \<not> region_is_empty (rgn wm Desk) then desktop_fill cv (region_get_bbox (rgn wm Desk)) (Some (rgn wm Desk)) else cv)"
  have c1: "cv1 = (\<lambda>pt. if pt \<in> px wm Desk then None else cv pt)" by (auto simp: cv1_def fill_px [OF g] empty_px [OF g])
  let ?cv2 = "painted_by wm (front wm) (\<lambda>q. px wm (Update q)) cv1"
  obtain wm1 where p: "paint_damaged (front wm) wm cv1 = Some (wm1, ?cv2)" "grid X Y wm1" "same_scene wm wm1"
    using paint_damaged_spec [OF f order_refl] by blast
  have "?cv2 pt = owner wm pt" if pt: "pt \<in> desk wm" for pt
  proof -
    have "pt \<notin> overlay wm" using pt by (simp add: desk_def)
    moreover have "cv pt = owner wm pt \<or> pt \<in> dirty wm (owner wm pt)" "pt \<in> px wm Desk \<longrightarrow> pt \<in> dirty wm (owner wm pt)"
      using assms(2) pt by (auto simp: owed_def)
    moreover have "owner wm pt = Some q \<Longrightarrow> q \<in> set (front wm)" for q using top_of_SomeD by (auto simp: owner_def)
    ultimately show ?thesis by (auto simp: painted_by_def c1 dirty_def split: option.splits)
  qed
  moreover have "desktop_paint_damage wm cv = Some (clear_rgn wm1 Desk, ?cv2)"
    by (simp add: desktop_paint_damage_def cv1_def [symmetric] p(1))
  moreover have "keeps wm (clear_rgn wm1 Desk)" using p(3) clear_keeps keeps_trans by (auto simp: same_scene_def)
  moreover have "agree (insert Caller scr) (px (clear_rgn wm1 Desk)) ((px wm)(Desk := {}))" using p(3) by (auto simp: same_scene_def agree_def)
  ultimately show ?thesis using clear_grid [OF p(2)] by (auto simp: shows_stack_def)
qed

lemma keeps_scene:
  assumes "keeps wm wm'" "\<And>q. px wm' (Struc q) = px wm (Struc q)" "px wm' Overlay = px wm Overlay"
  shows "owner wm' = owner wm" "desk wm' = desk wm" "vis wm' q = vis wm q" "hilites_ok wm' = hilites_ok wm"
proof -
  have k: "front wm' = front wm" "wins wm' = wins wm" "has_overlay wm' = has_overlay wm" "desktop_frame wm' = desktop_frame wm"
    using assms(1) by (simp_all add: keeps_def)
  show "owner wm' = owner wm" by (auto simp: owner_def fun_eq_iff k assms(2) intro!: top_of_cong)
  show "desk wm' = desk wm" by (simp add: desk_def overlay_def k assms(3))
  show "vis wm' q = vis wm q" by (rule vis_cong) (simp_all add: k assms(2,3))
  show "hilites_ok wm' = hilites_ok wm" by (simp add: hilites_ok_def active_def k)
qed

lemma repaint_shows:
  assumes "scene_ok X Y wm" "owed wm cv"
  shows "\<exists>wm' cv' evs. flair_live_repaint plist wm cv = Some (wm', cv', evs) \<and> scene_ok X Y wm' \<and> keeps wm wm' \<and>
    (\<forall>q. px wm' (Struc q) = px wm (Struc q)) \<and> px wm' Overlay = px wm Overlay \<and> px wm' Desk = {} \<and>
    (\<forall>q \<in> set (front wm). visible (wins wm q) \<longrightarrow> px wm' (Update q) = {}) \<and> shows_stack wm' cv' \<and>
    map (\<lambda>(w, r). (w, pixs r)) evs = (case plist of None \<Rightarrow> [] | Some receives \<Rightarrow> deliveries receives wm (front wm))"
proof -
  obtain wm1 cv1 where p: "desktop_paint_damage wm cv = Some (wm1, cv1)" "grid X Y wm1" "keeps wm wm1"
    "agree (insert Caller scr) (px wm1) ((px wm)(Desk := {}))" "shows_stack wm cv1"
    using paint_damage_shows [OF assms] by blast
  have k1: "front wm1 = front wm" "wins wm1 = wins wm" using p(3) by (simp_all add: keeps_def)
  have q1: "px wm1 (Struc q) = px wm (Struc q)" "px wm1 (Update q) = px wm (Update q)" "px wm1 Overlay = px wm Overlay" "px wm1 Desk = {}" for q
    using p(4) by (simp_all add: agree_def)
  note s1 = keeps_scene [OF p(3) q1(1,3)]
  have di: "distinct (front wm1)" using assms(1) by (simp add: k1 scene_ok_def)
  obtain wm' evs where c: "flair_live_content_phase plist wm1 = Some (wm', evs)" "grid X Y wm'" "keeps wm1 wm'" "px wm' Desk = {}"
    "\<forall>q. px wm' (Struc q) = px wm1 (Struc q)" "px wm' Overlay = px wm1 Overlay"
    "\<forall>q \<in> set (front wm1). visible (wins wm1 q) \<longrightarrow> px wm' (Update q) = {}"
    "map (\<lambda>(w, r). (w, pixs r)) evs = (case plist of None \<Rightarrow> [] | Some receives \<Rightarrow> deliveries receives wm1 (front wm1))"
    using content_phase_spec [OF p(2) di q1(4)] by blast
  have ks: "keeps wm wm'" by (rule keeps_trans [OF p(3) c(3)])
  have st: "px wm' (Struc q) = px wm (Struc q)" "px wm' Overlay = px wm Overlay" for q using c(5,6) q1 by simp_all
  note s2 = keeps_scene [OF ks st]
  have sc: "scene_ok X Y wm'" using assms(1) c(2) ks by (simp add: scene_ok_def desk_frame_ok_def s2(4)) (simp add: keeps_def)
  have dl: "deliveries receives wm1 (front wm1) = deliveries receives wm (front wm)" for receives
    unfolding k1 by (rule deliveries_cong) (simp add: k1 q1 s1(3))
  have "flair_live_repaint plist wm cv = Some (wm', cv1, evs)" by (simp add: flair_live_repaint_def p(1) c(1))
  moreover have "shows_stack wm' cv1" using p(5) by (simp add: shows_stack_def s2(1,2))
  moreover have "map (\<lambda>(w, r). (w, pixs r)) evs = (case plist of None \<Rightarrow> [] | Some receives \<Rightarrow> deliveries receives wm (front wm))"
    using c(8) by (simp add: dl split: option.splits)
  ultimately show ?thesis using sc ks st c(4,7) k1 by auto
qed

lemma paint_all_shows:
  assumes "scene_ok X Y wm"
  shows "\<exists>wm' cv'. desktop_paint_all wm cv = Some (wm', cv') \<and> scene_ok X Y wm' \<and> keeps wm wm' \<and>
    agree (insert Caller scr) (px wm') ((px wm)(Desk := {})) \<and> shows_stack wm' cv' \<and> owed wm' cv'"
proof -
  have f: "desk_frame_ok X Y wm" using assms by (simp add: scene_ok_def)
  let ?cv1 = "desktop_fill cv (desktop_frame wm) None" and ?cv2 = "\<lambda>cv1. painted_by wm (front wm) (\<lambda>q. UNIV) cv1"
  obtain wm1 where p: "paint_back_to_front (front wm) wm ?cv1 = Some (wm1, ?cv2 ?cv1)" "grid X Y wm1" "same_scene wm wm1"
    using paint_back_spec [OF f order_refl] by blast
  let ?wm' = "clear_rgn wm1 Desk"
  have k: "keeps wm ?wm'" using p(3) clear_keeps keeps_trans by (auto simp: same_scene_def)
  have a: "agree (insert Caller scr) (px ?wm') ((px wm)(Desk := {}))" using p(3) by (auto simp: same_scene_def agree_def)
  have st: "px ?wm' (Struc q) = px wm (Struc q)" "px ?wm' Overlay = px wm Overlay" for q
    using same_sceneD(7) [OF p(3)] p(3) by (simp_all add: same_scene_def agree_def)
  note s = keeps_scene [OF k st]
  have "?cv2 ?cv1 pt = owner wm pt" if "pt \<in> desk wm" for pt
  proof -
    have "owner wm pt = Some q \<Longrightarrow> q \<in> set (front wm)" for q using top_of_SomeD by (auto simp: owner_def)
    with that show ?thesis by (auto simp: painted_by_def fill_frame desk_def split: option.splits)
  qed
  then have sh: "shows_stack ?wm' (?cv2 ?cv1)" by (simp only: shows_stack_def s(1,2)) simp
  have "scene_ok X Y ?wm'" using assms clear_grid [OF p(2)] k by (simp only: scene_ok_def desk_frame_ok_def s(4)) (simp add: keeps_def)
  moreover have "desktop_paint_all wm cv = Some (?wm', ?cv2 ?cv1)" by (simp add: desktop_paint_all_def p(1))
  moreover have "owed ?wm' (?cv2 ?cv1)" by (rule clean_owed [OF _ sh]) simp
  ultimately show ?thesis using k a sh by blast
qed

section \<open>Events\<close>

datatype event =
    ENew nat rgn_rect rgn_rect int int bool
  | EHide nat
  | EDispose nat
  | EShow nat
  | ESelect nat
  | EDrag nat int int
  | ESize nat int int
  | EZoom nat
  | ECollapse nat
  | EInval nat rgn_rect
  | EInvalDesk rgn_rect
  | EPaintAll
  | ERepaint

text \<open>A shown window is invalidated as a whole, as \<open>ShowWindow\<close> asks of its caller; a drag is committed as the live desktop does.\<close>

fun desk_step :: "(nat \<Rightarrow> bool) option \<Rightarrow> event \<Rightarrow> window_mgr \<Rightarrow> canvas \<Rightarrow> (window_mgr \<times> canvas) option" where
  "desk_step plist (ENew w fr c wKind wVariant goAway) wm cv = map_option (\<lambda>wm'. (wm', cv)) (NewWindow wm w fr c wKind wVariant goAway)"
| "desk_step plist (EHide w) wm cv = map_option (\<lambda>wm'. (wm', cv)) (HideWindow wm w)"
| "desk_step plist (EDispose w) wm cv = map_option (\<lambda>wm'. (wm', cv)) (DisposeWindow wm w)"
| "desk_step plist (EShow w) wm cv = map_option (\<lambda>wm'. (wm', cv))
     (do { wm1 \<leftarrow> ShowWindow wm w; WindowMgr_invalidate wm1 w (region_get_bbox (rgn wm1 (Struc w))) })"
| "desk_step plist (ESelect w) wm cv = map_option (\<lambda>wm'. (wm', cv)) (SelectWindow wm w)"
| "desk_step plist (EDrag w dh dv) wm cv = map_option (\<lambda>wm'. (wm', cv)) (drag_commit wm w dh dv)"
| "desk_step plist (ESize w width height) wm cv = map_option (\<lambda>wm'. (wm', cv)) (SizeWindow wm w width height)"
| "desk_step plist (EZoom w) wm cv = map_option (\<lambda>(wm', _). (wm', cv)) (ZoomWindow wm w)"
| "desk_step plist (ECollapse w) wm cv = map_option (\<lambda>(wm', _). (wm', cv)) (CollapseWindow wm w)"
| "desk_step plist (EInval w rc) wm cv = map_option (\<lambda>wm'. (wm', cv)) (WindowMgr_invalidate wm w rc)"
| "desk_step plist (EInvalDesk rc) wm cv = map_option (\<lambda>wm'. (wm', cv)) (WindowMgr_invalidate_desktop wm rc)"
| "desk_step plist EPaintAll wm cv = desktop_paint_all wm cv"
| "desk_step plist ERepaint wm cv = map_option (\<lambda>(wm', cv', _). (wm', cv')) (flair_live_repaint plist wm cv)"

definition drag_target :: "window_mgr \<Rightarrow> nat \<Rightarrow> int \<Rightarrow> int \<Rightarrow> int \<times> int" where
  "drag_target wm w dh dv = move_delta wm w (i16 (rleft (WindowFrameRect wm w) + dh)) (i16 (rtop (WindowFrameRect wm w) + dv))"

definition sized_rect :: "window_mgr \<Rightarrow> nat \<Rightarrow> int \<times> int \<Rightarrow> rgn_rect" where
  "sized_rect wm w sz = (WindowFrameRect wm w)
     \<lparr>rright := i16 (rleft (WindowFrameRect wm w) + fst sz), rbottom := i16 (rtop (WindowFrameRect wm w) + snd sz)\<rparr>"

definition zoom_rect :: "window_mgr \<Rightarrow> nat \<Rightarrow> rgn_rect" where
  "zoom_rect wm w = (if zoomed (wins wm w) then userState (wins wm w)
     else let d = desktop_frame wm in mk_rect (i16 (rtop d + 40)) (i16 (rleft d + 4)) (i16 (rbottom d - 4)) (i16 (rright d - 4)))"

definition bar_rect :: "window_mgr \<Rightarrow> nat \<Rightarrow> rgn_rect" where
  "bar_rect wm w = (WindowFrameRect wm w)\<lparr>rbottom := i16 (rtop (WindowFrameRect wm w) + TITLEBAR_H)\<rparr>"

text \<open>What an event needs: its window is (or, for a new one, is not) in the list, and its coordinates are on the grid.\<close>

fun enabled :: "int set \<Rightarrow> int set \<Rightarrow> event \<Rightarrow> window_mgr \<Rightarrow> bool" where
  "enabled X Y (ENew w fr c wKind wVariant goAway) wm \<longleftrightarrow>
     w \<notin> set (front wm) \<and> \<not> hilited (wins wm w) \<and> struct_on X Y fr wVariant \<and> content_on X Y c wVariant"
| "enabled X Y (EHide w) wm \<longleftrightarrow> w \<in> set (front wm)"
| "enabled X Y (EDispose w) wm \<longleftrightarrow> w \<in> set (front wm)"
| "enabled X Y (EShow w) wm \<longleftrightarrow> w \<in> set (front wm)"
| "enabled X Y (ESelect w) wm \<longleftrightarrow> w \<in> set (front wm)"
| "enabled X Y (EDrag w dh dv) wm \<longleftrightarrow> w \<in> set (front wm) \<and> visible (wins wm w) \<and>
     (drag_target wm w dh dv = (0, 0) \<or> move_on X Y wm w (drag_target wm w dh dv))"
| "enabled X Y (ESize w width height) wm \<longleftrightarrow> w \<in> set (front wm) \<and> visible (wins wm w) \<and> \<not> collapsed (wins wm w) \<and>
     (case ConstrainWindowSize wm w width height of None \<Rightarrow> False
      | Some sz \<Rightarrow> next_ok X Y (sized_rect wm w sz) (windowDefProcVariant (wins wm w)) False)"
| "enabled X Y (EZoom w) wm \<longleftrightarrow> w \<in> set (front wm) \<and> visible (wins wm w) \<and>
     (collapsed (wins wm w) \<longrightarrow> next_ok X Y (collapseState (wins wm w)) (windowDefProcVariant (wins wm w)) False) \<and>
     (zoomed (wins wm w) \<longrightarrow> userStateValid (wins wm w)) \<and>
     next_ok X Y (zoom_rect wm w) (windowDefProcVariant (wins wm w)) False"
| "enabled X Y (ECollapse w) wm \<longleftrightarrow> w \<in> set (front wm) \<and> visible (wins wm w) \<and>
     (if collapsed (wins wm w) then next_ok X Y (collapseState (wins wm w)) (windowDefProcVariant (wins wm w)) False
      else next_ok X Y (bar_rect wm w) (windowDefProcVariant (wins wm w)) True)"
| "enabled X Y (EInval w rc) wm \<longleftrightarrow> w \<in> set (front wm) \<and> ok_rect X Y rc"
| "enabled X Y (EInvalDesk rc) wm \<longleftrightarrow> ok_rect X Y rc"
| "enabled X Y EPaintAll wm \<longleftrightarrow> True"
| "enabled X Y ERepaint wm \<longleftrightarrow> True"

section \<open>Every event keeps the invariant\<close>

definition settles :: "int set \<Rightarrow> int set \<Rightarrow> canvas \<Rightarrow> window_mgr option \<Rightarrow> bool" where
  "settles X Y cv m \<longleftrightarrow> (\<exists>wm'. m = Some wm' \<and> scene_ok X Y wm' \<and> owed wm' cv)"

lemma settles_op:
  assumes "scene_ok X Y wm" "owed wm cv" "runs X Y m (\<lambda>wm'. step_ok w wm wm' \<and> repaints w wm wm')"
  shows "settles X Y cv m"
proof -
  obtain wm' where w: "m = Some wm'" "grid X Y wm'" "step_ok w wm wm'" "repaints w wm wm'" using assms(3) by (auto simp: runs_def)
  have "desktop_frame wm' = desktop_frame wm" using w(3) by (simp add: step_ok_def damage_law_def apart_from_def)
  with w assms show ?thesis
    by (auto simp: settles_def scene_ok_def desk_frame_ok_def step_ok_def intro: owed_step)
qed

lemma repaints_gone: "\<not> (w \<in> set (front wm') \<and> visible (wins wm' w)) \<Longrightarrow> repaints w wm wm'"
  using never_owner [of w wm'] by (auto simp: repaints_def)

lemma repaints_full: "apart_from w wm wm' \<Longrightarrow> vis wm' w \<subseteq> px wm' (Update w) \<Longrightarrow> repaints w wm wm'"
proof -
  assume a: "apart_from w wm wm'" and v: "vis wm' w \<subseteq> px wm' (Update w)"
  have "overlay wm' = overlay wm" using a by (simp add: apart_from_def overlay_def)
  with v owner_vis [of wm' _ w] show ?thesis by (auto simp: repaints_def desk_def)
qed

lemma step_apart: "step_ok w wm wm' \<Longrightarrow> apart_from w wm wm'"
  by (simp add: step_ok_def damage_law_def)

lemma invalidate_rest_runs:
  assumes "grid X Y wm1" "step_ok w wm wm1" "w \<in> set (front wm1)" "visible (wins wm1 w)"
  shows "runs X Y (WindowMgr_invalidate wm1 w (region_get_bbox (rgn wm1 (Struc w)))) (\<lambda>wm'. step_ok w wm wm' \<and> repaints w wm wm')"
proof (rule runs_weaken [OF invalidate_all_runs [OF assms(1,3,4)]], elim conjE)
  fix wm'
  assume k: "keeps wm1 wm'" and a: "agree scr (px wm') ((px wm1)(Update w := px wm1 (Update w) \<union> vis wm1 w))"
  have e: "front wm' = front wm1" "wins wm' = wins wm1" "desktop_frame wm' = desktop_frame wm1" "has_overlay wm' = has_overlay wm1"
    using k by (simp_all add: keeps_def)
  have a': "agree (insert (Update w) scr) (px wm') (px wm1)" using a by (auto simp: agree_def)
  have s: "damage_law w wm wm1" "hilites_ok wm1" "distinct (front wm1)" using assms(2) by (simp_all add: step_ok_def)
  note lt = law_touch [OF s(1) e a']
  have "vis wm' w \<subseteq> px wm' (Update w)" using a by (auto simp: agree_def lt(4))
  moreover have "step_ok w wm wm'" using lt(1) s law_calm_hilites [OF s(2) e(1,2)] by (simp add: step_ok_def e)
  ultimately show "step_ok w wm wm' \<and> repaints w wm wm'" using repaints_full step_apart by blast
qed

lemma settles_set_win:
  assumes "settles X Y cv (Some wm)" "\<And>r. visible (f r) = visible r" "\<And>r. hilited (f r) = hilited r"
  shows "settles X Y cv (Some (set_win wm w f))"
proof -
  have "owner (set_win wm w f) = owner wm" by (auto simp: owner_def fun_eq_iff assms(2) intro!: top_of_cong split: if_splits)
  moreover have "desk (set_win wm w f) = desk wm" by (simp add: desk_def overlay_def)
  moreover have "active (set_win wm w f) = active wm"
  proof -
    have "(\<lambda>p. visible (wins (set_win wm w f) p)) = (\<lambda>p. visible (wins wm p))" by (auto simp: fun_eq_iff assms(2))
    then show ?thesis unfolding active_def by (simp only: set_win_simps(1))
  qed
  ultimately show ?thesis
    using assms(1,3) by (auto simp: settles_def scene_ok_def desk_frame_ok_def owed_def dirty_def hilites_ok_def split: option.splits)
qed

text \<open>A document frame set in the middle of an operation.\<close>

lemma frame_settles:
  assumes "settles X Y cv (Some wm)" "w \<in> set (front wm)" "visible (wins wm w)"
    and "next_ok X Y fr (windowDefProcVariant (wins wm w)) coll"
  obtains wm' where "set_document_frame wm w fr coll = Some wm'" "settles X Y cv (Some wm')" "front wm' = front wm" "wins wm' = wins wm"
    "desktop_frame wm' = desktop_frame wm"
proof -
  have s: "scene_ok X Y wm" "owed wm cv" using assms(1) by (simp_all add: settles_def)
  then have c: "desk_frame_ok X Y wm" "distinct (front wm)" "hilites_ok wm" by (simp_all add: scene_ok_def)
  note r = document_frame_runs [OF c(1,2) assms(2) c(3) assms(3,4)]
  then obtain wm' where w: "set_document_frame wm w fr coll = Some wm'" "step_ok w wm wm'" "front wm' = front wm" "wins wm' = wins wm"
    by (auto simp: runs_def)
  have "settles X Y cv (set_document_frame wm w fr coll)"
    by (rule settles_op [where w = w, OF s runs_weaken [OF r]]) (auto intro!: repaints_full dest: step_apart)
  moreover have "desktop_frame wm' = desktop_frame wm" using step_apart [OF w(2)] by (simp add: apart_from_def)
  ultimately show thesis using that w by simp
qed

lemma repaints_refl: "repaints w wm wm" by (simp add: repaints_def)

lemma drag_runs:
  assumes "scene_ok X Y wm" "enabled X Y (EDrag w dh dv) wm"
  shows "runs X Y (drag_commit wm w dh dv) (\<lambda>wm'. step_ok w wm wm' \<and> repaints w wm wm')"
proof (cases "dh \<noteq> 0 \<or> dv \<noteq> 0")
  case False
  with assms(1) show ?thesis by (simp add: drag_commit_def runs_def scene_ok_def desk_frame_ok_def step_ok_def law_refl repaints_refl)
next
  case True
  have w: "w \<in> set (front wm)" "visible (wins wm w)" and c: "desk_frame_ok X Y wm" "distinct (front wm)" "hilites_ok wm"
    using assms by (simp_all add: scene_ok_def)
  let ?l = "i16 (rleft (WindowFrameRect wm w) + dh)" and ?t = "i16 (rtop (WindowFrameRect wm w) + dv)"
  let ?Q = "\<lambda>wm'. step_ok w wm wm' \<and> front wm' = front wm \<and> wins wm' = wins wm"
  have "DragWindow wm w dh dv = MoveWindow wm w ?l ?t" using w(1) by (simp add: DragWindow_def list_contains_def Let_def)
  moreover have "runs X Y (MoveWindow wm w ?l ?t) ?Q"
    by (rule runs_weaken [OF move_runs [OF c(1,2) w(1) c(3) w(2)]]) (use assms(2) in \<open>auto simp: drag_target_def\<close>)
  ultimately show ?thesis
    using True w unfolding drag_commit_def by (auto intro!: runs_bind [where Q = ?Q] invalidate_rest_runs)
qed

lemma show_all_runs:
  assumes "scene_ok X Y wm" "w \<in> set (front wm)"
  shows "runs X Y (do { wm1 \<leftarrow> ShowWindow wm w; WindowMgr_invalidate wm1 w (region_get_bbox (rgn wm1 (Struc w))) })
    (\<lambda>wm'. step_ok w wm wm' \<and> repaints w wm wm')"
proof -
  have c: "desk_frame_ok X Y wm" "distinct (front wm)" "hilites_ok wm" using assms(1) by (simp_all add: scene_ok_def)
  let ?Q = "\<lambda>wm'. step_ok w wm wm' \<and> front wm' = front wm \<and> visible (wins wm' w)"
  have "runs X Y (ShowWindow wm w) ?Q"
  proof (cases "visible (wins wm w)")
    case True
    with assms(2) c show ?thesis
      by (simp add: ShowWindow_def list_contains_def runs_def desk_frame_ok_def step_ok_def law_refl)
  next
    case False
    show ?thesis by (rule runs_weaken [OF show_runs [OF c(1,2) assms(2) c(3) False]]) simp
  qed
  then show ?thesis using assms(2) by (auto intro!: runs_bind [where Q = ?Q] invalidate_rest_runs)
qed

lemma size_settles:
  assumes "scene_ok X Y wm" "owed wm cv" "enabled X Y (ESize w width height) wm"
  shows "settles X Y cv (SizeWindow wm w width height)"
proof -
  obtain wd ht where sz: "ConstrainWindowSize wm w width height = Some (wd, ht)" "\<not> collapsed (wins wm w)"
    and w: "w \<in> set (front wm)" "visible (wins wm w)" "next_ok X Y (sized_rect wm w (wd, ht)) (windowDefProcVariant (wins wm w)) False"
    using assms(3) by (auto split: option.splits)
  have s: "settles X Y cv (Some wm)" using assms(1,2) by (simp add: settles_def)
  obtain wm' where f: "set_document_frame wm w (sized_rect wm w (wd, ht)) False = Some wm'" "settles X Y cv (Some wm')"
    using frame_settles [OF s w] by blast
  have "SizeWindow wm w width height =
      Some (if zoomed (wins wm' w) then set_win wm' w (\<lambda>r. r\<lparr>zoomed := False, userStateValid := False\<rparr>) else wm')"
    using sz f(1) by (simp add: SizeWindow_def sized_rect_def Let_def)
  with f(2) settles_set_win [OF f(2)] show ?thesis by simp
qed

lemma zoom_settles:
  assumes "scene_ok X Y wm" "owed wm cv" "enabled X Y (EZoom w) wm"
  shows "settles X Y cv (map_option fst (ZoomWindow wm w))"
proof -
  have e: "w \<in> set (front wm)" "visible (wins wm w)" "zoomed (wins wm w) \<Longrightarrow> userStateValid (wins wm w)"
    "collapsed (wins wm w) \<Longrightarrow> next_ok X Y (collapseState (wins wm w)) (windowDefProcVariant (wins wm w)) False"
    "next_ok X Y (zoom_rect wm w) (windowDefProcVariant (wins wm w)) False"
    using assms(3) by auto
  have s: "settles X Y cv (Some wm)" using assms(1,2) by (simp add: settles_def)
  let ?off = "\<lambda>r. r\<lparr>collapsed := False\<rparr>"
  obtain wm1 where o: "(if collapsed (wins wm w)
       then set_document_frame (set_win wm w ?off) w (collapseState (wins wm w)) False else Some wm) = Some wm1"
    "settles X Y cv (Some wm1)" "front wm1 = front wm" "wins wm1 = (wins wm)(w := (wins wm w)\<lparr>collapsed := False\<rparr>)"
    "desktop_frame wm1 = desktop_frame wm"
  proof (cases "collapsed (wins wm w)")
    case True
    have s': "settles X Y cv (Some (set_win wm w ?off))" by (rule settles_set_win [OF s]) simp_all
    show thesis by (rule frame_settles [OF s', of w "collapseState (wins wm w)" False]) (use True e that in auto)
  next
    case False
    then show thesis using that [of wm] s by (simp add: fun_upd_idem)
  qed
  have e1: "w \<in> set (front wm1)" "visible (wins wm1 w)" "zoomed (wins wm1 w) = zoomed (wins wm w)"
    "windowDefProcVariant (wins wm1 w) = windowDefProcVariant (wins wm w)" "userState (wins wm1 w) = userState (wins wm w)"
    "userStateValid (wins wm1 w) = userStateValid (wins wm w)"
    using e(1,2) o(3,4) by simp_all
  let ?f = "if zoomed (wins wm w) then (\<lambda>r. r\<lparr>zoomed := False\<rparr>)
    else (\<lambda>r. r\<lparr>userState := WindowFrameRect wm1 w, userStateValid := True, zoomed := True\<rparr>)"
  have s2: "settles X Y cv (Some (set_win wm1 w ?f))" by (rule settles_set_win [OF o(2)]) auto
  obtain wm3 where f: "set_document_frame (set_win wm1 w ?f) w (zoom_rect wm w) False = Some wm3" "settles X Y cv (Some wm3)"
    by (rule frame_settles [OF s2, of w "zoom_rect wm w" False]) (use e(5) e1 in auto)
  have "ZoomWindow wm w = Some (wm3, zoomed (wins wm3 w))"
    using o(1) f(1) e(3) e1 o(5) by (cases "zoomed (wins wm w)") (simp_all add: ZoomWindow_def zoom_rect_def Let_def)
  with f(2) show ?thesis by simp
qed

lemma collapse_settles:
  assumes "scene_ok X Y wm" "owed wm cv" "enabled X Y (ECollapse w) wm"
  shows "settles X Y cv (map_option fst (CollapseWindow wm w))"
proof -
  have e: "w \<in> set (front wm)" "visible (wins wm w)"
    and n: "if collapsed (wins wm w) then next_ok X Y (collapseState (wins wm w)) (windowDefProcVariant (wins wm w)) False
      else next_ok X Y (bar_rect wm w) (windowDefProcVariant (wins wm w)) True"
    using assms(3) by auto
  have s: "settles X Y cv (Some wm)" using assms(1,2) by (simp add: settles_def)
  let ?f = "if collapsed (wins wm w) then (\<lambda>r. r\<lparr>collapsed := False\<rparr>)
    else (\<lambda>r. r\<lparr>collapseState := WindowFrameRect wm w, collapsed := True\<rparr>)"
  let ?r = "if collapsed (wins wm w) then collapseState (wins wm w) else bar_rect wm w"
  have s2: "settles X Y cv (Some (set_win wm w ?f))" by (rule settles_set_win [OF s]) auto
  obtain wm1 where f: "set_document_frame (set_win wm w ?f) w ?r (\<not> collapsed (wins wm w)) = Some wm1" "settles X Y cv (Some wm1)"
    by (rule frame_settles [OF s2, of w ?r "\<not> collapsed (wins wm w)"]) (use e n in \<open>auto split: if_splits\<close>)
  have "CollapseWindow wm w = Some (wm1, collapsed (wins wm1 w))"
    using f(1) by (cases "collapsed (wins wm w)") (simp_all add: CollapseWindow_def bar_rect_def Let_def)
  with f(2) show ?thesis by simp
qed

end
