(* ===== verification/SessionRun.thy ===== *)
theory SessionRun imports Session begin

text \<open>
  Whole sessions: every enabled event returns and keeps the invariant, and the events that work on one window obey the
  law of damage.
\<close>

section \<open>Every enabled event returns\<close>

definition fine :: "int set \<Rightarrow> int set \<Rightarrow> (window_mgr \<times> canvas) option \<Rightarrow> bool" where
  "fine X Y m \<longleftrightarrow> (\<exists>wm' cv'. m = Some (wm', cv') \<and> scene_ok X Y wm' \<and> owed wm' cv')"

lemma settles_fine: "settles X Y cv m \<Longrightarrow> fine X Y (map_option (\<lambda>wm'. (wm', cv)) m)"
  by (auto simp: settles_def fine_def)

lemma settles_fine_fst: "settles X Y cv (map_option fst m) \<Longrightarrow> fine X Y (map_option (\<lambda>(wm', _). (wm', cv)) m)"
  by (auto simp: settles_def fine_def)

lemma hide_settles:
  assumes "scene_ok X Y wm" "owed wm cv" "w \<in> set (front wm)"
  shows "settles X Y cv (HideWindow wm w)"
proof (cases "visible (wins wm w)")
  case True
  have c: "desk_frame_ok X Y wm" "distinct (front wm)" using assms(1) by (simp_all add: scene_ok_def)
  show ?thesis
    by (rule settles_op [where w = w, OF assms(1,2) runs_weaken [OF hide_runs [OF c assms(3) True]]]) (auto intro: repaints_gone)
next
  case False
  with assms show ?thesis by (simp add: HideWindow_def list_contains_def settles_def)
qed

lemma inval_settles:
  assumes "scene_ok X Y wm" "owed wm cv" "w \<in> set (front wm)" "ok_rect X Y rc"
  shows "settles X Y cv (WindowMgr_invalidate wm w rc)"
proof -
  have g: "grid X Y wm" using assms(1) by (simp add: scene_ok_def desk_frame_ok_def)
  obtain wm' where w: "WindowMgr_invalidate wm w rc = Some wm'" "grid X Y wm'" "keeps wm wm'"
    "agree scr (px wm') ((px wm)(Update w := px wm (Update w) \<union> (if visible (wins wm w) then rect_pixs rc \<inter> vis wm w else {})))"
    using invalidate_runs [OF g _ assms(3), of rc] assms(4) by (auto simp: runs_def ok_rect_def simp del: fun_upd_apply)
  have p: "px wm' s = px wm s" if "s \<notin> scr" "s \<noteq> Update w" for s using w(4) that by (auto simp: agree_def)
  note s = keeps_scene [OF w(3) p p, simplified]
  have u: "px wm (Update q) \<subseteq> px wm' (Update q)" for q using w(4) by (cases "q = w") (auto simp: agree_def)
  have "owed wm' cv"
    by (rule owed_more [OF assms(2) s(1,2)]) (use u p in \<open>auto simp: dirty_def split: option.splits\<close>)
  moreover have "scene_ok X Y wm'" using assms(1) w(2,3) by (simp add: scene_ok_def desk_frame_ok_def s(4)) (simp add: keeps_def)
  ultimately show ?thesis using w(1) by (simp add: settles_def)
qed

lemma inval_desk_settles:
  assumes "scene_ok X Y wm" "owed wm cv" "ok_rect X Y rc"
  shows "settles X Y cv (WindowMgr_invalidate_desktop wm rc)"
proof -
  have g: "grid X Y wm" "ok_rect X Y (desktop_frame wm)" using assms(1) by (simp_all add: scene_ok_def desk_frame_ok_def)
  obtain wm' where w: "WindowMgr_invalidate_desktop wm rc = Some wm'" "grid X Y wm'" "keeps wm wm'"
    "agree scr (px wm') (given wm (front wm) (rect_pixs rc \<inter> rect_pixs (desktop_frame wm)))"
    using invalidate_desktop_runs [OF g(1), of rc] assms(3) g(2) by (auto simp: runs_def ok_rect_def)
  have p: "px wm' (Struc q) = px wm (Struc q)" "px wm' Overlay = px wm Overlay" for q
    using w(4) by (simp_all add: agree_def given_def)
  note s = keeps_scene [OF w(3) p]
  have u: "dirty wm q \<subseteq> dirty wm' q" for q using w(4) by (cases q) (auto simp: dirty_def agree_def given_def)
  have d: "pt \<in> px wm' Desk \<Longrightarrow> pt \<in> px wm Desk \<or> owner wm pt = None" for pt
    using w(4) by (auto simp: agree_def given_def claims_def owner_def)
  have "owed wm' cv" by (rule owed_more [OF assms(2) s(1,2) u d])
  moreover have "scene_ok X Y wm'" using assms(1) w(2,3) by (simp add: scene_ok_def desk_frame_ok_def s(4)) (simp add: keeps_def)
  ultimately show ?thesis using w(1) by (simp add: settles_def)
qed

lemma event_fine:
  assumes "scene_ok X Y wm" "owed wm cv" "enabled X Y e wm"
  shows "fine X Y (desk_step plist e wm cv)"
proof -
  have c: "desk_frame_ok X Y wm" "distinct (front wm)" "hilites_ok wm" using assms(1) by (simp_all add: scene_ok_def)
  note st = assms(1,2)
  show ?thesis
  proof (cases e)
    case (ENew w fr ct wKind wVariant goAway)
    then have n: "w \<notin> set (front wm)" "\<not> hilited (wins wm w)" "struct_on X Y fr wVariant" "content_on X Y ct wVariant" using assms(3) by simp_all
    have "settles X Y cv (NewWindow wm w fr ct wKind wVariant goAway)"
      by (rule settles_op [where w = w, OF st runs_weaken [OF new_runs [OF c(1,2) n]]]) (auto intro!: repaints_full dest: step_apart)
    with ENew show ?thesis by (simp add: settles_fine)
  next
    case (EHide w)
    with hide_settles [OF st, of w] assms(3) show ?thesis by (simp add: settles_fine)
  next
    case (EDispose w)
    then have w: "w \<in> set (front wm)" using assms(3) by simp
    have "settles X Y cv (DisposeWindow wm w)"
      by (rule settles_op [where w = w, OF st runs_weaken [OF dispose_runs [OF c(1,2) w]]]) (use c(2) in \<open>auto intro: repaints_gone\<close>)
    with EDispose show ?thesis by (simp add: settles_fine)
  next
    case (EShow w)
    with settles_op [OF st show_all_runs [OF st(1), of w]] assms(3) show ?thesis by (simp only: desk_step.simps enabled.simps settles_fine)
  next
    case (ESelect w)
    then have w: "w \<in> set (front wm)" using assms(3) by simp
    have "settles X Y cv (SelectWindow wm w)"
      by (rule settles_op [where w = w, OF st runs_weaken [OF select_runs [OF c(1,2) w c(3)]]]) simp
    with ESelect show ?thesis by (simp add: settles_fine)
  next
    case (EDrag w dh dv)
    with settles_op [OF st drag_runs [OF st(1), of w dh dv]] assms(3) show ?thesis by (simp only: desk_step.simps settles_fine)
  next
    case (ESize w width height)
    with size_settles [OF st, of w width height] assms(3) show ?thesis by (simp only: desk_step.simps settles_fine)
  next
    case (EZoom w)
    with zoom_settles [OF st, of w] assms(3) show ?thesis by (simp only: desk_step.simps settles_fine_fst)
  next
    case (ECollapse w)
    with collapse_settles [OF st, of w] assms(3) show ?thesis by (simp only: desk_step.simps settles_fine_fst)
  next
    case (EInval w rc)
    with inval_settles [OF st, of w rc] assms(3) show ?thesis by (simp add: settles_fine)
  next
    case (EInvalDesk rc)
    with inval_desk_settles [OF st, of rc] assms(3) show ?thesis by (simp add: settles_fine)
  next
    case EPaintAll
    with paint_all_shows [OF st(1), of cv] show ?thesis by (auto simp: fine_def)
  next
    case ERepaint
    then show ?thesis using repaint_shows [OF st, of plist] clean_owed by (fastforce simp: fine_def)
  qed
qed

section \<open>Sessions\<close>

fun run_session :: "(nat \<Rightarrow> bool) option \<Rightarrow> event list \<Rightarrow> window_mgr \<Rightarrow> canvas \<Rightarrow> (window_mgr \<times> canvas) option" where
  "run_session plist [] wm cv = Some (wm, cv)"
| "run_session plist (e # es) wm cv = do { (wm1, cv1) \<leftarrow> desk_step plist e wm cv; run_session plist es wm1 cv1 }"

fun session_ok :: "int set \<Rightarrow> int set \<Rightarrow> (nat \<Rightarrow> bool) option \<Rightarrow> event list \<Rightarrow> window_mgr \<Rightarrow> canvas \<Rightarrow> bool" where
  "session_ok X Y plist [] wm cv \<longleftrightarrow> True"
| "session_ok X Y plist (e # es) wm cv \<longleftrightarrow> enabled X Y e wm \<and>
     (case desk_step plist e wm cv of None \<Rightarrow> True | Some (wm1, cv1) \<Rightarrow> session_ok X Y plist es wm1 cv1)"

lemma session_fine:
  "scene_ok X Y wm \<Longrightarrow> owed wm cv \<Longrightarrow> session_ok X Y plist es wm cv \<Longrightarrow> fine X Y (run_session plist es wm cv)"
proof (induction es arbitrary: wm cv)
  case Nil
  then show ?case by (simp add: fine_def)
next
  case (Cons e es)
  then obtain wm1 cv1 where s: "desk_step plist e wm cv = Some (wm1, cv1)" "scene_ok X Y wm1" "owed wm1 cv1"
    using event_fine [of X Y wm cv e plist] by (auto simp: fine_def)
  with Cons show ?case by simp
qed

text \<open>A session that starts with a full composite, from any canvas.\<close>

lemma painted_session:
  assumes "scene_ok X Y wm" "session_ok X Y plist (EPaintAll # es) wm cv"
  shows "fine X Y (run_session plist (EPaintAll # es) wm cv)"
proof -
  obtain wm' cv' where p: "desktop_paint_all wm cv = Some (wm', cv')" "scene_ok X Y wm'" "owed wm' cv'"
    using paint_all_shows [OF assms(1), of cv] by blast
  with session_fine [of X Y wm' cv' plist es] assms(2) show ?thesis by simp
qed

lemma run_session_append: "run_session plist (es @ fs) wm cv = do { (wm1, cv1) \<leftarrow> run_session plist es wm cv; run_session plist fs wm1 cv1 }"
  by (induction es arbitrary: wm cv) (auto simp: bind_assoc split_beta intro!: Option.bind_cong)

section \<open>The law of damage for events\<close>

lemma law_set_win_right:
  assumes "damage_law w wm wm1" "\<And>r. visible (f r) = visible r"
  shows "damage_law w wm (set_win wm1 w f)"
proof -
  let ?wm2 = "set_win wm1 w f"
  have o: "owner ?wm2 = owner wm1" by (auto simp: owner_def fun_eq_iff assms(2) intro!: top_of_cong split: if_splits)
  have "flip wm ?wm2 q = flip wm wm1 q" if "q \<noteq> w" for q using that by (simp add: flip_def vis_set_win assms(2))
  then show ?thesis using assms(1) by (simp add: damage_law_def apart_from_def gained_def o)
qed

lemma law_set_win_left:
  assumes "damage_law w (set_win wm w f) wm'" "\<And>r. visible (f r) = visible r"
  shows "damage_law w wm wm'"
proof -
  let ?wm0 = "set_win wm w f"
  have o: "owner ?wm0 = owner wm" by (auto simp: owner_def fun_eq_iff assms(2) intro!: top_of_cong split: if_splits)
  have d: "desk ?wm0 = desk wm" by (simp add: desk_def overlay_def)
  have "flip ?wm0 wm' q = flip wm wm' q" if "q \<noteq> w" for q using that by (simp add: flip_def)
  then show ?thesis using assms(1) by (simp add: damage_law_def apart_from_def gained_def o d)
qed

definition obeys :: "nat \<Rightarrow> window_mgr \<Rightarrow> window_mgr option \<Rightarrow> bool" where
  "obeys w wm m \<longleftrightarrow> (\<exists>wm'. m = Some wm' \<and> damage_law w wm wm')"

lemma runs_obeys: "runs X Y m (\<lambda>wm'. step_ok w wm wm' \<and> Q wm') \<Longrightarrow> obeys w wm m"
  by (auto simp: runs_def obeys_def step_ok_def)

lemma document_obeys:
  assumes "scene_ok X Y wm" "w \<in> set (front wm)" "visible (wins wm w)" "\<And>r. visible (f r) = visible r" "\<And>r. hilited (f r) = hilited r"
    and "\<And>r. windowDefProcVariant (f r) = windowDefProcVariant r" "next_ok X Y fr (windowDefProcVariant (wins wm w)) coll"
  obtains wm' where "set_document_frame (set_win wm w f) w fr coll = Some wm'" "damage_law w wm wm'" "wins wm' = (wins wm)(w := f (wins wm w))"
proof -
  let ?wm0 = "set_win wm w f"
  have act: "active ?wm0 = active wm"
  proof -
    have "(\<lambda>p. visible (wins ?wm0 p)) = (\<lambda>p. visible (wins wm p))" by (auto simp: fun_eq_iff assms(4))
    then show ?thesis unfolding active_def by (simp only: set_win_simps(1))
  qed
  have c: "desk_frame_ok X Y ?wm0" "distinct (front ?wm0)" "w \<in> set (front ?wm0)" "hilites_ok ?wm0" "visible (wins ?wm0 w)"
    using assms(1-3) act by (auto simp: scene_ok_def desk_frame_ok_def hilites_ok_def assms(4,5))
  from document_frame_runs [OF c, of fr coll] assms(6,7) law_set_win_left [OF _ assms(4)] that show thesis
    by (auto simp: runs_def step_ok_def)
qed

end
