(* ===== verification/WindowHit.thy ===== *)
theory WindowHit imports Window begin

text \<open>
  Finding the window and the part of it under a point (\<open>FindWindow\<close>, \<open>WindowScrollBand\<close>, \<open>WindowScrollFindPart\<close> of
  \<open>os/flair/window.c\<close>) and the standard scroll bars (\<open>os/flair/winscroll.h\<close>). A point is a pair of its horizontal and
  its vertical coordinate; axis 0 is the vertical bar, 1 the horizontal one.
\<close>

section \<open>Scroll bars\<close>

abbreviation (input) SCROLL_ARROW_TILE :: int where "SCROLL_ARROW_TILE \<equiv> 16"
abbreviation (input) SCROLL_THUMB_MIN :: int where "SCROLL_THUMB_MIN \<equiv> 15"
abbreviation (input) GROW :: int where "GROW \<equiv> 18"
abbreviation (input) GROW_RIGHT_OFF :: int where "GROW_RIGHT_OFF \<equiv> 19"
abbreviation (input) GROW_BOTTOM_OFF :: int where "GROW_BOTTOM_OFF \<equiv> 19"
abbreviation (input) WSCROLL_V :: nat where "WSCROLL_V \<equiv> 0"
abbreviation (input) WSCROLL_H :: nat where "WSCROLL_H \<equiv> 1"

datatype scroll_part = WSCROLL_PART_NONE | WSCROLL_PART_UP | WSCROLL_PART_DOWN | WSCROLL_PART_PAGEUP | WSCROLL_PART_PAGEDOWN | WSCROLL_PART_THUMB

definition wscroll_bar_rect :: "rgn_rect \<Rightarrow> nat \<Rightarrow> rgn_rect" where
  "wscroll_bar_rect frame axis =
     (let grow_x = rright frame - 1 - GROW_RIGHT_OFF; grow_y = rbottom frame - 1 - GROW_BOTTOM_OFF in
      if axis = WSCROLL_V
      then let l = i16 (grow_x - FRAME) in mk_rect (i16 (rtop frame + TITLEBAR_H - 1)) l (i16 grow_y) (i16 (l + SCROLLBAR_W))
      else let t = i16 (grow_y - FRAME) in mk_rect t (i16 (rleft frame + FRAME + BODY_BAR)) (i16 (t + SCROLLBAR_W)) (i16 grow_x))"

definition wscroll_along :: "rgn_rect \<Rightarrow> nat \<Rightarrow> int \<times> int" where
  "wscroll_along bar axis = (if axis = WSCROLL_V then (rtop bar, rbottom bar) else (rleft bar, rright bar))"

definition wscroll_pt_in :: "rgn_rect \<Rightarrow> int \<times> int \<Rightarrow> bool" where
  "wscroll_pt_in r pt \<longleftrightarrow> fst pt \<ge> rleft r \<and> fst pt < rright r \<and> snd pt \<ge> rtop r \<and> snd pt < rbottom r"

definition wscroll_enabled :: "scroll_axis option \<Rightarrow> bool" where
  "wscroll_enabled a = (case a of None \<Rightarrow> False | Some x \<Rightarrow> axis_max x > 0)"

definition wscroll_track_lo :: "rgn_rect \<Rightarrow> nat \<Rightarrow> int" where
  "wscroll_track_lo bar axis = fst (wscroll_along bar axis) + SCROLL_ARROW_TILE"

definition wscroll_track_span :: "rgn_rect \<Rightarrow> nat \<Rightarrow> int" where
  "wscroll_track_span bar axis =
     (let (lo, hi) = wscroll_along bar axis; span = (hi - SCROLL_ARROW_TILE - SCROLL_THUMB_MIN) - (lo + SCROLL_ARROW_TILE)
      in if span < 0 then 0 else span)"

definition wscroll_thumb_pos :: "rgn_rect \<Rightarrow> nat \<Rightarrow> scroll_axis \<Rightarrow> int" where
  "wscroll_thumb_pos bar axis a =
     (let lo = wscroll_track_lo bar axis; span = wscroll_track_span bar axis in
      if axis_max a \<le> 0 \<or> span \<le> 0 then lo
      else let v = (if axis_value a < 0 then 0 else axis_value a); v1 = (if v > axis_max a then axis_max a else v)
           in lo + v1 * span div axis_max a)"

definition wscroll_value_from_thumb :: "rgn_rect \<Rightarrow> nat \<Rightarrow> scroll_axis \<Rightarrow> int \<Rightarrow> int" where
  "wscroll_value_from_thumb bar axis a pos =
     (let lo = wscroll_track_lo bar axis; span = wscroll_track_span bar axis in
      if axis_max a \<le> 0 \<or> span \<le> 0 then 0
      else let off = (if pos - lo < 0 then 0 else pos - lo); off1 = (if off > span then span else off)
           in i16 ((off1 * axis_max a + (span - 1)) div span))"

definition wscroll_test_part :: "rgn_rect \<Rightarrow> nat \<Rightarrow> scroll_axis \<Rightarrow> int \<times> int \<Rightarrow> scroll_part" where
  "wscroll_test_part bar axis a pt =
     (if \<not> wscroll_pt_in bar pt \<or> \<not> wscroll_enabled (Some a) then WSCROLL_PART_NONE
      else
        let (lo, hi) = wscroll_along bar axis; p = (if axis = WSCROLL_V then snd pt else fst pt) in
        if p < lo + SCROLL_ARROW_TILE then WSCROLL_PART_UP
        else if p \<ge> hi - SCROLL_ARROW_TILE then WSCROLL_PART_DOWN
        else
          let tp = (if drag_pos a \<ge> 0 then drag_pos a else wscroll_thumb_pos bar axis a) in
          if p \<ge> tp \<and> p < tp + SCROLL_THUMB_MIN then WSCROLL_PART_THUMB
          else if p < tp then WSCROLL_PART_PAGEUP else WSCROLL_PART_PAGEDOWN)"

definition wscroll_step :: "scroll_axis \<Rightarrow> scroll_part \<Rightarrow> scroll_axis \<times> bool" where
  "wscroll_step a part =
     (if \<not> wscroll_enabled (Some a) then (a, False)
      else case part of
        WSCROLL_PART_UP \<Rightarrow> wscroll_set_value a (axis_value a + - axis_line a)
      | WSCROLL_PART_DOWN \<Rightarrow> wscroll_set_value a (axis_value a + axis_line a)
      | WSCROLL_PART_PAGEUP \<Rightarrow> wscroll_set_value a (axis_value a + - axis_page a)
      | WSCROLL_PART_PAGEDOWN \<Rightarrow> wscroll_set_value a (axis_value a + axis_page a)
      | _ \<Rightarrow> (a, False))"

definition WindowScrollBand :: "window_mgr \<Rightarrow> nat \<Rightarrow> int \<times> int \<Rightarrow> nat option" where
  "WindowScrollBand wm w pt =
     (let r = wins wm w; frame = WindowFrameRect wm w in
      if \<not> visible r \<or> collapsed r \<or> \<not> document_variant (windowDefProcVariant r) \<or> region_is_empty (rgn wm (Struc w)) then None
      else if rright frame - rleft frame < 2 * GROW + 2 \<or> rbottom frame - rtop frame < TITLEBAR_H + GROW + 2 then None
      else if snd pt < i16 (rtop frame + TITLEBAR_H) then None
      else if wscroll_pt_in (wscroll_bar_rect frame WSCROLL_V) pt then Some WSCROLL_V
      else if wscroll_pt_in (wscroll_bar_rect frame WSCROLL_H) pt then Some WSCROLL_H
      else None)"

definition scroll_axis_of :: "window_scroll \<Rightarrow> nat \<Rightarrow> scroll_axis" where
  "scroll_axis_of s axis = (if axis = WSCROLL_V then axis_v s else axis_h s)"

definition WindowScrollFindPart :: "window_mgr \<Rightarrow> nat \<Rightarrow> int \<times> int \<Rightarrow> nat option \<times> scroll_part" where
  "WindowScrollFindPart wm w pt =
     (let a = WindowScrollBand wm w pt in
      (a, case a of None \<Rightarrow> WSCROLL_PART_NONE
        | Some axis \<Rightarrow> if \<not> hilited (wins wm w) then WSCROLL_PART_NONE
            else case WindowScrollOf wm w of None \<Rightarrow> WSCROLL_PART_NONE
              | Some ws \<Rightarrow> wscroll_test_part (wscroll_bar_rect (WindowFrameRect wm w) axis) axis (scroll_axis_of ws axis) pt))"

section \<open>FindWindow\<close>

datatype flair_part_code = inDesk | inContent | inDrag | inGrow | inGoAway | inZoomIn | inZoomOut | inCollapse

abbreviation (input) WIDGET_TOP_OFF :: int where "WIDGET_TOP_OFF \<equiv> 4"
abbreviation (input) WIDGET_BOX :: int where "WIDGET_BOX \<equiv> 12"
abbreviation (input) CLOSE_LEFT_OFF :: int where "CLOSE_LEFT_OFF \<equiv> 4"
abbreviation (input) ZOOM_RIGHT_OFF :: int where "ZOOM_RIGHT_OFF \<equiv> 32"
abbreviation (input) COLLAPSE_RIGHT_OFF :: int where "COLLAPSE_RIGHT_OFF \<equiv> 16"

definition in_box :: "int \<times> int \<Rightarrow> int \<Rightarrow> int \<Rightarrow> int \<Rightarrow> bool" where
  "in_box pt bx by' size' \<longleftrightarrow> fst pt \<ge> bx \<and> fst pt < i16 (bx + size') \<and> snd pt \<ge> by' \<and> snd pt < i16 (by' + size')"

text \<open>The part of window \<open>p\<close>, which covers the point.\<close>

definition chrome_part :: "window_mgr \<Rightarrow> nat \<Rightarrow> int \<times> int \<Rightarrow> flair_part_code" where
  "chrome_part wm p pt =
     (let r = wins wm p; flags = widgetFlags r; s = WindowFrameRect wm p;
          ri = i16 (rright s - 1); bi = i16 (rbottom s - 1); wy = i16 (rtop s + WIDGET_TOP_OFF) in
      if windowDefProcVariant r = rDocProc then
        (if hilited r \<and> goAwayFlag r \<and> flags AND WIDGET_CLOSE \<noteq> 0 \<and> in_box pt (i16 (rleft s + 9)) (i16 (rtop s + 4)) 10
         then inGoAway else inDrag)
      else if hilited r \<and> flags AND WIDGET_CLOSE \<noteq> 0 \<and> goAwayFlag r \<and> in_box pt (i16 (rleft s + CLOSE_LEFT_OFF)) wy WIDGET_BOX
      then inGoAway
      else if hilited r \<and> flags AND WIDGET_ZOOM \<noteq> 0 \<and> in_box pt (i16 (ri - ZOOM_RIGHT_OFF)) wy WIDGET_BOX
      then (if zoomed r then inZoomOut else inZoomIn)
      else if hilited r \<and> flags AND WIDGET_COLLAPSE \<noteq> 0 \<and> in_box pt (i16 (ri - COLLAPSE_RIGHT_OFF)) wy WIDGET_BOX
      then inCollapse
      else if hilited r \<and> \<not> collapsed r \<and> flags AND WIDGET_GROW \<noteq> 0 \<and>
          in_box pt (i16 (ri - GROW_RIGHT_OFF)) (i16 (bi - GROW_BOTTOM_OFF)) GROW
      then inGrow
      else inDrag)"

primrec find_from :: "window_mgr \<Rightarrow> nat list \<Rightarrow> int \<times> int \<Rightarrow> flair_part_code \<times> nat option" where
  "find_from wm [] pt = (inDesk, None)"
| "find_from wm (p # ps) pt =
     (if \<not> visible (wins wm p) then find_from wm ps pt
      else if \<not> region_contains_point (rgn wm (Struc p)) (fst pt) (snd pt) then find_from wm ps pt
      else (if WindowScrollBand wm p pt \<noteq> None then inContent
            else if region_contains_point (rgn wm (Cont p)) (fst pt) (snd pt) then inContent
            else chrome_part wm p pt, Some p))"

definition FindWindow :: "window_mgr \<Rightarrow> int \<times> int \<Rightarrow> flair_part_code \<times> nat option" where
  "FindWindow wm pt = find_from wm (front wm) pt"

end
