(* ===== verification/WindowProps.thy ===== *)
theory WindowProps imports SessionRun WindowHit begin

text \<open>
  Properties of the window manager and the repaint cycle, with a small desktop on which their hypotheses hold.
\<close>

section \<open>Events obey the law of damage\<close>






section \<open>A desktop with two windows\<close>

definition plain_win :: "bool \<Rightarrow> bool \<Rightarrow> window_rec" where
  "plain_win vi hi = \<lparr>windowKind = 8, windowDefProcVariant = 1, visible = vi, hilited = hi, goAwayFlag = False, widgetFlags = 0,
     zoomed = False, collapsed = False, userStateValid = False, userState = mk_rect 0 0 0 0, collapseState = mk_rect 0 0 0 0,
     titleHandle = [], titleWidth = 0\<rparr>"

definition no_pixels :: region where
  "no_pixels = \<lparr>bbox = mk_rect 0 0 0 0, rows = [], cap_rows = 64, x_pool_used = 0, x_pool_cap = 1024, is_rect = False, is_empty = True\<rparr>"

definition a_rect :: "int \<Rightarrow> int \<Rightarrow> int \<Rightarrow> int \<Rightarrow> region" where
  "a_rect t l b r = \<lparr>bbox = mk_rect t l b r, rows = [\<lparr>y_top = t, row_x = [l, r]\<rparr>, \<lparr>y_top = b, row_x = []\<rparr>],
     cap_rows = 64, x_pool_used = 2, x_pool_cap = 1024, is_rect = True, is_empty = False\<rparr>"

definition two_windows :: window_mgr where
  "two_windows = \<lparr>front = [2, 1], wins = (\<lambda>n. plain_win (n = 1 \<or> n = 2) (n = 2)),
     rgn = (\<lambda>s. case s of Struc n \<Rightarrow> if n = 1 then a_rect 40 10 140 110 else if n = 2 then a_rect 100 50 200 150 else no_pixels
       | Cont n \<Rightarrow> if n = 1 then a_rect 42 12 138 108 else if n = 2 then a_rect 102 52 198 148 else no_pixels | _ \<Rightarrow> no_pixels),
     desktop_frame = mk_rect 0 0 480 640, has_overlay = False, scrolls = [], engine = \<lparr>ws_bound = True, ws_in_use = False\<rparr>\<rparr>"

definition demo_X :: "int set" where "demo_X = {0, 10, 12, 50, 52, 108, 110, 112, 148, 150, 208, 210, 640}"
definition demo_Y :: "int set" where "demo_Y = {0, 40, 42, 100, 102, 138, 140, 198, 200, 480}"

lemma two_windows_ok: "scene_ok demo_X demo_Y two_windows"
proof -
  have b: "gridded demo_X demo_Y no_pixels" by (simp add: gridded_def region_ok_def no_pixels_def roomy_def demo_X_def demo_Y_def)
  have r: "gridded demo_X demo_Y (a_rect t l b r)" if "t < b" "l < r" "{t, b} \<subseteq> demo_Y" "{l, r} \<subseteq> demo_X" for t l b r
    using that by (simp add: gridded_def region_ok_def a_rect_def roomy_def normal_rows_def rows_ok_def rows_bbox_def rows_is_rect_def)
      (simp add: demo_X_def demo_Y_def)
  have "gridded demo_X demo_Y (rgn two_windows s)" for s
    by (cases s) (auto simp: two_windows_def b intro!: r, auto simp: demo_X_def demo_Y_def)
  moreover have "grid_ok demo_X demo_Y" by (simp add: grid_ok_def demo_X_def demo_Y_def)
  ultimately show ?thesis
    by (simp add: scene_ok_def desk_frame_ok_def grid_def hilites_ok_def active_def)
      (simp add: two_windows_def plain_win_def ok_rect_def rect_on_def demo_X_def demo_Y_def)
qed

text \<open>The same desktop when the rear window owes its whole structure, and a scroll axis.\<close>

definition indebted :: window_mgr where
  "indebted = two_windows\<lparr>rgn := (rgn two_windows)(Update 1 := a_rect 40 10 140 110)\<rparr>"

lemma indebted_ok: "scene_ok demo_X demo_Y indebted"
proof -
  have "gridded demo_X demo_Y (a_rect 40 10 140 110)"
    using two_windows_ok by (auto simp: scene_ok_def desk_frame_ok_def grid_def two_windows_def dest!: spec [of _ "Struc 1"])
  then show ?thesis using two_windows_ok by (simp add: indebted_def scene_ok_def desk_frame_ok_def grid_def hilites_ok_def active_def)
qed

definition demo_axis :: scroll_axis where
  "demo_axis = \<lparr>content_len = 200, axis_value = 37, axis_max = 100, axis_line = 1, axis_page = 10, axis_hilite = 0, drag_pos = - 1\<rparr>"

section \<open>Points in windows\<close>

definition part_at :: "window_mgr \<Rightarrow> nat \<Rightarrow> int \<times> int \<Rightarrow> flair_part_code" where
  "part_at wm p pt = (if WindowScrollBand wm p pt \<noteq> None \<or> pt \<in> px wm (Cont p) then inContent else chrome_part wm p pt)"

lemma find_from_owner:
  assumes "grid X Y wm"
  shows "find_from wm ps pt = (case top_of wm ps pt of None \<Rightarrow> (inDesk, None) | Some p \<Rightarrow> (part_at wm p pt, Some p))"
  using contains_px [OF assms, of _ "fst pt" "snd pt"] by (induction ps) (auto simp: part_at_def)

lemma chrome_not_content: "chrome_part wm p pt \<noteq> inContent" "chrome_part wm p pt \<noteq> inDesk"
  by (simp_all add: chrome_part_def Let_def)

lemma chrome_unlit: "\<not> hilited (wins wm p) \<Longrightarrow> chrome_part wm p pt = inDrag"
  by (simp add: chrome_part_def Let_def)

section \<open>Thumb arithmetic\<close>

lemma floor_ge: "0 < (m::int) \<Longrightarrow> k \<le> x div m \<longleftrightarrow> k * m \<le> x"
proof
  assume "0 < m" "k \<le> x div m"
  then have "k * m \<le> x div m * m" by (simp add: mult_right_mono)
  also have "x div m * m \<le> x" using div_mult_mod_eq [of x m] pos_mod_sign [OF \<open>0 < m\<close>, of x] by linarith
  finally show "k * m \<le> x" .
next
  assume "0 < m" "k * m \<le> x"
  then show "k \<le> x div m" using zdiv_mono1 [of "k * m" x m] by simp
qed

lemma ceil_le: "0 < (s::int) \<Longrightarrow> (x + (s - 1)) div s \<le> v \<longleftrightarrow> x \<le> v * s"
  using floor_ge [of s "v + 1" "x + (s - 1)"] by (simp add: algebra_simps) linarith

lemma thumb_pos_ge:
  assumes "0 < axis_max a" "0 < wscroll_track_span bar axis" "0 \<le> axis_value a" "axis_value a \<le> axis_max a"
  shows "pos \<le> wscroll_thumb_pos bar axis a \<longleftrightarrow>
    (pos - wscroll_track_lo bar axis) * axis_max a \<le> axis_value a * wscroll_track_span bar axis"
proof -
  have "wscroll_thumb_pos bar axis a = wscroll_track_lo bar axis + axis_value a * wscroll_track_span bar axis div axis_max a"
    using assms by (simp add: wscroll_thumb_pos_def Let_def)
  then show ?thesis
    using floor_ge [OF assms(1), of "pos - wscroll_track_lo bar axis" "axis_value a * wscroll_track_span bar axis"] by linarith
qed

lemma i16_id: "-0x8000 \<le> x \<Longrightarrow> x < 0x8000 \<Longrightarrow> i16 x = x"
  by (simp add: i16_def)

lemma value_from_thumb_le:
  assumes "0 < axis_max a" "axis_max a \<le> 32767" "0 < wscroll_track_span bar axis"
    and "wscroll_track_lo bar axis \<le> pos" "pos \<le> wscroll_track_lo bar axis + wscroll_track_span bar axis"
  shows "wscroll_value_from_thumb bar axis a pos \<le> v \<longleftrightarrow>
      (pos - wscroll_track_lo bar axis) * axis_max a \<le> v * wscroll_track_span bar axis"
    and "0 \<le> wscroll_value_from_thumb bar axis a pos"
proof -
  let ?o = "pos - wscroll_track_lo bar axis" and ?s = "wscroll_track_span bar axis" and ?m = "axis_max a"
  let ?q = "(?o * ?m + (?s - 1)) div ?s"
  have "?o * ?m \<le> ?m * ?s" using assms(1,5) by (simp add: mult.commute mult_left_mono)
  then have "?q \<le> ?m" using ceil_le [OF assms(3), of "?o * ?m" ?m] by simp
  moreover have nn: "0 \<le> ?q" using assms(1,3,4) by (simp add: pos_imp_zdiv_nonneg_iff)
  ultimately have "i16 ?q = ?q" using assms(2) by (intro i16_id) simp_all
  then have e: "wscroll_value_from_thumb bar axis a pos = ?q" using assms by (simp add: wscroll_value_from_thumb_def Let_def)
  show "wscroll_value_from_thumb bar axis a pos \<le> v \<longleftrightarrow> ?o * ?m \<le> v * ?s" unfolding e by (rule ceil_le [OF assms(3)])
  show "0 \<le> wscroll_value_from_thumb bar axis a pos" unfolding e by (rule nn)
qed

lemma thumb_round_trip:
  assumes "0 < axis_max a" "axis_max a \<le> 32767" "0 < wscroll_track_span bar axis" "0 \<le> axis_value a" "axis_value a \<le> axis_max a"
    and "axis_max a \<le> wscroll_track_span bar axis"
  shows "wscroll_value_from_thumb bar axis a (wscroll_thumb_pos bar axis a) = axis_value a"
proof -
  let ?s = "wscroll_track_span bar axis" and ?m = "axis_max a" and ?v = "axis_value a"
  let ?p = "wscroll_thumb_pos bar axis a" and ?lo = "wscroll_track_lo bar axis"
  note g = thumb_pos_ge [OF assms(1,3-5)]
  have lo: "?lo \<le> ?p" unfolding g using assms(3,4) by simp
  have "?v * ?s \<le> ?m * ?s" using assms(3,5) by (simp add: mult_right_mono)
  then have "?v * ?s < (?lo + ?s + 1 - ?lo) * ?m" using assms(1) by (simp add: algebra_simps)
  then have "\<not> ?lo + ?s + 1 \<le> ?p" unfolding g by linarith
  then have hi: "?p \<le> ?lo + ?s" by simp
  have le: "(?p - ?lo) * ?m \<le> ?v * ?s" using g [of ?p] by simp
  have "\<not> ?p + 1 \<le> ?p" by simp
  then have gt: "?v * ?s < (?p + 1 - ?lo) * ?m" unfolding g by simp
  let ?w = "wscroll_value_from_thumb bar axis a ?p"
  have "?w \<le> ?v" using value_from_thumb_le(1) [OF assms(1-3) lo hi] le by simp
  moreover have "\<not> ?w \<le> ?v - 1"
  proof (cases "?v = 0")
    case True
    with value_from_thumb_le(2) [OF assms(1-3) lo hi] show ?thesis by simp
  next
    case False
    note i = value_from_thumb_le(1) [OF assms(1-3) lo hi]
    have "(?v - 1) * ?s < (?p - ?lo) * ?m" using gt assms(6) by (simp add: algebra_simps)
    then show ?thesis unfolding i by linarith
  qed
  ultimately show ?thesis by simp
qed

section \<open>Properties\<close>





text \<open>C39: on a well-formed scene the delivery of update events never traps, and hands to the visible windows with an
  application, from the front to the back, exactly the part of their damage they own; a handler that draws inside its region
  touches no pixel of another window. Afterwards no visible window owes anything, and nothing else has changed owner.\<close>

theorem updates_delivered_exactly:
  assumes "scene_ok X Y wm"
  shows "\<exists>wm' evs. flair_route_updates receives wm = Some (wm', evs) \<and>
    map (\<lambda>(w, r). (w, pixs r)) evs = map (\<lambda>w. (w, px wm (Update w) \<inter> vis wm w))
      (filter (\<lambda>w. visible (wins wm w) \<and> receives w \<and> px wm (Update w) \<inter> vis wm w \<noteq> {}) (front wm)) \<and>
    (\<forall>(w, r) \<in> set evs. \<forall>pt \<in> pixs r. pt \<notin> overlay wm \<and> owner wm pt = Some w) \<and>
    (\<forall>q \<in> set (front wm). visible (wins wm q) \<longrightarrow> px wm' (Update q) = {}) \<and> front wm' = front wm \<and> owner wm' = owner wm"
proof -
  have c: "grid X Y wm" "distinct (front wm)" using assms by (simp_all add: scene_ok_def desk_frame_ok_def)
  obtain wm' evs where r: "flair_route_updates receives wm = Some (wm', evs)" "keeps wm wm'" "agree scr (px wm') (serviced wm (set (front wm)))"
    "map (\<lambda>(w, r). (w, pixs r)) evs = deliveries receives wm (front wm)"
    using route_spec [OF c(1) order_refl c(2), of receives] by (auto simp: flair_route_updates_def)
  have p: "px wm' (Struc q) = px wm (Struc q)" "px wm' Overlay = px wm Overlay"
    "q \<in> set (front wm) \<Longrightarrow> visible (wins wm q) \<Longrightarrow> px wm' (Update q) = {}" for q
    using r(3) by (simp_all add: agree_def serviced_def)
  have "pt \<notin> overlay wm \<and> owner wm pt = Some w" if "(w, r) \<in> set evs" "pt \<in> pixs r" for w r pt
  proof -
    have "(w, pixs r) \<in> set (deliveries receives wm (front wm))" using that(1) unfolding r(4) [symmetric] by force
    then have "pixs r \<subseteq> vis wm w" "w \<in> set (front wm)" "visible (wins wm w)" by (auto simp: deliveries_def)
    with that(2) show ?thesis by (auto simp: vis_owner)
  qed
  with r p show ?thesis using keeps_scene(1) [OF r(2) p(1,2)] by (auto simp: deliveries_def keeps_def)
qed

text \<open>The rear window owes all it covers; it is handed what the front one leaves.\<close>

theorem updates_delivered_exactly_witness:
  "\<exists>wm' evs. flair_route_updates (\<lambda>w. True) indebted = Some (wm', evs) \<and>
    map (\<lambda>(w, r). (w, pixs r)) evs = [(1, px indebted (Update 1) \<inter> vis indebted 1)]"
proof -
  have f: "front indebted = [2, 1]" "visible (wins indebted 1)" "visible (wins indebted 2)" "has_overlay indebted = False"
    by (simp_all add: indebted_def two_windows_def plain_win_def)
  have u: "px indebted (Update 2) = {}" "(20, 50) \<in> px indebted (Update 1)" "(20, 50) \<in> px indebted (Struc 1)" "(20, 50) \<notin> px indebted (Struc 2)"
    by (simp_all add: px_def pixs_def pixel_def indebted_def two_windows_def a_rect_def no_pixels_def parity_def)
  have "(20, 50) \<in> vis indebted 1" using f u by (auto simp: vis_def cover_def before_def overlay_def)
  then have "px indebted (Update 1) \<inter> vis indebted 1 \<noteq> {}" using u by blast
  then show ?thesis using updates_delivered_exactly [OF indebted_ok, of "\<lambda>w. True"] f u by auto
qed

text \<open>C40: a click finds the window that owns the pixel, the one whose visible region (as \<open>ComputeVisible\<close> computes it)
  contains it; it is in the content exactly on the window's content or scroll bars, and a window without the highlight
  offers no widget.\<close>

theorem find_window_exact:
  assumes "scene_ok X Y wm" "w \<in> set (front wm)" "pt \<notin> overlay wm"
  shows "snd (FindWindow wm pt) = owner wm pt \<and>
    (\<exists>wm'. ComputeVisible wm w = Some wm' \<and>
      (snd (FindWindow wm pt) = Some w \<longleftrightarrow> region_contains_point (rgn wm' Caller) (fst pt) (snd pt))) \<and>
    (fst (FindWindow wm pt) = inDesk \<longleftrightarrow> owner wm pt = None) \<and>
    (owner wm pt = Some w \<longrightarrow>
      (fst (FindWindow wm pt) = inContent \<longleftrightarrow> WindowScrollBand wm w pt \<noteq> None \<or> pt \<in> px wm (Cont w)) \<and>
      (\<not> hilited (wins wm w) \<longrightarrow> fst (FindWindow wm pt) \<in> {inContent, inDrag}))"
proof -
  have f: "desk_frame_ok X Y wm" and g: "grid X Y wm" using assms(1) by (simp_all add: scene_ok_def desk_frame_ok_def)
  note fw = find_from_owner [OF g, of "front wm" pt, folded FindWindow_def owner_def]
  obtain wm' where v: "ComputeVisible wm w = Some wm'" "grid X Y wm'" "px wm' Caller = (if visible (wins wm w) then vis wm w else {})"
    using compute_visible_runs [OF g f, of w] by (auto simp: runs_def agree_def)
  have "owner wm pt = Some w \<longleftrightarrow> pt \<in> px wm' Caller"
    using vis_owner [OF assms(2)] never_owner [of w wm pt] assms(3) by (auto simp: v(3))
  then have "snd (FindWindow wm pt) = Some w \<longleftrightarrow> region_contains_point (rgn wm' Caller) (fst pt) (snd pt)"
    using contains_px [OF v(2), of Caller "fst pt" "snd pt"] by (auto simp: fw split: option.splits)
  with v(1) show ?thesis
    by (auto simp: fw part_at_def chrome_not_content chrome_unlit split: option.splits if_splits)
qed

theorem find_window_exact_witness:
  "snd (FindWindow two_windows (60, 110)) = Some 2 \<and> fst (FindWindow two_windows (60, 110)) \<noteq> inDesk"
proof -
  have w: "2 \<in> set (front two_windows)" "(60, 110) \<notin> overlay two_windows" by (simp_all add: two_windows_def overlay_def)
  have "owner two_windows (60, 110) = Some 2"
    by (simp add: owner_def two_windows_def plain_win_def px_def pixs_def pixel_def a_rect_def parity_def)
  with find_window_exact [OF two_windows_ok w] show ?thesis by auto
qed

text \<open>The thumb and the value of a scroll bar are adjoint: the value read from a thumb position is the least value
  whose thumb is there or beyond; where the track is at least as long as the range, dragging the thumb to where it is
  keeps the value.\<close>

theorem scroll_thumb_adjoint:
  assumes "0 < axis_max a" "axis_max a \<le> 32767" "0 < wscroll_track_span bar axis" "0 \<le> axis_value a" "axis_value a \<le> axis_max a"
    and "wscroll_track_lo bar axis \<le> pos" "pos \<le> wscroll_track_lo bar axis + wscroll_track_span bar axis"
  shows "(wscroll_value_from_thumb bar axis a pos \<le> axis_value a \<longleftrightarrow> pos \<le> wscroll_thumb_pos bar axis a) \<and>
    (axis_max a \<le> wscroll_track_span bar axis \<longrightarrow>
      wscroll_value_from_thumb bar axis a (wscroll_thumb_pos bar axis a) = axis_value a)"
proof -
  note v = value_from_thumb_le(1) [OF assms(1-3)]
  have "wscroll_value_from_thumb bar axis a (wscroll_thumb_pos bar axis a) = axis_value a" if "axis_max a \<le> wscroll_track_span bar axis"
    using thumb_round_trip [OF assms(1-5) that] .
  with v [OF assms(6,7)] thumb_pos_ge [OF assms(1,3-5), of pos] show ?thesis by simp
qed

theorem scroll_thumb_adjoint_witness:
  "wscroll_value_from_thumb (mk_rect 0 0 200 16) WSCROLL_V demo_axis (wscroll_thumb_pos (mk_rect 0 0 200 16) WSCROLL_V demo_axis) = 37"
proof -
  note d = demo_axis_def wscroll_track_span_def wscroll_track_lo_def wscroll_along_def
  have "wscroll_value_from_thumb (mk_rect 0 0 200 16) WSCROLL_V demo_axis (wscroll_thumb_pos (mk_rect 0 0 200 16) WSCROLL_V demo_axis) =
      axis_value demo_axis"
    using scroll_thumb_adjoint [of demo_axis "mk_rect 0 0 200 16" WSCROLL_V 16] by (simp add: d)
  then show ?thesis by (simp add: d)
qed

end
