(* ===== verification/Spec2Isabelle.thy ===== *)
theory Spec2Isabelle imports Int21Mem RegionProps PieceProps SftChain FatRefuse RecalcProps WindowProps begin

text \<open>
  A verification library for the C sources of InitechOS (\<open>os/\<close> of the repository): memory, handles
  and files of the InitechDOS kernel MILTON, the region engine, window manager and compositor of the FLAIR desktop, the
  document store of InitechWord, and the worksheet store and recalculation of Initech 123.

  \<^bold>\<open>Conventions.\<close> Theory \<open>Prelude\<close> names the machine integers (\<open>u8\<close>, \<open>u16\<close>, \<open>u32\<close> are words; where a value only
  counts, it is a \<open>nat\<close> with \<open>wrap32\<close> at the places the C expression can wrap), the casts, and the list operations
  \<open>splice\<close> and \<open>window\<close> used for buffers and media. A routine that can fail loud returns an option, \<open>None\<close> for the
  panic; a routine with error codes returns \<open>Inl code\<close> or \<open>Inr result\<close>. State a routine changes is an argument it
  returns updated. Loops are recursive functions proved to terminate; no definition runs on fuel that the code does
  not itself count, and where the code counts steps against a bound the bound is an argument. The \<open>*_MUTATE_*\<close>
  blocks of the sources are off, as in the shipped build.

  \<^bold>\<open>The memory arena\<close> (\<open>os/milton/mcb.c\<close>, the seam of \<open>os/milton/int21.c\<close>). \<open>Mcb\<close> holds the operations on an arena of
  paragraphs. \<open>McbChain\<close> reads an arena as a list of blocks, \<open>McbRefine\<close> shows that each operation of the code
  computes the operation on block lists, \<open>McbSpec\<close> states the contracts of AH=48h, 49h and 4Ah, \<open>McbSteps\<close> makes the
  operations the steps of a state machine with its reachable arenas, \<open>McbHeap\<close> proves isolation between processes
  inside the locales \<open>tiled_heap\<close> and \<open>process_heap\<close>, interpreted on the code's arena. \<open>Int21Mem\<close> holds the handlers
  of \<open>int21.c\<close>; the 32-bit high-memory service of \<open>native.c\<close> is a parameter there.

  \<^bold>\<open>Handles\<close> (\<open>os/milton/sft.c\<close>, \<open>do_open\<close> to \<open>do_dup2\<close> of \<open>int21.c\<close>, the JFT part of \<open>psp_build\<close>). \<open>Sft\<close> holds
  the tables and their operations, \<open>Int21File\<close> the handlers with the directory walk as a parameter, \<open>SftProps\<close> the
  count invariant over a chain of processes (\<open>chain_reach\<close>: boot and any number of steps), \<open>SftChain\<close> the locale \<open>handle_table\<close> and the properties of EXEC, exit and
  shell redirection.

  \<^bold>\<open>The FAT file system\<close> (\<open>os/milton/fat12.c\<close>). \<open>Fat12\<close>, \<open>FatChain\<close> and \<open>FatVolume\<close> hold the reader: sector I/O,
  decoding of entries from the whole FAT or the two-sector window, chains, mounting, names, the root directory, and the
  FAT edits. \<open>FatDir\<close>, \<open>FatWrite\<close> and \<open>FatFile\<close> hold the writer: entry slots, the name scan, directory growth,
  attributes, create, unlink, rename, whole-file and positioned writes, set-size. The block device is a pair of
  functions over a medium. \<open>FatEntry\<close> shows that the FAT is a table of numbers; \<open>FatView\<close> states, as the locale
  \<open>fat_view\<close>, what the walks rely on, and interprets it on the FAT in memory (\<open>whole\<close>) and on the window
  (\<open>windowed\<close>); \<open>FatGeom\<close> what a mount establishes; \<open>FatRead\<close> and \<open>FatEdit\<close> reads, validation, freeing and search
  over the interface; \<open>FatNames\<close> the 8.3 names; \<open>FatProps\<close> the reader's properties. For the writer, \<open>FatStore\<close> treats
  the medium as one list of bytes on which every write is a splice, \<open>FatExtend\<close> and \<open>FatPosition\<close> the single steps
  under the invariant \<open>fs_holds\<close> (the FAT buffer covers the volume, the device stores what it is given), \<open>FatPut\<close> and
  \<open>FatWritten\<close> the stages of a positioned write, \<open>FatWriteDemo\<close> a small volume, \<open>FatWriteProps\<close> what a write stores
  and what a later read returns, \<open>FatRefuse\<close> the refused write and its rollback. Step bounds are the code's own
  \<open>total_clusters + 2\<close>, and \<open>links_bound\<close> shows that no chain needs more.

  \<^bold>\<open>Regions\<close> (\<open>os/flair/atkinson/region.c\<close>, \<open>spec/region_algebra.h\<close>). \<open>Region\<close> holds the engine; \<open>RegionRows\<close> reads
  rows of inversion lists as functions, \<open>RegionNormal\<close> the normal form, \<open>RegionMerge\<close> the scanline merge,
  \<open>RegionOps\<close> when it succeeds in given storage, \<open>RegionUnion\<close> the sweep of \<open>region_from_rects\<close>, \<open>RegionAlgebra\<close> the
  locale \<open>region_algebra\<close> and its interpretation, \<open>RegionProps\<close> the properties.

  \<^bold>\<open>Documents\<close> (\<open>os/iword/core/piece.c\<close>). \<open>Piece\<close> holds the piece table; \<open>PieceSpec\<close> reads it as a byte list,
  \<open>PieceText\<close> and \<open>PieceEdit\<close> the readers, the unit walk and the locale \<open>text_store\<close>, \<open>PieceProps\<close> the properties.

  \<^bold>\<open>Windows\<close> (\<open>os/flair/window.c\<close>, \<open>winscroll.h\<close>, \<open>desktop.c\<close>, \<open>flair_route_updates\<close> of \<open>process.c\<close>, the repaint
  cycle and the drag commit of \<open>os/milton/kmain.c\<close>). \<open>Window\<close> holds the window manager over the region engine, with one
  slot per region so that aliasing is the code's; \<open>WindowHit\<close> the hit test and the scroll bars; \<open>Desktop\<close> the compositor
  and the delivery of updates, over a canvas that says whose drawing a pixel shows. \<open>WindowGrid\<close> shows that the engine
  never overflows on a grid of columns and rows its working set covers, \<open>WindowCalc\<close> reads the operations on pixel sets,
  \<open>WindowOps\<close>, \<open>WindowShape\<close> and \<open>WindowSteps\<close> prove the law of damage for each operation, \<open>Repaint\<close> the painter and the
  delivery, \<open>Session\<close> and \<open>SessionRun\<close> whole sessions under the invariant \<open>owed\<close> (a pixel that does not show its owner is
  owed by it), \<open>WindowProps\<close> the properties. Titles and the drawing inside a clip are not modelled.

  \<^bold>\<open>Worksheets\<close> (\<open>os/i123/core/sheet.c\<close>). \<open>Sheet\<close> holds the cell array, the string pool and their operations;
  \<open>SheetPool\<close> the compaction, \<open>SheetStore\<close> the reading of a sheet as a finite map from addresses to contents, \<open>SheetPut\<close>,
  \<open>SheetOps\<close>, \<open>SheetCache\<close> and \<open>SheetFresh\<close> that storing, erasing, formatting, result storing and clearing act on the map as
  specified and are refused exactly when the map would outgrow the cells or the pool; \<open>SheetProps\<close> the properties.

  \<^bold>\<open>Recalculation\<close> (\<open>os/i123/core/recalc.c\<close>, the tokens and references of \<open>formula.c\<close>). \<open>Recalc\<close> holds it; the evaluator
  (\<open>eval.c\<close>, floating point) and the formula compiler are arguments of the definitions, and nothing is assumed of them.
  \<open>RecalcRefs\<close> turns the code's incremental enumeration of precedents into a list, \<open>RecalcWalk\<close>, \<open>RecalcOrder\<close>,
  \<open>RecalcPass\<close>, \<open>RecalcNatural\<close>, \<open>RecalcPasses\<close> and \<open>RecalcAll\<close> show that a recalculation is the evaluation of one list of
  cells decided by the references, \<open>RecalcKeep\<close> what it keeps, \<open>RecalcFix\<close> that a formula whose value depends only on what
  its references name (\<open>local_at\<close>) shows its value at the end, \<open>RecalcDemo\<close> two small sheets, \<open>RecalcProps\<close> the properties.

  \<^bold>\<open>Not modelled.\<close> The parts of MILTON that drive hardware or only move bytes to a screen; the rest of the INT 21h
  dispatcher; the shell; the database SAMIR; the rest of Initech 123 and of InitechWord; the toolbox above the windows
  and the drawing into the frame buffer; the seed compiler; the test harness, the tools and the vendored data. The
  manifest lists them one by one with the reason.
\<close>

end
